(* ===== verification/Prelude.thy ===== *)
theory Prelude
  imports Main "HOL-Library.Word" "HOL-Library.Signed_Division"
begin

section \<open>Prelude: machine integers, stopping, and shared lemmas\<close>

text \<open>
  The vocabulary shared by all components: the integer types of
  \<^verbatim>\<open>lib/types.h\<close>, the reasons for which the kernel stops
  (\<^verbatim>\<open>lib/error.h\<close>), the sequencing of operations that may stop, and the lemmas
  on words and lists that several components use.
\<close>

unbundle bit_operations_syntax

named_theorems res_simps \<open>rewriting of sequenced operations that may stop\<close>

subsection \<open>Integer types (\<^verbatim>\<open>lib/types.h\<close>)\<close>

type_synonym u8 = "8 word"
type_synonym u16 = "16 word"
type_synonym u32 = "32 word"
type_synonym u64 = "64 word"

subsection \<open>Stopping (\<^verbatim>\<open>lib/error.h\<close>, \<^verbatim>\<open>lib/error.c\<close>)\<close>

text \<open>
  A kernel function either returns or stops the machine. \<open>Panic\<close> is
  \<^verbatim>\<open>kernel_panic\<close>, reached by a failed \<^verbatim>\<open>KERNEL_ASSERT\<close>;
  \<open>PageFault\<close> is an access through a translation that is not present (its handler
  ends in \<^verbatim>\<open>kernel_panic\<close> too); \<open>StaleTlb\<close> is an access to a page whose
  page table entry was rewritten without an invalidation, where the processor may still use
  the old translation; \<open>OutOfBounds\<close> is an access outside of an array of the code;
  \<open>Diverges\<close> is a loop that never ends.
\<close>

datatype stop = Panic | PageFault | StaleTlb | OutOfBounds | Diverges

type_synonym 'a res = "stop + 'a"

definition kernel_panic :: "'a res" where
  "kernel_panic = Inl Panic"

definition kernel_assert :: "bool \<Rightarrow> 'a res \<Rightarrow> 'a res" where
  "kernel_assert c k = (if c then k else kernel_panic)"

definition bind_res :: "'a res \<Rightarrow> ('a \<Rightarrow> 'b res) \<Rightarrow> 'b res" where
  "bind_res r k = (case r of Inl e \<Rightarrow> Inl e | Inr x \<Rightarrow> k x)"

lemma bind_res_simps [simp, res_simps]:
  "bind_res (Inl e) k = Inl e"
  "bind_res (Inr x) k = k x"
  by (simp_all add: bind_res_def)

lemma bind_res_eq_Inr [simp]:
  "bind_res r k = Inr y \<longleftrightarrow> (\<exists>x. r = Inr x \<and> k x = Inr y)"
  by (cases r) auto

lemma bind_res_assoc: "bind_res (bind_res r k) l = bind_res r (\<lambda>x. bind_res (k x) l)"
  by (cases r) auto

lemma kernel_assert_simps [simp, res_simps]:
  "kernel_assert True k = k"
  "kernel_assert False k = Inl Panic"
  by (simp_all add: kernel_assert_def kernel_panic_def)

lemma kernel_assert_eq_Inr [simp]:
  "kernel_assert c k = Inr y \<longleftrightarrow> c \<and> k = Inr y"
  by (cases c) auto

subsection \<open>Words\<close>

lemma unat_of_nat_u32: "n < 2 ^ 32 \<Longrightarrow> unat (word_of_nat n :: u32) = n"
  by (simp add: unat_of_nat take_bit_nat_eq_self)

lemma unat_Suc_u32: "unat i + 1 < 2 ^ 32 \<Longrightarrow> unat (i + 1 :: u32) = unat i + 1"
  by (simp add: unat_word_ariths)

lemma unat_add_u32: "unat i + unat j < 2 ^ 32 \<Longrightarrow> unat (i + j :: u32) = unat i + unat j"
  by (simp add: unat_word_ariths)

lemma unat_minus_1_u32: "0 < unat i \<Longrightarrow> unat (i - 1 :: u32) = unat i - 1"
  by (subst unat_minus_one) (auto simp: word_unat_eq_iff)

lemma unat_lt_u32 [simp]: "unat (i :: u32) < 4294967296"
  using unsigned_less [of i] by simp

text \<open>
  The difference of two \<^verbatim>\<open>void *\<close> divided by \<^verbatim>\<open>PAGE_SIZE\<close>: a
  pointer difference is a signed 32-bit value, and C's division truncates towards zero.
\<close>

definition ptr_diff_div :: "u32 \<Rightarrow> u32 \<Rightarrow> int \<Rightarrow> u32" where
  "ptr_diff_div p q d = word_of_int (sint (p - q) sdiv d)"

end
