(* ===== verification/Interfaces.thy ===== *)
theory Interfaces
  imports Prelude
begin

section \<open>Interfaces between the components\<close>

text \<open>
  One locale per interface that a component relies on. The component that provides the
  operations interprets the locale on its own definitions; what the users of the interface
  need is proved once, inside.
\<close>

subsection \<open>Page allocator\<close>

text \<open>
  An allocator of runs of pages: \<open>live h\<close> is the set of live runs (first page, number of
  pages), \<open>addr h s\<close> the address of page \<open>s\<close>.
\<close>

locale page_allocator =
  fixes inv :: "'h \<Rightarrow> bool"
    and live :: "'h \<Rightarrow> (nat \<times> nat) set"
    and addr :: "'h \<Rightarrow> nat \<Rightarrow> u32"
    and alloc :: "'h \<Rightarrow> u32 \<Rightarrow> (u32 \<times> 'h) res"
    and release :: "'h \<Rightarrow> u32 \<Rightarrow> (u32 \<times> 'h) res"
  assumes live_disjoint: "inv h \<Longrightarrow> (s, n) \<in> live h \<Longrightarrow> (t, k) \<in> live h \<Longrightarrow> (s, n) \<noteq> (t, k) \<Longrightarrow>
      s + n \<le> t \<or> t + k \<le> s"
    and live_pos: "inv h \<Longrightarrow> (s, n) \<in> live h \<Longrightarrow> 0 < n"
    and alloc_adds: "inv h \<Longrightarrow> 0 < m \<Longrightarrow> alloc h m = Inr (p, h') \<Longrightarrow>
      inv h' \<and> addr h' = addr h \<and>
      (\<exists>s. p = addr h s \<and> live h' = insert (s, unat m) (live h) \<and>
           (\<forall>(t, k) \<in> live h. t + k \<le> s \<or> s + unat m \<le> t))"
    and release_removes: "inv h \<Longrightarrow> (s, n) \<in> live h \<Longrightarrow>
      \<exists>h'. release h (addr h s) = Inr (word_of_nat n, h') \<and> inv h' \<and> addr h' = addr h \<and>
           live h' = live h - {(s, n)}"
begin

lemma alloc_fresh:
  assumes "inv h" "0 < n" "alloc h n = Inr (p, h')"
  shows "\<exists>s. p = addr h s \<and> (s, unat n) \<notin> live h"
proof -
  have "0 < unat n" using assms(2) by (simp add: word_less_nat_alt)
  with alloc_adds [OF assms] show ?thesis by fastforce
qed

text \<open>Releasing what was just allocated gives its size back and restores the live runs.\<close>

lemma alloc_release:
  assumes "inv h" "0 < n" "alloc h n = Inr (p, h')"
  shows "\<exists>h''. release h' p = Inr (n, h'') \<and> inv h'' \<and> live h'' = live h"
proof -
  from alloc_adds [OF assms] obtain s where
    s: "inv h'" "addr h' = addr h" "p = addr h s" "live h' = insert (s, unat n) (live h)"
    "\<forall>(t, k) \<in> live h. t + k \<le> s \<or> s + unat n \<le> t" by blast
  have pos: "0 < unat n" using assms(2) by (simp add: word_less_nat_alt)
  with s(5) have "(s, unat n) \<notin> live h" by fastforce
  moreover obtain h'' where "release h' (addr h' s) = Inr (word_of_nat (unat n), h'')" "inv h''"
    "live h'' = live h' - {(s, unat n)}"
    using release_removes [OF s(1), of s "unat n"] s(4) by auto
  ultimately show ?thesis using s by simp
qed

text \<open>Releases of different runs commute on the live set.\<close>

lemma release_commute:
  assumes "inv h" "(s, n) \<in> live h" "(t, k) \<in> live h" "(s, n) \<noteq> (t, k)"
  shows "\<exists>h1 h2. release h (addr h s) = Inr (word_of_nat n, h1) \<and>
           release h1 (addr h t) = Inr (word_of_nat k, h2) \<and> inv h2 \<and>
           live h2 = live h - {(s, n), (t, k)}"
proof -
  obtain h1 where h1: "release h (addr h s) = Inr (word_of_nat n, h1)" "inv h1" "addr h1 = addr h"
    "live h1 = live h - {(s, n)}"
    using release_removes [OF assms(1,2)] by blast
  then have "(t, k) \<in> live h1" using assms(3,4) by blast
  from release_removes [OF h1(2) this] obtain h2 where
    "release h1 (addr h1 t) = Inr (word_of_nat k, h2)" "inv h2" "live h2 = live h1 - {(t, k)}"
    by blast
  with h1 show ?thesis by auto
qed

end


subsection \<open>First-in first-out queues\<close>

text \<open>
  A queue of elements, with the list of its contents as abstraction: \<open>rep s xs\<close>. An
  element is added when it is fit to be queued (\<open>fit x\<close>) and not in the queue already.
\<close>

locale fifo =
  fixes rep :: "'s \<Rightarrow> 'a list \<Rightarrow> bool"
    and fit :: "'a \<Rightarrow> bool"
    and enq :: "'s \<Rightarrow> 'a \<Rightarrow> 's"
    and deq :: "'s \<Rightarrow> ('a \<times> 's) option"
  assumes enq_rep: "rep s xs \<Longrightarrow> fit x \<Longrightarrow> x \<notin> set xs \<Longrightarrow> rep (enq s x) (xs @ [x])"
    and deq_nil: "rep s [] \<Longrightarrow> deq s = None"
    and deq_cons: "rep s (x # xs) \<Longrightarrow> \<exists>t. deq s = Some (x, t) \<and> rep t xs"
    and rep_fit: "rep s xs \<Longrightarrow> x \<in> set xs \<Longrightarrow> fit x"
    and rep_distinct: "rep s xs \<Longrightarrow> distinct xs"
begin

text \<open>One turn of a round-robin scheduler: take the first element and queue it again.\<close>

definition turn :: "'s \<Rightarrow> ('a \<times> 's) option" where
  "turn s = (case deq s of None \<Rightarrow> None | Some (x, t) \<Rightarrow> Some (x, enq t x))"

primrec turns :: "nat \<Rightarrow> 's \<Rightarrow> ('a list \<times> 's) option" where
  "turns 0 s = Some ([], s)"
| "turns (Suc n) s = (case turn s of None \<Rightarrow> None
     | Some (x, t) \<Rightarrow> (case turns n t of None \<Rightarrow> None | Some (xs, u) \<Rightarrow> Some (x # xs, u)))"

lemma turn_rotates:
  assumes "rep s (x # xs)"
  shows "\<exists>t. turn s = Some (x, t) \<and> rep t (xs @ [x])"
proof -
  obtain t where t: "deq s = Some (x, t)" "rep t xs" using deq_cons [OF assms] by blast
  have "fit x" "x \<notin> set xs" using rep_fit [OF assms] rep_distinct [OF assms] by auto
  with t show ?thesis using enq_rep by (auto simp: turn_def)
qed

text \<open>The first \<open>n\<close> turns go to the first \<open>n\<close> elements, which queue up behind
  the rest.\<close>

lemma turns_prefix:
  "rep s (xs @ ys) \<Longrightarrow> \<exists>t. turns (length xs) s = Some (xs, t) \<and> rep t (ys @ xs)"
proof (induction xs arbitrary: s ys)
  case (Cons x xs)
  obtain t where t: "turn s = Some (x, t)" "rep t ((xs @ ys) @ [x])"
    using turn_rotates Cons.prems by fastforce
  then obtain u where "turns (length xs) t = Some (xs, u)" "rep u ((ys @ [x]) @ xs)"
    using Cons.IH [of t "ys @ [x]"] by auto
  with t show ?case by auto
qed auto

lemma turns_all: "rep s xs \<Longrightarrow> \<exists>t. turns (length xs) s = Some (xs, t) \<and> rep t xs"
  using turns_prefix [of s xs "[]"] by simp

end


subsection \<open>Finite maps\<close>

text \<open>
  A table of values under keys: \<open>rep s M\<close> says that the state \<open>s\<close> holds the finite map
  \<open>M\<close>. Values are stored once; \<open>reserved s\<close> are the values that cannot be stored, among them
  \<open>null\<close>, the answer when there is no value. The outcome of a list of operations is that of
  the same operations on the map.
\<close>

datatype ('k, 'v) table_op = Put 'k 'v | Get 'k | Del 'k

datatype 'v table_out = Stored bool | Found 'v

primrec run_table :: "('s \<Rightarrow> 'k \<Rightarrow> 'v \<Rightarrow> (bool \<times> 's) res) \<Rightarrow> ('s \<Rightarrow> 'k \<Rightarrow> 'v res) \<Rightarrow>
    ('s \<Rightarrow> 'k \<Rightarrow> ('v \<times> 's) res) \<Rightarrow> ('k, 'v) table_op list \<Rightarrow> 's \<Rightarrow> ('v table_out list \<times> 's) res" where
  "run_table put get del [] s = Inr ([], s)"
| "run_table put get del (p # ps) s =
     bind_res (case p of
         Put k v \<Rightarrow> bind_res (put s k v) (\<lambda>(b, s). Inr (Stored b, s))
       | Get k \<Rightarrow> bind_res (get s k) (\<lambda>v. Inr (Found v, s))
       | Del k \<Rightarrow> bind_res (del s k) (\<lambda>(v, s). Inr (Found v, s)))
       (\<lambda>(r, s). bind_res (run_table put get del ps s) (\<lambda>(rs, s). Inr (r # rs, s)))"

fun map_step :: "'v \<Rightarrow> ('k, 'v) table_op \<Rightarrow> ('k \<Rightarrow> 'v option) \<Rightarrow> 'v table_out \<times> ('k \<Rightarrow> 'v option)" where
  "map_step null (Put k v) M = (if M k = None then (Stored True, M(k \<mapsto> v)) else (Stored False, M))"
| "map_step null (Get k) M = (Found (case M k of None \<Rightarrow> null | Some v \<Rightarrow> v), M)"
| "map_step null (Del k) M = (Found (case M k of None \<Rightarrow> null | Some v \<Rightarrow> v), M(k := None))"

primrec run_map :: "'v \<Rightarrow> ('k, 'v) table_op list \<Rightarrow> ('k \<Rightarrow> 'v option) \<Rightarrow> 'v table_out list \<times> ('k \<Rightarrow> 'v option)" where
  "run_map null [] M = ([], M)"
| "run_map null (p # ps) M = (case map_step null p M of (r, M) \<Rightarrow> case run_map null ps M of (rs, M) \<Rightarrow> (r # rs, M))"

text \<open>Only values that are not in the table and not reserved are put.\<close>

primrec fresh_puts :: "'v \<Rightarrow> 'v set \<Rightarrow> ('k, 'v) table_op list \<Rightarrow> ('k \<Rightarrow> 'v option) \<Rightarrow> bool" where
  "fresh_puts null R [] M \<longleftrightarrow> True"
| "fresh_puts null R (p # ps) M \<longleftrightarrow>
     (case p of Put k v \<Rightarrow> v \<notin> R \<and> v \<notin> ran M | _ \<Rightarrow> True) \<and> fresh_puts null R ps (snd (map_step null p M))"

locale finite_table =
  fixes rep :: "'s \<Rightarrow> ('k \<Rightarrow> 'v option) \<Rightarrow> bool"
    and reserved :: "'s \<Rightarrow> 'v set"
    and null :: 'v
    and put :: "'s \<Rightarrow> 'k \<Rightarrow> 'v \<Rightarrow> (bool \<times> 's) res"
    and get :: "'s \<Rightarrow> 'k \<Rightarrow> 'v res"
    and del :: "'s \<Rightarrow> 'k \<Rightarrow> ('v \<times> 's) res"
  assumes put_new: "rep s M \<Longrightarrow> M k = None \<Longrightarrow> v \<notin> ran M \<Longrightarrow> v \<notin> reserved s \<Longrightarrow>
      \<exists>t. put s k v = Inr (True, t) \<and> rep t (M(k \<mapsto> v)) \<and> reserved t = reserved s"
    and put_old: "rep s M \<Longrightarrow> M k = Some u \<Longrightarrow> v \<notin> ran M \<Longrightarrow> v \<notin> reserved s \<Longrightarrow> put s k v = Inr (False, s)"
    and get_rep: "rep s M \<Longrightarrow> get s k = Inr (case M k of None \<Rightarrow> null | Some v \<Rightarrow> v)"
    and del_old: "rep s M \<Longrightarrow> M k = Some v \<Longrightarrow>
      \<exists>t. del s k = Inr (v, t) \<and> rep t (M(k := None)) \<and> reserved t = reserved s"
    and del_none: "rep s M \<Longrightarrow> M k = None \<Longrightarrow> del s k = Inr (null, s)"
begin

lemma run_refines:
  "rep s M \<Longrightarrow> fresh_puts null (reserved s) ps M \<Longrightarrow> run_map null ps M = (rs, M') \<Longrightarrow>
   \<exists>t. run_table put get del ps s = Inr (rs, t) \<and> rep t M'"
proof (induction ps arbitrary: s M rs)
  case (Cons p ps)
  obtain r M1 where 1: "map_step null p M = (r, M1)" by fastforce
  obtain rs' where 2: "run_map null ps M1 = (rs', M')" "rs = r # rs'"
    using Cons.prems(3) 1 by (auto split: prod.splits)
  have "\<exists>t. (case p of
         Put k v \<Rightarrow> bind_res (put s k v) (\<lambda>(b, s). Inr (Stored b, s))
       | Get k \<Rightarrow> bind_res (get s k) (\<lambda>v. Inr (Found v, s))
       | Del k \<Rightarrow> bind_res (del s k) (\<lambda>(v, s). Inr (Found v, s))) = Inr (r, t) \<and> rep t M1 \<and> reserved t = reserved s"
  proof (cases p)
    case (Put k v)
    then show ?thesis
      using put_new [OF Cons.prems(1), of k v] put_old [OF Cons.prems(1), of k _ v] Cons.prems(1,2) 1
      by (cases "M k") auto
  next
    case (Get k)
    then show ?thesis using get_rep [OF Cons.prems(1), of k] Cons.prems(1) 1 by auto
  next
    case (Del k)
    then show ?thesis
      using del_old [OF Cons.prems(1), of k] del_none [OF Cons.prems(1), of k] Cons.prems(1) 1
      by (cases "M k") (auto simp: fun_upd_idem)
  qed
  then obtain t where t: "(case p of
         Put k v \<Rightarrow> bind_res (put s k v) (\<lambda>(b, s). Inr (Stored b, s))
       | Get k \<Rightarrow> bind_res (get s k) (\<lambda>v. Inr (Found v, s))
       | Del k \<Rightarrow> bind_res (del s k) (\<lambda>(v, s). Inr (Found v, s))) = Inr (r, t)" "rep t M1" "reserved t = reserved s" by blast
  have "fresh_puts null (reserved t) ps M1" using Cons.prems(2) 1 t(3) by simp
  from Cons.IH [OF t(2) this 2(1)] obtain u where "run_table put get del ps t = Inr (rs', u)" "rep u M'" by blast
  then show ?case using t(1) 2(2) by simp
qed simp

text \<open>A value that was stored is found, and after its removal is not found.\<close>

lemma put_get_del:
  assumes "rep s M" "M k = None" "v \<notin> ran M" "v \<notin> reserved s"
  shows "\<exists>t u. put s k v = Inr (True, t) \<and> get t k = Inr v \<and> del t k = Inr (v, u) \<and> rep u M"
proof -
  obtain t where t: "put s k v = Inr (True, t)" "rep t (M(k \<mapsto> v))" using put_new [OF assms] by blast
  have "\<exists>u. del t k = Inr (v, u) \<and> rep u M"
    using del_old [OF t(2), of k v] assms(2) by (auto simp: fun_upd_idem)
  then show ?thesis using t get_rep [OF t(2), of k] by auto
qed

end


subsection \<open>Object pools\<close>

text \<open>
  A pool hands out objects: \<open>inv s live\<close> says that \<open>live\<close> are the objects in use; \<open>ready s\<close>
  that there is a free object or memory for new ones.
\<close>

locale object_pool =
  fixes inv :: "'s \<Rightarrow> 'a set \<Rightarrow> bool"
    and ready :: "'s \<Rightarrow> bool"
    and create :: "'s \<Rightarrow> ('a \<times> 's) res"
    and destroy :: "'s \<Rightarrow> 'a \<Rightarrow> 's"
  assumes create_new: "inv s live \<Longrightarrow> ready s \<Longrightarrow> create s = Inr (p, t) \<Longrightarrow> p \<notin> live \<and> inv t (insert p live)"
    and destroy_old: "inv s live \<Longrightarrow> p \<in> live \<Longrightarrow> inv (destroy s p) (live - {p})"
    and reuse: "inv s live \<Longrightarrow> p \<in> live \<Longrightarrow> \<exists>t. create (destroy s p) = Inr (p, t) \<and> inv t live"
begin

lemma create_two:
  assumes "inv s live" "ready s" "create s = Inr (p, t)" "ready t" "create t = Inr (q, u)"
  shows "p \<noteq> q \<and> inv u (insert q (insert p live))"
  using create_new [OF assms(1-3)] create_new [of t "insert p live" q u] assms(4,5) by auto

text \<open>Objects are reused in the reverse order of their release.\<close>

lemma release_two_reuse:
  assumes "inv s live" "p \<in> live" "q \<in> live" "p \<noteq> q"
  shows "\<exists>t. create (destroy (destroy s p) q) = Inr (q, t) \<and> inv t (live - {p})"
  using reuse [OF destroy_old [OF assms(1,2)], of q] assms(3,4) by auto

end

end
