(* ===== verification/Memory.thy ===== *)
theory Memory
  imports Prelude
begin

section \<open>Physical memory and address translation\<close>

text \<open>
  The part of the machine that \<^verbatim>\<open>memory/mem.c\<close> works on: byte-addressed
  physical memory with little-endian double words, and 32-bit two-level paging. An entry of
  the page directory or of a page table holds the address of a frame in its upper 20 bits and
  flags in its lower 12. The bit functions on entries are those of \<^verbatim>\<open>mem.c\<close>.
\<close>

unbundle bit_operations_syntax

subsection \<open>Pages\<close>

definition PAGE_SIZE :: u32 where
  "PAGE_SIZE = 4096"

definition size_in_pages :: "u32 \<Rightarrow> u32" where
  "size_in_pages size_in_bytes = (size_in_bytes + PAGE_SIZE - 1) div PAGE_SIZE"

definition align_next_frame :: "u32 \<Rightarrow> u32" where
  "align_next_frame paddr = (paddr + PAGE_SIZE) div PAGE_SIZE * PAGE_SIZE"

definition align_next_page :: "u32 \<Rightarrow> u32" where
  "align_next_page vaddr = align_next_frame vaddr"

definition is_page_aligned :: "u32 \<Rightarrow> bool" where
  "is_page_aligned ptr \<longleftrightarrow> push_bit 20 ptr = 0"

subsection \<open>Double words in byte memory\<close>

type_synonym bytes = "u32 \<Rightarrow> u8"

definition rd32 :: "bytes \<Rightarrow> u32 \<Rightarrow> u32" where
  "rd32 m a = ucast (m a) OR push_bit 8 (ucast (m (a + 1))) OR
              push_bit 16 (ucast (m (a + 2))) OR push_bit 24 (ucast (m (a + 3)))"

definition wr32 :: "bytes \<Rightarrow> u32 \<Rightarrow> u32 \<Rightarrow> bytes" where
  "wr32 m a v = m(a := ucast v, a + 1 := ucast (drop_bit 8 v),
                  a + 2 := ucast (drop_bit 16 v), a + 3 := ucast (drop_bit 24 v))"

definition dword_aligned :: "u32 \<Rightarrow> bool" where
  "dword_aligned a \<longleftrightarrow> take_bit 2 a = 0"

lemma rd32_wr32_same [simp]: "rd32 (wr32 m a v) a = v"
proof (rule bit_word_eqI)
  fix n
  assume n: "n < LENGTH(32)"
  consider "n < 8" | "8 \<le> n" "n < 16" | "16 \<le> n" "n < 24" | "24 \<le> n" by linarith
  then show "bit (rd32 (wr32 m a v) a) n \<longleftrightarrow> bit v n"
    by cases (use n in \<open>auto simp: rd32_def wr32_def bit_simps\<close>)
qed

text \<open>Two aligned double words are the same or do not overlap.\<close>

lemma dword_aligned_unat: "dword_aligned a \<longleftrightarrow> 4 dvd unat a"
proof -
  have "take_bit 2 a = 0 \<longleftrightarrow> unat (take_bit 2 a) = 0" by (rule unat_0_iff [symmetric])
  moreover have "unat (take_bit 2 a) = unat a mod 4"
    by (simp add: take_bit_eq_mod unat_mod)
  ultimately show ?thesis by (simp only: dword_aligned_def dvd_eq_mod_eq_0)
qed

lemma dword_offsets_apart:
  assumes al: "dword_aligned a" "dword_aligned b" and ne: "a \<noteq> b"
    and off: "i < 4" "j < 4"
  shows "a + word_of_nat i \<noteq> b + word_of_nat j"
proof
  assume eq: "a + word_of_nat i = b + word_of_nat j"
  have sum: "unat (x + word_of_nat k) = unat x + k" if "dword_aligned x" "k < 4" for x :: u32 and k
  proof -
    have "unat x \<le> 4294967292"
      using that(1) unat_lt_u32 [of x] unfolding dword_aligned_unat by presburger
    then show ?thesis
      using that(2) by (subst unat_add_u32) (simp_all add: unat_of_nat_u32)
  qed
  have "unat a + i = unat b + j"
    using arg_cong [OF eq, of unat] sum [OF al(1) off(1)] sum [OF al(2) off(2)] by simp
  with al off have "unat a = unat b" unfolding dword_aligned_unat by presburger
  with ne show False by (simp add: word_unat_eq_iff)
qed

lemma wr32_other_byte:
  assumes "\<And>i. i < 4 \<Longrightarrow> b \<noteq> a + word_of_nat i"
  shows "wr32 m a v b = m b"
  using assms [of 0] assms [of 1] assms [of 2] assms [of 3] by (simp add: wr32_def)

lemma rd32_wr32_other [simp]:
  assumes "dword_aligned a" "dword_aligned b" "a \<noteq> b"
  shows "rd32 (wr32 m a v) b = rd32 m b"
proof -
  have "wr32 m a v (b + word_of_nat j) = m (b + word_of_nat j)" if "j < 4" for j
    by (rule wr32_other_byte)
      (use dword_offsets_apart [OF assms(2,1) assms(3)[symmetric] that] in blast)
  from this [of 0] this [of 1] this [of 2] this [of 3] show ?thesis by (simp add: rd32_def)
qed

subsection \<open>Entries (\<^verbatim>\<open>get_paddr\<close>, \<^verbatim>\<open>get_flags\<close>, \<^verbatim>\<open>create_entry\<close>)\<close>

definition get_paddr :: "u32 \<Rightarrow> u32" where
  "get_paddr entry = entry AND NOT 0xFFF"

definition get_flags :: "u32 \<Rightarrow> u16" where
  "get_flags entry = ucast (entry AND 0xFFF)"

definition set_paddr :: "u32 \<Rightarrow> u32 \<Rightarrow> u32" where
  "set_paddr entry paddr = ucast (get_flags entry) OR paddr"

definition entry_present :: "u32 \<Rightarrow> bool" where
  "entry_present entry \<longleftrightarrow> entry AND 1 \<noteq> 0"

definition create_entry :: "u32 \<Rightarrow> u16 \<Rightarrow> u32" where
  "create_entry paddr flags = (paddr AND 0xFFFFF000) OR ucast flags OR 1"

definition get_pd_index :: "u32 \<Rightarrow> u32" where
  "get_pd_index vaddr = drop_bit 22 vaddr"

definition get_pt_index :: "u32 \<Rightarrow> u32" where
  "get_pt_index vaddr = drop_bit 12 vaddr AND 0x3FF"

definition frame_aligned :: "u32 \<Rightarrow> bool" where
  "frame_aligned a \<longleftrightarrow> take_bit 12 a = 0"

lemma masks:
  "(0xFFF :: u32) = mask 12" "(0x3FF :: u32) = mask 10" "(0xFFFFF000 :: u32) = NOT (mask 12)"
  by (simp_all add: mask_eq_exp_minus_1)

lemma bit_get_paddr [bit_simps]: "bit (get_paddr e) n \<longleftrightarrow> 12 \<le> n \<and> bit e n"
  by (auto simp: get_paddr_def masks bit_simps dest: bit_imp_le_length)

lemma entry_present_bit: "entry_present e \<longleftrightarrow> bit e 0"
  by (simp add: entry_present_def and_one_eq bit_0 odd_iff_mod_2_eq_one)

lemma present_create_entry [simp]: "entry_present (create_entry p f)"
  by (simp add: entry_present_bit create_entry_def bit_simps)

lemma present_0 [simp]: "\<not> entry_present 0"
  by (simp add: entry_present_def)

lemma get_paddr_aligned [simp]: "frame_aligned (get_paddr e)"
  unfolding frame_aligned_def by (rule bit_word_eqI) (auto simp: bit_simps)

lemma get_paddr_eq_self [simp]: "frame_aligned a \<Longrightarrow> get_paddr a = a"
  unfolding frame_aligned_def
proof (rule bit_word_eqI)
  fix n
  assume "take_bit 12 a = 0"
  then have "\<not> bit (take_bit 12 a) n" by simp
  then show "bit (get_paddr a) n \<longleftrightarrow> bit a n" by (auto simp: bit_simps)
qed

lemma get_paddr_create_entry:
  assumes "flags < 0x1000"
  shows "get_paddr (create_entry p flags) = get_paddr p"
proof (rule bit_word_eqI)
  fix n
  assume "n < LENGTH(32)"
  have "flags = take_bit 12 flags"
    using assms by (simp add: word_unat_eq_iff unsigned_take_bit_eq take_bit_nat_eq_self
        word_less_nat_alt)
  then have "\<not> bit flags n" if "12 \<le> n" using that by (metis bit_take_bit_iff not_less)
  with \<open>n < LENGTH(32)\<close> show "bit (get_paddr (create_entry p flags)) n \<longleftrightarrow> bit (get_paddr p) n"
    by (auto simp: create_entry_def bit_simps masks)
qed

lemma get_flags_create_entry:
  assumes "flags < 0x1000"
  shows "get_flags (create_entry p flags) = flags OR 1"
proof (rule bit_word_eqI)
  fix n
  assume "n < LENGTH(16)"
  have "flags = take_bit 12 flags"
    using assms by (simp add: word_unat_eq_iff unsigned_take_bit_eq take_bit_nat_eq_self
        word_less_nat_alt)
  then have "\<not> bit flags n" if "12 \<le> n" using that by (metis bit_take_bit_iff not_less)
  with \<open>n < LENGTH(16)\<close> show "bit (get_flags (create_entry p flags)) n \<longleftrightarrow> bit (flags OR 1) n"
    by (cases "n < 12") (auto simp: get_flags_def create_entry_def bit_simps masks not_less)
qed

subsection \<open>Offsets in a frame\<close>

lemma frame_offset_or:
  assumes "frame_aligned b" "off < 0x1000"
  shows "b + off = b OR off" "take_bit 12 off = off"
proof -
  show off: "take_bit 12 off = off"
    using assms(2) by (simp add: word_unat_eq_iff unsigned_take_bit_eq take_bit_nat_eq_self
        word_less_nat_alt)
  have "b AND off = 0"
  proof (rule bit_word_eqI)
    fix n
    have "\<not> bit (take_bit 12 b) n" using assms(1) by (simp add: frame_aligned_def)
    moreover have "bit off n \<Longrightarrow> n < 12" using off by (metis bit_take_bit_iff)
    ultimately show "bit (b AND off) n \<longleftrightarrow> bit 0 n" by (auto simp: bit_simps)
  qed
  then show "b + off = b OR off" by (simp add: disjunctive_add_eq_or)
qed

lemma get_paddr_offset [simp]:
  assumes "frame_aligned b" "off < 0x1000"
  shows "get_paddr (b + off) = b"
proof (rule bit_word_eqI)
  fix n
  have "bit off n \<Longrightarrow> n < 12" using frame_offset_or(2) [OF assms] by (metis bit_take_bit_iff)
  moreover have "bit b n \<longleftrightarrow> bit (get_paddr b) n" using assms(1) by simp
  ultimately show "bit (get_paddr (b + off)) n \<longleftrightarrow> bit b n"
    unfolding frame_offset_or(1) [OF assms] by (auto simp: bit_simps)
qed

lemma frame_offset_inj:
  assumes "frame_aligned b" "frame_aligned c" "i < 0x1000" "j < 0x1000"
  shows "b + i = c + j \<longleftrightarrow> b = c \<and> i = j"
  using get_paddr_offset [OF assms(1,3)] get_paddr_offset [OF assms(2,4)] by auto

lemma index_scaled:
  assumes "(i :: u32) < 1024"
  shows "4 * i < 0x1000" "unat (4 * i) = 4 * unat i" "dword_aligned (4 * i)"
proof -
  have "unat i < 1024" using assms by (simp add: word_less_nat_alt)
  then show u: "unat (4 * i) = 4 * unat i" by (simp add: unat_word_ariths)
  show "4 * i < 0x1000" using u \<open>unat i < 1024\<close> by (simp add: word_less_nat_alt)
  show "dword_aligned (4 * i)" unfolding dword_aligned_unat u by simp
qed

lemma unat_and_FFF: "unat (v AND 0xFFF :: u32) = unat v mod 4096"
proof -
  have "v AND 0xFFF = take_bit 12 v" by (simp add: masks take_bit_eq_mask)
  then show ?thesis by (simp add: take_bit_eq_mod unat_mod)
qed

lemma get_paddr_plus: "get_paddr a + (a AND 0xFFF) = a"
proof -
  have "a AND 0xFFF < 0x1000" by (simp add: word_less_nat_alt unat_and_FFF)
  then have "get_paddr a + (a AND 0xFFF) = get_paddr a OR (a AND 0xFFF)"
    by (rule frame_offset_or(1) [OF get_paddr_aligned])
  also have "\<dots> = a" by (rule bit_word_eqI) (auto simp: bit_simps masks)
  finally show ?thesis .
qed

lemma frame_decomp:
  assumes "frame_aligned f" "off < 0x1000"
  shows "a = f + off \<longleftrightarrow> get_paddr a = f \<and> a AND 0xFFF = off"
proof -
  have "a = f + off \<longleftrightarrow> get_paddr a + (a AND 0xFFF) = f + off" by (simp only: get_paddr_plus)
  also have "\<dots> \<longleftrightarrow> get_paddr a = f \<and> a AND 0xFFF = off"
    by (rule frame_offset_inj) (use assms in \<open>simp_all add: word_less_nat_alt unat_and_FFF\<close>)
  finally show ?thesis .
qed

lemma frame_unat: "frame_aligned b \<longleftrightarrow> 4096 dvd unat b"
proof -
  have "take_bit 12 b = 0 \<longleftrightarrow> unat (take_bit 12 b) = 0" by (rule unat_0_iff [symmetric])
  moreover have "unat (take_bit 12 b) = unat b mod 4096"
    by (simp add: take_bit_eq_mod unat_mod)
  ultimately show ?thesis by (simp only: frame_aligned_def dvd_eq_mod_eq_0)
qed

lemma frame_index_aligned [simp]:
  assumes "frame_aligned b" "(i :: u32) < 1024"
  shows "dword_aligned (b + 4 * i)"
proof -
  obtain k where k: "unat b = 4096 * k" using assms(1) unfolding frame_unat by (rule dvdE)
  with unat_lt_u32 [of b] have "k < 1048576" by simp
  with k have "unat (b + 4 * i) = unat b + 4 * unat i"
    using assms(2) index_scaled [OF assms(2)] by (subst unat_add_u32) (simp_all add: word_less_nat_alt)
  also have "\<dots> = 4 * (1024 * k + unat i)" using k by simp
  finally show ?thesis unfolding dword_aligned_unat by simp
qed

lemma index_scaled_inj [simp]: "(i :: u32) < 1024 \<Longrightarrow> j < 1024 \<Longrightarrow> 4 * i = 4 * j \<longleftrightarrow> i = j"
  using index_scaled(2) [of i] index_scaled(2) [of j] by (auto simp: word_unat_eq_iff)

lemma frame_index_inj [simp]:
  assumes "frame_aligned b" "frame_aligned c" "(i :: u32) < 1024" "j < 1024"
  shows "b + 4 * i = c + 4 * j \<longleftrightarrow> b = c \<and> i = j"
proof -
  have "4 * i = 4 * j \<longleftrightarrow> i = j"
    using index_scaled(2) [OF assms(3)] index_scaled(2) [OF assms(4)]
    by (auto simp: word_unat_eq_iff)
  then show ?thesis
    using frame_offset_inj [OF assms(1,2) index_scaled(1) [OF assms(3)] index_scaled(1) [OF assms(4)]]
    by simp
qed

subsection \<open>The windows of the self map\<close>

text \<open>
  The last entry of the page directory refers to the directory itself. Through it the
  directory appears at 0xFFFFF000 and page table \<open>i\<close> at 0xFFC00000 + 4096 \<open>i\<close>
  (\<^verbatim>\<open>page_directory_entries\<close>, \<^verbatim>\<open>page_table_entries\<close>).
\<close>

definition page_directory_entries :: u32 where
  "page_directory_entries = 0xFFFFF000"

definition page_table_entries :: u32 where
  "page_table_entries = 0xFFC00000"

definition pde_addr :: "u32 \<Rightarrow> u32" where
  "pde_addr pd_index = page_directory_entries + 4 * pd_index"

definition pte_addr :: "u32 \<Rightarrow> u32 \<Rightarrow> u32" where
  "pte_addr pd_index pt_index = page_table_entries + 4 * (pd_index * 1024 + pt_index)"

lemma pde_addr_pte_addr: "pde_addr i = pte_addr 1023 i"
  by (simp add: pde_addr_def pte_addr_def page_directory_entries_def page_table_entries_def
      algebra_simps)

lemma unat_pte_addr:
  assumes "i < 1024" "j < 1024"
  shows "unat (pte_addr i j) = 0xFFC00000 + 4096 * unat i + 4 * unat j"
proof -
  have ij: "unat i < 1024" "unat j < 1024" using assms by (simp_all add: word_less_nat_alt)
  then have "unat (i * 1024 + j) = unat i * 1024 + unat j" by (simp add: unat_word_ariths)
  moreover from this ij have "unat (4 * (i * 1024 + j)) = 4 * (unat i * 1024 + unat j)"
    by (simp add: unat_word_ariths)
  ultimately show ?thesis
    using ij unfolding pte_addr_def page_table_entries_def by (subst unat_add_u32) simp_all
qed

lemma unat_pt_index: "unat (get_pt_index v) = unat v div 4096 mod 1024"
proof -
  have "get_pt_index v = take_bit 10 (drop_bit 12 v)"
    by (simp add: get_pt_index_def masks take_bit_eq_mask)
  then show ?thesis by (simp add: take_bit_eq_mod drop_bit_eq_div unat_mod unat_div)
qed

lemma unat_pd_index: "unat (get_pd_index v) = unat v div 4194304"
  by (simp add: get_pd_index_def drop_bit_eq_div unat_div)

lemma pd_index_less [simp]: "get_pd_index v < 1024"
  using unat_lt_u32 [of v] by (simp add: word_less_nat_alt unat_pd_index less_mult_imp_div_less)

lemma pt_index_less [simp]: "get_pt_index v < 1024"
  by (simp add: word_less_nat_alt unat_pt_index)

lemma pte_addr_indices [simp]:
  assumes "i < 1024" "j < 1024"
  shows "get_pd_index (pte_addr i j) = 1023" "get_pt_index (pte_addr i j) = i"
    "pte_addr i j AND 0xFFF = 4 * j"
proof -
  note u = unat_pte_addr [OF assms]
  have ij: "unat i < 1024" "unat j < 1024" using assms by (simp_all add: word_less_nat_alt)
  show "get_pd_index (pte_addr i j) = 1023"
    unfolding word_unat_eq_iff unat_pd_index u using ij by simp
  show "get_pt_index (pte_addr i j) = i"
  proof -
    have "4290772992 + 4096 * unat i + 4 * unat j = 4 * unat j + 4096 * (1047552 + unat i)" by simp
    then have "(4290772992 + 4096 * unat i + 4 * unat j) div 4096 = 1047552 + unat i"
      using ij by (simp only: div_mult_self2)
    moreover have "(1047552 + unat i) mod 1024 = unat i"
      using ij mod_mult_self2 [of "unat i" 1024 1023] by (simp add: add.commute)
    ultimately show ?thesis unfolding word_unat_eq_iff unat_pt_index u by simp
  qed
  show "pte_addr i j AND 0xFFF = 4 * j"
  proof -
    have "4290772992 + 4096 * unat i + 4 * unat j = 4 * unat j + 4096 * (1047552 + unat i)" by simp
    then have "(4290772992 + 4096 * unat i + 4 * unat j) mod 4096 = 4 * unat j"
      using ij by (simp only: mod_mult_self2) simp
    then show ?thesis
      unfolding word_unat_eq_iff unat_and_FFF u index_scaled(2) [OF assms(2)] by simp
  qed
qed


subsection \<open>Clearing a frame\<close>

definition clear_frame :: "bytes \<Rightarrow> u32 \<Rightarrow> bytes" where
  "clear_frame m f = (\<lambda>a. if get_paddr a = f then 0 else m a)"

lemma div_4_eq:
  "x div 4 = n \<longleftrightarrow> x = 4 * n \<or> x = 4 * n + 1 \<or> x = 4 * n + 2 \<or> x = 4 * n + 3" for n :: nat
  by (auto; arith)

lemma wr32_in_frame:
  assumes f: "frame_aligned f" and i: "i < 1024"
  shows "get_paddr a \<noteq> f \<Longrightarrow> wr32 m (f + 4 * i) v a = m a"
    and "wr32 m (f + 4 * i) 0 a =
           (if get_paddr a = f \<and> unat (a AND 0xFFF) div 4 = unat i then 0 else m a)"
proof -
  have i': "unat i < 1024" using i by (simp add: word_less_nat_alt)
  have u: "unat (4 * i + word_of_nat k) = 4 * unat i + k" if "k < 4" for k
    using that i' index_scaled(2) [OF i]
    by (subst unat_add_u32) (simp_all add: unat_of_nat_u32)
  have at: "a = f + 4 * i + word_of_nat k \<longleftrightarrow> get_paddr a = f \<and> unat (a AND 0xFFF) = 4 * unat i + k"
    if "k < 4" for k
  proof -
    have "4 * i + word_of_nat k < 0x1000"
      using u [OF that] i' that by (simp add: word_less_nat_alt)
    from frame_decomp [OF f this, of a] show ?thesis
      by (simp add: add.assoc word_unat_eq_iff u [OF that])
  qed
  show "wr32 m (f + 4 * i) v a = m a" if "get_paddr a \<noteq> f"
    by (rule wr32_other_byte) (use at that in auto)
  show "wr32 m (f + 4 * i) 0 a =
           (if get_paddr a = f \<and> unat (a AND 0xFFF) div 4 = unat i then 0 else m a)"
    using at [of 0] at [of 1] at [of 2] at [of 3]
    by (simp add: wr32_def div_4_eq) blast
qed

lemma rd32_frame_bytes:
  assumes "dword_aligned a" "k < 4"
  shows "get_paddr (a + word_of_nat k) = get_paddr a"
proof -
  obtain q where "unat a = 4 * q" using assms(1) unfolding dword_aligned_unat by (rule dvdE)
  then have "unat (a AND 0xFFF) = 4 * (q mod 1024)"
    using mult_mod_right [of 4 q 1024] by (simp add: unat_and_FFF)
  then have "unat (a AND 0xFFF) \<le> 4092" by simp
  then have "(a AND 0xFFF) + word_of_nat k < 0x1000"
    using assms(2) by (simp add: word_less_nat_alt unat_add_u32 unat_of_nat_u32)
  from get_paddr_offset [OF get_paddr_aligned this, of a] show ?thesis
    by (simp add: add.assoc [symmetric] get_paddr_plus)
qed

lemma rd32_frame_cong:
  assumes "dword_aligned a" "\<And>b. get_paddr b = get_paddr a \<Longrightarrow> m b = m' b"
  shows "rd32 m a = rd32 m' a"
  using assms(2) [OF rd32_frame_bytes [OF assms(1), of 0]]
    assms(2) [OF rd32_frame_bytes [OF assms(1), of 1]] assms(2) [OF rd32_frame_bytes [OF assms(1), of 2]]
    assms(2) [OF rd32_frame_bytes [OF assms(1), of 3]]
  by (simp add: rd32_def)

lemma rd32_clear_frame:
  assumes "dword_aligned a"
  shows "rd32 (clear_frame m f) a = (if get_paddr a = f then 0 else rd32 m a)"
proof (cases "get_paddr a = f")
  case True
  then have "rd32 (clear_frame m f) a = rd32 (\<lambda>_. 0) a"
    by (intro rd32_frame_cong [OF assms]) (simp add: clear_frame_def)
  then show ?thesis using True by (simp add: rd32_def)
next
  case False
  then have "rd32 (clear_frame m f) a = rd32 m a"
    by (intro rd32_frame_cong [OF assms]) (simp add: clear_frame_def)
  then show ?thesis using False by simp
qed

end
