(* ===== verification/PageHeap.thy ===== *)
theory PageHeap
  imports Interfaces Memory
begin

section \<open>The page allocator (\<^verbatim>\<open>memory/heap.c\<close>)\<close>

text \<open>
  A \<open>Heap\<close> hands out runs of virtual pages. Its usage map holds two bits per page:
  0 is free, 1, 2 and 3 are the colours of used pages, and one allocation is a maximal run
  of pages of one colour. The byte array behind \<^verbatim>\<open>usage_map\<close> is the function
  \<open>usage_map\<close> from byte indices to bytes; indices are 32-bit and wrap as in the code.
  The second half abstracts a heap to its set of live allocations, and shows that the
  operations add, remove, resize and move exactly one of them.
\<close>

unbundle bit_operations_syntax

subsection \<open>Data\<close>

record Heap =
  usage_map :: "u32 \<Rightarrow> u8"
  heap_start :: u32
  page_count :: u32

definition HEAP_PAGE_FREE :: u8 where "HEAP_PAGE_FREE = 0"
definition HEAP_PAGE_USED_RED :: u8 where "HEAP_PAGE_USED_RED = 1"
definition HEAP_PAGE_USED_GREEN :: u8 where "HEAP_PAGE_USED_GREEN = 2"
definition HEAP_PAGE_USED_BLUE :: u8 where "HEAP_PAGE_USED_BLUE = 3"

subsection \<open>Reading and writing the usage map\<close>

definition heap_get_usage :: "Heap \<Rightarrow> u32 \<Rightarrow> u8" where
  "heap_get_usage heap index =
     (let byte_idx = index div 4;
          bit_pair_idx = 6 - 2 * (index mod 4)
      in drop_bit (unat bit_pair_idx) (usage_map heap byte_idx) AND 3)"

definition heap_set_usage :: "Heap \<Rightarrow> u32 \<Rightarrow> u8 \<Rightarrow> Heap" where
  "heap_set_usage heap index usage =
     (let byte_idx = index div 4;
          bit_pair_idx = 6 - 2 * (index mod 4)
      in heap\<lparr>usage_map := (usage_map heap)
           (byte_idx := (usage_map heap byte_idx AND NOT (push_bit (unat bit_pair_idx) 3))
                        OR push_bit (unat bit_pair_idx) usage)\<rparr>)"

text \<open>The loop \<^verbatim>\<open>for (unsigned i = start; space--; ++i)\<close>, with \<open>n\<close>
  iterations left.\<close>

primrec is_space_free_loop :: "Heap \<Rightarrow> u32 \<Rightarrow> nat \<Rightarrow> bool" where
  "is_space_free_loop heap i 0 = True"
| "is_space_free_loop heap i (Suc n) =
     (if heap_get_usage heap i \<noteq> HEAP_PAGE_FREE then False
      else is_space_free_loop heap (i + 1) n)"

definition heap_is_space_free :: "Heap \<Rightarrow> u32 \<Rightarrow> u32 \<Rightarrow> bool" where
  "heap_is_space_free heap start space = is_space_free_loop heap start (unat space)"

text \<open>The three rounds of the colour search; falling out of the loop is the failed
  \<^verbatim>\<open>KERNEL_ASSERT(false)\<close>.\<close>

primrec new_color_loop :: "nat \<Rightarrow> u8 \<Rightarrow> u8 \<Rightarrow> u8 \<Rightarrow> u8 res" where
  "new_color_loop 0 color left right = kernel_panic"
| "new_color_loop (Suc n) color left right =
     (let color = color + 1;
          color = (if color > 3 then 1 else color)
      in if color \<noteq> left \<and> color \<noteq> right then Inr color
         else new_color_loop n color left right)"

definition get_new_color :: "u8 \<Rightarrow> u8 \<Rightarrow> u8 res" where
  "get_new_color left right = new_color_loop 3 left left right"

text \<open>The loop that writes \<open>usage\<close> to \<open>n\<close> pages from \<open>i\<close> on.\<close>

primrec set_usage_loop :: "Heap \<Rightarrow> u32 \<Rightarrow> nat \<Rightarrow> u8 \<Rightarrow> Heap" where
  "set_usage_loop heap i 0 usage = heap"
| "set_usage_loop heap i (Suc n) usage =
     set_usage_loop (heap_set_usage heap i usage) (i + 1) n usage"

definition heap_mark_used :: "Heap \<Rightarrow> u32 \<Rightarrow> u32 \<Rightarrow> Heap res" where
  "heap_mark_used heap start space =
     (let end = start + space - 1;
          left = (if start > 0 then heap_get_usage heap (start - 1) else HEAP_PAGE_FREE);
          right = (if end < page_count heap - 1 then heap_get_usage heap (end + 1)
                   else HEAP_PAGE_FREE)
      in bind_res (get_new_color left right)
           (\<lambda>color. Inr (set_usage_loop heap start (unat space) color)))"

subsection \<open>Allocation\<close>

text \<open>The first-fit scan: \<open>n\<close> is the number of pages from \<open>i\<close> to
  \<^verbatim>\<open>page_count\<close>. Leaving the loop is the failed assertion.\<close>

primrec heap_alloc_loop :: "nat \<Rightarrow> Heap \<Rightarrow> u32 \<Rightarrow> u32 \<Rightarrow> u32 \<Rightarrow> u32 \<Rightarrow> (u32 \<times> Heap) res" where
  "heap_alloc_loop 0 heap pages i space start = kernel_panic"
| "heap_alloc_loop (Suc n) heap pages i space start =
     (if heap_get_usage heap i = HEAP_PAGE_FREE then
        (let space = space + 1
         in if space \<ge> pages then
              bind_res (heap_mark_used heap start space)
                (\<lambda>heap'. Inr (heap_start heap' + start * PAGE_SIZE, heap'))
            else heap_alloc_loop n heap pages (i + 1) space start)
      else heap_alloc_loop n heap pages (i + 1) 0 (i + 1))"

definition heap_alloc :: "Heap \<Rightarrow> u32 \<Rightarrow> (u32 \<times> Heap) res" where
  "heap_alloc heap pages = heap_alloc_loop (unat (page_count heap)) heap pages 0 0 0"

subsection \<open>Freeing and reallocation\<close>

text \<open>
  The loops that run while the colour stays the same have no bound in the code: the index
  runs over all 32-bit values. \<open>2 ^ 32\<close> rounds visit every index once, so a loop still
  running after them never ends.
\<close>

primrec heap_free_loop :: "nat \<Rightarrow> Heap \<Rightarrow> u32 \<Rightarrow> u8 \<Rightarrow> u32 \<Rightarrow> (u32 \<times> Heap) res" where
  "heap_free_loop 0 heap i color freed_count = Inl Diverges"
| "heap_free_loop (Suc n) heap i color freed_count =
     (if heap_get_usage heap i = color then
        heap_free_loop n (heap_set_usage heap i HEAP_PAGE_FREE) (i + 1) color (freed_count + 1)
      else Inr (freed_count, heap))"

definition ptr_page_index :: "Heap \<Rightarrow> u32 \<Rightarrow> u32" where
  "ptr_page_index heap ptr = ptr_diff_div ptr (heap_start heap) 4096"

definition heap_free :: "Heap \<Rightarrow> u32 \<Rightarrow> (u32 \<times> Heap) res" where
  "heap_free heap ptr =
     kernel_assert (is_page_aligned ptr)
      (let start = ptr_page_index heap ptr;
           color = heap_get_usage heap start
       in kernel_assert (color \<noteq> HEAP_PAGE_FREE)
            (heap_free_loop (2 ^ 32) heap start color 0))"

primrec find_end_loop :: "nat \<Rightarrow> Heap \<Rightarrow> u32 \<Rightarrow> u8 \<Rightarrow> u32 res" where
  "find_end_loop 0 heap end color = Inl Diverges"
| "find_end_loop (Suc n) heap end color =
     (if heap_get_usage heap end = color then find_end_loop n heap (end + 1) color
      else Inr end)"

text \<open>The result is the size of the old allocation, the new pointer and the heap.\<close>

definition heap_realloc :: "Heap \<Rightarrow> u32 \<Rightarrow> u32 \<Rightarrow> (u32 \<times> u32 \<times> Heap) res" where
  "heap_realloc heap ptr pages =
     kernel_assert (is_page_aligned ptr)
      (let start = ptr_page_index heap ptr;
           color = heap_get_usage heap start;
           realloc_end = start + pages
       in kernel_assert (color \<noteq> HEAP_PAGE_FREE)
       (bind_res (find_end_loop (2 ^ 32) heap (start + 1) color) (\<lambda>end.
         if realloc_end \<le> end then
           Inr (end - start, ptr,
                set_usage_loop heap realloc_end (unat (end - realloc_end)) HEAP_PAGE_FREE)
         else if heap_is_space_free heap end (realloc_end - end) then
           (if heap_get_usage heap realloc_end = color then
              bind_res (heap_mark_used heap start pages)
                (\<lambda>heap'. Inr (end - start, ptr, heap'))
            else
              Inr (end - start, ptr,
                   set_usage_loop heap end (unat (realloc_end - end)) color))
         else
           bind_res (heap_alloc heap pages) (\<lambda>(new_ptr, heap').
             bind_res (heap_free heap' ptr) (\<lambda>(freed, heap'').
               Inr (freed, new_ptr, heap''))))))"

definition heap_is_used :: "Heap \<Rightarrow> u32 \<Rightarrow> bool" where
  "heap_is_used heap addr = (heap_get_usage heap (ptr_page_index heap addr) \<noteq> HEAP_PAGE_FREE)"

subsection \<open>The usage map is an array of two-bit cells\<close>

lemma bit_pair_unat: "unat (6 - 2 * (index mod 4) :: u32) = 6 - 2 * (unat index mod 4)"
proof -
  have "unat (index mod 4) = unat index mod 4" by (simp add: unat_mod)
  moreover have "unat index mod 4 < 4" by simp
  ultimately have "2 * (index mod 4) \<le> 6"
    and "unat (2 * (index mod 4)) = 2 * (unat index mod 4)"
    by (simp_all add: word_le_nat_alt unat_word_ariths)
  then show ?thesis by (simp add: unat_sub)
qed

lemma three_eq_mask: "(3 :: u8) = mask 2"
  by (simp add: mask_eq_exp_minus_1)

lemma bit_heap_get_usage:
  "bit (heap_get_usage h i) n \<longleftrightarrow>
     n < 2 \<and> bit (usage_map h (i div 4)) (6 - 2 * (unat i mod 4) + n)"
  by (auto simp: heap_get_usage_def Let_def bit_pair_unat three_eq_mask bit_simps ac_simps)

lemma bit_heap_set_usage:
  "n < 8 \<Longrightarrow> bit (usage_map (heap_set_usage h i u) k) n \<longleftrightarrow>
     (if k = i div 4 then
        (let b = 6 - 2 * (unat i mod 4)
         in (bit (usage_map h k) n \<and> \<not> (b \<le> n \<and> n < b + 2)) \<or> (b \<le> n \<and> bit u (n - b)))
      else bit (usage_map h k) n)"
  by (auto simp: heap_set_usage_def Let_def bit_pair_unat three_eq_mask bit_simps)

lemma heap_get_usage_bound: "heap_get_usage h i \<le> 3"
  unfolding heap_get_usage_def Let_def by (rule word_and_le1)

lemma bit_small_u8: "u \<le> (3 :: u8) \<Longrightarrow> bit u n \<Longrightarrow> n < 2"
proof -
  assume "u \<le> 3" "bit u n"
  then have "u = take_bit 2 u"
    by (simp add: word_unat_eq_iff unsigned_take_bit_eq take_bit_nat_eq_self word_le_nat_alt)
  with \<open>bit u n\<close> show "n < 2" by (metis bit_take_bit_iff)
qed

lemma get_set_usage_same [simp]:
  assumes "u \<le> 3"
  shows "heap_get_usage (heap_set_usage h i u) i = u"
proof (rule bit_word_eqI)
  fix n
  assume "n < LENGTH(8)"
  have "n < 2 \<Longrightarrow> 6 - 2 * (unat i mod 4) + n < 8" by simp
  with assms show "bit (heap_get_usage (heap_set_usage h i u) i) n \<longleftrightarrow> bit u n"
    by (cases "n < 2") (auto simp: bit_heap_get_usage bit_heap_set_usage Let_def dest: bit_small_u8)
qed

lemma get_set_usage_other [simp]:
  assumes "i \<noteq> j" "u \<le> 3"
  shows "heap_get_usage (heap_set_usage h i u) j = heap_get_usage h j"
proof (rule bit_word_eqI)
  fix n
  assume "n < LENGTH(8)"
  let ?b = "6 - 2 * (unat j mod 4)" and ?c = "6 - 2 * (unat i mod 4)"
  have pos: "n < 2 \<Longrightarrow> ?b + n < 8" by simp
  have apart: "?b + n < ?c \<or> ?c + 2 \<le> ?b + n" if "i div 4 = j div 4" "n < 2"
  proof -
    have "unat i div 4 = unat j div 4"
      using arg_cong [OF that(1), of unat] by (simp add: unat_div)
    moreover have "unat i \<noteq> unat j" using assms(1) by (simp add: word_unat_eq_iff)
    ultimately have "unat i mod 4 \<noteq> unat j mod 4" by (metis div_mult_mod_eq)
    moreover have "unat i mod 4 < 4" "unat j mod 4 < 4" by simp_all
    ultimately show ?thesis using that(2) by arith
  qed
  show "bit (heap_get_usage (heap_set_usage h i u) j) n \<longleftrightarrow> bit (heap_get_usage h j) n"
  proof (cases "n < 2 \<and> i div 4 = j div 4")
    case True
    then have "\<not> bit u (?b + n - ?c)" if "?c \<le> ?b + n"
      using apart that bit_small_u8 [OF assms(2), of "?b + n - ?c"] by linarith
    with True apart pos show ?thesis
      by (auto simp: bit_heap_get_usage bit_heap_set_usage Let_def)
  next
    case False
    with pos show ?thesis by (auto simp: bit_heap_get_usage bit_heap_set_usage)
  qed
qed

subsection \<open>Abstraction: pages by number, and live allocations\<close>

text \<open>
  \<open>page_use h n\<close> is the colour of page \<open>n\<close>. \<open>cut h n\<close> says that no run of
  one colour crosses the border between the pages \<open>n - 1\<close> and \<open>n\<close>. A live
  allocation \<open>(s, n)\<close> is a maximal run of \<open>n\<close> used pages from page \<open>s\<close> on.
\<close>

definition page_use :: "Heap \<Rightarrow> nat \<Rightarrow> u8" where
  "page_use h n = heap_get_usage h (word_of_nat n)"

definition cut :: "Heap \<Rightarrow> nat \<Rightarrow> bool" where
  "cut h n \<longleftrightarrow> n = 0 \<or> page_use h (n - 1) = 0 \<or> page_use h (n - 1) \<noteq> page_use h n"

definition is_alloc :: "Heap \<Rightarrow> nat \<Rightarrow> nat \<Rightarrow> bool" where
  "is_alloc h s n \<longleftrightarrow> 0 < n \<and> s + n \<le> unat (page_count h) \<and> page_use h s \<noteq> 0 \<and>
     (\<forall>i \<in> {s..<s + n}. page_use h i = page_use h s) \<and> cut h s \<and> cut h (s + n)"

definition allocs :: "Heap \<Rightarrow> (nat \<times> nat) set" where
  "allocs h = {(s, n). is_alloc h s n}"

definition free_run :: "Heap \<Rightarrow> nat \<Rightarrow> nat \<Rightarrow> bool" where
  "free_run h s n \<longleftrightarrow> (\<forall>i \<in> {s..<s + n}. page_use h i = 0)"

text \<open>
  The well-formedness that the operations rely on: the page after the last one reads as
  free, so that the colour loops stop there.
\<close>

definition heap_ok :: "Heap \<Rightarrow> bool" where
  "heap_ok h \<longleftrightarrow> page_use h (unat (page_count h)) = 0 \<and> unat (page_count h) < 2 ^ 32 - 1"

lemma in_allocs [simp]: "(s, n) \<in> allocs h \<longleftrightarrow> is_alloc h s n"
  by (simp add: allocs_def)

lemma page_use_bound: "page_use h n \<le> 3"
  by (simp add: page_use_def heap_get_usage_bound)

lemma get_usage_page_use: "heap_get_usage h i = page_use h (unat i)"
  by (simp add: page_use_def)

lemma is_allocI [intro?]:
  "0 < n \<Longrightarrow> s + n \<le> unat (page_count h) \<Longrightarrow> c \<noteq> 0 \<Longrightarrow>
   (\<And>i. s \<le> i \<Longrightarrow> i < s + n \<Longrightarrow> page_use h i = c) \<Longrightarrow> cut h s \<Longrightarrow> cut h (s + n) \<Longrightarrow> is_alloc h s n"
  unfolding is_alloc_def by (metis atLeastLessThan_iff le_refl less_add_same_cancel1)

lemma is_allocD:
  assumes "is_alloc h s n"
  shows is_alloc_pos: "0 < n" and is_alloc_fits: "s + n \<le> unat (page_count h)"
    and is_alloc_used: "page_use h s \<noteq> 0" and is_alloc_cut_left: "cut h s"
    and is_alloc_cut_right: "cut h (s + n)"
  using assms unfolding is_alloc_def by blast+

lemma is_alloc_use: "is_alloc h s n \<Longrightarrow> s \<le> i \<Longrightarrow> i < s + n \<Longrightarrow> page_use h i = page_use h s"
  unfolding is_alloc_def by (meson atLeastLessThan_iff)

lemma alloc_not_across_cut:
  assumes "is_alloc h t k" "cut h m"
  shows "t + k \<le> m \<or> m \<le> t"
proof (rule ccontr)
  assume "\<not> ?thesis"
  then have "t < m" "m < t + k" "t \<le> m - 1" "m - 1 < t + k" by auto
  then have "page_use h (m - 1) = page_use h t" "page_use h m = page_use h t"
    by (metis assms(1) is_alloc_use less_or_eq_imp_le)+
  with assms(2) is_alloc_used [OF assms(1)] \<open>t < m\<close> show False by (simp add: cut_def)
qed

text \<open>Two live allocations that share a page are the same.\<close>

lemma allocs_overlap_eq:
  assumes "is_alloc h s n" "is_alloc h t k" "s \<le> i" "i < s + n" "t \<le> i" "i < t + k"
  shows "s = t \<and> n = k"
proof -
  have "cut h s" "cut h (s + n)" "cut h t" "cut h (t + k)"
    using is_allocD(4,5) assms(1,2) by blast+
  then have "s + n \<le> t \<or> t \<le> s" "s + n \<le> t + k \<or> t + k \<le> s"
    "t + k \<le> s \<or> s \<le> t" "t + k \<le> s + n \<or> s + n \<le> t"
    using alloc_not_across_cut [OF assms(1)] alloc_not_across_cut [OF assms(2)] by simp_all
  with assms(3-6) show ?thesis by linarith
qed

subsection \<open>Changing one region of the map\<close>

text \<open>\<open>inner h S E p\<close>: in the region from \<open>S\<close> to \<open>E\<close> there is only an
  allocation of the first \<open>p\<close> pages (none if \<open>p\<close> is 0).\<close>

definition inner :: "Heap \<Rightarrow> nat \<Rightarrow> nat \<Rightarrow> nat \<Rightarrow> bool" where
  "inner h S E p \<longleftrightarrow> S + p \<le> E \<and> cut h S \<and> cut h E \<and>
     (\<forall>i \<in> {S + p..<E}. page_use h i = 0) \<and> (p \<noteq> 0 \<longrightarrow> is_alloc h S p)"

definition agree_outside :: "Heap \<Rightarrow> Heap \<Rightarrow> nat \<Rightarrow> nat \<Rightarrow> bool" where
  "agree_outside h h' S E \<longleftrightarrow> page_count h' = page_count h \<and>
     (\<forall>i \<le> unat (page_count h). i < S \<or> E \<le> i \<longrightarrow> page_use h' i = page_use h i)"

lemma agree_outside_sym: "agree_outside h h' S E \<Longrightarrow> agree_outside h' h S E"
  by (auto simp: agree_outside_def)

lemma alloc_outside_agree:
  assumes agree: "agree_outside h h' S E"
    and inner: "inner h' S E p'"
    and al: "is_alloc h t k" and out: "t + k \<le> S \<or> E \<le> t"
  shows "is_alloc h' t k"
proof -
  note fits = is_alloc_fits [OF al] and pos = is_alloc_pos [OF al]
  have pc: "page_count h' = page_count h" using agree by (simp add: agree_outside_def)
  have same: "page_use h' i = page_use h i" if "t \<le> i" "i < t + k" for i
  proof -
    have "i \<le> unat (page_count h)" "i < S \<or> E \<le> i" using out that fits by linarith+
    then show ?thesis using agree by (meson agree_outside_def)
  qed
  have use: "page_use h' i = page_use h t" if "t \<le> i" "i < t + k" for i
    using same [OF that] is_alloc_use [OF al that] by simp
  have "cut h' t"
  proof (cases "E \<le> t \<and> t = E")
    case True
    with inner show ?thesis by (simp add: inner_def)
  next
    case False
    then have "t - 1 \<le> unat (page_count h)" "t = 0 \<or> t - 1 < S \<or> E \<le> t - 1"
      using out fits pos by linarith+
    then have "t = 0 \<or> page_use h' (t - 1) = page_use h (t - 1)"
      using agree by (meson agree_outside_def)
    moreover have "page_use h' t = page_use h t" using same [of t] pos by simp
    moreover note is_alloc_cut_left [OF al]
    ultimately show ?thesis by (auto simp: cut_def)
  qed
  moreover have "cut h' (t + k)"
  proof (cases "t + k = S")
    case True
    with inner show ?thesis by (simp add: inner_def)
  next
    case False
    then have "t + k < S \<or> E \<le> t + k" using out by linarith
    then have "page_use h' (t + k) = page_use h (t + k)"
      using agree fits by (meson agree_outside_def)
    moreover have "page_use h' (t + k - 1) = page_use h (t + k - 1)"
      using same [of "t + k - 1"] pos by simp
    moreover note is_alloc_cut_right [OF al]
    ultimately show ?thesis by (simp add: cut_def)
  qed
  ultimately show ?thesis
    using pc fits pos is_alloc_used [OF al] use by (intro is_allocI) simp_all
qed

lemma alloc_inside_eq:
  assumes inner: "inner h S E p" and al: "is_alloc h t k" and ne: "(t, k) \<noteq> (S, p)"
  shows "t + k \<le> S \<or> E \<le> t"
proof (rule ccontr)
  assume "\<not> ?thesis"
  moreover have "t + k \<le> S \<or> S \<le> t" "t + k \<le> E \<or> E \<le> t"
    using alloc_not_across_cut [OF al] inner unfolding inner_def by blast+
  ultimately have "S \<le> t" "t + k \<le> E" "t < E" "0 < k" using is_alloc_pos [OF al] by auto
  moreover have "page_use h t \<noteq> 0" by (rule is_alloc_used [OF al])
  moreover have "page_use h t = 0" if "S + p \<le> t"
    using inner that \<open>t < E\<close> by (meson atLeastLessThan_iff inner_def)
  ultimately have "t < S + p" by (meson not_le)
  with \<open>S \<le> t\<close> have "p \<noteq> 0" by simp
  with inner have "is_alloc h S p" unfolding inner_def by blast
  from allocs_overlap_eq [OF this al, of t] \<open>S \<le> t\<close> \<open>t < S + p\<close> \<open>0 < k\<close> ne
  show False by simp
qed

lemma allocs_update:
  assumes agree: "agree_outside h h' S E"
    and inner: "inner h S E p" and inner': "inner h' S E p'"
  shows "allocs h' = (allocs h - {(S, p)}) \<union> (if p' = 0 then {} else {(S, p')})"
proof -
  have out: "is_alloc h' t k" if "is_alloc h t k" "(t, k) \<noteq> (S, p)" for t k
    by (rule alloc_outside_agree [OF agree inner' that(1) alloc_inside_eq [OF inner that]])
  have out': "is_alloc h t k" if "is_alloc h' t k" "(t, k) \<noteq> (S, p')" for t k
    by (rule alloc_outside_agree
        [OF agree_outside_sym [OF agree] inner that(1) alloc_inside_eq [OF inner' that]])
  have ne: "(t, k) \<noteq> (S, p)" if "is_alloc h' t k" "(t, k) \<noteq> (S, p')" for t k
  proof
    assume eq: "(t, k) = (S, p)"
    have "0 < k" "S + p \<le> E" using is_alloc_pos [OF that(1)] inner unfolding inner_def by auto
    with eq alloc_inside_eq [OF inner' that] show False by simp
  qed
  have "is_alloc h' t k \<longleftrightarrow>
      (if (t, k) = (S, p') then p' \<noteq> 0 else is_alloc h t k \<and> (t, k) \<noteq> (S, p))" for t k
  proof (cases "(t, k) = (S, p')")
    case True
    then show ?thesis using inner' is_alloc_pos [of h' t k] unfolding inner_def by auto
  next
    case False
    with out [of t k] out' [of t k] ne [of t k] show ?thesis by auto
  qed
  then show ?thesis using is_alloc_pos [of h S 0] unfolding allocs_def by (auto split: if_splits)
qed

subsection \<open>The painting loop\<close>

lemma set_usage_loop_fields [simp]:
  "page_count (set_usage_loop h i n u) = page_count h"
  "heap_start (set_usage_loop h i n u) = heap_start h"
  by (induction n arbitrary: h i) (simp_all add: heap_set_usage_def Let_def)

lemma heap_set_usage_fields [simp]:
  "page_count (heap_set_usage h i u) = page_count h"
  "heap_start (heap_set_usage h i u) = heap_start h"
  by (simp_all add: heap_set_usage_def Let_def)

lemma page_use_set:
  assumes "u \<le> 3" "k < 2 ^ 32"
  shows "page_use (heap_set_usage h i u) k = (if k = unat i then u else page_use h k)"
proof -
  have "k = unat i \<longleftrightarrow> word_of_nat k = i"
    using assms(2) by (auto simp: unat_of_nat_u32)
  with assms(1) show ?thesis by (simp add: page_use_def)
qed

lemma page_use_set_loop:
  assumes "u \<le> 3" "k < 2 ^ 32" "unat i + n \<le> 2 ^ 32"
  shows "page_use (set_usage_loop h i n u) k =
           (if unat i \<le> k \<and> k < unat i + n then u else page_use h k)"
  using assms
proof (induction n arbitrary: h i)
  case 0
  then show ?case by auto
next
  case (Suc n)
  show ?case
  proof (cases "n = 0")
    case True
    with Suc.prems show ?thesis by (auto simp: page_use_set)
  next
    case False
    with Suc.prems have "unat (i + 1) = unat i + 1" by (intro unat_Suc_u32) simp
    with Suc show ?thesis by (auto simp: page_use_set)
  qed
qed

subsection \<open>Colours\<close>

lemma u8_le_3_cases: "(u :: u8) \<le> 3 \<Longrightarrow> u = 0 \<or> u = 1 \<or> u = 2 \<or> u = 3"
proof -
  assume "u \<le> 3"
  then have "unat u \<in> {0, 1, 2, 3}" by (auto simp: word_le_nat_alt)
  then show ?thesis by (auto simp: word_unat_eq_iff)
qed

lemma get_new_color_total:
  assumes "left \<le> 3" "right \<le> 3"
  shows "\<exists>c. get_new_color left right = Inr c \<and> c \<noteq> 0 \<and> c \<le> 3 \<and> c \<noteq> left \<and> c \<noteq> right"
  using u8_le_3_cases [OF assms(1)] u8_le_3_cases [OF assms(2)]
  by (elim disjE) (simp_all add: get_new_color_def numeral_3_eq_3)

lemma heap_mark_used_spec:
  assumes ok: "heap_ok h" and n: "0 < n" "unat start + n \<le> unat (page_count h)"
  shows "\<exists>c. heap_mark_used h start (word_of_nat n) = Inr (set_usage_loop h start n c) \<and>
             c \<noteq> 0 \<and> c \<le> 3 \<and>
             (0 < unat start \<longrightarrow> page_use h (unat start - 1) \<noteq> c) \<and> page_use h (unat start + n) \<noteq> c"
proof -
  let ?sp = "word_of_nat n :: u32"
  have pc: "unat (page_count h) < 2 ^ 32 - 1" using ok by (simp add: heap_ok_def)
  have un: "unat ?sp = n" using n pc by (intro unat_of_nat_u32) simp
  have e1: "unat (start + ?sp) = unat start + n" using n pc un by (subst unat_add_u32) simp_all
  with n have e: "unat (start + ?sp - 1) = unat start + n - 1"
    by (subst unat_minus_1_u32) simp_all
  have pcm: "unat (page_count h - 1) = unat (page_count h) - 1"
    using n by (subst unat_minus_1_u32) simp_all
  define l where "l = (if start > 0 then heap_get_usage h (start - 1) else HEAP_PAGE_FREE)"
  define r where "r = (if start + ?sp - 1 < page_count h - 1
                       then heap_get_usage h (start + ?sp - 1 + 1) else HEAP_PAGE_FREE)"
  have "l \<le> 3" "r \<le> 3"
    by (simp_all add: l_def r_def heap_get_usage_bound HEAP_PAGE_FREE_def)
  then obtain c where c: "get_new_color l r = Inr c" "c \<noteq> 0" "c \<le> 3" "c \<noteq> l" "c \<noteq> r"
    using get_new_color_total by blast
  have "heap_mark_used h start ?sp = Inr (set_usage_loop h start n c)"
    using c(1) un by (simp add: heap_mark_used_def Let_def l_def r_def)
  moreover have "page_use h (unat start - 1) \<noteq> c" if "0 < unat start"
  proof -
    have "start > 0" "unat (start - 1) = unat start - 1"
      using that by (auto simp: word_less_nat_alt unat_minus_1_u32)
    with c(4) show ?thesis by (simp add: l_def get_usage_page_use)
  qed
  moreover have "page_use h (unat start + n) \<noteq> c"
  proof (cases "unat start + n < unat (page_count h)")
    case True
    then have "start + ?sp - 1 < page_count h - 1"
      using n by (simp add: word_less_nat_alt e pcm)
    with c(5) show ?thesis by (simp add: r_def get_usage_page_use e1)
  next
    case False
    with n ok c(2) show ?thesis by (simp add: heap_ok_def)
  qed
  ultimately show ?thesis using c(2,3) by (intro exI [of _ c]) simp
qed

subsection \<open>First fit\<close>

text \<open>\<open>h'\<close> is \<open>h\<close> with the \<open>n\<close> pages from \<open>s\<close> on in one colour that differs from
  the colours next to them.\<close>

definition fresh_paint :: "Heap \<Rightarrow> Heap \<Rightarrow> nat \<Rightarrow> nat \<Rightarrow> bool" where
  "fresh_paint h h' s n \<longleftrightarrow> page_count h' = page_count h \<and> heap_start h' = heap_start h \<and>
     (\<exists>c. c \<noteq> 0 \<and> (\<forall>k \<le> unat (page_count h).
            page_use h' k = (if s \<le> k \<and> k < s + n then c else page_use h k)) \<and>
          (0 < s \<longrightarrow> page_use h (s - 1) \<noteq> c) \<and> page_use h (s + n) \<noteq> c)"

definition first_fit :: "Heap \<Rightarrow> nat \<Rightarrow> nat \<Rightarrow> bool" where
  "first_fit h n s \<longleftrightarrow> s + n \<le> unat (page_count h) \<and> free_run h s n \<and> (\<forall>t < s. \<not> free_run h t n)"

lemma page_use_set_loop_pc:
  assumes "heap_ok h" "u \<le> 3" "unat i + n \<le> unat (page_count h)" "k \<le> unat (page_count h)"
  shows "page_use (set_usage_loop h i n u) k =
           (if unat i \<le> k \<and> k < unat i + n then u else page_use h k)"
proof -
  have "unat (page_count h) < 2 ^ 32 - 1" using assms(1) by (simp add: heap_ok_def)
  then show ?thesis using assms by (intro page_use_set_loop) auto
qed

lemma heap_mark_used_fresh:
  assumes "heap_ok h" "0 < n" "unat start + n \<le> unat (page_count h)" "unat space = n"
  shows "\<exists>h'. heap_mark_used h start space = Inr h' \<and> fresh_paint h h' (unat start) n"
proof -
  have "space = word_of_nat n" using assms(4) by auto
  moreover obtain c where
    c: "heap_mark_used h start (word_of_nat n) = Inr (set_usage_loop h start n c)" "c \<noteq> 0" "c \<le> 3"
    "0 < unat start \<longrightarrow> page_use h (unat start - 1) \<noteq> c" "page_use h (unat start + n) \<noteq> c"
    using heap_mark_used_spec [OF assms(1-3)] by (elim exE conjE) (rule that)
  note paint = page_use_set_loop_pc [OF assms(1) c(3) assms(3)]
  have "fresh_paint h (set_usage_loop h start n c) (unat start) n"
    unfolding fresh_paint_def
    by (intro conjI exI [of _ c] allI impI) (use c paint in simp_all)
  ultimately show ?thesis using c(1) by simp
qed

lemma free_run_snoc: "free_run h s (Suc n) \<longleftrightarrow> free_run h s n \<and> page_use h (s + n) = 0"
  by (auto simp: free_run_def less_Suc_eq)

lemma heap_alloc_loop_spec:
  assumes "heap_ok h" "unat i + n = unat (page_count h)" "unat start + unat space = unat i"
    and "free_run h (unat start) (unat space)" "unat space < unat pages"
    and "\<forall>t < unat start. \<not> free_run h t (unat pages)"
  shows "case heap_alloc_loop n h pages i space start of
           Inl e \<Rightarrow> e = Panic \<and> (\<forall>s. s + unat pages \<le> unat (page_count h) \<longrightarrow> \<not> free_run h s (unat pages))
         | Inr (p, h') \<Rightarrow> \<exists>s. first_fit h (unat pages) s \<and> fresh_paint h h' s (unat pages) \<and>
             p = heap_start h + word_of_nat s * PAGE_SIZE"
  using assms(2-)
proof (induction n arbitrary: i space start)
  case 0
  have "\<not> free_run h s (unat pages)" if "s + unat pages \<le> unat (page_count h)" for s
    using 0 that by (cases "s < unat start") auto
  then show ?case by (simp add: kernel_panic_def)
next
  case (Suc n)
  have pc: "unat (page_count h) < 2 ^ 32 - 1" using assms(1) by (simp add: heap_ok_def)
  have i1: "unat (i + 1) = unat i + 1" using Suc.prems(1) pc by (intro unat_Suc_u32) simp
  show ?case
  proof (cases "heap_get_usage h i = HEAP_PAGE_FREE")
    case True
    then have free: "free_run h (unat start) (Suc (unat space))"
      using Suc.prems(2,3) by (simp add: free_run_snoc get_usage_page_use HEAP_PAGE_FREE_def)
    have sp: "unat (space + 1) = Suc (unat space)"
      using Suc.prems(1,2) pc by (subst unat_Suc_u32) simp_all
    show ?thesis
    proof (cases "space + 1 \<ge> pages")
      case enough: True
      then have n: "unat (space + 1) = unat pages"
        using Suc.prems(4) sp by (simp add: word_le_nat_alt)
      have fits: "unat start + unat pages \<le> unat (page_count h)"
        using n sp Suc.prems(1,2) by linarith
      from heap_mark_used_fresh [OF assms(1) _ fits n] Suc.prems(4) obtain h' where
        h': "heap_mark_used h start (space + 1) = Inr h'" "fresh_paint h h' (unat start) (unat pages)"
        by auto
      then have "heap_start h' = heap_start h" by (auto simp: fresh_paint_def)
      with h' True enough free fits n sp Suc.prems(5) show ?thesis
        by (auto simp: first_fit_def intro!: exI [of _ "unat start"])
    next
      case False
      then have "unat (space + 1) < unat pages" by (simp add: word_less_nat_alt not_le)
      with Suc.IH [of "i + 1" start "space + 1"] Suc.prems i1 sp free True False
      show ?thesis by simp
    qed
  next
    case False
    have "\<not> free_run h t (unat pages)" if "t < unat (i + 1)" for t
    proof (cases "t < unat start")
      case True
      with Suc.prems(5) show ?thesis by blast
    next
      case ge: False
      then have "unat i \<in> {t..<t + unat pages}" using that i1 Suc.prems(2,4) by auto
      with False show ?thesis
        by (auto simp: free_run_def get_usage_page_use HEAP_PAGE_FREE_def)
    qed
    with Suc.IH [of "i + 1" "i + 1" 0] Suc.prems i1 False
    show ?thesis by (simp add: free_run_def)
  qed
qed

subsection \<open>The allocation step on the set of live allocations\<close>

lemma fresh_paint_use:
  "fresh_paint h h' s n \<Longrightarrow> \<exists>c. c \<noteq> 0 \<and> (\<forall>k \<le> unat (page_count h).
             page_use h' k = (if s \<le> k \<and> k < s + n then c else page_use h k)) \<and>
             (0 < s \<longrightarrow> page_use h (s - 1) \<noteq> c) \<and> page_use h (s + n) \<noteq> c"
  by (simp add: fresh_paint_def)

lemma fresh_paint_fields:
  "fresh_paint h h' s n \<Longrightarrow> page_count h' = page_count h \<and> heap_start h' = heap_start h"
  by (simp add: fresh_paint_def)

lemma fresh_paint_inner:
  assumes fp: "fresh_paint h h' s n" and "0 < n" "s + n \<le> unat (page_count h)"
  shows "inner h' s (s + n) n"
proof -
  obtain c where c: "c \<noteq> 0" and
    use: "\<And>k. k \<le> unat (page_count h) \<Longrightarrow>
            page_use h' k = (if s \<le> k \<and> k < s + n then c else page_use h k)"
    and l: "0 < s \<Longrightarrow> page_use h (s - 1) \<noteq> c" and r: "page_use h (s + n) \<noteq> c"
    using fresh_paint_use [OF fp] by blast
  have cs: "cut h' s" "cut h' (s + n)"
    using use [of s] use [of "s - 1"] use [of "s + n"] use [of "s + n - 1"] l r assms(2,3) c
    by (auto simp: cut_def)
  have "is_alloc h' s n"
    by (rule is_allocI [where c = c]) (use assms c use cs fresh_paint_fields [OF fp] in auto)
  with cs show ?thesis by (simp add: inner_def)
qed

lemma fresh_paint_agree:
  assumes "fresh_paint h h' s n" "s + n \<le> E"
  shows "agree_outside h h' s E"
  using fresh_paint_use [OF assms(1)] fresh_paint_fields [OF assms(1)] assms(2)
  by (force simp: agree_outside_def)

lemma fresh_paint_ok:
  assumes "heap_ok h" "fresh_paint h h' s n" "s + n \<le> unat (page_count h)"
  shows "heap_ok h'"
  using fresh_paint_use [OF assms(2)] fresh_paint_fields [OF assms(2)] assms
  by (force simp: heap_ok_def)

lemma free_run_inner:
  assumes "free_run h s n" "0 < n"
  shows "inner h s (s + n) 0"
proof -
  have "page_use h s = 0" "page_use h (s + n - 1) = 0" using assms by (auto simp: free_run_def)
  moreover from this(1) have "cut h s" by (auto simp: cut_def)
  ultimately show ?thesis using assms by (auto simp: inner_def cut_def free_run_def)
qed

lemma fresh_paint_allocs:
  assumes fp: "fresh_paint h h' s n" and "0 < n" "s + n \<le> unat (page_count h)" and
    inner: "inner h s (s + n) m"
  shows "allocs h' = insert (s, n) (allocs h - {(s, m)})"
  using allocs_update [OF fresh_paint_agree [OF fp le_refl] inner fresh_paint_inner [OF assms(1-3)]]
    assms(2) by simp

lemma fresh_paint_allocs_free:
  assumes "fresh_paint h h' s n" "0 < n" "s + n \<le> unat (page_count h)" "free_run h s n"
  shows "allocs h' = insert (s, n) (allocs h)"
proof -
  have "(s, 0) \<notin> allocs h" using is_alloc_pos [of h s 0] by auto
  with fresh_paint_allocs [OF assms(1-3) free_run_inner [OF assms(4,2)]]
  show ?thesis by (simp del: in_allocs)
qed

subsection \<open>Pointers and page numbers\<close>

definition page_addr :: "Heap \<Rightarrow> nat \<Rightarrow> u32" where
  "page_addr h s = heap_start h + word_of_nat s * PAGE_SIZE"

text \<open>
  The invariant of a heap in use. Below \<open>2 ^ 19\<close> pages the signed pointer difference of
  the code does not go negative.
\<close>

definition heap_wf :: "Heap \<Rightarrow> bool" where
  "heap_wf h \<longleftrightarrow> heap_ok h \<and> unat (page_count h) \<le> 2 ^ 19 \<and> is_page_aligned (heap_start h)"

lemma page_addr_aligned:
  assumes "is_page_aligned (heap_start h)"
  shows "is_page_aligned (page_addr h s)"
proof -
  have "page_addr h s * 2 ^ 20 = heap_start h * 2 ^ 20 + word_of_nat s * (2 ^ 32 :: u32)"
    by (simp add: page_addr_def PAGE_SIZE_def algebra_simps)
  moreover have "(2 ^ 32 :: u32) = 0" by simp
  ultimately show ?thesis
    using assms by (simp add: is_page_aligned_def push_bit_eq_mult del: power_numeral)
qed

lemma ptr_page_index_addr:
  assumes "s < 2 ^ 19"
  shows "ptr_page_index h (page_addr h s) = word_of_nat s"
proof -
  have "word_of_nat s * PAGE_SIZE = word_of_int (int s * 4096)"
    by (simp add: PAGE_SIZE_def)
  then have "sint (word_of_nat s * PAGE_SIZE) = int s * 4096"
    using assms by (simp add: signed_of_int signed_take_bit_int_eq_self del: of_int_mult)
  then show ?thesis
    by (simp add: ptr_page_index_def ptr_diff_div_def page_addr_def signed_divide_int_def sgn_if)
qed

subsection \<open>The colour loops\<close>

lemma find_end_loop_spec:
  assumes "m < fuel" "unat i + m < 2 ^ 32"
    and "\<And>k. unat i \<le> k \<Longrightarrow> k < unat i + m \<Longrightarrow> page_use h k = c" "page_use h (unat i + m) \<noteq> c"
  shows "find_end_loop fuel h i c = Inr (i + word_of_nat m)"
  using assms
proof (induction m arbitrary: fuel i)
  case 0
  then show ?case by (cases fuel) (simp_all add: get_usage_page_use)
next
  case (Suc m)
  then obtain f where f: "fuel = Suc f" by (cases fuel) auto
  have i1: "unat (i + 1) = unat i + 1" using Suc.prems(2) by (intro unat_Suc_u32) simp
  have "heap_get_usage h i = c" using Suc.prems(3) [of "unat i"] by (simp add: get_usage_page_use)
  moreover have "find_end_loop f h (i + 1) c = Inr (i + 1 + word_of_nat m)"
    by (rule Suc.IH) (use Suc.prems f i1 in auto)
  ultimately show ?case by (simp add: f algebra_simps)
qed

lemma heap_free_loop_spec:
  assumes "m < fuel" "unat i + m < 2 ^ 32" "c \<noteq> 0"
    and "\<And>k. unat i \<le> k \<Longrightarrow> k < unat i + m \<Longrightarrow> page_use h k = c" "page_use h (unat i + m) \<noteq> c"
  shows "heap_free_loop fuel h i c cnt = Inr (cnt + word_of_nat m, set_usage_loop h i m 0)"
  using assms
proof (induction m arbitrary: fuel i h cnt)
  case 0
  then show ?case by (cases fuel) (simp_all add: get_usage_page_use)
next
  case (Suc m)
  then obtain f where f: "fuel = Suc f" by (cases fuel) auto
  have i1: "unat (i + 1) = unat i + 1" using Suc.prems(2) by (intro unat_Suc_u32) simp
  have "heap_get_usage h i = c" using Suc.prems(4) [of "unat i"] by (simp add: get_usage_page_use)
  moreover have "heap_free_loop f (heap_set_usage h i 0) (i + 1) c (cnt + 1) =
      Inr (cnt + 1 + word_of_nat m, set_usage_loop (heap_set_usage h i 0) (i + 1) m 0)"
    by (rule Suc.IH) (use Suc.prems f i1 in \<open>auto simp: page_use_set\<close>)
  ultimately show ?case by (simp add: f HEAP_PAGE_FREE_def algebra_simps)
qed

lemma is_alloc_index:
  assumes "heap_wf h" "is_alloc h s n"
  shows "ptr_page_index h (page_addr h s) = word_of_nat s" "unat (word_of_nat s :: u32) = s"
    "heap_get_usage h (word_of_nat s) = page_use h s" "s + n < 2 ^ 32" "s + n \<le> 2 ^ 19"
    "is_page_aligned (page_addr h s)"
proof -
  have *: "0 < n" "s + n \<le> 2 ^ 19"
    using assms is_alloc_fits [of h s n] is_alloc_pos [of h s n] by (auto simp: heap_wf_def)
  then show "ptr_page_index h (page_addr h s) = word_of_nat s" "s + n < 2 ^ 32" "s + n \<le> 2 ^ 19"
    by (auto intro: ptr_page_index_addr)
  from * show "unat (word_of_nat s :: u32) = s" by (intro unat_of_nat_u32) auto
  show "heap_get_usage h (word_of_nat s) = page_use h s" by (simp add: page_use_def)
  show "is_page_aligned (page_addr h s)"
    using assms(1) by (intro page_addr_aligned) (simp add: heap_wf_def)
qed

lemma is_alloc_end_color:
  assumes "is_alloc h s n"
  shows "page_use h (s + n) \<noteq> page_use h s"
  using is_alloc_cut_right [OF assms] is_alloc_use [OF assms, of "s + n - 1"] is_allocD(1,3) [OF assms]
  by (auto simp: cut_def)

subsection \<open>Freeing\<close>

lemma heap_free_alloc:
  assumes wf: "heap_wf h" and al: "is_alloc h s n"
  shows "heap_free h (page_addr h s) =
           Inr (word_of_nat n, set_usage_loop h (word_of_nat s) n 0)"
proof -
  note ix = is_alloc_index [OF wf al]
  have "heap_free_loop (2 ^ 32) h (word_of_nat s) (page_use h s) 0 =
          Inr (0 + word_of_nat n, set_usage_loop h (word_of_nat s) n 0)"
  proof (rule heap_free_loop_spec)
    show "page_use h k = page_use h s"
      if "unat (word_of_nat s :: u32) \<le> k" "k < unat (word_of_nat s :: u32) + n" for k
      using is_alloc_use [OF al, of k] that ix(2) by simp
  qed (use ix is_alloc_used [OF al] is_alloc_end_color [OF al] in simp_all)
  then show ?thesis
    using ix is_alloc_used [OF al] unfolding heap_free_def Let_def
    by (simp add: HEAP_PAGE_FREE_def del: power_numeral)
qed

lemma heap_ok_set_loop:
  assumes "heap_ok h" "u \<le> 3" "unat i + n \<le> unat (page_count h)"
  shows "heap_ok (set_usage_loop h i n u)"
  using assms page_use_set_loop_pc [OF assms le_refl] by (auto simp: heap_ok_def)

lemma free_painted_allocs:
  assumes wf: "heap_wf h" and al: "is_alloc h s n"
  shows "allocs (set_usage_loop h (word_of_nat s) n 0) = allocs h - {(s, n)}"
proof -
  let ?h = "set_usage_loop h (word_of_nat s) n 0"
  have ok: "heap_ok h" using wf by (simp add: heap_wf_def)
  note ix = is_alloc_index [OF wf al] and fits = is_alloc_fits [OF al] and pos = is_alloc_pos [OF al]
  have use: "page_use ?h k = (if s \<le> k \<and> k < s + n then 0 else page_use h k)"
    if "k \<le> unat (page_count h)" for k
    using page_use_set_loop_pc [OF ok _ _ that, of 0 "word_of_nat s" n] fits ix(2) by simp
  have "agree_outside h ?h s (s + n)" using use by (auto simp: agree_outside_def)
  moreover have "inner h s (s + n) n"
    using al is_allocD(4,5) [OF al] by (simp add: inner_def)
  moreover have "page_use ?h i = 0" if "s \<le> i" "i < s + n" for i
    using use [of i] that fits by simp
  then have "inner ?h s (s + n) 0"
    using pos by (simp add: inner_def cut_def)
  ultimately show ?thesis using allocs_update [of h ?h s "s + n" n 0] by simp
qed

lemma heap_free_effect:
  assumes wf: "heap_wf h" and al: "is_alloc h s n"
  shows "\<exists>h'. heap_free h (page_addr h s) = Inr (word_of_nat n, h') \<and> heap_wf h' \<and>
           allocs h' = allocs h - {(s, n)} \<and>
           heap_start h' = heap_start h \<and> page_count h' = page_count h \<and>
           (\<forall>k \<le> unat (page_count h). page_use h' k = (if s \<le> k \<and> k < s + n then 0 else page_use h k))"
proof -
  let ?h = "set_usage_loop h (word_of_nat s) n 0"
  have ok: "heap_ok h" using wf by (simp add: heap_wf_def)
  note ix = is_alloc_index [OF wf al] and fits = is_alloc_fits [OF al]
  have "\<forall>k \<le> unat (page_count h). page_use ?h k = (if s \<le> k \<and> k < s + n then 0 else page_use h k)"
    using page_use_set_loop_pc [OF ok, of 0 "word_of_nat s" n] fits ix(2) by simp
  moreover have "heap_wf ?h"
    using wf heap_ok_set_loop [OF ok, of 0 "word_of_nat s" n] fits ix(2) by (simp add: heap_wf_def)
  ultimately show ?thesis
    using heap_free_alloc [OF wf al] free_painted_allocs [OF wf al] by simp
qed

subsection \<open>Allocating\<close>

lemma heap_alloc_cases:
  assumes "heap_ok h" "0 < pages"
  shows "case heap_alloc h pages of
           Inl e \<Rightarrow> e = Panic \<and> (\<forall>s. s + unat pages \<le> unat (page_count h) \<longrightarrow> \<not> free_run h s (unat pages))
         | Inr (p, h') \<Rightarrow> \<exists>s. first_fit h (unat pages) s \<and> fresh_paint h h' s (unat pages) \<and>
             p = page_addr h s"
  using heap_alloc_loop_spec [OF assms(1), of 0 "unat (page_count h)" 0 0 pages] assms(2)
  unfolding page_addr_def by (simp add: heap_alloc_def free_run_def word_less_nat_alt)

lemma heap_alloc_effect:
  assumes wf: "heap_wf h" and n: "0 < pages" and ret: "heap_alloc h pages = Inr (p, h')"
  shows "\<exists>s. p = page_addr h s \<and> first_fit h (unat pages) s \<and> heap_wf h' \<and>
           allocs h' = insert (s, unat pages) (allocs h) \<and>
           heap_start h' = heap_start h \<and> page_count h' = page_count h \<and>
           (\<forall>k \<le> unat (page_count h). \<not> (s \<le> k \<and> k < s + unat pages) \<longrightarrow> page_use h' k = page_use h k)"
proof -
  have ok: "heap_ok h" using wf by (simp add: heap_wf_def)
  obtain s where s: "first_fit h (unat pages) s" "fresh_paint h h' s (unat pages)" "p = page_addr h s"
    using heap_alloc_cases [OF ok n] ret by auto
  have pos: "0 < unat pages" using n by (simp add: word_less_nat_alt)
  have fits: "s + unat pages \<le> unat (page_count h)" "free_run h s (unat pages)"
    using s(1) by (simp_all add: first_fit_def)
  have "allocs h' = insert (s, unat pages) (allocs h)"
    by (rule fresh_paint_allocs_free [OF s(2) pos fits])
  moreover have "heap_wf h'"
    using wf fresh_paint_ok [OF ok s(2) fits(1)] fresh_paint_fields [OF s(2)]
    by (simp add: heap_wf_def)
  moreover obtain c where "\<forall>k \<le> unat (page_count h).
      page_use h' k = (if s \<le> k \<and> k < s + unat pages then c else page_use h k)"
    using fresh_paint_use [OF s(2)] by blast
  ultimately show ?thesis using s fresh_paint_fields [OF s(2)] by auto
qed

lemma heap_alloc_succeeds:
  assumes "heap_ok h" "0 < pages" "free_run h s (unat pages)" "s + unat pages \<le> unat (page_count h)"
  shows "\<exists>p h'. heap_alloc h pages = Inr (p, h')"
  using heap_alloc_cases [OF assms(1,2)] assms(3,4)
  by (cases "heap_alloc h pages") (auto split: prod.splits)

lemma free_run_no_alloc:
  assumes "free_run h s n" "is_alloc h t k" "0 < n"
  shows "t + k \<le> s \<or> s + n \<le> t"
proof (rule ccontr)
  assume "\<not> ?thesis"
  then have i: "max s t \<in> {s..<s + n}" "t \<le> max s t" "max s t < t + k"
    using is_alloc_pos [OF assms(2)] assms(3) by auto
  then have "page_use h (max s t) = 0" using assms(1) unfolding free_run_def by blast
  with is_alloc_use [OF assms(2) i(2,3)] is_alloc_used [OF assms(2)] show False by simp
qed

subsection \<open>Reallocating\<close>

lemma free_run_Suc: "free_run h s (Suc n) \<longleftrightarrow> page_use h s = 0 \<and> free_run h (s + 1) n"
proof -
  have "{s..<s + Suc n} = insert s {s + 1..<s + 1 + n}" by auto
  then show ?thesis by (simp add: free_run_def)
qed

lemma is_space_free_loop_iff:
  "unat i + n \<le> 2 ^ 32 \<Longrightarrow> is_space_free_loop h i n \<longleftrightarrow> free_run h (unat i) n"
proof (induction n arbitrary: i)
  case 0
  then show ?case by (simp add: free_run_def)
next
  case (Suc n)
  show ?case
  proof (cases "n = 0")
    case True
    then show ?thesis unfolding free_run_Suc
      by (simp add: get_usage_page_use HEAP_PAGE_FREE_def free_run_def)
  next
    case False
    then have "unat (i + 1) = unat i + 1" using Suc.prems by (intro unat_Suc_u32) simp
    with Suc show ?thesis unfolding free_run_Suc
      by (simp add: get_usage_page_use HEAP_PAGE_FREE_def)
  qed
qed

text \<open>The three ways out of \<open>heap_realloc\<close> on a live allocation \<open>(s, n)\<close> that is
  asked to have \<open>m\<close> pages, as long as page numbers stay below \<open>2 ^ 31\<close>.\<close>

lemma heap_realloc_unfold:
  assumes wf: "heap_wf h" and al: "is_alloc h s n" and m: "unat pages = m" "s + m < 2 ^ 31"
  shows "heap_realloc h (page_addr h s) pages =
     (if m \<le> n then
        Inr (word_of_nat n, page_addr h s, set_usage_loop h (word_of_nat (s + m)) (n - m) 0)
      else if free_run h (s + n) (m - n) then
        (if page_use h (s + m) = page_use h s then
           bind_res (heap_mark_used h (word_of_nat s) pages)
             (\<lambda>h'. Inr (word_of_nat n, page_addr h s, h'))
         else Inr (word_of_nat n, page_addr h s,
                   set_usage_loop h (word_of_nat (s + n)) (m - n) (page_use h s)))
      else bind_res (heap_alloc h pages) (\<lambda>(new_ptr, h').
             bind_res (heap_free h' (page_addr h s)) (\<lambda>(freed, h''). Inr (freed, new_ptr, h''))))"
proof -
  note ix = is_alloc_index [OF wf al] and pos = is_alloc_pos [OF al]
  let ?e = "word_of_nat (s + n) :: u32" and ?r = "word_of_nat (s + m) :: u32"
  have e: "unat ?e = s + n" and r: "unat ?r = s + m"
    by (rule unat_of_nat_u32, use ix(5) m(2) in simp)+
  have pages: "word_of_nat s + pages = ?r" using m(1) by auto
  have "find_end_loop (2 ^ 32) h (word_of_nat s + 1) (page_use h s) =
          Inr (word_of_nat s + 1 + word_of_nat (n - 1))"
  proof (rule find_end_loop_spec)
    have s1: "unat (word_of_nat s + 1 :: u32) = s + 1"
      using ix(2,5) pos by (subst unat_Suc_u32) auto
    show "page_use h k = page_use h s"
      if "unat (word_of_nat s + 1 :: u32) \<le> k" "k < unat (word_of_nat s + 1 :: u32) + (n - 1)" for k
      using is_alloc_use [OF al, of k] that s1 by simp
    show "page_use h (unat (word_of_nat s + 1 :: u32) + (n - 1)) \<noteq> page_use h s"
      "unat (word_of_nat s + 1 :: u32) + (n - 1) < 2 ^ 32" "n - 1 < 2 ^ 32"
      using is_alloc_end_color [OF al] ix(5) pos unfolding s1 by simp_all
  qed
  moreover have "(word_of_nat s + 1 + word_of_nat (n - 1) :: u32) = ?e"
    using pos by (cases n) (simp_all add: algebra_simps)
  ultimately have find: "find_end_loop (2 ^ 32) h (word_of_nat s + 1) (page_use h s) = Inr ?e"
    by simp
  have size: "?e - word_of_nat s = word_of_nat n" by simp
  have le: "?r \<le> ?e \<longleftrightarrow> m \<le> n" by (simp only: word_le_nat_alt e r) simp
  have diff: "unat (?e - ?r) = n - m" if "m \<le> n"
  proof -
    have "?r \<le> ?e" using le that by blast
    then show ?thesis by (simp add: unat_sub e r del: of_nat_add)
  qed
  have diff': "unat (?r - ?e) = m - n" if "\<not> m \<le> n"
  proof -
    have "?e \<le> ?r" using le that by (meson linear)
    then show ?thesis by (simp add: unat_sub e r del: of_nat_add)
  qed
  have free: "heap_is_space_free h ?e (?r - ?e) \<longleftrightarrow> free_run h (s + n) (m - n)" if "\<not> m \<le> n"
    using that m(2) unfolding heap_is_space_free_def diff' [OF that]
    by (subst is_space_free_loop_iff) (simp_all only: e, simp_all)
  have use: "heap_get_usage h ?r = page_use h (s + m)" by (simp add: page_use_def)
  have unfolded: "heap_realloc h (page_addr h s) pages =
     (if m \<le> n then Inr (word_of_nat n, page_addr h s, set_usage_loop h ?r (unat (?e - ?r)) 0)
      else if heap_is_space_free h ?e (?r - ?e) then
        (if page_use h (s + m) = page_use h s then
           bind_res (heap_mark_used h (word_of_nat s) pages)
             (\<lambda>h'. Inr (word_of_nat n, page_addr h s, h'))
         else Inr (word_of_nat n, page_addr h s, set_usage_loop h ?e (unat (?r - ?e)) (page_use h s)))
      else bind_res (heap_alloc h pages) (\<lambda>(new_ptr, h').
             bind_res (heap_free h' (page_addr h s)) (\<lambda>(freed, h''). Inr (freed, new_ptr, h''))))"
    unfolding heap_realloc_def Let_def ix(1,3) pages find HEAP_PAGE_FREE_def size le use
    using is_alloc_used [OF al] ix(6) by (simp only: kernel_assert_simps bind_res_simps simp_thms size le use)
  show ?thesis
  proof (cases "m \<le> n")
    case True
    with unfolded diff show ?thesis by presburger
  next
    case False
    with unfolded diff' free show ?thesis by presburger
  qed
qed

text \<open>What a reallocation of \<open>(s, n)\<close> to \<open>m\<close> pages has to leave behind.\<close>

definition realloc_result :: "Heap \<Rightarrow> nat \<Rightarrow> nat \<Rightarrow> nat \<Rightarrow> u32 \<times> u32 \<times> Heap \<Rightarrow> bool" where
  "realloc_result h s n m = (\<lambda>(old, p, h'). old = word_of_nat n \<and> heap_wf h' \<and>
     heap_start h' = heap_start h \<and> page_count h' = page_count h \<and>
     (\<exists>s'. p = page_addr h s' \<and> allocs h' = insert (s', m) (allocs h - {(s, n)}) \<and>
           (s' = s \<or> first_fit h m s')))"

lemma realloc_shrink:
  assumes wf: "heap_wf h" and al: "is_alloc h s n" and m: "0 < m" "m \<le> n"
  shows "realloc_result h s n m
           (word_of_nat n, page_addr h s, set_usage_loop h (word_of_nat (s + m)) (n - m) 0)"
proof -
  let ?h = "set_usage_loop h (word_of_nat (s + m)) (n - m) 0"
  have ok: "heap_ok h" using wf by (simp add: heap_wf_def)
  note ix = is_alloc_index [OF wf al] and fits = is_alloc_fits [OF al]
  have i: "unat (word_of_nat (s + m) :: u32) = s + m"
    by (rule unat_of_nat_u32) (use ix(5) m in simp)
  have i_fits: "unat (word_of_nat (s + m) :: u32) + (n - m) \<le> unat (page_count h)"
    unfolding i using fits m by simp
  have use: "page_use ?h k = (if s + m \<le> k \<and> k < s + n then 0 else page_use h k)"
    if "k \<le> unat (page_count h)" for k
    using page_use_set_loop_pc [OF ok _ i_fits that, of 0] m unfolding i by simp
  have agree: "agree_outside h ?h s (s + n)"
    unfolding agree_outside_def using use by simp
  have inner: "inner h s (s + n) n"
    using al is_allocD(4,5) [OF al] by (simp add: inner_def)
  have color: "page_use ?h k = page_use h s" if "s \<le> k" "k < s + m" for k
    using use [of k] is_alloc_use [OF al, of k] that m fits by simp
  have zero: "page_use ?h k = 0" if "s + m \<le> k" "k < s + n" for k
    using use [of k] that fits by simp
  have right: "page_use ?h (s + n) = page_use h (s + n)" using use [of "s + n"] fits by simp
  have left: "page_use ?h (s - 1) = page_use h (s - 1)" if "s \<noteq> 0"
    using use [of "s - 1"] fits m that by auto
  have cl: "cut ?h s"
    using left color [of s] is_alloc_cut_left [OF al] m by (cases "s = 0") (simp_all add: cut_def)
  have cm: "cut ?h (s + m)"
  proof (cases "m = n")
    case True
    with right color [of "s + n - 1"] m is_alloc_end_color [OF al] show ?thesis
      by (simp add: cut_def)
  next
    case False
    with zero [of "s + m"] color [of "s + m - 1"] m is_alloc_used [OF al] show ?thesis
      by (simp add: cut_def)
  qed
  have cr: "cut ?h (s + n)"
  proof (cases "m = n")
    case True
    with cm show ?thesis by simp
  next
    case False
    with zero [of "s + n - 1"] m show ?thesis by (simp add: cut_def)
  qed
  have "is_alloc ?h s m"
    by (rule is_allocI [where c = "page_use h s"])
      (use m fits is_alloc_used [OF al] color cl cm in simp_all)
  then have "inner ?h s (s + n) m" using m cl cr zero by (simp add: inner_def)
  from allocs_update [OF agree inner this] m have "allocs ?h = insert (s, m) (allocs h - {(s, n)})"
    by simp
  moreover have "heap_wf ?h"
    using wf heap_ok_set_loop [OF ok _ i_fits, of 0] by (simp add: heap_wf_def)
  ultimately show ?thesis by (auto simp: realloc_result_def)
qed

lemma realloc_grow:
  assumes wf: "heap_wf h" and al: "is_alloc h s n" and m: "n < m" "s + m \<le> unat (page_count h)"
    and free: "free_run h (s + n) (m - n)" and fp: "fresh_paint h h' s m"
  shows "realloc_result h s n m (word_of_nat n, page_addr h s, h')"
proof -
  have ok: "heap_ok h" using wf by (simp add: heap_wf_def)
  have zero: "page_use h k = 0" if "s + n \<le> k" "k < s + m" for k
    using free that unfolding free_run_def by (metis add_diff_inverse_nat atLeastLessThan_iff
        m(1) nat_add_left_cancel_less add.assoc not_less_iff_gr_or_eq)
  have "cut h (s + m)" using zero [of "s + m - 1"] m by (simp add: cut_def)
  then have "inner h s (s + m) n"
    using al is_alloc_cut_left [OF al] zero m by (simp add: inner_def)
  then have "allocs h' = insert (s, m) (allocs h - {(s, n)})"
    using m by (intro fresh_paint_allocs [OF fp]) simp_all
  moreover have "heap_wf h'"
    using wf fresh_paint_ok [OF ok fp m(2)] fresh_paint_fields [OF fp] by (simp add: heap_wf_def)
  ultimately show ?thesis
    using fresh_paint_fields [OF fp] by (auto simp: realloc_result_def)
qed

lemma grow_same_color_paint:
  assumes wf: "heap_wf h" and al: "is_alloc h s n" and m: "n < m" "s + m \<le> unat (page_count h)"
    and other: "page_use h (s + m) \<noteq> page_use h s"
  shows "fresh_paint h (set_usage_loop h (word_of_nat (s + n)) (m - n) (page_use h s)) s m"
proof -
  let ?h = "set_usage_loop h (word_of_nat (s + n)) (m - n) (page_use h s)"
  have ok: "heap_ok h" using wf by (simp add: heap_wf_def)
  note ix = is_alloc_index [OF wf al]
  have i: "unat (word_of_nat (s + n) :: u32) = s + n"
    by (rule unat_of_nat_u32) (use ix(5) in simp)
  have "unat (word_of_nat (s + n) :: u32) + (m - n) \<le> unat (page_count h)"
    unfolding i using m by simp
  note paint = page_use_set_loop_pc [OF ok page_use_bound [of h s] this]
  have "page_use ?h k = (if s \<le> k \<and> k < s + m then page_use h s else page_use h k)"
    if "k \<le> unat (page_count h)" for k
    using paint [OF that] is_alloc_use [OF al, of k] m unfolding i by simp
  moreover have "page_use h (s - 1) \<noteq> page_use h s" if "0 < s"
    using is_alloc_cut_left [OF al] is_alloc_used [OF al] that by (auto simp: cut_def)
  ultimately show ?thesis
    unfolding fresh_paint_def
    by (intro conjI exI [of _ "page_use h s"]) (use is_alloc_used [OF al] other in simp_all)
qed

lemma heap_realloc_effect:
  assumes wf: "heap_wf h" and al: "is_alloc h s n"
    and m: "0 < pages" "s + unat pages \<le> unat (page_count h)"
  shows "case heap_realloc h (page_addr h s) pages of
           Inl e \<Rightarrow> e = Panic \<and> (\<forall>t. t + unat pages \<le> unat (page_count h) \<longrightarrow> \<not> free_run h t (unat pages))
         | Inr r \<Rightarrow> realloc_result h s n (unat pages) r"
proof -
  let ?m = "unat pages" and ?p = "page_addr h s"
  have ok: "heap_ok h" and pc: "unat (page_count h) \<le> 2 ^ 19" using wf by (simp_all add: heap_wf_def)
  have m0: "0 < ?m" using m(1) by (simp add: word_less_nat_alt)
  have small: "s + ?m < 2 ^ 31" using m(2) pc by simp
  note unf = heap_realloc_unfold [OF wf al refl small] and ix = is_alloc_index [OF wf al]
  consider "?m \<le> n" | "n < ?m" "free_run h (s + n) (?m - n)" | "n < ?m" "\<not> free_run h (s + n) (?m - n)"
    by linarith
  then show ?thesis
  proof cases
    case 1
    with unf realloc_shrink [OF wf al m0] show ?thesis by simp
  next
    case 2
    note grow = realloc_grow [OF wf al 2(1) m(2) 2(2)]
    show ?thesis
    proof (cases "page_use h (s + ?m) = page_use h s")
      case True
      obtain h' where "heap_mark_used h (word_of_nat s) pages = Inr h'" "fresh_paint h h' s ?m"
        using heap_mark_used_fresh [OF ok m0 _ refl, of "word_of_nat s"] m(2) ix(2) by auto
      with unf 2 True grow show ?thesis by simp
    next
      case False
      from grow [OF grow_same_color_paint [OF wf al 2(1) m(2) False]] unf 2 False
      show ?thesis by simp
    qed
  next
    case 3
    have unf': "heap_realloc h ?p pages = bind_res (heap_alloc h pages) (\<lambda>(new_ptr, h').
        bind_res (heap_free h' ?p) (\<lambda>(freed, h''). Inr (freed, new_ptr, h'')))"
      using unf 3 by simp
    show ?thesis
    proof (cases "heap_alloc h pages")
      case (Inl e)
      with unf' heap_alloc_cases [OF ok m(1)] show ?thesis by simp
    next
      case (Inr r)
      then obtain p h' where ret: "heap_alloc h pages = Inr (p, h')" by (cases r) auto
      from heap_alloc_effect [OF wf m(1) this] obtain s' where
        s': "p = page_addr h s'" "first_fit h ?m s'" "heap_wf h'"
        "allocs h' = insert (s', ?m) (allocs h)"
        "heap_start h' = heap_start h" "page_count h' = page_count h" by auto
      have "(s, n) \<in> allocs h'" using s'(4) al by simp
      then have "is_alloc h' s n" by simp
      moreover have "?p = page_addr h' s" by (simp add: page_addr_def s'(5))
      ultimately obtain h'' where
        h'': "heap_free h' ?p = Inr (word_of_nat n, h'')" "heap_wf h''"
        "allocs h'' = allocs h' - {(s, n)}"
        "heap_start h'' = heap_start h'" "page_count h'' = page_count h'"
        using heap_free_effect [OF s'(3), of s n] by auto
      have "(s', ?m) \<noteq> (s, n)" using 3(1) by auto
      then have "allocs h'' = insert (s', ?m) (allocs h - {(s, n)})"
        unfolding h''(3) s'(4) by blast
      with unf' ret h'' s' show ?thesis by (auto simp: realloc_result_def)
    qed
  qed
qed

subsection \<open>The allocator meets the page-allocator contract\<close>

interpretation kheap: page_allocator heap_wf allocs page_addr heap_alloc heap_free
proof unfold_locales
  fix h :: Heap and s n t k :: nat
  assume "(s, n) \<in> allocs h" "(t, k) \<in> allocs h" and ne: "(s, n) \<noteq> (t, k)"
  then have al: "is_alloc h s n" "is_alloc h t k" by simp_all
  show "s + n \<le> t \<or> t + k \<le> s"
  proof (rule ccontr)
    assume "\<not> ?thesis"
    with allocs_overlap_eq [OF al, of "max s t"] is_alloc_pos [OF al(1)] is_alloc_pos [OF al(2)] ne
    show False by auto
  qed
next
  fix h :: Heap and s n :: nat
  assume "(s, n) \<in> allocs h"
  then show "0 < n" using is_alloc_pos by simp
next
  fix h h' :: Heap and n p :: u32
  assume wf: "heap_wf h" and n: "0 < n" and ret: "heap_alloc h n = Inr (p, h')"
  from heap_alloc_effect [OF this] obtain s where
    s: "p = page_addr h s" "first_fit h (unat n) s" "heap_wf h'"
    "allocs h' = insert (s, unat n) (allocs h)" "heap_start h' = heap_start h" by auto
  moreover have "t + k \<le> s \<or> s + unat n \<le> t" if "(t, k) \<in> allocs h" for t k
    using free_run_no_alloc [of h s "unat n" t k] s(2) that n
    by (simp add: first_fit_def word_less_nat_alt)
  moreover have "page_addr h' = page_addr h" using s(5) by (simp add: page_addr_def fun_eq_iff)
  ultimately show "heap_wf h' \<and> page_addr h' = page_addr h \<and>
      (\<exists>s. p = page_addr h s \<and> allocs h' = insert (s, unat n) (allocs h) \<and>
           (\<forall>(t, k) \<in> allocs h. t + k \<le> s \<or> s + unat n \<le> t))" by blast
next
  fix h :: Heap and s n :: nat
  assume "heap_wf h" "(s, n) \<in> allocs h"
  then show "\<exists>h'. heap_free h (page_addr h s) = Inr (word_of_nat n, h') \<and> heap_wf h' \<and>
      page_addr h' = page_addr h \<and> allocs h' = allocs h - {(s, n)}"
    using heap_free_effect [of h s n] by (auto simp: page_addr_def fun_eq_iff)
qed

subsection \<open>Properties\<close>

text \<open>Two small heaps of six pages for the witnesses: an empty one, and one whose first byte
  0x58 is 01 01 10 00, so that pages 0 and 1 are a red allocation and page 2 a green one.\<close>

definition heap_empty :: Heap where
  "heap_empty = \<lparr>usage_map = (\<lambda>_. 0), heap_start = 0xC0400000, page_count = 6\<rparr>"

definition heap_two :: Heap where
  "heap_two = heap_empty\<lparr>usage_map := (\<lambda>_. 0)(0 := 0x58)\<rparr>"

lemmas heap_eval = heap_empty_def heap_two_def heap_wf_def heap_ok_def page_use_def is_alloc_def
  cut_def heap_get_usage_def Let_def is_page_aligned_def

lemma heap_empty_wf: "heap_wf heap_empty"
  by (simp add: heap_eval)

lemma heap_two_wf: "heap_wf heap_two"
  by (simp add: heap_eval)

lemma heap_two_alloc: "is_alloc heap_two 0 2"
proof (rule is_allocI [where c = 1])
  show "page_use heap_two i = 1" if "0 \<le> i" "i < 0 + 2" for i
  proof -
    have "i = 0 \<or> i = 1" using that by auto
    then show ?thesis by (auto simp: heap_eval)
  qed
qed (simp_all add: heap_eval)

text \<open>C29: The usage map behaves as an array of two-bit cells: a page reads back the colour
  last written to it, and writing one page changes no other page, although four pages share
  a byte.\<close>

theorem heap_usage_cells:
  assumes "u \<le> 3"
  shows "heap_get_usage (heap_set_usage h i u) j = (if i = j then u else heap_get_usage h j)"
  using assms by simp

theorem heap_usage_cells_witness:
  "heap_get_usage (heap_set_usage heap_two 2 3) 2 = 3 \<and>
   heap_get_usage (heap_set_usage heap_two 2 3) 1 = 1"
proof -
  have "(3 :: u8) \<le> 3" by simp
  from heap_usage_cells [OF this, of heap_two 2 2] heap_usage_cells [OF this, of heap_two 2 1]
  show ?thesis by (simp add: heap_two_def heap_empty_def heap_get_usage_def Let_def)
qed

text \<open>C13: Allocation on a well-formed heap is first fit and adds exactly one allocation: the
  result is the address of the lowest run of enough free pages, this run becomes a live
  allocation of the requested size, all other live allocations and all other pages are as
  before, and the heap stays well-formed. The kernel panics exactly when no run of free
  pages is long enough.\<close>

theorem heap_alloc_first_fit:
  assumes "heap_wf h" "0 < pages"
  shows "case heap_alloc h pages of
      Inl e \<Rightarrow> e = Panic \<and>
        (\<forall>s. s + unat pages \<le> unat (page_count h) \<longrightarrow> \<not> free_run h s (unat pages))
    | Inr (p, h') \<Rightarrow> heap_wf h' \<and>
        (\<exists>s. p = page_addr h s \<and> first_fit h (unat pages) s \<and>
             allocs h' = insert (s, unat pages) (allocs h) \<and>
             (\<forall>k \<le> unat (page_count h).
                \<not> (s \<le> k \<and> k < s + unat pages) \<longrightarrow> page_use h' k = page_use h k))"
proof (cases "heap_alloc h pages")
  case (Inl e)
  with heap_alloc_cases [of h pages] assms show ?thesis by (simp add: heap_wf_def)
next
  case (Inr r)
  obtain p h' where r: "r = (p, h')" by (cases r)
  with heap_alloc_effect [OF assms, of p h'] Inr show ?thesis by auto
qed

theorem heap_alloc_first_fit_witness:
  "case heap_alloc heap_two 2 of
      Inl e \<Rightarrow> e = Panic \<and> (\<forall>s. s + 2 \<le> 6 \<longrightarrow> \<not> free_run heap_two s 2)
    | Inr (p, h') \<Rightarrow> heap_wf h' \<and>
        (\<exists>s. p = page_addr heap_two s \<and> first_fit heap_two 2 s \<and>
             allocs h' = insert (s, 2) (allocs heap_two) \<and>
             (\<forall>k \<le> 6. \<not> (s \<le> k \<and> k < s + 2) \<longrightarrow> page_use h' k = page_use heap_two k))"
proof -
  have "(0 :: u32) < 2" "page_count heap_two = 6" by (simp_all add: heap_two_def heap_empty_def)
  with heap_alloc_first_fit [OF heap_two_wf this(1)] show ?thesis
    by (simp cong: sum.case_cong)
qed

text \<open>C14: Freeing a live allocation returns its size in pages, makes exactly its pages free,
  removes exactly this allocation from the live ones, and keeps the heap well-formed: the
  colours never let a free run over into a neighbouring allocation. A pointer that is not
  page aligned or whose page is free is refused by a panic.\<close>

theorem heap_free_exact:
  assumes "heap_wf h" "(s, n) \<in> allocs h"
  shows "(\<exists>h'. heap_free h (page_addr h s) = Inr (word_of_nat n, h') \<and> heap_wf h' \<and>
           allocs h' = allocs h - {(s, n)} \<and>
           (\<forall>k \<le> unat (page_count h).
              page_use h' k = (if s \<le> k \<and> k < s + n then 0 else page_use h k))) \<and>
    (\<forall>p. \<not> is_page_aligned p \<or> heap_get_usage h (ptr_page_index h p) = HEAP_PAGE_FREE \<longrightarrow>
      heap_free h p = Inl Panic)"
proof
  show "\<forall>p. \<not> is_page_aligned p \<or> heap_get_usage h (ptr_page_index h p) = HEAP_PAGE_FREE \<longrightarrow>
      heap_free h p = Inl Panic"
    by (auto simp: heap_free_def Let_def kernel_assert_def kernel_panic_def)
qed (use heap_free_effect [of h s n] assms in auto)

theorem heap_free_exact_witness:
  "\<exists>h'. heap_free heap_two 0xC0400000 = Inr (2, h') \<and> heap_wf h' \<and>
        allocs h' = allocs heap_two - {(0, 2)}"
proof -
  have "(0, 2) \<in> allocs heap_two" using heap_two_alloc by simp
  from conjunct1 [OF heap_free_exact [OF heap_two_wf this]] show ?thesis
    by (simp add: page_addr_def) (auto simp: heap_two_def heap_empty_def)
qed

text \<open>Reallocating a live allocation (shrinking it, growing it in place in its own colour,
  growing it in place with a new colour when it would touch an allocation of the same colour,
  or moving it) replaces exactly this allocation by one of the new size, reports the old
  size, and returns the start of the new one; the kernel panics only when a move is needed
  and no run of free pages is long enough. This needs the new end to lie inside the heap.\<close>

theorem heap_realloc_correct:
  assumes "heap_wf h" "(s, n) \<in> allocs h" "0 < pages" "s + unat pages \<le> unat (page_count h)"
  shows "case heap_realloc h (page_addr h s) pages of
      Inl e \<Rightarrow> e = Panic \<and>
        (\<forall>t. t + unat pages \<le> unat (page_count h) \<longrightarrow> \<not> free_run h t (unat pages))
    | Inr (old, p, h') \<Rightarrow> old = word_of_nat n \<and> heap_wf h' \<and>
        (\<exists>s'. p = page_addr h s' \<and> (s' = s \<or> first_fit h (unat pages) s') \<and>
              allocs h' = insert (s', unat pages) (allocs h - {(s, n)}))"
proof (cases "heap_realloc h (page_addr h s) pages")
  case (Inl e)
  with heap_realloc_effect [of h s n pages] assms show ?thesis by simp
next
  case (Inr r)
  obtain old p h' where r: "r = (old, p, h')" by (cases r)
  with heap_realloc_effect [of h s n pages] assms Inr show ?thesis
    by (auto simp: realloc_result_def)
qed

theorem heap_realloc_correct_witness:
  "case heap_realloc heap_two 0xC0400000 4 of
      Inl e \<Rightarrow> e = Panic \<and> (\<forall>t. t + 4 \<le> 6 \<longrightarrow> \<not> free_run heap_two t 4)
    | Inr (old, p, h') \<Rightarrow> old = 2 \<and> heap_wf h' \<and>
        (\<exists>s'. p = page_addr heap_two s' \<and> (s' = 0 \<or> first_fit heap_two 4 s') \<and>
              allocs h' = insert (s', 4) (allocs heap_two - {(0, 2)}))"
proof -
  have "(0, 2) \<in> allocs heap_two" using heap_two_alloc by simp
  moreover have "(0 :: u32) < 4" "0 + unat (4 :: u32) \<le> unat (page_count heap_two)"
    "page_addr heap_two 0 = 0xC0400000" "page_count heap_two = 6"
    by (simp_all add: heap_two_def heap_empty_def page_addr_def)
  ultimately show ?thesis using heap_realloc_correct [OF heap_two_wf, of 0 2 4]
    by (simp cong: sum.case_cong)
qed

text \<open>Freeing the pages that were just allocated gives their number back and restores the
  set of live allocations.\<close>

theorem heap_alloc_free_roundtrip:
  assumes "heap_wf h" "0 < pages" "heap_alloc h pages = Inr (p, h')"
  shows "\<exists>h''. heap_free h' p = Inr (pages, h'') \<and> heap_wf h'' \<and> allocs h'' = allocs h"
  using kheap.alloc_release [OF assms] .

theorem heap_alloc_free_roundtrip_witness:
  "\<exists>p h' h''. heap_alloc heap_two 2 = Inr (p, h') \<and> heap_free h' p = Inr (2, h'') \<and>
     heap_wf h'' \<and> allocs h'' = allocs heap_two"
proof -
  have "{3..<3 + 2} = {3, 4 :: nat}" by auto
  then have "free_run heap_two 3 2" by (simp add: free_run_def heap_eval)
  then obtain p h' where "heap_alloc heap_two 2 = Inr (p, h')"
    using heap_alloc_succeeds [of heap_two 2 3] heap_two_wf
    by (auto simp: heap_wf_def heap_two_def heap_empty_def)
  moreover have "(0 :: u32) < 2" by simp
  ultimately show ?thesis using heap_alloc_free_roundtrip [OF heap_two_wf] by blast
qed

text \<open>C30: Growing in place does not look at the number of pages of the heap: an allocation
  that ends at the last page of the heap is grown past the end whenever the cell behind the
  grown run does not have its colour. The page after the heap becomes used.\<close>

theorem heap_realloc_leaves_heap:
  assumes "heap_wf h" "(s, n) \<in> allocs h" "s + n = unat (page_count h)"
    "page_use h (s + n + 1) \<noteq> page_use h s"
  shows "\<exists>h'. heap_realloc h (page_addr h s) (word_of_nat (n + 1)) =
                Inr (word_of_nat n, page_addr h s, h') \<and>
              page_use h' (unat (page_count h)) \<noteq> 0"
proof -
  have al: "is_alloc h s n" using assms(2) by simp
  note ix = is_alloc_index [OF assms(1) al]
  have un: "unat (word_of_nat (n + 1) :: u32) = n + 1"
    by (rule unat_of_nat_u32) (use ix(5) in simp)
  have i: "unat (word_of_nat (s + n) :: u32) = s + n"
    by (rule unat_of_nat_u32) (use ix(5) in simp)
  have free: "free_run h (s + n) 1"
    using assms(1,3) by (simp add: free_run_def heap_wf_def heap_ok_def)
  have "page_use (set_usage_loop h (word_of_nat (s + n)) 1 (page_use h s)) (s + n) = page_use h s"
    by (subst page_use_set_loop) (use ix(5) page_use_bound [of h s] in \<open>simp_all only: i\<close>, simp_all)
  then show ?thesis
    using heap_realloc_unfold [OF assms(1) al un] ix(5) free assms(3,4) is_alloc_used [OF al]
    by simp
qed

theorem heap_realloc_leaves_heap_witness:
  "\<exists>h'. heap_realloc (heap_two\<lparr>page_count := 3\<rparr>) 0xC0402000 2 = Inr (1, 0xC0402000, h') \<and>
        page_use h' 3 \<noteq> 0"
proof -
  let ?h = "heap_two\<lparr>page_count := 3\<rparr>"
  have "is_alloc ?h 2 1"
  proof (rule is_allocI [where c = 2])
    show "page_use ?h i = 2" if "2 \<le> i" "i < 2 + 1" for i
    proof -
      have "i = 2" using that by auto
      then show ?thesis by (simp add: heap_eval)
    qed
  qed (simp_all add: heap_eval)
  then have "(2, 1) \<in> allocs ?h" by simp
  moreover have "heap_wf ?h" "2 + 1 = unat (page_count ?h)" "page_use ?h (2 + 1 + 1) \<noteq> page_use ?h 2"
    "page_addr ?h 2 = 0xC0402000"
    by (simp_all add: heap_eval page_addr_def PAGE_SIZE_def)
  ultimately show ?thesis
    using heap_realloc_leaves_heap [of ?h 2 1] by (simp add: heap_two_def)
qed

end
