(* ===== verification/Paging.thy ===== *)
theory Paging
  imports PageHeap
begin

section \<open>Paging and frames (\<^verbatim>\<open>memory/mem.c\<close>, first half)\<close>

text \<open>
  The state of \<^verbatim>\<open>memory/mem.c\<close>, address translation through the current page
  directory, the free list of physical frames, and mapping and unmapping of pages. All
  accesses go through virtual addresses, as in the code: the page directory and the page
  tables through the windows of the self map, the first word of a free frame through the
  page at \<^verbatim>\<open>free_list_head\<close>.

  The translation buffer is modelled by the set \<open>stale\<close> of pages whose entry was
  rewritten while it was present and that were not invalidated since: an access to such a
  page stops with \<open>StaleTlb\<close>. Kernel accesses ignore the writable and user flags, since
  \<^verbatim>\<open>boot.s\<close> leaves CR0.WP clear.
\<close>

unbundle bit_operations_syntax

subsection \<open>State\<close>

record PhysicalMap =
  pm_addr :: u32
  pm_len :: u32

record kmem =
  pmem :: bytes
  cr3 :: u32
  stale :: "u32 \<Rightarrow> bool"
  kernel_page_dir :: u32
  free_list_head :: u32
  free_list_head_pte :: u32
  free_frame_paddr :: u32
  used_frames :: u32
  total_frames :: u32
  current_page_dir :: u32
  kernel_heap :: Heap
  user_ro_heap :: Heap
  user_physical_map :: "PhysicalMap list"
  user_physical_map_ptr :: u32

definition PAGE_USER_MODE :: u16 where "PAGE_USER_MODE = 4"
definition PAGE_WRITABLE :: u16 where "PAGE_WRITABLE = 2"
definition PAGE_GLOBAL :: u16 where "PAGE_GLOBAL = 512"

subsection \<open>Translation and access\<close>

definition translate :: "kmem \<Rightarrow> u32 \<Rightarrow> u32 res" where
  "translate s vaddr =
     (let pde = rd32 (pmem s) (get_paddr (cr3 s) + 4 * get_pd_index vaddr);
          pte = rd32 (pmem s) (get_paddr pde + 4 * get_pt_index vaddr)
      in if \<not> entry_present pde \<or> \<not> entry_present pte then Inl PageFault
         else if stale s (drop_bit 12 vaddr) then Inl StaleTlb
         else Inr (get_paddr pte + (vaddr AND 0xFFF)))"

definition vread32 :: "kmem \<Rightarrow> u32 \<Rightarrow> u32 res" where
  "vread32 s vaddr = bind_res (translate s vaddr) (\<lambda>pa. Inr (rd32 (pmem s) pa))"

definition vwrite32 :: "kmem \<Rightarrow> u32 \<Rightarrow> u32 \<Rightarrow> kmem res" where
  "vwrite32 s vaddr v =
     bind_res (translate s vaddr) (\<lambda>pa. Inr (s\<lparr>pmem := wr32 (pmem s) pa v\<rparr>))"

definition PDE :: "kmem \<Rightarrow> u32 \<Rightarrow> u32 res" where
  "PDE s pd_index = vread32 s (pde_addr pd_index)"

definition PTE :: "kmem \<Rightarrow> u32 \<Rightarrow> u32 \<Rightarrow> u32 res" where
  "PTE s pd_index pt_index = vread32 s (pte_addr pd_index pt_index)"

text \<open>
  Storing an entry through its window address. If the old entry was present and differs, the
  page it maps becomes stale; if the entry is one of the page directory, so do the pages of
  the whole table.
\<close>

definition entry_page :: "u32 \<Rightarrow> u32" where
  "entry_page ptr = (ptr - page_table_entries) div 4"

definition store_entry :: "kmem \<Rightarrow> u32 \<Rightarrow> u32 \<Rightarrow> kmem res" where
  "store_entry s ptr v =
     bind_res (vread32 s ptr) (\<lambda>old. bind_res (vwrite32 s ptr v) (\<lambda>s.
       let k = entry_page ptr
       in Inr (if entry_present old \<and> old \<noteq> v
               then s\<lparr>stale := (\<lambda>n. stale s n \<or> n = k \<or> (1023 * 1024 \<le> k \<and> n div 1024 = k - 1023 * 1024))\<rparr>
               else s)))"

definition set_PDE :: "kmem \<Rightarrow> u32 \<Rightarrow> u32 \<Rightarrow> kmem res" where
  "set_PDE s pd_index v = store_entry s (pde_addr pd_index) v"

definition set_PTE :: "kmem \<Rightarrow> u32 \<Rightarrow> u32 \<Rightarrow> u32 \<Rightarrow> kmem res" where
  "set_PTE s pd_index pt_index v = store_entry s (pte_addr pd_index pt_index) v"

text \<open>The routines of \<^verbatim>\<open>mem.s\<close>. No mapping carries the processor's global bit
  (bit 8), so loading CR3 drops every cached translation.\<close>

definition invalidate_page :: "kmem \<Rightarrow> u32 \<Rightarrow> kmem" where
  "invalidate_page s vaddr = s\<lparr>stale := (stale s)(drop_bit 12 vaddr := False)\<rparr>"

definition flush_tlb :: "kmem \<Rightarrow> kmem" where
  "flush_tlb s = s\<lparr>stale := (\<lambda>_. False)\<rparr>"

definition set_cr3 :: "kmem \<Rightarrow> u32 \<Rightarrow> kmem" where
  "set_cr3 s paddr = flush_tlb (s\<lparr>cr3 := paddr\<rparr>)"

definition get_page_table :: "u32 \<Rightarrow> u32" where
  "get_page_table pd_index = pte_addr pd_index 0"

definition get_entry :: "kmem \<Rightarrow> u32 \<Rightarrow> u32 res" where
  "get_entry s vaddr =
     (let pdi = get_pd_index vaddr
      in bind_res (PDE s pdi) (\<lambda>pde.
           if \<not> entry_present pde then Inr 0 else PTE s pdi (get_pt_index vaddr)))"

record EntryInfo =
  pdi :: u16
  pti :: u16
  entry :: u32

definition get_entry_info :: "kmem \<Rightarrow> u32 \<Rightarrow> EntryInfo res" where
  "get_entry_info s vaddr =
     bind_res (get_entry s vaddr) (\<lambda>e.
       Inr \<lparr>pdi = ucast (get_pd_index vaddr), pti = ucast (get_pt_index vaddr), entry = e\<rparr>)"

definition flush_entry_info :: "kmem \<Rightarrow> EntryInfo \<Rightarrow> kmem res" where
  "flush_entry_info s e =
     bind_res (PDE s (ucast (pdi e))) (\<lambda>pde. kernel_assert (entry_present pde)
     (bind_res (PTE s (ucast (pdi e)) (ucast (pti e))) (\<lambda>pte. kernel_assert (entry_present pte)
     (set_PTE s (ucast (pdi e)) (ucast (pti e)) (entry e)))))"

definition set_page_dir :: "kmem \<Rightarrow> u32 \<Rightarrow> kmem" where
  "set_page_dir s paddr =
     (if paddr \<noteq> current_page_dir s then (set_cr3 s paddr)\<lparr>current_page_dir := paddr\<rparr> else s)"

definition get_page_dir :: "kmem \<Rightarrow> u32" where
  "get_page_dir s = current_page_dir s"

text \<open>The loop that clears a page table, with \<open>n\<close> entries left. The table was not used
  for any access yet, so that no translation of it is cached.\<close>

primrec init_page_table_loop :: "nat \<Rightarrow> kmem \<Rightarrow> u32 \<Rightarrow> u32 \<Rightarrow> kmem res" where
  "init_page_table_loop 0 s table i = Inr s"
| "init_page_table_loop (Suc n) s table i =
     bind_res (vwrite32 s (table + 4 * i) 0) (\<lambda>s. init_page_table_loop n s table (i + 1))"

definition init_page_table :: "kmem \<Rightarrow> u32 \<Rightarrow> kmem res" where
  "init_page_table s table = init_page_table_loop 1024 s table 0"

subsection \<open>Frames\<close>

definition free_frame :: "kmem \<Rightarrow> u32 \<Rightarrow> kmem res" where
  "free_frame s paddr =
     (let s = s\<lparr>used_frames := used_frames s - 1\<rparr>
      in bind_res (store_entry s (free_list_head_pte s) (create_entry paddr PAGE_WRITABLE)) (\<lambda>s.
         let s = invalidate_page s (free_list_head s)
         in bind_res (vwrite32 s (free_list_head s) (free_frame_paddr s)) (\<lambda>s.
            Inr (s\<lparr>free_frame_paddr := paddr\<rparr>))))"

definition alloc_frame :: "kmem \<Rightarrow> (u32 \<times> kmem) res" where
  "alloc_frame s =
     kernel_assert (free_frame_paddr s \<noteq> 0)
      (let s = s\<lparr>used_frames := used_frames s + 1\<rparr>;
           frame = free_frame_paddr s
       in bind_res (vread32 s (free_list_head s)) (\<lambda>next_frame.
          let s = s\<lparr>free_frame_paddr := next_frame\<rparr>
          in bind_res (store_entry s (free_list_head_pte s)
                         (create_entry (free_frame_paddr s) PAGE_WRITABLE)) (\<lambda>s.
             Inr (frame, invalidate_page s (free_list_head s)))))"

subsection \<open>Mapping\<close>

text \<open>The Boolean result is \<^verbatim>\<open>RESULT\<close>: true when the page was already mapped.\<close>

definition map_page :: "kmem \<Rightarrow> u32 \<Rightarrow> u32 \<Rightarrow> u16 \<Rightarrow> (bool \<times> kmem) res" where
  "map_page s vaddr paddr flags =
     (let pdi = get_pd_index vaddr; pti = get_pt_index vaddr
      in bind_res (PDE s pdi) (\<lambda>pde.
         bind_res (if \<not> entry_present pde then
                     bind_res (alloc_frame s) (\<lambda>(new_table, s).
                     bind_res (set_PDE s pdi (create_entry new_table
                                 (PAGE_WRITABLE OR (flags AND PAGE_USER_MODE)))) (\<lambda>s.
                     init_page_table s (get_page_table pdi)))
                   else Inr s) (\<lambda>s.
         bind_res (PDE s pdi) (\<lambda>pde.
         let user_mode_requested = flags AND PAGE_USER_MODE \<noteq> 0;
             pde_user_mode = get_flags pde AND PAGE_USER_MODE \<noteq> 0
         in kernel_assert (\<not> user_mode_requested \<or> pde_user_mode)
            (bind_res (PTE s pdi pti) (\<lambda>pte.
             if entry_present pte then Inr (True, s)
             else bind_res (set_PTE s pdi pti (create_entry paddr flags)) (\<lambda>s.
                    Inr (False, s))))))))"

text \<open>The second component is the entry that was unmapped, when there was one.\<close>

definition unmap_page :: "kmem \<Rightarrow> u32 \<Rightarrow> (bool \<times> u32 \<times> kmem) res" where
  "unmap_page s vaddr =
     bind_res (get_entry_info s vaddr) (\<lambda>info.
       if \<not> entry_present (entry info) then Inr (True, 0, s)
       else bind_res (flush_entry_info s (info\<lparr>entry := 0\<rparr>)) (\<lambda>s.
              Inr (False, entry info, invalidate_page s vaddr)))"

definition swap_page_frames :: "kmem \<Rightarrow> u32 \<Rightarrow> u32 \<Rightarrow> kmem res" where
  "swap_page_frames s vaddr1 vaddr2 =
     bind_res (get_entry_info s vaddr1) (\<lambda>info1.
     bind_res (get_entry_info s vaddr2) (\<lambda>info2.
     let swapped_entry1 = set_paddr (entry info1) (get_paddr (entry info2));
         swapped_entry2 = set_paddr (entry info2) (get_paddr (entry info1))
     in bind_res (flush_entry_info s (info1\<lparr>entry := swapped_entry1\<rparr>)) (\<lambda>s.
        bind_res (flush_entry_info s (info2\<lparr>entry := swapped_entry2\<rparr>)) (\<lambda>s.
        Inr (invalidate_page (invalidate_page s vaddr1) vaddr2)))))"

subsection \<open>Directory and tables, seen from physical memory\<close>

definition pde :: "kmem \<Rightarrow> u32 \<Rightarrow> u32" where
  "pde s i = rd32 (pmem s) (cr3 s + 4 * i)"

definition pt :: "kmem \<Rightarrow> u32 \<Rightarrow> u32" where
  "pt s i = get_paddr (pde s i)"

definition pte :: "kmem \<Rightarrow> u32 \<Rightarrow> u32 \<Rightarrow> u32" where
  "pte s i j = rd32 (pmem s) (pt s i + 4 * j)"

text \<open>
  The invariant of the paging structures: the directory maps itself at its last entry, no
  two of its entries share a table (in particular, none but the last is the directory), and
  no cached translation is out of date.
\<close>

definition paging_ok :: "kmem \<Rightarrow> bool" where
  "paging_ok s \<longleftrightarrow> frame_aligned (cr3 s) \<and> entry_present (pde s 1023) \<and> pt s 1023 = cr3 s \<and>
     (\<forall>i < 1024. \<forall>j < 1024. i \<noteq> j \<longrightarrow> entry_present (pde s i) \<longrightarrow> entry_present (pde s j) \<longrightarrow>
        pt s i \<noteq> pt s j) \<and>
     (\<forall>n. \<not> stale s n)"

lemma paging_okD:
  assumes "paging_ok s"
  shows paging_aligned: "frame_aligned (cr3 s)" and paging_self: "entry_present (pde s 1023)"
    and paging_self_pt: "pt s 1023 = cr3 s" and paging_fresh: "\<not> stale s n"
  using assms unfolding paging_ok_def by blast+

lemma paging_inj:
  "paging_ok s \<Longrightarrow> i < 1024 \<Longrightarrow> j < 1024 \<Longrightarrow> entry_present (pde s i) \<Longrightarrow> entry_present (pde s j) \<Longrightarrow>
   pt s i = pt s j \<longleftrightarrow> i = j"
  unfolding paging_ok_def by metis

lemma pt_aligned [simp]: "frame_aligned (pt s i)"
  by (simp add: pt_def)

lemma pte_self: "paging_ok s \<Longrightarrow> pte s 1023 i = pde s i"
  by (simp add: pte_def paging_self_pt pde_def)

lemma translate_ok:
  assumes "paging_ok s"
  shows "translate s v =
     (if entry_present (pde s (get_pd_index v)) \<and>
         entry_present (pte s (get_pd_index v) (get_pt_index v))
      then Inr (get_paddr (pte s (get_pd_index v) (get_pt_index v)) + (v AND 0xFFF))
      else Inl PageFault)"
  using assms by (simp add: translate_def Let_def paging_aligned paging_fresh pde_def pte_def pt_def)

text \<open>The self map: an access to the window reaches the table in physical memory.\<close>

lemma translate_pte_addr:
  assumes "paging_ok s" "i < 1024" "j < 1024"
  shows "translate s (pte_addr i j) =
           (if entry_present (pde s i) then Inr (pt s i + 4 * j) else Inl PageFault)"
  using assms by (simp add: translate_ok paging_self pte_self pt_def)

lemma PTE_ok:
  assumes "paging_ok s" "i < 1024" "j < 1024"
  shows "PTE s i j = (if entry_present (pde s i) then Inr (pte s i j) else Inl PageFault)"
  using assms by (simp add: PTE_def vread32_def translate_pte_addr pte_def)

lemma PDE_ok:
  assumes "paging_ok s" "i < 1024"
  shows "PDE s i = Inr (pde s i)"
  using assms by (simp add: PDE_def pde_addr_pte_addr vread32_def translate_pte_addr paging_self
      pte_self flip: pte_def)

lemma entry_page_pte_addr:
  assumes "i < 1024" "j < 1024"
  shows "entry_page (pte_addr i j) = i * 1024 + j"
proof -
  have ij: "unat i < 1024" "unat j < 1024" using assms by (simp_all add: word_less_nat_alt)
  then have "unat (i * 1024 + j) = unat i * 1024 + unat j" by (simp add: unat_word_ariths)
  moreover from this ij have "unat (4 * (i * 1024 + j)) = 4 * (unat i * 1024 + unat j)"
    by (simp add: unat_word_ariths)
  ultimately show ?thesis
    by (simp add: entry_page_def pte_addr_def word_unat_eq_iff unat_div)
qed

lemma page_of_indices:
  "drop_bit 12 v = get_pd_index v * 1024 + get_pt_index v"
proof -
  have "unat (get_pd_index v * 1024 + get_pt_index v) = unat v div 4096"
  proof -
    have "unat v div 4194304 = unat v div 4096 div 1024" by (simp add: div_mult2_eq [symmetric])
    moreover have "unat v div 4096 < 1048576"
      using unat_lt_u32 [of v] by (simp add: less_mult_imp_div_less)
    ultimately show ?thesis
      by (simp add: unat_word_ariths unat_pd_index unat_pt_index)
  qed
  then show ?thesis by (simp add: word_unat_eq_iff drop_bit_eq_div unat_div)
qed

definition wr_pte :: "kmem \<Rightarrow> u32 \<Rightarrow> u32 \<Rightarrow> u32 \<Rightarrow> kmem" where
  "wr_pte s i j v = s\<lparr>pmem := wr32 (pmem s) (pt s i + 4 * j) v\<rparr>"

lemma store_entry_ok:
  assumes "paging_ok s" "i < 1024" "j < 1024" "entry_present (pde s i)"
    "\<not> entry_present (pte s i j) \<or> pte s i j = v"
  shows "store_entry s (pte_addr i j) v = Inr (wr_pte s i j v)"
  using assms
  by (auto simp: store_entry_def vread32_def vwrite32_def translate_pte_addr wr_pte_def Let_def pte_def)

lemma fresh_fun: "paging_ok s \<Longrightarrow> stale s = (\<lambda>_. False)"
  by (simp add: fun_eq_iff paging_fresh)

text \<open>Rewriting a present entry of a table and invalidating its page leaves nothing stale.\<close>

lemma store_invalidate_ok:
  assumes ok: "paging_ok s" and i: "get_pd_index v < 1023" and pr: "entry_present (pde s (get_pd_index v))"
  shows "\<exists>t. store_entry s (pte_addr (get_pd_index v) (get_pt_index v)) e = Inr t \<and>
           invalidate_page t v = wr_pte s (get_pd_index v) (get_pt_index v) e"
proof -
  let ?i = "get_pd_index v" and ?j = "get_pt_index v"
  have "unat (?i * 1024 + ?j) < 1023 * 1024"
    using i unat_pt_index [of v] by (simp add: unat_word_ariths word_less_nat_alt)
  then have "\<not> 1023 * 1024 \<le> ?i * 1024 + ?j" by (simp add: word_le_nat_alt)
  then show ?thesis
    using ok pr
    by (simp add: store_entry_def vread32_def vwrite32_def translate_pte_addr Let_def fresh_fun
        entry_page_pte_addr invalidate_page_def page_of_indices wr_pte_def fun_upd_def
        flip: pte_def)
qed

subsection \<open>What a store to a table changes\<close>

lemma wr_pte_fields [simp]:
  "cr3 (wr_pte s i j v) = cr3 s" "stale (wr_pte s i j v) = stale s"
  "free_list_head (wr_pte s i j v) = free_list_head s"
  "free_list_head_pte (wr_pte s i j v) = free_list_head_pte s"
  "free_frame_paddr (wr_pte s i j v) = free_frame_paddr s"
  "used_frames (wr_pte s i j v) = used_frames s" "total_frames (wr_pte s i j v) = total_frames s"
  "current_page_dir (wr_pte s i j v) = current_page_dir s"
  "kernel_heap (wr_pte s i j v) = kernel_heap s" "user_ro_heap (wr_pte s i j v) = user_ro_heap s"
  "pmem (wr_pte s i j v) = wr32 (pmem s) (pt s i + 4 * j) v"
  by (simp_all add: wr_pte_def)

lemma rd32_wr_pte_other:
  assumes "i < 1024" "j < 1024" "dword_aligned a" "get_paddr a \<noteq> pt s i"
  shows "rd32 (pmem (wr_pte s i j v)) a = rd32 (pmem s) a"
proof -
  have "pt s i + 4 * j \<noteq> a"
    using get_paddr_offset [of "pt s i" "4 * j"] index_scaled(1) [OF assms(2)] assms(4) by auto
  then show ?thesis using assms by simp
qed

text \<open>A store to a page table below the self map changes this one entry and nothing else of
  the paging structures.\<close>

lemma wr_pte_low:
  assumes ok: "paging_ok s" and i: "i < 1023" "entry_present (pde s i)" and j: "j < 1024"
  shows "\<And>k. k < 1024 \<Longrightarrow> pde (wr_pte s i j v) k = pde s k"
    "\<And>k. k < 1024 \<Longrightarrow> pt (wr_pte s i j v) k = pt s k"
    "\<And>k l. k < 1024 \<Longrightarrow> l < 1024 \<Longrightarrow> entry_present (pde s k) \<Longrightarrow>
       pte (wr_pte s i j v) k l = (if k = i \<and> l = j then v else pte s k l)"
    "paging_ok (wr_pte s i j v)"
proof -
  have i': "i < 1024" "i \<noteq> 1023" using i(1) by (auto simp: word_less_nat_alt)
  have ne: "pt s i \<noteq> cr3 s"
    using paging_inj [OF ok i'(1), of 1023] i(2) i'(2) ok by (simp add: paging_self paging_self_pt)
  show pde: "pde (wr_pte s i j v) k = pde s k" if "k < 1024" for k
    using that ne ok i' j by (simp add: pde_def paging_aligned)
  then show pt: "pt (wr_pte s i j v) k = pt s k" if "k < 1024" for k
    using that by (simp add: pt_def)
  show "pte (wr_pte s i j v) k l = (if k = i \<and> l = j then v else pte s k l)"
    if "k < 1024" "l < 1024" "entry_present (pde s k)" for k l
  proof (cases "k = i \<and> l = j")
    case False
    then have "pt s i + 4 * j \<noteq> pt s k + 4 * l"
      using frame_index_inj [of "pt s i" "pt s k" j l] that i' i(2) j
        paging_inj [OF ok i'(1) that(1)] by auto
    then show ?thesis
      using False that i' j by (auto simp: pte_def pt)
  qed (use that in \<open>auto simp: pte_def pt\<close>)
  show "paging_ok (wr_pte s i j v)"
    using ok pde pt unfolding paging_ok_def by simp
qed

end
