(* ===== verification/Frames.thy ===== *)
theory Frames
  imports Paging
begin

section \<open>The free list of frames (\<^verbatim>\<open>free_frame\<close>, \<^verbatim>\<open>alloc_frame\<close>)\<close>

text \<open>
  The free frames form a list linked through their first double words; only the head is
  mapped, at \<^verbatim>\<open>free_list_head\<close>. This theory states the invariant of the
  memory manager with the list of free frames as its abstraction, and what allocating and
  freeing a frame, mapping, unmapping and swapping pages do to it.
\<close>

unbundle bit_operations_syntax

subsection \<open>Fields that paging does not depend on\<close>

lemma pde_fields [simp]:
  "pde (s\<lparr>kernel_page_dir := x_0\<rparr>) i = pde s i"
  "pde (s\<lparr>free_list_head := x_1\<rparr>) i = pde s i"
  "pde (s\<lparr>free_list_head_pte := x_2\<rparr>) i = pde s i"
  "pde (s\<lparr>free_frame_paddr := x_3\<rparr>) i = pde s i"
  "pde (s\<lparr>used_frames := x_4\<rparr>) i = pde s i"
  "pde (s\<lparr>total_frames := x_5\<rparr>) i = pde s i"
  "pde (s\<lparr>current_page_dir := x_6\<rparr>) i = pde s i"
  "pde (s\<lparr>kernel_heap := x_7\<rparr>) i = pde s i"
  "pde (s\<lparr>user_ro_heap := x_8\<rparr>) i = pde s i"
  "pde (s\<lparr>user_physical_map := x_9\<rparr>) i = pde s i"
  "pde (s\<lparr>user_physical_map_ptr := x_10\<rparr>) i = pde s i"
  by (simp_all add: pde_def)

lemma pt_fields [simp]:
  "pt (s\<lparr>kernel_page_dir := x_0\<rparr>) i = pt s i"
  "pt (s\<lparr>free_list_head := x_1\<rparr>) i = pt s i"
  "pt (s\<lparr>free_list_head_pte := x_2\<rparr>) i = pt s i"
  "pt (s\<lparr>free_frame_paddr := x_3\<rparr>) i = pt s i"
  "pt (s\<lparr>used_frames := x_4\<rparr>) i = pt s i"
  "pt (s\<lparr>total_frames := x_5\<rparr>) i = pt s i"
  "pt (s\<lparr>current_page_dir := x_6\<rparr>) i = pt s i"
  "pt (s\<lparr>kernel_heap := x_7\<rparr>) i = pt s i"
  "pt (s\<lparr>user_ro_heap := x_8\<rparr>) i = pt s i"
  "pt (s\<lparr>user_physical_map := x_9\<rparr>) i = pt s i"
  "pt (s\<lparr>user_physical_map_ptr := x_10\<rparr>) i = pt s i"
  by (simp_all add: pt_def)

lemma pte_fields [simp]:
  "pte (s\<lparr>kernel_page_dir := x_0\<rparr>) i j = pte s i j"
  "pte (s\<lparr>free_list_head := x_1\<rparr>) i j = pte s i j"
  "pte (s\<lparr>free_list_head_pte := x_2\<rparr>) i j = pte s i j"
  "pte (s\<lparr>free_frame_paddr := x_3\<rparr>) i j = pte s i j"
  "pte (s\<lparr>used_frames := x_4\<rparr>) i j = pte s i j"
  "pte (s\<lparr>total_frames := x_5\<rparr>) i j = pte s i j"
  "pte (s\<lparr>current_page_dir := x_6\<rparr>) i j = pte s i j"
  "pte (s\<lparr>kernel_heap := x_7\<rparr>) i j = pte s i j"
  "pte (s\<lparr>user_ro_heap := x_8\<rparr>) i j = pte s i j"
  "pte (s\<lparr>user_physical_map := x_9\<rparr>) i j = pte s i j"
  "pte (s\<lparr>user_physical_map_ptr := x_10\<rparr>) i j = pte s i j"
  by (simp_all add: pte_def)

lemma paging_ok_fields [simp]:
  "paging_ok (s\<lparr>kernel_page_dir := x_0\<rparr>) = paging_ok s"
  "paging_ok (s\<lparr>free_list_head := x_1\<rparr>) = paging_ok s"
  "paging_ok (s\<lparr>free_list_head_pte := x_2\<rparr>) = paging_ok s"
  "paging_ok (s\<lparr>free_frame_paddr := x_3\<rparr>) = paging_ok s"
  "paging_ok (s\<lparr>used_frames := x_4\<rparr>) = paging_ok s"
  "paging_ok (s\<lparr>total_frames := x_5\<rparr>) = paging_ok s"
  "paging_ok (s\<lparr>current_page_dir := x_6\<rparr>) = paging_ok s"
  "paging_ok (s\<lparr>kernel_heap := x_7\<rparr>) = paging_ok s"
  "paging_ok (s\<lparr>user_ro_heap := x_8\<rparr>) = paging_ok s"
  "paging_ok (s\<lparr>user_physical_map := x_9\<rparr>) = paging_ok s"
  "paging_ok (s\<lparr>user_physical_map_ptr := x_10\<rparr>) = paging_ok s"
  by (simp_all add: paging_ok_def)

lemma translate_fields [simp]:
  "translate (s\<lparr>kernel_page_dir := x_0\<rparr>) v = translate s v"
  "translate (s\<lparr>free_list_head := x_1\<rparr>) v = translate s v"
  "translate (s\<lparr>free_list_head_pte := x_2\<rparr>) v = translate s v"
  "translate (s\<lparr>free_frame_paddr := x_3\<rparr>) v = translate s v"
  "translate (s\<lparr>used_frames := x_4\<rparr>) v = translate s v"
  "translate (s\<lparr>total_frames := x_5\<rparr>) v = translate s v"
  "translate (s\<lparr>current_page_dir := x_6\<rparr>) v = translate s v"
  "translate (s\<lparr>kernel_heap := x_7\<rparr>) v = translate s v"
  "translate (s\<lparr>user_ro_heap := x_8\<rparr>) v = translate s v"
  "translate (s\<lparr>user_physical_map := x_9\<rparr>) v = translate s v"
  "translate (s\<lparr>user_physical_map_ptr := x_10\<rparr>) v = translate s v"
  by (simp_all add: translate_def Let_def)


subsection \<open>Writes outside of the paging structures\<close>

definition table_frame :: "kmem \<Rightarrow> u32 \<Rightarrow> bool" where
  "table_frame s f \<longleftrightarrow> (\<exists>i < 1024. entry_present (pde s i) \<and> pt s i = f)"

definition maps :: "kmem \<Rightarrow> u32 \<Rightarrow> u32 \<Rightarrow> u32 \<Rightarrow> bool" where
  "maps s i j f \<longleftrightarrow> entry_present (pde s i) \<and> entry_present (pte s i j) \<and> get_paddr (pte s i j) = f"

text \<open>\<open>paging_eq s t\<close>: the two states have the same directory and the same tables.\<close>

definition paging_eq :: "kmem \<Rightarrow> kmem \<Rightarrow> bool" where
  "paging_eq s t \<longleftrightarrow> cr3 t = cr3 s \<and> stale t = stale s \<and> (\<forall>i < 1024. pde t i = pde s i) \<and>
     (\<forall>i < 1024. \<forall>j < 1024. entry_present (pde s i) \<longrightarrow> pte t i j = pte s i j)"

lemma paging_eqD:
  assumes "paging_eq s t"
  shows paging_eq_cr3: "cr3 t = cr3 s" and paging_eq_stale: "stale t = stale s"
    and paging_eq_pde: "i < 1024 \<Longrightarrow> pde t i = pde s i" and paging_eq_pt: "i < 1024 \<Longrightarrow> pt t i = pt s i"
    and paging_eq_pte: "i < 1024 \<Longrightarrow> j < 1024 \<Longrightarrow> entry_present (pde s i) \<Longrightarrow> pte t i j = pte s i j"
  using assms by (auto simp: paging_eq_def pt_def)

lemma paging_eq_ok: "paging_eq s t \<Longrightarrow> paging_ok t \<longleftrightarrow> paging_ok s"
  by (simp add: paging_ok_def paging_eqD)

lemma paging_eq_table: "paging_eq s t \<Longrightarrow> table_frame t f \<longleftrightarrow> table_frame s f"
  by (auto simp: table_frame_def paging_eqD)

lemma paging_eq_maps:
  "paging_eq s t \<Longrightarrow> i < 1024 \<Longrightarrow> j < 1024 \<Longrightarrow> maps t i j f \<longleftrightarrow> maps s i j f"
  by (auto simp: maps_def paging_eqD)

lemma paging_eq_trans: "paging_eq s t \<Longrightarrow> paging_eq t u \<Longrightarrow> paging_eq s u"
  by (simp add: paging_eq_def)

lemma cr3_table: "paging_ok s \<Longrightarrow> table_frame s (cr3 s)"
  unfolding table_frame_def by (rule exI [of _ 1023]) (simp add: paging_self paging_self_pt)

text \<open>Whatever happens to frames that are not tables does not change the paging structures.\<close>

lemma paging_eqI:
  assumes ok: "paging_ok s" and cr3: "cr3 t = cr3 s" and st: "stale t = stale s"
    and mem: "\<And>a. dword_aligned a \<Longrightarrow> table_frame s (get_paddr a) \<Longrightarrow> rd32 (pmem t) a = rd32 (pmem s) a"
  shows "paging_eq s t"
proof -
  have pde: "pde t i = pde s i" if "i < 1024" for i
    using mem [of "cr3 s + 4 * i"] that cr3_table [OF ok] paging_aligned [OF ok]
    by (simp add: pde_def cr3 index_scaled)
  moreover have "pte t i j = pte s i j" if "i < 1024" "j < 1024" "entry_present (pde s i)" for i j
    using mem [of "pt s i + 4 * j"] that pde
    by (auto simp: pte_def pt_def table_frame_def index_scaled)
  ultimately show ?thesis by (simp add: paging_eq_def cr3 st)
qed

lemma get_paddr_0 [simp]: "get_paddr 0 = 0"
  by (simp add: get_paddr_def)

lemma get_paddr_idem [simp]: "get_paddr (get_paddr a) = get_paddr a"
  by simp

lemma frame_dword [simp]: "frame_aligned a \<Longrightarrow> dword_aligned a"
  using frame_index_aligned [of a 0] by simp

lemma paging_eq_write:
  assumes "paging_ok s" "dword_aligned a" "\<not> table_frame s (get_paddr a)"
  shows "paging_eq s (s\<lparr>pmem := wr32 (pmem s) a v\<rparr>)"
  by (rule paging_eqI) (use assms in \<open>auto intro!: rd32_wr32_other\<close>)

subsection \<open>The list of free frames\<close>

text \<open>
  \<open>flist m p fs\<close>: from \<open>p\<close> on, the links run through the frames of \<open>fs\<close>
  and end with 0. A value of the list may carry flag bits, as
  \<^verbatim>\<open>free_page\<close> frees an entry as it is.
\<close>

primrec flist :: "bytes \<Rightarrow> u32 \<Rightarrow> u32 list \<Rightarrow> bool" where
  "flist m p [] \<longleftrightarrow> p = 0"
| "flist m p (f # fs) \<longleftrightarrow> p = f \<and> get_paddr f \<noteq> 0 \<and> flist m (rd32 m (get_paddr f)) fs"

lemma flist_cong:
  "(\<And>f. f \<in> set fs \<Longrightarrow> rd32 m' (get_paddr f) = rd32 m (get_paddr f)) \<Longrightarrow> flist m' p fs = flist m p fs"
  by (induction fs arbitrary: p) auto

abbreviation wdi :: "kmem \<Rightarrow> u32" where "wdi s \<equiv> get_pd_index (free_list_head s)"
abbreviation wti :: "kmem \<Rightarrow> u32" where "wti s \<equiv> get_pt_index (free_list_head s)"

text \<open>A frame that is neither a table nor mapped by a page other than the free list page.\<close>

definition unreferenced :: "kmem \<Rightarrow> u32 \<Rightarrow> bool" where
  "unreferenced s f \<longleftrightarrow> \<not> table_frame s f \<and>
     (\<forall>i < 1023. \<forall>j < 1024. (i, j) \<noteq> (wdi s, wti s) \<longrightarrow> \<not> maps s i j f)"

definition window_ok :: "kmem \<Rightarrow> bool" where
  "window_ok s \<longleftrightarrow> frame_aligned (free_list_head s) \<and> wdi s < 1023 \<and>
     free_list_head_pte s = pte_addr (wdi s) (wti s) \<and> entry_present (pde s (wdi s))"

definition mem_inv :: "kmem \<Rightarrow> u32 list \<Rightarrow> bool" where
  "mem_inv s fs \<longleftrightarrow> paging_ok s \<and> window_ok s \<and>
     flist (pmem s) (free_frame_paddr s) fs \<and> distinct (map get_paddr fs) \<and>
     (fs \<noteq> [] \<longrightarrow> maps s (wdi s) (wti s) (get_paddr (free_frame_paddr s))) \<and>
     (\<forall>f \<in> set fs. unreferenced s (get_paddr f))"

lemma mem_invD:
  assumes "mem_inv s fs"
  shows mem_paging: "paging_ok s" and mem_window: "window_ok s"
    and mem_flist: "flist (pmem s) (free_frame_paddr s) fs"
    and mem_distinct: "distinct (map get_paddr fs)"
    and mem_head: "fs \<noteq> [] \<Longrightarrow> maps s (wdi s) (wti s) (get_paddr (free_frame_paddr s))"
    and mem_unref: "f \<in> set fs \<Longrightarrow> unreferenced s (get_paddr f)"
    and mem_no_table: "f \<in> set fs \<Longrightarrow> \<not> table_frame s (get_paddr f)"
  using assms by (auto simp: mem_inv_def unreferenced_def)

lemma window_okD:
  assumes "window_ok s"
  shows window_aligned: "frame_aligned (free_list_head s)" and window_pdi: "wdi s < 1023"
    and window_pte: "free_list_head_pte s = pte_addr (wdi s) (wti s)"
    and window_present: "entry_present (pde s (wdi s))"
  using assms by (auto simp: window_ok_def)

lemma frame_low_bits [simp]: "frame_aligned a \<Longrightarrow> a AND 0xFFF = 0"
  by (simp add: frame_aligned_def masks take_bit_eq_mask flip: take_bit_eq_mask)


subsection \<open>Allocating a frame\<close>

text \<open>The page tables after a store to a table entry below the self map.\<close>

lemma wr_pte_maps:
  assumes "paging_ok s" "i < 1023" "entry_present (pde s i)" "j < 1024" "k < 1024" "l < 1024"
  shows "maps (wr_pte s i j v) k l f \<longleftrightarrow>
           (if k = i \<and> l = j then entry_present v \<and> get_paddr v = f else maps s k l f)"
  using assms(3) wr_pte_low(1) [OF assms(1-5), of v] wr_pte_low(3) [OF assms(1-6), of v]
  by (auto simp: maps_def)

lemma wr_pte_table:
  assumes "paging_ok s" "i < 1023" "entry_present (pde s i)" "j < 1024"
  shows "table_frame (wr_pte s i j v) f \<longleftrightarrow> table_frame s f"
  unfolding table_frame_def using wr_pte_low [OF assms] by auto

lemma wr_pte_unreferenced:
  assumes "paging_ok s" "i < 1023" "entry_present (pde s i)" "j < 1024" "unreferenced s f"
    "(i, j) = (wdi s, wti s) \<or> \<not> entry_present v \<or> get_paddr v \<noteq> f"
  shows "unreferenced (wr_pte s i j v) f"
  using assms(5,6) less_trans [of _ 1023 "1024 :: u32"]
  unfolding unreferenced_def wr_pte_table [OF assms(1-4)]
  by (auto simp: wr_pte_maps [OF assms(1-4)])

lemma wr_pte_flist:
  assumes "i < 1024" "entry_present (pde s i)" "j < 1024" "\<And>f. f \<in> set fs \<Longrightarrow> \<not> table_frame s (get_paddr f)"
  shows "flist (pmem (wr_pte s i j v)) p fs \<longleftrightarrow> flist (pmem s) p fs"
  by (rule flist_cong, rule rd32_wr_pte_other)
    (use assms in \<open>force simp: table_frame_def\<close>)+

lemma fields_maps [simp]:
  "maps (s\<lparr>free_frame_paddr := x\<rparr>) i j f = maps s i j f"
  "maps (s\<lparr>used_frames := y\<rparr>) i j f = maps s i j f"
  "table_frame (s\<lparr>free_frame_paddr := x\<rparr>) f = table_frame s f"
  "table_frame (s\<lparr>used_frames := y\<rparr>) f = table_frame s f"
  "unreferenced (s\<lparr>free_frame_paddr := x\<rparr>) f = unreferenced s f"
  "unreferenced (s\<lparr>used_frames := y\<rparr>) f = unreferenced s f"
  "wr_pte (s\<lparr>free_frame_paddr := x\<rparr>) i j v = (wr_pte s i j v)\<lparr>free_frame_paddr := x\<rparr>"
  "wr_pte (s\<lparr>used_frames := y\<rparr>) i j v = (wr_pte s i j v)\<lparr>used_frames := y\<rparr>"
  by (simp_all add: maps_def table_frame_def unreferenced_def wr_pte_def)

text \<open>The frame at the head of the list, seen through the free list page.\<close>

lemma window_translate:
  assumes "mem_inv s fs" "fs \<noteq> []"
  shows "translate s (free_list_head s) = Inr (get_paddr (free_frame_paddr s))"
  using mem_head [OF assms] mem_paging [OF assms(1)] mem_window [OF assms(1)]
  by (simp add: translate_ok maps_def window_aligned)

lemma window_store:
  assumes "paging_ok s" "window_ok s"
  shows "\<exists>t. store_entry s (free_list_head_pte s) e = Inr t \<and> free_list_head t = free_list_head s \<and>
           free_frame_paddr t = free_frame_paddr s \<and>
           invalidate_page t (free_list_head s) = wr_pte s (wdi s) (wti s) e"
proof -
  obtain t where t: "store_entry s (free_list_head_pte s) e = Inr t"
      "invalidate_page t (free_list_head s) = wr_pte s (wdi s) (wti s) e"
    using store_invalidate_ok [OF assms(1) window_pdi [OF assms(2)] window_present [OF assms(2)], of e]
      window_pte [OF assms(2)] by auto
  from arg_cong [OF t(2), of free_list_head] arg_cong [OF t(2), of free_frame_paddr] t show ?thesis
    by (auto simp: invalidate_page_def)
qed

text \<open>What is left when the head of the list is taken.\<close>

definition take_frame :: "kmem \<Rightarrow> kmem" where
  "take_frame s =
     (let rest = rd32 (pmem s) (get_paddr (free_frame_paddr s))
      in (wr_pte s (wdi s) (wti s) (create_entry rest PAGE_WRITABLE))
           \<lparr>used_frames := used_frames s + 1, free_frame_paddr := rest\<rparr>)"

lemma window_ok_fields [simp]:
  "window_ok (s\<lparr>free_frame_paddr := x\<rparr>) = window_ok s"
  "window_ok (s\<lparr>used_frames := y\<rparr>) = window_ok s"
  by (simp_all add: window_ok_def)

lemma alloc_frame_take:
  assumes inv: "mem_inv s (f # fs)"
  shows "alloc_frame s = Inr (f, take_frame s)"
proof -
  let ?rest = "rd32 (pmem s) (get_paddr f)"
  let ?s = "s\<lparr>used_frames := used_frames s + 1, free_frame_paddr := ?rest\<rparr>"
  have f: "free_frame_paddr s = f" "f \<noteq> 0" using mem_flist [OF inv] by auto
  have "vread32 (s\<lparr>used_frames := used_frames s + 1\<rparr>) (free_list_head s) = Inr ?rest"
    using window_translate [OF inv] by (simp add: vread32_def f)
  moreover obtain t where "store_entry ?s (free_list_head_pte s) (create_entry ?rest PAGE_WRITABLE) = Inr t"
      "invalidate_page t (free_list_head s) =
         wr_pte ?s (wdi s) (wti s) (create_entry ?rest PAGE_WRITABLE)" "free_list_head t = free_list_head s"
    using window_store [of ?s] mem_paging [OF inv] mem_window [OF inv] by auto
  ultimately show ?thesis using f by (simp add: alloc_frame_def take_frame_def Let_def)
qed

lemma alloc_frame_empty: "mem_inv s [] \<Longrightarrow> alloc_frame s = Inl Panic"
  using mem_flist [of s "[]"] by (simp add: alloc_frame_def)

lemma wr_pte_window:
  assumes "paging_ok s" "i < 1023" "entry_present (pde s i)" "j < 1024" "window_ok s"
  shows "window_ok (wr_pte s i j v)"
  using assms(5) wr_pte_low(1) [OF assms(1-4), of "wdi s" v] by (simp add: window_ok_def)

lemma take_frame_inv:
  assumes inv: "mem_inv s (f # fs)"
  shows "mem_inv (take_frame s) fs"
proof -
  note ok = mem_paging [OF inv] and w = mem_window [OF inv]
  note wr = ok window_pdi [OF w] window_present [OF w] pt_index_less [of "free_list_head s"]
  have f: "free_frame_paddr s = f" and rest: "flist (pmem s) (rd32 (pmem s) (get_paddr f)) fs"
    using mem_flist [OF inv] by simp_all
  have "\<And>g. g \<in> set fs \<Longrightarrow> unreferenced (take_frame s) (get_paddr g)"
    using mem_unref [OF inv] by (simp add: take_frame_def Let_def wr_pte_unreferenced [OF wr])
  moreover have "flist (pmem (take_frame s)) (free_frame_paddr (take_frame s)) fs"
    using rest mem_no_table [OF inv] wr_pte_flist [of "wdi s" s "wti s" fs] wr(3)
    by (simp add: take_frame_def Let_def f)
  ultimately show ?thesis
    using mem_distinct [OF inv] wr_pte_low(4) [OF wr] wr_pte_window [OF wr w]
    by (simp add: mem_inv_def take_frame_def Let_def wr_pte_maps [OF wr] PAGE_WRITABLE_def
        get_paddr_create_entry)
qed


subsection \<open>Freeing a frame\<close>

definition give_frame :: "kmem \<Rightarrow> u32 \<Rightarrow> kmem" where
  "give_frame s f =
     (let t = wr_pte s (wdi s) (wti s) (create_entry f PAGE_WRITABLE)
      in t\<lparr>pmem := wr32 (pmem t) (get_paddr f) (free_frame_paddr s),
           used_frames := used_frames s - 1, free_frame_paddr := f\<rparr>)"

lemma flag_writable [simp]: "get_paddr (create_entry p PAGE_WRITABLE) = get_paddr p"
  by (simp add: get_paddr_create_entry PAGE_WRITABLE_def)

lemma free_frame_give:
  assumes ok: "paging_ok s" and w: "window_ok s"
  shows "free_frame s f = Inr (give_frame s f)"
proof -
  let ?s = "s\<lparr>used_frames := used_frames s - 1\<rparr>"
  let ?t = "wr_pte s (wdi s) (wti s) (create_entry f PAGE_WRITABLE)"
  note wr = ok window_pdi [OF w] window_present [OF w] pt_index_less [of "free_list_head s"]
  obtain t where t: "store_entry ?s (free_list_head_pte s) (create_entry f PAGE_WRITABLE) = Inr t"
      "invalidate_page t (free_list_head s) = ?t\<lparr>used_frames := used_frames s - 1\<rparr>"
      "free_list_head t = free_list_head s"
    using window_store [of ?s] ok w by auto
  have "translate ?t (free_list_head s) = Inr (get_paddr f)"
    using wr_pte_low(1,3) [OF wr] wr_pte_low(4) [OF wr] wr(3)
    by (simp add: translate_ok window_aligned [OF w])
  with t show ?thesis by (simp add: free_frame_def give_frame_def Let_def vwrite32_def)
qed

lemma paging_eq_maps_low: "paging_eq s t \<Longrightarrow> i < 1023 \<Longrightarrow> j < 1024 \<Longrightarrow> maps t i j f \<longleftrightarrow> maps s i j f"
  by (rule paging_eq_maps) (auto intro: less_trans)

lemma paging_eq_unreferenced:
  "paging_eq s t \<Longrightarrow> free_list_head t = free_list_head s \<Longrightarrow> unreferenced t f \<longleftrightarrow> unreferenced s f"
  by (simp add: unreferenced_def paging_eq_table paging_eq_maps_low cong: conj_cong)

lemma paging_eq_window:
  assumes "paging_eq s t" "free_list_head t = free_list_head s" "free_list_head_pte t = free_list_head_pte s"
  shows "window_ok t \<longleftrightarrow> window_ok s"
  using assms by (simp add: window_ok_def paging_eq_pde)

lemma give_frame_inv:
  assumes inv: "mem_inv s fs" and f: "get_paddr f \<noteq> 0" "unreferenced s (get_paddr f)"
    and new: "get_paddr f \<notin> get_paddr ` set fs"
  shows "mem_inv (give_frame s f) (f # fs)"
proof -
  note ok = mem_paging [OF inv] and w = mem_window [OF inv]
  note wr = ok window_pdi [OF w] window_present [OF w] pt_index_less [of "free_list_head s"]
  let ?t = "wr_pte s (wdi s) (wti s) (create_entry f PAGE_WRITABLE)"
  let ?u = "?t\<lparr>pmem := wr32 (pmem ?t) (get_paddr f) (free_frame_paddr s)\<rparr>"
  have eq: "paging_eq ?t ?u"
    by (rule paging_eq_write)
      (use wr_pte_low(4) [OF wr] f(2) in \<open>simp_all add: wr_pte_table [OF wr] unreferenced_def\<close>)
  have "unreferenced ?t (get_paddr g)" if "g \<in> set (f # fs)" for g
    using that f(2) mem_unref [OF inv] new
      wr_pte_unreferenced [OF wr, of "get_paddr g" "create_entry f PAGE_WRITABLE"] by auto
  then have un: "unreferenced ?u (get_paddr g)" if "g \<in> set (f # fs)" for g
    using paging_eq_unreferenced [OF eq] that by simp
  have "flist (pmem ?u) (free_frame_paddr s) fs \<longleftrightarrow> flist (pmem ?t) (free_frame_paddr s) fs"
    by (rule flist_cong) (use new in \<open>auto intro!: rd32_wr32_other\<close>)
  then have fl: "flist (pmem ?u) f (f # fs)"
    using f(1) mem_flist [OF inv] wr_pte_flist [of "wdi s" s "wti s" fs] mem_no_table [OF inv] wr(3)
    by simp
  have "maps ?t (wdi s) (wti s) (get_paddr f)"
    by (simp add: wr_pte_maps [OF wr])
  then have "maps ?u (wdi s) (wti s) (get_paddr f)"
    by (simp only: paging_eq_maps [OF eq] pd_index_less pt_index_less)
  with un fl new show ?thesis
    using mem_distinct [OF inv] paging_eq_ok [OF eq] wr_pte_low(4) [OF wr]
      paging_eq_window [OF eq] wr_pte_window [OF wr w]
    by (simp add: mem_inv_def give_frame_def Let_def)
qed


subsection \<open>A new page table\<close>

lemma vwrite32_pte_addr:
  assumes "paging_ok s" "i < 1024" "j < 1024" "entry_present (pde s i)"
  shows "vwrite32 s (pte_addr i j) v = Inr (wr_pte s i j v)"
  using assms by (simp add: vwrite32_def translate_pte_addr wr_pte_def)

lemma get_page_table_index: "get_page_table i + 4 * j = pte_addr i j"
  by (simp add: get_page_table_def pte_addr_def algebra_simps)

lemma init_page_table_loop_eq:
  assumes "paging_ok s" "i < 1023" "entry_present (pde s i)" "unat j + n = 1024"
  shows "init_page_table_loop n s (get_page_table i) j =
    Inr (s\<lparr>pmem := (\<lambda>a. if get_paddr a = pt s i \<and> unat j \<le> unat (a AND 0xFFF) div 4 then 0 else pmem s a)\<rparr>)"
  using assms
proof (induction n arbitrary: s j)
  case 0
  have "\<not> 1024 \<le> unat (a AND 0xFFF) div 4" for a :: u32
    unfolding unat_and_FFF by (simp add: less_mult_imp_div_less)
  then show ?case using 0 by simp
next
  case (Suc n)
  have i: "i < 1024" using Suc.prems(2) by (rule less_trans) simp
  have j: "j < 1024" using Suc.prems(4) by (simp add: word_less_nat_alt)
  have j1: "unat (j + 1) = unat j + 1"
    using Suc.prems(4) by (simp add: unat_Suc_u32)
  note wr = wr_pte_low [OF Suc.prems(1-3) j]
  have "init_page_table_loop n (wr_pte s i j 0) (get_page_table i) (j + 1) =
    Inr ((wr_pte s i j 0)\<lparr>pmem := (\<lambda>a. if get_paddr a = pt s i \<and> unat j + 1 \<le> unat (a AND 0xFFF) div 4
      then 0 else pmem (wr_pte s i j 0) a)\<rparr>)"
    using Suc.IH [of "wr_pte s i j 0" "j + 1"] Suc.prems wr i by (simp add: j1)
  moreover have "(\<lambda>a. if get_paddr a = pt s i \<and> unat j + 1 \<le> unat (a AND 0xFFF) div 4
      then 0 else pmem (wr_pte s i j 0) a) =
    (\<lambda>a. if get_paddr a = pt s i \<and> unat j \<le> unat (a AND 0xFFF) div 4 then 0 else pmem s a)"
    by (rule ext) (auto simp: wr32_in_frame(2) [OF pt_aligned j] Suc_le_eq order_less_le)
  ultimately show ?case
    using Suc.prems i j
    by (simp add: get_page_table_index vwrite32_pte_addr wr_pte_def)
qed

lemma init_page_table_eq:
  assumes "paging_ok s" "i < 1023" "entry_present (pde s i)"
  shows "init_page_table s (get_page_table i) = Inr (s\<lparr>pmem := clear_frame (pmem s) (pt s i)\<rparr>)"
  using init_page_table_loop_eq [OF assms, of 0 1024]
  by (simp add: init_page_table_def clear_frame_def)

definition new_table :: "kmem \<Rightarrow> u32 \<Rightarrow> u32 \<Rightarrow> kmem" where
  "new_table s i e = s\<lparr>pmem := clear_frame (wr32 (pmem s) (cr3 s + 4 * i) e) (get_paddr e)\<rparr>"

lemma less_1024: "i < 1023 \<Longrightarrow> i < (1024 :: u32)"
  by (simp add: word_less_nat_alt)

lemma new_dir:
  assumes ok: "paging_ok s" and i: "i < 1023" "\<not> entry_present (pde s i)"
    and e: "entry_present e" "\<not> table_frame s (get_paddr e)"
  shows "k < 1024 \<Longrightarrow> pde (wr_pte s 1023 i e) k = (if k = i then e else pde s k)"
    and "k < 1024 \<Longrightarrow> k \<noteq> i \<Longrightarrow> k \<noteq> 1023 \<Longrightarrow> l < 1024 \<Longrightarrow> entry_present (pde s k) \<Longrightarrow>
           pte (wr_pte s 1023 i e) k l = pte s k l"
    and "paging_ok (wr_pte s 1023 i e)"
proof -
  let ?t = "wr_pte s 1023 i e"
  have i': "i < 1024" "i \<noteq> 1023" using i(1) by (auto simp: word_less_nat_alt)
  show pde: "pde ?t k = (if k = i then e else pde s k)" if "k < 1024" for k
    using that i' ok by (auto simp: pde_def paging_self_pt paging_aligned)
  show "pte ?t k l = pte s k l"
    if k: "k < 1024" "k \<noteq> i" "k \<noteq> 1023" and l: "l < 1024" and pr: "entry_present (pde s k)" for k l
  proof -
    have "pt s k \<noteq> cr3 s"
      using paging_inj [OF ok k(1), of 1023] pr k(3) ok by (simp add: paging_self paging_self_pt)
    then have "pt s 1023 + 4 * i \<noteq> pt s k + 4 * l"
      using frame_index_inj [of "cr3 s" "pt s k" i l] i' l ok
      by (auto simp: paging_self_pt paging_aligned)
    then show ?thesis
      using pde [OF k(1)] k i' l by (auto simp: pte_def pt_def [of ?t] pt_def [of s k, symmetric])
  qed
  have pt: "pt ?t k = (if k = i then get_paddr e else pt s k)" if "k < 1024" for k
    using pde [OF that] by (simp add: pt_def)
  have new: "get_paddr e \<noteq> pt s k" if "k < 1024" "entry_present (pde s k)" for k
    using e(2) that by (auto simp: table_frame_def)
  have inj: "pt ?t k \<noteq> pt ?t l"
    if "k < 1024" "l < 1024" "k \<noteq> l" "entry_present (pde ?t k)" "entry_present (pde ?t l)" for k l
    using that new [of k] new [of l] paging_inj [OF ok, of k l]
    by (auto simp: pt pde split: if_splits)
  have "frame_aligned (cr3 ?t)" "entry_present (pde ?t 1023)" "pt ?t 1023 = cr3 ?t" "\<And>n. \<not> stale ?t n"
    using i'(2) pde [of 1023] pt [of 1023]
    by (simp_all add: paging_aligned [OF ok] paging_self [OF ok] paging_self_pt [OF ok] paging_fresh [OF ok])
  with inj show "paging_ok ?t" unfolding paging_ok_def by blast
qed

lemma new_table_facts:
  assumes ok: "paging_ok s" and i: "i < 1023" "\<not> entry_present (pde s i)"
    and e: "entry_present e" "\<not> table_frame s (get_paddr e)"
  shows new_table_pde: "k < 1024 \<Longrightarrow> pde (new_table s i e) k = (if k = i then e else pde s k)"
    and new_table_pte: "k < 1023 \<Longrightarrow> l < 1024 \<Longrightarrow> entry_present (pde (new_table s i e) k) \<Longrightarrow>
           pte (new_table s i e) k l = (if k = i then 0 else pte s k l)"
    and new_table_ok: "paging_ok (new_table s i e)"
    and new_table_init: "bind_res (set_PDE s i e) (\<lambda>s. init_page_table s (get_page_table i)) =
           Inr (new_table s i e)"
proof -
  let ?u = "wr_pte s 1023 i e" and ?t = "new_table s i e"
  note new_dir = new_dir [OF ok i e]
  note i' = less_1024 [OF i(1)]
  have ui: "entry_present (pde ?u i)" "pt ?u i = get_paddr e"
    using new_dir(1) [OF i'] e(1) by (simp_all add: pt_def)
  have t: "?t = ?u\<lparr>pmem := clear_frame (pmem ?u) (get_paddr e)\<rparr>"
    using ok by (simp add: new_table_def wr_pte_def paging_self_pt)
  have "set_PDE s i e = Inr ?u"
    using store_entry_ok [of s 1023 i e] i i' ok
    by (simp add: set_PDE_def pde_addr_pte_addr paging_self pte_self)
  then show "bind_res (set_PDE s i e) (\<lambda>s. init_page_table s (get_page_table i)) = Inr ?t"
    using init_page_table_eq [OF new_dir(3) i(1) ui(1)] by (simp add: t ui)
  have ne: "get_paddr e \<noteq> cr3 s" using e(2) cr3_table [OF ok] by metis
  have pde': "pde ?t k = pde ?u k" if "k < 1024" for k
    using that ne ok by (simp add: pde_def t rd32_clear_frame paging_aligned index_scaled)
  then show pde: "pde ?t k = (if k = i then e else pde s k)" if "k < 1024" for k
    using that new_dir(1) [OF that] by simp
  show "pte ?t k l = (if k = i then 0 else pte s k l)"
    if k: "k < 1023" and l: "l < 1024" and pr: "entry_present (pde ?t k)" for k l
  proof (cases "k = i")
    case True
    then show ?thesis
      using pde [OF i'] l by (simp add: pte_def pt_def t rd32_clear_frame index_scaled)
  next
    case False
    note k' = less_1024 [OF k]
    have "k \<noteq> 1023" using k by auto
    moreover have "get_paddr e \<noteq> pt s k"
      using pr pde [OF k'] False e(2) k' by (auto simp: table_frame_def)
    moreover have "pt ?t k = pt s k" "pt ?u k = pt s k"
      using pde [OF k'] new_dir(1) [OF k'] False by (simp_all add: pt_def)
    ultimately show ?thesis
      using False l pr pde [OF k'] new_dir(2) [OF k' False _ l]
      by (simp add: pte_def t rd32_clear_frame index_scaled)
  qed
  show "paging_ok ?t"
    using new_dir(3) pde' pt_def [of ?t] pt_def [of ?u] unfolding paging_ok_def
    by (simp add: t)
qed


subsection \<open>What an operation leaves as it was\<close>

text \<open>The entry of page \<open>(i, j)\<close>, 0 when there is no table: what
  \<^verbatim>\<open>get_entry\<close> returns.\<close>

definition view :: "kmem \<Rightarrow> u32 \<Rightarrow> u32 \<Rightarrow> u32" where
  "view s i j = (if entry_present (pde s i) then pte s i j else 0)"

lemma get_entry_view:
  "paging_ok s \<Longrightarrow> get_entry s v = Inr (view s (get_pd_index v) (get_pt_index v))"
  by (simp add: get_entry_def Let_def PDE_ok PTE_ok view_def)

lemma maps_view: "maps s i j f \<longleftrightarrow> entry_present (view s i j) \<and> get_paddr (view s i j) = f"
  by (auto simp: maps_def view_def)

text \<open>
  \<open>mem_step s t F\<close>: the operation from \<open>s\<close> to \<open>t\<close> touched no frame but
  page tables and those of \<open>F\<close>, kept the tables there were and the directory, and made
  tables of frames of \<open>F\<close> only.
\<close>

definition same_config :: "kmem \<Rightarrow> kmem \<Rightarrow> bool" where
  "same_config s t \<longleftrightarrow> cr3 t = cr3 s \<and> stale t = stale s \<and> kernel_page_dir t = kernel_page_dir s \<and>
     free_list_head t = free_list_head s \<and> free_list_head_pte t = free_list_head_pte s \<and>
     total_frames t = total_frames s \<and> current_page_dir t = current_page_dir s \<and>
     kernel_heap t = kernel_heap s \<and> user_ro_heap t = user_ro_heap s \<and>
     user_physical_map t = user_physical_map s \<and> user_physical_map_ptr t = user_physical_map_ptr s"

definition mem_step :: "kmem \<Rightarrow> kmem \<Rightarrow> u32 set \<Rightarrow> bool" where
  "mem_step s t F \<longleftrightarrow> same_config s t \<and>
     (\<forall>k < 1024. entry_present (pde s k) \<longrightarrow> pde t k = pde s k) \<and>
     (\<forall>g. table_frame t g \<longrightarrow> table_frame s g \<or> g \<in> F) \<and>
     (\<forall>a. \<not> table_frame s (get_paddr a) \<longrightarrow> get_paddr a \<notin> F \<longrightarrow> pmem t a = pmem s a)"

lemma same_configD:
  assumes "same_config s t"
  shows "cr3 t = cr3 s" "stale t = stale s" "kernel_page_dir t = kernel_page_dir s"
    "free_list_head t = free_list_head s" "free_list_head_pte t = free_list_head_pte s"
    "total_frames t = total_frames s" "current_page_dir t = current_page_dir s"
    "kernel_heap t = kernel_heap s" "user_ro_heap t = user_ro_heap s"
    "user_physical_map t = user_physical_map s" "user_physical_map_ptr t = user_physical_map_ptr s"
  using assms by (simp_all add: same_config_def)

lemma mem_stepD:
  assumes "mem_step s t F"
  shows mem_step_config: "same_config s t"
    and mem_step_pde: "k < 1024 \<Longrightarrow> entry_present (pde s k) \<Longrightarrow> pde t k = pde s k"
    and mem_step_table: "table_frame t g \<Longrightarrow> table_frame s g \<or> g \<in> F"
    and mem_step_data: "\<not> table_frame s (get_paddr a) \<Longrightarrow> get_paddr a \<notin> F \<Longrightarrow> pmem t a = pmem s a"
  using assms by (auto simp: mem_step_def)

lemma same_config_trans: "same_config s t \<Longrightarrow> same_config t u \<Longrightarrow> same_config s u"
  by (simp add: same_config_def)

lemma mem_step_refl: "mem_step s s F"
  by (simp add: mem_step_def same_config_def)

lemma mem_step_trans:
  assumes 1: "mem_step s t F" and 2: "mem_step t u F"
  shows "mem_step s u F"
  unfolding mem_step_def
proof (intro conjI allI impI)
  show "same_config s u"
    using mem_step_config [OF 1] mem_step_config [OF 2] by (rule same_config_trans)
  show "pde u k = pde s k" if "k < 1024" "entry_present (pde s k)" for k
    using mem_step_pde [OF 1 that] mem_step_pde [OF 2, of k] that by simp
  show "table_frame s g \<or> g \<in> F" if "table_frame u g" for g
    using mem_step_table [OF 1, of g] mem_step_table [OF 2 that] by blast
  show "pmem u a = pmem s a" if "\<not> table_frame s (get_paddr a)" "get_paddr a \<notin> F" for a
    using mem_step_data [OF 1 that] mem_step_data [OF 2, of a] mem_step_table [OF 1, of "get_paddr a"] that
    by auto
qed

lemma mem_step_mono: "mem_step s t F \<Longrightarrow> F \<subseteq> G \<Longrightarrow> mem_step s t G"
  unfolding mem_step_def by blast

lemma wr_pte_step:
  assumes "paging_ok s" "i < 1023" "entry_present (pde s i)" "j < 1024"
  shows "mem_step s (wr_pte s i j v) F"
  using wr_pte_low(1) [OF assms] wr_pte_table [OF assms] assms(3) less_1024 [OF assms(2)]
  by (auto simp: mem_step_def same_config_def wr_pte_def table_frame_def wr32_in_frame(1) assms(4))

lemma mem_step_fields [simp]:
  "mem_step s (t\<lparr>free_frame_paddr := x\<rparr>) F = mem_step s t F"
  "mem_step s (t\<lparr>used_frames := y\<rparr>) F = mem_step s t F"
  by (simp_all add: mem_step_def same_config_def)

lemma view_fields [simp]:
  "view (s\<lparr>free_frame_paddr := x\<rparr>) i j = view s i j"
  "view (s\<lparr>used_frames := y\<rparr>) i j = view s i j"
  by (simp_all add: view_def)

lemma wr_pte_view:
  assumes "paging_ok s" "i < 1023" "entry_present (pde s i)" "j < 1024" "k < 1024" "l < 1024"
  shows "view (wr_pte s i j v) k l = (if k = i \<and> l = j then v else view s k l)"
  using wr_pte_low(1) [OF assms(1-5), of v] wr_pte_low(3) [OF assms(1-6), of v] assms(3)
  by (auto simp: view_def)

lemma take_frame_step:
  assumes "mem_inv s (f # fs)"
  shows "mem_step s (take_frame s) F"
    and "k < 1024 \<Longrightarrow> l < 1024 \<Longrightarrow> (k, l) \<noteq> (wdi s, wti s) \<Longrightarrow> view (take_frame s) k l = view s k l"
    and "k < 1024 \<Longrightarrow> pde (take_frame s) k = pde s k"
    and "table_frame (take_frame s) g \<longleftrightarrow> table_frame s g"
    and "unreferenced (take_frame s) (get_paddr f)"
proof -
  note wr = mem_paging [OF assms] window_pdi [OF mem_window [OF assms]]
    window_present [OF mem_window [OF assms]] pt_index_less [of "free_list_head s"]
  show "mem_step s (take_frame s) F"
    using wr_pte_step [OF wr] by (simp add: take_frame_def Let_def)
  show "view (take_frame s) k l = view s k l"
    if "k < 1024" "l < 1024" "(k, l) \<noteq> (wdi s, wti s)"
    using wr_pte_view [OF wr that(1,2)] that(3) by (auto simp: take_frame_def Let_def)
  show "pde (take_frame s) k = pde s k" if "k < 1024"
    using wr_pte_low(1) [OF wr that] by (simp add: take_frame_def Let_def)
  show "table_frame (take_frame s) g \<longleftrightarrow> table_frame s g"
    using wr_pte_table [OF wr] by (simp add: take_frame_def Let_def)
  show "unreferenced (take_frame s) (get_paddr f)"
    using mem_unref [OF assms, of f] wr_pte_unreferenced [OF wr, of "get_paddr f"]
    by (simp add: take_frame_def Let_def)
qed


lemma new_table_step:
  assumes inv: "mem_inv s fs" and i: "i < 1023" "\<not> entry_present (pde s i)"
    and e: "entry_present e" "unreferenced s (get_paddr e)" "get_paddr e \<notin> get_paddr ` set fs"
  shows "mem_inv (new_table s i e) fs"
    and "mem_step s (new_table s i e) {get_paddr e}"
    and "k < 1023 \<Longrightarrow> l < 1024 \<Longrightarrow> view (new_table s i e) k l = view s k l"
    and "unreferenced (new_table s i e) g \<longleftrightarrow> unreferenced s g \<and> g \<noteq> get_paddr e"
proof -
  let ?t = "new_table s i e"
  note ok = mem_paging [OF inv] and w = mem_window [OF inv]
  have nt: "\<not> table_frame s (get_paddr e)" using e(2) by (simp add: unreferenced_def)
  note new = new_table_facts [OF ok i e(1) nt]
  note i' = less_1024 [OF i(1)]
  have wi: "wdi s \<noteq> i" using window_present [OF w] i(2) by auto
  show view: "view ?t k l = view s k l" if "k < 1023" "l < 1024" for k l
    using that new(2) [OF that] new(1) [OF less_1024 [OF that(1)]] i(2) by (auto simp: view_def)
  have cfg: "same_config s ?t" by (simp add: same_config_def new_table_def)
  have table: "table_frame ?t g \<longleftrightarrow> table_frame s g \<or> g = get_paddr e" for g
  proof
    show "table_frame s g \<or> g = get_paddr e" if "table_frame ?t g"
      using that new(1) by (auto simp: table_frame_def pt_def split: if_splits)
    assume "table_frame s g \<or> g = get_paddr e"
    then show "table_frame ?t g"
    proof
      assume "table_frame s g"
      then obtain k where "k < 1024" "entry_present (pde s k)" "pt s k = g"
        by (auto simp: table_frame_def)
      then show ?thesis
        using new(1) [of k] i(2) unfolding table_frame_def by (intro exI [of _ k]) (auto simp: pt_def)
    next
      assume "g = get_paddr e"
      then show ?thesis
        using new(1) [OF i'] i' e(1) unfolding table_frame_def by (intro exI [of _ i]) (auto simp: pt_def)
    qed
  qed
  have data: "pmem ?t a = pmem s a" if "\<not> table_frame s (get_paddr a)" "get_paddr a \<noteq> get_paddr e" for a
    using that cr3_table [OF ok] paging_aligned [OF ok] i'
    by (auto simp: new_table_def clear_frame_def intro!: wr32_in_frame(1))
  show "mem_step s ?t {get_paddr e}"
    using cfg new(1) i(2) table data by (auto simp: mem_step_def)
  show unref: "unreferenced ?t g \<longleftrightarrow> unreferenced s g \<and> g \<noteq> get_paddr e" for g
    using view same_configD(4) [OF cfg] unfolding unreferenced_def table maps_view by auto
  have ne: "get_paddr f \<noteq> get_paddr e" if "f \<in> set fs" for f
    using that e(3) by (metis image_eqI)
  have "flist (pmem ?t) (free_frame_paddr s) fs = flist (pmem s) (free_frame_paddr s) fs"
    by (rule flist_cong, rule rd32_frame_cong) (use mem_no_table [OF inv] ne data in simp_all)
  moreover have "window_ok ?t"
    using w same_configD [OF cfg] new(1) [of "wdi s"] wi by (simp add: window_ok_def)
  moreover have "free_frame_paddr ?t = free_frame_paddr s" by (simp add: new_table_def)
  ultimately show "mem_inv ?t fs"
    using new(3) mem_flist [OF inv] mem_distinct [OF inv] mem_head [OF inv] mem_unref [OF inv] ne unref
      view [of "wdi s" "wti s"] window_pdi [OF w] same_configD(4) [OF cfg]
    by (auto simp: mem_inv_def maps_view)
qed

subsection \<open>Mapping a page\<close>

text \<open>A table allows user pages when it exists already with the user flag, or is made for
  this mapping.\<close>

definition user_ok :: "kmem \<Rightarrow> u32 \<Rightarrow> u16 \<Rightarrow> bool" where
  "user_ok s i flags \<longleftrightarrow> flags AND PAGE_USER_MODE = 0 \<or> \<not> entry_present (pde s i) \<or>
     get_flags (pde s i) AND PAGE_USER_MODE \<noteq> 0"

definition page_at :: "kmem \<Rightarrow> u32 \<Rightarrow> u32" where
  "page_at s v = view s (get_pd_index v) (get_pt_index v)"

lemma map_page_present:
  assumes ok: "paging_ok s" and pr: "entry_present (pde s (get_pd_index v))"
  shows "map_page s v p flags =
    (if \<not> user_ok s (get_pd_index v) flags then Inl Panic
     else if entry_present (page_at s v) then Inr (True, s)
     else Inr (False, wr_pte s (get_pd_index v) (get_pt_index v) (create_entry p flags)))"
  using assms
  by (simp add: map_page_def Let_def PDE_ok PTE_ok user_ok_def page_at_def view_def set_PTE_def
      store_entry_ok)

definition table_entry :: "u32 \<Rightarrow> u16 \<Rightarrow> u32" where
  "table_entry f flags = create_entry f (PAGE_WRITABLE OR (flags AND PAGE_USER_MODE))"

lemma and_user_mode: "flags AND PAGE_USER_MODE = (if bit flags 2 then 4 else 0)"
proof -
  have "(4 :: u16) = push_bit 2 1" by simp
  then have b: "bit (4 :: u16) n \<longleftrightarrow> n = 2" for n by (simp only: bit_push_bit_iff bit_1_iff) auto
  show ?thesis
    by (cases "bit flags 2"; rule bit_word_eqI)
      (auto simp only: PAGE_USER_MODE_def bit_and_iff b bit_0_eq bot_apply bot_bool_def if_True if_False)
qed

lemma table_entry_facts [simp]:
  "entry_present (table_entry f flags)" "get_paddr (table_entry f flags) = get_paddr f"
  "get_flags (table_entry f flags) AND PAGE_USER_MODE = flags AND PAGE_USER_MODE"
  unfolding and_user_mode
  by (simp_all add: table_entry_def get_paddr_create_entry get_flags_create_entry and_user_mode
      PAGE_WRITABLE_def bit_simps)


lemma map_page_absent:
  assumes inv: "mem_inv s (f # fs)" and i: "get_pd_index v < 1023" "\<not> entry_present (pde s (get_pd_index v))"
  shows "map_page s v p flags =
    Inr (False, wr_pte (new_table (take_frame s) (get_pd_index v) (table_entry f flags))
      (get_pd_index v) (get_pt_index v) (create_entry p flags))"
proof -
  let ?i = "get_pd_index v" and ?e = "table_entry f flags"
  let ?s = "take_frame s"
  let ?t = "new_table ?s ?i ?e"
  note take = take_frame_inv [OF inv] take_frame_step [OF inv]
  have ok: "paging_ok s" "paging_ok ?s" using inv take(1) by (auto dest: mem_paging)
  have i': "\<not> entry_present (pde ?s ?i)" using i(2) take(4) by simp
  have e: "entry_present ?e" "\<not> table_frame ?s (get_paddr ?e)"
    using take(6) by (simp_all add: unreferenced_def)
  note new = new_table_facts [OF ok(2) i(1) i' e]
  obtain u where "set_PDE ?s ?i ?e = Inr u" "init_page_table u (get_page_table ?i) = Inr ?t"
    using new(4) by auto
  moreover have "PDE ?t ?i = Inr ?e" using PDE_ok [OF new(3)] new(1) by simp
  moreover have "pte ?t ?i (get_pt_index v) = 0" using new(1,2) i(1) by simp
  ultimately show ?thesis
    using i ok(1) new(1,3) alloc_frame_take [OF inv]
    by (simp add: map_page_def Let_def PDE_ok PTE_ok set_PTE_def store_entry_ok
        flip: table_entry_def)
qed

text \<open>The free frames after a page of table \<open>i\<close> was mapped.\<close>

definition rest_frames :: "kmem \<Rightarrow> u32 \<Rightarrow> u32 list \<Rightarrow> u32 list" where
  "rest_frames s i fs = (if entry_present (pde s i) then fs else tl fs)"

lemma wr_pte_inv:
  assumes inv: "mem_inv s fs" and i: "i < 1023" "entry_present (pde s i)" and j: "j < 1024"
    and w: "(i, j) \<noteq> (wdi s, wti s)" and v: "\<not> entry_present v \<or> get_paddr v \<notin> get_paddr ` set fs"
  shows "mem_inv (wr_pte s i j v) fs"
proof -
  note ok = mem_paging [OF inv] and win = mem_window [OF inv]
  note wr = ok i j
  have ne: "\<not> entry_present v \<or> get_paddr v \<noteq> get_paddr f" if "f \<in> set fs" for f
    using that v by (metis image_eqI)
  have "unreferenced (wr_pte s i j v) (get_paddr f)" if "f \<in> set fs" for f
    using wr_pte_unreferenced [OF wr mem_unref [OF inv that]] ne [OF that] by blast
  moreover have "flist (pmem (wr_pte s i j v)) (free_frame_paddr s) fs"
    using wr_pte_flist [OF less_1024 [OF i(1)] i(2) j mem_no_table [OF inv]] mem_flist [OF inv] by simp
  moreover have "maps (wr_pte s i j v) (wdi s) (wti s) f \<longleftrightarrow> maps s (wdi s) (wti s) f" for f
    using wr_pte_maps [OF wr, of "wdi s" "wti s"] w by auto
  ultimately show ?thesis
    using wr_pte_low(4) [OF wr] wr_pte_window [OF wr win] mem_distinct [OF inv] mem_head [OF inv]
    by (simp add: mem_inv_def)
qed

lemma map_page_steps:
  assumes inv: "mem_inv s fs" and i: "get_pd_index v < 1023"
    and w: "(get_pd_index v, get_pt_index v) \<noteq> (wdi s, wti s)"
    and free: "\<not> entry_present (page_at s v)" and u: "user_ok s (get_pd_index v) flags"
    and fl: "flags < 0x1000" and p: "get_paddr p \<notin> get_paddr ` set fs"
    and room: "entry_present (pde s (get_pd_index v)) \<or> fs \<noteq> []"
  obtains t where "map_page s v p flags = Inr (False, t)"
    "mem_inv t (rest_frames s (get_pd_index v) fs)" "mem_step s t (get_paddr ` set fs)"
    "\<And>k l. k < 1023 \<Longrightarrow> l < 1024 \<Longrightarrow> (k, l) \<noteq> (wdi s, wti s) \<Longrightarrow>
       view t k l = (if k = get_pd_index v \<and> l = get_pt_index v then create_entry p flags else view s k l)"
    "\<And>k. k < 1023 \<Longrightarrow> user_ok s k flags \<Longrightarrow> user_ok t k flags"
    "entry_present (pde t (get_pd_index v))"
    "\<And>k. k < 1023 \<Longrightarrow> k \<noteq> get_pd_index v \<Longrightarrow> pde t k = pde s k"
proof (cases "entry_present (pde s (get_pd_index v))")
  case True
  let ?i = "get_pd_index v" and ?j = "get_pt_index v" and ?e = "create_entry p flags"
  let ?t = "wr_pte s ?i ?j ?e"
  note wr = mem_paging [OF inv] i True pt_index_less [of v]
  have pde: "pde ?t k = pde s k" if "k < 1023" for k
    using wr_pte_low(1) [OF wr less_1024 [OF that]] by simp
  show ?thesis
  proof (rule that [of ?t])
    show "map_page s v p flags = Inr (False, ?t)"
      using map_page_present [OF wr(1) True] u free by simp
    show "mem_inv ?t (rest_frames s ?i fs)"
      using wr_pte_inv [OF inv i True _ w] p fl True
      by (simp add: rest_frames_def get_paddr_create_entry)
    show "view ?t k l = (if k = ?i \<and> l = ?j then ?e else view s k l)"
      if "k < 1023" "l < 1024" "(k, l) \<noteq> (wdi s, wti s)" for k l
      using wr_pte_view [OF wr less_1024 [OF that(1)] that(2)] by simp
  qed (use wr_pte_step [OF wr] pde i True in \<open>auto simp: user_ok_def\<close>)
next
  case False
  let ?i = "get_pd_index v" and ?j = "get_pt_index v" and ?e = "create_entry p flags"
  from False room obtain f gs where fs: "fs = f # gs" by (cases fs) auto
  note inv' = inv [unfolded fs]
  let ?s = "take_frame s" and ?f = "table_entry f flags"
  let ?u = "new_table ?s ?i ?f"
  let ?t = "wr_pte ?u ?i ?j ?e"
  note take = take_frame_inv [OF inv'] take_frame_step [OF inv']
  have fgs: "get_paddr f \<notin> get_paddr ` set gs" using mem_distinct [OF inv'] by simp
  have i': "\<not> entry_present (pde ?s ?i)" using False take(4) by simp
  note new = new_table_step [OF take(1) i i' table_entry_facts(1)] 
  note new' = new [unfolded table_entry_facts, OF take(6) fgs]
  have nt: "\<not> table_frame ?s (get_paddr ?f)" using take(6) by (simp add: unreferenced_def)
  note facts = new_table_facts [OF mem_paging [OF take(1)] i i' table_entry_facts(1) nt]
  have pr: "entry_present (pde ?u ?i)" using facts(1) by simp
  note wr = mem_paging [OF new'(1)] i pr pt_index_less [of v]
  have flh: "free_list_head ?u = free_list_head s" "free_list_head ?t = free_list_head s"
    by (simp_all add: take_frame_def Let_def new_table_def)
  have pde: "pde ?t k = (if k = ?i then ?f else pde s k)" if "k < 1023" for k
    using wr_pte_low(1) [OF wr less_1024 [OF that]] facts(1) [OF less_1024 [OF that]] take(4) less_1024 [OF that]
    by simp
  have tu: "table_frame ?u g \<Longrightarrow> table_frame s g \<or> g = get_paddr f" for g
    using mem_step_table [OF new'(2)] take(5) by auto
  show ?thesis
  proof (rule that [of ?t])
    show "map_page s v p flags = Inr (False, ?t)"
      by (simp only: map_page_absent [OF inv' i False])
    show "mem_inv ?t (rest_frames s ?i fs)"
      using wr_pte_inv [OF new'(1) i pr _ _] p w fl False flh fs
      by (simp add: rest_frames_def get_paddr_create_entry)
    show "mem_step s ?t (get_paddr ` set fs)"
      by (rule mem_step_trans [OF take(2) mem_step_trans [OF mem_step_mono [OF new'(2)] wr_pte_step [OF wr]]])
        (simp add: fs)
    show "view ?t k l = (if k = ?i \<and> l = ?j then ?e else view s k l)"
      if "k < 1023" "l < 1024" "(k, l) \<noteq> (wdi s, wti s)" for k l
      using wr_pte_view [OF wr less_1024 [OF that(1)] that(2)] new'(3) [OF that(1,2)]
        take(3) [OF less_1024 [OF that(1)] that(2,3)] by simp
    show "user_ok ?t k flags" if "k < 1023" "user_ok s k flags" for k
      using that pde [OF that(1)] by (auto simp: user_ok_def)
    show "entry_present (pde ?t ?i)" using pde [OF i] by simp
    show "pde ?t k = pde s k" if "k < 1023" "k \<noteq> ?i" for k using pde that by simp
  qed
qed


subsection \<open>Unmapping and swapping\<close>

lemma index_u16 [simp]: "i < 1024 \<Longrightarrow> ucast (ucast i :: u16) = (i :: u32)"
proof (rule bit_word_eqI)
  fix n
  assume "i < 1024"
  then have "take_bit 10 i = i"
    by (simp add: word_unat_eq_iff unsigned_take_bit_eq take_bit_nat_eq_self word_less_nat_alt)
  then have "bit i n \<Longrightarrow> n < 10" by (metis bit_take_bit_iff)
  then show "bit (ucast (ucast i :: u16) :: u32) n \<longleftrightarrow> bit i n"
    by (auto simp: bit_simps dest: bit_imp_le_length)
qed

lemma drop_bit_pte_addr:
  "i < 1024 \<Longrightarrow> j < 1024 \<Longrightarrow> drop_bit 12 (pte_addr i j) = 1023 * 1024 + i"
  by (simp add: page_of_indices)

text \<open>Tables are reached through the windows also while pages below them are stale.\<close>

lemma translate_stale:
  assumes "paging_ok s" "i < 1024" "j < 1024" "\<not> st (1023 * 1024 + i)"
  shows "translate (s\<lparr>stale := st\<rparr>) (pte_addr i j) = translate s (pte_addr i j)"
  using assms drop_bit_pte_addr [OF assms(2,3)] by (simp add: translate_def Let_def paging_fresh)

lemma PTE_stale:
  assumes "paging_ok s" "i < 1024" "j < 1024" "\<not> st (1023 * 1024 + i)"
  shows "PTE (s\<lparr>stale := st\<rparr>) i j = PTE s i j"
  using assms by (simp add: PTE_def vread32_def translate_stale)

lemma store_entry_stale:
  assumes ok: "paging_ok s" and i: "i < 1023" "entry_present (pde s i)" and j: "j < 1024"
    and st: "\<not> st (1023 * 1024 + i)"
  shows "store_entry (s\<lparr>stale := st\<rparr>) (pte_addr i j) v =
    Inr ((wr_pte s i j v)\<lparr>stale := if entry_present (pte s i j) \<and> pte s i j \<noteq> v
                                then (\<lambda>n. st n \<or> n = i * 1024 + j) else st\<rparr>)"
proof -
  have "unat (i * 1024 + j) < 1023 * 1024"
    using i(1) j by (simp add: unat_word_ariths word_less_nat_alt)
  then have "\<not> 1023 * 1024 \<le> i * 1024 + j" by (simp add: word_le_nat_alt)
  then show ?thesis
    using assms less_1024 [OF i(1)]
    by (simp add: store_entry_def vread32_def vwrite32_def translate_stale translate_pte_addr Let_def
        entry_page_pte_addr wr_pte_def flip: pte_def)
qed

lemma window_page_high: "i < 1023 \<Longrightarrow> j < 1024 \<Longrightarrow> k < 1024 \<Longrightarrow> i * 1024 + j \<noteq> 1023 * 1024 + (k :: u32)"
proof
  assume *: "i < 1023" "j < 1024" "k < 1024" "i * 1024 + j = 1023 * 1024 + k"
  have u: "unat (i * 1024 + j) = unat i * 1024 + unat j" "unat (1047552 + k) = 1047552 + unat k"
    using *(1-3) by (simp_all add: unat_word_ariths word_less_nat_alt)
  have "i * 1024 + j = 1047552 + k" using *(4) by simp
  from arg_cong [OF this, of unat] have "unat i * 1024 + unat j = 1047552 + unat k"
    by (simp only: u)
  moreover have "unat i < 1023" "unat j < 1024" using *(1,2) by (simp_all add: word_less_nat_alt)
  ultimately show False by linarith
qed

lemma stale_self: "paging_ok s \<Longrightarrow> s\<lparr>stale := \<lambda>_. False\<rparr> = s"
  by (simp add: fresh_fun [symmetric])

lemma flush_entry_info_stale:
  assumes ok: "paging_ok s" and i: "i < 1023" "entry_present (pde s i)"
    and j: "j < 1024" "entry_present (pte s i j)"
    and st: "\<And>k. k < 1024 \<Longrightarrow> \<not> st (1023 * 1024 + k)"
  shows "flush_entry_info (s\<lparr>stale := st\<rparr>) \<lparr>pdi = ucast i, pti = ucast j, entry = v\<rparr> =
    Inr ((wr_pte s i j v)\<lparr>stale := if pte s i j \<noteq> v then (\<lambda>n. st n \<or> n = i * 1024 + j) else st\<rparr>)"
proof -
  have "PDE (s\<lparr>stale := st\<rparr>) i = PDE s i"
    using PTE_stale [OF ok _ less_1024 [OF i(1)], of 1023 st] st [of 1023]
    by (simp add: PTE_def PDE_def pde_addr_pte_addr)
  then show ?thesis
    using ok i j st less_1024 [OF i(1)]
    by (simp add: flush_entry_info_def PDE_ok PTE_stale PTE_ok set_PTE_def store_entry_stale)
qed

lemma get_entry_info_view:
  "paging_ok s \<Longrightarrow> get_entry_info s v =
     Inr \<lparr>pdi = ucast (get_pd_index v), pti = ucast (get_pt_index v), entry = page_at s v\<rparr>"
  by (simp add: get_entry_info_def get_entry_view page_at_def)

lemma page_at_present:
  "entry_present (page_at s v) \<longleftrightarrow>
     entry_present (pde s (get_pd_index v)) \<and> entry_present (pte s (get_pd_index v) (get_pt_index v))"
  by (simp add: page_at_def view_def)

lemma unmap_page_eq:
  assumes ok: "paging_ok s" and i: "get_pd_index v < 1023"
  shows "unmap_page s v =
    (if entry_present (page_at s v)
     then Inr (False, page_at s v, wr_pte s (get_pd_index v) (get_pt_index v) 0)
     else Inr (True, 0, s))"
proof (cases "entry_present (page_at s v)")
  case True
  let ?i = "get_pd_index v" and ?j = "get_pt_index v"
  have pr: "entry_present (pde s ?i)" "entry_present (pte s ?i ?j)"
    using True by (simp_all add: page_at_present)
  then have "pte s ?i ?j \<noteq> 0" by auto
  then have "flush_entry_info s \<lparr>pdi = ucast ?i, pti = ucast ?j, entry = 0\<rparr> =
      Inr ((wr_pte s ?i ?j 0)\<lparr>stale := (\<lambda>n. n = ?i * 1024 + ?j)\<rparr>)"
    using flush_entry_info_stale [OF ok i pr(1) pt_index_less pr(2), of "\<lambda>_. False" 0]
    by (simp add: stale_self [OF ok])
  moreover have "wr_pte s ?i ?j 0\<lparr>stale := (\<lambda>n. n = ?i * 1024 + ?j)(?i * 1024 + ?j := False)\<rparr> = wr_pte s ?i ?j 0"
    using fresh_fun [OF ok] by (simp add: wr_pte_def fun_upd_def)
  ultimately show ?thesis
    using True ok by (simp add: unmap_page_def get_entry_info_view invalidate_page_def page_of_indices)
next
  case False
  then show ?thesis using ok by (simp add: unmap_page_def get_entry_info_view)
qed


lemma swap_page_frames_eq:
  assumes ok: "paging_ok s" and i: "get_pd_index v < 1023" "get_pd_index w < 1023"
    and pr: "entry_present (page_at s v)" "entry_present (page_at s w)"
    and ne: "drop_bit 12 v \<noteq> drop_bit 12 w"
  shows "swap_page_frames s v w =
    Inr (wr_pte (wr_pte s (get_pd_index v) (get_pt_index v) (set_paddr (page_at s v) (get_paddr (page_at s w))))
      (get_pd_index w) (get_pt_index w) (set_paddr (page_at s w) (get_paddr (page_at s v))))"
proof -
  let ?i = "get_pd_index v" and ?j = "get_pt_index v" and ?k = "get_pd_index w" and ?l = "get_pt_index w"
  let ?e1 = "set_paddr (page_at s v) (get_paddr (page_at s w))"
  let ?e2 = "set_paddr (page_at s w) (get_paddr (page_at s v))"
  have pr1: "entry_present (pde s ?i)" "entry_present (pte s ?i ?j)"
    and pr2: "entry_present (pde s ?k)" "entry_present (pte s ?k ?l)"
    using pr by (simp_all add: page_at_present)
  have ij: "(?i, ?j) \<noteq> (?k, ?l)" using ne by (auto simp: page_of_indices)
  let ?s1 = "wr_pte s ?i ?j ?e1"
  note low = wr_pte_low [OF ok i(1) pr1(1) pt_index_less]
  define st1 where "st1 = (if pte s ?i ?j \<noteq> ?e1 then (\<lambda>n. n = ?i * 1024 + ?j) else (\<lambda>_. False))"
  have st1: "\<not> st1 (1023 * 1024 + m)" if "m < 1024" for m
    using window_page_high [OF i(1) pt_index_less that, of v] by (simp add: st1_def eq_commute)
  have f1: "flush_entry_info s \<lparr>pdi = ucast ?i, pti = ucast ?j, entry = ?e1\<rparr> =
      Inr (?s1\<lparr>stale := st1\<rparr>)"
    using flush_entry_info_stale [OF ok i(1) pr1(1) pt_index_less pr1(2), of "\<lambda>_. False" ?e1]
    by (simp add: stale_self [OF ok] st1_def)
  have p1: "entry_present (pde ?s1 ?k)" "entry_present (pte ?s1 ?k ?l)"
    using low(1,3) pr2 ij by auto
  let ?s2 = "wr_pte ?s1 ?k ?l ?e2"
  define st2 where "st2 = (if pte ?s1 ?k ?l \<noteq> ?e2 then (\<lambda>n. st1 n \<or> n = ?k * 1024 + ?l) else st1)"
  have f2: "flush_entry_info (?s1\<lparr>stale := st1\<rparr>) \<lparr>pdi = ucast ?k, pti = ucast ?l, entry = ?e2\<rparr> =
      Inr (?s2\<lparr>stale := st2\<rparr>)"
    using flush_entry_info_stale [OF low(4) i(2) p1(1) pt_index_less p1(2), of st1 ?e2] st1
    by (simp add: st2_def)
  have "st2(?i * 1024 + ?j := False, ?k * 1024 + ?l := False) = (\<lambda>_. False)"
    by (auto simp: st2_def st1_def fun_eq_iff)
  then have "invalidate_page (invalidate_page (?s2\<lparr>stale := st2\<rparr>) v) w = ?s2"
    using fresh_fun [OF ok] by (simp add: invalidate_page_def page_of_indices wr_pte_def)
  then show ?thesis
    using f1 f2 by (simp add: swap_page_frames_def get_entry_info_view [OF ok] Let_def)
qed

lemma set_paddr_facts:
  assumes "frame_aligned p"
  shows "get_paddr (set_paddr e p) = p" "get_flags (set_paddr e p) = get_flags e"
    "entry_present (set_paddr e p) = entry_present e"
proof -
  have p: "\<not> bit p n" if "n < 12" for n
    using assms that bit_take_bit_iff [of 12 p n] by (simp add: frame_aligned_def)
  have b: "bit (set_paddr e p) n \<longleftrightarrow> (if n < 12 then bit e n else bit p n)" for n
    using p by (auto simp: set_paddr_def get_flags_def bit_simps masks)
  show "get_paddr (set_paddr e p) = p"
    by (rule bit_word_eqI) (use b p in \<open>auto simp: bit_simps\<close>)
  show "get_flags (set_paddr e p) = get_flags e"
    by (rule bit_word_eqI) (use b in \<open>auto simp: get_flags_def bit_simps masks\<close>)
  show "entry_present (set_paddr e p) = entry_present e" by (simp add: entry_present_bit b)
qed

subsection \<open>A concrete machine state\<close>

text \<open>
  The directory is at 0x1000 and the table of the first 4 MiB at 0x2000; the free list page
  is the page at 0x5000, and the frames at 0x3000 and 0x4000 are free.
\<close>

definition demo_mem :: bytes where
  "demo_mem = wr32 (wr32 (wr32 (wr32 (\<lambda>_. 0) 0x3000 0x4000) 0x2014 0x3003) 0x1FFC 0x1003) 0x1000 0x2003"

definition demo :: kmem where
  "demo = \<lparr>pmem = demo_mem, cr3 = 0x1000, stale = (\<lambda>_. False), kernel_page_dir = 0x1000,
     free_list_head = 0x5000, free_list_head_pte = 0xFFC00014, free_frame_paddr = 0x3000,
     used_frames = 2, total_frames = 4, current_page_dir = 0x1000,
     kernel_heap = heap_empty, user_ro_heap = heap_empty, user_physical_map = [],
     user_physical_map_ptr = 0\<rparr>"

lemma rd32_demo:
  assumes "dword_aligned a"
  shows "rd32 demo_mem a = (if a = 0x1000 then 0x2003 else if a = 0x1FFC then 0x1003
    else if a = 0x2014 then 0x3003 else if a = 0x3000 then 0x4000 else 0)"
proof -
  have wr: "rd32 (wr32 m b v) a = (if a = b then v else rd32 m a)" if "dword_aligned b" for m b v
    using that assms by auto
  have z: "rd32 (\<lambda>_. 0) a = 0" by (simp add: rd32_def)
  show ?thesis unfolding demo_mem_def by (simp add: wr z dword_aligned_def)
qed

lemma demo_pde:
  assumes "k < 1024"
  shows "pde demo k = (if k = 0 then 0x2003 else if k = 1023 then 0x1003 else 0)"
proof -
  have al: "frame_aligned 0x1000" "frame_aligned 0x2000" "frame_aligned 0x3000"
    by (simp_all add: frame_aligned_def)
  have "0x1000 + 4 * k = 0x1000 \<longleftrightarrow> k = 0" "0x1000 + 4 * k = 0x1FFC \<longleftrightarrow> k = 1023"
    "0x1000 + 4 * k \<noteq> 0x2014" "0x1000 + 4 * k \<noteq> 0x3000"
    using frame_index_inj [OF al(1,1) assms, of 0] frame_index_inj [OF al(1,1) assms, of 1023]
      frame_index_inj [OF al(1,2) assms, of 5] frame_index_inj [OF al(1,3) assms, of 0] by simp_all
  then show ?thesis
    using rd32_demo [of "0x1000 + 4 * k"] frame_index_aligned [OF al(1) assms]
    by (simp add: pde_def demo_def)
qed

lemma demo_pte:
  assumes "k < 1024"
  shows "pte demo 0 k = (if k = 5 then 0x3003 else 0)"
proof -
  have al: "frame_aligned 0x1000" "frame_aligned 0x2000" "frame_aligned 0x3000"
    by (simp_all add: frame_aligned_def)
  have "0x2000 + 4 * k = 0x2014 \<longleftrightarrow> k = 5" "0x2000 + 4 * k \<noteq> 0x1000" "0x2000 + 4 * k \<noteq> 0x1FFC"
    "0x2000 + 4 * k \<noteq> 0x3000"
    using frame_index_inj [OF al(2,2) assms, of 5] frame_index_inj [OF al(2,1) assms, of 0]
      frame_index_inj [OF al(2,1) assms, of 1023] frame_index_inj [OF al(2,3) assms, of 0] by simp_all
  then show ?thesis
    using rd32_demo [of "0x2000 + 4 * k"] frame_index_aligned [OF al(2) assms] demo_pde [of 0]
    by (simp add: pte_def pt_def get_paddr_def demo_def)
qed

lemma demo_present: "k < 1024 \<Longrightarrow> entry_present (pde demo k) \<longleftrightarrow> k = 0 \<or> k = 1023"
  using demo_pde [of k] by (simp add: entry_present_def)

lemma demo_pt: "pt demo 0 = 0x2000" "pt demo 1023 = 0x1000"
  by (simp_all add: pt_def demo_pde get_paddr_def)

lemma demo_tables: "table_frame demo g \<longleftrightarrow> g = 0x2000 \<or> g = 0x1000"
proof
  show "g = 0x2000 \<or> g = 0x1000" if "table_frame demo g"
    using that demo_present demo_pt unfolding table_frame_def by auto
  show "table_frame demo g" if "g = 0x2000 \<or> g = 0x1000"
    using that
  proof
    assume "g = 0x2000"
    then show ?thesis
      unfolding table_frame_def by (intro exI [of _ 0]) (simp add: demo_present demo_pt)
  next
    assume "g = 0x1000"
    then show ?thesis
      unfolding table_frame_def by (intro exI [of _ 1023]) (simp add: demo_present demo_pt)
  qed
qed

lemma demo_window: "free_list_head demo = 0x5000" "get_pd_index 0x5000 = 0" "get_pt_index 0x5000 = 5"
  by (simp_all add: demo_def get_pd_index_def get_pt_index_def)

lemma demo_unreferenced: "unreferenced demo f \<longleftrightarrow> f \<noteq> 0x2000 \<and> f \<noteq> 0x1000"
  unfolding unreferenced_def maps_def demo_tables demo_window
  using demo_present demo_pte less_1024 by (auto split: if_splits)

lemma demo_inv: "mem_inv demo [0x3000, 0x4000]"
proof -
  note present = demo_present and w = demo_window
  have ok: "paging_ok demo"
    unfolding paging_ok_def using present demo_pt by (auto simp: demo_def frame_aligned_def)
  have "window_ok demo"
    unfolding window_ok_def w using present
    by (simp add: frame_aligned_def) (simp add: demo_def pte_addr_def page_table_entries_def)
  moreover have "flist (pmem demo) (free_frame_paddr demo) [0x3000, 0x4000]"
    by (simp add: demo_def rd32_demo frame_aligned_def)
  moreover have "maps demo (wdi demo) (wti demo) (get_paddr (free_frame_paddr demo))"
    unfolding maps_def w using present demo_pte [of 5] by (simp add: demo_def entry_present_def get_paddr_def)
  ultimately show ?thesis
    using ok by (simp add: mem_inv_def get_paddr_def demo_unreferenced)
qed


subsection \<open>The properties of frames and mappings\<close>


lemma page_at_indices:
  "drop_bit 12 w = drop_bit 12 v \<longleftrightarrow> get_pd_index w = get_pd_index v \<and> get_pt_index w = get_pt_index v"
proof
  assume "drop_bit 12 w = drop_bit 12 v"
  moreover have u: "unat x div 4096 = unat (drop_bit 12 x)" for x :: u32
    by (simp add: drop_bit_eq_div unat_div)
  ultimately have "unat w div 4096 = unat v div 4096" by (simp only: u)
  moreover have "x div 4194304 = x div 4096 div 1024" for x :: nat by (simp add: div_mult2_eq [symmetric])
  ultimately show "get_pd_index w = get_pd_index v \<and> get_pt_index w = get_pt_index v"
    by (simp add: word_unat_eq_iff unat_pd_index unat_pt_index)
qed (simp add: page_of_indices)

lemma give_frame_step:
  assumes inv: "mem_inv s fs" and f: "unreferenced s (get_paddr f)"
  shows "mem_step s (give_frame s f) {get_paddr f}"
    and "\<forall>w. drop_bit 12 w \<noteq> drop_bit 12 (free_list_head s) \<longrightarrow> page_at (give_frame s f) w = page_at s w"
    and "k < 1024 \<Longrightarrow> pde (give_frame s f) k = pde s k"
proof -
  note ok = mem_paging [OF inv] and w = mem_window [OF inv]
  note wr = ok window_pdi [OF w] window_present [OF w] pt_index_less [of "free_list_head s"]
  let ?t = "wr_pte s (wdi s) (wti s) (create_entry f PAGE_WRITABLE)"
  let ?u = "?t\<lparr>pmem := wr32 (pmem ?t) (get_paddr f) (free_frame_paddr s)\<rparr>"
  have eq: "paging_eq ?t ?u"
    by (rule paging_eq_write)
      (use wr_pte_low(4) [OF wr] f in \<open>simp_all add: wr_pte_table [OF wr] unreferenced_def\<close>)
  have "mem_step ?t ?u {get_paddr f}"
    unfolding mem_step_def
    using paging_eq_pde [OF eq] paging_eq_table [OF eq] wr32_in_frame(1) [OF get_paddr_aligned, of 0]
    by (simp add: same_config_def)
  then have "mem_step s ?u {get_paddr f}" by (rule mem_step_trans [OF wr_pte_step [OF wr]])
  then show "mem_step s (give_frame s f) {get_paddr f}" by (simp add: give_frame_def Let_def)
  show "pde (give_frame s f) k = pde s k" if "k < 1024"
    using paging_eq_pde [OF eq that] wr_pte_low(1) [OF wr that] by (simp add: give_frame_def Let_def)
  have "view ?u k l = view ?t k l" if "k < 1024" "l < 1024" for k l
    using that paging_eq_pde [OF eq, of k] paging_eq_pte [OF eq, of k l] by (simp add: view_def)
  then show "\<forall>w. drop_bit 12 w \<noteq> drop_bit 12 (free_list_head s) \<longrightarrow>
      page_at (give_frame s f) w = page_at s w"
    using wr_pte_view [OF wr pd_index_less pt_index_less]
    by (auto simp: page_at_def give_frame_def Let_def page_at_indices)
qed

text \<open>
  Taking a frame. With an empty free list \<open>alloc_frame\<close> panics; otherwise it returns
  the frame at the head of the list, which no page but the free list page maps and which is
  not a page table, keeps the invariant with the rest of the list, counts the frame, and
  changes the entry of the free list page and no other.
\<close>

theorem frame_alloc_correct:
  assumes "mem_inv s fs"
  shows "case fs of [] \<Rightarrow> alloc_frame s = Inl Panic
    | f # gs \<Rightarrow> \<exists>t. alloc_frame s = Inr (f, t) \<and> mem_inv t gs \<and> mem_step s t {} \<and>
        unreferenced t (get_paddr f) \<and> used_frames t = used_frames s + 1 \<and>
        (\<forall>w. drop_bit 12 w \<noteq> drop_bit 12 (free_list_head s) \<longrightarrow> page_at t w = page_at s w)"
proof (cases fs)
  case Nil
  then show ?thesis using alloc_frame_empty assms by simp
next
  case (Cons f gs)
  note inv = assms [unfolded Cons]
  have "page_at (take_frame s) w = page_at s w" if "drop_bit 12 w \<noteq> drop_bit 12 (free_list_head s)" for w
    using take_frame_step(2) [OF inv pd_index_less pt_index_less] that
    by (auto simp: page_at_def page_at_indices)
  then show ?thesis
    using alloc_frame_take [OF inv] take_frame_inv [OF inv] take_frame_step [OF inv]
    by (simp add: Cons take_frame_def Let_def)
qed

theorem frame_alloc_correct_witness:
  "\<exists>t. alloc_frame demo = Inr (0x3000, t) \<and> mem_inv t [0x4000] \<and> used_frames t = 3"
  using frame_alloc_correct [OF demo_inv] by (auto simp: demo_def)


text \<open>
  Freeing a frame that no table refers to puts it at the head of the list, keeps the
  invariant and writes to no frame but this one; the frame is the next one to be allocated,
  after which the list of free frames and the count are as before.
\<close>

theorem frame_free_correct:
  assumes inv: "mem_inv s fs" and f: "get_paddr f \<noteq> 0" "unreferenced s (get_paddr f)"
    and new: "get_paddr f \<notin> get_paddr ` set fs"
  shows "\<exists>t u. free_frame s f = Inr t \<and> mem_inv t (f # fs) \<and> mem_step s t {get_paddr f} \<and>
    used_frames t = used_frames s - 1 \<and>
    (\<forall>w. drop_bit 12 w \<noteq> drop_bit 12 (free_list_head s) \<longrightarrow> page_at t w = page_at s w) \<and>
    alloc_frame t = Inr (f, u) \<and> mem_inv u fs \<and> used_frames u = used_frames s"
proof -
  let ?t = "give_frame s f"
  have t: "mem_inv ?t (f # fs)" by (rule give_frame_inv [OF inv f new])
  have used: "used_frames ?t = used_frames s - 1" by (simp add: give_frame_def Let_def)
  have "free_frame s f = Inr ?t"
    by (rule free_frame_give) (use inv in \<open>auto dest: mem_invD\<close>)
  moreover have "used_frames (take_frame ?t) = used_frames s"
    by (simp add: take_frame_def Let_def used)
  moreover note give_frame_step(1,2) [OF inv f(2)]
  ultimately show ?thesis
    using t used alloc_frame_take [OF t] take_frame_inv [OF t] by blast
qed

theorem frame_free_correct_witness:
  "\<exists>t. free_frame demo 0x9000 = Inr t \<and> mem_inv t [0x9000, 0x3000, 0x4000]"
proof -
  have "unreferenced demo (get_paddr 0x9000)" by (simp add: demo_unreferenced get_paddr_def)
  from frame_free_correct [OF demo_inv _ this] show ?thesis by (auto simp: get_paddr_def)
qed


lemma page_at_translate:
  assumes "paging_ok s"
  shows "translate s v = (if entry_present (page_at s v) then Inr (get_paddr (page_at s v) + (v AND 0xFFF))
    else Inl PageFault)"
  using assms by (auto simp: translate_ok page_at_def view_def)

lemma page_at_same: "drop_bit 12 w = drop_bit 12 v \<Longrightarrow> page_at s w = page_at s v"
  by (simp add: page_at_def page_at_indices)

text \<open>A page below the self map that is not the free list page.\<close>

definition plain_page :: "kmem \<Rightarrow> u32 \<Rightarrow> bool" where
  "plain_page s v \<longleftrightarrow> get_pd_index v < 1023 \<and> drop_bit 12 v \<noteq> drop_bit 12 (free_list_head s)"

lemma map_page_ok:
  assumes inv: "mem_inv s fs" and v: "plain_page s v"
    and fl: "flags < 0x1000" and p: "get_paddr p \<notin> get_paddr ` set fs"
  shows "case map_page s v p flags of
      Inl e \<Rightarrow> e = Panic \<and> (\<not> user_ok s (get_pd_index v) flags \<or>
        \<not> entry_present (pde s (get_pd_index v)) \<and> fs = [])
    | Inr (mapped, t) \<Rightarrow> user_ok s (get_pd_index v) flags \<and>
        (entry_present (pde s (get_pd_index v)) \<or> fs \<noteq> []) \<and>
        mapped = entry_present (page_at s v) \<and>
        (if mapped then t = s
         else mem_inv t (rest_frames s (get_pd_index v) fs) \<and> mem_step s t (get_paddr ` set fs) \<and>
           translate t v = Inr (get_paddr p + (v AND 0xFFF)) \<and>
           (\<forall>w. plain_page s w \<longrightarrow> page_at t w =
             (if drop_bit 12 w = drop_bit 12 v then create_entry p flags else page_at s w)))"
proof -
  let ?i = "get_pd_index v"
  have i: "?i < 1023" and w: "(?i, get_pt_index v) \<noteq> (wdi s, wti s)"
    using v by (auto simp: plain_page_def page_at_indices)
  note ok = mem_paging [OF inv]
  consider (user) "\<not> user_ok s ?i flags" | (full) "\<not> entry_present (pde s ?i)" "fs = []"
    | (mapped) "user_ok s ?i flags" "entry_present (page_at s v)"
    | (map) "user_ok s ?i flags" "entry_present (pde s ?i) \<or> fs \<noteq> []" "\<not> entry_present (page_at s v)"
    by blast
  then show ?thesis
  proof cases
    case user
    then have "entry_present (pde s ?i)" by (simp add: user_ok_def)
    with user show ?thesis by (simp add: map_page_present [OF ok])
  next
    case full
    then have "map_page s v p flags = Inl Panic"
      using alloc_frame_empty inv ok by (simp add: map_page_def Let_def PDE_ok)
    then show ?thesis using full by simp
  next
    case mapped
    then have "entry_present (pde s ?i)" by (simp add: page_at_present)
    with mapped show ?thesis by (simp add: map_page_present [OF ok])
  next
    case map
    obtain t where t: "map_page s v p flags = Inr (False, t)"
      "mem_inv t (rest_frames s ?i fs)" "mem_step s t (get_paddr ` set fs)"
      "\<And>k l. k < 1023 \<Longrightarrow> l < 1024 \<Longrightarrow> (k, l) \<noteq> (wdi s, wti s) \<Longrightarrow>
       view t k l = (if k = ?i \<and> l = get_pt_index v then create_entry p flags else view s k l)"
      using map_page_steps [OF inv i w map(3,1) fl p map(2)] by metis
    have at: "page_at t w = (if drop_bit 12 w = drop_bit 12 v then create_entry p flags else page_at s w)"
      if "plain_page s w" for w
      using that t(4) [of "get_pd_index w" "get_pt_index w"]
      by (auto simp: plain_page_def page_at_indices page_at_def)
    have "translate t v = Inr (get_paddr p + (v AND 0xFFF))"
      using at [OF v] page_at_translate [OF mem_paging [OF t(2)]] fl
      by (simp add: get_paddr_create_entry)
    with t at map show ?thesis by simp
  qed
qed

text \<open>
  C4: Mapping a page. \<open>map_page\<close> panics exactly when a user mapping is requested in a
  table without the user flag, or a table is missing and there is no free frame for it. It
  reports a page that is already mapped without changing anything. Otherwise the page
  translates to the given frame afterwards, no translation of any other page changes, stale
  translations do not arise, only page tables and free frames are written, and at most one
  frame is taken, for the table.
\<close>

theorem map_page_correct:
  assumes inv: "mem_inv s fs" and v: "plain_page s v"
    and fl: "flags < 0x1000" and p: "get_paddr p \<notin> get_paddr ` set fs"
  shows "case map_page s v p flags of
      Inl e \<Rightarrow> e = Panic \<and> (\<not> user_ok s (get_pd_index v) flags \<or>
        \<not> entry_present (pde s (get_pd_index v)) \<and> fs = [])
    | Inr (mapped, t) \<Rightarrow> user_ok s (get_pd_index v) flags \<and>
        (entry_present (pde s (get_pd_index v)) \<or> fs \<noteq> []) \<and>
        mapped = entry_present (page_at s v) \<and>
        (if mapped then t = s
         else mem_inv t (rest_frames s (get_pd_index v) fs) \<and> mem_step s t (get_paddr ` set fs) \<and>
           translate t v = Inr (get_paddr p + (v AND 0xFFF)) \<and>
           (\<forall>w. plain_page s w \<longrightarrow> page_at t w =
             (if drop_bit 12 w = drop_bit 12 v then create_entry p flags else page_at s w)))"
  by (rule map_page_ok [OF inv v fl p])

lemma demo_plain: "plain_page demo v \<longleftrightarrow> get_pd_index v < 1023 \<and> drop_bit 12 v \<noteq> 5"
  by (simp add: plain_page_def demo_window)

lemma demo_pd_1: "\<not> entry_present (pde demo 1)" "entry_present (pde demo 0)"
  by (simp_all add: demo_present)

theorem map_page_correct_witness:
  "\<exists>t. map_page demo 0x400000 0x9000 2 = Inr (False, t) \<and> mem_inv t [0x4000] \<and>
     translate t 0x400123 = Inr 0x9123"
proof -
  have idx: "get_pd_index 0x400000 = 1" "plain_page demo 0x400000"
    by (simp_all add: demo_plain get_pd_index_def)
  then have "page_at demo 0x400000 = 0" by (simp add: page_at_def view_def demo_pd_1)
  moreover have u: "user_ok demo 1 2" by (simp add: user_ok_def PAGE_USER_MODE_def)
  moreover note map_page_correct [OF demo_inv idx(2), where p = "0x9000" and flags = 2]
  ultimately obtain t where t: "map_page demo 0x400000 0x9000 2 = Inr (False, t)" "mem_inv t [0x4000]"
      "page_at t 0x400000 = create_entry 0x9000 2"
    using idx by (auto simp: get_paddr_def rest_frames_def demo_pd_1 split: sum.splits)
  moreover have "page_at t 0x400123 = page_at t 0x400000" by (rule page_at_same) simp
  ultimately show ?thesis
    using page_at_translate [OF mem_paging [OF t(2)], of "0x400123"]
    by (simp add: get_paddr_create_entry) (simp add: get_paddr_def)
qed


lemma wr_pte_page_at:
  assumes "paging_ok s" "get_pd_index v < 1023" "entry_present (page_at s v)"
  shows "page_at (wr_pte s (get_pd_index v) (get_pt_index v) e) w =
    (if drop_bit 12 w = drop_bit 12 v then e else page_at s w)"
  using assms wr_pte_view [OF assms(1,2) _ pt_index_less pd_index_less pt_index_less]
  by (auto simp: page_at_def page_at_indices page_at_present [unfolded page_at_def])

lemma unmap_page_steps:
  assumes inv: "mem_inv s fs" and v: "plain_page s v" and pr: "entry_present (page_at s v)"
  obtains t where "unmap_page s v = Inr (False, page_at s v, t)" "mem_inv t fs" "mem_step s t {}"
    "\<And>w. page_at t w = (if drop_bit 12 w = drop_bit 12 v then 0 else page_at s w)"
    "\<And>k. k < 1024 \<Longrightarrow> pde t k = pde s k" "used_frames t = used_frames s"
    "free_frame_paddr t = free_frame_paddr s"
proof -
  let ?i = "get_pd_index v" and ?j = "get_pt_index v"
  have i: "?i < 1023" and w: "(?i, ?j) \<noteq> (wdi s, wti s)"
    using v by (auto simp: plain_page_def page_at_indices)
  have ok: "paging_ok s" and p: "entry_present (pde s ?i)"
    using inv pr by (auto dest: mem_paging simp: page_at_present)
  show ?thesis
    by (rule that [of "wr_pte s ?i ?j 0"])
      (use unmap_page_eq [OF ok i] wr_pte_inv [OF inv i p _ w] wr_pte_step [OF ok i p]
        wr_pte_page_at [OF ok i pr] wr_pte_low(1) [OF ok i p] pr in simp_all)
qed

text \<open>
  C5: Unmapping a page. The entry it had is reported, the page faults afterwards (no stale
  translation is left), every other page translates as before, and no frame is freed. On a
  page just mapped it returns the entry that \<open>map_page\<close> made, and every page is mapped
  as it was before.
\<close>

theorem map_unmap_roundtrip:
  assumes inv: "mem_inv s fs" and v: "plain_page s v"
    and fl: "flags < 0x1000" and p: "get_paddr p \<notin> get_paddr ` set fs"
    and m: "map_page s v p flags = Inr (False, t)"
  shows "\<exists>u. unmap_page t v = Inr (False, create_entry p flags, u) \<and>
    mem_inv u (rest_frames s (get_pd_index v) fs) \<and> translate u v = Inl PageFault \<and>
    (\<forall>w. plain_page s w \<longrightarrow> translate u w = translate s w) \<and>
    unmap_page u v = Inr (True, 0, u)"
proof -
  note map = map_page_ok [OF inv v fl p, unfolded m, simplified]
  have inv': "mem_inv t (rest_frames s (get_pd_index v) fs)"
    and at: "\<And>w. plain_page s w \<Longrightarrow> page_at t w =
      (if drop_bit 12 w = drop_bit 12 v then create_entry p flags else page_at s w)"
    and flh: "free_list_head t = free_list_head s"
    using map same_configD(4) [OF mem_step_config] by blast+
  have v': "plain_page t v" using v flh by (simp add: plain_page_def)
  have pr: "entry_present (page_at t v)" using at [OF v] by simp
  obtain u where u: "unmap_page t v = Inr (False, page_at t v, u)"
    "mem_inv u (rest_frames s (get_pd_index v) fs)"
    "\<And>w. page_at u w = (if drop_bit 12 w = drop_bit 12 v then 0 else page_at t w)"
    using unmap_page_steps [OF inv' v' pr] by metis
  note ok = mem_paging [OF u(2)]
  have "translate u w = translate s w" if w: "plain_page s w" for w
  proof (cases "drop_bit 12 w = drop_bit 12 v")
    case True
    then have "\<not> entry_present (page_at s w)" using map page_at_same by metis
    then show ?thesis
      using True u(3) [of w] page_at_translate [OF ok] page_at_translate [OF mem_paging [OF inv]] by simp
  next
    case False
    then show ?thesis
      using at [OF w] u(3) [of w] page_at_translate [OF ok] page_at_translate [OF mem_paging [OF inv]]
      by simp
  qed
  moreover have "unmap_page u v = Inr (True, 0, u)"
    using unmap_page_eq [OF ok] v u(3) [of v] by (simp add: plain_page_def)
  ultimately show ?thesis
    using u at [OF v] page_at_translate [OF ok, of v] by simp
qed

theorem map_unmap_roundtrip_witness:
  "\<exists>t u. map_page demo 0x6000 0x9000 2 = Inr (False, t) \<and>
     unmap_page t 0x6000 = Inr (False, 0x9003, u) \<and> translate u 0x6000 = Inl PageFault"
proof -
  have idx: "get_pd_index 0x6000 = 0" "get_pt_index 0x6000 = 6" "plain_page demo 0x6000"
    by (simp_all add: demo_plain get_pd_index_def get_pt_index_def)
  have free: "\<not> entry_present (page_at demo 0x6000)"
    by (simp add: page_at_def view_def idx demo_pte demo_pd_1)
  have "user_ok demo 0 2" by (simp add: user_ok_def PAGE_USER_MODE_def)
  then obtain t where t: "map_page demo 0x6000 0x9000 2 = Inr (False, t)"
    using map_page_present [OF mem_paging [OF demo_inv]] free by (simp add: idx demo_pd_1)
  have e: "create_entry 0x9000 2 = 0x9003" by (simp add: create_entry_def)
  have "get_paddr 0x9000 \<notin> get_paddr ` set [0x3000, 0x4000]" by (simp add: get_paddr_def)
  from map_unmap_roundtrip [OF demo_inv idx(3) _ this t] show ?thesis
    using t e by auto
qed

text \<open>
  Swapping the frames of two mapped pages. Each page gets the frame of the other and
  keeps its own flags, no other page changes, no memory but page tables is written, and no
  translation is left stale.
\<close>

theorem swap_page_frames_correct:
  assumes inv: "mem_inv s fs" and v: "plain_page s v" "plain_page s w"
    and pr: "entry_present (page_at s v)" "entry_present (page_at s w)"
    and ne: "drop_bit 12 v \<noteq> drop_bit 12 w"
  shows "\<exists>t. swap_page_frames s v w = Inr t \<and> paging_ok t \<and> mem_step s t {} \<and>
    get_paddr (page_at t v) = get_paddr (page_at s w) \<and> get_flags (page_at t v) = get_flags (page_at s v) \<and>
    get_paddr (page_at t w) = get_paddr (page_at s v) \<and> get_flags (page_at t w) = get_flags (page_at s w) \<and>
    translate t v = Inr (get_paddr (page_at s w) + (v AND 0xFFF)) \<and>
    translate t w = Inr (get_paddr (page_at s v) + (w AND 0xFFF)) \<and>
    (\<forall>x. drop_bit 12 x \<notin> {drop_bit 12 v, drop_bit 12 w} \<longrightarrow> page_at t x = page_at s x)"
proof -
  let ?e1 = "set_paddr (page_at s v) (get_paddr (page_at s w))"
  let ?e2 = "set_paddr (page_at s w) (get_paddr (page_at s v))"
  let ?s1 = "wr_pte s (get_pd_index v) (get_pt_index v) ?e1"
  let ?t = "wr_pte ?s1 (get_pd_index w) (get_pt_index w) ?e2"
  have i: "get_pd_index v < 1023" "get_pd_index w < 1023" using v by (auto simp: plain_page_def)
  note ok = mem_paging [OF inv]
  have p: "entry_present (pde s (get_pd_index v))" using pr by (simp add: page_at_present)
  note wr = ok i(1) p pt_index_less [of v]
  note at1 = wr_pte_page_at [OF ok i(1) pr(1), of ?e1]
  have ok1: "paging_ok ?s1" by (rule wr_pte_low(4) [OF wr])
  have pr1: "entry_present (page_at ?s1 w)" using at1 pr(2) ne by simp
  then have p1: "entry_present (pde ?s1 (get_pd_index w))" by (simp add: page_at_present)
  note wr1 = ok1 i(2) p1 pt_index_less [of w]
  have ok2: "paging_ok ?t" by (rule wr_pte_low(4) [OF wr1])
  have at: "page_at ?t x = (if drop_bit 12 x = drop_bit 12 w then ?e2
      else if drop_bit 12 x = drop_bit 12 v then ?e1 else page_at s x)" for x
    using wr_pte_page_at [OF ok1 i(2) pr1, of ?e2 x] at1 [of x] by simp
  have "mem_step s ?t {}" by (rule mem_step_trans [OF wr_pte_step [OF wr] wr_pte_step [OF wr1]])
  then show ?thesis
    using swap_page_frames_eq [OF ok i pr ne] ok2 at ne pr
    by (simp add: set_paddr_facts page_at_translate [OF ok2])
qed


lemma demo_map_twice:
  obtains t u where "map_page demo 0x6000 0x9000 2 = Inr (False, t)"
    "map_page t 0x7000 0xA000 0 = Inr (False, u)" "mem_inv u [0x3000, 0x4000]"
    "plain_page u 0x6000" "plain_page u 0x7000"
    "page_at u 0x6000 = 0x9003" "page_at u 0x7000 = 0xA001"
proof -
  have idx: "get_pd_index 0x6000 = 0" "get_pt_index 0x6000 = 6" "get_pd_index 0x7000 = 0"
    "get_pt_index 0x7000 = 7"
    by (simp_all add: get_pd_index_def get_pt_index_def)
  let ?t = "wr_pte demo 0 6 0x9003"
  let ?u = "wr_pte ?t 0 7 0xA001"
  have ent: "create_entry 0x9000 2 = 0x9003" "create_entry 0xA000 0 = 0xA001"
    by (simp_all add: create_entry_def)
  have pa: "get_paddr 0x9003 = 0x9000" "get_paddr 0xA001 = 0xA000" "get_paddr 0x3000 = 0x3000"
    "get_paddr 0x4000 = 0x4000" by (simp_all add: get_paddr_def)
  note low = wr_pte_low [OF mem_paging [OF demo_inv] _ demo_pd_1(2), where j = 6 and v = "0x9003"]
  have inv: "mem_inv ?t [0x3000, 0x4000]"
    using wr_pte_inv [OF demo_inv _ demo_pd_1(2)] by (simp add: demo_window pa)
  have pr: "entry_present (pde ?t 0)" using low(1) demo_pd_1 by simp
  have inv2: "mem_inv ?u [0x3000, 0x4000]"
    using wr_pte_inv [OF inv _ pr] by (simp add: demo_window pa)
  have user: "user_ok demo 0 2" "user_ok ?t 0 0"
    by (simp_all add: user_ok_def PAGE_USER_MODE_def)
  have at: "page_at demo 0x6000 = 0" "page_at ?t 0x7000 = 0"
    using low(1,3) demo_pd_1 by (simp_all add: page_at_def view_def idx demo_pte)
  have "page_at ?u 0x6000 = 0x9003" "page_at ?u 0x7000 = 0xA001"
    using wr_pte_view [OF mem_paging [OF inv] _ pr] wr_pte_view [OF mem_paging [OF demo_inv] _ demo_pd_1(2)]
    by (simp_all add: page_at_def idx)
  moreover have "map_page demo 0x6000 0x9000 2 = Inr (False, ?t)"
    using map_page_present [OF mem_paging [OF demo_inv]] at user by (simp add: idx demo_pd_1 ent)
  moreover have "map_page ?t 0x7000 0xA000 0 = Inr (False, ?u)"
    using map_page_present [OF mem_paging [OF inv]] at user pr by (simp add: idx ent)
  moreover have "plain_page ?u 0x6000" "plain_page ?u 0x7000"
    by (simp_all add: plain_page_def idx demo_window)
  ultimately show ?thesis using inv2 that by blast
qed

theorem swap_page_frames_correct_witness:
  "\<exists>t u v. map_page demo 0x6000 0x9000 2 = Inr (False, t) \<and> map_page t 0x7000 0xA000 0 = Inr (False, u) \<and>
     swap_page_frames u 0x6000 0x7000 = Inr v \<and>
     translate v 0x6000 = Inr 0xA000 \<and> translate v 0x7000 = Inr 0x9000"
proof (rule demo_map_twice)
  fix t u
  assume m: "map_page demo 0x6000 0x9000 2 = Inr (False, t)" "map_page t 0x7000 0xA000 0 = Inr (False, u)"
    and inv: "mem_inv u [0x3000, 0x4000]" and pl: "plain_page u 0x6000" "plain_page u 0x7000"
    and at: "page_at u 0x6000 = 0x9003" "page_at u 0x7000 = 0xA001"
  have "entry_present (page_at u 0x6000)" "entry_present (page_at u 0x7000)"
    by (simp_all add: at entry_present_def)
  from swap_page_frames_correct [OF inv pl this] m show ?thesis
    by (auto simp: at get_paddr_def)
qed

end
