(* ===== verification/Libp.thy ===== *)
theory Libp
  imports Frames
begin

section \<open>Byte operations and random numbers (\<^verbatim>\<open>lib/libp.c\<close>)\<close>

text \<open>
  The loops over virtual memory, with every byte translated as the processor does, and the
  pseudo-random generator. A byte operation that faults stops; the functional results are
  stated for ranges whose bytes all translate.
\<close>

unbundle bit_operations_syntax

subsection \<open>Bytes in virtual memory\<close>

definition vread8 :: "kmem \<Rightarrow> u32 \<Rightarrow> u8 res" where
  "vread8 s vaddr = bind_res (translate s vaddr) (\<lambda>pa. Inr (pmem s pa))"

definition vwrite8 :: "kmem \<Rightarrow> u32 \<Rightarrow> u8 \<Rightarrow> kmem res" where
  "vwrite8 s vaddr b = bind_res (translate s vaddr) (\<lambda>pa. Inr (s\<lparr>pmem := (pmem s)(pa := b)\<rparr>))"

primrec pmemset_loop :: "nat \<Rightarrow> kmem \<Rightarrow> u32 \<Rightarrow> u8 \<Rightarrow> kmem res" where
  "pmemset_loop 0 s memory byte = Inr s"
| "pmemset_loop (Suc n) s memory byte =
     bind_res (vwrite8 s memory byte) (\<lambda>s. pmemset_loop n s (memory + 1) byte)"

definition pmemset :: "kmem \<Rightarrow> u32 \<Rightarrow> u8 \<Rightarrow> u32 \<Rightarrow> kmem res" where
  "pmemset s memory byte count = pmemset_loop (unat count) s memory byte"

primrec pmemcpy_loop :: "nat \<Rightarrow> kmem \<Rightarrow> u32 \<Rightarrow> u32 \<Rightarrow> kmem res" where
  "pmemcpy_loop 0 s dst src = Inr s"
| "pmemcpy_loop (Suc n) s dst src =
     bind_res (vread8 s src) (\<lambda>b. bind_res (vwrite8 s dst b) (\<lambda>s.
       pmemcpy_loop n s (dst + 1) (src + 1)))"

definition pmemcpy :: "kmem \<Rightarrow> u32 \<Rightarrow> u32 \<Rightarrow> u32 \<Rightarrow> kmem res" where
  "pmemcpy s dst src count = pmemcpy_loop (unat count) s dst src"

primrec pmemeql_loop :: "nat \<Rightarrow> kmem \<Rightarrow> u32 \<Rightarrow> u32 \<Rightarrow> bool res" where
  "pmemeql_loop 0 s a b = Inr True"
| "pmemeql_loop (Suc n) s a b =
     bind_res (vread8 s a) (\<lambda>x. bind_res (vread8 s b) (\<lambda>y.
       if x \<noteq> y then Inr False else pmemeql_loop n s (a + 1) (b + 1)))"

definition pmemeql :: "kmem \<Rightarrow> u32 \<Rightarrow> u32 \<Rightarrow> u32 \<Rightarrow> bool res" where
  "pmemeql s a b count = pmemeql_loop (unat count) s a b"

text \<open>The loop ends at the first difference or the first zero byte. After \<open>2 ^ 32\<close>
  rounds both pointers are back where they started.\<close>

primrec pstreql_loop :: "nat \<Rightarrow> kmem \<Rightarrow> u32 \<Rightarrow> u32 \<Rightarrow> bool res" where
  "pstreql_loop 0 s a b = Inl Diverges"
| "pstreql_loop (Suc n) s a b =
     bind_res (vread8 s a) (\<lambda>a_byte. bind_res (vread8 s b) (\<lambda>b_byte.
       if a_byte \<noteq> b_byte then Inr False
       else if a_byte \<noteq> 0 then pstreql_loop n s (a + 1) (b + 1) else Inr True))"

definition pstreql :: "kmem \<Rightarrow> u32 \<Rightarrow> u32 \<Rightarrow> bool res" where
  "pstreql s a b = pstreql_loop (2 ^ 32) s a b"

subsection \<open>The pseudo-random generator\<close>

record Prng =
  prng_s0 :: u64
  prng_s1 :: u64

text \<open>Only the first word is seeded; the second keeps what the memory held.\<close>

definition prng_init :: "Prng \<Rightarrow> u64 \<Rightarrow> Prng" where
  "prng_init rng seed =
     (let seed = seed + 0x9e3779b97f4a7c15;
          seed = (seed XOR drop_bit 30 seed) * 0xbf58476d1ce4e5b9;
          seed = (seed XOR drop_bit 27 seed) * 0x94d049bb133111eb
      in rng\<lparr>prng_s0 := seed XOR drop_bit 31 seed\<rparr>)"

definition rotl :: "u64 \<Rightarrow> nat \<Rightarrow> u64" where
  "rotl x k = push_bit k x OR drop_bit (64 - k) x"

definition prng_next :: "Prng \<Rightarrow> u64 \<times> Prng" where
  "prng_next rng =
     (let s0 = prng_s0 rng; s1 = prng_s1 rng;
          result = s0 + s1;
          s1 = s1 XOR s0
      in (result, rng\<lparr>prng_s0 := rotl s0 24 XOR s1 XOR push_bit 16 s1, prng_s1 := rotl s1 37\<rparr>))"

lemma bit_rotl:
  assumes "k < 64"
  shows "bit (rotl x k) n \<longleftrightarrow> n < 64 \<and> bit x (if k \<le> n then n - k else n + 64 - k)"
proof (cases "n < 64")
  case True
  then show ?thesis
    using assms bit_imp_le_length [of x "n + (64 - k)"]
    by (auto simp: rotl_def bit_simps add.commute)
next
  case False
  then show ?thesis using bit_imp_le_length [of "rotl x k" n] by auto
qed

lemma rotl_inj:
  assumes k: "k < 64" and eq: "rotl x k = rotl y k"
  shows "x = y"
proof (rule bit_word_eqI)
  fix n
  assume n: "n < LENGTH(64)"
  let ?m = "if n + k < 64 then n + k else n + k - 64"
  have "bit (rotl z k) ?m \<longleftrightarrow> bit z n" for z :: u64
    using n k by (auto simp: bit_rotl)
  then show "bit x n \<longleftrightarrow> bit y n" using eq by metis
qed


subsection \<open>Writing bytes outside of the page tables\<close>

lemma paging_eq_bytes:
  assumes "paging_ok s" "cr3 t = cr3 s" "stale t = stale s"
    "\<And>a. table_frame s (get_paddr a) \<Longrightarrow> pmem t a = pmem s a"
  shows "paging_eq s t"
  by (rule paging_eqI [OF assms(1-3)], rule rd32_frame_cong) (use assms(4) in auto)

lemma paging_eq_translate:
  assumes "paging_ok s" "paging_eq s t"
  shows "translate t v = translate s v"
  using assms paging_eq_ok [OF assms(2)] paging_eq_pde [OF assms(2) pd_index_less]
    paging_eq_pte [OF assms(2) pd_index_less pt_index_less]
  by (auto simp: translate_ok)

text \<open>\<open>range_at s v n d\<close>: byte \<open>k\<close> of the \<open>n\<close> bytes from \<open>v\<close> on is at
  physical address \<open>d k\<close>.\<close>

definition range_at :: "kmem \<Rightarrow> u32 \<Rightarrow> nat \<Rightarrow> (nat \<Rightarrow> u32) \<Rightarrow> bool" where
  "range_at s v n d \<longleftrightarrow> (\<forall>k < n. translate s (v + word_of_nat k) = Inr (d k))"

lemma range_at_Suc:
  "range_at s v (Suc n) d \<longleftrightarrow> translate s v = Inr (d 0) \<and> range_at s (v + 1) n (\<lambda>k. d (Suc k))"
proof
  assume *: "range_at s v (Suc n) d"
  have "translate s (v + word_of_nat (Suc k)) = Inr (d (Suc k))" if "k < n" for k
    using * that unfolding range_at_def by blast
  moreover have "translate s (v + word_of_nat 0) = Inr (d 0)" using * unfolding range_at_def by blast
  ultimately show "translate s v = Inr (d 0) \<and> range_at s (v + 1) n (\<lambda>k. d (Suc k))"
    by (simp add: range_at_def add.assoc)
next
  assume "translate s v = Inr (d 0) \<and> range_at s (v + 1) n (\<lambda>k. d (Suc k))"
  then show "range_at s v (Suc n) d"
    by (auto simp: range_at_def add.assoc less_Suc_eq_0_disj)
qed

lemma range_at_paging_eq: "paging_ok s \<Longrightarrow> paging_eq s t \<Longrightarrow> range_at t v n d \<longleftrightarrow> range_at s v n d"
  by (simp add: range_at_def paging_eq_translate)

definition writable_range :: "kmem \<Rightarrow> u32 \<Rightarrow> nat \<Rightarrow> (nat \<Rightarrow> u32) \<Rightarrow> bool" where
  "writable_range s v n d \<longleftrightarrow> range_at s v n d \<and> inj_on d {..<n} \<and>
     (\<forall>k < n. \<not> table_frame s (get_paddr (d k)))"

lemma writable_range_Suc:
  assumes "writable_range s v (Suc n) d"
  shows "translate s v = Inr (d 0)" "\<not> table_frame s (get_paddr (d 0))"
    "writable_range s (v + 1) n (\<lambda>k. d (Suc k))" "k < n \<Longrightarrow> d (Suc k) \<noteq> d 0"
proof -
  show "translate s v = Inr (d 0)" "\<not> table_frame s (get_paddr (d 0))"
    using assms by (auto simp: writable_range_def range_at_Suc)
  have inj: "inj_on d {..<Suc n}" using assms by (simp add: writable_range_def)
  show "writable_range s (v + 1) n (\<lambda>k. d (Suc k))"
    using assms inj by (auto simp: writable_range_def range_at_Suc inj_on_def)
  show "d (Suc k) \<noteq> d 0" if "k < n" using inj_onD [OF inj, of "Suc k" 0] that by auto
qed

lemma writable_range_paging_eq:
  "paging_ok s \<Longrightarrow> paging_eq s t \<Longrightarrow> writable_range t v n d \<longleftrightarrow> writable_range s v n d"
  by (simp add: writable_range_def range_at_paging_eq paging_eq_table)

definition put_byte :: "kmem \<Rightarrow> u32 \<Rightarrow> u8 \<Rightarrow> kmem" where
  "put_byte s pa b = s\<lparr>pmem := (pmem s)(pa := b)\<rparr>"

lemma put_byte_fields [simp]:
  "pmem (put_byte s pa b) = (pmem s)(pa := b)" "pmem_update f (put_byte s pa b) = pmem_update (\<lambda>_. f ((pmem s)(pa := b))) s"
  by (simp_all add: put_byte_def)

lemma put_byte_paging:
  "paging_ok s \<Longrightarrow> \<not> table_frame s (get_paddr pa) \<Longrightarrow> paging_eq s (put_byte s pa b)"
  by (rule paging_eq_bytes) (auto simp: put_byte_def)

lemma vwrite8_put: "translate s v = Inr pa \<Longrightarrow> vwrite8 s v b = Inr (put_byte s pa b)"
  by (simp add: vwrite8_def put_byte_def)

lemma pmemset_loop_ok:
  assumes "paging_ok s" "writable_range s v n d"
  shows "\<exists>m. pmemset_loop n s v b = Inr (s\<lparr>pmem := m\<rparr>) \<and> paging_eq s (s\<lparr>pmem := m\<rparr>) \<and>
    (\<forall>k < n. m (d k) = b) \<and> (\<forall>a. a \<notin> d ` {..<n} \<longrightarrow> m a = pmem s a)"
  using assms
proof (induction n arbitrary: s v d)
  case 0
  then show ?case by (auto intro: exI [of _ "pmem s"] simp: paging_eq_def)
next
  case (Suc n)
  note wr = writable_range_Suc [OF Suc.prems(2)]
  let ?s = "put_byte s (d 0) b"
  have eq: "paging_eq s ?s" by (rule put_byte_paging [OF Suc.prems(1) wr(2)])
  have ok: "paging_ok ?s" using Suc.prems(1) paging_eq_ok [OF eq] by simp
  have "writable_range ?s (v + 1) n (\<lambda>k. d (Suc k))"
    using wr(3) writable_range_paging_eq [OF Suc.prems(1) eq] by simp
  from Suc.IH [OF ok this] obtain m where m: "pmemset_loop n ?s (v + 1) b = Inr (s\<lparr>pmem := m\<rparr>)"
    "paging_eq ?s (s\<lparr>pmem := m\<rparr>)" "\<forall>k < n. m (d (Suc k)) = b"
    "\<forall>a. a \<notin> (\<lambda>k. d (Suc k)) ` {..<n} \<longrightarrow> m a = ((pmem s)(d 0 := b)) a" by auto
  have "d 0 \<notin> (\<lambda>k. d (Suc k)) ` {..<n}" using wr(4) by (metis imageE lessThan_iff)
  then have "m (d 0) = b" using m(4) by simp
  then have "\<forall>k < Suc n. m (d k) = b" using m(3) by (auto simp: less_Suc_eq_0_disj)
  moreover have "\<forall>a. a \<notin> d ` {..<Suc n} \<longrightarrow> m a = pmem s a"
    using m(4) by (auto simp: lessThan_Suc_eq_insert_0 image_image)
  ultimately show ?case
    using m(1) paging_eq_trans [OF eq m(2)] by (auto simp: vwrite8_put [OF wr(1)])
qed

lemma pmemcpy_loop_ok:
  assumes "paging_ok s" "writable_range s v n d" "range_at s w n r"
    "\<And>k l. k < l \<Longrightarrow> l < n \<Longrightarrow> d k \<noteq> r l"
  shows "\<exists>m. pmemcpy_loop n s v w = Inr (s\<lparr>pmem := m\<rparr>) \<and> paging_eq s (s\<lparr>pmem := m\<rparr>) \<and>
    (\<forall>k < n. m (d k) = pmem s (r k)) \<and> (\<forall>a. a \<notin> d ` {..<n} \<longrightarrow> m a = pmem s a)"
  using assms
proof (induction n arbitrary: s v w d r)
  case 0
  then show ?case by (auto intro: exI [of _ "pmem s"] simp: paging_eq_def)
next
  case (Suc n)
  note wr = writable_range_Suc [OF Suc.prems(2)]
  have rd: "translate s w = Inr (r 0)" "range_at s (w + 1) n (\<lambda>k. r (Suc k))"
    using Suc.prems(3) by (simp_all add: range_at_Suc)
  let ?s = "put_byte s (d 0) (pmem s (r 0))"
  have eq: "paging_eq s ?s" by (rule put_byte_paging [OF Suc.prems(1) wr(2)])
  have ok: "paging_ok ?s" using Suc.prems(1) paging_eq_ok [OF eq] by simp
  have w': "writable_range ?s (v + 1) n (\<lambda>k. d (Suc k))"
    using wr(3) writable_range_paging_eq [OF Suc.prems(1) eq] by simp
  have r': "range_at ?s (w + 1) n (\<lambda>k. r (Suc k))"
    using rd(2) range_at_paging_eq [OF Suc.prems(1) eq] by simp
  have "\<And>k l. k < l \<Longrightarrow> l < n \<Longrightarrow> d (Suc k) \<noteq> r (Suc l)" using Suc.prems(4) by simp
  from Suc.IH [OF ok w' r' this] obtain m where m: "pmemcpy_loop n ?s (v + 1) (w + 1) = Inr (s\<lparr>pmem := m\<rparr>)"
    "paging_eq ?s (s\<lparr>pmem := m\<rparr>)" "\<forall>k < n. m (d (Suc k)) = ((pmem s)(d 0 := pmem s (r 0))) (r (Suc k))"
    "\<forall>a. a \<notin> (\<lambda>k. d (Suc k)) ` {..<n} \<longrightarrow> m a = ((pmem s)(d 0 := pmem s (r 0))) a" by auto
  have "d 0 \<notin> (\<lambda>k. d (Suc k)) ` {..<n}" using wr(4) by (metis imageE lessThan_iff)
  then have "m (d 0) = pmem s (r 0)" using m(4) by simp
  moreover have "m (d (Suc k)) = pmem s (r (Suc k))" if "k < n" for k
    using m(3) that Suc.prems(4) [of 0 "Suc k"] by auto
  ultimately have "\<forall>k < Suc n. m (d k) = pmem s (r k)" by (auto simp: less_Suc_eq_0_disj)
  moreover have "\<forall>a. a \<notin> d ` {..<Suc n} \<longrightarrow> m a = pmem s a"
    using m(4) by (auto simp: lessThan_Suc_eq_insert_0 image_image)
  ultimately show ?case
    using m(1) paging_eq_trans [OF eq m(2)] by (auto simp: vwrite8_put [OF wr(1)] vread8_def rd(1))
qed

lemma pmemeql_loop_ok:
  assumes "range_at s v n d" "range_at s w n r"
  shows "pmemeql_loop n s v w = Inr (\<forall>k < n. pmem s (d k) = pmem s (r k))"
  using assms
proof (induction n arbitrary: v w d r)
  case (Suc n)
  then have "pmemeql_loop n s (v + 1) (w + 1) = Inr (\<forall>k < n. pmem s (d (Suc k)) = pmem s (r (Suc k)))"
    by (simp add: range_at_Suc)
  then show ?case
    using Suc.prems by (auto simp: range_at_Suc vread8_def less_Suc_eq_0_disj)
qed simp


text \<open>The bytes of a zero-terminated string in virtual memory.\<close>

primrec cstr :: "kmem \<Rightarrow> u32 \<Rightarrow> u8 list \<Rightarrow> bool" where
  "cstr s v [] \<longleftrightarrow> vread8 s v = Inr 0"
| "cstr s v (x # xs) \<longleftrightarrow> x \<noteq> 0 \<and> vread8 s v = Inr x \<and> cstr s (v + 1) xs"

lemma pstreql_loop_ok:
  assumes "cstr s v xs" "cstr s w ys" "length xs < n \<or> length ys < n"
  shows "pstreql_loop n s v w = Inr (xs = ys)"
  using assms
proof (induction xs arbitrary: n v w ys)
  case Nil
  then show ?case by (cases n; cases ys) auto
next
  case (Cons x xs)
  from Cons.prems(3) obtain k where n: "n = Suc k" by (cases n) auto
  show ?case
  proof (cases ys)
    case (Cons y zs)
    then show ?thesis
      using Cons.prems \<open>ys = y # zs\<close> Cons.IH [of "v + 1" "w + 1" zs k] by (auto simp: n)
  qed (use Cons.prems n in auto)
qed

subsection \<open>Properties\<close>

lemma demo_translate: "drop_bit 12 v = 5 \<Longrightarrow> translate demo v = Inr (0x3000 + (v AND 0xFFF))"
proof -
  assume "drop_bit 12 v = 5"
  then have "drop_bit 12 v = drop_bit 12 (0x5000 :: u32)" by simp
  from page_at_same [OF this] have "page_at demo v = 0x3003"
    by (simp add: page_at_def view_def demo_window demo_pd_1 demo_pte)
  then show ?thesis
    using page_at_translate [OF mem_paging [OF demo_inv]] by (simp add: entry_present_def) (simp add: get_paddr_def)
qed

text \<open>
  Copying. If the destination bytes translate to distinct addresses outside of the page
  tables and the source is not overwritten before it is read, \<open>pmemcpy\<close> returns, every
  destination byte is the source byte of before, no other byte of memory changes, and no
  translation changes. When the ranges do not share a byte, \<open>pmemeql\<close> finds them equal
  afterwards.
\<close>

theorem pmemcpy_correct:
  assumes ok: "paging_ok s" and d: "writable_range s dst (unat n) d" and r: "range_at s src (unat n) r"
    and ov: "\<And>k l. k < l \<Longrightarrow> l < unat n \<Longrightarrow> d k \<noteq> r l"
  shows "\<exists>m. pmemcpy s dst src n = Inr (s\<lparr>pmem := m\<rparr>) \<and>
    (\<forall>k < unat n. m (d k) = pmem s (r k)) \<and> (\<forall>a. a \<notin> d ` {..<unat n} \<longrightarrow> m a = pmem s a) \<and>
    (\<forall>v. translate (s\<lparr>pmem := m\<rparr>) v = translate s v) \<and>
    (d ` {..<unat n} \<inter> r ` {..<unat n} = {} \<longrightarrow> pmemeql (s\<lparr>pmem := m\<rparr>) dst src n = Inr True)"
proof -
  obtain m where m: "pmemcpy s dst src n = Inr (s\<lparr>pmem := m\<rparr>)" "paging_eq s (s\<lparr>pmem := m\<rparr>)"
    "\<forall>k < unat n. m (d k) = pmem s (r k)" "\<forall>a. a \<notin> d ` {..<unat n} \<longrightarrow> m a = pmem s a"
    using pmemcpy_loop_ok [OF ok d r ov] by (auto simp: pmemcpy_def)
  have dr: "range_at (s\<lparr>pmem := m\<rparr>) dst (unat n) d" "range_at (s\<lparr>pmem := m\<rparr>) src (unat n) r"
    using d r range_at_paging_eq [OF ok m(2)] by (simp_all add: writable_range_def)
  have "pmemeql (s\<lparr>pmem := m\<rparr>) dst src n = Inr True"
    if apart: "d ` {..<unat n} \<inter> r ` {..<unat n} = {}"
  proof -
    have "m (d k) = m (r k)" if "k < unat n" for k
    proof -
      have "r k \<notin> d ` {..<unat n}" using that apart by blast
      then show ?thesis using m(3,4) that by simp
    qed
    then show ?thesis using pmemeql_loop_ok [OF dr] by (simp add: pmemeql_def)
  qed
  then show ?thesis using m paging_eq_translate [OF ok m(2)] by blast
qed

lemma less_4_cases: "k < (4 :: nat) \<Longrightarrow> k = 0 \<or> k = 1 \<or> k = 2 \<or> k = 3"
  by auto

theorem pmemcpy_correct_witness:
  "\<exists>m. pmemcpy demo 0x5008 0x5001 4 = Inr (demo\<lparr>pmem := m\<rparr>) \<and> m 0x3008 = 0x40 \<and>
     pmemeql (demo\<lparr>pmem := m\<rparr>) 0x5008 0x5001 4 = Inr True"
proof -
  have n: "unat (4 :: u32) = 4" by simp
  have d: "writable_range demo 0x5008 4 (\<lambda>k. 0x3008 + word_of_nat k)"
    unfolding writable_range_def range_at_def inj_on_def
    by (auto dest!: less_4_cases simp: demo_translate demo_tables get_paddr_def)
  have r: "range_at demo 0x5001 4 (\<lambda>k. 0x3001 + word_of_nat k)"
    unfolding range_at_def by (auto dest!: less_4_cases simp: demo_translate)
  have ov: "(0x3008 :: u32) + word_of_nat k \<noteq> 0x3001 + word_of_nat l" if "k < 4" "l < 4" for k l
    using that by (auto dest!: less_4_cases)
  then have ap: "(\<lambda>k. (0x3008 :: u32) + word_of_nat k) ` {..<4} \<inter> (\<lambda>k. 0x3001 + word_of_nat k) ` {..<4} = {}"
    by blast
  have b: "pmem demo 0x3001 = 0x40" by (simp add: demo_def demo_mem_def wr32_def)
  show ?thesis
    using pmemcpy_correct [where n = 4, unfolded n, OF mem_paging [OF demo_inv] d r ov] ap b
    by fastforce
qed

text \<open>
  Comparing strings. On two zero-terminated strings of fewer than \<open>2 ^ 32\<close>
  characters \<open>pstreql\<close> returns, and its result is whether they have the same characters.
\<close>

theorem pstreql_correct:
  assumes "cstr s a xs" "cstr s b ys" "length xs < 2 ^ 32"
  shows "pstreql s a b = Inr (xs = ys)"
  unfolding pstreql_def by (rule pstreql_loop_ok [OF assms(1,2) disjI1 [OF assms(3)]])

theorem pstreql_correct_witness:
  "pstreql demo 0x5001 0x5001 = Inr True \<and> pstreql demo 0x5001 0x5002 = Inr False"
proof -
  have r: "vread8 demo 0x5001 = Inr 0x40" "vread8 demo 0x5002 = Inr 0"
    by (simp_all add: vread8_def demo_translate) (simp_all add: demo_def demo_mem_def wr32_def)
  then have c: "cstr demo 0x5001 [0x40]" "cstr demo 0x5002 []" by simp_all
  from pstreql_correct [OF c(1) c(1)] pstreql_correct [OF c] show ?thesis by simp
qed

text \<open>
  The pseudo-random generator is a permutation of its states: two states with the same
  successor are equal.
\<close>

theorem prng_next_inj:
  assumes "snd (prng_next a) = snd (prng_next b)"
  shows "a = (b :: Prng)"
proof -
  let ?x = "prng_s1 a XOR prng_s0 a" and ?y = "prng_s1 b XOR prng_s0 b"
  have "rotl ?x 37 = rotl ?y 37"
    and r: "rotl (prng_s0 a) 24 XOR ?x XOR push_bit 16 ?x = rotl (prng_s0 b) 24 XOR ?y XOR push_bit 16 ?y"
    using arg_cong [OF assms, of prng_s1] arg_cong [OF assms, of prng_s0]
    by (simp_all add: prng_next_def Let_def)
  then have eq: "?x = ?y" using rotl_inj [of 37] by simp
  have "rotl (prng_s0 a) 24 = rotl (prng_s0 b) 24"
    using arg_cong [OF r [unfolded eq], of "\<lambda>z. z XOR (?y XOR push_bit 16 ?y)"]
    by (simp add: xor.assoc)
  then have s0: "prng_s0 a = prng_s0 b" using rotl_inj [of 24] by simp
  then have "prng_s1 a = prng_s1 b"
    using arg_cong [OF eq, of "\<lambda>z. z XOR prng_s0 a"] by (simp add: xor.assoc)
  with s0 show ?thesis by simp
qed

theorem prng_next_inj_witness:
  "prng_next \<lparr>prng_s0 = 1, prng_s1 = 2\<rparr> = (3, \<lparr>prng_s0 = 0x1030003, prng_s1 = 0x6000000000\<rparr>) \<and>
   snd (prng_next \<lparr>prng_s0 = 1, prng_s1 = 2\<rparr>) \<noteq> snd (prng_next \<lparr>prng_s0 = 2, prng_s1 = 2\<rparr>)"
  using prng_next_inj [of "\<lparr>prng_s0 = 1, prng_s1 = 2\<rparr>" "\<lparr>prng_s0 = 2, prng_s1 = 2\<rparr>"]
  by (auto simp: prng_next_def rotl_def Let_def)

end
