(* ===== verification/MemManager.thy ===== *)
theory MemManager
  imports Libp
begin

section \<open>The memory manager (\<^verbatim>\<open>memory/mem.c\<close>, second half)\<close>

text \<open>
  Mapping and allocating runs of pages, setting up the free list, the paging structures and
  the heaps at boot, page allocation on a heap backed by frames, new page directories, and
  the checks of user pointers. Linker symbols and the boot loader's information are
  parameters.
\<close>

unbundle bit_operations_syntax

subsection \<open>Runs of pages\<close>

text \<open>The loops \<^verbatim>\<open>while (count--)\<close>, with \<open>n\<close> rounds left.\<close>

primrec map_pages_loop :: "nat \<Rightarrow> kmem \<Rightarrow> u32 \<Rightarrow> u32 \<Rightarrow> u16 \<Rightarrow> kmem res" where
  "map_pages_loop 0 s vaddr paddr flags = Inr s"
| "map_pages_loop (Suc n) s vaddr paddr flags =
     bind_res (map_page s vaddr paddr flags) (\<lambda>(mapped, s). kernel_assert (\<not> mapped)
       (map_pages_loop n s (vaddr + PAGE_SIZE) (paddr + PAGE_SIZE) flags))"

definition map_pages :: "kmem \<Rightarrow> u32 \<Rightarrow> u32 \<Rightarrow> u16 \<Rightarrow> u32 \<Rightarrow> kmem res" where
  "map_pages s vaddr paddr flags count = map_pages_loop (unat count) s vaddr paddr flags"

primrec unmap_pages_loop :: "nat \<Rightarrow> kmem \<Rightarrow> u32 \<Rightarrow> kmem res" where
  "unmap_pages_loop 0 s vaddr = Inr s"
| "unmap_pages_loop (Suc n) s vaddr =
     bind_res (unmap_page s vaddr) (\<lambda>(failed, entry, s). kernel_assert (\<not> failed)
       (unmap_pages_loop n s (vaddr + PAGE_SIZE)))"

definition unmap_pages :: "kmem \<Rightarrow> u32 \<Rightarrow> u32 \<Rightarrow> kmem res" where
  "unmap_pages s vaddr count = unmap_pages_loop (unat count) s vaddr"

definition alloc_page :: "kmem \<Rightarrow> u32 \<Rightarrow> u16 \<Rightarrow> kmem res" where
  "alloc_page s vaddr flags =
     bind_res (alloc_frame s) (\<lambda>(frame, s).
     bind_res (map_page s vaddr frame flags) (\<lambda>(mapped, s). kernel_assert (\<not> mapped) (Inr s)))"

primrec alloc_pages_loop :: "nat \<Rightarrow> kmem \<Rightarrow> u32 \<Rightarrow> u16 \<Rightarrow> kmem res" where
  "alloc_pages_loop 0 s vaddr flags = Inr s"
| "alloc_pages_loop (Suc n) s vaddr flags =
     bind_res (alloc_frame s) (\<lambda>(frame, s).
     bind_res (map_page s vaddr frame flags) (\<lambda>(mapped, s). kernel_assert (\<not> mapped)
       (alloc_pages_loop n s (vaddr + PAGE_SIZE) flags)))"

definition alloc_pages :: "kmem \<Rightarrow> u32 \<Rightarrow> u16 \<Rightarrow> u32 \<Rightarrow> kmem res" where
  "alloc_pages s vaddr flags count = alloc_pages_loop (unat count) s vaddr flags"

text \<open>\<open>free_page\<close> frees the whole entry, \<open>free_pages\<close> the address in it.\<close>

definition free_page :: "kmem \<Rightarrow> u32 \<Rightarrow> kmem res" where
  "free_page s vaddr =
     bind_res (unmap_page s vaddr) (\<lambda>(failed, paddr, s). kernel_assert (\<not> failed)
       (free_frame s paddr))"

primrec free_pages_loop :: "nat \<Rightarrow> kmem \<Rightarrow> u32 \<Rightarrow> kmem res" where
  "free_pages_loop 0 s vaddr = Inr s"
| "free_pages_loop (Suc n) s vaddr =
     bind_res (unmap_page s vaddr) (\<lambda>(failed, entry, s). kernel_assert (\<not> failed)
       (bind_res (free_frame s (get_paddr entry)) (\<lambda>s. free_pages_loop n s (vaddr + PAGE_SIZE))))"

definition free_pages :: "kmem \<Rightarrow> u32 \<Rightarrow> u32 \<Rightarrow> kmem res" where
  "free_pages s vaddr count = free_pages_loop (unat count) s vaddr"

definition query_paddr :: "kmem \<Rightarrow> u32 \<Rightarrow> u32 res" where
  "query_paddr s vaddr =
     (let pdi = get_pd_index vaddr; pti = get_pt_index vaddr
      in bind_res (PDE s pdi) (\<lambda>pde. kernel_assert (entry_present pde)
         (bind_res (PTE s pdi pti) (\<lambda>pte. kernel_assert (entry_present pte)
         (Inr (pte AND 0xFFFFF000))))))"

subsection \<open>Setting up the free list\<close>

text \<open>The symbols of \<^verbatim>\<open>linker.ld\<close> that \<^verbatim>\<open>kernel.c\<close> exports.\<close>

record layout =
  kernel_start_paddr :: u32
  kernel_start_vaddr :: u32
  kernel_end_paddr :: u32
  kernel_end_vaddr :: u32

definition init_free_list_page :: "layout \<Rightarrow> kmem \<Rightarrow> kmem res" where
  "init_free_list_page l s =
     (let addr = align_next_page (kernel_end_vaddr l - 1);
          pdi = get_pd_index addr;
          pti = get_pt_index addr;
          s = s\<lparr>free_list_head_pte := pte_addr pdi pti\<rparr>
      in bind_res (PDE s pdi) (\<lambda>pde. kernel_assert (entry_present pde)
         (bind_res (vread32 s (free_list_head_pte s)) (\<lambda>pte. kernel_assert (\<not> entry_present pte)
         (Inr (s\<lparr>free_list_head := addr\<rparr>))))))"

text \<open>
  \<^verbatim>\<open>for (u32 f = start_addr; f < end_addr; f += PAGE_SIZE)\<close>. The address wraps
  after \<open>2 ^ 20\<close> rounds.
\<close>

primrec init_frame_region_loop :: "nat \<Rightarrow> kmem \<Rightarrow> u32 \<Rightarrow> u32 \<Rightarrow> kmem res" where
  "init_frame_region_loop 0 s f end_addr = (if f < end_addr then Inl Diverges else Inr s)"
| "init_frame_region_loop (Suc n) s f end_addr =
     (if f < end_addr then
        bind_res (free_frame (s\<lparr>total_frames := total_frames s + 1, used_frames := used_frames s + 1\<rparr>) f)
          (\<lambda>s. init_frame_region_loop n s (f + PAGE_SIZE) end_addr)
      else Inr s)"

definition init_frame_region :: "kmem \<Rightarrow> u32 \<Rightarrow> u32 \<Rightarrow> kmem res" where
  "init_frame_region s start_addr end_addr =
     kernel_assert (end_addr > start_addr)
       (init_frame_region_loop (2 ^ 20) s (align_next_frame (start_addr - 1)) end_addr)"

record MMapEntry =
  size :: u32
  base_addr_lo :: u32
  base_addr_hi :: u32
  length_lo :: u32
  length_hi :: u32
  type :: u32

record MultibootInfo =
  mb_flags :: u32
  mmap_length :: u32
  mmap_addr :: "u32 \<Rightarrow> MMapEntry"
  framebuffer_addr_lo :: u32
  framebuffer_addr_hi :: u32
  framebuffer_width :: u32
  framebuffer_height :: u32

definition MMAP_AVAILABLE :: u32 where "MMAP_AVAILABLE = 1"
definition MB_FLAG_MMAP :: u32 where "MB_FLAG_MMAP = push_bit 6 1"
definition KERNEL_MEM_SHARE_DIV :: u32 where "KERNEL_MEM_SHARE_DIV = 5"
definition SIZEOF_MMapEntry :: u32 where "SIZEOF_MMapEntry = 24"
definition USER_PHYSICAL_MAP_MAX :: nat where "USER_PHYSICAL_MAP_MAX = 4096 div 8"

primrec init_frames_loop :: "nat \<Rightarrow> layout \<Rightarrow> MultibootInfo \<Rightarrow> kmem \<Rightarrow> u32 \<Rightarrow> kmem res" where
  "init_frames_loop 0 l mb s i = Inr s"
| "init_frames_loop (Suc n) l mb s i =
     (let e = mmap_addr mb i
      in kernel_assert (base_addr_hi e = 0) (kernel_assert (length_hi e = 0)
         (kernel_assert (size e = SIZEOF_MMapEntry - 4)
         (let mem_available = (type e = MMAP_AVAILABLE \<and> base_addr_lo e \<ge> kernel_start_paddr l);
              kernel_share = length_lo e div KERNEL_MEM_SHARE_DIV
          in if mem_available then
               kernel_assert (List.length (user_physical_map s) < USER_PHYSICAL_MAP_MAX)
               (let s = s\<lparr>user_physical_map := user_physical_map s @
                          [\<lparr>pm_addr = base_addr_lo e + kernel_share, pm_len = length_lo e - kernel_share\<rparr>]\<rparr>
                in bind_res (if base_addr_lo e = kernel_start_paddr l
                             then init_frame_region s (kernel_end_paddr l) (base_addr_lo e + kernel_share)
                             else init_frame_region s (base_addr_lo e) (base_addr_lo e + kernel_share))
                   (\<lambda>s. init_frames_loop n l mb s (i + 1)))
             else init_frames_loop n l mb s (i + 1)))))"

definition init_frames :: "layout \<Rightarrow> MultibootInfo \<Rightarrow> kmem \<Rightarrow> kmem res" where
  "init_frames l mb s =
     kernel_assert (mb_flags mb AND MB_FLAG_MMAP \<noteq> 0)
       (init_frames_loop (unat (mmap_length mb div SIZEOF_MMapEntry)) l mb s 0)"

subsection \<open>The kernel's own paging structures\<close>

definition LOWER_MEM_PAGE_COUNT :: u32 where "LOWER_MEM_PAGE_COUNT = 256"
definition MAX_KERNEL_PAGE_COUNT :: u32 where "MAX_KERNEL_PAGE_COUNT = 0x300"
definition KERNEL_PDI_START :: u32 where "KERNEL_PDI_START = 0x300"
definition KERNEL_PDI_END :: u32 where "KERNEL_PDI_END = 0x3FF"

definition reinit_paging :: "layout \<Rightarrow> kmem \<Rightarrow> kmem res" where
  "reinit_paging l s =
     (let page_count = size_in_pages (kernel_end_paddr l - kernel_start_paddr l);
          kernel_offset = kernel_start_vaddr l - kernel_start_paddr l;
          id_map_vaddr = kernel_offset - push_bit 24 1;
          kernel_map_vaddr = kernel_start_vaddr l - push_bit 24 2
      in kernel_assert (page_count \<le> MAX_KERNEL_PAGE_COUNT)
         (bind_res (map_pages s id_map_vaddr 0 PAGE_WRITABLE LOWER_MEM_PAGE_COUNT) (\<lambda>s.
          bind_res (map_pages s kernel_map_vaddr (kernel_start_paddr l) PAGE_WRITABLE page_count) (\<lambda>s.
          bind_res (vread32 s (free_list_head_pte s)) (\<lambda>old_free_list_entry.
          let id_map_index_src = get_pd_index id_map_vaddr;
              id_map_index_dst = get_pd_index 0;
              kernel_map_index_src = get_pd_index kernel_map_vaddr;
              kernel_map_index_dst = get_pd_index (kernel_start_vaddr l)
          in bind_res (PDE s id_map_index_src) (\<lambda>e.
             bind_res (set_PDE s id_map_index_dst (create_entry (get_paddr e) PAGE_WRITABLE)) (\<lambda>s.
             bind_res (PDE s kernel_map_index_src) (\<lambda>e.
             bind_res (set_PDE s kernel_map_index_dst (create_entry (get_paddr e) PAGE_WRITABLE)) (\<lambda>s.
             bind_res (set_PDE s id_map_index_src 0) (\<lambda>s.
             bind_res (set_PDE s kernel_map_index_src 0) (\<lambda>s.
             let s = flush_tlb s
             in store_entry s (free_list_head_pte s) old_free_list_entry)))))))))))"


subsection \<open>Heaps backed by frames\<close>

definition USER_RO_PAGES :: u32 where "USER_RO_PAGES = 1024"

text \<open>
  \<^verbatim>\<open>heap_init\<close> of \<^verbatim>\<open>heap.c\<close>: it backs the pages of the usage map
  and clears the map. The contents of the array are read back from memory into the record.
\<close>

definition heap_init :: "kmem \<Rightarrow> u32 \<Rightarrow> u32 \<Rightarrow> u16 \<Rightarrow> (Heap \<times> kmem) res" where
  "heap_init s start pages flags =
     kernel_assert (is_page_aligned start)
     (let byte_size = (pages + 3) div 4;
          page_size = size_in_pages byte_size
      in bind_res (alloc_pages s start flags page_size) (\<lambda>s.
         bind_res (pmemset s start HEAP_PAGE_FREE byte_size) (\<lambda>s.
         Inr (\<lparr>usage_map = (\<lambda>i. case vread8 s (start + i) of Inl _ \<Rightarrow> 0 | Inr b \<Rightarrow> b),
               heap_start = start + page_size * PAGE_SIZE, page_count = pages\<rparr>, s))))"

definition init_heap :: "kmem \<Rightarrow> kmem res" where
  "init_heap s =
     (let heap_addr = free_list_head s + PAGE_SIZE;
          pages = ptr_diff_div page_table_entries heap_addr 4096
      in kernel_assert (pages > USER_RO_PAGES)
         (let kernel_page_count = pages - USER_RO_PAGES;
              user_ro_addr = heap_addr + kernel_page_count * PAGE_SIZE;
              kernel_flags = PAGE_WRITABLE OR PAGE_GLOBAL;
              user_flags = PAGE_WRITABLE OR PAGE_USER_MODE OR PAGE_GLOBAL
          in bind_res (heap_init s heap_addr kernel_page_count kernel_flags) (\<lambda>(h, s).
             let s = s\<lparr>kernel_heap := h\<rparr>
             in bind_res (heap_init s user_ro_addr USER_RO_PAGES user_flags) (\<lambda>(h, s).
                Inr (s\<lparr>user_ro_heap := h\<rparr>)))))"

text \<open>The allocators take the heap they work on and return it with the memory.\<close>

definition mem_alloc :: "kmem \<Rightarrow> Heap \<Rightarrow> u32 \<Rightarrow> u16 \<Rightarrow> (u32 \<times> Heap \<times> kmem) res" where
  "mem_alloc s heap pages flags =
     kernel_assert (pages \<noteq> 0)
     (bind_res (heap_alloc heap pages) (\<lambda>(vaddr, heap).
      bind_res (alloc_pages s vaddr flags pages) (\<lambda>s. Inr (vaddr, heap, s))))"

definition mem_realloc :: "kmem \<Rightarrow> Heap \<Rightarrow> u32 \<Rightarrow> u32 \<Rightarrow> (u32 \<times> Heap \<times> kmem) res" where
  "mem_realloc s heap ptr pages =
     kernel_assert (pages \<noteq> 0)
     (bind_res (heap_realloc heap ptr pages) (\<lambda>(old_size, new_ptr, heap).
      bind_res (get_entry s ptr) (\<lambda>e.
      let flags = get_flags e
      in if new_ptr \<noteq> ptr then
           bind_res (alloc_pages s new_ptr flags pages) (\<lambda>s.
           bind_res (pmemcpy s new_ptr ptr (old_size * PAGE_SIZE)) (\<lambda>s.
           bind_res (free_pages s ptr old_size) (\<lambda>s. Inr (new_ptr, heap, s))))
         else if old_size > pages then
           bind_res (free_pages s (ptr + pages * PAGE_SIZE) (old_size - pages)) (\<lambda>s.
             Inr (new_ptr, heap, s))
         else
           bind_res (alloc_pages s (ptr + old_size * PAGE_SIZE) flags (pages - old_size)) (\<lambda>s.
             Inr (new_ptr, heap, s)))))"

definition mem_free :: "kmem \<Rightarrow> Heap \<Rightarrow> u32 \<Rightarrow> (Heap \<times> kmem) res" where
  "mem_free s heap ptr =
     bind_res (heap_free heap ptr) (\<lambda>(freed_count, heap).
     bind_res (free_pages s ptr freed_count) (\<lambda>s. Inr (heap, s)))"

definition kernel_alloc :: "kmem \<Rightarrow> u32 \<Rightarrow> (u32 \<times> kmem) res" where
  "kernel_alloc s pages =
     bind_res (mem_alloc s (kernel_heap s) pages PAGE_WRITABLE) (\<lambda>(p, h, s).
       Inr (p, s\<lparr>kernel_heap := h\<rparr>))"

definition kernel_realloc :: "kmem \<Rightarrow> u32 \<Rightarrow> u32 \<Rightarrow> (u32 \<times> kmem) res" where
  "kernel_realloc s ptr pages =
     bind_res (mem_realloc s (kernel_heap s) ptr pages) (\<lambda>(p, h, s).
       Inr (p, s\<lparr>kernel_heap := h\<rparr>))"

definition kernel_free :: "kmem \<Rightarrow> u32 \<Rightarrow> kmem res" where
  "kernel_free s ptr =
     bind_res (mem_free s (kernel_heap s) ptr) (\<lambda>(h, s). Inr (s\<lparr>kernel_heap := h\<rparr>))"

subsection \<open>New page directories\<close>

primrec clear_dir_loop :: "nat \<Rightarrow> kmem \<Rightarrow> u32 \<Rightarrow> u32 \<Rightarrow> kmem res" where
  "clear_dir_loop 0 s dir i = Inr s"
| "clear_dir_loop (Suc n) s dir i =
     bind_res (vwrite32 s (dir + 4 * i) 0) (\<lambda>s. clear_dir_loop n s dir (i + 1))"

primrec copy_dir_loop :: "nat \<Rightarrow> kmem \<Rightarrow> u32 \<Rightarrow> u32 \<Rightarrow> kmem res" where
  "copy_dir_loop 0 s dir i = Inr s"
| "copy_dir_loop (Suc n) s dir i =
     bind_res (PDE s i) (\<lambda>e. bind_res (vwrite32 s (dir + 4 * i) e) (\<lambda>s.
       copy_dir_loop n s dir (i + 1)))"

definition new_page_dir :: "kmem \<Rightarrow> (u32 \<times> kmem) res" where
  "new_page_dir s =
     bind_res (kernel_alloc s 1) (\<lambda>(dir, s).
     bind_res (clear_dir_loop (unat (KERNEL_PDI_START - 1)) s dir 1) (\<lambda>s.
     bind_res (copy_dir_loop (unat (KERNEL_PDI_END - KERNEL_PDI_START)) s dir KERNEL_PDI_START) (\<lambda>s.
     bind_res (PDE s 0) (\<lambda>e.
     bind_res (vwrite32 s (dir + 4 * get_pd_index 0) e) (\<lambda>s.
     bind_res (get_entry s dir) (\<lambda>e.
     bind_res (vwrite32 s (dir + 4 * 1023) (create_entry (get_paddr e) PAGE_WRITABLE)) (\<lambda>s.
     bind_res (heap_free (kernel_heap s) dir) (\<lambda>(_, h).
     bind_res (unmap_page (s\<lparr>kernel_heap := h\<rparr>) dir) (\<lambda>(failed, entry, s).
     kernel_assert (\<not> failed) (Inr (get_paddr entry, s)))))))))))"

subsection \<open>User pointers and frames\<close>

definition PTE_USER_MODE :: u32 where "PTE_USER_MODE = 4"
definition PTE_WRITABLE :: u32 where "PTE_WRITABLE = 2"

definition validate_user_readable :: "kmem \<Rightarrow> u32 \<Rightarrow> u32 res" where
  "validate_user_readable s vaddr =
     bind_res (get_entry s vaddr) (\<lambda>entry.
       let present = entry_present entry; user_mode = entry AND PTE_USER_MODE
       in Inr (if present \<and> user_mode \<noteq> 0 then vaddr else 0))"

definition validate_user_writable :: "kmem \<Rightarrow> u32 \<Rightarrow> u32 res" where
  "validate_user_writable s vaddr =
     bind_res (get_entry s vaddr) (\<lambda>entry.
       let present = entry_present entry; user_mode = entry AND PTE_USER_MODE;
           writable = entry AND PTE_WRITABLE
       in Inr (if present \<and> user_mode \<noteq> 0 \<and> writable \<noteq> 0 then vaddr else 0))"

fun user_frame_valid_loop :: "PhysicalMap list \<Rightarrow> u32 \<Rightarrow> bool" where
  "user_frame_valid_loop [] paddr = False"
| "user_frame_valid_loop (m # ms) paddr =
     (let start_addr = pm_addr m; end_addr = pm_addr m + pm_len m
      in if start_addr \<le> paddr \<and> paddr < end_addr then True else user_frame_valid_loop ms paddr)"

definition user_frame_valid :: "kmem \<Rightarrow> u32 \<Rightarrow> bool" where
  "user_frame_valid s paddr = user_frame_valid_loop (user_physical_map s) paddr"

end
