(* ===== verification/MemManagerProps.thy ===== *)
theory MemManagerProps
  imports MemManager
begin

section \<open>Properties of the memory manager\<close>

text \<open>
  Allocating and freeing runs of pages under the invariant of \<open>Frames\<close>, the heaps that
  hand out pages backed by frames, new page directories, and the checks of user pointers.
\<close>

unbundle bit_operations_syntax

subsection \<open>Allocating one page\<close>

lemma take_frame_plain:
  assumes inv: "mem_inv s (f # gs)"
  shows "plain_page (take_frame s) v \<longleftrightarrow> plain_page s v"
    and "plain_page s v \<Longrightarrow> page_at (take_frame s) v = page_at s v"
    and "k < 1024 \<Longrightarrow> user_ok (take_frame s) k flags \<longleftrightarrow> user_ok s k flags"
  using take_frame_step(2) [OF inv pd_index_less pt_index_less] take_frame_step(3) [OF inv]
    same_configD(4) [OF mem_step_config [OF take_frame_step(1) [OF inv]]]
  by (auto simp: plain_page_def page_at_def page_at_indices user_ok_def)

lemma alloc_page_steps:
  assumes inv: "mem_inv s (f # gs)" and v: "plain_page s v" and free: "\<not> entry_present (page_at s v)"
    and u: "user_ok s (get_pd_index v) flags" and fl: "flags < 0x1000"
    and room: "entry_present (pde s (get_pd_index v)) \<or> gs \<noteq> []"
  obtains t where "alloc_page s v flags = Inr t" "mem_inv t (rest_frames s (get_pd_index v) gs)"
    "mem_step s t (get_paddr ` set gs)"
    "\<And>w. plain_page s w \<Longrightarrow>
       page_at t w = (if drop_bit 12 w = drop_bit 12 v then create_entry f flags else page_at s w)"
    "\<And>k. k < 1023 \<Longrightarrow> user_ok s k flags \<Longrightarrow> user_ok t k flags"
    "\<And>w. plain_page t w \<longleftrightarrow> plain_page s w"
    "entry_present (pde t (get_pd_index v))"
    "\<And>k. k < 1023 \<Longrightarrow> k \<noteq> get_pd_index v \<Longrightarrow> pde t k = pde s k"
proof -
  let ?s = "take_frame s" and ?i = "get_pd_index v"
  note take = take_frame_inv [OF inv] take_frame_step [OF inv] take_frame_plain [OF inv]
  have i: "?i < 1023" using v by (simp add: plain_page_def)
  have v': "plain_page ?s v" using v take(7) by simp
  then have w: "(?i, get_pt_index v) \<noteq> (wdi ?s, wti ?s)" by (auto simp: plain_page_def page_at_indices)
  have f: "get_paddr f \<notin> get_paddr ` set gs" using mem_distinct [OF inv] by simp
  have pd: "pde ?s k = pde s k" if "k < 1024" for k using take(4) [OF that] .
  have "\<not> entry_present (page_at ?s v)" "user_ok ?s ?i flags"
    "entry_present (pde ?s ?i) \<or> gs \<noteq> []"
    using free u room take(8) [OF v] take(9) pd by simp_all
  note mp = map_page_steps [OF take(1) i w this(1,2) fl f this(3)]
  obtain t where
    t: "map_page ?s v f flags = Inr (False, t)" "mem_inv t (rest_frames ?s ?i gs)"
      "mem_step ?s t (get_paddr ` set gs)"
      "\<And>k l. k < 1023 \<Longrightarrow> l < 1024 \<Longrightarrow> (k, l) \<noteq> (wdi ?s, wti ?s) \<Longrightarrow>
        view t k l = (if k = ?i \<and> l = get_pt_index v then create_entry f flags else view ?s k l)"
      "\<And>k. k < 1023 \<Longrightarrow> user_ok ?s k flags \<Longrightarrow> user_ok t k flags"
      "entry_present (pde t ?i)" "\<And>k. k < 1023 \<Longrightarrow> k \<noteq> ?i \<Longrightarrow> pde t k = pde ?s k"
    by (rule mp) blast
  have step: "mem_step s t (get_paddr ` set gs)" by (rule mem_step_trans [OF take(2) t(3)])
  show ?thesis
  proof (rule that [of t])
    show "alloc_page s v flags = Inr t"
      using alloc_frame_take [OF inv] t(1) by (simp add: alloc_page_def)
    show "mem_inv t (rest_frames s ?i gs)" using t(2) pd by (simp add: rest_frames_def)
    show "page_at t w = (if drop_bit 12 w = drop_bit 12 v then create_entry f flags else page_at s w)"
      if w: "plain_page s w" for w
    proof -
      have "plain_page ?s w" using w take(7) by simp
      then show ?thesis
        using t(4) [of "get_pd_index w" "get_pt_index w"] take(8) [OF w]
        by (auto simp: plain_page_def page_at_indices page_at_def)
    qed
    show "user_ok t k flags" if "k < 1023" "user_ok s k flags" for k
      using t(5) [OF that(1)] take(9) [OF less_1024 [OF that(1)]] that(2) by simp
    show "plain_page t w \<longleftrightarrow> plain_page s w" for w
      using same_configD(4) [OF mem_step_config [OF step]] by (simp add: plain_page_def)
    show "pde t k = pde s k" if "k < 1023" "k \<noteq> ?i" for k
      using t(7) that pd [OF less_1024] by simp
  qed (use step t in auto)
qed

subsection \<open>Runs of pages\<close>

definition page_no :: "u32 \<Rightarrow> nat \<Rightarrow> u32" where
  "page_no v k = v + 4096 * word_of_nat k"

lemma page_no_0 [simp]: "page_no v 0 = v"
  by (simp add: page_no_def)

lemma page_no_Suc: "page_no (v + PAGE_SIZE) k = page_no v (Suc k)"
  by (simp add: page_no_def PAGE_SIZE_def algebra_simps)

lemma page_no_unat: "unat (page_no v k) = (unat v + 4096 * k) mod 2 ^ 32"
  by (simp add: page_no_def unat_word_ariths mod_add_right_eq mod_mult_right_eq unat_of_nat
      take_bit_eq_mod)

lemma drop_bit_12_eq: "drop_bit 12 v = drop_bit 12 (w :: u32) \<longleftrightarrow> unat v div 4096 = unat w div 4096"
proof -
  have u: "unat x div 4096 = unat (drop_bit 12 x)" for x :: u32
    by (simp add: drop_bit_eq_div unat_div)
  show ?thesis by (simp only: u word_unat_eq_iff)
qed

lemma add_mod_inj:
  fixes k l n x :: nat
  assumes "k < n" "l < n"
  shows "(x + k) mod n = (x + l) mod n \<longleftrightarrow> k = l"
proof -
  have *: "k = l" if "(x + l) mod n = (x + k) mod n" "k \<le> l" "l < n" for k l
  proof -
    have "n dvd l - k" using that mod_eq_dvd_iff_nat [of "x + k" "x + l" n] by simp
    then show ?thesis using that dvd_imp_le [of n "l - k"] by (cases "l - k = 0") auto
  qed
  show ?thesis using *[of k l] *[of l k] assms by (metis nat_le_linear)
qed

text \<open>The pages of a run of at most \<open>2 ^ 20\<close> pages are different.\<close>

lemma page_no_inj:
  assumes "k < 2 ^ 20" "l < 2 ^ 20"
  shows "drop_bit 12 (page_no v k) = drop_bit 12 (page_no v l) \<longleftrightarrow> k = l"
proof -
  have "unat (page_no v k) div 4096 = (unat v div 4096 + k) mod 2 ^ 20" for k
  proof -
    have "x mod 4294967296 div 4096 = x div 4096 mod 1048576" for x :: nat
      using mod_mult2_eq [of x 4096 1048576] by simp
    moreover have "(unat v + 4096 * k) div 4096 = unat v div 4096 + k" by simp
    ultimately show ?thesis by (simp add: page_no_unat add.commute)
  qed
  then show ?thesis using assms add_mod_inj by (simp add: drop_bit_12_eq)
qed


text \<open>\<open>run_free s v n flags\<close>: the \<open>n\<close> pages from \<open>v\<close> on can be mapped
  with \<open>flags\<close>.\<close>

definition run_free :: "kmem \<Rightarrow> u32 \<Rightarrow> nat \<Rightarrow> u16 \<Rightarrow> bool" where
  "run_free s v n flags \<longleftrightarrow> n \<le> 2 ^ 20 \<and> (\<forall>k < n. plain_page s (page_no v k) \<and>
     \<not> entry_present (page_at s (page_no v k)) \<and> user_ok s (get_pd_index (page_no v k)) flags)"

lemma run_free_Suc:
  assumes "run_free s v (Suc n) flags"
  shows "plain_page s v" "\<not> entry_present (page_at s v)" "user_ok s (get_pd_index v) flags"
    "run_free s (v + PAGE_SIZE) n flags"
  using assms unfolding run_free_def
  by (auto simp: page_no_Suc dest: spec [of _ 0])

lemma plain_page_pdi: "plain_page s v \<Longrightarrow> get_pd_index v < 1023"
  by (simp add: plain_page_def)

lemma run_page_other:
  "k < n \<Longrightarrow> n < 2 ^ 20 \<Longrightarrow> drop_bit 12 (page_no (v + PAGE_SIZE) k) \<noteq> drop_bit 12 v"
  using page_no_inj [of "Suc k" 0 v] by (simp add: page_no_Suc)

lemma alloc_pages_loop_Suc:
  "alloc_pages_loop (Suc n) s v flags =
     bind_res (alloc_page s v flags) (\<lambda>s. alloc_pages_loop n s (v + PAGE_SIZE) flags)"
proof -
  have "bind_res (kernel_assert c (Inr x)) k = kernel_assert c (k x)" for c and x :: kmem and k :: "kmem \<Rightarrow> kmem res"
    by (cases c) simp_all
  then show ?thesis
    by (simp add: alloc_page_def bind_res_assoc case_prod_unfold)
qed

text \<open>
  The result of allocating a run: page \<open>k\<close> is backed by the frame of \<open>ps ! k\<close>;
  the frames are different, were free, and are not tables; \<open>gs\<close> is what is left of the
  free list.
\<close>

definition backed :: "kmem \<Rightarrow> u32 \<Rightarrow> u16 \<Rightarrow> u32 list \<Rightarrow> bool" where
  "backed t v flags ps \<longleftrightarrow> (\<forall>k < length ps. page_at t (page_no v k) = create_entry (ps ! k) flags) \<and>
     distinct (map get_paddr ps) \<and> (\<forall>f \<in> set ps. \<not> table_frame t (get_paddr f))"

lemma alloc_pages_loop_ok:
  assumes "mem_inv s fs" "run_free s v n flags" "flags < 0x1000" "2 * n \<le> length fs"
  shows "\<exists>t ps gs. alloc_pages_loop n s v flags = Inr t \<and> mem_inv t gs \<and>
    mem_step s t (get_paddr ` set fs) \<and> length ps = n \<and> backed t v flags ps \<and>
    set ps \<subseteq> set fs \<and> set gs \<subseteq> set fs \<and> set ps \<inter> set gs = {} \<and>
    (\<forall>w. plain_page s w \<longrightarrow> (\<forall>k < n. drop_bit 12 w \<noteq> drop_bit 12 (page_no v k)) \<longrightarrow>
       page_at t w = page_at s w) \<and>
    (\<forall>k < 1023. user_ok s k flags \<longrightarrow> user_ok t k flags) \<and> length fs \<le> length gs + 2 * n"
  using assms
proof (induction n arbitrary: s fs v)
  case 0
  then show ?case by (auto simp: mem_step_refl backed_def intro!: exI [of _ fs])
next
  case (Suc n)
  from Suc.prems(4) obtain f gs where fs: "fs = f # gs" "2 * n < length gs" by (cases fs) auto
  note inv = Suc.prems(1) [unfolded fs]
  note run = run_free_Suc [OF Suc.prems(2)]
  have n: "n < 2 ^ 20" using Suc.prems(2) by (simp add: run_free_def)
  have dist: "get_paddr f \<notin> get_paddr ` set gs" "f \<notin> set gs" using mem_distinct [OF inv] by auto
  have room: "entry_present (pde s (get_pd_index v)) \<or> gs \<noteq> []" using fs by auto
  obtain t1 where t1: "alloc_page s v flags = Inr t1" "mem_inv t1 (rest_frames s (get_pd_index v) gs)"
    "mem_step s t1 (get_paddr ` set gs)"
    "\<And>w. plain_page s w \<Longrightarrow>
       page_at t1 w = (if drop_bit 12 w = drop_bit 12 v then create_entry f flags else page_at s w)"
    "\<And>k. k < 1023 \<Longrightarrow> user_ok s k flags \<Longrightarrow> user_ok t1 k flags"
    "\<And>w. plain_page t1 w \<longleftrightarrow> plain_page s w"
    by (rule alloc_page_steps [OF inv run(1-3) Suc.prems(3) room]) blast
  let ?r = "rest_frames s (get_pd_index v) gs"
  have r: "set ?r \<subseteq> set gs" "2 * n \<le> length ?r" "length fs \<le> length ?r + 2"
    using fs by (cases gs; auto simp: rest_frames_def)+
  have pl: "plain_page s (page_no (v + PAGE_SIZE) k)" if "k < n" for k
    using run(4) that by (simp add: run_free_def)
  have "run_free t1 (v + PAGE_SIZE) n flags"
    using run(4) t1(4,5,6) run_page_other [OF _ n] plain_page_pdi [of s] unfolding run_free_def
    by simp
  from Suc.IH [OF t1(2) this Suc.prems(3) r(2)] obtain t ps hs where
    t: "alloc_pages_loop n t1 (v + PAGE_SIZE) flags = Inr t" "mem_inv t hs"
      "mem_step t1 t (get_paddr ` set ?r)" "length ps = n" "backed t (v + PAGE_SIZE) flags ps"
      "set ps \<subseteq> set ?r" "set hs \<subseteq> set ?r" "set ps \<inter> set hs = {}"
      "\<And>w. plain_page t1 w \<Longrightarrow> (\<forall>k < n. drop_bit 12 w \<noteq> drop_bit 12 (page_no (v + PAGE_SIZE) k)) \<Longrightarrow>
         page_at t w = page_at t1 w"
      "\<And>k. k < 1023 \<Longrightarrow> user_ok t1 k flags \<Longrightarrow> user_ok t k flags" "length ?r \<le> length hs + 2 * n" by metis
  have other: "page_at t w = page_at s w"
    if "plain_page s w" "\<And>k. k < Suc n \<Longrightarrow> drop_bit 12 w \<noteq> drop_bit 12 (page_no v k)" for w
  proof -
    have "drop_bit 12 w \<noteq> drop_bit 12 v" using that(2) [of 0] by simp
    then show ?thesis using t(9) [of w] t1(4) [OF that(1)] t1(6) that by (simp add: page_no_Suc)
  qed
  have "page_at t v = create_entry f flags"
    using t(9) [of v] t1(4,6) run(1) run_page_other [OF _ n, of _ v] by metis
  then have pages: "page_at t (page_no v k) = create_entry ((f # ps) ! k) flags" if "k < Suc n" for k
    using that t(4,5) by (cases k) (auto simp: backed_def page_no_Suc)
  have ft: "\<not> table_frame t (get_paddr f)"
    using mem_step_table [OF t(3), of "get_paddr f"] mem_step_table [OF t1(3), of "get_paddr f"]
      mem_no_table [OF inv, of f] dist(1) r(1) by auto
  have fp: "get_paddr f \<notin> get_paddr ` set ps" "f \<notin> set hs"
    using dist r(1) t(6,7) by (blast, blast)
  have "mem_step s t (get_paddr ` set fs)"
    by (rule mem_step_trans [OF mem_step_mono [OF t1(3)] mem_step_mono [OF t(3)]]) (use r(1) fs in auto)
  moreover have "backed t v flags (f # ps)"
    using pages ft fp t(4,5) by (simp add: backed_def)
  moreover have "set (f # ps) \<subseteq> set fs" "set hs \<subseteq> set fs" "set (f # ps) \<inter> set hs = {}"
    using t(6,7,8) r(1) fs fp by auto
  moreover have "alloc_pages_loop (Suc n) s v flags = Inr t"
    using t1(1) t(1) by (simp only: alloc_pages_loop_Suc bind_res_simps)
  ultimately show ?case using t(2,4,10,11) t1(5) r(3) other
    by (intro exI [of _ t] exI [of _ "f # ps"] exI [of _ hs]) auto
qed


subsection \<open>Freeing a run of pages\<close>

lemma page_of_pair:
  assumes "i < 1024" "j < 1024"
  shows "get_pd_index (4194304 * i + 4096 * j) = i" "get_pt_index (4194304 * i + 4096 * j) = j"
proof -
  have ij: "unat i < 1024" "unat j < 1024" using assms by (simp_all add: word_less_nat_alt)
  then have u: "unat (4194304 * i + 4096 * j) = 4194304 * unat i + 4096 * unat j"
    by (simp add: unat_word_ariths)
  show "get_pd_index (4194304 * i + 4096 * j) = i"
    unfolding word_unat_eq_iff unat_pd_index u using ij by simp
  have "4194304 * unat i + 4096 * unat j = 4096 * (1024 * unat i + unat j)" by simp
  then show "get_pt_index (4194304 * i + 4096 * j) = j"
    unfolding word_unat_eq_iff unat_pt_index u using ij by simp
qed

text \<open>\<open>unreferenced\<close> in terms of pages.\<close>

lemma unreferenced_pages:
  "unreferenced s f \<longleftrightarrow> \<not> table_frame s f \<and>
     (\<forall>w. plain_page s w \<longrightarrow> \<not> (entry_present (page_at s w) \<and> get_paddr (page_at s w) = f))"
proof
  show "\<not> table_frame s f \<and>
     (\<forall>w. plain_page s w \<longrightarrow> \<not> (entry_present (page_at s w) \<and> get_paddr (page_at s w) = f))"
    if "unreferenced s f"
    using that unfolding unreferenced_def maps_view
    by (auto simp: plain_page_def page_at_indices page_at_def)
  assume *: "\<not> table_frame s f \<and>
     (\<forall>w. plain_page s w \<longrightarrow> \<not> (entry_present (page_at s w) \<and> get_paddr (page_at s w) = f))"
  have "\<not> maps s i j f" if "i < 1023" "j < 1024" "(i, j) \<noteq> (wdi s, wti s)" for i j
  proof -
    note idx = page_of_pair [OF less_1024 [OF that(1)] that(2)]
    have "plain_page s (4194304 * i + 4096 * j)"
      using that by (auto simp: plain_page_def page_at_indices idx)
    with * have "\<not> (entry_present (page_at s (4194304 * i + 4096 * j)) \<and>
        get_paddr (page_at s (4194304 * i + 4096 * j)) = f)" by blast
    then show ?thesis by (simp add: maps_view page_at_def idx)
  qed
  with * show "unreferenced s f" by (simp add: unreferenced_def)
qed

text \<open>The page is mapped, and its frame is no table and not mapped by any other page.\<close>

definition sole_frame :: "kmem \<Rightarrow> u32 \<Rightarrow> bool" where
  "sole_frame s v \<longleftrightarrow> entry_present (page_at s v) \<and> get_paddr (page_at s v) \<noteq> 0 \<and>
     \<not> table_frame s (get_paddr (page_at s v)) \<and>
     (\<forall>w. plain_page s w \<longrightarrow> entry_present (page_at s w) \<longrightarrow>
        get_paddr (page_at s w) = get_paddr (page_at s v) \<longrightarrow> drop_bit 12 w = drop_bit 12 v)"

lemma sole_frame_not_free:
  "mem_inv s fs \<Longrightarrow> plain_page s v \<Longrightarrow> entry_present (page_at s v) \<Longrightarrow>
   get_paddr (page_at s v) \<notin> get_paddr ` set fs"
  using mem_unref unreferenced_pages by blast

text \<open>Unmapping a page and freeing its frame, by the entry or by its address.\<close>

lemma free_one_page:
  assumes inv: "mem_inv s fs" and v: "plain_page s v" and sole: "sole_frame s v"
    and e: "get_paddr e = get_paddr (page_at s v)"
  obtains t u where "unmap_page s v = Inr (False, page_at s v, t)" "free_frame t e = Inr u"
    "mem_inv u (e # fs)" "mem_step s u {get_paddr e}"
    "\<And>w. plain_page s w \<Longrightarrow>
       page_at u w = (if drop_bit 12 w = drop_bit 12 v then 0 else page_at s w)"
    "\<And>w. plain_page u w \<longleftrightarrow> plain_page s w"
    "\<And>g. table_frame u g \<Longrightarrow> table_frame s g" "used_frames u = used_frames s - 1"
    "\<And>k. k < 1024 \<Longrightarrow> pde u k = pde s k"
proof -
  have pr: "entry_present (page_at s v)" using sole by (simp add: sole_frame_def)
  obtain t where t: "unmap_page s v = Inr (False, page_at s v, t)" "mem_inv t fs" "mem_step s t {}"
    "\<And>w. page_at t w = (if drop_bit 12 w = drop_bit 12 v then 0 else page_at s w)"
    "used_frames t = used_frames s" "\<And>k. k < 1024 \<Longrightarrow> pde t k = pde s k"
    by (rule unmap_page_steps [OF inv v pr]) blast
  have plain: "plain_page t w \<longleftrightarrow> plain_page s w" for w
    using same_configD(4) [OF mem_step_config [OF t(3)]] by (simp add: plain_page_def)
  have tab: "table_frame t g \<Longrightarrow> table_frame s g" for g using mem_step_table [OF t(3)] by blast
  have un: "unreferenced t (get_paddr e)"
    unfolding unreferenced_pages e
    using sole tab plain t(4) by (auto simp: sole_frame_def split: if_splits)
  have ne: "get_paddr e \<noteq> 0" "get_paddr e \<notin> get_paddr ` set fs"
    using sole sole_frame_not_free [OF inv v pr] e by (simp_all add: sole_frame_def)
  let ?u = "give_frame t e"
  note give = give_frame_step(1,2) [OF t(2) un] give_frame_inv [OF t(2) ne(1) un ne(2)]
  have flh: "free_list_head ?u = free_list_head s"
    using same_configD(4) [OF mem_step_config [OF give(1)]] same_configD(4) [OF mem_step_config [OF t(3)]]
    by simp
  show ?thesis
  proof (rule that [of t ?u])
    show "free_frame t e = Inr ?u"
      using free_frame_give mem_paging [OF t(2)] mem_window [OF t(2)] by blast
    show "mem_step s ?u {get_paddr e}"
      by (rule mem_step_trans [OF mem_step_mono [OF t(3)] give(1)]) simp
    show "page_at ?u w = (if drop_bit 12 w = drop_bit 12 v then 0 else page_at s w)"
      if "plain_page s w" for w
      using give(2) t(4) that plain same_configD(4) [OF mem_step_config [OF t(3)]]
      by (simp add: plain_page_def)
    show "plain_page ?u w \<longleftrightarrow> plain_page s w" for w by (simp add: plain_page_def flh)
    show "table_frame s g" if "table_frame ?u g" for g
      using mem_step_table [OF give(1) that] mem_no_table [OF give(3), of e] that tab by auto
    show "used_frames ?u = used_frames s - 1" using t(5) by (simp add: give_frame_def Let_def)
    show "pde ?u k = pde s k" if "k < 1024" for k
      using give_frame_step(3) [OF t(2) un that] t(6) [OF that] by simp
  qed (use t give in auto)
qed

lemma free_pages_loop_ok:
  assumes "mem_inv s fs" "n \<le> 2 ^ 20"
    "\<And>k. k < n \<Longrightarrow> plain_page s (page_no v k) \<and> sole_frame s (page_no v k)"
  shows "\<exists>t. free_pages_loop n s v = Inr t \<and>
    mem_inv t (rev (map (\<lambda>k. get_paddr (page_at s (page_no v k))) [0..<n]) @ fs) \<and>
    mem_step s t ((\<lambda>k. get_paddr (page_at s (page_no v k))) ` {..<n}) \<and>
    (\<forall>w. plain_page s w \<longrightarrow> page_at t w =
       (if \<exists>k < n. drop_bit 12 w = drop_bit 12 (page_no v k) then 0 else page_at s w)) \<and>
    (\<forall>k < 1024. pde t k = pde s k)"
  using assms
proof (induction n arbitrary: s fs v)
  case 0
  then show ?case by (simp add: mem_step_refl)
next
  case (Suc n)
  have v: "plain_page s v" "sole_frame s v" using Suc.prems(3) [of 0] by simp_all
  let ?e = "get_paddr (page_at s v)"
  obtain t u where t: "unmap_page s v = Inr (False, page_at s v, t)" "free_frame t ?e = Inr u"
    "mem_inv u (?e # fs)" "mem_step s u {?e}"
    "\<And>w. plain_page s w \<Longrightarrow>
       page_at u w = (if drop_bit 12 w = drop_bit 12 v then 0 else page_at s w)"
    "\<And>w. plain_page u w \<longleftrightarrow> plain_page s w" "\<And>g. table_frame u g \<Longrightarrow> table_frame s g"
    "\<And>k. k < 1024 \<Longrightarrow> pde u k = pde s k"
    by (rule free_one_page [OF Suc.prems(1) v get_paddr_idem, unfolded get_paddr_idem]) blast
  have n: "n < 2 ^ 20" using Suc.prems(2) by simp
  have other: "page_at u (page_no (v + PAGE_SIZE) k) = page_at s (page_no (v + PAGE_SIZE) k)"
    "plain_page s (page_no (v + PAGE_SIZE) k)" "sole_frame s (page_no (v + PAGE_SIZE) k)" if "k < n" for k
    using t(5) run_page_other [OF that n] Suc.prems(3) [of "Suc k"] that by (simp_all add: page_no_Suc)
  have "sole_frame u (page_no (v + PAGE_SIZE) k)" if "k < n" for k
  proof -
    note o = other [OF that]
    have "drop_bit 12 x = drop_bit 12 (page_no (v + PAGE_SIZE) k)"
      if x: "plain_page u x" "entry_present (page_at u x)"
        "get_paddr (page_at u x) = get_paddr (page_at u (page_no (v + PAGE_SIZE) k))" for x
    proof -
      have "plain_page s x" using x(1) t(6) by blast
      moreover from t(5) [OF this] x(2) have "page_at u x = page_at s x"
        by (metis present_0)
      ultimately show ?thesis
        using x o(1,3) unfolding sole_frame_def by metis
    qed
    then show ?thesis using o(1,3) t(7) unfolding sole_frame_def by metis
  qed
  with other t(6) have "\<And>k. k < n \<Longrightarrow>
      plain_page u (page_no (v + PAGE_SIZE) k) \<and> sole_frame u (page_no (v + PAGE_SIZE) k)" by blast
  from Suc.IH [OF t(3) _ this] n obtain t' where t': "free_pages_loop n u (v + PAGE_SIZE) = Inr t'"
    "mem_inv t' (rev (map (\<lambda>k. get_paddr (page_at u (page_no (v + PAGE_SIZE) k))) [0..<n]) @ ?e # fs)"
    "mem_step u t' ((\<lambda>k. get_paddr (page_at u (page_no (v + PAGE_SIZE) k))) ` {..<n})"
    "\<And>w. plain_page u w \<Longrightarrow> page_at t' w =
       (if \<exists>k < n. drop_bit 12 w = drop_bit 12 (page_no (v + PAGE_SIZE) k) then 0 else page_at u w)"
    "\<And>k. k < 1024 \<Longrightarrow> pde t' k = pde u k"
    by auto
  let ?F = "\<lambda>k. get_paddr (page_at s (page_no v k))"
  have "map (\<lambda>k. get_paddr (page_at u (page_no (v + PAGE_SIZE) k))) [0..<n] = map ?F (map Suc [0..<n])"
    using other by (simp add: page_no_Suc)
  then have fl: "rev (map (\<lambda>k. get_paddr (page_at u (page_no (v + PAGE_SIZE) k))) [0..<n]) @ ?e # fs =
      rev (map ?F [0..<Suc n]) @ fs"
    by (simp only: map_Suc_upt upt_rec [of 0 "Suc n"] One_nat_def) simp
  have "(\<lambda>k. get_paddr (page_at u (page_no (v + PAGE_SIZE) k))) ` {..<n} \<subseteq> ?F ` {..<Suc n}"
    using other by (auto simp: page_no_Suc)
  moreover have "?e \<in> ?F ` {..<Suc n}" by (rule image_eqI [of _ _ 0]) simp_all
  ultimately have step: "mem_step s t' (?F ` {..<Suc n})"
    using mem_step_trans [OF mem_step_mono [OF t(4)] mem_step_mono [OF t'(3)], of "?F ` {..<Suc n}"]
    by simp
  have "page_at t' w =
      (if \<exists>k < Suc n. drop_bit 12 w = drop_bit 12 (page_no v k) then 0 else page_at s w)"
    if "plain_page s w" for w
    using t'(4) [of w] t(5) [OF that] t(6) that by (auto simp: page_no_Suc Ex_less_Suc2)
  then show ?case using t(1,2,8) t'(1,2,5) step by (simp add: fl)
qed

end
