(* ===== verification/HeapPages.thy ===== *)
theory HeapPages
  imports MemManagerProps
begin

section \<open>Heaps of backed pages (\<^verbatim>\<open>mem_alloc\<close>, \<^verbatim>\<open>mem_free\<close>)\<close>

text \<open>
  The contract between the page allocator and the page tables: a used page of a heap is mapped
  to a frame of its own. Allocating and freeing keep this, take their frames from the free list
  and give them back to it. A page that is not in use need not be unmapped: \<open>init_heap\<close> makes
  heaps that overlap, and allocating such a page stops the kernel.
\<close>

unbundle bit_operations_syntax

subsection \<open>The invariant\<close>

definition heap_backed :: "kmem \<Rightarrow> Heap \<Rightarrow> u16 \<Rightarrow> bool" where
  "heap_backed s h flags \<longleftrightarrow> heap_wf h \<and>
     (\<forall>k < unat (page_count h). plain_page s (page_addr h k) \<and>
        user_ok s (get_pd_index (page_addr h k)) flags \<and>
        (page_use h k \<noteq> 0 \<longrightarrow> sole_frame s (page_addr h k)))"

lemma page_addr_page_no: "page_addr h k = page_no (heap_start h) k"
  by (simp add: page_addr_def page_no_def PAGE_SIZE_def)

lemma page_aligned_frame: "is_page_aligned p \<Longrightarrow> frame_aligned p"
  unfolding frame_aligned_def is_page_aligned_def
proof (rule bit_word_eqI)
  fix n
  assume "push_bit 20 p = 0"
  then have "\<not> bit (push_bit 20 p) (n + 20)" by simp
  then show "bit (take_bit 12 p) n \<longleftrightarrow> bit 0 n" by (auto simp: bit_simps)
qed

lemma page_no_add: "page_no (page_no v j) k = page_no v (j + k)"
  by (simp add: page_no_def algebra_simps)

lemma page_addr_add: "page_no (page_addr h j) k = page_addr h (j + k)"
  by (simp add: page_addr_page_no page_no_add)

lemma heap_wf_pages: "heap_wf h \<Longrightarrow> k < unat (page_count h) \<Longrightarrow> k < 2 ^ 20"
  by (auto simp: heap_wf_def)

lemma page_addr_inj:
  "heap_wf h \<Longrightarrow> j < unat (page_count h) \<Longrightarrow> k < unat (page_count h) \<Longrightarrow>
   drop_bit 12 (page_addr h j) = drop_bit 12 (page_addr h k) \<longleftrightarrow> j = k"
  unfolding page_addr_page_no by (rule page_no_inj) (auto dest: heap_wf_pages)

lemma create_entry_paddr: "flags < 0x1000 \<Longrightarrow> get_paddr (create_entry f flags) = get_paddr f"
  by (rule get_paddr_create_entry)

text \<open>Pages with a frame of their own keep it when a run of other pages is backed.\<close>

lemma sole_frame_keep:
  assumes inv: "mem_inv s fs" and v: "plain_page s v" "sole_frame s v"
    and step: "mem_step s t (get_paddr ` set fs)" and fl: "flags < 0x1000"
    and ps: "set ps \<subseteq> set fs" "backed t r flags ps"
    and run: "\<forall>k < length ps. drop_bit 12 v \<noteq> drop_bit 12 (page_no r k)"
    and other: "\<forall>w. plain_page s w \<longrightarrow> (\<forall>k < length ps. drop_bit 12 w \<noteq> drop_bit 12 (page_no r k)) \<longrightarrow>
       page_at t w = page_at s w"
  shows "sole_frame t v"
proof -
  have at: "page_at t v = page_at s v" using other v(1) run by blast
  let ?g = "get_paddr (page_at s v)"
  have pr: "entry_present (page_at s v)" using v(2) by (simp add: sole_frame_def)
  have nf: "?g \<notin> get_paddr ` set fs" by (rule sole_frame_not_free [OF inv v(1) pr])
  have "\<not> table_frame t ?g"
    using mem_step_table [OF step, of ?g] nf v(2) by (auto simp: sole_frame_def)
  moreover have "drop_bit 12 w = drop_bit 12 v"
    if w: "plain_page t w" "entry_present (page_at t w)" "get_paddr (page_at t w) = ?g" for w
  proof -
    have pw: "plain_page s w"
      using w(1) same_configD(4) [OF mem_step_config [OF step]] by (simp add: plain_page_def)
    have "drop_bit 12 w \<noteq> drop_bit 12 (page_no r k)" if k: "k < length ps" for k
    proof
      assume "drop_bit 12 w = drop_bit 12 (page_no r k)"
      from page_at_same [OF this] k ps(2) have "page_at t w = create_entry (ps ! k) flags"
        by (simp add: backed_def)
      then have "get_paddr (ps ! k) = ?g" using w(3) fl by (simp add: create_entry_paddr)
      moreover have "ps ! k \<in> set fs" using k ps(1) by auto
      ultimately show False using nf by (metis image_eqI)
    qed
    then have "page_at t w = page_at s w" using other pw by blast
    then show ?thesis using w(2,3) v(2) pw by (simp add: sole_frame_def)
  qed
  ultimately show ?thesis using v(2) at by (simp add: sole_frame_def)
qed

text \<open>The pages that were just backed have frames of their own.\<close>

lemma sole_frame_new:
  assumes inv: "mem_inv s fs"
    and step: "mem_step s t (get_paddr ` set fs)" and fl: "flags < 0x1000"
    and ps: "set ps \<subseteq> set fs" "backed t r flags ps"
    and other: "\<forall>w. plain_page s w \<longrightarrow> (\<forall>k < length ps. drop_bit 12 w \<noteq> drop_bit 12 (page_no r k)) \<longrightarrow>
       page_at t w = page_at s w"
    and k: "k < length ps"
  shows "sole_frame t (page_no r k)"
proof -
  let ?g = "get_paddr (ps ! k)"
  have at: "page_at t (page_no r k) = create_entry (ps ! k) flags"
    using ps(2) k by (simp add: backed_def)
  have f: "ps ! k \<in> set fs" using k ps(1) by auto
  have "drop_bit 12 w = drop_bit 12 (page_no r k)"
    if w: "plain_page t w" "entry_present (page_at t w)" "get_paddr (page_at t w) = ?g" for w
  proof (rule ccontr)
    assume ne: "drop_bit 12 w \<noteq> drop_bit 12 (page_no r k)"
    have pw: "plain_page s w"
      using w(1) same_configD(4) [OF mem_step_config [OF step]] by (simp add: plain_page_def)
    have "drop_bit 12 w \<noteq> drop_bit 12 (page_no r j)" if j: "j < length ps" for j
    proof
      assume eq: "drop_bit 12 w = drop_bit 12 (page_no r j)"
      from page_at_same [OF this] j ps(2) have "page_at t w = create_entry (ps ! j) flags"
        by (simp add: backed_def)
      then have "get_paddr (ps ! j) = ?g" using w(3) fl by (simp add: create_entry_paddr)
      then have "j = k"
        using ps(2) j k nth_eq_iff_index_eq [of "map get_paddr ps" j k] by (simp add: backed_def)
      then show False using ne eq by simp
    qed
    then have "page_at t w = page_at s w" using other pw by blast
    then show False
      using w(2,3) mem_unref [OF inv f] pw unfolding unreferenced_pages by auto
  qed
  moreover have "get_paddr g \<noteq> 0" if "flist m p gs" "g \<in> set gs" for m p g gs
    using that by (induction gs arbitrary: p) auto
  ultimately show ?thesis
    using at ps(2) k fl f mem_flist [OF inv] unfolding sole_frame_def
    by (simp add: create_entry_paddr backed_def)
qed

text \<open>A frame that was neither free nor in use otherwise stays so.\<close>

lemma unreferenced_keep:
  assumes step: "mem_step s t (get_paddr ` set fs)" and fl: "flags < 0x1000" and ps: "set ps \<subseteq> set fs" "backed t r flags ps"
    and other: "\<forall>w. plain_page s w \<longrightarrow> (\<forall>k < length ps. drop_bit 12 w \<noteq> drop_bit 12 (page_no r k)) \<longrightarrow>
       page_at t w = page_at s w"
    and f: "unreferenced s f" "f \<notin> get_paddr ` set fs"
  shows "unreferenced t f"
  unfolding unreferenced_pages
proof (intro conjI allI impI)
  show "\<not> table_frame t f" using mem_step_table [OF step, of f] f by (auto simp: unreferenced_def)
  fix w
  assume "plain_page t w"
  then have w: "plain_page s w" using same_configD(4) [OF mem_step_config [OF step]] by (simp add: plain_page_def)
  show "\<not> (entry_present (page_at t w) \<and> get_paddr (page_at t w) = f)"
  proof (cases "\<exists>k < length ps. drop_bit 12 w = drop_bit 12 (page_no r k)")
    case True
    then obtain k where k: "k < length ps" "drop_bit 12 w = drop_bit 12 (page_no r k)" by blast
    have "page_at t w = create_entry (ps ! k) flags"
      using page_at_same [OF k(2)] ps(2) k(1) by (simp add: backed_def)
    moreover have "get_paddr (ps ! k) \<in> get_paddr ` set fs" using nth_mem [OF k(1)] ps(1) by blast
    ultimately show ?thesis using f(2) fl by (auto simp: create_entry_paddr)
  next
    case False
    then have "page_at t w = page_at s w" using other w by blast
    then show ?thesis using f(1) w by (auto simp: unreferenced_pages)
  qed
qed

lemma mem_step_plain: "mem_step s t F \<Longrightarrow> plain_page t w \<longleftrightarrow> plain_page s w"
  using same_configD(4) [OF mem_step_config] by (simp add: plain_page_def)


subsection \<open>Allocating\<close>

text \<open>A run that can be mapped, except that pages of it may be mapped already; backing it stops
  the kernel if one is.\<close>

definition run_plain :: "kmem \<Rightarrow> u32 \<Rightarrow> nat \<Rightarrow> u16 \<Rightarrow> bool" where
  "run_plain s v n flags \<longleftrightarrow> n \<le> 2 ^ 20 \<and>
     (\<forall>k < n. plain_page s (page_no v k) \<and> user_ok s (get_pd_index (page_no v k)) flags)"

lemma run_plain_Suc:
  assumes "run_plain s v (Suc n) flags"
  shows "plain_page s v" "user_ok s (get_pd_index v) flags" "run_plain s (v + PAGE_SIZE) n flags"
  using assms unfolding run_plain_def by (auto simp: page_no_Suc dest: spec [of _ 0])

lemma run_plain_free:
  "run_free s v n flags \<longleftrightarrow> run_plain s v n flags \<and> (\<forall>k < n. \<not> entry_present (page_at s (page_no v k)))"
  by (auto simp: run_free_def run_plain_def)

lemma alloc_page_mapped:
  assumes inv: "mem_inv s (f # gs)" and v: "plain_page s v" "user_ok s (get_pd_index v) flags" "entry_present (page_at s v)"
  shows "alloc_page s v flags = Inl Panic"
proof -
  note take = take_frame_inv [OF inv] take_frame_plain [OF inv]
  have "user_ok (take_frame s) (get_pd_index v) flags" "entry_present (page_at (take_frame s) v)"
    using v(2,3) take(3) [OF v(1)] take(4) [OF pd_index_less] by simp_all
  moreover from this(2) have "entry_present (pde (take_frame s) (get_pd_index v))"
    using page_at_present by blast
  ultimately have "map_page (take_frame s) v f flags = Inr (True, take_frame s)"
    using map_page_present [OF mem_paging [OF take(1)]] by simp
  then show ?thesis using alloc_frame_take [OF inv] by (simp add: alloc_page_def)
qed

lemma alloc_pages_loop_mapped:
  assumes "mem_inv s fs" "run_plain s v n flags" "flags < 0x1000" "2 * n \<le> length fs"
    "k < n" "entry_present (page_at s (page_no v k))"
  shows "alloc_pages_loop n s v flags = Inl Panic"
  using assms
proof (induction n arbitrary: s fs v k)
  case (Suc n)
  from Suc.prems(4) obtain f gs where fs: "fs = f # gs" "2 * n < length gs" by (cases fs) auto
  note inv = Suc.prems(1) [unfolded fs]
  note run = run_plain_Suc [OF Suc.prems(2)]
  have n: "n < 2 ^ 20" using Suc.prems(2) by (simp add: run_plain_def)
  have room: "entry_present (pde s (get_pd_index v)) \<or> gs \<noteq> []" using fs by auto
  show ?case
  proof (cases "entry_present (page_at s v)")
    case True
    then show ?thesis using alloc_page_mapped [OF inv run(1,2)] by (simp only: alloc_pages_loop_Suc bind_res_simps)
  next
    case False
    with Suc.prems(5,6) obtain j where k: "k = Suc j" "j < n" by (cases k) auto
    obtain t1 where t1: "alloc_page s v flags = Inr t1" "mem_inv t1 (rest_frames s (get_pd_index v) gs)"
      "\<And>w. plain_page s w \<Longrightarrow>
         page_at t1 w = (if drop_bit 12 w = drop_bit 12 v then create_entry f flags else page_at s w)"
      "\<And>k. k < 1023 \<Longrightarrow> user_ok s k flags \<Longrightarrow> user_ok t1 k flags" "\<And>w. plain_page t1 w \<longleftrightarrow> plain_page s w"
      by (rule alloc_page_steps [OF inv run(1) False run(2) Suc.prems(3) room]) blast
    have "2 * n \<le> length (rest_frames s (get_pd_index v) gs)" using fs by (auto simp: rest_frames_def)
    moreover have "run_plain t1 (v + PAGE_SIZE) n flags"
      using run(3) t1(4,5) plain_page_pdi [of s] unfolding run_plain_def by simp
    moreover have "plain_page s (page_no (v + PAGE_SIZE) j)" using run(3) k(2) by (simp add: run_plain_def)
    then have "entry_present (page_at t1 (page_no (v + PAGE_SIZE) j))"
      using t1(3) run_page_other [OF k(2) n] Suc.prems(6) by (simp add: k(1) page_no_Suc)
    ultimately have "alloc_pages_loop n t1 (v + PAGE_SIZE) flags = Inl Panic"
      using Suc.IH [OF t1(2) _ Suc.prems(3) _ k(2)] by blast
    then show ?thesis using t1(1) by (simp only: alloc_pages_loop_Suc bind_res_simps)
  qed
qed simp

lemma run_free_heap:
  assumes hb: "heap_backed s h flags" and st: "st + n \<le> unat (page_count h)"
  shows "run_plain s (page_addr h st) n flags"
proof -
  have "heap_wf h" using hb by (simp add: heap_backed_def)
  then show ?thesis
    using hb st unfolding run_plain_def page_addr_add heap_backed_def by (auto simp: heap_wf_def)
qed

text \<open>A heap stays backed when a run of its pages is mapped to free frames and no page outside of the run
  becomes used.\<close>

lemma heap_backed_map:
  assumes inv: "mem_inv s fs" and hb: "heap_backed s h flags" and ff: "st + n \<le> unat (page_count h)" and fl: "flags' < 0x1000"
    and t: "mem_step s t (get_paddr ` set fs)" "length ps = n" "backed t (page_addr h st) flags' ps" "set ps \<subseteq> set fs"
      "\<forall>w. plain_page s w \<longrightarrow> (\<forall>k < n. drop_bit 12 w \<noteq> drop_bit 12 (page_no (page_addr h st) k)) \<longrightarrow> page_at t w = page_at s w"
      "\<forall>k < 1023. user_ok s k flags \<longrightarrow> user_ok t k flags"
    and h': "heap_wf h'" "heap_start h' = heap_start h" "page_count h' = page_count h"
      "\<And>k. k < unat (page_count h) \<Longrightarrow> \<not> (st \<le> k \<and> k < st + n) \<Longrightarrow> page_use h' k \<noteq> 0 \<Longrightarrow> page_use h k \<noteq> 0"
  shows "heap_backed t h' flags"
proof -
  have wf: "heap_wf h" using hb by (simp add: heap_backed_def)
  note other = t(5) [folded t(2)]
  have addr: "page_addr h' k = page_addr h k" for k by (simp add: page_addr_def h'(2))
  have "plain_page t (page_addr h' k) \<and> user_ok t (get_pd_index (page_addr h' k)) flags \<and>
      (page_use h' k \<noteq> 0 \<longrightarrow> sole_frame t (page_addr h' k))" if k: "k < unat (page_count h')" for k
  proof -
    have k': "k < unat (page_count h)" using k h'(3) by simp
    have hk: "plain_page s (page_addr h k)" "user_ok s (get_pd_index (page_addr h k)) flags"
      "page_use h k \<noteq> 0 \<longrightarrow> sole_frame s (page_addr h k)"
      using hb k' unfolding heap_backed_def by blast+
    have base: "plain_page t (page_addr h k)" "user_ok t (get_pd_index (page_addr h k)) flags"
      using hk(1) mem_step_plain [OF t(1)] t(6) plain_page_pdi [OF hk(1)] hk(2) by simp_all
    show ?thesis
    proof (cases "st \<le> k \<and> k < st + n")
      case True
      then have "sole_frame t (page_no (page_addr h st) (k - st))"
        by (intro sole_frame_new [OF inv t(1) fl t(4,3) other]) (use True t(2) in auto)
      moreover have "page_no (page_addr h st) (k - st) = page_addr h k"
        using True by (simp add: page_addr_add)
      ultimately show ?thesis using base by (simp add: addr)
    next
      case False
      then have use: "page_use h' k \<noteq> 0 \<Longrightarrow> page_use h k \<noteq> 0" using h'(4) k' by simp
      have run: "drop_bit 12 (page_addr h k) \<noteq> drop_bit 12 (page_no (page_addr h st) j)" if "j < length ps" for j
        using page_addr_inj [OF wf k', of "st + j"] that t(2) ff False by (auto simp: page_addr_add)
      then have at: "page_at t (page_addr h k) = page_at s (page_addr h k)" using other hk(1) by blast
      have "sole_frame t (page_addr h k)" if "sole_frame s (page_addr h k)"
        using sole_frame_keep [OF inv hk(1) that t(1) fl t(4,3) _ other] run by blast
      then show ?thesis using base hk(3) use by (auto simp: addr)
    qed
  qed
  then show ?thesis using h'(1) by (simp add: heap_backed_def)
qed

lemma mem_alloc_steps:
  assumes inv: "mem_inv s fs" and hb: "heap_backed s h flags" and pos: "0 < pages"
    and fl: "flags < 0x1000" and room: "2 * unat pages \<le> length fs"
    and al: "heap_alloc h pages = Inr (p, h')"
    and un: "\<forall>k < unat pages. \<not> entry_present (page_at s (page_no p k))"
  shows "\<exists>t ps gs st. mem_alloc s h pages flags = Inr (p, h', t) \<and> p = page_addr h st \<and>
    first_fit h (unat pages) st \<and> allocs h' = insert (st, unat pages) (allocs h) \<and>
    heap_start h' = heap_start h \<and> page_count h' = page_count h \<and>
    mem_inv t gs \<and> heap_backed t h' flags \<and> mem_step s t (get_paddr ` set fs) \<and>
    length ps = unat pages \<and> backed t p flags ps \<and> set ps \<subseteq> set fs \<and> set gs \<subseteq> set fs \<and>
    set ps \<inter> set gs = {} \<and>
    (\<forall>w. plain_page s w \<longrightarrow> (\<forall>k < unat pages. drop_bit 12 w \<noteq> drop_bit 12 (page_no p k)) \<longrightarrow>
       page_at t w = page_at s w) \<and> length fs \<le> length gs + 2 * unat pages"
proof -
  let ?n = "unat pages"
  have wf: "heap_wf h" using hb by (simp add: heap_backed_def)
  obtain st where st: "p = page_addr h st" "first_fit h ?n st" "heap_wf h'"
    "allocs h' = insert (st, ?n) (allocs h)" "heap_start h' = heap_start h" "page_count h' = page_count h"
    "\<And>k. k \<le> unat (page_count h) \<Longrightarrow> \<not> (st \<le> k \<and> k < st + ?n) \<Longrightarrow> page_use h' k = page_use h k"
    using heap_alloc_effect [OF wf pos al] by blast
  have ff: "st + ?n \<le> unat (page_count h)" "free_run h st ?n" using st(2) by (simp_all add: first_fit_def)
  have run: "run_free s p ?n flags"
    using run_free_heap [OF hb ff(1)] un by (simp add: run_plain_free st(1))
  obtain t ps gs where t: "alloc_pages_loop ?n s p flags = Inr t" "mem_inv t gs"
    "mem_step s t (get_paddr ` set fs)" "length ps = ?n" "backed t p flags ps"
    "set ps \<subseteq> set fs" "set gs \<subseteq> set fs" "set ps \<inter> set gs = {}"
    "\<forall>w. plain_page s w \<longrightarrow> (\<forall>k < ?n. drop_bit 12 w \<noteq> drop_bit 12 (page_no p k)) \<longrightarrow>
       page_at t w = page_at s w"
    "\<And>k. k < 1023 \<Longrightarrow> user_ok s k flags \<Longrightarrow> user_ok t k flags" "length fs \<le> length gs + 2 * ?n"
    using alloc_pages_loop_ok [OF inv run fl room] by auto
  have al': "is_alloc h' st ?n" using st(4) by (metis in_allocs insertI1)
  have "heap_backed t h' flags"
  proof (rule heap_backed_map [OF inv hb ff(1) fl t(3,4) t(5) [unfolded st(1)] t(6) t(9) [unfolded st(1)] _ st(3,5,6)])
    show "\<forall>k < 1023. user_ok s k flags \<longrightarrow> user_ok t k flags" using t(10) by blast
    show "page_use h k \<noteq> 0" if "k < unat (page_count h)" "\<not> (st \<le> k \<and> k < st + ?n)" "page_use h' k \<noteq> 0" for k
      using st(7) [of k] that by simp
  qed
  moreover have "pages \<noteq> 0" using pos by auto
  then have "mem_alloc s h pages flags = Inr (p, h', t)"
    using t(1) al by (simp add: mem_alloc_def alloc_pages_def)
  ultimately show ?thesis using t st by blast
qed

lemma mem_alloc_mapped:
  assumes inv: "mem_inv s fs" and hb: "heap_backed s h flags" and pos: "0 < pages"
    and fl: "flags < 0x1000" and room: "2 * unat pages \<le> length fs"
    and al: "heap_alloc h pages = Inr (p, h')" and k: "k < unat pages" "entry_present (page_at s (page_no p k))"
  shows "mem_alloc s h pages flags = Inl Panic"
proof -
  have wf: "heap_wf h" using hb by (simp add: heap_backed_def)
  obtain st where st: "p = page_addr h st" "first_fit h (unat pages) st" using heap_alloc_effect [OF wf pos al] by blast
  then have "run_plain s p (unat pages) flags" using run_free_heap [OF hb] by (simp add: first_fit_def)
  moreover have "pages \<noteq> 0" using pos by auto
  ultimately show ?thesis
    using al alloc_pages_loop_mapped [OF inv _ fl room k] by (simp add: mem_alloc_def alloc_pages_def)
qed

subsection \<open>Freeing\<close>

text \<open>The pages of a live allocation, and the heap after they are released and unmapped.\<close>

lemma alloc_backed:
  assumes hb: "heap_backed s h flags" and al: "is_alloc h st n" and k: "k < n"
  shows "plain_page s (page_addr h (st + k))" "sole_frame s (page_addr h (st + k))"
proof -
  have "page_use h (st + k) \<noteq> 0"
    using is_alloc_use [OF al, of "st + k"] is_alloc_used [OF al] k by simp
  then show "plain_page s (page_addr h (st + k))" "sole_frame s (page_addr h (st + k))"
    using hb k is_alloc_fits [OF al] unfolding heap_backed_def by auto
qed

lemma heap_backed_unmap:
  assumes hb: "heap_backed s h flags" and fits: "st + n \<le> unat (page_count h)" and used: "\<forall>k < n. page_use h (st + k) \<noteq> 0"
    and h': "heap_wf h'" "heap_start h' = heap_start h" "page_count h' = page_count h"
      "\<And>k. k \<le> unat (page_count h) \<Longrightarrow> page_use h' k = (if st \<le> k \<and> k < st + n then 0 else page_use h k)"
    and t: "mem_step s t ((\<lambda>k. get_paddr (page_at s (page_addr h (st + k)))) ` {..<n})"
      "\<And>w. plain_page s w \<Longrightarrow> page_at t w =
         (if \<exists>k < n. drop_bit 12 w = drop_bit 12 (page_addr h (st + k)) then 0 else page_at s w)"
      "\<And>k. k < 1024 \<Longrightarrow> pde t k = pde s k"
  shows "heap_backed t h' flags"
proof -
  have wf: "heap_wf h" using hb by (simp add: heap_backed_def)
  have pages: "plain_page s (page_addr h (st + k))" "sole_frame s (page_addr h (st + k))" if "k < n" for k
    using hb used fits that unfolding heap_backed_def by auto
  have addr: "page_addr h' k = page_addr h k" for k by (simp add: page_addr_def h'(2))
  let ?F = "(\<lambda>k. get_paddr (page_at s (page_addr h (st + k)))) ` {..<n}"
  have "plain_page t (page_addr h' k) \<and> user_ok t (get_pd_index (page_addr h' k)) flags \<and>
      (page_use h' k \<noteq> 0 \<longrightarrow> sole_frame t (page_addr h' k))" if k: "k < unat (page_count h')" for k
  proof -
    have k': "k < unat (page_count h)" using k h'(3) by simp
    have hk: "plain_page s (page_addr h k)" "user_ok s (get_pd_index (page_addr h k)) flags"
      "page_use h k \<noteq> 0 \<longrightarrow> sole_frame s (page_addr h k)"
      using hb k' unfolding heap_backed_def by blast+
    have base: "plain_page t (page_addr h k)" "user_ok t (get_pd_index (page_addr h k)) flags"
      using hk(1,2) mem_step_plain [OF t(1)] t(3) [OF pd_index_less] by (simp_all add: user_ok_def)
    have ex: "(\<exists>j < n. drop_bit 12 (page_addr h k) = drop_bit 12 (page_addr h (st + j))) \<longleftrightarrow>
        st \<le> k \<and> k < st + n"
    proof -
      have "drop_bit 12 (page_addr h k) = drop_bit 12 (page_addr h (st + j)) \<longleftrightarrow> k = st + j"
        if "j < n" for j
        by (rule page_addr_inj [OF wf k']) (use that fits in simp)
      then show ?thesis by (metis le_add1 le_add_diff_inverse nat_add_left_cancel_less)
    qed
    show ?thesis
    proof (cases "st \<le> k \<and> k < st + n")
      case True
      then show ?thesis using base h'(4) [of k] k' t(2) [OF hk(1)] ex by (simp add: addr)
    next
      case False
      have at: "page_at t (page_addr h k) = page_at s (page_addr h k)" using t(2) [OF hk(1)] ex False by simp
      have "sole_frame t (page_addr h k)" if sole: "sole_frame s (page_addr h k)"
      proof -
        let ?g = "get_paddr (page_at s (page_addr h k))"
        have "?g \<notin> ?F"
        proof
          assume "?g \<in> ?F"
          then obtain j where j: "j < n" "?g = get_paddr (page_at s (page_addr h (st + j)))" by auto
          have "entry_present (page_at s (page_addr h (st + j)))"
            "plain_page s (page_addr h (st + j))"
            using pages [OF j(1)] by (simp_all add: sole_frame_def)
          then have "drop_bit 12 (page_addr h (st + j)) = drop_bit 12 (page_addr h k)"
            using sole j(2) by (simp add: sole_frame_def)
          then show False using ex j(1) False by metis
        qed
        then have "\<not> table_frame t ?g"
          using mem_step_table [OF t(1), of ?g] sole by (auto simp: sole_frame_def)
        moreover have "page_at t w = page_at s w" if "plain_page s w" "entry_present (page_at t w)" for w
          using t(2) [OF that(1)] that(2) by (metis present_0)
        ultimately show ?thesis
          using sole at mem_step_plain [OF t(1)] unfolding sole_frame_def by metis
      qed
      then show ?thesis using base hk(3) at h'(4) [of k] k' False by (simp add: addr)
    qed
  qed
  then show ?thesis using h'(1) by (simp add: heap_backed_def)
qed

lemma heap_backed_release:
  assumes hb: "heap_backed s h flags" and al: "is_alloc h st n"
    and h': "heap_wf h'" "heap_start h' = heap_start h" "page_count h' = page_count h"
      "\<And>k. k \<le> unat (page_count h) \<Longrightarrow> page_use h' k = (if st \<le> k \<and> k < st + n then 0 else page_use h k)"
    and t: "mem_step s t ((\<lambda>k. get_paddr (page_at s (page_addr h (st + k)))) ` {..<n})"
      "\<And>w. plain_page s w \<Longrightarrow> page_at t w =
         (if \<exists>k < n. drop_bit 12 w = drop_bit 12 (page_addr h (st + k)) then 0 else page_at s w)"
      "\<And>k. k < 1024 \<Longrightarrow> pde t k = pde s k"
  shows "heap_backed t h' flags"
proof (rule heap_backed_unmap [OF hb is_alloc_fits [OF al] _ h' t])
  show "\<forall>k < n. page_use h (st + k) \<noteq> 0"
  proof (intro allI impI)
    fix k
    assume "k < n"
    then show "page_use h (st + k) \<noteq> 0" using is_alloc_use [OF al, of "st + k"] is_alloc_used [OF al] by simp
  qed
qed

lemma mem_free_steps:
  assumes inv: "mem_inv s fs" and hb: "heap_backed s h flags" and al: "(st, n) \<in> allocs h"
  shows "\<exists>h' t. mem_free s h (page_addr h st) = Inr (h', t) \<and> allocs h' = allocs h - {(st, n)} \<and>
    heap_start h' = heap_start h \<and> page_count h' = page_count h \<and>
    mem_inv t (rev (map (\<lambda>k. get_paddr (page_at s (page_addr h (st + k)))) [0..<n]) @ fs) \<and>
    heap_backed t h' flags \<and>
    mem_step s t ((\<lambda>k. get_paddr (page_at s (page_addr h (st + k)))) ` {..<n}) \<and>
    (\<forall>w. plain_page s w \<longrightarrow> page_at t w =
       (if \<exists>k < n. drop_bit 12 w = drop_bit 12 (page_addr h (st + k)) then 0 else page_at s w))"
proof -
  have wf: "heap_wf h" using hb by (simp add: heap_backed_def)
  have al': "is_alloc h st n" using al by simp
  obtain h' where h': "heap_free h (page_addr h st) = Inr (word_of_nat n, h')" "heap_wf h'"
    "allocs h' = allocs h - {(st, n)}" "heap_start h' = heap_start h" "page_count h' = page_count h"
    "\<And>k. k \<le> unat (page_count h) \<Longrightarrow> page_use h' k = (if st \<le> k \<and> k < st + n then 0 else page_use h k)"
    using heap_free_effect [OF wf al'] by auto
  have fits: "st + n \<le> unat (page_count h)" by (rule is_alloc_fits [OF al'])
  have pc: "unat (page_count h) \<le> 2 ^ 19" using wf by (simp add: heap_wf_def)
  have n: "n \<le> 2 ^ 20" "unat (word_of_nat n :: u32) = n"
    using fits pc by (simp_all add: unat_of_nat_u32)
  have pages: "plain_page s (page_no (page_addr h st) k) \<and> sole_frame s (page_no (page_addr h st) k)"
    if "k < n" for k
    using alloc_backed [OF hb al' that] by (simp add: page_addr_add)
  obtain t where t: "free_pages_loop n s (page_addr h st) = Inr t"
    "mem_inv t (rev (map (\<lambda>k. get_paddr (page_at s (page_addr h (st + k)))) [0..<n]) @ fs)"
    "mem_step s t ((\<lambda>k. get_paddr (page_at s (page_addr h (st + k)))) ` {..<n})"
    "\<And>w. plain_page s w \<Longrightarrow> page_at t w =
       (if \<exists>k < n. drop_bit 12 w = drop_bit 12 (page_addr h (st + k)) then 0 else page_at s w)"
    "\<And>k. k < 1024 \<Longrightarrow> pde t k = pde s k"
    using free_pages_loop_ok [OF inv n(1) pages] by (auto simp: page_addr_add)
  have "heap_backed t h' flags" by (rule heap_backed_release [OF hb al' h'(2,4-6) t(3-5)])
  moreover have "mem_free s h (page_addr h st) = Inr (h', t)"
    using h'(1) t(1) by (simp add: mem_free_def free_pages_def n(2))
  ultimately show ?thesis using h' t by blast
qed


subsection \<open>Properties\<close>

lemma page_no_offset: "page_no v k AND 0xFFF = v AND 0xFFF"
proof -
  have "(unat v + 4096 * k) mod 4294967296 mod 4096 = unat v mod 4096"
    using mod_mod_cancel [of 4096 4294967296 "unat v + 4096 * k"] by simp
  then show ?thesis by (simp add: word_unat_eq_iff unat_and_FFF page_no_unat)
qed

text \<open>
  Backing a run of pages. With two free frames for each page (one for a page table) a run
  of unmapped pages is mapped to different frames that were free before, each used by this
  page alone; no other page changes, nothing but page tables and free frames is written, the
  translations are not stale, and the rest of the free list stays a free list.
\<close>

theorem alloc_pages_correct:
  assumes inv: "mem_inv s fs" and run: "run_free s v (unat n) flags" and fl: "flags < 0x1000"
    and room: "2 * unat n \<le> length fs"
  shows "\<exists>t ps gs. alloc_pages s v flags n = Inr t \<and> mem_inv t gs \<and>
    mem_step s t (get_paddr ` set fs) \<and> length ps = unat n \<and> distinct (map get_paddr ps) \<and>
    set ps \<union> set gs \<subseteq> set fs \<and> set ps \<inter> set gs = {} \<and>
    (\<forall>k < unat n. translate t (page_no v k) = Inr (get_paddr (ps ! k) + (v AND 0xFFF)) \<and>
       sole_frame t (page_no v k)) \<and>
    (\<forall>w. plain_page s w \<longrightarrow> (\<forall>k < unat n. drop_bit 12 w \<noteq> drop_bit 12 (page_no v k)) \<longrightarrow>
       page_at t w = page_at s w)"
proof -
  obtain t ps gs where t: "alloc_pages_loop (unat n) s v flags = Inr t" "mem_inv t gs"
    "mem_step s t (get_paddr ` set fs)" "length ps = unat n" "backed t v flags ps"
    "set ps \<subseteq> set fs" "set gs \<subseteq> set fs" "set ps \<inter> set gs = {}"
    "\<forall>w. plain_page s w \<longrightarrow> (\<forall>k < unat n. drop_bit 12 w \<noteq> drop_bit 12 (page_no v k)) \<longrightarrow>
       page_at t w = page_at s w"
    using alloc_pages_loop_ok [OF inv run fl room] by blast
  have "translate t (page_no v k) = Inr (get_paddr (ps ! k) + (v AND 0xFFF))" if "k < unat n" for k
    using page_at_translate [OF mem_paging [OF t(2)], of "page_no v k"] t(4,5) that fl
    by (simp add: backed_def create_entry_paddr page_no_offset)
  moreover have "sole_frame t (page_no v k)" if "k < unat n" for k
    by (rule sole_frame_new [OF inv t(3) fl t(6,5)]) (use t(4,9) that in simp_all)
  moreover have "distinct (map get_paddr ps)" using t(5) by (simp add: backed_def)
  ultimately show ?thesis using t by (auto simp: alloc_pages_def)
qed

lemma demo_run: "run_free demo 0x6000 1 2"
  by (simp add: run_free_def demo_plain get_pd_index_def get_pt_index_def page_at_def view_def
      demo_pd_1 demo_pte user_ok_def PAGE_USER_MODE_def)

theorem alloc_pages_correct_witness:
  "\<exists>t f. alloc_pages demo 0x6000 2 1 = Inr t \<and> f \<in> {0x3000, 0x4000} \<and>
     translate t 0x6000 = Inr (get_paddr f)"
proof -
  have n: "unat (1 :: u32) = 1" by simp
  obtain t ps gs where t: "alloc_pages demo 0x6000 2 1 = Inr t" "length ps = 1"
    "set ps \<union> set gs \<subseteq> set [0x3000, 0x4000]"
    "\<forall>k < 1. translate t (page_no 0x6000 k) = Inr (get_paddr (ps ! k) + (0x6000 AND 0xFFF))"
    using alloc_pages_correct [where n = 1, unfolded n, OF demo_inv demo_run] by auto
  then have "translate t 0x6000 = Inr (get_paddr (ps ! 0))" by simp
  moreover have "ps ! 0 \<in> set ps" using t(2) by simp
  then have "ps ! 0 \<in> {0x3000, 0x4000}" using t(3) by auto
  ultimately show ?thesis using t(1) by blast
qed

text \<open>
  Freeing the pages that were just backed succeeds, unmaps them, leaves every page mapped
  as it was before, and puts their frames back at the head of the free list.
\<close>

theorem alloc_free_pages_roundtrip:
  assumes inv: "mem_inv s fs" and run: "run_free s v (unat n) flags" and fl: "flags < 0x1000"
    and room: "2 * unat n \<le> length fs"
  shows "\<exists>t u ps gs. alloc_pages s v flags n = Inr t \<and> mem_inv t gs \<and> length ps = unat n \<and>
    free_pages t v n = Inr u \<and> mem_inv u (rev (map get_paddr ps) @ gs) \<and>
    (\<forall>w. plain_page s w \<longrightarrow> translate u w = translate s w)"
proof -
  obtain t ps gs where t: "alloc_pages_loop (unat n) s v flags = Inr t" "mem_inv t gs"
    "mem_step s t (get_paddr ` set fs)" "length ps = unat n" "backed t v flags ps"
    "set ps \<subseteq> set fs"
    "\<forall>w. plain_page s w \<longrightarrow> (\<forall>k < unat n. drop_bit 12 w \<noteq> drop_bit 12 (page_no v k)) \<longrightarrow>
       page_at t w = page_at s w"
    using alloc_pages_loop_ok [OF inv run fl room] by blast
  have sole: "plain_page t (page_no v k) \<and> sole_frame t (page_no v k)" if k: "k < unat n" for k
    using sole_frame_new [OF inv t(3) fl t(6,5), of k] t(4,7) run k mem_step_plain [OF t(3)]
    by (simp add: run_free_def)
  have "map (\<lambda>k. get_paddr (page_at t (page_no v k))) [0..<unat n] = map get_paddr ps"
    by (rule nth_equalityI) (use t(4,5) fl in \<open>simp_all add: backed_def create_entry_paddr\<close>)
  moreover have n: "unat n \<le> 2 ^ 20" using run by (simp add: run_free_def)
  ultimately obtain u where u: "free_pages_loop (unat n) t v = Inr u"
    "mem_inv u (rev (map get_paddr ps) @ gs)"
    "\<And>w. plain_page t w \<Longrightarrow> page_at u w =
       (if \<exists>k < unat n. drop_bit 12 w = drop_bit 12 (page_no v k) then 0 else page_at t w)"
    using free_pages_loop_ok [OF t(2) _ sole, of "unat n"] by auto
  have "translate u w = translate s w" if w: "plain_page s w" for w
  proof (cases "\<exists>k < unat n. drop_bit 12 w = drop_bit 12 (page_no v k)")
    case True
    then obtain k where k: "k < unat n" "drop_bit 12 w = drop_bit 12 (page_no v k)" by blast
    then have "\<not> entry_present (page_at s w)"
      using run page_at_same [OF k(2)] by (simp add: run_free_def)
    then show ?thesis
      using True u(3) [of w] w mem_step_plain [OF t(3)] page_at_translate [OF mem_paging [OF u(2)]]
        page_at_translate [OF mem_paging [OF inv]] by simp
  next
    case False
    then have "page_at u w = page_at s w"
      using u(3) [of w] w mem_step_plain [OF t(3)] t(7) by auto
    then show ?thesis
      by (simp add: page_at_translate [OF mem_paging [OF u(2)]] page_at_translate [OF mem_paging [OF inv]])
  qed
  then show ?thesis using t(1,2,4) u(1,2) by (auto simp: alloc_pages_def free_pages_def)
qed

theorem alloc_free_pages_roundtrip_witness:
  "\<exists>t u. alloc_pages demo 0x6000 2 1 = Inr t \<and> free_pages t 0x6000 1 = Inr u \<and>
     translate u 0x6000 = Inl PageFault"
proof -
  have n: "unat (1 :: u32) = 1" by simp
  have "translate demo 0x6000 = Inl PageFault"
    using demo_run page_at_translate [OF mem_paging [OF demo_inv]] by (simp add: run_free_def)
  moreover have "plain_page demo 0x6000" using demo_run by (simp add: run_free_def)
  ultimately show ?thesis
    using alloc_free_pages_roundtrip [where n = 1, unfolded n, OF demo_inv demo_run]
    by fastforce
qed


lemma kernel_heap_fields [simp]:
  "table_frame (s\<lparr>kernel_heap := h\<rparr>) f = table_frame s f"
  "maps (s\<lparr>kernel_heap := h\<rparr>) i j f = maps s i j f"
  "unreferenced (s\<lparr>kernel_heap := h\<rparr>) f = unreferenced s f"
  "window_ok (s\<lparr>kernel_heap := h\<rparr>) = window_ok s"
  "mem_inv (s\<lparr>kernel_heap := h\<rparr>) fs = mem_inv s fs"
  "view (s\<lparr>kernel_heap := h\<rparr>) i j = view s i j"
  "page_at (s\<lparr>kernel_heap := h\<rparr>) v = page_at s v"
  "plain_page (s\<lparr>kernel_heap := h\<rparr>) v = plain_page s v"
  "sole_frame (s\<lparr>kernel_heap := h\<rparr>) v = sole_frame s v"
  "user_ok (s\<lparr>kernel_heap := h\<rparr>) i flags = user_ok s i flags"
  "heap_backed (s\<lparr>kernel_heap := h\<rparr>) g flags = heap_backed s g flags"
proof -
  let ?t = "s\<lparr>kernel_heap := h\<rparr>"
  show table: "table_frame ?t f = table_frame s f" for f by (simp add: table_frame_def)
  show maps: "maps ?t i j f = maps s i j f" for i j f by (simp add: maps_def)
  show unref: "unreferenced ?t f = unreferenced s f" for f by (simp add: unreferenced_def table maps)
  show win: "window_ok ?t = window_ok s" by (simp add: window_ok_def)
  show "mem_inv ?t fs = mem_inv s fs" by (simp add: mem_inv_def maps unref win)
  show view: "view ?t i j = view s i j" for i j by (simp add: view_def)
  show at: "page_at ?t v = page_at s v" for v by (simp add: page_at_def view)
  show plain: "plain_page ?t v = plain_page s v" for v by (simp add: plain_page_def)
  show sole: "sole_frame ?t v = sole_frame s v" for v by (simp add: sole_frame_def at plain table)
  show user: "user_ok ?t i flags = user_ok s i flags" for i by (simp add: user_ok_def)
  show "heap_backed ?t g flags = heap_backed s g flags"
    by (simp add: heap_backed_def plain user at sole)
qed

text \<open>The first fit is unique; its pages are unmapped when all pages that are not in use are.\<close>

lemma first_fit_unique: "first_fit h n st \<Longrightarrow> first_fit h n st' \<Longrightarrow> st = st'"
  unfolding first_fit_def by (metis nat_neq_iff)

definition free_unmapped :: "kmem \<Rightarrow> Heap \<Rightarrow> bool" where
  "free_unmapped s h \<longleftrightarrow> (\<forall>k < unat (page_count h). page_use h k = 0 \<longrightarrow> \<not> entry_present (page_at s (page_addr h k)))"

lemma first_fit_unmapped:
  "free_unmapped s h \<Longrightarrow> first_fit h n st \<Longrightarrow> k < n \<Longrightarrow> \<not> entry_present (page_at s (page_addr h (st + k)))"
  by (simp add: free_unmapped_def first_fit_def free_run_def)

text \<open>The invariant of the kernel's memory: the free list and the backed kernel heap.\<close>

definition kernel_mem :: "kmem \<Rightarrow> u32 list \<Rightarrow> bool" where
  "kernel_mem s fs \<longleftrightarrow> mem_inv s fs \<and> heap_backed s (kernel_heap s) PAGE_WRITABLE"

lemma kernel_alloc_Inr:
  assumes inv: "kernel_mem s fs" and pos: "0 < pages" and room: "2 * unat pages \<le> length fs"
    and r: "kernel_alloc s pages = Inr (p, u)"
  obtains h' where "heap_alloc (kernel_heap s) pages = Inr (p, h')"
    "\<forall>k < unat pages. \<not> entry_present (page_at s (page_no p k))"
proof -
  obtain h' where h': "heap_alloc (kernel_heap s) pages = Inr (p, h')"
    using r by (auto simp: kernel_alloc_def mem_alloc_def)
  have inv': "mem_inv s fs" "heap_backed s (kernel_heap s) PAGE_WRITABLE" and fl: "PAGE_WRITABLE < 0x1000"
    using inv by (simp_all add: kernel_mem_def PAGE_WRITABLE_def)
  show ?thesis
    using mem_alloc_mapped [OF inv' pos fl room h'] r by (intro that [OF h']) (auto simp: kernel_alloc_def)
qed

lemma kernel_alloc_ok:
  assumes inv: "kernel_mem s fs" and pos: "0 < pages" and room: "2 * unat pages \<le> length fs"
  shows "case kernel_alloc s pages of
      Inl e \<Rightarrow> e = Panic \<and> (\<forall>st. first_fit (kernel_heap s) (unat pages) st \<longrightarrow>
        (\<exists>k < unat pages. entry_present (page_at s (page_addr (kernel_heap s) (st + k)))))
    | Inr (p, t) \<Rightarrow> \<exists>gs ps st. kernel_mem t gs \<and> p = page_addr (kernel_heap s) st \<and>
        first_fit (kernel_heap s) (unat pages) st \<and>
        allocs (kernel_heap t) = insert (st, unat pages) (allocs (kernel_heap s)) \<and>
        length ps = unat pages \<and> distinct (map get_paddr ps) \<and> set ps \<union> set gs \<subseteq> set fs \<and>
        set ps \<inter> set gs = {} \<and>
        (\<forall>k < unat pages. page_at t (page_no p k) = create_entry (ps ! k) PAGE_WRITABLE) \<and>
        (\<forall>w. plain_page s w \<longrightarrow> (\<forall>k < unat pages. drop_bit 12 w \<noteq> drop_bit 12 (page_no p k)) \<longrightarrow>
           page_at t w = page_at s w)"
proof (cases "heap_alloc (kernel_heap s) pages")
  case (Inl e)
  have "heap_ok (kernel_heap s)" using inv by (simp add: kernel_mem_def heap_backed_def heap_wf_def)
  moreover have "pages \<noteq> 0" using pos by auto
  ultimately show ?thesis
    using heap_alloc_cases [of "kernel_heap s" pages] Inl pos
    by (auto simp: kernel_alloc_def mem_alloc_def first_fit_def)
next
  case (Inr r)
  obtain p h' where r: "r = (p, h')" by (cases r)
  have inv': "mem_inv s fs" "heap_backed s (kernel_heap s) PAGE_WRITABLE"
    using inv by (simp_all add: kernel_mem_def)
  have fl: "PAGE_WRITABLE < 0x1000" by (simp add: PAGE_WRITABLE_def)
  show ?thesis
  proof (cases "\<exists>k < unat pages. entry_present (page_at s (page_no p k))")
    case True
    then have "mem_alloc s (kernel_heap s) pages PAGE_WRITABLE = Inl Panic"
      using mem_alloc_mapped [OF inv' pos fl room Inr [unfolded r]] by blast
    moreover have "heap_wf (kernel_heap s)" using inv'(2) by (simp add: heap_backed_def)
    from heap_alloc_effect [OF this pos Inr [unfolded r]] obtain st where
      st: "p = page_addr (kernel_heap s) st" "first_fit (kernel_heap s) (unat pages) st" by blast
    have "\<exists>k < unat pages. entry_present (page_at s (page_addr (kernel_heap s) (st' + k)))"
      if "first_fit (kernel_heap s) (unat pages) st'" for st'
      using True first_fit_unique [OF that st(2)] by (simp add: st(1) page_addr_add)
    ultimately show ?thesis by (simp add: kernel_alloc_def)
  next
    case False
    obtain t ps gs st where t: "mem_alloc s (kernel_heap s) pages PAGE_WRITABLE = Inr (p, h', t)"
      "p = page_addr (kernel_heap s) st" "first_fit (kernel_heap s) (unat pages) st"
      "allocs h' = insert (st, unat pages) (allocs (kernel_heap s))"
      "mem_inv t gs" "heap_backed t h' PAGE_WRITABLE" "length ps = unat pages"
      "backed t p PAGE_WRITABLE ps" "set ps \<subseteq> set fs" "set gs \<subseteq> set fs" "set ps \<inter> set gs = {}"
      "\<forall>w. plain_page s w \<longrightarrow> (\<forall>k < unat pages. drop_bit 12 w \<noteq> drop_bit 12 (page_no p k)) \<longrightarrow>
         page_at t w = page_at s w"
      using mem_alloc_steps [OF inv' pos fl room Inr [unfolded r]] False by blast
    have "kernel_mem (t\<lparr>kernel_heap := h'\<rparr>) gs" using t(5,6) by (simp add: kernel_mem_def)
    moreover have "kernel_alloc s pages = Inr (p, t\<lparr>kernel_heap := h'\<rparr>)"
      using t(1) by (simp add: kernel_alloc_def)
    moreover have "set ps \<union> set gs \<subseteq> set fs" using t(9,10) by simp
    moreover note t(8) [unfolded backed_def t(7)]
    ultimately show ?thesis
      using t(2-4,7,11,12) by (simp only: sum.case prod.case)
        (rule exI [of _ gs], rule exI [of _ ps], rule exI [of _ st], simp)
  qed
qed

text \<open>
  C1: \<open>kernel_alloc\<close> keeps the invariant of the kernel's memory. It panics only when no
  run of free pages is long enough (given two free frames for each page), or when a page of the
  lowest such run is mapped although the heap does not use it. Otherwise its
  result is the lowest such run; all of its pages are mapped writable, to different frames
  that were free; no other live allocation and no other page changes.
\<close>

theorem kernel_alloc_correct:
  assumes inv: "kernel_mem s fs" and pos: "0 < pages" and room: "2 * unat pages \<le> length fs"
  shows "case kernel_alloc s pages of
      Inl e \<Rightarrow> e = Panic \<and> (\<forall>st. first_fit (kernel_heap s) (unat pages) st \<longrightarrow>
        (\<exists>k < unat pages. entry_present (page_at s (page_addr (kernel_heap s) (st + k)))))
    | Inr (p, t) \<Rightarrow> \<exists>gs ps st. kernel_mem t gs \<and> p = page_addr (kernel_heap s) st \<and>
        first_fit (kernel_heap s) (unat pages) st \<and>
        allocs (kernel_heap t) = insert (st, unat pages) (allocs (kernel_heap s)) \<and>
        length ps = unat pages \<and> distinct (map get_paddr ps) \<and> set ps \<union> set gs \<subseteq> set fs \<and>
        set ps \<inter> set gs = {} \<and>
        (\<forall>k < unat pages. page_at t (page_no p k) = create_entry (ps ! k) PAGE_WRITABLE) \<and>
        (\<forall>w. plain_page s w \<longrightarrow> (\<forall>k < unat pages. drop_bit 12 w \<noteq> drop_bit 12 (page_no p k)) \<longrightarrow>
           page_at t w = page_at s w)"
  by (rule kernel_alloc_ok [OF inv pos room])

lemma demo_kernel_mem: "kernel_mem demo [0x3000, 0x4000]"
proof -
  have pc: "unat (page_count heap_empty) = 6" by (simp add: heap_empty_def)
  have page: "get_pd_index (page_addr heap_empty k) = 0x301" if "k < 6" for k
  proof -
    have "unat (page_addr heap_empty k) = 0xC0400000 + 4096 * k"
      using that by (simp add: page_addr_page_no page_no_unat heap_empty_def)
    then show ?thesis using that by (simp add: word_unat_eq_iff unat_pd_index)
  qed
  have absent: "\<not> entry_present (pde demo 0x301)" by (simp add: demo_present)
  have plain: "plain_page demo (page_addr heap_empty k)" if "k < 6" for k
    using page [OF that] by (simp only: plain_page_def page_at_indices demo_window) simp
  have "page_use heap_empty k = 0" for k
    by (simp add: page_use_def heap_get_usage_def heap_empty_def Let_def)
  then have "heap_backed demo heap_empty PAGE_WRITABLE"
    unfolding heap_backed_def pc
    using page plain absent heap_empty_wf by (simp add: user_ok_def page_at_present)
  moreover have "kernel_heap demo = heap_empty" by (simp add: demo_def)
  ultimately show ?thesis using demo_inv by (simp add: kernel_mem_def)
qed

lemma demo_unmapped: "free_unmapped demo heap_empty"
proof -
  have "get_pd_index (page_addr heap_empty k) = 0x301" if "k < 6" for k
  proof -
    have "unat (page_addr heap_empty k) = 0xC0400000 + 4096 * k"
      using that by (simp add: page_addr_page_no page_no_unat heap_empty_def)
    then show ?thesis using that by (simp add: word_unat_eq_iff unat_pd_index)
  qed
  moreover have "unat (page_count heap_empty) = 6" by (simp add: heap_empty_def)
  ultimately show ?thesis by (simp add: free_unmapped_def page_at_present demo_present)
qed

lemma demo_first_fit: "first_fit heap_empty 1 0"
  by (simp add: first_fit_def free_run_def heap_eval)

theorem kernel_alloc_correct_witness:
  "\<exists>p t f. kernel_alloc demo 1 = Inr (p, t) \<and> f \<in> {0x3000, 0x4000} \<and>
     page_at t p = create_entry f PAGE_WRITABLE"
proof -
  have n: "unat (1 :: u32) = 1" "(0 :: u32) < 1" by simp_all
  have h: "kernel_heap demo = heap_empty" by (simp add: demo_def)
  note c = kernel_alloc_correct [OF demo_kernel_mem n(2), unfolded h n(1)]
  obtain p t where r: "kernel_alloc demo 1 = Inr (p, t)"
  proof (cases "kernel_alloc demo 1")
    case (Inl e)
    with c demo_first_fit first_fit_unmapped [OF demo_unmapped demo_first_fit] show ?thesis by auto
  qed auto
  with c obtain ps :: "u32 list" where "length ps = 1" "set ps \<subseteq> {0x3000, 0x4000}"
      "\<forall>k < 1. page_at t (page_no p k) = create_entry (ps ! k) PAGE_WRITABLE" by auto
  moreover from this(1) have "ps ! 0 \<in> set ps" by simp
  moreover from calculation have "ps ! 0 \<in> {0x3000, 0x4000}" by blast
  moreover from calculation have "page_at t p = create_entry (ps ! 0) PAGE_WRITABLE" by simp
  ultimately show ?thesis using r by blast
qed

text \<open>
  C2: \<open>kernel_free\<close> on a live allocation returns, keeps the invariant, removes this
  allocation only, unmaps its pages and no other page, and puts their frames back on the
  free list.
\<close>

theorem kernel_free_correct:
  assumes inv: "kernel_mem s fs" and al: "(st, n) \<in> allocs (kernel_heap s)"
  shows "\<exists>t gs. kernel_free s (page_addr (kernel_heap s) st) = Inr t \<and>
    kernel_mem t (gs @ fs) \<and> length gs = n \<and>
    allocs (kernel_heap t) = allocs (kernel_heap s) - {(st, n)} \<and>
    (\<forall>k < n. translate t (page_addr (kernel_heap s) (st + k)) = Inl PageFault) \<and>
    (\<forall>w. plain_page s w \<longrightarrow>
       (\<forall>k < n. drop_bit 12 w \<noteq> drop_bit 12 (page_addr (kernel_heap s) (st + k))) \<longrightarrow>
       page_at t w = page_at s w)"
proof -
  let ?h = "kernel_heap s"
  have inv': "mem_inv s fs" "heap_backed s ?h PAGE_WRITABLE"
    using inv by (simp_all add: kernel_mem_def)
  obtain h' t where t: "mem_free s ?h (page_addr ?h st) = Inr (h', t)" "allocs h' = allocs ?h - {(st, n)}"
    "mem_inv t (rev (map (\<lambda>k. get_paddr (page_at s (page_addr ?h (st + k)))) [0..<n]) @ fs)"
    "heap_backed t h' PAGE_WRITABLE"
    "\<And>w. plain_page s w \<Longrightarrow> page_at t w =
       (if \<exists>k < n. drop_bit 12 w = drop_bit 12 (page_addr ?h (st + k)) then 0 else page_at s w)"
    using mem_free_steps [OF inv' al] by blast
  have fits: "st + n \<le> unat (page_count ?h)" by (rule is_alloc_fits) (use al in simp)
  have "page_at t (page_addr ?h (st + k)) = 0" if "k < n" for k
  proof -
    have "plain_page s (page_addr ?h (st + k))"
      using inv'(2) that fits unfolding heap_backed_def by auto
    then show ?thesis using t(5) that by auto
  qed
  then have "translate t (page_addr ?h (st + k)) = Inl PageFault" if "k < n" for k
    using page_at_translate [OF mem_paging [OF t(3)]] that by simp
  moreover have "kernel_mem (t\<lparr>kernel_heap := h'\<rparr>)
      (rev (map (\<lambda>k. get_paddr (page_at s (page_addr ?h (st + k)))) [0..<n]) @ fs)"
    using t(3,4) by (simp add: kernel_mem_def)
  moreover have "kernel_free s (page_addr ?h st) = Inr (t\<lparr>kernel_heap := h'\<rparr>)"
    using t(1) by (simp add: kernel_free_def)
  ultimately show ?thesis using t(2,5)
    by (intro exI [of _ "t\<lparr>kernel_heap := h'\<rparr>"]
        exI [of _ "rev (map (\<lambda>k. get_paddr (page_at s (page_addr ?h (st + k)))) [0..<n])"]) auto
qed


lemma demo_alloc:
  obtains p t gs st where "kernel_alloc demo 1 = Inr (p, t)" "kernel_mem t gs"
    "p = page_addr (kernel_heap t) st" "(st, 1) \<in> allocs (kernel_heap t)"
proof -
  have n: "unat (1 :: u32) = 1" "(0 :: u32) < 1" by simp_all
  have h: "kernel_heap demo = heap_empty" by (simp add: demo_def)
  have inv: "mem_inv demo [0x3000, 0x4000]" "heap_backed demo heap_empty PAGE_WRITABLE"
    using demo_kernel_mem by (simp_all add: kernel_mem_def h)
  have "free_run heap_empty 0 1" by (simp add: free_run_def heap_eval)
  then obtain p h' where al: "heap_alloc heap_empty 1 = Inr (p, h')"
    using heap_alloc_succeeds [of heap_empty 1 0] heap_empty_wf
    by (auto simp: heap_wf_def heap_empty_def)
  have "heap_wf heap_empty" by (rule heap_empty_wf)
  from heap_alloc_effect [OF this n(2) al] obtain st0 where "p = page_addr heap_empty st0" "first_fit heap_empty 1 st0"
    by (auto simp: n)
  then have un: "\<not> entry_present (page_at demo p)" using first_fit_unmapped [OF demo_unmapped, of 1 st0 0] by simp
  have fl: "PAGE_WRITABLE < 0x1000" by (simp add: PAGE_WRITABLE_def)
  obtain t gs st where t: "mem_alloc demo heap_empty 1 PAGE_WRITABLE = Inr (p, h', t)"
    "p = page_addr heap_empty st" "allocs h' = insert (st, 1) (allocs heap_empty)"
    "heap_start h' = heap_start heap_empty" "mem_inv t gs" "heap_backed t h' PAGE_WRITABLE"
    using mem_alloc_steps [OF inv n(2) fl _ al] un by (auto simp: n)
  show ?thesis
  proof (rule that [of p "t\<lparr>kernel_heap := h'\<rparr>" gs st])
    show "kernel_alloc demo 1 = Inr (p, t\<lparr>kernel_heap := h'\<rparr>)"
      using t(1) by (simp add: kernel_alloc_def h)
  qed (use t in \<open>simp_all add: kernel_mem_def page_addr_def del: in_allocs\<close>)
qed

theorem kernel_free_correct_witness:
  "\<exists>p t u. kernel_alloc demo 1 = Inr (p, t) \<and> kernel_free t p = Inr u \<and> translate u p = Inl PageFault"
proof (rule demo_alloc)
  fix p t gs st
  assume t: "kernel_alloc demo 1 = Inr (p, t)" "kernel_mem t gs" "p = page_addr (kernel_heap t) st"
    "(st, 1) \<in> allocs (kernel_heap t)"
  from kernel_free_correct [OF t(2,4)] t(1,3) show ?thesis by fastforce
qed

end
