(* ===== verification/ProcQueue.thy ===== *)
theory ProcQueue
  imports Interfaces
begin

section \<open>The run queue (\<^verbatim>\<open>process/queue.c\<close>)\<close>

text \<open>
  An intrusive singly linked queue. A node is an address, its only field \<^verbatim>\<open>next\<close> is
  kept in the map \<open>qnext\<close> of the node memory, and 0 is the null pointer. The abstraction
  of a queue is the list of its nodes. The interface \<open>fifo\<close> is interpreted here.
\<close>

subsection \<open>Data and operations\<close>

type_synonym qmem = "u32 \<Rightarrow> u32"

record Queue =
  head :: u32
  tail :: u32
  count :: u32

definition queue_init :: "Queue \<Rightarrow> Queue" where
  "queue_init q = q\<lparr>head := 0, tail := 0, count := 0\<rparr>"

definition queue_add :: "qmem \<Rightarrow> Queue \<Rightarrow> u32 \<Rightarrow> qmem \<times> Queue" where
  "queue_add m q node =
     (let (m, q) = (if tail q \<noteq> 0 then (m(tail q := node), q) else (m, q\<lparr>head := node\<rparr>));
          q = q\<lparr>count := count q + 1\<rparr>;
          m = m(node := 0)
      in (m, q\<lparr>tail := node\<rparr>))"

text \<open>The result is the node, or 0 for the null pointer.\<close>

definition queue_poll :: "qmem \<Rightarrow> Queue \<Rightarrow> u32 \<times> Queue" where
  "queue_poll m q =
     (let hd = head q
      in if hd = 0 then (0, q)
         else let nxt = m hd;
                  q = q\<lparr>head := nxt\<rparr>;
                  q = (if nxt = 0 then q\<lparr>tail := 0\<rparr> else q)
              in (hd, q\<lparr>count := count q - 1\<rparr>))"

subsection \<open>The list of a queue\<close>

primrec chain :: "qmem \<Rightarrow> u32 \<Rightarrow> u32 list \<Rightarrow> bool" where
  "chain m p [] \<longleftrightarrow> p = 0"
| "chain m p (x # xs) \<longleftrightarrow> p = x \<and> x \<noteq> 0 \<and> chain m (m x) xs"

definition queue_rep :: "qmem \<Rightarrow> Queue \<Rightarrow> u32 list \<Rightarrow> bool" where
  "queue_rep m q xs \<longleftrightarrow> chain m (head q) xs \<and> distinct xs \<and>
     tail q = (if xs = [] then 0 else last xs) \<and> count q = word_of_nat (length xs)"

lemma chain_nonnull: "chain m p xs \<Longrightarrow> x \<in> set xs \<Longrightarrow> x \<noteq> 0"
  by (induction xs arbitrary: p) auto

lemma chain_update_other: "y \<notin> set xs \<Longrightarrow> chain (m(y := v)) p xs \<longleftrightarrow> chain m p xs"
  by (induction xs arbitrary: p) auto

lemma chain_snoc:
  assumes "chain m p xs" "xs \<noteq> []" "distinct xs" "y \<noteq> 0" "y \<notin> set xs"
  shows "chain (m(last xs := y, y := 0)) p (xs @ [y])"
  using assms
proof (induction xs arbitrary: p)
  case (Cons x xs)
  show ?case
  proof (cases "xs = []")
    case False
    then have "x \<noteq> last xs" using Cons.prems(3) by auto
    then show ?thesis using Cons False by auto
  qed (use Cons in auto)
qed simp

lemma queue_init_rep: "queue_rep m (queue_init q) []"
  by (simp add: queue_rep_def queue_init_def)

lemma queue_add_rep:
  assumes "queue_rep m q xs" "y \<noteq> 0" "y \<notin> set xs" "queue_add m q y = (m', q')"
  shows "queue_rep m' q' (xs @ [y])"
proof (cases "xs = []")
  case True
  then show ?thesis using assms by (auto simp: queue_rep_def queue_add_def Let_def)
next
  case False
  then have "last xs \<noteq> 0" using chain_nonnull [of m "head q" xs] assms(1) by (simp add: queue_rep_def)
  then show ?thesis
    using assms False chain_snoc [of m "head q" xs y]
    by (auto simp: queue_rep_def queue_add_def Let_def)
qed

lemma queue_poll_rep:
  assumes "queue_rep m q (x # xs)"
  shows "\<exists>q'. queue_poll m q = (x, q') \<and> queue_rep m q' xs"
proof -
  have "chain m (m x) xs" using assms by (simp add: queue_rep_def)
  then have "m x = 0 \<longleftrightarrow> xs = []" by (cases xs) auto
  then show ?thesis using assms by (auto simp: queue_rep_def queue_poll_def Let_def)
qed

lemma queue_poll_empty: "queue_rep m q [] \<Longrightarrow> queue_poll m q = (0, q)"
  by (simp add: queue_rep_def queue_poll_def)

subsection \<open>The interface\<close>

text \<open>The state is the pair of node memory and queue.\<close>

definition enq :: "qmem \<times> Queue \<Rightarrow> u32 \<Rightarrow> qmem \<times> Queue" where
  "enq s x = queue_add (fst s) (snd s) x"

definition deq :: "qmem \<times> Queue \<Rightarrow> (u32 \<times> (qmem \<times> Queue)) option" where
  "deq s = (let (x, q) = queue_poll (fst s) (snd s) in if x = 0 then None else Some (x, (fst s, q)))"

interpretation rq: fifo "\<lambda>s xs. queue_rep (fst s) (snd s) xs" "\<lambda>x. x \<noteq> 0" enq deq
proof unfold_locales
  fix s :: "qmem \<times> Queue" and x xs
  show "queue_rep (fst s) (snd s) xs \<Longrightarrow> x \<noteq> 0 \<Longrightarrow> x \<notin> set xs \<Longrightarrow>
      queue_rep (fst (enq s x)) (snd (enq s x)) (xs @ [x])"
    using queue_add_rep [of "fst s" "snd s" xs x] by (metis enq_def prod.collapse)
  show "queue_rep (fst s) (snd s) [] \<Longrightarrow> deq s = None"
    by (simp add: deq_def queue_poll_empty)
  show "queue_rep (fst s) (snd s) (x # xs) \<Longrightarrow>
      \<exists>t. deq s = Some (x, t) \<and> queue_rep (fst t) (snd t) xs"
    using queue_poll_rep [of "fst s" "snd s" x xs] chain_nonnull
    by (fastforce simp: deq_def queue_rep_def)
  show "queue_rep (fst s) (snd s) xs \<Longrightarrow> x \<in> set xs \<Longrightarrow> x \<noteq> 0"
    using chain_nonnull by (auto simp: queue_rep_def)
  show "queue_rep (fst s) (snd s) xs \<Longrightarrow> distinct xs" by (simp add: queue_rep_def)
qed

subsection \<open>Properties\<close>

text \<open>
  C32: The queue is first in, first out, in every state of it: an initialised queue is empty; adding a node that
  is not queued appends it; polling takes the first node off, also the only one, and polling the empty queue
  gives the null pointer and changes nothing. The count is the number of nodes and the nodes keep their order.
\<close>

theorem queue_refines_list:
  assumes "queue_rep m q xs"
  shows "queue_rep m (queue_init q) [] \<and>
    (\<forall>y. y \<noteq> 0 \<and> y \<notin> set xs \<longrightarrow> (case queue_add m q y of (m', q') \<Rightarrow> queue_rep m' q' (xs @ [y]) \<and>
      (\<exists>x q''. queue_poll m' q' = (x, q'') \<and> x = hd (xs @ [y]) \<and> queue_rep m' q'' (tl (xs @ [y]))))) \<and>
    (case xs of [] \<Rightarrow> queue_poll m q = (0, q)
     | x # ys \<Rightarrow> x \<noteq> 0 \<and> (\<exists>q'. queue_poll m q = (x, q') \<and> queue_rep m q' ys))"
proof (intro conjI allI impI)
  show "queue_rep m (queue_init q) []" by (rule queue_init_rep)
next
  fix y :: u32
  assume y: "y \<noteq> 0 \<and> y \<notin> set xs"
  obtain m' q' where a: "queue_add m q y = (m', q')" by (cases "queue_add m q y")
  have r: "queue_rep m' q' (xs @ [y])" using queue_add_rep [OF assms _ _ a] y by simp
  then have "queue_rep m' q' (hd (xs @ [y]) # tl (xs @ [y]))" by (cases xs) auto
  from queue_poll_rep [OF this] r a
  show "case queue_add m q y of (m', q') \<Rightarrow> queue_rep m' q' (xs @ [y]) \<and>
      (\<exists>x q''. queue_poll m' q' = (x, q'') \<and> x = hd (xs @ [y]) \<and> queue_rep m' q'' (tl (xs @ [y])))" by auto
next
  show "case xs of [] \<Rightarrow> queue_poll m q = (0, q)
     | x # ys \<Rightarrow> x \<noteq> 0 \<and> (\<exists>q'. queue_poll m q = (x, q') \<and> queue_rep m q' ys)"
  proof (cases xs)
    case Nil
    then show ?thesis using queue_poll_empty assms by simp
  next
    case (Cons x ys)
    then have "queue_rep m q (x # ys)" using assms by simp
    then show ?thesis using queue_poll_rep [of m q x ys] Cons by (simp add: queue_rep_def)
  qed
qed

theorem queue_refines_list_witness:
  "\<exists>m q q' r. queue_poll (\<lambda>_. 0) (queue_init r) = (0, queue_init r) \<and>
     queue_add (\<lambda>_. 0) (queue_init r) 8 = (m, q) \<and> queue_poll m q = (8, q') \<and> queue_poll m q' = (0, q')"
proof -
  let ?q = "queue_init \<lparr>head = 1, tail = 2, count = 3\<rparr>"
  note empty = queue_refines_list [OF queue_init_rep, of "\<lambda>_. 0" "\<lparr>head = 1, tail = 2, count = 3\<rparr>"]
  obtain m q where a: "queue_add (\<lambda>_. 0) ?q 8 = (m, q)" by (cases "queue_add (\<lambda>_. 0) ?q 8")
  with empty have "queue_rep m q [8]" by (auto dest: spec [of _ 8])
  note one = queue_refines_list [OF this]
  then obtain q' where q': "queue_poll m q = (8, q')" "queue_rep m q' []" by auto
  show ?thesis
    using empty a q'(1) queue_refines_list [OF q'(2)]
    by (intro exI [of _ m] exI [of _ q] exI [of _ q'] exI [of _ "\<lparr>head = 1, tail = 2, count = 3\<rparr>"]) simp
qed

text \<open>The queue with nodes 8, 16 and 24.\<close>

definition demo_nodes :: qmem where
  "demo_nodes = (\<lambda>_. 0)(8 := 16, 16 := 24)"

definition demo_queue :: Queue where
  "demo_queue = \<lparr>head = 8, tail = 24, count = 3\<rparr>"

lemma demo_queue_rep: "queue_rep demo_nodes demo_queue [8, 16, 24]"
  by (simp add: queue_rep_def demo_nodes_def demo_queue_def)

text \<open>
  C33: Taking the first node and adding it again, as the scheduler does with the process it
  runs, is fair: in as many turns as there are nodes every queued node gets exactly one turn,
  in the order of the queue, which then is as before.
\<close>

theorem queue_round_robin:
  assumes "queue_rep m q xs"
  shows "\<exists>m' q'. rq.turns (length xs) (m, q) = Some (xs, (m', q')) \<and> queue_rep m' q' xs"
  using rq.turns_all [of "(m, q)" xs] assms by auto

theorem queue_round_robin_witness:
  "\<exists>m' q'. rq.turns 3 (demo_nodes, demo_queue) = Some ([8, 16, 24], (m', q')) \<and>
     queue_rep m' q' [8, 16, 24]"
  using queue_round_robin [OF demo_queue_rep] by (simp add: numeral_3_eq_3 del: rq.turns.simps)

text \<open>
  C34: Adding a node that is queued already cuts the queue: all nodes behind it are lost,
  while the count grows.
\<close>

theorem queue_add_twice_loses:
  assumes rep: "queue_rep m q (xs @ [y] @ zs)" and zs: "zs \<noteq> []"
  shows "case queue_add m q y of (m', q') \<Rightarrow> chain m' (head q') (xs @ [y]) \<and>
    count q' = word_of_nat (length (xs @ [y] @ zs) + 1)"
proof -
  let ?t = "last zs"
  have t: "tail q = ?t" "?t \<in> set zs" "count q = word_of_nat (length (xs @ [y] @ zs))"
    using rep zs by (simp_all add: queue_rep_def)
  have dist: "distinct (xs @ [y] @ zs)" and ch: "chain m (head q) (xs @ [y] @ zs)"
    using rep by (simp_all add: queue_rep_def)
  have ne: "?t \<noteq> 0" using chain_nonnull [OF ch, of ?t] t(2) by auto
  have cut: "chain (m(?t := y, y := 0)) p (xs @ [y])" if "chain m p (xs @ [y] @ zs)"
    "distinct (xs @ [y] @ zs)" for p xs
    using that
  proof (induction xs arbitrary: p)
    case (Cons x xs)
    then show ?case using t(2) by auto
  qed auto
  show ?thesis
    using cut [OF ch dist] t(1,3) ne by (simp add: queue_add_def Let_def)
qed

theorem queue_add_twice_loses_witness:
  "case queue_add demo_nodes demo_queue 8 of (m, q) \<Rightarrow> chain m (head q) [8] \<and> count q = 4"
  using queue_add_twice_loses [of demo_nodes demo_queue "[]" 8 "[16, 24]"] demo_queue_rep by simp

end
