(* ===== verification/Pool.thy ===== *)
theory Pool
  imports HeapPages ProcQueue
begin

section \<open>The pool of processes (\<^verbatim>\<open>process/pool.c\<close>)\<close>

text \<open>
  Objects of type \<^verbatim>\<open>Process\<close> are carved out of kernel pages. A free object holds the
  pointer to the next free one in its first word, which is the field
  \<^verbatim>\<open>page_dir_paddr\<close> of an object in use; that word is kept in a map from object
  addresses to words. New pages come from \<^verbatim>\<open>kernel_alloc\<close>. The interface
  \<open>object_pool\<close> is interpreted here.
\<close>

unbundle bit_operations_syntax

subsection \<open>Data and operations\<close>

type_synonym words = "u32 \<Rightarrow> u32"

record ProcessPool =
  free_list :: u32

text \<open>\<^verbatim>\<open>sizeof(Process)\<close>: a word, the queue node (4 bytes), the tree node (20) and a
  boolean, padded.\<close>

definition SIZEOF_Process :: u32 where
  "SIZEOF_Process = 32"

definition pool_init :: "ProcessPool \<Rightarrow> ProcessPool" where
  "pool_init pool = pool\<lparr>free_list := 0\<rparr>"

definition pool_destroy :: "words \<Rightarrow> ProcessPool \<Rightarrow> u32 \<Rightarrow> words \<times> ProcessPool" where
  "pool_destroy m pool proc = (m(proc := free_list pool), pool\<lparr>free_list := proc\<rparr>)"

text \<open>The loop with \<open>n\<close> objects left.\<close>

primrec pool_fill_loop :: "nat \<Rightarrow> words \<Rightarrow> ProcessPool \<Rightarrow> u32 \<Rightarrow> words \<times> ProcessPool" where
  "pool_fill_loop 0 m pool processes = (m, pool)"
| "pool_fill_loop (Suc n) m pool processes =
     (let (m, pool) = pool_destroy m pool (processes + word_of_nat n * SIZEOF_Process)
      in pool_fill_loop n m pool processes)"

definition pool_create :: "kmem \<Rightarrow> words \<Rightarrow> ProcessPool \<Rightarrow> (u32 \<times> kmem \<times> words \<times> ProcessPool) res" where
  "pool_create s m pool =
     bind_res (if free_list pool = 0 then
                 bind_res (kernel_alloc s 1) (\<lambda>(processes, s).
                 let n = PAGE_SIZE div SIZEOF_Process;
                     (m, pool) = pool_fill_loop (unat n) m pool processes
                 in Inr (s, m, pool))
               else Inr (s, m, pool))
       (\<lambda>(s, m, pool).
          let proc = free_list pool;
              pool = pool\<lparr>free_list := m proc\<rparr>
          in Inr (proc, s, m, pool))"

subsection \<open>Filling the pool\<close>

abbreviation object :: "u32 \<Rightarrow> nat \<Rightarrow> u32" where
  "object p k \<equiv> p + word_of_nat k * SIZEOF_Process"

lemma object_unat:
  assumes "is_page_aligned p" "k < 128"
  shows "unat (object p k) = unat p + 32 * k"
proof -
  obtain j where j: "unat p = 4096 * j" using page_aligned_frame [OF assms(1)] by (auto simp: frame_unat)
  then have "4096 * j < 4294967296" using unat_lt_u32 [of p] by simp
  then have "j < 1048576" by linarith
  then have "unat p + 4096 \<le> 2 ^ 32" using j by simp
  moreover have "unat (word_of_nat k * SIZEOF_Process :: u32) = 32 * k"
    using assms(2) by (simp add: SIZEOF_Process_def unat_word_ariths unat_of_nat)
  ultimately show ?thesis using assms(2) by (subst unat_add_u32) simp_all
qed

lemma object_page:
  assumes "is_page_aligned p" "k < 128"
  shows "drop_bit 12 (object p k) = drop_bit 12 p"
proof -
  obtain j where j: "unat p = 4096 * j" using page_aligned_frame [OF assms(1)] by (auto simp: frame_unat)
  have 1: "(unat p + 32 * k) div 4096 = j" unfolding j by (rule div_nat_eqI) (use assms(2) in simp_all)
  have 2: "unat p div 4096 = j" unfolding j by (rule div_nat_eqI) simp_all
  show ?thesis unfolding drop_bit_12_eq object_unat [OF assms] 1 2 by (rule refl)
qed

lemma object_inj:
  assumes "is_page_aligned p" "j < 128" "k < 128"
  shows "object p j = object p k \<longleftrightarrow> j = k"
proof
  assume "object p j = object p k"
  then have "unat p + 32 * j = unat p + 32 * k"
    unfolding object_unat [OF assms(1,2), symmetric] object_unat [OF assms(1,3), symmetric] by (rule arg_cong)
  then show "j = k" by simp
qed simp

text \<open>Filling pushes the objects \<open>n - 1\<close> to 0, so that object 0 is the first free one.\<close>

lemma pool_fill_loop_ok:
  assumes "is_page_aligned p" "n \<le> 128" "drop_bit 12 p \<noteq> 0"
    and "chain m (free_list pool) fs" "distinct fs" "\<forall>x \<in> set fs. drop_bit 12 x \<noteq> drop_bit 12 p \<or> (\<exists>k. n \<le> k \<and> k < 128 \<and> x = object p k)"
    and "pool_fill_loop n m pool p = (m', pool')"
  shows "chain m' (free_list pool') (map (object p) [0..<n] @ fs) \<and> distinct (map (object p) [0..<n] @ fs) \<and>
    (\<forall>x. x \<notin> object p ` {..<n} \<longrightarrow> m' x = m x)"
  using assms(2,4-7)
proof (induction n arbitrary: m pool fs)
  case (Suc n)
  let ?o = "object p n"
  have ne: "?o \<noteq> 0"
  proof
    assume "?o = 0"
    then have "drop_bit 12 p = drop_bit 12 (0 :: u32)"
      using object_page [OF assms(1), of n] Suc.prems(1) by simp
    then show False using assms(3) by simp
  qed
  have new: "?o \<notin> set fs"
    using Suc.prems(1,4) object_page [OF assms(1), of n] object_inj [OF assms(1), of n] by fastforce
  let ?m = "m(?o := free_list pool)" and ?pool = "pool\<lparr>free_list := ?o\<rparr>"
  have run: "pool_fill_loop n ?m ?pool p = (m', pool')"
    using Suc.prems(5) by (simp add: pool_destroy_def)
  have c: "chain ?m (free_list ?pool) (?o # fs)" using Suc.prems(2) new ne by (simp add: chain_update_other)
  have d: "distinct (?o # fs)" using Suc.prems(3) new by simp
  have b: "\<forall>x \<in> set (?o # fs). drop_bit 12 x \<noteq> drop_bit 12 p \<or> (\<exists>k. n \<le> k \<and> k < 128 \<and> x = object p k)"
    using Suc.prems(1,4) Suc_leD by fastforce
  have "n \<le> 128" using Suc.prems(1) by simp
  from Suc.IH [OF this c d b run] show ?case by (auto simp: lessThan_Suc)
qed simp

subsection \<open>The pool as a set of objects\<close>

text \<open>\<open>pool_inv s m pool live fs\<close>: the objects in use are \<open>live\<close>, the free ones \<open>fs\<close>; all of
  them lie in one-page allocations of the kernel heap, none of which is the first page of
  memory.\<close>

definition in_kernel_page :: "kmem \<Rightarrow> u32 \<Rightarrow> bool" where
  "in_kernel_page s p \<longleftrightarrow> (\<exists>st. (st, 1) \<in> allocs (kernel_heap s) \<and>
     drop_bit 12 p = drop_bit 12 (page_addr (kernel_heap s) st))"

definition pool_inv :: "kmem \<Rightarrow> words \<Rightarrow> ProcessPool \<Rightarrow> u32 set \<Rightarrow> u32 list \<Rightarrow> bool" where
  "pool_inv s m pool live fs \<longleftrightarrow> chain m (free_list pool) fs \<and> distinct fs \<and> set fs \<inter> live = {} \<and> 0 \<notin> live \<and>
     (\<forall>p \<in> set fs \<union> live. in_kernel_page s p) \<and>
     (\<forall>k < unat (page_count (kernel_heap s)). drop_bit 12 (page_addr (kernel_heap s) k) \<noteq> 0)"

text \<open>What an allocation in the kernel leaves alone: the address space, frames that are not free
  and not referred to; and how many free frames it takes at most.\<close>

definition grown :: "kmem \<Rightarrow> kmem \<Rightarrow> u32 list \<Rightarrow> u32 list \<Rightarrow> bool" where
  "grown s t gs hs \<longleftrightarrow> cr3 t = cr3 s \<and> current_page_dir t = current_page_dir s \<and> stale t = stale s \<and> length gs \<le> length hs + 2 \<and>
     (\<forall>f. unreferenced s f \<longrightarrow> f \<notin> get_paddr ` set gs \<longrightarrow> unreferenced t f)"

lemma grown_refl: "grown s s gs gs"
  by (simp add: grown_def)

lemma kernel_alloc_page:
  assumes inv: "kernel_mem s gs" and room: "2 \<le> length gs" and r: "kernel_alloc s 1 = Inr (p, t)"
  obtains st hs where "kernel_mem t hs" "p = page_addr (kernel_heap t) st" "set hs \<subseteq> set gs"
    "allocs (kernel_heap t) = insert (st, 1) (allocs (kernel_heap s))" "(st, 1) \<notin> allocs (kernel_heap s)"
    "heap_start (kernel_heap t) = heap_start (kernel_heap s)" "page_count (kernel_heap t) = page_count (kernel_heap s)"
    "grown s t gs hs" "\<forall>k \<le> unat (page_count (kernel_heap s)). k \<noteq> st \<longrightarrow> page_use (kernel_heap t) k = page_use (kernel_heap s) k"
    "free_unmapped s (kernel_heap s) \<longrightarrow> free_unmapped t (kernel_heap t)"
proof -
  have one: "unat (1 :: u32) = 1" "(0 :: u32) < 1" by simp_all
  obtain h' where h': "heap_alloc (kernel_heap s) 1 = Inr (p, h')"
    and un: "\<forall>k < unat (1 :: u32). \<not> entry_present (page_at s (page_no p k))"
    by (rule kernel_alloc_Inr [OF inv one(2) _ r]) (use room in simp)
  have inv': "mem_inv s gs" "heap_backed s (kernel_heap s) PAGE_WRITABLE"
    using inv by (simp_all add: kernel_mem_def)
  have wf: "heap_wf (kernel_heap s)" using inv'(2) by (simp add: heap_backed_def)
  from heap_alloc_effect [OF wf one(2) h'] obtain s1 where e: "p = page_addr (kernel_heap s) s1"
    "first_fit (kernel_heap s) 1 s1" "allocs h' = insert (s1, 1) (allocs (kernel_heap s))"
    "heap_start h' = heap_start (kernel_heap s)" "page_count h' = page_count (kernel_heap s)"
    "\<forall>k \<le> unat (page_count (kernel_heap s)). k \<noteq> s1 \<longrightarrow> page_use h' k = page_use (kernel_heap s) k"
    by (auto simp: one)
  have fl: "PAGE_WRITABLE < 0x1000" by (simp add: PAGE_WRITABLE_def)
  obtain u hs ps where t: "mem_alloc s (kernel_heap s) 1 PAGE_WRITABLE = Inr (p, h', u)" "mem_inv u hs"
    "heap_backed u h' PAGE_WRITABLE" "set hs \<subseteq> set gs" "length gs \<le> length hs + 2" "mem_step s u (get_paddr ` set gs)"
    "length ps = 1" "backed u p PAGE_WRITABLE ps" "set ps \<subseteq> set gs"
    "\<forall>w. plain_page s w \<longrightarrow> (\<forall>k < 1. drop_bit 12 w \<noteq> drop_bit 12 (page_no p k)) \<longrightarrow> page_at u w = page_at s w"
    using mem_alloc_steps [OF inv' one(2) fl _ h'] un room by (auto simp: one)
  have tu: "t = u\<lparr>kernel_heap := h'\<rparr>" using r t(1) by (simp add: kernel_alloc_def)
  have "\<not> is_alloc (kernel_heap s) s1 1"
    using e(2) by (auto simp: is_alloc_def first_fit_def free_run_def)
  then have new: "(s1, 1) \<notin> allocs (kernel_heap s)" by simp
  have km: "kernel_mem t hs" using t(2,3) tu by (simp add: kernel_mem_def)
  have h: "kernel_heap t = h'" using tu by simp
  have p: "p = page_addr (kernel_heap t) s1" using e(1,4) unfolding h by (simp add: page_addr_def)
  have "unreferenced u f" if "unreferenced s f" "f \<notin> get_paddr ` set gs" for f
    by (rule unreferenced_keep [OF t(6) fl t(9,8) _ that]) (use t(10) in \<open>simp add: t(7)\<close>)
  then have "grown s t gs hs"
    using t(5) same_configD [OF mem_step_config [OF t(6)]]
    by (simp add: grown_def tu unreferenced_def table_frame_def maps_def)
  moreover have "free_unmapped t (kernel_heap t)" if f: "free_unmapped s (kernel_heap s)"
    unfolding free_unmapped_def
  proof (intro allI impI)
    fix k
    assume k: "k < unat (page_count (kernel_heap t))" "page_use (kernel_heap t) k = 0"
    have "is_alloc h' s1 1" using e(3) by (metis in_allocs insertI1)
    then have "k \<noteq> s1" using is_alloc_used k(2) h by metis
    moreover have k': "k < unat (page_count (kernel_heap s))" using k(1) e(5) by (simp add: h)
    ultimately have "page_use (kernel_heap s) k = 0" using e(6) k(2) by (simp add: h)
    then have "\<not> entry_present (page_at s (page_addr (kernel_heap s) k))" using f k' by (simp add: free_unmapped_def)
    moreover have "s1 < unat (page_count (kernel_heap s))" using e(2) by (simp add: first_fit_def)
    from page_addr_inj [OF wf k' this] \<open>k \<noteq> s1\<close>
    have "drop_bit 12 (page_addr (kernel_heap s) k) \<noteq> drop_bit 12 p" by (simp add: e(1))
    moreover have "plain_page s (page_addr (kernel_heap s) k)" using inv'(2) k' by (simp add: heap_backed_def)
    ultimately have "\<not> entry_present (page_at u (page_addr (kernel_heap s) k))" using t(10) by simp
    then show "\<not> entry_present (page_at t (page_addr (kernel_heap t) k))" using e(4) by (simp add: tu page_addr_def)
  qed
  ultimately show ?thesis
    by (intro that [OF km p t(4) _ new]) (unfold h, rule e(3), rule e(4), rule e(5), assumption, rule e(6), blast)
qed

lemma in_kernel_page_more:
  assumes "in_kernel_page s p" "allocs (kernel_heap s) \<subseteq> allocs (kernel_heap t)"
    "heap_start (kernel_heap t) = heap_start (kernel_heap s)"
  shows "in_kernel_page t p"
proof -
  from assms(1) obtain st where st: "(st, 1) \<in> allocs (kernel_heap s)"
    "drop_bit 12 p = drop_bit 12 (page_addr (kernel_heap s) st)" unfolding in_kernel_page_def by blast
  have "page_addr (kernel_heap t) st = page_addr (kernel_heap s) st" using assms(3) by (simp add: page_addr_def)
  moreover have "(st, 1) \<in> allocs (kernel_heap t)" using st(1) assms(2) by (rule set_mp [rotated])
  ultimately show ?thesis unfolding in_kernel_page_def using st(2) by metis
qed

lemma pool_create_ok:
  assumes mem: "kernel_mem s gs" "2 \<le> length gs" and inv: "pool_inv s m pool live fs"
    and r: "pool_create s m pool = Inr (proc, t, m', pool')"
  shows "proc \<notin> live \<and> proc \<noteq> 0 \<and> (\<exists>hs. kernel_mem t hs \<and> set hs \<subseteq> set gs \<and> grown s t gs hs) \<and>
    heap_start (kernel_heap t) = heap_start (kernel_heap s) \<and> page_count (kernel_heap t) = page_count (kernel_heap s) \<and>
    (\<exists>fs'. pool_inv t m' pool' (insert proc live) fs') \<and> (\<forall>p \<in> live. m' p = m p) \<and>
    (\<exists>j. \<forall>k \<le> unat (page_count (kernel_heap s)). k \<noteq> j \<longrightarrow> page_use (kernel_heap t) k = page_use (kernel_heap s) k) \<and>
    (free_unmapped s (kernel_heap s) \<longrightarrow> free_unmapped t (kernel_heap t)) \<and>
    (fs \<noteq> [] \<longrightarrow> t = s \<and> m' = m)"
proof (cases fs)
  case (Cons x xs)
  have "chain m (free_list pool) fs" "distinct fs" "set fs \<inter> live = {}"
    "\<forall>p \<in> set fs \<union> live. in_kernel_page s p"
    "\<forall>k < unat (page_count (kernel_heap s)). drop_bit 12 (page_addr (kernel_heap s) k) \<noteq> 0" "0 \<notin> live"
    using inv by (auto simp: pool_inv_def)
  moreover from this(1) Cons have x: "free_list pool = x" "x \<noteq> 0" "chain m (m x) xs" by simp_all
  moreover have "proc = x" "t = s" "m' = m" "pool' = pool\<lparr>free_list := m x\<rparr>"
    using r x by (auto simp: pool_create_def Let_def)
  ultimately have "pool_inv t m' pool' (insert proc live) xs" "proc \<notin> live" "proc \<noteq> 0"
    using Cons by (auto simp: pool_inv_def)
  then show ?thesis using mem(1) \<open>t = s\<close> \<open>m' = m\<close> grown_refl by blast
next
  case Nil
  have i: "free_list pool = 0" "\<forall>p \<in> live. in_kernel_page s p" "0 \<notin> live"
    "\<forall>k < unat (page_count (kernel_heap s)). drop_bit 12 (page_addr (kernel_heap s) k) \<noteq> 0"
    using inv Nil by (auto simp: pool_inv_def)
  have n: "unat (PAGE_SIZE div SIZEOF_Process) = 128" by (simp add: PAGE_SIZE_def SIZEOF_Process_def)
  obtain p pool1 where a: "kernel_alloc s 1 = Inr (p, t)" "pool_fill_loop 128 m pool p = (m', pool1)"
    "proc = free_list pool1" "pool' = pool1\<lparr>free_list := m' proc\<rparr>"
    using r i(1) n by (auto simp: pool_create_def Let_def split: prod.splits)
  obtain st hs where k: "kernel_mem t hs" "p = page_addr (kernel_heap t) st" "set hs \<subseteq> set gs"
    "allocs (kernel_heap t) = insert (st, 1) (allocs (kernel_heap s))" "(st, 1) \<notin> allocs (kernel_heap s)"
    "heap_start (kernel_heap t) = heap_start (kernel_heap s)" "page_count (kernel_heap t) = page_count (kernel_heap s)"
    "grown s t gs hs" "\<forall>k \<le> unat (page_count (kernel_heap s)). k \<noteq> st \<longrightarrow> page_use (kernel_heap t) k = page_use (kernel_heap s) k"
    "free_unmapped s (kernel_heap s) \<longrightarrow> free_unmapped t (kernel_heap t)"
    using kernel_alloc_page [OF mem a(1)] by blast
  have wf: "heap_wf (kernel_heap t)" using k(1) by (simp add: kernel_mem_def heap_backed_def)
  have fits: "st' < unat (page_count (kernel_heap t))" if "(st', 1) \<in> allocs (kernel_heap t)" for st'
    using that is_alloc_fits [of "kernel_heap t" st' 1] by simp
  have al: "is_page_aligned p" unfolding k(2) by (rule page_addr_aligned) (use wf in \<open>simp add: heap_wf_def\<close>)
  have stk: "(st, 1) \<in> allocs (kernel_heap t)" using k(4) by blast
  have nz: "drop_bit 12 p \<noteq> 0"
    using i(4) fits [OF stk] k(2,6,7) by (simp add: page_addr_def)
  have other: "drop_bit 12 q \<noteq> drop_bit 12 p" if q: "q \<in> live" for q
  proof
    assume eq: "drop_bit 12 q = drop_bit 12 p"
    obtain st' where st': "(st', 1) \<in> allocs (kernel_heap s)" "drop_bit 12 q = drop_bit 12 (page_addr (kernel_heap s) st')"
      using i(2) q unfolding in_kernel_page_def by blast
    have "(st', 1) \<in> allocs (kernel_heap t)" using st'(1) k(4) by blast
    from page_addr_inj [OF wf fits [OF this] fits [OF stk]] have "st' = st"
      using eq st'(2) k(2,6) by (simp add: page_addr_def)
    then show False using st'(1) k(5) by blast
  qed
  have "chain m (free_list pool) []" using i(1) by simp
  from pool_fill_loop_ok [OF al order_refl nz this _ _ a(2)]
  have f: "chain m' (free_list pool1) (map (object p) [0..<128])" "distinct (map (object p) [0..<128])"
    "\<forall>x. x \<notin> object p ` {..<128} \<longrightarrow> m' x = m x" by simp_all
  have obs: "map (object p) [0..<128] = object p 0 # map (object p) [1..<128]"
    by (subst upt_conv_Cons) simp_all
  note f' = f(1,2) [unfolded obs]
  have proc: "proc = p" "p \<noteq> 0" using f'(1) a(3) by simp_all
  have set_obs: "drop_bit 12 x = drop_bit 12 p" if "x \<in> set (map (object p) [1..<128])" for x
    using that object_page [OF al] by auto
  have inp: "in_kernel_page t x" if "drop_bit 12 x = drop_bit 12 p" for x
    using that stk k(2) unfolding in_kernel_page_def by blast
  have live': "in_kernel_page t q" if "q \<in> live" for q
    using in_kernel_page_more [of s q t] i(2) that k(4,6) by blast
  have "pool_inv t m' pool' (insert proc live) (map (object p) [1..<128])"
    unfolding pool_inv_def
  proof (intro conjI)
    show "chain m' (free_list pool') (map (object p) [1..<128])" using f'(1) proc a(4) by simp
    show "distinct (map (object p) [1..<128])" using f'(2) by simp
    show "set (map (object p) [1..<128]) \<inter> insert proc live = {}"
      using f'(2) proc set_obs other by fastforce
    show "0 \<notin> insert proc live" using proc i(3) by simp
    show "\<forall>x \<in> set (map (object p) [1..<128]) \<union> insert proc live. in_kernel_page t x"
      using set_obs inp live' proc by blast
    show "\<forall>k < unat (page_count (kernel_heap t)). drop_bit 12 (page_addr (kernel_heap t) k) \<noteq> 0"
      using i(4) k(6,7) by (simp add: page_addr_def)
  qed
  moreover have "proc \<notin> live" using other proc by blast
  moreover have "m' q = m q" if "q \<in> live" for q
  proof -
    have "q \<notin> object p ` {..<128}" using other [OF that] object_page [OF al] by auto
    then show ?thesis using f(3) by blast
  qed
  ultimately show ?thesis using k(1,3,6-10) proc Nil by blast
qed

lemma pool_destroy_ok:
  assumes "pool_inv s m pool live fs" "p \<in> live" "pool_destroy m pool p = (m', pool')"
  shows "pool_inv s m' pool' (live - {p}) (p # fs) \<and> (\<forall>q. q \<noteq> p \<longrightarrow> m' q = m q)"
proof -
  have "p \<notin> set fs" "p \<noteq> 0" using assms(1,2) by (auto simp: pool_inv_def)
  then show ?thesis using assms by (auto simp: pool_inv_def pool_destroy_def chain_update_other)
qed

subsection \<open>The pool meets the interface\<close>

definition pool_ready :: "kmem \<times> words \<times> ProcessPool \<Rightarrow> bool" where
  "pool_ready = (\<lambda>(s, m, pool). free_list pool \<noteq> 0 \<or> (\<exists>gs. kernel_mem s gs \<and> 2 \<le> length gs))"

lemma pool_create_free:
  assumes "pool_inv s m pool live (x # xs)"
  shows "pool_create s m pool = Inr (x, s, m, pool\<lparr>free_list := m x\<rparr>)"
    "pool_inv s m (pool\<lparr>free_list := m x\<rparr>) (insert x live) xs"
  using assms by (auto simp: pool_create_def pool_inv_def Let_def)

definition pool_state :: "kmem \<times> words \<times> ProcessPool \<Rightarrow> u32 set \<Rightarrow> bool" where
  "pool_state x live \<longleftrightarrow> (\<exists>fs. pool_inv (fst x) (fst (snd x)) (snd (snd x)) live fs)"

definition create :: "kmem \<times> words \<times> ProcessPool \<Rightarrow> (u32 \<times> kmem \<times> words \<times> ProcessPool) res" where
  "create x = pool_create (fst x) (fst (snd x)) (snd (snd x))"

definition destroy :: "kmem \<times> words \<times> ProcessPool \<Rightarrow> u32 \<Rightarrow> kmem \<times> words \<times> ProcessPool" where
  "destroy x p = (fst x, pool_destroy (fst (snd x)) (snd (snd x)) p)"

interpretation objects: object_pool pool_state pool_ready create destroy
proof unfold_locales
  fix x live p y
  assume a: "pool_state x live" "pool_ready x" "create x = Inr (p, y)"
  obtain s m pool where x: "x = (s, m, pool)" by (cases x)
  obtain t m' pool' where y: "y = (t, m', pool')" by (cases y)
  obtain fs where inv: "pool_inv s m pool live fs" using a(1) x by (auto simp: pool_state_def)
  have r: "pool_create s m pool = Inr (p, t, m', pool')" using a(3) x y by (simp add: create_def)
  show "p \<notin> live \<and> pool_state y (insert p live)"
  proof (cases fs)
    case Nil
    then have "free_list pool = 0" using inv by (simp add: pool_inv_def)
    then obtain gs where "kernel_mem s gs" "2 \<le> length gs" using a(2) x by (auto simp: pool_ready_def)
    from pool_create_ok [OF this inv r] show ?thesis using y by (auto simp: pool_state_def)
  next
    case (Cons z zs)
    from pool_create_free [OF inv [unfolded Cons]] r have "p = z" "pool_inv t m' pool' (insert p live) zs" by auto
    moreover have "z \<notin> live" using inv Cons by (auto simp: pool_inv_def)
    ultimately show ?thesis using y by (auto simp: pool_state_def)
  qed
next
  fix x live p
  assume a: "pool_state x live" "p \<in> live"
  obtain s m pool where x: "x = (s, m, pool)" by (cases x)
  obtain fs where inv: "pool_inv s m pool live fs" using a(1) x by (auto simp: pool_state_def)
  obtain m' pool' where d: "pool_destroy m pool p = (m', pool')" by fastforce
  from pool_destroy_ok [OF inv a(2) d]
  have i: "pool_inv s m' pool' (live - {p}) (p # fs)" by simp
  then show "pool_state (destroy x p) (live - {p})" using x d by (auto simp: pool_state_def destroy_def)
  from pool_create_free [OF i] show "\<exists>t. create (destroy x p) = Inr (p, t) \<and> pool_state t live"
    using x d a(2) by (auto simp: pool_state_def destroy_def create_def insert_absorb)
qed

subsection \<open>Properties\<close>

lemma pool_create_cases:
  assumes mem: "kernel_mem s gs" "2 \<le> length gs" and inv: "pool_inv s m pool live fs"
  shows "case pool_create s m pool of
      Inl e \<Rightarrow> e = Panic \<and> fs = [] \<and> (\<forall>k. first_fit (kernel_heap s) 1 k \<longrightarrow> entry_present (page_at s (page_addr (kernel_heap s) k)))
    | Inr (proc, t, m', pool') \<Rightarrow> proc \<notin> live \<and> proc \<noteq> 0 \<and> in_kernel_page t proc \<and> (fs \<noteq> [] \<longrightarrow> proc = hd fs \<and> t = s) \<and>
        (\<exists>hs. kernel_mem t hs) \<and> (\<exists>fs'. pool_inv t m' pool' (insert proc live) fs') \<and> (\<forall>p \<in> live. m' p = m p)"
proof (cases "pool_create s m pool")
  case (Inl e)
  have "fs = []"
  proof (cases fs)
    case (Cons x xs)
    then show ?thesis using pool_create_free(1) [of s m pool live x xs] inv Inl by simp
  qed
  moreover have one: "unat (1 :: u32) = 1" "(0 :: u32) < 1" by simp_all
  moreover have "kernel_alloc s 1 = Inl e"
    using Inl by (cases "kernel_alloc s 1") (auto simp: pool_create_def Let_def split: if_splits prod.splits)
  then have "e = Panic \<and> (\<forall>k. first_fit (kernel_heap s) 1 k \<longrightarrow> entry_present (page_at s (page_addr (kernel_heap s) k)))"
    using kernel_alloc_ok [OF mem(1) one(2)] mem(2) one by simp
  ultimately show ?thesis using Inl by simp
next
  case (Inr y)
  obtain proc t m' pool' where y: "y = (proc, t, m', pool')" by (cases y)
  note ok = pool_create_ok [OF mem inv Inr [unfolded y]]
  have "fs \<noteq> [] \<longrightarrow> proc = hd fs"
    using pool_create_free(1) [of s m pool live "hd fs" "tl fs"] inv Inr y by auto
  moreover have "in_kernel_page t proc" using ok by (auto simp: pool_inv_def)
  ultimately show ?thesis using ok Inr y by auto
qed

text \<open>
  C18: \<open>pool_create\<close> gives an object that is not in use, not null and inside a page of the
  kernel heap, does not touch the objects in use, and keeps the invariant of the pool and of
  the kernel memory; it takes a page only when no object is free, and stops only by a panic,
  when the first free page of the kernel heap is mapped or there is none. The object is the one released last, if any was, and a released object
  is not in use any more.
\<close>

theorem pool_objects_correct:
  assumes mem: "kernel_mem s gs" "2 \<le> length gs" and inv: "pool_inv s m pool live fs"
  shows "(case pool_create s m pool of
      Inl e \<Rightarrow> e = Panic \<and> fs = [] \<and> (\<forall>k. first_fit (kernel_heap s) 1 k \<longrightarrow> entry_present (page_at s (page_addr (kernel_heap s) k)))
    | Inr (proc, t, m', pool') \<Rightarrow> proc \<notin> live \<and> proc \<noteq> 0 \<and> in_kernel_page t proc \<and> (fs \<noteq> [] \<longrightarrow> proc = hd fs \<and> t = s) \<and>
        (\<exists>hs. kernel_mem t hs) \<and> (\<exists>fs'. pool_inv t m' pool' (insert proc live) fs') \<and> (\<forall>p \<in> live. m' p = m p)) \<and>
    (\<forall>p \<in> live. \<forall>m1 pool1. pool_destroy m pool p = (m1, pool1) \<longrightarrow>
      pool_inv s m1 pool1 (live - {p}) (p # fs) \<and> (\<forall>q. q \<noteq> p \<longrightarrow> m1 q = m q))"
  using pool_create_cases [OF mem inv] pool_destroy_ok [OF inv] by blast

lemma demo_pool: "pool_inv demo (\<lambda>_. 0) \<lparr>free_list = 0\<rparr> {} []"
proof -
  have "drop_bit 12 (page_addr heap_empty k) \<noteq> 0" if "k < 6" for k
  proof -
    have "unat (page_addr heap_empty k) = 0xC0400000 + 4096 * k"
      using that by (simp add: page_addr_page_no page_no_unat heap_empty_def)
    then have "drop_bit 12 (page_addr heap_empty k) \<noteq> drop_bit 12 (0 :: u32)"
      unfolding drop_bit_12_eq by simp
    then show ?thesis by simp
  qed
  moreover have "unat (page_count heap_empty) = 6" by (simp add: heap_empty_def)
  ultimately show ?thesis by (simp add: pool_inv_def demo_def)
qed

theorem pool_objects_correct_witness:
  "\<exists>proc t m' pool' fs'. pool_create demo (\<lambda>_. 0) \<lparr>free_list = 0\<rparr> = Inr (proc, t, m', pool') \<and> proc \<noteq> 0 \<and>
     in_kernel_page t proc \<and> pool_inv t m' pool' {proc} fs'"
proof -
  have h: "kernel_heap demo = heap_empty" by (simp add: demo_def)
  have "\<not> (\<forall>k. first_fit (kernel_heap demo) 1 k \<longrightarrow> entry_present (page_at demo (page_addr (kernel_heap demo) k)))"
    using demo_first_fit first_fit_unmapped [OF demo_unmapped demo_first_fit, of 0] unfolding h by auto
  then show ?thesis
    using pool_objects_correct [OF demo_kernel_mem _ demo_pool] by (fastforce split: sum.splits prod.splits)
qed

end
