(* ===== verification/Serial.thy ===== *)
theory Serial
  imports Prelude
begin

section \<open>Ports and the serial line (\<^verbatim>\<open>lib/util.s\<close>, \<^verbatim>\<open>drivers/serial/io.c\<close>)\<close>

text \<open>
  The devices answer a read of a port by a function of what was written so far, the number of
  reads so far and the port; the writes form a trace, the oldest first. A wait for a status bit
  is a partial function: a device that never sets the bit makes it undefined, which the callers
  turn into \<open>Diverges\<close>.
\<close>

unbundle bit_operations_syntax

record io =
  device :: "(u16 \<times> u8) list \<Rightarrow> nat \<Rightarrow> u16 \<Rightarrow> u8"
  reads :: nat
  outs :: "(u16 \<times> u8) list"

definition inb :: "u16 \<Rightarrow> io \<Rightarrow> u8 \<times> io" where
  "inb port s = (device s (outs s) (reads s) port, s\<lparr>reads := reads s + 1\<rparr>)"

definition outb :: "u16 \<Rightarrow> u8 \<Rightarrow> io \<Rightarrow> io" where
  "outb port data s = s\<lparr>outs := outs s @ [(port, data)]\<rparr>"

definition PORT_COM1 :: u16 where
  "PORT_COM1 = 0x3F8"

definition serial_init :: "io \<Rightarrow> io res" where
  "serial_init s =
     (let s = outb (PORT_COM1 + 1) 0x00 s;
          s = outb (PORT_COM1 + 3) 0x80 s;
          s = outb (PORT_COM1 + 0) 0x03 s;
          s = outb (PORT_COM1 + 1) 0x00 s;
          s = outb (PORT_COM1 + 3) 0x03 s;
          s = outb (PORT_COM1 + 2) 0xC7 s;
          s = outb (PORT_COM1 + 4) 0x0B s;
          s = outb (PORT_COM1 + 4) 0x1E s;
          s = outb (PORT_COM1 + 0) 0xAE s;
          (answer, s) = inb (PORT_COM1 + 0) s
      in kernel_assert (answer = 0xAE) (Inr (outb (PORT_COM1 + 4) 0x0F s)))"

definition serial_received :: "io \<Rightarrow> bool \<times> io" where
  "serial_received s = (let (b, s) = inb (PORT_COM1 + 5) s in (b AND 1 \<noteq> 0, s))"

definition is_transmit_empty :: "io \<Rightarrow> bool \<times> io" where
  "is_transmit_empty s = (let (b, s) = inb (PORT_COM1 + 5) s in (b AND 0x20 \<noteq> 0, s))"

partial_function (option) wait_until :: "(io \<Rightarrow> bool \<times> io) \<Rightarrow> io \<Rightarrow> io option" where
  "wait_until ready s = (case ready s of (b, s') \<Rightarrow> if b then Some s' else wait_until ready s')"

definition serial_read :: "io \<Rightarrow> (u8 \<times> io) res" where
  "serial_read s = (case wait_until serial_received s of
     None \<Rightarrow> Inl Diverges | Some s \<Rightarrow> Inr (inb PORT_COM1 s))"

definition serial_write :: "u8 \<Rightarrow> io \<Rightarrow> io res" where
  "serial_write data s = (case wait_until is_transmit_empty s of
     None \<Rightarrow> Inl Diverges | Some s \<Rightarrow> Inr (outb PORT_COM1 data s))"

subsection \<open>A line that becomes ready\<close>

text \<open>\<open>becomes_ready s bit\<close>: after finitely many more reads of the line status the bit is set.\<close>

definition becomes_ready :: "io \<Rightarrow> u8 \<Rightarrow> bool" where
  "becomes_ready s bits \<longleftrightarrow> (\<exists>k. device s (outs s) (reads s + k) (PORT_COM1 + 5) AND bits \<noteq> 0)"

definition line_live :: "((u16 \<times> u8) list \<Rightarrow> nat \<Rightarrow> u16 \<Rightarrow> u8) \<Rightarrow> bool" where
  "line_live d \<longleftrightarrow> (\<forall>os n. \<exists>k. d os (n + k) (PORT_COM1 + 5) AND 0x20 \<noteq> 0)"

lemma wait_until_status:
  assumes "\<And>s. ready s = (let (b, s) = inb (PORT_COM1 + 5) s in (b AND bits \<noteq> 0, s))"
    and "device s (outs s) (reads s + k) (PORT_COM1 + 5) AND bits \<noteq> 0"
  shows "\<exists>n \<le> k. wait_until ready s = Some (s\<lparr>reads := reads s + n + 1\<rparr>) \<and>
    device s (outs s) (reads s + n) (PORT_COM1 + 5) AND bits \<noteq> 0 \<and>
    (\<forall>i < n. device s (outs s) (reads s + i) (PORT_COM1 + 5) AND bits = 0)"
  using assms(2)
proof (induction k arbitrary: s)
  case 0
  then show ?case by (subst wait_until.simps) (simp add: assms(1) inb_def)
next
  case (Suc k)
  show ?case
  proof (cases "device s (outs s) (reads s) (PORT_COM1 + 5) AND bits = 0")
    case False
    then show ?thesis by (subst wait_until.simps) (auto simp: assms(1) inb_def intro!: exI [of _ 0])
  next
    case True
    let ?s = "s\<lparr>reads := reads s + 1\<rparr>"
    have "device ?s (outs ?s) (reads ?s + k) (PORT_COM1 + 5) AND bits \<noteq> 0"
      using Suc.prems by simp
    from Suc.IH [OF this] obtain n where n: "n \<le> k"
      "wait_until ready ?s = Some (?s\<lparr>reads := reads ?s + n + 1\<rparr>)"
      "device s (outs s) (reads s + Suc n) (PORT_COM1 + 5) AND bits \<noteq> 0"
      "\<forall>i < n. device s (outs s) (reads s + Suc i) (PORT_COM1 + 5) AND bits = 0"
      by auto
    have "wait_until ready s = Some (s\<lparr>reads := reads s + Suc n + 1\<rparr>)"
      using True n(2) by (subst wait_until.simps) (simp add: assms(1) inb_def)
    moreover have "\<forall>i < Suc n. device s (outs s) (reads s + i) (PORT_COM1 + 5) AND bits = 0"
      using n(4) True by (auto simp: less_Suc_eq_0_disj)
    ultimately show ?thesis using n(1,3) by (intro exI [of _ "Suc n"]) auto
  qed
qed

lemma serial_write_ready:
  assumes "becomes_ready s 0x20"
  shows "\<exists>n. serial_write b s = Inr (outb PORT_COM1 b (s\<lparr>reads := n\<rparr>))"
  using assms wait_until_status [OF is_transmit_empty_def]
  unfolding becomes_ready_def serial_write_def by fastforce

text \<open>\<^verbatim>\<open>serial_write\<close> returns if the transmitter becomes empty some time, and then
  has sent the byte, once, at the first moment the line status shows it empty;
  \<^verbatim>\<open>serial_read\<close> returns the byte that the receiver holds at the first moment the
  status shows one.\<close>

theorem serial_line_correct:
  shows "(becomes_ready s 0x20 \<longrightarrow> (\<exists>n. serial_write b s = Inr (outb PORT_COM1 b (s\<lparr>reads := reads s + n + 1\<rparr>)) \<and>
      device s (outs s) (reads s + n) (PORT_COM1 + 5) AND 0x20 \<noteq> 0 \<and>
      (\<forall>i < n. device s (outs s) (reads s + i) (PORT_COM1 + 5) AND 0x20 = 0))) \<and>
    (becomes_ready s 1 \<longrightarrow> (\<exists>n. serial_read s =
        Inr (device s (outs s) (reads s + n + 1) PORT_COM1, s\<lparr>reads := reads s + n + 2\<rparr>) \<and>
      device s (outs s) (reads s + n) (PORT_COM1 + 5) AND 1 \<noteq> 0 \<and>
      (\<forall>i < n. device s (outs s) (reads s + i) (PORT_COM1 + 5) AND 1 = 0)))"
proof (intro conjI impI)
  assume "becomes_ready s 0x20"
  then obtain k where "device s (outs s) (reads s + k) (PORT_COM1 + 5) AND 0x20 \<noteq> 0"
    by (auto simp: becomes_ready_def)
  from wait_until_status [OF is_transmit_empty_def this]
  show "\<exists>n. serial_write b s = Inr (outb PORT_COM1 b (s\<lparr>reads := reads s + n + 1\<rparr>)) \<and>
      device s (outs s) (reads s + n) (PORT_COM1 + 5) AND 0x20 \<noteq> 0 \<and>
      (\<forall>i < n. device s (outs s) (reads s + i) (PORT_COM1 + 5) AND 0x20 = 0)"
    unfolding serial_write_def by fastforce
next
  assume "becomes_ready s 1"
  then obtain k where "device s (outs s) (reads s + k) (PORT_COM1 + 5) AND 1 \<noteq> 0"
    by (auto simp: becomes_ready_def)
  from wait_until_status [OF serial_received_def this] obtain n where
    "wait_until serial_received s = Some (s\<lparr>reads := reads s + n + 1\<rparr>)"
    "device s (outs s) (reads s + n) (PORT_COM1 + 5) AND 1 \<noteq> 0"
    "\<forall>i < n. device s (outs s) (reads s + i) (PORT_COM1 + 5) AND 1 = 0" by blast
  then show "\<exists>n. serial_read s =
        Inr (device s (outs s) (reads s + n + 1) PORT_COM1, s\<lparr>reads := reads s + n + 2\<rparr>) \<and>
      device s (outs s) (reads s + n) (PORT_COM1 + 5) AND 1 \<noteq> 0 \<and>
      (\<forall>i < n. device s (outs s) (reads s + i) (PORT_COM1 + 5) AND 1 = 0)"
    by (intro exI [of _ n]) (simp add: serial_read_def inb_def)
qed

definition demo_line :: io where
  "demo_line = \<lparr>device = (\<lambda>os n p. if n = 2 then 0x21 else if p = PORT_COM1 then 65 else 0),
    reads = 0, outs = []\<rparr>"

theorem serial_line_correct_witness:
  "(\<exists>n. serial_write 7 demo_line = Inr (outb PORT_COM1 7 (demo_line\<lparr>reads := n + 1\<rparr>)))
   \<and> (\<exists>n r. serial_read demo_line = Inr (r, demo_line\<lparr>reads := n + 2\<rparr>))"
proof -
  have "becomes_ready demo_line 0x20" "becomes_ready demo_line 1"
    by (auto simp: becomes_ready_def demo_line_def intro!: exI [of _ 2])
  with serial_line_correct [of demo_line 7] show ?thesis
    by (auto simp: demo_line_def)
qed

end
