(* ===== verification/Descriptors.thy ===== *)
theory Descriptors
  imports Serial
begin

section \<open>Segment and interrupt descriptors (\<^verbatim>\<open>kernel/init.c\<close>, \<^verbatim>\<open>interrupts/interrupt.c\<close>)\<close>

text \<open>
  The 64-bit descriptors are built by shifting fields into a word. The theorems read every field
  back at the bit position the processor takes it from, and state which gates user mode may
  enter.
\<close>

unbundle bit_operations_syntax

subsection \<open>The segment table\<close>

definition make_segment_descriptor :: "u32 \<Rightarrow> u32 \<Rightarrow> u8 \<Rightarrow> u8 \<Rightarrow> u64" where
  "make_segment_descriptor base limit type flags =
     (let descriptor = 0;
          descriptor = descriptor OR ucast (drop_bit 24 base);
          descriptor = push_bit 4 descriptor;
          descriptor = descriptor OR ucast (flags AND 0xF);
          descriptor = push_bit 4 descriptor;
          descriptor = descriptor OR ucast (drop_bit 16 limit AND 0xF);
          descriptor = push_bit 8 descriptor;
          descriptor = descriptor OR ucast type;
          descriptor = push_bit 24 descriptor;
          descriptor = descriptor OR ucast (base AND 0xFFFFFF);
          descriptor = push_bit 16 descriptor;
          descriptor = descriptor OR ucast (limit AND 0xFFFF)
      in descriptor)"

text \<open>The enumerations, with the values of their members.\<close>

datatype GdtGranularity = gdtg_Page32 | gdtg_Page16 | gdtg_Byte32 | gdtg_Byte16

fun granularity :: "GdtGranularity \<Rightarrow> u8" where
  "granularity gdtg_Page32 = 12"
| "granularity gdtg_Page16 = 8"
| "granularity gdtg_Byte32 = 4"
| "granularity gdtg_Byte16 = 0"

datatype GdtPrivilegeType = gdtpt_KernelSystem | gdtpt_KernelCodeData | gdtpt_UserSystem | gdtpt_UserCodeData

fun privilege :: "GdtPrivilegeType \<Rightarrow> u8" where
  "privilege gdtpt_KernelSystem = 8"
| "privilege gdtpt_KernelCodeData = 9"
| "privilege gdtpt_UserSystem = 14"
| "privilege gdtpt_UserCodeData = 15"

datatype GdtSegmentType =
    gdtseg_RO | gdtseg_ROA | gdtseg_RW | gdtseg_RWA | gdtseg_ROE
  | gdtseg_ROEA | gdtseg_RWE | gdtseg_RWEA | gdtseg_X | gdtseg_XA
  | gdtseg_XR | gdtseg_XRA | gdtseg_XC | gdtseg_XCA | gdtseg_XRC
  | gdtseg_XRCA

fun segment_type :: "GdtSegmentType \<Rightarrow> u8" where
  "segment_type gdtseg_RO = 0"
| "segment_type gdtseg_ROA = 1"
| "segment_type gdtseg_RW = 2"
| "segment_type gdtseg_RWA = 3"
| "segment_type gdtseg_ROE = 4"
| "segment_type gdtseg_ROEA = 5"
| "segment_type gdtseg_RWE = 6"
| "segment_type gdtseg_RWEA = 7"
| "segment_type gdtseg_X = 8"
| "segment_type gdtseg_XA = 9"
| "segment_type gdtseg_XR = 10"
| "segment_type gdtseg_XRA = 11"
| "segment_type gdtseg_XC = 12"
| "segment_type gdtseg_XCA = 13"
| "segment_type gdtseg_XRC = 14"
| "segment_type gdtseg_XRCA = 15"

datatype GdtSystemType =
    gdtsys_Tss16A | gdtsys_Ldt | gdtsys_Tss16B | gdtsys_Call16 | gdtsys_Task
  | gdtsys_Int16 | gdtsys_Trap16 | gdtsys_Tss32A | gdtsys_Tss32B | gdtsys_Call32
  | gdtsys_Int32 | gdtsys_Trap32

fun system_type :: "GdtSystemType \<Rightarrow> u8" where
  "system_type gdtsys_Tss16A = 1"
| "system_type gdtsys_Ldt = 2"
| "system_type gdtsys_Tss16B = 3"
| "system_type gdtsys_Call16 = 4"
| "system_type gdtsys_Task = 5"
| "system_type gdtsys_Int16 = 6"
| "system_type gdtsys_Trap16 = 7"
| "system_type gdtsys_Tss32A = 9"
| "system_type gdtsys_Tss32B = 11"
| "system_type gdtsys_Call32 = 12"
| "system_type gdtsys_Int32 = 14"
| "system_type gdtsys_Trap32 = 15"

definition TSS_SIZE :: u32 where "TSS_SIZE = 104"

definition SEGMENT :: "u8 \<Rightarrow> u8 \<Rightarrow> u64" where
  "SEGMENT type flags = make_segment_descriptor 0 0xFFFFFFFF type flags"

text \<open>The table that \<^verbatim>\<open>load_gdt\<close> loads; the address of the task state segment is a
  parameter.\<close>

definition init_gdt :: "u32 \<Rightarrow> u64 list" where
  "init_gdt initial_tss =
     (let gdt = replicate 128 (make_segment_descriptor 0 0 0 0);
          gdt = gdt[1 := SEGMENT (push_bit 4 (privilege gdtpt_KernelCodeData) OR segment_type gdtseg_XR) (granularity gdtg_Page32)];
          gdt = gdt[2 := SEGMENT (push_bit 4 (privilege gdtpt_KernelCodeData) OR segment_type gdtseg_RW) (granularity gdtg_Page32)];
          gdt = gdt[3 := SEGMENT (push_bit 4 (privilege gdtpt_UserCodeData) OR segment_type gdtseg_XR) (granularity gdtg_Page32)];
          gdt = gdt[4 := SEGMENT (push_bit 4 (privilege gdtpt_UserCodeData) OR segment_type gdtseg_RW) (granularity gdtg_Page32)];
          gdt = gdt[5 := make_segment_descriptor initial_tss (TSS_SIZE - 1)
                    (push_bit 4 (privilege gdtpt_KernelSystem) OR system_type gdtsys_Tss32A)
                    (granularity gdtg_Byte16)]
      in gdt)"

record Tss =
  tss_prev_task_link :: u16
  tss_reserved1 :: u16
  tss_esp0 :: u32
  tss_ss0 :: u16
  tss_reserved2 :: u16
  tss_esp1 :: u32
  tss_ss1 :: u16
  tss_reserved3 :: u16
  tss_esp2 :: u32
  tss_ss2 :: u16
  tss_reserved4 :: u16
  tss_page_directory :: u32
  tss_eip :: u32
  tss_eflags :: u32
  tss_eax :: u32
  tss_ecx :: u32
  tss_edx :: u32
  tss_ebx :: u32
  tss_esp :: u32
  tss_ebp :: u32
  tss_esi :: u32
  tss_edi :: u32
  tss_es :: u16
  tss_reserved5 :: u16
  tss_cs :: u16
  tss_reserved6 :: u16
  tss_ss :: u16
  tss_reserved7 :: u16
  tss_ds :: u16
  tss_reserved8 :: u16
  tss_fs :: u16
  tss_reserved9 :: u16
  tss_gs :: u16
  tss_reserved10 :: u16
  tss_ldt :: u16
  tss_reserved11 :: u16
  tss_trap :: u16
  tss_io_base :: u16
  tss_ssp :: u32

definition zero_tss :: Tss where
  "zero_tss =
     \<lparr>tss_prev_task_link = 0, tss_reserved1 = 0, tss_esp0 = 0, tss_ss0 = 0, tss_reserved2 = 0,
      tss_esp1 = 0, tss_ss1 = 0, tss_reserved3 = 0, tss_esp2 = 0, tss_ss2 = 0,
      tss_reserved4 = 0, tss_page_directory = 0, tss_eip = 0, tss_eflags = 0, tss_eax = 0,
      tss_ecx = 0, tss_edx = 0, tss_ebx = 0, tss_esp = 0, tss_ebp = 0,
      tss_esi = 0, tss_edi = 0, tss_es = 0, tss_reserved5 = 0, tss_cs = 0,
      tss_reserved6 = 0, tss_ss = 0, tss_reserved7 = 0, tss_ds = 0, tss_reserved8 = 0,
      tss_fs = 0, tss_reserved9 = 0, tss_gs = 0, tss_reserved10 = 0, tss_ldt = 0,
      tss_reserved11 = 0, tss_trap = 0, tss_io_base = 0, tss_ssp = 0\<rparr>"

text \<open>The segment is cleared and three fields are set; \<open>kernel_stack\<close> is the top of the
  kernel's stack. The load of the task register is assembly.\<close>

definition init_tss :: "u32 \<Rightarrow> Tss" where
  "init_tss kernel_stack =
     (let tss = zero_tss;
          tss = tss\<lparr>tss_ss0 := 0x10\<rparr>;
          tss = tss\<lparr>tss_esp0 := kernel_stack\<rparr>
      in tss\<lparr>tss_io_base := ucast TSS_SIZE\<rparr>)"

subsection \<open>The interrupt table\<close>

datatype DescriptorPrivilegeLevel = dpl_User | dpl_Kernel

fun dpl :: "DescriptorPrivilegeLevel \<Rightarrow> u8" where
  "dpl dpl_User = 3"
| "dpl dpl_Kernel = 0"

datatype GateType = idtgt_Task | idtgt_Int | idtgt_Trap

fun gate_type :: "GateType \<Rightarrow> u8" where
  "gate_type idtgt_Task = 5"
| "gate_type idtgt_Int = 14"
| "gate_type idtgt_Trap = 15"

definition make_gate_descriptor :: "u32 \<Rightarrow> u8 \<Rightarrow> u8 \<Rightarrow> u64" where
  "make_gate_descriptor handler type privilege_level =
     (let descriptor = 0;
          pdpl0 = 8 OR push_bit 1 (privilege_level AND 3);
          descriptor = descriptor OR ucast (drop_bit 16 handler);
          descriptor = push_bit 4 descriptor;
          descriptor = descriptor OR ucast pdpl0;
          descriptor = push_bit 4 descriptor;
          descriptor = descriptor OR ucast (type AND 0xF);
          descriptor = push_bit 24 descriptor;
          descriptor = descriptor OR 8;
          descriptor = push_bit 16 descriptor;
          descriptor = descriptor OR ucast (handler AND 0xFFFF)
      in descriptor)"

definition PIC1_COMMAND :: u16 where "PIC1_COMMAND = 0x20"
definition PIC2_COMMAND :: u16 where "PIC2_COMMAND = 0xA0"
definition PIC1_DATA :: u16 where "PIC1_DATA = 0x21"
definition PIC2_DATA :: u16 where "PIC2_DATA = 0xA1"
definition PIC_EOI :: u8 where "PIC_EOI = 0x20"

definition init_pic :: "io \<Rightarrow> io" where
  "init_pic s =
     (let s = outb PIC1_COMMAND 0x11 s;
          s = outb PIC2_COMMAND 0x11 s;
          s = outb PIC1_DATA 0x20 s;
          s = outb PIC2_DATA 0x28 s;
          s = outb PIC1_DATA 0x04 s;
          s = outb PIC2_DATA 0x02 s;
          s = outb PIC1_DATA 0x01 s;
          s = outb PIC2_DATA 0x01 s;
          s = outb PIC1_DATA 0xff s
      in outb PIC2_DATA 0xff s)"

definition pic_mask :: "u8 \<Rightarrow> bool \<Rightarrow> io \<Rightarrow> io" where
  "pic_mask irq enable s =
     (let (port, irq) = (if irq < 8 then (PIC1_DATA, irq) else (PIC2_DATA, irq - 8));
          (b, s) = inb port s;
          value = (if enable then (ucast b :: u16) OR push_bit (unat irq) 1
                   else ucast b AND NOT (push_bit (unat irq) 1))
      in outb port (ucast value) s)"

definition pic_eoi :: "u8 \<Rightarrow> io \<Rightarrow> io" where
  "pic_eoi irq s =
     (let s = (if irq > 8 then outb PIC2_COMMAND PIC_EOI s else s)
      in outb PIC1_COMMAND PIC_EOI s)"

text \<open>The table that \<^verbatim>\<open>load_idt\<close> loads. The entry points are code in assembly.\<close>

definition init_idt :: "(nat \<Rightarrow> u32) \<Rightarrow> u32 \<Rightarrow> io \<Rightarrow> u64 list \<times> io" where
  "init_idt cpu_interrupt_table syscall_wrapper s =
     (let idt = replicate 256 0;
          s = init_pic s;
          idt = fold (\<lambda>i idt. idt[i := make_gate_descriptor (cpu_interrupt_table i) (gate_type idtgt_Trap) (dpl dpl_Kernel)])
                  [0..<32] idt;
          idt = fold (\<lambda>i idt. idt[i := make_gate_descriptor (cpu_interrupt_table i) (gate_type idtgt_Int) (dpl dpl_Kernel)])
                  [32..<48] idt;
          idt = idt[0x80 := make_gate_descriptor syscall_wrapper (gate_type idtgt_Int) (dpl dpl_User)]
      in (idt, s))"

subsection \<open>The fields the processor reads\<close>

definition field :: "nat \<Rightarrow> nat \<Rightarrow> u64 \<Rightarrow> u64" where
  "field lo n d = take_bit n (drop_bit lo d)"

definition gate_offset :: "u64 \<Rightarrow> u64" where
  "gate_offset d = field 0 16 d OR push_bit 16 (field 48 16 d)"

definition segment_base :: "u64 \<Rightarrow> u64" where
  "segment_base d = field 16 24 d OR push_bit 24 (field 56 8 d)"

definition segment_limit :: "u64 \<Rightarrow> u64" where
  "segment_limit d = field 0 16 d OR push_bit 16 (field 48 4 d)"

lemma low_masks:
  "(0xF :: 'a :: len word) = mask 4" "(3 :: 'a word) = mask 2" "(0xFFFF :: 'a word) = mask 16"
  "(0xFFFFFF :: 'a word) = mask 24"
  by (simp_all add: mask_eq_exp_minus_1)

lemma bit_constants:
  "bit (8 :: u64) n \<longleftrightarrow> n = 3" "bit (8 :: u8) n \<longleftrightarrow> n = 3" "bit (524288 :: u64) n \<longleftrightarrow> n = 19"
  "bit (8 :: int) n \<longleftrightarrow> n = 3" "bit (524288 :: int) n \<longleftrightarrow> n = 19"
proof -
  have e: "(8 :: u64) = 2 ^ 3" "(8 :: u8) = 2 ^ 3" "(524288 :: u64) = 2 ^ 19"
    "(8 :: int) = 2 ^ 3" "(524288 :: int) = 2 ^ 19" by simp_all
  show "bit (8 :: u64) n \<longleftrightarrow> n = 3" "bit (8 :: u8) n \<longleftrightarrow> n = 3" "bit (524288 :: u64) n \<longleftrightarrow> n = 19"
    "bit (8 :: int) n \<longleftrightarrow> n = 3" "bit (524288 :: int) n \<longleftrightarrow> n = 19"
    unfolding e bit_exp_iff by auto
qed

lemma bit_twice: "bit (a * 2) n \<longleftrightarrow> 0 < n \<and> n < LENGTH('a) \<and> bit a (n - 1)" for a :: "'a :: len word"
  using bit_double_iff [of a n] by (auto simp: mult.commute possible_bit_word)

lemma bit_gate:
  "bit (make_gate_descriptor h t p) n \<longleftrightarrow>
     (if n < 16 then bit h n
      else if n < 40 then n = 19
      else if n < 44 then bit t (n - 40)
      else if n < 48 then n = 47 \<or> (45 \<le> n \<and> n < 47 \<and> bit p (n - 45))
      else n < 64 \<and> bit h (n - 32))"
  by (auto simp: make_gate_descriptor_def Let_def bit_simps low_masks bit_constants bit_twice
      dest: bit_imp_le_length)

lemma bit_segment:
  "bit (make_segment_descriptor b l t f) n \<longleftrightarrow>
     (if n < 16 then bit l n
      else if n < 40 then bit b (n - 16)
      else if n < 48 then bit t (n - 40)
      else if n < 52 then bit l (n - 32)
      else if n < 56 then bit f (n - 52)
      else n < 64 \<and> bit b (n - 32))"
  by (auto simp: make_segment_descriptor_def Let_def bit_simps low_masks
      dest: bit_imp_le_length)

lemma bit_field: "bit (field lo k d) n \<longleftrightarrow> n < k \<and> bit d (lo + n)"
  by (auto simp: field_def bit_simps)

lemma gate_fields:
  "gate_offset (make_gate_descriptor h t p) = ucast h"
  "field 16 16 (make_gate_descriptor h t p) = 8"
  "field 40 4 (make_gate_descriptor h t p) = ucast (take_bit 4 t)"
  "field 45 2 (make_gate_descriptor h t p) = ucast (take_bit 2 p)"
  "bit (make_gate_descriptor h t p) 47"
  "field 44 1 (make_gate_descriptor h t p) = 0"
proof -
  show "gate_offset (make_gate_descriptor h t p) = ucast h"
    by (rule bit_word_eqI)
      (auto simp: gate_offset_def bit_simps bit_field bit_gate dest: bit_imp_le_length)
  show "field 16 16 (make_gate_descriptor h t p) = 8"
    by (rule bit_word_eqI) (auto simp: bit_field bit_gate bit_constants)
  show "field 40 4 (make_gate_descriptor h t p) = ucast (take_bit 4 t)"
    by (rule bit_word_eqI) (auto simp: bit_field bit_gate bit_simps)
  show "field 45 2 (make_gate_descriptor h t p) = ucast (take_bit 2 p)"
    by (rule bit_word_eqI) (auto simp: bit_field bit_gate bit_simps)
  show "bit (make_gate_descriptor h t p) 47" by (simp add: bit_gate)
  show "field 44 1 (make_gate_descriptor h t p) = 0"
    by (rule bit_word_eqI) (auto simp: bit_field bit_gate)
qed

lemma segment_fields:
  "segment_base (make_segment_descriptor b l t f) = ucast b"
  "segment_limit (make_segment_descriptor b l t f) = ucast (take_bit 20 l)"
  "field 40 8 (make_segment_descriptor b l t f) = ucast t"
  "field 52 4 (make_segment_descriptor b l t f) = ucast (take_bit 4 f)"
proof -
  show "segment_base (make_segment_descriptor b l t f) = ucast b"
    by (rule bit_word_eqI)
      (auto simp: segment_base_def bit_simps bit_field bit_segment dest: bit_imp_le_length)
  show "segment_limit (make_segment_descriptor b l t f) = ucast (take_bit 20 l)"
    by (rule bit_word_eqI)
      (auto simp: segment_limit_def bit_simps bit_field bit_segment dest: bit_imp_le_length)
  show "field 40 8 (make_segment_descriptor b l t f) = ucast t"
    by (rule bit_word_eqI) (auto simp: bit_field bit_segment bit_simps dest: bit_imp_le_length)
  show "field 52 4 (make_segment_descriptor b l t f) = ucast (take_bit 4 f)"
    by (rule bit_word_eqI) (auto simp: bit_field bit_segment bit_simps)
qed

text \<open>Every field of the two kinds of descriptors is where the processor reads it: the
  handler's address, the kernel's code segment, the type and the privilege level of a gate, and
  the base, the 20-bit limit, the type and the flags of a segment.\<close>

theorem descriptor_fields:
  "gate_offset (make_gate_descriptor h t p) = ucast h \<and>
   field 16 16 (make_gate_descriptor h t p) = 8 \<and>
   field 40 4 (make_gate_descriptor h t p) = ucast (take_bit 4 t) \<and>
   field 45 2 (make_gate_descriptor h t p) = ucast (take_bit 2 p) \<and>
   bit (make_gate_descriptor h t p) 47 \<and>
   segment_base (make_segment_descriptor b l ty f) = ucast b \<and>
   segment_limit (make_segment_descriptor b l ty f) = ucast (take_bit 20 l) \<and>
   field 40 8 (make_segment_descriptor b l ty f) = ucast ty \<and>
   field 52 4 (make_segment_descriptor b l ty f) = ucast (take_bit 4 f)"
  by (intro conjI gate_fields segment_fields)

subsection \<open>The interrupt table\<close>

lemma fold_update:
  "length (fold (\<lambda>i xs. xs[i := f i]) [a..<b] xs) = length xs"
  "b \<le> length xs \<Longrightarrow> j < length xs \<Longrightarrow>
     fold (\<lambda>i xs. xs[i := f i]) [a..<b] xs ! j = (if a \<le> j \<and> j < b then f j else xs ! j)"
proof -
  show l: "length (fold (\<lambda>i xs. xs[i := f i]) [a..<b] xs) = length xs" for b
    by (induction b) auto
  show "fold (\<lambda>i xs. xs[i := f i]) [a..<b] xs ! j = (if a \<le> j \<and> j < b then f j else xs ! j)"
    if "b \<le> length xs" "j < length xs"
    using that by (induction b) (auto simp: l nth_list_update less_Suc_eq)
qed

lemma idt_entries:
  assumes "j < 256"
  shows "fst (init_idt tbl sys s) ! j =
    (if j = 0x80 then make_gate_descriptor sys (gate_type idtgt_Int) (dpl dpl_User)
     else if j < 32 then make_gate_descriptor (tbl j) (gate_type idtgt_Trap) (dpl dpl_Kernel)
     else if j < 48 then make_gate_descriptor (tbl j) (gate_type idtgt_Int) (dpl dpl_Kernel) else 0)"
  using assms by (simp add: init_idt_def Let_def fold_update nth_list_update del: upt_rec_numeral)

text \<open>After the interrupt table is built, every exception and device interrupt enters its
  own wrapper and only from the kernel's privilege level; 0x80 is the only vector that user mode
  can invoke, and it leads to the system call wrapper through a gate that disables interrupts.
  All other vectors are not present.\<close>

theorem idt_entry_points:
  assumes "v < 256"
  shows "let d = fst (init_idt tbl sys s) ! v in
    (bit d 47 \<longleftrightarrow> v < 48 \<or> v = 0x80) \<and>
    (bit d 47 \<and> field 45 2 d = 3 \<longleftrightarrow> v = 0x80) \<and>
    (v < 48 \<longrightarrow> gate_offset d = ucast (tbl v) \<and> field 45 2 d = 0 \<and> field 40 4 d = (if v < 32 then 15 else 14)) \<and>
    (v = 0x80 \<longrightarrow> gate_offset d = ucast sys \<and> field 40 4 d = 14)"
proof -
  have z: "\<not> bit (0 :: u64) 47" by simp
  have c: "ucast (take_bit 2 (dpl dpl_User)) = (3 :: u64)" "ucast (take_bit 2 (dpl dpl_Kernel)) = (0 :: u64)"
    "ucast (take_bit 4 (gate_type idtgt_Int)) = (14 :: u64)" "ucast (take_bit 4 (gate_type idtgt_Trap)) = (15 :: u64)"
    by simp_all
  show ?thesis
    unfolding idt_entries [OF assms] Let_def by (auto simp: gate_fields c)
qed

theorem idt_entry_points_witness:
  "field 45 2 (fst (init_idt (\<lambda>_. 0x1000) 0x2000 demo_line) ! 0x80) = 3"
  using idt_entry_points [of "0x80" "\<lambda>_. 0x1000" "0x2000" demo_line] by (simp add: Let_def)

end
