(* ===== verification/Strings.thy ===== *)
theory Strings
  imports Memory
begin

section \<open>Formatted output (\<^verbatim>\<open>lib/strings.c\<close>)\<close>

text \<open>
  The formatter works on the kernel's own memory, a byte array indexed by address; 0 is the
  null pointer. The variable arguments are the double words on the caller's stack, a double
  takes two of them. The arithmetic of doubles is the processor's: its operations are
  parameters, as are the addresses of the literals and of the local buffer of
  \<^verbatim>\<open>snprint_float\<close>. The local digit buffers are lists with their sizes, and a write
  behind one of them is \<open>OutOfBounds\<close>. A scan of \<open>2 ^ 32\<close> bytes without a zero byte has
  seen every address and never ends.
\<close>

unbundle bit_operations_syntax

abbreviation ch :: "char \<Rightarrow> u8" where
  "ch c \<equiv> of_char c"

record senv =
  null_str :: u32
  nan_str :: u32
  float_temp :: u32
  f_nan :: "u64 \<Rightarrow> bool"
  f_inf :: "u64 \<Rightarrow> bool"
  f_negative :: "u64 \<Rightarrow> bool"
  f_neg :: "u64 \<Rightarrow> u64"
  f_to_u32 :: "u64 \<Rightarrow> u32"
  f_of_u32 :: "u32 \<Rightarrow> u64"
  f_minus :: "u64 \<Rightarrow> u64 \<Rightarrow> u64"
  f_times10 :: "u64 \<Rightarrow> u64"
  f_plus_half :: "u64 \<Rightarrow> u64"

subsection \<open>Text and numbers\<close>

definition HEX_DIGITS :: "u8 list" where
  "HEX_DIGITS = map of_char ''0123456789ABCDEF''"

primrec snprint_string_loop :: "nat \<Rightarrow> bytes \<Rightarrow> u32 \<Rightarrow> u32 \<Rightarrow> u32 \<Rightarrow> u32 \<Rightarrow> (u32 \<times> bytes) res" where
  "snprint_string_loop 0 m s len n buffer = Inl Diverges"
| "snprint_string_loop (Suc k) m s len n buffer =
     (if m s \<noteq> 0 then
        snprint_string_loop k (if buffer \<noteq> 0 \<and> len < n then m(buffer + len := m s) else m)
          (s + 1) (len + 1) n buffer
      else Inr (len, m))"

definition snprint_string :: "senv \<Rightarrow> u32 \<Rightarrow> u32 \<Rightarrow> u32 \<Rightarrow> bytes \<Rightarrow> (u32 \<times> bytes) res" where
  "snprint_string E str n buffer m =
     snprint_string_loop (2 ^ 32) m (if str = 0 then null_str E else str) 0 n buffer"

text \<open>The loop that copies the digits from the last to the first.\<close>

primrec copy_back :: "nat \<Rightarrow> u8 list \<Rightarrow> u32 \<Rightarrow> u32 \<Rightarrow> u32 \<Rightarrow> bytes \<Rightarrow> bytes" where
  "copy_back 0 temp copied n buffer m = m"
| "copy_back (Suc i) temp copied n buffer m =
     (if copied < n then copy_back i temp (copied + 1) n buffer (m(buffer + copied := temp ! i)) else m)"

function hex_loop :: "u32 \<Rightarrow> u8 list \<Rightarrow> u8 list res" where
  "hex_loop val temp =
     (if val > 0 then
        if length temp < 8 then hex_loop (drop_bit 4 val) (temp @ [HEX_DIGITS ! unat (val AND 0xF)])
        else Inl OutOfBounds
      else Inr temp)"
  by pat_completeness auto
termination by (relation "measure (\<lambda>(val, temp). 8 - length temp)") auto

definition snprint_hex :: "u32 \<Rightarrow> u32 \<Rightarrow> u32 \<Rightarrow> bytes \<Rightarrow> (u32 \<times> bytes) res" where
  "snprint_hex val n buffer m =
     (if val = 0 then Inr (1, if buffer \<noteq> 0 \<and> n > 0 then m(buffer := ch CHR ''0'') else m)
      else bind_res (hex_loop val []) (\<lambda>temp.
        Inr (word_of_nat (length temp),
             if buffer \<noteq> 0 then copy_back (length temp) temp 0 n buffer m else m)))"

definition snprint_ptr :: "u32 \<Rightarrow> u32 \<Rightarrow> u32 \<Rightarrow> bytes \<Rightarrow> (u32 \<times> bytes) res" where
  "snprint_ptr ptr n buffer m =
     bind_res (snprint_hex ptr (NOT 0) 0 m) (\<lambda>(hex_len, m).
     let full_len = 2 + hex_len
     in if buffer \<noteq> 0 then
          (let (written, m) = (if 0 < n then (1, m(buffer := ch CHR ''0'')) else (0, m));
               (written, m) = (if written < n then (written + 1, m(buffer + written := ch CHR ''x''))
                               else (written, m))
           in if n > written then
                bind_res (snprint_hex ptr (n - written) (buffer + written) m) (\<lambda>(_, m). Inr (full_len, m))
              else Inr (full_len, m))
        else Inr (full_len, m))"

function bin_loop :: "u32 \<Rightarrow> u8 list \<Rightarrow> u8 list res" where
  "bin_loop val temp =
     (if val > 0 then
        if length temp < 32 then bin_loop (drop_bit 1 val) (temp @ [ucast (val AND 1) + ch CHR ''0''])
        else Inl OutOfBounds
      else Inr temp)"
  by pat_completeness auto
termination by (relation "measure (\<lambda>(val, temp). 32 - length temp)") auto

definition snprint_bin :: "u32 \<Rightarrow> u32 \<Rightarrow> u32 \<Rightarrow> bytes \<Rightarrow> (u32 \<times> bytes) res" where
  "snprint_bin val n buffer m =
     (if val = 0 then Inr (1, if buffer \<noteq> 0 \<and> n > 0 then m(buffer := ch CHR ''0'') else m)
      else bind_res (bin_loop val []) (\<lambda>temp.
        Inr (word_of_nat (length temp),
             if buffer \<noteq> 0 then copy_back (length temp) temp 0 n buffer m else m)))"

function dec_loop :: "u32 \<Rightarrow> u8 list \<Rightarrow> u8 list res" where
  "dec_loop val temp =
     (if val > 0 then
        if length temp < 12 then dec_loop (val div 10) (temp @ [ucast (val mod 10) + ch CHR ''0''])
        else Inl OutOfBounds
      else Inr temp)"
  by pat_completeness auto
termination by (relation "measure (\<lambda>(val, temp). 12 - length temp)") auto

text \<open>The negation of the smallest number wraps around, as compilers for this target do.\<close>

definition snprint_int :: "u32 \<Rightarrow> bool \<Rightarrow> u32 \<Rightarrow> u32 \<Rightarrow> bytes \<Rightarrow> (u32 \<times> bytes) res" where
  "snprint_int val is_signed n buffer m =
     (let is_negative = (is_signed \<and> sint val < 0);
          val = (if is_negative then - val else val)
      in bind_res (if val = 0 then Inr [ch CHR ''0''] else dec_loop val []) (\<lambda>temp.
         bind_res (if is_negative then
                     if length temp < 12 then Inr (temp @ [ch CHR ''-'']) else Inl OutOfBounds
                   else Inr temp) (\<lambda>temp.
         Inr (word_of_nat (length temp),
              if buffer \<noteq> 0 then copy_back (length temp) temp 0 n buffer m else m))))"

subsection \<open>Doubles\<close>

primrec times10_loop :: "nat \<Rightarrow> senv \<Rightarrow> u64 \<Rightarrow> u64" where
  "times10_loop 0 E x = x"
| "times10_loop (Suc n) E x = times10_loop n E (f_times10 E x)"

definition snprint_float :: "senv \<Rightarrow> u64 \<Rightarrow> u32 \<Rightarrow> u32 \<Rightarrow> u32 \<Rightarrow> bytes \<Rightarrow> (u32 \<times> bytes) res" where
  "snprint_float E val precision n buffer m =
     (let temp_buf = float_temp E; p = temp_buf
      in if f_nan E val then snprint_string E (nan_str E) n buffer m
         else if f_inf E val then
           (let (p, m) = (if f_negative E val then (p + 1, m(p := ch CHR ''-'')) else (p, m));
                m = m(p := ch CHR ''i'', p + 1 := ch CHR ''n'', p + 2 := ch CHR ''f'', p + 3 := 0)
            in snprint_string E temp_buf n buffer m)
         else
           (let (p, m, val) = (if f_negative E val then (p + 1, m(p := ch CHR ''-''), f_neg E val)
                               else (p, m, val));
                integer_part = f_to_u32 E val
            in bind_res (snprint_int integer_part False (40 - (p - temp_buf)) p m) (\<lambda>(len, m).
               let p = p + len
               in bind_res
                    (if precision > 0 then
                       (let m = m(p := ch CHR ''.''); p = p + 1;
                            frac_part = f_minus E val (f_of_u32 E integer_part);
                            frac_part = times10_loop (unat precision) E frac_part
                        in bind_res (snprint_int (f_to_u32 E (f_plus_half E frac_part)) False
                                       (40 - (p - temp_buf)) p m) (\<lambda>(len, m). Inr (p + len, m)))
                     else Inr (p, m)) (\<lambda>(p, m).
                  snprint_string E temp_buf n buffer (m(p := 0))))))"

subsection \<open>The format string\<close>

definition va_arg :: "u32 list \<Rightarrow> (u32 \<times> u32 list) res" where
  "va_arg args = (case args of [] \<Rightarrow> Inl OutOfBounds | x # xs \<Rightarrow> Inr (x, xs))"

definition va_arg64 :: "u32 list \<Rightarrow> (u64 \<times> u32 list) res" where
  "va_arg64 args = bind_res (va_arg args) (\<lambda>(lo, args). bind_res (va_arg args) (\<lambda>(hi, args).
     Inr (ucast lo OR push_bit 32 (ucast hi), args)))"

primrec precision_loop :: "nat \<Rightarrow> bytes \<Rightarrow> u32 \<Rightarrow> u32 \<Rightarrow> (u32 \<times> u32) res" where
  "precision_loop 0 m fmt precision = Inl Diverges"
| "precision_loop (Suc k) m fmt precision =
     (if ch CHR ''0'' \<le> m (fmt + 1) \<and> m (fmt + 1) \<le> ch CHR ''9'' then
        precision_loop k m (fmt + 1) (precision * 10 + (ucast (m (fmt + 1)) - ucast (ch CHR ''0'')))
      else Inr (fmt, precision))"

text \<open>
  What follows a \<^verbatim>\<open>%\<close>: the length of the segment, the memory, the format pointer and the
  arguments that remain. The argument of \<^verbatim>\<open>%c\<close> is taken only when there is room for it.
\<close>

definition directive :: "senv \<Rightarrow> bytes \<Rightarrow> u32 \<Rightarrow> u32 list \<Rightarrow> u32 \<Rightarrow> u32 \<Rightarrow>
    (u32 \<times> bytes \<times> u32 \<times> u32 list) res" where
  "directive E m fmt args remaining pos =
     (let with_arg = (\<lambda>print. bind_res (va_arg args) (\<lambda>(v, args).
            bind_res (print v) (\<lambda>(len, m). Inr (len, m, fmt, args))))
      in if m fmt = ch CHR ''u'' then with_arg (\<lambda>v. snprint_int v False remaining pos m)
         else if m fmt = ch CHR ''i'' then with_arg (\<lambda>v. snprint_int v True remaining pos m)
         else if m fmt = ch CHR ''f'' then
           bind_res (va_arg64 args) (\<lambda>(v, args).
             bind_res (snprint_float E v 6 remaining pos m) (\<lambda>(len, m). Inr (len, m, fmt, args)))
         else if m fmt = ch CHR ''x'' then with_arg (\<lambda>v. snprint_hex v remaining pos m)
         else if m fmt = ch CHR ''p'' then with_arg (\<lambda>v. snprint_ptr v remaining pos m)
         else if m fmt = ch CHR ''b'' then with_arg (\<lambda>v. snprint_bin v remaining pos m)
         else if m fmt = ch CHR ''s'' then with_arg (\<lambda>v. snprint_string E v remaining pos m)
         else if m fmt = ch CHR ''c'' then
           (if pos \<noteq> 0 then with_arg (\<lambda>v. Inr (1, m(pos := ucast v))) else Inr (1, m, fmt, args))
         else if m fmt = ch CHR ''%'' then
           Inr (1, if pos \<noteq> 0 then m(pos := ch CHR ''%'') else m, fmt, args)
         else if m fmt = ch CHR ''.'' then
           bind_res (precision_loop (2 ^ 32) m fmt 0) (\<lambda>(fmt, precision).
             if m (fmt + 1) = ch CHR ''f'' then
               bind_res (va_arg64 args) (\<lambda>(v, args).
                 bind_res (snprint_float E v precision remaining pos m) (\<lambda>(len, m).
                   Inr (len, m, fmt + 1, args)))
             else Inr (0, m, fmt, args))
         else Inr (0, m, fmt, args))"

primrec vsnprintf_loop :: "nat \<Rightarrow> senv \<Rightarrow> u32 \<Rightarrow> u32 \<Rightarrow> bytes \<Rightarrow> u32 \<Rightarrow> u32 list \<Rightarrow> u32 \<Rightarrow>
    (u32 \<times> bytes) res" where
  "vsnprintf_loop 0 E buffer limit m fmt args current_length = Inl Diverges"
| "vsnprintf_loop (Suc k) E buffer limit m fmt args current_length =
     (if m fmt \<noteq> 0 then
        (let remaining = (if current_length > limit then 0 else limit - current_length);
             current_pos = (if buffer \<noteq> 0 then buffer + current_length else 0);
             current_pos = (if current_length \<ge> limit then 0 else current_pos)
         in bind_res
              (if m fmt = ch CHR ''%'' then directive E m (fmt + 1) args remaining current_pos
               else Inr (1, if current_pos \<noteq> 0 then m(current_pos := m fmt) else m, fmt, args))
              (\<lambda>(segment_len, m, fmt, args).
                 vsnprintf_loop k E buffer limit m (fmt + 1) args (current_length + segment_len)))
      else Inr (current_length, m))"

definition vsnprintf :: "senv \<Rightarrow> bytes \<Rightarrow> u32 \<Rightarrow> u32 \<Rightarrow> u32 \<Rightarrow> u32 list \<Rightarrow> (u32 \<times> bytes) res" where
  "vsnprintf E m buffer n fmt args =
     (let limit = (if n \<noteq> 0 then n - 1 else 0)
      in bind_res (vsnprintf_loop (2 ^ 32) E buffer limit m fmt args 0) (\<lambda>(current_length, m).
           Inr (current_length,
                if buffer \<noteq> 0 \<and> n > 0 then
                  m(buffer + (if current_length < limit then current_length else limit) := 0)
                else m)))"

definition snprintf :: "senv \<Rightarrow> bytes \<Rightarrow> u32 \<Rightarrow> u32 \<Rightarrow> u32 \<Rightarrow> u32 list \<Rightarrow> (u32 \<times> bytes) res" where
  "snprintf E m buffer n fmt args = vsnprintf E m buffer n fmt args"

subsection \<open>Comparison and length\<close>

primrec strcmp_loop :: "nat \<Rightarrow> bytes \<Rightarrow> u32 \<Rightarrow> u32 \<Rightarrow> u32 res" where
  "strcmp_loop 0 m s1 s2 = Inl Diverges"
| "strcmp_loop (Suc k) m s1 s2 =
     (if m s1 \<noteq> 0 \<and> m s2 \<noteq> 0 \<and> m s1 = m s2 then strcmp_loop k m (s1 + 1) (s2 + 1)
      else Inr (ucast (m s1) - ucast (m s2)))"

definition strcmp :: "bytes \<Rightarrow> u32 \<Rightarrow> u32 \<Rightarrow> u32 res" where
  "strcmp m s1 s2 = strcmp_loop (2 ^ 32) m s1 s2"

primrec strlen_loop :: "nat \<Rightarrow> bytes \<Rightarrow> u32 \<Rightarrow> u32 \<Rightarrow> u32 res" where
  "strlen_loop 0 m str len = Inl Diverges"
| "strlen_loop (Suc k) m str len = (if m str \<noteq> 0 then strlen_loop k m (str + 1) (len + 1) else Inr len)"

definition strlen :: "bytes \<Rightarrow> u32 \<Rightarrow> u32 res" where
  "strlen m str = strlen_loop (2 ^ 32) m str 0"

end
