(* ===== verification/Terminal.thy ===== *)
theory Terminal
  imports Strings Serial
begin

section \<open>The text terminal (\<^verbatim>\<open>terminal/terminal.c\<close>)\<close>

text \<open>
  The terminal writes cells of a character and a colour into the frame buffer, a list of
  \<open>width * height\<close> cells; an access behind it is \<open>OutOfBounds\<close>. The cursor position goes to
  the ports of the display controller. The second half relates the frame buffer to a log of
  lines of which the screen shows the last ones.
\<close>

unbundle bit_operations_syntax

record Terminal =
  row :: u32
  col :: u32
  width :: u32
  height :: u32
  color :: u8
  buffer :: "u16 list"

datatype VgaColor =
    VGA_COLOR_BLACK | VGA_COLOR_BLUE | VGA_COLOR_GREEN | VGA_COLOR_CYAN | VGA_COLOR_RED
  | VGA_COLOR_MAGENTA | VGA_COLOR_BROWN | VGA_COLOR_LIGHT_GREY | VGA_COLOR_DARK_GREY | VGA_COLOR_LIGHT_BLUE
  | VGA_COLOR_LIGHT_GREEN | VGA_COLOR_LIGHT_CYAN | VGA_COLOR_LIGHT_RED | VGA_COLOR_LIGHT_MAGENTA | VGA_COLOR_LIGHT_BROWN
  | VGA_COLOR_WHITE

fun vga :: "VgaColor \<Rightarrow> u8" where
  "vga VGA_COLOR_BLACK = 0"
| "vga VGA_COLOR_BLUE = 1"
| "vga VGA_COLOR_GREEN = 2"
| "vga VGA_COLOR_CYAN = 3"
| "vga VGA_COLOR_RED = 4"
| "vga VGA_COLOR_MAGENTA = 5"
| "vga VGA_COLOR_BROWN = 6"
| "vga VGA_COLOR_LIGHT_GREY = 7"
| "vga VGA_COLOR_DARK_GREY = 8"
| "vga VGA_COLOR_LIGHT_BLUE = 9"
| "vga VGA_COLOR_LIGHT_GREEN = 10"
| "vga VGA_COLOR_LIGHT_CYAN = 11"
| "vga VGA_COLOR_LIGHT_RED = 12"
| "vga VGA_COLOR_LIGHT_MAGENTA = 13"
| "vga VGA_COLOR_LIGHT_BROWN = 14"
| "vga VGA_COLOR_WHITE = 15"

definition vga_color_create :: "VgaColor \<Rightarrow> VgaColor \<Rightarrow> u8" where
  "vga_color_create fg bg = push_bit 4 (vga bg) OR vga fg"

definition vga_entry_create :: "u8 \<Rightarrow> u8 \<Rightarrow> u16" where
  "vga_entry_create c colour = push_bit 8 (ucast colour) OR ucast c"

definition update_cursor :: "Terminal \<Rightarrow> io \<Rightarrow> io" where
  "update_cursor t s =
     (let pos = row t * width t + col t;
          s = outb 0x3D4 0x0F s;
          s = outb 0x3D5 (ucast (pos AND 0xFF)) s;
          s = outb 0x3D4 0x0E s
      in outb 0x3D5 (ucast (drop_bit 8 pos AND 0xFF)) s)"

definition put_cell :: "u32 \<Rightarrow> u16 \<Rightarrow> Terminal \<Rightarrow> Terminal res" where
  "put_cell i v t = (if unat i < length (buffer t) then Inr (t\<lparr>buffer := (buffer t)[unat i := v]\<rparr>)
                     else Inl OutOfBounds)"

definition get_cell :: "u32 \<Rightarrow> Terminal \<Rightarrow> u16 res" where
  "get_cell i t = (if unat i < length (buffer t) then Inr (buffer t ! unat i) else Inl OutOfBounds)"

primrec fold_res :: "('a \<Rightarrow> 's \<Rightarrow> 's res) \<Rightarrow> 'a list \<Rightarrow> 's \<Rightarrow> 's res" where
  "fold_res f [] s = Inr s"
| "fold_res f (x # xs) s = bind_res (f x s) (fold_res f xs)"

text \<open>The counters of a loop from \<open>a\<close> below \<open>b\<close>.\<close>

definition range_u32 :: "nat \<Rightarrow> u32 \<Rightarrow> u32 list" where
  "range_u32 a b = map word_of_nat [a..<unat b]"

definition terminal_scroll :: "Terminal \<Rightarrow> io \<Rightarrow> (Terminal \<times> io) res" where
  "terminal_scroll t s =
     bind_res (fold_res (\<lambda>r t. fold_res (\<lambda>c t.
         bind_res (get_cell (r * width t + c) t) (\<lambda>v. put_cell ((r - 1) * width t + c) v t))
           (range_u32 0 (width t)) t) (range_u32 1 (height t)) t) (\<lambda>t.
     bind_res (fold_res (\<lambda>c t.
         put_cell ((height t - 1) * width t + c) (vga_entry_create (ch CHR '' '') (color t)) t)
           (range_u32 0 (width t)) t) (\<lambda>t.
     Inr (t, update_cursor t s)))"

definition terminal_backspace :: "Terminal \<Rightarrow> io \<Rightarrow> (Terminal \<times> io) res" where
  "terminal_backspace t s =
     (if col t = 0 then Inr (t, s)
      else
        let t = t\<lparr>col := col t - 1\<rparr>;
            i = row t * width t + col t
        in bind_res (put_cell i (vga_entry_create (ch CHR '' '') (color t)) t) (\<lambda>t.
             Inr (t, update_cursor t s)))"

text \<open>Shared by the two places where the row advances.\<close>

definition next_row :: "Terminal \<Rightarrow> io \<Rightarrow> (Terminal \<times> io) res" where
  "next_row t s =
     (let t = t\<lparr>col := 0\<rparr>;
          t = t\<lparr>row := row t + 1\<rparr>
      in if row t = height t then
           let t = t\<lparr>row := row t - 1\<rparr> in terminal_scroll t s
         else Inr (t, s))"

definition terminal_putchar :: "u8 \<Rightarrow> Terminal \<times> io \<Rightarrow> (Terminal \<times> io) res" where
  "terminal_putchar c = (\<lambda>(t, s).
     if c = ch CHR ''\<newline>'' then
       bind_res (next_row t s) (\<lambda>(t, s). Inr (t, update_cursor t s))
     else if c = 9 then
       (let t = t\<lparr>col := col t + 4\<rparr> in Inr (t, update_cursor t s))
     else if c = 8 then terminal_backspace t s
     else
       bind_res (if col t \<ge> width t then next_row t s else Inr (t, s)) (\<lambda>(t, s).
         let i = row t * width t + col t
         in bind_res (put_cell i (vga_entry_create c (color t)) t) (\<lambda>t.
              let t = t\<lparr>col := col t + 1\<rparr> in Inr (t, update_cursor t s))))"

primrec terminal_print_loop :: "nat \<Rightarrow> bytes \<Rightarrow> u32 \<Rightarrow> Terminal \<times> io \<Rightarrow> (Terminal \<times> io) res" where
  "terminal_print_loop 0 m str x = Inl Diverges"
| "terminal_print_loop (Suc k) m str x =
     (if m str \<noteq> 0 then bind_res (terminal_putchar (m str) x) (terminal_print_loop k m (str + 1))
      else Inr x)"

definition terminal_print_string :: "bytes \<Rightarrow> u32 \<Rightarrow> Terminal \<times> io \<Rightarrow> (Terminal \<times> io) res" where
  "terminal_print_string m str x = terminal_print_loop (2 ^ 32) m str x"

definition TEMP_BUFFER_LENGTH :: u32 where
  "TEMP_BUFFER_LENGTH = 8192"

text \<open>\<open>temp_buffer\<close> is the address of the kernel's buffer for formatted output.\<close>

definition terminal_printf :: "senv \<Rightarrow> u32 \<Rightarrow> u32 \<Rightarrow> u32 list \<Rightarrow> bytes \<times> Terminal \<times> io \<Rightarrow>
    (bytes \<times> Terminal \<times> io) res" where
  "terminal_printf E temp_buffer fmt args = (\<lambda>(m, x).
     bind_res (vsnprintf E m temp_buffer TEMP_BUFFER_LENGTH fmt args) (\<lambda>(_, m).
     bind_res (terminal_print_string m temp_buffer x) (\<lambda>x. Inr (m, x))))"

primrec print_slice_loop :: "nat \<Rightarrow> bytes \<Rightarrow> u32 \<Rightarrow> Terminal \<times> io \<Rightarrow> (Terminal \<times> io) res" where
  "print_slice_loop 0 m s x = Inr x"
| "print_slice_loop (Suc k) m s x = bind_res (terminal_putchar (m s) x) (print_slice_loop k m (s + 1))"

definition syscall_print_slice_string :: "bytes \<Rightarrow> u32 \<Rightarrow> u32 \<Rightarrow> Terminal \<times> io \<Rightarrow>
    ((u32 \<times> u32) \<times> Terminal \<times> io) res" where
  "syscall_print_slice_string m s n x =
     bind_res (print_slice_loop (unat n) m s x) (\<lambda>x. Inr ((0, 0), x))"

text \<open>\<open>percent_s\<close> is the address of the literal \<^verbatim>\<open>"%s"\<close>.\<close>

definition syscall_print_string :: "senv \<Rightarrow> u32 \<Rightarrow> u32 \<Rightarrow> u32 \<Rightarrow> bytes \<times> Terminal \<times> io \<Rightarrow>
    ((u32 \<times> u32) \<times> bytes \<times> Terminal \<times> io) res" where
  "syscall_print_string E temp_buffer percent_s s x =
     bind_res (terminal_printf E temp_buffer percent_s [s] x) (\<lambda>x. Inr ((0, 0), x))"

text \<open>The frame buffer that the boot loader provides; the two system calls are registered by
  \<open>Kernel.kernel_init\<close>.\<close>

definition terminal_init :: "u32 \<Rightarrow> u32 \<Rightarrow> u16 list \<Rightarrow> Terminal res" where
  "terminal_init w h buf =
     (let t = \<lparr>row = 0, col = 0, width = w, height = h,
               color = vga_color_create VGA_COLOR_LIGHT_GREY VGA_COLOR_BLACK, buffer = buf\<rparr>
      in fold_res (\<lambda>i t. put_cell i (vga_entry_create (ch CHR '' '') (color t)) t)
           (range_u32 0 (width t * height t)) t)"

subsection \<open>The loops over cells\<close>

lemma fold_res_append: "fold_res f (xs @ ys) s = bind_res (fold_res f xs s) (fold_res f ys)"
  by (induction xs arbitrary: s) (simp_all add: bind_res_assoc [symmetric], simp add: bind_res_def
      split: sum.splits)

definition term_ok :: "Terminal \<Rightarrow> bool" where
  "term_ok t \<longleftrightarrow> 0 < unat (width t) \<and> 0 < unat (height t) \<and>
     unat (width t) * unat (height t) < 4294967296 \<and>
     length (buffer t) = unat (width t) * unat (height t)"

definition blank :: "Terminal \<Rightarrow> u16" where
  "blank t = vga_entry_create (ch CHR '' '') (color t)"

lemma unat_cell:
  assumes "unat w * h < 4294967296" "r < h" "c < unat w"
  shows "unat (word_of_nat r * w + word_of_nat c :: u32) = r * unat w + c"
    and "r * unat w + c < unat w * h"
proof -
  have "Suc r * unat w \<le> h * unat w" using assms(2) by (intro mult_le_mono) auto
  then show less: "r * unat w + c < unat w * h" using assms(3) by (simp add: mult.commute)
  have "r < 4294967296"
  proof -
    have "r * 1 \<le> r * unat w" using assms(3) by (intro mult_le_mono) auto
    then show ?thesis using less assms(1) by linarith
  qed
  then have r: "unat (word_of_nat r :: u32) = r" by (simp add: unat_of_nat_u32)
  have c: "unat (word_of_nat c :: u32) = c"
    using assms(3) unat_lt_u32 [of w] by (simp add: unat_of_nat_u32 del: unat_lt_u32)
  have "unat (word_of_nat r * w) = r * unat w"
    using r less assms(1) by (simp add: unat_word_ariths)
  then show "unat (word_of_nat r * w + word_of_nat c :: u32) = r * unat w + c"
    using c less assms(1) by (subst unat_add_u32) simp_all
qed

text \<open>A loop whose rounds succeed and change only the frame buffer is a fold over it.\<close>

lemma fold_res_buffer:
  assumes "\<And>i b. i \<in> set xs \<Longrightarrow> length b = L \<Longrightarrow>
      F (word_of_nat i :: u32) (t\<lparr>buffer := b\<rparr>) = Inr (t\<lparr>buffer := G i b\<rparr>) \<and> length (G i b) = L"
    and "length b = L"
  shows "fold_res F (map word_of_nat xs) (t\<lparr>buffer := b\<rparr>) = Inr (t\<lparr>buffer := fold G xs b\<rparr>) \<and>
    length (fold G xs b) = L"
  using assms
proof (induction xs arbitrary: b)
  case (Cons i xs)
  from Cons.prems(1) [of i b] Cons.prems(2)
  have "F (word_of_nat i) (t\<lparr>buffer := b\<rparr>) = Inr (t\<lparr>buffer := G i b\<rparr>)" "length (G i b) = L" by auto
  with Cons.IH [of "G i b"] Cons.prems(1) show ?case by simp
qed simp

lemma fold_fill:
  "length (fold (\<lambda>i b. b[k + i := v]) [0..<n] b) = length b \<and>
   (\<forall>j < length b. fold (\<lambda>i b. b[k + i := v]) [0..<n] b ! j = (if k \<le> j \<and> j < k + n then v else b ! j))"
  by (induction n) (auto simp: nth_list_update less_Suc_eq)

lemma fold_move_row:
  "r > 0 \<Longrightarrow> length (fold (\<lambda>c b. b[(r - 1) * w + c := b ! (r * w + c)]) [0..<n] b) = length b \<and>
   (n \<le> w \<longrightarrow> r * w + n \<le> length b \<longrightarrow>
    (\<forall>j < length b. fold (\<lambda>c b. b[(r - 1) * w + c := b ! (r * w + c)]) [0..<n] b ! j =
      (if (r - 1) * w \<le> j \<and> j < (r - 1) * w + n then b ! (j + w) else b ! j)))"
proof (induction n)
  case (Suc n)
  have e: "(r - 1) * w + w = r * w" using Suc.prems by (cases r) auto
  show ?case using Suc e by (auto simp: nth_list_update add.commute add.left_commute)
qed auto

lemma fold_scroll:
  "length (fold (\<lambda>r. fold (\<lambda>c b. b[(r - 1) * w + c := b ! (r * w + c)]) [0..<w]) [1..<Suc n] b) = length b \<and>
   (Suc n * w \<le> length b \<longrightarrow>
    (\<forall>j < length b. fold (\<lambda>r. fold (\<lambda>c b. b[(r - 1) * w + c := b ! (r * w + c)]) [0..<w]) [1..<Suc n] b ! j =
      (if j < n * w then b ! (j + w) else b ! j)))"
proof (induction n)
  case (Suc n)
  let ?b = "fold (\<lambda>r. fold (\<lambda>c b. b[(r - 1) * w + c := b ! (r * w + c)]) [0..<w]) [1..<Suc n] b"
  have l: "length ?b = length b" using Suc.IH by blast
  have "length (fold (\<lambda>c b. b[n * w + c := b ! (Suc n * w + c)]) [0..<w] B) = length B \<and>
      (Suc n * w + w \<le> length B \<longrightarrow> (\<forall>j < length B.
        fold (\<lambda>c b. b[n * w + c := b ! (Suc n * w + c)]) [0..<w] B ! j =
        (if n * w \<le> j \<and> j < n * w + w then B ! (j + w) else B ! j)))" for B :: "'a list"
    using fold_move_row [of "Suc n" w w B] by simp
  from this [of ?b, unfolded l]
  have move: "length (fold (\<lambda>c b. b[n * w + c := b ! (Suc n * w + c)]) [0..<w] ?b) = length b"
    "Suc n * w + w \<le> length b \<Longrightarrow> j < length b \<Longrightarrow>
      fold (\<lambda>c b. b[n * w + c := b ! (Suc n * w + c)]) [0..<w] ?b ! j =
      (if n * w \<le> j \<and> j < n * w + w then ?b ! (j + w) else ?b ! j)" for j
    by blast+
  have step: "fold (\<lambda>r. fold (\<lambda>c b. b[(r - 1) * w + c := b ! (r * w + c)]) [0..<w]) [1..<Suc (Suc n)] b =
      fold (\<lambda>c b. b[n * w + c := b ! (Suc n * w + c)]) [0..<w] ?b" by simp
  have "fold (\<lambda>c b. b[n * w + c := b ! (Suc n * w + c)]) [0..<w] ?b ! j =
      (if j < Suc n * w then b ! (j + w) else b ! j)"
    if "Suc (Suc n) * w \<le> length b" "j < length b" for j
  proof -
    have a: "Suc n * w + w \<le> length b" "Suc n * w \<le> length b" using that(1) by simp_all
    have IH: "?b ! i = (if i < n * w then b ! (i + w) else b ! i)" if "i < length b" for i
      using Suc.IH a(2) that by blast
    show ?thesis
      using move(2) [OF a(1) that(2)] IH [OF that(2)] IH [of "j + w"] a(1)
      by (auto simp: not_less)
  qed
  then show ?case unfolding step using move(1) by blast
qed simp

lemma terminal_scroll_ok:
  assumes "term_ok t"
  shows "terminal_scroll t s =
    (let t' = t\<lparr>buffer := drop (unat (width t)) (buffer t) @ replicate (unat (width t)) (blank t)\<rparr>
     in Inr (t', update_cursor t' s))"
proof -
  let ?w = "unat (width t)" and ?h = "unat (height t)"
  let ?L = "?w * ?h"
  have ok: "0 < ?w" "0 < ?h" "?L < 4294967296" "length (buffer t) = ?L"
    using assms by (simp_all add: term_ok_def)
  obtain n where n: "?h = Suc n" using ok(2) by (cases ?h) auto
  note cell = unat_cell [OF ok(3)]
  have r1: "word_of_nat r - 1 = (word_of_nat (r - 1) :: u32)" if "r > 0" for r
    using that by (cases r) auto
  let ?Gr = "\<lambda>r. fold (\<lambda>c (b :: u16 list). b[(r - 1) * ?w + c := b ! (r * ?w + c)]) [0..<?w]"
  have cellstep: "bind_res (get_cell (word_of_nat r * width t + word_of_nat c) (t\<lparr>buffer := b\<rparr>)) (\<lambda>v.
        put_cell ((word_of_nat r - 1) * width t + word_of_nat c) v (t\<lparr>buffer := b\<rparr>)) =
      Inr (t\<lparr>buffer := b[(r - 1) * ?w + c := b ! (r * ?w + c)]\<rparr>)"
    if "0 < r" "r < ?h" "c < ?w" "length b = ?L" for r c b
  proof -
    have "r - 1 < ?h" using that(2) by simp
    from cell [OF this that(3)] cell [OF that(2,3)] that(4) show ?thesis
      by (simp add: get_cell_def put_cell_def r1 [OF that(1)] del: of_nat_diff)
  qed
  have rowstep: "fold_res (\<lambda>c t. bind_res (get_cell (word_of_nat r * width t + c) t) (\<lambda>v.
          put_cell ((word_of_nat r - 1) * width t + c) v t)) (range_u32 0 (width t)) (t\<lparr>buffer := b\<rparr>) =
      Inr (t\<lparr>buffer := ?Gr r b\<rparr>) \<and> length (?Gr r b) = ?L"
    if "0 < r" "r < ?h" "length b = ?L" for r b
    unfolding range_u32_def
    by (rule fold_res_buffer [OF _ that(3)]) (use cellstep that in auto)
  have move: "fold_res (\<lambda>r t. fold_res (\<lambda>c t. bind_res (get_cell (r * width t + c) t) (\<lambda>v.
          put_cell ((r - 1) * width t + c) v t)) (range_u32 0 (width t)) t)
        (range_u32 1 (height t)) (t\<lparr>buffer := buffer t\<rparr>) =
      Inr (t\<lparr>buffer := fold ?Gr [1..<?h] (buffer t)\<rparr>) \<and> length (fold ?Gr [1..<?h] (buffer t)) = ?L"
    unfolding range_u32_def [of 1]
    by (rule fold_res_buffer [OF _ ok(4)]) (use rowstep in auto)
  let ?b = "fold ?Gr [1..<?h] (buffer t)"
  have b: "?b ! j = (if j < n * ?w then buffer t ! (j + ?w) else buffer t ! j)" if "j < ?L" for j
    using fold_scroll [of ?w n "buffer t"] that ok(4) n by (simp add: mult.commute)
  let ?F = "fold (\<lambda>i b. b[n * ?w + i := blank t]) [0..<?w] ?b"
  have h1: "height t - 1 = word_of_nat n"
    using n unat_minus_1_u32 [of "height t"] unat_lt_u32 [of "height t"]
    by (simp add: word_unat_eq_iff unat_of_nat_u32 del: unat_lt_u32)
  have fill: "fold_res (\<lambda>c t. put_cell ((height t - 1) * width t + c) (vga_entry_create (ch CHR '' '') (color t)) t)
        (range_u32 0 (width t)) (t\<lparr>buffer := ?b\<rparr>) = Inr (t\<lparr>buffer := ?F\<rparr>) \<and> length ?F = ?L"
    unfolding range_u32_def
  proof (rule fold_res_buffer)
    fix i and b :: "u16 list"
    assume "i \<in> set [0..<?w]" "length b = ?L"
    with cell [of n i] n show "put_cell ((height (t\<lparr>buffer := b\<rparr>) - 1) * width (t\<lparr>buffer := b\<rparr>) + word_of_nat i)
        (vga_entry_create (ch CHR '' '') (color (t\<lparr>buffer := b\<rparr>))) (t\<lparr>buffer := b\<rparr>) =
      Inr (t\<lparr>buffer := b[n * ?w + i := blank t]\<rparr>) \<and> length (b[n * ?w + i := blank t]) = ?L"
      by (simp add: put_cell_def h1 blank_def)
  qed (use move in blast)
  have "?F = drop ?w (buffer t) @ replicate ?w (blank t)"
  proof (rule nth_equalityI)
    show l: "length ?F = length (drop ?w (buffer t) @ replicate ?w (blank t))"
      using fill ok(4) n by simp
    fix j
    assume "j < length ?F"
    then have j: "j < ?L" using fill by simp
    have "length ?b = ?L" using move by blast
    with fold_fill [of "n * ?w" "blank t" ?w ?b] j
    have "?F ! j = (if n * ?w \<le> j \<and> j < n * ?w + ?w then blank t else ?b ! j)" by simp
    then show "?F ! j = (drop ?w (buffer t) @ replicate ?w (blank t)) ! j"
      using b [OF j] j ok(4) n by (auto simp: nth_append not_less add.commute mult.commute)
  qed
  moreover have "t\<lparr>buffer := buffer t\<rparr> = t" by simp
  ultimately show ?thesis
    using move fill by (simp add: terminal_scroll_def Let_def)
qed

end
