(* ===== verification/StringsProps.thy ===== *)
theory StringsProps
  imports Strings
begin

section \<open>What the formatter prints\<close>

text \<open>
  The abstract side is a list of pieces: each has the characters it stands for in the format
  string, the arguments it takes and the text it prints. The theorem is that
  \<^verbatim>\<open>vsnprintf\<close> prints the text of the pieces, cut off at the size of the buffer.
\<close>

unbundle bit_operations_syntax

declare hex_loop.simps [simp del] bin_loop.simps [simp del] dec_loop.simps [simp del]

subsection \<open>Writing a run of bytes\<close>

definition write_bytes :: "bytes \<Rightarrow> u32 \<Rightarrow> u8 list \<Rightarrow> bytes" where
  "write_bytes m b xs = (\<lambda>a. if unat (a - b) < length xs then xs ! unat (a - b) else m a)"

lemma write_bytes_Nil [simp]: "write_bytes m b [] = m"
  by (simp add: write_bytes_def)

lemma unat_diff_add:
  fixes a b :: u32
  assumes "l < 4294967296"
  shows "unat (a - (b + word_of_nat l)) =
    (if l \<le> unat (a - b) then unat (a - b) - l else unat (a - b) + 4294967296 - l)"
proof -
  have l: "unat (word_of_nat l :: u32) = l" using assms by (simp add: unat_of_nat_u32)
  have "a - (b + word_of_nat l) = (a - b) - word_of_nat l" by simp
  then have "unat (a - (b + word_of_nat l)) = unat ((a - b) - word_of_nat l)" by (rule arg_cong)
  also have "\<dots> = (if l \<le> unat (a - b) then unat (a - b) - l else unat (a - b) + 4294967296 - l)"
    using l unat_sub_if_size [of "a - b" "word_of_nat l :: u32"] by (simp add: word_size del: diff_diff_eq)
  finally show ?thesis .
qed

lemma write_bytes_append:
  assumes "length xs + length ys \<le> 4294967296"
  shows "write_bytes (write_bytes m b xs) (b + word_of_nat (length xs)) ys = write_bytes m b (xs @ ys)"
proof (cases "length xs < 4294967296")
  case True
  show ?thesis
    using assms unat_lt_u32 by (auto simp: write_bytes_def fun_eq_iff unat_diff_add [OF True] nth_append)
next
  case False
  with assms have "length ys = 0" by linarith
  then show ?thesis by simp
qed

lemma write_bytes_snoc:
  assumes "length xs < 4294967296"
  shows "(write_bytes m b xs)(b + word_of_nat (length xs) := x) = write_bytes m b (xs @ [x])"
proof -
  have "m'(c := x) = write_bytes m' c [x]" for m' :: bytes and c
    by (auto simp: write_bytes_def fun_eq_iff unat_eq_0)
  then show ?thesis using assms write_bytes_append [of xs "[x]" m b] by simp
qed

lemma write_bytes_first: "m(b := x) = write_bytes m b [x]"
  using write_bytes_snoc [of "[]" m b x] by simp

lemma write_bytes_outside: "length xs \<le> unat (a - b) \<Longrightarrow> write_bytes m b xs a = m a"
  by (simp add: write_bytes_def)

text \<open>The contract of a printing routine: the full length, and at most \<open>n\<close> bytes written.\<close>

definition emit :: "u32 \<Rightarrow> u32 \<Rightarrow> bytes \<Rightarrow> u8 list \<Rightarrow> (u32 \<times> bytes) res" where
  "emit n buffer m txt =
     Inr (word_of_nat (length txt), if buffer = 0 then m else write_bytes m buffer (take (unat n) txt))"

subsection \<open>Digits\<close>

fun digits :: "nat \<Rightarrow> nat \<Rightarrow> nat list" where
  "digits b n = (if b \<le> 1 \<or> n < b then [n] else digits b (n div b) @ [n mod b])"

declare digits.simps [simp del]

definition value_of :: "nat \<Rightarrow> nat list \<Rightarrow> nat" where
  "value_of b ds = foldl (\<lambda>a d. a * b + d) 0 ds"

lemma value_of_digits: "value_of b (digits b n) = n"
proof (induction b n rule: digits.induct)
  case (1 b n)
  then show ?case by (subst digits.simps) (auto simp: value_of_def)
qed

lemma digits_less: "2 \<le> b \<Longrightarrow> d \<in> set (digits b n) \<Longrightarrow> d < b"
proof (induction b n rule: digits.induct)
  case (1 b n)
  then show ?case by (subst (asm) (2) digits.simps) (auto split: if_splits)
qed

lemma length_digits:
  "2 \<le> b \<Longrightarrow> n < b ^ k \<Longrightarrow> 0 < k \<Longrightarrow> length (digits b n) \<le> k"
proof (induction b n arbitrary: k rule: digits.induct)
  case (1 b n)
  show ?case
  proof (cases "n < b")
    case True
    with 1(4) show ?thesis by (subst digits.simps) simp
  next
    case False
    with 1(2,3,4) obtain j where j: "k = Suc j" "0 < j"
      by (cases k) (auto, metis gr0I power_0 mult_1_right)
    with 1(3) have "n div b < b ^ j" by (simp add: less_mult_imp_div_less mult.commute)
    with 1(1) [of j] 1(2) False j have "length (digits b (n div b)) \<le> j" by simp
    then show ?thesis using False 1(2) j by (subst digits.simps) simp
  qed
qed

lemma digits_nonempty [simp]: "digits b n \<noteq> []"
  by (subst digits.simps) simp

text \<open>The three digit loops have one shape.\<close>

function digit_loop :: "nat \<Rightarrow> nat \<Rightarrow> (nat \<Rightarrow> u8) \<Rightarrow> nat \<Rightarrow> u8 list \<Rightarrow> u8 list res" where
  "digit_loop b cap f v temp =
     (if v > 0 then
        if length temp < cap then digit_loop b cap f (v div b) (temp @ [f (v mod b)])
        else Inl OutOfBounds
      else Inr temp)"
  by pat_completeness auto
termination by (relation "measure (\<lambda>(b, cap, f, v, temp). cap - length temp)") auto

declare digit_loop.simps [simp del]

lemma digit_loop_ok:
  assumes "2 \<le> b" "v < b ^ (cap - length temp)" "length temp \<le> cap"
  shows "digit_loop b cap f v temp =
    Inr (temp @ map f (rev (if v = 0 then [] else digits b v)))"
  using assms
proof (induction b cap f v temp rule: digit_loop.induct)
  case (1 b cap f v temp)
  show ?case
  proof (cases "v = 0")
    case True
    then show ?thesis by (simp add: digit_loop.simps)
  next
    case False
    have lt: "length temp < cap"
      using 1(3,4) False by (cases "length temp = cap") auto
    then have e: "cap - length temp = Suc (cap - Suc (length temp))" by simp
    have q: "v div b < b ^ (cap - Suc (length temp))"
      using 1(3) unfolding e by (simp add: less_mult_imp_div_less mult.commute)
    have d: "digits b v = (if v div b = 0 then [] else digits b (v div b)) @ [v mod b]"
      using 1(2) by (subst digits.simps) (auto simp: div_eq_0_iff)
    show ?thesis
      using 1(1) False lt 1(2) q by (subst digit_loop.simps) (simp add: d)
  qed
qed

lemma digit_loop_eqs:
  "hex_loop v temp = digit_loop 16 8 (\<lambda>d. HEX_DIGITS ! d) (unat v) temp"
  "bin_loop v temp = digit_loop 2 32 (\<lambda>d. word_of_nat d + ch CHR ''0'') (unat v) temp"
  "dec_loop v temp = digit_loop 10 12 (\<lambda>d. word_of_nat d + ch CHR ''0'') (unat v) temp"
proof -
  have pos: "v > 0 \<longleftrightarrow> unat v > 0" for v :: u32 by (simp add: word_less_nat_alt)
  have and15: "unat (v AND 0xF) = unat v mod 16" "v AND 1 = v mod 2" for v :: u32
  proof -
    have "v AND 0xF = take_bit 4 v" by (simp add: take_bit_eq_mask mask_eq_exp_minus_1)
    then show "unat (v AND 0xF) = unat v mod 16" by (simp add: take_bit_eq_mod unat_mod)
    show "v AND 1 = v mod 2" by (simp add: and_one_eq)
  qed
  have uc: "(ucast (v mod w) :: u8) = word_of_nat (unat v mod unat w)" for v w :: u32
    by (simp add: unat_mod [symmetric])
  show "hex_loop v temp = digit_loop 16 8 (\<lambda>d. HEX_DIGITS ! d) (unat v) temp"
    by (induction v temp rule: hex_loop.induct)
      (subst hex_loop.simps, subst digit_loop.simps,
        simp add: pos and15 drop_bit_eq_div unat_div del: unat_gt_0)
  show "bin_loop v temp = digit_loop 2 32 (\<lambda>d. word_of_nat d + ch CHR ''0'') (unat v) temp"
    by (induction v temp rule: bin_loop.induct)
      (subst bin_loop.simps, subst digit_loop.simps,
        simp add: pos and15 uc drop_bit_eq_div unat_div del: unat_gt_0)
  show "dec_loop v temp = digit_loop 10 12 (\<lambda>d. word_of_nat d + ch CHR ''0'') (unat v) temp"
    by (induction v temp rule: dec_loop.induct)
      (subst dec_loop.simps, subst digit_loop.simps,
        simp add: pos uc unat_div del: unat_gt_0)
qed

subsection \<open>Each routine keeps the contract\<close>

lemma copy_back_ok:
  assumes "i \<le> length temp" "length xs + i < 4294967296"
  shows "copy_back i temp (word_of_nat (length xs)) n b (write_bytes m b xs) =
    write_bytes m b (xs @ take (unat n - length xs) (rev (take i temp)))"
  using assms
proof (induction i arbitrary: xs)
  case (Suc i)
  have less: "(word_of_nat (length xs) :: u32) < n \<longleftrightarrow> length xs < unat n"
    using Suc.prems by (simp add: word_less_nat_alt unat_of_nat_u32)
  have rev: "rev (take (Suc i) temp) = temp ! i # rev (take i temp)"
    using Suc.prems by (simp add: take_Suc_conv_app_nth)
  show ?case
  proof (cases "length xs < unat n")
    case True
    then have "take (unat n - length xs) (temp ! i # rev (take i temp)) =
        temp ! i # take (unat n - Suc (length xs)) (rev (take i temp))"
      by (simp add: take_Cons')
    then show ?thesis
      using True less Suc.IH [of "xs @ [temp ! i]"] Suc.prems write_bytes_snoc [of xs m b "temp ! i"] rev
      by (simp add: add.commute)
  next
    case False
    then show ?thesis using less by simp
  qed
qed simp

lemma copy_back_emit:
  assumes "length temp < 4294967296"
  shows "Inr (word_of_nat (length temp), if b \<noteq> 0 then copy_back (length temp) temp 0 n b m else m) =
    emit n b m (rev temp)"
  using copy_back_ok [of "length temp" temp "[]" n b m] assms by (simp add: emit_def)

lemma zero_emit:
  "Inr (1, if b \<noteq> 0 \<and> n > 0 then m(b := x) else m) = emit n b m [x]"
proof -
  have "take (unat n) [x] = (if n > 0 then [x] else [])"
    by (cases "unat n") (auto simp: word_less_nat_alt)
  then show ?thesis by (simp add: emit_def write_bytes_first)
qed

definition hex_text :: "u32 \<Rightarrow> u8 list" where
  "hex_text v = map (\<lambda>d. HEX_DIGITS ! d) (digits 16 (unat v))"

definition bin_text :: "u32 \<Rightarrow> u8 list" where
  "bin_text v = map (\<lambda>d. word_of_nat d + ch CHR ''0'') (digits 2 (unat v))"

definition dec_text :: "u32 \<Rightarrow> u8 list" where
  "dec_text v = map (\<lambda>d. word_of_nat d + ch CHR ''0'') (digits 10 (unat v))"

definition int_text :: "u32 \<Rightarrow> u8 list" where
  "int_text v = (if sint v < 0 then ch CHR ''-'' # dec_text (- v) else dec_text v)"

lemma zero_texts:
  "hex_text 0 = [ch CHR ''0'']" "bin_text 0 = [ch CHR ''0'']" "dec_text 0 = [ch CHR ''0'']"
  by (simp_all add: hex_text_def bin_text_def dec_text_def digits.simps HEX_DIGITS_def)

lemma text_lengths:
  "length (hex_text v) \<le> 8" "length (bin_text v) \<le> 32" "length (dec_text v) \<le> 10"
  "length (int_text v) \<le> 11"
proof -
  show *: "length (hex_text v) \<le> 8" "length (bin_text v) \<le> 32" "length (dec_text v) \<le> 10" for v
    by (simp_all add: hex_text_def bin_text_def dec_text_def length_digits)
      (rule length_digits, simp_all, use unat_lt_u32 [of v] in linarith)
  show "length (int_text v) \<le> 11"
    using *(3) [of v] *(3) [of "- v"] by (simp add: int_text_def)
qed

lemma loops_ok:
  assumes "v \<noteq> 0"
  shows "hex_loop v [] = Inr (rev (hex_text v))" "bin_loop v [] = Inr (rev (bin_text v))"
    "dec_loop v [] = Inr (rev (dec_text v))"
proof -
  have v: "unat v \<noteq> 0" "unat v < 16 ^ 8" "unat v < 2 ^ 32" "unat v < 10 ^ 12"
    using assms unat_lt_u32 [of v] by (simp_all add: unat_eq_0 del: unat_lt_u32)
  show "hex_loop v [] = Inr (rev (hex_text v))"
    using digit_loop_ok [of 16 "unat v" 8 "[]"] v unfolding digit_loop_eqs
    by (simp add: hex_text_def rev_map)
  show "bin_loop v [] = Inr (rev (bin_text v))"
    using digit_loop_ok [of 2 "unat v" 32 "[]"] v unfolding digit_loop_eqs
    by (simp add: bin_text_def rev_map)
  show "dec_loop v [] = Inr (rev (dec_text v))"
    using digit_loop_ok [of 10 "unat v" 12 "[]"] v unfolding digit_loop_eqs
    by (simp add: dec_text_def rev_map)
qed

lemma snprint_hex_emit: "snprint_hex v n b m = emit n b m (hex_text v)"
  using copy_back_emit [of "rev (hex_text v)" b n m] text_lengths(1) [of v]
    zero_emit [of b n m "ch CHR ''0''"]
  by (cases "v = 0") (auto simp: snprint_hex_def loops_ok zero_texts)

lemma snprint_bin_emit: "snprint_bin v n b m = emit n b m (bin_text v)"
  using copy_back_emit [of "rev (bin_text v)" b n m] text_lengths(2) [of v]
    zero_emit [of b n m "ch CHR ''0''"]
  by (cases "v = 0") (auto simp: snprint_bin_def loops_ok zero_texts)

lemma snprint_int_emit:
  "snprint_int v sg n b m = emit n b m (if sg then int_text v else dec_text v)"
proof -
  have digits: "(if w = 0 then Inr [ch CHR ''0''] else dec_loop w []) = Inr (rev (dec_text w))" for w
    by (simp add: loops_ok zero_texts)
  show ?thesis
    using copy_back_emit [of "rev (dec_text v)" b n m] copy_back_emit [of "rev (int_text v)" b n m]
      text_lengths(3) [of v] text_lengths(3) [of "- v"] text_lengths(4) [of v]
    by (auto simp: snprint_int_def Let_def digits int_text_def)
qed

definition ptr_text :: "u32 \<Rightarrow> u8 list" where
  "ptr_text v = ch CHR ''0'' # ch CHR ''x'' # hex_text v"

lemma snprint_ptr_emit:
  assumes "b = 0 \<or> unat b + unat n \<le> 4294967296"
  shows "snprint_ptr v n b m = emit n b m (ptr_text v)"
proof (cases "b = 0 \<or> n \<le> 2")
  case True
  consider "b = 0" | "b \<noteq> 0" "n = 0" | "b \<noteq> 0" "n = 1" | "b \<noteq> 0" "n = 2"
  proof -
    have "n = 0 \<or> n = 1 \<or> n = 2" if "n \<le> 2"
    proof -
      have "unat n = 0 \<or> unat n = 1 \<or> unat n = 2" using that by (auto simp: word_le_nat_alt)
      then show ?thesis by (auto simp: word_unat_eq_iff)
    qed
    then show thesis using that True by blast
  qed
  then show ?thesis
    using write_bytes_snoc [of "[ch CHR ''0'']" m b "ch CHR ''x''"]
    by cases (auto simp: snprint_ptr_def snprint_hex_emit emit_def ptr_text_def write_bytes_first)
next
  case False
  then have n: "2 < unat n" by (simp add: word_le_nat_alt)
  have b2: "b + 2 \<noteq> 0" "unat (n - 2) = unat n - 2"
  proof -
    show "b + 2 \<noteq> 0"
    proof
      assume "b + 2 = 0"
      then have "unat (b + 2) = 0" by simp
      moreover have "unat b + 2 < 4294967296" using assms False n by linarith
      then have "unat (b + 2) = unat b + 2" by (subst unat_add_u32) auto
      ultimately show False by simp
    qed
    show "unat (n - 2) = unat n - 2" using n by (subst unat_sub) (auto simp: word_le_nat_alt)
  qed
  have n2: "2 < n" "0 < n" "1 < n" using n by (simp_all add: word_less_nat_alt)
  have two: "m(b := ch CHR ''0'', b + 1 := ch CHR ''x'') = write_bytes m b [ch CHR ''0'', ch CHR ''x'']"
    using write_bytes_snoc [of "[ch CHR ''0'']" m b "ch CHR ''x''"] by (simp add: write_bytes_first)
  have "take (unat n) (ptr_text v) = [ch CHR ''0'', ch CHR ''x''] @ take (unat n - 2) (hex_text v)"
    using n by (cases "unat n"; cases "unat n - 1") (auto simp: ptr_text_def)
  then show ?thesis
    using False n2 b2 two write_bytes_append [of "[ch CHR ''0'', ch CHR ''x'']" "take (unat n - 2) (hex_text v)" m b]
      text_lengths(1) [of v]
    by (simp add: snprint_ptr_def snprint_hex_emit emit_def ptr_text_def)
qed

text \<open>A string in memory, and a range that a write does not touch.\<close>

definition str_at :: "bytes \<Rightarrow> u32 \<Rightarrow> u8 list \<Rightarrow> bool" where
  "str_at m s xs \<longleftrightarrow> length xs < 4294967296 \<and>
     (\<forall>i < length xs. m (s + word_of_nat i) = xs ! i \<and> xs ! i \<noteq> 0) \<and>
     m (s + word_of_nat (length xs)) = 0"

definition outside :: "u32 \<Rightarrow> u32 \<Rightarrow> u32 \<Rightarrow> nat \<Rightarrow> bool" where
  "outside b n s len \<longleftrightarrow> (\<forall>i \<le> len. unat n \<le> unat (s + word_of_nat i - b))"

definition written :: "bytes \<Rightarrow> u32 \<Rightarrow> u32 \<Rightarrow> u8 list \<Rightarrow> bytes" where
  "written m b n xs = (if b = 0 then m else write_bytes m b (take (unat n) xs))"

lemma written_outside: "b = 0 \<or> unat n \<le> unat (a - b) \<Longrightarrow> written m b n xs a = m a"
  by (auto simp: written_def intro!: write_bytes_outside)

lemma written_Nil [simp]: "written m b n [] = m"
  by (simp add: written_def)

lemma emit_written: "emit n b m txt = Inr (word_of_nat (length txt), written m b n txt)"
  by (simp add: emit_def written_def)

lemma written_snoc:
  assumes "length xs < 4294967296"
  shows "(if b \<noteq> 0 \<and> word_of_nat (length xs) < n then (written m b n xs)(b + word_of_nat (length xs) := x)
     else written m b n xs) = written m b n (xs @ [x])"
  using assms write_bytes_snoc [of xs m b x]
  by (auto simp: written_def word_less_nat_alt unat_of_nat_u32)

lemma snprint_string_loop_ok:
  assumes "str_at m s (done @ rest)" "b = 0 \<or> outside b n s (length (done @ rest))" "length rest < k"
  shows "snprint_string_loop k (written m b n done) (s + word_of_nat (length done))
    (word_of_nat (length done)) n b = emit n b m (done @ rest)"
  using assms
proof (induction k arbitrary: "done" rest)
  case (Suc k)
  let ?a = "s + word_of_nat (length done) :: u32"
  have rd: "written m b n done ?a = m ?a"
    by (rule written_outside) (use Suc.prems(2) in \<open>auto simp: outside_def\<close>)
  show ?case
  proof (cases rest)
    case Nil
    then show ?thesis using Suc.prems(1) rd by (simp add: str_at_def emit_written)
  next
    case (Cons x xs)
    have m: "m ?a = x" "x \<noteq> 0" "length done < 4294967296"
      using Suc.prems(1) by (auto simp: str_at_def Cons nth_append dest!: spec [of _ "length done"])
    have "snprint_string_loop k (written m b n (done @ [x])) (s + word_of_nat (length (done @ [x])))
        (word_of_nat (length (done @ [x]))) n b = emit n b m ((done @ [x]) @ xs)"
      by (rule Suc.IH) (use Suc.prems Cons in auto)
    moreover have "snprint_string_loop (Suc k) (written m b n done) ?a (word_of_nat (length done)) n b =
        snprint_string_loop k (written m b n (done @ [x])) (?a + 1) (word_of_nat (length done) + 1) n b"
      unfolding written_snoc [OF m(3), of b n m x, symmetric] using m rd by simp
    ultimately show ?thesis using Cons by (simp add: ac_simps)
  qed
qed simp

lemma snprint_string_emit:
  assumes "str_at m (if s = 0 then null_str E else s) xs"
    "b = 0 \<or> outside b n (if s = 0 then null_str E else s) (length xs)"
  shows "snprint_string E s n b m = emit n b m xs"
  using snprint_string_loop_ok [of m _ "[]" xs b n "2 ^ 32"] assms
  by (simp add: snprint_string_def str_at_def)

subsection \<open>Format strings as lists of pieces\<close>

datatype piece = Lit u8 | Unsigned u32 | Signed u32 | Hex u32 | Binary u32 | Pointer u32
  | Str u32 "u8 list" | Percent

fun fmt_of :: "piece \<Rightarrow> u8 list" where
  "fmt_of (Lit c) = [c]"
| "fmt_of (Unsigned v) = [ch CHR ''%'', ch CHR ''u'']"
| "fmt_of (Signed v) = [ch CHR ''%'', ch CHR ''i'']"
| "fmt_of (Hex v) = [ch CHR ''%'', ch CHR ''x'']"
| "fmt_of (Binary v) = [ch CHR ''%'', ch CHR ''b'']"
| "fmt_of (Pointer v) = [ch CHR ''%'', ch CHR ''p'']"
| "fmt_of (Str p xs) = [ch CHR ''%'', ch CHR ''s'']"
| "fmt_of Percent = [ch CHR ''%'', ch CHR ''%'']"

fun args_of :: "piece \<Rightarrow> u32 list" where
  "args_of (Lit c) = []"
| "args_of (Unsigned v) = [v]"
| "args_of (Signed v) = [v]"
| "args_of (Hex v) = [v]"
| "args_of (Binary v) = [v]"
| "args_of (Pointer v) = [v]"
| "args_of (Str p xs) = [p]"
| "args_of Percent = []"

fun text_of :: "piece \<Rightarrow> u8 list" where
  "text_of (Lit c) = [c]"
| "text_of (Unsigned v) = dec_text v"
| "text_of (Signed v) = int_text v"
| "text_of (Hex v) = hex_text v"
| "text_of (Binary v) = bin_text v"
| "text_of (Pointer v) = ptr_text v"
| "text_of (Str p xs) = xs"
| "text_of Percent = [ch CHR ''%'']"

definition formats :: "piece list \<Rightarrow> u8 list" where
  "formats ps = concat (map fmt_of ps)"

definition texts :: "piece list \<Rightarrow> u8 list" where
  "texts ps = concat (map text_of ps)"

definition arguments :: "piece list \<Rightarrow> u32 list" where
  "arguments ps = concat (map args_of ps)"

text \<open>A printed character is neither zero nor \<^verbatim>\<open>%\<close>; a string argument is a string in
  memory that the output does not overwrite.\<close>

fun piece_ok :: "senv \<Rightarrow> bytes \<Rightarrow> u32 \<Rightarrow> u32 \<Rightarrow> piece \<Rightarrow> bool" where
  "piece_ok E m b n (Lit c) \<longleftrightarrow> c \<noteq> 0 \<and> c \<noteq> ch CHR ''%''"
| "piece_ok E m b n (Str p xs) \<longleftrightarrow>
     str_at m (if p = 0 then null_str E else p) xs \<and>
     (b = 0 \<or> outside b n (if p = 0 then null_str E else p) (length xs))"
| "piece_ok E m b n _ \<longleftrightarrow> True"

lemma str_at_shift:
  assumes "str_at m s (xs @ ys)"
  shows "str_at m (s + word_of_nat (length xs)) ys"
proof -
  have "m (s + word_of_nat (length xs) + word_of_nat i) = ys ! i \<and> ys ! i \<noteq> 0" if "i < length ys" for i
    using assms that unfolding str_at_def
    by (auto simp: nth_append add.assoc dest!: spec [of _ "length xs + i"])
  then show ?thesis using assms by (auto simp: str_at_def add.assoc)
qed

lemma outside_shift:
  "outside b n s (k + l) \<Longrightarrow> outside b n (s + word_of_nat k) l"
  unfolding outside_def by (metis add.assoc add_le_cancel_left of_nat_add)

lemma str_at_written:
  assumes "str_at m s xs" "b = 0 \<or> outside b n s (length xs)"
  shows "str_at (written m b n ys) s xs"
  using assms written_outside [of b n _ m ys] by (auto simp: str_at_def outside_def)

lemma outside_sub:
  assumes "outside b n s l" "k \<le> unat n"
  shows "outside (b + word_of_nat k) (n - word_of_nat k) s l"
proof -
  have k: "k < 4294967296" using assms(2) unat_lt_u32 [of n] by linarith
  have "unat (n - word_of_nat k) = unat n - k"
    using assms(2) k by (subst unat_sub) (auto simp: word_le_nat_alt unat_of_nat_u32)
  then show ?thesis
    using assms(1) unfolding outside_def unat_diff_add [OF k] by (auto intro: diff_le_mono)
qed

lemma outside_below:
  assumes "unat s + l < unat b" "unat b + unat n \<le> 4294967296"
  shows "outside b n s l"
proof -
  have "unat n \<le> unat (s + word_of_nat i - b)" if i: "i \<le> l" for i
  proof -
    have "unat (s + word_of_nat i) = unat s + i"
    proof -
      have "unat s + i < 4294967296" using assms(1) i unat_lt_u32 [of b] by linarith
      then show ?thesis by (subst unat_add_u32) (simp_all add: unat_of_nat_u32)
    qed
    then show ?thesis
      using assms i unat_sub_if_size [of "s + word_of_nat i" b] by (simp add: word_size)
  qed
  then show ?thesis by (simp add: outside_def)
qed

text \<open>Printing the next segment where the last one ended.\<close>

definition rest_of :: "u32 \<Rightarrow> nat \<Rightarrow> u32" where
  "rest_of n l = (if word_of_nat l > n then 0 else n - word_of_nat l)"

definition pos_of :: "u32 \<Rightarrow> u32 \<Rightarrow> nat \<Rightarrow> u32" where
  "pos_of b n l = (if word_of_nat l \<ge> n then 0 else if b \<noteq> 0 then b + word_of_nat l else 0)"

lemma pos_rest:
  assumes l: "l < 4294967296" and b: "unat b + unat n < 4294967296"
  shows "unat (rest_of n l) = unat n - l"
    and "pos_of b n l = 0 \<longleftrightarrow> unat n \<le> l \<or> b = 0"
    and "pos_of b n l = 0 \<or> unat (pos_of b n l) + unat (rest_of n l) \<le> 4294967296"
    and "pos_of b n l \<noteq> 0 \<Longrightarrow> pos_of b n l = b + word_of_nat l \<and> rest_of n l = n - word_of_nat l"
proof -
  note c = word_less_nat_alt word_le_nat_alt unat_of_nat_u32
  show r: "unat (rest_of n l) = unat n - l"
    using l by (auto simp: rest_of_def c unat_sub)
  have s: "unat (b + word_of_nat l) = unat b + l" if "l < unat n"
    using that l b by (subst unat_add_u32) (auto simp: c)
  show p: "pos_of b n l = 0 \<longleftrightarrow> unat n \<le> l \<or> b = 0"
    using l s by (auto simp: pos_of_def c word_unat_eq_iff)
  show "pos_of b n l = 0 \<or> unat (pos_of b n l) + unat (rest_of n l) \<le> 4294967296"
    using l b r s by (auto simp: pos_of_def c)
  show "pos_of b n l \<noteq> 0 \<Longrightarrow> pos_of b n l = b + word_of_nat l \<and> rest_of n l = n - word_of_nat l"
    using l by (auto simp: pos_of_def rest_of_def c split: if_splits)
qed

lemma emit_resume:
  assumes l: "length (done) < 4294967296" and b: "unat b + unat n < 4294967296"
  shows "emit (rest_of n (length done)) (pos_of b n (length done)) (written m b n done) txt =
    Inr (word_of_nat (length txt), written m b n (done @ txt))"
proof (cases "unat n \<le> length done \<or> b = 0")
  case True
  then show ?thesis using pos_rest(2) [OF l b] by (auto simp: emit_written written_def)
next
  case False
  then have p: "pos_of b n (length done) = b + word_of_nat (length done)"
    "pos_of b n (length done) \<noteq> 0" "b \<noteq> 0" "length done < unat n"
    using pos_rest(2,4) [OF l b] by auto
  have "length done + length (take (unat n - length done) txt) \<le> 4294967296"
    using unat_lt_u32 [of n] p(4) length_take [of "unat n - length done" "txt"] by linarith
  from write_bytes_append [OF this, of m b] show ?thesis
    using p pos_rest(1) [OF l b] by (simp add: emit_def written_def)
qed

subsection \<open>The loop over the format string\<close>

lemma outside_pos:
  assumes "b = 0 \<or> outside b n s len" "l < 4294967296" "unat b + unat n < 4294967296"
  shows "pos_of b n l = 0 \<or> outside (pos_of b n l) (rest_of n l) s len"
proof (cases "pos_of b n l = 0")
  case False
  then have "l \<le> unat n" "b \<noteq> 0" using pos_rest(2) [OF assms(2,3)] by auto
  then show ?thesis
    using False assms(1) pos_rest(4) [OF assms(2,3) False] outside_sub [of b n s len l] by auto
qed simp

definition segment :: "senv \<Rightarrow> bytes \<Rightarrow> u32 \<Rightarrow> u32 list \<Rightarrow> u32 \<Rightarrow> u32 \<Rightarrow>
    (u32 \<times> bytes \<times> u32 \<times> u32 list) res" where
  "segment E m fmt args remaining pos =
     (if m fmt = ch CHR ''%'' then directive E m (fmt + 1) args remaining pos
      else Inr (1, if pos \<noteq> 0 then m(pos := m fmt) else m, fmt, args))"

lemma vsnprintf_loop_Suc:
  "vsnprintf_loop (Suc k) E b n m fmt args (word_of_nat l) =
     (if m fmt \<noteq> 0 then
        bind_res (segment E m fmt args (rest_of n l) (pos_of b n l)) (\<lambda>(segment_len, m, fmt, args).
          vsnprintf_loop k E b n m (fmt + 1) args (word_of_nat l + segment_len))
      else Inr (word_of_nat l, m))"
  by (simp add: segment_def rest_of_def pos_of_def Let_def)

lemma char_emit:
  assumes "l < 4294967296" "unat b + unat n < 4294967296"
  shows "Inr (1, if pos_of b n l \<noteq> 0 then m(pos_of b n l := x) else m) =
    emit (rest_of n l) (pos_of b n l) m [x]"
proof (cases "pos_of b n l = 0")
  case False
  then have "0 < rest_of n l"
    using pos_rest(1,2) [OF assms] by (auto simp: word_less_nat_alt)
  then show ?thesis
    using zero_emit [of "pos_of b n l" "rest_of n l" m x] False by simp
qed (simp add: emit_def)

lemma segment_ok:
  assumes l: "length done < 4294967296" and b: "unat b + unat n < 4294967296"
    and p: "piece_ok E m b n p"
    and fmt: "str_at (written m b n done) fmt (fmt_of p @ tail_fmt)"
  shows "segment E (written m b n done) fmt (args_of p @ args) (rest_of n (length done))
      (pos_of b n (length done)) =
    Inr (word_of_nat (length (text_of p)), written m b n (done @ text_of p),
         fmt + word_of_nat (length (fmt_of p) - 1), args)"
proof -
  let ?m = "written m b n done" and ?r = "rest_of n (length done)" and ?p = "pos_of b n (length done)"
  have at: "?m (fmt + word_of_nat i) = fmt_of p ! i" if "i < length (fmt_of p)" for i
    using fmt that by (auto simp: str_at_def nth_append)
  have at0: "?m fmt = fmt_of p ! 0" using at [of 0] by (cases p) auto
  have at1: "?m (fmt + 1) = fmt_of p ! 1" if "1 < length (fmt_of p)" using at [of 1] that by simp
  note emit = emit_resume [OF l b, of m]
  note char = char_emit [OF l b, of ?m]
  have ptr: "snprint_ptr v ?r ?p ?m = emit ?r ?p ?m (ptr_text v)" for v
    by (rule snprint_ptr_emit) (rule pos_rest(3) [OF l b])
  have lit: "(1, if ?p \<noteq> 0 then ?m(?p := x) else ?m) = (word_of_nat (length [x]), written m b n (done @ [x]))" for x
    using char [of x] emit [of "[x]"] by simp
  show ?thesis
  proof (cases p)
    case (Str q xs)
    let ?a = "if q = 0 then null_str E else q"
    have q: "str_at m ?a xs" "b = 0 \<or> outside b n ?a (length xs)" using p Str by simp_all
    have "snprint_string E q ?r ?p ?m = emit ?r ?p ?m xs"
      by (rule snprint_string_emit [OF str_at_written [OF q] outside_pos [OF q(2) l b]])
    then show ?thesis
      using at0 at1 Str by (simp add: segment_def directive_def va_arg_def emit)
  qed (use at0 at1 p lit in \<open>simp_all add: segment_def directive_def va_arg_def emit ptr
      snprint_int_emit snprint_hex_emit snprint_bin_emit\<close>)
qed

lemma fmt_of_Cons: "piece_ok E m b n p \<Longrightarrow> \<exists>x xs. fmt_of p = x # xs \<and> x \<noteq> 0"
  by (cases p) auto

lemma vsnprintf_loop_ok:
  assumes b: "unat b + unat n < 4294967296"
    and ps: "\<forall>p \<in> set ps. piece_ok E m b n p"
    and fmt: "str_at m fmt (formats ps)" "b = 0 \<or> outside b n fmt (length (formats ps))"
    and len: "length (done @ texts ps) < 4294967296" and k: "length ps < k"
  shows "vsnprintf_loop k E b n (written m b n done) fmt (arguments ps @ args) (word_of_nat (length done)) =
    Inr (word_of_nat (length (done @ texts ps)), written m b n (done @ texts ps))"
  using ps fmt len k
proof (induction ps arbitrary: "done" fmt k)
  case Nil
  have "str_at (written m b n done) fmt []"
    by (rule str_at_written) (use Nil in \<open>auto simp: formats_def\<close>)
  then show ?case using Nil
    by (cases k) (simp_all add: texts_def vsnprintf_loop_Suc str_at_def del: vsnprintf_loop.simps(2))
next
  case (Cons p ps)
  then obtain j where j: "k = Suc j" "length ps < j" by (cases k) auto
  have split: "formats (p # ps) = fmt_of p @ formats ps" "texts (p # ps) = text_of p @ texts ps"
    "arguments (p # ps) = args_of p @ arguments ps"
    by (simp_all add: formats_def texts_def arguments_def)
  have l: "length done < 4294967296" using Cons.prems by simp
  have at: "str_at (written m b n done) fmt (fmt_of p @ formats ps)"
    by (rule str_at_written) (use Cons.prems split in auto)
  have seg: "segment E (written m b n done) fmt (args_of p @ arguments ps @ args)
      (rest_of n (length done)) (pos_of b n (length done)) =
    Inr (word_of_nat (length (text_of p)), written m b n (done @ text_of p),
         fmt + word_of_nat (length (fmt_of p) - 1), arguments ps @ args)"
    by (rule segment_ok [OF l b _ at]) (use Cons.prems in auto)
  obtain x xs where x: "fmt_of p = x # xs" "x \<noteq> 0"
    using fmt_of_Cons [of E m b n p] Cons.prems by auto
  have nz: "written m b n done fmt \<noteq> 0" using at x by (auto simp: str_at_def)
  have nx: "fmt + word_of_nat (length (fmt_of p) - 1) + 1 = fmt + word_of_nat (length (fmt_of p))"
    using x by (simp add: add.assoc add.commute)
  have IH: "vsnprintf_loop j E b n (written m b n (done @ text_of p)) (fmt + word_of_nat (length (fmt_of p)))
      (arguments ps @ args) (word_of_nat (length (done @ text_of p))) =
    Inr (word_of_nat (length ((done @ text_of p) @ texts ps)), written m b n ((done @ text_of p) @ texts ps))"
    by (rule Cons.IH)
      (use Cons.prems j split in \<open>auto intro: str_at_shift outside_shift\<close>)
  show ?case
    using IH seg nz nx split(2,3) unfolding j(1) vsnprintf_loop_Suc
    by (simp add: add.assoc del: vsnprintf_loop.simps(2))
qed

subsection \<open>The formatter\<close>

lemma length_formats: "length ps \<le> length (formats ps)"
proof (induction ps)
  case (Cons p ps)
  moreover have "1 \<le> length (fmt_of p)" by (cases p) auto
  ultimately show ?case by (simp add: formats_def)
qed (simp add: formats_def)

lemma outside_less: "outside b n s l \<Longrightarrow> unat k \<le> unat n \<Longrightarrow> outside b k s l"
  by (auto simp: outside_def intro: order_trans)

lemma piece_ok_less: "piece_ok E m b n p \<Longrightarrow> unat k \<le> unat n \<Longrightarrow> piece_ok E m b k p"
  by (cases p) (auto intro: outside_less)

lemma written_end:
  assumes "length xs < 4294967296"
  shows "(write_bytes m b (take (unat k) xs))
      (b + (if word_of_nat (length xs) < k then word_of_nat (length xs) else k) := 0) =
    write_bytes m b (take (unat k) xs @ [0])"
proof -
  have "(if word_of_nat (length xs) < k then word_of_nat (length xs) else k) =
      word_of_nat (length (take (unat k) xs))"
    using assms by (auto simp: word_less_nat_alt unat_of_nat_u32 min_def)
  moreover have "length (take (unat k) xs) < 4294967296" using assms by simp
  ultimately show ?thesis using write_bytes_snoc [of "take (unat k) xs" m b 0] by (simp only:)
qed

lemma vsnprintf_run:
  assumes buf: "unat b + unat n \<le> 4294967296"
    and pieces: "\<forall>p \<in> set ps. piece_ok E m b n p"
    and fmt: "str_at m fmt (formats ps)" "b = 0 \<or> outside b n fmt (length (formats ps))"
    and len: "length (texts ps) < 4294967296"
  shows "vsnprintf E m b n fmt (arguments ps @ args) =
    Inr (word_of_nat (length (texts ps)),
         if b = 0 \<or> n = 0 then m
         else write_bytes m b (take (unat n - 1) (texts ps) @ [0]))"
proof -
  define limit where "limit = (if n \<noteq> 0 then n - 1 else 0)"
  have limit: "unat limit = unat n - 1" "unat limit \<le> unat n"
    unfolding limit_def by (auto simp: unat_minus_one)
  have b: "unat b + unat limit < 4294967296"
    using buf limit unat_lt_u32 [of b] by linarith
  have "length ps < 2 ^ 32"
    using fmt(1) length_formats [of ps] by (simp add: str_at_def)
  then have "vsnprintf_loop (2 ^ 32) E b limit (written m b limit []) fmt (arguments ps @ args)
      (word_of_nat (length ([] :: u8 list))) =
    Inr (word_of_nat (length ([] @ texts ps)), written m b limit ([] @ texts ps))"
    by (intro vsnprintf_loop_ok [OF b])
      (use pieces fmt len limit(2) in \<open>auto intro: piece_ok_less outside_less\<close>)
  then have "vsnprintf_loop (2 ^ 32) E b limit m fmt (arguments ps @ args) 0 =
    Inr (word_of_nat (length (texts ps)), written m b limit (texts ps))" by simp
  then show ?thesis
    using written_end [OF len, of m b limit] limit
    by (auto simp: vsnprintf_def limit_def written_def Let_def word_neq_0_conv)
qed

lemma str_at_write:
  assumes "\<forall>x \<in> set xs. x \<noteq> 0" "length xs < 4294967295"
  shows "str_at (write_bytes m s (xs @ [0])) s xs"
proof -
  have i: "unat (word_of_nat i :: u32) = i" if "i \<le> length xs" for i
    using that assms(2) by (simp add: unat_of_nat_u32)
  show ?thesis using assms i by (auto simp: str_at_def write_bytes_def nth_append)
qed

lemma str_at_write_other:
  assumes "str_at m s xs" "unat s + length xs < unat b" "unat b + length ys \<le> 4294967296"
  shows "str_at (write_bytes m b ys) s xs"
proof (cases "ys = []")
  case False
  then have l: "length ys < 4294967296"
  proof -
    have "0 < unat b" using assms(2) by linarith
    then show ?thesis using assms(3) by linarith
  qed
  then have u: "unat (word_of_nat (length ys) :: u32) = length ys" by (simp add: unat_of_nat_u32)
  have "b \<noteq> 0" using assms(2) by auto
  then have "write_bytes m b ys = written m b (word_of_nat (length ys)) ys"
    by (simp add: written_def u)
  moreover have "outside b (word_of_nat (length ys)) s (length xs)"
    by (rule outside_below [OF assms(2)]) (use assms(3) u in simp)
  ultimately show ?thesis using str_at_written [OF assms(1)] by simp
qed (use assms in simp)

definition read_int :: "u8 list \<Rightarrow> int" where
  "read_int xs =
     (let val = (\<lambda>ds. int (value_of 10 (map (\<lambda>c. unat (c - ch CHR ''0'')) ds)))
      in if xs \<noteq> [] \<and> hd xs = ch CHR ''-'' then - val (tl xs) else val xs)"

lemma dec_digit: "d < 10 \<Longrightarrow> word_of_nat d + ch CHR ''0'' - ch CHR ''0'' = (word_of_nat d :: u8)
    \<and> unat (word_of_nat d :: u8) = d \<and> word_of_nat d + ch CHR ''0'' \<noteq> (ch CHR ''-'' :: u8)"
proof -
  assume d: "d < 10"
  then have u: "unat (word_of_nat d :: u8) = d" by (simp add: unat_of_nat)
  then have "unat (word_of_nat d + 48 :: u8) = d + 48" using d by (simp add: unat_word_ariths)
  then have "unat (word_of_nat d + 48 :: u8) \<noteq> unat (45 :: u8)" by simp
  then have "word_of_nat d + 48 \<noteq> (45 :: u8)" by (intro notI) (simp only:)
  then show ?thesis using u by simp
qed

lemma read_dec: "read_int (dec_text v) = uint v"
proof -
  have less: "\<forall>d \<in> set (digits 10 (unat v)). d < 10" using digits_less [of 10] by auto
  have dd: "map (\<lambda>c. unat (c - ch CHR ''0'')) (dec_text v) = digits 10 (unat v)"
    unfolding dec_text_def map_map using less dec_digit by (auto intro!: map_idI)
  have "hd (dec_text v) \<noteq> ch CHR ''-''"
    unfolding dec_text_def using less dec_digit hd_in_set [OF digits_nonempty [of 10 "unat v"]]
    by (auto simp: hd_map)
  moreover have "int (unat v) = uint v" by simp
  ultimately show ?thesis unfolding read_int_def Let_def dd value_of_digits by auto
qed

lemma uint_sint_if: "uint v = (if sint v < 0 then sint v + 4294967296 else sint v)" for v :: u32
proof -
  have "uint v = sint v mod 4294967296" by (simp add: uint_sint take_bit_eq_mod)
  moreover have "- 2147483648 \<le> sint v" "sint v < 2147483648"
    using sint_greater_eq [of v] sint_less [of v] by simp_all
  moreover have "sint v mod 4294967296 = sint v + 4294967296" if "sint v < 0" "- 2147483648 \<le> sint v"
  proof -
    have "sint v mod 4294967296 = (sint v + 4294967296) mod 4294967296" by (rule mod_add_self2 [symmetric])
    also have "\<dots> = sint v + 4294967296" by (rule mod_pos_pos_trivial) (use that in linarith)+
    finally show ?thesis .
  qed
  ultimately show ?thesis by (simp add: mod_pos_pos_trivial)
qed

lemma read_signed: "read_int (int_text v) = sint v"
proof (cases "sint v < 0")
  case True
  have "read_int (dec_text (- v)) = uint (- v)" by (rule read_dec)
  moreover have "uint (- v) = - sint v"
  proof -
    have "uint (- v) = (- uint v) mod 4294967296" by (simp add: uint_word_ariths)
    also have "- uint v = - sint v - 4294967296" using True uint_sint_if [of v] by simp
    also have "(- sint v - 4294967296) mod 4294967296 = - sint v mod 4294967296" by (rule minus_mod_self2)
    also have "\<dots> = - sint v"
      by (rule mod_pos_pos_trivial) (use True sint_greater_eq [of v] in simp_all)
    finally show ?thesis .
  qed
  moreover have "hd (dec_text (- v)) \<noteq> ch CHR ''-''"
    unfolding dec_text_def
    using dec_digit digits_less [of 10 _ "unat (- v)"] hd_in_set [OF digits_nonempty [of 10 "unat (- v)"]]
    by (auto simp: hd_map)
  ultimately show ?thesis using True by (simp add: int_text_def read_int_def Let_def split: if_splits)
next
  case False
  moreover from False have "sint v = uint v" using uint_sint_if [of v] by simp
  ultimately show ?thesis by (simp add: int_text_def read_dec)
qed

text \<open>the text of a number reads back as the number: \<^verbatim>\<open>%i\<close> prints the signed and
  \<^verbatim>\<open>%u\<close> the unsigned value, for every 32-bit pattern, in at most 11 characters.\<close>

theorem snprint_int_roundtrip:
  "\<exists>txt. snprint_int v is_signed n b m = emit n b m txt \<and> length txt \<le> 11 \<and>
     read_int txt = (if is_signed then sint v else uint v)"
  using snprint_int_emit [of v is_signed n b m] text_lengths(3,4) [of v] read_dec [of v] read_signed [of v]
  by (intro exI [of _ "if is_signed then int_text v else dec_text v"]) auto

lemma two_32: "(2 :: nat) ^ 32 = Suc (Suc (Suc 4294967293))"
  by simp

text \<open>without room in the buffer \<^verbatim>\<open>%c\<close> does not take its argument, so that the next
  conversion prints it. Measuring a text by a call with no buffer, as \<^verbatim>\<open>printk\<close> measures its
  prefix, then gives the length of another text.\<close>

theorem percent_c_without_room:
  assumes fmt: "str_at m fmt (map of_char ''%c%u'')" and n: "n = 0 \<or> n = 1"
  shows "vsnprintf E m 0 n fmt (c # v # args) = Inr (1 + word_of_nat (length (dec_text c)), m)"
proof -
  have "m (fmt + word_of_nat i) = map of_char ''%c%u'' ! i" if "i < 4" for i
    using fmt that by (simp add: str_at_def)
  from this [of 0] this [of 1] this [of 2] this [of 3]
  have at: "m fmt = ch CHR ''%''" "m (fmt + 1) = ch CHR ''c''" "m (fmt + 2) = ch CHR ''%''"
    "m (fmt + 3) = ch CHR ''u''" by simp_all
  have e: "m (fmt + 4) = 0" using fmt by (simp add: str_at_def)
  have u: "snprint_int v False r 0 m = Inr (word_of_nat (length (dec_text v)), m)" for v r
    by (simp add: snprint_int_emit emit_def)
  have limit: "(if n \<noteq> 0 then n - 1 else 0) = 0" using n by auto
  have "vsnprintf_loop (Suc (Suc (Suc k))) E 0 0 m fmt (c # v # args) 0 =
      Inr (1 + word_of_nat (length (dec_text c)), m)" for k
    using at e by (simp add: u directive_def va_arg_def Let_def add.assoc)
  from this [of 4294967293] show ?thesis
    unfolding vsnprintf_def limit two_32 by (simp only: Let_def bind_res_simps) simp
qed

theorem percent_c_without_room_witness:
  "\<exists>E. vsnprintf E (write_bytes (\<lambda>_. 0) 0x100 (map of_char ''%c%u'' @ [0])) 0 0 0x100 [65, 7] =
     Inr (3, write_bytes (\<lambda>_. 0) 0x100 (map of_char ''%c%u'' @ [0]))"
proof -
  let ?m = "write_bytes (\<lambda>_. 0) 0x100 (map of_char ''%c%u'' @ [0])"
  have at: "str_at ?m 0x100 (map of_char ''%c%u'')" by (rule str_at_write) auto
  have "length (dec_text 65) = 2" by (simp add: dec_text_def digits.simps)
  then show ?thesis using percent_c_without_room [OF at disjI1 [OF refl], of _ 65 7 "[]"] by simp
qed

subsection \<open>Comparison and length\<close>

lemma str_at_head:
  "str_at m s [] \<Longrightarrow> m s = 0"
  "str_at m s (x # xs) \<Longrightarrow> m s = x \<and> x \<noteq> 0 \<and> str_at m (s + 1) xs"
  using str_at_shift [of m s "[x]" xs] by (auto simp: str_at_def dest!: spec [of _ 0])

lemma byte_diff:
  "sint (ucast a - ucast b :: u32) = uint a - uint b" for a b :: u8
proof -
  have "uint a < 256" "uint b < 256" using uint_lt2p [of a] uint_lt2p [of b] by simp_all
  then have "- 256 < uint a - uint b" "uint a - uint b < 256"
    using uint_ge_0 [of a] uint_ge_0 [of b] by linarith+
  moreover have "(ucast a - ucast b :: u32) = word_of_int (uint a - uint b)" by simp
  ultimately show ?thesis
    using signed_take_bit_int_eq_self [of 31 "uint a - uint b"]
    by (simp only: signed_of_int) simp
qed

lemma byte_pos: "uint x = 0 \<longleftrightarrow> x = 0" "0 < uint x \<longleftrightarrow> x \<noteq> 0" "\<not> uint x < 0" for x :: u8
  using uint_ge_0 [of x] by (auto simp: uint_0_iff less_le simp del: unsigned_greater_eq)

lemma strcmp_loop_ok:
  assumes "str_at m s xs" "str_at m t ys" "length xs < k"
  shows "\<exists>r. strcmp_loop k m s t = Inr r \<and> (sint r = 0 \<longleftrightarrow> xs = ys) \<and>
    (sint r < 0 \<longleftrightarrow> ord_class.lexordp xs ys)"
  using assms
proof (induction k arbitrary: s t xs ys)
  case (Suc k)
  consider "xs = []" "ys = []" | y ys' where "xs = []" "ys = y # ys'" | x xs' where "xs = x # xs'" "ys = []"
    | x xs' y ys' where "xs = x # xs'" "ys = y # ys'" by (cases xs; cases ys) auto
  then show ?case
  proof cases
    case 4
    then have m: "m s = x" "m t = y" "x \<noteq> 0" "y \<noteq> 0" "str_at m (s + 1) xs'" "str_at m (t + 1) ys'"
      using Suc.prems(1,2) by (auto dest!: str_at_head(2))
    show ?thesis
    proof (cases "x = y")
      case True
      with 4 m Suc.IH [OF m(5,6)] Suc.prems(3) show ?thesis by simp
    next
      case False
      then have "uint x \<noteq> uint y" by (simp add: word_uint_eq_iff)
      with 4 m show ?thesis by (auto simp: byte_diff word_less_def)
    qed
  qed (use Suc.prems in \<open>auto dest!: str_at_head simp: byte_diff byte_pos less_le [symmetric]\<close>)
qed simp

text \<open>\<^verbatim>\<open>strcmp\<close> returns on every pair of strings, 0 exactly when they are equal and a
  negative number exactly when the first comes first in the lexicographic order of their unsigned
  bytes; \<^verbatim>\<open>strlen\<close> returns the length.\<close>

theorem strcmp_correct:
  assumes "str_at m s xs" "str_at m t ys"
  shows "(\<exists>r. strcmp m s t = Inr r \<and> (sint r = 0 \<longleftrightarrow> xs = ys) \<and> (sint r < 0 \<longleftrightarrow> ord_class.lexordp xs ys)) \<and>
    strlen m s = Inr (word_of_nat (length xs))"
proof -
  have "strlen_loop k m s n = Inr (n + word_of_nat (length xs))"
    if "str_at m s xs" "length xs < k" for k s xs n
    using that
  proof (induction k arbitrary: s xs n)
    case (Suc k)
    then show ?case by (cases xs) (auto dest!: str_at_head simp: ac_simps)
  qed simp
  then show ?thesis
    using strcmp_loop_ok [OF assms, of "2 ^ 32"] assms(1) by (simp add: strcmp_def strlen_def str_at_def)
qed

theorem strcmp_correct_witness:
  "let m = write_bytes (write_bytes (\<lambda>_. 0) 0x100 (map of_char ''ab'' @ [0])) 0x200 (map of_char ''b'' @ [0])
   in (\<exists>r. strcmp m 0x200 0x200 = Inr r \<and> sint r = 0) \<and> strlen m 0x200 = Inr 1"
proof -
  let ?m = "write_bytes (write_bytes (\<lambda>_. 0) 0x100 (map of_char ''ab'' @ [0])) 0x200 (map of_char ''b'' @ [0])"
  have "str_at ?m 0x200 (map of_char ''b'')" by (rule str_at_write) auto
  from strcmp_correct [OF this this] show ?thesis by (auto simp: Let_def)
qed

end
