(* ===== verification/TerminalLog.thy ===== *)
theory TerminalLog
  imports Terminal StringsProps
begin

section \<open>The screen shows the end of a log\<close>

text \<open>
  The abstract terminal is a log: the finished lines and the line being written, without any
  bound on the number of lines. The frame buffer shows the last lines of it, the current line
  and blank rows below. All characters but the tabulator keep this; the tabulator moves the
  column behind the end of the row, and a backspace then writes outside of the row.
\<close>

unbundle bit_operations_syntax

definition pad :: "nat \<Rightarrow> u16 \<Rightarrow> u16 list \<Rightarrow> u16 list" where
  "pad w b xs = xs @ replicate (w - length xs) b"

definition shows_log :: "Terminal \<Rightarrow> u16 list list \<Rightarrow> u16 list \<Rightarrow> bool" where
  "shows_log t hist cur \<longleftrightarrow> term_ok t \<and> unat (row t) < unat (height t) \<and>
     unat (col t) = length cur \<and> length cur \<le> unat (width t) \<and>
     (\<forall>l \<in> set hist. length l = unat (width t)) \<and> unat (row t) \<le> length hist \<and>
     buffer t = concat (drop (length hist - unat (row t)) hist) @ pad (unat (width t)) (blank t) cur @
       replicate ((unat (height t) - Suc (unat (row t))) * unat (width t)) (blank t)"

definition log_put :: "nat \<Rightarrow> u8 \<Rightarrow> u8 \<Rightarrow> u16 list list \<times> u16 list \<Rightarrow> u16 list list \<times> u16 list" where
  "log_put w colour c = (\<lambda>(hist, cur).
     let b = vga_entry_create (ch CHR '' '') colour; e = vga_entry_create c colour
     in if c = ch CHR ''\<newline>'' then (hist @ [pad w b cur], [])
        else if c = 8 then (hist, butlast cur)
        else if length cur = w then (hist @ [pad w b cur], [e])
        else (hist, cur @ [e]))"

definition serial_data :: "io \<Rightarrow> u8 list" where
  "serial_data s = map snd (filter (\<lambda>x. fst x = PORT_COM1) (outs s))"

text \<open>Nothing but the cursor was written.\<close>

definition quiet :: "io \<Rightarrow> io \<Rightarrow> bool" where
  "quiet s s' \<longleftrightarrow> device s' = device s \<and> serial_data s' = serial_data s"

definition same_screen :: "Terminal \<Rightarrow> Terminal \<Rightarrow> bool" where
  "same_screen t t' \<longleftrightarrow> width t' = width t \<and> height t' = height t \<and> color t' = color t"

lemma quiet_refl [simp]: "quiet s s"
  by (simp add: quiet_def)

lemma quiet_trans: "quiet s s' \<Longrightarrow> quiet s' s'' \<Longrightarrow> quiet s s''"
  by (simp add: quiet_def)

lemma quiet_cursor [simp]: "quiet s (update_cursor t s)"
  by (simp add: quiet_def update_cursor_def outb_def serial_data_def PORT_COM1_def Let_def)

lemma length_concat_const: "\<forall>l \<in> set ls. length l = w \<Longrightarrow> length (concat ls) = length ls * w"
  by (induction ls) auto

lemma blank_update [simp]: "blank (t\<lparr>row := r\<rparr>) = blank t" "blank (t\<lparr>col := c\<rparr>) = blank t"
  "blank (t\<lparr>buffer := b\<rparr>) = blank t"
  by (simp_all add: blank_def)

lemma shows_log_col: "shows_log (t\<lparr>col := 0\<rparr>) hist [] \<longleftrightarrow>
    term_ok t \<and> unat (row t) < unat (height t) \<and>
     (\<forall>l \<in> set hist. length l = unat (width t)) \<and> unat (row t) \<le> length hist \<and>
     buffer t = concat (drop (length hist - unat (row t)) hist) @
       replicate ((unat (height t) - unat (row t)) * unat (width t)) (blank t)"
proof -
  have "replicate w b @ replicate ((h - Suc r) * w) b = replicate ((h - r) * w) b"
    if "r < h" for w h r and b :: u16
  proof -
    obtain k where "h = Suc (r + k)" using \<open>r < h\<close> less_iff_Suc_add by auto
    then show ?thesis by (simp add: replicate_add)
  qed
  then show ?thesis by (auto simp: shows_log_def term_ok_def pad_def)
qed

lemma next_row_log:
  assumes "shows_log t hist cur"
  shows "\<exists>t' s'. next_row t s = Inr (t', s') \<and> quiet s s' \<and> same_screen t t' \<and> col t' = 0 \<and>
    shows_log t' (hist @ [pad (unat (width t)) (blank t) cur]) []"
proof -
  let ?w = "unat (width t)" and ?h = "unat (height t)" and ?r = "unat (row t)"
  let ?p = "pad ?w (blank t) cur"
  define k where "k = length hist - ?r"
  have ok: "term_ok t" "?r < ?h" "length cur \<le> ?w" "\<forall>l \<in> set hist. length l = ?w" "?r \<le> length hist"
    and buf: "buffer t = concat (drop k hist) @ ?p @ replicate ((?h - Suc ?r) * ?w) (blank t)"
    using assms by (simp_all add: shows_log_def k_def)
  have k: "k \<le> length hist" "length hist - k = ?r" using ok(5) by (simp_all add: k_def)
  have p: "length ?p = ?w" using ok(3) by (simp add: pad_def)
  have r1: "unat (row t + 1) = Suc ?r"
    using ok(2) unat_lt_u32 [of "height t"] by (subst unat_Suc_u32) (simp_all del: unat_lt_u32)
  have last: "row t + 1 = height t \<longleftrightarrow> Suc ?r = ?h" by (simp add: word_unat_eq_iff r1)
  have lines: "\<forall>l \<in> set (hist @ [?p]). length l = ?w" using ok(4) p by simp
  have dk: "drop k (hist @ [?p]) = drop k hist @ [?p]" using k(1) by simp
  show ?thesis
  proof (cases "Suc ?r = ?h")
    case False
    let ?t = "t\<lparr>row := row t + 1, col := 0\<rparr>"
    have "next_row t s = Inr (?t, s)" using False last by (simp add: next_row_def Let_def)
    moreover have "shows_log ?t (hist @ [?p]) []"
    proof -
      have "length (hist @ [?p]) - Suc ?r = k" by (simp add: k_def)
      then show ?thesis
        unfolding shows_log_col using ok lines False buf dk r1 by (simp add: term_ok_def del: drop_append)
    qed
    ultimately show ?thesis by (intro exI [of _ ?t] exI [of _ s]) (simp add: same_screen_def)
  next
    case True
    let ?t = "t\<lparr>col := 0\<rparr>"
    let ?t' = "t\<lparr>buffer := drop ?w (buffer t) @ replicate ?w (blank t), col := 0\<rparr>"
    have tok: "term_ok ?t" using ok(1) by (simp add: term_ok_def)
    have swap: "t\<lparr>col := 0, buffer := b\<rparr> = t\<lparr>buffer := b, col := 0\<rparr>" for b by simp
    have "row t + 1 = height t" using True last by simp
    then have h1: "height t - 1 = row t" by (metis add_diff_cancel_right')
    have id: "t\<lparr>col := 0, row := row t\<rparr> = ?t" by simp
    have "next_row t s = Inr (?t', update_cursor ?t' s)"
      using True last terminal_scroll_ok [OF tok, of s]
      by (simp add: next_row_def Let_def h1 id swap)
    moreover have "shows_log ?t' (hist @ [?p]) []"
    proof -
      obtain x xs where x: "drop k (hist @ [?p]) = x # xs" using k(1) by (cases "drop k (hist @ [?p])") auto
      have "x \<in> set (hist @ [?p])" by (rule in_set_dropD [of x k]) (use x in simp)
      then have "length x = ?w" using lines by blast
      moreover have "drop (Suc k) (hist @ [?p]) = xs"
        using x by (metis drop_Suc list.sel(3) tl_drop)
      moreover have "buffer t = x @ concat xs"
        using buf dk True unfolding x [symmetric, unfolded concat.simps] concat.simps(2) [symmetric] x [symmetric]
        by simp
      moreover from this \<open>length x = ?w\<close> have "drop ?w (buffer t) = concat xs" by simp
      ultimately have d: "drop ?w (buffer t) = concat (drop (Suc k) (hist @ [?p]))"
        by (simp only:)
      have "length (hist @ [?p]) - ?r = Suc k" using ok(5) by (simp add: k_def)
      moreover have "length (buffer ?t') = length (buffer t)"
        using ok(1) by (auto simp: term_ok_def)
      moreover have "?h - ?r = 1" using True by simp
      ultimately show ?thesis
        unfolding shows_log_col using ok lines d by (simp add: term_ok_def del: drop_append drop_Suc_Cons)
    qed
    ultimately show ?thesis
      by (intro exI [of _ ?t'] exI [of _ "update_cursor ?t' s"]) (simp add: same_screen_def)
  qed
qed

lemma log_length:
  assumes "shows_log t hist cur" "length ys \<le> unat (width t)"
  shows "length (concat (drop (length hist - unat (row t)) hist) @ pad (unat (width t)) (blank t) ys @
    replicate ((unat (height t) - Suc (unat (row t))) * unat (width t)) (blank t)) =
    unat (width t) * unat (height t)"
proof -
  from assms(1) have "buffer t = concat (drop (length hist - unat (row t)) hist) @
      pad (unat (width t)) (blank t) cur @
      replicate ((unat (height t) - Suc (unat (row t))) * unat (width t)) (blank t)"
    "length (buffer t) = unat (width t) * unat (height t)" "length cur \<le> unat (width t)"
    unfolding shows_log_def term_ok_def by blast+
  from arg_cong [OF this(1), of length] this(2,3) assms(2) show ?thesis by (simp add: pad_def)
qed

text \<open>A cell of the current line.\<close>

lemma put_cell_log:
  assumes log: "shows_log t hist cur" and c: "c < unat (width t)" "unat c' = c"
  shows "put_cell (row t * width t + c') v t = Inr (t\<lparr>buffer :=
      concat (drop (length hist - unat (row t)) hist) @ (pad (unat (width t)) (blank t) cur)[c := v] @
       replicate ((unat (height t) - Suc (unat (row t))) * unat (width t)) (blank t)\<rparr>)"
proof -
  let ?w = "unat (width t)" and ?h = "unat (height t)" and ?r = "unat (row t)"
  let ?p = "pad ?w (blank t) cur" and ?hs = "drop (length hist - ?r) hist"
  have ok: "?w * ?h < 4294967296" "length (buffer t) = ?w * ?h" "?r < ?h"
    "length cur \<le> ?w" "\<forall>l \<in> set hist. length l = ?w" "?r \<le> length hist"
    "buffer t = concat ?hs @ ?p @ replicate ((?h - Suc ?r) * ?w) (blank t)"
    using log unfolding shows_log_def term_ok_def by blast+
  have "c' = word_of_nat c" using c(2) by auto
  then have u: "unat (row t * width t + c') = ?r * ?w + c" "?r * ?w + c < ?w * ?h"
    using unat_cell [OF ok(1,3) c(1)] by simp_all
  have "length (concat ?hs) = ?r * ?w"
    using length_concat_const [of ?hs ?w] ok(5,6) by (auto dest: in_set_dropD)
  moreover have "length ?p = ?w" using ok(4) by (simp add: pad_def)
  ultimately have "(buffer t)[?r * ?w + c := v] =
      concat ?hs @ ?p[c := v] @ replicate ((?h - Suc ?r) * ?w) (blank t)"
    unfolding ok(7) using c(1) by (simp add: list_update_append)
  then show ?thesis using u ok(2) by (simp add: put_cell_def)
qed

lemma put_cell_col:
  assumes "put_cell i v t = Inr (t\<lparr>buffer := b\<rparr>)"
  shows "put_cell i v (t\<lparr>col := c\<rparr>) = Inr (t\<lparr>col := c, buffer := b\<rparr>)"
proof -
  from assms have i: "unat i < length (buffer t)" "t\<lparr>buffer := (buffer t)[unat i := v]\<rparr> = t\<lparr>buffer := b\<rparr>"
    by (auto simp: put_cell_def split: if_splits)
  from arg_cong [OF i(2), of buffer] i(1) show ?thesis by (simp add: put_cell_def)
qed

lemma putchar_log:
  assumes log: "shows_log t hist cur" and c: "c \<noteq> 9"
  shows "\<exists>t' s'. terminal_putchar c (t, s) = Inr (t', s') \<and> quiet s s' \<and> same_screen t t' \<and>
    (case log_put (unat (width t)) (color t) c (hist, cur) of (hist', cur') \<Rightarrow> shows_log t' hist' cur')"
proof -
  let ?w = "unat (width t)" and ?e = "vga_entry_create c (color t)"
  let ?p = "pad ?w (blank t) cur"
  have w: "0 < ?w" and cur: "unat (col t) = length cur" "length cur \<le> ?w"
    using log by (simp_all add: shows_log_def term_ok_def)
  have store: "\<exists>t' s'. bind_res (put_cell (row u * width u + col u) (vga_entry_create c (color u)) u) (\<lambda>t.
        let t = t\<lparr>col := col t + 1\<rparr> in Inr (t, update_cursor t s)) = Inr (t', s') \<and> quiet s s' \<and>
        same_screen u t' \<and> shows_log t' h (x @ [vga_entry_create c (color u)])"
    if l: "shows_log u h x" and x: "length x < unat (width u)" for u h x s
  proof -
    let ?v = "vga_entry_create c (color u)"
    have cu: "unat (col u) = length x" using l by (simp add: shows_log_def)
    have p: "(pad (unat (width u)) (blank u) x)[length x := ?v] = pad (unat (width u)) (blank u) (x @ [?v])"
    proof -
      obtain k where "unat (width u) - length x = Suc k" using x by (cases "unat (width u) - length x") auto
      moreover from this have "unat (width u) - Suc (length x) = k" by simp
      ultimately show ?thesis by (simp add: pad_def list_update_append)
    qed
    let ?b = "concat (drop (length h - unat (row u)) h) @ pad (unat (width u)) (blank u) (x @ [?v]) @
       replicate ((unat (height u) - Suc (unat (row u))) * unat (width u)) (blank u)"
    let ?u = "u\<lparr>buffer := ?b, col := col u + 1\<rparr>"
    have "unat (col u + 1) = Suc (length x)"
      using cu x unat_lt_u32 [of "width u"] by (subst unat_Suc_u32) (simp_all del: unat_lt_u32)
    moreover have "length ?b = unat (width u) * unat (height u)"
      by (rule log_length [OF l]) (use x in simp)
    ultimately have "shows_log ?u h (x @ [?v])"
      using l x by (auto simp: shows_log_def term_ok_def)
    moreover have "put_cell (row u * width u + col u) ?v u = Inr (u\<lparr>buffer := ?b\<rparr>)"
      using put_cell_log [OF l x cu, of ?v] by (simp only: p)
    ultimately show ?thesis
      by (intro exI [of _ ?u] exI [of _ "update_cursor ?u s"]) (auto simp: same_screen_def Let_def)
  qed
  consider "c = ch CHR ''\<newline>''" | "c = 8" "cur = []" | "c = 8" "cur \<noteq> []"
    | "c \<noteq> ch CHR ''\<newline>''" "c \<noteq> 8" "length cur = ?w"
    | "c \<noteq> ch CHR ''\<newline>''" "c \<noteq> 8" "length cur < ?w"
    using cur(2) by fastforce
  then show ?thesis
  proof cases
    case 1
    from next_row_log [OF log, of s] obtain t' s' where
      "next_row t s = Inr (t', s')" "quiet s s'" "same_screen t t'" "shows_log t' (hist @ [?p]) []" by blast
    then show ?thesis
      using 1 by (auto simp: terminal_putchar_def log_put_def blank_def Let_def intro: quiet_trans)
  next
    case 2
    then show ?thesis
      using log cur by (auto simp: terminal_putchar_def log_put_def terminal_backspace_def Let_def
          same_screen_def word_unat_eq_iff)
  next
    case 3
    let ?t = "t\<lparr>col := col t - 1\<rparr>"
    obtain x e where x: "cur = x @ [e]" using 3(2) by (cases cur rule: rev_cases) auto
    have c1: "unat (col t - 1) = length x" using cur x by (subst unat_minus_1_u32) auto
    have lx: "length x < ?w" using cur(2) x by simp
    have p: "?p[length x := blank t] = pad ?w (blank t) x"
      using cur(2) x by (simp add: pad_def list_update_append Suc_diff_Suc [symmetric])
    let ?b = "concat (drop (length hist - unat (row t)) hist) @ pad ?w (blank t) x @
       replicate ((unat (height t) - Suc (unat (row t))) * ?w) (blank t)"
    have "put_cell (row t * width t + (col t - 1)) (blank t) t = Inr (t\<lparr>buffer := ?b\<rparr>)"
      using put_cell_log [OF log lx c1, of "blank t"] by (simp only: p)
    then have "put_cell (row ?t * width ?t + col ?t) (blank ?t) ?t = Inr (?t\<lparr>buffer := ?b\<rparr>)"
      by (simp add: put_cell_col)
    moreover have "length ?b = ?w * unat (height t)"
      by (rule log_length [OF log]) (use x cur in simp)
    then have "shows_log (?t\<lparr>buffer := ?b\<rparr>) hist x"
      using log x c1 by (auto simp: shows_log_def term_ok_def)
    moreover have "col t \<noteq> 0" using cur x by auto
    ultimately show ?thesis
      using 3 x by (auto simp: terminal_putchar_def log_put_def terminal_backspace_def Let_def
          same_screen_def blank_def)
  next
    case 4
    from next_row_log [OF log, of s] obtain t' s' where n:
      "next_row t s = Inr (t', s')" "quiet s s'" "same_screen t t'" "shows_log t' (hist @ [?p]) []" by blast
    from store [OF n(4), of s'] n(3) w obtain t'' s'' where
      "bind_res (put_cell (row t' * width t' + col t') (vga_entry_create c (color t')) t') (\<lambda>t.
        let t = t\<lparr>col := col t + 1\<rparr> in Inr (t, update_cursor t s')) = Inr (t'', s'')" "quiet s' s''"
      "same_screen t' t''" "shows_log t'' (hist @ [?p]) [vga_entry_create c (color t')]"
      by (auto simp: same_screen_def)
    moreover have "width t \<le> col t" using 4(3) cur by (simp add: word_le_nat_alt)
    ultimately show ?thesis
      using 4 c n by (auto simp: terminal_putchar_def log_put_def blank_def same_screen_def
          intro: quiet_trans)
  next
    case 5
    then have "\<not> width t \<le> col t" using cur by (simp add: word_le_nat_alt)
    with 5 c store [OF log 5(3), of s] show ?thesis
      by (auto simp: terminal_putchar_def log_put_def)
  qed
qed

subsection \<open>Printing strings\<close>

definition log_print :: "nat \<Rightarrow> u8 \<Rightarrow> u8 list \<Rightarrow> u16 list list \<times> u16 list \<Rightarrow> u16 list list \<times> u16 list" where
  "log_print w colour xs l = fold (log_put w colour) xs l"

definition displays :: "Terminal \<Rightarrow> u16 list list \<times> u16 list \<Rightarrow> bool" where
  "displays t l \<longleftrightarrow> shows_log t (fst l) (snd l)"

lemma putchar_displays:
  assumes "displays t l" "c \<noteq> 9"
  shows "\<exists>t' s'. terminal_putchar c (t, s) = Inr (t', s') \<and> quiet s s' \<and> same_screen t t' \<and>
    displays t' (log_put (unat (width t)) (color t) c l)"
  using putchar_log [of t "fst l" "snd l" c s] assms
  by (cases "log_put (unat (width t)) (color t) c l") (auto simp: displays_def)

lemma print_loop_displays:
  assumes "displays t l" "str_at m p xs" "9 \<notin> set xs" "length xs < k"
  shows "\<exists>t' s'. terminal_print_loop k m p (t, s) = Inr (t', s') \<and> quiet s s' \<and> same_screen t t' \<and>
    displays t' (log_print (unat (width t)) (color t) xs l)"
  using assms
proof (induction k arbitrary: t l p xs s)
  case (Suc k)
  show ?case
  proof (cases xs)
    case Nil
    then show ?thesis
      using Suc.prems by (auto simp: log_print_def same_screen_def dest: str_at_head)
  next
    case (Cons x ys)
    then have x: "m p = x" "x \<noteq> 0" "x \<noteq> 9" "str_at m (p + 1) ys"
      using Suc.prems(2,3) by (auto dest: str_at_head)
    from putchar_displays [OF Suc.prems(1) x(3), of s] obtain t' s' where 1:
      "terminal_putchar x (t, s) = Inr (t', s')" "quiet s s'" "same_screen t t'"
      "displays t' (log_put (unat (width t)) (color t) x l)" by blast
    from Suc.IH [OF 1(4) x(4), of s'] Suc.prems(3,4) Cons obtain t'' s'' where 2:
      "terminal_print_loop k m (p + 1) (t', s') = Inr (t'', s'')" "quiet s' s''" "same_screen t' t''"
      "displays t'' (log_print (unat (width t')) (color t') ys (log_put (unat (width t)) (color t) x l))"
      by auto
    then show ?thesis
      using 1 x Cons by (auto simp: same_screen_def log_print_def intro: quiet_trans)
  qed
qed simp

lemma terminal_init_displays:
  assumes "0 < unat w" "0 < unat h" "unat w * unat h < 4294967296" "length buf = unat w * unat h"
  shows "\<exists>t. terminal_init w h buf = Inr t \<and> width t = w \<and> height t = h \<and> displays t ([], [])"
proof -
  let ?t = "\<lparr>row = 0, col = 0, width = w, height = h,
     color = vga_color_create VGA_COLOR_LIGHT_GREY VGA_COLOR_BLACK, buffer = buf\<rparr>"
  let ?n = "unat w * unat h"
  let ?b = "fold (\<lambda>i b. b[0 + i := blank ?t]) [0..<?n] buf"
  have n: "unat (w * h) = ?n" using assms(3) by (simp add: unat_word_ariths)
  have "fold_res (\<lambda>i t. put_cell i (vga_entry_create (ch CHR '' '') (color t)) t)
      (map word_of_nat [0..<?n]) (?t\<lparr>buffer := buf\<rparr>) = Inr (?t\<lparr>buffer := ?b\<rparr>) \<and> length ?b = ?n"
  proof (rule fold_res_buffer [OF _ assms(4)])
    fix i and b :: "u16 list"
    assume "i \<in> set [0..<?n]" "length b = ?n"
    then show "put_cell (word_of_nat i) (vga_entry_create (ch CHR '' '') (color (?t\<lparr>buffer := b\<rparr>)))
        (?t\<lparr>buffer := b\<rparr>) = Inr (?t\<lparr>buffer := b[0 + i := blank ?t]\<rparr>) \<and>
      length (b[0 + i := blank ?t]) = ?n"
      using assms(3) by (simp add: put_cell_def unat_of_nat_u32 blank_def)
  qed
  then have run: "terminal_init w h buf = Inr (?t\<lparr>buffer := ?b\<rparr>)"
    by (simp add: terminal_init_def range_u32_def n Let_def)
  have "?b = replicate ?n (blank ?t)"
    by (rule nth_equalityI) (use fold_fill [of 0 "blank ?t" ?n buf] assms(4) in auto)
  then have "shows_log ((?t\<lparr>buffer := ?b\<rparr>)\<lparr>col := 0\<rparr>) [] []"
    unfolding shows_log_col using assms by (simp add: term_ok_def mult.commute blank_def)
  then have "displays (?t\<lparr>buffer := ?b\<rparr>) ([], [])" by (simp add: displays_def)
  then show ?thesis using run by (intro exI [of _ "?t\<lparr>buffer := ?b\<rparr>"]) simp
qed

text \<open>C36: printing a string without tabulators never leaves the frame buffer, and the screen
  then shows the last lines of the log to which the characters were added: line breaks and full
  lines start a new line, a backspace takes back a character of the current line only, and the
  rows that scroll off are the oldest. Nothing is sent to the serial line.\<close>

theorem terminal_print_correct:
  assumes "displays t l" "str_at m p xs" "9 \<notin> set xs"
  shows "\<exists>t' s'. terminal_print_string m p (t, s) = Inr (t', s') \<and> quiet s s' \<and> same_screen t t' \<and>
    displays t' (log_print (unat (width t)) (color t) xs l)"
  using print_loop_displays [OF assms, of "2 ^ 32" s] assms(2)
  by (simp add: terminal_print_string_def str_at_def)

theorem terminal_print_correct_witness:
  "\<exists>t t' s'. terminal_init 4 2 (replicate 8 0) = Inr t \<and>
     terminal_print_string (write_bytes (\<lambda>_. 0) 0x100 (map of_char ''hello'' @ [0])) 0x100 (t, demo_line)
       = Inr (t', s') \<and>
     displays t' ([map (\<lambda>c. vga_entry_create (of_char c) (color t)) ''hell''],
       [vga_entry_create (of_char CHR ''o'') (color t)])"
proof -
  obtain t where t: "terminal_init 4 2 (replicate 8 0) = Inr t" "width t = 4" "displays t ([], [])"
    using terminal_init_displays [of 4 2 "replicate 8 0"] by auto
  have at: "str_at (write_bytes (\<lambda>_. 0) 0x100 (map of_char ''hello'' @ [0])) 0x100 (map of_char ''hello'')"
    by (rule str_at_write) auto
  have "log_print (unat (width t)) (color t) (map of_char ''hello'') ([], []) =
      ([map (\<lambda>c. vga_entry_create (of_char c) (color t)) ''hell''],
       [vga_entry_create (of_char CHR ''o'') (color t)])"
    using t(2) by (simp add: log_print_def log_put_def Let_def pad_def)
  with terminal_print_correct [OF t(3) at, of demo_line] t(1) show ?thesis by auto
qed

text \<open>C37: the tabulator does not stop at the end of the row. In the last row, with less than
  four free columns, a tabulator and a backspace store a cell behind the frame buffer.\<close>

theorem tab_backspace_leaves_buffer:
  assumes log: "displays t (hist, cur)" and last: "Suc (unat (row t)) = unat (height t)"
    and full: "unat (width t) < length cur + 4"
    and small: "unat (width t) * unat (height t) + 4 < 4294967296"
  shows "bind_res (terminal_putchar 9 (t, s)) (terminal_putchar 8) = Inl OutOfBounds"
proof -
  let ?w = "unat (width t)" and ?h = "unat (height t)"
  have ok: "unat (col t) = length cur" "length cur \<le> ?w" "length (buffer t) = ?w * ?h" "0 < ?w"
    using log by (auto simp: displays_def shows_log_def term_ok_def)
  have "?w * 1 \<le> ?w * ?h" using last by (intro mult_le_mono) simp_all
  then have w: "?w \<le> ?w * ?h" by simp
  have lw: "length cur + 4 < 4294967296" using ok(2) w small by linarith
  have c: "unat (col t + 4) = length cur + 4"
    using ok(1) lw by (subst unat_add_u32) simp_all
  then have c1: "unat (col t + 3) = length cur + 3"
    using ok(1) lw by (subst unat_add_u32) simp_all
  have "?w * ?h = unat (row t) * ?w + ?w" using last by (simp add: mult.commute flip: last)
  then have rw: "unat (row t * width t) = unat (row t) * ?w" "unat (row t) * ?w + ?w = ?w * ?h"
    using small by (simp_all add: unat_word_ariths)
  have "unat (row t * width t + (col t + 3)) = unat (row t) * ?w + (length cur + 3)"
    using rw c1 ok(2) small by (subst unat_add_u32) simp_all
  moreover have "?w * ?h \<le> unat (row t) * ?w + (length cur + 3)" using rw(2) full by linarith
  moreover have "col t + 4 \<noteq> 0" using c by auto
  moreover have "col t + 4 - 1 = col t + 3" by simp
  ultimately show ?thesis
    using ok(3) by (simp add: terminal_putchar_def terminal_backspace_def Let_def put_cell_def
        add.commute [of 3 "col t"])
qed

theorem tab_backspace_leaves_buffer_witness:
  "\<exists>t. terminal_init 2 1 (replicate 2 0) = Inr t \<and>
     bind_res (terminal_putchar 9 (t, demo_line)) (terminal_putchar 8) = Inl OutOfBounds"
proof -
  obtain t where t: "terminal_init 2 1 (replicate 2 0) = Inr t" "width t = 2" "height t = 1"
    "displays t ([], [])" using terminal_init_displays [of 2 1 "replicate 2 0"] by auto
  moreover have "unat (row t) = 0" using t(3,4) by (simp add: displays_def shows_log_def)
  ultimately show ?thesis using tab_backspace_leaves_buffer [OF t(4), of demo_line] by simp
qed

end
