(* ===== verification/Logging.thy ===== *)
theory Logging
  imports TerminalLog
begin

section \<open>The kernel log (\<^verbatim>\<open>lib/logging.c\<close>)\<close>

text \<open>
  \<^verbatim>\<open>printk\<close> formats a prefix and a message into the kernel's buffer and sends every
  character to the terminal and to the serial line. The addresses of its literals are
  parameters.
\<close>

unbundle bit_operations_syntax

datatype LogLevel = CRITICAL | INFO | DEBUG

fun level_num :: "LogLevel \<Rightarrow> nat" where
  "level_num CRITICAL = 0"
| "level_num INFO = 1"
| "level_num DEBUG = 2"

lemma level_num_inj: "level_num x = level_num y \<Longrightarrow> x = y"
  by (cases x; cases y) simp_all

instantiation LogLevel :: linorder
begin

definition less_eq_LogLevel :: "LogLevel \<Rightarrow> LogLevel \<Rightarrow> bool" where
  "less_eq_LogLevel x y \<longleftrightarrow> level_num x \<le> level_num y"

definition less_LogLevel :: "LogLevel \<Rightarrow> LogLevel \<Rightarrow> bool" where
  "less_LogLevel x y \<longleftrightarrow> level_num x < level_num y"

instance
  by standard (auto simp: less_eq_LogLevel_def less_LogLevel_def dest: level_num_inj)

end

fun LEVELS :: "LogLevel \<Rightarrow> string" where
  "LEVELS CRITICAL = ''CRITICAL''"
| "LEVELS INFO = ''INFO''"
| "LEVELS DEBUG = ''DEBUG''"

text \<open>Where the literals are.\<close>

record log_literals =
  prefix_fmt :: u32
  level_str :: "LogLevel \<Rightarrow> u32"

definition set_loglevel :: "LogLevel \<Rightarrow> LogLevel \<Rightarrow> LogLevel" where
  "set_loglevel LOGLEVEL lvl = lvl"

primrec printk_loop :: "nat \<Rightarrow> bytes \<Rightarrow> u32 \<Rightarrow> Terminal \<times> io \<Rightarrow> (Terminal \<times> io) res" where
  "printk_loop 0 m str x = Inl Diverges"
| "printk_loop (Suc k) m str x =
     (if m str \<noteq> 0 then
        bind_res (terminal_putchar (m str) x) (\<lambda>(t, s).
        bind_res (serial_write (m str) s) (\<lambda>s.
        printk_loop k m (str + 1) (t, s)))
      else Inr x)"

definition printk :: "senv \<Rightarrow> log_literals \<Rightarrow> u32 \<Rightarrow> LogLevel \<Rightarrow> LogLevel \<Rightarrow> u32 \<Rightarrow> u32 list \<Rightarrow>
    bytes \<times> Terminal \<times> io \<Rightarrow> (bytes \<times> Terminal \<times> io) res" where
  "printk E L temp_buffer LOGLEVEL lvl fmt args = (\<lambda>(m, x).
     if lvl > LOGLEVEL then Inr (m, x)
     else
       bind_res (snprintf E m 0 0 (prefix_fmt L) [level_str L lvl]) (\<lambda>(prefix_len, m).
       bind_res (snprintf E m temp_buffer TEMP_BUFFER_LENGTH (prefix_fmt L) [level_str L lvl]) (\<lambda>(_, m).
       bind_res (vsnprintf E m (temp_buffer + prefix_len) (TEMP_BUFFER_LENGTH - prefix_len) fmt args) (\<lambda>(_, m).
       bind_res (printk_loop (2 ^ 32) m temp_buffer x) (\<lambda>x. Inr (m, x))))))"

subsection \<open>Text without zero bytes\<close>

lemma text_nonzero: "piece_ok E m b n p \<Longrightarrow> 0 \<notin> set (text_of p)"
proof -
  have dig: "word_of_nat d + 48 \<noteq> (0 :: u8)" if "d < 10" for d
  proof -
    have "unat (word_of_nat d + 48 :: u8) = d + 48"
      using that by (simp add: unat_word_ariths unat_of_nat)
    then show ?thesis by (metis add_is_0 unsigned_0 zero_neq_numeral)
  qed
  have "HEX_DIGITS ! d \<noteq> 0" if "d < 16" for d
  proof -
    have "length HEX_DIGITS = 16" "\<forall>x \<in> set HEX_DIGITS. x \<noteq> 0" by (simp_all add: HEX_DIGITS_def)
    with that show ?thesis by simp
  qed
  then have hex: "0 \<notin> set (hex_text v)" for v using digits_less [of 16] by (force simp: hex_text_def)
  have dec: "0 \<notin> set (dec_text v)" for v using digits_less [of 10] dig by (force simp: dec_text_def)
  have bin: "0 \<notin> set (bin_text v)" for v using digits_less [of 2] dig by (force simp: bin_text_def)
  have str: "str_at m a xs \<Longrightarrow> 0 \<notin> set xs" for a xs by (auto simp: str_at_def in_set_conv_nth)
  assume "piece_ok E m b n p"
  then show "0 \<notin> set (text_of p)"
    using hex dec bin str by (cases p) (auto simp: int_text_def ptr_text_def)
qed

lemma texts_nonzero: "\<forall>p \<in> set ps. piece_ok E m b n p \<Longrightarrow> 0 \<notin> set (texts ps)"
  unfolding texts_def using text_nonzero by fastforce

subsection \<open>Two writes in a row\<close>

lemma write_bytes_again:
  assumes "length xs + length ys < 4294967296" "ys \<noteq> []"
  shows "write_bytes (write_bytes m b (xs @ [0])) (b + word_of_nat (length xs)) ys = write_bytes m b (xs @ ys)"
proof -
  have "write_bytes (write_bytes m b (xs @ [0])) (b + word_of_nat (length xs)) ys =
      write_bytes (write_bytes m b xs) (b + word_of_nat (length xs)) ys"
  proof
    fix a
    let ?c = "b + word_of_nat (length xs) :: u32"
    have l: "length xs < 4294967296" using assms(1) by simp
    show "write_bytes (write_bytes m b (xs @ [0])) ?c ys a = write_bytes (write_bytes m b xs) ?c ys a"
    proof (cases "a = ?c")
      case True
      then show ?thesis using assms(2) by (simp add: write_bytes_def)
    next
      case False
      have "unat (a - b) \<noteq> length xs"
      proof
        assume "unat (a - b) = length xs"
        then have "a - b = word_of_nat (length xs)" by (metis of_nat_unat ucast_id)
        then show False using False by (simp add: eq_diff_eq algebra_simps)
      qed
      then show ?thesis by (auto simp: write_bytes_def nth_append)
    qed
  qed
  also have "\<dots> = write_bytes m b (xs @ ys)"
    by (rule write_bytes_append) (use assms in simp)
  finally show ?thesis .
qed

lemma outside_part:
  assumes "outside b n s l" "k \<le> unat n"
  shows "outside (b + word_of_nat k) (n - word_of_nat k) s l"
  by (rule outside_sub [OF assms])

lemma piece_ok_moved:
  assumes "piece_ok E m b n p" "b \<noteq> 0" "k \<le> unat n"
  shows "piece_ok E (written m b n xs) (b + word_of_nat k) (n - word_of_nat k) p"
  using assms
  by (cases p) (auto intro!: str_at_written outside_sub)

subsection \<open>The output loop\<close>

lemma serial_write_data:
  assumes "line_live (device s)"
  shows "\<exists>s'. serial_write x s = Inr s' \<and> device s' = device s \<and> serial_data s' = serial_data s @ [x]"
proof -
  have "becomes_ready s 0x20" using assms by (auto simp: line_live_def becomes_ready_def)
  then obtain n where "serial_write x s = Inr (outb PORT_COM1 x (s\<lparr>reads := n\<rparr>))"
    using serial_write_ready by blast
  then show ?thesis by (auto simp: outb_def serial_data_def)
qed

lemma printk_loop_ok:
  assumes "displays t l" "line_live (device s)" "str_at m p xs" "9 \<notin> set xs" "length xs < k"
  shows "\<exists>t' s'. printk_loop k m p (t, s) = Inr (t', s') \<and> same_screen t t' \<and> device s' = device s \<and>
    serial_data s' = serial_data s @ xs \<and>
    displays t' (log_print (unat (width t)) (color t) xs l)"
  using assms
proof (induction k arbitrary: t l p xs s)
  case (Suc k)
  show ?case
  proof (cases xs)
    case Nil
    then show ?thesis
      using Suc.prems by (auto simp: log_print_def same_screen_def dest: str_at_head)
  next
    case (Cons x ys)
    then have x: "m p = x" "x \<noteq> 0" "x \<noteq> 9" "str_at m (p + 1) ys"
      using Suc.prems(3,4) by (auto dest: str_at_head)
    from putchar_displays [OF Suc.prems(1) x(3), of s] obtain t' s' where 1:
      "terminal_putchar x (t, s) = Inr (t', s')" "quiet s s'" "same_screen t t'"
      "displays t' (log_put (unat (width t)) (color t) x l)" by blast
    then have "line_live (device s')" using Suc.prems(2) by (simp add: quiet_def)
    from serial_write_data [OF this, of x] 1(2) obtain s2 where 2: "serial_write x s' = Inr s2"
      "device s2 = device s" "serial_data s2 = serial_data s @ [x]" by (auto simp: quiet_def)
    then have "line_live (device s2)" using Suc.prems(2) by simp
    from Suc.IH [OF 1(4) this x(4)] Suc.prems(4,5) Cons obtain t'' s'' where
      "printk_loop k m (p + 1) (t', s2) = Inr (t'', s'')" "device s'' = device s2" "same_screen t' t''"
      "serial_data s'' = serial_data s2 @ ys"
      "displays t'' (log_print (unat (width t')) (color t') ys (log_put (unat (width t)) (color t) x l))"
      by auto
    then show ?thesis
      using 1 2 x Cons by (auto simp: same_screen_def log_print_def)
  qed
qed simp

subsection \<open>printk\<close>

definition level_prefix :: "LogLevel \<Rightarrow> u8 list" where
  "level_prefix lvl = map of_char (''<'' @ LEVELS lvl @ ''>: '')"

text \<open>The literals are in memory, outside of the buffer.\<close>

definition literals_ok :: "bytes \<Rightarrow> u32 \<Rightarrow> log_literals \<Rightarrow> LogLevel \<Rightarrow> bool" where
  "literals_ok m temp_buffer L lvl \<longleftrightarrow>
     level_str L lvl \<noteq> 0 \<and> str_at m (level_str L lvl) (map of_char (LEVELS lvl)) \<and>
     outside temp_buffer TEMP_BUFFER_LENGTH (level_str L lvl) (length (LEVELS lvl)) \<and>
     str_at m (prefix_fmt L) (map of_char ''<%s>: '') \<and>
     outside temp_buffer TEMP_BUFFER_LENGTH (prefix_fmt L) (length ''<%s>: '')"

definition prefix_pieces :: "log_literals \<Rightarrow> LogLevel \<Rightarrow> piece list" where
  "prefix_pieces L lvl = [Lit (ch CHR ''<''), Str (level_str L lvl) (map of_char (LEVELS lvl)),
     Lit (ch CHR ''>''), Lit (ch CHR '':''), Lit (ch CHR '' '')]"

lemma prefix_pieces:
  "formats (prefix_pieces L lvl) = map of_char ''<%s>: ''"
  "texts (prefix_pieces L lvl) = level_prefix lvl"
  "arguments (prefix_pieces L lvl) = [level_str L lvl]"
  by (simp_all add: prefix_pieces_def formats_def texts_def arguments_def level_prefix_def)

lemma level_prefix_length: "length (level_prefix lvl) \<le> 12" "4 < length (level_prefix lvl)"
  "0 \<notin> set (level_prefix lvl)" "9 \<notin> set (level_prefix lvl)"
  by (cases lvl; simp add: level_prefix_def)+

text \<open>The two calls of the formatter, and the text they leave in the buffer.\<close>

lemma printk_format:
  assumes buf: "temp_buffer \<noteq> 0" "unat temp_buffer + 8192 \<le> 4294967296"
    and lit: "literals_ok m temp_buffer L lvl"
    and pieces: "\<forall>p \<in> set ps. piece_ok E m temp_buffer TEMP_BUFFER_LENGTH p"
    and fmt: "str_at m fmt (formats ps)" "outside temp_buffer TEMP_BUFFER_LENGTH fmt (length (formats ps))"
    and len: "length (texts ps) < 4294967296"
  obtains k m1 where "snprintf E m 0 0 (prefix_fmt L) [level_str L lvl] = Inr (k, m)"
    "snprintf E m temp_buffer TEMP_BUFFER_LENGTH (prefix_fmt L) [level_str L lvl] = Inr (k, m1)"
    "vsnprintf E m1 (temp_buffer + k) (TEMP_BUFFER_LENGTH - k) fmt (arguments ps) =
       Inr (word_of_nat (length (texts ps)), write_bytes m temp_buffer (take 8191 (level_prefix lvl @ texts ps) @ [0]))"
proof -
  let ?b = temp_buffer and ?n = TEMP_BUFFER_LENGTH and ?pre = "level_prefix lvl"
  let ?k = "length ?pre"
  have n: "unat ?n = 8192" by (simp add: TEMP_BUFFER_LENGTH_def)
  note k = level_prefix_length [of lvl]
  have lk: "unat (word_of_nat ?k :: u32) = ?k" using k(1) by (simp add: unat_of_nat_u32)
  have pok: "\<forall>p \<in> set (prefix_pieces L lvl). piece_ok E m b n p"
    if "b = 0 \<or> outside b n (level_str L lvl) (length (LEVELS lvl))" for b n
    using lit that by (simp add: prefix_pieces_def literals_ok_def)
  have 1: "snprintf E m 0 0 (prefix_fmt L) [level_str L lvl] = Inr (word_of_nat ?k, m)"
    using vsnprintf_run [of 0 0 "prefix_pieces L lvl" E m "prefix_fmt L" "[]"] pok [of 0 0] lit k(1)
    by (simp add: prefix_pieces snprintf_def literals_ok_def)
  define m1 where "m1 = write_bytes m ?b (?pre @ [0])"
  have 2: "snprintf E m ?b ?n (prefix_fmt L) [level_str L lvl] = Inr (word_of_nat ?k, m1)"
    using vsnprintf_run [of ?b ?n "prefix_pieces L lvl" E m "prefix_fmt L" "[]"] pok [of ?b ?n] lit k(1) buf n
    by (simp add: prefix_pieces snprintf_def literals_ok_def m1_def TEMP_BUFFER_LENGTH_def)
  have m1: "m1 = written m ?b ?n (?pre @ [0])"
    using buf k(1) n by (simp add: m1_def written_def)
  let ?b' = "?b + word_of_nat ?k" and ?n' = "?n - word_of_nat ?k"
  have n': "unat ?n' = 8192 - ?k" using n lk k(1) by (subst unat_sub) (simp_all add: word_le_nat_alt)
  have b': "unat ?b' = unat ?b + ?k" using buf(2) k(1) lk by (subst unat_add_u32) simp_all
  then have b0: "?b' \<noteq> 0" using k(2) by auto
  let ?out = "take (unat ?n' - 1) (texts ps)"
  have "vsnprintf E m1 ?b' ?n' fmt (arguments ps @ []) = Inr (word_of_nat (length (texts ps)),
      if ?b' = 0 \<or> ?n' = 0 then m1 else write_bytes m1 ?b' (?out @ [0]))"
  proof (rule vsnprintf_run)
    show "unat ?b' + unat ?n' \<le> 4294967296" using b' n' buf(2) k(1) by simp
    show "\<forall>p \<in> set ps. piece_ok E m1 ?b' ?n' p"
      unfolding m1 using pieces piece_ok_moved [OF _ buf(1)] k(1) n by fastforce
    show "str_at m1 fmt (formats ps)" unfolding m1 by (rule str_at_written) (use fmt in simp_all)
    show "?b' = 0 \<or> outside ?b' ?n' fmt (length (formats ps))"
      by (rule disjI2, rule outside_sub [OF fmt(2)]) (use k(1) n in simp)
  qed (rule len)
  moreover have "?n' \<noteq> 0" using n' k(1) by auto
  moreover have "write_bytes m1 ?b' (?out @ [0]) = write_bytes m ?b (?pre @ ?out @ [0])"
    unfolding m1_def by (rule write_bytes_again) (use k(1) n' in auto)
  ultimately have 3: "vsnprintf E m1 ?b' ?n' fmt (arguments ps) =
      Inr (word_of_nat (length (texts ps)), write_bytes m ?b (?pre @ ?out @ [0]))"
    using b0 by simp
  have "?pre @ ?out = take 8191 (?pre @ texts ps)" using n' k(1) by simp
  then have out: "?pre @ ?out @ [0] = take 8191 (?pre @ texts ps) @ [0]" by (metis append_assoc)
  show ?thesis by (rule that [OF 1 2 3 [unfolded out]])
qed

lemma printk_prints:
  assumes screen: "displays t l" and line: "line_live (device s)"
    and buf: "temp_buffer \<noteq> 0" "unat temp_buffer + 8192 \<le> 4294967296"
    and lit: "literals_ok m temp_buffer L lvl"
    and pieces: "\<forall>p \<in> set ps. piece_ok E m temp_buffer TEMP_BUFFER_LENGTH p"
    and fmt: "str_at m fmt (formats ps)" "outside temp_buffer TEMP_BUFFER_LENGTH fmt (length (formats ps))"
    and len: "length (texts ps) < 4294967296" and tabs: "9 \<notin> set (texts ps)" and on: "lvl \<le> LOGLEVEL"
  shows "\<exists>m' t' s'. printk E L temp_buffer LOGLEVEL lvl fmt (arguments ps) (m, t, s) = Inr (m', t', s') \<and>
      same_screen t t' \<and> device s' = device s \<and>
      serial_data s' = serial_data s @ take 8191 (level_prefix lvl @ texts ps) \<and>
      displays t' (log_print (unat (width t)) (color t) (take 8191 (level_prefix lvl @ texts ps)) l) \<and>
      (\<forall>a. 8192 \<le> unat (a - temp_buffer) \<longrightarrow> m' a = m a)"
proof -
  let ?out = "take 8191 (level_prefix lvl @ texts ps)"
  define m2 where "m2 = write_bytes m temp_buffer (?out @ [0])"
  obtain k m1 where f: "snprintf E m 0 0 (prefix_fmt L) [level_str L lvl] = Inr (k, m)"
    "snprintf E m temp_buffer TEMP_BUFFER_LENGTH (prefix_fmt L) [level_str L lvl] = Inr (k, m1)"
    "vsnprintf E m1 (temp_buffer + k) (TEMP_BUFFER_LENGTH - k) fmt (arguments ps) = Inr (word_of_nat (length (texts ps)), m2)"
    unfolding m2_def by (rule printk_format [OF buf lit pieces fmt len])
  have "0 \<notin> set (texts ps)" by (rule texts_nonzero) (rule pieces)
  then have "\<forall>x \<in> set ?out. x \<noteq> 0" using level_prefix_length(3) [of lvl] by (auto dest!: in_set_takeD)
  then have at: "str_at m2 temp_buffer ?out" unfolding m2_def by (intro str_at_write) simp_all
  have "9 \<notin> set ?out" using tabs level_prefix_length(4) [of lvl] by (auto dest!: in_set_takeD)
  moreover have "length ?out < 2 ^ 32" by (rule le_less_trans [of _ 8191]) simp_all
  ultimately obtain t' s' where r: "printk_loop (2 ^ 32) m2 temp_buffer (t, s) = Inr (t', s')" "same_screen t t'" "device s' = device s"
    "serial_data s' = serial_data s @ ?out" "displays t' (log_print (unat (width t)) (color t) ?out l)"
    using printk_loop_ok [OF screen line at] by blast
  have "m2 a = m a" if "8192 \<le> unat (a - temp_buffer)" for a
    unfolding m2_def by (rule write_bytes_outside) (use that in simp)
  moreover have "printk E L temp_buffer LOGLEVEL lvl fmt (arguments ps) (m, t, s) = Inr (m2, t', s')"
    using on f r(1) by (simp add: printk_def not_less [symmetric])
  ultimately show ?thesis using r(2-5) by blast
qed

text \<open>C38: a message whose level is enabled appears once on the terminal's log and once on the
  serial line, character by character in the same order, as the level in angle brackets and the
  formatted text, cut off after 8191 characters; the call returns when the serial line becomes
  ready again and again, and memory outside of the buffer is unchanged. A message of a level
  that is not enabled changes nothing.\<close>

theorem printk_correct:
  assumes screen: "displays t l" and line: "line_live (device s)"
    and buf: "temp_buffer \<noteq> 0" "unat temp_buffer + 8192 \<le> 4294967296"
    and lit: "literals_ok m temp_buffer L lvl"
    and pieces: "\<forall>p \<in> set ps. piece_ok E m temp_buffer TEMP_BUFFER_LENGTH p"
    and fmt: "str_at m fmt (formats ps)" "outside temp_buffer TEMP_BUFFER_LENGTH fmt (length (formats ps))"
    and len: "length (texts ps) < 4294967296" and tabs: "9 \<notin> set (texts ps)"
  shows "if lvl \<le> LOGLEVEL then
      \<exists>m' t' s'. printk E L temp_buffer LOGLEVEL lvl fmt (arguments ps) (m, t, s) = Inr (m', t', s') \<and>
        serial_data s' = serial_data s @ take 8191 (level_prefix lvl @ texts ps) \<and>
        displays t' (log_print (unat (width t)) (color t) (take 8191 (level_prefix lvl @ texts ps)) l) \<and>
        (\<forall>a. 8192 \<le> unat (a - temp_buffer) \<longrightarrow> m' a = m a)
    else printk E L temp_buffer LOGLEVEL lvl fmt (arguments ps) (m, t, s) = Inr (m, t, s)"
proof (cases "lvl \<le> LOGLEVEL")
  case False
  then show ?thesis unfolding if_not_P [OF False] by (simp add: printk_def not_le)
next
  case True
  show ?thesis unfolding if_P [OF True] using printk_prints [OF assms True] by blast
qed

definition demo_log_memory :: bytes where
  "demo_log_memory = write_bytes (write_bytes (write_bytes (\<lambda>_. 0)
     0x100 (map of_char ''DEBUG'' @ [0])) 0x200 (map of_char ''<%s>: '' @ [0]))
     0x300 (map of_char ''n=%u'' @ [0])"

definition demo_literals :: log_literals where
  "demo_literals = \<lparr>prefix_fmt = 0x200, level_str = (\<lambda>_. 0x100)\<rparr>"

definition demo_port :: io where
  "demo_port = \<lparr>device = (\<lambda>_ _ _. 0x20), reads = 0, outs = []\<rparr>"

theorem printk_correct_witness:
  "\<exists>E t m' t' s'. printk E demo_literals 0x1000 DEBUG DEBUG 0x300 [7] (demo_log_memory, t, demo_port) =
       Inr (m', t', s') \<and> serial_data s' = map of_char ''<DEBUG>: n=7''"
proof -
  let ?ps = "[Lit 110, Lit 61, Unsigned 7]"
  obtain t where t: "displays t ([], [])"
    using terminal_init_displays [of 80 25 "replicate 2000 0"] by auto
  have nz: "\<forall>x \<in> set (map (of_char :: char \<Rightarrow> u8) ''DEBUG''). x \<noteq> 0"
    "\<forall>x \<in> set (map (of_char :: char \<Rightarrow> u8) ''<%s>: ''). x \<noteq> 0"
    "\<forall>x \<in> set (map (of_char :: char \<Rightarrow> u8) ''n=%u''). x \<noteq> 0" by simp_all
  have s: "str_at demo_log_memory 0x100 (map of_char ''DEBUG'')"
    "str_at demo_log_memory 0x200 (map of_char ''<%s>: '')"
    "str_at demo_log_memory 0x300 (map of_char ''n=%u'')"
    unfolding demo_log_memory_def
    by (intro str_at_write_other str_at_write [OF nz(1)] str_at_write [OF nz(2)] str_at_write [OF nz(3)]; simp)+
  have o: "outside 0x1000 TEMP_BUFFER_LENGTH a l" if "unat a + l < 4096" for a l
    by (rule outside_below) (use that in \<open>simp_all add: TEMP_BUFFER_LENGTH_def\<close>)
  have lit: "literals_ok demo_log_memory 0x1000 demo_literals DEBUG"
    using s by (simp add: literals_ok_def demo_literals_def o)
  have fmt: "formats ?ps = map of_char ''n=%u''" "texts ?ps = map of_char ''n=7''" "arguments ?ps = [7]"
    by (simp_all add: formats_def texts_def arguments_def dec_text_def digits.simps)
  have line: "line_live (device demo_port)" by (simp add: line_live_def demo_port_def)
  note r = printk_correct [OF t line, of "0x1000" demo_log_memory demo_literals DEBUG ?ps _ "0x300" DEBUG]
  show ?thesis
    using r [OF _ _ lit] s(3) by (fastforce simp: fmt o level_prefix_def serial_data_def demo_port_def)
qed

end
