(* ===== verification/Interrupts.thy ===== *)
theory Interrupts
  imports Descriptors Logging
begin

section \<open>Interrupt dispatch and the timer\<close>

text \<open>
  The table of the device interrupt handlers and their dispatch
  (\<^verbatim>\<open>interrupts/interrupt.c\<close>), and the timer that calls the scheduler
  (\<^verbatim>\<open>drivers/timer/timer.c\<close>). Handlers are addresses; what a call of an address does is a
  parameter, a function on the rest of the machine's state. A scheduler callback may enter user
  mode and not come back: its result says whether it returned.
\<close>

unbundle bit_operations_syntax

record InterruptRegisters =
  cr2 :: u32
  edi :: u32
  esi :: u32
  ebp :: u32
  esp :: u32
  ebx :: u32
  edx :: u32
  ecx :: u32
  eax :: u32
  int_no :: u32
  err_code :: u32
  eip :: u32
  cs :: u32
  eflags :: u32
  useresp :: u32
  ss :: u32

subsection \<open>Device interrupts\<close>

text \<open>The sixteen routines, 0 where there is none.\<close>

definition irq_install_handler :: "u32 \<Rightarrow> u32 \<Rightarrow> u32 list \<times> io \<Rightarrow> (u32 list \<times> io) res" where
  "irq_install_handler irq handler = (\<lambda>(irq_routines, s).
     if unat irq < length irq_routines then
       Inr (irq_routines[unat irq := handler], pic_mask (ucast irq) False s)
     else Inl OutOfBounds)"

definition irq_uninstall_handler :: "u32 \<Rightarrow> u32 list \<times> io \<Rightarrow> (u32 list \<times> io) res" where
  "irq_uninstall_handler irq = (\<lambda>(irq_routines, s).
     let s = pic_mask (ucast irq) True s
     in if unat irq < length irq_routines then Inr (irq_routines[unat irq := 0], s)
        else Inl OutOfBounds)"

text \<open>The flag of the result is false when the handler did not return: the callback of the timer may enter user
  mode for good. Then the rest of the dispatch, the acknowledgement, does not run.\<close>

type_synonym 's handler = "InterruptRegisters \<Rightarrow> 's \<times> io \<Rightarrow> (('s \<times> io) \<times> bool) res"

definition irq_handler :: "(u32 \<Rightarrow> 's handler) \<Rightarrow> u32 list \<Rightarrow> 's handler" where
  "irq_handler invoke irq_routines regs = (\<lambda>(x, s).
     let irq = ucast (int_no regs - 32) :: u8
     in if unat irq < length irq_routines then
          (let handler = irq_routines ! unat irq
           in bind_res (if handler \<noteq> 0 then invoke handler regs (x, s) else Inr ((x, s), True)) (\<lambda>((x, s), returned).
                if returned then Inr ((x, pic_eoi irq s), True) else Inr ((x, s), False)))
        else Inl OutOfBounds)"

text \<open>The texts of the fault report; \<open>lit\<close> gives the address of a literal.\<close>

definition INTERRUPT_NAMES :: "string list" where
  "INTERRUPT_NAMES =
    [''Division Error'', ''Debug'', ''Non-maskable Interrupt'', ''Breakpoint'', ''Overflow'',
     ''Bound Range Exceeded'', ''Invalid Opcode'', ''Device Not Available'', ''Double Fault'',
     ''Coprocessor Segment Overrun'', ''Invalid TSS'', ''Segment Not Present'',
     ''Stack-Segment Fault'', ''General Protection Fault'', ''Page Fault'', ''Reserved'',
     ''x87 Floating-Point Exception'', ''Alignment Check'', ''Machine Check'',
     ''SIMD Floating-Point Exception'', ''Virtualization Exception'',
     ''Control Protection Exception'', ''Reserved'', ''Hypervisor Injection Exception'',
     ''VMM Communication Exception'', ''Security Exception'', ''Reserved'']"

definition interrupt_name :: "(string \<Rightarrow> u32) \<Rightarrow> u32 \<Rightarrow> u32" where
  "interrupt_name lit i =
     (if unat i < length INTERRUPT_NAMES then lit (INTERRUPT_NAMES ! unat i) else 0)"

definition PF_EC_PRESENT :: u32 where "PF_EC_PRESENT = 1"
definition PF_EC_WRITE :: u32 where "PF_EC_WRITE = 2"
definition PF_EC_USER :: u32 where "PF_EC_USER = 4"
definition INT_PAGE_FAULT :: u32 where "INT_PAGE_FAULT = 14"

definition get_pid_aid :: "u32 \<Rightarrow> u16" where
  "get_pid_aid pid = ucast (drop_bit 16 pid)"

definition get_pid_tid :: "u32 \<Rightarrow> u16" where
  "get_pid_tid pid = ucast (pid AND 0xFFFF)"

text \<open>\<open>log\<close> is \<^verbatim>\<open>printk\<close> at level \<open>DEBUG\<close>; \<open>pid\<close> is the id of the
  current process, 0 when there is none.\<close>

definition report_page_fault :: "(string \<Rightarrow> u32) \<Rightarrow> (u32 \<Rightarrow> u32 list \<Rightarrow> 'l \<Rightarrow> 'l res) \<Rightarrow> u32 \<Rightarrow>
    InterruptRegisters \<Rightarrow> 'l \<Rightarrow> 'l res" where
  "report_page_fault lit log pid regs =
     (let access_type = (if err_code regs AND PF_EC_WRITE \<noteq> 0 then lit ''write'' else lit ''read'');
          mode = (if err_code regs AND PF_EC_USER \<noteq> 0 then lit ''user'' else lit ''kernel'');
          page_status = (if err_code regs AND PF_EC_PRESENT \<noteq> 0 then lit ''protected''
                         else lit ''non-present'');
          aid = ucast (get_pid_aid pid);
          tid = ucast (get_pid_tid pid)
      in log (lit (''%s of address %p at %p in'' @ [CHR 10, CHR 9] @
                   ''%s mode in pid %u@%u was in a %s page'' @ [CHR 10]))
           [access_type, cr2 regs, eip regs, mode, tid, aid, page_status])"

definition isr_handler :: "(string \<Rightarrow> u32) \<Rightarrow> (u32 \<Rightarrow> u32 list \<Rightarrow> 's \<times> io \<Rightarrow> ('s \<times> io) res) \<Rightarrow> u32 \<Rightarrow>
    (u32 \<Rightarrow> 's handler) \<Rightarrow> u32 list \<Rightarrow> 's handler" where
  "isr_handler lit log pid invoke irq_routines regs x =
     (let interrupt = int_no regs
      in kernel_assert (interrupt < 48)
        (if interrupt \<ge> 32 then irq_handler invoke irq_routines regs x
         else
           bind_res (log (lit (''[INT] %s'' @ [CHR 10])) [interrupt_name lit interrupt] x) (\<lambda>x.
           bind_res (if interrupt = INT_PAGE_FAULT then report_page_fault lit log pid regs x
                     else Inr x) (\<lambda>x.
           kernel_panic))))"

subsection \<open>What the interrupt controller sees\<close>

definition port_data :: "u16 \<Rightarrow> io \<Rightarrow> u8 list" where
  "port_data p s = map snd (filter (\<lambda>x. fst x = p) (outs s))"

lemma port_data_outb: "port_data p (outb q v s) = port_data p s @ (if q = p then [v] else [])"
  by (simp add: port_data_def outb_def)

lemma port_data_eoi:
  "port_data PIC1_COMMAND (pic_eoi irq s) = port_data PIC1_COMMAND s @ [PIC_EOI]"
  "port_data PIC2_COMMAND (pic_eoi irq s) =
     port_data PIC2_COMMAND s @ (if irq > 8 then [PIC_EOI] else [])"
  by (simp_all add: pic_eoi_def port_data_outb PIC1_COMMAND_def PIC2_COMMAND_def)

text \<open>C39: a device interrupt runs the installed routine once, or none, and when that returns is acknowledged
  at the first controller; the second controller is acknowledged for the lines 9 to 15 but not
  for line 8, which belongs to it as well. An interrupt whose routine stops, or enters user mode and does not return, is not
  acknowledged here, an exception never returns, and no other vector is accepted.\<close>

theorem interrupt_dispatch:
  assumes "length irq_routines = 16"
  shows "let irq = unat (int_no regs) - 32;
      outcome = (if irq_routines ! irq = 0 then Inr ((x, s), True) else invoke (irq_routines ! irq) regs (x, s)) in
    (32 \<le> int_no regs \<and> int_no regs < 48 \<longrightarrow>
      (case outcome of
         Inl e \<Rightarrow> isr_handler lit log pid invoke irq_routines regs (x, s) = Inl e
       | Inr ((x', s'), returned) \<Rightarrow>
           isr_handler lit log pid invoke irq_routines regs (x, s) =
             Inr ((x', if returned then pic_eoi (word_of_nat irq) s' else s'), returned) \<and>
           port_data PIC1_COMMAND (pic_eoi (word_of_nat irq) s') = port_data PIC1_COMMAND s' @ [PIC_EOI] \<and>
           port_data PIC2_COMMAND (pic_eoi (word_of_nat irq) s') =
             port_data PIC2_COMMAND s' @ (if 8 < irq then [PIC_EOI] else []))) \<and>
    (int_no regs < 32 \<or> 48 \<le> int_no regs \<longrightarrow>
      (\<exists>e. isr_handler lit log pid invoke irq_routines regs (x, s) = Inl e))"
  unfolding Let_def
proof (intro conjI impI)
  let ?irq = "unat (int_no regs) - 32"
  assume v: "32 \<le> int_no regs \<and> int_no regs < 48"
  then have n: "32 \<le> unat (int_no regs)" "unat (int_no regs) < 48"
    by (simp_all add: word_le_nat_alt word_less_nat_alt)
  have "unat (int_no regs - 32) = ?irq"
    using n by (subst unat_sub) (simp_all add: word_le_nat_alt)
  then have "ucast (int_no regs - 32) = (word_of_nat ?irq :: u8)"
    by (metis of_nat_unat)
  moreover have irq: "?irq < 16" using n by simp
  then have "unat (word_of_nat ?irq :: u8) = ?irq" by (simp add: unat_of_nat)
  ultimately show "case (if irq_routines ! ?irq = 0 then Inr ((x, s), True) else invoke (irq_routines ! ?irq) regs (x, s)) of
         Inl e \<Rightarrow> isr_handler lit log pid invoke irq_routines regs (x, s) = Inl e
       | Inr ((x', s'), returned) \<Rightarrow>
           isr_handler lit log pid invoke irq_routines regs (x, s) =
             Inr ((x', if returned then pic_eoi (word_of_nat ?irq) s' else s'), returned) \<and>
           port_data PIC1_COMMAND (pic_eoi (word_of_nat ?irq) s') = port_data PIC1_COMMAND s' @ [PIC_EOI] \<and>
           port_data PIC2_COMMAND (pic_eoi (word_of_nat ?irq) s') =
             port_data PIC2_COMMAND s' @ (if 8 < ?irq then [PIC_EOI] else [])"
    using v irq assms(1)
    by (auto simp: isr_handler_def irq_handler_def port_data_eoi word_less_nat_alt bind_res_def
        split: sum.splits)
next
  assume "int_no regs < 32 \<or> 48 \<le> int_no regs"
  then show "\<exists>e. isr_handler lit log pid invoke irq_routines regs (x, s) = Inl e"
    by (auto simp: isr_handler_def Let_def kernel_panic_def kernel_assert_def bind_res_def not_less [symmetric]
        split: sum.splits)
qed

theorem interrupt_dispatch_witness:
  "\<exists>regs. int_no regs = 40 \<and> isr_handler (\<lambda>_. 0) (\<lambda>_ _. Inr) 0 (\<lambda>_ _ x. Inr (x, True)) (replicate 16 0) regs ((), demo_line) =
     Inr (((), pic_eoi 8 demo_line), True) \<and> port_data PIC2_COMMAND (pic_eoi 8 demo_line) = []"
proof -
  let ?r = "\<lparr>cr2 = 0, edi = 0, esi = 0, ebp = 0, esp = 0, ebx = 0, edx = 0, ecx = 0, eax = 0,
    int_no = 40, err_code = 0, eip = 0, cs = 0, eflags = 0, useresp = 0, ss = 0\<rparr>"
  have "port_data PIC2_COMMAND demo_line = []" by (simp add: port_data_def demo_line_def)
  with interrupt_dispatch [of "replicate 16 0" ?r "()" demo_line "\<lambda>_ _ x. Inr (x, True)" "\<lambda>_. 0" "\<lambda>_ _. Inr" 0]
  show ?thesis by (intro exI [of _ ?r]) simp
qed

subsection \<open>The timer\<close>

record timer =
  system_ticks :: u64
  sched_ticks :: u32
  sched_tick_cur :: u32
  sched_callback :: u32

definition DEFAULT_SCHED_TICKS :: u32 where
  "DEFAULT_SCHED_TICKS = 10"

definition timer_no_op :: "'s \<times> io \<Rightarrow> (('s \<times> io) \<times> bool) res" where
  "timer_no_op x = Inr (x, True)"

text \<open>The flag of the result is false when the callback did not return: then the rest of the
  handler does not run.\<close>

definition timer_handler :: "(u32 \<Rightarrow> InterruptRegisters \<Rightarrow> 's \<Rightarrow> ('s \<times> bool) res) \<Rightarrow> InterruptRegisters \<Rightarrow>
    timer \<times> 's \<Rightarrow> ((timer \<times> 's) \<times> bool) res" where
  "timer_handler call regs = (\<lambda>(tm, x).
     bind_res (if sched_tick_cur tm = 0 then
                 (let tm = tm\<lparr>sched_tick_cur := sched_ticks tm\<rparr>
                  in bind_res (call (sched_callback tm) regs x) (\<lambda>(x, returned). Inr ((tm, x), returned)))
               else Inr ((tm, x), True)) (\<lambda>((tm, x), returned).
       if returned then
         Inr ((tm\<lparr>system_ticks := system_ticks tm + 1, sched_tick_cur := sched_tick_cur tm - 1\<rparr>, x), True)
       else Inr ((tm, x), False)))"

definition syscall_reg_tmr_cb :: "u32 \<Rightarrow> u32 \<Rightarrow> timer \<Rightarrow> (u32 \<times> u32) \<times> timer" where
  "syscall_reg_tmr_cb callback ticks tm =
     (if ticks = 0 then ((0, 1), tm)
      else ((0, 0), tm\<lparr>sched_callback := callback, sched_ticks := ticks\<rparr>))"

definition freq :: u32 where "freq = 1000"

text \<open>The handler and the system call are registered by \<open>Kernel.boot_timer\<close>; \<open>no_op\<close> is the
  address of \<^verbatim>\<open>timer_no_op\<close>.\<close>

definition init_timer :: "u32 \<Rightarrow> io \<Rightarrow> timer \<times> io" where
  "init_timer no_op s =
     (let tm = \<lparr>system_ticks = 0, sched_ticks = DEFAULT_SCHED_TICKS,
                sched_tick_cur = DEFAULT_SCHED_TICKS, sched_callback = no_op\<rparr>;
          divisor = 1193180 div freq;
          s = outb 0x43 0x36 s;
          s = outb 0x40 (ucast (divisor AND 0xFF)) s
      in (tm, outb 0x40 (ucast (drop_bit 8 divisor AND 0xFF)) s))"

subsection \<open>The period of the scheduler\<close>

text \<open>\<open>n\<close> timer interrupts in a row.\<close>

primrec ticks_run :: "(u32 \<Rightarrow> InterruptRegisters \<Rightarrow> 's \<Rightarrow> ('s \<times> bool) res) \<Rightarrow> InterruptRegisters \<Rightarrow> nat \<Rightarrow>
    timer \<times> 's \<Rightarrow> (timer \<times> 's) res" where
  "ticks_run call regs 0 x = Inr x"
| "ticks_run call regs (Suc n) x = bind_res (timer_handler call regs x) (\<lambda>(x, _). ticks_run call regs n x)"

lemma ticks_run_quiet:
  assumes "n \<le> unat (sched_tick_cur tm)"
  shows "ticks_run call regs n (tm, x) =
    Inr (tm\<lparr>system_ticks := system_ticks tm + word_of_nat n,
            sched_tick_cur := sched_tick_cur tm - word_of_nat n\<rparr>, x)"
  using assms
proof (induction n arbitrary: tm)
  case (Suc n)
  then have c: "sched_tick_cur tm \<noteq> 0" "n \<le> unat (sched_tick_cur tm - 1)"
    by (auto simp: unat_minus_1_u32)
  have "timer_handler call regs (tm, x) =
      Inr ((tm\<lparr>system_ticks := system_ticks tm + 1, sched_tick_cur := sched_tick_cur tm - 1\<rparr>, x), True)"
    using c(1) by (simp add: timer_handler_def)
  then show ?case
    using Suc.IH [of "tm\<lparr>system_ticks := system_ticks tm + 1, sched_tick_cur := sched_tick_cur tm - 1\<rparr>"] c(2)
    by (simp add: algebra_simps)
qed simp

text \<open>while the counter runs down no callback is called and every interrupt counts one tick.
  When it is zero the next interrupt calls the callback. If the callback returns, the next call
  is \<open>sched_ticks\<close> interrupts later. If it enters user mode instead, the tick is not counted and
  the next call is one interrupt later than that.\<close>

theorem scheduler_period:
  assumes c: "sched_tick_cur tm = 0" and n: "sched_ticks tm \<noteq> 0"
    and call: "call (sched_callback tm) regs x = Inr (y, returned)"
  shows "let k = unat (sched_ticks tm) - (if returned then 1 else 0) in
    ticks_run call regs (Suc k) (tm, x) =
      Inr (tm\<lparr>system_ticks := system_ticks tm + ucast (sched_ticks tm), sched_tick_cur := 0\<rparr>, y) \<and>
    (\<forall>j \<le> k. \<exists>tm'. ticks_run call regs (Suc j) (tm, x) = Inr (tm', y) \<and>
      (sched_tick_cur tm' = 0 \<longleftrightarrow> j = k))"
proof -
  define r where "r = (if returned then 1 else 0 :: u32)"
  let ?tm = "tm\<lparr>system_ticks := system_ticks tm + ucast r, sched_tick_cur := sched_ticks tm - r\<rparr>"
  let ?k = "unat (sched_ticks tm) - (if returned then 1 else 0)"
  have first: "timer_handler call regs (tm, x) = Inr ((?tm, y), returned)"
    using c call by (simp add: timer_handler_def r_def)
  have k: "unat (sched_tick_cur ?tm) = ?k"
    using n by (simp add: r_def unat_minus_1_u32 unat_gt_0)
  have run: "ticks_run call regs (Suc j) (tm, x) =
      Inr (?tm\<lparr>system_ticks := system_ticks ?tm + word_of_nat j,
              sched_tick_cur := sched_tick_cur ?tm - word_of_nat j\<rparr>, y)" if "j \<le> ?k" for j
    using ticks_run_quiet [of j ?tm call regs y] that k first by simp
  have zero: "sched_tick_cur ?tm - word_of_nat j = 0 \<longleftrightarrow> j = ?k" if "j \<le> ?k" for j
  proof -
    have "unat (word_of_nat j :: u32) = j"
      using that k unat_lt_u32 [of "sched_tick_cur ?tm"] by (intro unat_of_nat_u32) simp
    then have "unat (sched_tick_cur ?tm) = unat (word_of_nat j :: u32) \<longleftrightarrow> j = ?k" unfolding k by auto
    then have "sched_tick_cur ?tm = word_of_nat j \<longleftrightarrow> j = ?k" by (simp only: word_unat_eq_iff)
    then show ?thesis by (simp only: right_minus_eq)
  qed
  have "ucast r + word_of_nat ?k = (ucast (sched_ticks tm) :: u64)"
  proof -
    have "unat (sched_ticks tm) = unat r + ?k" using n by (auto simp: r_def unat_gt_0 Suc_leI)
    then have "(word_of_nat (unat (sched_ticks tm)) :: u64) = word_of_nat (unat r + ?k)" by simp
    then show ?thesis by (simp add: r_def split: if_splits)
  qed
  then have "ticks_run call regs (Suc ?k) (tm, x) =
      Inr (tm\<lparr>system_ticks := system_ticks tm + ucast (sched_ticks tm), sched_tick_cur := 0\<rparr>, y)"
    using run [of ?k] zero [of ?k] by (simp add: add.assoc)
  then show ?thesis
    unfolding Let_def using run zero by auto
qed

theorem scheduler_period_witness:
  "ticks_run (\<lambda>_ _ x. Inr (x + 1, True)) undefined 20
     (\<lparr>system_ticks = 0, sched_ticks = 20, sched_tick_cur = 0, sched_callback = 0x1000\<rparr>, 0 :: nat) =
   Inr (\<lparr>system_ticks = 20, sched_ticks = 20, sched_tick_cur = 0, sched_callback = 0x1000\<rparr>, 1)"
  using scheduler_period [of "\<lparr>system_ticks = 0, sched_ticks = 20, sched_tick_cur = 0, sched_callback = 0x1000\<rparr>"
      "\<lambda>_ _ x. Inr (x + 1, True)" undefined "0 :: nat" 1 True]
  by (simp add: Let_def del: ticks_run.simps)

end
