(* ===== verification/Mailbox.thy ===== *)
theory Mailbox
  imports HeapPages Interrupts Logging
begin

section \<open>Mailboxes (\<^verbatim>\<open>ipc/mailbox.c\<close>)\<close>

text \<open>
  A mailbox is one page of messages that is mapped twice, at \<open>first_page\<close> and at the page
  after it (\<open>copy_page\<close>), so that a message that runs over the end of the page continues at
  its start. The header is a record that the operations return updated; messages are bytes in
  virtual memory. Where the code copies from or to a structure of its own stack frame, the
  structure is a list of bytes. Calls of \<^verbatim>\<open>printk\<close> are recorded in a list, in their
  order; what such a call does is in the theory \<open>Logging\<close>.
\<close>

unbundle bit_operations_syntax

subsection \<open>Data\<close>

record MailboxHeader =
  mb_head :: u32
  mb_tail :: u32
  unread_size :: u16
  used_size :: u16
  capacity :: u16
  first_page :: u32
  last_page :: u32
  copy_page :: u32

record MailboxMessageHeader =
  sender_pid :: u32
  reader_pid :: u32
  data_size :: u8

type_synonym kernel_log = "(LogLevel \<times> string \<times> u32 list) list"

definition MAILBOX_DATA_SIZE :: u32 where
  "MAILBOX_DATA_SIZE = PAGE_SIZE"

definition SIZEOF_MessageHeader :: u32 where
  "SIZEOF_MessageHeader = 9"

text \<open>The packed structure as bytes, and back.\<close>

definition le32 :: "u32 \<Rightarrow> u8 list" where
  "le32 v = [ucast v, ucast (drop_bit 8 v), ucast (drop_bit 16 v), ucast (drop_bit 24 v)]"

definition of_le32 :: "u8 list \<Rightarrow> u32" where
  "of_le32 bs = ucast (bs ! 0) OR push_bit 8 (ucast (bs ! 1)) OR push_bit 16 (ucast (bs ! 2)) OR
     push_bit 24 (ucast (bs ! 3))"

definition header_bytes :: "MailboxMessageHeader \<Rightarrow> u8 list" where
  "header_bytes h = le32 (sender_pid h) @ le32 (reader_pid h) @ [data_size h]"

definition bytes_header :: "u8 list \<Rightarrow> MailboxMessageHeader" where
  "bytes_header bs = \<lparr>sender_pid = of_le32 (take 4 bs), reader_pid = of_le32 (take 4 (drop 4 bs)), data_size = bs ! 8\<rparr>"

text \<open>\<^verbatim>\<open>pmemcpy\<close> from and to a structure on the stack.\<close>

primrec copy_out :: "kmem \<Rightarrow> u32 \<Rightarrow> u8 list \<Rightarrow> kmem res" where
  "copy_out s dst [] = Inr s"
| "copy_out s dst (b # bs) = bind_res (vwrite8 s dst b) (\<lambda>s. copy_out s (dst + 1) bs)"

primrec copy_in :: "nat \<Rightarrow> kmem \<Rightarrow> u32 \<Rightarrow> u8 list res" where
  "copy_in 0 s src = Inr []"
| "copy_in (Suc n) s src =
     bind_res (vread8 s src) (\<lambda>b. bind_res (copy_in n s (src + 1)) (\<lambda>bs. Inr (b # bs)))"

text \<open>A word of a packed structure, which need not be aligned.\<close>

definition read_le32 :: "kmem \<Rightarrow> u32 \<Rightarrow> u32 res" where
  "read_le32 s v = bind_res (copy_in 4 s v) (\<lambda>bs. Inr (of_le32 bs))"

definition page_ptr :: "u32 \<Rightarrow> u32" where
  "page_ptr addr = push_bit 12 (drop_bit 12 addr)"

definition page_offset :: "u32 \<Rightarrow> u32" where
  "page_offset addr = drop_bit 20 (push_bit 20 addr)"

definition link_page :: "kmem \<Rightarrow> u32 \<Rightarrow> u32 \<Rightarrow> kmem res" where
  "link_page s tgt src =
     bind_res (get_entry s src) (\<lambda>e.
     bind_res (map_page s tgt (get_paddr e) (get_flags e)) (\<lambda>(failed, s).
     kernel_assert (\<not> failed) (Inr s)))"

definition bytes_to_message_header :: "kmem \<Rightarrow> u32 \<Rightarrow> MailboxMessageHeader res" where
  "bytes_to_message_header s data =
     bind_res (copy_in (unat SIZEOF_MessageHeader) s data) (\<lambda>bs. Inr (bytes_header bs))"

text \<open>The message of the reader is in memory, at an address that the reader gives.\<close>

definition bytes_to_message :: "kmem \<Rightarrow> u32 \<Rightarrow> u32 \<Rightarrow> kmem res" where
  "bytes_to_message s message data =
     bind_res (pmemcpy s message data SIZEOF_MessageHeader) (\<lambda>s.
     bind_res (vread8 s (message + 8)) (\<lambda>dsize.
     pmemcpy s (message + SIZEOF_MessageHeader) (data + SIZEOF_MessageHeader) (ucast dsize)))"

subsection \<open>Sending\<close>

definition mailbox_init :: "kmem \<Rightarrow> u32 \<Rightarrow> u16 \<Rightarrow> (MailboxHeader \<times> kmem) res" where
  "mailbox_init s mailbox_start_addr page_flags =
     (let mailbox = \<lparr>mb_head = mailbox_start_addr, mb_tail = mailbox_start_addr, unread_size = 0,
            used_size = 0, capacity = ucast MAILBOX_DATA_SIZE, first_page = mailbox_start_addr,
            last_page = mailbox_start_addr, copy_page = mailbox_start_addr + PAGE_SIZE\<rparr>
      in bind_res (alloc_page s mailbox_start_addr page_flags) (\<lambda>s.
         bind_res (link_page s (copy_page mailbox) (first_page mailbox)) (\<lambda>s. Inr (mailbox, s))))"

text \<open>Not implemented in the code.\<close>

definition mailbox_grow :: "MailboxHeader \<Rightarrow> bool" where
  "mailbox_grow mailbox = False"

definition mailbox_del :: "kmem \<Rightarrow> MailboxHeader \<Rightarrow> kmem" where
  "mailbox_del s mailbox = s"

definition mailbox_send_message :: "kmem \<Rightarrow> MailboxHeader \<Rightarrow> u32 \<Rightarrow> u32 \<Rightarrow> u8 \<Rightarrow> u8 list \<Rightarrow>
    (bool \<times> MailboxHeader \<times> kmem) res" where
  "mailbox_send_message s mailbox sender reader dsize data =
     (let message_header = \<lparr>sender_pid = sender, reader_pid = reader, data_size = dsize\<rparr>;
          message_header_size = SIZEOF_MessageHeader
      in if ucast (used_size mailbox) + message_header_size + ucast dsize > (ucast (capacity mailbox) :: u32) \<and>
            \<not> mailbox_grow mailbox then Inr (False, mailbox, s)
         else
           bind_res (copy_out s (mb_tail mailbox) (header_bytes message_header)) (\<lambda>s.
           let mailbox = mailbox\<lparr>mb_tail := mb_tail mailbox + message_header_size\<rparr>
           in bind_res (copy_out s (mb_tail mailbox) (take (unat dsize) data)) (\<lambda>s.
           let mailbox = mailbox\<lparr>mb_tail := mb_tail mailbox + ucast dsize\<rparr>;
               mailbox = (if page_ptr (mb_tail mailbox) = copy_page mailbox
                          then mailbox\<lparr>mb_tail := first_page mailbox + page_offset (mb_tail mailbox)\<rparr> else mailbox);
               mailbox = mailbox\<lparr>used_size := ucast (ucast (used_size mailbox) + (message_header_size + ucast dsize))\<rparr>
           in Inr (True, mailbox, s))))"

subsection \<open>Reading\<close>

definition match_pid :: "u32 \<Rightarrow> u32 \<Rightarrow> bool" where
  "match_pid field_pid target_pid =
     (if field_pid = 0 then False
      else if target_pid = 0 then True
      else if get_pid_tid field_pid = 0 then get_pid_aid field_pid = get_pid_aid target_pid
      else field_pid = target_pid)"

text \<open>The loops change two 16-bit counters and a pointer, and read memory that they do not
  change (but for the reader's copy of the header): after \<open>2 ^ 64\<close> rounds they repeat.\<close>

primrec message_cleanup_loop :: "nat \<Rightarrow> kmem \<Rightarrow> MailboxHeader \<Rightarrow> u16 \<Rightarrow> u16 \<Rightarrow> u32 \<Rightarrow> MailboxMessageHeader \<Rightarrow> u16 res" where
  "message_cleanup_loop 0 s mailbox cleaned_up_bytes seen_size tmp_header header = Inl Diverges"
| "message_cleanup_loop (Suc n) s mailbox cleaned_up_bytes seen_size tmp_header header =
     (if sender_pid header = 0 \<and> reader_pid header = 0 \<and> seen_size < used_size mailbox then
        (let cleaned_up_bytes = cleaned_up_bytes + ucast (SIZEOF_MessageHeader + ucast (data_size header));
             seen_size = seen_size + cleaned_up_bytes;
             tmp_header = tmp_header + ucast cleaned_up_bytes
         in bind_res (bytes_to_message_header s tmp_header) (\<lambda>header.
            message_cleanup_loop n s mailbox cleaned_up_bytes seen_size tmp_header header))
      else Inr cleaned_up_bytes)"

definition message_cleanup :: "kmem \<Rightarrow> MailboxHeader \<Rightarrow> u16 res" where
  "message_cleanup s mailbox =
     bind_res (bytes_to_message_header s (mb_head mailbox)) (\<lambda>header.
     message_cleanup_loop (2 ^ 64) s mailbox 0 0 (mb_head mailbox) header)"

primrec message_search_loop :: "nat \<Rightarrow> kmem \<Rightarrow> MailboxHeader \<Rightarrow> u32 \<Rightarrow> u32 \<Rightarrow> u32 \<Rightarrow> u16 \<Rightarrow> u32 \<Rightarrow> u16 \<Rightarrow>
    (u16 \<times> u32 \<times> u16 \<times> kmem) res" where
  "message_search_loop 0 s mailbox sender reader message seen_size current_message total_message_size = Inl Diverges"
| "message_search_loop (Suc n) s mailbox sender reader message seen_size current_message total_message_size =
     (if seen_size < used_size mailbox then
        bind_res (pmemcpy s message current_message SIZEOF_MessageHeader) (\<lambda>s.
        bind_res (read_le32 s message) (\<lambda>sp.
        bind_res (read_le32 s (message + 4)) (\<lambda>rp.
        if match_pid sp sender \<and> match_pid rp reader then
          Inr (seen_size, current_message, total_message_size, s)
        else
          bind_res (vread8 s (message + 8)) (\<lambda>dsize.
          let total_message_size = ucast (SIZEOF_MessageHeader + ucast dsize)
          in message_search_loop n s mailbox sender reader message (seen_size + total_message_size)
               (current_message + ucast total_message_size) total_message_size))))
      else Inr (seen_size, current_message, total_message_size, s))"

definition mailbox_read_message :: "kmem \<times> kernel_log \<Rightarrow> MailboxHeader \<Rightarrow> u32 \<Rightarrow> u32 \<Rightarrow> u32 \<Rightarrow>
    (bool \<times> MailboxHeader \<times> kmem \<times> kernel_log) res" where
  "mailbox_read_message = (\<lambda>(s, log) mailbox sender reader message.
     bind_res (message_search_loop (2 ^ 64) s mailbox sender reader message 0 (mb_head mailbox) 0)
       (\<lambda>(seen_size, current_message, total_message_size, s).
     if seen_size \<ge> used_size mailbox then Inr (False, mailbox, s, log)
     else
       bind_res (bytes_to_message s message current_message) (\<lambda>s.
       let mailbox = mailbox\<lparr>unread_size := unread_size mailbox - total_message_size\<rparr>
       in bind_res (pmemset s current_message 0 8) (\<lambda>s.
          bind_res (message_cleanup s mailbox) (\<lambda>clean_up_size.
          let mailbox = mailbox\<lparr>used_size := used_size mailbox - clean_up_size,
                                mb_head := mb_head mailbox + ucast clean_up_size\<rparr>;
              log = log @ [(DEBUG, ''Cleanup size - %u'' @ [CHR 10], [ucast clean_up_size])];
              mailbox = (if page_ptr (mb_head mailbox) = copy_page mailbox
                         then mailbox\<lparr>mb_head := first_page mailbox + page_offset (mb_head mailbox)\<rparr> else mailbox)
          in Inr (True, mailbox, s, log))))))"

definition send_signal :: "kernel_log \<Rightarrow> u8 \<Rightarrow> kernel_log" where
  "send_signal log signal_num = log @ [(DEBUG, ''signal %u received...'' @ [CHR 10], [ucast signal_num])]"

end
