(* ===== verification/RbTree.thy ===== *)
theory RbTree
  imports Interfaces
begin

section \<open>The red-black tree (\<^verbatim>\<open>process/rb_tree.c\<close>)\<close>

text \<open>
  Intrusive nodes with parent pointers. The node memory maps addresses to nodes; the sentinel
  \<^verbatim>\<open>tree->nil\<close> is a node like the others, at address \<open>nil\<close> of the tree, and its
  parent field is written by removals as in the code. Addresses are words, 0 is the null
  pointer. The two loops that follow the tree without changing it visit an address twice only
  if they never end, hence the bound of \<open>2 ^ 32\<close> rounds; the two repair loops are partial
  functions, and a repair that never ends is \<open>Diverges\<close>.
\<close>

subsection \<open>Data\<close>

record RbNode =
  parent :: u32
  left :: u32
  right :: u32
  key :: u32
  color :: u8

type_synonym rbmem = "u32 \<Rightarrow> RbNode"

record RbTree =
  root :: u32
  nil :: u32
  node_count :: u32

definition RED :: u8 where "RED = 0"
definition BLACK :: u8 where "BLACK = 1"
definition LEFT :: u8 where "LEFT = 0"
definition RIGHT :: u8 where "RIGHT = 1"

text \<open>\<^verbatim>\<open>child[dir]\<close> is the union of \<^verbatim>\<open>left\<close> and \<^verbatim>\<open>right\<close>.\<close>

definition child :: "RbNode \<Rightarrow> u8 \<Rightarrow> u32" where
  "child n dir = (if dir = LEFT then left n else right n)"

definition set_parent :: "rbmem \<Rightarrow> u32 \<Rightarrow> u32 \<Rightarrow> rbmem" where
  "set_parent m p v = m(p := (m p)\<lparr>parent := v\<rparr>)"

definition set_child :: "rbmem \<Rightarrow> u32 \<Rightarrow> u8 \<Rightarrow> u32 \<Rightarrow> rbmem" where
  "set_child m p dir v = m(p := (if dir = LEFT then (m p)\<lparr>left := v\<rparr> else (m p)\<lparr>right := v\<rparr>))"

definition set_color :: "rbmem \<Rightarrow> u32 \<Rightarrow> u8 \<Rightarrow> rbmem" where
  "set_color m p c = m(p := (m p)\<lparr>color := c\<rparr>)"

definition NIL :: "RbTree \<Rightarrow> u32 \<Rightarrow> bool" where
  "NIL t node \<longleftrightarrow> node = nil t"

definition direction :: "rbmem \<Rightarrow> u32 \<Rightarrow> u8 res" where
  "direction m node =
     kernel_assert (parent (m node) \<noteq> 0)
       (Inr (if node = left (m (parent (m node))) then LEFT else RIGHT))"

subsection \<open>Rotation\<close>

definition rotate_subtree :: "rbmem \<Rightarrow> RbTree \<Rightarrow> u32 \<Rightarrow> u8 \<Rightarrow> (rbmem \<times> RbTree) res" where
  "rotate_subtree m t node dir =
     (let sub = child (m node) (1 - dir);
          m = set_child m node (1 - dir) (child (m sub) dir);
          m = (if \<not> NIL t (child (m sub) dir) then set_parent m (child (m sub) dir) node else m);
          m = set_parent m sub (parent (m node))
      in bind_res (if NIL t (parent (m node)) then Inr (m, t\<lparr>root := sub\<rparr>)
                   else bind_res (direction m node) (\<lambda>d. Inr (set_child m (parent (m node)) d sub, t)))
         (\<lambda>(m, t).
            let m = set_child m sub dir node;
                m = set_parent m node sub
            in Inr (m, t)))"

subsection \<open>Insertion\<close>

partial_function (option) insert_fix :: "rbmem \<Rightarrow> RbTree \<Rightarrow> u32 \<Rightarrow> (rbmem \<times> RbTree) res option" where
  "insert_fix m t node =
     (if color (m (parent (m node))) = RED then
        (case direction m (parent (m node)) of Inl e \<Rightarrow> Some (Inl e) | Inr d \<Rightarrow>
          (let pinv = 1 - d;
               uncle = child (m (parent (m (parent (m node))))) pinv
           in if color (m uncle) = RED then
                (let m = set_color m (parent (m node)) BLACK;
                     m = set_color m uncle BLACK;
                     m = set_color m (parent (m (parent (m node)))) RED
                 in insert_fix m t (parent (m (parent (m node)))))
              else
                (case direction m node of Inl e \<Rightarrow> Some (Inl e) | Inr dir \<Rightarrow>
                  (case (if dir = pinv then
                           bind_res (rotate_subtree m t (parent (m node)) (1 - pinv))
                             (\<lambda>(m', t'). Inr (m', t', parent (m node)))
                         else Inr (m, t, node)) of
                     Inl e \<Rightarrow> Some (Inl e)
                   | Inr (m, t, node) \<Rightarrow>
                       (let m = set_color m (parent (m node)) BLACK;
                            m = set_color m (parent (m (parent (m node)))) RED
                        in case rotate_subtree m t (parent (m (parent (m node)))) pinv of
                             Inl e \<Rightarrow> Some (Inl e)
                           | Inr (m, t) \<Rightarrow> insert_fix m t node)))))
      else Some (Inr (set_color m (root t) BLACK, t)))"

text \<open>The search of \<^verbatim>\<open>rb_insert\<close>: \<open>None\<close> when the key exists, otherwise the
  parent and the side of the new node.\<close>

primrec insert_search :: "nat \<Rightarrow> rbmem \<Rightarrow> RbTree \<Rightarrow> u32 \<Rightarrow> u32 \<Rightarrow> u8 \<Rightarrow> u32 \<Rightarrow> (u32 \<times> u8) option res" where
  "insert_search 0 m t loc par dir k = Inl Diverges"
| "insert_search (Suc n) m t loc par dir k =
     (if \<not> NIL t loc then
        (if key (m loc) = k then Inr None
         else let dir = (if k > key (m loc) then 1 else 0)
              in insert_search n m t (child (m loc) dir) loc dir k)
      else Inr (Some (par, dir)))"

text \<open>The direction is not initialised in the code; it is used only when it was set.\<close>

definition rb_insert :: "rbmem \<Rightarrow> RbTree \<Rightarrow> u32 \<Rightarrow> u32 \<Rightarrow> (bool \<times> rbmem \<times> RbTree) res" where
  "rb_insert m t node k =
     bind_res (insert_search (2 ^ 32) m t (root t) (nil t) 0 k) (\<lambda>r. case r of
       None \<Rightarrow> Inr (False, m, t)
     | Some (par, dir) \<Rightarrow>
         (let m = m(node := \<lparr>parent = par, left = nil t, right = nil t, key = k, color = RED\<rparr>);
              (m, t) = (if NIL t par then (m, t\<lparr>root := node\<rparr>) else (set_child m par dir node, t));
              t = t\<lparr>node_count := node_count t + 1\<rparr>
          in case insert_fix m t node of
               None \<Rightarrow> Inl Diverges
             | Some r \<Rightarrow> bind_res r (\<lambda>(m, t). Inr (True, m, t))))"

subsection \<open>Lookup\<close>

primrec rb_find_loop :: "nat \<Rightarrow> rbmem \<Rightarrow> RbTree \<Rightarrow> u32 \<Rightarrow> u32 \<Rightarrow> u32 res" where
  "rb_find_loop 0 m t node k = Inl Diverges"
| "rb_find_loop (Suc n) m t node k =
     (if \<not> NIL t node then
        (if key (m node) = k then Inr node
         else rb_find_loop n m t (child (m node) (if k > key (m node) then 1 else 0)) k)
      else Inr 0)"

definition rb_find :: "rbmem \<Rightarrow> RbTree \<Rightarrow> u32 \<Rightarrow> u32 res" where
  "rb_find m t k = rb_find_loop (2 ^ 32) m t (root t) k"

subsection \<open>Removal\<close>

definition transplant :: "rbmem \<Rightarrow> RbTree \<Rightarrow> u32 \<Rightarrow> u32 \<Rightarrow> (rbmem \<times> RbTree) res" where
  "transplant m t a b =
     bind_res (if NIL t (parent (m a)) then Inr (m, t\<lparr>root := b\<rparr>)
               else bind_res (direction m a) (\<lambda>d. Inr (set_child m (parent (m a)) d b, t)))
       (\<lambda>(m, t). Inr (set_parent m b (parent (m a)), t))"

primrec minimum_loop :: "nat \<Rightarrow> rbmem \<Rightarrow> RbTree \<Rightarrow> u32 \<Rightarrow> u32 res" where
  "minimum_loop 0 m t node = Inl Diverges"
| "minimum_loop (Suc n) m t node =
     (if \<not> NIL t (left (m node)) then minimum_loop n m t (left (m node)) else Inr node)"

definition minimum :: "rbmem \<Rightarrow> RbTree \<Rightarrow> u32 \<Rightarrow> u32 res" where
  "minimum m t node = minimum_loop (2 ^ 32) m t node"

text \<open>One round of the repair loop after a removal: the new memory, tree and node.\<close>

definition remove_fix_step :: "rbmem \<Rightarrow> RbTree \<Rightarrow> u32 \<Rightarrow> (rbmem \<times> RbTree \<times> u32) res" where
  "remove_fix_step m t node =
     bind_res (direction m node) (\<lambda>d.
     let inv = 1 - d;
         sibling = child (m (parent (m node))) inv
     in bind_res (if color (m sibling) = RED then
                    (let m = set_color m sibling BLACK;
                         m = set_color m (parent (m node)) RED
                     in bind_res (rotate_subtree m t (parent (m node)) (1 - inv)) (\<lambda>(m, t).
                          Inr (m, t, child (m (parent (m node))) inv)))
                  else Inr (m, t, sibling)) (\<lambda>(m, t, sibling).
        if color (m (left (m sibling))) = BLACK \<and> color (m (right (m sibling))) = BLACK then
          (let m = set_color m sibling RED in Inr (m, t, parent (m node)))
        else
          bind_res (if color (m (child (m sibling) inv)) = BLACK then
                      (let m = set_color m (child (m sibling) (1 - inv)) BLACK;
                           m = set_color m sibling RED
                       in bind_res (rotate_subtree m t sibling inv) (\<lambda>(m, t).
                            Inr (m, t, child (m (parent (m node))) inv)))
                    else Inr (m, t, sibling)) (\<lambda>(m, t, sibling).
            let m = set_color m sibling (color (m (parent (m node))));
                m = set_color m (parent (m node)) BLACK;
                m = set_color m (child (m sibling) inv) BLACK
            in bind_res (rotate_subtree m t (parent (m node)) (1 - inv)) (\<lambda>(m, t).
                 Inr (m, t, root t)))))"

partial_function (option) remove_fix :: "rbmem \<Rightarrow> RbTree \<Rightarrow> u32 \<Rightarrow> (rbmem \<times> RbTree) res option" where
  "remove_fix m t node =
     (if node \<noteq> root t \<and> color (m node) = BLACK then
        (case remove_fix_step m t node of
           Inl e \<Rightarrow> Some (Inl e)
         | Inr (m, t, node) \<Rightarrow> remove_fix m t node)
      else Some (Inr (set_color m node BLACK, t)))"

text \<open>The result is the removed node, or 0 when there is none.\<close>

definition rb_remove :: "rbmem \<Rightarrow> RbTree \<Rightarrow> u32 \<Rightarrow> (u32 \<times> rbmem \<times> RbTree) res" where
  "rb_remove m t k =
     bind_res (rb_find m t k) (\<lambda>node.
     if node = 0 then Inr (0, m, t)
     else
       bind_res
         (if NIL t (left (m node)) \<or> NIL t (right (m node)) then
            (let y_color = color (m node);
                 dir = (if NIL t (left (m node)) then RIGHT else LEFT);
                 x = child (m node) dir
             in bind_res (transplant m t node x) (\<lambda>(m, t). Inr (m, t, x, y_color)))
          else
            bind_res (minimum m t (right (m node))) (\<lambda>y.
            let y_color = color (m y);
                x = right (m y)
            in bind_res (if y \<noteq> right (m node) then
                           bind_res (transplant m t y (right (m y))) (\<lambda>(m, t).
                           let m = set_child m y RIGHT (right (m node));
                               m = set_parent m (right (m y)) y
                           in Inr (m, t))
                         else Inr (set_parent m x y, t)) (\<lambda>(m, t).
               bind_res (transplant m t node y) (\<lambda>(m, t).
               let m = set_child m y LEFT (left (m node));
                   m = set_parent m (left (m y)) y;
                   m = set_color m y (color (m node))
               in Inr (m, t, x, y_color)))))
         (\<lambda>(m, t, x, y_color).
            bind_res (if y_color = BLACK then
                        (case remove_fix m t x of None \<Rightarrow> Inl Diverges | Some r \<Rightarrow> r)
                      else Inr (m, t)) (\<lambda>(m, t).
              Inr (node, m, t\<lparr>node_count := node_count t - 1\<rparr>))))"

definition rb_init :: "rbmem \<Rightarrow> RbTree \<Rightarrow> rbmem \<times> RbTree" where
  "rb_init m t =
     (let t = t\<lparr>root := nil t\<rparr>;
          m = set_child m (nil t) LEFT (nil t);
          m = set_child m (nil t) RIGHT (nil t);
          m = set_color m (nil t) BLACK
      in (m, t\<lparr>node_count := 0\<rparr>))"

end
