(* ===== verification/RbShape.thy ===== *)
theory RbShape
  imports RbTree
begin

section \<open>The shape of a red-black tree in memory\<close>

text \<open>
  Coloured trees that carry the addresses of their nodes, and contexts (the path from a subtree
  up to the root, with the siblings) are related to the node memory. The operations work at a
  focus: a subtree in a context. Everything is stated symmetrically in the direction, so that
  the two mirror cases of every operation are one case.
\<close>

subsection \<open>Trees and contexts\<close>

datatype col = Rd | Bk

datatype rbt = Lf | Nd rbt col u32 u32 rbt

datatype dir = L | R

type_synonym frame = "dir \<times> col \<times> u32 \<times> u32 \<times> rbt"

fun flip :: "dir \<Rightarrow> dir" where
  "flip L = R"
| "flip R = L"

fun dw :: "dir \<Rightarrow> u8" where
  "dw L = LEFT"
| "dw R = RIGHT"

fun cw :: "col \<Rightarrow> u8" where
  "cw Rd = RED"
| "cw Bk = BLACK"

text \<open>\<open>mk d c a k x y\<close> has \<open>x\<close> as its child in direction \<open>d\<close> and \<open>y\<close> as the other.\<close>

fun mk :: "dir \<Rightarrow> col \<Rightarrow> u32 \<Rightarrow> u32 \<Rightarrow> rbt \<Rightarrow> rbt \<Rightarrow> rbt" where
  "mk L c a k x y = Nd x c a k y"
| "mk R c a k x y = Nd y c a k x"

primrec ptrs :: "rbt \<Rightarrow> u32 list" where
  "ptrs Lf = []"
| "ptrs (Nd l c a k r) = a # ptrs l @ ptrs r"

primrec ptrs_cx :: "frame list \<Rightarrow> u32 list" where
  "ptrs_cx [] = []"
| "ptrs_cx (f # cx) = (case f of (d, c, a, k, s) \<Rightarrow> a # ptrs s @ ptrs_cx cx)"

primrec plug :: "frame list \<Rightarrow> rbt \<Rightarrow> rbt" where
  "plug [] t = t"
| "plug (f # cx) t = (case f of (d, c, a, k, s) \<Rightarrow> plug cx (mk d c a k t s))"

primrec inorder :: "rbt \<Rightarrow> (u32 \<times> u32) list" where
  "inorder Lf = []"
| "inorder (Nd l c a k r) = inorder l @ (k, a) # inorder r"

primrec lkeys :: "frame list \<Rightarrow> (u32 \<times> u32) list" where
  "lkeys [] = []"
| "lkeys (f # cx) = (case f of (d, c, a, k, s) \<Rightarrow>
     lkeys cx @ (if d = R then inorder s @ [(k, a)] else []))"

primrec rkeys :: "frame list \<Rightarrow> (u32 \<times> u32) list" where
  "rkeys [] = []"
| "rkeys (f # cx) = (case f of (d, c, a, k, s) \<Rightarrow>
     (if d = L then (k, a) # inorder s else []) @ rkeys cx)"

lemma dir_simps [simp]:
  "flip (flip d) = d" "1 - dw d = dw (flip d)" "dw d = dw e \<longleftrightarrow> d = e" "flip d \<noteq> d" "d \<noteq> flip d"
  "dw d = LEFT \<longleftrightarrow> d = L" "dw d = RIGHT \<longleftrightarrow> d = R"
  by (cases d; cases e; simp add: LEFT_def RIGHT_def)+

lemma cw_simps [simp]:
  "cw c = RED \<longleftrightarrow> c = Rd" "cw c = BLACK \<longleftrightarrow> c = Bk" "cw c = cw e \<longleftrightarrow> c = e" "RED \<noteq> BLACK" "BLACK \<noteq> RED"
  by (cases c; cases e; simp add: RED_def BLACK_def)+

lemma neq_flip: "e \<noteq> d \<longleftrightarrow> e = flip d"
  by (cases d; cases e) auto

lemma inorder_plug: "inorder (plug cx t) = lkeys cx @ inorder t @ rkeys cx"
proof (induction cx arbitrary: t)
  case (Cons f cx)
  obtain d c a k s where "f = (d, c, a, k, s)" by (metis prod_cases5)
  then show ?case using Cons by (cases d) simp_all
qed simp

lemma plug_append: "plug (cz @ cx) t = plug cx (plug cz t)"
proof (induction cz arbitrary: t)
  case (Cons f cz)
  then show ?case by (cases f) simp
qed simp

lemma lkeys_append: "lkeys (cz @ cx) = lkeys cx @ lkeys cz"
proof (induction cz)
  case (Cons f cz)
  then show ?case by (cases f) simp
qed simp

lemma rkeys_append: "rkeys (cz @ cx) = rkeys cz @ rkeys cx"
proof (induction cz)
  case (Cons f cz)
  then show ?case by (cases f) simp
qed simp

lemma ptrs_cx_append: "set (ptrs_cx (cz @ cx)) = set (ptrs_cx cz) \<union> set (ptrs_cx cx)"
proof (induction cz)
  case (Cons f cz)
  then show ?case by (cases f) auto
qed simp

lemma distinct_cx_append: "distinct (ptrs_cx (cz @ cx)) \<longleftrightarrow>
    distinct (ptrs_cx cz) \<and> distinct (ptrs_cx cx) \<and> set (ptrs_cx cz) \<inter> set (ptrs_cx cx) = {}"
proof (induction cz)
  case (Cons f cz)
  then show ?case using ptrs_cx_append [of cz cx] by (cases f) auto
qed simp

lemma set_ptrs_mk [simp]: "set (ptrs (mk d c a k x y)) = insert a (set (ptrs x) \<union> set (ptrs y))"
  by (cases d) auto

lemma ptrs_plug: "set (ptrs (plug cx t)) = set (ptrs_cx cx) \<union> set (ptrs t)"
proof (induction cx arbitrary: t)
  case (Cons f cx)
  obtain d c a k s where "f = (d, c, a, k, s)" by (metis prod_cases5)
  then show ?case using Cons by auto
qed simp

lemma distinct_mk [simp]: "distinct (ptrs (mk d c a k x y)) \<longleftrightarrow>
    distinct (ptrs x) \<and> distinct (ptrs y) \<and> a \<notin> set (ptrs x) \<and> a \<notin> set (ptrs y) \<and>
    set (ptrs x) \<inter> set (ptrs y) = {}"
  by (cases d) auto

lemma distinct_plug: "distinct (ptrs (plug cx t)) \<longleftrightarrow> distinct (ptrs_cx cx @ ptrs t)"
proof (induction cx arbitrary: t)
  case (Cons f cx)
  obtain d c a k s where "f = (d, c, a, k, s)" by (metis prod_cases5)
  then show ?case using Cons by auto
qed simp

subsection \<open>In memory\<close>

text \<open>\<open>tr m nl p q t\<close>: at address \<open>p\<close>, below parent \<open>q\<close>, is the tree \<open>t\<close>.
  \<open>cxr m nl rt q p cx\<close>: the address \<open>p\<close>, whose parent is \<open>q\<close>, is in the context \<open>cx\<close> of a tree
  with root \<open>rt\<close>. The parent field of the sentinel is not constrained.\<close>

primrec tr :: "rbmem \<Rightarrow> u32 \<Rightarrow> u32 \<Rightarrow> u32 \<Rightarrow> rbt \<Rightarrow> bool" where
  "tr m nl p q Lf \<longleftrightarrow> p = nl"
| "tr m nl p q (Nd l c a k r) \<longleftrightarrow> p = a \<and> parent (m a) = q \<and> key (m a) = k \<and> color (m a) = cw c \<and>
     tr m nl (left (m a)) a l \<and> tr m nl (right (m a)) a r"

primrec cxr :: "rbmem \<Rightarrow> u32 \<Rightarrow> u32 \<Rightarrow> u32 \<Rightarrow> u32 \<Rightarrow> frame list \<Rightarrow> bool" where
  "cxr m nl rt q p [] \<longleftrightarrow> q = nl \<and> rt = p"
| "cxr m nl rt q p (f # cx) \<longleftrightarrow> (case f of (d, c, a, k, s) \<Rightarrow>
     q = a \<and> child (m a) (dw d) = p \<and> key (m a) = k \<and> color (m a) = cw c \<and>
     tr m nl (child (m a) (dw (flip d))) a s \<and> cxr m nl rt (parent (m a)) a cx)"

definition fresh :: "u32 \<Rightarrow> frame list \<Rightarrow> rbt \<Rightarrow> bool" where
  "fresh nl cx t \<longleftrightarrow> distinct (ptrs_cx cx @ ptrs t) \<and> nl \<notin> set (ptrs_cx cx @ ptrs t) \<and>
     0 \<notin> set (ptrs_cx cx @ ptrs t)"

lemma child_simps [simp]:
  "child n (dw L) = left n" "child n (dw R) = right n"
  "child n LEFT = left n" "child n RIGHT = right n"
  by (simp_all add: child_def LEFT_def RIGHT_def)

lemma tr_mk [simp]:
  "tr m nl p q (mk d c a k x y) \<longleftrightarrow> p = a \<and> parent (m a) = q \<and> key (m a) = k \<and> color (m a) = cw c \<and>
     tr m nl (child (m a) (dw d)) a x \<and> tr m nl (child (m a) (dw (flip d))) a y"
  by (cases d) auto

lemma tr_frame:
  "tr m nl p q t \<Longrightarrow> (\<And>x. x \<in> set (ptrs t) \<Longrightarrow> m' x = m x) \<Longrightarrow> tr m' nl p q t"
proof (induction t arbitrary: p q)
  case (Nd l c a k r)
  then have "m' a = m a" by simp
  moreover have "tr m' nl (left (m a)) a l" by (rule Nd.IH(1)) (use Nd.prems in auto)
  moreover have "tr m' nl (right (m a)) a r" by (rule Nd.IH(2)) (use Nd.prems in auto)
  ultimately show ?case using Nd.prems(1) by simp
qed simp

lemma cxr_frame:
  "cxr m nl rt q p cx \<Longrightarrow> (\<And>x. x \<in> set (ptrs_cx cx) \<Longrightarrow> m' x = m x) \<Longrightarrow> cxr m' nl rt q p cx"
proof (induction cx arbitrary: p q)
  case (Cons f cx)
  obtain d c a k s where f: "f = (d, c, a, k, s)" by (metis prod_cases5)
  have "m' a = m a" using Cons.prems(2) f by simp
  moreover have "cxr m' nl rt (parent (m a)) a cx"
    by (rule Cons.IH) (use Cons.prems f in auto)
  moreover have "tr m' nl (child (m a) (dw (flip d))) a s"
    by (rule tr_frame [of m]) (use Cons.prems f in auto)
  ultimately show ?case using Cons.prems(1) f by simp
qed simp

text \<open>The colour of the root, the colour of the focus written, and a new parent for a subtree.\<close>

fun colr :: "rbt \<Rightarrow> col" where
  "colr Lf = Bk"
| "colr (Nd l c a k r) = c"

fun paint :: "col \<Rightarrow> rbt \<Rightarrow> rbt" where
  "paint c Lf = Lf"
| "paint c (Nd l e a k r) = Nd l c a k r"

lemma colr_paint_mk [simp]:
  "colr (mk d c a k x y) = c" "paint e (mk d c a k x y) = mk d e a k x y"
  "ptrs (paint e t) = ptrs t" "inorder (paint e t) = inorder t"
  by (cases d; simp)+ (cases t; simp)+

lemma color_of_root:
  "tr m nl p q t \<Longrightarrow> color (m nl) = BLACK \<Longrightarrow> color (m p) = cw (colr t)"
  by (cases t) auto

lemma root_ptr: "tr m nl p q t \<Longrightarrow> t \<noteq> Lf \<Longrightarrow> p \<in> set (ptrs t)"
  by (cases t) auto

lemma tr_not_nil: "tr m nl p q t \<Longrightarrow> nl \<notin> set (ptrs t) \<Longrightarrow> p = nl \<longleftrightarrow> t = Lf"
  by (cases t) auto

lemma tr_set_color:
  assumes "tr m nl p q t" "t \<noteq> Lf" "distinct (ptrs t)"
  shows "tr (set_color m p (cw c)) nl p q (paint c t)"
proof (cases t)
  case (Nd l e a k r)
  let ?m = "set_color m p (cw c)"
  have "tr ?m nl (left (m a)) a l" "tr ?m nl (right (m a)) a r"
    by (rule tr_frame [of m]; use assms Nd in \<open>auto simp: set_color_def\<close>)+
  then show ?thesis using assms(1) Nd by (simp add: set_color_def)
qed (use assms in simp)

lemma tr_set_parent:
  assumes "tr m nl p q t" "t \<noteq> Lf" "distinct (ptrs t)"
  shows "tr (set_parent m p r) nl p r t"
proof (cases t)
  case (Nd x e a k y)
  let ?m = "set_parent m p r"
  have "tr ?m nl (left (m a)) a x" "tr ?m nl (right (m a)) a y"
    by (rule tr_frame [of m]; use assms Nd in \<open>auto simp: set_parent_def\<close>)+
  then show ?thesis using assms(1) Nd by (simp add: set_parent_def)
qed (use assms in simp)

text \<open>Writes leave other addresses alone, and change one field.\<close>

lemma writes_other [simp]:
  "x \<noteq> p \<Longrightarrow> set_color m p c x = m x"
  "x \<noteq> p \<Longrightarrow> set_parent m p q x = m x"
  "x \<noteq> p \<Longrightarrow> set_child m p d q x = m x"
  by (simp_all add: set_color_def set_parent_def set_child_def)

lemma writes_same [simp]:
  "parent (set_color m p c x) = parent (m x)" "left (set_color m p c x) = left (m x)"
  "right (set_color m p c x) = right (m x)" "key (set_color m p c x) = key (m x)"
  "child (set_color m p c x) d = child (m x) d" "color (set_color m p c p) = c"
  "left (set_parent m p q x) = left (m x)" "right (set_parent m p q x) = right (m x)"
  "key (set_parent m p q x) = key (m x)" "color (set_parent m p q x) = color (m x)"
  "child (set_parent m p q x) d = child (m x) d" "parent (set_parent m p q p) = q"
  "parent (set_child m p e q x) = parent (m x)" "key (set_child m p e q x) = key (m x)"
  "color (set_child m p e q x) = color (m x)"
  by (simp_all add: set_color_def set_parent_def set_child_def child_def)

lemma set_child_child [simp]:
  "child (set_child m p (dw d) q p) (dw e) = (if e = d then q else child (m p) (dw e))"
  by (cases d; cases e; simp add: set_child_def child_def LEFT_def RIGHT_def)

subsection \<open>Replacing a child\<close>

text \<open>The fragment that makes \<open>sub\<close> the child of the parent of \<open>node\<close> in its place, or the root.
  The direction of \<open>node\<close> is determined even for the sentinel when its sibling is not empty.\<close>

lemma direction_ok:
  assumes "cxr m nl rt q p ((d, c, a, k, s) # cx)" "parent (m p) = a" "a \<noteq> 0"
    and "p \<noteq> child (m a) (dw (flip d))"
  shows "direction m p = Inr (dw d)"
  using assms by (cases d) (auto simp: direction_def child_def LEFT_def RIGHT_def)

lemma sibling_other:
  assumes "tr m nl x a s" "p \<notin> set (ptrs s)" "p = nl \<longrightarrow> s \<noteq> Lf" "nl \<notin> set (ptrs s)"
  shows "p \<noteq> x"
  using assms by (cases s) auto

definition relink :: "rbmem \<Rightarrow> RbTree \<Rightarrow> u32 \<Rightarrow> u32 \<Rightarrow> (rbmem \<times> RbTree) res" where
  "relink m t p sub =
     (if NIL t (parent (m p)) then Inr (m, t\<lparr>root := sub\<rparr>)
      else bind_res (direction m p) (\<lambda>d. Inr (set_child m (parent (m p)) d sub, t)))"

lemma relink_ok:
  assumes c: "cxr m nl (root t) q p cx" and par: "parent (m p) = q" and nl: "nl = nil t"
    and dist: "distinct (ptrs_cx cx)" "nl \<notin> set (ptrs_cx cx)" "0 \<notin> set (ptrs_cx cx)"
    and p: "p \<notin> set (ptrs_cx cx)" "p \<noteq> nl"
  shows "\<exists>m' t'. relink m t p sub = Inr (m', t') \<and> cxr m' nl (root t') q sub cx \<and>
    nil t' = nil t \<and> node_count t' = node_count t \<and> (\<forall>x. x \<notin> set (ptrs_cx cx) \<longrightarrow> m' x = m x)"
proof (cases cx)
  case Nil
  then show ?thesis using c par nl by (auto simp: relink_def NIL_def)
next
  case (Cons f cx')
  obtain d e a k s where f: "f = (d, e, a, k, s)" by (metis prod_cases5)
  have q: "q = a" "a \<noteq> nl" "a \<noteq> 0" using c dist Cons f by auto
  have "p \<noteq> child (m a) (dw (flip d))"
    by (rule sibling_other [of m nl _ a s]) (use c dist p Cons f in auto)
  then have "direction m p = Inr (dw d)"
    by (intro direction_ok [of m nl "root t" q p]) (use c par q Cons f in auto)
  then have r: "relink m t p sub = Inr (set_child m a (dw d) sub, t)"
    using par q nl by (simp add: relink_def NIL_def)
  have "tr (set_child m a (dw d) sub) nl (child (m a) (dw (flip d))) a s"
    by (rule tr_frame [of m]) (use c dist Cons f in \<open>auto intro!: writes_other\<close>)
  moreover have "cxr (set_child m a (dw d) sub) nl (root t) (parent (m a)) a cx'"
    by (rule cxr_frame [of m]) (use c dist Cons f in \<open>auto intro!: writes_other\<close>)
  ultimately have "cxr (set_child m a (dw d) sub) nl (root t) q sub cx"
    using c Cons f by auto
  then show ?thesis using r Cons f by (auto intro!: exI [of _ "set_child m a (dw d) sub"] exI [of _ t])
qed

subsection \<open>A focus in a tree\<close>

text \<open>\<open>focus m t p cx s\<close>: the tree \<open>t\<close> in memory \<open>m\<close> is \<open>plug cx s\<close>, with \<open>s\<close> at address \<open>p\<close>.\<close>

definition focus :: "rbmem \<Rightarrow> RbTree \<Rightarrow> u32 \<Rightarrow> frame list \<Rightarrow> rbt \<Rightarrow> bool" where
  "focus m t p cx s \<longleftrightarrow> fresh (nil t) cx s \<and> color (m (nil t)) = BLACK \<and>
     (\<exists>q. tr m (nil t) p q s \<and> cxr m (nil t) (root t) q p cx)"

definition keeps :: "u32 set \<Rightarrow> rbmem \<Rightarrow> RbTree \<Rightarrow> rbmem \<Rightarrow> RbTree \<Rightarrow> bool" where
  "keeps S m t m' t' \<longleftrightarrow> nil t' = nil t \<and> node_count t' = node_count t \<and> (\<forall>x. x \<notin> S \<longrightarrow> m' x = m x)"

lemma keeps_refl [simp]: "keeps S m t m t"
  by (simp add: keeps_def)

lemma keeps_trans: "keeps S m t m' t' \<Longrightarrow> keeps S m' t' m'' t'' \<Longrightarrow> keeps S m t m'' t''"
  by (simp add: keeps_def)

lemma keeps_color: "p \<in> S \<Longrightarrow> keeps S m t (set_color m p c) t"
  by (auto simp: keeps_def set_color_def)

lemma fresh_up: "fresh nl ((d, c, a, k, s) # cx) x \<longleftrightarrow> fresh nl cx (mk d c a k x s)"
  by (auto simp: fresh_def)

lemma focus_up: "focus m t p ((d, c, a, k, s) # cx) x \<longleftrightarrow>
    focus m t a cx (mk d c a k x s) \<and> p = child (m a) (dw d) \<and> tr m (nil t) p a x"
  by (auto simp: focus_def fresh_up)

lemma focus_down: "focus m t a cx (mk d c a k x s) \<Longrightarrow>
    focus m t (child (m a) (dw d)) ((d, c, a, k, s) # cx) x"
  unfolding focus_up by (auto simp: focus_def)

lemma focus_raise: "focus m t p ((d, c, a, k, s) # cx) x \<Longrightarrow> focus m t a cx (mk d c a k x s)"
  by (simp add: focus_up)

lemma focus_fields:
  assumes "focus m t p cx (mk d c a k x y)"
  shows "p = a" "key (m a) = k" "color (m a) = cw c" "a \<noteq> nil t" "a \<noteq> 0"
    "a \<notin> set (ptrs x)" "a \<notin> set (ptrs y)" "a \<notin> set (ptrs_cx cx)"
  using assms by (auto simp: focus_def fresh_def)

lemma focus_parent:
  assumes "focus m t p ((d, c, a, k, s) # cx) x" "x \<noteq> Lf"
  shows "parent (m p) = a"
  using assms by (cases x) (auto simp: focus_def)

lemma focus_root_parent: "focus m t p [] x \<Longrightarrow> x \<noteq> Lf \<Longrightarrow> parent (m p) = nil t"
  by (cases x) (auto simp: focus_def)

lemma focus_color: "focus m t p cx s \<Longrightarrow> color (m p) = cw (colr s)"
  by (auto simp: focus_def dest: color_of_root)

lemma focus_nil: "focus m t p cx s \<Longrightarrow> p = nil t \<longleftrightarrow> s = Lf"
  by (auto simp: focus_def fresh_def dest: tr_not_nil)

lemma focus_child_color:
  assumes "focus m t a cx (mk d c a k x y)"
  shows "color (m (child (m a) (dw d))) = cw (colr x)" "color (m (child (m a) (dw (flip d)))) = cw (colr y)"
proof -
  show "color (m (child (m a) (dw d))) = cw (colr x)" using focus_color [OF focus_down] assms by blast
  have "tr m (nil t) (child (m a) (dw (flip d))) a y" using assms by (auto simp: focus_def)
  then show "color (m (child (m a) (dw (flip d)))) = cw (colr y)"
    using assms by (auto simp: focus_def dest: color_of_root)
qed

text \<open>A direction is known below a node, if the focus or its sibling is not empty.\<close>

lemma focus_direction:
  assumes "focus m t p ((d, c, a, k, s) # cx) x" "parent (m p) = a" "x \<noteq> Lf \<or> s \<noteq> Lf"
  shows "direction m p = Inr (dw d)"
proof -
  obtain q where q: "cxr m (nil t) (root t) q p ((d, c, a, k, s) # cx)" "tr m (nil t) p q x"
    "fresh (nil t) ((d, c, a, k, s) # cx) x" using assms(1) by (auto simp: focus_def)
  have "p \<noteq> child (m a) (dw (flip d))"
  proof (cases x)
    case Lf
    then show ?thesis using q assms(3) by (cases s) (auto simp: fresh_def)
  next
    case Nd
    then have "p \<in> set (ptrs x)" "p \<noteq> nil t" using q by (auto simp: fresh_def)
    then show ?thesis
      using q by (intro sibling_other [of m "nil t" _ a s]) (auto simp: fresh_def)
  qed
  then show ?thesis
    using q assms(2) by (intro direction_ok [of m "nil t" "root t" q p d c a k s cx]) (auto simp: fresh_def)
qed

text \<open>Painting the focus.\<close>

lemma focus_set_color:
  assumes "focus m t p cx s" "s \<noteq> Lf"
  shows "focus (set_color m p (cw c)) t p cx (paint c s)"
proof -
  obtain q where q: "tr m (nil t) p q s" "cxr m (nil t) (root t) q p cx" "fresh (nil t) cx s"
    using assms(1) by (auto simp: focus_def)
  have p: "p \<in> set (ptrs s)" by (rule root_ptr [OF q(1) assms(2)])
  have "tr (set_color m p (cw c)) (nil t) p q (paint c s)"
    by (rule tr_set_color [OF q(1) assms(2)]) (use q(3) in \<open>simp add: fresh_def\<close>)
  moreover have "cxr (set_color m p (cw c)) (nil t) (root t) q p cx"
    by (rule cxr_frame [OF q(2)]) (use q(3) p in \<open>auto simp: fresh_def intro!: writes_other\<close>)
  moreover have "nil t \<noteq> p" using p q(3) by (auto simp: fresh_def)
  ultimately show ?thesis using assms(1) q(3) by (auto simp: focus_def fresh_def)
qed

lemma focus_paint:
  assumes "focus m t a cx (mk d e a k x y)"
  shows "focus (set_color m a (cw c)) t a cx (mk d c a k x y)"
proof -
  have "mk d e a k x y \<noteq> Lf" by (cases d) auto
  from focus_set_color [OF assms this, of c] show ?thesis by simp
qed

lemma focus_BLACK: "focus m t a cx (mk d e a k x y) \<Longrightarrow> focus (set_color m a BLACK) t a cx (mk d Bk a k x y)"
  using focus_paint [of m t a cx d e k x y Bk] by simp

lemma focus_RED: "focus m t a cx (mk d e a k x y) \<Longrightarrow> focus (set_color m a RED) t a cx (mk d Rd a k x y)"
  using focus_paint [of m t a cx d e k x y Rd] by simp

lemma focus_paint_child:
  assumes "focus m t a cx (mk d e a k x y)" "x \<noteq> Lf"
  shows "focus (set_color m (child (m a) (dw d)) (cw c)) t a cx (mk d e a k (paint c x) y)"
  using focus_set_color [OF focus_down [OF assms(1)] assms(2), of c]
  by (simp add: focus_up)

lemma mk_flip: "mk d c a k x y = mk (flip d) c a k y x"
  by (cases d) auto

lemma focus_paint_other:
  assumes "focus m t a cx (mk d e a k x y)" "y \<noteq> Lf"
  shows "focus (set_color m (child (m a) (dw (flip d))) (cw c)) t a cx (mk d e a k x (paint c y))"
  using focus_paint_child [of m t a cx "flip d" e k y x c] assms by (simp add: mk_flip [of d])

subsection \<open>Rotation\<close>

lemma rotate_relink:
  "rotate_subtree m t node dir =
     (let sub = child (m node) (1 - dir);
          m = set_child m node (1 - dir) (child (m sub) dir);
          m = (if \<not> NIL t (child (m sub) dir) then set_parent m (child (m sub) dir) node else m);
          m = set_parent m sub (parent (m node))
      in bind_res (relink m t node sub)
         (\<lambda>(m, t). Inr (set_parent (set_child m sub dir node) node sub, t)))"
  by (simp add: rotate_subtree_def relink_def Let_def split_def)

lemma rotate_ok:
  assumes f: "focus m t p cx (mk d c a k A (mk d c' b k' B C))"
  shows "\<exists>m' t'. rotate_subtree m t a (dw d) = Inr (m', t') \<and>
    focus m' t' b cx (mk d c' b k' (mk d c a k A B) C) \<and>
    keeps (set (ptrs (plug cx (mk d c a k A (mk d c' b k' B C))))) m t m' t'"
proof -
  let ?nl = "nil t" and ?T = "mk d c a k A (mk d c' b k' B C)"
  let ?S = "set (ptrs (plug cx ?T))"
  obtain q where q: "tr m ?nl a q ?T" "cxr m ?nl (root t) q a cx" and fr: "fresh ?nl cx ?T"
    and nilc: "color (m ?nl) = BLACK" and p: "p = a"
    using f by (auto simp: focus_def)
  define pB where "pB = child (m b) (dw d)"
  have mem: "parent (m a) = q" "key (m a) = k" "color (m a) = cw c" "child (m a) (dw (flip d)) = b"
    "tr m ?nl (child (m a) (dw d)) a A" "parent (m b) = a" "key (m b) = k'" "color (m b) = cw c'"
    "tr m ?nl pB b B" "tr m ?nl (child (m b) (dw (flip d))) b C"
    using q(1) by (auto simp: pB_def)
  have ne: "a \<noteq> b" "a \<noteq> ?nl" "b \<noteq> ?nl" "a \<notin> set (ptrs A)" "a \<notin> set (ptrs B)" "a \<notin> set (ptrs C)"
    "b \<notin> set (ptrs A)" "b \<notin> set (ptrs B)" "b \<notin> set (ptrs C)"
    "a \<notin> set (ptrs_cx cx)" "b \<notin> set (ptrs_cx cx)"
    and dis: "distinct (ptrs B)" "set (ptrs A) \<inter> set (ptrs B) = {}" "set (ptrs B) \<inter> set (ptrs C) = {}"
    "set (ptrs A) \<inter> set (ptrs_cx cx) = {}" "set (ptrs B) \<inter> set (ptrs_cx cx) = {}"
    "set (ptrs C) \<inter> set (ptrs_cx cx) = {}" "?nl \<notin> set (ptrs A)" "?nl \<notin> set (ptrs B)" "?nl \<notin> set (ptrs C)"
    using fr by (auto simp: fresh_def)
  have pB: "pB = ?nl \<longleftrightarrow> B = Lf" using tr_not_nil [OF mem(9) dis(8)] .
  have pB': "B \<noteq> Lf \<Longrightarrow> pB \<in> set (ptrs B)" using root_ptr [OF mem(9)] .
  define m1 where "m1 = set_child m a (dw (flip d)) pB"
  define m2 where "m2 = (if B = Lf then m1 else set_parent m1 pB a)"
  define m3 where "m3 = set_parent m2 b q"
  have out2: "m2 x = m x" if "x \<noteq> a" "x \<notin> set (ptrs B)" for x
  proof -
    have "B \<noteq> Lf \<Longrightarrow> x \<noteq> pB" using that pB' by auto
    then show ?thesis using that by (cases "B = Lf") (simp_all add: m2_def m1_def)
  qed
  have out3: "m3 x = m x" if "x \<noteq> a" "x \<noteq> b" "x \<notin> set (ptrs B)" for x
    using that out2 by (simp add: m3_def)
  have a2: "m2 a = m1 a" "m2 b = m b"
  proof -
    have "B \<noteq> Lf \<Longrightarrow> a \<noteq> pB \<and> b \<noteq> pB" using ne pB' by auto
    then show "m2 a = m1 a" "m2 b = m b" using ne by (cases "B = Lf"; simp add: m2_def m1_def)+
  qed
  have B2: "tr m2 ?nl pB a B"
  proof (cases "B = Lf")
    case False
    have "tr m1 ?nl pB b B" by (rule tr_frame [OF mem(9)]) (use ne in \<open>auto simp: m1_def intro!: writes_other\<close>)
    from tr_set_parent [OF this False dis(1)] show ?thesis using False by (simp add: m2_def)
  qed (use pB in simp)
  have cx3: "cxr m3 ?nl (root t) q a cx"
    by (rule cxr_frame [OF q(2)], rule out3) (use ne dis in auto)
  have run: "rotate_subtree m t a (dw d) =
      bind_res (relink m3 t a b) (\<lambda>(m, t). Inr (set_parent (set_child m b (dw d) a) a b, t))"
  proof -
    have "m1 b = m b" using ne by (simp add: m1_def)
    then have c: "child (m1 b) (dw d) = pB" by (simp add: pB_def)
    have "parent (m2 a) = q" using a2(1) mem(1) by (simp add: m1_def)
    then show ?thesis
      unfolding rotate_relink Let_def dir_simps mem(4) pB_def [symmetric] m1_def [symmetric] c
      using pB by (cases "B = Lf") (simp_all add: m2_def m3_def NIL_def)
  qed
  have "parent (m3 a) = q" using ne a2(1) mem(1) by (simp add: m3_def m1_def)
  from relink_ok [OF cx3 this refl, of b] fr ne obtain m4 t' where m4:
    "relink m3 t a b = Inr (m4, t')" "cxr m4 ?nl (root t') q b cx" "nil t' = ?nl"
    "node_count t' = node_count t" "\<forall>x. x \<notin> set (ptrs_cx cx) \<longrightarrow> m4 x = m3 x"
    by (auto simp: fresh_def)
  define m6 where "m6 = set_parent (set_child m4 b (dw d) a) a b"
  have out6: "m6 x = m4 x" if "x \<noteq> a" "x \<noteq> b" for x using that by (simp add: m6_def)
  have sub: "tr m6 ?nl (child (m a) (dw d)) a A" "tr m6 ?nl pB a B" "tr m6 ?nl (child (m b) (dw (flip d))) b C"
  proof -
    have "m6 x = m x" if "x \<in> set (ptrs A) \<union> set (ptrs C)" for x
    proof -
      have "x \<noteq> a" "x \<noteq> b" "x \<notin> set (ptrs B)" "x \<notin> set (ptrs_cx cx)" using that ne dis by auto
      then show ?thesis using m4(5) out3 [of x] out6 [of x] by simp
    qed
    then show "tr m6 ?nl (child (m a) (dw d)) a A" "tr m6 ?nl (child (m b) (dw (flip d))) b C"
      using tr_frame [OF mem(5)] tr_frame [OF mem(10)] by blast+
    have "m6 x = m2 x" if "x \<in> set (ptrs B)" for x
    proof -
      have "x \<noteq> a" "x \<noteq> b" "x \<notin> set (ptrs_cx cx)" using that ne dis by auto
      then show ?thesis using m4(5) out6 by (simp add: m3_def)
    qed
    then show "tr m6 ?nl pB a B" using tr_frame [OF B2] by blast
  qed
  have b6: "parent (m6 b) = q" "key (m6 b) = k'" "color (m6 b) = cw c'" "child (m6 b) (dw d) = a"
    "child (m6 b) (dw (flip d)) = child (m b) (dw (flip d))"
    using ne m4(5) a2(2) mem by (simp_all add: m6_def m3_def)
  have a6: "parent (m6 a) = b" "key (m6 a) = k" "color (m6 a) = cw c" "child (m6 a) (dw d) = child (m a) (dw d)"
    "child (m6 a) (dw (flip d)) = pB"
    using ne m4(5) a2(1) mem by (simp_all add: m6_def m3_def m1_def)
  have "tr m6 ?nl b q (mk d c' b k' (mk d c a k A B) C)"
    using a6 b6 sub by simp
  moreover have "cxr m6 ?nl (root t') q b cx"
    by (rule cxr_frame [OF m4(2)], rule out6) (use ne in auto)
  moreover have "m6 ?nl = m ?nl" using out6 [of ?nl] out3 [of ?nl] m4(5) ne dis fr by (auto simp: fresh_def)
  moreover have "fresh ?nl cx (mk d c' b k' (mk d c a k A B) C)" using fr by (auto simp: fresh_def)
  ultimately have "focus m6 t' b cx (mk d c' b k' (mk d c a k A B) C)"
    using m4(3) nilc by (auto simp: focus_def)
  moreover have "m6 x = m x" if "x \<notin> ?S" for x
  proof -
    have "x \<noteq> a" "x \<noteq> b" "x \<notin> set (ptrs B)" "x \<notin> set (ptrs_cx cx)"
      using that by (auto simp: ptrs_plug)
    then show ?thesis using out6 out3 m4(5) by simp
  qed
  ultimately show ?thesis
    using run m4(1,3,4) by (auto simp: keeps_def m6_def)
qed

end
