(* ===== verification/RbInsert.thy ===== *)
theory RbInsert
  imports RbShape
begin

section \<open>Insertion keeps the red-black tree\<close>

subsection \<open>The colour and the height invariant\<close>

primrec invc :: "rbt \<Rightarrow> bool" where
  "invc Lf \<longleftrightarrow> True"
| "invc (Nd l c a k r) \<longleftrightarrow> invc l \<and> invc r \<and> (c = Rd \<longrightarrow> colr l = Bk \<and> colr r = Bk)"

primrec bh :: "rbt \<Rightarrow> nat" where
  "bh Lf = 0"
| "bh (Nd l c a k r) = bh l + (if c = Bk then 1 else 0)"

primrec invh :: "rbt \<Rightarrow> bool" where
  "invh Lf \<longleftrightarrow> True"
| "invh (Nd l c a k r) \<longleftrightarrow> bh l = bh r \<and> invh l \<and> invh r"

text \<open>A context accepts a focus whose root has a colour, and expects its black height.\<close>

primrec cinvc :: "frame list \<Rightarrow> col \<Rightarrow> bool" where
  "cinvc [] x \<longleftrightarrow> True"
| "cinvc (f # cx) x \<longleftrightarrow> (case f of (d, c, a, k, s) \<Rightarrow>
     invc s \<and> (c = Rd \<longrightarrow> x = Bk \<and> colr s = Bk) \<and> cinvc cx c)"

primrec chh :: "frame list \<Rightarrow> nat \<Rightarrow> bool" where
  "chh [] n \<longleftrightarrow> True"
| "chh (f # cx) n \<longleftrightarrow> (case f of (d, c, a, k, s) \<Rightarrow>
     invh s \<and> bh s = n \<and> chh cx (n + (if c = Bk then 1 else 0)))"

primrec topc :: "frame list \<Rightarrow> col \<Rightarrow> col" where
  "topc [] x = x"
| "topc (f # cx) x = (case f of (d, c, a, k, s) \<Rightarrow> topc cx c)"

lemma inv_mk [simp]:
  "invc (mk d c a k x y) \<longleftrightarrow> invc x \<and> invc y \<and> (c = Rd \<longrightarrow> colr x = Bk \<and> colr y = Bk)"
  "invh (mk d c a k x y) \<longleftrightarrow> bh x = bh y \<and> invh x \<and> invh y"
  "bh x = bh y \<Longrightarrow> bh (mk d c a k x y) = bh x + (if c = Bk then 1 else 0)"
  "mk d c a k x y \<noteq> Lf"
  by (cases d; auto)+

lemma inorder_mk: "inorder (mk d c a k x y) =
    (if d = L then inorder x @ (k, a) # inorder y else inorder y @ (k, a) # inorder x)"
  by (cases d) auto

lemma inv_paint [simp]:
  "invc t \<Longrightarrow> invc (paint Bk t)" "invh (paint c t) \<longleftrightarrow> invh t"
  "colr (paint c t) = (if t = Lf then Bk else c)"
  "colr t = Rd \<Longrightarrow> bh (paint Bk t) = bh t + 1" "paint c t = Lf \<longleftrightarrow> t = Lf"
  "colr t = Bk \<Longrightarrow> t \<noteq> Lf \<Longrightarrow> bh (paint Rd t) + 1 = bh t"
  "paint c (paint e t) = paint c t"
  by (cases t; simp)+

lemma invc_plug: "invc (plug cx t) \<longleftrightarrow> invc t \<and> cinvc cx (colr t)"
proof (induction cx arbitrary: t)
  case (Cons f cx)
  obtain d c a k s where "f = (d, c, a, k, s)" by (metis prod_cases5)
  then show ?case using Cons.IH [of "mk d c a k t s"] by (simp only: plug.simps cinvc.simps prod.case inv_mk colr_paint_mk) blast
qed simp

lemma invh_plug: "invh (plug cx t) \<longleftrightarrow> invh t \<and> chh cx (bh t)"
proof (induction cx arbitrary: t)
  case (Cons f cx)
  obtain d c a k s where "f = (d, c, a, k, s)" by (metis prod_cases5)
  then show ?case using Cons.IH [of "mk d c a k t s"] by (cases "bh t = bh s") auto
qed simp

lemma colr_plug: "colr (plug cx t) = topc cx (colr t)"
proof (induction cx arbitrary: t)
  case (Cons f cx)
  obtain d c a k s where "f = (d, c, a, k, s)" by (metis prod_cases5)
  then show ?case using Cons.IH [of "mk d c a k t s"] by simp
qed simp

lemmas inv_plug = invc_plug invh_plug colr_plug

lemma cinvc_Bk: "cinvc cx Rd \<Longrightarrow> cinvc cx Bk"
  by (cases cx) auto

lemma mk_exists: "t \<noteq> Lf \<Longrightarrow> \<exists>a k x y. t = mk d (colr t) a k x y"
  by (cases t; cases d) auto

text \<open>The whole tree at the root.\<close>

lemma focus_top: "focus m t p cx s \<Longrightarrow> focus m t (root t) [] (plug cx s)"
proof (induction cx arbitrary: p s)
  case Nil
  then show ?case by (auto simp: focus_def)
next
  case (Cons f cx)
  obtain d c a k x where "f = (d, c, a, k, x)" by (metis prod_cases5)
  then show ?case using Cons by (auto simp: focus_up)
qed

definition same_tree :: "rbt \<Rightarrow> rbt \<Rightarrow> bool" where
  "same_tree t u \<longleftrightarrow> inorder t = inorder u \<and> set (ptrs t) = set (ptrs u)"

lemma same_tree_refl [simp]: "same_tree t t"
  by (simp add: same_tree_def)

lemma same_tree_plug: "inorder s = inorder u \<Longrightarrow> set (ptrs s) = set (ptrs u) \<Longrightarrow>
    same_tree (plug cx s) (plug cx u)"
  by (simp add: same_tree_def inorder_plug ptrs_plug)

text \<open>What the two repair loops establish.\<close>

definition repaired :: "rbmem \<Rightarrow> RbTree \<Rightarrow> rbt \<Rightarrow> rbmem \<times> RbTree \<Rightarrow> bool" where
  "repaired m t T = (\<lambda>(m', t'). \<exists>T'. focus m' t' (root t') [] T' \<and> same_tree T' T \<and>
     invc T' \<and> invh T' \<and> colr T' = Bk \<and> keeps (set (ptrs T)) m t m' t')"

lemma repaired_trans:
  assumes "keeps (set (ptrs T)) m t m' t'" "same_tree U T" "repaired m' t' U x"
  shows "repaired m t T x"
  using assms by (cases x) (fastforce simp: repaired_def same_tree_def intro: keeps_trans)

lemma paint_root:
  assumes "focus m t p cx s" "s \<noteq> Lf \<or> cx \<noteq> []" "invc (plug cx s)" "invh (plug cx s)"
  shows "repaired m t (plug cx s) (set_color m (root t) BLACK, t)"
proof -
  have ne: "plug cx s \<noteq> Lf" using assms(2)
  proof (induction cx arbitrary: s)
    case (Cons f cx)
    then show ?case by (cases f) (simp add: Cons.IH)
  qed simp
  note top = focus_top [OF assms(1)]
  have "focus (set_color m (root t) (cw Bk)) t (root t) [] (paint Bk (plug cx s))"
    by (rule focus_set_color [OF top ne])
  moreover have "root t \<in> set (ptrs (plug cx s))"
    using top root_ptr ne by (auto simp: focus_def)
  ultimately show ?thesis
    using assms(3,4) ne by (auto simp: repaired_def same_tree_def intro!: keeps_color exI [of _ "paint Bk (plug cx s)"])
qed

subsection \<open>The repair loop of the insertion\<close>

lemma insert_fix_done:
  assumes "focus m t p cx s" "s \<noteq> Lf" "invc s" "invh s" "cinvc cx (colr s)" "chh cx (bh s)"
    and "color (m (parent (m p))) \<noteq> RED"
  shows "\<exists>x. insert_fix m t p = Some (Inr x) \<and> repaired m t (plug cx s) x"
proof -
  have "insert_fix m t p = Some (Inr (set_color m (root t) BLACK, t))"
    using assms(7) by (subst insert_fix.simps) simp
  moreover have "repaired m t (plug cx s) (set_color m (root t) BLACK, t)"
    by (rule paint_root [OF assms(1)]) (use assms in \<open>auto simp: inv_plug\<close>)
  ultimately show ?thesis by blast
qed

text \<open>The last two steps of the repair: the parent \<open>b\<close> in line with the focus \<open>X\<close>.\<close>

lemma insert_fix_turn:
  assumes f: "focus m t n ((d, Rd, b, kb, Y) # (d, Bk, g, kg, u) # cx) X"
    and X: "colr X = Rd" "invc X" "invh X" "invc Y" "invh Y" "bh Y = bh X" "colr Y = Bk"
    and u: "invc u" "invh u" "bh u = bh X" "colr u = Bk"
    and cx: "cinvc cx Bk" "chh cx (bh X + 1)"
  shows "\<exists>m' t'. rotate_subtree (set_color (set_color m b BLACK) g RED) t g (dw (flip d)) = Inr (m', t') \<and>
    (\<exists>x. insert_fix m' t' n = Some (Inr x) \<and>
      repaired m t (plug ((d, Rd, b, kb, Y) # (d, Bk, g, kg, u) # cx) X) x)"
proof -
  let ?T = "plug ((d, Rd, b, kb, Y) # (d, Bk, g, kg, u) # cx) X"
  let ?m1 = "set_color m b BLACK"
  let ?m2 = "set_color ?m1 g RED"
  have "focus m t b ((d, Bk, g, kg, u) # cx) (mk d Rd b kb X Y)"
    by (rule focus_raise [OF f])
  from focus_raise [OF focus_BLACK [OF this]]
  have "focus ?m1 t g cx (mk d Bk g kg (mk d Bk b kb X Y) u)" .
  from focus_RED [OF this] have "focus ?m2 t g cx (mk (flip d) Rd g kg u (mk (flip d) Bk b kb Y X))"
    by (simp add: mk_flip [of d])
  from rotate_ok [OF this] obtain m' t' where r:
    "rotate_subtree ?m2 t g (dw (flip d)) = Inr (m', t')"
    "focus m' t' b cx (mk (flip d) Bk b kb (mk (flip d) Rd g kg u Y) X)"
    "keeps (set (ptrs (plug cx (mk (flip d) Rd g kg u (mk (flip d) Bk b kb Y X))))) ?m2 t m' t'"
    by blast
  let ?U = "mk d Bk b kb X (mk (flip d) Rd g kg u Y)"
  have fb: "focus m' t' b cx ?U" using r(2) by (simp add: mk_flip [of d])
  from focus_down [OF this] have fn: "focus m' t' (child (m' b) (dw d)) ((d, Bk, b, kb, mk (flip d) Rd g kg u Y) # cx) X" .
  have n: "child (m' b) (dw d) = n"
    using fn f X(1) by (cases X) (auto simp: focus_def)
  have Xne: "X \<noteq> Lf" using X(1) by auto
  have "parent (m' n) = b" using focus_parent [OF fn Xne] n by simp
  then have pb: "color (m' (parent (m' n))) \<noteq> RED" using focus_fields(3) [OF fb] by simp
  have "\<exists>x. insert_fix m' t' n = Some (Inr x) \<and>
      repaired m' t' (plug ((d, Bk, b, kb, mk (flip d) Rd g kg u Y) # cx) X) x"
    by (rule insert_fix_done) (use fn n X u cx cinvc_Bk Xne pb in auto)
  then obtain x where x: "insert_fix m' t' n = Some (Inr x)" "repaired m' t' (plug cx ?U) x" by auto
  have S: "set (ptrs (plug cx (mk (flip d) Rd g kg u (mk (flip d) Bk b kb Y X)))) = set (ptrs ?T)"
    by (auto simp: ptrs_plug)
  have "b \<in> set (ptrs ?T)" "g \<in> set (ptrs ?T)" by (auto simp: ptrs_plug)
  then have "keeps (set (ptrs ?T)) m t m' t'"
    using r(3) unfolding S by (meson keeps_color keeps_trans)
  moreover have "same_tree (plug cx ?U) ?T"
    by (cases d) (auto simp: same_tree_def inorder_plug ptrs_plug)
  ultimately have "repaired m t ?T x" using x(2) by (blast intro: repaired_trans)
  then show ?thesis using r(1) x(1) by blast
qed

text \<open>One round at a red parent \<open>a\<close> below \<open>g\<close>, uncle red.\<close>

lemma insert_fix_recolour:
  assumes f: "focus m t p ((d1, Rd, a, k1, s1) # (d2, Bk, g, kg, u) # cx) s" "s \<noteq> Lf" and u: "colr u = Rd"
  shows "\<exists>m'. insert_fix m t p = insert_fix m' t g \<and>
    focus m' t g cx (mk d2 Rd g kg (mk d1 Bk a k1 s s1) (paint Bk u)) \<and>
    keeps (insert a (insert g (set (ptrs u)))) m t m' t"
proof -
  have pa: "parent (m p) = a" using focus_parent [OF f] .
  have fa: "focus m t a ((d2, Bk, g, kg, u) # cx) (mk d1 Rd a k1 s s1)" by (rule focus_raise [OF f(1)])
  have ga: "parent (m a) = g" by (rule focus_parent [OF fa]) simp
  have ca: "color (m a) = RED" using focus_fields(3) [OF fa] by simp
  have da: "direction m a = Inr (dw d2)" by (rule focus_direction [OF fa ga]) simp
  note fg = focus_raise [OF fa]
  let ?u = "child (m g) (dw (flip d2))"
  have cu: "color (m ?u) = RED" using focus_child_color(2) [OF fg] u by simp
  have une: "u \<noteq> Lf" using u by auto
  let ?m1 = "set_color m a BLACK" let ?m2 = "set_color ?m1 ?u BLACK" let ?m3 = "set_color ?m2 g RED"
  have "focus ?m1 t g cx (mk d2 Bk g kg (mk d1 Bk a k1 s s1) u)"
    by (rule focus_raise [OF focus_BLACK [OF fa]])
  from focus_paint_other [OF this une, of Bk]
  have "focus ?m2 t g cx (mk d2 Bk g kg (mk d1 Bk a k1 s s1) (paint Bk u))" by simp
  from focus_RED [OF this]
  have "focus ?m3 t g cx (mk d2 Rd g kg (mk d1 Bk a k1 s s1) (paint Bk u))" .
  moreover have "insert_fix m t p = insert_fix ?m3 t g"
    by (subst insert_fix.simps) (simp add: pa ga ca da cu)
  moreover have "?u \<in> set (ptrs u)"
    using fg une by (auto simp: focus_def intro: root_ptr)
  moreover from this have "keeps (insert a (insert g (set (ptrs u)))) m t ?m3 t"
    by (meson keeps_color keeps_trans insertCI)
  ultimately show ?thesis by blast
qed

text \<open>Uncle black: the rotations.\<close>

lemma insert_fix_rotate:
  assumes f: "focus m t p ((d1, Rd, a, k1, s1) # (d2, Bk, g, kg, u) # cx) s"
    and s: "colr s = Rd" "invc s" "invh s" "invc s1" "invh s1" "bh s1 = bh s" "colr s1 = Bk"
    and u: "invc u" "invh u" "bh u = bh s" "colr u = Bk"
    and cx: "cinvc cx Bk" "chh cx (bh s + 1)"
  shows "\<exists>x. insert_fix m t p = Some (Inr x) \<and>
    repaired m t (plug ((d1, Rd, a, k1, s1) # (d2, Bk, g, kg, u) # cx) s) x"
proof -
  let ?T = "plug ((d1, Rd, a, k1, s1) # (d2, Bk, g, kg, u) # cx) s"
  have ne: "s \<noteq> Lf" using s(1) by auto
  have pa: "parent (m p) = a" using focus_parent [OF f ne] .
  have fa: "focus m t a ((d2, Bk, g, kg, u) # cx) (mk d1 Rd a k1 s s1)" by (rule focus_raise [OF f])
  have ga: "parent (m a) = g" by (rule focus_parent [OF fa]) simp
  have ca: "color (m a) = RED" using focus_fields(3) [OF fa] by simp
  have da: "direction m a = Inr (dw d2)" by (rule focus_direction [OF fa ga]) simp
  have dp: "direction m p = Inr (dw d1)" by (rule focus_direction [OF f pa]) (use ne in simp)
  have cu: "color (m (child (m g) (dw (flip d2)))) = BLACK"
    using focus_child_color(2) [OF focus_raise [OF fa]] u by simp
  have straight: "insert_fix m t p = (case rotate_subtree (set_color (set_color m a BLACK) g RED) t g (dw (flip d2)) of
      Inl e \<Rightarrow> Some (Inl e) | Inr (m, t) \<Rightarrow> insert_fix m t p)" if "d1 = d2"
    by (subst insert_fix.simps) (simp add: that pa ga ca da dp cu)
  have bent: "insert_fix m t p = (let b = parent (m' a); g = parent (m' b) in
      case rotate_subtree (set_color (set_color m' b BLACK) g RED) t' g (dw (flip d2)) of
        Inl e \<Rightarrow> Some (Inl e) | Inr (m, t) \<Rightarrow> insert_fix m t a)"
    if "d1 = flip d2" "rotate_subtree m t a (dw d2) = Inr (m', t')" for m' t'
    by (subst insert_fix.simps) (simp add: that pa ga ca da dp cu Let_def)
  show ?thesis
  proof (cases "d1 = d2")
    case True
    from insert_fix_turn [OF f [unfolded True] s u cx]
    show ?thesis unfolding True straight [OF True] by auto
  next
    case False
    then have d1: "d1 = flip d2" by (simp add: neq_flip)
    obtain b kb B C where sb: "s = mk d2 Rd b kb B C" using mk_exists [OF ne, of d2] s(1) by metis
    have T: "mk d1 Rd a k1 s s1 = mk d2 Rd a k1 s1 (mk d2 Rd b kb B C)"
      by (simp add: d1 sb mk_flip [of d2])
    from rotate_ok [OF fa [unfolded T]] obtain m' t' where r:
      "rotate_subtree m t a (dw d2) = Inr (m', t')"
      "focus m' t' b ((d2, Bk, g, kg, u) # cx) (mk d2 Rd b kb (mk d2 Rd a k1 s1 B) C)"
      "keeps (set (ptrs ?T)) m t m' t'"
      by (auto simp: T)
    let ?X = "mk d2 Rd a k1 s1 B"
    have "child (m' b) (dw d2) = a" using r(2) by (simp add: focus_def)
    with focus_down [OF r(2)]
    have f': "focus m' t' a ((d2, Rd, b, kb, C) # (d2, Bk, g, kg, u) # cx) ?X" by simp
    have p': "parent (m' a) = b" by (rule focus_parent [OF f']) simp
    have g': "parent (m' b) = g" by (rule focus_parent [OF r(2)]) simp
    let ?U = "plug ((d2, Rd, b, kb, C) # (d2, Bk, g, kg, u) # cx) ?X"
    have "\<exists>m'' t''. rotate_subtree (set_color (set_color m' b BLACK) g RED) t' g (dw (flip d2)) = Inr (m'', t'') \<and>
        (\<exists>x. insert_fix m'' t'' a = Some (Inr x) \<and> repaired m' t' ?U x)"
      by (rule insert_fix_turn [OF f']) (use s u cx sb in auto)
    then obtain x where "insert_fix m t p = Some (Inr x)" "repaired m' t' ?U x"
      unfolding bent [OF d1 r(1)] p' g' Let_def by auto
    moreover have "same_tree ?U ?T"
      by (cases d2) (auto simp: same_tree_def inorder_plug ptrs_plug d1 sb)
    ultimately show ?thesis using r(3) by (blast intro: repaired_trans)
  qed
qed

lemma insert_fix_ok:
  assumes "focus m t p cx s" "colr s = Rd" "invc s" "invh s" "cinvc cx Bk" "chh cx (bh s)" "topc cx Bk = Bk"
  shows "\<exists>x. insert_fix m t p = Some (Inr x) \<and> repaired m t (plug cx s) x"
  using assms
proof (induction cx arbitrary: m p s rule: length_induct)
  case (1 cx)
  note f = "1.prems"(1) and s = "1.prems"(2-4) and c = "1.prems"(5-7)
  have ne: "s \<noteq> Lf" using s(1) by auto
  show ?case
  proof (cases cx)
    case Nil
    then show ?thesis
      using insert_fix_done [OF f ne s(2,3)] focus_root_parent [of m t p s] ne f
      by (auto simp: focus_def)
  next
    case (Cons fr cx1)
    obtain d1 c1 a k1 s1 where fr: "fr = (d1, c1, a, k1, s1)" by (metis prod_cases5)
    note f1 = f [unfolded Cons fr]
    have pa: "parent (m p) = a" using focus_parent [OF f1 ne] .
    show ?thesis
    proof (cases c1)
      case Bk
      have "color (m a) = BLACK" using focus_fields(3) [OF focus_raise [OF f1]] Bk by simp
      then show ?thesis using insert_fix_done [OF f ne s(2,3)] pa c s(1) Cons fr Bk by auto
    next
      case Rd
      obtain d2 c2 g kg u cx2 where cx1: "cx1 = (d2, c2, g, kg, u) # cx2"
        using c(3) Cons fr Rd by (cases cx1) auto
      have inv: "c2 = Bk" "invc s1" "colr s1 = Bk" "invc u" "cinvc cx2 Bk" "invh s1" "bh s1 = bh s"
        "invh u" "bh u = bh s" "chh cx2 (bh s + 1)" "topc cx2 Bk = Bk"
        using c Cons fr Rd cx1 by (cases c2; auto)+
      note f2 = f1 [unfolded cx1 Rd inv(1)]
      show ?thesis
      proof (cases "colr u")
        case Rd': Rd
        obtain m' where m': "insert_fix m t p = insert_fix m' t g"
          "focus m' t g cx2 (mk d2 Rd g kg (mk d1 Bk a k1 s s1) (paint Bk u))"
          "keeps (insert a (insert g (set (ptrs u)))) m t m' t"
          using insert_fix_recolour [OF f2 ne Rd'] by blast
        let ?s = "mk d2 Rd g kg (mk d1 Bk a k1 s s1) (paint Bk u)"
        have "\<exists>x. insert_fix m' t g = Some (Inr x) \<and> repaired m' t (plug cx2 ?s) x"
          using "1.IH" [rule_format, of cx2 m' g ?s] m'(2) s inv Rd' Cons cx1 by auto
        moreover have "keeps (set (ptrs (plug cx s))) m t m' t"
          using m'(3) by (auto simp: keeps_def ptrs_plug Cons fr cx1)
        moreover have "same_tree (plug cx2 ?s) (plug cx s)"
          by (cases d1; cases d2) (auto simp: same_tree_def inorder_plug ptrs_plug Cons fr cx1)
        ultimately show ?thesis using m'(1) by (auto intro: repaired_trans)
      next
        case Bk
        show ?thesis
          using insert_fix_rotate [OF f2 s inv(2,6,7,3,4,8,9) Bk inv(5,10)] Cons fr cx1 Rd inv(1) by simp
      qed
    qed
  qed
qed

end
