(* ===== verification/RbMap.thy ===== *)
theory RbMap
  imports RbInsert
begin

section \<open>The red-black tree as a finite map\<close>

subsection \<open>The invariant between operations\<close>

text \<open>A tree in memory, its abstract shape, and the map from keys to node addresses it stands for.\<close>

abbreviation ordered :: "(u32 \<times> u32) list \<Rightarrow> bool" where
  "ordered xs \<equiv> sorted_wrt (<) (List.map fst xs)"

definition rbtree :: "rbmem \<Rightarrow> RbTree \<Rightarrow> rbt \<Rightarrow> bool" where
  "rbtree m t T \<longleftrightarrow> focus m t (root t) [] T \<and> invc T \<and> invh T \<and> colr T = Bk \<and> ordered (inorder T) \<and>
     node_count t = of_nat (length (inorder T))"

definition entries :: "rbt \<Rightarrow> u32 \<Rightarrow> u32 option" where
  "entries T = map_of (inorder T)"

definition nodes :: "rbt \<Rightarrow> u32 set" where
  "nodes T = set (ptrs T)"

lemma focus_count [simp]: "focus m (t\<lparr>node_count := n\<rparr>) p cx s = focus m t p cx s"
  by (simp add: focus_def)

lemma length_inorder: "length (inorder T) = length (ptrs T)"
  by (induction T) auto

lemma entries_dom: "entries T k = None \<longleftrightarrow> k \<notin> fst ` set (inorder T)"
  by (simp add: entries_def map_of_eq_None_iff)

lemma length_ptrs:
  assumes "focus m t p cx s"
  shows "length (ptrs s) < 2 ^ 32"
proof -
  have d: "distinct (0 # ptrs s)" using assms by (auto simp: focus_def fresh_def)
  have "length (0 # ptrs s) = card (set (0 # ptrs s))" using distinct_card [OF d] by simp
  also have "\<dots> \<le> card (UNIV :: u32 set)" by (rule card_mono) simp_all
  finally show ?thesis by (simp add: card_word)
qed

subsection \<open>The search for the place of a key\<close>

definition edge :: "RbTree \<Rightarrow> frame list \<Rightarrow> u32 \<Rightarrow> u8 \<Rightarrow> bool" where
  "edge t cx par dir \<longleftrightarrow> (case cx of [] \<Rightarrow> par = nil t | (d, c, a, k, s) # _ \<Rightarrow> par = a \<and> dir = dw d)"

definition place :: "frame list \<Rightarrow> u32 \<Rightarrow> bool" where
  "place cx k \<longleftrightarrow> (\<forall>x \<in> set (lkeys cx). fst x < k) \<and> (\<forall>x \<in> set (rkeys cx). k < fst x)"

lemma place_down:
  assumes "place cx k" "ordered (inorder (mk d c a k' x y))" "k \<noteq> k'" "d = (if k > k' then R else L)"
  shows "place ((d, c, a, k', y) # cx) k \<and> ordered (inorder x) \<and>
    (k \<in> fst ` set (inorder (mk d c a k' x y)) \<longleftrightarrow> k \<in> fst ` set (inorder x))"
proof (cases "k > k'")
  case True
  then have "\<forall>z \<in> set (inorder y). fst z < k"
    using assms(2,4) by (fastforce simp: sorted_wrt_append)
  then show ?thesis using assms True by (auto simp: place_def sorted_wrt_append)
next
  case False
  then have "k < k'" and d: "d = L" using assms(3,4) by auto
  then have "\<forall>z \<in> set (inorder y). k < fst z"
    using assms(2) unfolding d by (fastforce simp: sorted_wrt_append)
  then show ?thesis using assms False d \<open>k < k'\<close> by (auto simp: place_def sorted_wrt_append)
qed

lemma dw_number: "(if b then 1 else 0) = dw (if b then R else L)"
  by (simp add: LEFT_def RIGHT_def)

lemma insert_search_ok:
  "focus m t loc cx s \<Longrightarrow> edge t cx par dir \<Longrightarrow> length (ptrs s) < n \<Longrightarrow> ordered (inorder s) \<Longrightarrow> place cx k \<Longrightarrow>
   (if k \<in> fst ` set (inorder s) then insert_search n m t loc par dir k = Inr None
    else \<exists>cx' par' dir'. insert_search n m t loc par dir k = Inr (Some (par', dir')) \<and>
      focus m t (nil t) cx' Lf \<and> plug cx' Lf = plug cx s \<and> edge t cx' par' dir' \<and> place cx' k)"
proof (induction s arbitrary: n loc cx par dir)
  case Lf
  then have "loc = nil t" "n \<noteq> 0" by (auto simp: focus_def)
  then show ?case using Lf by (cases n) (auto simp: NIL_def)
next
  case (Nd l c a k' r)
  obtain n' where n: "n = Suc n'" using Nd.prems(3) by (cases n) auto
  have loc: "loc = a" "loc \<noteq> nil t" "key (m a) = k'"
    using focus_fields [of m t loc cx L c a k' l r] Nd.prems(1) by auto
  show ?case
  proof (cases "k' = k")
    case True
    then show ?thesis using n loc by (simp add: NIL_def)
  next
    case False
    define d where "d = (if k > k' then R else L)"
    define x y where "x = (if k > k' then r else l)" and "y = (if k > k' then l else r)"
    have T: "Nd l c a k' r = mk d c a k' x y" by (simp add: d_def x_def y_def)
    have step: "insert_search n m t loc par dir k = insert_search n' m t (child (m a) (dw d)) a (dw d) k"
      using False n loc by (simp add: NIL_def dw_number d_def Let_def)
    note pl = place_down [OF Nd.prems(5) Nd.prems(4) [unfolded T] False [symmetric] d_def]
    have fo: "focus m t (child (m a) (dw d)) ((d, c, a, k', y) # cx) x"
      by (rule focus_down) (use Nd.prems(1) T loc in simp)
    have ed: "edge t ((d, c, a, k', y) # cx) a (dw d)" by (simp add: edge_def)
    have len: "length (ptrs x) < n'" using Nd.prems(3) n by (auto simp: x_def)
    have "if k \<in> fst ` set (inorder x) then insert_search n' m t (child (m a) (dw d)) a (dw d) k = Inr None
      else \<exists>cx' par' dir'. insert_search n' m t (child (m a) (dw d)) a (dw d) k = Inr (Some (par', dir')) \<and>
        focus m t (nil t) cx' Lf \<and> plug cx' Lf = plug ((d, c, a, k', y) # cx) x \<and> edge t cx' par' dir' \<and> place cx' k"
    proof (cases "k > k'")
      case True
      then have x: "x = r" by (simp add: x_def)
      show ?thesis unfolding x by (rule Nd.IH(2)) (use fo ed len pl x in auto)
    next
      case False
      then have x: "x = l" by (simp add: x_def)
      show ?thesis unfolding x by (rule Nd.IH(1)) (use fo ed len pl x in auto)
    qed
    then show ?thesis unfolding step T using pl by (cases "k \<in> fst ` set (inorder x)") auto
  qed
qed

subsection \<open>Linking a new node\<close>

lemma attach:
  assumes f: "focus m t (nil t) cx Lf" and e: "edge t cx par dir"
    and n: "node \<notin> set (ptrs_cx cx)" "node \<noteq> nil t" "node \<noteq> 0"
    and m1: "m1 = m(node := \<lparr>parent = par, left = nil t, right = nil t, key = k, color = RED\<rparr>)"
    and x: "x = (if NIL t par then (m1, t\<lparr>root := node\<rparr>) else (set_child m1 par dir node, t))"
  shows "focus (fst x) (snd x) node cx (Nd Lf Rd node k Lf) \<and>
    nil (snd x) = nil t \<and> node_count (snd x) = node_count t \<and>
    (\<forall>y. y \<notin> insert node (set (ptrs_cx cx)) \<longrightarrow> fst x y = m y)"
proof (cases cx)
  case Nil
  then have "par = nil t" using e by (simp add: edge_def)
  then show ?thesis using x m1 n f Nil by (auto simp: focus_def fresh_def NIL_def)
next
  case (Cons fr cx1)
  obtain d c a k' s where fr: "fr = (d, c, a, k', s)" by (metis prod_cases5)
  have ed: "par = a" "dir = dw d" using e Cons fr by (auto simp: edge_def)
  obtain q where q: "cxr m (nil t) (root t) q (nil t) ((d, c, a, k', s) # cx1)"
    and fre: "fresh (nil t) ((d, c, a, k', s) # cx1) Lf" and nc: "color (m (nil t)) = BLACK"
    using f Cons fr by (auto simp: focus_def)
  have ne: "a \<noteq> nil t" "a \<noteq> node" using fre n Cons fr by (auto simp: fresh_def)
  let ?m = "set_child m1 a (dw d) node"
  have x': "x = (?m, t)" using x ed ne by (simp add: NIL_def)
  have out: "?m y = m y" if "y \<noteq> node" "y \<noteq> a" for y using that m1 by simp
  have "tr ?m (nil t) (child (m a) (dw (flip d))) a s"
    by (rule tr_frame [of m], use q in simp, rule out) (use fre n Cons fr in \<open>auto simp: fresh_def\<close>)
  moreover have "cxr ?m (nil t) (root t) (parent (m a)) a cx1"
    by (rule cxr_frame [of m], use q in simp, rule out) (use fre n Cons fr in \<open>auto simp: fresh_def\<close>)
  moreover have "m1 a = m a" using ne m1 by simp
  ultimately have "cxr ?m (nil t) (root t) a node cx" using q Cons fr by simp
  moreover have "?m node = m1 node" using ne by simp
  then have "tr ?m (nil t) node a (Nd Lf Rd node k Lf)" using m1 ed by simp
  moreover have "?m (nil t) = m (nil t)" using out ne n by metis
  ultimately show ?thesis
    using x' fre n nc out Cons fr by (auto simp: focus_def fresh_def)
qed

text \<open>A new entry in its place.\<close>

lemma ordered_place:
  assumes "ordered (inorder (plug cx Lf))" "place cx k"
  shows "ordered (lkeys cx @ (k, a) # rkeys cx)"
    "map_of (lkeys cx @ (k, a) # rkeys cx) = (entries (plug cx Lf))(k \<mapsto> a)"
proof -
  show "ordered (lkeys cx @ (k, a) # rkeys cx)"
    using assms by (fastforce simp: inorder_plug place_def sorted_wrt_append)
  have "k \<notin> fst ` set (lkeys cx)" using assms(2) by (auto simp: place_def)
  then have "map_of (lkeys cx) k = None" by (simp add: map_of_eq_None_iff)
  then show "map_of (lkeys cx @ (k, a) # rkeys cx) = (entries (plug cx Lf))(k \<mapsto> a)"
    by (auto simp: entries_def inorder_plug map_add_def split: option.splits)
qed

subsection \<open>Insertion\<close>

lemma insert_ok:
  assumes T: "rbtree m t T" and n: "node \<notin> nodes T" "node \<noteq> nil t" "node \<noteq> 0"
  shows "if entries T k \<noteq> None then rb_insert m t node k = Inr (False, m, t)
    else \<exists>m' t' T'. rb_insert m t node k = Inr (True, m', t') \<and> rbtree m' t' T' \<and> nil t' = nil t \<and>
      entries T' = (entries T)(k \<mapsto> node) \<and> nodes T' = insert node (nodes T) \<and>
      (\<forall>x. x \<notin> insert node (nodes T) \<longrightarrow> m' x = m x)"
proof -
  have f: "focus m t (root t) [] T" and o: "ordered (inorder T)" using T by (auto simp: rbtree_def)
  have len: "length (ptrs T) < 2 ^ 32" by (rule length_ptrs [OF f])
  have "edge t [] (nil t) 0" "place [] k" by (simp_all add: edge_def place_def)
  from insert_search_ok [OF f this(1) len o this(2)]
  have S: "if k \<in> fst ` set (inorder T) then insert_search (2 ^ 32) m t (root t) (nil t) 0 k = Inr None
    else \<exists>cx' par' dir'. insert_search (2 ^ 32) m t (root t) (nil t) 0 k = Inr (Some (par', dir')) \<and>
      focus m t (nil t) cx' Lf \<and> plug cx' Lf = T \<and> edge t cx' par' dir' \<and> place cx' k"
    by (simp only: plug.simps)
  show ?thesis
  proof (cases "entries T k")
    case (Some a)
    then have "k \<in> fst ` set (inorder T)" using entries_dom [of T k] by auto
    then have "insert_search (2 ^ 32) m t (root t) (nil t) 0 k = Inr None" using S by simp
    then show ?thesis using Some by (simp add: rb_insert_def)
  next
    case None
    then have "k \<notin> fst ` set (inorder T)" using entries_dom [of T k] by auto
    with S obtain cx par dir where r: "insert_search (2 ^ 32) m t (root t) (nil t) 0 k = Inr (Some (par, dir))"
      "focus m t (nil t) cx Lf" "plug cx Lf = T" "edge t cx par dir" "place cx k" by (simp split: if_splits) blast
    define m1 where "m1 = m(node := \<lparr>parent = par, left = nil t, right = nil t, key = k, color = RED\<rparr>)"
    define x where "x = (if NIL t par then (m1, t\<lparr>root := node\<rparr>) else (set_child m1 par dir node, t))"
    have nodes: "nodes T = set (ptrs_cx cx)" using r(3) ptrs_plug [of cx Lf] by (simp add: nodes_def)
    have ncx: "node \<notin> set (ptrs_cx cx)" using n nodes by simp
    note A = attach [OF r(2,4) ncx n(2,3) m1_def x_def]
    obtain m2 t2 where x: "x = (m2, t2)" by (cases x)
    let ?s = "Nd Lf Rd node k Lf" and ?t3 = "t2\<lparr>node_count := node_count t2 + 1\<rparr>"
    have inv: "cinvc cx Bk" "chh cx 0" "topc cx Bk = Bk"
      using T r(3) invc_plug [of cx Lf] invh_plug [of cx Lf] colr_plug [of cx Lf] by (auto simp: rbtree_def)
    have "\<exists>y. insert_fix m2 ?t3 node = Some (Inr y) \<and> repaired m2 ?t3 (plug cx ?s) y"
      by (rule insert_fix_ok) (use A x inv in auto)
    then obtain m' t' T' where y: "insert_fix m2 ?t3 node = Some (Inr (m', t'))"
      "focus m' t' (root t') [] T'" "same_tree T' (plug cx ?s)" "invc T'" "invh T'" "colr T' = Bk"
      "keeps (set (ptrs (plug cx ?s))) m2 ?t3 m' t'"
      by (auto simp: repaired_def)
    have io: "inorder T' = lkeys cx @ (k, node) # rkeys cx"
      using y(3) by (simp add: same_tree_def inorder_plug)
    have "rb_insert m t node k = Inr (True, m', t')"
      using r(1) y(1) x unfolding rb_insert_def x_def by (auto simp: Let_def m1_def [symmetric] split: if_splits)
    moreover have "rbtree m' t' T'"
    proof -
      have "node_count t' = of_nat (length (inorder T')) "
        using y(7) A x T r(3) io inorder_plug [of cx Lf] by (auto simp: keeps_def rbtree_def)
      moreover have "ordered (inorder T')"
        unfolding io by (rule ordered_place) (use r o in auto)
      ultimately show ?thesis using y by (simp add: rbtree_def)
    qed
    moreover have "entries T' = (entries T)(k \<mapsto> node)"
      using ordered_place(2) [of cx k node] r o io by (simp add: entries_def [of T'])
    moreover have "nodes T' = insert node (nodes T)"
      using y(3) nodes by (simp add: same_tree_def nodes_def ptrs_plug)
    moreover have "nil t' = nil t" "\<forall>x. x \<notin> insert node (nodes T) \<longrightarrow> m' x = m x"
      using y(7) A x nodes by (auto simp: keeps_def ptrs_plug)
    ultimately show ?thesis using None by auto
  qed
qed

subsection \<open>Lookup\<close>

lemma rb_find_loop_ok:
  "focus m t p cx s \<Longrightarrow> length (ptrs s) < n \<Longrightarrow> ordered (inorder s) \<Longrightarrow>
   (case map_of (inorder s) k of
      None \<Rightarrow> rb_find_loop n m t p k = Inr 0
    | Some a \<Rightarrow> rb_find_loop n m t p k = Inr a \<and>
        (\<exists>cx' d c x y. focus m t a cx' (mk d c a k x y) \<and> plug cx' (mk d c a k x y) = plug cx s))"
proof (induction s arbitrary: n p cx)
  case Lf
  then have "p = nil t" "n \<noteq> 0" by (auto simp: focus_def)
  then show ?case by (cases n) (auto simp: NIL_def)
next
  case (Nd l c a k' r)
  obtain n' where n: "n = Suc n'" using Nd.prems(2) by (cases n) auto
  have p: "p = a" "p \<noteq> nil t" "key (m a) = k'"
    using focus_fields [of m t p cx L c a k' l r] Nd.prems(1) by auto
  have ord: "ordered (inorder l)" "ordered (inorder r)" "\<forall>z \<in> set (inorder l). fst z < k'"
    "\<forall>z \<in> set (inorder r). k' < fst z"
    using Nd.prems(3) by (auto simp: sorted_wrt_append)
  have fl: "focus m t (left (m a)) ((L, c, a, k', r) # cx) l"
    using focus_down [of m t a cx L c k' l r] Nd.prems(1) p by simp
  have fr: "focus m t (right (m a)) ((R, c, a, k', l) # cx) r"
    using focus_down [of m t a cx R c k' r l] Nd.prems(1) p by simp
  have nl: "map_of (inorder l) j = None" if "k' \<le> j" for j
    using ord that by (force simp: map_of_eq_None_iff)
  have nr: "map_of (inorder r) j = None" if "j \<le> k'" for j
    using ord that by (force simp: map_of_eq_None_iff)
  have step: "rb_find_loop n m t p k = (if k' = k then Inr p
      else rb_find_loop n' m t (child (m p) (dw (if k > k' then R else L))) k)"
    using n p by (simp add: NIL_def dw_number)
  consider "k' = k" | "k < k'" | "k' < k" by fastforce
  then show ?case
  proof cases
    case 1
    have "focus m t a cx (mk L c a k l r) \<and> plug cx (mk L c a k l r) = plug cx (Nd l c a k' r)"
      using Nd.prems(1) p 1 by simp
    then have "\<exists>cx' d e x y. focus m t a cx' (mk d e a k x y) \<and> plug cx' (mk d e a k x y) = plug cx (Nd l c a k' r)"
      by blast
    then show ?thesis unfolding step using 1 nl [of k] p by (simp add: map_add_def)
  next
    case 2
    then have "map_of (inorder (Nd l c a k' r)) k = map_of (inorder l) k"
      using nr [of k] by (auto simp: map_add_def split: option.splits)
    then show ?thesis unfolding step using 2 p Nd.IH(1) [OF fl _ ord(1), of n'] Nd.prems(2) n
      by (auto split: option.splits)
  next
    case 3
    then have "map_of (inorder (Nd l c a k' r)) k = map_of (inorder r) k"
      using nl [of k] by (auto simp: map_add_def split: option.splits)
    then show ?thesis unfolding step using 3 p Nd.IH(2) [OF fr _ ord(2), of n'] Nd.prems(2) n
      by (auto split: option.splits)
  qed
qed

lemma find_ok:
  assumes "rbtree m t T"
  shows "rb_find m t k = Inr (case entries T k of None \<Rightarrow> 0 | Some a \<Rightarrow> a)"
  using rb_find_loop_ok [of m t "root t" "[]" T "2 ^ 32" k] length_ptrs [of m t "root t" "[]" T] assms
  by (auto simp: rb_find_def rbtree_def entries_def split: option.splits)

lemma entries_address: "entries T k = Some a \<Longrightarrow> a \<in> nodes T"
proof -
  have "snd ` set (inorder T) = nodes T" by (induction T) (auto simp: nodes_def)
  then show "entries T k = Some a \<Longrightarrow> a \<in> nodes T" by (force simp: entries_def dest!: map_of_SomeD)
qed

lemma init_ok: "rb_init m t = (m', t') \<Longrightarrow> rbtree m' t' Lf \<and> nil t' = nil t \<and> (\<forall>x. x \<noteq> nil t \<longrightarrow> m' x = m x)"
  by (auto simp: rb_init_def Let_def rbtree_def focus_def fresh_def)

end
