(* ===== verification/RbRepair.thy ===== *)
theory RbRepair
  imports RbMap
begin

section \<open>The repair loop of the removal\<close>

text \<open>
  The loop runs at a focus whose black height is one less than its context expects. The focus
  may be the sentinel; then the parent field of the sentinel has been set by the transplant,
  which is the condition \<open>linked\<close>.
\<close>

definition linked :: "rbmem \<Rightarrow> u32 \<Rightarrow> frame list \<Rightarrow> bool" where
  "linked m p cx \<longleftrightarrow> (case cx of [] \<Rightarrow> True | (d, c, a, k, s) # _ \<Rightarrow> parent (m p) = a)"

lemma linked_simps [simp]:
  "linked m p []" "linked m p ((d, c, a, k, s) # cx) \<longleftrightarrow> parent (m p) = a"
  by (simp_all add: linked_def)

lemma focus_linked: "focus m t p cx s \<Longrightarrow> s \<noteq> Lf \<Longrightarrow> linked m p cx"
  by (cases cx) (auto simp: focus_parent)

lemma linked_keeps:
  assumes "keeps (set (ptrs T)) m t m' t'" "nil t \<notin> set (ptrs T)" "linked m p cx" "focus m t p cx' s'"
    and "focus m' t' p cx s"
  shows "linked m' p cx"
proof (cases "s = Lf")
  case True
  then have "p = nil t" using assms(1) focus_nil [OF assms(5)] by (simp add: keeps_def)
  then show ?thesis using assms by (auto simp: keeps_def linked_def split: list.splits)
qed (use assms(5) focus_linked in blast)

lemma focus_not_nil: "focus m t p cx s \<Longrightarrow> nil t \<notin> set (ptrs (plug cx s))"
  by (auto simp: focus_def fresh_def ptrs_plug)

lemma cxr_root: "cxr m nl rt q p cx \<Longrightarrow> cx \<noteq> [] \<Longrightarrow> rt \<in> set (ptrs_cx cx)"
proof (induction cx arbitrary: p q)
  case (Cons f cx)
  then show ?case by (cases cx; cases f) auto
qed simp

lemma focus_root:
  assumes "focus m t p cx s"
  shows "p = root t \<longleftrightarrow> cx = []"
proof (cases cx)
  case Nil
  then show ?thesis using assms by (auto simp: focus_def)
next
  case (Cons f cx')
  obtain q where "cxr m (nil t) (root t) q p cx" using assms by (auto simp: focus_def)
  then have "root t \<in> set (ptrs_cx cx)" by (rule cxr_root) (simp add: Cons)
  moreover have "p \<notin> set (ptrs_cx cx)"
    using assms by (cases s) (auto simp: focus_def fresh_def)
  ultimately show ?thesis using Cons by auto
qed

lemma cinvc_BkI: "cinvc cx c \<Longrightarrow> cinvc cx Bk"
  using cinvc_Bk by (cases c) auto

lemma topc_BkI: "topc cx c = Bk \<Longrightarrow> topc cx Bk = Bk"
  by (cases cx) auto

subsection \<open>The pieces of a round\<close>

definition fix_turn :: "rbmem \<Rightarrow> RbTree \<Rightarrow> u32 \<Rightarrow> u8 \<Rightarrow> u32 \<Rightarrow> (rbmem \<times> RbTree \<times> u32) res" where
  "fix_turn m t node side sibling =
     (let m = set_color m sibling (color (m (parent (m node))));
          m = set_color m (parent (m node)) BLACK;
          m = set_color m (child (m sibling) side) BLACK
      in bind_res (rotate_subtree m t (parent (m node)) (1 - side)) (\<lambda>(m, t). Inr (m, t, root t)))"

definition fix_black :: "rbmem \<Rightarrow> RbTree \<Rightarrow> u32 \<Rightarrow> u8 \<Rightarrow> u32 \<Rightarrow> (rbmem \<times> RbTree \<times> u32) res" where
  "fix_black m t node side sibling =
     (if color (m (left (m sibling))) = BLACK \<and> color (m (right (m sibling))) = BLACK then
        Inr (set_color m sibling RED, t, parent (m node))
      else if color (m (child (m sibling) side)) = BLACK then
        bind_res (rotate_subtree (set_color (set_color m (child (m sibling) (1 - side)) BLACK) sibling RED) t sibling side)
          (\<lambda>(m, t). fix_turn m t node side (child (m (parent (m node))) side))
      else fix_turn m t node side sibling)"

lemma remove_fix_step_eq:
  "remove_fix_step m t node =
     bind_res (direction m node) (\<lambda>d. let side = 1 - d; sibling = child (m (parent (m node))) side in
       if color (m sibling) = RED then
         bind_res (rotate_subtree (set_color (set_color m sibling BLACK) (parent (m node)) RED) t (parent (m node)) (1 - side))
           (\<lambda>(m, t). fix_black m t node side (child (m (parent (m node))) side))
       else fix_black m t node side sibling)"
proof (cases "direction m node")
  case (Inr d)
  have *: "(\<lambda>(m, t, sibling).
        if color (m (left (m sibling))) = BLACK \<and> color (m (right (m sibling))) = BLACK then
          (let m = set_color m sibling RED in Inr (m, t, parent (m node)))
        else
          bind_res (if color (m (child (m sibling) (1 - d))) = BLACK then
                      (let m = set_color m (child (m sibling) (1 - (1 - d))) BLACK;
                           m = set_color m sibling RED
                       in bind_res (rotate_subtree m t sibling (1 - d)) (\<lambda>(m, t).
                            Inr (m, t, child (m (parent (m node))) (1 - d))))
                    else Inr (m, t, sibling)) (\<lambda>(m, t, sibling).
            let m = set_color m sibling (color (m (parent (m node))));
                m = set_color m (parent (m node)) BLACK;
                m = set_color m (child (m sibling) (1 - d)) BLACK
            in bind_res (rotate_subtree m t (parent (m node)) (1 - (1 - d))) (\<lambda>(m, t).
                 Inr (m, t, root t)))) = (\<lambda>(m, t, sibling). fix_black m t node (1 - d) sibling)"
    by (rule ext) (auto simp: fix_black_def fix_turn_def Let_def bind_res_assoc split_def)
  show ?thesis
    unfolding remove_fix_step_def Inr bind_res_simps Let_def [of "1 - d"] * by (simp add: Let_def bind_res_assoc split_def)
qed (simp add: remove_fix_step_def)

subsection \<open>The last rotation\<close>

lemma fix_turn_ok:
  assumes f: "focus m t p ((d, c, a, k, mk d Bk b kb X Y) # cx) s" and l: "parent (m p) = a"
    and s: "invc s" "invh s" and XY: "invc X" "invh X" "invc Y" "invh Y" "colr Y = Rd" "bh X = bh s" "bh Y = bh s"
    and cx: "cinvc cx c" "chh cx (bh s + 1 + (if c = Bk then 1 else 0))" "topc cx c = Bk"
  shows "\<exists>m' t'. fix_turn m t p (dw (flip d)) b = Inr (m', t', root t') \<and>
    repaired m t (plug ((d, c, a, k, mk d Bk b kb X Y) # cx) s) (m', t')"
proof -
  let ?T = "plug ((d, c, a, k, mk d Bk b kb X Y) # cx) s"
  note fa = focus_raise [OF f]
  have fb: "focus m t (child (m a) (dw (flip d))) ((flip d, c, a, k, s) # cx) (mk d Bk b kb X Y)"
    by (rule focus_down) (use fa in \<open>simp add: mk_flip [of d]\<close>)
  have ca: "color (m a) = cw c" using focus_fields(3) [OF fa] .
  have cb: "child (m a) (dw (flip d)) = b" using focus_fields(1) [OF fb] .
  have ab: "a \<noteq> b" using fa by (auto simp: focus_def fresh_def)
  have Yne: "Y \<noteq> Lf" using XY(5) by auto
  let ?m1 = "set_color m b (color (m a))" let ?m2 = "set_color ?m1 a BLACK"
  let ?Y = "child (m b) (dw (flip d))" let ?m3 = "set_color ?m2 ?Y BLACK"
  have "focus ?m1 t b ((flip d, c, a, k, s) # cx) (mk d c b kb X Y)"
    using focus_paint [of m t b _ d Bk kb X Y c] fb cb ca by simp
  then have "focus ?m1 t a cx (mk d c a k s (mk d c b kb X Y))"
    using focus_raise by (fastforce simp: mk_flip [of d])
  from focus_BLACK [OF this] have f2: "focus ?m2 t a cx (mk d Bk a k s (mk d c b kb X Y))" .
  then have "focus ?m2 t b ((flip d, Bk, a, k, s) # cx) (mk d c b kb X Y)"
    using focus_down [of ?m2 t a cx "flip d" Bk k "mk d c b kb X Y" s] cb by (simp add: mk_flip [of d])
  from focus_raise [OF focus_paint_other [OF this Yne, of Bk]]
  have "focus ?m3 t a cx (mk d Bk a k s (mk d c b kb X (paint Bk Y)))" by (simp add: mk_flip [of d])
  from rotate_ok [OF this] obtain m' t' where r: "rotate_subtree ?m3 t a (dw d) = Inr (m', t')"
    "focus m' t' b cx (mk d c b kb (mk d Bk a k s X) (paint Bk Y))"
    "keeps (set (ptrs (plug cx (mk d Bk a k s (mk d c b kb X (paint Bk Y)))))) ?m3 t m' t'" by blast
  have "fix_turn m t p (dw (flip d)) b = Inr (m', t', root t')"
    using r(1) l ab by (simp add: fix_turn_def Let_def)
  moreover have S: "set (ptrs (plug cx (mk d Bk a k s (mk d c b kb X (paint Bk Y))))) = set (ptrs ?T)"
    by (simp add: ptrs_plug)
  have "?Y \<in> set (ptrs Y)" using fb cb Yne by (auto simp: focus_def intro: root_ptr)
  then have "a \<in> set (ptrs ?T)" "b \<in> set (ptrs ?T)" "?Y \<in> set (ptrs ?T)" by (auto simp: ptrs_plug)
  then have "keeps (set (ptrs ?T)) m t m' t'" using r(3) unfolding S by (meson keeps_color keeps_trans)
  moreover have "same_tree (plug cx (mk d c b kb (mk d Bk a k s X) (paint Bk Y))) ?T"
    by (cases d) (auto simp: same_tree_def inorder_plug ptrs_plug)
  moreover have "focus m' t' (root t') [] (plug cx (mk d c b kb (mk d Bk a k s X) (paint Bk Y)))"
    by (rule focus_top [OF r(2)])
  ultimately show ?thesis using s XY cx Yne by (auto simp: repaired_def inv_plug)
qed

subsection \<open>A black sibling\<close>

lemma fix_black_ok:
  assumes f: "focus m t p ((d, c, a, k, mk d Bk b kb X Y) # cx) s" and l: "parent (m p) = a"
    and s: "invc s" "invh s" and XY: "invc X" "invh X" "invc Y" "invh Y" "bh X = bh s" "bh Y = bh s"
    and cx: "cinvc cx c" "chh cx (bh s + 1 + (if c = Bk then 1 else 0))" "topc cx c = Bk"
  shows "\<exists>m' t' n. fix_black m t p (dw (flip d)) b = Inr (m', t', n) \<and>
    (let T = plug ((d, c, a, k, mk d Bk b kb X Y) # cx) s in
     n = root t' \<and> repaired m t T (m', t') \<or>
     n = a \<and> t' = t \<and> colr X = Bk \<and> colr Y = Bk \<and>
       focus m' t a cx (mk d c a k s (mk d Rd b kb X Y)) \<and> keeps (set (ptrs T)) m t m' t)"
proof -
  let ?T = "plug ((d, c, a, k, mk d Bk b kb X Y) # cx) s"
  note fa = focus_raise [OF f]
  have cb: "child (m a) (dw (flip d)) = b" using fa by (simp add: focus_def)
  have fb: "focus m t b ((flip d, c, a, k, s) # cx) (mk d Bk b kb X Y)"
    using focus_down [of m t a cx "flip d" c k "mk d Bk b kb X Y" s] fa cb by (simp add: mk_flip [of d])
  note cXY = focus_child_color [OF fb]
  have both: "color (m (left (m b))) = BLACK \<and> color (m (right (m b))) = BLACK \<longleftrightarrow> colr X = Bk \<and> colr Y = Bk"
    using cXY by (cases d) auto
  have bT: "b \<in> set (ptrs ?T)" by (auto simp: ptrs_plug)
  consider "colr X = Bk" "colr Y = Bk" | "colr Y = Rd" | "colr X = Rd" "colr Y = Bk"
    using col.exhaust by metis
  then show ?thesis
  proof cases
    case 1
    have "focus (set_color m b RED) t a cx (mk d c a k s (mk d Rd b kb X Y))"
      using focus_raise [OF focus_RED [OF fb]] by (simp add: mk_flip [of d])
    then show ?thesis using 1 both l keeps_color [OF bT] by (auto simp: fix_black_def Let_def)
  next
    case 2
    then have "fix_black m t p (dw (flip d)) b = fix_turn m t p (dw (flip d)) b"
      using both cXY by (auto simp: fix_black_def)
    then show ?thesis
      using fix_turn_ok [OF f l s XY(1-4) 2 XY(5,6) cx] by (auto simp: Let_def)
  next
    case 3
    obtain x kx X1 X2 where X: "X = mk d Rd x kx X1 X2"
      using mk_exists [of X d] 3(1) by (cases "X = Lf") auto
    let ?x = "child (m b) (dw d)" let ?m1 = "set_color m ?x BLACK" let ?m2 = "set_color ?m1 b RED"
    have "focus ?m1 t b ((flip d, c, a, k, s) # cx) (mk d Bk b kb (mk d Bk x kx X1 X2) Y)"
      using focus_paint_child [OF fb, of Bk] X by simp
    from focus_RED [OF this]
    have "focus ?m2 t b ((flip d, c, a, k, s) # cx) (mk (flip d) Rd b kb Y (mk (flip d) Bk x kx X2 X1))"
      by (simp add: mk_flip [of d])
    from rotate_ok [OF this] obtain m' t' where r: "rotate_subtree ?m2 t b (dw (flip d)) = Inr (m', t')"
      "focus m' t' x ((flip d, c, a, k, s) # cx) (mk (flip d) Bk x kx (mk (flip d) Rd b kb Y X2) X1)"
      "keeps (set (ptrs (plug ((flip d, c, a, k, s) # cx) (mk (flip d) Rd b kb Y (mk (flip d) Bk x kx X2 X1))))) ?m2 t m' t'"
      by blast
    have S: "set (ptrs (plug ((flip d, c, a, k, s) # cx) (mk (flip d) Rd b kb Y (mk (flip d) Bk x kx X2 X1)))) = set (ptrs ?T)"
      by (auto simp: ptrs_plug X)
    have "?x = x" using fb X by (simp add: focus_def)
    then have "?x \<in> set (ptrs ?T)" by (simp add: ptrs_plug X)
    then have kp: "keeps (set (ptrs ?T)) m t m' t'"
      using r(3) bT unfolding S by (meson keeps_color keeps_trans)
    have fa': "focus m' t' a cx (mk d c a k s (mk d Bk x kx X1 (mk d Rd b kb X2 Y)))"
      using focus_raise [OF r(2)] by (simp add: mk_flip [of d])
    have px: "child (m' a) (dw (flip d)) = x" using fa' by (simp add: focus_def)
    have fp: "focus m' t' (child (m' a) (dw d)) ((d, c, a, k, mk d Bk x kx X1 (mk d Rd b kb X2 Y)) # cx) s"
      by (rule focus_down [OF fa'])
    have pp: "child (m' a) (dw d) = p"
    proof (cases "s = Lf")
      case True
      then show ?thesis using focus_nil [OF fp] focus_nil [OF f] kp by (auto simp: keeps_def)
    next
      case False
      then show ?thesis using fp f by (cases s) (auto simp: focus_def)
    qed
    note fp = fp [unfolded pp]
    have l': "parent (m' p) = a"
      using linked_keeps [OF kp focus_not_nil [OF f] _ f fp] l by simp
    have "\<exists>m'' t''. fix_turn m' t' p (dw (flip d)) x = Inr (m'', t'', root t'') \<and>
        repaired m' t' (plug ((d, c, a, k, mk d Bk x kx X1 (mk d Rd b kb X2 Y)) # cx) s) (m'', t'')"
      by (rule fix_turn_ok [OF fp l' s]) (use XY X 3 cx in auto)
    then obtain m'' t'' where e: "fix_turn m' t' p (dw (flip d)) x = Inr (m'', t'', root t'')"
      "repaired m' t' (plug ((d, c, a, k, mk d Bk x kx X1 (mk d Rd b kb X2 Y)) # cx) s) (m'', t'')"
      by blast
    have "same_tree (plug ((d, c, a, k, mk d Bk x kx X1 (mk d Rd b kb X2 Y)) # cx) s) ?T"
      by (cases d) (auto simp: same_tree_def inorder_plug ptrs_plug X)
    then have "repaired m t ?T (m'', t'')" using kp e(2) by (blast intro: repaired_trans)
    moreover have "fix_black m t p (dw (flip d)) b = Inr (m'', t'', root t'')"
      using both cXY 3 r(1) e(1) l' px by (auto simp: fix_black_def)
    ultimately show ?thesis by (auto simp: Let_def)
  qed
qed

subsection \<open>The loop\<close>

lemma remove_fix_done:
  assumes f: "focus m t p cx s" and e: "cx = [] \<or> colr s = Rd" and s: "invc (paint Bk s)" "invh s"
    and cx: "cinvc cx Bk" "cx \<noteq> [] \<longrightarrow> chh cx (bh s + 1)" "topc cx Bk = Bk"
  shows "\<exists>x. remove_fix m t p = Some (Inr x) \<and> repaired m t (plug cx s) x"
proof -
  have "remove_fix m t p = Some (Inr (set_color m p BLACK, t))"
    by (subst remove_fix.simps) (use e focus_root [OF f] focus_color [OF f] in auto)
  moreover have "repaired m t (plug cx s) (set_color m p BLACK, t)"
  proof (cases "s = Lf")
    case True
    then have "p = nil t" "cx = []" using focus_nil [OF f] e by auto
    moreover have "set_color m p BLACK = m"
      using f \<open>p = nil t\<close> by (auto simp: set_color_def focus_def)
    ultimately show ?thesis using f True by (auto simp: repaired_def focus_def)
  next
    case False
    have "focus (set_color m p BLACK) t p cx (paint Bk s)"
      using focus_set_color [OF f False, of Bk] by simp
    from focus_top [OF this]
    have "focus (set_color m p BLACK) t (root t) [] (plug cx (paint Bk s))" .
    moreover have "p \<in> set (ptrs s)" using f False by (auto simp: focus_def intro: root_ptr)
    then have "p \<in> set (ptrs (plug cx s))" by (simp add: ptrs_plug)
    moreover have "same_tree (plug cx (paint Bk s)) (plug cx s)" by (rule same_tree_plug) simp_all
    moreover have "invc (plug cx (paint Bk s))" "invh (plug cx (paint Bk s))" "colr (plug cx (paint Bk s)) = Bk"
      using s cx e False by (auto simp: inv_plug)
    ultimately show ?thesis using keeps_color by (auto simp: repaired_def)
  qed
  ultimately show ?thesis by blast
qed

lemma remove_fix_root:
  assumes "repaired m t T (m', t')"
  shows "\<exists>x. remove_fix m' t' (root t') = Some (Inr x) \<and> repaired m t T x"
proof -
  from assms obtain T' where T': "focus m' t' (root t') [] T'" "same_tree T' T" "invc T'" "invh T'" "colr T' = Bk"
    "keeps (set (ptrs T)) m t m' t'" by (auto simp: repaired_def)
  have "invc (paint Bk T')" using T'(3) by simp
  then have "\<exists>x. remove_fix m' t' (root t') = Some (Inr x) \<and> repaired m' t' (plug [] T') x"
    by (intro remove_fix_done [OF T'(1)]) (use T' in simp_all)
  then show ?thesis using T'(2,6) by (auto intro: repaired_trans)
qed

text \<open>After the part of a round that deals with a black sibling.\<close>

lemma remove_fix_black:
  assumes f: "focus m t p ((d, c, a, k, mk d Bk b kb X Y) # cx) s" and l: "parent (m p) = a"
    and s: "invc s" "invh s" "colr s = Bk" and XY: "invc X" "invh X" "invc Y" "invh Y" "bh X = bh s" "bh Y = bh s"
    and cx: "cinvc cx c" "chh cx (bh s + 1 + (if c = Bk then 1 else 0))" "topc cx c = Bk"
    and IH: "\<And>m s. c = Bk \<Longrightarrow> focus m t a cx s \<Longrightarrow> linked m a cx \<Longrightarrow> invc (paint Bk s) \<Longrightarrow> invh s \<Longrightarrow>
      cinvc cx Bk \<Longrightarrow> chh cx (bh s + 1) \<Longrightarrow> topc cx Bk = Bk \<Longrightarrow>
      \<exists>x. remove_fix m t a = Some (Inr x) \<and> repaired m t (plug cx s) x"
  shows "\<exists>m' t' n x. fix_black m t p (dw (flip d)) b = Inr (m', t', n) \<and> remove_fix m' t' n = Some (Inr x) \<and>
    repaired m t (plug ((d, c, a, k, mk d Bk b kb X Y) # cx) s) x"
proof -
  let ?T = "plug ((d, c, a, k, mk d Bk b kb X Y) # cx) s"
  let ?S = "mk d c a k s (mk d Rd b kb X Y)"
  from fix_black_ok [OF f l s(1,2) XY cx] obtain m' t' n where r:
    "fix_black m t p (dw (flip d)) b = Inr (m', t', n)"
    "n = root t' \<and> repaired m t ?T (m', t') \<or> n = a \<and> t' = t \<and> colr X = Bk \<and> colr Y = Bk \<and>
       focus m' t a cx ?S \<and> keeps (set (ptrs ?T)) m t m' t" by (auto simp: Let_def)
  from r(2) have "\<exists>x. remove_fix m' t' n = Some (Inr x) \<and> repaired m t ?T x"
  proof (elim disjE conjE)
    assume "n = root t'" "repaired m t ?T (m', t')"
    then show ?thesis using remove_fix_root by blast
  next
    assume u: "n = a" "t' = t" "colr X = Bk" "colr Y = Bk" "focus m' t a cx ?S" "keeps (set (ptrs ?T)) m t m' t"
    have inv: "invc (paint Bk ?S)" "invh ?S" "bh ?S = bh s + (if c = Bk then 1 else 0)"
      using s XY u(3,4) by auto
    have Bk: "cinvc cx Bk" "topc cx Bk = Bk" using cx cinvc_BkI topc_BkI by auto
    have "\<exists>x. remove_fix m' t a = Some (Inr x) \<and> repaired m' t (plug cx ?S) x"
    proof (cases c)
      case Rd
      show ?thesis by (rule remove_fix_done [OF u(5)]) (use Rd inv Bk cx in auto)
    next
      case Bk': Bk
      show ?thesis by (rule IH) (use u Bk' inv Bk cx focus_linked [OF u(5)] in auto)
    qed
    moreover have "same_tree (plug cx ?S) ?T"
      by (cases d) (auto simp: same_tree_def inorder_plug ptrs_plug)
    ultimately show ?thesis using u by (auto intro: repaired_trans)
  qed
  then show ?thesis using r(1) by blast
qed

text \<open>A red sibling: one rotation brings a black one under a red parent.\<close>

lemma red_sibling_ok:
  assumes f: "focus m t p ((d, c, a, k, mk d Rd b kb X Y) # cx) s" and l: "parent (m p) = a"
  shows "\<exists>m' t'. rotate_subtree (set_color (set_color m b BLACK) a RED) t a (dw d) = Inr (m', t') \<and>
    focus m' t' p ((d, Rd, a, k, X) # (d, Bk, b, kb, Y) # cx) s \<and> parent (m' p) = a \<and>
    keeps (set (ptrs (plug ((d, c, a, k, mk d Rd b kb X Y) # cx) s))) m t m' t'"
proof -
  let ?T = "plug ((d, c, a, k, mk d Rd b kb X Y) # cx) s"
  note fa = focus_raise [OF f]
  have cb: "child (m a) (dw (flip d)) = b" using fa by (simp add: focus_def)
  have "focus m t b ((flip d, c, a, k, s) # cx) (mk d Rd b kb X Y)"
    using focus_down [of m t a cx "flip d" c k "mk d Rd b kb X Y" s] fa cb by (simp add: mk_flip [of d])
  from focus_raise [OF focus_BLACK [OF this]]
  have "focus (set_color m b BLACK) t a cx (mk d c a k s (mk d Bk b kb X Y))" by (simp add: mk_flip [of d])
  from rotate_ok [OF focus_RED [OF this]] obtain m' t' where r:
    "rotate_subtree (set_color (set_color m b BLACK) a RED) t a (dw d) = Inr (m', t')"
    "focus m' t' b cx (mk d Bk b kb (mk d Rd a k s X) Y)"
    "keeps (set (ptrs (plug cx (mk d Rd a k s (mk d Bk b kb X Y))))) (set_color (set_color m b BLACK) a RED) t m' t'"
    by blast
  have S: "set (ptrs (plug cx (mk d Rd a k s (mk d Bk b kb X Y)))) = set (ptrs ?T)" by (simp add: ptrs_plug)
  have "a \<in> set (ptrs ?T)" "b \<in> set (ptrs ?T)" by (auto simp: ptrs_plug)
  then have kp: "keeps (set (ptrs ?T)) m t m' t'" using r(3) unfolding S by (meson keeps_color keeps_trans)
  have "child (m' b) (dw d) = a" using r(2) by (simp add: focus_def)
  with focus_down [OF r(2)] have fa': "focus m' t' a ((d, Bk, b, kb, Y) # cx) (mk d Rd a k s X)" by simp
  note fp = focus_down [OF fa']
  have pp: "child (m' a) (dw d) = p"
  proof (cases "s = Lf")
    case True
    then show ?thesis using focus_nil [OF fp] focus_nil [OF f] kp by (auto simp: keeps_def)
  next
    case False
    then show ?thesis using fp f by (cases s) (auto simp: focus_def)
  qed
  note fp = fp [unfolded pp]
  have "parent (m' p) = a" using linked_keeps [OF kp focus_not_nil [OF f] _ f fp] l by simp
  then show ?thesis using r(1) fp kp by blast
qed

lemma remove_fix_ok:
  assumes "focus m t p cx s" "linked m p cx" "invc (paint Bk s)" "invh s" "cinvc cx Bk"
    "cx \<noteq> [] \<longrightarrow> chh cx (bh s + 1)" "topc cx Bk = Bk"
  shows "\<exists>x. remove_fix m t p = Some (Inr x) \<and> repaired m t (plug cx s) x"
  using assms
proof (induction cx arbitrary: m t p s)
  case Nil
  show ?case by (rule remove_fix_done) (use Nil in auto)
next
  case (Cons fr cx)
  show ?case
  proof (cases "colr s")
    case Rd
    show ?thesis by (rule remove_fix_done) (use Cons.prems Rd in auto)
  next
    case Bk
    obtain d c a k sib where fr: "fr = (d, c, a, k, sib)" by (metis prod_cases5)
    have inv: "invc sib" "c = Rd \<longrightarrow> colr sib = Bk" "cinvc cx c" "invh sib" "bh sib = bh s + 1"
      "chh cx (bh s + 1 + (if c = Bk then 1 else 0))" "topc cx c = Bk" and l: "parent (m p) = a"
      using Cons.prems fr by auto
    have s: "invc s" "invh s" using Cons.prems Bk by (cases s; auto)+
    have ne: "sib \<noteq> Lf" using inv(5) by auto
    obtain b kb X Y where sib: "sib = mk d (colr sib) b kb X Y" using mk_exists [OF ne, of d] by metis
    note f = Cons.prems(1) [unfolded fr]
    have rt: "p \<noteq> root t" using focus_root [OF f] by simp
    have cp: "color (m p) = BLACK" using focus_color [OF f] Bk by simp
    have dp: "direction m p = Inr (dw d)" by (rule focus_direction [OF f l]) (use ne in simp)
    note fa = focus_raise [OF f]
    have cb: "child (m a) (dw (flip d)) = b" using fa by (subst (asm) sib) (simp add: focus_def)
    have csib: "color (m b) = cw (colr sib)" using focus_child_color(2) [OF fa] cb by simp
    note run = remove_fix.simps [of m t p] remove_fix_step_eq [of m t p]
    show ?thesis
    proof (cases "colr sib")
      case Bk': Bk
      have sib': "sib = mk d Bk b kb X Y" using sib Bk' by simp
      have XY: "invc X" "invh X" "invc Y" "invh Y" "bh X = bh s" "bh Y = bh s"
        using inv unfolding sib' by auto
      have g: "\<exists>m' t' n x. fix_black m t p (dw (flip d)) b = Inr (m', t', n) \<and> remove_fix m' t' n = Some (Inr x) \<and>
        repaired m t (plug ((d, c, a, k, mk d Bk b kb X Y) # cx) s) x"
      proof (rule remove_fix_black)
        show "focus m t p ((d, c, a, k, mk d Bk b kb X Y) # cx) s" using f sib Bk' by simp
        show "\<exists>x. remove_fix m t a = Some (Inr x) \<and> repaired m t (plug cx s) x"
          if "c = Bk" "focus m t a cx s" "linked m a cx" "invc (paint Bk s)" "invh s" "cinvc cx Bk"
            "chh cx (bh s + 1)" "topc cx Bk = Bk" for m s
          using Cons.IH [of m t a s] that by simp
      qed (use inv XY l s Bk in auto)
      then show ?thesis using run rt cp dp l cb csib Bk' fr sib by auto
    next
      case Rd
      have c: "c = Bk" using inv(2) Rd by (cases c) auto
      have sib': "sib = mk d Rd b kb X Y" using sib Rd by simp
      from red_sibling_ok [of m t p d c a k b kb X Y cx s] f l sib Rd obtain m' t' where r:
        "rotate_subtree (set_color (set_color m b BLACK) a RED) t a (dw d) = Inr (m', t')"
        "focus m' t' p ((d, Rd, a, k, X) # (d, Bk, b, kb, Y) # cx) s" "parent (m' p) = a"
        "keeps (set (ptrs (plug (fr # cx) s))) m t m' t'" by (auto simp: fr)
      have XY: "invc X" "invh X" "invc Y" "invh Y" "bh X = bh s + 1" "bh Y = bh s + 1" "colr X = Bk" "colr Y = Bk"
        using inv unfolding sib' by auto
      have Xne: "X \<noteq> Lf" using XY(5) by auto
      obtain x kx X1 X2 where X: "X = mk d Bk x kx X1 X2" using mk_exists [OF Xne, of d] XY(7) by metis
      have px: "child (m' a) (dw (flip d)) = x" using focus_raise [OF r(2)] X by (simp add: focus_def)
      have "\<exists>m'' t'' n x'. fix_black m' t' p (dw (flip d)) x = Inr (m'', t'', n) \<and> remove_fix m'' t'' n = Some (Inr x') \<and>
        repaired m' t' (plug ((d, Rd, a, k, mk d Bk x kx X1 X2) # (d, Bk, b, kb, Y) # cx) s) x'"
        by (rule remove_fix_black) (use r(2,3) s Bk XY X inv c in auto)
      then obtain m'' t'' n x' where e: "fix_black m' t' p (dw (flip d)) x = Inr (m'', t'', n)"
        "remove_fix m'' t'' n = Some (Inr x')"
        "repaired m' t' (plug ((d, Rd, a, k, mk d Bk x kx X1 X2) # (d, Bk, b, kb, Y) # cx) s) x'" by blast
      have "same_tree (plug ((d, Rd, a, k, mk d Bk x kx X1 X2) # (d, Bk, b, kb, Y) # cx) s) (plug (fr # cx) s)"
        by (cases d) (auto simp: same_tree_def inorder_plug ptrs_plug fr sib' X)
      then have "repaired m t (plug (fr # cx) s) x'" using e(3) r(4) by (blast intro: repaired_trans)
      moreover have "remove_fix m t p = Some (Inr x')"
        using run rt cp dp l cb csib Rd r(1,3) e(1,2) px by simp
      ultimately show ?thesis by blast
    qed
  qed
qed

end
