(* ===== verification/RbRemove.thy ===== *)
theory RbRemove
  imports RbRepair
begin

section \<open>Removal from the red-black tree\<close>

subsection \<open>Replacing a node by its only child\<close>

lemma transplant_relink: "transplant m t a b =
    bind_res (relink m t a b) (\<lambda>(m', t'). Inr (set_parent m' b (parent (m' a)), t'))"
  by (simp add: transplant_def relink_def)

lemma transplant_ok:
  assumes f: "focus m t a cx (mk d c a k X Lf)"
  defines "x \<equiv> child (m a) (dw d)"
  shows "\<exists>m' t'. transplant m t a x = Inr (m', t') \<and> focus m' t' x cx X \<and> linked m' x cx \<and>
    nil t' = nil t \<and> node_count t' = node_count t \<and> (\<forall>z. z \<notin> insert x (set (ptrs_cx cx)) \<longrightarrow> m' z = m z)"
proof -
  let ?nl = "nil t"
  obtain q where q: "tr m ?nl a q (mk d c a k X Lf)" "cxr m ?nl (root t) q a cx" "fresh ?nl cx (mk d c a k X Lf)"
    "color (m ?nl) = BLACK" using f by (auto simp: focus_def)
  have ne: "a \<notin> set (ptrs_cx cx)" "a \<noteq> ?nl" "a \<notin> set (ptrs X)" using q(3) by (auto simp: fresh_def)
  have pa: "parent (m a) = q" "tr m ?nl x a X" using q(1) by (auto simp: x_def)
  from relink_ok [OF q(2) pa(1) refl, of x] q(3) obtain m1 t' where r: "relink m t a x = Inr (m1, t')"
    "cxr m1 ?nl (root t') q x cx" "nil t' = ?nl" "node_count t' = node_count t"
    "\<forall>z. z \<notin> set (ptrs_cx cx) \<longrightarrow> m1 z = m z" by (auto simp: fresh_def)
  let ?m = "set_parent m1 x q"
  have "m1 a = m a" using r(5) ne by simp
  then have run: "transplant m t a x = Inr (?m, t')" using r(1) pa by (simp add: transplant_relink)
  have dis: "set (ptrs X) \<inter> set (ptrs_cx cx) = {}" "distinct (ptrs X)" "?nl \<notin> set (ptrs X)" "?nl \<notin> set (ptrs_cx cx)"
    using q(3) by (auto simp: fresh_def)
  have xX: "x = ?nl \<longleftrightarrow> X = Lf" using tr_not_nil [OF pa(2) dis(3)] .
  have X1: "tr m1 ?nl x a X" by (rule tr_frame [OF pa(2)]) (use r(5) dis in auto)
  have X2: "tr ?m ?nl x q X"
  proof (cases "X = Lf")
    case False
    then show ?thesis using tr_set_parent [OF X1 False dis(2)] by simp
  qed (use xX in simp)
  have "x \<notin> set (ptrs_cx cx)"
  proof (cases "X = Lf")
    case False
    then show ?thesis using root_ptr [OF pa(2)] dis by auto
  qed (use xX dis in simp)
  then have c2: "cxr ?m ?nl (root t') q x cx" by (intro cxr_frame [OF r(2)]) (auto intro!: writes_other)
  have col: "color (?m ?nl) = BLACK" using r(5) dis q(4) by simp
  have "fresh ?nl cx X" using q(3) by (auto simp: fresh_def)
  then have "focus ?m t' x cx X" using X2 c2 col r(3) by (auto simp: focus_def)
  moreover have "linked ?m x cx" using c2 by (cases cx) auto
  ultimately show ?thesis using run r by (auto intro!: writes_other)
qed

subsection \<open>Replacing a node by another\<close>

lemma replace_ok:
  assumes l: "tr m nl (left (m a)) a l" "l \<noteq> Lf" and a: "parent (m a) = q" "color (m a) = cw c"
    and cx: "cxr m nl (root t) q a cx" and r: "tr m nl (right (m y)) y r" and y: "key (m y) = ky"
    and fr: "fresh nl cx (Nd l c y ky r)" and ne: "a \<notin> set (ptrs_cx cx)" "a \<notin> set (ptrs l)" "a \<noteq> y" "a \<noteq> nl"
    and nl: "color (m nl) = BLACK" "nl = nil t"
  shows "\<exists>m1 t'. transplant m t a y = Inr (m1, t') \<and>
    (let m2 = set_child m1 y LEFT (left (m1 a)); m3 = set_parent m2 (left (m2 y)) y; m4 = set_color m3 y (color (m3 a))
     in focus m4 t' y cx (Nd l c y ky r) \<and> nil t' = nil t \<and> node_count t' = node_count t \<and>
       (\<forall>z. z \<notin> insert y (set (ptrs_cx cx) \<union> set (ptrs l)) \<longrightarrow> m4 z = m z))"
proof -
  let ?pl = "left (m a)"
  have pl: "?pl \<in> set (ptrs l)" by (rule root_ptr [OF l])
  have dis: "y \<notin> set (ptrs_cx cx)" "y \<notin> set (ptrs l)" "y \<notin> set (ptrs r)" "distinct (ptrs l)"
    "set (ptrs l) \<inter> set (ptrs_cx cx) = {}" "set (ptrs r) \<inter> set (ptrs_cx cx) = {}"
    "set (ptrs l) \<inter> set (ptrs r) = {}" "nl \<noteq> y" "nl \<notin> set (ptrs l)" "nl \<notin> set (ptrs_cx cx)"
    using fr by (auto simp: fresh_def)
  from relink_ok [OF cx a(1) nl(2), of y] fr ne obtain mr t' where r1: "relink m t a y = Inr (mr, t')"
    "cxr mr nl (root t') q y cx" "nil t' = nil t" "node_count t' = node_count t"
    "\<forall>z. z \<notin> set (ptrs_cx cx) \<longrightarrow> mr z = m z" by (auto simp: fresh_def)
  define m1 where "m1 = set_parent mr y q"
  define m2 where "m2 = set_child m1 y LEFT ?pl"
  define m3 where "m3 = set_parent m2 ?pl y"
  define m4 where "m4 = set_color m3 y (cw c)"
  have o2: "m2 z = m z" if "z \<notin> set (ptrs_cx cx)" "z \<noteq> y" for z using that r1(5) by (simp add: m2_def m1_def)
  have o4: "m4 z = m z" if "z \<notin> set (ptrs_cx cx)" "z \<noteq> y" "z \<noteq> ?pl" for z
    using that o2 by (simp add: m4_def m3_def)
  have oc: "m4 z = mr z" if "z \<noteq> y" "z \<noteq> ?pl" for z
    using that by (simp add: m4_def m3_def m2_def m1_def)
  have ypl: "y \<noteq> ?pl" using pl dis by auto
  have mry: "mr y = m y" using r1(5) dis by simp
  have f: "parent (m4 y) = q" "key (m4 y) = ky" "color (m4 y) = cw c" "left (m4 y) = ?pl" "right (m4 y) = right (m y)"
    using ypl y mry by (simp_all add: m4_def m3_def m2_def m1_def) (simp_all add: set_child_def set_parent_def LEFT_def)
  have "tr m2 nl ?pl a l" by (rule tr_frame [OF l(1)], rule o2) (use dis in auto)
  from tr_set_parent [OF this l(2) dis(4)] have "tr m3 nl ?pl y l" by (simp add: m3_def)
  then have tl: "tr m4 nl ?pl y l" by (rule tr_frame) (use dis in \<open>auto simp: m4_def intro!: writes_other\<close>)
  have "tr m4 nl (right (m y)) y r" by (rule tr_frame [OF r], rule o4) (use dis pl in auto)
  then have "tr m4 nl y q (Nd l c y ky r)" using f tl by simp
  moreover have "cxr m4 nl (root t') q y cx"
    by (rule cxr_frame [OF r1(2)], rule oc) (use dis pl in auto)
  moreover have "m4 nl = m nl" by (rule o4) (use dis pl in auto)
  ultimately have "focus m4 t' y cx (Nd l c y ky r)" using fr nl r1(3) by (auto simp: focus_def)
  moreover have "mr a = m a" using r1(5) ne by simp
  moreover have "a \<noteq> ?pl" using pl ne by auto
  moreover have A: "m1 a = m a" "m3 a = m a" "left (m2 y) = ?pl"
    using \<open>mr a = m a\<close> \<open>a \<noteq> ?pl\<close> ne by (simp_all add: m1_def m3_def m2_def) (simp add: set_child_def LEFT_def)
  moreover have "transplant m t a y = Inr (m1, t')"
    using r1(1) a \<open>mr a = m a\<close> by (simp add: transplant_relink m1_def)
  moreover have "set_child m1 y LEFT (left (m1 a)) = m2" "set_parent m2 (left (m2 y)) y = m3"
    "set_color m3 y (color (m3 a)) = m4"
    unfolding A a(2) by (simp_all add: m4_def m3_def m2_def)
  moreover have "\<forall>z. z \<notin> insert y (set (ptrs_cx cx) \<union> set (ptrs l)) \<longrightarrow> m4 z = m z"
    using o4 pl by blast
  ultimately show ?thesis
    using r1(3,4) by (auto simp: Let_def simp del: writes_other)
qed

subsection \<open>The successor\<close>

lemma minimum_loop_ok:
  "focus m t p cx s \<Longrightarrow> s \<noteq> Lf \<Longrightarrow> length (ptrs s) \<le> n \<Longrightarrow>
   \<exists>cz c y k r. minimum_loop n m t p = Inr y \<and> s = plug cz (Nd Lf c y k r) \<and>
     focus m t y (cz @ cx) (Nd Lf c y k r) \<and> lkeys cz = [] \<and> (p = y \<longleftrightarrow> cz = [])"
proof (induction s arbitrary: n p cx)
  case (Nd l c a k r)
  obtain n' where n: "n = Suc n'" using Nd.prems(3) by (cases n) auto
  have p: "p = a" "a \<notin> set (ptrs l)" using focus_fields [of m t p cx L c a k l r] Nd.prems(1) by auto
  have fl: "focus m t (left (m a)) ((L, c, a, k, r) # cx) l"
    using focus_down [of m t a cx L c k l r] Nd.prems(1) p by simp
  show ?case
  proof (cases "l = Lf")
    case True
    then have "minimum_loop n m t p = Inr a" using focus_nil [OF fl] n p by (simp add: NIL_def)
    then show ?thesis using Nd.prems(1) True p by (intro exI [of _ "[]"] exI [of _ c] exI [of _ a] exI [of _ k] exI [of _ r]) simp
  next
    case False
    have len: "length (ptrs l) \<le> n'" using Nd.prems(3) n by simp
    have "minimum_loop n m t p = minimum_loop n' m t (left (m a))"
      using focus_nil [OF fl] n p False by (simp add: NIL_def)
    moreover obtain cz e y k' r' where "minimum_loop n' m t (left (m a)) = Inr y" "l = plug cz (Nd Lf e y k' r')"
      "focus m t y (cz @ (L, c, a, k, r) # cx) (Nd Lf e y k' r')" "lkeys cz = []"
      using Nd.IH(1) [OF fl False len] by blast
    moreover from this have "plug (cz @ [(L, c, a, k, r)]) (Nd Lf e y k' r') = Nd l c a k r"
      "lkeys (cz @ [(L, c, a, k, r)]) = []"
      by (simp_all add: plug_append lkeys_append)
    ultimately show ?thesis using p
      by (intro exI [of _ "cz @ [(L, c, a, k, r)]"] exI [of _ e] exI [of _ y] exI [of _ k'] exI [of _ r']) (auto simp: ptrs_plug)
  qed
qed simp

subsection \<open>Unlinking a node\<close>

definition unlink_node :: "rbmem \<Rightarrow> RbTree \<Rightarrow> u32 \<Rightarrow> (rbmem \<times> RbTree \<times> u32 \<times> u8) res" where
  "unlink_node m t node =
     (if NIL t (left (m node)) \<or> NIL t (right (m node)) then
        (let x = child (m node) (if NIL t (left (m node)) then RIGHT else LEFT)
         in bind_res (transplant m t node x) (\<lambda>(m', t). Inr (m', t, x, color (m node))))
      else
        bind_res (minimum m t (right (m node))) (\<lambda>y.
        bind_res (if y \<noteq> right (m node) then
                    bind_res (transplant m t y (right (m y))) (\<lambda>(m, t).
                    let m = set_child m y RIGHT (right (m node)) in Inr (set_parent m (right (m y)) y, t))
                  else Inr (set_parent m (right (m y)) y, t)) (\<lambda>(m', t).
        bind_res (transplant m' t node y) (\<lambda>(m1, t).
          let m2 = set_child m1 y LEFT (left (m1 node));
              m3 = set_parent m2 (left (m2 y)) y;
              m4 = set_color m3 y (color (m3 node))
          in Inr (m4, t, right (m y), color (m y))))))"

lemma rb_remove_eq: "rb_remove m t k = bind_res (rb_find m t k) (\<lambda>node.
    if node = 0 then Inr (0, m, t)
    else bind_res (unlink_node m t node) (\<lambda>(m, t, x, y_color).
      bind_res (if y_color = BLACK then (case remove_fix m t x of None \<Rightarrow> Inl Diverges | Some r \<Rightarrow> r) else Inr (m, t))
        (\<lambda>(m, t). Inr (node, m, t\<lparr>node_count := node_count t - 1\<rparr>))))"
  by (cases "rb_find m t k")
    (auto simp: rb_remove_def unlink_node_def Let_def bind_res_assoc split_def intro!: arg_cong2 [of _ _ _ _ bind_res])

text \<open>What is left after unlinking: the tree without the node, and where the repair starts.\<close>

definition unlinked :: "rbmem \<Rightarrow> RbTree \<Rightarrow> rbt \<Rightarrow> u32 \<Rightarrow> u32 \<Rightarrow> rbmem \<times> RbTree \<times> u32 \<times> u8 \<Rightarrow> bool" where
  "unlinked m t T k a = (\<lambda>(m', t', x, y_color). \<exists>cx s e. y_color = cw e \<and>
     focus m' t' x cx s \<and> linked m' x cx \<and> bh s = 0 \<and> invc s \<and> invh s \<and> (e = Rd \<longrightarrow> s = Lf) \<and>
     cinvc cx e \<and> chh cx (if e = Bk then 1 else 0) \<and> topc cx e = Bk \<and>
     (\<exists>xs ys. inorder T = xs @ (k, a) # ys \<and> inorder (plug cx s) = xs @ ys) \<and>
     set (ptrs T) = insert a (set (ptrs (plug cx s))) \<and> a \<notin> set (ptrs (plug cx s)) \<and>
     nil t' = nil t \<and> node_count t' = node_count t \<and>
     (\<forall>z. z \<notin> insert (nil t) (set (ptrs T)) \<longrightarrow> m' z = m z))"

lemma unlink_leaf:
  assumes f: "focus m t a cx (mk d c a k X Lf)" and i: "invc (plug cx (mk d c a k X Lf))" "invh (plug cx (mk d c a k X Lf))"
    "colr (plug cx (mk d c a k X Lf)) = Bk" and x: "x = child (m a) (dw d)"
  shows "\<exists>m' t'. transplant m t a x = Inr (m', t') \<and>
    unlinked m t (plug cx (mk d c a k X Lf)) k a (m', t', x, color (m a))"
proof -
  from transplant_ok [OF f] obtain m' t' where r: "transplant m t a x = Inr (m', t')" "focus m' t' x cx X"
    "linked m' x cx" "nil t' = nil t" "node_count t' = node_count t"
    "\<forall>z. z \<notin> insert x (set (ptrs_cx cx)) \<longrightarrow> m' z = m z" unfolding x by blast
  have ca: "color (m a) = cw c" using focus_fields(3) [OF f] .
  have ne: "a \<notin> set (ptrs_cx cx)" "a \<notin> set (ptrs X)" using focus_fields [OF f] by auto
  have "x \<in> insert (nil t) (set (ptrs X))"
    using f x by (cases X) (auto simp: focus_def)
  then have fr: "\<forall>z. z \<notin> insert (nil t) (set (ptrs (plug cx (mk d c a k X Lf)))) \<longrightarrow> m' z = m z"
    using r(6) by (auto simp: ptrs_plug)
  have inv: "bh X = 0" "invc X" "invh X" "cinvc cx c" "chh cx (if c = Bk then 1 else 0)" "topc cx c = Bk" "c = Rd \<longrightarrow> colr X = Bk"
    using i by (auto simp: inv_plug)
  have "c = Rd \<longrightarrow> X = Lf" using inv by (cases X) auto
  moreover have "\<exists>xs ys. inorder (plug cx (mk d c a k X Lf)) = xs @ (k, a) # ys \<and> inorder (plug cx X) = xs @ ys"
  proof (cases d)
    case L
    show ?thesis by (rule exI [of _ "lkeys cx @ inorder X"], rule exI [of _ "rkeys cx"]) (simp add: inorder_plug L)
  next
    case R
    show ?thesis by (rule exI [of _ "lkeys cx"], rule exI [of _ "inorder X @ rkeys cx"]) (simp add: inorder_plug R)
  qed
  moreover have "set (ptrs (plug cx (mk d c a k X Lf))) = insert a (set (ptrs (plug cx X)))" "a \<notin> set (ptrs (plug cx X))"
    using ne by (auto simp: ptrs_plug)
  ultimately have "unlinked m t (plug cx (mk d c a k X Lf)) k a (m', t', x, color (m a))"
    unfolding unlinked_def prod.case ca using r(2-5) fr inv
    by (intro exI [of _ cx] exI [of _ X] exI [of _ c]) simp
  then show ?thesis using r(1) by blast
qed

text \<open>With two children the successor \<open>y\<close> is taken out of the right subtree first.\<close>

definition detach :: "rbmem \<Rightarrow> RbTree \<Rightarrow> u32 \<Rightarrow> u32 \<Rightarrow> (rbmem \<times> RbTree) res" where
  "detach m t node y =
     (if y \<noteq> right (m node) then
        bind_res (transplant m t y (right (m y))) (\<lambda>(m, t).
        let m = set_child m y RIGHT (right (m node)) in Inr (set_parent m (right (m y)) y, t))
      else Inr (set_parent m (right (m y)) y, t))"

definition detached :: "rbmem \<Rightarrow> RbTree \<Rightarrow> u32 \<Rightarrow> rbt \<Rightarrow> col \<Rightarrow> frame list \<Rightarrow> u32 \<Rightarrow> u32 \<Rightarrow> rbt \<Rightarrow> bool" where
  "detached m t a l c cx y ky r \<longleftrightarrow>
     (\<exists>q. tr m (nil t) (left (m a)) a l \<and> parent (m a) = q \<and> color (m a) = cw c \<and> cxr m (nil t) (root t) q a cx) \<and>
     tr m (nil t) (right (m y)) y r \<and> key (m y) = ky \<and> color (m (nil t)) = BLACK"

lemma focus_rises: "focus m t p (cz @ cx) s \<Longrightarrow> \<exists>p'. focus m t p' cx (plug cz s)"
proof (induction cz arbitrary: p s)
  case (Cons f cz)
  obtain d c a k x where f: "f = (d, c, a, k, x)" by (metis prod_cases5)
  have "focus m t p ((d, c, a, k, x) # cz @ cx) s" using Cons.prems f by simp
  from Cons.IH [OF focus_raise [OF this]] show ?case by (simp add: f)
qed auto

lemma focus_dives: "focus m t p cx (plug cz s) \<Longrightarrow> \<exists>p'. focus m t p' (cz @ cx) s"
proof (induction cz arbitrary: s)
  case (Cons f cz)
  obtain d c a k x where f: "f = (d, c, a, k, x)" by (metis prod_cases5)
  have "focus m t p cx (plug cz (mk d c a k s x))" using Cons.prems f by simp
  from Cons.IH [OF this] obtain p' where p': "focus m t p' (cz @ cx) (mk d c a k s x)" by blast
  then have "p' = a" by (rule focus_fields(1))
  then have "focus m t (child (m a) (dw d)) ((d, c, a, k, x) # cz @ cx) s" using focus_down p' by simp
  then show ?case using f by auto
qed auto

lemma tr_addr: "tr m nl p q s \<Longrightarrow> tr m' nl p' q' s \<Longrightarrow> p = p'"
  by (cases s) auto

lemma detach_near:
  assumes f: "focus m t y ((R, c, a, k, l) # cx) (Nd Lf cy y ky r)"
  shows "\<exists>m1. detach m t a y = Inr (m1, t) \<and> detached m1 t a l c cx y ky r \<and>
    (r = Lf \<longrightarrow> parent (m1 (nil t)) = y) \<and> (\<forall>z. z \<noteq> nil t \<longrightarrow> m1 z = m z)"
proof -
  let ?x = "right (m y)" let ?m = "set_parent m ?x y"
  have ya: "y = right (m a)" "a \<noteq> y" "y \<noteq> nil t" "a \<noteq> nil t" using f by (auto simp: focus_def fresh_def)
  have run: "detach m t a y = Inr (?m, t)" using ya(1) by (simp add: detach_def)
  have x: "?x = nil t \<longleftrightarrow> r = Lf"
    using f by (intro tr_not_nil [of m _ _ y]) (auto simp: focus_def fresh_def)
  have same: "?m z = m z" if "z \<noteq> nil t" for z
  proof (cases "r = Lf")
    case True
    then show ?thesis using x that by simp
  next
    case False
    then have "parent (m ?x) = y" using f by (cases r) (auto simp: focus_def)
    then show ?thesis by (cases "z = ?x") (simp_all add: set_parent_def)
  qed
  have "tr ?m (nil t) (left (?m a)) a l"
    unfolding same [OF ya(4)] by (rule tr_frame [of m], use f in \<open>simp add: focus_def\<close>, rule same)
      (use f in \<open>auto simp: focus_def fresh_def\<close>)
  moreover have "cxr ?m (nil t) (root t) (parent (?m a)) a cx"
    unfolding same [OF ya(4)] by (rule cxr_frame [of m], use f in \<open>simp add: focus_def\<close>, rule same)
      (use f in \<open>auto simp: focus_def fresh_def\<close>)
  moreover have "tr ?m (nil t) (right (?m y)) y r"
    unfolding same [OF ya(3)] by (rule tr_frame [of m], use f in \<open>simp add: focus_def\<close>, rule same)
      (use f in \<open>auto simp: focus_def fresh_def\<close>)
  ultimately have "detached ?m t a l c cx y ky r"
    using f ya same by (auto simp: detached_def focus_def)
  moreover have "r = Lf \<longrightarrow> parent (?m (nil t)) = y" using x by auto
  ultimately show ?thesis using run same by blast
qed

lemma detach_far:
  assumes f: "focus m t y (cz @ (R, c, a, k, l) # cx) (Nd Lf cy y ky r)" and cz: "cz \<noteq> []" and ya: "y \<noteq> right (m a)"
  shows "\<exists>m1 t1. detach m t a y = Inr (m1, t1) \<and> nil t1 = nil t \<and> node_count t1 = node_count t \<and>
    detached m1 t1 a l c cx y ky (plug cz r) \<and> (r = Lf \<longrightarrow> linked m1 (nil t) cz) \<and>
    (\<forall>z. z \<notin> insert (nil t) (set (ptrs (plug (cz @ (R, c, a, k, l) # cx) (Nd Lf cy y ky r)))) \<longrightarrow> m1 z = m z)"
proof -
  let ?C = "cz @ (R, c, a, k, l) # cx" let ?x = "right (m y)"
  have f': "focus m t y ?C (mk R cy y ky r Lf)" using f by simp
  from transplant_ok [OF f'] obtain m' t' where r: "transplant m t y ?x = Inr (m', t')" "focus m' t' ?x ?C r"
    "linked m' ?x ?C" "nil t' = nil t" "node_count t' = node_count t"
    "\<forall>z. z \<notin> insert ?x (set (ptrs_cx ?C)) \<longrightarrow> m' z = m z" by auto
  obtain p where p: "focus m' t' p ((R, c, a, k, l) # cx) (plug cz r)" using focus_rises [OF r(2)] by blast
  have pa: "p = right (m' a)" "tr m' (nil t) p a (plug cz r)" using p r(4) by (auto simp: focus_def)
  have xr: "?x \<in> insert (nil t) (set (ptrs r))" using f by (cases r) (auto simp: focus_def)
  have ne: "y \<notin> set (ptrs_cx ?C)" "y \<notin> set (ptrs r)" "y \<noteq> nil t" "a \<noteq> y"
    using f by (auto simp: focus_def fresh_def ptrs_cx_append)
  have PR: "plug cz r \<noteq> Lf"
  proof -
    obtain g cz' where "cz = g # cz'" using cz by (cases cz) auto
    then have "ptrs (plug cz r) \<noteq> []" using ptrs_plug [of cz r] by (cases g) auto
    then show ?thesis by auto
  qed
  have pS: "p \<in> set (ptrs (plug cz r))" by (rule root_ptr [OF pa(2) PR])
  have dis: "a \<notin> set (ptrs (plug cz r))" "set (ptrs l) \<inter> set (ptrs (plug cz r)) = {}"
    "set (ptrs_cx cx) \<inter> set (ptrs (plug cz r)) = {}" "nil t \<notin> set (ptrs (plug cz r))" "distinct (ptrs (plug cz r))"
    "a \<notin> set (ptrs l)" "a \<notin> set (ptrs_cx cx)" "a \<noteq> nil t"
    using p r(4) by (auto simp: focus_def fresh_def)
  have yS: "y \<notin> set (ptrs (plug cz r))" "y \<notin> set (ptrs l)" "y \<notin> set (ptrs_cx cx)"
    using ne by (auto simp: ptrs_plug ptrs_cx_append)
  have py: "p \<noteq> y" "p \<noteq> a" using pS yS dis by auto
  define m2 where "m2 = set_child m' y RIGHT p"
  define m1 where "m1 = set_parent m2 p y"
  have o: "m1 z = m' z" if "z \<noteq> y" "z \<noteq> p" for z using that by (simp add: m1_def m2_def)
  have r2: "right (m2 y) = p" "right (m1 y) = p" by (simp_all add: m1_def m2_def set_child_def LEFT_def RIGHT_def)
  have run: "detach m t a y = Inr (m1, t')"
    using r(1) ya pa(1) r2(1) by (simp add: detach_def Let_def m1_def m2_def)
  have "tr m2 (nil t) p a (plug cz r)"
    by (rule tr_frame [OF pa(2)]) (use yS in \<open>auto simp: m2_def intro!: writes_other\<close>)
  from tr_set_parent [OF this PR dis(5)] have "tr m1 (nil t) (right (m1 y)) y (plug cz r)" by (simp add: r2 m1_def)
  moreover have ma: "m1 a = m' a" using o py ne by auto
  moreover have "tr m1 (nil t) (left (m' a)) a l"
    by (rule tr_frame [of m'], use p r(4) in \<open>simp add: focus_def\<close>, rule o) (use yS dis pS in auto)
  moreover have "cxr m1 (nil t) (root t') (parent (m' a)) a cx"
    by (rule cxr_frame [of m'], use p r(4) in \<open>simp add: focus_def\<close>, rule o) (use yS dis pS in auto)
  moreover have "y \<noteq> ?x" using xr ne by auto
  then have "m' y = m y" using r(6) ne by blast
  then have "key (m1 y) = ky" using f py by (simp add: m1_def m2_def focus_def)
  moreover have nl: "m1 (nil t) = m' (nil t)" by (rule o) (use ne dis pS in auto)
  ultimately have "detached m1 t' a l c cx y ky (plug cz r)"
    using p r(4) by (auto simp: detached_def focus_def)
  moreover have "r = Lf \<longrightarrow> linked m1 (nil t) cz"
    using r(3) cz nl focus_nil [OF r(2)] r(4) by (cases cz) (auto simp: linked_def)
  moreover have "m1 z = m z" if "z \<notin> insert (nil t) (set (ptrs (plug ?C (Nd Lf cy y ky r))))" for z
  proof -
    have "z \<noteq> y" "z \<noteq> p" "z \<notin> insert ?x (set (ptrs_cx ?C))"
      using that pS xr by (auto simp: ptrs_plug ptrs_cx_append)
    then show ?thesis using o r(6) by simp
  qed
  ultimately show ?thesis using run r(4,5) by blast
qed

text \<open>The context above does not depend on which node is in the frame.\<close>

lemma frame_node:
  "cinvc (cz @ (d, c, a, k, s) # cx) e = cinvc (cz @ (d, c, a', k', s) # cx) e"
  "chh (cz @ (d, c, a, k, s) # cx) n = chh (cz @ (d, c, a', k', s) # cx) n"
  "topc (cz @ (d, c, a, k, s) # cx) e = topc (cz @ (d, c, a', k', s) # cx) e"
  by (induction cz arbitrary: e n) (simp_all split: prod.splits)

lemma unlink_inner:
  assumes f: "focus m t a cx (Nd l c a k r)" and ne: "l \<noteq> Lf" "r \<noteq> Lf"
    and i: "invc (plug cx (Nd l c a k r))" "invh (plug cx (Nd l c a k r))" "colr (plug cx (Nd l c a k r)) = Bk"
  shows "\<exists>x. unlink_node m t a = Inr x \<and> unlinked m t (plug cx (Nd l c a k r)) k a x"
proof -
  let ?T = "plug cx (Nd l c a k r)" and ?nl = "nil t"
  have fl: "focus m t (left (m a)) ((L, c, a, k, r) # cx) l"
    using focus_down [of m t a cx L c k l r] f by simp
  have fr: "focus m t (right (m a)) ((R, c, a, k, l) # cx) r"
    using focus_down [of m t a cx R c k r l] f by simp
  have two: "left (m a) \<noteq> ?nl" "right (m a) \<noteq> ?nl" using focus_nil [OF fl] focus_nil [OF fr] ne by auto
  have "length (ptrs r) \<le> 2 ^ 32" using length_ptrs [OF fr] by simp
  from minimum_loop_ok [OF fr ne(2) this] obtain cz cy y ky R' where y:
    "minimum m t (right (m a)) = Inr y" "r = plug cz (Nd Lf cy y ky R')"
    "focus m t y (cz @ (R, c, a, k, l) # cx) (Nd Lf cy y ky R')" "lkeys cz = []" "right (m a) = y \<longleftrightarrow> cz = []"
    unfolding minimum_def by blast
  let ?C = "cz @ (R, c, a, k, l) # cx" and ?C' = "cz @ (R, c, y, ky, l) # cx" and ?r = "plug cz R'"
  have T: "?T = plug ?C (Nd Lf cy y ky R')" by (simp add: plug_append y(2))
  have P1: "\<exists>m1 t1. detach m t a y = Inr (m1, t1) \<and> nil t1 = ?nl \<and> node_count t1 = node_count t \<and>
    detached m1 t1 a l c cx y ky ?r \<and> (R' = Lf \<longrightarrow> linked m1 ?nl ?C') \<and>
    (\<forall>z. z \<notin> insert ?nl (set (ptrs ?T)) \<longrightarrow> m1 z = m z)"
  proof (cases "cz = []")
    case True
    then show ?thesis using detach_near [of m t y c a k l cx cy ky R'] y(3) by auto
  next
    case False
    then show ?thesis
      using detach_far [OF y(3) False] y(5) T by (fastforce simp: linked_def split: list.splits)
  qed
  then obtain m1 t1 where d: "detach m t a y = Inr (m1, t1)" "nil t1 = ?nl" "node_count t1 = node_count t"
    "detached m1 t1 a l c cx y ky ?r" "R' = Lf \<longrightarrow> linked m1 ?nl ?C'"
    "\<forall>z. z \<notin> insert ?nl (set (ptrs ?T)) \<longrightarrow> m1 z = m z" by blast
  obtain q where q: "tr m1 ?nl (left (m1 a)) a l" "parent (m1 a) = q" "color (m1 a) = cw c"
    "cxr m1 ?nl (root t1) q a cx" "tr m1 ?nl (right (m1 y)) y ?r" "key (m1 y) = ky" "color (m1 ?nl) = BLACK"
    using d(2,4) by (auto simp: detached_def)
  have fre: "fresh ?nl ?C (Nd Lf cy y ky R')" using y(3) by (simp add: focus_def)
  have fT: "fresh ?nl cx (Nd l c a k r)" using f by (simp add: focus_def)
  have yr: "y \<in> set (ptrs r)" "set (ptrs r) = insert y (set (ptrs ?r))" by (auto simp: y(2) ptrs_plug)
  have yS: "y \<notin> set (ptrs ?r)" "distinct (ptrs ?r)"
    using fre by (auto simp: fresh_def ptrs_plug distinct_plug distinct_cx_append ptrs_cx_append)
  have fr': "fresh ?nl cx (Nd l c y ky ?r)"
    using fT yr yS by (auto simp: fresh_def)
  have na: "a \<notin> set (ptrs_cx cx)" "a \<notin> set (ptrs l)" "a \<noteq> y" "a \<noteq> ?nl" "a \<notin> set (ptrs ?r)"
    using fT yr by (auto simp: fresh_def)
  from replace_ok [OF q(1) ne(1) q(2,3,4,5,6) fr' na(1-4) q(7)] d(2) obtain m2 t2 where r2:
    "transplant m1 t1 a y = Inr (m2, t2)" by (auto simp: Let_def)
  define m3 where "m3 = set_child m2 y LEFT (left (m2 a))"
  define m4 where "m4 = set_parent m3 (left (m3 y)) y"
  define m5 where "m5 = set_color m4 y (color (m4 a))"
  have F: "focus m5 t2 y cx (Nd l c y ky ?r)" "nil t2 = nil t1" "node_count t2 = node_count t1"
    "\<forall>z. z \<notin> insert y (set (ptrs_cx cx) \<union> set (ptrs l)) \<longrightarrow> m5 z = m1 z"
    using replace_ok [OF q(1) ne(1) q(2,3,4,5,6) fr' na(1-4) q(7)] d(2) r2
    by (auto simp: Let_def m3_def m4_def m5_def)
  let ?x = "right (m y)"
  have run: "unlink_node m t a = Inr (m5, t2, ?x, color (m y))"
    using two y(1) d(1) r2 by (simp add: unlink_node_def NIL_def detach_def [symmetric] m3_def m4_def m5_def Let_def)
  have "focus m5 t2 (right (m5 y)) ((R, c, y, ky, l) # cx) ?r"
    using focus_down [of m5 t2 y cx R c ky ?r l] F(1) by simp
  from focus_dives [OF this] obtain x' where x': "focus m5 t2 x' ?C' R'" by auto
  have "x' = ?x" using y(3) x' F(2) d(2) by (auto simp: focus_def intro: tr_addr)
  note x' = x' [unfolded this]
  have nlo: "?nl \<noteq> y" "?nl \<notin> set (ptrs_cx cx)" "?nl \<notin> set (ptrs l)" using fr' by (auto simp: fresh_def)
  have li: "linked m5 ?x ?C'"
  proof (cases "R' = Lf")
    case True
    then have "?x = ?nl" using focus_nil [OF x'] F(2) d(2) by simp
    moreover have "m5 ?nl = m1 ?nl" using F(4) nlo by simp
    ultimately show ?thesis using d(5) True by (simp add: linked_def split: list.splits prod.splits)
  qed (rule focus_linked [OF x'])
  have inv: "bh R' = 0" "invc R'" "invh R'" "cinvc ?C' cy" "chh ?C' (if cy = Bk then 1 else 0)" "topc ?C' cy = Bk"
    "cy = Rd \<longrightarrow> colr R' = Bk"
    using i unfolding T frame_node [of cz R c y ky l cx _ a k] by (auto simp: inv_plug)
  have "cy = Rd \<longrightarrow> R' = Lf" using inv by (cases R') auto
  moreover have cyy: "color (m y) = cw cy" using y(3) by (simp add: focus_def)
  moreover have "\<exists>xs ys. inorder ?T = xs @ (k, a) # ys \<and> inorder (plug ?C' R') = xs @ ys"
    by (rule exI [of _ "lkeys cx @ inorder l"], rule exI [of _ "(ky, y) # inorder R' @ rkeys cz @ rkeys cx"])
      (use y(4) in \<open>simp add: inorder_plug plug_append y(2)\<close>)
  moreover have "set (ptrs ?T) = insert a (set (ptrs (plug ?C' R')))" "a \<notin> set (ptrs (plug ?C' R'))"
    using yr na by (auto simp: plug_append ptrs_plug)
  moreover have "\<forall>z. z \<notin> insert ?nl (set (ptrs ?T)) \<longrightarrow> m5 z = m z"
    using F(4) d(6) yr by (auto simp: ptrs_plug)
  moreover have "nil t2 = ?nl" "node_count t2 = node_count t" using F(2,3) d(2,3) by simp_all
  ultimately have "unlinked m t ?T k a (m5, t2, ?x, color (m y))"
    unfolding unlinked_def prod.case using x' li inv(1-6)
    by (intro exI [of _ ?C'] exI [of _ R'] exI [of _ cy]) simp
  then show ?thesis using run by blast
qed

lemma unlink_ok:
  assumes f: "focus m t a cx (Nd l c a k r)"
    and i: "invc (plug cx (Nd l c a k r))" "invh (plug cx (Nd l c a k r))" "colr (plug cx (Nd l c a k r)) = Bk"
  shows "\<exists>x. unlink_node m t a = Inr x \<and> unlinked m t (plug cx (Nd l c a k r)) k a x"
proof -
  have fl: "focus m t (left (m a)) ((L, c, a, k, r) # cx) l"
    using focus_down [of m t a cx L c k l r] f by simp
  have fr: "focus m t (right (m a)) ((R, c, a, k, l) # cx) r"
    using focus_down [of m t a cx R c k r l] f by simp
  note nl = focus_nil [OF fl] and nr = focus_nil [OF fr]
  consider "l = Lf" | "l \<noteq> Lf" "r = Lf" | "l \<noteq> Lf" "r \<noteq> Lf" by blast
  then show ?thesis
  proof cases
    case 1
    have "\<exists>m' t'. transplant m t a (right (m a)) = Inr (m', t') \<and>
        unlinked m t (plug cx (mk R c a k r Lf)) k a (m', t', right (m a), color (m a))"
      by (rule unlink_leaf) (use f i 1 in simp_all)
    then show ?thesis using 1 nl by (auto simp: unlink_node_def NIL_def)
  next
    case 2
    have "\<exists>m' t'. transplant m t a (left (m a)) = Inr (m', t') \<and>
        unlinked m t (plug cx (mk L c a k l Lf)) k a (m', t', left (m a), color (m a))"
      by (rule unlink_leaf) (use f i 2 in simp_all)
    then show ?thesis using 2 nl nr by (auto simp: unlink_node_def NIL_def)
  next
    case 3
    then show ?thesis using unlink_inner [OF f 3 i] by blast
  qed
qed

subsection \<open>The whole operation\<close>

lemma finish_ok:
  assumes "unlinked m t T k a (m1, t1, x, y_color)"
  shows "\<exists>m' t' T'. (if y_color = BLACK then (case remove_fix m1 t1 x of None \<Rightarrow> Inl Diverges | Some r \<Rightarrow> r) else Inr (m1, t1))
      = Inr (m', t') \<and> focus m' t' (root t') [] T' \<and> invc T' \<and> invh T' \<and> colr T' = Bk \<and>
    (\<exists>xs ys. inorder T = xs @ (k, a) # ys \<and> inorder T' = xs @ ys) \<and> nodes T' = nodes T - {a} \<and>
    nil t' = nil t \<and> node_count t' = node_count t \<and> (\<forall>z. z \<notin> insert (nil t) (nodes T) \<longrightarrow> m' z = m z)"
proof -
  obtain cx s e where u: "y_color = cw e" "focus m1 t1 x cx s" "linked m1 x cx" "bh s = 0" "invc s" "invh s"
    "e = Rd \<longrightarrow> s = Lf" "cinvc cx e" "chh cx (if e = Bk then 1 else 0)" "topc cx e = Bk"
    "\<exists>xs ys. inorder T = xs @ (k, a) # ys \<and> inorder (plug cx s) = xs @ ys"
    "set (ptrs T) = insert a (set (ptrs (plug cx s)))" "a \<notin> set (ptrs (plug cx s))" "nil t1 = nil t"
    "node_count t1 = node_count t" "\<forall>z. z \<notin> insert (nil t) (set (ptrs T)) \<longrightarrow> m1 z = m z"
    using assms unfolding unlinked_def prod.case by (elim exE conjE) (rule that; blast)
  have "\<exists>y. (if y_color = BLACK then (case remove_fix m1 t1 x of None \<Rightarrow> Inl Diverges | Some r \<Rightarrow> r) else Inr (m1, t1))
      = Inr y \<and> repaired m1 t1 (plug cx s) y"
  proof (cases e)
    case Rd
    have "repaired m1 t1 (plug cx s) (m1, t1)"
      unfolding repaired_def prod.case
      by (rule exI [of _ "plug cx s"])
        (use focus_top [OF u(2)] u(4-10) Rd cinvc_Bk topc_BkI in \<open>auto simp: inv_plug\<close>)
    then show ?thesis using u(1) Rd by auto
  next
    case Bk
    have "\<exists>y. remove_fix m1 t1 x = Some (Inr y) \<and> repaired m1 t1 (plug cx s) y"
      by (rule remove_fix_ok) (use u Bk in auto)
    then show ?thesis using u(1) Bk by auto
  qed
  then obtain m' t' T' where r:
    "(if y_color = BLACK then (case remove_fix m1 t1 x of None \<Rightarrow> Inl Diverges | Some r \<Rightarrow> r) else Inr (m1, t1)) = Inr (m', t')"
    "focus m' t' (root t') [] T'" "same_tree T' (plug cx s)" "invc T'" "invh T'" "colr T' = Bk"
    "keeps (set (ptrs (plug cx s))) m1 t1 m' t'" by (auto simp: repaired_def)
  have "nodes T' = nodes T - {a}" using r(3) u(12,13) by (auto simp: nodes_def same_tree_def)
  moreover have "\<forall>z. z \<notin> insert (nil t) (nodes T) \<longrightarrow> m' z = m z"
    using r(7) u(12,16) by (auto simp: nodes_def keeps_def)
  moreover have "\<exists>xs ys. inorder T = xs @ (k, a) # ys \<and> inorder T' = xs @ ys"
    using r(3) u(11) by (simp add: same_tree_def)
  moreover have "nil t' = nil t" "node_count t' = node_count t" using r(7) u(14,15) by (simp_all add: keeps_def)
  ultimately show ?thesis using r(1,2,4,5,6) by blast
qed

lemma delete_entry:
  assumes "ordered (xs @ (k, a) # ys)"
  shows "ordered (xs @ ys)" "map_of (xs @ ys) = (map_of (xs @ (k, a) # ys))(k := None)"
proof -
  show "ordered (xs @ ys)" using assms by (auto simp: sorted_wrt_append)
  have "k \<notin> fst ` set xs" "k \<notin> fst ` set ys" using assms by (auto simp: sorted_wrt_append)
  then have "map_of xs k = None" "map_of ys k = None" by (simp_all add: map_of_eq_None_iff)
  then show "map_of (xs @ ys) = (map_of (xs @ (k, a) # ys))(k := None)"
    by (auto simp: map_add_def fun_eq_iff split: option.splits)
qed

lemma remove_ok:
  assumes T: "rbtree m t T"
  shows "case entries T k of
      None \<Rightarrow> rb_remove m t k = Inr (0, m, t)
    | Some a \<Rightarrow> \<exists>m' t' T'. rb_remove m t k = Inr (a, m', t') \<and> rbtree m' t' T' \<and> nil t' = nil t \<and>
        entries T' = (entries T)(k := None) \<and> nodes T' = nodes T - {a} \<and>
        (\<forall>z. z \<notin> insert (nil t) (nodes T) \<longrightarrow> m' z = m z)"
proof (cases "entries T k")
  case None
  then show ?thesis using find_ok [OF T, of k] by (simp add: rb_remove_def)
next
  case (Some a)
  have f: "focus m t (root t) [] T" and o: "ordered (inorder T)" and i: "invc T" "invh T" "colr T = Bk"
    and n: "node_count t = of_nat (length (inorder T))" using T by (auto simp: rbtree_def)
  have "\<exists>cx' d e x y. focus m t a cx' (mk d e a k x y) \<and> plug cx' (mk d e a k x y) = plug [] T"
    using rb_find_loop_ok [OF f length_ptrs [OF f] o, of k] Some by (simp add: entries_def)
  then obtain cx d c x y where "focus m t a cx (mk d c a k x y)" "plug cx (mk d c a k x y) = T" by auto
  then obtain l r where lr: "focus m t a cx (Nd l c a k r)" "plug cx (Nd l c a k r) = T"
    by (cases d) auto
  obtain m1 t1 z col where u: "unlink_node m t a = Inr (m1, t1, z, col)" "unlinked m t T k a (m1, t1, z, col)"
    using unlink_ok [OF lr(1)] lr(2) i by auto
  from finish_ok [OF u(2)] obtain m' t' T' xs ys where r:
    "(if col = BLACK then (case remove_fix m1 t1 z of None \<Rightarrow> Inl Diverges | Some r \<Rightarrow> r) else Inr (m1, t1)) = Inr (m', t')"
    "focus m' t' (root t') [] T'" "invc T'" "invh T'" "colr T' = Bk"
    "inorder T = xs @ (k, a) # ys" "inorder T' = xs @ ys" "nodes T' = nodes T - {a}" "nil t' = nil t"
    "node_count t' = node_count t" "\<forall>z. z \<notin> insert (nil t) (nodes T) \<longrightarrow> m' z = m z" by blast
  have "a \<noteq> 0" using focus_fields(5) [of m t a cx L c a k l r] lr(1) by simp
  then have run: "rb_remove m t k = Inr (a, m', t'\<lparr>node_count := node_count t' - 1\<rparr>)"
    using find_ok [OF T, of k] Some u(1) r(1) by (simp add: rb_remove_eq)
  have "rbtree m' (t'\<lparr>node_count := node_count t' - 1\<rparr>) T'"
    using r n o delete_entry(1) [of xs k a ys] by (simp add: rbtree_def)
  moreover have "entries T' = (entries T)(k := None)"
    using r o delete_entry(2) [of xs k a ys] by (simp add: entries_def)
  ultimately show ?thesis unfolding Some option.case using run r(8,9,11)
    by (intro exI [of _ m'] exI [of _ "t'\<lparr>node_count := node_count t' - 1\<rparr>"] exI [of _ T']) simp
qed

end
