(* ===== verification/RbTable.thy ===== *)
theory RbTable
  imports RbRemove
begin

section \<open>The process table\<close>

text \<open>
  The results on the red-black tree: what each operation does to the finite map from process
  identifiers to nodes, and that any sequence of operations has the outcome of the same
  sequence on a map. The interface \<open>finite_table\<close> is interpreted here.
\<close>

definition put :: "rbmem \<times> RbTree \<Rightarrow> u32 \<Rightarrow> u32 \<Rightarrow> (bool \<times> (rbmem \<times> RbTree)) res" where
  "put = (\<lambda>(m, t) k node. rb_insert m t node k)"

definition get :: "rbmem \<times> RbTree \<Rightarrow> u32 \<Rightarrow> u32 res" where
  "get = (\<lambda>(m, t) k. rb_find m t k)"

definition del :: "rbmem \<times> RbTree \<Rightarrow> u32 \<Rightarrow> (u32 \<times> (rbmem \<times> RbTree)) res" where
  "del = (\<lambda>(m, t) k. rb_remove m t k)"

definition table_rep :: "rbmem \<times> RbTree \<Rightarrow> (u32 \<Rightarrow> u32 option) \<Rightarrow> bool" where
  "table_rep = (\<lambda>(m, t) M. \<exists>T. rbtree m t T \<and> entries T = M)"

lemma nodes_entries: "rbtree m t T \<Longrightarrow> nodes T = ran (entries T)"
proof -
  assume T: "rbtree m t T"
  have "sorted_wrt (<) (map fst (inorder T))" using T by (simp add: rbtree_def)
  then have "distinct (map fst (inorder T))" using strict_sorted_iff by blast
  then have "ran (entries T) = snd ` set (inorder T)" by (simp add: entries_def ran_distinct)
  also have "\<dots> = nodes T" by (induction T) (auto simp: nodes_def)
  finally show ?thesis by simp
qed

interpretation table: finite_table table_rep "\<lambda>s. {0, nil (snd s)}" 0 put get del
proof unfold_locales
  fix s M k v
  assume a: "table_rep s M" "M k = None" "v \<notin> ran M" "v \<notin> {0, nil (snd s)}"
  obtain m t T where T: "s = (m, t)" "rbtree m t T" "entries T = M"
    using a(1) by (cases s) (auto simp: table_rep_def)
  have "v \<notin> nodes T" using nodes_entries [OF T(2)] T(3) a(3) by simp
  from insert_ok [OF T(2) this, of k] show "\<exists>t. put s k v = Inr (True, t) \<and> table_rep t (M(k \<mapsto> v)) \<and>
      {0, nil (snd t)} = {0, nil (snd s)}"
    using a T by (auto simp: put_def table_rep_def)
next
  fix s M k u v
  assume a: "table_rep s M" "M k = Some u" "v \<notin> ran M" "v \<notin> {0, nil (snd s)}"
  obtain m t T where T: "s = (m, t)" "rbtree m t T" "entries T = M"
    using a(1) by (cases s) (auto simp: table_rep_def)
  have "v \<notin> nodes T" using nodes_entries [OF T(2)] T(3) a(3) by simp
  from insert_ok [OF T(2) this, of k] show "put s k v = Inr (False, s)"
    using a T by (auto simp: put_def)
next
  fix s M k
  assume "table_rep s M"
  then show "get s k = Inr (case M k of None \<Rightarrow> 0 | Some v \<Rightarrow> v)"
    by (cases s) (auto simp: get_def table_rep_def find_ok)
next
  fix s M k v
  assume a: "table_rep s M" "M k = Some v"
  obtain m t T where T: "s = (m, t)" "rbtree m t T" "entries T = M"
    using a(1) by (cases s) (auto simp: table_rep_def)
  from remove_ok [OF T(2), of k] show "\<exists>t. del s k = Inr (v, t) \<and> table_rep t (M(k := None)) \<and>
      {0, nil (snd t)} = {0, nil (snd s)}"
    using a T by (auto simp: del_def table_rep_def)
next
  fix s M k
  assume a: "table_rep s M" "M k = None"
  obtain m t T where T: "s = (m, t)" "rbtree m t T" "entries T = M"
    using a(1) by (cases s) (auto simp: table_rep_def)
  from remove_ok [OF T(2), of k] show "del s k = Inr (0, s)"
    using a T by (auto simp: del_def)
qed

subsection \<open>Insertion\<close>

text \<open>An example: a tree with one node at address 16 and key 5, its sentinel at 8.\<close>

definition one_node :: rbmem where
  "one_node = (\<lambda>_. \<lparr>parent = 8, left = 8, right = 8, key = 5, color = BLACK\<rparr>)"

definition one_tree :: RbTree where
  "one_tree = \<lparr>root = 16, nil = 8, node_count = 1\<rparr>"

lemma one_tree_rb: "rbtree one_node one_tree (Nd Lf Bk 16 5 Lf)"
  by (simp add: rbtree_def focus_def fresh_def one_node_def one_tree_def)

lemma one_entry: "entries (Nd Lf Bk 16 5 Lf) = [5 \<mapsto> 16]"
  by (simp add: entries_def)

text \<open>
  C16: \<open>rb_insert\<close> of a node that is not in the tree returns. When the key is taken it changes
  nothing and says so. Otherwise the tree afterwards is again a red-black search tree (black
  root, no red node with a red child, equal black heights, keys in order, right count); it maps
  the key to the node and every other key as before; and no memory but that of its nodes has
  changed.
\<close>

theorem rb_insert_correct:
  assumes "rbtree m t T" "node \<notin> nodes T" "node \<noteq> nil t" "node \<noteq> 0"
  shows "if entries T k \<noteq> None then rb_insert m t node k = Inr (False, m, t)
    else \<exists>m' t' T'. rb_insert m t node k = Inr (True, m', t') \<and> rbtree m' t' T' \<and> nil t' = nil t \<and>
      entries T' = (entries T)(k \<mapsto> node) \<and> nodes T' = insert node (nodes T) \<and>
      (\<forall>x. x \<notin> insert node (nodes T) \<longrightarrow> m' x = m x)"
  by (rule insert_ok [OF assms])

theorem rb_insert_correct_witness:
  "\<exists>m t T. rb_insert one_node one_tree 32 7 = Inr (True, m, t) \<and> rbtree m t T \<and>
     entries T 7 = Some 32 \<and> entries T 5 = Some 16"
  using rb_insert_correct [OF one_tree_rb, of 32 7]
  by (fastforce simp: one_tree_def nodes_def one_entry)

subsection \<open>Removal\<close>

text \<open>
  C17: \<open>rb_remove\<close> returns. Without an entry for the key it returns null and changes nothing.
  Otherwise it returns the node of the key; the tree afterwards is again a red-black search
  tree, without this node and with all other entries unchanged; and no memory but that of its
  nodes and the sentinel has changed.
\<close>

theorem rb_remove_correct:
  assumes "rbtree m t T"
  shows "case entries T k of
      None \<Rightarrow> rb_remove m t k = Inr (0, m, t)
    | Some a \<Rightarrow> \<exists>m' t' T'. rb_remove m t k = Inr (a, m', t') \<and> rbtree m' t' T' \<and> nil t' = nil t \<and>
        entries T' = (entries T)(k := None) \<and> nodes T' = nodes T - {a} \<and>
        (\<forall>z. z \<notin> insert (nil t) (nodes T) \<longrightarrow> m' z = m z)"
  by (rule remove_ok [OF assms])

theorem rb_remove_correct_witness:
  "\<exists>m t T. rb_remove one_node one_tree 5 = Inr (16, m, t) \<and> rbtree m t T \<and> nodes T = {}"
  using rb_remove_correct [OF one_tree_rb, of 5] by (fastforce simp: nodes_def one_entry)

subsection \<open>Sequences of operations\<close>

text \<open>
  C15: any sequence of insertions (of nodes that are not in the table), lookups and removals,
  from an initialised tree, returns exactly the results of the same sequence on a finite map
  that is empty at first, and leaves a red-black tree that holds the final map.
\<close>

theorem process_table_refines_map:
  assumes "rb_init m t = (m', t')" "fresh_puts 0 {0, nil t} ops Map.empty" "run_map 0 ops Map.empty = (rs, M)"
  shows "\<exists>m'' t'' T. run_table (\<lambda>(m, t) k node. rb_insert m t node k) (\<lambda>(m, t) k. rb_find m t k)
      (\<lambda>(m, t) k. rb_remove m t k) ops (m', t') = Inr (rs, (m'', t'')) \<and>
    rbtree m'' t'' T \<and> entries T = M"
proof -
  have i: "rbtree m' t' Lf" "nil t' = nil t" using init_ok [OF assms(1)] by auto
  then have "table_rep (m', t') Map.empty" by (auto simp: table_rep_def entries_def)
  from table.run_refines [OF this _ assms(3)] assms(2) i(2) show ?thesis
    by (auto simp: table_rep_def put_def get_def del_def)
qed

theorem process_table_refines_map_witness:
  "\<exists>m' t'. run_table (\<lambda>(m, t) k node. rb_insert m t node k) (\<lambda>(m, t) k. rb_find m t k)
      (\<lambda>(m, t) k. rb_remove m t k) [Put 5 16, Put 3 32, Put 5 64, Get 3, Del 5, Get 5, Del 5]
      (rb_init one_node one_tree) =
    Inr ([Stored True, Stored True, Stored False, Found 32, Found 16, Found 0, Found 0], (m', t'))"
proof -
  obtain m t where i: "rb_init one_node one_tree = (m, t)" by fastforce
  have f: "fresh_puts 0 {0, nil one_tree} [Put 5 16, Put 3 32, Put 5 64, Get 3, Del 5, Get 5, Del 5] Map.empty"
    by (simp add: one_tree_def ran_map_upd)
  have r: "run_map 0 [Put (5 :: u32) 16, Put 3 32, Put 5 64, Get 3, Del 5, Get 5, Del 5] Map.empty =
    ([Stored True, Stored True, Stored False, Found 32, Found 16, Found 0, Found 0], [5 \<mapsto> 16, 3 \<mapsto> 32](5 := None))"
    by simp
  show ?thesis unfolding i using process_table_refines_map [OF i f r] by blast
qed

end
