(* ===== verification/Syscalls.thy ===== *)
theory Syscalls
  imports Prelude
begin

section \<open>System call dispatch (\<^verbatim>\<open>syscall/syscall.c\<close>)\<close>

text \<open>
  The table holds addresses, 0 where no system call is registered. What a call of an address
  does is a parameter: it returns a pair of words, or enters user mode and does not come back
  (\<open>None\<close>). The registrations of the components are collected in the order in which
  \<^verbatim>\<open>kernel_main\<close> runs their initialisation.
\<close>

definition NUM_SYSCALLS :: u32 where
  "NUM_SYSCALLS = 101"

record CpuContext =
  ctx_edi :: u32
  ctx_esi :: u32
  ctx_ebp :: u32
  ctx_esp :: u32
  ctx_ebx :: u32
  ctx_edx :: u32
  ctx_ecx :: u32
  ctx_eax :: u32
  ctx_eip :: u32
  ctx_cs :: u32
  ctx_eflags :: u32
  ctx_useresp :: u32

record SyscallResult =
  ret :: u32
  err :: u32

type_synonym 's syscall = "u32 \<Rightarrow> u32 \<Rightarrow> u32 \<Rightarrow> u32 \<Rightarrow> u32 \<Rightarrow> 's \<Rightarrow> (SyscallResult option \<times> 's) res"

definition table_at :: "u32 list \<Rightarrow> u32 \<Rightarrow> u32 res" where
  "table_at tbl num = (if unat num < length tbl then Inr (tbl ! unat num) else Inl OutOfBounds)"

definition table_set :: "u32 list \<Rightarrow> u32 \<Rightarrow> u32 \<Rightarrow> u32 list res" where
  "table_set tbl num v = (if unat num < length tbl then Inr (tbl[unat num := v]) else Inl OutOfBounds)"

definition register_syscall :: "u32 \<Rightarrow> u32 \<Rightarrow> u32 list \<Rightarrow> u32 list res" where
  "register_syscall num syscall syscall_table =
     kernel_assert (num < NUM_SYSCALLS)
       (bind_res (table_at syscall_table num) (\<lambda>old.
         kernel_assert (old = 0) (table_set syscall_table num syscall)))"

text \<open>The first component is whether the system call exists, \<open>None\<close> when control has left.\<close>

definition dispatch_syscall :: "(u32 \<Rightarrow> 's syscall) \<Rightarrow> u32 list \<Rightarrow> CpuContext \<Rightarrow> 's \<Rightarrow>
    (bool option \<times> CpuContext \<times> 's) res" where
  "dispatch_syscall call syscall_table ctx s =
     (if ctx_eax ctx \<ge> NUM_SYSCALLS then Inr (Some False, ctx, s)
      else bind_res (table_at syscall_table (ctx_eax ctx)) (\<lambda>syscall.
        if syscall = 0 then Inr (Some False, ctx, s)
        else bind_res (call syscall (ctx_ebx ctx) (ctx_ecx ctx) (ctx_edx ctx) (ctx_esi ctx) (ctx_edi ctx) s)
          (\<lambda>(res, s). case res of
             None \<Rightarrow> Inr (None, ctx, s)
           | Some res \<Rightarrow> Inr (Some True, ctx\<lparr>ctx_eax := ret res, ctx_ebx := err res\<rparr>, s))))"

definition delete_syscall :: "u32 \<Rightarrow> u32 list \<Rightarrow> (u32 \<times> u32 list) res" where
  "delete_syscall num syscall_table =
     kernel_assert (num < NUM_SYSCALLS)
       (bind_res (table_at syscall_table num) (\<lambda>syscall.
         kernel_assert (syscall \<noteq> 0)
           (bind_res (table_set syscall_table num 0) (\<lambda>tbl. Inr (syscall, tbl)))))"

definition syscall_debug :: SyscallResult where
  "syscall_debug = \<lparr>ret = 0, err = 0\<rparr>"

subsection \<open>The registrations\<close>

datatype entry_point = PrintSlice | PrintString | GetPhysMap | VirtMap | VirtUnmap | VirtTransfer
  | RegTmrCb | DebugCall | SendMessage | ReadMessage | RegisterProcess | DeleteProcess | JumpProcess

text \<open>\<open>addr\<close> is where the linker has put the functions.\<close>

definition terminal_syscalls :: "(entry_point \<Rightarrow> u32) \<Rightarrow> u32 list \<Rightarrow> u32 list res" where
  "terminal_syscalls addr t =
     bind_res (register_syscall 99 (addr PrintSlice) t) (\<lambda>t.
     register_syscall 100 (addr PrintString) t)"

definition mem_syscalls :: "(entry_point \<Rightarrow> u32) \<Rightarrow> u32 list \<Rightarrow> u32 list res" where
  "mem_syscalls addr t =
     bind_res (register_syscall 6 (addr GetPhysMap) t) (\<lambda>t.
     bind_res (register_syscall 7 (addr VirtMap) t) (\<lambda>t.
     bind_res (register_syscall 8 (addr VirtUnmap) t) (\<lambda>t.
     register_syscall 9 (addr VirtTransfer) t)))"

definition timer_syscalls :: "(entry_point \<Rightarrow> u32) \<Rightarrow> u32 list \<Rightarrow> u32 list res" where
  "timer_syscalls addr t = register_syscall 5 (addr RegTmrCb) t"

definition syscalls_init :: "(entry_point \<Rightarrow> u32) \<Rightarrow> u32 list \<Rightarrow> u32 list res" where
  "syscalls_init addr t = register_syscall 15 (addr DebugCall) t"

definition process_syscalls :: "(entry_point \<Rightarrow> u32) \<Rightarrow> u32 list \<Rightarrow> u32 list res" where
  "process_syscalls addr t =
     bind_res (register_syscall 0 (addr SendMessage) t) (\<lambda>t.
     bind_res (register_syscall 1 (addr ReadMessage) t) (\<lambda>t.
     bind_res (register_syscall 2 (addr RegisterProcess) t) (\<lambda>t.
     bind_res (register_syscall 3 (addr DeleteProcess) t) (\<lambda>t.
     register_syscall 4 (addr JumpProcess) t))))"

definition kernel_syscalls :: "(entry_point \<Rightarrow> u32) \<Rightarrow> u32 list \<Rightarrow> u32 list res" where
  "kernel_syscalls addr t =
     bind_res (terminal_syscalls addr t) (\<lambda>t.
     bind_res (mem_syscalls addr t) (\<lambda>t.
     bind_res (timer_syscalls addr t) (\<lambda>t.
     bind_res (syscalls_init addr t) (\<lambda>t.
     process_syscalls addr t))))"

subsection \<open>The table as a map\<close>

definition table_ok :: "u32 list \<Rightarrow> bool" where
  "table_ok t \<longleftrightarrow> length t = 101"

definition registered :: "u32 list \<Rightarrow> u32 \<Rightarrow> u32 option" where
  "registered t num = (if unat num < length t \<and> t ! unat num \<noteq> 0 then Some (t ! unat num) else None)"

lemma less_NUM: "num < NUM_SYSCALLS \<longleftrightarrow> unat num < 101" "num \<ge> NUM_SYSCALLS \<longleftrightarrow> \<not> unat num < 101"
  by (simp_all add: NUM_SYSCALLS_def word_less_nat_alt word_le_nat_alt not_less)

lemma register_ok:
  assumes "table_ok t"
  shows "register_syscall num f t =
    (if unat num < 101 \<and> registered t num = None then Inr (t[unat num := f]) else Inl Panic)"
  using assms
  by (auto simp: register_syscall_def less_NUM table_at_def table_set_def table_ok_def registered_def
      kernel_assert_def kernel_panic_def)

lemma registered_update:
  assumes "table_ok t" "unat num < 101" "f \<noteq> 0"
  shows "registered (t[unat num := f]) = (registered t)(num \<mapsto> f)" "table_ok (t[unat num := f])"
  using assms by (auto simp: registered_def table_ok_def nth_list_update fun_eq_iff word_unat_eq_iff)

lemma register_step:
  assumes "table_ok t" "unat num < 101" "f \<noteq> 0" "registered t num = None"
  shows "\<exists>t'. register_syscall num f t = Inr t' \<and> table_ok t' \<and> registered t' = (registered t)(num \<mapsto> f)"
  using assms register_ok [OF assms(1), of num f] registered_update [OF assms(1,2,3)] by simp

primrec register_all :: "(u32 \<times> u32) list \<Rightarrow> u32 list \<Rightarrow> u32 list res" where
  "register_all [] t = Inr t"
| "register_all (kv # kvs) t = bind_res (register_syscall (fst kv) (snd kv) t) (register_all kvs)"

lemma register_all_fun:
  "register_all [] = Inr"
  "register_all (kv # kvs) = (\<lambda>t. bind_res (register_syscall (fst kv) (snd kv) t) (register_all kvs))"
  by (simp_all add: fun_eq_iff)

lemma map_of_map_snd: "map_of (map (\<lambda>(k, e). (k, g e)) xs) k = map_option g (map_of xs k)"
  by (induction xs) auto

lemma register_all_ok:
  assumes "table_ok t" "distinct (map fst kvs)"
    and "\<forall>(k, f) \<in> set kvs. unat k < 101 \<and> f \<noteq> 0 \<and> registered t k = None"
  shows "\<exists>u. register_all kvs t = Inr u \<and> table_ok u \<and> registered u = registered t ++ map_of kvs"
  using assms
proof (induction kvs arbitrary: t)
  case (Cons kv kvs)
  obtain k f where kv: "kv = (k, f)" by (cases kv)
  obtain t' where t': "register_syscall k f t = Inr t'" "table_ok t'"
    "registered t' = (registered t)(k \<mapsto> f)"
    using register_step [OF Cons.prems(1), of k f] Cons.prems(3) kv by auto
  have "\<forall>(k', f') \<in> set kvs. unat k' < 101 \<and> f' \<noteq> 0 \<and> registered t' k' = None"
    using Cons.prems(2,3) kv t'(3) by (force simp: image_iff)
  then obtain u where u: "register_all kvs t' = Inr u" "table_ok u"
    "registered u = registered t' ++ map_of kvs"
    using Cons.IH [OF t'(2)] Cons.prems(2) by auto
  have "map_of kvs k = None" using Cons.prems(2) kv by (simp add: map_of_eq_None_iff)
  then have "registered t' ++ map_of kvs = registered t ++ map_of (kv # kvs)"
    using t'(3) kv by (auto simp: fun_eq_iff map_add_def split: option.splits)
  with u(3) have "registered u = registered t ++ map_of (kv # kvs)" by (rule trans)
  then show ?case using t'(1) u(1,2) kv by (simp del: map_of.simps)
qed simp

definition syscall_map :: "(u32 \<times> entry_point) list" where
  "syscall_map = [(99, PrintSlice), (100, PrintString), (6, GetPhysMap), (7, VirtMap), (8, VirtUnmap),
     (9, VirtTransfer), (5, RegTmrCb), (15, DebugCall), (0, SendMessage), (1, ReadMessage),
     (2, RegisterProcess), (3, DeleteProcess), (4, JumpProcess)]"

lemma kernel_syscalls_all:
  "kernel_syscalls addr t = register_all (map (\<lambda>(k, e). (k, addr e)) syscall_map) t"
proof -
  have one: "register_syscall k f t = bind_res (register_syscall k f t) Inr" for k f t
    by (simp add: bind_res_def split: sum.splits)
  show ?thesis
    unfolding kernel_syscalls_def terminal_syscalls_def mem_syscalls_def timer_syscalls_def
      syscalls_init_def process_syscalls_def bind_res_assoc syscall_map_def
    by (simp add: register_all_fun bind_res_assoc one [symmetric] del: register_all.simps)
qed

lemma kernel_syscalls_run:
  assumes "\<And>e. addr e \<noteq> 0"
  shows "\<exists>t. kernel_syscalls addr (replicate 101 0) = Inr t \<and> table_ok t \<and>
    registered t = map_of (map (\<lambda>(k, e). (k, addr e)) syscall_map)"
proof -
  have t0: "table_ok (replicate 101 0)" "registered (replicate 101 0) = Map.empty"
    by (auto simp: table_ok_def registered_def)
  have "distinct (map fst (map (\<lambda>(k, e). (k, addr e)) syscall_map))" by (simp add: syscall_map_def)
  moreover have "\<forall>(k, f) \<in> set (map (\<lambda>(k, e). (k, addr e)) syscall_map).
      unat k < 101 \<and> f \<noteq> 0 \<and> registered (replicate 101 0) k = None"
    using assms by (simp add: syscall_map_def t0(2))
  ultimately show ?thesis
    using register_all_ok [OF t0(1)] t0(2) unfolding kernel_syscalls_all by simp
qed

text \<open>C40: the registrations of all components succeed, none twice and none out of range.
  Afterwards a dispatch with a registered number in \<^verbatim>\<open>eax\<close> calls exactly that function with
  the five argument registers and stores its two results in \<^verbatim>\<open>eax\<close> and \<^verbatim>\<open>ebx\<close>,
  leaving all other registers alone; any other number is refused without any effect.\<close>

theorem syscall_dispatch:
  assumes "\<forall>e. addr e \<noteq> 0"
  shows "\<exists>t. kernel_syscalls addr (replicate 101 0) = Inr t \<and> (\<forall>ctx s.
    dispatch_syscall call t ctx s = (case map_of syscall_map (ctx_eax ctx) of
      None \<Rightarrow> Inr (Some False, ctx, s)
    | Some e \<Rightarrow> (case call (addr e) (ctx_ebx ctx) (ctx_ecx ctx) (ctx_edx ctx) (ctx_esi ctx) (ctx_edi ctx) s of
          Inl x \<Rightarrow> Inl x
        | Inr (None, s') \<Rightarrow> Inr (None, ctx, s')
        | Inr (Some r, s') \<Rightarrow> Inr (Some True, ctx\<lparr>ctx_eax := ret r, ctx_ebx := err r\<rparr>, s'))))"
proof -
  obtain t where t: "kernel_syscalls addr (replicate 101 0) = Inr t" "table_ok t"
    "registered t = map_of (map (\<lambda>(k, e). (k, addr e)) syscall_map)"
    using kernel_syscalls_run [of addr] assms by blast
  have reg: "registered t k = map_option addr (map_of syscall_map k)" for k
    unfolding t(3) by (rule map_of_map_snd)
  have "dispatch_syscall call t ctx s = (case registered t (ctx_eax ctx) of
      None \<Rightarrow> Inr (Some False, ctx, s)
    | Some f \<Rightarrow> (case call f (ctx_ebx ctx) (ctx_ecx ctx) (ctx_edx ctx) (ctx_esi ctx) (ctx_edi ctx) s of
          Inl x \<Rightarrow> Inl x
        | Inr (None, s') \<Rightarrow> Inr (None, ctx, s')
        | Inr (Some r, s') \<Rightarrow> Inr (Some True, ctx\<lparr>ctx_eax := ret r, ctx_ebx := err r\<rparr>, s')))" for ctx s
    using t(2) by (auto simp: dispatch_syscall_def less_NUM table_at_def table_ok_def registered_def
        bind_res_def split: sum.splits option.splits)
  then show ?thesis using t(1) unfolding reg by (auto simp: split: option.splits)
qed

theorem syscall_dispatch_witness:
  "\<exists>t. kernel_syscalls (\<lambda>_. 0x1000) (replicate 101 0) = Inr t"
  using syscall_dispatch [of "\<lambda>_. 0x1000" "\<lambda>_ _ _ _ _ _ s. Inr (None, s)"] by auto

end
