(* ===== verification/ProcState.thy ===== *)
theory ProcState
  imports Pool Mailbox RbTable Syscalls
begin

section \<open>Processes: state, contexts and scheduling (\<^verbatim>\<open>process/processes.c\<close>)\<close>

text \<open>
  A \<^verbatim>\<open>Process\<close> is an address; its fields are kept in maps: the first word
  (\<^verbatim>\<open>page_dir_paddr\<close>), the queue node at offset 4 (node memory of \<open>ProcQueue\<close>), the tree
  node at offset 8 (node memory of \<open>RbTree\<close>) and \<^verbatim>\<open>blocked\<close>. The process control block
  of the current address space is in virtual memory at \<open>PCB_ADDR\<close>. A function that enters user
  mode does not return: it stores the context that user mode starts with in \<open>entered\<close>.
\<close>

unbundle bit_operations_syntax

subsection \<open>State\<close>

definition MAILBOX_RESERVED :: u32 where "MAILBOX_RESERVED = 17"
definition STACK_SIZE :: u32 where "STACK_SIZE = 4 * PAGE_SIZE"
definition STACK_TOP :: u32 where "STACK_TOP = 0xbfc00000"
definition PROCESS_ORG :: u32 where "PROCESS_ORG = 0x420000"
definition MAILBOX_DATA_ADDR :: u32 where "MAILBOX_DATA_ADDR = PROCESS_ORG - PAGE_SIZE * MAILBOX_RESERVED"
definition PCB_ADDR :: u32 where "PCB_ADDR = MAILBOX_DATA_ADDR - PAGE_SIZE"
definition INIT_EFLAGS :: u32 where "INIT_EFLAGS = 0b1000000010"

text \<open>What user mode starts with: the registers that \<^verbatim>\<open>jump_usermode\<close> loads.\<close>

record UserContext =
  u_eip :: u32
  u_cs :: u32
  u_eflags :: u32
  u_esp :: u32
  u_ss :: u32
  u_edi :: u32
  u_esi :: u32
  u_ebp :: u32
  u_ebx :: u32
  u_ecx :: u32
  u_eax :: u32
  u_edx :: u32

record kstate =
  km :: kmem
  klog :: kernel_log
  process_pool :: ProcessPool
  page_dir_paddr :: words
  blocked :: "u32 \<Rightarrow> bool"
  qnodes :: qmem
  run_queue :: Queue
  rbnodes :: rbmem
  process_tree :: RbTree
  current :: u32
  current_ctx :: "CpuContext option"
  aid_counter :: u16
  fpu :: "u8 list"
  entered :: "UserContext option"

text \<open>\<^verbatim>\<open>FIELD_PARENT_PTR\<close> for the two nodes of a process.\<close>

definition queue_node :: "u32 \<Rightarrow> u32" where "queue_node p = p + 4"
definition rb_node :: "u32 \<Rightarrow> u32" where "rb_node p = p + 8"
definition queue_node_process :: "u32 \<Rightarrow> u32" where "queue_node_process node = node - 4"
definition rb_node_process :: "u32 \<Rightarrow> u32" where "rb_node_process node = node - 8"

definition GET_PID :: "kstate \<Rightarrow> u32 \<Rightarrow> u32" where
  "GET_PID st proc = key (rbnodes st (rb_node proc))"

definition get_process :: "kstate \<Rightarrow> u16 \<Rightarrow> u32 res" where
  "get_process st aid =
     bind_res (rb_find (rbnodes st) (process_tree st) (push_bit 16 (ucast aid))) (\<lambda>node.
       Inr (if node \<noteq> 0 then rb_node_process node else 0))"

definition run_queue_next :: "kstate \<Rightarrow> u32 \<times> kstate" where
  "run_queue_next st =
     (let (node, q) = queue_poll (qnodes st) (run_queue st);
          st = st\<lparr>run_queue := q\<rparr>
      in (if node \<noteq> 0 then queue_node_process node else 0, st))"

text \<open>The loop ends at the latest when the counter is back where it started.\<close>

primrec next_free_aid_loop :: "nat \<Rightarrow> kstate \<Rightarrow> u16 \<Rightarrow> (u32 \<times> kstate) res" where
  "next_free_aid_loop 0 st aid = Inl Diverges"
| "next_free_aid_loop (Suc n) st aid =
     (let pid = push_bit 16 (ucast aid)
      in bind_res (rb_find (rbnodes st) (process_tree st) pid) (\<lambda>node.
         if node = 0 then Inr (pid, st\<lparr>aid_counter := aid + 1\<rparr>)
         else let aid = aid + 1
              in if aid \<noteq> aid_counter st then next_free_aid_loop n st aid else kernel_panic))"

definition next_free_aid :: "kstate \<Rightarrow> (u32 \<times> kstate) res" where
  "next_free_aid st = next_free_aid_loop (2 ^ 16) st (aid_counter st)"

subsection \<open>The process control block\<close>

text \<open>Offsets: eight registers, flags, instruction pointer, break, page directory, 512 bytes of
  floating point state (aligned to 16), the mailbox header and the heap.\<close>

definition pcb_esp :: u32 where "pcb_esp = PCB_ADDR + 12"
definition pcb_eax :: u32 where "pcb_eax = PCB_ADDR + 28"
definition pcb_eflags :: u32 where "pcb_eflags = PCB_ADDR + 32"
definition pcb_eip :: u32 where "pcb_eip = PCB_ADDR + 36"
definition pcb_prog_brk :: u32 where "pcb_prog_brk = PCB_ADDR + 40"
definition pcb_page_dir_paddr :: u32 where "pcb_page_dir_paddr = PCB_ADDR + 44"
definition pcb_fpu_regs :: u32 where "pcb_fpu_regs = PCB_ADDR + 48"
definition pcb_mailbox :: u32 where "pcb_mailbox = PCB_ADDR + 560"
definition pcb_heap :: u32 where "pcb_heap = PCB_ADDR + 588"

definition vread16 :: "kmem \<Rightarrow> u32 \<Rightarrow> u16 res" where
  "vread16 s v = bind_res (vread8 s v) (\<lambda>a. bind_res (vread8 s (v + 1)) (\<lambda>b.
     Inr (ucast a OR push_bit 8 (ucast b))))"

definition vwrite16 :: "kmem \<Rightarrow> u32 \<Rightarrow> u16 \<Rightarrow> kmem res" where
  "vwrite16 s v x = copy_out s v [ucast x, ucast (drop_bit 8 x)]"

text \<open>The mailbox header of the current process control block. The operations on it take the
  record and give it back; it is written back when they return.\<close>

definition load_mailbox :: "kmem \<Rightarrow> MailboxHeader res" where
  "load_mailbox s =
     bind_res (vread32 s pcb_mailbox) (\<lambda>hd.
     bind_res (vread32 s (pcb_mailbox + 4)) (\<lambda>tl.
     bind_res (vread16 s (pcb_mailbox + 8)) (\<lambda>unread.
     bind_res (vread16 s (pcb_mailbox + 10)) (\<lambda>used.
     bind_res (vread16 s (pcb_mailbox + 12)) (\<lambda>cap.
     bind_res (vread32 s (pcb_mailbox + 16)) (\<lambda>first.
     bind_res (vread32 s (pcb_mailbox + 20)) (\<lambda>lst.
     bind_res (vread32 s (pcb_mailbox + 24)) (\<lambda>copy.
       Inr \<lparr>mb_head = hd, mb_tail = tl, unread_size = unread, used_size = used, capacity = cap,
            first_page = first, last_page = lst, copy_page = copy\<rparr>))))))))"

definition store_mailbox :: "kmem \<Rightarrow> MailboxHeader \<Rightarrow> kmem res" where
  "store_mailbox s h =
     bind_res (vwrite32 s pcb_mailbox (mb_head h)) (\<lambda>s.
     bind_res (vwrite32 s (pcb_mailbox + 4) (mb_tail h)) (\<lambda>s.
     bind_res (vwrite16 s (pcb_mailbox + 8) (unread_size h)) (\<lambda>s.
     bind_res (vwrite16 s (pcb_mailbox + 10) (used_size h)) (\<lambda>s.
     bind_res (vwrite16 s (pcb_mailbox + 12) (capacity h)) (\<lambda>s.
     bind_res (vwrite32 s (pcb_mailbox + 16) (first_page h)) (\<lambda>s.
     bind_res (vwrite32 s (pcb_mailbox + 20) (last_page h)) (\<lambda>s.
     vwrite32 s (pcb_mailbox + 24) (copy_page h))))))))"

text \<open>\<^verbatim>\<open>fxsave\<close> and \<^verbatim>\<open>fxrstor\<close> move the 512 bytes of the floating point unit.\<close>

definition fpu_save :: "kstate \<Rightarrow> kstate res" where
  "fpu_save st = bind_res (copy_out (km st) pcb_fpu_regs (fpu st)) (\<lambda>s. Inr (st\<lparr>km := s\<rparr>))"

definition fpu_restore :: "kstate \<Rightarrow> kstate res" where
  "fpu_restore st = bind_res (copy_in 512 (km st) pcb_fpu_regs) (\<lambda>bs. Inr (st\<lparr>fpu := bs\<rparr>))"

subsection \<open>Entering user mode\<close>

definition jump_usermode :: "kstate \<Rightarrow> u32 \<Rightarrow> u32 \<Rightarrow> u32 \<Rightarrow> kstate res" where
  "jump_usermode st f stack pcb =
     (let s = km st in
     bind_res (vread32 s (pcb + 0x20)) (\<lambda>flags.
     bind_res (vread32 s (pcb + 0x00)) (\<lambda>di.
     bind_res (vread32 s (pcb + 0x04)) (\<lambda>si.
     bind_res (vread32 s (pcb + 0x08)) (\<lambda>bp.
     bind_res (vread32 s (pcb + 0x10)) (\<lambda>bx.
     bind_res (vread32 s (pcb + 0x18)) (\<lambda>cx.
     bind_res (vread32 s (pcb + 0x1C)) (\<lambda>ax.
     bind_res (vread32 s (pcb + 0x14)) (\<lambda>dx.
       Inr (st\<lparr>entered := Some \<lparr>u_eip = f, u_cs = 0x1b, u_eflags = flags OR push_bit 9 1, u_esp = stack,
         u_ss = 0x23, u_edi = di, u_esi = si, u_ebp = bp, u_ebx = bx, u_ecx = cx, u_eax = ax, u_edx = dx\<rparr>\<rparr>))))))))))"

text \<open>The last steps of \<^verbatim>\<open>schedule\<close> and \<^verbatim>\<open>syscall_jump_process\<close>.\<close>

definition enter_current :: "kstate \<Rightarrow> kstate res" where
  "enter_current st =
     bind_res (fpu_restore st) (\<lambda>st.
     bind_res (vread32 (km st) pcb_eip) (\<lambda>ip.
     bind_res (vread32 (km st) pcb_esp) (\<lambda>sp.
     jump_usermode st ip sp PCB_ADDR)))"

definition schedule :: "kstate \<Rightarrow> kstate res" where
  "schedule st =
     (let (p, st) = run_queue_next st;
          st = st\<lparr>current := p\<rparr>
      in kernel_assert (current st \<noteq> 0)
         (let st = st\<lparr>km := set_page_dir (km st) (page_dir_paddr st (current st))\<rparr>
          in bind_res (vread32 (km st) pcb_page_dir_paddr) (\<lambda>dir.
             kernel_assert (dir = page_dir_paddr st (current st)) (enter_current st))))"

subsection \<open>Saving contexts\<close>

definition save_context_int :: "kstate \<Rightarrow> InterruptRegisters \<Rightarrow> kstate res" where
  "save_context_int st regs =
     bind_res (copy_out (km st) PCB_ADDR (concat (List.map le32
       [edi regs, esi regs, ebp regs, InterruptRegisters.esp regs, ebx regs, edx regs, ecx regs, eax regs]))) (\<lambda>s.
     bind_res (vwrite32 s pcb_eflags (eflags regs)) (\<lambda>s.
     bind_res (vwrite32 s pcb_eip (eip regs)) (\<lambda>s.
     bind_res (vwrite32 s pcb_esp (useresp regs)) (\<lambda>s.
     fpu_save (st\<lparr>km := s\<rparr>)))))"

definition save_context_syscall :: "kstate \<Rightarrow> CpuContext \<Rightarrow> kstate res" where
  "save_context_syscall st ctx =
     bind_res (copy_out (km st) PCB_ADDR (concat (List.map le32
       [ctx_edi ctx, ctx_esi ctx, ctx_ebp ctx, ctx_esp ctx, ctx_ebx ctx, ctx_edx ctx, ctx_ecx ctx, ctx_eax ctx]))) (\<lambda>s.
     bind_res (vwrite32 s pcb_eflags (ctx_eflags ctx)) (\<lambda>s.
     bind_res (vwrite32 s pcb_eip (ctx_eip ctx)) (\<lambda>s.
     bind_res (vwrite32 s pcb_esp (ctx_useresp ctx)) (\<lambda>s.
     fpu_save (st\<lparr>km := s\<rparr>)))))"

definition is_user_mode :: "u32 \<Rightarrow> bool" where
  "is_user_mode code_segment \<longleftrightarrow> code_segment AND 3 = 3"

text \<open>The scheduler callback of the timer; the flag says whether it returned.\<close>

definition preempt :: "InterruptRegisters \<Rightarrow> kstate \<times> io \<Rightarrow> ((kstate \<times> io) \<times> bool) res" where
  "preempt regs = (\<lambda>(st, s).
     if is_user_mode (cs regs) then
       bind_res (vread32 (km st) pcb_page_dir_paddr) (\<lambda>dir.
       kernel_assert (dir = page_dir_paddr st (current st))
        (bind_res (save_context_int st regs) (\<lambda>st.
         let (qn, q) = queue_add (qnodes st) (run_queue st) (queue_node (current st));
             st = st\<lparr>qnodes := qn, run_queue := q\<rparr>;
             s = pic_eoi (ucast (int_no regs - 32)) s
         in bind_res (schedule st) (\<lambda>st. Inr ((st, s), False)))))
     else Inr ((st, pic_eoi (ucast (int_no regs - 32)) s), True))"

text \<open>\<open>None\<close> when a system call enters user mode by itself.\<close>

definition syscall_handler :: "(u32 \<Rightarrow> kstate syscall) \<Rightarrow> u32 list \<Rightarrow> CpuContext \<Rightarrow> kstate \<Rightarrow>
    (CpuContext option \<times> kstate) res" where
  "syscall_handler call tbl ctx st =
     bind_res (dispatch_syscall call tbl ctx (st\<lparr>current_ctx := Some ctx\<rparr>)) (\<lambda>(found, ctx, st).
       case found of
         None \<Rightarrow> Inr (None, st)
       | Some known \<Rightarrow>
           (let st = (if known then st else st\<lparr>klog := klog st @ [(DEBUG, ''Unknown syscall :('' @ [CHR 10], [])]\<rparr>)
            in Inr (Some ctx, st\<lparr>current_ctx := None\<rparr>)))"

end
