(* ===== verification/VirtMem.thy ===== *)
theory VirtMem
  imports ProcState
begin

section \<open>Memory system calls and initialisation (\<^verbatim>\<open>memory/mem.c\<close>, last part)\<close>

text \<open>
  The system calls that map, unmap and move pages between address spaces, and
  \<^verbatim>\<open>mem_init\<close>. The arrays of physical addresses are in user memory and are accessed
  where the code accesses them, in the address space that is current then. The scratch
  buffer that \<^verbatim>\<open>syscall_virt_transfer\<close> keeps its entries in is a list.
\<close>

unbundle bit_operations_syntax

definition GET_PHYS_MAP_INVALID_PTR :: u32 where "GET_PHYS_MAP_INVALID_PTR = 1"
definition VIRT_MAP_WRITABLE :: u16 where "VIRT_MAP_WRITABLE = 1"
definition VIRT_MAP_PID_NOT_FOUND :: u32 where "VIRT_MAP_PID_NOT_FOUND = 1"
definition VIRT_MAP_ALREADY_MAPPED :: u32 where "VIRT_MAP_ALREADY_MAPPED = 2"
definition VIRT_MAP_INVALID_PTR :: u32 where "VIRT_MAP_INVALID_PTR = 3"
definition VIRT_MAP_INVALID_PADDR :: u32 where "VIRT_MAP_INVALID_PADDR = 4"
definition VIRT_UNMAP_PID_NOT_FOUND :: u32 where "VIRT_UNMAP_PID_NOT_FOUND = 1"
definition VIRT_UNMAP_NOT_MAPPED :: u32 where "VIRT_UNMAP_NOT_MAPPED = 2"
definition VIRT_UNMAP_INVALID_PTR :: u32 where "VIRT_UNMAP_INVALID_PTR = 3"
definition VIRT_TRANSFER_PID_INVALID :: u32 where "VIRT_TRANSFER_PID_INVALID = 1"
definition VIRT_TRANSFER_VADDR_INVALID :: u32 where "VIRT_TRANSFER_VADDR_INVALID = 2"
definition VIRT_TRANSFER_TOO_LARGE :: u32 where "VIRT_TRANSFER_TOO_LARGE = 3"

definition SYSCALL_RETURN :: "u32 \<Rightarrow> u32 \<Rightarrow> kstate \<Rightarrow> (SyscallResult option \<times> kstate) res" where
  "SYSCALL_RETURN r e st = Inr (Some \<lparr>ret = r, err = e\<rparr>, st)"

definition switch_to :: "kstate \<Rightarrow> u32 \<Rightarrow> kstate" where
  "switch_to st dir = st\<lparr>km := set_page_dir (km st) dir\<rparr>"

definition page_of :: "u32 \<Rightarrow> u32 \<Rightarrow> u32" where
  "page_of vaddr i = vaddr + i * PAGE_SIZE"

subsection \<open>The memory map\<close>

definition syscall_get_phys_map :: "u32 \<Rightarrow> kstate \<Rightarrow> (SyscallResult option \<times> kstate) res" where
  "syscall_get_phys_map n_ptr st =
     bind_res (validate_user_writable (km st) n_ptr) (\<lambda>n.
     if n = 0 then SYSCALL_RETURN 0 GET_PHYS_MAP_INVALID_PTR st
     else bind_res (vwrite32 (km st) n (word_of_nat (length (user_physical_map (km st))))) (\<lambda>s.
       SYSCALL_RETURN (user_physical_map_ptr s) 0 (st\<lparr>km := s\<rparr>)))"

subsection \<open>Mapping\<close>

definition get_pte_flags :: "u16 \<Rightarrow> u16" where
  "get_pte_flags flags =
     (let pte_flags = ucast PTE_USER_MODE
      in if flags AND VIRT_MAP_WRITABLE \<noteq> 0 then pte_flags OR ucast PTE_WRITABLE else pte_flags)"

text \<open>The first loop: an error code, or \<open>None\<close> when all pages are free and all frames valid.\<close>

primrec virt_map_check :: "nat \<Rightarrow> kmem \<Rightarrow> u32 \<Rightarrow> u32 \<Rightarrow> u32 \<Rightarrow> u32 option res" where
  "virt_map_check 0 s vaddr paddr i = Inr None"
| "virt_map_check (Suc k) s vaddr paddr i =
     bind_res (get_entry s (page_of vaddr i)) (\<lambda>e.
     if entry_present e then Inr (Some VIRT_MAP_ALREADY_MAPPED)
     else bind_res (vread32 s (paddr + 4 * i)) (\<lambda>p.
       if \<not> user_frame_valid s p then Inr (Some VIRT_MAP_INVALID_PADDR)
       else virt_map_check k s vaddr paddr (i + 1)))"

primrec virt_map_loop :: "nat \<Rightarrow> kmem \<Rightarrow> u32 \<Rightarrow> u32 \<Rightarrow> u16 \<Rightarrow> u32 \<Rightarrow> kmem res" where
  "virt_map_loop 0 s vaddr paddr pte_flags i = Inr s"
| "virt_map_loop (Suc k) s vaddr paddr pte_flags i =
     bind_res (vread32 s (paddr + 4 * i)) (\<lambda>p.
     bind_res (map_page s (page_of vaddr i) p pte_flags) (\<lambda>(failed, s).
     kernel_assert (\<not> failed) (virt_map_loop k s vaddr paddr pte_flags (i + 1))))"

definition syscall_virt_map :: "u32 \<Rightarrow> u32 \<Rightarrow> u32 \<Rightarrow> u32 \<Rightarrow> u32 \<Rightarrow> kstate \<Rightarrow> (SyscallResult option \<times> kstate) res" where
  "syscall_virt_map aid vaddr paddr_ptr n flags st =
     bind_res (if drop_bit 16 aid = 0 then get_process st (ucast aid) else Inr 0) (\<lambda>process.
     if process = 0 then SYSCALL_RETURN 0 VIRT_MAP_PID_NOT_FOUND st
     else bind_res (validate_user_readable (km st) paddr_ptr) (\<lambda>paddr.
     if paddr = 0 then SYSCALL_RETURN 0 VIRT_MAP_INVALID_PTR st
     else
       (let pte_flags = get_pte_flags (ucast flags);
            old_pd_paddr = get_page_dir (km st);
            st = switch_to st (page_dir_paddr st process)
        in bind_res (virt_map_check (unat n) (km st) vaddr paddr 0) (\<lambda>error. case error of
             Some e \<Rightarrow> SYSCALL_RETURN 0 e (switch_to st old_pd_paddr)
           | None \<Rightarrow>
               bind_res (virt_map_loop (unat n) (km st) vaddr paddr pte_flags 0) (\<lambda>s.
               SYSCALL_RETURN 0 0 (switch_to (st\<lparr>km := s\<rparr>) old_pd_paddr))))))"

subsection \<open>Unmapping\<close>

text \<open>Whether all pages are mapped.\<close>

primrec pages_mapped :: "nat \<Rightarrow> kmem \<Rightarrow> u32 \<Rightarrow> u32 \<Rightarrow> bool res" where
  "pages_mapped 0 s vaddr i = Inr True"
| "pages_mapped (Suc k) s vaddr i =
     bind_res (get_entry s (page_of vaddr i)) (\<lambda>e.
     if \<not> entry_present e then Inr False else pages_mapped k s vaddr (i + 1))"

primrec virt_unmap_loop :: "nat \<Rightarrow> kmem \<Rightarrow> u32 \<Rightarrow> u32 \<Rightarrow> u32 \<Rightarrow> kmem res" where
  "virt_unmap_loop 0 s vaddr paddr i = Inr s"
| "virt_unmap_loop (Suc k) s vaddr paddr i =
     bind_res (unmap_page s (page_of vaddr i)) (\<lambda>(failed, e, s).
     kernel_assert (\<not> failed)
     (bind_res (vwrite32 s (paddr + 4 * i) (get_paddr e)) (\<lambda>s.
      virt_unmap_loop k s vaddr paddr (i + 1))))"

definition syscall_virt_unmap :: "u32 \<Rightarrow> u32 \<Rightarrow> u32 \<Rightarrow> u32 \<Rightarrow> kstate \<Rightarrow> (SyscallResult option \<times> kstate) res" where
  "syscall_virt_unmap aid vaddr paddr_ptr n st =
     bind_res (if drop_bit 16 aid = 0 then get_process st (ucast aid) else Inr 0) (\<lambda>process.
     if process = 0 then SYSCALL_RETURN 0 VIRT_UNMAP_PID_NOT_FOUND st
     else bind_res (validate_user_writable (km st) paddr_ptr) (\<lambda>paddr.
     if paddr = 0 then SYSCALL_RETURN 0 VIRT_UNMAP_INVALID_PTR st
     else
       (let old_pd_paddr = get_page_dir (km st);
            st = switch_to st (page_dir_paddr st process)
        in bind_res (pages_mapped (unat n) (km st) vaddr 0) (\<lambda>all_mapped.
           if \<not> all_mapped then SYSCALL_RETURN 0 VIRT_UNMAP_NOT_MAPPED (switch_to st old_pd_paddr)
           else
             bind_res (virt_unmap_loop (unat n) (km st) vaddr paddr 0) (\<lambda>s.
             SYSCALL_RETURN 0 0 (switch_to (st\<lparr>km := s\<rparr>) old_pd_paddr))))))"

subsection \<open>Moving pages\<close>

definition ENTRIES_LEN :: u32 where
  "ENTRIES_LEN = 8192 div 4"

primrec take_pages :: "nat \<Rightarrow> kmem \<Rightarrow> u32 \<Rightarrow> u32 \<Rightarrow> (u32 list \<times> kmem) res" where
  "take_pages 0 s vaddr i = Inr ([], s)"
| "take_pages (Suc k) s vaddr i =
     bind_res (unmap_page s (page_of vaddr i)) (\<lambda>(failed, e, s).
     kernel_assert (\<not> failed)
     (bind_res (take_pages k s vaddr (i + 1)) (\<lambda>(es, s). Inr (e # es, s))))"

primrec pages_unmapped :: "nat \<Rightarrow> kmem \<Rightarrow> u32 \<Rightarrow> u32 \<Rightarrow> bool res" where
  "pages_unmapped 0 s vaddr i = Inr True"
| "pages_unmapped (Suc k) s vaddr i =
     bind_res (get_entry s (page_of vaddr i)) (\<lambda>e.
     if entry_present e then Inr False else pages_unmapped k s vaddr (i + 1))"

primrec put_pages :: "u32 list \<Rightarrow> kmem \<Rightarrow> u32 \<Rightarrow> u32 \<Rightarrow> kmem res" where
  "put_pages [] s vaddr i = Inr s"
| "put_pages (e # es) s vaddr i =
     bind_res (map_page s (page_of vaddr i) (get_paddr e) (get_flags e)) (\<lambda>(failed, s).
     kernel_assert (\<not> failed) (put_pages es s vaddr (i + 1)))"

definition syscall_virt_transfer :: "u32 \<Rightarrow> u32 \<Rightarrow> u32 \<Rightarrow> u32 \<Rightarrow> kstate \<Rightarrow> (SyscallResult option \<times> kstate) res" where
  "syscall_virt_transfer vaddr_src vaddr_dst aid_pair n st =
     (if n > ENTRIES_LEN then SYSCALL_RETURN 0 VIRT_TRANSFER_TOO_LARGE st
      else
        (let aid_src = aid_pair AND 0xFFFF;
             aid_dst = drop_bit 16 aid_pair AND 0xFFFF
         in bind_res (get_process st (ucast aid_src)) (\<lambda>proc_src.
            bind_res (get_process st (ucast aid_dst)) (\<lambda>proc_dst.
            if proc_src = 0 \<or> proc_dst = 0 then SYSCALL_RETURN 0 VIRT_TRANSFER_PID_INVALID st
            else
              (let old_pd_paddr = get_page_dir (km st);
                   st = switch_to st (page_dir_paddr st proc_src)
               in bind_res (pages_mapped (unat n) (km st) vaddr_src 0) (\<lambda>all_mapped.
                  if \<not> all_mapped then SYSCALL_RETURN 0 VIRT_TRANSFER_VADDR_INVALID (switch_to st old_pd_paddr)
                  else
                    bind_res (take_pages (unat n) (km st) vaddr_src 0) (\<lambda>(entries, s).
                    let st = switch_to (st\<lparr>km := s\<rparr>) (page_dir_paddr st proc_dst)
                    in bind_res (pages_unmapped (unat n) (km st) vaddr_dst 0) (\<lambda>all_free.
                       let error = (if all_free then 0 else VIRT_TRANSFER_VADDR_INVALID);
                           vaddr_final = (if error = 0 then vaddr_dst else vaddr_src);
                           st = (if error = 0 then st else switch_to st (page_dir_paddr st proc_src))
                       in bind_res (put_pages entries (km st) vaddr_final 0) (\<lambda>s.
                          SYSCALL_RETURN 0 error (switch_to (st\<lparr>km := s\<rparr>) old_pd_paddr)))))))))) "

subsection \<open>Initialisation\<close>

definition phys_map_bytes :: "PhysicalMap list \<Rightarrow> u8 list" where
  "phys_map_bytes ms = concat (List.map (\<lambda>m. le32 (pm_addr m) @ le32 (pm_len m)) ms)"

text \<open>The registrations of system calls at the end are \<open>Syscalls.mem_syscalls\<close>.\<close>

definition mem_init :: "layout \<Rightarrow> MultibootInfo \<Rightarrow> kmem \<Rightarrow> kmem res" where
  "mem_init l mb s =
     (let s = s\<lparr>current_page_dir := cr3 s\<rparr>;
          s = s\<lparr>kernel_page_dir := get_page_dir s\<rparr>
      in bind_res (init_free_list_page l s) (\<lambda>s.
         bind_res (init_frames l mb s) (\<lambda>s.
         bind_res (reinit_paging l s) (\<lambda>s.
         bind_res (init_heap s) (\<lambda>s.
         bind_res (mem_alloc s (user_ro_heap s) 1 PAGE_USER_MODE) (\<lambda>(p, h, s).
         let s = s\<lparr>user_ro_heap := h, user_physical_map_ptr := p\<rparr>
         in copy_out s p (phys_map_bytes (user_physical_map s))))))))"

end
