(* ===== verification/Sun.thy ===== *)
theory Sun
  imports Libp
begin

section \<open>The executables of the sun file (\<^verbatim>\<open>sun/sun.c\<close>)\<close>

text \<open>
  The file is part of the kernel image, at the address \<open>sun_file\<close>: three characters, the
  number of table entries, the entries (40 bytes each) and the sections of the executables.
  Everything is read from virtual memory.
\<close>

unbundle bit_operations_syntax

definition MAGIC_LEN :: u32 where
  "MAGIC_LEN = 3"

text \<open>Offsets in the file and in a table entry.\<close>

definition sun_n :: "u32 \<Rightarrow> u32" where
  "sun_n sun_file = sun_file + 3"

definition sun_entry :: "u32 \<Rightarrow> u8 \<Rightarrow> u32" where
  "sun_entry sun_file i = sun_file + 4 + ucast i * 40"

definition te_offset :: "u32 \<Rightarrow> u32" where "te_offset e = e + 16"
definition te_entry_point :: "u32 \<Rightarrow> u32" where "te_entry_point e = e + 20"
definition te_text_size :: "u32 \<Rightarrow> u32" where "te_text_size e = e + 24"
definition te_rodata_size :: "u32 \<Rightarrow> u32" where "te_rodata_size e = e + 28"
definition te_data_size :: "u32 \<Rightarrow> u32" where "te_data_size e = e + 32"
definition te_bss_size :: "u32 \<Rightarrow> u32" where "te_bss_size e = e + 36"

text \<open>\<open>MAGIC\<close> is where the kernel keeps the string that the file must start with.\<close>

definition sun_init :: "kmem \<Rightarrow> u32 \<Rightarrow> u32 \<Rightarrow> unit res" where
  "sun_init s sun_file MAGIC =
     bind_res (pmemeql s sun_file MAGIC MAGIC_LEN) (\<lambda>eq. kernel_assert eq (Inr ()))"

text \<open>The number of entries fits in a byte, so that the counter cannot pass it.\<close>

primrec sun_lookup_loop :: "nat \<Rightarrow> kmem \<Rightarrow> u32 \<Rightarrow> u32 \<Rightarrow> u8 \<Rightarrow> u32 res" where
  "sun_lookup_loop 0 s sun_file name i = Inl Diverges"
| "sun_lookup_loop (Suc k) s sun_file name i =
     bind_res (vread8 s (sun_n sun_file)) (\<lambda>n.
       if i < n then
         bind_res (pstreql s name (sun_entry sun_file i)) (\<lambda>eq.
           if eq then Inr (sun_entry sun_file i) else sun_lookup_loop k s sun_file name (i + 1))
       else Inr 0)"

definition sun_exe_lookup :: "kmem \<Rightarrow> u32 \<Rightarrow> u32 \<Rightarrow> u32 res" where
  "sun_exe_lookup s sun_file name = sun_lookup_loop 256 s sun_file name 0"

definition sun_load_text :: "kmem \<Rightarrow> u32 \<Rightarrow> u32 \<Rightarrow> u32 \<Rightarrow> kmem res" where
  "sun_load_text s sun_file e buffer =
     bind_res (vread32 s (te_offset e)) (\<lambda>off.
     bind_res (vread32 s (te_text_size e)) (\<lambda>text_size.
       pmemcpy s buffer (sun_file + off) text_size))"

definition sun_load_rodata :: "kmem \<Rightarrow> u32 \<Rightarrow> u32 \<Rightarrow> u32 \<Rightarrow> kmem res" where
  "sun_load_rodata s sun_file e buffer =
     bind_res (vread32 s (te_offset e)) (\<lambda>off.
     bind_res (vread32 s (te_text_size e)) (\<lambda>text_size.
     bind_res (vread32 s (te_rodata_size e)) (\<lambda>rodata_size.
       pmemcpy s buffer (sun_file + (off + text_size)) rodata_size)))"

definition sun_load_data :: "kmem \<Rightarrow> u32 \<Rightarrow> u32 \<Rightarrow> u32 \<Rightarrow> kmem res" where
  "sun_load_data s sun_file e buffer =
     bind_res (vread32 s (te_offset e)) (\<lambda>off.
     bind_res (vread32 s (te_text_size e)) (\<lambda>text_size.
     bind_res (vread32 s (te_rodata_size e)) (\<lambda>rodata_size.
     bind_res (vread32 s (te_data_size e)) (\<lambda>data_size.
       pmemcpy s buffer (sun_file + (off + text_size + rodata_size)) data_size))))"

subsection \<open>The lookup\<close>

text \<open>The names of the table and the name that is looked up, as strings in memory.\<close>

definition sun_table :: "kmem \<Rightarrow> u32 \<Rightarrow> u8 list list \<Rightarrow> bool" where
  "sun_table s sun_file names \<longleftrightarrow> length names < 256 \<and> vread8 s (sun_n sun_file) = Inr (word_of_nat (length names)) \<and>
     (\<forall>i < length names. cstr s (sun_entry sun_file (word_of_nat i)) (names ! i))"

lemma sun_lookup_loop_ok:
  assumes t: "sun_table s sun_file names" and n: "cstr s name xs" "length xs < 2 ^ 32"
  shows "i \<le> length names \<Longrightarrow> length names < i + k \<Longrightarrow>
    sun_lookup_loop k s sun_file name (word_of_nat i) =
      Inr (case find (\<lambda>j. names ! j = xs) [i..<length names] of
             None \<Rightarrow> 0 | Some j \<Rightarrow> sun_entry sun_file (word_of_nat j))"
proof (induction k arbitrary: i)
  case (Suc k)
  have len: "length names < 256" and rd: "vread8 s (sun_n sun_file) = Inr (word_of_nat (length names))"
    using t by (simp_all add: sun_table_def)
  have u: "unat (word_of_nat j :: u8) = j" if "j < 256" for j
    using that by (simp add: unat_of_nat take_bit_nat_eq_self)
  have lt: "(word_of_nat i :: u8) < word_of_nat (length names) \<longleftrightarrow> i < length names"
    using u [of i] u [OF len] Suc.prems(1) len by (simp add: word_less_nat_alt)
  show ?case
  proof (cases "i < length names")
    case True
    have "cstr s (sun_entry sun_file (word_of_nat i)) (names ! i)" using t True by (simp add: sun_table_def)
    from pstreql_loop_ok [OF n(1) this, of "2 ^ 32"] n(2)
    have eq: "pstreql s name (sun_entry sun_file (word_of_nat i)) = Inr (xs = names ! i)"
      by (simp add: pstreql_def)
    have up: "[i..<length names] = i # [Suc i..<length names]" using True by (rule upt_conv_Cons)
    show ?thesis
    proof (cases "names ! i = xs")
      case False
      have "word_of_nat i + 1 = (word_of_nat (Suc i) :: u8)" by (simp add: add.commute)
      with Suc.IH [of "Suc i"] True False Suc.prems show ?thesis
        unfolding sun_lookup_loop.simps up using eq rd lt by (auto simp: add.commute)
    qed (unfold sun_lookup_loop.simps up, use eq rd lt True in auto)
  qed (use rd lt Suc.prems in auto)
qed simp

end
