(* ===== verification/Processes.thy ===== *)
theory Processes
  imports VirtMem Sun
begin

section \<open>Processes: creation, messages and their system calls\<close>

unbundle bit_operations_syntax

text \<open>
  The rest of \<^verbatim>\<open>process/processes.c\<close>. A system call takes its arguments from the
  argument registers; it returns two words, or \<open>None\<close> when it enters user mode itself.
\<close>

subsection \<open>Starting an executable\<close>

definition RO_FLAGS :: u16 where "RO_FLAGS = PAGE_USER_MODE"
definition RW_FLAGS :: u16 where "RW_FLAGS = PAGE_WRITABLE OR PAGE_USER_MODE"

text \<open>The sections of an executable: text, read-only data, data, zeroed data, heap.\<close>

definition section_start :: "u32 \<Rightarrow> u32 \<Rightarrow> u32" where
  "section_start start sz = align_next_page (start + sz - 1)"

definition section_pages :: "u32 \<Rightarrow> u32 \<Rightarrow> u32" where
  "section_pages start stop = ptr_diff_div stop start 4096"

definition alloc_section :: "kmem \<Rightarrow> u32 \<Rightarrow> u16 \<Rightarrow> u32 \<Rightarrow> u32 \<Rightarrow> kmem res" where
  "alloc_section s sz flags start stop =
     (if sz \<noteq> 0 then alloc_pages s start flags (section_pages start stop) else Inr s)"

text \<open>\<^verbatim>\<open>heap_init\<close> on the heap in the process control block: the record is written there.\<close>

definition pcb_heap_init :: "kmem \<Rightarrow> u32 \<Rightarrow> u32 \<Rightarrow> u16 \<Rightarrow> kmem res" where
  "pcb_heap_init s start pages flags =
     bind_res (heap_init s start pages flags) (\<lambda>(h, s).
     bind_res (vwrite32 s pcb_heap start) (\<lambda>s.
     bind_res (vwrite32 s (pcb_heap + 4) (heap_start h)) (\<lambda>s.
     vwrite32 s (pcb_heap + 8) (page_count h))))"

text \<open>The address space of the new process, once its directory is current; \<open>e\<close> is the table
  entry of the executable.\<close>

definition exec_image :: "kmem \<Rightarrow> u32 \<Rightarrow> u32 \<Rightarrow> u32 \<Rightarrow> u32 \<Rightarrow> u32 \<Rightarrow> u32 \<Rightarrow> u32 \<Rightarrow> u32 \<Rightarrow> kmem res" where
  "exec_image s sun_file e page_dir arg text_size rodata_size dsize bss_size =
     (let text_start = PROCESS_ORG;
          rodata = section_start text_start text_size;
          data = section_start rodata rodata_size;
          bss = section_start data dsize;
          heap = section_start bss bss_size;
          stack = STACK_TOP;
          heap_pages = (STACK_TOP - heap) div PAGE_SIZE
      in bind_res (alloc_pages s text_start RO_FLAGS (section_pages text_start rodata)) (\<lambda>s.
         bind_res (alloc_section s rodata_size RO_FLAGS rodata data) (\<lambda>s.
         bind_res (alloc_section s dsize RW_FLAGS data bss) (\<lambda>s.
         bind_res (alloc_section s bss_size RW_FLAGS bss heap) (\<lambda>s.
         bind_res (alloc_pages s (stack - STACK_SIZE) RW_FLAGS (STACK_SIZE div PAGE_SIZE)) (\<lambda>s.
         bind_res (alloc_pages s PCB_ADDR PAGE_WRITABLE 1) (\<lambda>s.
         bind_res (sun_load_text s sun_file e text_start) (\<lambda>s.
         bind_res (sun_load_rodata s sun_file e rodata) (\<lambda>s.
         bind_res (sun_load_data s sun_file e data) (\<lambda>s.
         bind_res (pmemset s bss 0 bss_size) (\<lambda>s.
         bind_res (vwrite32 s pcb_prog_brk heap) (\<lambda>s.
         bind_res (vread32 s (te_entry_point e)) (\<lambda>ip.
         bind_res (vwrite32 s pcb_eip ip) (\<lambda>s.
         bind_res (vwrite32 s pcb_esp stack) (\<lambda>s.
         bind_res (vwrite32 s pcb_eflags INIT_EFLAGS) (\<lambda>s.
         bind_res (vwrite32 s pcb_page_dir_paddr page_dir) (\<lambda>s.
         bind_res (vwrite32 s pcb_eax arg) (\<lambda>s.
         bind_res (pmemset s pcb_fpu_regs 0 512) (\<lambda>s.
         bind_res (mailbox_init s MAILBOX_DATA_ADDR PAGE_WRITABLE) (\<lambda>(mb, s).
         bind_res (store_mailbox s mb) (\<lambda>s.
         pcb_heap_init s heap heap_pages (PAGE_WRITABLE OR PAGE_USER_MODE))))))))))))))))))))))"

text \<open>The new process in the pool, the table and the run queue.\<close>

definition create_process :: "kstate \<Rightarrow> (u32 \<times> kstate) res" where
  "create_process st =
     bind_res (pool_create (km st) (page_dir_paddr st) (process_pool st)) (\<lambda>(p, s, ws, pool).
       Inr (p, st\<lparr>km := s, page_dir_paddr := ws, process_pool := pool\<rparr>))"

definition insert_process :: "kstate \<Rightarrow> u32 \<Rightarrow> u32 \<Rightarrow> kstate res" where
  "insert_process st p pid =
     bind_res (rb_insert (rbnodes st) (process_tree st) (rb_node p) pid) (\<lambda>(_, m, t).
       Inr (st\<lparr>rbnodes := m, process_tree := t\<rparr>))"

definition exec_sun :: "u32 \<Rightarrow> u32 \<Rightarrow> u32 \<Rightarrow> kstate \<Rightarrow> kstate res" where
  "exec_sun sun_file name arg st =
     bind_res (sun_exe_lookup (km st) sun_file name) (\<lambda>e.
     kernel_assert (e \<noteq> 0)
     (bind_res (vread32 (km st) (te_text_size e)) (\<lambda>text_size.
     kernel_assert (text_size \<noteq> 0)
     (bind_res (vread32 (km st) (te_rodata_size e)) (\<lambda>rodata_size.
      bind_res (vread32 (km st) (te_data_size e)) (\<lambda>dsize.
      bind_res (vread32 (km st) (te_bss_size e)) (\<lambda>bss_size.
      let old_page_dir = get_page_dir (km st)
      in bind_res (new_page_dir (km st)) (\<lambda>(page_dir, s).
      bind_res (exec_image (set_page_dir s page_dir) sun_file e page_dir arg
                  text_size rodata_size dsize bss_size) (\<lambda>s.
      let st = st\<lparr>km := set_page_dir s old_page_dir\<rparr>
      in bind_res (next_free_aid st) (\<lambda>(pid, st).
      bind_res (create_process st) (\<lambda>(p, st).
      let st = st\<lparr>page_dir_paddr := (page_dir_paddr st)(p := page_dir), blocked := (blocked st)(p := False)\<rparr>
      in bind_res (insert_process st p pid) (\<lambda>st.
      let (qn, q) = queue_add (qnodes st) (run_queue st) (queue_node p)
      in Inr (st\<lparr>qnodes := qn, run_queue := q\<rparr>)))))))))))))"

subsection \<open>System calls\<close>

definition process_init :: "kstate \<Rightarrow> u32 \<Rightarrow> u32 \<Rightarrow> (u32 \<times> kstate) res" where
  "process_init st p pid =
     bind_res (if pid = 0 then next_free_aid st else Inr (pid, st)) (\<lambda>(pid, st).
     bind_res (new_page_dir (km st)) (\<lambda>(page_dir, s).
     Inr (pid, st\<lparr>km := s, page_dir_paddr := (page_dir_paddr st)(p := page_dir), blocked := (blocked st)(p := False)\<rparr>)))"

definition IPC_SIGNAL :: u32 where "IPC_SIGNAL = 1"
definition PID_NOT_FOUND :: u32 where "PID_NOT_FOUND = 1"

definition syscall_send_message :: "u32 \<Rightarrow> u32 \<Rightarrow> u32 \<Rightarrow> u32 \<Rightarrow> kstate \<Rightarrow> (SyscallResult option \<times> kstate) res" where
  "syscall_send_message reader dsize data flags st =
     (let message_size = ucast (dsize AND 0xFF) :: u8
      in bind_res (copy_in (unat message_size) (km st) data) (\<lambda>message_cpy.
         let message_cpy = message_cpy @ [0];
             sender = GET_PID st (current st)
         in bind_res (get_process st (get_pid_aid reader)) (\<lambda>dst.
            kernel_assert (dst \<noteq> 0)
            (let st = switch_to st (page_dir_paddr st dst)
             in bind_res (if flags AND IPC_SIGNAL \<noteq> 0 then
                            Inr (st\<lparr>klog := send_signal (klog st) (message_cpy ! 0)\<rparr>)
                          else
                            bind_res (load_mailbox (km st)) (\<lambda>mb.
                            bind_res (mailbox_send_message (km st) mb sender reader message_size message_cpy)
                              (\<lambda>(_, mb, s).
                            bind_res (store_mailbox s mb) (\<lambda>s. Inr (st\<lparr>km := s\<rparr>)))))
                  (\<lambda>st. SYSCALL_RETURN 0 0 (switch_to st (page_dir_paddr st (current st))))))))"

definition syscall_register_process :: "kstate \<Rightarrow> (SyscallResult option \<times> kstate) res" where
  "syscall_register_process st =
     bind_res (create_process st) (\<lambda>(p, st).
     bind_res (process_init st p 0) (\<lambda>(pid, st).
     bind_res (insert_process st p pid) (\<lambda>st.
     SYSCALL_RETURN pid 0 st)))"

definition syscall_delete_process :: "u32 \<Rightarrow> kstate \<Rightarrow> (SyscallResult option \<times> kstate) res" where
  "syscall_delete_process pid st =
     bind_res (get_process st (get_pid_aid pid)) (\<lambda>proc.
     bind_res (if proc \<noteq> 0 then
                 (let p_addr = page_dir_paddr st proc
                  in bind_res (free_frame (km st) p_addr) (\<lambda>s.
                     bind_res (rb_remove (rbnodes st) (process_tree st) pid) (\<lambda>(_, m, t).
                     let (ws, pool) = pool_destroy (page_dir_paddr st) (process_pool st) proc
                     in Inr (st\<lparr>km := s, rbnodes := m, process_tree := t, page_dir_paddr := ws, process_pool := pool\<rparr>))))
               else Inr st) (\<lambda>st.
     SYSCALL_RETURN 0 PID_NOT_FOUND st))"

definition syscall_jump_process :: "u32 \<Rightarrow> kstate \<Rightarrow> (SyscallResult option \<times> kstate) res" where
  "syscall_jump_process pid st =
     bind_res (get_process st (get_pid_aid pid)) (\<lambda>proc.
     if proc \<noteq> 0 then
       (let st = switch_to (st\<lparr>current := proc\<rparr>) (page_dir_paddr st proc)
        in bind_res (enter_current st) (\<lambda>st. Inr (None, st)))
     else SYSCALL_RETURN 0 PID_NOT_FOUND st)"

definition syscall_read_message :: "u32 \<Rightarrow> u32 \<Rightarrow> u32 \<Rightarrow> u32 \<Rightarrow> kstate \<Rightarrow> (SyscallResult option \<times> kstate) res" where
  "syscall_read_message sender reader message flags st =
     bind_res (load_mailbox (km st)) (\<lambda>mb.
     bind_res (mailbox_read_message (km st, klog st) mb sender reader message) (\<lambda>(r, mb, s, log).
     bind_res (store_mailbox s mb) (\<lambda>s.
     SYSCALL_RETURN (if r then 1 else 0) 0 (st\<lparr>km := s, klog := log\<rparr>))))"

text \<open>The initialisation; the timer callback and the registrations of system calls are
  \<open>Interrupts.syscall_reg_tmr_cb\<close> and \<open>Syscalls.process_syscalls\<close>.\<close>

definition processes_init :: "u32 \<Rightarrow> (entry_point \<Rightarrow> u32) \<Rightarrow> timer \<times> u32 list \<times> kstate \<Rightarrow>
    (timer \<times> u32 list \<times> kstate) res" where
  "processes_init preempt_addr addr = (\<lambda>(tm, tbl, st).
     let (_, tm) = syscall_reg_tmr_cb preempt_addr 20 tm;
         pool = pool_init (process_pool st);
         (m, t) = rb_init (rbnodes st) (process_tree st);
         q = queue_init (run_queue st)
     in bind_res (process_syscalls addr tbl) (\<lambda>tbl.
        Inr (tm, tbl, st\<lparr>process_pool := pool, rbnodes := m, process_tree := t, run_queue := q\<rparr>)))"

end
