(* ===== verification/Keyboard.thy ===== *)
theory Keyboard
  imports TerminalLog
begin

section \<open>The keyboard (\<^verbatim>\<open>drivers/keyboard/keyboard.c\<close>)\<close>

text \<open>
  The interrupt handler reads the scan code twice, once for the key and once for the release
  bit, keeps the state of shift and caps lock, and prints the character of the key. The two
  tables have an entry for each of the 128 codes.
\<close>

unbundle bit_operations_syntax

definition KEY_UNKNOWN :: u8 where "KEY_UNKNOWN = 0xFF - 0"
definition KEY_ESC :: u8 where "KEY_ESC = 0xFF - 1"
definition KEY_CTRL :: u8 where "KEY_CTRL = 0xFF - 2"
definition KEY_LSHFT :: u8 where "KEY_LSHFT = 0xFF - 3"
definition KEY_RSHFT :: u8 where "KEY_RSHFT = 0xFF - 4"
definition KEY_ALT :: u8 where "KEY_ALT = 0xFF - 5"
definition KEY_F1 :: u8 where "KEY_F1 = 0xFF - 6"
definition KEY_F2 :: u8 where "KEY_F2 = 0xFF - 7"
definition KEY_F3 :: u8 where "KEY_F3 = 0xFF - 8"
definition KEY_F4 :: u8 where "KEY_F4 = 0xFF - 9"
definition KEY_F5 :: u8 where "KEY_F5 = 0xFF - 10"
definition KEY_F6 :: u8 where "KEY_F6 = 0xFF - 11"
definition KEY_F7 :: u8 where "KEY_F7 = 0xFF - 12"
definition KEY_F8 :: u8 where "KEY_F8 = 0xFF - 13"
definition KEY_F9 :: u8 where "KEY_F9 = 0xFF - 14"
definition KEY_F10 :: u8 where "KEY_F10 = 0xFF - 15"
definition KEY_F11 :: u8 where "KEY_F11 = 0xFF - 16"
definition KEY_F12 :: u8 where "KEY_F12 = 0xFF - 17"
definition KEY_SCRLCK :: u8 where "KEY_SCRLCK = 0xFF - 18"
definition KEY_HOME :: u8 where "KEY_HOME = 0xFF - 19"
definition KEY_UP :: u8 where "KEY_UP = 0xFF - 20"
definition KEY_LEFT :: u8 where "KEY_LEFT = 0xFF - 21"
definition KEY_RIGHT :: u8 where "KEY_RIGHT = 0xFF - 22"
definition KEY_DOWN :: u8 where "KEY_DOWN = 0xFF - 23"
definition KEY_PGUP :: u8 where "KEY_PGUP = 0xFF - 24"
definition KEY_PGDOWN :: u8 where "KEY_PGDOWN = 0xFF - 25"
definition KEY_END :: u8 where "KEY_END = 0xFF - 26"
definition KEY_INS :: u8 where "KEY_INS = 0xFF - 27"
definition KEY_DEL :: u8 where "KEY_DEL = 0xFF - 28"
definition KEY_CAPS :: u8 where "KEY_CAPS = 0xFF - 29"
definition KEY_NONE :: u8 where "KEY_NONE = 0xFF - 30"
definition KEY_ALTGR :: u8 where "KEY_ALTGR = 0xFF - 31"
definition KEY_NUMLCK :: u8 where "KEY_NUMLCK = 0xFF - 32"

definition lowercase :: "u8 list" where
  "lowercase =
    [KEY_UNKNOWN, KEY_ESC, ch CHR ''1'', ch CHR ''2'', ch CHR ''3'', ch CHR ''4'', ch CHR ''5'', ch CHR ''6'',
     ch CHR ''7'', ch CHR ''8'', ch CHR ''9'', ch CHR ''0'', ch CHR ''-'', ch CHR ''='', 8, 9,
     ch CHR ''q'', ch CHR ''w'', ch CHR ''e'', ch CHR ''r'', ch CHR ''t'', ch CHR ''y'', ch CHR ''u'', ch CHR ''i'',
     ch CHR ''o'', ch CHR ''p'', ch CHR ''['', ch CHR '']'', 10, KEY_CTRL, ch CHR ''a'', ch CHR ''s'',
     ch CHR ''d'', ch CHR ''f'', ch CHR ''g'', ch CHR ''h'', ch CHR ''j'', ch CHR ''k'', ch CHR ''l'', ch CHR '';'',
     39, 96, KEY_LSHFT, 92, ch CHR ''z'', ch CHR ''x'', ch CHR ''c'', ch CHR ''v'',
     ch CHR ''b'', ch CHR ''n'', ch CHR ''m'', ch CHR '','', ch CHR ''.'', ch CHR ''/'', KEY_RSHFT, ch CHR ''*'',
     KEY_ALT, ch CHR '' '', KEY_CAPS, KEY_F1, KEY_F2, KEY_F3, KEY_F4, KEY_F5,
     KEY_F6, KEY_F7, KEY_F8, KEY_F9, KEY_F10, KEY_NUMLCK, KEY_SCRLCK, KEY_HOME,
     KEY_UP, KEY_PGUP, ch CHR ''-'', KEY_LEFT, KEY_UNKNOWN, KEY_RIGHT, ch CHR ''+'', KEY_END,
     KEY_DOWN, KEY_PGDOWN, KEY_INS, KEY_DEL, KEY_UNKNOWN, KEY_UNKNOWN, KEY_UNKNOWN, KEY_F11,
     KEY_F12, KEY_UNKNOWN, KEY_UNKNOWN, KEY_UNKNOWN, KEY_UNKNOWN, KEY_UNKNOWN, KEY_UNKNOWN, KEY_UNKNOWN,
     KEY_UNKNOWN, KEY_UNKNOWN, KEY_UNKNOWN, KEY_UNKNOWN, KEY_UNKNOWN, KEY_UNKNOWN, KEY_UNKNOWN, KEY_UNKNOWN,
     KEY_UNKNOWN, KEY_UNKNOWN, KEY_UNKNOWN, KEY_UNKNOWN, KEY_UNKNOWN, KEY_UNKNOWN, KEY_UNKNOWN, KEY_UNKNOWN,
     KEY_UNKNOWN, KEY_UNKNOWN, KEY_UNKNOWN, KEY_UNKNOWN, KEY_UNKNOWN, KEY_UNKNOWN, KEY_UNKNOWN, KEY_UNKNOWN,
     KEY_UNKNOWN, KEY_UNKNOWN, KEY_UNKNOWN, KEY_UNKNOWN, KEY_UNKNOWN, KEY_UNKNOWN, KEY_UNKNOWN, KEY_UNKNOWN]"

definition uppercase :: "u8 list" where
  "uppercase =
    [KEY_UNKNOWN, KEY_ESC, ch CHR ''!'', ch CHR ''@'', ch CHR ''#'', ch CHR ''$'', ch CHR ''%'', ch CHR ''^'',
     ch CHR ''&'', ch CHR ''*'', ch CHR ''('', ch CHR '')'', ch CHR ''_'', ch CHR ''+'', 8, 9,
     ch CHR ''Q'', ch CHR ''W'', ch CHR ''E'', ch CHR ''R'', ch CHR ''T'', ch CHR ''Y'', ch CHR ''U'', ch CHR ''I'',
     ch CHR ''O'', ch CHR ''P'', ch CHR ''{'', ch CHR ''}'', 10, KEY_CTRL, ch CHR ''A'', ch CHR ''S'',
     ch CHR ''D'', ch CHR ''F'', ch CHR ''G'', ch CHR ''H'', ch CHR ''J'', ch CHR ''K'', ch CHR ''L'', ch CHR '':'',
     34, ch CHR ''~'', KEY_LSHFT, ch CHR ''|'', ch CHR ''Z'', ch CHR ''X'', ch CHR ''C'', ch CHR ''V'',
     ch CHR ''B'', ch CHR ''N'', ch CHR ''M'', ch CHR ''<'', ch CHR ''>'', ch CHR ''?'', KEY_RSHFT, ch CHR ''*'',
     KEY_ALT, ch CHR '' '', KEY_CAPS, KEY_F1, KEY_F2, KEY_F3, KEY_F4, KEY_F5,
     KEY_F6, KEY_F7, KEY_F8, KEY_F9, KEY_F10, KEY_NUMLCK, KEY_SCRLCK, KEY_HOME,
     KEY_UP, KEY_PGUP, ch CHR ''-'', KEY_LEFT, KEY_UNKNOWN, KEY_RIGHT, ch CHR ''+'', KEY_END,
     KEY_DOWN, KEY_PGDOWN, KEY_INS, KEY_DEL, KEY_UNKNOWN, KEY_UNKNOWN, KEY_UNKNOWN, KEY_F11,
     KEY_F12, KEY_UNKNOWN, KEY_UNKNOWN, KEY_UNKNOWN, KEY_UNKNOWN, KEY_UNKNOWN, KEY_UNKNOWN, KEY_UNKNOWN,
     KEY_UNKNOWN, KEY_UNKNOWN, KEY_UNKNOWN, KEY_UNKNOWN, KEY_UNKNOWN, KEY_UNKNOWN, KEY_UNKNOWN, KEY_UNKNOWN,
     KEY_UNKNOWN, KEY_UNKNOWN, KEY_UNKNOWN, KEY_UNKNOWN, KEY_UNKNOWN, KEY_UNKNOWN, KEY_UNKNOWN, KEY_UNKNOWN,
     KEY_UNKNOWN, KEY_UNKNOWN, KEY_UNKNOWN, KEY_UNKNOWN, KEY_UNKNOWN, KEY_UNKNOWN, KEY_UNKNOWN, KEY_UNKNOWN,
     KEY_UNKNOWN, KEY_UNKNOWN, KEY_UNKNOWN, KEY_UNKNOWN, KEY_UNKNOWN, KEY_UNKNOWN, KEY_UNKNOWN, KEY_UNKNOWN]"

record kbd =
  capsOn :: bool
  capsLock :: bool

definition SCAN_PORT :: u16 where
  "SCAN_PORT = 0x60"

definition table_entry :: "u8 list \<Rightarrow> u8 \<Rightarrow> u8 res" where
  "table_entry tbl i = (if unat i < length tbl then Inr (tbl ! unat i) else Inl OutOfBounds)"

definition keyboardHandler :: "kbd \<times> Terminal \<times> io \<Rightarrow> (kbd \<times> Terminal \<times> io) res" where
  "keyboardHandler = (\<lambda>(k, t, s).
     let (a, s) = inb SCAN_PORT s; scanCode = a AND 0x7F;
         (b, s) = inb SCAN_PORT s; press = b AND 0x80
     in if scanCode \<in> {0x01, 0x1D, 0x38, 0x3B, 0x3C, 0x3D, 0x3E, 0x3F, 0x40, 0x41, 0x42, 0x43, 0x44,
                       0x57, 0x58} then Inr (k, t, s)
        else if scanCode = 0x2A then Inr (k\<lparr>capsOn := (press = 0)\<rparr>, t, s)
        else if scanCode = 0x36 then Inr (k\<lparr>capsOn := (press = 0)\<rparr>, t, s)
        else if scanCode = 0x3A then
          (if \<not> capsLock k \<and> press = 0 then Inr (k\<lparr>capsLock := True\<rparr>, t, s)
           else if capsLock k \<and> press = 0 then Inr (k\<lparr>capsLock := False\<rparr>, t, s)
           else Inr (k, t, s))
        else if press = 0 then
          bind_res (if capsOn k \<or> capsLock k then table_entry uppercase scanCode
                    else table_entry lowercase scanCode) (\<lambda>c.
          bind_res (terminal_putchar c (t, s)) (\<lambda>(t, s). Inr (k, t, s)))
        else Inr (k, t, s))"

text \<open>The handler is installed by \<open>Kernel.boot_keyboard\<close>.\<close>

definition init_keyboard :: kbd where
  "init_keyboard = \<lparr>capsOn = False, capsLock = False\<rparr>"

lemmas key_defs =
  KEY_UNKNOWN_def KEY_ESC_def KEY_CTRL_def KEY_LSHFT_def KEY_RSHFT_def
  KEY_ALT_def KEY_F1_def KEY_F2_def KEY_F3_def KEY_F4_def
  KEY_F5_def KEY_F6_def KEY_F7_def KEY_F8_def KEY_F9_def
  KEY_F10_def KEY_F11_def KEY_F12_def KEY_SCRLCK_def KEY_HOME_def
  KEY_UP_def KEY_LEFT_def KEY_RIGHT_def KEY_DOWN_def KEY_PGUP_def
  KEY_PGDOWN_def KEY_END_def KEY_INS_def KEY_DEL_def KEY_CAPS_def
  KEY_NONE_def KEY_ALTGR_def KEY_NUMLCK_def

subsection \<open>Typing\<close>

lemma tables:
  "length lowercase = 128" "length uppercase = 128"
  by (simp_all add: lowercase_def uppercase_def)

lemma scan_code_in_tables: "unat (a AND 0x7F :: u8) < 128"
proof -
  have "a AND 0x7F = take_bit 7 a" by (simp add: take_bit_eq_mask mask_eq_exp_minus_1)
  then show ?thesis by (simp add: take_bit_eq_mod unat_mod)
qed

text \<open>The codes that print nothing: escape, control, alt, the function keys, and the keys that
  change the state.\<close>

definition silent_keys :: "u8 set" where
  "silent_keys = {0x01, 0x1D, 0x38, 0x3B, 0x3C, 0x3D, 0x3E, 0x3F, 0x40, 0x41, 0x42, 0x43, 0x44,
     0x57, 0x58, 0x2A, 0x36, 0x3A}"

definition letter :: "u8 \<Rightarrow> bool" where
  "letter c \<longleftrightarrow> ch CHR ''a'' \<le> c \<and> c \<le> ch CHR ''z''"

lemma letter_table:
  "list_all (\<lambda>(i, lo, up). letter lo \<longrightarrow> up = lo - 32 \<and> word_of_nat i \<notin> silent_keys)
     (enumerate 0 (zip lowercase uppercase))"
  by (simp add: lowercase_def uppercase_def letter_def silent_keys_def key_defs)

lemma letter_keys:
  "i < 128 \<Longrightarrow> letter (lowercase ! i) \<Longrightarrow>
     uppercase ! i = lowercase ! i - 32 \<and> word_of_nat i \<notin> silent_keys"
proof -
  assume i: "i < 128" "letter (lowercase ! i)"
  have "length (enumerate 0 (zip lowercase uppercase)) = 128" by (simp add: tables)
  then have "(case enumerate 0 (zip lowercase uppercase) ! i of
      (i, lo, up) \<Rightarrow> letter lo \<longrightarrow> up = lo - 32 \<and> word_of_nat i \<notin> silent_keys)"
    using letter_table i(1) unfolding list_all_length by simp
  then show ?thesis using i by (simp add: nth_enumerate_eq tables)
qed

lemma distinct_filter_nth:
  "distinct (filter P xs) \<Longrightarrow> i < length xs \<Longrightarrow> j < length xs \<Longrightarrow> P (xs ! i) \<Longrightarrow> xs ! i = xs ! j \<Longrightarrow> i = j"
proof (induction xs arbitrary: i j)
  case (Cons x xs)
  have out: "x \<noteq> xs ! n" if "P x" "n < length xs" for n
    using Cons.prems(1) that by (auto dest: nth_mem)
  show ?case
    using Cons out by (cases i; cases j) (auto split: if_splits)
qed simp

lemma letters_distinct: "distinct (filter letter lowercase)"
  by (simp add: lowercase_def letter_def key_defs)

lemma letter_once:
  "i < 128 \<Longrightarrow> j < 128 \<Longrightarrow> letter (lowercase ! i) \<Longrightarrow> lowercase ! i = lowercase ! j \<Longrightarrow> i = j"
  by (rule distinct_filter_nth [OF letters_distinct]) (simp_all add: tables)

text \<open>A keyboard controller that holds the code until the handler is done.\<close>

definition holds_code :: "io \<Rightarrow> u8 \<Rightarrow> bool" where
  "holds_code s code \<longleftrightarrow> device s (outs s) (reads s) SCAN_PORT = code \<and>
     device s (outs s) (reads s + 1) SCAN_PORT = code"

lemma handler_prints:
  assumes "holds_code s code" "code < 0x80" "code \<notin> silent_keys"
    and "displays t l" "(if capsOn k \<or> capsLock k then uppercase else lowercase) ! unat code \<noteq> 9"
  shows "\<exists>t' s'. keyboardHandler (k, t, s) = Inr (k, t', s') \<and>
    displays t' (log_put (unat (width t)) (color t)
      ((if capsOn k \<or> capsLock k then uppercase else lowercase) ! unat code) l)"
proof -
  let ?s = "s\<lparr>reads := reads s + 2\<rparr>"
  have c: "code AND 0x7F = code" "code AND 0x80 = 0" "unat code < 128"
  proof -
    have l: "unat code < 128" using assms(2) by (simp add: word_less_nat_alt)
    then show "unat code < 128" .
    have b: "\<not> bit code 7"
    proof -
      have "take_bit 7 code = code"
        using l by (simp add: word_unat_eq_iff unsigned_take_bit_eq take_bit_nat_eq_self)
      then show ?thesis by (metis bit_take_bit_iff less_irrefl)
    qed
    have m: "(0x7F :: u8) = mask 7" "(0x80 :: u8) = push_bit 7 1" by (simp_all add: mask_eq_exp_minus_1)
    show "code AND 0x7F = code"
    proof (rule bit_word_eqI)
      fix n
      assume n: "n < LENGTH(8)"
      show "bit (code AND 0x7F) n \<longleftrightarrow> bit code n"
        using b n by (cases "n = 7") (auto simp: m bit_simps)
    qed
    show "code AND 0x80 = 0"
    proof (rule bit_word_eqI)
      fix n
      assume n: "n < LENGTH(8)"
      show "bit (code AND 0x80) n \<longleftrightarrow> bit 0 n"
        using b n by (cases "n = 7") (auto simp: m(2) bit_simps bit_1_iff simp del: push_bit_of_1)
    qed
  qed
  let ?c = "(if capsOn k \<or> capsLock k then uppercase else lowercase) ! unat code"
  from putchar_displays [OF assms(4,5), of ?s] obtain t' s' where
    "terminal_putchar ?c (t, ?s) = Inr (t', s')"
    "displays t' (log_put (unat (width t)) (color t) ?c l)" by blast
  moreover have "inb SCAN_PORT s = (code, s\<lparr>reads := reads s + 1\<rparr>)"
    "inb SCAN_PORT (s\<lparr>reads := reads s + 1\<rparr>) = (code, ?s)"
    using assms(1) by (simp_all add: inb_def holds_code_def)
  ultimately show ?thesis
    using assms(3) c tables
    by (auto simp: keyboardHandler_def silent_keys_def table_entry_def Let_def)
qed

text \<open>Every letter has one key; pressing it appends the letter to the terminal's log, as a
  capital exactly when shift or caps lock is on (both together do not cancel), and leaves the
  keyboard's state alone.\<close>

theorem keyboard_letters:
  assumes "holds_code s code" "code < 0x80" "letter (lowercase ! unat code)" "displays t l"
  shows "\<exists>t' s'. keyboardHandler (k, t, s) = Inr (k, t', s') \<and>
    displays t' (log_put (unat (width t)) (color t)
      (if capsOn k \<or> capsLock k then lowercase ! unat code - 32 else lowercase ! unat code) l) \<and>
    (\<forall>i < 128. lowercase ! i = lowercase ! unat code \<longrightarrow> i = unat code)"
proof -
  have c: "unat code < 128" using assms(2) by (simp add: word_less_nat_alt)
  have up: "uppercase ! unat code = lowercase ! unat code - 32" "code \<notin> silent_keys"
    using letter_keys [OF c assms(3)] by simp_all
  have once: "\<forall>i < 128. lowercase ! i = lowercase ! unat code \<longrightarrow> i = unat code"
    using letter_once [OF c _ assms(3)] by metis
  have "(if capsOn k \<or> capsLock k then uppercase else lowercase) ! unat code \<noteq> 9"
  proof
    assume "(if capsOn k \<or> capsLock k then uppercase else lowercase) ! unat code = 9"
    then have "lowercase ! unat code = 9 \<or> lowercase ! unat code = 41"
      using up(1) by (auto simp: diff_eq_eq split: if_splits)
    with assms(3) show False by (auto simp: letter_def)
  qed
  from handler_prints [OF assms(1,2) up(2) assms(4) this] once up(1) show ?thesis by auto
qed

theorem keyboard_letters_witness:
  "\<exists>t t' s'. keyboardHandler (\<lparr>capsOn = True, capsLock = False\<rparr>, t,
      \<lparr>device = (\<lambda>_ _ _. 0x1E), reads = 0, outs = []\<rparr>) = Inr (\<lparr>capsOn = True, capsLock = False\<rparr>, t', s') \<and>
    displays t' ([], [vga_entry_create (ch CHR ''A'') (color t)])"
proof -
  obtain t where t: "displays t ([], [])" "width t = 80"
    using terminal_init_displays [of 80 25 "replicate 2000 0"] by auto
  have l: "lowercase ! 30 = ch CHR ''a''" by (simp add: lowercase_def)
  then have "letter (lowercase ! unat (0x1E :: u8))" by (simp add: letter_def)
  from keyboard_letters [OF _ _ this t(1), of "\<lparr>device = (\<lambda>_ _ _. 0x1E), reads = 0, outs = []\<rparr>"
      "\<lparr>capsOn = True, capsLock = False\<rparr>"] t(2) l
  show ?thesis by (auto simp: holds_code_def log_put_def Let_def)
qed

end
