(* ===== verification/Kernel.thy ===== *)
theory Kernel
  imports Processes Keyboard Logging
begin

section \<open>The boot sequence (\<^verbatim>\<open>kernel/kernel.c\<close>)\<close>

text \<open>
  \<^verbatim>\<open>kernel_main\<close> runs the initialisation of the components in their order and then the
  scheduler. The state of the machine collects theirs. What the linker and the assembly files
  provide is in a record: the addresses of functions and tables and the memory layout. The
  loads of the tables and of the floating point unit are processor instructions without an
  effect on this state. The messages of \<^verbatim>\<open>kernel_main\<close> are printed by \<open>printk\<close>, on the terminal and the
  serial line. The static data that this reads and writes, the literals and the buffer, is the byte array \<open>statics\<close>,
  kept apart from the memory that \<^verbatim>\<open>memory/mem.c\<close> manages.
\<close>

unbundle bit_operations_syntax

definition MB_FLAG_FRAMEBUFFER :: u32 where
  "MB_FLAG_FRAMEBUFFER = push_bit 12 1"

record image =
  im_layout :: layout
  im_mb :: MultibootInfo
  im_frame_buffer :: "u32 \<Rightarrow> u16 list"
  im_tss :: u32
  im_kernel_stack :: u32
  im_interrupt_table :: "nat \<Rightarrow> u32"
  im_syscall_wrapper :: u32
  im_timer_handler :: u32
  im_timer_no_op :: u32
  im_keyboard_handler :: u32
  im_preempt :: u32
  im_syscalls :: "entry_point \<Rightarrow> u32"
  im_sun_file :: u32
  im_MAGIC :: u32
  im_senv :: senv
  im_log_literals :: log_literals
  im_temp_buffer :: u32
  im_literal :: "string \<Rightarrow> u32"

record machine =
  statics :: bytes
  loglevel :: LogLevel
  screen :: Terminal
  ports :: io
  gdt :: "u64 list"
  idt :: "u64 list"
  initial_tss :: Tss
  irq_routines :: "u32 list"
  syscall_table :: "u32 list"
  tmr :: timer
  keyboard :: kbd
  kst :: kstate

text \<open>A call of \<open>printk\<close> at the level \<open>DEBUG\<close>; every message ends with a newline.\<close>

definition debug_print :: "image \<Rightarrow> string \<Rightarrow> u32 list \<Rightarrow> machine \<Rightarrow> machine res" where
  "debug_print I fmt args M =
     bind_res (printk (im_senv I) (im_log_literals I) (im_temp_buffer I) (loglevel M) DEBUG
                 (im_literal I (fmt @ [CHR 10])) args (statics M, screen M, ports M)) (\<lambda>(m, t, s).
       Inr (M\<lparr>statics := m, screen := t, ports := s\<rparr>))"

text \<open>The components as steps on the machine.\<close>

definition boot_terminal :: "image \<Rightarrow> machine \<Rightarrow> machine res" where
  "boot_terminal I M =
     kernel_assert (mb_flags (im_mb I) AND MB_FLAG_FRAMEBUFFER \<noteq> 0)
      (bind_res (terminal_init (framebuffer_width (im_mb I)) (framebuffer_height (im_mb I))
                  (im_frame_buffer I (framebuffer_addr_lo (im_mb I)))) (\<lambda>t.
       bind_res (terminal_syscalls (im_syscalls I) (syscall_table M)) (\<lambda>tbl.
       kernel_assert (framebuffer_addr_hi (im_mb I) = 0) (Inr (M\<lparr>screen := t, syscall_table := tbl\<rparr>)))))"

definition boot_memory :: "image \<Rightarrow> machine \<Rightarrow> machine res" where
  "boot_memory I M =
     bind_res (mem_init (im_layout I) (im_mb I) (km (kst M))) (\<lambda>s.
     bind_res (mem_syscalls (im_syscalls I) (syscall_table M)) (\<lambda>tbl.
     Inr (M\<lparr>kst := (kst M)\<lparr>km := s\<rparr>, syscall_table := tbl\<rparr>)))"

definition boot_timer :: "image \<Rightarrow> machine \<Rightarrow> machine res" where
  "boot_timer I M =
     bind_res (irq_install_handler 0 (im_timer_handler I) (irq_routines M, ports M)) (\<lambda>(irqs, s).
     bind_res (timer_syscalls (im_syscalls I) (syscall_table M)) (\<lambda>tbl.
     let (tm, s) = init_timer (im_timer_no_op I) s
     in Inr (M\<lparr>tmr := tm, irq_routines := irqs, ports := s, syscall_table := tbl\<rparr>)))"

definition boot_keyboard :: "image \<Rightarrow> machine \<Rightarrow> machine res" where
  "boot_keyboard I M =
     bind_res (irq_install_handler 1 (im_keyboard_handler I) (irq_routines M, ports M)) (\<lambda>(irqs, s).
     Inr (M\<lparr>keyboard := init_keyboard, irq_routines := irqs, ports := s\<rparr>))"

definition boot_processes :: "image \<Rightarrow> machine \<Rightarrow> machine res" where
  "boot_processes I M =
     bind_res (processes_init (im_preempt I) (im_syscalls I) (tmr M, syscall_table M, kst M)) (\<lambda>(tm, tbl, st).
     Inr (M\<lparr>tmr := tm, syscall_table := tbl, kst := st\<rparr>))"

text \<open>Everything up to the call of the scheduler.\<close>

definition kernel_init :: "image \<Rightarrow> machine \<Rightarrow> machine res" where
  "kernel_init I M =
     bind_res (boot_terminal I M) (\<lambda>M.
     bind_res (debug_print I ''Kernel Size: %u KB''
       [(kernel_end_paddr (im_layout I) - kernel_start_paddr (im_layout I)) div 1024] M) (\<lambda>M.
     bind_res (debug_print I ''Initializing GDT...'' [] M) (\<lambda>M.
     let M = M\<lparr>gdt := init_gdt (im_tss I)\<rparr>
     in bind_res (debug_print I ''Initializing IDT...'' [] M) (\<lambda>M.
     let (table, s) = init_idt (im_interrupt_table I) (im_syscall_wrapper I) (ports M);
         M = M\<lparr>idt := table, ports := s\<rparr>
     in bind_res (debug_print I ''Initializing TSS...'' [] M) (\<lambda>M.
     let M = M\<lparr>initial_tss := init_tss (im_kernel_stack I)\<rparr>
     in bind_res (debug_print I ''Initializing FPU...'' [] M) (\<lambda>M.
     bind_res (debug_print I ''Initializing memory...'' [] M) (\<lambda>M.
     bind_res (boot_memory I M) (\<lambda>M.
     bind_res (debug_print I ''Initializing timer'' [] M) (\<lambda>M.
     bind_res (boot_timer I M) (\<lambda>M.
     bind_res (debug_print I ''Initializing keyboard'' [] M) (\<lambda>M.
     bind_res (boot_keyboard I M) (\<lambda>M.
     bind_res (debug_print I ''Initializing serial io...'' [] M) (\<lambda>M.
     bind_res (serial_init (ports M)) (\<lambda>s.
     bind_res (debug_print I ''Initializing the sun...'' [] (M\<lparr>ports := s\<rparr>)) (\<lambda>M.
     bind_res (sun_init (km (kst M)) (im_sun_file I) (im_MAGIC I)) (\<lambda>_.
     bind_res (syscalls_init (im_syscalls I) (syscall_table M)) (\<lambda>tbl.
     boot_processes I (M\<lparr>syscall_table := tbl\<rparr>))))))))))))))))))"

text \<open>The result is the machine when user mode is entered.\<close>

definition kernel_main :: "image \<Rightarrow> machine \<Rightarrow> machine res" where
  "kernel_main I M =
     bind_res (kernel_init I M) (\<lambda>M. bind_res (schedule (kst M)) (\<lambda>st. Inr (M\<lparr>kst := st\<rparr>)))"

text \<open>Without a process to run the scheduler stops, and the boot sequence as it stands starts
  none.\<close>

lemma schedule_empty: "head (run_queue st) = 0 \<Longrightarrow> schedule st = Inl Panic"
  by (simp add: schedule_def run_queue_next_def queue_poll_def)

lemma processes_init_empty:
  "processes_init pa addr (tm, tbl, st) = Inr (tm', tbl', st') \<Longrightarrow> head (run_queue st') = 0"
  by (auto simp: processes_init_def Let_def queue_init_def split: prod.splits)

lemma boot_processes_queue: "boot_processes I M = Inr N \<Longrightarrow> schedule (kst N) = Inl Panic"
  by (rule schedule_empty) (auto simp: boot_processes_def dest: processes_init_empty)

lemma kernel_init_queue: "kernel_init I M = Inr N \<Longrightarrow> schedule (kst N) = Inl Panic"
  unfolding kernel_init_def Let_def split_def bind_res_eq_Inr
  by (elim exE conjE) (rule boot_processes_queue)

lemma kernel_main_stops: "\<exists>e. kernel_main I M = Inl e"
  by (cases "kernel_init I M") (auto simp: kernel_main_def dest: kernel_init_queue)

end
