(* ===== verification/BootFrames.thy ===== *)
theory BootFrames
  imports HeapPages
begin

section \<open>Building the free list at boot (\<^verbatim>\<open>init_frame_region\<close>)\<close>

text \<open>
  What \<^verbatim>\<open>init_frame_region\<close> puts on the free list, and how the split of a memory
  region between the kernel and user programs in \<^verbatim>\<open>init_frames\<close> relates to
  \<^verbatim>\<open>user_frame_valid\<close>.
\<close>

unbundle bit_operations_syntax

subsection \<open>The frames of a region\<close>

text \<open>The addresses \<open>f\<close>, \<open>f + 4096\<close>, ... below \<open>e\<close>.\<close>

definition region_frames :: "u32 \<Rightarrow> u32 \<Rightarrow> u32 list" where
  "region_frames f e = map (page_no f) [0..<(unat e + 4095 - unat f) div 4096]"

lemma region_frames_step:
  assumes "f < e" "unat e \<le> 0xFFFFF000"
  shows "region_frames f e = f # region_frames (f + PAGE_SIZE) e"
    "unat (f + PAGE_SIZE) = unat f + 4096"
proof -
  have lt: "unat f < unat e" using assms(1) by (simp add: word_less_nat_alt)
  then show u: "unat (f + PAGE_SIZE) = unat f + 4096"
    using assms(2) by (simp add: PAGE_SIZE_def unat_add_u32)
  have "(unat e + 4095 - unat f) div 4096 = Suc ((unat e + 4095 - unat (f + PAGE_SIZE)) div 4096)"
  proof (cases "unat e \<le> unat f + 4095")
    case True
    then show ?thesis using lt u by (simp add: div_if)
  next
    case False
    then show ?thesis using u by (simp add: div_if)
  qed
  then show "region_frames f e = f # region_frames (f + PAGE_SIZE) e"
    by (simp add: region_frames_def page_no_Suc upt_conv_Cons map_Suc_upt [symmetric] o_def
        del: upt_Suc)
qed

lemma region_frames_empty: "\<not> f < e \<Longrightarrow> region_frames f e = []"
  by (simp add: region_frames_def word_less_nat_alt)

text \<open>Giving frames back does not make another frame referenced.\<close>

lemma give_frame_unreferenced:
  assumes inv: "mem_inv s fs" and f: "get_paddr f \<noteq> 0" "unreferenced s (get_paddr f)"
    "get_paddr f \<notin> get_paddr ` set fs" and g: "unreferenced s g"
  shows "unreferenced (give_frame s f) g"
proof -
  note step = give_frame_step(1,2) [OF inv f(2)]
  have "\<not> table_frame (give_frame s f) g"
    using mem_step_table [OF step(1), of g] g mem_no_table [OF give_frame_inv [OF inv f], of f]
    by (auto simp: unreferenced_def)
  then show ?thesis
    using g step(2) mem_step_plain [OF step(1)] unfolding unreferenced_pages
    by (auto simp: plain_page_def)
qed

lemma frame_aligned_page_no: "frame_aligned f \<Longrightarrow> frame_aligned (f + PAGE_SIZE)"
proof -
  assume f: "frame_aligned f"
  have "unat (f + PAGE_SIZE) = (unat f + 4096) mod 4294967296"
    by (simp add: PAGE_SIZE_def unat_word_ariths)
  moreover have "4096 dvd (unat f + 4096) mod 4294967296"
    using f by (intro dvd_mod) (simp_all add: frame_unat)
  ultimately show ?thesis by (simp add: frame_unat)
qed

lemma total_frames_fields [simp]:
  "mem_inv (s\<lparr>total_frames := x\<rparr>) fs = mem_inv s fs"
  "unreferenced (s\<lparr>total_frames := x\<rparr>) f = unreferenced s f"
  "mem_inv (s\<lparr>used_frames := y\<rparr>) fs = mem_inv s fs"
  "give_frame (s\<lparr>total_frames := x\<rparr>) f = (give_frame s f)\<lparr>total_frames := x\<rparr>"
  by (simp_all add: mem_inv_def window_ok_def unreferenced_def table_frame_def maps_def give_frame_def
      Let_def wr_pte_def pde_def pte_def pt_def)

lemma init_frame_region_loop_ok:
  assumes "mem_inv s fs" "frame_aligned f" "unat e \<le> 0xFFFFF000" "0 < f"
    "length (region_frames f e) \<le> n"
    "\<And>g. g \<in> set (region_frames f e) \<Longrightarrow> unreferenced s g \<and> g \<notin> get_paddr ` set fs"
    "distinct (region_frames f e)"
  shows "\<exists>t. init_frame_region_loop n s f e = Inr t \<and> mem_inv t (rev (region_frames f e) @ fs) \<and>
    used_frames t = used_frames s \<and>
    total_frames t = total_frames s + word_of_nat (length (region_frames f e)) \<and>
    user_physical_map t = user_physical_map s"
  using assms
proof (induction n arbitrary: s fs f)
  case 0
  then have "\<not> f < e" using region_frames_step(1) [of f e] by auto
  then show ?case using 0 by (simp add: region_frames_empty)
next
  case (Suc n)
  show ?case
  proof (cases "f < e")
    case False
    then show ?thesis using Suc.prems by (simp add: region_frames_empty)
  next
    case True
    note step = region_frames_step [OF True Suc.prems(3)]
    let ?s = "s\<lparr>total_frames := total_frames s + 1, used_frames := used_frames s + 1\<rparr>"
    let ?t = "give_frame ?s f"
    have pf: "get_paddr f = f" using Suc.prems(2) by simp
    have f: "get_paddr f \<noteq> 0" "unreferenced ?s (get_paddr f)" "get_paddr f \<notin> get_paddr ` set fs"
      using Suc.prems(4) Suc.prems(6) [of f] by (simp_all add: pf step(1))
    have inv: "mem_inv ?s fs" using Suc.prems(1) by simp
    have call: "free_frame ?s f = Inr ?t"
      using free_frame_give mem_paging [OF inv] mem_window [OF inv] by blast
    have inv': "mem_inv ?t (f # fs)" by (rule give_frame_inv [OF inv f])
    have rest: "unreferenced ?t g \<and> g \<notin> get_paddr ` set (f # fs)"
      if "g \<in> set (region_frames (f + PAGE_SIZE) e)" for g
      using give_frame_unreferenced [OF inv f] Suc.prems(6,7) that by (auto simp: step(1) pf)
    have pos: "0 < f + PAGE_SIZE" using step(2) by (simp add: word_less_nat_alt)
    have fields: "used_frames ?t = used_frames s" "total_frames ?t = total_frames s + 1"
      "user_physical_map ?t = user_physical_map s"
      by (simp_all add: give_frame_def Let_def wr_pte_def)
    from Suc.IH [OF inv' frame_aligned_page_no [OF Suc.prems(2)] Suc.prems(3) pos _ rest]
      Suc.prems(5,7) True call fields show ?thesis
      by (auto simp: step(1) algebra_simps)
  qed
qed


subsection \<open>Which frames these are\<close>

lemma region_frames_unat:
  assumes e: "unat e \<le> 0xFFFFF000" and k: "k < (unat e + 4095 - unat f) div 4096"
  shows "unat (page_no f k) = unat f + 4096 * k" "page_no f k < e"
proof -
  have "4096 * (k + 1) \<le> 4096 * ((unat e + 4095 - unat f) div 4096)" using k by simp
  also have "\<dots> \<le> unat e + 4095 - unat f" by simp
  finally have "4096 * (k + 1) + unat f \<le> unat e + 4095"
    by (cases "unat f \<le> unat e + 4095") simp_all
  then have lt: "unat f + 4096 * k < unat e" by simp
  then show u: "unat (page_no f k) = unat f + 4096 * k" using e by (simp add: page_no_unat)
  show "page_no f k < e" using u lt by (simp add: word_less_nat_alt)
qed

lemma region_frames_distinct:
  assumes "unat e \<le> 0xFFFFF000"
  shows "distinct (region_frames f e)"
proof -
  have "inj_on (page_no f) {0..<(unat e + 4095 - unat f) div 4096}"
  proof (rule inj_onI)
    fix x y
    assume "x \<in> {0..<(unat e + 4095 - unat f) div 4096}" "y \<in> {0..<(unat e + 4095 - unat f) div 4096}"
      "page_no f x = page_no f y"
    moreover from calculation(1,2) have "unat (page_no f x) = unat f + 4096 * x"
      "unat (page_no f y) = unat f + 4096 * y"
      by (auto intro!: region_frames_unat(1) [OF assms] simp only: atLeastLessThan_iff)
    ultimately have "unat f + 4096 * x = unat f + 4096 * y" by (simp only:)
    then show "x = y" by simp
  qed
  then show ?thesis by (simp add: region_frames_def distinct_map)
qed

lemma region_frames_set:
  assumes e: "unat e \<le> 0xFFFFF000" and f: "frame_aligned f"
  shows "set (region_frames f e) = {g. frame_aligned g \<and> f \<le> g \<and> g < e}"
proof (intro set_eqI iffI)
  fix g
  assume "g \<in> set (region_frames f e)"
  then obtain k where k: "k < (unat e + 4095 - unat f) div 4096" "g = page_no f k"
    by (auto simp: region_frames_def)
  from region_frames_unat [OF e k(1)] k(2) f
  show "g \<in> {g. frame_aligned g \<and> f \<le> g \<and> g < e}"
    by (simp add: frame_unat word_le_nat_alt)
next
  fix g
  assume g: "g \<in> {g. frame_aligned g \<and> f \<le> g \<and> g < e}"
  then have "4096 dvd unat g - unat f" "unat f \<le> unat g" "unat g < unat e"
    using f by (simp_all add: frame_unat word_le_nat_alt word_less_nat_alt)
  then obtain k where "unat g - unat f = 4096 * k" by (auto elim!: dvdE)
  then have k: "unat g = unat f + 4096 * k" using \<open>unat f \<le> unat g\<close> by simp
  have "k < (unat e + 4095 - unat f) div 4096"
  proof -
    have "unat f + 4096 * k < unat e" using k \<open>unat g < unat e\<close> by simp
    then have "4096 * (k + 1) \<le> unat e + 4095 - unat f" by simp
    then have "k + 1 \<le> (unat e + 4095 - unat f) div 4096" by (simp add: less_eq_div_iff_mult_less_eq)
    then show ?thesis by simp
  qed
  moreover from region_frames_unat(1) [OF e this] k have "g = page_no f k"
    by (simp add: word_unat_eq_iff)
  ultimately show "g \<in> set (region_frames f e)" by (auto simp: region_frames_def)
qed

lemma align_next_unat:
  assumes "0 < a" "unat a \<le> 0xFFFFF000"
  shows "unat (align_next_frame (a - 1)) = (unat a + 4095) div 4096 * 4096"
proof -
  have a1: "unat (a - 1) = unat a - 1" "0 < unat a"
    using assms(1) by (simp_all add: unat_minus_1_u32 word_less_nat_alt)
  then have u: "unat (a - 1 + PAGE_SIZE) = unat a + 4095"
    using assms(2) by (simp add: PAGE_SIZE_def unat_add_u32)
  have "(unat a + 4095) div 4096 * 4096 \<le> unat a + 4095" by simp
  then have "(unat a + 4095) div 4096 * 4096 < 4294967296" using assms(2) by simp
  moreover have "unat (x div PAGE_SIZE * PAGE_SIZE) = unat x div 4096 * 4096 mod 4294967296" for x :: u32
    by (simp add: unat_word_ariths unat_div PAGE_SIZE_def mod_mult_left_eq)
  ultimately show ?thesis by (simp add: align_next_frame_def u)
qed

lemma align_next_least:
  assumes "0 < a" "unat a \<le> 0xFFFFF000" "frame_aligned g"
  shows "align_next_frame (a - 1) \<le> g \<longleftrightarrow> a \<le> g"
proof -
  obtain q where q: "unat g = 4096 * q" using assms(3) unfolding frame_unat by (rule dvdE)
  have "(unat a + 4095) div 4096 * 4096 \<le> 4096 * q \<longleftrightarrow> (unat a + 4095) div 4096 \<le> q" by simp
  also have "\<dots> \<longleftrightarrow> unat a \<le> 4096 * q"
    by (subst less_Suc_eq_le [symmetric], subst div_less_iff_less_mult) auto
  finally show ?thesis by (simp add: word_le_nat_alt align_next_unat [OF assms(1,2)] q)
qed


subsection \<open>Properties\<close>

lemma unat_get_paddr: "unat (get_paddr a) + unat a mod 4096 = unat a"
proof -
  obtain q where q: "unat (get_paddr a) = 4096 * q"
    using get_paddr_aligned [of a] unfolding frame_unat by (rule dvdE)
  have off: "unat (a AND 0xFFF) < 4096" by (simp add: unat_and_FFF)
  have "4096 * q < 4294967296" using unat_lt_u32 [of "get_paddr a"] q by simp
  then have "4096 * q + unat (a AND 0xFFF) < 4294967296" using off by simp
  then have "unat (get_paddr a + (a AND 0xFFF)) = unat (get_paddr a) + unat (a AND 0xFFF)"
    using q by (intro unat_add_u32) simp
  then show ?thesis by (simp add: get_paddr_plus unat_and_FFF)
qed

lemma user_frame_valid_iff:
  "user_frame_valid s p \<longleftrightarrow>
     (\<exists>m \<in> set (user_physical_map s). pm_addr m \<le> p \<and> p < pm_addr m + pm_len m)"
proof -
  have "user_frame_valid_loop ms p \<longleftrightarrow> (\<exists>m \<in> set ms. pm_addr m \<le> p \<and> p < pm_addr m + pm_len m)" for ms
    by (induction ms) (auto simp: Let_def)
  then show ?thesis by (simp add: user_frame_valid_def)
qed

text \<open>
  Giving a region to the free list. If no frame that starts in the region is in use, the
  loop ends, and exactly the frames that start in the region, each once, are put in front of
  the free list, whose invariant is kept; they count as available and not as used.
\<close>

theorem init_frame_region_correct:
  assumes inv: "mem_inv s fs" and b: "0 < start" "start < end" "unat end \<le> 0xFFFFF000"
    and fresh: "\<And>g. frame_aligned g \<Longrightarrow> start \<le> g \<Longrightarrow> g < end \<Longrightarrow>
      unreferenced s g \<and> g \<notin> get_paddr ` set fs"
  shows "\<exists>t gs. init_frame_region s start end = Inr t \<and> mem_inv t (gs @ fs) \<and> distinct gs \<and>
    set gs = {g. frame_aligned g \<and> start \<le> g \<and> g < end} \<and>
    used_frames t = used_frames s \<and> total_frames t = total_frames s + word_of_nat (length gs)"
proof -
  let ?f = "align_next_frame (start - 1)"
  have st: "unat start \<le> 0xFFFFF000" using b(2,3) by (simp add: word_less_nat_alt)
  note u = align_next_unat [OF b(1) st]
  have al: "frame_aligned ?f" by (simp add: frame_unat u)
  have pos: "0 < ?f"
  proof -
    have "0 < unat start" using b(1) by (simp add: word_less_nat_alt)
    then have "1 \<le> (unat start + 4095) div 4096" by (simp add: less_eq_div_iff_mult_less_eq)
    then show ?thesis by (simp add: word_less_nat_alt u)
  qed
  have set: "set (region_frames ?f end) = {g. frame_aligned g \<and> start \<le> g \<and> g < end}"
    using region_frames_set [OF b(3) al] align_next_least [OF b(1) st] by auto
  have "length (region_frames ?f end) \<le> (0xFFFFF000 + 4095) div 4096"
    unfolding region_frames_def using b(3) by (simp add: div_le_mono)
  then have len: "length (region_frames ?f end) \<le> 2 ^ 20" by simp
  have "unreferenced s g \<and> g \<notin> get_paddr ` set fs" if "g \<in> set (region_frames ?f end)" for g
    using that fresh unfolding set by blast
  from init_frame_region_loop_ok [OF inv al b(3) pos len this region_frames_distinct [OF b(3)]]
  obtain t where "init_frame_region_loop (2 ^ 20) s ?f end = Inr t"
    "mem_inv t (rev (region_frames ?f end) @ fs)" "used_frames t = used_frames s"
    "total_frames t = total_frames s + word_of_nat (length (region_frames ?f end))" by blast
  then show ?thesis
    using b(2) set region_frames_distinct [OF b(3)]
    by (intro exI [of _ t] exI [of _ "rev (region_frames ?f end)"])
      (simp add: init_frame_region_def del: init_frame_region_loop.simps)
qed

theorem init_frame_region_correct_witness:
  "\<exists>t gs. init_frame_region demo 0x8001 0xA001 = Inr t \<and> mem_inv t (gs @ [0x3000, 0x4000]) \<and>
     set gs = {g. frame_aligned g \<and> 0x8001 \<le> g \<and> g < 0xA001}"
proof -
  have "unreferenced demo g \<and> g \<notin> get_paddr ` set [0x3000, 0x4000]"
    if "frame_aligned g" "0x8001 \<le> g" "g < 0xA001" for g
    using that by (auto simp: demo_unreferenced get_paddr_def word_le_nat_alt)
  from init_frame_region_correct [OF demo_inv _ _ _ this] show ?thesis by force
qed

end
