(* ===== verification/MailboxProps.thy ===== *)
theory MailboxProps
  imports Mailbox BootFrames
begin

section \<open>A mailbox is a bounded ring of messages\<close>

text \<open>
  The two mappings of the page make the bytes from any offset on contiguous in virtual memory.
  A mailbox represents the bytes between its head and its tail; these are the encoded messages
  that were sent and not removed.
\<close>

unbundle bit_operations_syntax

subsection \<open>Copies of byte lists\<close>

lemma copy_out_ok:
  assumes "paging_ok s" "writable_range s v (length bs) d"
  shows "\<exists>m. copy_out s v bs = Inr (s\<lparr>pmem := m\<rparr>) \<and> paging_eq s (s\<lparr>pmem := m\<rparr>) \<and>
    (\<forall>k < length bs. m (d k) = bs ! k) \<and> (\<forall>a. a \<notin> d ` {..<length bs} \<longrightarrow> m a = pmem s a)"
  using assms
proof (induction bs arbitrary: s v d)
  case Nil
  then show ?case by (auto intro: exI [of _ "pmem s"] simp: paging_eq_def)
next
  case (Cons b bs)
  note wr = writable_range_Suc [OF Cons.prems(2) [unfolded length_Cons]]
  let ?s = "put_byte s (d 0) b"
  have eq: "paging_eq s ?s" by (rule put_byte_paging [OF Cons.prems(1) wr(2)])
  have ok: "paging_ok ?s" using Cons.prems(1) paging_eq_ok [OF eq] by simp
  have "writable_range ?s (v + 1) (length bs) (\<lambda>k. d (Suc k))"
    using wr(3) writable_range_paging_eq [OF Cons.prems(1) eq] by simp
  from Cons.IH [OF ok this] obtain m where m: "copy_out ?s (v + 1) bs = Inr (s\<lparr>pmem := m\<rparr>)"
    "paging_eq ?s (s\<lparr>pmem := m\<rparr>)" "\<forall>k < length bs. m (d (Suc k)) = bs ! k"
    "\<forall>a. a \<notin> (\<lambda>k. d (Suc k)) ` {..<length bs} \<longrightarrow> m a = ((pmem s)(d 0 := b)) a" by auto
  have "d 0 \<notin> (\<lambda>k. d (Suc k)) ` {..<length bs}" using wr(4) by (metis imageE lessThan_iff)
  then have "m (d 0) = b" using m(4) by simp
  then have "\<forall>k < length (b # bs). m (d k) = (b # bs) ! k" using m(3) by (auto simp: less_Suc_eq_0_disj)
  moreover have "\<forall>a. a \<notin> d ` {..<length (b # bs)} \<longrightarrow> m a = pmem s a"
    using m(4) by (auto simp: lessThan_Suc_eq_insert_0 image_image)
  ultimately show ?case
    using m(1) paging_eq_trans [OF eq m(2)] by (auto simp: vwrite8_put [OF wr(1)])
qed

lemma copy_in_ok: "range_at s v n r \<Longrightarrow> copy_in n s v = Inr (map (\<lambda>k. pmem s (r k)) [0..<n])"
proof (induction n arbitrary: v r)
  case (Suc n)
  have "map (\<lambda>k. pmem s (r k)) [0..<Suc n] = pmem s (r 0) # map (\<lambda>k. pmem s (r (Suc k))) [0..<n]"
    by (simp add: map_upt_Suc del: upt_Suc)
  then show ?case using Suc by (simp add: range_at_Suc vread8_def del: upt_Suc)
qed simp

lemma range_at_sub: "range_at s v n d \<Longrightarrow> j + k \<le> n \<Longrightarrow> range_at s (v + word_of_nat j) k (\<lambda>i. d (j + i))"
  by (force simp: range_at_def add.assoc simp flip: of_nat_add)

lemma writable_range_sub:
  assumes "writable_range s v n d" "j + k \<le> n"
  shows "writable_range s (v + word_of_nat j) k (\<lambda>i. d (j + i))"
proof -
  have inj: "inj_on d {..<n}" using assms(1) by (simp add: writable_range_def)
  have "inj_on (\<lambda>i. d (j + i)) {..<k}"
  proof (rule inj_onI)
    fix x y
    assume "x \<in> {..<k}" "y \<in> {..<k}" "d (j + x) = d (j + y)"
    then show "x = y" using inj_onD [OF inj, of "j + x" "j + y"] assms(2) by simp
  qed
  then show ?thesis using assms range_at_sub [of s v n d j k] by (auto simp: writable_range_def)
qed

subsection \<open>Bytes and headers\<close>

lemma of_le32_le32 [simp]: "of_le32 (le32 v) = v"
proof (rule bit_word_eqI)
  fix n
  assume n: "n < LENGTH(32)"
  consider "n < 8" | "8 \<le> n" "n < 16" | "16 \<le> n" "n < 24" | "24 \<le> n" by linarith
  then show "bit (of_le32 (le32 v)) n \<longleftrightarrow> bit v n"
    by cases (use n in \<open>auto simp: of_le32_def le32_def bit_simps\<close>)
qed

lemma length_le32 [simp]: "length (le32 v) = 4"
  by (simp add: le32_def)

lemma length_header_bytes [simp]: "length (header_bytes h) = 9"
  by (simp add: header_bytes_def)

lemma bytes_header_bytes [simp]: "bytes_header (header_bytes h @ xs) = h"
  by (simp add: bytes_header_def header_bytes_def nth_append)

lemma header_bytes_zero: "le32 0 = [0, 0, 0, 0]"
  by (simp add: le32_def)

subsection \<open>The ring\<close>

definition ring_mem :: "kmem \<Rightarrow> u32 \<Rightarrow> u32 \<Rightarrow> bool" where
  "ring_mem s v f \<longleftrightarrow> paging_ok s \<and> frame_aligned v \<and> frame_aligned f \<and> \<not> table_frame s f \<and>
     unat v + 8192 < 2 ^ 32 \<and>
     (\<forall>k < 8192. translate s (v + word_of_nat k) = Inr (f + word_of_nat (k mod 4096)))"

definition ring_at :: "u32 \<Rightarrow> nat \<Rightarrow> nat \<Rightarrow> u32" where
  "ring_at f p k = f + word_of_nat ((p + k) mod 4096)"

definition ring_bytes :: "kmem \<Rightarrow> u32 \<Rightarrow> nat \<Rightarrow> nat \<Rightarrow> u8 list" where
  "ring_bytes s f p n = map (\<lambda>k. pmem s (ring_at f p k)) [0..<n]"

lemma frame_word: "k < 4096 \<Longrightarrow> (word_of_nat k :: u32) < 0x1000" "k < 4096 \<Longrightarrow> unat (word_of_nat k :: u32) = k"
  by (simp_all add: word_less_nat_alt unat_of_nat take_bit_nat_eq_self)

lemma ring_at_eq:
  assumes "frame_aligned f"
  shows "ring_at f p j = ring_at f q k \<longleftrightarrow> (p + j) mod 4096 = (q + k) mod 4096"
proof -
  have "ring_at f p j = ring_at f q k \<longleftrightarrow> (word_of_nat ((p + j) mod 4096) :: u32) = word_of_nat ((q + k) mod 4096)"
    unfolding ring_at_def by simp
  also have "\<dots> \<longleftrightarrow> (p + j) mod 4096 = (q + k) mod 4096"
    using frame_word(2) [of "(p + j) mod 4096"] frame_word(2) [of "(q + k) mod 4096"] by (metis mod_less_divisor zero_less_numeral)
  finally show ?thesis .
qed

lemma ring_at_paddr: "frame_aligned f \<Longrightarrow> get_paddr (ring_at f p k) = f"
  unfolding ring_at_def by (rule get_paddr_offset) (auto intro: frame_word)

lemma ring_range:
  assumes "ring_mem s v f" "p + n \<le> 8192"
  shows "range_at s (v + word_of_nat p) n (ring_at f p)"
  unfolding range_at_def
proof (intro allI impI)
  fix k
  assume "k < n"
  then have "p + k < 8192" using assms(2) by simp
  then have "translate s (v + word_of_nat (p + k)) = Inr (f + word_of_nat ((p + k) mod 4096))"
    using assms(1) unfolding ring_mem_def by blast
  then show "translate s (v + word_of_nat p + word_of_nat k) = Inr (ring_at f p k)"
    by (simp only: ring_at_def of_nat_add add.assoc)
qed

lemma ring_inj: "frame_aligned f \<Longrightarrow> n \<le> 4096 \<Longrightarrow> inj_on (ring_at f p) {..<n}"
proof (rule inj_onI)
  fix j k
  assume a: "frame_aligned f" "n \<le> 4096" "j \<in> {..<n}" "k \<in> {..<n}" "ring_at f p j = ring_at f p k"
  then have "(p + j) mod 4096 = (p + k) mod 4096" by (simp add: ring_at_eq)
  then show "j = k" using a add_mod_inj [of j 4096 k p] by simp
qed

lemma ring_writable:
  assumes "ring_mem s v f" "p + n \<le> 8192" "n \<le> 4096"
  shows "writable_range s (v + word_of_nat p) n (ring_at f p)"
proof -
  have f: "frame_aligned f" "\<not> table_frame s f" using assms(1) by (simp_all add: ring_mem_def)
  show ?thesis
    unfolding writable_range_def using ring_range [OF assms(1,2)] ring_inj [OF f(1) assms(3)] ring_at_paddr [OF f(1)] f(2)
    by simp
qed

lemma ring_mem_paging:
  assumes "ring_mem s v f" "paging_eq s t"
  shows "ring_mem t v f"
proof -
  have ok: "paging_ok s" using assms(1) by (simp add: ring_mem_def)
  show ?thesis
    using assms(1) unfolding ring_mem_def paging_eq_ok [OF assms(2)] paging_eq_table [OF assms(2)]
      paging_eq_translate [OF ok assms(2)] .
qed

lemma ring_bytes_append: "ring_bytes s f p (j + k) = ring_bytes s f p j @ ring_bytes s f (p + j) k"
proof -
  have "map (\<lambda>i. j + i) [0..<k] = [j..<j + k]"
    using map_add_upt [of j k] by (simp add: add.commute)
  then have "[0..<j + k] = [0..<j] @ map (\<lambda>i. j + i) [0..<k]"
    using upt_add_eq_append [of 0 j k] by simp
  then show ?thesis by (simp add: ring_bytes_def ring_at_def add.assoc)
qed

lemma ring_bytes_mod: "ring_bytes s f (p mod 4096) n = ring_bytes s f p n"
  by (simp add: ring_bytes_def ring_at_def mod_add_left_eq)

lemma length_ring_bytes [simp]: "length (ring_bytes s f p n) = n"
  by (simp add: ring_bytes_def)

lemma ring_bytes_other:
  assumes "\<And>a. get_paddr a = f \<Longrightarrow> m a = pmem s a" "frame_aligned f"
  shows "ring_bytes (s\<lparr>pmem := m\<rparr>) f p n = ring_bytes s f p n"
  using assms by (simp add: ring_bytes_def ring_at_paddr)


subsection \<open>Addresses in the ring\<close>

lemma page_ptr_get_paddr: "page_ptr a = get_paddr a"
  by (rule bit_word_eqI) (auto simp: page_ptr_def bit_simps)

lemma page_offset_and: "page_offset a = a AND 0xFFF"
  by (rule bit_word_eqI) (auto simp: page_offset_def masks bit_simps dest: bit_imp_le_length)

lemma page_offset_frame: "frame_aligned f \<Longrightarrow> off < 0x1000 \<Longrightarrow> page_offset (f + off) = off"
  using frame_decomp [of f off "f + off"] by (simp add: page_offset_and)

lemma ring_wrap:
  assumes "frame_aligned v" "x < 8192"
  shows "(if page_ptr (v + word_of_nat x) = v + 4096 then v + page_offset (v + word_of_nat x) else v + word_of_nat x)
    = v + word_of_nat (x mod 4096)"
proof (cases "x < 4096")
  case True
  then have "page_ptr (v + word_of_nat x) = v"
    using assms(1) frame_word [OF True] by (simp add: page_ptr_get_paddr)
  then show ?thesis using True by simp
next
  case False
  then obtain y where y: "x = 4096 + y" "y < 4096" using assms(2)
    by (intro that [of "x - 4096"]) simp_all
  have al: "frame_aligned (v + 4096)" using frame_aligned_page_no [OF assms(1)] by (simp add: PAGE_SIZE_def)
  have eq: "v + word_of_nat x = (v + 4096) + word_of_nat y" by (simp add: y(1) add.assoc)
  have "page_ptr (v + word_of_nat x) = v + 4096" "page_offset (v + word_of_nat x) = word_of_nat y"
    unfolding eq using al frame_word(1) [OF y(2)] by (simp_all add: page_ptr_get_paddr page_offset_frame)
  then show ?thesis using y by simp
qed

subsection \<open>The bytes a mailbox holds\<close>

definition mailbox_rep :: "kmem \<Rightarrow> MailboxHeader \<Rightarrow> u32 \<Rightarrow> nat \<Rightarrow> u8 list \<Rightarrow> bool" where
  "mailbox_rep s mb f hp bs \<longleftrightarrow> ring_mem s (first_page mb) f \<and> copy_page mb = first_page mb + 4096 \<and>
     capacity mb = 4096 \<and> hp < 4096 \<and> length bs \<le> 4096 \<and>
     mb_head mb = first_page mb + word_of_nat hp \<and>
     mb_tail mb = first_page mb + word_of_nat ((hp + length bs) mod 4096) \<and>
     used_size mb = word_of_nat (length bs) \<and> ring_bytes s f hp (length bs) = bs"

lemma copy_out_append:
  "copy_out s v (as @ bs) = bind_res (copy_out s v as) (\<lambda>s. copy_out s (v + word_of_nat (length as)) bs)"
proof (induction as arbitrary: s v)
  case (Cons a as)
  show ?case
    by (cases "vwrite8 s v a") (simp_all add: Cons.IH add.assoc)
qed simp

lemma ring_write:
  assumes "ring_mem s v f" "p < 4096" "length bs \<le> 4096"
  shows "\<exists>m. copy_out s (v + word_of_nat p) bs = Inr (s\<lparr>pmem := m\<rparr>) \<and> ring_mem (s\<lparr>pmem := m\<rparr>) v f \<and>
    ring_bytes (s\<lparr>pmem := m\<rparr>) f p (length bs) = bs \<and>
    (\<forall>a. a \<notin> ring_at f p ` {..<length bs} \<longrightarrow> m a = pmem s a)"
proof -
  have wr: "writable_range s (v + word_of_nat p) (length bs) (ring_at f p)"
    using ring_writable [OF assms(1)] assms(2,3) by simp
  have ok: "paging_ok s" using assms(1) by (simp add: ring_mem_def)
  obtain m where m: "copy_out s (v + word_of_nat p) bs = Inr (s\<lparr>pmem := m\<rparr>)" "paging_eq s (s\<lparr>pmem := m\<rparr>)"
    "\<forall>k < length bs. m (ring_at f p k) = bs ! k" "\<forall>a. a \<notin> ring_at f p ` {..<length bs} \<longrightarrow> m a = pmem s a"
    using copy_out_ok [OF ok wr] by blast
  moreover have "ring_bytes (s\<lparr>pmem := m\<rparr>) f p (length bs) = bs"
    by (rule nth_equalityI) (use m(3) in \<open>simp_all add: ring_bytes_def\<close>)
  ultimately show ?thesis using ring_mem_paging [OF assms(1) m(2)] by blast
qed

text \<open>Bytes that are written after the last one leave the others alone while there is room.\<close>

lemma ring_bytes_keep:
  assumes "frame_aligned f" "n + k \<le> 4096" "\<forall>a. a \<notin> ring_at f (p + n) ` {..<k} \<longrightarrow> m a = pmem s a"
  shows "ring_bytes (s\<lparr>pmem := m\<rparr>) f p n = ring_bytes s f p n"
proof -
  have "m (ring_at f p j) = pmem s (ring_at f p j)" if "j < n" for j
  proof -
    have "ring_at f p j \<noteq> ring_at f (p + n) i" if "i < k" for i
    proof -
      have "(p + j) mod 4096 \<noteq> (p + (n + i)) mod 4096"
        using add_mod_inj [of j 4096 "n + i" p] \<open>j < n\<close> that assms(2) by auto
      then show ?thesis by (simp add: ring_at_eq [OF assms(1)] add.assoc)
    qed
    then show ?thesis using assms(3) by auto
  qed
  then show ?thesis by (simp add: ring_bytes_def)
qed

lemma ring_at_mod: "ring_at f (p mod 4096) = ring_at f p"
  by (rule ext) (simp add: ring_at_def mod_add_left_eq)

end
