(* ===== verification/MailboxFifo.thy ===== *)
theory MailboxFifo
  imports MailboxProps
begin

section \<open>Messages in a mailbox\<close>

text \<open>
  A mailbox holds a list of messages. Sending appends one, reading takes the first one that
  matches: it is removed when it is the oldest and crossed out when it is not.
\<close>

unbundle bit_operations_syntax

subsection \<open>Sending\<close>

lemma ucast_u16_u32: "n < 65536 \<Longrightarrow> (ucast (word_of_nat n :: u16) :: u32) = word_of_nat n"
  by (simp add: word_unat_eq_iff unsigned_ucast_eq unat_of_nat take_bit_nat_eq_self)

lemma ucast_u8_u32: "unat (d :: u8) = k \<Longrightarrow> (ucast d :: u32) = word_of_nat k"
  by (auto simp: word_unat_eq_iff unsigned_ucast_eq)

lemma mailbox_full_iff:
  assumes "n \<le> 4096"
  shows "ucast (word_of_nat n :: u16) + SIZEOF_MessageHeader + ucast (d :: u8) > (ucast (4096 :: u16) :: u32) \<longleftrightarrow>
    n + (9 + unat d) > 4096"
proof -
  obtain k where k: "unat d = k" "k < 256" using unsigned_less [of d] by simp
  have n: "n < 65536" using assms by simp
  have "ucast (word_of_nat n :: u16) + SIZEOF_MessageHeader + ucast d = (word_of_nat (n + (9 + k)) :: u32)"
    unfolding ucast_u16_u32 [OF n] ucast_u8_u32 [OF k(1)] SIZEOF_MessageHeader_def by simp
  moreover have "(ucast (4096 :: u16) :: u32) = word_of_nat 4096" by simp
  moreover have "unat (word_of_nat (n + (9 + k)) :: u32) = n + (9 + k)"
    using assms k(2) by (simp add: unat_of_nat take_bit_nat_eq_self del: of_nat_add of_nat_numeral)
  ultimately show ?thesis by (simp add: word_less_nat_alt k(1))
qed

lemma ring_mem_frames: "ring_mem s v f \<Longrightarrow> frame_aligned v" "ring_mem s v f \<Longrightarrow> frame_aligned f"
  by (simp_all add: ring_mem_def)

lemma ring_outside: "frame_aligned f \<Longrightarrow> get_paddr a \<noteq> f \<Longrightarrow> a \<notin> ring_at f p ` A"
  by (auto simp: ring_at_paddr)

definition message_bytes :: "MailboxMessageHeader \<Rightarrow> u8 list \<Rightarrow> u8 list" where
  "message_bytes h data = header_bytes h @ take (unat (data_size h)) data"

lemma mailbox_send_ok:
  assumes rep: "mailbox_rep s mb f hp bs" and len: "unat dsize \<le> length data"
    and msg: "msg = message_bytes \<lparr>sender_pid = sp, reader_pid = rp, data_size = dsize\<rparr> data"
    and room: "length bs + length msg \<le> 4096"
  obtains mb' m where "mailbox_send_message s mb sp rp dsize data = Inr (True, mb', s\<lparr>pmem := m\<rparr>)"
    "mailbox_rep (s\<lparr>pmem := m\<rparr>) mb' f hp (bs @ msg)"
    "\<And>a. get_paddr a \<noteq> f \<Longrightarrow> m a = pmem s a"
    "first_page mb' = first_page mb"
proof -
  let ?h = "\<lparr>sender_pid = sp, reader_pid = rp, data_size = dsize\<rparr>" and ?v = "first_page mb"
  obtain k where k: "unat dsize = k" "k < 256" using unsigned_less [of dsize] by simp
  let ?t = "(hp + length bs) mod 4096" and ?n = "9 + k"
  have r: "ring_mem s ?v f" "copy_page mb = ?v + 4096" "capacity mb = 4096" "hp < 4096" "length bs \<le> 4096"
    "mb_head mb = ?v + word_of_nat hp" "mb_tail mb = ?v + word_of_nat ?t"
    "used_size mb = word_of_nat (length bs)" "ring_bytes s f hp (length bs) = bs"
    using rep by (simp_all add: mailbox_rep_def)
  note al = ring_mem_frames [OF r(1)]
  have m_eq: "msg = header_bytes ?h @ take (unat dsize) data" by (simp add: msg message_bytes_def)
  have n: "length msg = ?n" using len k(1) by (simp add: m_eq)
  obtain m where m: "copy_out s (?v + word_of_nat ?t) msg = Inr (s\<lparr>pmem := m\<rparr>)"
    "ring_mem (s\<lparr>pmem := m\<rparr>) ?v f" "ring_bytes (s\<lparr>pmem := m\<rparr>) f ?t (length msg) = msg"
    "\<forall>a. a \<notin> ring_at f ?t ` {..<length msg} \<longrightarrow> m a = pmem s a"
    using ring_write [OF r(1), of ?t msg] room by auto
  obtain s1 where s1: "copy_out s (mb_tail mb) (header_bytes ?h) = Inr s1"
    "copy_out s1 (mb_tail mb + 9) (take (unat dsize) data) = Inr (s\<lparr>pmem := m\<rparr>)"
    using m(1) unfolding m_eq copy_out_append r(7) by (cases "copy_out s (?v + word_of_nat ?t) (header_bytes ?h)") auto
  have tail: "mb_tail mb + 9 + ucast dsize = ?v + word_of_nat (?t + ?n)"
    unfolding r(7) ucast_u8_u32 [OF k(1)] by (simp add: add.assoc)
  have "?t < 4096" by simp
  then have "?t + ?n < 8192" using k(2) by linarith
  note wrap = ring_wrap [OF al(1) this]
  let ?mb = "mb\<lparr>mb_tail := ?v + word_of_nat ((hp + length (bs @ msg)) mod 4096),
    used_size := word_of_nat (length (bs @ msg))\<rparr>"
  have lb: "length bs < 65536" using r(5) by simp
  have sum: "ucast (used_size mb) + (SIZEOF_MessageHeader + ucast dsize) = (word_of_nat (length (bs @ msg)) :: u32)"
    unfolding r(8) ucast_u16_u32 [OF lb] ucast_u8_u32 [OF k(1)] SIZEOF_MessageHeader_def by (simp add: n)
  have cast: "(ucast (word_of_nat j :: u32) :: u16) = word_of_nat j" if "j < 65536" for j
    using that by (simp add: word_unat_eq_iff unsigned_ucast_eq unat_of_nat take_bit_nat_eq_self)
  have "(ucast (ucast (used_size mb) + (SIZEOF_MessageHeader + ucast dsize) :: u32) :: u16) =
      word_of_nat (length (bs @ msg))"
  proof -
    have "length (bs @ msg) < 65536" using room by simp
    with cast [of "length (bs @ msg)"] sum show ?thesis by (simp only:)
  qed
  note used = this
  have "(?t + ?n) mod 4096 = (hp + length (bs @ msg)) mod 4096"
    by (simp only: n length_append mod_add_left_eq add.assoc)
  note wrap = wrap [unfolded this]
  obtain x where x: "mb_tail mb + 9 + ucast dsize = x" by simp
  note wrap = wrap [folded tail, unfolded x]
  have fits: "\<not> ucast (used_size mb) + SIZEOF_MessageHeader + ucast dsize > (ucast (capacity mb) :: u32)"
    using mailbox_full_iff [OF r(5), of dsize] room by (simp add: r(3,8) n k(1))
  have send: "mailbox_send_message s mb sp rp dsize data = Inr (True, ?mb, s\<lparr>pmem := m\<rparr>)"
  proof (cases "page_ptr x = ?v + 4096")
    case True
    then show ?thesis
      using s1 fits wrap used unfolding mailbox_send_message_def Let_def SIZEOF_MessageHeader_def by (simp add: r(2) x)
  next
    case False
    then show ?thesis
      using s1 fits wrap used unfolding mailbox_send_message_def Let_def SIZEOF_MessageHeader_def by (simp add: r(2) x)
  qed
  have keep: "ring_bytes (s\<lparr>pmem := m\<rparr>) f hp (length bs) = bs"
    using ring_bytes_keep [OF al(2) room, of hp m s] m(4) r(9) by (simp add: ring_at_mod)
  have "ring_bytes (s\<lparr>pmem := m\<rparr>) f hp (length (bs @ msg)) = bs @ msg"
    unfolding length_append ring_bytes_append keep using m(3) by (simp only: ring_bytes_mod)
  then have "mailbox_rep (s\<lparr>pmem := m\<rparr>) ?mb f hp (bs @ msg)"
    using m(2) r(2-6) room by (simp add: mailbox_rep_def)
  moreover have "m a = pmem s a" if "get_paddr a \<noteq> f" for a
    using m(4) ring_outside [OF al(2) that] by blast
  ultimately show ?thesis using that send by simp
qed

lemma mailbox_send_full:
  assumes rep: "mailbox_rep s mb f hp bs" and full: "length bs + (9 + unat dsize) > 4096"
  shows "mailbox_send_message s mb sp rp dsize data = Inr (False, mb, s)"
proof -
  have r: "capacity mb = 4096" "length bs \<le> 4096" "used_size mb = word_of_nat (length bs)"
    using rep by (simp_all add: mailbox_rep_def)
  show ?thesis
    using mailbox_full_iff [OF r(2), of dsize] full
    by (simp add: mailbox_send_message_def Let_def mailbox_grow_def r(1,3))
qed


subsection \<open>Bytes in the ring and in the buffer of the reader\<close>

text \<open>The largest message has 264 bytes. The buffer of the reader has room for it and shares
  no frame with the mailbox.\<close>

definition reader_buffer :: "kmem \<Rightarrow> u32 \<Rightarrow> (nat \<Rightarrow> u32) \<Rightarrow> u32 \<Rightarrow> bool" where
  "reader_buffer s message d f \<longleftrightarrow> writable_range s message 264 d \<and> (\<forall>k < 264. get_paddr (d k) \<noteq> f)"

text \<open>\<open>t\<close> differs from \<open>s\<close> in the contents of the addresses \<open>A\<close> at most, none of which is
  in a page table.\<close>

definition wrote :: "kmem \<Rightarrow> kmem \<Rightarrow> u32 set \<Rightarrow> bool" where
  "wrote s t A \<longleftrightarrow> (\<exists>m. t = s\<lparr>pmem := m\<rparr>) \<and> paging_eq s t \<and> (\<forall>a. a \<notin> A \<longrightarrow> pmem t a = pmem s a)"

lemma wrote_refl: "wrote s s A"
  unfolding wrote_def by (auto simp: paging_eq_def intro: exI [of _ "pmem s"])

lemma wrote_trans: "wrote s t A \<Longrightarrow> wrote t u B \<Longrightarrow> wrote s u (A \<union> B)"
  unfolding wrote_def by (auto intro: paging_eq_trans)

lemma wrote_mono: "wrote s t A \<Longrightarrow> A \<subseteq> B \<Longrightarrow> wrote s t B"
  unfolding wrote_def by blast

lemma wrote_ring: "ring_mem s v f \<Longrightarrow> wrote s t A \<Longrightarrow> ring_mem t v f"
  unfolding wrote_def by (blast intro: ring_mem_paging)

lemma wrote_buffer:
  assumes "ring_mem s v f" "reader_buffer s message d f" "wrote s t A"
  shows "reader_buffer t message d f"
proof -
  have "paging_ok s" "paging_eq s t" using assms(1,3) by (simp_all add: ring_mem_def wrote_def)
  then show ?thesis using assms(2) writable_range_paging_eq [of s t] by (simp add: reader_buffer_def)
qed

lemma buffer_outside: "reader_buffer s message d f \<Longrightarrow> n \<le> 264 \<Longrightarrow> frame_aligned f \<Longrightarrow> ring_at f p k \<notin> d ` {..<n}"
  unfolding reader_buffer_def by (metis imageE lessThan_iff less_le_trans ring_at_paddr)

lemma wrote_buffer_bytes:
  assumes "reader_buffer s message d f" "frame_aligned f" "wrote s t (d ` {..<n})" "n \<le> 264"
  shows "ring_bytes t f p j = ring_bytes s f p j"
proof -
  have "pmem t (ring_at f p k) = pmem s (ring_at f p k)" for k
    using assms(3) buffer_outside [OF assms(1,4,2)] unfolding wrote_def by blast
  then show ?thesis by (simp add: ring_bytes_def)
qed

lemma ring_bytes_nth: "k < n \<Longrightarrow> ring_bytes s f p n ! k = pmem s (ring_at f p k)"
  by (simp add: ring_bytes_def)

lemma ring_bytes_mid:
  assumes "ring_bytes s f p n = xs @ ys @ zs"
  shows "ring_bytes s f (p + length xs) (length ys) = ys"
proof -
  have n: "n = length xs + (length ys + length zs)" using arg_cong [OF assms, of length] by simp
  show ?thesis using assms unfolding n ring_bytes_append by simp
qed

lemma ring_header:
  assumes "ring_mem s v f" "p + 9 \<le> 8192"
  shows "bytes_to_message_header s (v + word_of_nat p) = Inr (bytes_header (ring_bytes s f p 9))"
  using copy_in_ok [OF ring_range [OF assms]]
  by (simp add: bytes_to_message_header_def SIZEOF_MessageHeader_def ring_bytes_def)

text \<open>Copying bytes of the ring to the buffer, from offset \<open>j\<close> of the message on.\<close>

lemma copy_to_reader:
  assumes r: "ring_mem s v f" and b: "reader_buffer s message d f"
    and n: "p + j + unat n \<le> 8192" "j + unat n \<le> 264"
  obtains t where "pmemcpy s (message + word_of_nat j) (v + word_of_nat (p + j)) n = Inr t"
    "wrote s t ((\<lambda>k. d (j + k)) ` {..<unat n})"
    "\<And>k. k < unat n \<Longrightarrow> pmem t (d (j + k)) = pmem s (ring_at f p (j + k))"
proof -
  have ok: "paging_ok s" and al: "frame_aligned f" using r by (simp_all add: ring_mem_def)
  have w: "writable_range s (message + word_of_nat j) (unat n) (\<lambda>k. d (j + k))"
    using writable_range_sub [OF _ n(2)] b by (simp add: reader_buffer_def)
  have src: "range_at s (v + word_of_nat (p + j)) (unat n) (ring_at f (p + j))"
    by (rule ring_range [OF r n(1)])
  have ne: "d (j + k) \<noteq> ring_at f (p + j) l" if "k < l" "l < unat n" for k l
  proof -
    have "d (j + k) \<in> d ` {..<264}" using that n(2) by (intro imageI) simp
    then show ?thesis using buffer_outside [OF b order_refl al, of "p + j" l] by metis
  qed
  obtain m where m: "pmemcpy_loop (unat n) s (message + word_of_nat j) (v + word_of_nat (p + j)) = Inr (s\<lparr>pmem := m\<rparr>)"
    "paging_eq s (s\<lparr>pmem := m\<rparr>)" "\<forall>k < unat n. m (d (j + k)) = pmem s (ring_at f (p + j) k)"
    "\<forall>a. a \<notin> (\<lambda>k. d (j + k)) ` {..<unat n} \<longrightarrow> m a = pmem s a"
    using pmemcpy_loop_ok [OF ok w src ne] by blast
  show ?thesis
  proof (rule that [of "s\<lparr>pmem := m\<rparr>"])
    show "pmemcpy s (message + word_of_nat j) (v + word_of_nat (p + j)) n = Inr (s\<lparr>pmem := m\<rparr>)"
      unfolding pmemcpy_def by (rule m(1))
    show "wrote s (s\<lparr>pmem := m\<rparr>) ((\<lambda>k. d (j + k)) ` {..<unat n})"
      unfolding wrote_def using m(2,4) by auto
    show "pmem (s\<lparr>pmem := m\<rparr>) (d (j + k)) = pmem s (ring_at f p (j + k))" if "k < unat n" for k
      using m(3) that by (simp add: ring_at_def add.assoc)
  qed
qed


subsection \<open>Lists of messages\<close>

type_synonym mailbox_message = "MailboxMessageHeader \<times> u8 list"

definition message_ok :: "mailbox_message \<Rightarrow> bool" where
  "message_ok x \<longleftrightarrow> length (snd x) = unat (data_size (fst x))"

definition mbytes :: "mailbox_message \<Rightarrow> u8 list" where
  "mbytes x = header_bytes (fst x) @ snd x"

definition msgs_bytes :: "mailbox_message list \<Rightarrow> u8 list" where
  "msgs_bytes xs = concat (map mbytes xs)"

lemma msgs_bytes_simps [simp]:
  "msgs_bytes [] = []" "msgs_bytes (x # xs) = mbytes x @ msgs_bytes xs"
  "msgs_bytes (xs @ ys) = msgs_bytes xs @ msgs_bytes ys"
  by (simp_all add: msgs_bytes_def)

lemma length_mbytes: "message_ok x \<Longrightarrow> length (mbytes x) = 9 + unat (data_size (fst x))"
  by (simp add: mbytes_def message_ok_def)

lemma mbytes_size:
  shows "message_ok x \<Longrightarrow> length (mbytes x) \<le> 264" "message_ok x \<Longrightarrow> 9 \<le> length (mbytes x)"
proof -
  have "unat (data_size (fst x)) < 256" using unsigned_less [of "data_size (fst x)"] by simp
  then show "message_ok x \<Longrightarrow> length (mbytes x) \<le> 264" by (simp add: length_mbytes)
  show "message_ok x \<Longrightarrow> 9 \<le> length (mbytes x)" by (simp add: mbytes_def)
qed

definition matches :: "u32 \<Rightarrow> u32 \<Rightarrow> mailbox_message \<Rightarrow> bool" where
  "matches sender reader x \<longleftrightarrow> match_pid (sender_pid (fst x)) sender \<and> match_pid (reader_pid (fst x)) reader"

text \<open>The number of messages in front of the first one that matches.\<close>

definition misses :: "u32 \<Rightarrow> u32 \<Rightarrow> mailbox_message list \<Rightarrow> nat" where
  "misses sender reader xs = length (takeWhile (\<lambda>x. \<not> matches sender reader x) xs)"

lemma misses_simps [simp]:
  "misses sender reader [] = 0"
  "misses sender reader (x # xs) = (if matches sender reader x then 0 else Suc (misses sender reader xs))"
  by (simp_all add: misses_def)

text \<open>The fields of a header that was copied to the buffer.\<close>

lemma buffer_header:
  assumes b: "reader_buffer t message d f" and h: "\<And>k. k < 9 \<Longrightarrow> pmem t (d k) = header_bytes h ! k"
  shows "read_le32 t message = Inr (sender_pid h)" "read_le32 t (message + 4) = Inr (reader_pid h)"
    "vread8 t (message + 8) = Inr (data_size h)"
proof -
  have r: "range_at t message 264 d" using b by (simp add: reader_buffer_def writable_range_def)
  have at: "copy_in k t (message + word_of_nat j) = Inr (map (\<lambda>i. pmem t (d (j + i))) [0..<k])" if "j + k \<le> 264" for j k
    by (rule copy_in_ok [OF range_at_sub [OF r that]])
  have seg: "map (\<lambda>i. pmem t (d (j + i))) [0..<k] = take k (drop j (header_bytes h))" if "j + k \<le> 9" for j k
    by (rule nth_equalityI) (use that h in auto)
  show "read_le32 t message = Inr (sender_pid h)"
    using at [of 0 4] seg [of 0 4] by (simp add: read_le32_def) (simp add: header_bytes_def)
  show "read_le32 t (message + 4) = Inr (reader_pid h)"
    using at [of 4 4] seg [of 4 4] by (simp add: read_le32_def) (simp add: header_bytes_def)
  show "vread8 t (message + 8) = Inr (data_size h)"
    using at [of 8 1] seg [of 8 1] h [of 8]
    by (cases "vread8 t (message + 8)") (auto simp: header_bytes_def nth_append)
qed


subsection \<open>Searching\<close>

text \<open>A header in the ring is copied to the buffer, which changes nothing else.\<close>

lemma fetch_header:
  assumes r: "ring_mem s v f" and b: "reader_buffer s message d f" and p: "p + 9 \<le> 8192"
    and h: "ring_bytes s f p 9 = header_bytes h"
  obtains t where "pmemcpy s message (v + word_of_nat p) SIZEOF_MessageHeader = Inr t" "wrote s t (d ` {..<9})"
    "read_le32 t message = Inr (sender_pid h)" "read_le32 t (message + 4) = Inr (reader_pid h)"
    "vread8 t (message + 8) = Inr (data_size h)"
proof -
  have n: "unat SIZEOF_MessageHeader = 9" by (simp add: SIZEOF_MessageHeader_def)
  obtain t where t: "pmemcpy s message (v + word_of_nat p) SIZEOF_MessageHeader = Inr t" "wrote s t (d ` {..<9})"
    "\<And>k. k < 9 \<Longrightarrow> pmem t (d k) = pmem s (ring_at f p k)"
    using copy_to_reader [OF r b, of p 0 SIZEOF_MessageHeader] p unfolding n by (auto simp: image_def)
  have "pmem t (d k) = header_bytes h ! k" if "k < 9" for k
    using t(3) [OF that] ring_bytes_nth [OF that, of s f p] h by simp
  from that [OF t(1,2) buffer_header [OF wrote_buffer [OF r b t(2)] this]] show ?thesis .
qed

lemma u16_word: "n < 65536 \<Longrightarrow> (word_of_nat n :: u16) < word_of_nat m \<longleftrightarrow> n < m" if "m < 65536"
  using that by (simp add: word_less_nat_alt unat_of_nat take_bit_nat_eq_self)

lemma message_size_words:
  assumes "message_ok x"
  shows "(ucast (SIZEOF_MessageHeader + ucast (data_size (fst x)) :: u32) :: u16) = word_of_nat (length (mbytes x))"
    "(ucast (word_of_nat (length (mbytes x)) :: u16) :: u32) = word_of_nat (length (mbytes x))"
proof -
  obtain k where k: "unat (data_size (fst x)) = k" "k < 256" using unsigned_less [of "data_size (fst x)"] by simp
  have n: "length (mbytes x) = 9 + k" using length_mbytes [OF assms] k by simp
  have "SIZEOF_MessageHeader + ucast (data_size (fst x)) = (word_of_nat (9 + k) :: u32)"
    unfolding ucast_u8_u32 [OF k(1)] SIZEOF_MessageHeader_def by simp
  moreover have "(ucast (word_of_nat j :: u32) :: u16) = word_of_nat j" if "j < 65536" for j
    using that by (simp add: word_unat_eq_iff unsigned_ucast_eq unat_of_nat take_bit_nat_eq_self)
  moreover have "9 + k < 65536" using k(2) by simp
  ultimately show "(ucast (SIZEOF_MessageHeader + ucast (data_size (fst x)) :: u32) :: u16) = word_of_nat (length (mbytes x))"
    unfolding n by presburger
  show "(ucast (word_of_nat (length (mbytes x)) :: u16) :: u32) = word_of_nat (length (mbytes x))"
    by (rule ucast_u16_u32) (use n k(2) in simp)
qed

lemma search_ok:
  assumes "ring_mem s v f" "reader_buffer s message d f" "\<forall>x \<in> set xs. message_ok x"
    "ring_bytes s f p (length (msgs_bytes xs)) = msgs_bytes xs" "p + length (msgs_bytes xs) \<le> 8192"
    "used_size mb = word_of_nat (seen + length (msgs_bytes xs))" "seen + length (msgs_bytes xs) \<le> 4096" "length xs < n"
  shows "\<exists>tot' t. message_search_loop n s mb sender reader message (word_of_nat seen) (v + word_of_nat p) tot =
      Inr (word_of_nat (seen + length (msgs_bytes (take (misses sender reader xs) xs))),
        v + word_of_nat (p + length (msgs_bytes (take (misses sender reader xs) xs))), tot', t) \<and>
    wrote s t (d ` {..<9})"
  using assms
proof (induction xs arbitrary: n s p seen tot)
  case Nil
  from Nil.prems(8) obtain k where n: "n = Suc k" by (cases n) auto
  show ?case using Nil.prems(6) by (simp add: n wrote_refl)
next
  case (Cons x xs)
  from Cons.prems(8) obtain k where n: "n = Suc k" "length xs < k" by (cases n) auto
  obtain h data where x: "x = (h, data)" by (cases x)
  have xok: "message_ok x" using Cons.prems(3) by simp
  note size = mbytes_size [OF xok]
  let ?l = "length (mbytes x)"
  have all: "ring_bytes s f p (length (msgs_bytes (x # xs))) = [] @ header_bytes h @ (data @ msgs_bytes xs)"
    using Cons.prems(4) by (simp add: mbytes_def x)
  have p9: "p + 9 \<le> 8192" using Cons.prems(5) size(2) by simp
  obtain t where t: "pmemcpy s message (v + word_of_nat p) SIZEOF_MessageHeader = Inr t" "wrote s t (d ` {..<9})"
    "read_le32 t message = Inr (sender_pid h)" "read_le32 t (message + 4) = Inr (reader_pid h)"
    "vread8 t (message + 8) = Inr (data_size h)"
    using fetch_header [OF Cons.prems(1,2) p9] ring_bytes_mid [OF all] by auto
  have lt: "(word_of_nat seen :: u16) < used_size mb"
    using Cons.prems(6,7) size(2) u16_word [of "seen + length (msgs_bytes (x # xs))" seen] by auto
  show ?case
  proof (cases "matches sender reader x")
    case True
    then show ?thesis using t lt by (auto simp: n matches_def x)
  next
    case False
    have r: "ring_mem t v f" by (rule wrote_ring [OF Cons.prems(1) t(2)])
    have b: "reader_buffer t message d f" by (rule wrote_buffer [OF Cons.prems(1,2) t(2)])
    have al: "frame_aligned f" using Cons.prems(1) by (simp add: ring_mem_def)
    have "ring_bytes t f (p + length (mbytes x)) (length (msgs_bytes xs)) = msgs_bytes xs"
      using wrote_buffer_bytes [OF Cons.prems(2) al t(2)] ring_bytes_mid [of s f p _ "mbytes x" "msgs_bytes xs" "[]"]
        Cons.prems(4) by simp
    note ring = this
    have oks: "\<forall>x \<in> set xs. message_ok x" and pl: "p + ?l + length (msgs_bytes xs) \<le> 8192"
      and used: "used_size mb = word_of_nat (seen + ?l + length (msgs_bytes xs))"
      and sl: "seen + ?l + length (msgs_bytes xs) \<le> 4096"
      using Cons.prems(3,5-7) by (simp_all add: add.assoc)
    obtain tot' u where u: "message_search_loop k t mb sender reader message (word_of_nat (seen + ?l))
        (v + word_of_nat (p + ?l)) (word_of_nat ?l) =
      Inr (word_of_nat (seen + ?l + length (msgs_bytes (take (misses sender reader xs) xs))),
        v + word_of_nat (p + ?l + length (msgs_bytes (take (misses sender reader xs) xs))), tot', u)"
      "wrote t u (d ` {..<9})"
      using Cons.IH [OF r b oks ring pl used sl n(2), of "word_of_nat ?l"] by blast
    have "wrote s u (d ` {..<9})" using wrote_trans [OF t(2) u(2)] by simp
    moreover have "message_search_loop n s mb sender reader message (word_of_nat seen) (v + word_of_nat p) tot =
      message_search_loop k t mb sender reader message (word_of_nat (seen + ?l)) (v + word_of_nat (p + ?l)) (word_of_nat ?l)"
      using t lt False message_size_words [OF xok] by (auto simp: n matches_def x add.assoc Let_def)
    ultimately show ?thesis using u(1) False by (auto simp: add.assoc)
  qed
qed


subsection \<open>Taking a message out\<close>

lemma fetch_message:
  assumes r: "ring_mem s v f" and b: "reader_buffer s message d f" and x: "message_ok x"
    and p: "p + length (mbytes x) \<le> 8192" and h: "ring_bytes s f p (length (mbytes x)) = mbytes x"
  obtains t where "bytes_to_message s message (v + word_of_nat p) = Inr t" "wrote s t (d ` {..<length (mbytes x)})"
    "\<And>k. k < length (mbytes x) \<Longrightarrow> pmem t (d k) = mbytes x ! k"
proof -
  let ?l = "unat (data_size (fst x))"
  have l: "length (mbytes x) = 9 + ?l" "9 + ?l \<le> 264" using length_mbytes [OF x] mbytes_size [OF x] by simp_all
  have n: "unat SIZEOF_MessageHeader = 9" "unat (ucast (data_size (fst x)) :: u32) = ?l"
    using l(2) by (simp_all add: SIZEOF_MessageHeader_def unsigned_ucast_eq take_bit_nat_eq_self)
  have al: "frame_aligned f" using r by (simp add: ring_mem_def)
  obtain t where t: "pmemcpy s message (v + word_of_nat p) SIZEOF_MessageHeader = Inr t" "wrote s t (d ` {..<9})"
    "\<And>k. k < 9 \<Longrightarrow> pmem t (d k) = pmem s (ring_at f p k)"
    using copy_to_reader [OF r b, of p 0 SIZEOF_MessageHeader] p l unfolding n by (auto simp: image_def)
  have r': "ring_mem t v f" by (rule wrote_ring [OF r t(2)])
  have b': "reader_buffer t message d f" by (rule wrote_buffer [OF r b t(2)])
  have hd: "pmem t (d k) = header_bytes (fst x) ! k" if "k < 9" for k
    using t(3) [OF that] ring_bytes_nth [of k "length (mbytes x)" s f p] h that l by (simp add: mbytes_def nth_append)
  note ds = buffer_header(3) [OF b' hd]
  obtain u where u: "pmemcpy t (message + 9) (v + word_of_nat (p + 9)) (ucast (data_size (fst x))) = Inr u"
    "wrote t u ((\<lambda>k. d (9 + k)) ` {..<?l})"
    "\<And>k. k < ?l \<Longrightarrow> pmem u (d (9 + k)) = pmem t (ring_at f p (9 + k))"
    using copy_to_reader [OF r' b', of p 9 "ucast (data_size (fst x))"] p l unfolding n by auto
  show ?thesis
  proof (rule that [of u])
    show "bytes_to_message s message (v + word_of_nat p) = Inr u"
      using t(1) ds u(1) by (simp add: bytes_to_message_def SIZEOF_MessageHeader_def add.assoc)
    have "d ` {..<9} \<union> (\<lambda>k. d (9 + k)) ` {..<?l} \<subseteq> d ` {..<length (mbytes x)}"
      using l by auto
    then show "wrote s u (d ` {..<length (mbytes x)})"
      by (rule wrote_mono [OF wrote_trans [OF t(2) u(2)]])
    have keep: "pmem t (ring_at f p k) = pmem s (ring_at f p k)" for k
      using t(2) buffer_outside [OF b _ al, of 9] unfolding wrote_def by simp
    show "pmem u (d k) = mbytes x ! k" if k: "k < length (mbytes x)" for k
    proof (cases "k < 9")
      case True
      have inj: "inj_on d {..<264}" using b by (simp add: reader_buffer_def writable_range_def)
      have "d k \<noteq> d (9 + i)" if "i < ?l" for i
        using inj_onD [OF inj, of k "9 + i"] True that l(2) by auto
      then have "d k \<notin> (\<lambda>k. d (9 + k)) ` {..<?l}" by blast
      then have "pmem u (d k) = pmem t (d k)" using u(2) unfolding wrote_def by blast
      then show ?thesis using hd [OF True] True by (simp add: mbytes_def nth_append)
    next
      case False
      then obtain j where j: "k = 9 + j" by (metis le_Suc_ex not_less)
      then have "pmem u (d k) = pmem s (ring_at f p k)" using u(3) [of j] k l keep by simp
      then show ?thesis using ring_bytes_nth [OF k, of s f p] h by simp
    qed
  qed
qed

text \<open>Writing bytes in the middle of the ring.\<close>

lemma ring_bytes_write:
  assumes f: "frame_aligned f" and n: "n \<le> 4096" "j + length ys \<le> n"
    and w: "\<And>k. k < length ys \<Longrightarrow> pmem t (ring_at f (p + j) k) = ys ! k"
    and o: "\<And>a. a \<notin> ring_at f (p + j) ` {..<length ys} \<Longrightarrow> pmem t a = pmem s a"
  shows "ring_bytes t f p n = take j (ring_bytes s f p n) @ ys @ drop (j + length ys) (ring_bytes s f p n)"
proof (rule nth_equalityI)
  show "length (ring_bytes t f p n) = length (take j (ring_bytes s f p n) @ ys @ drop (j + length ys) (ring_bytes s f p n))"
    using n by simp
  fix k
  assume "k < length (ring_bytes t f p n)"
  then have k: "k < n" by simp
  show "ring_bytes t f p n ! k = (take j (ring_bytes s f p n) @ ys @ drop (j + length ys) (ring_bytes s f p n)) ! k"
  proof (cases "j \<le> k \<and> k < j + length ys")
    case True
    then obtain i where i: "k = j + i" "i < length ys" by (metis le_Suc_ex nat_add_left_cancel_less)
    have "ring_at f p k = ring_at f (p + j) i" by (simp add: ring_at_def i(1) add.assoc)
    then show ?thesis using w [OF i(2)] ring_bytes_nth [OF k, of t] k n i by (simp add: nth_append)
  next
    case False
    have "ring_at f p k \<noteq> ring_at f (p + j) i" if "i < length ys" for i
      using add_mod_inj [of k 4096 "j + i" p] False that k n by (auto simp: ring_at_eq [OF f] add.assoc)
    then have "pmem t (ring_at f p k) = pmem s (ring_at f p k)" by (intro o) auto
    then show ?thesis using ring_bytes_nth [OF k, of t] ring_bytes_nth [OF k, of s] k n False
      by (auto simp: nth_append)
  qed
qed


subsection \<open>Cleaning up\<close>

definition live :: "mailbox_message \<Rightarrow> bool" where
  "live x \<longleftrightarrow> \<not> (sender_pid (fst x) = 0 \<and> reader_pid (fst x) = 0)"

definition crossed :: "mailbox_message \<Rightarrow> mailbox_message" where
  "crossed x = ((fst x)\<lparr>sender_pid := 0, reader_pid := 0\<rparr>, snd x)"

lemma crossed_facts [simp]:
  "message_ok (crossed x) \<longleftrightarrow> message_ok x" "\<not> live (crossed x)" "length (mbytes (crossed x)) = length (mbytes x)"
  by (simp_all add: crossed_def message_ok_def live_def mbytes_def)

lemma mbytes_crossed: "mbytes (crossed x) = replicate 8 0 @ drop 8 (mbytes x)"
  by (simp add: mbytes_def crossed_def header_bytes_def header_bytes_zero eval_nat_numeral)

lemma header_at:
  assumes "ring_mem s v f" "p + length (mbytes x) \<le> 8192" "message_ok x"
    "ring_bytes s f p (length (mbytes x)) = mbytes x"
  shows "bytes_to_message_header s (v + word_of_nat p) = Inr (fst x)"
proof -
  have p: "p + 9 \<le> 8192" using assms(2) mbytes_size(2) [OF assms(3)] by simp
  have "ring_bytes s f p (length (mbytes x)) = [] @ header_bytes (fst x) @ snd x"
    using assms(4) by (simp add: mbytes_def)
  from ring_bytes_mid [OF this] have "ring_bytes s f p 9 = header_bytes (fst x)" by simp
  then show ?thesis using ring_header [OF assms(1) p] bytes_header_bytes [of "fst x" "[]"] by simp
qed

lemma cleanup_none:
  assumes r: "ring_mem s v f" and hd: "mb_head mb = v + word_of_nat p" "p + length (mbytes x) \<le> 8192"
    "message_ok x" "ring_bytes s f p (length (mbytes x)) = mbytes x" and live: "live x"
  shows "message_cleanup s mb = Inr 0"
proof -
  obtain n where fuel: "(2 :: nat) ^ 64 = Suc n" by (rule that [of 18446744073709551615]) simp
  show ?thesis
    unfolding message_cleanup_def fuel using header_at [OF r hd(2-4)] live
    by (simp only: message_cleanup_loop.simps hd(1) live_def) auto
qed

lemma cleanup_one:
  assumes r: "ring_mem s v f" and hd: "mb_head mb = v + word_of_nat p" "p + length (mbytes x) \<le> 8192"
    "message_ok x" "ring_bytes s f p (length (mbytes x)) = mbytes x" and dead: "\<not> live x"
    and used: "used_size mb = word_of_nat n" "length (mbytes x) \<le> n" "n \<le> 4096" and p: "p < 4096"
    and nxt: "n = length (mbytes x) \<or> (\<exists>y. live y \<and> message_ok y \<and> p + length (mbytes x) + length (mbytes y) \<le> 8192 \<and>
      ring_bytes s f (p + length (mbytes x)) (length (mbytes y)) = mbytes y)"
  shows "message_cleanup s mb = Inr (word_of_nat (length (mbytes x)))"
proof -
  let ?l = "length (mbytes x)"
  obtain j where fuel: "(2 :: nat) ^ 64 = Suc (Suc j)" by (rule that [of 18446744073709551614]) simp
  note sz = mbytes_size [OF hd(3)] message_size_words [OF hd(3)]
  have lt: "(0 :: u16) < used_size mb"
    using u16_word [of n 0] used sz(2) by simp
  have p9: "p + ?l + 9 \<le> 8192" using p sz(1) by simp
  obtain h where h: "bytes_to_message_header s (v + word_of_nat p + word_of_nat ?l) = Inr h"
    using ring_header [OF r p9] by (simp add: add.assoc)
  have stop: "\<not> (sender_pid h = 0 \<and> reader_pid h = 0 \<and> word_of_nat ?l < used_size mb)"
    using nxt
  proof
    assume "n = ?l"
    then show ?thesis using used by simp
  next
    assume "\<exists>y. live y \<and> message_ok y \<and> p + ?l + length (mbytes y) \<le> 8192 \<and>
      ring_bytes s f (p + ?l) (length (mbytes y)) = mbytes y"
    then obtain y where y: "live y" "message_ok y" "p + ?l + length (mbytes y) \<le> 8192"
      "ring_bytes s f (p + ?l) (length (mbytes y)) = mbytes y" by blast
    have "h = fst y" using header_at [OF r y(3,2,4)] h by (simp add: add.assoc)
    then show ?thesis using y(1) by (auto simp: live_def)
  qed
  have "message_cleanup_loop (Suc j) s mb (word_of_nat ?l) (word_of_nat ?l) (v + word_of_nat p + word_of_nat ?l) h =
      Inr (word_of_nat ?l)"
    using stop unfolding message_cleanup_loop.simps(2) by (simp only: if_False)
  then show ?thesis
    unfolding message_cleanup_def fuel using header_at [OF r hd(2-4)] dead lt h sz(3,4)
    by (simp only: message_cleanup_loop.simps(2) [of "Suc j"] hd(1) live_def Let_def) simp
qed

subsection \<open>Reading\<close>

lemma mailbox_rep_drop:
  assumes rep: "mailbox_rep s mb f hp bs" and cl: "cl \<le> length bs"
  shows "mailbox_rep s (mb\<lparr>unread_size := u, used_size := used_size mb - word_of_nat cl,
      mb_head := first_page mb + word_of_nat ((hp + cl) mod 4096)\<rparr>) f ((hp + cl) mod 4096) (drop cl bs)"
proof -
  obtain k where k: "length bs = cl + k" using cl by (metis le_Suc_ex)
  have "ring_bytes s f hp (cl + k) = bs" using rep k by (simp add: mailbox_rep_def)
  then have "drop cl bs = ring_bytes s f (hp + cl) k"
    by (metis append_eq_conv_conj length_ring_bytes ring_bytes_append)
  moreover have "((hp + cl) mod 4096 + k) mod 4096 = (hp + length bs) mod 4096"
    unfolding k by (simp only: mod_add_left_eq add.assoc)
  ultimately show ?thesis
    using rep by (simp add: mailbox_rep_def k ring_bytes_mod)
qed


text \<open>Crossing out the message at offset \<open>length (msgs_bytes as)\<close>.\<close>

lemma cross_out:
  assumes r: "ring_mem s v f" and hp: "hp < 4096" and len: "length (msgs_bytes (as @ x # bs)) \<le> 4096"
    and x: "message_ok x" and ring: "ring_bytes s f hp (length (msgs_bytes (as @ x # bs))) = msgs_bytes (as @ x # bs)"
  obtains t where "pmemset s (v + word_of_nat (hp + length (msgs_bytes as))) 0 8 = Inr t"
    "wrote s t {a. get_paddr a = f}"
    "ring_bytes t f hp (length (msgs_bytes (as @ x # bs))) = msgs_bytes (as @ crossed x # bs)"
proof -
  let ?j = "length (msgs_bytes as)" and ?n = "length (msgs_bytes (as @ x # bs))"
  have ok: "paging_ok s" and al: "frame_aligned f" using r by (simp_all add: ring_mem_def)
  have j: "?j + 8 \<le> ?n" using mbytes_size(2) [OF x] by simp
  have w: "writable_range s (v + word_of_nat (hp + ?j)) 8 (ring_at f (hp + ?j))"
    by (rule ring_writable [OF r]) (use hp j len in linarith)+
  obtain m where m: "pmemset_loop 8 s (v + word_of_nat (hp + ?j)) 0 = Inr (s\<lparr>pmem := m\<rparr>)"
    "paging_eq s (s\<lparr>pmem := m\<rparr>)" "\<forall>k < 8. m (ring_at f (hp + ?j) k) = 0"
    "\<forall>a. a \<notin> ring_at f (hp + ?j) ` {..<8} \<longrightarrow> m a = pmem s a"
    using pmemset_loop_ok [OF ok w] by blast
  let ?t = "s\<lparr>pmem := m\<rparr>" and ?z = "replicate 8 (0 :: u8)"
  have "ring_bytes ?t f hp ?n = take ?j (ring_bytes s f hp ?n) @ ?z @ drop (?j + 8) (ring_bytes s f hp ?n)"
    using ring_bytes_write [OF al len, of ?j ?z ?t hp s] j m(3,4) by simp
  also have "\<dots> = msgs_bytes (as @ crossed x # bs)"
    unfolding ring using mbytes_size(2) [OF x] by (simp add: mbytes_crossed)
  finally have "ring_bytes ?t f hp ?n = msgs_bytes (as @ crossed x # bs)" .
  moreover have "wrote s ?t {a. get_paddr a = f}"
    unfolding wrote_def using m(2,4) ring_outside [OF al] by auto
  moreover have "pmemset s (v + word_of_nat (hp + ?j)) 0 8 = Inr ?t"
    using m(1) by (simp add: pmemset_def)
  ultimately show ?thesis using that by blast
qed

text \<open>How many bytes are cleaned up after a message was crossed out.\<close>

lemma cleanup_after:
  assumes rep: "mailbox_rep s mb f hp (msgs_bytes (as @ crossed x # bs))"
    and ok: "\<forall>y \<in> set (as @ x # bs). message_ok y"
    and one: "as = [] \<Longrightarrow> bs \<noteq> [] \<Longrightarrow> live (hd bs)" and none: "as \<noteq> [] \<Longrightarrow> live (hd as)"
  shows "message_cleanup s mb = Inr (word_of_nat (if as = [] then length (mbytes x) else 0))"
proof -
  let ?all = "msgs_bytes (as @ crossed x # bs)"
  have r: "ring_mem s (first_page mb) f" "mb_head mb = first_page mb + word_of_nat hp" "hp < 4096"
    "length ?all \<le> 4096" "used_size mb = word_of_nat (length ?all)" "ring_bytes s f hp (length ?all) = ?all"
    using rep by (simp_all add: mailbox_rep_def)
  show ?thesis
  proof (cases as)
    case (Cons a as')
    have "ring_bytes s f hp (length (mbytes a)) = mbytes a"
      using ring_bytes_mid [of s f hp _ "[]" "mbytes a"] r(6) Cons by simp
    then show ?thesis
      using cleanup_none [OF r(1,2), of a] r(3,4) ok none Cons by simp
  next
    case Nil
    have x: "ring_bytes s f hp (length (mbytes (crossed x))) = mbytes (crossed x)"
      using ring_bytes_mid [of s f hp _ "[]" "mbytes (crossed x)"] r(6) Nil by simp
    have "length ?all = length (mbytes (crossed x)) \<or> (\<exists>y. live y \<and> message_ok y \<and>
        hp + length (mbytes (crossed x)) + length (mbytes y) \<le> 8192 \<and>
        ring_bytes s f (hp + length (mbytes (crossed x))) (length (mbytes y)) = mbytes y)"
    proof (cases bs)
      case (Cons y ys)
      have "ring_bytes s f (hp + length (mbytes (crossed x))) (length (mbytes y)) = mbytes y"
        using ring_bytes_mid [of s f hp _ "mbytes (crossed x)" "mbytes y"] r(6) Nil Cons by simp
      then show ?thesis using one ok r(3,4) Nil Cons by (intro disjI2 exI [of _ y]) simp
    qed (use Nil in simp)
    then show ?thesis
      using cleanup_one [OF r(1,2) _ _ x _ r(5) _ r(4,3)] ok r(3,4) Nil by simp
  qed
qed


lemma misses_at: "matches sender reader x \<Longrightarrow> \<forall>y \<in> set as. \<not> matches sender reader y \<Longrightarrow>
    misses sender reader (as @ x # bs) = length as"
  by (induction as) simp_all

lemma misses_all: "\<forall>y \<in> set as. \<not> matches sender reader y \<Longrightarrow> misses sender reader as = length as"
  by (induction as) simp_all

lemma few_messages: "\<forall>x \<in> set xs. message_ok x \<Longrightarrow> 9 * length xs \<le> length (msgs_bytes xs)"
  by (induction xs) (auto dest: mbytes_size(2))

lemma search_from_head:
  assumes rep: "mailbox_rep s mb f hp (msgs_bytes xs)" and ok: "\<forall>x \<in> set xs. message_ok x"
    and b: "reader_buffer s message d f" and ys: "take (misses sender reader xs) xs = ys"
  obtains tot t where "message_search_loop (2 ^ 64) s mb sender reader message 0 (mb_head mb) 0 =
      Inr (word_of_nat (length (msgs_bytes ys)), first_page mb + word_of_nat (hp + length (msgs_bytes ys)), tot, t)"
    "wrote s t (d ` {..<9})"
proof -
  have r: "ring_mem s (first_page mb) f" "mb_head mb = first_page mb + word_of_nat hp" "hp < 4096"
    "length (msgs_bytes xs) \<le> 4096" "used_size mb = word_of_nat (length (msgs_bytes xs))"
    "ring_bytes s f hp (length (msgs_bytes xs)) = msgs_bytes xs"
    using rep by (simp_all add: mailbox_rep_def)
  have few: "length xs < 2 ^ 64" using few_messages [OF ok] r(4) by simp
  have p: "hp + length (msgs_bytes xs) \<le> 8192" "0 + length (msgs_bytes xs) \<le> 4096" using r(3,4) by linarith+
  have used: "used_size mb = word_of_nat (0 + length (msgs_bytes xs))" using r(5) by simp
  note found = search_ok [OF r(1) b ok r(6) p(1) used p(2) few, of sender reader 0]
  have z: "(word_of_nat 0 :: u16) = 0" by simp
  show ?thesis using found that unfolding ys r(2) z add_0_left by blast
qed

lemma mailbox_read_none:
  assumes rep: "mailbox_rep s mb f hp (msgs_bytes xs)" and ok: "\<forall>x \<in> set xs. message_ok x"
    and b: "reader_buffer s message d f" and none: "\<forall>x \<in> set xs. \<not> matches sender reader x"
  shows "\<exists>t. mailbox_read_message (s, log) mb sender reader message = Inr (False, mb, t, log) \<and>
    wrote s t (d ` {..<9}) \<and> mailbox_rep t mb f hp (msgs_bytes xs)"
proof -
  have r: "ring_mem s (first_page mb) f" "mb_head mb = first_page mb + word_of_nat hp" "hp < 4096"
    "length (msgs_bytes xs) \<le> 4096" "used_size mb = word_of_nat (length (msgs_bytes xs))"
    "ring_bytes s f hp (length (msgs_bytes xs)) = msgs_bytes xs"
    using rep by (simp_all add: mailbox_rep_def)
  have al: "frame_aligned f" using r(1) by (simp add: ring_mem_def)
  have "take (misses sender reader xs) xs = xs" using misses_all [OF none] by simp
  from search_from_head [OF rep ok b this]
  obtain tot t where t: "message_search_loop (2 ^ 64) s mb sender reader message 0 (mb_head mb) 0 =
      Inr (word_of_nat (length (msgs_bytes xs)), first_page mb + word_of_nat (hp + length (msgs_bytes xs)), tot, t)"
    "wrote s t (d ` {..<9})" .
  have "mailbox_rep t mb f hp (msgs_bytes xs)"
    using rep wrote_ring [OF r(1) t(2)] wrote_buffer_bytes [OF b al t(2)] by (simp add: mailbox_rep_def)
  then show ?thesis using t r(5) by (simp add: mailbox_read_message_def)
qed


lemma mailbox_read_ok:
  assumes rep: "mailbox_rep s mb f hp (msgs_bytes (as @ x # bs))" and ok: "\<forall>y \<in> set (as @ x # bs). message_ok y"
    and b: "reader_buffer s message d f" and m: "matches sender reader x" "\<forall>y \<in> set as. \<not> matches sender reader y"
    and one: "as = [] \<Longrightarrow> bs \<noteq> [] \<Longrightarrow> live (hd bs)" and none: "as \<noteq> [] \<Longrightarrow> live (hd as)"
  obtains mb' t hp' log' where "mailbox_read_message (s, log) mb sender reader message = Inr (True, mb', t, log')"
    "mailbox_rep t mb' f hp' (msgs_bytes (if as = [] then bs else as @ crossed x # bs))"
    "\<And>k. k < length (mbytes x) \<Longrightarrow> pmem t (d k) = mbytes x ! k"
    "wrote s t (d ` {..<length (mbytes x)} \<union> {a. get_paddr a = f})"
    "first_page mb' = first_page mb"
proof -
  let ?xs = "as @ x # bs" and ?p = "hp + length (msgs_bytes as)" and ?v = "first_page mb"
  have r: "ring_mem s ?v f" "mb_head mb = ?v + word_of_nat hp" "hp < 4096"
    "length (msgs_bytes ?xs) \<le> 4096" "used_size mb = word_of_nat (length (msgs_bytes ?xs))"
    "ring_bytes s f hp (length (msgs_bytes ?xs)) = msgs_bytes ?xs" "copy_page mb = ?v + 4096"
    using rep by (simp_all add: mailbox_rep_def)
  have al: "frame_aligned f" "frame_aligned ?v" using r(1) by (simp_all add: ring_mem_def)
  have x: "message_ok x" using ok by simp
  note sz = mbytes_size [OF x]
  have "take (misses sender reader ?xs) ?xs = as" using misses_at [OF m, of bs] by simp
  from search_from_head [OF rep ok b this]
  obtain tot s1 where s1: "message_search_loop (2 ^ 64) s mb sender reader message 0 (mb_head mb) 0 =
      Inr (word_of_nat (length (msgs_bytes as)), ?v + word_of_nat ?p, tot, s1)" "wrote s s1 (d ` {..<9})" .
  have found: "\<not> used_size mb \<le> word_of_nat (length (msgs_bytes as))"
    using u16_word [of "length (msgs_bytes ?xs)" "length (msgs_bytes as)"] r(4,5) sz(2) by (simp only: not_le) auto
  have r1: "ring_mem s1 ?v f" by (rule wrote_ring [OF r(1) s1(2)])
  have b1: "reader_buffer s1 message d f" by (rule wrote_buffer [OF r(1) b s1(2)])
  have "ring_bytes s1 f hp (length (msgs_bytes ?xs)) = msgs_bytes as @ mbytes x @ msgs_bytes bs"
    using wrote_buffer_bytes [OF b al(1) s1(2)] r(6) by simp
  from ring_bytes_mid [OF this] obtain s2 where s2: "bytes_to_message s1 message (?v + word_of_nat ?p) = Inr s2"
    "wrote s1 s2 (d ` {..<length (mbytes x)})" "\<And>k. k < length (mbytes x) \<Longrightarrow> pmem s2 (d k) = mbytes x ! k"
    using fetch_message [OF r1 b1 x, of ?p] r(3,4) by auto
  have r2: "ring_mem s2 ?v f" by (rule wrote_ring [OF r1 s2(2)])
  have "ring_bytes s2 f hp (length (msgs_bytes ?xs)) = msgs_bytes ?xs"
    using wrote_buffer_bytes [OF b al(1) s1(2)] wrote_buffer_bytes [OF b1 al(1) s2(2) sz(1)] r(6) by simp
  from cross_out [OF r2 r(3,4) x this] obtain t where
    t: "pmemset s2 (?v + word_of_nat ?p) 0 8 = Inr t" "wrote s2 t {a. get_paddr a = f}"
      "ring_bytes t f hp (length (msgs_bytes ?xs)) = msgs_bytes (as @ crossed x # bs)" .
  define cl where "cl = (if as = [] then length (mbytes x) else 0)"
  let ?mb = "mb\<lparr>unread_size := unread_size mb - tot\<rparr>"
  let ?mb' = "?mb\<lparr>unread_size := unread_size mb - tot, used_size := used_size mb - word_of_nat cl,
    mb_head := ?v + word_of_nat ((hp + cl) mod 4096)\<rparr>"
  have rept: "mailbox_rep t ?mb f hp (msgs_bytes (as @ crossed x # bs))"
    using rep wrote_ring [OF r2 t(2)] t(3) by (simp add: mailbox_rep_def)
  have clean: "message_cleanup t ?mb = Inr (word_of_nat cl)"
    unfolding cl_def by (rule cleanup_after [OF rept ok one none])
  have cl: "cl \<le> 264" using sz(1) by (simp add: cl_def)
  have w: "(ucast (word_of_nat cl :: u16) :: u32) = word_of_nat cl"
    by (rule ucast_u16_u32) (use cl in simp)
  have "hp + cl < 8192" using cl r(3) by linarith
  note wrap = ring_wrap [OF al(2) this]
  have dropped: "drop cl (msgs_bytes (as @ crossed x # bs)) = msgs_bytes (if as = [] then bs else as @ crossed x # bs)"
    by (simp add: cl_def)
  have cl_le: "cl \<le> length (msgs_bytes (as @ crossed x # bs))" by (simp add: cl_def)
  have rep': "mailbox_rep t ?mb' f ((hp + cl) mod 4096) (msgs_bytes (if as = [] then bs else as @ crossed x # bs))"
    using mailbox_rep_drop [OF rept cl_le, of "unread_size mb - tot"] unfolding dropped by simp
  obtain y where y: "?v + word_of_nat (hp + cl) = y" by simp
  have hd: "mb_head mb + ucast (word_of_nat cl :: u16) = y" unfolding r(2) w y [symmetric] by (simp add: add.assoc)
  have "mailbox_read_message (s, log) mb sender reader message =
      Inr (True, ?mb', t, log @ [(DEBUG, ''Cleanup size - %u'' @ [CHR 10], [ucast (word_of_nat cl :: u16)])])"
  proof (cases "page_ptr y = ?v + 4096")
    case True
    then show ?thesis
      using s1(1) found s2(1) t(1) clean wrap unfolding y
      by (simp add: mailbox_read_message_def Let_def hd r(7) del: of_nat_add)
  next
    case False
    then show ?thesis
      using s1(1) found s2(1) t(1) clean wrap unfolding y
      by (simp add: mailbox_read_message_def Let_def hd r(7) del: of_nat_add)
  qed
  moreover have "pmem t (d k) = mbytes x ! k" if "k < length (mbytes x)" for k
  proof -
    have "get_paddr (d k) \<noteq> f" using b that sz(1) by (simp add: reader_buffer_def)
    then show ?thesis using t(2) s2(3) [OF that] unfolding wrote_def by simp
  qed
  moreover have "d ` {..<9} \<subseteq> d ` {..<length (mbytes x)}" using sz(2) by auto
  then have "wrote s t (d ` {..<length (mbytes x)} \<union> {a. get_paddr a = f})"
    by (intro wrote_mono [OF wrote_trans [OF wrote_trans [OF s1(2) s2(2)] t(2)]]) auto
  ultimately show ?thesis using that rep' by auto
qed


subsection \<open>A new mailbox\<close>

lemma page_offset_facts:
  assumes "frame_aligned v" "unat v + k < 2 ^ 32"
  shows "drop_bit 12 (v + word_of_nat k) = drop_bit 12 (v + word_of_nat (k div 4096 * 4096))"
    "(v + word_of_nat k) AND 0xFFF = word_of_nat (k mod 4096)"
proof -
  obtain q where q: "unat v = 4096 * q" using assms(1) by (auto simp: frame_unat)
  have u: "unat (v + word_of_nat j) = 4096 * q + j" if "4096 * q + j < 2 ^ 32" for j
    using that by (simp add: unat_word_ariths unat_of_nat q take_bit_nat_eq_self)
  have "(4096 * q + k) div 4096 = (4096 * q + k div 4096 * 4096) div 4096" by simp
  moreover have le: "4096 * q + k div 4096 * 4096 < 2 ^ 32" "4096 * q + k < 2 ^ 32" using assms(2) q by simp_all
  ultimately show "drop_bit 12 (v + word_of_nat k) = drop_bit 12 (v + word_of_nat (k div 4096 * 4096))"
    unfolding drop_bit_12_eq using u [OF le(1)] u [OF le(2)] by simp
  have "unat ((v + word_of_nat k) AND 0xFFF) = k mod 4096"
    using u [OF le(2)] by (simp add: unat_and_FFF)
  then show "(v + word_of_nat k) AND 0xFFF = word_of_nat (k mod 4096)"
    by (simp add: word_unat_eq_iff unat_of_nat take_bit_nat_eq_self)
qed

lemma flags_or_present: "(flags OR 1) AND PAGE_USER_MODE = flags AND PAGE_USER_MODE" "flags < 0x1000 \<Longrightarrow> flags OR 1 < (0x1000 :: u16)"
proof -
  show "(flags OR 1) AND PAGE_USER_MODE = flags AND PAGE_USER_MODE"
    by (simp add: and_user_mode bit_simps)
  assume "flags < 0x1000"
  then have "take_bit 12 flags = flags"
    by (simp add: word_unat_eq_iff unsigned_take_bit_eq take_bit_nat_eq_self word_less_nat_alt)
  then have "take_bit 12 (flags OR 1) = flags OR 1" by simp
  then have "unat (flags OR 1) = take_bit 12 (unat (flags OR 1))" by (metis unsigned_take_bit_eq)
  then have "unat (flags OR 1) < 2 ^ 12" by (metis take_bit_nat_less_exp)
  then show "flags OR 1 < 0x1000" by (simp add: word_less_nat_alt)
qed

lemma mailbox_init_ok:
  assumes inv: "mem_inv s (f # gs)" and al: "frame_aligned v" "unat v + 8192 < 2 ^ 32"
    and pg: "plain_page s v" "plain_page s (v + 4096)" "\<not> entry_present (page_at s v)" "\<not> entry_present (page_at s (v + 4096))"
    and tb: "entry_present (pde s (get_pd_index v))" "entry_present (pde s (get_pd_index (v + 4096)))"
    and u: "user_ok s (get_pd_index v) flags" "user_ok s (get_pd_index (v + 4096)) flags" and fl: "flags < 0x1000"
  obtains mb t where "mailbox_init s v flags = Inr (mb, t)" "mailbox_rep t mb (get_paddr f) 0 []" "mem_inv t gs"
    "mem_step s t (get_paddr ` set gs)" "first_page mb = v"
    "\<And>w. plain_page s w \<Longrightarrow> drop_bit 12 w \<noteq> drop_bit 12 v \<Longrightarrow> drop_bit 12 w \<noteq> drop_bit 12 (v + 4096) \<Longrightarrow>
      page_at t w = page_at s w"
proof -
  let ?c = "v + 4096" and ?e = "create_entry f flags"
  have ne: "drop_bit 12 ?c \<noteq> drop_bit 12 v"
    using page_no_inj [of 1 0 v] by (simp add: page_no_def PAGE_SIZE_def)
  obtain t where t: "alloc_page s v flags = Inr t" "mem_inv t (rest_frames s (get_pd_index v) gs)"
    "mem_step s t (get_paddr ` set gs)"
    "\<And>w. plain_page s w \<Longrightarrow> page_at t w = (if drop_bit 12 w = drop_bit 12 v then ?e else page_at s w)"
    "\<And>k. k < 1023 \<Longrightarrow> user_ok s k flags \<Longrightarrow> user_ok t k flags" "\<And>w. plain_page t w \<longleftrightarrow> plain_page s w"
    by (rule alloc_page_steps [OF inv pg(1,3) u(1) fl disjI1 [OF tb(1)]]) blast
  have inv_t: "mem_inv t gs" using t(2) tb(1) by (simp add: rest_frames_def)
  have at: "page_at t v = ?e" "\<not> entry_present (page_at t ?c)" using t(4) pg ne by simp_all
  have pd: "get_pd_index ?c < 1023" using pg(2) by (simp add: plain_page_def)
  have tb_t: "entry_present (pde t (get_pd_index ?c))"
    using mem_step_pde [OF t(3) less_1024 [OF pd] tb(2)] tb(2) by simp
  have e: "get_entry t v = Inr ?e" using get_entry_view [OF mem_paging [OF inv_t]] at(1) by (simp add: page_at_def)
  have ef: "get_paddr ?e = get_paddr f" "get_flags ?e = flags OR 1" "entry_present ?e"
    using fl by (simp_all add: create_entry_paddr get_flags_create_entry)
  have u_t: "user_ok t (get_pd_index ?c) (flags OR 1)"
    using t(5) [OF pd u(2)] by (simp add: user_ok_def flags_or_present)
  have nf: "get_paddr (get_paddr f) \<notin> get_paddr ` set gs" using mem_distinct [OF inv] by simp
  note mp = map_page_ok [OF inv_t, of ?c "flags OR 1" "get_paddr f"]
  obtain w where w: "map_page t ?c (get_paddr f) (flags OR 1) = Inr (False, w)" "mem_inv w gs"
    "mem_step t w (get_paddr ` set gs)"
    "\<forall>x. plain_page t x \<longrightarrow> page_at w x = (if drop_bit 12 x = drop_bit 12 ?c then create_entry (get_paddr f) (flags OR 1) else page_at t x)"
    using mp pg(2) t(6) flags_or_present(2) [OF fl] nf u_t tb_t at(2) by (auto simp: rest_frames_def split: sum.splits)
  let ?mb = "\<lparr>mb_head = v, mb_tail = v, unread_size = 0, used_size = 0, capacity = ucast MAILBOX_DATA_SIZE,
    first_page = v, last_page = v, copy_page = ?c\<rparr>"
  have init: "mailbox_init s v flags = Inr (?mb, w)"
    using t(1) e w(1) ef by (simp add: mailbox_init_def Let_def link_page_def kernel_assert_def PAGE_SIZE_def)
  have wv: "page_at w v = ?e" using w(4) t(6) pg(1) ne at(1) by auto
  have wc: "get_paddr (page_at w ?c) = get_paddr f" "entry_present (page_at w ?c)"
    using w(4) t(6) pg(2) flags_or_present(2) [OF fl]
    by (auto simp: create_entry_paddr)
  have tr: "translate w (v + word_of_nat k) = Inr (get_paddr f + word_of_nat (k mod 4096))" if k: "k < 8192" for k
  proof -
    have lt: "unat v + k < 2 ^ 32" using al(2) k by simp
    note off = page_offset_facts [OF al(1) lt]
    have "page_at w (v + word_of_nat k) = (if k < 4096 then page_at w v else page_at w ?c)"
    proof (cases "k < 4096")
      case False
      then have "k div 4096 * 4096 = 4096" using k by (simp add: div_nat_eqI)
      then show ?thesis using page_at_same [OF off(1)] False by simp
    qed (use page_at_same [OF off(1)] in simp)
    then show ?thesis
      using page_at_translate [OF mem_paging [OF w(2)], of "v + word_of_nat k"] wv wc ef off(2) by simp
  qed
  have "\<not> table_frame w (get_paddr f)"
    using mem_step_table [OF w(3)] mem_step_table [OF t(3)] mem_no_table [OF inv, of f] nf by auto
  then have "ring_mem w v (get_paddr f)"
    unfolding ring_mem_def using mem_paging [OF w(2)] al tr by simp
  then have "mailbox_rep w ?mb (get_paddr f) 0 []"
    by (simp add: mailbox_rep_def MAILBOX_DATA_SIZE_def PAGE_SIZE_def ring_bytes_def)
  moreover have "page_at w x = page_at s x" if "plain_page s x" "drop_bit 12 x \<noteq> drop_bit 12 v" "drop_bit 12 x \<noteq> drop_bit 12 ?c" for x
    using w(4) t(4) [OF that(1)] t(6) that by simp
  ultimately show ?thesis using that [OF init _ w(2) mem_step_trans [OF t(3) w(3)]] by simp
qed

end
