(* ===== verification/MailboxQueue.thy ===== *)
theory MailboxQueue
  imports MailboxFifo
begin

section \<open>Sending and reading\<close>

text \<open>
  The results on the mailbox, on an example with the mailbox at page 6, its copy at page 7 and
  the buffer of the reader at page 8.
\<close>

unbundle bit_operations_syntax

lemma demo_page_facts:
  assumes "v \<in> {0x6000, 0x7000, 0x8000}"
  shows "plain_page demo v" "page_at demo v = 0" "get_pd_index v = 0" "user_ok demo 0 2"
  using assms by (auto simp: demo_plain get_pd_index_def get_pt_index_def page_at_def view_def demo_pd_1 demo_pte
      user_ok_def PAGE_USER_MODE_def)

lemma demo_mailbox:
  obtains mb t where "mailbox_rep t mb 0x4000 0 (msgs_bytes [])"
    "reader_buffer t 0x8000 (\<lambda>k. 0x3000 + word_of_nat k) 0x4000"
proof -
  let ?v = "0x6000 :: u32" and ?b = "0x8000 :: u32"
  have c: "?v + 4096 = 0x7000" by simp
  have ne: "drop_bit 12 ?v \<noteq> drop_bit 12 ?b" "drop_bit 12 (0x7000 :: u32) \<noteq> drop_bit 12 ?b" by simp_all
  obtain s where s: "alloc_page demo ?b 2 = Inr s" "mem_inv s (rest_frames demo (get_pd_index ?b) [0x4000])"
    "mem_step demo s (get_paddr ` set [0x4000])"
    "\<And>w. plain_page demo w \<Longrightarrow> page_at s w = (if drop_bit 12 w = drop_bit 12 ?b then create_entry 0x3000 2 else page_at demo w)"
    "\<And>k. k < 1023 \<Longrightarrow> user_ok demo k 2 \<Longrightarrow> user_ok s k 2" "\<And>w. plain_page s w \<longleftrightarrow> plain_page demo w"
    "entry_present (pde s (get_pd_index ?b))"
    by (rule alloc_page_steps [OF demo_inv demo_page_facts(1) [of ?b] _ _ _ disjI2, of 2])
      (use demo_page_facts [of ?b] in \<open>auto simp: entry_present_def\<close>)
  have inv: "mem_inv s [0x4000]"
    using s(2) demo_page_facts [of ?b] by (simp add: rest_frames_def demo_pd_1)
  have free: "\<not> entry_present (page_at s ?v)" "\<not> entry_present (page_at s 0x7000)"
    using s(4) demo_page_facts [of ?v] demo_page_facts [of "0x7000"] ne by (simp_all add: entry_present_def)
  have pd: "entry_present (pde s 0)" using s(7) demo_page_facts [of ?b] by simp
  have u: "user_ok s 0 2" using s(5) [of 0] demo_page_facts [of ?v] by simp
  have al: "frame_aligned ?v" by (simp add: frame_aligned_def)
  note f = demo_page_facts [of ?v] demo_page_facts [of "0x7000"] demo_page_facts [of ?b]
  obtain mb t where t: "mailbox_rep t mb (get_paddr 0x4000) 0 []" "mem_inv t []" "mem_step s t {}"
    "\<And>w. plain_page s w \<Longrightarrow> drop_bit 12 w \<noteq> drop_bit 12 ?v \<Longrightarrow> drop_bit 12 w \<noteq> drop_bit 12 (?v + 4096) \<Longrightarrow>
      page_at t w = page_at s w"
    by (rule mailbox_init_ok [OF inv al, of 2, unfolded c]) (use s(6) f free pd u in \<open>auto simp: c\<close>)
  have at: "page_at t ?b = create_entry 0x3000 2" using t(4) [of ?b] s(4) [of ?b] s(6) f ne by simp
  have tr: "translate t (?b + word_of_nat k) = Inr (0x3000 + word_of_nat k)" if k: "k < 264" for k
  proof -
    have b: "frame_aligned ?b" "unat ?b + k < 2 ^ 32" using k by (simp_all add: frame_aligned_def)
    note off = page_offset_facts [OF b]
    have "page_at t (?b + word_of_nat k) = create_entry 0x3000 2" using page_at_same [OF off(1)] at k by simp
    then show ?thesis
      using page_at_translate [OF mem_paging [OF t(2)], of "?b + word_of_nat k"] off(2) k
      by (simp add: create_entry_paddr) (simp add: get_paddr_def)
  qed
  have pa: "get_paddr (0x3000 + word_of_nat k) = 0x3000" if "k < 264" for k
    by (rule get_paddr_offset) (use that in \<open>auto simp: frame_aligned_def word_less_nat_alt unat_of_nat take_bit_nat_eq_self\<close>)
  have "\<not> table_frame t 0x3000"
    using mem_step_table [OF t(3), of "0x3000"] mem_step_table [OF s(3), of "0x3000"] demo_tables [of "0x3000"]
    by (auto simp: get_paddr_def)
  moreover have "inj_on (\<lambda>k. 0x3000 + word_of_nat k :: u32) {..<264}"
  proof (rule inj_onI)
    fix x y :: nat
    assume a: "x \<in> {..<264}" "y \<in> {..<264}" "0x3000 + word_of_nat x = (0x3000 + word_of_nat y :: u32)"
    have "unat (word_of_nat x :: u32) = x" by (rule frame_word(2)) (use a(1) in simp)
    moreover have "unat (word_of_nat y :: u32) = y" by (rule frame_word(2)) (use a(2) in simp)
    moreover have "(word_of_nat x :: u32) = word_of_nat y" using a(3) by (simp only: add_left_cancel)
    ultimately show "x = y" by metis
  qed
  ultimately have "reader_buffer t ?b (\<lambda>k. 0x3000 + word_of_nat k) 0x4000"
    unfolding reader_buffer_def writable_range_def range_at_def using tr pa by simp
  moreover have "get_paddr 0x4000 = 0x4000" by (simp add: get_paddr_def)
  ultimately show ?thesis using that t(1) by simp
qed

text \<open>
  C19: Sending. If there is room for the header and the data, the message is appended to the
  messages in the mailbox, whether or not it runs over the end of the page, and no memory
  outside of the page of the mailbox changes. Otherwise the send is refused and nothing changes.
\<close>

theorem mailbox_send_correct:
  assumes rep: "mailbox_rep s mb f hp (msgs_bytes xs)" and len: "unat dsize \<le> length data"
    and x: "x = (\<lparr>sender_pid = sp, reader_pid = rp, data_size = dsize\<rparr>, take (unat dsize) data)"
  shows "if length (msgs_bytes (xs @ [x])) \<le> 4096
    then \<exists>mb' m. mailbox_send_message s mb sp rp dsize data = Inr (True, mb', s\<lparr>pmem := m\<rparr>) \<and>
      mailbox_rep (s\<lparr>pmem := m\<rparr>) mb' f hp (msgs_bytes (xs @ [x])) \<and> message_ok x \<and>
      (\<forall>a. get_paddr a \<noteq> f \<longrightarrow> m a = pmem s a)
    else mailbox_send_message s mb sp rp dsize data = Inr (False, mb, s)"
proof -
  have ok: "message_ok x" using len by (simp add: x message_ok_def)
  have bytes: "mbytes x = message_bytes \<lparr>sender_pid = sp, reader_pid = rp, data_size = dsize\<rparr> data"
    by (simp add: x mbytes_def message_bytes_def)
  show ?thesis
  proof (cases "length (msgs_bytes (xs @ [x])) \<le> 4096")
    case True
    then have "length (msgs_bytes xs) + length (mbytes x) \<le> 4096" by simp
    then obtain mb' m where
      "mailbox_send_message s mb sp rp dsize data = Inr (True, mb', s\<lparr>pmem := m\<rparr>)"
      "mailbox_rep (s\<lparr>pmem := m\<rparr>) mb' f hp (msgs_bytes xs @ mbytes x)" "\<And>a. get_paddr a \<noteq> f \<Longrightarrow> m a = pmem s a"
      by (rule mailbox_send_ok [OF rep len bytes]) blast
    then show ?thesis using True ok by auto
  next
    case False
    then have "length (msgs_bytes xs) + (9 + unat dsize) > 4096" using length_mbytes [OF ok] by (simp add: x)
    from mailbox_send_full [OF rep this] show ?thesis using False by simp
  qed
qed

theorem mailbox_send_correct_witness:
  "\<exists>s mb mb' m. mailbox_send_message s mb 0x10000 0x20000 2 [7, 8, 9] = Inr (True, mb', s\<lparr>pmem := m\<rparr>) \<and>
     used_size mb' = 11"
proof (rule demo_mailbox)
  fix s mb
  assume rep: "mailbox_rep s mb 0x4000 0 (msgs_bytes [])"
  have "unat (2 :: u8) \<le> length [7, 8, 9 :: u8]" by simp
  from mailbox_send_correct [OF rep this refl, of "0x10000" "0x20000"]
  obtain mb' m where "mailbox_send_message s mb 0x10000 0x20000 2 [7, 8, 9] = Inr (True, mb', s\<lparr>pmem := m\<rparr>)"
    "used_size mb' = 11" by (auto simp: mbytes_def mailbox_rep_def)
  then show ?thesis by blast
qed


text \<open>
  C20: Reading. If no message matches, the read reports failure and changes no more than the
  header in the buffer of the reader. Otherwise the oldest message that matches is copied to the
  buffer, and it is removed when it is the oldest of all and crossed out when it is not; the
  other messages stay, in their order. No memory changes but the buffer and the page of the
  mailbox. The two oldest messages must not be crossed out.
\<close>

theorem mailbox_read_correct:
  assumes rep: "mailbox_rep s mb f hp (msgs_bytes xs)" and ok: "\<forall>x \<in> set xs. message_ok x"
    and b: "reader_buffer s message d f" and front: "\<forall>x \<in> set (take 2 xs). live x"
  shows "case dropWhile (\<lambda>x. \<not> matches sender reader x) xs of
      [] \<Rightarrow> \<exists>t. mailbox_read_message (s, log) mb sender reader message = Inr (False, mb, t, log) \<and>
        mailbox_rep t mb f hp (msgs_bytes xs) \<and> wrote s t (d ` {..<9})
    | x # bs \<Rightarrow> \<exists>mb' t hp' log'. mailbox_read_message (s, log) mb sender reader message = Inr (True, mb', t, log') \<and>
        mailbox_rep t mb' f hp' (msgs_bytes (if matches sender reader (hd xs) then bs
          else takeWhile (\<lambda>x. \<not> matches sender reader x) xs @ crossed x # bs)) \<and>
        (\<forall>k < length (mbytes x). pmem t (d k) = mbytes x ! k) \<and>
        wrote s t (d ` {..<length (mbytes x)} \<union> {a. get_paddr a = f})"
proof (cases "dropWhile (\<lambda>x. \<not> matches sender reader x) xs")
  case Nil
  then have "\<forall>x \<in> set xs. \<not> matches sender reader x" by (simp add: dropWhile_eq_Nil_conv)
  from mailbox_read_none [OF rep ok b this] show ?thesis unfolding Nil list.case by blast
next
  case (Cons x bs)
  obtain as where as: "takeWhile (\<lambda>x. \<not> matches sender reader x) xs = as" by simp
  have xs: "xs = as @ x # bs" using Cons as takeWhile_dropWhile_id [of "\<lambda>x. \<not> matches sender reader x" xs] by simp
  have m: "matches sender reader x" using Cons by (metis dropWhile_eq_Cons_conv)
  have miss: "\<forall>y \<in> set as. \<not> matches sender reader y" using as by (auto dest: set_takeWhileD)
  have hd: "matches sender reader (hd xs) \<longleftrightarrow> as = []" unfolding xs using m miss by (cases as) simp_all
  have live: "as = [] \<Longrightarrow> bs \<noteq> [] \<Longrightarrow> live (hd bs)" "as \<noteq> [] \<Longrightarrow> live (hd as)"
    using front unfolding xs by (cases as; cases bs; simp)+
  obtain mb' t hp' log' where "mailbox_read_message (s, log) mb sender reader message = Inr (True, mb', t, log')"
    "mailbox_rep t mb' f hp' (msgs_bytes (if as = [] then bs else as @ crossed x # bs))"
    "\<And>k. k < length (mbytes x) \<Longrightarrow> pmem t (d k) = mbytes x ! k"
    "wrote s t (d ` {..<length (mbytes x)} \<union> {a. get_paddr a = f})"
    by (rule mailbox_read_ok [OF rep [unfolded xs] ok [unfolded xs] b m miss, where log = log])
      (erule (1) live(1), erule live(2), rule that)
  then show ?thesis unfolding Cons list.case hd as by blast
qed


lemma wrote_mailbox:
  assumes "mailbox_rep s mb f hp bs" "\<And>a. get_paddr a \<noteq> f \<Longrightarrow> m a = pmem s a"
  shows "wrote s (s\<lparr>pmem := m\<rparr>) {a. get_paddr a = f}"
proof -
  have r: "paging_ok s" "\<not> table_frame s f" using assms(1) by (simp_all add: mailbox_rep_def ring_mem_def)
  have "m a = pmem s a" if "table_frame s (get_paddr a)" for a using that r(2) assms(2) by metis
  then have "paging_eq s (s\<lparr>pmem := m\<rparr>)" by (intro paging_eq_bytes) (use r(1) in simp_all)
  then show ?thesis unfolding wrote_def using assms(2) by auto
qed

theorem mailbox_read_correct_witness:
  "\<exists>s mb mb' t log'. mailbox_read_message (s, []) mb 0x10000 0 0x8000 = Inr (True, mb', t, log') \<and>
     used_size mb' = 0 \<and> pmem t 0x3009 = 7"
proof (rule demo_mailbox)
  fix s mb
  let ?d = "\<lambda>k. 0x3000 + word_of_nat k :: u32" and ?x = "(\<lparr>sender_pid = 0x10000, reader_pid = 0x20000, data_size = 2\<rparr>, [7, 8 :: u8])"
  assume rep: "mailbox_rep s mb 0x4000 0 (msgs_bytes [])" and b: "reader_buffer s 0x8000 ?d 0x4000"
  have len: "unat (2 :: u8) \<le> length [7, 8 :: u8]" by simp
  have x: "mbytes ?x = message_bytes \<lparr>sender_pid = 0x10000, reader_pid = 0x20000, data_size = 2\<rparr> [7, 8]"
    by (simp add: mbytes_def message_bytes_def)
  have ok: "\<forall>y \<in> set [?x]. message_ok y" by (simp add: message_ok_def)
  have room: "length (msgs_bytes []) + length (mbytes ?x) \<le> 4096" by (simp add: mbytes_def)
  obtain mb1 m where s1: "mailbox_rep (s\<lparr>pmem := m\<rparr>) mb1 0x4000 0 (msgs_bytes [] @ mbytes ?x)"
    "\<And>a. get_paddr a \<noteq> 0x4000 \<Longrightarrow> m a = pmem s a"
    by (rule mailbox_send_ok [OF rep len x room]) blast
  let ?s = "s\<lparr>pmem := m\<rparr>"
  have r: "ring_mem s (first_page mb) 0x4000" using rep by (simp add: mailbox_rep_def)
  have b1: "reader_buffer ?s 0x8000 ?d 0x4000" by (rule wrote_buffer [OF r b wrote_mailbox [OF rep s1(2)]])
  have rep1: "mailbox_rep ?s mb1 0x4000 0 (msgs_bytes [?x])" using s1(1) by simp
  have front: "\<forall>y \<in> set (take 2 [?x]). live y" by (simp add: live_def)
  have match: "matches 0x10000 0 ?x" by (simp add: matches_def match_pid_def get_pid_tid_def get_pid_aid_def)
  obtain mb' t hp' log' where t: "mailbox_read_message (?s, []) mb1 0x10000 0 0x8000 = Inr (True, mb', t, log')"
    "mailbox_rep t mb' 0x4000 hp' (msgs_bytes [])" "\<forall>k < length (mbytes ?x). pmem t (?d k) = mbytes ?x ! k"
    using mailbox_read_correct [OF rep1 ok b1 front, where sender = "0x10000" and reader = 0 and log = "[]"] match by auto
  have "used_size mb' = 0" using t(2) by (simp add: mailbox_rep_def)
  moreover have "pmem t (?d 9) = mbytes ?x ! 9" using t(3) [rule_format, of 9] by (simp add: mbytes_def)
  then have "pmem t 0x3009 = 7" by (simp add: mbytes_def nth_append)
  ultimately show ?thesis using t(1) by blast
qed

text \<open>
  C21: The clean-up of read messages counts the bytes of the earlier ones again when it goes to
  the next one. After two read messages without data it looks for the next header 9 bytes
  behind the header of the third message; when the data of that message is 9 zero bytes, it
  takes them for a read message, removes bytes of the third message, which nobody has read, and
  leaves the head of the mailbox inside of it.
\<close>

theorem mailbox_cleanup_overrun:
  assumes rep: "mailbox_rep s mb f hp (msgs_bytes [x, y, z])" and read: "\<not> live x" "\<not> live y" "snd x = []" "snd y = []"
    and z: "live z" "snd z = replicate 9 0" and ok: "\<forall>w \<in> set [x, y, z]. message_ok w"
  shows "message_cleanup s mb = Inr 27 \<and> length (msgs_bytes [x, y]) = 18"
proof -
  let ?v = "first_page mb"
  have len: "length (mbytes x) = 9" "length (mbytes y) = 9" "length (mbytes z) = 18"
    using read z by (simp_all add: mbytes_def)
  have r: "ring_mem s ?v f" "mb_head mb = ?v + word_of_nat hp" "hp < 4096" "used_size mb = 36"
    "ring_bytes s f hp 36 = mbytes x @ mbytes y @ mbytes z"
    using rep len by (simp_all add: mailbox_rep_def)
  have ds: "data_size (fst x) = 0" "data_size (fst y) = 0" "data_size (fst z) = 9"
    using ok read z by (simp_all add: message_ok_def word_unat_eq_iff)
  have mz: "mbytes z = header_bytes (fst z) @ replicate 9 0" by (simp add: mbytes_def z)
  let ?zero = "\<lparr>sender_pid = 0, reader_pid = 0, data_size = 0\<rparr>"
  have zb: "replicate 9 (0 :: u8) = header_bytes ?zero"
    by (simp add: header_bytes_def header_bytes_zero eval_nat_numeral)
  have h0: "bytes_to_message_header s (?v + word_of_nat hp) = Inr (fst x)"
    by (rule header_at [OF r(1)]) (use ring_bytes_mid [of s f hp 36 "[]" "mbytes x"] r(3,5) ok len in simp_all)
  have h1: "bytes_to_message_header s (?v + word_of_nat (hp + 9)) = Inr (fst y)"
    by (rule header_at [OF r(1)]) (use ring_bytes_mid [of s f hp 36 "mbytes x" "mbytes y"] r(3,5) ok len in simp_all)
  have "ring_bytes s f (hp + 27) 9 = replicate 9 0"
    using ring_bytes_mid [of s f hp 36 "mbytes x @ mbytes y @ header_bytes (fst z)" "replicate 9 0" "[]"] r(5) len
    by (simp add: mz)
  then have h2: "bytes_to_message_header s (?v + word_of_nat (hp + 27)) = Inr ?zero"
    using ring_header [OF r(1), of "hp + 27"] r(3) bytes_header_bytes [of ?zero "[]"] by (simp add: zb)
  obtain h where h3: "bytes_to_message_header s (?v + word_of_nat (hp + 54)) = Inr h"
    using ring_header [OF r(1), of "hp + 54"] r(3) by simp
  obtain j where fuel: "(2 :: nat) ^ 64 = Suc (Suc (Suc (Suc j)))" by (rule that [of 18446744073709551612]) simp
  have "message_cleanup s mb = Inr 27"
    unfolding message_cleanup_def fuel r(2) using h0 h1 h2 h3 read ds r(4)
    by (simp add: live_def Let_def SIZEOF_MessageHeader_def add.assoc)
  then show ?thesis using len by simp
qed


theorem mailbox_cleanup_overrun_witness:
  "\<exists>s mb. used_size mb = 36 \<and> message_cleanup s mb = Inr 27"
proof (rule demo_mailbox)
  fix s mb
  let ?m = "\<lambda>p n. (\<lparr>sender_pid = p, reader_pid = p, data_size = n\<rparr>, replicate (unat n) (0 :: u8)) :: mailbox_message"
  assume rep: "mailbox_rep s mb 0x4000 0 (msgs_bytes [])"
  have send: "\<exists>s' mb'. mailbox_rep s' mb' 0x4000 0 (msgs_bytes (xs @ [?m p n]))"
    if "mailbox_rep s mb 0x4000 0 (msgs_bytes xs)" "length (msgs_bytes xs) \<le> 100" "unat n \<le> 9" for xs s mb p n
  proof -
    note pr = that
    have len: "unat n \<le> length (replicate (unat n) (0 :: u8))" by simp
    have x: "mbytes (?m p n) = message_bytes \<lparr>sender_pid = p, reader_pid = p, data_size = n\<rparr> (replicate (unat n) 0)"
      by (simp add: mbytes_def message_bytes_def)
    have room: "length (msgs_bytes xs) + length (mbytes (?m p n)) \<le> 4096" using pr(2,3) by (simp add: mbytes_def)
    obtain mb' m where "mailbox_rep (s\<lparr>pmem := m\<rparr>) mb' 0x4000 0 (msgs_bytes xs @ mbytes (?m p n))"
      by (rule mailbox_send_ok [OF pr(1) len x room]) blast
    then show ?thesis by auto
  qed
  obtain s1 mb1 where s1: "mailbox_rep s1 mb1 0x4000 0 (msgs_bytes ([] @ [?m 0 0]))"
    using send [OF rep, of 0 0] by auto
  have l1: "length (msgs_bytes ([] @ [?m 0 0])) \<le> 100" by (simp add: mbytes_def)
  obtain s2 mb2 where s2: "mailbox_rep s2 mb2 0x4000 0 (msgs_bytes (([] @ [?m 0 0]) @ [?m 0 0]))"
    using send [OF s1 l1, of 0 0] by auto
  have l2: "length (msgs_bytes (([] @ [?m 0 0]) @ [?m 0 0])) \<le> 100" by (simp add: mbytes_def)
  obtain s3 mb3 where "mailbox_rep s3 mb3 0x4000 0 (msgs_bytes ((([] @ [?m 0 0]) @ [?m 0 0]) @ [?m 1 9]))"
    using send [OF s2 l2, of 9 1] by auto
  then have s3: "mailbox_rep s3 mb3 0x4000 0 (msgs_bytes [?m 0 0, ?m 0 0, ?m 1 9])" by (simp only: append.simps)
  have "message_cleanup s3 mb3 = Inr 27"
    using mailbox_cleanup_overrun [OF s3] by (simp add: live_def message_ok_def)
  moreover have "used_size mb3 = 36" using s3 by (simp add: mailbox_rep_def mbytes_def)
  ultimately show ?thesis by blast
qed

end
