(* ===== verification/AddressSpaces.thy ===== *)
theory AddressSpaces
  imports Pool
begin

section \<open>New address spaces (\<^verbatim>\<open>memory/mem.c\<close>, \<open>new_page_dir\<close>)\<close>

text \<open>
  What the page directory of a new process contains, and what the processor finds when it is
  loaded: the kernel's pages and the low memory, and no user page.
\<close>

unbundle bit_operations_syntax

subsection \<open>Writing a frame through the page that maps it\<close>

text \<open>The page \<open>v\<close> is mapped to the frame \<open>f\<close>, which is not a page table.\<close>

definition data_page :: "kmem \<Rightarrow> u32 \<Rightarrow> u32 \<Rightarrow> bool" where
  "data_page s v f \<longleftrightarrow> paging_ok s \<and> frame_aligned v \<and> entry_present (page_at s v) \<and>
     get_paddr (page_at s v) = f \<and> \<not> table_frame s f"

text \<open>\<open>t\<close> is \<open>s\<close> with the words \<open>g\<close> in the frame \<open>f\<close>.\<close>

definition frame_words :: "kmem \<Rightarrow> u32 \<Rightarrow> (u32 \<Rightarrow> u32) \<Rightarrow> kmem \<Rightarrow> bool" where
  "frame_words s f g t \<longleftrightarrow> (\<exists>m. t = s\<lparr>pmem := m\<rparr> \<and> (\<forall>k < 1024. rd32 m (f + 4 * k) = g k) \<and>
     (\<forall>a. get_paddr a \<noteq> f \<longrightarrow> m a = pmem s a))"

lemma frame_wordsD:
  assumes "frame_words s f g t"
  shows "k < 1024 \<Longrightarrow> rd32 (pmem t) (f + 4 * k) = g k" "get_paddr a \<noteq> f \<Longrightarrow> pmem t a = pmem s a"
  using assms by (auto simp: frame_words_def)

lemma frame_words_cong: "frame_words s f g t \<Longrightarrow> (\<And>k. k < 1024 \<Longrightarrow> g k = h k) \<Longrightarrow> frame_words s f h t"
  unfolding frame_words_def by metis

lemma frame_words_refl: "frame_words s f (\<lambda>k. rd32 (pmem s) (f + 4 * k)) s"
  unfolding frame_words_def by (rule exI [of _ "pmem s"]) simp

lemma frame_words_paging:
  assumes "paging_ok s" "\<not> table_frame s f" "frame_words s f g t"
  shows "paging_eq s t"
proof (rule paging_eq_bytes)
  fix a
  assume "table_frame s (get_paddr a)"
  then have "get_paddr a \<noteq> f" using assms(2) by auto
  then show "pmem t a = pmem s a" using assms(3) by (auto simp: frame_words_def)
qed (use assms in \<open>auto simp: frame_words_def\<close>)

lemma data_page_paging: "data_page s v f \<Longrightarrow> frame_words s f g t \<Longrightarrow> paging_eq s t"
  by (rule frame_words_paging) (auto simp: data_page_def)

lemma data_page_translate:
  assumes "data_page s v f" "i < 1024"
  shows "translate s (v + 4 * i) = Inr (f + 4 * i)"
proof -
  have v: "frame_aligned v" and off: "4 * i < 0x1000" using assms index_scaled(1) by (simp_all add: data_page_def)
  have low: "get_paddr (v + 4 * i) = v" "(v + 4 * i) AND 0xFFF = 4 * i"
    using frame_decomp [OF v off, of "v + 4 * i"] by simp_all
  have "drop_bit 12 a = drop_bit 12 (get_paddr a)" for a :: u32
    by (rule bit_word_eqI) (simp add: bit_simps)
  then have "drop_bit 12 (v + 4 * i) = drop_bit 12 v" using low(1) by metis
  then show ?thesis
    using assms(1) page_at_same [of "v + 4 * i" v s] low(2) by (simp add: data_page_def page_at_translate)
qed

lemma frame_words_wr:
  assumes "frame_words s f g (s\<lparr>pmem := m\<rparr>)" "frame_aligned f" "i < 1024"
  shows "frame_words s f (g(i := x)) (s\<lparr>pmem := wr32 m (f + 4 * i) x\<rparr>)"
proof -
  obtain m' where "s\<lparr>pmem := m\<rparr> = s\<lparr>pmem := m'\<rparr>" "\<forall>k < 1024. rd32 m' (f + 4 * k) = g k" "\<forall>a. get_paddr a \<noteq> f \<longrightarrow> m' a = pmem s a"
    using assms(1) unfolding frame_words_def by blast
  moreover from this(1) have "m = m'" by (metis kmem.simps(1) kmem.surjective kmem.update_convs(1))
  ultimately show ?thesis
    unfolding frame_words_def
    by (intro exI [of _ "wr32 m (f + 4 * i) x"]) (use assms(2,3) wr32_in_frame(1) [OF assms(2,3)] in auto)
qed

lemma frame_words_write:
  assumes v: "data_page s v f" and t: "frame_words s f g t" and i: "i < 1024"
  shows "\<exists>u. vwrite32 t (v + 4 * i) x = Inr u \<and> frame_words s f (g(i := x)) u"
proof -
  obtain m where m: "t = s\<lparr>pmem := m\<rparr>" "\<forall>k < 1024. rd32 m (f + 4 * k) = g k" "\<forall>a. get_paddr a \<noteq> f \<longrightarrow> m a = pmem s a"
    using t by (auto simp: frame_words_def)
  have f: "frame_aligned f" using v by (auto simp: data_page_def)
  have "translate t (v + 4 * i) = Inr (f + 4 * i)"
    using paging_eq_translate [OF _ data_page_paging [OF v t]] data_page_translate [OF v i] v
    by (simp add: data_page_def)
  then have "vwrite32 t (v + 4 * i) x = Inr (s\<lparr>pmem := wr32 m (f + 4 * i) x\<rparr>)"
    by (simp add: vwrite32_def m(1))
  moreover have "frame_words s f (g(i := x)) (s\<lparr>pmem := wr32 m (f + 4 * i) x\<rparr>)"
    by (rule frame_words_wr [OF _ f i]) (use t in \<open>simp add: m(1)\<close>)
  ultimately show ?thesis by blast
qed

lemma index_Suc: "unat i + Suc n \<le> 1024 \<Longrightarrow> i < 1024 \<and> unat (i + 1 :: u32) = unat i + 1"
  by (simp add: word_less_nat_alt unat_word_ariths)

lemma clear_dir_loop_ok:
  assumes v: "data_page s v f" and "frame_words s f g t" "unat i + n \<le> 1024"
  shows "\<exists>u. clear_dir_loop n t v i = Inr u \<and>
    frame_words s f (\<lambda>k. if unat i \<le> unat k \<and> unat k < unat i + n then 0 else g k) u"
  using assms(2-)
proof (induction n arbitrary: t g i)
  case 0
  have "clear_dir_loop 0 t v i = Inr t" by simp
  then show ?case by (intro exI conjI) (assumption, rule frame_words_cong [OF 0(1)], auto)
next
  case (Suc n)
  note i = index_Suc [OF Suc.prems(2)]
  obtain t' where t': "vwrite32 t (v + 4 * i) 0 = Inr t'" "frame_words s f (g(i := 0)) t'"
    using frame_words_write [OF v Suc.prems(1)] i by blast
  obtain u where u: "clear_dir_loop n t' v (i + 1) = Inr u"
    "frame_words s f (\<lambda>k. if unat (i + 1) \<le> unat k \<and> unat k < unat (i + 1) + n then 0 else (g(i := 0)) k) u"
    using Suc.IH [OF t'(2), of "i + 1"] i Suc.prems(2) by auto
  have "frame_words s f (\<lambda>k. if unat i \<le> unat k \<and> unat k < unat i + Suc n then 0 else g k) u"
    by (rule frame_words_cong [OF u(2)]) (use i in \<open>auto simp: word_unat_eq_iff\<close>)
  then show ?case using t'(1) u(1) by auto
qed

lemma copy_dir_loop_ok:
  assumes v: "data_page s v f" and "frame_words s f g t" "unat i + n \<le> 1024"
  shows "\<exists>u. copy_dir_loop n t v i = Inr u \<and>
    frame_words s f (\<lambda>k. if unat i \<le> unat k \<and> unat k < unat i + n then pde s k else g k) u"
  using assms(2-)
proof (induction n arbitrary: t g i)
  case 0
  have "copy_dir_loop 0 t v i = Inr t" by simp
  then show ?case by (intro exI conjI) (assumption, rule frame_words_cong [OF 0(1)], auto)
next
  case (Suc n)
  note i = index_Suc [OF Suc.prems(2)]
  have "paging_ok t" "pde t i = pde s i"
    using paging_eq_ok [OF data_page_paging [OF v Suc.prems(1)]] paging_eq_pde [OF data_page_paging [OF v Suc.prems(1)]] v i
    by (auto simp: data_page_def)
  then have p: "PDE t i = Inr (pde s i)" using i by (simp add: PDE_ok)
  obtain t' where t': "vwrite32 t (v + 4 * i) (pde s i) = Inr t'" "frame_words s f (g(i := pde s i)) t'"
    using frame_words_write [OF v Suc.prems(1)] i by blast
  obtain u where u: "copy_dir_loop n t' v (i + 1) = Inr u"
    "frame_words s f (\<lambda>k. if unat (i + 1) \<le> unat k \<and> unat k < unat (i + 1) + n then pde s k else (g(i := pde s i)) k) u"
    using Suc.IH [OF t'(2), of "i + 1"] i Suc.prems(2) by auto
  have "frame_words s f (\<lambda>k. if unat i \<le> unat k \<and> unat k < unat i + Suc n then pde s k else g k) u"
  proof (rule frame_words_cong [OF u(2)])
    show "(if unat (i + 1) \<le> unat k \<and> unat k < unat (i + 1) + n then pde s k else (g(i := pde s i)) k) =
        (if unat i \<le> unat k \<and> unat k < unat i + Suc n then pde s k else g k)" for k
      using i word_unat_eq_iff [of k i] by (cases "k = i") auto
  qed
  then show ?case using p t'(1) u(1) by auto
qed

lemma frame_words_inv:
  assumes inv: "mem_inv s fs" and v: "\<not> table_frame s f" and f: "f \<notin> get_paddr ` set fs" and t: "frame_words s f g t"
  shows "mem_inv t fs"
proof -
  note eq = frame_words_paging [OF mem_paging [OF inv] v t]
  obtain m where m: "t = s\<lparr>pmem := m\<rparr>" "\<forall>a. get_paddr a \<noteq> f \<longrightarrow> m a = pmem s a" using t by (auto simp: frame_words_def)
  have "rd32 m (get_paddr p) = rd32 (pmem s) (get_paddr p)" if "p \<in> set fs" for p
    by (rule rd32_frame_cong) (use that f m(2) in auto)
  then have "flist m (free_frame_paddr s) fs" using mem_flist [OF inv] flist_cong [of fs m "pmem s"] by simp
  moreover have "maps t (wdi s) (wti s) a \<longleftrightarrow> maps s (wdi s) (wti s) a" for a
    by (rule paging_eq_maps [OF eq]) simp_all
  ultimately show ?thesis
    using inv paging_eq_ok [OF eq] paging_eq_window [OF eq] paging_eq_unreferenced [OF eq]
    by (simp add: mem_inv_def m(1))
qed

lemma paging_eq_page_at: "paging_eq s t \<Longrightarrow> page_at t w = page_at s w"
  by (simp add: page_at_def view_def paging_eqD)

lemma paging_eq_backed:
  assumes "paging_eq s t" "free_list_head t = free_list_head s"
  shows "heap_backed t h flags \<longleftrightarrow> heap_backed s h flags"
  using assms(2) by (simp add: heap_backed_def plain_page_def user_ok_def sole_frame_def paging_eq_page_at [OF assms(1)]
      paging_eq_pde [OF assms(1)] paging_eq_table [OF assms(1)])

subsection \<open>The directory\<close>

text \<open>The directory entries of the kernel: low memory and the top quarter but for the self map.\<close>

definition kernel_entry :: "u32 \<Rightarrow> bool" where
  "kernel_entry k \<longleftrightarrow> k = 0 \<or> 0x300 \<le> k \<and> k < 0x3FF"

definition dir_words :: "kmem \<Rightarrow> u32 \<Rightarrow> u32 \<Rightarrow> u32" where
  "dir_words s d k = (if k = 1023 then create_entry d PAGE_WRITABLE else if kernel_entry k then pde s k else 0)"

text \<open>The part of \<open>new_page_dir\<close> that fills the page.\<close>

lemma fill_dir:
  assumes v: "data_page s v f"
  obtains s1 s2 s3 s4 where "clear_dir_loop (unat (KERNEL_PDI_START - 1)) s v 1 = Inr s1"
    "copy_dir_loop (unat (KERNEL_PDI_END - KERNEL_PDI_START)) s1 v KERNEL_PDI_START = Inr s2"
    "PDE s2 0 = Inr (pde s 0)" "vwrite32 s2 (v + 4 * get_pd_index 0) (pde s 0) = Inr s3"
    "get_entry s3 v = Inr (page_at s v)" "vwrite32 s3 (v + 4 * 1023) (create_entry f PAGE_WRITABLE) = Inr s4"
    "frame_words s f (dir_words s f) s4"
proof -
  have ok: "paging_ok s" using v by (simp add: data_page_def)
  obtain s1 where s1: "clear_dir_loop (unat (KERNEL_PDI_START - 1)) s v 1 = Inr s1"
    "frame_words s f (\<lambda>k. if 1 \<le> unat k \<and> unat k < 0x300 then 0 else rd32 (pmem s) (f + 4 * k)) s1"
    using clear_dir_loop_ok [OF v frame_words_refl, of 1 767] by (auto simp: KERNEL_PDI_START_def)
  obtain s2 where s2: "copy_dir_loop (unat (KERNEL_PDI_END - KERNEL_PDI_START)) s1 v KERNEL_PDI_START = Inr s2"
    "frame_words s f (\<lambda>k. if 0x300 \<le> unat k \<and> unat k < 0x3FF then pde s k
       else if 1 \<le> unat k \<and> unat k < 0x300 then 0 else rd32 (pmem s) (f + 4 * k)) s2"
    using copy_dir_loop_ok [OF v s1(2), of "0x300" 255] by (auto simp: KERNEL_PDI_START_def KERNEL_PDI_END_def)
  have z: "get_pd_index 0 = 0" by (simp add: get_pd_index_def)
  note eq2 = data_page_paging [OF v s2(2)]
  have "PDE s2 0 = Inr (pde s 0)" using paging_eq_ok [OF eq2] paging_eq_pde [OF eq2, of 0] ok by (simp add: PDE_ok)
  moreover obtain s3 where s3: "vwrite32 s2 (v + 4 * get_pd_index 0) (pde s 0) = Inr s3"
    "frame_words s f ((\<lambda>k. if 0x300 \<le> unat k \<and> unat k < 0x3FF then pde s k
       else if 1 \<le> unat k \<and> unat k < 0x300 then 0 else rd32 (pmem s) (f + 4 * k)) (0 := pde s 0)) s3"
    using frame_words_write [OF v s2(2), of 0 "pde s 0"] by (auto simp: z)
  note eq3 = data_page_paging [OF v s3(2)]
  have "get_entry s3 v = Inr (page_at s v)"
    using get_entry_view [of s3 v] paging_eq_ok [OF eq3] paging_eq_page_at [OF eq3, of v] ok by (simp add: page_at_def)
  moreover obtain s4 where s4: "vwrite32 s3 (v + 4 * 1023) (create_entry f PAGE_WRITABLE) = Inr s4"
    "frame_words s f ((((\<lambda>k. if 0x300 \<le> unat k \<and> unat k < 0x3FF then pde s k
       else if 1 \<le> unat k \<and> unat k < 0x300 then 0 else rd32 (pmem s) (f + 4 * k)) (0 := pde s 0)))
       (1023 := create_entry f PAGE_WRITABLE)) s4"
    using frame_words_write [OF v s3(2), of 1023 "create_entry f PAGE_WRITABLE"] by auto
  moreover have "frame_words s f (dir_words s f) s4"
  proof (rule frame_words_cong [OF s4(2)])
    fix k :: u32
    assume "k < 1024"
    then have "unat k < 1024" "k = 0 \<longleftrightarrow> unat k = 0" "k = 1023 \<longleftrightarrow> unat k = 1023"
      by (simp_all add: word_less_nat_alt word_unat_eq_iff)
    then show "((((\<lambda>k. if 0x300 \<le> unat k \<and> unat k < 0x3FF then pde s k
       else if 1 \<le> unat k \<and> unat k < 0x300 then 0 else rd32 (pmem s) (f + 4 * k)) (0 := pde s 0)))
       (1023 := create_entry f PAGE_WRITABLE)) k = dir_words s f k"
      by (cases "k = 0") (auto simp: dir_words_def kernel_entry_def word_le_nat_alt word_less_nat_alt)
  qed
  ultimately show ?thesis using s1(1) s2(1) s3(1) by (intro that)
qed

text \<open>The part that gives the heap page back and unmaps it, without freeing its frame \<open>f\<close>.\<close>

lemma release_dir:
  assumes inv: "mem_inv t gs" and hb: "heap_backed t h PAGE_WRITABLE" and al: "is_alloc h st 1"
    and p: "p = page_addr h st" "get_paddr (page_at t p) = f" and s: "frame_words (t\<lparr>kernel_heap := h\<rparr>) f g s"
  obtains h' v where "heap_free (kernel_heap s) p = Inr (1, h')"
    "unmap_page (s\<lparr>kernel_heap := h'\<rparr>) p = Inr (False, page_at t p, v)" "kernel_mem v gs"
    "allocs (kernel_heap v) = allocs h - {(st, 1)}" "unreferenced v f" "f \<notin> get_paddr ` set gs"
    "\<And>w. page_at v w = (if drop_bit 12 w = drop_bit 12 p then 0 else page_at t w)"
    "\<And>k. k < 1024 \<Longrightarrow> pde v k = pde t k" "\<And>k. k < 1024 \<Longrightarrow> rd32 (pmem v) (f + 4 * k) = g k"
    "cr3 v = cr3 t" "current_page_dir v = current_page_dir t" "stale v = stale t"
    "heap_start (kernel_heap v) = heap_start h" "page_count (kernel_heap v) = page_count h"
    "\<And>a. unreferenced t a \<Longrightarrow> unreferenced v a"
proof -
  have hw: "heap_wf h" using hb by (simp add: heap_backed_def)
  note pg = alloc_backed [OF hb al, of 0, simplified, folded p(1)]
  have sole: "entry_present (page_at t p)" "\<not> table_frame t f"
    "\<And>w. plain_page t w \<Longrightarrow> entry_present (page_at t w) \<Longrightarrow> get_paddr (page_at t w) = f \<Longrightarrow> drop_bit 12 w = drop_bit 12 p"
    using pg(2) p(2) by (auto simp: sole_frame_def)
  obtain m where m: "s = t\<lparr>kernel_heap := h, pmem := m\<rparr>" using s by (auto simp: frame_words_def)
  obtain h' where h': "heap_free h p = Inr (1, h')" "heap_wf h'" "allocs h' = allocs h - {(st, 1)}"
    "heap_start h' = heap_start h" "page_count h' = page_count h"
    "\<And>k. k \<le> unat (page_count h) \<Longrightarrow> page_use h' k = (if st \<le> k \<and> k < st + 1 then 0 else page_use h k)"
    using heap_free_effect [OF hw al] by (auto simp: p(1))
  let ?u = "s\<lparr>kernel_heap := h'\<rparr>"
  have nt: "\<not> table_frame (t\<lparr>kernel_heap := h\<rparr>) f" "mem_inv (t\<lparr>kernel_heap := h\<rparr>) gs"
    using sole(2) inv by (simp_all add: table_frame_def)
  have nf: "f \<notin> get_paddr ` set gs" using sole_frame_not_free [OF inv pg(1) sole(1)] p(2) by simp
  have eq: "paging_eq t ?u" using frame_words_paging [OF mem_paging [OF nt(2)] nt(1) s] by (simp add: paging_eq_def)
  have fl: "free_list_head ?u = free_list_head t" by (simp add: m)
  have plain: "plain_page ?u w \<longleftrightarrow> plain_page t w" for w by (simp add: plain_page_def fl)
  note at = paging_eq_page_at [OF eq]
  have pu: "mem_inv ?u gs" "plain_page ?u p" "entry_present (page_at ?u p)"
    using frame_words_inv [OF nt(2,1) nf s] pg(1) plain [of p] sole(1) at [of p] by simp_all
  obtain v where v: "unmap_page ?u p = Inr (False, page_at ?u p, v)" "mem_inv v gs" "mem_step ?u v {}"
    "\<And>w. page_at v w = (if drop_bit 12 w = drop_bit 12 p then 0 else page_at ?u w)"
    "\<And>k. k < 1024 \<Longrightarrow> pde v k = pde ?u k"
    by (rule unmap_page_steps [OF pu]) (rule that; assumption)
  note conf = same_configD [OF mem_step_config [OF v(3)]]
  have "heap_backed v h' PAGE_WRITABLE"
  proof (rule heap_backed_release [OF _ al h'(2,4-6)])
    show "heap_backed ?u h PAGE_WRITABLE" using paging_eq_backed [OF eq fl] hb by simp
    show "mem_step ?u v ((\<lambda>k. get_paddr (page_at ?u (page_addr h (st + k)))) ` {..<1})"
      by (rule mem_step_mono [OF v(3)]) simp
  qed (use v(4,5) in \<open>simp_all add: p(1)\<close>)
  then have km: "kernel_mem v gs" using v(2) conf(8) by (simp add: kernel_mem_def)
  have nt': "\<not> table_frame ?u f" using paging_eq_table [OF eq] sole(2) by simp
  have "\<not> table_frame v f" using mem_step_table [OF v(3), of f] nt' by blast
  then have unref: "unreferenced v f"
    unfolding unreferenced_pages using v(4) at sole(3) mem_step_plain [OF v(3)] plain by (auto split: if_splits)
  have keep: "unreferenced v a" if "unreferenced t a" for a
  proof -
    have "\<not> table_frame v a"
      using mem_step_table [OF v(3), of a] paging_eq_table [OF eq] that by (auto simp: unreferenced_def)
    then show ?thesis
      using that v(4) at mem_step_plain [OF v(3)] plain unfolding unreferenced_pages by (auto split: if_splits)
  qed
  have words: "rd32 (pmem v) (f + 4 * k) = g k" if k: "k < 1024" for k
  proof -
    have f: "frame_aligned f" by (simp add: p(2) [symmetric])
    have "rd32 (pmem v) (f + 4 * k) = rd32 (pmem s) (f + 4 * k)"
      using mem_step_data [OF v(3)] nt' k f by (intro rd32_frame_cong) (simp_all add: index_scaled)
    then show ?thesis using frame_wordsD(1) [OF s k] by simp
  qed
  show ?thesis
  proof (rule that)
    show "unmap_page ?u p = Inr (False, page_at t p, v)" using v(1) at by simp
    show "page_at v w = (if drop_bit 12 w = drop_bit 12 p then 0 else page_at t w)" for w using v(4) at by simp
    show "pde v k = pde t k" if "k < 1024" for k using v(5) [OF that] paging_eq_pde [OF eq that] by simp
    show "allocs (kernel_heap v) = allocs h - {(st, 1)}" using conf(8) h'(3) by (simp del: in_allocs)
    show "unreferenced v a" if "unreferenced t a" for a by (rule keep [OF that])
  qed (use h'(1,4,5) km unref nf words conf(1,2,7,8) in \<open>simp_all add: m\<close>)
qed

lemma new_page_dir_ok:
  assumes inv: "kernel_mem s fs" and room: "2 \<le> length fs"
  shows "case new_page_dir s of
      Inl e \<Rightarrow> e = Panic \<and> (\<forall>k. first_fit (kernel_heap s) 1 k \<longrightarrow> entry_present (page_at s (page_addr (kernel_heap s) k)))
    | Inr (d, t) \<Rightarrow> \<exists>gs. kernel_mem t gs \<and> set gs \<subseteq> set fs \<and> d \<in> get_paddr ` set fs \<and>
        d \<notin> get_paddr ` set gs \<and> unreferenced t d \<and>
        allocs (kernel_heap t) = allocs (kernel_heap s) \<and> heap_start (kernel_heap t) = heap_start (kernel_heap s) \<and>
        page_count (kernel_heap t) = page_count (kernel_heap s) \<and> grown s t fs gs \<and>
        (\<forall>w. plain_page s w \<longrightarrow> translate t w = translate s w) \<and>
        (\<forall>k < 1024. rd32 (pmem t) (d + 4 * k) = dir_words t d k)"
proof (cases "kernel_alloc s 1")
  case (Inl e)
  have "(0 :: u32) < 1" "2 * unat (1 :: u32) \<le> length fs" using room by simp_all
  from kernel_alloc_ok [OF inv this] Inl show ?thesis by (simp add: new_page_dir_def)
next
  case (Inr r)
  let ?h = "kernel_heap s"
  obtain p u where r: "r = (p, u)" by (cases r)
  have inv': "mem_inv s fs" "heap_backed s ?h PAGE_WRITABLE" using inv by (simp_all add: kernel_mem_def)
  have pre: "(0 :: u32) < 1" "PAGE_WRITABLE < 0x1000" "2 * unat (1 :: u32) \<le> length fs"
    using room by (simp_all add: PAGE_WRITABLE_def)
  obtain h' where h': "heap_alloc ?h 1 = Inr (p, h')" and un: "\<forall>k < unat (1 :: u32). \<not> entry_present (page_at s (page_no p k))"
    by (rule kernel_alloc_Inr [OF inv pre(1,3) Inr [unfolded r]])
  obtain t ps gs st where t: "mem_alloc s ?h 1 PAGE_WRITABLE = Inr (p, h', t)" "p = page_addr ?h st"
    "first_fit ?h 1 st" "allocs h' = insert (st, 1) (allocs ?h)" "heap_start h' = heap_start ?h" "page_count h' = page_count ?h"
    "mem_inv t gs" "heap_backed t h' PAGE_WRITABLE" "mem_step s t (get_paddr ` set fs)"
    "length ps = 1" "backed t p PAGE_WRITABLE ps" "set ps \<subseteq> set fs" "set gs \<subseteq> set fs"
    "\<forall>w. plain_page s w \<longrightarrow> (\<forall>k < 1. drop_bit 12 w \<noteq> drop_bit 12 (page_no p k)) \<longrightarrow> page_at t w = page_at s w"
    "length fs \<le> length gs + 2"
    using mem_alloc_steps [OF inv' pre h' un] by auto
  let ?s = "t\<lparr>kernel_heap := h'\<rparr>" and ?f = "get_paddr (ps ! 0)"
  have al: "is_alloc h' st 1" and p: "p = page_addr h' st" using t(2,4,5) by (auto simp: page_addr_def simp flip: in_allocs)
  have f: "get_paddr (page_at t p) = ?f" using t(11) pre(2) by (simp add: backed_def t(10) create_entry_paddr)
  have "frame_aligned p"
    using page_addr_aligned t(8) by (simp add: p page_aligned_frame heap_wf_def heap_backed_def)
  moreover have same: "page_at ?s w = page_at t w" "table_frame ?s a \<longleftrightarrow> table_frame t a" for w a
    by (simp_all add: page_at_def view_def table_frame_def)
  ultimately have dp: "data_page ?s p ?f"
    using alloc_backed(2) [OF t(8) al, of 0] f mem_paging [OF t(7)] by (simp add: data_page_def sole_frame_def p)
  obtain s1 s2 s3 s4 where fill: "clear_dir_loop (unat (KERNEL_PDI_START - 1)) ?s p 1 = Inr s1"
    "copy_dir_loop (unat (KERNEL_PDI_END - KERNEL_PDI_START)) s1 p KERNEL_PDI_START = Inr s2"
    "PDE s2 0 = Inr (pde ?s 0)" "vwrite32 s2 (p + 4 * get_pd_index 0) (pde ?s 0) = Inr s3"
    "get_entry s3 p = Inr (page_at ?s p)" "vwrite32 s3 (p + 4 * 1023) (create_entry ?f PAGE_WRITABLE) = Inr s4"
    "frame_words ?s ?f (dir_words ?s ?f) s4"
    by (rule fill_dir [OF dp])
  obtain h'' v where v: "heap_free (kernel_heap s4) p = Inr (1, h'')"
    "unmap_page (s4\<lparr>kernel_heap := h''\<rparr>) p = Inr (False, page_at t p, v)" "kernel_mem v gs"
    "allocs (kernel_heap v) = allocs h' - {(st, 1)}" "unreferenced v ?f" "?f \<notin> get_paddr ` set gs"
    "\<And>w. page_at v w = (if drop_bit 12 w = drop_bit 12 p then 0 else page_at t w)"
    "\<And>k. k < 1024 \<Longrightarrow> pde v k = pde t k" "\<And>k. k < 1024 \<Longrightarrow> rd32 (pmem v) (?f + 4 * k) = dir_words ?s ?f k"
    "cr3 v = cr3 t" "current_page_dir v = current_page_dir t" "stale v = stale t"
    "heap_start (kernel_heap v) = heap_start h'" "page_count (kernel_heap v) = page_count h'"
    "\<And>a. unreferenced t a \<Longrightarrow> unreferenced v a"
    by (rule release_dir [OF t(7,8) al p f fill(7)]) (rule that; assumption)
  have ret: "new_page_dir s = Inr (?f, v)"
    using t(1) fill(1-6) v(1,2) f by (simp add: new_page_dir_def kernel_alloc_def same)
  have "page_use ?h st = 0" "st < unat (page_count ?h)" using t(3) by (auto simp: first_fit_def free_run_def)
  moreover from this(1) have "(st, 1) \<notin> allocs ?h" using is_alloc_used by fastforce
  then have "allocs (kernel_heap v) = allocs ?h" unfolding v(4) t(4) by (simp del: in_allocs)
  moreover have "translate v w = translate s w" if w: "plain_page s w" for w
  proof -
    have "\<not> entry_present (page_at s w)" if "drop_bit 12 w = drop_bit 12 p"
      using un page_at_same [OF that] by simp
    moreover have "paging_ok v" using v(3) by (auto simp: kernel_mem_def dest: mem_paging)
    ultimately show ?thesis
      using v(7) [of w] t(14) w by (auto simp: page_at_translate mem_paging [OF inv'(1)])
  qed
  moreover have "rd32 (pmem v) (?f + 4 * k) = dir_words v ?f k" if k: "k < 1024" for k
    using v(9) [OF k] v(8) [OF k] by (simp add: dir_words_def)
  moreover have "ps ! 0 \<in> set fs" using t(10,12) by (auto dest: nth_mem [of 0 ps])
  moreover have "unreferenced t a" if "unreferenced s a" "a \<notin> get_paddr ` set fs" for a
    by (rule unreferenced_keep [OF t(9) pre(2) t(12,11) _ that]) (use t(14) in \<open>simp add: t(10)\<close>)
  then have "grown s v fs gs"
    using same_configD(1,2,7) [OF mem_step_config [OF t(9)]] v(10-12,15) t(15) by (simp add: grown_def)
  moreover have "heap_start (kernel_heap v) = heap_start ?h" "page_count (kernel_heap v) = page_count ?h"
    using v(13,14) t(5,6) by simp_all
  ultimately show ?thesis
    unfolding ret using v(3,5,6) t(13) by (simp only: sum.case prod.case) blast
qed

subsection \<open>Loading the directory\<close>

text \<open>\<open>d\<close> is the frame of a directory that was made in the state \<open>t\<close>.\<close>

definition fresh_dir :: "kmem \<Rightarrow> u32 \<Rightarrow> bool" where
  "fresh_dir t d \<longleftrightarrow> frame_aligned d \<and> \<not> table_frame t d \<and> d \<noteq> current_page_dir t \<and>
     (\<forall>k < 1024. rd32 (pmem t) (d + 4 * k) = dir_words t d k)"

lemma load_dir:
  assumes ok: "paging_ok t" and d: "fresh_dir t d"
  shows "paging_ok (set_page_dir t d)" "k < 1024 \<Longrightarrow> pde (set_page_dir t d) k = dir_words t d k"
    "get_pd_index w < 1023 \<Longrightarrow> page_at (set_page_dir t d) w = (if kernel_entry (get_pd_index w) then page_at t w else 0)"
proof -
  let ?u = "set_page_dir t d"
  have u: "cr3 ?u = d" "pmem ?u = pmem t" "\<not> stale ?u n" for n
    using d by (simp_all add: fresh_dir_def set_page_dir_def set_cr3_def flush_tlb_def)
  show pde: "pde ?u k = dir_words t d k" if "k < 1024" for k
    using d that by (simp add: fresh_dir_def pde_def u)
  have d': "frame_aligned d" "\<not> table_frame t d" using d by (simp_all add: fresh_dir_def)
  have self: "entry_present (pde ?u 1023)" "pt ?u 1023 = d"
    using pde [of 1023] d' by (simp_all add: dir_words_def pt_def)
  have low: "entry_present (pde t k) \<and> pt ?u k = pt t k \<and> pt t k \<noteq> d \<and> kernel_entry k"
    if "k < 1024" "k \<noteq> 1023" "entry_present (pde ?u k)" for k
  proof -
    have "pde ?u k = pde t k" "entry_present (pde t k)" "kernel_entry k"
      using that pde [of k] by (auto simp: dir_words_def split: if_splits)
    then show ?thesis using d'(2) that(1) by (auto simp: pt_def table_frame_def)
  qed
  have "pt ?u i \<noteq> pt ?u j" if "i < 1024" "j < 1024" "i \<noteq> j" "entry_present (pde ?u i)" "entry_present (pde ?u j)" for i j
    using low [of i] low [of j] self(2) paging_inj [OF ok that(1,2)] that by (cases "i = 1023"; cases "j = 1023") auto
  then show "paging_ok ?u" using self d'(1) u by (simp add: paging_ok_def)
  show "page_at ?u w = (if kernel_entry (get_pd_index w) then page_at t w else 0)" if "get_pd_index w < 1023"
  proof -
    have "get_pd_index w \<noteq> 1023" using that by auto
    then have "pde ?u (get_pd_index w) = (if kernel_entry (get_pd_index w) then pde t (get_pd_index w) else 0)"
      using pde [of "get_pd_index w"] by (simp add: dir_words_def)
    then show ?thesis by (simp add: page_at_def view_def pte_def pt_def u)
  qed
qed

lemma fresh_dirI:
  assumes "kernel_mem t gs" "unreferenced t d" "d \<in> get_paddr ` F" "current_page_dir t = cr3 t"
    "\<forall>k < 1024. rd32 (pmem t) (d + 4 * k) = dir_words t d k"
  shows "fresh_dir t d" "d \<noteq> cr3 t"
proof -
  have "paging_ok t" using assms(1) by (auto simp: kernel_mem_def dest: mem_paging)
  then show "d \<noteq> cr3 t" using cr3_table assms(2) by (auto simp: unreferenced_def)
  then show "fresh_dir t d" using assms(2-5) by (auto simp: fresh_dir_def unreferenced_def)
qed

text \<open>
  C9: A new address space. Given two free frames, \<open>new_page_dir\<close> panics only when no page of
  the kernel heap is free or the first free one is mapped. Otherwise it returns a frame that was free, is not free any more, is
  no page table and is mapped by no page; the kernel's memory is as before, and every page of
  the current address space translates as before. Once the frame is loaded as directory, the
  paging structures are well formed (the directory maps itself), the low memory and the pages
  of the kernel translate as in the space it was made in, and every other page faults.
\<close>

theorem new_page_dir_correct:
  assumes inv: "kernel_mem s fs" and room: "2 \<le> length fs" and cur: "current_page_dir s = cr3 s"
  shows "case new_page_dir s of
      Inl e \<Rightarrow> e = Panic \<and> (\<forall>k. first_fit (kernel_heap s) 1 k \<longrightarrow> entry_present (page_at s (page_addr (kernel_heap s) k)))
    | Inr (d, t) \<Rightarrow> \<exists>gs. kernel_mem t gs \<and> set gs \<subseteq> set fs \<and> d \<in> get_paddr ` set fs - get_paddr ` set gs \<and>
        unreferenced t d \<and> fresh_dir t d \<and> allocs (kernel_heap t) = allocs (kernel_heap s) \<and>
        (\<forall>w. plain_page s w \<longrightarrow> translate t w = translate s w) \<and>
        paging_ok (set_page_dir t d) \<and> cr3 (set_page_dir t d) = d \<and>
        (\<forall>w. get_pd_index w < 1023 \<longrightarrow> translate (set_page_dir t d) w =
           (if kernel_entry (get_pd_index w) then translate t w else Inl PageFault))"
proof (cases "new_page_dir s")
  case (Inl e)
  with new_page_dir_ok [OF inv room] show ?thesis by simp
next
  case (Inr r)
  obtain d t where r: "r = (d, t)" by (cases r)
  obtain gs where t: "kernel_mem t gs" "set gs \<subseteq> set fs" "d \<in> get_paddr ` set fs" "d \<notin> get_paddr ` set gs"
    "unreferenced t d" "allocs (kernel_heap t) = allocs (kernel_heap s)" "grown s t fs gs"
    "\<forall>w. plain_page s w \<longrightarrow> translate t w = translate s w"
    "\<forall>k < 1024. rd32 (pmem t) (d + 4 * k) = dir_words t d k"
    using new_page_dir_ok [OF inv room] unfolding Inr r by auto
  have ok: "paging_ok t" using t(1) by (auto simp: kernel_mem_def dest: mem_paging)
  have fr: "fresh_dir t d" by (rule fresh_dirI(1) [OF t(1,5,3) _ t(9)]) (use t(7) cur in \<open>simp add: grown_def\<close>)
  note load = load_dir [OF ok fr]
  have "translate (set_page_dir t d) w = (if kernel_entry (get_pd_index w) then translate t w else Inl PageFault)"
    if "get_pd_index w < 1023" for w
    using load(3) [OF that] by (simp add: page_at_translate [OF load(1)] page_at_translate [OF ok])
  moreover have "cr3 (set_page_dir t d) = d"
    using fr by (simp add: fresh_dir_def set_page_dir_def set_cr3_def flush_tlb_def)
  ultimately show ?thesis
    unfolding Inr r using t(1-6,8) fr load(1) by (simp only: sum.case prod.case) blast
qed

theorem new_page_dir_correct_witness:
  "\<exists>d t. new_page_dir demo = Inr (d, t) \<and> d \<in> {0x3000, 0x4000} \<and> paging_ok (set_page_dir t d) \<and>
     translate (set_page_dir t d) 0x800000 = Inl PageFault"
proof -
  have h: "kernel_heap demo = heap_empty" "current_page_dir demo = cr3 demo" by (simp_all add: demo_def)
  note c = new_page_dir_correct [OF demo_kernel_mem _ h(2)]
  have fr: "\<not> entry_present (page_at demo (page_addr heap_empty 0))"
    using first_fit_unmapped [OF demo_unmapped demo_first_fit, of 0] by simp
  obtain d t where r: "new_page_dir demo = Inr (d, t)" using c fr demo_first_fit by (cases "new_page_dir demo") (auto simp: h)
  have "get_pd_index 0x800000 = 2" by (simp add: get_pd_index_def)
  then have "\<not> kernel_entry (get_pd_index 0x800000)" "get_pd_index 0x800000 < 1023" by (simp_all add: kernel_entry_def)
  then have "translate (set_page_dir t d) 0x800000 = Inl PageFault" "paging_ok (set_page_dir t d)" "d \<in> {0x3000, 0x4000}"
    using c unfolding r by (auto simp: get_paddr_def)
  with r show ?thesis by blast
qed

subsection \<open>Kernel pages that come later\<close>

lemma kernel_alloc_keeps:
  assumes inv: "kernel_mem t gs" and n: "0 < n" "2 * unat n \<le> length gs" and al: "kernel_alloc t n = Inr (q, u)"
  shows "current_page_dir u = current_page_dir t" "paging_ok u"
    "\<not> table_frame t (get_paddr a) \<Longrightarrow> get_paddr a \<notin> get_paddr ` set gs \<Longrightarrow> pmem u a = pmem t a"
    "k < unat n \<Longrightarrow> plain_page t (page_no q k) \<and> (\<exists>f. translate u (page_no q k) = Inr f)"
proof -
  let ?h = "kernel_heap t"
  have inv': "mem_inv t gs" "heap_backed t ?h PAGE_WRITABLE" using inv by (simp_all add: kernel_mem_def)
  have fl: "PAGE_WRITABLE < 0x1000" by (simp add: PAGE_WRITABLE_def)
  obtain h' where h': "heap_alloc ?h n = Inr (q, h')" "\<forall>k < unat n. \<not> entry_present (page_at t (page_no q k))"
    by (rule kernel_alloc_Inr [OF inv n al])
  obtain v ps hs st where v: "mem_alloc t ?h n PAGE_WRITABLE = Inr (q, h', v)" "q = page_addr ?h st" "first_fit ?h (unat n) st"
    "mem_inv v hs" "mem_step t v (get_paddr ` set gs)" "length ps = unat n" "backed v q PAGE_WRITABLE ps"
    using mem_alloc_steps [OF inv' n(1) fl n(2) h'] by blast
  have u: "u = v\<lparr>kernel_heap := h'\<rparr>" using al v(1) by (simp add: kernel_alloc_def)
  show "current_page_dir u = current_page_dir t" using same_configD(7) [OF mem_step_config [OF v(5)]] by (simp add: u)
  show "paging_ok u" using mem_paging [OF v(4)] by (simp add: u)
  show "\<not> table_frame t (get_paddr a) \<Longrightarrow> get_paddr a \<notin> get_paddr ` set gs \<Longrightarrow> pmem u a = pmem t a"
    using mem_step_data [OF v(5)] by (simp add: u)
  show "plain_page t (page_no q k) \<and> (\<exists>f. translate u (page_no q k) = Inr f)" if k: "k < unat n"
  proof -
    have "page_no q k = page_addr ?h (st + k)" by (simp add: v(2) page_addr_add)
    then have "plain_page t (page_no q k)"
      using inv'(2) v(3) k by (simp add: heap_backed_def first_fit_def)
    moreover have "entry_present (page_at v (page_no q k))" using v(6,7) k by (simp add: backed_def)
    then have "\<exists>f. translate v (page_no q k) = Inr f" by (simp add: page_at_translate [OF mem_paging [OF v(4)]])
    ultimately show ?thesis by (simp add: u)
  qed
qed

text \<open>
  C10: A page table that the kernel adds later is missing in the spaces that exist already. When
  an allocation of the kernel takes a page whose page table did not exist when a directory was
  made, the page is mapped in the current space, and an access to it faults once that directory
  is loaded.
\<close>

theorem kernel_table_not_shared:
  assumes t: "kernel_mem t gs" "fresh_dir t d" "d \<notin> get_paddr ` set gs"
    and n: "0 < n" "2 * unat n \<le> length gs" and al: "kernel_alloc t n = Inr (q, u)"
    and k: "k < unat n" "\<not> entry_present (pde t (get_pd_index (page_no q k)))"
  shows "(\<exists>f. translate u (page_no q k) = Inr f) \<and> translate (set_page_dir u d) (page_no q k) = Inl PageFault"
proof -
  let ?i = "get_pd_index (page_no q k)"
  have ok: "paging_ok t" using t(1) by (auto simp: kernel_mem_def dest: mem_paging)
  note keeps = kernel_alloc_keeps [OF t(1) n al]
  have d: "frame_aligned d" "\<not> table_frame t d" "d \<noteq> current_page_dir t"
    "rd32 (pmem t) (d + 4 * ?i) = dir_words t d ?i" using t(2) by (simp_all add: fresh_dir_def)
  have "?i \<noteq> 1023" using keeps(4) [OF k(1)] by (auto simp: plain_page_def)
  then have "\<not> entry_present (dir_words t d ?i)" using k(2) by (simp add: dir_words_def)
  moreover have "rd32 (pmem u) (d + 4 * ?i) = rd32 (pmem t) (d + 4 * ?i)"
    by (rule rd32_frame_cong) (use d t(3) keeps(3) in \<open>auto simp: index_scaled\<close>)
  moreover have "cr3 (set_page_dir u d) = d" "pmem (set_page_dir u d) = pmem u"
    using d(3) keeps(1) by (simp_all add: set_page_dir_def set_cr3_def flush_tlb_def)
  ultimately show ?thesis using keeps(4) [OF k(1)] d(1,4) by (simp add: translate_def Let_def)
qed

text \<open>An example: a heap whose first page is the last one of a page table, and six free frames.\<close>

lemma give_frames:
  assumes "mem_inv s fs" "distinct gs" "\<forall>g \<in> set gs. frame_aligned g \<and> g \<noteq> 0 \<and> unreferenced s g \<and> g \<notin> get_paddr ` set fs"
  obtains t where "mem_inv t (rev gs @ fs)" "\<And>k. k < 1024 \<Longrightarrow> pde t k = pde s k" "mem_step s t (set gs)"
    "\<And>w. drop_bit 12 w \<noteq> drop_bit 12 (free_list_head s) \<Longrightarrow> page_at t w = page_at s w"
  using assms
proof (induction gs arbitrary: s fs thesis)
  case Nil
  from Nil(2) show ?case by (intro Nil(1) [of s]) (simp_all add: mem_step_refl)
next
  case (Cons g gs)
  have g: "get_paddr g = g" "g \<noteq> 0" "unreferenced s g" "g \<notin> get_paddr ` set fs" using Cons.prems(4) by auto
  let ?t = "give_frame s g"
  have inv: "mem_inv ?t (g # fs)" by (rule give_frame_inv [OF Cons.prems(2)]) (use g in simp_all)
  note step = give_frame_step [OF Cons.prems(2), of g, unfolded g(1), OF g(3)]
  note conf = mem_step_config [OF step(1)]
  have "unreferenced ?t f" if "f \<in> set gs" for f
  proof -
    have f: "unreferenced s f" "f \<noteq> g" using Cons.prems(3,4) that by auto
    have "\<not> table_frame ?t f" using mem_step_table [OF step(1), of f] f by (auto simp: unreferenced_def)
    then show ?thesis
      using f(1) step(2) same_configD(4) [OF conf] by (auto simp: unreferenced_pages plain_page_def)
  qed
  then have "\<forall>f \<in> set gs. frame_aligned f \<and> f \<noteq> 0 \<and> unreferenced ?t f \<and> f \<notin> get_paddr ` set (g # fs)"
    using Cons.prems(3,4) g(1) by auto
  then obtain t where t: "mem_inv t (rev gs @ g # fs)" "\<And>k. k < 1024 \<Longrightarrow> pde t k = pde ?t k" "mem_step ?t t (set gs)"
    "\<And>w. drop_bit 12 w \<noteq> drop_bit 12 (free_list_head ?t) \<Longrightarrow> page_at t w = page_at ?t w"
    using Cons.IH [OF _ inv] Cons.prems(3) by auto
  have "mem_step s t (set (g # gs))"
    by (rule mem_step_trans [OF mem_step_mono [OF step(1)] mem_step_mono [OF t(3)]]) auto
  then show ?case by (intro Cons.prems(1) [of t]) (use t step(2,3) same_configD(4) [OF conf] in simp_all)
qed

definition edge_heap :: Heap where
  "edge_heap = heap_empty\<lparr>heap_start := 0xC07FF000\<rparr>"

lemma edge_page: "k < 6 \<Longrightarrow> get_pd_index (page_no 0xC07FF000 k) = (if k = 0 then 0x301 else 0x302)"
  by (cases "k = 0") (auto simp: word_unat_eq_iff unat_pd_index page_no_unat intro!: div_nat_eqI)

lemma edge_mem:
  obtains s where "kernel_mem s [0x9000, 0x8000, 0x7000, 0x6000, 0x3000, 0x4000]" "kernel_heap s = edge_heap"
    "fresh_dir s 0xA000" "\<not> entry_present (pde s 0x302)" "current_page_dir s = cr3 s" "free_unmapped s edge_heap"
proof -
  let ?gs = "[0x6000, 0x7000, 0x8000, 0x9000 :: u32]" and ?fs = "[0x9000, 0x8000, 0x7000, 0x6000, 0x3000, 0x4000 :: u32]"
  have "\<forall>g \<in> set ?gs. frame_aligned g \<and> g \<noteq> 0 \<and> unreferenced demo g \<and> g \<notin> get_paddr ` set [0x3000, 0x4000]"
    by (simp add: demo_unreferenced get_paddr_def frame_aligned_def)
  then obtain t where t: "mem_inv t ?fs" "\<And>k. k < 1024 \<Longrightarrow> pde t k = pde demo k" "mem_step demo t (set ?gs)"
    using give_frames [OF demo_inv, of ?gs thesis] by simp
  have ok: "paging_ok t" by (rule mem_paging [OF t(1)])
  have nt: "\<not> table_frame t 0xA000" using mem_step_table [OF t(3)] demo_tables by force
  have al: "frame_aligned (0xA000 :: u32)" by (simp add: frame_aligned_def)
  have zero: "rd32 (pmem t) (0xA000 + 4 * k) = 0" if k: "k < 1024" for k
  proof -
    have "rd32 (pmem t) (0xA000 + 4 * k) = rd32 (pmem demo) (0xA000 + 4 * k)"
      by (rule rd32_frame_cong) (use mem_step_data [OF t(3)] k al demo_tables in \<open>simp_all add: index_scaled\<close>)
    moreover obtain a where a: "0xA000 + 4 * k = a" by simp
    moreover have "get_paddr a = 0xA000" "dword_aligned a" using k al by (auto simp: a [symmetric] index_scaled)
    ultimately show ?thesis by (auto simp: rd32_demo demo_def get_paddr_def)
  qed
  have "frame_words t 0xA000 (\<lambda>_. 0) (t\<lparr>pmem := pmem t\<rparr>)"
    by simp (rule frame_words_cong [OF frame_words_refl], rule zero)
  note w = frame_words_wr [OF frame_words_wr [OF this al] al, of 0 1023 "pde t 0" "create_entry 0xA000 PAGE_WRITABLE"]
  have "\<exists>m. frame_words t 0xA000 (dir_words t 0xA000) (t\<lparr>pmem := m\<rparr>)"
    by (rule exI, rule frame_words_cong [OF w]) (auto simp: dir_words_def kernel_entry_def t(2) demo_pde)
  then obtain m where words: "frame_words t 0xA000 (dir_words t 0xA000) (t\<lparr>pmem := m\<rparr>)" by blast
  let ?s = "t\<lparr>pmem := m, kernel_heap := edge_heap\<rparr>"
  have eq: "paging_eq t ?s" using frame_words_paging [OF ok nt words] by (simp add: paging_eq_def)
  have inv: "mem_inv ?s ?fs" using frame_words_inv [OF t(1) nt _ words] by (simp add: get_paddr_def)
  have c: "free_list_head t = 0x5000" "current_page_dir t = 0x1000" "cr3 t = 0x1000"
    using same_configD(4,7,1) [OF mem_step_config [OF t(3)]] by (simp_all add: demo_def)
  have absent: "\<not> entry_present (pde ?s 0x301)" "\<not> entry_present (pde ?s 0x302)"
    using paging_eq_pde [OF eq, of "0x301"] paging_eq_pde [OF eq, of "0x302"] by (simp_all add: t(2) demo_pde)
  have pd: "get_pd_index (page_addr edge_heap k) = (if k = 0 then 0x301 else 0x302)" if "k < 6" for k
    using edge_page [OF that] by (simp add: page_addr_page_no edge_heap_def)
  have "get_pd_index (free_list_head ?s) = 0" by (simp add: c get_pd_index_def)
  then have "plain_page ?s (page_addr edge_heap k) \<and> \<not> entry_present (pde ?s (get_pd_index (page_addr edge_heap k)))" if "k < 6" for k
    using pd [OF that] absent by (simp add: plain_page_def page_at_indices)
  moreover have "page_use edge_heap k = 0" for k
    by (simp add: page_use_def heap_get_usage_def heap_empty_def edge_heap_def Let_def)
  moreover have "heap_wf edge_heap" "unat (page_count edge_heap) = 6" by (simp_all add: heap_eval edge_heap_def)
  ultimately have "heap_backed ?s edge_heap PAGE_WRITABLE"
    by (simp add: heap_backed_def user_ok_def)
  then have "kernel_mem ?s ?fs" using inv by (simp add: kernel_mem_def)
  moreover have "free_unmapped ?s edge_heap"
    using pd absent by (auto simp: free_unmapped_def page_at_present edge_heap_def heap_empty_def)
  moreover have "fresh_dir ?s 0xA000"
    using frame_wordsD(1) [OF words] nt al c paging_eq_table [OF eq, of "0xA000"] paging_eq_pde [OF eq]
    by (simp add: fresh_dir_def dir_words_def)
  ultimately show ?thesis using absent c by (intro that [of ?s]) simp_all
qed

theorem kernel_table_not_shared_witness:
  "\<exists>s q u. kernel_heap s = edge_heap \<and> fresh_dir s 0xA000 \<and> kernel_alloc s 2 = Inr (q, u) \<and>
     (\<exists>f. translate u (page_no q 1) = Inr f) \<and> translate (set_page_dir u 0xA000) (page_no q 1) = Inl PageFault"
proof (rule edge_mem)
  fix s
  assume s: "kernel_mem s [0x9000, 0x8000, 0x7000, 0x6000, 0x3000, 0x4000]" "kernel_heap s = edge_heap"
    "fresh_dir s 0xA000" "\<not> entry_present (pde s 0x302)" "free_unmapped s edge_heap"
  have n: "(0 :: u32) < 2" "2 * unat (2 :: u32) \<le> length [0x9000, 0x8000, 0x7000, 0x6000, 0x3000, 0x4000 :: u32]" by simp_all
  have fr: "free_run edge_heap 0 2" "0 + unat (2 :: u32) \<le> unat (page_count edge_heap)"
    by (simp_all add: free_run_def heap_eval edge_heap_def)
  note c = kernel_alloc_ok [OF s(1) n]
  have ff: "first_fit edge_heap 2 0" using fr by (simp add: first_fit_def)
  obtain q u where al: "kernel_alloc s 2 = Inr (q, u)"
    using c ff first_fit_unmapped [OF s(5) ff] by (cases "kernel_alloc s 2") (auto simp: s(2))
  obtain st where "q = page_addr edge_heap st" "first_fit edge_heap 2 st" using c unfolding al s(2) by auto
  moreover from this(2) fr(1) have "st = 0" unfolding first_fit_def by (metis gr0I)
  ultimately have "q = page_no 0xC07FF000 0" by (simp add: page_addr_page_no edge_heap_def)
  then have "get_pd_index (page_no q 1) = 0x302" using edge_page [of 1] by simp
  then show ?thesis
    using kernel_table_not_shared [OF s(1,3) _ n al, of 1] s al by (auto simp: get_paddr_def)
qed

end
