(* ===== verification/ProcProps.thy ===== *)
theory ProcProps
  imports Processes MailboxQueue
begin

section \<open>Contexts and identifiers of processes\<close>

text \<open>
  Saving and restoring the context of a process through its control block, and the choice of a
  free identifier.
\<close>

unbundle bit_operations_syntax

subsection \<open>The page of the control block\<close>

text \<open>The control block of the current address space is in the frame \<open>f\<close>.\<close>

definition pcb_frame :: "kmem \<Rightarrow> u32 \<Rightarrow> bool" where
  "pcb_frame s f \<longleftrightarrow> paging_ok s \<and> frame_aligned f \<and> \<not> table_frame s f \<and>
     (\<forall>k < 4096. translate s (PCB_ADDR + word_of_nat k) = Inr (f + word_of_nat k))"

lemma pcb_byte:
  assumes "pcb_frame s f" "k < 4096"
  shows "translate s (PCB_ADDR + word_of_nat k) = Inr (f + word_of_nat k)" "get_paddr (f + word_of_nat k) = f"
  using assms get_paddr_offset [of f "word_of_nat k"]
  by (auto simp: pcb_frame_def word_less_nat_alt unat_of_nat take_bit_nat_eq_self)

lemma pcb_inj:
  assumes "j < 4096" "k < 4096"
  shows "f + word_of_nat j = f + (word_of_nat k :: u32) \<longleftrightarrow> j = k"
proof -
  have "unat (word_of_nat j :: u32) = j" "unat (word_of_nat k :: u32) = k"
    using assms by (simp_all add: unat_of_nat take_bit_nat_eq_self)
  then show ?thesis by (metis add_left_cancel)
qed

lemma pcb_writable:
  assumes "pcb_frame s f" "j + n \<le> 4096"
  shows "writable_range s (PCB_ADDR + word_of_nat j) n (\<lambda>k. f + word_of_nat (j + k))"
proof -
  have "range_at s (PCB_ADDR + word_of_nat j) n (\<lambda>k. f + word_of_nat (j + k))"
    unfolding range_at_def
  proof (intro allI impI)
    fix k
    assume "k < n"
    then show "translate s (PCB_ADDR + word_of_nat j + word_of_nat k) = Inr (f + word_of_nat (j + k))"
      using pcb_byte(1) [OF assms(1), of "j + k"] assms(2) by (simp add: add.assoc)
  qed
  moreover have "inj_on (\<lambda>k. f + word_of_nat (j + k) :: u32) {..<n}"
    by (rule inj_onI) (use pcb_inj [of "j + x" "j + y" f for x y] assms(2) in auto)
  moreover have "get_paddr (f + word_of_nat (j + k)) = f" if "k < n" for k
    by (rule pcb_byte(2) [OF assms(1)]) (use that assms(2) in simp)
  ultimately show ?thesis using assms(1) by (simp add: writable_range_def pcb_frame_def)
qed

text \<open>The bytes of the control block.\<close>

definition pcb_at :: "kmem \<Rightarrow> u32 \<Rightarrow> nat \<Rightarrow> u8" where
  "pcb_at s f k = pmem s (f + word_of_nat k)"

definition pcb_word :: "(nat \<Rightarrow> u8) \<Rightarrow> nat \<Rightarrow> u32" where
  "pcb_word c k = of_le32 [c k, c (k + 1), c (k + 2), c (k + 3)]"

lemma pcb_paging: "pcb_frame s f \<Longrightarrow> paging_eq s t \<Longrightarrow> pcb_frame t f"
proof -
  assume a: "pcb_frame s f" "paging_eq s t"
  have ok: "paging_ok s" using a(1) by (simp add: pcb_frame_def)
  show ?thesis
    using a(1) unfolding pcb_frame_def paging_eq_ok [OF a(2)] paging_eq_table [OF a(2)] paging_eq_translate [OF ok a(2)] .
qed

lemma pcb_read:
  assumes "pcb_frame s f" "k + 4 \<le> 4096"
  shows "vread32 s (PCB_ADDR + word_of_nat k) = Inr (pcb_word (pcb_at s f) k)"
  using pcb_byte(1) [OF assms(1), of k] assms(2)
  by (simp add: vread32_def rd32_def pcb_word_def of_le32_def pcb_at_def add_ac)

lemma pcb_write_bytes:
  assumes "pcb_frame s f" "j + length bs \<le> 4096"
  obtains t where "copy_out s (PCB_ADDR + word_of_nat j) bs = Inr t" "pcb_frame t f" "\<exists>m. t = s\<lparr>pmem := m\<rparr>"
    "\<And>k. k < 4096 \<Longrightarrow> pcb_at t f k = (if j \<le> k \<and> k < j + length bs then bs ! (k - j) else pcb_at s f k)"
    "\<And>a. get_paddr a \<noteq> f \<Longrightarrow> pmem t a = pmem s a"
proof -
  have ok: "paging_ok s" using assms(1) by (simp add: pcb_frame_def)
  obtain m where m: "copy_out s (PCB_ADDR + word_of_nat j) bs = Inr (s\<lparr>pmem := m\<rparr>)" "paging_eq s (s\<lparr>pmem := m\<rparr>)"
    "\<forall>k < length bs. m (f + word_of_nat (j + k)) = bs ! k"
    "\<forall>a. a \<notin> (\<lambda>k. f + word_of_nat (j + k)) ` {..<length bs} \<longrightarrow> m a = pmem s a"
    using copy_out_ok [OF ok pcb_writable [OF assms]] by blast
  have "pcb_at (s\<lparr>pmem := m\<rparr>) f k = (if j \<le> k \<and> k < j + length bs then bs ! (k - j) else pcb_at s f k)"
    if k: "k < 4096" for k
  proof (cases "j \<le> k \<and> k < j + length bs")
    case True
    then obtain i where "k = j + i" "i < length bs" by (metis le_Suc_ex nat_add_left_cancel_less)
    then show ?thesis using m(3) by (simp add: pcb_at_def)
  next
    case False
    have "f + word_of_nat k \<noteq> f + (word_of_nat (j + i) :: u32)" if "i < length bs" for i
      using pcb_inj [of k "j + i" f] k that assms(2) False by auto
    then have "f + word_of_nat k \<notin> (\<lambda>k. f + word_of_nat (j + k)) ` {..<length bs}" by blast
    then have "m (f + word_of_nat k) = pmem s (f + word_of_nat k)" using m(4) by blast
    then show ?thesis using False by (auto simp: pcb_at_def)
  qed
  moreover have "pmem (s\<lparr>pmem := m\<rparr>) a = pmem s a" if "get_paddr a \<noteq> f" for a
  proof -
    have "a \<noteq> f + word_of_nat (j + k)" if "k < length bs" for k
      using pcb_byte(2) [OF assms(1), of "j + k"] \<open>get_paddr a \<noteq> f\<close> that assms(2) by auto
    then have "a \<notin> (\<lambda>k. f + word_of_nat (j + k)) ` {..<length bs}" by blast
    then show ?thesis using m(4) by simp
  qed
  ultimately show ?thesis using that [of "s\<lparr>pmem := m\<rparr>"] m(1) pcb_paging [OF assms(1) m(2)] by blast
qed

text \<open>A word is written as its four bytes.\<close>

lemma vwrite32_bytes:
  assumes "pcb_frame s f" "k + 4 \<le> 4096"
  shows "vwrite32 s (PCB_ADDR + word_of_nat k) v = copy_out s (PCB_ADDR + word_of_nat k) (le32 v)"
proof -
  have w: "writable_range s (PCB_ADDR + word_of_nat k) 4 (\<lambda>i. f + word_of_nat (k + i))"
    by (rule pcb_writable [OF assms])
  have ok: "paging_ok s" using assms(1) by (simp add: pcb_frame_def)
  have "4 = length (le32 v)" by simp
  from copy_out_ok [OF ok w [unfolded this]] obtain m where
    m: "copy_out s (PCB_ADDR + word_of_nat k) (le32 v) = Inr (s\<lparr>pmem := m\<rparr>)"
      "\<forall>i < 4. m (f + word_of_nat (k + i)) = le32 v ! i"
      "\<forall>a. a \<notin> (\<lambda>i. f + word_of_nat (k + i)) ` {..<4} \<longrightarrow> m a = pmem s a" by auto
  obtain p where p: "f + word_of_nat k = p" by simp
  have at: "f + word_of_nat (k + i) = p + word_of_nat i" for i by (simp add: p [symmetric] add.assoc)
  have four: "{..<4 :: nat} = {0, 1, 2, 3}" by auto
  have "m p = ucast v" "m (p + 1) = ucast (drop_bit 8 v)" "m (p + 2) = ucast (drop_bit 16 v)" "m (p + 3) = ucast (drop_bit 24 v)"
    using m(2) [unfolded at, rule_format, of 0] m(2) [unfolded at, rule_format, of 1]
      m(2) [unfolded at, rule_format, of 2] m(2) [unfolded at, rule_format, of 3]
    by (simp_all add: le32_def)
  moreover have "m a = pmem s a" if "a \<noteq> p" "a \<noteq> p + 1" "a \<noteq> p + 2" "a \<noteq> p + 3" for a
    using m(3) [unfolded at four] that by auto
  ultimately have "m = wr32 (pmem s) (f + word_of_nat k) v"
    unfolding p by (intro ext) (auto simp: wr32_def)
  then show ?thesis using pcb_byte(1) [OF assms(1), of k] assms(2) m(1) by (simp add: vwrite32_def)
qed


lemma pcb_write_word:
  assumes "pcb_frame s f" "k + 4 \<le> 4096"
  obtains t where "vwrite32 s (PCB_ADDR + word_of_nat k) v = Inr t" "pcb_frame t f" "\<exists>m. t = s\<lparr>pmem := m\<rparr>"
    "\<And>j. j < 4096 \<Longrightarrow> pcb_at t f j = (if k \<le> j \<and> j < k + 4 then le32 v ! (j - k) else pcb_at s f j)"
    "\<And>a. get_paddr a \<noteq> f \<Longrightarrow> pmem t a = pmem s a"
  using pcb_write_bytes [OF assms(1), of k "le32 v"] assms(2) vwrite32_bytes [OF assms] by (metis length_le32)

lemma pcb_wordI: "(\<And>i. i < 4 \<Longrightarrow> c (k + i) = le32 v ! i) \<Longrightarrow> pcb_word c k = v"
proof -
  assume c: "\<And>i. i < 4 \<Longrightarrow> c (k + i) = le32 v ! i"
  have "[c k, c (k + 1), c (k + 2), c (k + 3)] = le32 v"
    using c [of 0] c [of 1] c [of 2] c [of 3] by (simp add: le32_def)
  then show ?thesis by (simp add: pcb_word_def)
qed

lemma nth_concat_le32: "i < length ws \<Longrightarrow> j < 4 \<Longrightarrow> concat (List.map le32 ws) ! (4 * i + j) = le32 (ws ! i) ! j"
proof (induction ws arbitrary: i)
  case (Cons w ws)
  then show ?case by (cases i) (simp_all add: nth_append)
qed simp

lemma length_concat_le32 [simp]: "length (concat (List.map le32 ws)) = 4 * length ws"
  by (induction ws) simp_all

subsection \<open>Saving and entering\<close>

text \<open>The control block as a function from offsets to bytes holds a context: the eight registers
  \<open>ws\<close> (the fourth is the stack pointer of the kernel, which is not restored), the flags, the
  instruction and stack pointers and the floating point state.\<close>

definition holds_context :: "(nat \<Rightarrow> u8) \<Rightarrow> u32 list \<Rightarrow> u32 \<Rightarrow> u32 \<Rightarrow> u32 \<Rightarrow> u8 list \<Rightarrow> bool" where
  "holds_context c ws fl ip sp fp \<longleftrightarrow> (\<forall>i < 8. pcb_word c (4 * i) = (if i = 3 then sp else ws ! i)) \<and>
     pcb_word c 32 = fl \<and> pcb_word c 36 = ip \<and> List.map c [48..<560] = fp"

definition save_regs :: "kmem \<Rightarrow> u32 list \<Rightarrow> u32 \<Rightarrow> u32 \<Rightarrow> u32 \<Rightarrow> u8 list \<Rightarrow> kmem res" where
  "save_regs s ws fl ip sp fp =
     bind_res (copy_out s PCB_ADDR (concat (List.map le32 ws))) (\<lambda>s.
     bind_res (vwrite32 s pcb_eflags fl) (\<lambda>s.
     bind_res (vwrite32 s pcb_eip ip) (\<lambda>s.
     bind_res (vwrite32 s pcb_esp sp) (\<lambda>s. copy_out s pcb_fpu_regs fp))))"

lemma save_context_int_regs:
  "save_context_int st regs = bind_res (save_regs (km st)
     [edi regs, esi regs, ebp regs, InterruptRegisters.esp regs, ebx regs, edx regs, ecx regs, eax regs]
     (eflags regs) (eip regs) (useresp regs) (fpu st)) (\<lambda>s. Inr (st\<lparr>km := s\<rparr>))"
  unfolding save_context_int_def save_regs_def fpu_save_def bind_res_assoc by simp

lemma save_context_syscall_regs:
  "save_context_syscall st ctx = bind_res (save_regs (km st)
     [ctx_edi ctx, ctx_esi ctx, ctx_ebp ctx, ctx_esp ctx, ctx_ebx ctx, ctx_edx ctx, ctx_ecx ctx, ctx_eax ctx]
     (ctx_eflags ctx) (ctx_eip ctx) (ctx_useresp ctx) (fpu st)) (\<lambda>s. Inr (st\<lparr>km := s\<rparr>))"
  unfolding save_context_syscall_def save_regs_def fpu_save_def bind_res_assoc by simp

lemma save_regs_ok:
  assumes f: "pcb_frame s f" and ws: "length ws = 8" and fp: "length fp = 512"
  obtains t where "save_regs s ws fl ip sp fp = Inr t" "pcb_frame t f" "\<exists>m. t = s\<lparr>pmem := m\<rparr>"
    "holds_context (pcb_at t f) ws fl ip sp fp"
    "\<And>k. k < 4096 \<Longrightarrow> 40 \<le> k \<and> k < 48 \<or> 560 \<le> k \<Longrightarrow> pcb_at t f k = pcb_at s f k"
    "\<And>a. get_paddr a \<noteq> f \<Longrightarrow> pmem t a = pmem s a"
proof -
  let ?W = "concat (List.map le32 ws)"
  have len: "length ?W = 32" using ws by simp
  obtain a where a: "copy_out s PCB_ADDR ?W = Inr a" "pcb_frame a f" "\<exists>m. a = s\<lparr>pmem := m\<rparr>"
    "\<And>k. k < 4096 \<Longrightarrow> pcb_at a f k = (if k < 32 then ?W ! k else pcb_at s f k)"
    "\<And>x. get_paddr x \<noteq> f \<Longrightarrow> pmem a x = pmem s x"
    by (rule pcb_write_bytes [OF f, of 0 ?W]) (use len in \<open>auto intro: that\<close>)
  obtain b where b: "vwrite32 a pcb_eflags fl = Inr b" "pcb_frame b f" "\<exists>m. b = a\<lparr>pmem := m\<rparr>"
    "\<And>j. j < 4096 \<Longrightarrow> pcb_at b f j = (if 32 \<le> j \<and> j < 36 then le32 fl ! (j - 32) else pcb_at a f j)"
    "\<And>x. get_paddr x \<noteq> f \<Longrightarrow> pmem b x = pmem a x"
    using pcb_write_word [OF a(2), of 32 fl] by (auto simp: pcb_eflags_def)
  obtain c where c: "vwrite32 b pcb_eip ip = Inr c" "pcb_frame c f" "\<exists>m. c = b\<lparr>pmem := m\<rparr>"
    "\<And>j. j < 4096 \<Longrightarrow> pcb_at c f j = (if 36 \<le> j \<and> j < 40 then le32 ip ! (j - 36) else pcb_at b f j)"
    "\<And>x. get_paddr x \<noteq> f \<Longrightarrow> pmem c x = pmem b x"
    using pcb_write_word [OF b(2), of 36 ip] by (auto simp: pcb_eip_def)
  obtain d where d: "vwrite32 c pcb_esp sp = Inr d" "pcb_frame d f" "\<exists>m. d = c\<lparr>pmem := m\<rparr>"
    "\<And>j. j < 4096 \<Longrightarrow> pcb_at d f j = (if 12 \<le> j \<and> j < 16 then le32 sp ! (j - 12) else pcb_at c f j)"
    "\<And>x. get_paddr x \<noteq> f \<Longrightarrow> pmem d x = pmem c x"
    using pcb_write_word [OF c(2), of 12 sp] by (auto simp: pcb_esp_def)
  obtain t where t: "copy_out d pcb_fpu_regs fp = Inr t" "pcb_frame t f" "\<exists>m. t = d\<lparr>pmem := m\<rparr>"
    "\<And>k. k < 4096 \<Longrightarrow> pcb_at t f k = (if 48 \<le> k \<and> k < 560 then fp ! (k - 48) else pcb_at d f k)"
    "\<And>x. get_paddr x \<noteq> f \<Longrightarrow> pmem t x = pmem d x"
    using pcb_write_bytes [OF d(2), of 48 fp] fp by (auto simp: pcb_fpu_regs_def)
  have at: "pcb_at t f k = (if 48 \<le> k \<and> k < 560 then fp ! (k - 48) else if 12 \<le> k \<and> k < 16 then le32 sp ! (k - 12)
      else if 36 \<le> k \<and> k < 40 then le32 ip ! (k - 36) else if 32 \<le> k \<and> k < 36 then le32 fl ! (k - 32)
      else if k < 32 then ?W ! k else pcb_at s f k)" if "k < 4096" for k
    using t(4) d(4) c(4) b(4) a(4) that by simp
  have w: "pcb_word (pcb_at t f) (4 * i) = (if i = 3 then sp else ws ! i)" if "i < 8" for i
  proof (rule pcb_wordI)
    fix j
    assume j: "j < (4 :: nat)"
    show "pcb_at t f (4 * i + j) = le32 (if i = 3 then sp else ws ! i) ! j"
    proof (cases "i = 3")
      case False
      obtain k where k: "4 * i + j = k" by simp
      have "k < 12 \<or> 16 \<le> k" "k < 32" using that j False k by presburger+
      then show ?thesis using at [of k] nth_concat_le32 [of i ws j] that ws j False unfolding k by auto
    qed (use at [of "4 * i + j"] j in simp)
  qed
  have "pcb_word (pcb_at t f) 32 = fl" "pcb_word (pcb_at t f) 36 = ip"
    by (rule pcb_wordI, simp add: at)+
  moreover have "List.map (pcb_at t f) [48..<560] = fp"
  proof (rule nth_equalityI)
    show "length (List.map (pcb_at t f) [48..<560]) = length fp" using fp by simp
    fix i
    assume "i < length (List.map (pcb_at t f) [48..<560])"
    then have i: "i < 560 - 48" by (simp only: length_map length_upt)
    then have "List.map (pcb_at t f) [48..<560] ! i = pcb_at t f (48 + i)" by (rule nth_map_upt)
    then show "List.map (pcb_at t f) [48..<560] ! i = fp ! i" using at [of "48 + i"] i by simp
  qed
  ultimately have "holds_context (pcb_at t f) ws fl ip sp fp" using w by (simp add: holds_context_def)
  moreover have "\<exists>m. t = s\<lparr>pmem := m\<rparr>" using a(3) b(3) c(3) d(3) t(3) by auto
  moreover have "save_regs s ws fl ip sp fp = Inr t" using a(1) b(1) c(1) d(1) t(1) by (simp add: save_regs_def)
  moreover have "pcb_at t f k = pcb_at s f k" if "k < 4096" "40 \<le> k \<and> k < 48 \<or> 560 \<le> k" for k
    using at [OF that(1)] that(2) by auto
  moreover have "pmem t x = pmem s x" if "get_paddr x \<noteq> f" for x
    using a(5) [OF that] b(5) [OF that] c(5) [OF that] d(5) [OF that] t(5) [OF that] by simp
  ultimately show ?thesis using that [of t] t(2) by blast
qed

lemma holds_context_cong:
  assumes "holds_context c ws fl ip sp fp" "\<And>k. k < 560 \<Longrightarrow> c' k = c k"
  shows "holds_context c' ws fl ip sp fp"
proof -
  have "pcb_word c' k = pcb_word c k" if "k + 3 < 560" for k
    using assms(2) that by (simp add: pcb_word_def)
  moreover have "List.map c' [48..<560] = List.map c [48..<560]"
    by (rule map_cong [OF refl], rule assms(2)) (simp only: set_upt atLeastLessThan_iff)
  ultimately show ?thesis using assms(1) by (simp add: holds_context_def)
qed

lemma enter_current_ok:
  assumes f: "pcb_frame (km st) f" and c: "holds_context (pcb_at (km st) f) ws fl ip sp fp"
  shows "enter_current st = Inr (st\<lparr>fpu := fp, entered := Some \<lparr>u_eip = ip, u_cs = 0x1b, u_eflags = fl OR push_bit 9 1,
    u_esp = sp, u_ss = 0x23, u_edi = ws ! 0, u_esi = ws ! 1, u_ebp = ws ! 2, u_ebx = ws ! 4, u_ecx = ws ! 6,
    u_eax = ws ! 7, u_edx = ws ! 5\<rparr>\<rparr>)"
proof -
  have w: "vread32 (km st) (PCB_ADDR + word_of_nat (4 * i)) = Inr (if i = 3 then sp else ws ! i)" if "i < 8" for i
    using pcb_read [OF f, of "4 * i"] c that by (simp add: holds_context_def)
  have x: "vread32 (km st) (PCB_ADDR + 32) = Inr fl" "vread32 (km st) (PCB_ADDR + 36) = Inr ip"
    using pcb_read [OF f, of 32] pcb_read [OF f, of 36] c by (simp_all add: holds_context_def)
  have "range_at (km st) (PCB_ADDR + word_of_nat 48) 512 (\<lambda>k. f + word_of_nat (48 + k))"
    using pcb_writable [OF f, of 48 512] by (simp add: writable_range_def)
  from copy_in_ok [OF this] have "copy_in 512 (km st) pcb_fpu_regs = Inr (List.map (pcb_at (km st) f) (List.map (\<lambda>k. 48 + k) [0..<512]))"
    by (simp add: pcb_fpu_regs_def pcb_at_def comp_def)
  also have "List.map (\<lambda>k. 48 + k) [0..<512] = [48..<560 :: nat]"
    using map_add_upt [of 48 512] by (simp add: add.commute)
  finally have "copy_in 512 (km st) pcb_fpu_regs = Inr fp" using c by (simp add: holds_context_def)
  then show ?thesis
    using w [of 0] w [of 1] w [of 2] w [of 3] w [of 4] w [of 5] w [of 6] w [of 7] x
    by (simp add: enter_current_def fpu_restore_def jump_usermode_def pcb_eip_def pcb_esp_def)
qed


text \<open>
  C27: A context switch. Saving the context of an interrupted process succeeds and writes only
  the registers, flags, instruction and stack pointers and the floating point state of its
  control block; whenever the process is entered later with these bytes unchanged, user mode
  starts with exactly the saved registers, with interrupts enabled, and with the saved floating
  point state.
\<close>

theorem context_switch_roundtrip:
  assumes f: "pcb_frame (km st) f" and fp: "length (fpu st) = 512"
  shows "\<exists>s. save_context_int st regs = Inr (st\<lparr>km := s\<rparr>) \<and> (\<exists>m. s = (km st)\<lparr>pmem := m\<rparr>) \<and> pcb_frame s f \<and>
    (\<forall>k < 4096. 40 \<le> k \<and> k < 48 \<or> 560 \<le> k \<longrightarrow> pcb_at s f k = pcb_at (km st) f k) \<and>
    (\<forall>st' g. pcb_frame (km st') g \<and> (\<forall>k < 560. pcb_at (km st') g k = pcb_at s f k) \<longrightarrow>
      enter_current st' = Inr (st'\<lparr>fpu := fpu st, entered := Some \<lparr>u_eip = eip regs, u_cs = 0x1b,
        u_eflags = eflags regs OR push_bit 9 1, u_esp = useresp regs, u_ss = 0x23, u_edi = edi regs,
        u_esi = esi regs, u_ebp = ebp regs, u_ebx = ebx regs, u_ecx = ecx regs, u_eax = eax regs, u_edx = edx regs\<rparr>\<rparr>))"
proof -
  let ?ws = "[edi regs, esi regs, ebp regs, InterruptRegisters.esp regs, ebx regs, edx regs, ecx regs, eax regs]"
  obtain s where s: "save_regs (km st) ?ws (eflags regs) (eip regs) (useresp regs) (fpu st) = Inr s" "pcb_frame s f"
    "\<exists>m. s = (km st)\<lparr>pmem := m\<rparr>" "holds_context (pcb_at s f) ?ws (eflags regs) (eip regs) (useresp regs) (fpu st)"
    "\<And>k. k < 4096 \<Longrightarrow> 40 \<le> k \<and> k < 48 \<or> 560 \<le> k \<Longrightarrow> pcb_at s f k = pcb_at (km st) f k"
    by (rule save_regs_ok [OF f _ fp, where ws = ?ws and fl = "eflags regs" and ip = "eip regs" and sp = "useresp regs"]) simp_all
  have "enter_current st' = Inr (st'\<lparr>fpu := fpu st, entered := Some \<lparr>u_eip = eip regs, u_cs = 0x1b,
        u_eflags = eflags regs OR push_bit 9 1, u_esp = useresp regs, u_ss = 0x23, u_edi = edi regs,
        u_esi = esi regs, u_ebp = ebp regs, u_ebx = ebx regs, u_ecx = ecx regs, u_eax = eax regs, u_edx = edx regs\<rparr>\<rparr>)"
    if g: "pcb_frame (km st') g" and c: "\<forall>k < 560. pcb_at (km st') g k = pcb_at s f k" for st' g
  proof -
    have "holds_context (pcb_at (km st') g) ?ws (eflags regs) (eip regs) (useresp regs) (fpu st)"
      by (rule holds_context_cong [OF s(4)]) (use c in simp)
    from enter_current_ok [OF g this] show ?thesis by simp
  qed
  then show ?thesis using s by (auto simp: save_context_int_regs)
qed


text \<open>An example: the control block in a new page of the demonstration state.\<close>

lemma demo_pcb:
  obtains s where "pcb_frame s 0x3000"
proof -
  have v: "PCB_ADDR = 0x40E000" by (simp add: PCB_ADDR_def MAILBOX_DATA_ADDR_def PROCESS_ORG_def PAGE_SIZE_def MAILBOX_RESERVED_def)
  have i: "get_pd_index 0x40E000 = 1" by (simp add: get_pd_index_def)
  have pg: "plain_page demo 0x40E000" "\<not> entry_present (page_at demo 0x40E000)" "user_ok demo 1 2"
    by (simp_all add: demo_plain i page_at_present demo_pd_1 user_ok_def PAGE_USER_MODE_def)
  obtain s where s: "mem_inv s (rest_frames demo (get_pd_index 0x40E000) [0x4000])"
    "mem_step demo s (get_paddr ` set [0x4000])" "page_at s 0x40E000 = create_entry 0x3000 2"
    by (rule alloc_page_steps [OF demo_inv pg(1,2), of 2]) (use pg i in auto)
  have ok: "paging_ok s" by (rule mem_paging [OF s(1)])
  have al: "frame_aligned (0x40E000 :: u32)" by (simp add: frame_aligned_def)
  have "translate s (0x40E000 + word_of_nat k) = Inr (0x3000 + word_of_nat k)" if k: "k < 4096" for k
  proof -
    have lt: "unat (0x40E000 :: u32) + k < 2 ^ 32" using k by simp
    note off = page_offset_facts [OF al lt]
    have "page_at s (0x40E000 + word_of_nat k) = create_entry 0x3000 2" using page_at_same [OF off(1)] s(3) k by simp
    then show ?thesis
      using page_at_translate [OF ok, of "0x40E000 + word_of_nat k"] off(2) k
      by (simp add: create_entry_paddr) (simp add: get_paddr_def)
  qed
  moreover have "\<not> table_frame s 0x3000"
    using mem_step_table [OF s(2), of "0x3000"] demo_tables [of "0x3000"] by (auto simp: get_paddr_def)
  ultimately have "pcb_frame s 0x3000" using ok by (simp add: pcb_frame_def v frame_aligned_def)
  then show ?thesis by (rule that)
qed

theorem context_switch_roundtrip_witness:
  "\<exists>st regs st' u. save_context_int st regs = Inr st' \<and> enter_current st' = Inr u \<and> eax regs = 42 \<and>
     map_option u_eax (entered u) = Some 42"
proof (rule demo_pcb)
  fix s
  assume s: "pcb_frame s 0x3000"
  obtain st :: kstate where "km st = s" "fpu st = replicate 512 0"
    by (rule that [of "undefined\<lparr>km := s, fpu := replicate 512 0\<rparr>"]) simp_all
  then have st: "pcb_frame (km st) 0x3000" "length (fpu st) = 512" using s by simp_all
  obtain regs :: InterruptRegisters where regs: "eax regs = 42" by (rule that [of "undefined\<lparr>eax := 42\<rparr>"]) simp
  from context_switch_roundtrip [OF st, of regs] obtain t where
    t: "save_context_int st regs = Inr (st\<lparr>km := t\<rparr>)" "pcb_frame t 0x3000"
      "\<forall>st' g. pcb_frame (km st') g \<and> (\<forall>k < 560. pcb_at (km st') g k = pcb_at t 0x3000 k) \<longrightarrow>
        enter_current st' = Inr (st'\<lparr>fpu := fpu st, entered := Some \<lparr>u_eip = eip regs, u_cs = 0x1b,
          u_eflags = eflags regs OR push_bit 9 1, u_esp = useresp regs, u_ss = 0x23, u_edi = edi regs,
          u_esi = esi regs, u_ebp = ebp regs, u_ebx = ebx regs, u_ecx = ecx regs, u_eax = eax regs, u_edx = edx regs\<rparr>\<rparr>)"
    by blast
  have "pcb_frame (km (st\<lparr>km := t\<rparr>)) 0x3000 \<and> (\<forall>k < 560. pcb_at (km (st\<lparr>km := t\<rparr>)) 0x3000 k = pcb_at t 0x3000 k)"
    using t(2) by simp
  note enter = t(3) [rule_format, OF this]
  show ?thesis by (intro exI conjI) (rule t(1), rule enter, rule regs, simp add: regs)
qed


subsection \<open>Preemption\<close>

text \<open>The address space of a process, and the record of a process that waits to run: its control
  block is in the frame \<open>g\<close>, which its address space and that of the current process do not
  use for anything else.\<close>

definition space_of :: "kstate \<Rightarrow> u32 \<Rightarrow> kmem" where
  "space_of st p = set_page_dir (km st) (page_dir_paddr st p)"

definition waiting :: "kstate \<Rightarrow> u32 \<Rightarrow> u32 \<Rightarrow> u32 \<Rightarrow> u32 list \<Rightarrow> u32 \<Rightarrow> u32 \<Rightarrow> u32 \<Rightarrow> u8 list \<Rightarrow> bool" where
  "waiting st p f g ws fl ip sp fp \<longleftrightarrow> p \<noteq> 0 \<and> pcb_frame (space_of st p) g \<and> g \<noteq> f \<and> \<not> table_frame (space_of st p) f \<and>
     pcb_word (pcb_at (space_of st p) g) 44 = page_dir_paddr st p \<and>
     holds_context (pcb_at (space_of st p) g) ws fl ip sp fp"

lemma set_page_dir_pmem: "set_page_dir (s\<lparr>pmem := m\<rparr>) d = (set_page_dir s d)\<lparr>pmem := m\<rparr>" "pmem (set_page_dir s d) = pmem s"
  by (simp_all add: set_page_dir_def set_cr3_def flush_tlb_def)

lemma pcb_read_dir: "pcb_frame s f \<Longrightarrow> vread32 s pcb_page_dir_paddr = Inr (pcb_word (pcb_at s f) 44)"
  using pcb_read [of s f 44] by (simp add: pcb_page_dir_paddr_def)

lemma pcb_keep:
  assumes "pcb_frame s g" "g \<noteq> f" "\<not> table_frame s f" "\<And>a. get_paddr a \<noteq> f \<Longrightarrow> m a = pmem s a"
  shows "pcb_frame (s\<lparr>pmem := m\<rparr>) g" "k < 4096 \<Longrightarrow> pcb_at (s\<lparr>pmem := m\<rparr>) g k = pcb_at s g k"
proof -
  have "m a = pmem s a" if "table_frame s (get_paddr a)" for a using that assms(3,4) by metis
  then have "paging_eq s (s\<lparr>pmem := m\<rparr>)"
    by (intro paging_eq_bytes) (use assms(1) in \<open>simp_all add: pcb_frame_def\<close>)
  then show "pcb_frame (s\<lparr>pmem := m\<rparr>) g" by (rule pcb_paging [OF assms(1)])
  show "k < 4096 \<Longrightarrow> pcb_at (s\<lparr>pmem := m\<rparr>) g k = pcb_at s g k"
    using pcb_byte(2) [OF assms(1), of k] assms(2,4) by (simp add: pcb_at_def)
qed

lemma queue_node_inverse [simp]: "queue_node_process (queue_node p) = p"
  by (simp add: queue_node_def queue_node_process_def)

text \<open>
  C26: Preemption. A timer interrupt in user mode saves the context of the current process in its
  control block, puts it at the end of the run queue, acknowledges the interrupt, and enters the
  process at the head of the queue, in its address space, with the registers and the floating
  point state that its control block holds.
\<close>

theorem preempt_switches:
  assumes user: "is_user_mode (cs regs)" and cur: "pcb_frame (km st) f" "length (fpu st) = 512"
      "pcb_word (pcb_at (km st) f) 44 = page_dir_paddr st (current st)"
    and q: "queue_rep (qnodes st) (run_queue st) (List.map queue_node (p # ps))"
      "queue_node (current st) \<notin> set (List.map queue_node (p # ps))" "queue_node (current st) \<noteq> 0"
    and nxt: "waiting st p f g ws fl ip sp fp"
  shows "\<exists>st'. preempt regs (st, s) = Inr ((st', pic_eoi (ucast (int_no regs - 32)) s), False) \<and>
    current st' = p \<and> queue_rep (qnodes st') (run_queue st') (List.map queue_node (ps @ [current st])) \<and>
    cr3 (km st') = cr3 (space_of st p) \<and> fpu st' = fp \<and>
    entered st' = Some \<lparr>u_eip = ip, u_cs = 0x1b, u_eflags = fl OR push_bit 9 1,
      u_esp = sp, u_ss = 0x23, u_edi = ws ! 0, u_esi = ws ! 1, u_ebp = ws ! 2, u_ebx = ws ! 4, u_ecx = ws ! 6,
      u_eax = ws ! 7, u_edx = ws ! 5\<rparr> \<and>
    holds_context (\<lambda>k. pmem (km st') (f + word_of_nat k))
      [edi regs, esi regs, ebp regs, InterruptRegisters.esp regs, ebx regs, edx regs, ecx regs, eax regs]
      (eflags regs) (eip regs) (useresp regs) (fpu st)"
proof -
  let ?ws = "[edi regs, esi regs, ebp regs, InterruptRegisters.esp regs, ebx regs, edx regs, ecx regs, eax regs]"
  let ?d = "page_dir_paddr st p"
  have n: "p \<noteq> 0" "pcb_frame (space_of st p) g" "g \<noteq> f" "\<not> table_frame (space_of st p) f"
    "pcb_word (pcb_at (space_of st p) g) 44 = ?d" "holds_context (pcb_at (space_of st p) g) ws fl ip sp fp"
    using nxt by (simp_all add: waiting_def)
  obtain s1 m where s1: "save_regs (km st) ?ws (eflags regs) (eip regs) (useresp regs) (fpu st) = Inr s1"
    "s1 = (km st)\<lparr>pmem := m\<rparr>" "holds_context (pcb_at s1 f) ?ws (eflags regs) (eip regs) (useresp regs) (fpu st)"
    "\<And>a. get_paddr a \<noteq> f \<Longrightarrow> pmem s1 a = pmem (km st) a"
    by (rule save_regs_ok [OF cur(1) _ cur(2), where ws = ?ws and fl = "eflags regs" and ip = "eip regs" and sp = "useresp regs"])
      auto
  let ?s2 = "(space_of st p)\<lparr>pmem := m\<rparr>"
  have s2: "set_page_dir s1 ?d = ?s2" by (simp add: s1(2) set_page_dir_pmem space_of_def)
  have same: "m a = pmem (space_of st p) a" if "get_paddr a \<noteq> f" for a
    using s1(4) [OF that] by (simp add: s1(2) space_of_def set_page_dir_pmem)
  note keep = pcb_keep [OF n(2-4) same]
  have c2: "pcb_word (pcb_at ?s2 g) 44 = ?d" using n(5) keep(2) by (simp add: pcb_word_def)
  have h2: "holds_context (pcb_at ?s2 g) ws fl ip sp fp"
    by (rule holds_context_cong [OF n(6)]) (use keep(2) in simp)
  obtain qn q1 where add: "queue_add (qnodes st) (run_queue st) (queue_node (current st)) = (qn, q1)" by fastforce
  have "queue_rep qn q1 (List.map queue_node (p # ps) @ [queue_node (current st)])"
    by (rule queue_add_rep [OF q(1,3,2) add])
  then have rep: "queue_rep qn q1 (queue_node p # List.map queue_node (ps @ [current st]))" by simp
  then have head: "queue_node p \<noteq> 0" by (simp add: queue_rep_def)
  from queue_poll_rep [OF rep] obtain q2 where
    poll: "queue_poll qn q1 = (queue_node p, q2)" "queue_rep qn q2 (List.map queue_node (ps @ [current st]))" by blast
  let ?st1 = "st\<lparr>km := s1, qnodes := qn, run_queue := q1\<rparr>"
  let ?st2 = "st\<lparr>qnodes := qn, run_queue := q2, current := p, km := ?s2\<rparr>"
  have "schedule ?st1 = enter_current ?st2"
    using poll(1) head n(1) s2 pcb_read_dir [OF keep(1)] c2
    by (simp add: schedule_def run_queue_next_def Let_def kernel_assert_def)
  moreover have "pcb_frame (km ?st2) g" "holds_context (pcb_at (km ?st2) g) ws fl ip sp fp" using keep(1) h2 by simp_all
  note enter = enter_current_ok [OF this]
  moreover have "preempt regs (st, s) = bind_res (schedule ?st1) (\<lambda>st. Inr ((st, pic_eoi (ucast (int_no regs - 32)) s), False))"
    using user pcb_read_dir [OF cur(1)] cur(3) s1(1) add
    by (simp add: preempt_def kernel_assert_def save_context_int_regs Let_def)
  ultimately show ?thesis
    using poll(2) s1(3) by (simp add: s1(2) pcb_at_def [abs_def])
qed

text \<open>An example: two address spaces, with the directories 0x1000 and 0x5000, that map the control
  block to the frames 0x3000 and 0x7000.\<close>

definition two_mem :: bytes where
  "two_mem = wr32 (wr32 (wr32 (wr32 (wr32 (wr32 (wr32 (wr32 (\<lambda>_. 0) 0x1FFC 0x1003) 0x1004 0x2003) 0x2038 0x3003)
     0x302C 0x1000) 0x5FFC 0x5003) 0x5004 0x6003) 0x6038 0x7003) 0x702C 0x5000"

lemma rd32_two:
  assumes "dword_aligned a"
  shows "rd32 two_mem a = (if a = 0x1FFC then 0x1003 else if a = 0x1004 then 0x2003 else if a = 0x2038 then 0x3003
    else if a = 0x302C then 0x1000 else if a = 0x5FFC then 0x5003 else if a = 0x5004 then 0x6003
    else if a = 0x6038 then 0x7003 else if a = 0x702C then 0x5000 else 0)"
proof -
  have wr: "rd32 (wr32 m b v) a = (if a = b then v else rd32 m a)" if "dword_aligned b" for m b v
    using that assms by auto
  have z: "rd32 (\<lambda>_. 0) a = 0" by (simp add: rd32_def)
  show ?thesis unfolding two_mem_def by (simp add: wr z dword_aligned_def)
qed

lemma frame_index_unat:
  assumes "frame_aligned b" "(i :: u32) < 1024"
  shows "unat (b + 4 * i) = unat b + 4 * unat i"
proof -
  obtain k where k: "unat b = 4096 * k" using assms(1) unfolding frame_unat by (rule dvdE)
  with unat_lt_u32 [of b] have "k < 1048576" by simp
  with k show ?thesis
    using assms(2) index_scaled [OF assms(2)] by (subst unat_add_u32) (simp_all add: word_less_nat_alt)
qed

lemma two_space:
  assumes D: "D = 0x1000 \<and> T = 0x2000 \<and> F = 0x3000 \<or> D = 0x5000 \<and> T = 0x6000 \<and> F = 0x7000"
    and s: "pmem s = two_mem" "cr3 s = D" "\<And>n. \<not> stale s n"
  shows "pcb_frame s F" "table_frame s x \<longleftrightarrow> x = T \<or> x = D" "pcb_word (pcb_at s F) 44 = D"
proof -
  have al: "frame_aligned D" "frame_aligned T" "frame_aligned F" using D by (auto simp: frame_aligned_def)
  have ix: "b + 4 * i = c \<longleftrightarrow> unat b + 4 * unat i = unat c" if "frame_aligned b" "i < 1024" for b i c :: u32
    using frame_index_unat [OF that] by (simp add: word_unat_eq_iff)
  have pde: "pde s k = (if k = 1 then T + 3 else if k = 1023 then D + 3 else 0)" if k: "k < 1024" for k
  proof -
    obtain n where n: "unat k = n" "n < 1024" using k by (simp add: word_less_nat_alt)
    have e: "k = 1 \<longleftrightarrow> n = 1" "k = 1023 \<longleftrightarrow> n = 1023" by (simp_all add: word_unat_eq_iff n(1))
    note rd = rd32_two [OF frame_index_aligned [OF al(1) k], unfolded ix [OF al(1) k] n(1)]
    from D show ?thesis
    proof (elim disjE conjE)
      assume "D = 0x1000" "T = 0x2000"
      then show ?thesis using rd n(2) unfolding pde_def s by (simp add: e)
    next
      assume "D = 0x5000" "T = 0x6000"
      then show ?thesis using rd n(2) unfolding pde_def s by (simp add: e)
    qed
  qed
  have pt: "pt s 1 = T" "pt s 1023 = D" using D by (auto simp: pt_def pde get_paddr_def)
  have pr: "entry_present (pde s k) \<longleftrightarrow> k = 1 \<or> k = 1023" if "k < 1024" for k
    using pde [OF that] D by (auto simp: entry_present_def)
  have pte: "pte s 1 14 = F + 3"
    using rd32_two [of "T + 56"] D by (auto simp: pte_def pt s dword_aligned_def)
  have ok: "paging_ok s" unfolding paging_ok_def using pr pt s al D by auto
  show tb: "table_frame s x \<longleftrightarrow> x = T \<or> x = D" for x
  proof
    show "table_frame s x \<Longrightarrow> x = T \<or> x = D" using pr pt unfolding table_frame_def by auto
    show "x = T \<or> x = D \<Longrightarrow> table_frame s x"
      unfolding table_frame_def using pr [of 1] pr [of 1023] pt
      by (elim disjE) (rule exI [of _ 1], simp, rule exI [of _ 1023], simp)
  qed
  have v: "PCB_ADDR = 0x40E000" by (simp add: PCB_ADDR_def MAILBOX_DATA_ADDR_def PROCESS_ORG_def PAGE_SIZE_def MAILBOX_RESERVED_def)
  have at: "page_at s 0x40E000 = F + 3"
    using pr [of 1] pte by (simp add: page_at_def view_def get_pd_index_def get_pt_index_def)
  have val: "frame_aligned (0x40E000 :: u32)" by (simp add: frame_aligned_def)
  have "translate s (0x40E000 + word_of_nat k) = Inr (F + word_of_nat k)" if k: "k < 4096" for k
  proof -
    have lt: "unat (0x40E000 :: u32) + k < 2 ^ 32" using k by simp
    note off = page_offset_facts [OF val lt]
    have "page_at s (0x40E000 + word_of_nat k) = F + 3" using page_at_same [OF off(1)] at k by simp
    then show ?thesis
      using page_at_translate [OF ok, of "0x40E000 + word_of_nat k"] off(2) k D
      by (auto simp: entry_present_def get_paddr_def)
  qed
  then show f: "pcb_frame s F" using ok al tb D by (auto simp: pcb_frame_def v)
  have "vread32 s (PCB_ADDR + word_of_nat 44) = Inr D"
    using pcb_byte(1) [OF f, of 44] rd32_two [of "F + 44"] D by (auto simp: vread32_def s dword_aligned_def)
  then show "pcb_word (pcb_at s F) 44 = D" using pcb_read [OF f, of 44] by simp
qed

lemma context_of_bytes:
  "holds_context c (List.map (\<lambda>i. pcb_word c (4 * i)) [0..<8]) (pcb_word c 32) (pcb_word c 36) (pcb_word c 12) (List.map c [48..<560])"
  by (auto simp: holds_context_def simp del: upt_Suc upt_rec_numeral)

theorem preempt_switches_witness:
  "\<exists>st regs s st' s'. current st = 64 \<and> preempt regs (st, s) = Inr ((st', s'), False) \<and> current st' = 32 \<and>
     queue_rep (qnodes st') (run_queue st') [68]"
proof -
  obtain s0 :: kmem where s0: "pmem s0 = two_mem" "cr3 s0 = 0x1000" "current_page_dir s0 = 0x1000" "\<And>n. \<not> stale s0 n"
    by (rule that [of "undefined\<lparr>pmem := two_mem, cr3 := 0x1000, current_page_dir := 0x1000, stale := \<lambda>_. False\<rparr>"]) simp_all
  obtain st :: kstate where st: "km st = s0" "current st = 64" "page_dir_paddr st 64 = 0x1000" "page_dir_paddr st 32 = 0x5000"
    "qnodes st = (\<lambda>_. 0)" "run_queue st = \<lparr>head = 36, tail = 36, count = 1\<rparr>" "fpu st = replicate 512 0"
    by (rule that [of "undefined\<lparr>km := s0, current := 64, page_dir_paddr := \<lambda>a. if a = 64 then 0x1000 else 0x5000,
      qnodes := \<lambda>_. 0, run_queue := \<lparr>head = 36, tail = 36, count = 1\<rparr>, fpu := replicate 512 0\<rparr>"]) simp_all
  obtain regs :: InterruptRegisters where regs: "cs regs = 0x1b" by (rule that [of "undefined\<lparr>cs := 0x1b\<rparr>"]) simp
  have one: "pmem (km st) = two_mem" "cr3 (km st) = 0x1000" "\<not> stale (km st) n" for n using s0 by (simp_all add: st)
  have two: "pmem (space_of st 32) = two_mem" "cr3 (space_of st 32) = 0x5000" "\<not> stale (space_of st 32) n" for n
    using s0 by (simp_all add: st space_of_def set_page_dir_def set_cr3_def flush_tlb_def)
  have A: "pcb_frame (km st) 0x3000" "pcb_word (pcb_at (km st) 0x3000) 44 = 0x1000"
    by (rule two_space [where D = "0x1000" and T = "0x2000"], simp, rule one, rule one, rule one)+
  have B: "pcb_frame (space_of st 32) 0x7000" "pcb_word (pcb_at (space_of st 32) 0x7000) 44 = 0x5000"
    by (rule two_space [where D = "0x5000" and T = "0x6000"], simp, rule two, rule two, rule two)+
  have C: "\<not> table_frame (space_of st 32) 0x3000"
    by (subst two_space(2) [where D = "0x5000" and T = "0x6000" and F = "0x7000"], simp, rule two, rule two, rule two) simp
  have "waiting st 32 0x3000 0x7000 (List.map (\<lambda>i. pcb_word (pcb_at (space_of st 32) 0x7000) (4 * i)) [0..<8])
      (pcb_word (pcb_at (space_of st 32) 0x7000) 32) (pcb_word (pcb_at (space_of st 32) 0x7000) 36)
      (pcb_word (pcb_at (space_of st 32) 0x7000) 12) (List.map (pcb_at (space_of st 32) 0x7000) [48..<560])"
    unfolding waiting_def using context_of_bytes B C st by (simp del: upt_Suc upt_rec_numeral)
  from preempt_switches [OF _ A(1) _ _ _ _ _ this, where regs = regs and ps = "[]"] show ?thesis
    using A(2) st regs by (simp add: is_user_mode_def queue_node_def queue_rep_def del: upt_Suc upt_rec_numeral) blast
qed

subsection \<open>Free identifiers\<close>

definition pid_of :: "u16 \<Rightarrow> u32" where
  "pid_of aid = push_bit 16 (ucast aid)"

lemma entry_nonzero: "rbtree m t T \<Longrightarrow> entries T k = Some a \<Longrightarrow> a \<noteq> 0"
  using entries_address [of T k a] by (auto simp: rbtree_def focus_def nodes_def fresh_def)

lemma find_taken:
  "rbtree m t T \<Longrightarrow> \<exists>a. rb_find m t k = Inr a \<and> (a = 0 \<longleftrightarrow> entries T k = None)"
  using find_ok [of m t T k] entry_nonzero [of m t T k] by (auto split: option.splits)

lemma next_free_aid_loop_ok:
  assumes T: "rbtree (rbnodes st) (process_tree st) T"
    and "j + n = 65536" "0 < n" "\<forall>i < j. entries T (pid_of (aid_counter st + word_of_nat i)) \<noteq> None"
  shows "case next_free_aid_loop n st (aid_counter st + word_of_nat j) of
      Inl e \<Rightarrow> e = Panic \<and> (\<forall>a. entries T (pid_of a) \<noteq> None)
    | Inr (pid, st') \<Rightarrow> \<exists>i < 65536. pid = pid_of (aid_counter st + word_of_nat i) \<and> entries T pid = None \<and>
        (\<forall>k < i. entries T (pid_of (aid_counter st + word_of_nat k)) \<noteq> None) \<and>
        st' = st\<lparr>aid_counter := aid_counter st + word_of_nat i + 1\<rparr>"
  using assms(2-)
proof (induction n arbitrary: j)
  case (Suc n)
  let ?c = "aid_counter st" and ?a = "aid_counter st + word_of_nat j"
  obtain node where node: "rb_find (rbnodes st) (process_tree st) (pid_of ?a) = Inr node"
    "node = 0 \<longleftrightarrow> entries T (pid_of ?a) = None"
    using find_taken [OF T] by blast
  have step: "next_free_aid_loop (Suc n) st ?a =
      (if node = 0 then Inr (pid_of ?a, st\<lparr>aid_counter := ?a + 1\<rparr>)
       else if ?a + 1 \<noteq> ?c then next_free_aid_loop n st (?a + 1) else Inl Panic)"
    using node(1) by (simp add: pid_of_def Let_def kernel_panic_def)
  show ?case
  proof (cases "node = 0")
    case True
    then show ?thesis using step node(2) Suc.prems by (auto intro!: exI [of _ j])
  next
    case False
    have next_aid: "?a + 1 = ?c + word_of_nat (Suc j)" by (simp add: add_ac)
    have taken: "\<forall>i < Suc j. entries T (pid_of (?c + word_of_nat i)) \<noteq> None"
      using Suc.prems(3) False node(2) by (auto simp: less_Suc_eq)
    show ?thesis
    proof (cases "?a + 1 = ?c")
      case True
      then have "(word_of_nat (Suc j) :: u16) = 0" unfolding next_aid by (simp only: add_cancel_left_right)
      from arg_cong [OF this, of unat] have "Suc j mod 65536 = 0"
        by (simp add: unat_of_nat take_bit_eq_mod del: of_nat_Suc)
      then have "65536 \<le> Suc j" by (metis Suc_neq_Zero mod_less not_le)
      then have "entries T (pid_of a) \<noteq> None" for a
      proof -
        have "unat (a - ?c) < 65536" using unsigned_less [of "a - ?c"] by simp
        then have "unat (a - ?c) < Suc j" using \<open>65536 \<le> Suc j\<close> by (rule less_le_trans)
        with taken have "entries T (pid_of (?c + word_of_nat (unat (a - ?c)))) \<noteq> None" by blast
        then show ?thesis by simp
      qed
      then show ?thesis unfolding step using True False by simp
    next
      case nxt: False
      have "0 < n"
      proof (rule ccontr)
        assume "\<not> 0 < n"
        then have "Suc j = 65536" using Suc.prems(1) by simp
        then have "(word_of_nat (Suc j) :: u16) = 0" by (simp only:) simp
        then show False using nxt next_aid by simp
      qed
      from Suc.IH [OF _ this taken] Suc.prems(1) show ?thesis
        unfolding step using False nxt by (simp only: next_aid if_False if_True simp_thms)
    qed
  qed
qed simp

text \<open>
  C28: The choice of an identifier returns. It gives the first one from the counter on, around
  the end of the 16 bits, that no process in the table has, and sets the counter behind it; it
  stops with a panic exactly when all 65536 are taken.
\<close>

theorem next_free_aid_correct:
  assumes T: "rbtree (rbnodes st) (process_tree st) T"
  shows "case next_free_aid st of
      Inl e \<Rightarrow> e = Panic \<and> (\<forall>a. entries T (pid_of a) \<noteq> None)
    | Inr (pid, st') \<Rightarrow> \<exists>i < 65536. pid = pid_of (aid_counter st + word_of_nat i) \<and> entries T pid = None \<and>
        (\<forall>k < i. entries T (pid_of (aid_counter st + word_of_nat k)) \<noteq> None) \<and>
        st' = st\<lparr>aid_counter := aid_counter st + word_of_nat i + 1\<rparr>"
  using next_free_aid_loop_ok [OF T, of 0 65536] by (simp add: next_free_aid_def)


theorem next_free_aid_correct_witness:
  "\<exists>st :: kstate. aid_counter st = 65535 \<and> next_free_aid st = Inr (pid_of 65535, st\<lparr>aid_counter := 0\<rparr>)"
proof -
  obtain st :: kstate where st: "rbnodes st = one_node" "process_tree st = one_tree" "aid_counter st = 65535"
    by (rule that [of "undefined\<lparr>rbnodes := one_node, process_tree := one_tree, aid_counter := 65535\<rparr>"]) simp_all
  have T: "rbtree (rbnodes st) (process_tree st) (Nd Lf Bk 16 5 Lf)" using one_tree_rb st by simp
  have no: "entries (Nd Lf Bk 16 5 Lf) (pid_of a) = None" for a
  proof -
    have "pid_of a \<noteq> 5"
    proof
      assume "pid_of a = 5"
      then have "bit (pid_of a) 0 \<longleftrightarrow> bit (5 :: u32) 0" by simp
      then show False by (simp add: pid_of_def bit_simps)
    qed
    then show ?thesis by (simp add: one_entry)
  qed
  have "next_free_aid st = Inr (pid_of 65535, st\<lparr>aid_counter := 0\<rparr>)"
    using next_free_aid_correct [OF T] no by (auto simp: st split: sum.splits dest!: spec [where x = "0 :: nat"])
  then show ?thesis using st by blast
qed

end
