(* ===== verification/VirtMemProps.thy ===== *)
theory VirtMemProps
  imports VirtMem AddressSpaces ProcProps
begin

section \<open>The memory system calls: properties\<close>

text \<open>
  \<^verbatim>\<open>syscall_virt_map\<close> on the address space of the process it is called for: what is
  checked, what is mapped, and what a refused call leaves alone.
\<close>

unbundle bit_operations_syntax

subsection \<open>The array of addresses\<close>

text \<open>The word \<open>y\<close> is at the address \<open>x\<close>, in a frame that is no page table and not in \<open>F\<close>.\<close>

definition array_word :: "kmem \<Rightarrow> u32 set \<Rightarrow> u32 \<Rightarrow> u32 \<Rightarrow> bool" where
  "array_word s F x y \<longleftrightarrow> plain_page s x \<and> (\<exists>b. translate s x = Inr b \<and> dword_aligned b \<and>
     rd32 (pmem s) b = y \<and> \<not> table_frame s (get_paddr b) \<and> get_paddr b \<notin> F)"

lemma array_word_read: "array_word s F x y \<Longrightarrow> vread32 s x = Inr y"
  by (auto simp: array_word_def vread32_def)

lemma array_word_keep:
  assumes "array_word s F x y" "paging_ok s" "paging_ok t" "mem_step s t F" "page_at t x = page_at s x"
  shows "array_word t F x y"
proof -
  obtain b where b: "translate s x = Inr b" "dword_aligned b" "rd32 (pmem s) b = y" "\<not> table_frame s (get_paddr b)"
    "get_paddr b \<notin> F" using assms(1) by (auto simp: array_word_def)
  have "translate t x = Inr b" using b(1) by (auto simp: page_at_translate assms(2,3,5) split: if_splits)
  moreover have "rd32 (pmem t) b = y"
    using b(3) rd32_frame_cong [OF b(2), of "pmem t" "pmem s"] mem_step_data [OF assms(4)] b(4,5) by simp
  moreover have "\<not> table_frame t (get_paddr b)" using mem_step_table [OF assms(4)] b(4,5) by blast
  ultimately show ?thesis
    using assms(1) mem_step_plain [OF assms(4)] b(2,5) by (auto simp: array_word_def)
qed

subsection \<open>The loops\<close>

text \<open>The error that the first loop reports for the page \<open>v\<close> and the frame \<open>p\<close>.\<close>

definition map_error :: "kmem \<Rightarrow> u32 \<Rightarrow> u32 \<Rightarrow> u32 option" where
  "map_error s v p = (if entry_present (page_at s v) then Some VIRT_MAP_ALREADY_MAPPED
     else if \<not> user_frame_valid s p then Some VIRT_MAP_INVALID_PADDR else None)"

text \<open>The first error of a list of pages and frames.\<close>

fun first_error :: "kmem \<Rightarrow> (u32 \<times> u32) list \<Rightarrow> u32 option" where
  "first_error s [] = None"
| "first_error s ((v, p) # xs) = (case map_error s v p of Some e \<Rightarrow> Some e | None \<Rightarrow> first_error s xs)"

lemma first_error_None: "first_error s xs = None \<longleftrightarrow> (\<forall>(v, p) \<in> set xs. map_error s v p = None)"
  by (induction s xs rule: first_error.induct) (auto split: option.splits)

text \<open>The pages of a run with the frames for them, from the \<open>i\<close>th on.\<close>

definition requests :: "u32 \<Rightarrow> u32 list \<Rightarrow> (u32 \<times> u32) list" where
  "requests v ps = List.map (\<lambda>k. (page_no v k, ps ! k)) [0..<length ps]"

lemma requests_Nil [simp]: "requests v [] = []"
  by (simp add: requests_def)

lemma requests_Cons: "requests v (p # ps) = (v, p) # requests (v + PAGE_SIZE) ps"
proof -
  have "[0..<length (p # ps)] = 0 # List.map Suc [0..<length ps]"
    by (simp only: list.size(4) add_Suc_right add_0_right map_Suc_upt upt_conv_Cons zero_less_Suc)
  then show ?thesis by (simp add: requests_def page_no_Suc comp_def)
qed

lemma set_requests: "set (requests v ps) = {(page_no v k, ps ! k) | k. k < length ps}"
  by (auto simp: requests_def)

lemma page_of_step: "page_of v (i + 1) = page_of (v + PAGE_SIZE) i" "page_of v 0 = v"
  by (simp_all add: page_of_def algebra_simps)

definition array_words :: "kmem \<Rightarrow> u32 set \<Rightarrow> u32 \<Rightarrow> u32 list \<Rightarrow> bool" where
  "array_words s F a ps \<longleftrightarrow> (\<forall>k < length ps. array_word s F (a + 4 * word_of_nat k) (ps ! k))"

lemma array_words_Cons:
  "array_words s F a (p # ps) \<longleftrightarrow> array_word s F a p \<and> array_words s F (a + 4) ps"
proof -
  have "a + 4 + 4 * word_of_nat k = a + 4 * word_of_nat (Suc k)" for k by (simp add: algebra_simps)
  then show ?thesis
    by (simp only: array_words_def length_Cons All_less_Suc2 nth_Cons_0 nth_Cons_Suc) simp
qed

text \<open>The loops depend on the counter only through the addresses that they compute.\<close>

lemma next_word: "a + 4 * (i + 1) = a + 4 + 4 * (i :: u32)"
  by (simp add: algebra_simps)

lemma virt_map_check_shift: "virt_map_check n s v a (i + 1) = virt_map_check n s (v + PAGE_SIZE) (a + 4) i"
  by (induction n arbitrary: i) (simp_all only: virt_map_check.simps page_of_step(1) next_word)

lemma virt_map_loop_shift: "virt_map_loop n s v a fl (i + 1) = virt_map_loop n s (v + PAGE_SIZE) (a + 4) fl i"
  by (induction n arbitrary: i s) (simp_all only: virt_map_loop.simps page_of_step(1) next_word)

lemma virt_map_check_ok:
  assumes "paging_ok s" "array_words s F a ps"
  shows "virt_map_check (length ps) s v a 0 = Inr (first_error s (requests v ps))"
  using assms(2)
proof (induction ps arbitrary: v a)
  case (Cons p ps)
  have w: "vread32 s a = Inr p" "array_words s F (a + 4) ps"
    using Cons.prems by (auto simp: array_words_Cons array_word_read)
  have "get_entry s v = Inr (page_at s v)" by (simp add: get_entry_view assms(1) page_at_def)
  then show ?case
    using Cons.IH [OF w(2), of "v + PAGE_SIZE"] w(1) virt_map_check_shift [of "length ps" s v a 0]
    by (simp add: requests_Cons map_error_def page_of_step(2))
qed simp

text \<open>Mapping the run: \<open>ps\<close> are the frames, \<open>F\<close> contains the free frames at the start.\<close>

lemma virt_map_loop_ok:
  assumes "mem_inv s fs" "run_free s v (length ps) flags" "flags < 0x1000" "length ps \<le> length fs"
    "get_paddr ` set fs \<subseteq> F" "get_paddr ` set ps \<inter> F = {}" "array_words s F a ps"
  shows "\<exists>t gs. virt_map_loop (length ps) s v a flags 0 = Inr t \<and> mem_inv t gs \<and> set gs \<subseteq> set fs \<and> mem_step s t F \<and>
    (\<forall>k < length ps. page_at t (page_no v k) = create_entry (ps ! k) flags) \<and>
    (\<forall>w. plain_page s w \<longrightarrow> (\<forall>k < length ps. drop_bit 12 w \<noteq> drop_bit 12 (page_no v k)) \<longrightarrow> page_at t w = page_at s w)"
  using assms
proof (induction ps arbitrary: s fs v a)
  case Nil
  then show ?case by (auto simp: mem_step_refl intro!: exI [of _ fs])
next
  case (Cons p ps)
  let ?n = "length ps"
  note inv = Cons.prems(1) and run = run_free_Suc [OF Cons.prems(2) [unfolded length_Cons]]
  have i: "get_pd_index v < 1023" and w: "(get_pd_index v, get_pt_index v) \<noteq> (wdi s, wti s)"
    using run(1) by (auto simp: plain_page_def page_at_indices)
  have n: "?n < 2 ^ 20" using Cons.prems(2) by (simp add: run_free_def)
  have p: "get_paddr p \<notin> get_paddr ` set fs" and room: "entry_present (pde s (get_pd_index v)) \<or> fs \<noteq> []"
    using Cons.prems(4-6) by auto
  obtain t1 where t1: "map_page s v p flags = Inr (False, t1)" "mem_inv t1 (rest_frames s (get_pd_index v) fs)"
    "mem_step s t1 (get_paddr ` set fs)"
    "\<And>k l. k < 1023 \<Longrightarrow> l < 1024 \<Longrightarrow> (k, l) \<noteq> (wdi s, wti s) \<Longrightarrow>
       view t1 k l = (if k = get_pd_index v \<and> l = get_pt_index v then create_entry p flags else view s k l)"
    "\<And>k. k < 1023 \<Longrightarrow> user_ok s k flags \<Longrightarrow> user_ok t1 k flags"
    by (rule map_page_steps [OF inv i w run(2,3) Cons.prems(3) p room]) (rule that; assumption)
  have at: "page_at t1 x = (if drop_bit 12 x = drop_bit 12 v then create_entry p flags else page_at s x)"
    if "plain_page s x" for x
    using that t1(4) [of "get_pd_index x" "get_pt_index x"] by (auto simp: plain_page_def page_at_indices page_at_def)
  note step = mem_step_mono [OF t1(3) Cons.prems(5)]
  note plain = mem_step_plain [OF t1(3)]
  have "array_word t1 F x y" if x: "array_word s F x y" for x y
  proof -
    have "plain_page s x" "entry_present (page_at s x)"
      using x mem_paging [OF inv] by (auto simp: array_word_def page_at_translate split: if_splits)
    then have "page_at t1 x = page_at s x" using at run(2) page_at_same [of x v s] by auto
    then show ?thesis by (rule array_word_keep [OF x mem_paging [OF inv] mem_paging [OF t1(2)] step])
  qed
  then have words: "array_words t1 F (a + 4) ps" and word: "array_word s F a p"
    using Cons.prems(7) by (auto simp: array_words_Cons) (auto simp: array_words_def)
  have rest: "?n \<le> length (rest_frames s (get_pd_index v) fs)" "set (rest_frames s (get_pd_index v) fs) \<subseteq> set fs"
    using Cons.prems(4) by (cases fs; auto simp: rest_frames_def)+
  have run1: "run_free t1 (v + PAGE_SIZE) ?n flags"
    using run(4) t1(5) at run_page_other [OF _ n] plain_page_pdi [of s] unfolding run_free_def plain by simp
  have F: "get_paddr ` set (rest_frames s (get_pd_index v) fs) \<subseteq> F" "get_paddr ` set ps \<inter> F = {}"
    using rest(2) Cons.prems(5,6) by auto
  from Cons.IH [OF t1(2) run1 Cons.prems(3) rest(1) F words] obtain t gs where
    t: "virt_map_loop ?n t1 (v + PAGE_SIZE) (a + 4) flags 0 = Inr t" "mem_inv t gs"
      "set gs \<subseteq> set (rest_frames s (get_pd_index v) fs)" "mem_step t1 t F"
      "\<forall>k < ?n. page_at t (page_no (v + PAGE_SIZE) k) = create_entry (ps ! k) flags"
      "\<forall>w. plain_page t1 w \<longrightarrow> (\<forall>k < ?n. drop_bit 12 w \<noteq> drop_bit 12 (page_no (v + PAGE_SIZE) k)) \<longrightarrow>
         page_at t w = page_at t1 w"
    by blast
  have "page_at t v = create_entry p flags"
    using t(6) [rule_format, of v] at plain run(1) run_page_other [OF _ n, of _ v] by metis
  then have "page_at t (page_no v k) = create_entry ((p # ps) ! k) flags" if "k < Suc ?n" for k
    using that t(5) by (cases k) (auto simp: page_no_Suc)
  moreover have "page_at t x = page_at s x"
    if "plain_page s x" "\<forall>k < Suc ?n. drop_bit 12 x \<noteq> drop_bit 12 (page_no v k)" for x
    using t(6) [rule_format, of x] at [OF that(1)] plain that by (auto simp: page_no_Suc All_less_Suc2)
  moreover have "virt_map_loop (length (p # ps)) s v a flags 0 = Inr t"
    using t(1) t1(1) array_word_read [OF word] virt_map_loop_shift [of ?n t1 v a flags 0]
    by (simp add: page_of_step(2))
  ultimately show ?case
    using t(2,3) rest(2) mem_step_trans [OF step t(4)] by (intro exI [of _ t] exI [of _ gs]) auto
qed

subsection \<open>The system call\<close>

text \<open>Loading another directory and then the one before again changes nothing.\<close>

definition synced :: "kmem \<Rightarrow> bool" where
  "synced s \<longleftrightarrow> cr3 s = current_page_dir s \<and> (\<forall>n. \<not> stale s n)"

lemma switch_back:
  assumes "synced s" "current_page_dir s = d"
  shows "set_page_dir (set_page_dir s e) d = s"
proof -
  have "stale s = (\<lambda>_. False)" using assms by (auto simp: synced_def)
  then show ?thesis
    using assms by (cases s) (simp add: synced_def set_page_dir_def set_cr3_def flush_tlb_def)
qed

lemma set_page_dir_synced: "synced s \<Longrightarrow> synced (set_page_dir s d)" "current_page_dir (set_page_dir s d) = d"
  by (simp_all add: synced_def set_page_dir_def set_cr3_def flush_tlb_def)

text \<open>The caller names a process \<open>p\<close> and gives an array in a user page of its own.\<close>

definition call_ok :: "kstate \<Rightarrow> u32 \<Rightarrow> u32 \<Rightarrow> u32 \<Rightarrow> bool" where
  "call_ok st aid p a \<longleftrightarrow> drop_bit 16 aid = 0 \<and> get_process st (ucast aid) = Inr p \<and> p \<noteq> 0 \<and>
     paging_ok (km st) \<and> synced (km st) \<and> a \<noteq> 0 \<and>
     entry_present (page_at (km st) a) \<and> page_at (km st) a AND PTE_USER_MODE \<noteq> 0"

lemma virt_map_unfold:
  assumes "call_ok st aid p a"
  shows "syscall_virt_map aid v a n flags st =
    bind_res (virt_map_check (unat n) (space_of st p) v a 0) (\<lambda>error. case error of
      Some e \<Rightarrow> Inr (Some \<lparr>ret = 0, err = e\<rparr>, st)
    | None \<Rightarrow> bind_res (virt_map_loop (unat n) (space_of st p) v a (get_pte_flags (ucast flags)) 0) (\<lambda>s.
        Inr (Some \<lparr>ret = 0, err = 0\<rparr>, st\<lparr>km := set_page_dir s (current_page_dir (km st))\<rparr>)))"
proof -
  have c: "drop_bit 16 aid = 0" "get_process st (ucast aid) = Inr p" "p \<noteq> 0" "paging_ok (km st)" "synced (km st)" "a \<noteq> 0"
    "entry_present (page_at (km st) a)" "page_at (km st) a AND PTE_USER_MODE \<noteq> 0" using assms by (simp_all add: call_ok_def)
  have "validate_user_readable (km st) a = Inr a"
    using c(7,8) by (simp add: validate_user_readable_def get_entry_view [OF c(4)] page_at_def)
  moreover have "set_page_dir (set_page_dir (km st) d) (current_page_dir (km st)) = km st" for d
    by (rule switch_back [OF c(5) refl])
  ultimately show ?thesis
    using c(1-3,6)
    by (simp add: syscall_virt_map_def get_page_dir_def Let_def switch_to_def space_of_def SYSCALL_RETURN_def
        cong: option.case_cong)
qed

lemma get_pte_flags_user:
  "get_pte_flags f < 0x1000" "user_ok s i PAGE_USER_MODE \<Longrightarrow> user_ok s i (get_pte_flags f)"
  by (auto simp: get_pte_flags_def PTE_USER_MODE_def PTE_WRITABLE_def user_ok_def PAGE_USER_MODE_def Let_def)

text \<open>
  C11: Mapping pages into the address space of a process. The call looks at the pages and frames
  in order; the first page that is mapped already, or frame that user processes must not have,
  decides the error, and then nothing at all has changed. Otherwise every page of the run is
  mapped to its frame with the user flag, writable as asked for; every other page of that
  address space is as before, only page tables and free frames of the kernel are written, and
  the caller's address space is current again.
\<close>

theorem virt_map_correct:
  assumes call: "call_ok st aid p a" and inv: "mem_inv (space_of st p) fs"
    and arr: "array_words (space_of st p) (get_paddr ` set fs) a ps" "unat n = length ps"
    and frames: "\<forall>q. user_frame_valid (space_of st p) q \<longrightarrow> get_paddr q \<notin> get_paddr ` set fs"
    and pages: "length ps \<le> 2 ^ 20" "length ps \<le> length fs"
      "\<forall>k < length ps. plain_page (space_of st p) (page_no v k) \<and>
         user_ok (space_of st p) (get_pd_index (page_no v k)) PAGE_USER_MODE"
  shows "case first_error (space_of st p) (requests v ps) of
      Some e \<Rightarrow> syscall_virt_map aid v a n flags st = Inr (Some \<lparr>ret = 0, err = e\<rparr>, st)
    | None \<Rightarrow> \<exists>st' gs. syscall_virt_map aid v a n flags st = Inr (Some \<lparr>ret = 0, err = 0\<rparr>, st') \<and>
        (\<exists>s. st' = st\<lparr>km := s\<rparr>) \<and> current_page_dir (km st') = current_page_dir (km st) \<and>
        mem_inv (space_of st' p) gs \<and> set gs \<subseteq> set fs \<and> mem_step (space_of st p) (space_of st' p) (get_paddr ` set fs) \<and>
        (\<forall>k < length ps. user_frame_valid (space_of st p) (ps ! k) \<and>
           page_at (space_of st' p) (page_no v k) = create_entry (ps ! k) (get_pte_flags (ucast flags))) \<and>
        (\<forall>w. plain_page (space_of st p) w \<longrightarrow> (\<forall>k < length ps. drop_bit 12 w \<noteq> drop_bit 12 (page_no v k)) \<longrightarrow>
           page_at (space_of st' p) w = page_at (space_of st p) w)"
proof -
  let ?T = "space_of st p" and ?fl = "get_pte_flags (ucast flags)"
  note unfold = virt_map_unfold [OF call, of v n flags] and check = virt_map_check_ok [OF mem_paging [OF inv] arr(1), of v]
  show ?thesis
  proof (cases "first_error ?T (requests v ps)")
    case (Some e)
    then show ?thesis using unfold check arr(2) by simp
  next
    case None
    then have ok: "\<not> entry_present (page_at ?T (page_no v k)) \<and> user_frame_valid ?T (ps ! k)" if "k < length ps" for k
      using that by (fastforce simp: first_error_None set_requests map_error_def split: if_splits)
    then have run: "run_free ?T v (length ps) ?fl" using pages by (simp add: run_free_def get_pte_flags_user)
    have "get_paddr ` set ps \<inter> get_paddr ` set fs = {}"
    proof -
      have "get_paddr q \<notin> get_paddr ` set fs" if "q \<in> set ps" for q
        using that ok frames by (auto simp: in_set_conv_nth)
      then show ?thesis by blast
    qed
    from virt_map_loop_ok [OF inv run get_pte_flags_user(1) pages(2) subset_refl this arr(1)] obtain t gs where
      t: "virt_map_loop (length ps) ?T v a ?fl 0 = Inr t" "mem_inv t gs" "set gs \<subseteq> set fs" "mem_step ?T t (get_paddr ` set fs)"
        "\<forall>k < length ps. page_at t (page_no v k) = create_entry (ps ! k) ?fl"
        "\<forall>w. plain_page ?T w \<longrightarrow> (\<forall>k < length ps. drop_bit 12 w \<noteq> drop_bit 12 (page_no v k)) \<longrightarrow> page_at t w = page_at ?T w"
      by blast
    let ?st = "st\<lparr>km := set_page_dir t (current_page_dir (km st))\<rparr>"
    have "synced ?T" "current_page_dir ?T = page_dir_paddr st p"
      using call set_page_dir_synced by (auto simp: call_ok_def space_of_def)
    then have "synced t" "current_page_dir t = page_dir_paddr st p"
      using same_configD(1,2,7) [OF mem_step_config [OF t(4)]] by (simp_all add: synced_def)
    then have "space_of ?st p = t" using switch_back by (simp add: space_of_def)
    then show ?thesis
      using t ok None unfold check arr(2) set_page_dir_synced(2)
      by (simp only: option.case) (intro exI [of _ ?st] exI [of _ gs], auto)
  qed
qed

text \<open>An example: one address space, with the number 0x8000 in a user page, for a process with the
  identifier 1; the frame at 0x8000 belongs to user processes.\<close>

lemma demo_user:
  obtains s where "mem_inv s [0x4000]" "synced s" "current_page_dir s = 0x1000"
    "user_physical_map s = [\<lparr>pm_addr = 0x8000, pm_len = 0x1000\<rparr>]" "plain_page s 0x401000" "user_ok s 1 PAGE_USER_MODE"
    "\<not> entry_present (page_at s 0x401000)" "page_at s 0x400000 = create_entry 0x9000 6"
    "array_words s {0x4000} 0x400000 [0x8000]" "entry_present (pde s 0)" "get_flags (pde s 0) AND PAGE_USER_MODE = 0"
    "\<not> entry_present (page_at s 0x8000)"
proof -
  let ?d = "demo\<lparr>user_physical_map := [\<lparr>pm_addr = 0x8000, pm_len = 0x1000\<rparr>]\<rparr>"
  have inv: "mem_inv ?d [0x3000, 0x4000]"
    using demo_inv by (simp add: mem_inv_def unreferenced_def table_frame_def maps_def window_ok_def)
  have i: "get_pd_index 0x400000 = 1" "get_pt_index 0x400000 = 0" "get_pd_index 0x401000 = 1" "get_pt_index 0x401000 = 1"
    "get_pd_index 0x8000 = 0" "get_pt_index 0x8000 = 8"
    by (simp_all add: get_pd_index_def get_pt_index_def)
  let ?v = "0x400000 :: u32"
  have pre: "get_pd_index ?v < 1023" "(get_pd_index ?v, get_pt_index ?v) \<noteq> (wdi ?d, wti ?d)"
    "\<not> entry_present (page_at ?d ?v)" "user_ok ?d (get_pd_index ?v) 6" "(6 :: u16) < 0x1000"
    "get_paddr 0x9000 \<notin> get_paddr ` set [0x3000, 0x4000]"
    "entry_present (pde ?d (get_pd_index ?v)) \<or> [0x3000, 0x4000 :: u32] \<noteq> []"
    using demo_window by (simp_all add: page_at_present i demo_present user_ok_def get_paddr_def)
  obtain t where t: "map_page ?d ?v 0x9000 6 = Inr (False, t)" "mem_inv t (rest_frames ?d (get_pd_index ?v) [0x3000, 0x4000])"
    "mem_step ?d t (get_paddr ` set [0x3000, 0x4000])"
    "\<And>k l. k < 1023 \<Longrightarrow> l < 1024 \<Longrightarrow> (k, l) \<noteq> (wdi ?d, wti ?d) \<Longrightarrow>
       view t k l = (if k = get_pd_index ?v \<and> l = get_pt_index ?v then create_entry 0x9000 6 else view ?d k l)"
    "\<And>k. k < 1023 \<Longrightarrow> user_ok ?d k 6 \<Longrightarrow> user_ok t k 6"
    by (rule map_page_steps [OF inv pre]) (rule that; assumption)
  have free: "user_ok ?d 1 6" using pre(4) by (simp add: i)
  have t1: "mem_inv t [0x4000]" using t(2) by (simp add: rest_frames_def demo_present i)
  note conf = same_configD [OF mem_step_config [OF t(3)]]
  have at: "page_at t 0x400000 = create_entry 0x9000 6" "\<not> entry_present (page_at t 0x401000)" "\<not> entry_present (page_at t 0x8000)"
    using t(4) [of 1 0] t(4) [of 1 1] t(4) [of 0 8] by (simp_all add: page_at_def i demo_window view_def demo_present demo_pte)
  have pd: "entry_present (pde t 0)" "get_flags (pde t 0) AND PAGE_USER_MODE = 0" "user_ok t 1 PAGE_USER_MODE"
    using mem_step_pde [OF t(3), of 0] t(5) [of 1] free
    by (simp_all add: demo_pde user_ok_def PAGE_USER_MODE_def get_flags_def entry_present_def)
  have "table_frame ?d g \<longleftrightarrow> table_frame demo g" for g by (simp add: table_frame_def)
  then have nt: "\<not> table_frame t 0x9000"
    using mem_step_table [OF t(3), of "0x9000"] by (auto simp: demo_tables get_paddr_def)
  have al: "frame_aligned (0x9000 :: u32)" by (simp add: frame_aligned_def)
  have "frame_words t 0x9000 (\<lambda>k. rd32 (pmem t) (0x9000 + 4 * k)) (t\<lparr>pmem := pmem t\<rparr>)"
    using frame_words_refl [of t "0x9000"] by simp
  note fw = frame_words_wr [OF this al, of 0 "0x8000"]
  let ?s = "t\<lparr>pmem := wr32 (pmem t) (0x9000 + 4 * 0) 0x8000\<rparr>"
  have eq: "paging_eq t ?s" by (rule frame_words_paging [OF mem_paging [OF t1] nt]) (use fw in simp)
  have ok: "paging_ok ?s" using paging_eq_ok [OF eq] mem_paging [OF t1] by simp
  show ?thesis
  proof (rule that [of ?s])
    show "mem_inv ?s [0x4000]" by (rule frame_words_inv [OF t1 nt]) (use fw in \<open>simp_all add: get_paddr_def\<close>)
    show "synced ?s" "current_page_dir ?s = 0x1000"
      using conf(1,2,7) by (simp_all add: synced_def demo_def)
    show "user_physical_map ?s = [\<lparr>pm_addr = 0x8000, pm_len = 0x1000\<rparr>]" using conf(10) by simp
    show "plain_page ?s 0x401000" using conf(4) by (simp add: plain_page_def page_at_indices i demo_def)
    show "user_ok ?s 1 PAGE_USER_MODE" "entry_present (pde ?s 0)" "get_flags (pde ?s 0) AND PAGE_USER_MODE = 0"
      using pd paging_eq_pde [OF eq, of 0] paging_eq_pde [OF eq, of 1] by (simp_all add: user_ok_def)
    show at': "page_at ?s 0x400000 = create_entry 0x9000 6" "\<not> entry_present (page_at ?s 0x401000)" "\<not> entry_present (page_at ?s 0x8000)"
      using at paging_eq_page_at [OF eq] by simp_all
    have "translate ?s 0x400000 = Inr 0x9000"
      using at'(1) page_at_translate [OF ok, of "0x400000"] by (simp add: get_paddr_create_entry) (simp add: get_paddr_def)
    moreover have "plain_page ?s 0x400000" using conf(4) by (simp add: plain_page_def page_at_indices i demo_def)
    moreover have "\<not> table_frame ?s 0x9000" using paging_eq_table [OF eq] nt by simp
    ultimately show "array_words ?s {0x4000} 0x400000 [0x8000]"
      using al by (simp add: array_words_def array_word_def get_paddr_def)
  qed
qed

lemma demo_call:
  obtains st where "call_ok st 1 32 0x400000" "space_of st 32 = km st" "mem_inv (km st) [0x4000]"
    "user_physical_map (km st) = [\<lparr>pm_addr = 0x8000, pm_len = 0x1000\<rparr>]" "plain_page (km st) 0x401000"
    "user_ok (km st) 1 PAGE_USER_MODE" "\<not> entry_present (page_at (km st) 0x401000)"
    "array_words (km st) {0x4000} 0x400000 [0x8000]" "entry_present (pde (km st) 0)"
    "get_flags (pde (km st) 0) AND PAGE_USER_MODE = 0" "\<not> entry_present (page_at (km st) 0x8000)"
proof (rule demo_user)
  fix s
  assume s: "mem_inv s [0x4000]" "synced s" "current_page_dir s = 0x1000"
    "user_physical_map s = [\<lparr>pm_addr = 0x8000, pm_len = 0x1000\<rparr>]" "plain_page s 0x401000" "user_ok s 1 PAGE_USER_MODE"
    "\<not> entry_present (page_at s 0x401000)" "page_at s 0x400000 = create_entry 0x9000 6"
    "array_words s {0x4000} 0x400000 [0x8000]" "entry_present (pde s 0)" "get_flags (pde s 0) AND PAGE_USER_MODE = 0"
    "\<not> entry_present (page_at s 0x8000)"
  let ?m = "\<lambda>_ :: u32. \<lparr>parent = 8, left = 8, right = 8, key = 0x10000, color = BLACK\<rparr>"
  let ?t = "\<lparr>root = 40, nil = 8, node_count = 1\<rparr>"
  obtain st :: kstate where st: "km st = s" "rbnodes st = ?m" "process_tree st = ?t" "page_dir_paddr st 32 = 0x1000"
    by (rule that [of "undefined\<lparr>km := s, rbnodes := ?m, process_tree := ?t, page_dir_paddr := \<lambda>_. 0x1000\<rparr>"]) simp_all
  have "rbtree ?m ?t (Nd Lf Bk 40 0x10000 Lf)" by (simp add: rbtree_def focus_def fresh_def)
  from find_ok [OF this, of "0x10000"] have "get_process st (ucast (1 :: u32)) = Inr 32"
    by (simp add: get_process_def st entries_def rb_node_process_def)
  moreover have "page_at s 0x400000 AND PTE_USER_MODE \<noteq> 0" "entry_present (page_at s 0x400000)"
    unfolding s(8) by (simp_all add: create_entry_def PTE_USER_MODE_def get_paddr_def entry_present_def)
  ultimately have "call_ok st 1 32 0x400000" using s(1,2) by (auto simp: call_ok_def st dest: mem_paging)
  moreover have "space_of st 32 = km st" by (simp add: space_of_def st s(3) set_page_dir_def)
  ultimately show ?thesis using s by (intro that [of st]) (simp_all add: st)
qed

theorem virt_map_correct_witness:
  "\<exists>st st'. syscall_virt_map 1 0x401000 0x400000 1 0 st = Inr (Some \<lparr>ret = 0, err = 0\<rparr>, st') \<and>
     page_at (space_of st' 32) 0x401000 = create_entry 0x8000 4"
proof (rule demo_call)
  fix st
  assume st: "call_ok st 1 32 0x400000" "space_of st 32 = km st" "mem_inv (km st) [0x4000]"
    "user_physical_map (km st) = [\<lparr>pm_addr = 0x8000, pm_len = 0x1000\<rparr>]" "plain_page (km st) 0x401000"
    "user_ok (km st) 1 PAGE_USER_MODE" "\<not> entry_present (page_at (km st) 0x401000)"
    "array_words (km st) {0x4000} 0x400000 [0x8000]"
  have valid: "user_frame_valid (km st) q \<longleftrightarrow> 0x8000 \<le> q \<and> q < 0x9000" for q
    by (simp add: user_frame_valid_def st(4) Let_def)
  have apart: "get_paddr q \<noteq> 0x4000" if "0x8000 \<le> q" for q :: u32
  proof
    assume "get_paddr q = 0x4000"
    then obtain x where x: "q = 0x4000 + x" "unat x < 0x1000"
      using get_paddr_plus [of q] that [of "q AND 0xFFF"] by (metis unat_and_FFF mod_less_divisor zero_less_numeral)
    then have "unat q = 0x4000 + unat x" by (simp add: unat_word_ariths)
    then show False using x(2) that by (simp add: word_le_nat_alt)
  qed
  have z: "get_paddr (0x4000 :: u32) = 0x4000" "get_pd_index 0x401000 = 1" by (simp_all add: get_paddr_def get_pd_index_def)
  have "first_error (km st) (requests 0x401000 [0x8000]) = None"
    using st(7) valid by (simp add: requests_Cons map_error_def)
  moreover note virt_map_correct [OF st(1), where fs = "[0x4000]" and ps = "[0x8000]" and n = 1 and v = "0x401000" and flags = 0]
  ultimately show ?thesis
    using st(2-6,8) valid apart by (auto simp: z get_pte_flags_def PTE_USER_MODE_def)
qed

text \<open>
  C12: A request for a page whose page table belongs to the kernel stops the machine: when the
  page is not mapped, the frame may be mapped by users, and the directory entry of the page
  exists without the user flag, the assertion in \<open>map_page\<close> fails.
\<close>

theorem virt_map_stops_kernel:
  assumes call: "call_ok st aid p a" and ok: "paging_ok (space_of st p)"
    and arr: "array_words (space_of st p) F a [q]" "user_frame_valid (space_of st p) q"
    and v: "\<not> entry_present (page_at (space_of st p) v)" "entry_present (pde (space_of st p) (get_pd_index v))"
      "get_flags (pde (space_of st p) (get_pd_index v)) AND PAGE_USER_MODE = 0"
  shows "syscall_virt_map aid v a 1 flags st = Inl Panic"
proof -
  let ?T = "space_of st p" and ?fl = "get_pte_flags (ucast flags)"
  have "?fl AND PAGE_USER_MODE \<noteq> 0"
    by (simp add: get_pte_flags_def PTE_USER_MODE_def PTE_WRITABLE_def PAGE_USER_MODE_def Let_def)
  then have "map_page ?T v q ?fl = Inl Panic"
    using v by (simp add: map_page_present [OF ok] user_ok_def)
  moreover have "vread32 ?T a = Inr q" using arr(1) by (simp add: array_words_def array_word_read)
  ultimately have "virt_map_loop 1 ?T v a ?fl 0 = Inl Panic" by (simp add: page_of_step(2))
  moreover have "virt_map_check 1 ?T v a 0 = Inr None"
    using virt_map_check_ok [OF ok arr(1), of v] v(1) arr(2) by (simp add: requests_Cons map_error_def)
  ultimately show ?thesis using virt_map_unfold [OF call, of v 1 flags] by (simp del: virt_map_check.simps virt_map_loop.simps)
qed

theorem virt_map_stops_kernel_witness:
  "\<exists>st. call_ok st 1 32 0x400000 \<and> syscall_virt_map 1 0x8000 0x400000 1 0 st = Inl Panic"
proof (rule demo_call)
  fix st
  assume st: "call_ok st 1 32 0x400000" "space_of st 32 = km st" "mem_inv (km st) [0x4000]"
    "user_physical_map (km st) = [\<lparr>pm_addr = 0x8000, pm_len = 0x1000\<rparr>]"
    "array_words (km st) {0x4000} 0x400000 [0x8000]" "entry_present (pde (km st) 0)"
    "get_flags (pde (km st) 0) AND PAGE_USER_MODE = 0" "\<not> entry_present (page_at (km st) 0x8000)"
  have "user_frame_valid (km st) 0x8000" by (simp add: user_frame_valid_def st(4) Let_def)
  moreover have "get_pd_index 0x8000 = 0" by (simp add: get_pd_index_def)
  ultimately show ?thesis
    using virt_map_stops_kernel [OF st(1), of "{0x4000}" "0x8000" "0x8000"] st mem_paging [OF st(3)] by auto
qed

end
