(* ===== verification/ProcTable.thy ===== *)
theory ProcTable
  imports Processes ProcProps AddressSpaces
begin

section \<open>The processes of the system\<close>

text \<open>
  Pool, process table, page directories and kernel memory together: what holds between the
  system calls that create and delete processes.
\<close>

unbundle bit_operations_syntax

subsection \<open>The invariant\<close>

text \<open>
  The objects of \<open>objs\<close> are in use, those of \<open>fs\<close> free, and the table maps identifiers (with no
  thread part) to the tree nodes of exactly the objects in use. Each process has a page directory of its own; but
  for the current one, it is a frame that is neither free nor referred to. The sentinel of the
  tree is not in a page of the kernel heap.
\<close>

definition proc_inv :: "kstate \<Rightarrow> u32 list \<Rightarrow> u32 set \<Rightarrow> (u32 \<Rightarrow> u32 option) \<Rightarrow> u32 list \<Rightarrow> bool" where
  "proc_inv st gs objs M fs \<longleftrightarrow> kernel_mem (km st) gs \<and> current_page_dir (km st) = cr3 (km st) \<and>
     pool_inv (km st) (page_dir_paddr st) (process_pool st) objs fs \<and>
     (\<exists>T. rbtree (rbnodes st) (process_tree st) T \<and> entries T = M \<and> nodes T = rb_node ` objs) \<and>
     dom M \<subseteq> range pid_of \<and> inj_on (page_dir_paddr st) objs \<and>
     (\<forall>p \<in> objs. page_dir_paddr st p \<noteq> cr3 (km st) \<longrightarrow> frame_aligned (page_dir_paddr st p) \<and> page_dir_paddr st p \<noteq> 0 \<and>
        unreferenced (km st) (page_dir_paddr st p) \<and> page_dir_paddr st p \<notin> get_paddr ` set gs) \<and>
     (\<forall>k < unat (page_count (kernel_heap (km st))).
        drop_bit 12 (nil (process_tree st) - 8) \<noteq> drop_bit 12 (page_addr (kernel_heap (km st)) k))"

lemma flist_nonzero: "flist m a fs \<Longrightarrow> f \<in> set fs \<Longrightarrow> get_paddr f \<noteq> 0"
  by (induction fs arbitrary: a) auto

lemma rb_node_inj [simp]: "rb_node p = rb_node q \<longleftrightarrow> p = q"
  by (simp add: rb_node_def)

lemma rb_node_inverse [simp]: "rb_node_process (rb_node p) = p"
  by (simp add: rb_node_def rb_node_process_def)

lemma in_kernel_page_index:
  assumes "in_kernel_page s p"
  obtains k where "k < unat (page_count (kernel_heap s))" "drop_bit 12 p = drop_bit 12 (page_addr (kernel_heap s) k)"
proof -
  from assms obtain k where "is_alloc (kernel_heap s) k 1" "drop_bit 12 p = drop_bit 12 (page_addr (kernel_heap s) k)"
    by (auto simp: in_kernel_page_def)
  then show ?thesis using is_alloc_fits [of "kernel_heap s" k 1] by (intro that) auto
qed

text \<open>The tree node of an object is neither null nor the sentinel.\<close>

lemma rb_node_proper:
  assumes p: "in_kernel_page s p" and mem: "kernel_mem s gs"
    and nil: "\<forall>k < unat (page_count (kernel_heap s)). drop_bit 12 (n - 8) \<noteq> drop_bit 12 (page_addr (kernel_heap s) k)"
  shows "rb_node p \<noteq> 0" "rb_node p \<noteq> n"
proof -
  obtain k where k: "k < unat (page_count (kernel_heap s))" "drop_bit 12 p = drop_bit 12 (page_addr (kernel_heap s) k)"
    by (rule in_kernel_page_index [OF p])
  have "plain_page s (page_addr (kernel_heap s) k)" using mem k(1) by (simp add: kernel_mem_def heap_backed_def)
  then have "get_pd_index p \<noteq> 1023" using k(2) by (auto simp: plain_page_def page_at_indices)
  moreover have "p = - 8" if "rb_node p = 0" using that by (simp add: rb_node_def eq_neg_iff_add_eq_0)
  moreover have "get_pd_index (- 8) = 1023" by (simp add: get_pd_index_def)
  ultimately show "rb_node p \<noteq> 0" by metis
  have "p = n - 8" if "rb_node p = n" using that by (simp add: rb_node_def algebra_simps)
  then show "rb_node p \<noteq> n" using nil k by metis
qed

lemma pool_inv_keep:
  assumes "pool_inv s m pool objs fs" "allocs (kernel_heap t) = allocs (kernel_heap s)"
    "heap_start (kernel_heap t) = heap_start (kernel_heap s)" "page_count (kernel_heap t) = page_count (kernel_heap s)" "p \<in> objs"
  shows "pool_inv t (m(p := d)) pool objs fs"
proof -
  have "in_kernel_page t q \<longleftrightarrow> in_kernel_page s q" for q
    using assms(2,3) unfolding in_kernel_page_def by (simp add: page_addr_def del: in_allocs)
  moreover have "p \<notin> set fs" using assms(1,5) by (auto simp: pool_inv_def)
  ultimately show ?thesis
    using assms(1,3,4) by (simp add: pool_inv_def chain_update_other page_addr_def)
qed

lemma next_free_aid_cases:
  assumes "rbtree (rbnodes st) (process_tree st) T" "entries T = M"
  shows "case next_free_aid st of
      Inl e \<Rightarrow> e = Panic \<and> (\<forall>a. M (pid_of a) \<noteq> None)
    | Inr (pid, st') \<Rightarrow> \<exists>a n. pid = pid_of a \<and> M pid = None \<and> st' = st\<lparr>aid_counter := n\<rparr>"
  using next_free_aid_loop_ok [OF assms(1), of 0 65536] assms(2)
  by (auto simp: next_free_aid_def split: sum.splits)

lemma pid_of_aid [simp]: "ucast (drop_bit 16 (pid_of a)) = a"
  by (rule bit_word_eqI) (auto simp: pid_of_def bit_simps)

lemma get_process_table:
  assumes "rbtree (rbnodes st) (process_tree st) T" "entries T (pid_of a) = Some (rb_node p)" "rb_node p \<noteq> 0"
  shows "get_process st a = Inr p"
  using find_ok [OF assms(1), of "pid_of a"] assms(2,3) by (simp add: get_process_def pid_of_def)

subsection \<open>Registering a process\<close>

text \<open>Entering an object into the table, after it was created and has its directory.\<close>

lemma insert_process_ok:
  assumes T: "rbtree (rbnodes st) (process_tree st) T" "nodes T = rb_node ` objs" "entries T (pid_of a) = None"
    and p: "p \<notin> objs" "rb_node p \<noteq> 0" "rb_node p \<noteq> nil (process_tree st)"
  obtains m t T' where "insert_process st p (pid_of a) = Inr (st\<lparr>rbnodes := m, process_tree := t\<rparr>)" "rbtree m t T'"
    "nil t = nil (process_tree st)" "entries T' = (entries T)(pid_of a \<mapsto> rb_node p)" "nodes T' = rb_node ` insert p objs"
    "get_process (st\<lparr>rbnodes := m, process_tree := t\<rparr>) a = Inr p"
proof -
  have "rb_node p \<notin> nodes T" using T(2) p(1) by auto
  from insert_ok [OF T(1) this p(3,2), of "pid_of a"] T(3) obtain m t T' where
    r: "rb_insert (rbnodes st) (process_tree st) (rb_node p) (pid_of a) = Inr (True, m, t)" "rbtree m t T'"
      "nil t = nil (process_tree st)" "entries T' = (entries T)(pid_of a \<mapsto> rb_node p)" "nodes T' = insert (rb_node p) (nodes T)"
    by auto
  have "get_process (st\<lparr>rbnodes := m, process_tree := t\<rparr>) a = Inr p"
    by (rule get_process_table [where T = T']) (use r p(2) in simp_all)
  then show ?thesis using r T(2) by (intro that) (simp_all add: insert_process_def)
qed

text \<open>The invariant with one more process.\<close>

lemma proc_inv_extend:
  assumes inv: "proc_inv st gs objs M fs" and mem: "kernel_mem (km st') hs" "set hs \<subseteq> set gs"
      "cr3 (km st') = cr3 (km st)" "current_page_dir (km st') = cr3 (km st')"
      "\<forall>f. unreferenced (km st) f \<longrightarrow> f \<notin> get_paddr ` set gs \<longrightarrow> unreferenced (km st') f"
      "heap_start (kernel_heap (km st')) = heap_start (kernel_heap (km st))"
      "page_count (kernel_heap (km st')) = page_count (kernel_heap (km st))"
    and pool: "pool_inv (km st') (page_dir_paddr st') (process_pool st') (insert p objs) fs'"
    and tree: "rbtree (rbnodes st') (process_tree st') T'" "entries T' = M'" "nodes T' = rb_node ` insert p objs"
      "nil (process_tree st') = nil (process_tree st)" "dom M' \<subseteq> range pid_of"
    and dirs: "p \<notin> objs" "\<forall>q \<in> objs. page_dir_paddr st' q = page_dir_paddr st q" "fresh_dir (km st') (page_dir_paddr st' p)"
      "unreferenced (km st') (page_dir_paddr st' p)" "page_dir_paddr st' p \<in> get_paddr ` set gs"
      "page_dir_paddr st' p \<notin> get_paddr ` set hs"
  shows "proc_inv st' hs (insert p objs) M' fs'"
proof -
  let ?d = "page_dir_paddr st'"
  have old: "frame_aligned (?d q) \<and> ?d q \<noteq> 0 \<and> unreferenced (km st) (?d q) \<and> ?d q \<notin> get_paddr ` set gs"
    if "q \<in> objs" "?d q \<noteq> cr3 (km st)" for q
    using inv that dirs(2) by (auto simp: proc_inv_def)
  have p: "?d p \<noteq> cr3 (km st')" "frame_aligned (?d p)" using dirs(3) mem(4) by (auto simp: fresh_dir_def)
  have "flist (pmem (km st)) (free_frame_paddr (km st)) gs" using inv by (simp add: proc_inv_def kernel_mem_def mem_flist)
  then have "get_paddr f \<noteq> 0" if "f \<in> set gs" for f using flist_nonzero that by blast
  then have z: "?d p \<noteq> 0" using dirs(5) by auto
  have "?d p \<noteq> ?d q" if "q \<in> objs" for q using old [OF that] p(1) dirs(5) mem(3) by auto
  moreover have "inj_on ?d objs" using inv dirs(2) by (simp add: proc_inv_def cong: inj_on_cong)
  ultimately have "inj_on ?d (insert p objs)" using dirs(1) by (auto simp: inj_on_insert)
  moreover have "?d q \<notin> get_paddr ` set hs" if "q \<in> objs" "?d q \<noteq> cr3 (km st)" for q
    using old [OF that] mem(2) by blast
  ultimately show ?thesis
    using mem(1,3-7) pool tree old p z dirs(4,6) inv unfolding proc_inv_def page_addr_def by auto
qed

lemma no_first_fit:
  assumes "\<forall>k. first_fit h 1 k \<longrightarrow> entry_present (page_at s (page_addr h k))" "free_unmapped s h" "k < unat (page_count h)"
  shows "page_use h k \<noteq> 0"
proof
  assume "page_use h k = 0"
  let ?P = "\<lambda>k. k + 1 \<le> unat (page_count h) \<and> free_run h k 1"
  assume "page_use h k = 0"
  then have "?P k" using assms(3) by (simp add: free_run_def)
  then have l: "?P (Least ?P)" by (rule LeastI)
  moreover have "\<not> free_run h t 1" if "t < Least ?P" for t
    using not_less_Least [OF that] l that by linarith
  ultimately have ff: "first_fit h 1 (Least ?P)" unfolding first_fit_def by blast
  then show False using assms(1) first_fit_unmapped [OF assms(2) ff, of 0] by simp
qed

lemma register_process_ok:
  assumes inv: "proc_inv st gs objs M fs" and room: "4 \<le> length gs"
  shows "case syscall_register_process st of
      Inl e \<Rightarrow> e = Panic \<and> ((\<forall>a. M (pid_of a) \<noteq> None) \<or>
        \<not> free_unmapped (km st) (kernel_heap (km st)) \<or>
        (\<exists>j. \<forall>k < unat (page_count (kernel_heap (km st))). k \<noteq> j \<longrightarrow> page_use (kernel_heap (km st)) k \<noteq> 0))
    | Inr (r, st') \<Rightarrow> \<exists>a p hs fs'. r = Some \<lparr>ret = pid_of a, err = 0\<rparr> \<and> p \<notin> objs \<and> M (pid_of a) = None \<and>
        proc_inv st' hs (insert p objs) (M(pid_of a \<mapsto> rb_node p)) fs' \<and> length gs \<le> length hs + 4 \<and>
        get_process st' a = Inr p \<and> page_dir_paddr st' p \<in> get_paddr ` set gs \<and> fresh_dir (km st') (page_dir_paddr st' p) \<and>
        (\<forall>q \<in> objs. page_dir_paddr st' q = page_dir_paddr st q) \<and>
        current st' = current st \<and> run_queue st' = run_queue st \<and> qnodes st' = qnodes st \<and> cr3 (km st') = cr3 (km st)"
proof -
  have mem: "kernel_mem (km st) gs" "2 \<le> length gs" and pool: "pool_inv (km st) (page_dir_paddr st) (process_pool st) objs fs"
    using inv room by (simp_all add: proc_inv_def)
  obtain T where T: "rbtree (rbnodes st) (process_tree st) T" "entries T = M" "nodes T = rb_node ` objs"
    using inv by (auto simp: proc_inv_def)
  show ?thesis
  proof (cases "pool_create (km st) (page_dir_paddr st) (process_pool st)")
    case (Inl e)
    with pool_create_cases [OF mem pool] have "e = Panic"
      "\<forall>k. first_fit (kernel_heap (km st)) 1 k \<longrightarrow> entry_present (page_at (km st) (page_addr (kernel_heap (km st)) k))"
      by (simp_all only: sum.case) blast+
    with Inl no_first_fit [OF this(2)] show ?thesis
      by (auto simp: syscall_register_process_def create_process_def)
  next
    case (Inr y)
    obtain p s1 m1 pool1 where y: "y = (p, s1, m1, pool1)" by (cases y)
    note c = pool_create_ok [OF mem pool Inr [unfolded y]]
    obtain g1 fs1 where c1: "kernel_mem s1 g1" "set g1 \<subseteq> set gs" "grown (km st) s1 gs g1" "pool_inv s1 m1 pool1 (insert p objs) fs1"
      using c by auto
    let ?st1 = "st\<lparr>km := s1, page_dir_paddr := m1, process_pool := pool1\<rparr>"
    have same: "fs \<noteq> [] \<longrightarrow> s1 = km st" "\<forall>q \<in> objs. m1 q = page_dir_paddr st q" "p \<notin> objs"
      "heap_start (kernel_heap s1) = heap_start (kernel_heap (km st))"
      "page_count (kernel_heap s1) = page_count (kernel_heap (km st))"
      "\<exists>j. \<forall>k \<le> unat (page_count (kernel_heap (km st))). k \<noteq> j \<longrightarrow> page_use (kernel_heap s1) k = page_use (kernel_heap (km st)) k"
      "free_unmapped (km st) (kernel_heap (km st)) \<longrightarrow> free_unmapped s1 (kernel_heap s1)"
      using c by auto
    have create: "create_process st = Inr (p, ?st1)" by (simp add: create_process_def Inr y)
    have room1: "2 \<le> length g1" and sync1: "current_page_dir s1 = cr3 s1"
      using c1(3) room inv by (simp_all add: grown_def proc_inv_def)
    have T1: "rbtree (rbnodes ?st1) (process_tree ?st1) T" using T(1) by simp
    show ?thesis
    proof (cases "next_free_aid ?st1")
      case (Inl e)
      with next_free_aid_cases [OF T1 T(2)] create show ?thesis
        by (simp add: syscall_register_process_def process_init_def)
    next
      case (Inr z)
      obtain a n where z: "z = (pid_of a, ?st1\<lparr>aid_counter := n\<rparr>)" "M (pid_of a) = None"
        using next_free_aid_cases [OF T1 T(2)] unfolding Inr by (cases z) auto
      note aid = Inr [unfolded z(1)]
      show ?thesis
      proof (cases "new_page_dir s1")
        case (Inl e)
        with new_page_dir_ok [OF c1(1) room1] have e: "e = Panic"
          "\<forall>k. first_fit (kernel_heap s1) 1 k \<longrightarrow> entry_present (page_at s1 (page_addr (kernel_heap s1) k))"
          by (simp_all only: sum.case) blast+
        have "\<not> free_unmapped s1 (kernel_heap s1) \<or> (\<forall>k < unat (page_count (kernel_heap s1)). page_use (kernel_heap s1) k \<noteq> 0)"
          using no_first_fit [OF e(2)] by blast
        with e(1) same(5-7) Inl create aid show ?thesis
          by (simp add: syscall_register_process_def process_init_def) (metis less_imp_le)
      next
        case (Inr w)
        obtain d t where w: "w = (d, t)" by (cases w)
        obtain hs where t: "kernel_mem t hs" "set hs \<subseteq> set g1" "d \<in> get_paddr ` set g1" "d \<notin> get_paddr ` set hs"
          "unreferenced t d" "allocs (kernel_heap t) = allocs (kernel_heap s1)"
          "heap_start (kernel_heap t) = heap_start (kernel_heap s1)"
          "page_count (kernel_heap t) = page_count (kernel_heap s1)" "grown s1 t g1 hs"
          "\<forall>k < 1024. rd32 (pmem t) (d + 4 * k) = dir_words t d k"
          using new_page_dir_ok [OF c1(1) room1] unfolding Inr w by auto
        let ?st3 = "?st1\<lparr>aid_counter := n, km := t, page_dir_paddr := m1(p := d), blocked := (blocked st)(p := False)\<rparr>"
        have "in_kernel_page s1 p" using c1(4) by (simp add: pool_inv_def)
        from rb_node_proper [OF this c1(1), of "nil (process_tree st)"] inv same(4,5)
        have node: "rb_node p \<noteq> 0" "rb_node p \<noteq> nil (process_tree st)" by (simp_all add: proc_inv_def page_addr_def)
        obtain m u T' where ins: "insert_process ?st3 p (pid_of a) = Inr (?st3\<lparr>rbnodes := m, process_tree := u\<rparr>)" "rbtree m u T'"
          "nil u = nil (process_tree st)" "entries T' = M(pid_of a \<mapsto> rb_node p)" "nodes T' = rb_node ` insert p objs"
          "get_process (?st3\<lparr>rbnodes := m, process_tree := u\<rparr>) a = Inr p"
          by (rule insert_process_ok [of ?st3 T objs a p]) (use T z(2) same(3) node in auto)
        let ?st' = "?st3\<lparr>rbnodes := m, process_tree := u\<rparr>"
        have fr: "fresh_dir t d" by (rule fresh_dirI(1) [OF t(1,5,3) _ t(10)]) (use t(9) sync1 in \<open>simp add: grown_def\<close>)
        have "proc_inv ?st' hs (insert p objs) (M(pid_of a \<mapsto> rb_node p)) fs1"
        proof (rule proc_inv_extend [OF inv])
          show "kernel_mem (km ?st') hs" "set hs \<subseteq> set gs" "cr3 (km ?st') = cr3 (km st)" "current_page_dir (km ?st') = cr3 (km ?st')"
            using t(1,2,9) c1(2,3) sync1 by (auto simp: grown_def)
          have "f \<notin> get_paddr ` set g1" if "f \<notin> get_paddr ` set gs" for f using that c1(2) by blast
          then show "\<forall>f. unreferenced (km st) f \<longrightarrow> f \<notin> get_paddr ` set gs \<longrightarrow> unreferenced (km ?st') f"
            using t(9) c1(3) by (simp add: grown_def)
          show "pool_inv (km ?st') (page_dir_paddr ?st') (process_pool ?st') (insert p objs) fs1"
            using pool_inv_keep [OF c1(4) t(6-8), of p d] by simp
          show "page_dir_paddr ?st' p \<in> get_paddr ` set gs" using t(3) c1(2) by auto
          show "dom (M(pid_of a \<mapsto> rb_node p)) \<subseteq> range pid_of" using inv by (auto simp: proc_inv_def)
          show "\<forall>q \<in> objs. page_dir_paddr ?st' q = page_dir_paddr st q" using same(2,3) by auto
        qed (use t(4,5,7,8) fr same(3-5) ins in simp_all)
        moreover have "syscall_register_process st = Inr (Some \<lparr>ret = pid_of a, err = 0\<rparr>, ?st')"
          using create aid Inr w ins(1) by (simp add: syscall_register_process_def process_init_def SYSCALL_RETURN_def)
        moreover have "length gs \<le> length hs + 4" "cr3 (km ?st') = cr3 (km st)"
          using t(9) c1(3) by (simp_all add: grown_def)
        moreover have "d \<in> get_paddr ` set gs" using t(3) c1(2) by auto
        moreover have "\<forall>q \<in> objs. page_dir_paddr ?st' q = page_dir_paddr st q" using same(2,3) by auto
        ultimately show ?thesis
          using z(2) same(3) ins(6) fr
          by (simp only: sum.case prod.case) (intro exI [of _ a] exI [of _ p] exI [of _ hs] exI [of _ fs1], simp)
      qed
    qed
  qed
qed

text \<open>
  C23: Registering a process. With an identifier and two pages of the kernel heap free (and
  none of its free pages mapped), the call
  gives an object that is not in use a page directory of its own, whose kernel half is that of
  the current one, and enters it under the identifier it returns: the processes and their
  identifiers are the ones before and the new one, \<open>get_process\<close> finds it, and pool, table,
  directories and kernel memory stay consistent. It is not put into the run queue, and the
  processes before it keep their directories.
\<close>

theorem register_process_correct:
  assumes inv: "proc_inv st gs objs M fs" and room: "4 \<le> length gs"
  shows "case syscall_register_process st of
      Inl e \<Rightarrow> e = Panic \<and> ((\<forall>a. M (pid_of a) \<noteq> None) \<or>
        \<not> free_unmapped (km st) (kernel_heap (km st)) \<or>
        (\<exists>j. \<forall>k < unat (page_count (kernel_heap (km st))). k \<noteq> j \<longrightarrow> page_use (kernel_heap (km st)) k \<noteq> 0))
    | Inr (r, st') \<Rightarrow> \<exists>a p hs fs'. r = Some \<lparr>ret = pid_of a, err = 0\<rparr> \<and> p \<notin> objs \<and> M (pid_of a) = None \<and>
        proc_inv st' hs (insert p objs) (M(pid_of a \<mapsto> rb_node p)) fs' \<and> length gs \<le> length hs + 4 \<and>
        get_process st' a = Inr p \<and> page_dir_paddr st' p \<in> get_paddr ` set gs \<and> fresh_dir (km st') (page_dir_paddr st' p) \<and>
        (\<forall>q \<in> objs. page_dir_paddr st' q = page_dir_paddr st q) \<and>
        current st' = current st \<and> run_queue st' = run_queue st \<and> qnodes st' = qnodes st \<and> cr3 (km st') = cr3 (km st)"
  by (rule register_process_ok [OF inv room])

text \<open>An example: no process yet, an empty pool, six free pages and six free frames.\<close>

lemma no_process:
  obtains st gs where "proc_inv st gs {} Map.empty []" "4 \<le> length gs" "kernel_heap (km st) = edge_heap"
    "free_unmapped (km st) edge_heap"
proof (rule edge_mem)
  fix s
  assume s: "kernel_mem s [0x9000, 0x8000, 0x7000, 0x6000, 0x3000, 0x4000]" "kernel_heap s = edge_heap" "current_page_dir s = cr3 s"
    "free_unmapped s edge_heap"
  obtain t0 :: RbTree where t0: "nil t0 = 8" using that [of "undefined\<lparr>nil := 8\<rparr>"] by simp
  obtain m t where "rb_init (\<lambda>_. undefined) t0 = (m, t)" by fastforce
  with init_ok [OF this] t0 have t: "rbtree m t Lf" "nil t = 8" by simp_all
  obtain st :: kstate where st: "km st = s" "process_pool st = \<lparr>free_list = 0\<rparr>" "rbnodes st = m" "process_tree st = t"
    by (rule that [of "undefined\<lparr>km := s, process_pool := \<lparr>free_list = 0\<rparr>, rbnodes := m, process_tree := t\<rparr>"]) simp_all
  have "drop_bit 12 (page_addr edge_heap k) \<noteq> 0" if "k < 6" for k
  proof -
    have "unat (page_addr edge_heap k) = 0xC07FF000 + 4096 * k"
      using that by (simp add: page_addr_page_no page_no_unat edge_heap_def)
    then have "drop_bit 12 (page_addr edge_heap k) \<noteq> drop_bit 12 (0 :: u32)" unfolding drop_bit_12_eq by simp
    then show ?thesis by simp
  qed
  then have "\<forall>k < 6. drop_bit 12 (page_addr edge_heap k) \<noteq> 0 \<and> 0 \<noteq> drop_bit 12 (page_addr edge_heap k)" by metis
  moreover have "unat (page_count edge_heap) = 6" by (simp add: edge_heap_def heap_empty_def)
  ultimately have "proc_inv st [0x9000, 0x8000, 0x7000, 0x6000, 0x3000, 0x4000] {} Map.empty []"
    using s t by (auto simp: proc_inv_def st pool_inv_def entries_def nodes_def intro!: exI [of _ Lf])
  moreover have "kernel_heap (km st) = edge_heap" by (simp add: st(1) s(2))
  moreover have "4 \<le> length [0x9000, 0x8000, 0x7000, 0x6000, 0x3000, 0x4000 :: u32]" by simp
  moreover have "free_unmapped (km st) edge_heap" by (simp add: st(1) s(4))
  ultimately show ?thesis by (intro that [where st = st])
qed

lemma two_pages:
  "\<not> (\<exists>j. \<forall>k < unat (page_count edge_heap). k \<noteq> j \<longrightarrow> page_use edge_heap k \<noteq> 0)"
proof -
  have "page_use edge_heap k = 0" for k
    by (simp add: page_use_def heap_get_usage_def heap_empty_def edge_heap_def Let_def)
  moreover have "unat (page_count edge_heap) = 6" by (simp add: edge_heap_def heap_empty_def)
  ultimately show ?thesis by (metis less_numeral_extra(1) one_less_numeral_iff semiring_norm(76) zero_less_numeral zero_neq_one)
qed

theorem register_process_correct_witness:
  "\<exists>st gs a p st'. proc_inv st gs {} Map.empty [] \<and> 4 \<le> length gs \<and>
     syscall_register_process st = Inr (Some \<lparr>ret = pid_of a, err = 0\<rparr>, st') \<and> get_process st' a = Inr p"
proof (rule no_process)
  fix st gs
  assume s: "proc_inv st gs {} Map.empty []" "4 \<le> length gs" "kernel_heap (km st) = edge_heap"
    "free_unmapped (km st) edge_heap"
  with register_process_correct [OF s(1,2)] two_pages show ?thesis
    by (cases "syscall_register_process st") fastforce+
qed

lemma one_process:
  obtains st hs a p fs where "proc_inv st hs {p} [pid_of a \<mapsto> rb_node p] fs" "page_dir_paddr st p \<noteq> cr3 (km st)"
proof (rule no_process)
  fix st gs
  assume s: "proc_inv st gs {} Map.empty []" "4 \<le> length gs" "kernel_heap (km st) = edge_heap"
    "free_unmapped (km st) edge_heap"
  with register_process_ok [OF s(1,2)] two_pages obtain r st' a p hs fs where
    t: "proc_inv st' hs {p} [pid_of a \<mapsto> rb_node p] fs" "fresh_dir (km st') (page_dir_paddr st' p)"
    by (cases "syscall_register_process st") fastforce+
  then have "page_dir_paddr st' p \<noteq> cr3 (km st')" by (auto simp: proc_inv_def fresh_dir_def)
  then show ?thesis by (rule that [OF t(1)])
qed

subsection \<open>Deleting a process\<close>

text \<open>Kernel memory with one more free frame.\<close>

lemma give_frame_kernel:
  assumes mem: "kernel_mem s gs" and f: "frame_aligned f" "f \<noteq> 0" "unreferenced s f" "f \<notin> get_paddr ` set gs"
  obtains t where "free_frame s f = Inr t" "kernel_mem t (f # gs)" "kernel_heap t = kernel_heap s" "cr3 t = cr3 s"
    "current_page_dir t = current_page_dir s" "\<And>g. unreferenced s g \<Longrightarrow> g \<noteq> f \<Longrightarrow> unreferenced t g"
proof -
  have inv: "mem_inv s gs" and hb: "heap_backed s (kernel_heap s) PAGE_WRITABLE" using mem by (simp_all add: kernel_mem_def)
  have al: "get_paddr f = f" using f(1) by simp
  let ?t = "give_frame s f"
  note step = give_frame_step [OF inv, of f, unfolded al, OF f(3)]
  note conf = same_configD [OF mem_step_config [OF step(1)]]
  have pl: "plain_page ?t w \<longleftrightarrow> plain_page s w" for w by (simp add: plain_page_def conf(4))
  have at: "page_at ?t w = page_at s w" if "plain_page s w" for w using step(2) that by (simp add: plain_page_def)
  have tab: "\<not> table_frame ?t g" if "\<not> table_frame s g" "g \<noteq> f" for g using mem_step_table [OF step(1), of g] that by auto
  have "sole_frame ?t w" if w: "plain_page s w" "sole_frame s w" for w
  proof -
    have "get_paddr (page_at s w) \<noteq> f" using f(3) w by (auto simp: unreferenced_pages sole_frame_def)
    then show ?thesis using w(2) at [OF w(1)] at tab pl unfolding sole_frame_def by metis
  qed
  then have "heap_backed ?t (kernel_heap s) PAGE_WRITABLE"
    using hb by (auto simp: heap_backed_def pl at user_ok_def step(3))
  moreover have "mem_inv ?t (f # gs)" by (rule give_frame_inv [OF inv]) (use f al in simp_all)
  moreover have "unreferenced ?t g" if "unreferenced s g" "g \<noteq> f" for g
    using that tab pl at unfolding unreferenced_pages by metis
  ultimately show ?thesis
    using free_frame_give [OF mem_paging [OF inv] mem_window [OF inv], of f]
    by (intro that [of ?t]) (simp_all add: kernel_mem_def conf)
qed

text \<open>What deleting leaves of a process found in the table; \<open>k\<close> is the key that is removed.\<close>

lemma delete_found:
  assumes inv: "proc_inv st gs objs M fs" and p: "M (pid_of a) = Some (rb_node p)" "page_dir_paddr st p \<noteq> cr3 (km st)"
    and aid: "get_pid_aid pid = a"
  obtains t m u T' ws pool where
    "syscall_delete_process pid st = Inr (Some \<lparr>ret = 0, err = PID_NOT_FOUND\<rparr>,
       st\<lparr>km := t, rbnodes := m, process_tree := u, page_dir_paddr := ws, process_pool := pool\<rparr>)"
    "kernel_mem t (page_dir_paddr st p # gs)" "kernel_heap t = kernel_heap (km st)" "cr3 t = cr3 (km st)"
    "current_page_dir t = current_page_dir (km st)"
    "\<And>g. unreferenced (km st) g \<Longrightarrow> g \<noteq> page_dir_paddr st p \<Longrightarrow> unreferenced t g"
    "rbtree m u T'" "nil u = nil (process_tree st)" "entries T' = M(pid := None)"
    "nodes T' = rb_node ` objs - (case M pid of None \<Rightarrow> {} | Some n \<Rightarrow> {n})"
    "pool_inv t ws pool (objs - {p}) (p # fs)" "\<forall>q. q \<noteq> p \<longrightarrow> ws q = page_dir_paddr st q" "p \<in> objs" "rb_node p \<noteq> 0"
proof -
  have mem: "kernel_mem (km st) gs" and pool: "pool_inv (km st) (page_dir_paddr st) (process_pool st) objs fs"
    using inv by (simp_all add: proc_inv_def)
  obtain T where T: "rbtree (rbnodes st) (process_tree st) T" "entries T = M" "nodes T = rb_node ` objs"
    using inv by (auto simp: proc_inv_def)
  have "rb_node p \<in> rb_node ` objs" using entries_address [of T] T(2,3) p(1) by metis
  then have po: "p \<in> objs" by auto
  then have "in_kernel_page (km st) p" using pool by (simp add: pool_inv_def)
  from rb_node_proper(1) [OF this mem, of "nil (process_tree st)"] inv have nz: "rb_node p \<noteq> 0" by (simp add: proc_inv_def)
  have "p \<noteq> 0" using pool po by (auto simp: pool_inv_def)
  have get: "get_process st a = Inr p" by (rule get_process_table [OF T(1)]) (use T(2) p(1) nz in simp_all)
  have d: "frame_aligned (page_dir_paddr st p)" "page_dir_paddr st p \<noteq> 0" "unreferenced (km st) (page_dir_paddr st p)"
    "page_dir_paddr st p \<notin> get_paddr ` set gs"
    using inv po p(2) by (simp_all add: proc_inv_def)
  obtain t where t: "free_frame (km st) (page_dir_paddr st p) = Inr t" "kernel_mem t (page_dir_paddr st p # gs)"
    "kernel_heap t = kernel_heap (km st)" "cr3 t = cr3 (km st)" "current_page_dir t = current_page_dir (km st)"
    "\<And>g. unreferenced (km st) g \<Longrightarrow> g \<noteq> page_dir_paddr st p \<Longrightarrow> unreferenced t g"
    using give_frame_kernel [OF mem d] by blast
  obtain b m u T' where r: "rb_remove (rbnodes st) (process_tree st) pid = Inr (b, m, u)" "rbtree m u T'"
    "nil u = nil (process_tree st)" "entries T' = M(pid := None)"
    "nodes T' = rb_node ` objs - (case M pid of None \<Rightarrow> {} | Some n \<Rightarrow> {n})"
    using remove_ok [OF T(1), of pid] T by (cases "M pid") (auto simp: fun_upd_idem)
  obtain ws pl where ds: "pool_destroy (page_dir_paddr st) (process_pool st) p = (ws, pl)" by fastforce
  note pd = pool_destroy_ok [OF pool po ds]
  have "pool_inv (km st) ws pl (objs - {p}) (p # fs)" using pd by blast
  then have "pool_inv t ws pl (objs - {p}) (p # fs)" unfolding pool_inv_def in_kernel_page_def t(3) .
  moreover have "syscall_delete_process pid st = Inr (Some \<lparr>ret = 0, err = PID_NOT_FOUND\<rparr>,
       st\<lparr>km := t, rbnodes := m, process_tree := u, page_dir_paddr := ws, process_pool := pl\<rparr>)"
    using get t(1) r(1) ds \<open>p \<noteq> 0\<close> aid by (simp add: syscall_delete_process_def Let_def SYSCALL_RETURN_def)
  ultimately show ?thesis
    using pd by (intro that [OF _ t(2-6) r(2-5) _ _ po nz]) blast+
qed

lemma get_pid_aid_of [simp]: "get_pid_aid (pid_of a) = a"
  by (simp add: get_pid_aid_def)

lemma get_process_none:
  assumes "proc_inv st gs objs M fs" "M (pid_of a) = None"
  shows "get_process st a = Inr 0"
proof -
  obtain T where T: "rbtree (rbnodes st) (process_tree st) T" "entries T = M" using assms(1) by (auto simp: proc_inv_def)
  show ?thesis using find_ok [OF T(1), of "pid_of a"] T(2) assms(2) by (simp add: get_process_def pid_of_def)
qed

text \<open>The invariant with one process less.\<close>

lemma proc_inv_remove:
  assumes inv: "proc_inv st gs objs M fs" and p: "p \<in> objs" "page_dir_paddr st p \<noteq> cr3 (km st)"
    and mem: "kernel_mem (km st') (page_dir_paddr st p # gs)" "kernel_heap (km st') = kernel_heap (km st)"
      "cr3 (km st') = cr3 (km st)" "current_page_dir (km st') = current_page_dir (km st)"
      "\<And>g. unreferenced (km st) g \<Longrightarrow> g \<noteq> page_dir_paddr st p \<Longrightarrow> unreferenced (km st') g"
    and tree: "rbtree (rbnodes st') (process_tree st') T'" "nil (process_tree st') = nil (process_tree st)"
      "entries T' = M(k := None)" "nodes T' = rb_node ` (objs - {p})"
    and pool: "pool_inv (km st') (page_dir_paddr st') (process_pool st') (objs - {p}) fs'"
      "\<forall>q. q \<noteq> p \<longrightarrow> page_dir_paddr st' q = page_dir_paddr st q"
  shows "proc_inv st' (page_dir_paddr st p # gs) (objs - {p}) (M(k := None)) fs'"
proof -
  have inj: "inj_on (page_dir_paddr st) objs" using inv by (simp add: proc_inv_def)
  have al: "get_paddr (page_dir_paddr st p) = page_dir_paddr st p" using inv p by (simp add: proc_inv_def)
  have ne: "page_dir_paddr st q \<noteq> page_dir_paddr st p" if "q \<in> objs" "q \<noteq> p" for q
    using inj that p(1) by (auto dest: inj_onD)
  have "inj_on (page_dir_paddr st') (objs - {p})"
    using inj pool(2) by (auto simp: inj_on_def)
  moreover have "\<forall>q \<in> objs - {p}. page_dir_paddr st' q \<noteq> cr3 (km st') \<longrightarrow>
      frame_aligned (page_dir_paddr st' q) \<and> page_dir_paddr st' q \<noteq> 0 \<and> unreferenced (km st') (page_dir_paddr st' q) \<and>
      page_dir_paddr st' q \<notin> get_paddr ` set (page_dir_paddr st p # gs)"
    using inv pool(2) ne mem(3,5) al by (simp add: proc_inv_def)
  ultimately show ?thesis
    using inv mem tree pool(1) unfolding proc_inv_def by auto
qed

lemma delete_process_ok:
  assumes inv: "proc_inv st gs objs M fs" and p: "M (pid_of a) = Some (rb_node p)" "page_dir_paddr st p \<noteq> cr3 (km st)"
  shows "\<exists>st'. syscall_delete_process (pid_of a) st = Inr (Some \<lparr>ret = 0, err = PID_NOT_FOUND\<rparr>, st') \<and> p \<in> objs \<and>
      proc_inv st' (page_dir_paddr st p # gs) (objs - {p}) (M(pid_of a := None)) (p # fs) \<and> get_process st' a = Inr 0 \<and>
      (\<forall>q. q \<noteq> p \<longrightarrow> page_dir_paddr st' q = page_dir_paddr st q) \<and>
      current st' = current st \<and> run_queue st' = run_queue st \<and> qnodes st' = qnodes st \<and> cr3 (km st') = cr3 (km st)"
proof (rule delete_found [OF inv p, of "pid_of a"])
  fix t m u T' ws pool
  assume r: "syscall_delete_process (pid_of a) st = Inr (Some \<lparr>ret = 0, err = PID_NOT_FOUND\<rparr>,
       st\<lparr>km := t, rbnodes := m, process_tree := u, page_dir_paddr := ws, process_pool := pool\<rparr>)"
    and k: "kernel_mem t (page_dir_paddr st p # gs)" "kernel_heap t = kernel_heap (km st)" "cr3 t = cr3 (km st)"
    "current_page_dir t = current_page_dir (km st)"
    "\<And>g. unreferenced (km st) g \<Longrightarrow> g \<noteq> page_dir_paddr st p \<Longrightarrow> unreferenced t g"
    and tr: "rbtree m u T'" "nil u = nil (process_tree st)" "entries T' = M(pid_of a := None)"
    "nodes T' = rb_node ` objs - (case M (pid_of a) of None \<Rightarrow> {} | Some n \<Rightarrow> {n})"
    and pl: "pool_inv t ws pool (objs - {p}) (p # fs)" "\<forall>q. q \<noteq> p \<longrightarrow> ws q = page_dir_paddr st q" "p \<in> objs"
  let ?st' = "st\<lparr>km := t, rbnodes := m, process_tree := u, page_dir_paddr := ws, process_pool := pool\<rparr>"
  have nd: "nodes T' = rb_node ` (objs - {p})"
    using tr(4) image_set_diff [of rb_node objs "{p}"] by (simp add: p(1) inj_def)
  have i: "proc_inv ?st' (page_dir_paddr st p # gs) (objs - {p}) (M(pid_of a := None)) (p # fs)"
  proof (rule proc_inv_remove [OF inv pl(3) p(2), where T' = T'])
    show "unreferenced (km ?st') g" if "unreferenced (km st) g" "g \<noteq> page_dir_paddr st p" for g using k(5) [OF that] by simp
  qed (use k(1-4) tr(1-3) nd pl(1,2) in simp_all)
  show ?thesis using r k(3) pl(2,3) i get_process_none [OF i, of a] by (intro exI [of _ ?st']) simp
qed simp

text \<open>
  C24: Deleting a process by its identifier, when it does not run in the current page directory:
  its directory goes back to the free frames, its object to the pool and its entry out of the
  table, and pool, table, directories and kernel memory stay consistent for the processes that
  are left. The run queue stays as it is, also where the object is queued; and the call reports
  \<open>PID_NOT_FOUND\<close> both then and for an identifier that no process has.
\<close>

theorem delete_process_correct:
  assumes inv: "proc_inv st gs objs M fs"
    and other: "\<forall>p. M (pid_of a) = Some (rb_node p) \<longrightarrow> page_dir_paddr st p \<noteq> cr3 (km st)"
  shows "\<exists>st'. syscall_delete_process (pid_of a) st = Inr (Some \<lparr>ret = 0, err = PID_NOT_FOUND\<rparr>, st') \<and>
      get_process st' a = Inr 0 \<and> run_queue st' = run_queue st \<and> qnodes st' = qnodes st \<and>
      (case M (pid_of a) of
        None \<Rightarrow> st' = st
      | Some n \<Rightarrow> \<exists>p \<in> objs. n = rb_node p \<and>
          proc_inv st' (page_dir_paddr st p # gs) (objs - {p}) (M(pid_of a := None)) (p # fs) \<and>
          (\<forall>q. q \<noteq> p \<longrightarrow> page_dir_paddr st' q = page_dir_paddr st q))"
proof (cases "M (pid_of a)")
  case None
  have g: "get_process st a = Inr 0" by (rule get_process_none [OF inv None])
  then show ?thesis using None by (simp add: syscall_delete_process_def SYSCALL_RETURN_def)
next
  case (Some n)
  obtain T where "rbtree (rbnodes st) (process_tree st) T" "entries T = M" "nodes T = rb_node ` objs"
    using inv by (auto simp: proc_inv_def)
  then obtain p where n: "n = rb_node p" using entries_address [of T "pid_of a" n] Some by auto
  from delete_process_ok [OF inv Some [unfolded n]] other show ?thesis
    unfolding Some by (fastforce simp: n)
qed

theorem delete_process_correct_witness:
  "\<exists>st gs a p fs st'. proc_inv st gs {p} [pid_of a \<mapsto> rb_node p] fs \<and>
     syscall_delete_process (pid_of a) st = Inr (Some \<lparr>ret = 0, err = PID_NOT_FOUND\<rparr>, st') \<and>
     proc_inv st' (page_dir_paddr st p # gs) {} Map.empty (p # fs)"
proof (rule one_process)
  fix st gs a p fs
  assume s: "proc_inv st gs {p} [pid_of a \<mapsto> rb_node p] fs" "page_dir_paddr st p \<noteq> cr3 (km st)"
  then have "\<forall>q. [pid_of a \<mapsto> rb_node p] (pid_of a) = Some (rb_node q) \<longrightarrow> page_dir_paddr st q \<noteq> cr3 (km st)" by simp
  from delete_process_correct [OF s(1) this] obtain st' where
    "syscall_delete_process (pid_of a) st = Inr (Some \<lparr>ret = 0, err = PID_NOT_FOUND\<rparr>, st')"
    "proc_inv st' (page_dir_paddr st p # gs) {} Map.empty (p # fs)" by auto
  then show ?thesis using s(1) by blast
qed

text \<open>
  C25: The identifier of a process has a thread part, which \<open>get_process\<close> drops and the removal
  from the table does not. Deleting with a thread part other than 0 therefore frees the page
  directory and the object but leaves the entry: the process is still found after it was
  deleted, and the next process created is the same object, while its node is in the tree.
\<close>

theorem delete_process_thread_pid:
  assumes inv: "proc_inv st gs objs M fs" and p: "M (pid_of a) = Some (rb_node p)" "page_dir_paddr st p \<noteq> cr3 (km st)"
    and tid: "get_pid_aid pid = a" "get_pid_tid pid \<noteq> 0"
  shows "\<exists>st' st''. syscall_delete_process pid st = Inr (Some \<lparr>ret = 0, err = PID_NOT_FOUND\<rparr>, st') \<and>
      get_process st' a = Inr p \<and> kernel_mem (km st') (page_dir_paddr st p # gs) \<and>
      pool_inv (km st') (page_dir_paddr st') (process_pool st') (objs - {p}) (p # fs) \<and>
      create_process st' = Inr (p, st'')"
proof (rule delete_found [OF inv p tid(1)])
  fix t m u T' ws pool
  assume r: "syscall_delete_process pid st = Inr (Some \<lparr>ret = 0, err = PID_NOT_FOUND\<rparr>,
       st\<lparr>km := t, rbnodes := m, process_tree := u, page_dir_paddr := ws, process_pool := pool\<rparr>)"
    and k: "kernel_mem t (page_dir_paddr st p # gs)"
    and tr: "rbtree m u T'" "entries T' = M(pid := None)"
    and pl: "pool_inv t ws pool (objs - {p}) (p # fs)" "rb_node p \<noteq> 0"
  let ?st' = "st\<lparr>km := t, rbnodes := m, process_tree := u, page_dir_paddr := ws, process_pool := pool\<rparr>"
  have "get_pid_tid (pid_of b) = 0" for b
    by (simp add: get_pid_tid_def pid_of_def) (rule bit_word_eqI, auto simp: bit_simps)
  then have "pid \<noteq> pid_of a" using tid(2) by metis
  then have "get_process ?st' a = Inr p" by (intro get_process_table [where T = T']) (use tr p(1) pl(2) in simp_all)
  moreover have "create_process ?st' = Inr (p, ?st'\<lparr>process_pool := pool\<lparr>free_list := ws p\<rparr>\<rparr>)"
    using pool_create_free(1) [OF pl(1)] by (simp add: create_process_def)
  ultimately show ?thesis using r k pl(1) by auto
qed

theorem delete_process_thread_pid_witness:
  "\<exists>st gs a p fs st'. proc_inv st gs {p} [pid_of a \<mapsto> rb_node p] fs \<and>
     syscall_delete_process (pid_of a OR 1) st = Inr (Some \<lparr>ret = 0, err = PID_NOT_FOUND\<rparr>, st') \<and> get_process st' a = Inr p"
proof (rule one_process)
  fix st gs a p fs
  assume s: "proc_inv st gs {p} [pid_of a \<mapsto> rb_node p] fs" "page_dir_paddr st p \<noteq> cr3 (km st)"
  have "get_pid_aid (pid_of a OR 1) = a" unfolding get_pid_aid_def pid_of_def by (rule bit_word_eqI) (auto simp: bit_simps)
  moreover have "bit (get_pid_tid (pid_of a OR 1)) 0" by (simp add: get_pid_tid_def pid_of_def bit_simps)
  then have "get_pid_tid (pid_of a OR 1) \<noteq> 0" by auto
  ultimately show ?thesis
    using delete_process_thread_pid [OF s(1) _ s(2), of a "pid_of a OR 1"] s(1) by fastforce
qed

end
