(* ===== verification/ProcCalls.thy ===== *)
theory ProcCalls
  imports ProcTable
begin

section \<open>Sequences of process system calls\<close>

unbundle bit_operations_syntax

text \<open>
  Processes come and go by the system calls that register and delete them, and the kernel finds them by
  \<^verbatim>\<open>get_process\<close>. Over a sequence of these calls, pool, tree, page directories and kernel memory together behave like a set of
  identifiers.
\<close>

datatype proc_call = Register | Delete u32 | Lookup u16

text \<open>A step is a call that returns, with the word that it reports: the identifier of a new
  process, the error of a deletion, the address of the object that is found.\<close>

inductive proc_step :: "kstate \<Rightarrow> proc_call \<times> u32 \<Rightarrow> kstate \<Rightarrow> bool" where
  register: "syscall_register_process st = Inr (Some r, st') \<Longrightarrow> proc_step st (Register, ret r) st'"
| delete: "syscall_delete_process pid st = Inr (Some r, st') \<Longrightarrow> proc_step st (Delete pid, err r) st'"
| lookup: "get_process st a = Inr p \<Longrightarrow> proc_step st (Lookup a, p) st"

inductive_cases RegisterE: "proc_step st (Register, x) st'"
inductive_cases DeleteE: "proc_step st (Delete pid, x) st'"
inductive_cases LookupE: "proc_step st (Lookup a, x) st'"

inductive proc_calls :: "kstate \<Rightarrow> (proc_call \<times> u32) list \<Rightarrow> kstate \<Rightarrow> bool" where
  stop: "proc_calls st [] st"
| call: "proc_step st c st1 \<Longrightarrow> proc_calls st1 xs st' \<Longrightarrow> proc_calls st (c # xs) st'"

inductive_simps proc_calls_Nil: "proc_calls st [] st'"
inductive_simps proc_calls_Cons: "proc_calls st (c # xs) st'"

text \<open>The specification: the identifiers in use. A new one has no thread part and was not in use, and a lookup
  gives the null pointer exactly for an identifier that is not in use.\<close>

fun spec_step :: "u32 set \<Rightarrow> proc_call \<times> u32 \<Rightarrow> u32 set \<Rightarrow> bool" where
  "spec_step A (Register, pid) B \<longleftrightarrow> pid \<notin> A \<and> get_pid_tid pid = 0 \<and> B = insert pid A"
| "spec_step A (Delete pid, e) B \<longleftrightarrow> e = PID_NOT_FOUND \<and> B = A - {pid}"
| "spec_step A (Lookup a, p) B \<longleftrightarrow> (p \<noteq> 0 \<longleftrightarrow> pid_of a \<in> A) \<and> B = A"

primrec spec_calls :: "u32 set \<Rightarrow> (proc_call \<times> u32) list \<Rightarrow> u32 set \<Rightarrow> bool" where
  "spec_calls A [] B \<longleftrightarrow> B = A"
| "spec_calls A (c # xs) B \<longleftrightarrow> (\<exists>A1. spec_step A c A1 \<and> spec_calls A1 xs B)"

text \<open>What the deletions must not do: name a thread, or a process in the page directory that is
  loaded.\<close>

definition deletes_ok :: "kstate \<Rightarrow> (u32 \<Rightarrow> u32 option) \<Rightarrow> (proc_call \<times> u32) list \<Rightarrow> bool" where
  "deletes_ok st M xs \<longleftrightarrow> (\<forall>pid e. (Delete pid, e) \<in> set xs \<longrightarrow> get_pid_tid pid = 0 \<and>
     (\<forall>p. M pid = Some (rb_node p) \<longrightarrow> page_dir_paddr st p \<noteq> cr3 (km st)))"

lemma deletes_ok_Cons: "deletes_ok st M (c # xs) \<Longrightarrow> deletes_ok st M xs"
  by (auto simp: deletes_ok_def)

lemma get_pid_tid_of [simp]: "get_pid_tid (pid_of a) = 0"
  by (simp add: get_pid_tid_def pid_of_def) (rule bit_word_eqI, auto simp: bit_simps)

lemma pid_of_get_aid: "get_pid_tid pid = 0 \<Longrightarrow> pid_of (get_pid_aid pid) = pid"
proof (rule bit_word_eqI)
  fix n
  assume t: "get_pid_tid pid = 0" and n: "n < LENGTH(32)"
  have "\<not> bit pid n" if "n < 16"
  proof -
    have "\<not> bit (get_pid_tid pid) n" by (simp add: t)
    moreover have "pid AND 0xFFFF = take_bit 16 pid" by (simp add: take_bit_eq_mask mask_eq_exp_minus_1)
    then have "bit (get_pid_tid pid) n \<longleftrightarrow> bit pid n"
      using that by (simp add: get_pid_tid_def bit_simps)
    ultimately show ?thesis by simp
  qed
  then show "bit (pid_of (get_pid_aid pid)) n \<longleftrightarrow> bit pid n"
    using n by (cases "n < 16") (auto simp: pid_of_def get_pid_aid_def bit_simps)
qed

lemma proc_inv_object: "proc_inv st gs objs M fs \<Longrightarrow> M pid = Some n \<Longrightarrow> n \<in> rb_node ` objs"
  using entries_address by (fastforce simp: proc_inv_def)

lemma tr_key: "tr m nl p q T \<Longrightarrow> (k, a) \<in> set (inorder T) \<Longrightarrow> key (m a) = k"
  by (induction T arbitrary: p q) auto

lemma get_process_found:
  assumes inv: "proc_inv st gs objs M fs" and M: "M (pid_of a) = Some n"
  shows "\<exists>p. get_process st a = Inr p \<and> p \<noteq> 0 \<and> GET_PID st p = pid_of a"
proof -
  obtain p where p: "n = rb_node p" "p \<in> objs" using proc_inv_object [OF inv M] by blast
  obtain T where T: "rbtree (rbnodes st) (process_tree st) T" "entries T = M" using inv by (auto simp: proc_inv_def)
  have "in_kernel_page (km st) p" "p \<noteq> 0" using inv p(2) by (auto simp: proc_inv_def pool_inv_def)
  moreover from rb_node_proper(1) [OF this(1), of gs "nil (process_tree st)"] inv have "rb_node p \<noteq> 0"
    by (simp add: proc_inv_def)
  then have "get_process st a = Inr p" by (intro get_process_table [OF T(1)]) (simp_all add: T(2) M p(1))
  moreover have "(pid_of a, rb_node p) \<in> set (inorder T)" using T(2) M p(1) by (auto simp: entries_def dest: map_of_SomeD)
  then have "GET_PID st p = pid_of a" using T(1) tr_key by (auto simp: rbtree_def focus_def GET_PID_def)
  ultimately show ?thesis by blast
qed

lemma proc_step_ok:
  assumes step: "proc_step st c st'" and inv: "proc_inv st gs objs M fs" and room: "fst c = Register \<Longrightarrow> 4 \<le> length gs"
    and ok: "deletes_ok st M (c # xs)"
  obtains gs' objs' M' fs' where "proc_inv st' gs' objs' M' fs'" "spec_step (dom M) c (dom M')"
    "length gs \<le> length gs' + (if fst c = Register then 4 else 0)" "deletes_ok st' M' xs"
  using step
proof cases
  case (register r)
  have "4 \<le> length gs" using room register(1) by simp
  from register_process_ok [OF inv this] register(2) obtain a p hs fs' where
    t: "r = \<lparr>ret = pid_of a, err = 0\<rparr>" "p \<notin> objs" "M (pid_of a) = None"
      "proc_inv st' hs (insert p objs) (M(pid_of a \<mapsto> rb_node p)) fs'" "length gs \<le> length hs + 4"
      "fresh_dir (km st') (page_dir_paddr st' p)" "\<forall>q \<in> objs. page_dir_paddr st' q = page_dir_paddr st q"
      "cr3 (km st') = cr3 (km st)"
    by auto
  have "page_dir_paddr st' p \<noteq> cr3 (km st')" using t(4,6) by (auto simp: proc_inv_def fresh_dir_def)
  moreover have "page_dir_paddr st' q = page_dir_paddr st q" if "M pid = Some (rb_node q)" for pid q
    using proc_inv_object [OF inv that] t(7) by auto
  ultimately have "deletes_ok st' (M(pid_of a \<mapsto> rb_node p)) xs"
    using deletes_ok_Cons [OF ok] t(8) by (auto simp: deletes_ok_def)
  with t(4,5) show ?thesis by (intro that [of hs "insert p objs"]) (use t(1,3) register(1) in auto)
next
  case (delete pid r)
  have tid: "get_pid_tid pid = 0" using ok by (auto simp: deletes_ok_def delete(1))
  define a where "a = get_pid_aid pid"
  have pid: "pid_of a = pid" using pid_of_get_aid [OF tid] by (simp add: a_def)
  show ?thesis
  proof (cases "M pid")
    case None
    have "get_process st a = Inr 0" by (rule get_process_none [OF inv]) (simp add: pid None)
    then have "st' = st" "err r = PID_NOT_FOUND"
      using delete(2) by (auto simp: syscall_delete_process_def SYSCALL_RETURN_def a_def)
    then show ?thesis
      using None inv delete(1) deletes_ok_Cons [OF ok] by (intro that [of gs objs M fs]) auto
  next
    case (Some n)
    then obtain p where n: "n = rb_node p" using proc_inv_object [OF inv] by blast
    have p: "M (pid_of a) = Some (rb_node p)" "page_dir_paddr st p \<noteq> cr3 (km st)"
      using Some n pid ok by (auto simp: deletes_ok_def delete(1))
    from delete_process_ok [OF inv p] delete(2) have t: "r = \<lparr>ret = 0, err = PID_NOT_FOUND\<rparr>"
      "proc_inv st' (page_dir_paddr st p # gs) (objs - {p}) (M(pid := None)) (p # fs)"
      "\<forall>q. q \<noteq> p \<longrightarrow> page_dir_paddr st' q = page_dir_paddr st q" "cr3 (km st') = cr3 (km st)"
      by (auto simp: pid)
    have "q \<noteq> p" if "(M(pid := None)) k = Some (rb_node q)" for k q
      using proc_inv_object [OF t(2) that] by auto
    then have "deletes_ok st' (M(pid := None)) xs"
      using deletes_ok_Cons [OF ok] t(3,4) unfolding deletes_ok_def by (metis fun_upd_apply option.distinct(1))
    with t(2) show ?thesis by (intro that [of "page_dir_paddr st p # gs" "objs - {p}"]) (use t(1) delete(1) in auto)
  qed
next
  case (lookup a p)
  have "p \<noteq> 0 \<longleftrightarrow> pid_of a \<in> dom M"
  proof (cases "M (pid_of a)")
    case None
    from get_process_none [OF inv this] show ?thesis using lookup(3) None by (auto simp: domIff)
  next
    case (Some n)
    from get_process_found [OF inv this] show ?thesis using lookup(3) Some by auto
  qed
  then show ?thesis
    using inv lookup(1,2) deletes_ok_Cons [OF ok] by (intro that [of gs objs M fs]) auto
qed

lemma proc_calls_ok:
  assumes "proc_calls st xs st'" "proc_inv st gs objs M fs" "4 * length (filter (\<lambda>c. fst c = Register) xs) \<le> length gs" "deletes_ok st M xs"
  shows "\<exists>gs' objs' M' fs'. proc_inv st' gs' objs' M' fs' \<and> spec_calls (dom M) xs (dom M')"
  using assms
proof (induction arbitrary: gs objs M fs)
  case (stop st)
  then show ?case by auto
next
  case (call st c st1 xs st')
  from call.prems(2) have room: "fst c = Register \<Longrightarrow> 4 \<le> length gs" by simp
  obtain gs1 objs1 M1 fs1 where t: "proc_inv st1 gs1 objs1 M1 fs1" "spec_step (dom M) c (dom M1)"
    "length gs \<le> length gs1 + (if fst c = Register then 4 else 0)" "deletes_ok st1 M1 xs"
    by (rule proc_step_ok [OF call.hyps(1) call.prems(1) room call.prems(3)])
  have "4 * length (filter (\<lambda>c. fst c = Register) xs) \<le> length gs1" using t(3) call.prems(2) by (simp split: if_splits)
  from call.IH [OF t(1) this t(4)] show ?case using t(2) by auto
qed

text \<open>
  C22: A sequence of registrations, deletions and lookups that return refines a set of identifiers: each
  registration reports an identifier that was not in use, each deletion removes the one it
  names, each lookup finds an object exactly when the identifier is in use at that point, and at the end
  \<open>get_process\<close> finds an object exactly for the identifiers of the set,
  different ones for different identifiers. Pool, tree, page directories (one for each process)
  and kernel memory stay consistent. The conditions are four free frames for each registration, and that no
  deletion names an identifier with a thread part or a process whose page directory is loaded:
  without them a deleted process stays in the table, or the kernel loses the directory it runs in.
\<close>

theorem proc_calls_refine_set:
  assumes calls: "proc_calls st xs st'" and inv: "proc_inv st gs objs M fs"
    and room: "4 * length (filter (\<lambda>c. fst c = Register) xs) \<le> length gs" and ok: "deletes_ok st M xs"
  shows "\<exists>gs' objs' M' fs'. proc_inv st' gs' objs' M' fs' \<and> spec_calls (dom M) xs (dom M') \<and>
    (\<forall>a. \<exists>p. get_process st' a = Inr p \<and> (p \<noteq> 0 \<longleftrightarrow> pid_of a \<in> dom M') \<and>
       (\<forall>b. p \<noteq> 0 \<longrightarrow> get_process st' b = Inr p \<longrightarrow> b = a))"
proof -
  obtain gs' objs' M' fs' where t: "proc_inv st' gs' objs' M' fs'" "spec_calls (dom M) xs (dom M')"
    using proc_calls_ok [OF calls inv room ok] by blast
  have "\<exists>p. get_process st' a = Inr p \<and> (p \<noteq> 0 \<longleftrightarrow> pid_of a \<in> dom M') \<and>
       (\<forall>b. p \<noteq> 0 \<longrightarrow> get_process st' b = Inr p \<longrightarrow> b = a)" for a
  proof (cases "M' (pid_of a)")
    case None
    from get_process_none [OF t(1) this] show ?thesis using None by auto
  next
    case (Some n)
    then obtain p where p: "get_process st' a = Inr p" "p \<noteq> 0" "GET_PID st' p = pid_of a"
      using get_process_found [OF t(1)] by blast
    have "b = a" if b: "get_process st' b = Inr p" for b
    proof (cases "M' (pid_of b)")
      case None
      from get_process_none [OF t(1) this] show ?thesis using b p(2) by simp
    next
      case (Some n')
      then obtain q where "get_process st' b = Inr q" "GET_PID st' q = pid_of b"
        using get_process_found [OF t(1)] by blast
      then have "pid_of b = pid_of a" using p(3) b by simp
      from arg_cong [OF this, of get_pid_aid] show ?thesis by simp
    qed
    moreover have "pid_of a \<in> dom M'" using Some by blast
    ultimately show ?thesis using p(1,2) by blast
  qed
  then show ?thesis using t by blast
qed

text \<open>An example: a process is registered, found and deleted; then it is not found any more.\<close>

theorem proc_calls_refine_set_witness:
  "\<exists>st st' x a p. p \<noteq> 0 \<and> x = pid_of a \<and> get_process st' a = Inr 0 \<and>
     proc_calls st [(Register, x), (Lookup a, p), (Delete x, PID_NOT_FOUND), (Lookup a, 0)] st'"
proof (rule no_process)
  fix st gs
  assume s: "proc_inv st gs {} Map.empty []" "4 \<le> length gs" "kernel_heap (km st) = edge_heap"
    "free_unmapped (km st) edge_heap"
  with register_process_ok [OF s(1,2)] two_pages obtain st1 a p hs fs where
    t: "syscall_register_process st = Inr (Some \<lparr>ret = pid_of a, err = 0\<rparr>, st1)"
      "proc_inv st1 hs {p} [pid_of a \<mapsto> rb_node p] fs" "fresh_dir (km st1) (page_dir_paddr st1 p)"
    by (cases "syscall_register_process st") fastforce+
  have d: "page_dir_paddr st1 p \<noteq> cr3 (km st1)" using t(2,3) by (auto simp: proc_inv_def fresh_dir_def)
  have m: "[pid_of a \<mapsto> rb_node p] (pid_of a) = Some (rb_node p)" by simp
  obtain q where q: "get_process st1 a = Inr q" using get_process_found [OF t(2) m] by blast
  from delete_process_ok [OF t(2) m d] obtain st2 where
    u: "syscall_delete_process (pid_of a) st1 = Inr (Some \<lparr>ret = 0, err = PID_NOT_FOUND\<rparr>, st2)" "get_process st2 a = Inr 0" by auto
  have "proc_step st (Register, pid_of a) st1" "proc_step st1 (Delete (pid_of a), PID_NOT_FOUND) st2"
    "proc_step st1 (Lookup a, q) st1" "proc_step st2 (Lookup a, 0) st2"
    using proc_step.register [OF t(1)] proc_step.delete [OF u(1)] proc_step.lookup [OF q] proc_step.lookup [OF u(2)] by simp_all
  then have c: "proc_calls st [(Register, pid_of a), (Lookup a, q), (Delete (pid_of a), PID_NOT_FOUND), (Lookup a, 0)] st2"
    by (simp add: proc_calls_Cons proc_calls_Nil) blast
  have "deletes_ok st Map.empty [(Register, pid_of a), (Lookup a, q), (Delete (pid_of a), PID_NOT_FOUND), (Lookup a, 0)]"
    by (simp add: deletes_ok_def)
  from proc_calls_refine_set [OF c s(1) _ this] s(2) have "q \<noteq> 0" "get_process st2 a = Inr 0" by auto
  then show ?thesis using c by blast
qed

end
