(* ===== verification/HeapInit.thy ===== *)
theory HeapInit
  imports AddressSpaces BootFrames
begin

section \<open>Making heaps\<close>

text \<open>
  \<^verbatim>\<open>heap_init\<close> backs the pages of the usage map, clears the map and hands out the
  pages behind it. \<^verbatim>\<open>init_heap\<close> makes two heaps of the address space between the page
  of the free list and the page tables: that of the kernel and that of the pages users can read.
\<close>

unbundle bit_operations_syntax

subsection \<open>Bytes of a backed run\<close>

text \<open>Byte \<open>i\<close> of a run whose pages are backed by the frames \<open>ps\<close>.\<close>

definition run_byte :: "u32 list \<Rightarrow> nat \<Rightarrow> u32" where
  "run_byte ps i = get_paddr (ps ! (i div 4096)) + word_of_nat (i mod 4096)"

lemma run_byte_frame: "get_paddr (run_byte ps i) = get_paddr (ps ! (i div 4096))"
proof -
  have "(word_of_nat (i mod 4096) :: u32) < 0x1000" by (simp add: word_less_nat_alt unat_of_nat_u32)
  from frame_decomp [OF get_paddr_aligned this] show ?thesis unfolding run_byte_def by blast
qed

text \<open>The page of byte \<open>i\<close> of a run, and its place in the page.\<close>

lemma run_page:
  assumes al: "frame_aligned v"
  shows "drop_bit 12 (v + word_of_nat i) = drop_bit 12 (page_no v (i div 4096))"
    "(v + word_of_nat i) AND 0xFFF = word_of_nat (i mod 4096)"
proof -
  obtain q where q: "unat v = 4096 * q" using al unfolding frame_unat by (rule dvdE)
  have u: "unat (v + word_of_nat i) = (unat v + i) mod 2 ^ 32"
    by (simp add: unat_word_ariths unat_of_nat take_bit_eq_mod mod_add_right_eq)
  have m1: "x mod 4294967296 div 4096 = x div 4096 mod 1048576" for x :: nat
    using mod_mult2_eq [of x 4096 1048576] by simp
  have m2: "x mod 4294967296 mod 4096 = x mod 4096" for x :: nat
    using mod_mod_cancel [of 4096 4294967296 x] by simp
  have "(4096 * q + i) div 4096 = q + i div 4096" "(4096 * q + 4096 * (i div 4096)) div 4096 = q + i div 4096" by simp_all
  moreover have "unat (v + word_of_nat i) = (4096 * q + i) mod 4294967296"
    "unat (page_no v (i div 4096)) = (4096 * q + 4096 * (i div 4096)) mod 4294967296" using u by (simp_all add: q page_no_unat)
  ultimately show "drop_bit 12 (v + word_of_nat i) = drop_bit 12 (page_no v (i div 4096))"
    unfolding drop_bit_12_eq by (simp only: m1)
  have "unat ((v + word_of_nat i) AND 0xFFF) = (4096 * q + i) mod 4294967296 mod 4096"
    unfolding unat_and_FFF u q by simp
  also have "\<dots> = (4096 * q + i) mod 4096" by (rule m2)
  also have "\<dots> = i mod 4096" by (rule mod_mult_self4)
  also have "\<dots> = unat (word_of_nat (i mod 4096) :: u32)" by (simp add: unat_of_nat_u32)
  finally show "(v + word_of_nat i) AND 0xFFF = word_of_nat (i mod 4096)" by (simp only: word_unat_eq_iff)
qed

lemma run_translate:
  assumes ok: "paging_ok t" and al: "frame_aligned v" and b: "backed t v flags ps" and fl: "flags < 0x1000"
    and i: "i < 4096 * length ps" and n: "length ps \<le> 2 ^ 20"
  shows "translate t (v + word_of_nat i) = Inr (run_byte ps i)"
proof -
  have "i div 4096 < length ps" using i by (simp add: less_mult_imp_div_less mult.commute)
  moreover have "page_at t (v + word_of_nat i) = page_at t (page_no v (i div 4096))"
    by (rule page_at_same) (rule run_page [OF al])
  ultimately have "page_at t (v + word_of_nat i) = create_entry (ps ! (i div 4096)) flags"
    using b by (simp add: backed_def)
  then show ?thesis
    by (simp add: page_at_translate [OF ok] run_page(2) [OF al] create_entry_paddr [OF fl] run_byte_def)
qed

lemma run_byte_inj: "distinct (map get_paddr ps) \<Longrightarrow> inj_on (run_byte ps) {..<4096 * length ps}"
proof (rule inj_onI)
  fix i j
  assume d: "distinct (map get_paddr ps)" and ij: "i \<in> {..<4096 * length ps}" "j \<in> {..<4096 * length ps}" and eq: "run_byte ps i = run_byte ps j"
  have k: "i div 4096 < length ps" "j div 4096 < length ps" using ij by (simp_all add: less_mult_imp_div_less mult.commute)
  have "get_paddr (ps ! (i div 4096)) = get_paddr (ps ! (j div 4096))" using eq by (metis run_byte_frame)
  then have "i div 4096 = j div 4096" using d k nth_eq_iff_index_eq [OF d, of "i div 4096" "j div 4096"] by simp
  moreover from this eq have "(word_of_nat (i mod 4096) :: u32) = word_of_nat (j mod 4096)" by (simp add: run_byte_def)
  then have "i mod 4096 = j mod 4096" by (simp add: word_unat_eq_iff unat_of_nat_u32)
  ultimately show "i = j" by (metis div_mult_mod_eq)
qed

lemma run_writable:
  assumes "paging_ok t" "frame_aligned v" "backed t v flags ps" "flags < 0x1000" "n \<le> 4096 * length ps" "length ps \<le> 2 ^ 20"
  shows "writable_range t v n (run_byte ps)"
proof -
  have "inj_on (run_byte ps) {..<n}"
    using run_byte_inj [of ps] assms(3,5) by (auto simp: backed_def intro: inj_on_subset)
  moreover have "\<not> table_frame t (get_paddr (run_byte ps i))" if "i < n" for i
    using assms(3,5) that by (simp add: run_byte_frame backed_def less_mult_imp_div_less mult.commute)
  ultimately show ?thesis
    using run_translate [OF assms(1-4) _ assms(6)] assms(5) by (simp add: writable_range_def range_at_def)
qed

text \<open>Writing bytes outside of the tables and of the free frames.\<close>

lemma bytes_inv:
  assumes inv: "mem_inv s fs" and eq: "paging_eq s (s\<lparr>pmem := m\<rparr>)"
    and free: "\<And>a. get_paddr a \<in> get_paddr ` set fs \<Longrightarrow> m a = pmem s a"
  shows "mem_inv (s\<lparr>pmem := m\<rparr>) fs"
proof -
  have "rd32 m (get_paddr p) = rd32 (pmem s) (get_paddr p)" if "p \<in> set fs" for p
    by (rule rd32_frame_cong) (use that free in auto)
  then have "flist m (free_frame_paddr s) fs" using mem_flist [OF inv] flist_cong [of fs m "pmem s"] by simp
  moreover have "maps (s\<lparr>pmem := m\<rparr>) (wdi s) (wti s) a \<longleftrightarrow> maps s (wdi s) (wti s) a" for a
    by (rule paging_eq_maps [OF eq]) simp_all
  ultimately show ?thesis
    using inv paging_eq_ok [OF eq] paging_eq_window [OF eq] paging_eq_unreferenced [OF eq]
    by (simp add: mem_inv_def)
qed

subsection \<open>One heap\<close>

text \<open>The pages of a usage map for \<open>n\<close> pages.\<close>

definition map_pages_of :: "nat \<Rightarrow> nat" where
  "map_pages_of n = ((n + 3) div 4 + 4095) div 4096"

lemma alloc_pages_loop_pde:
  assumes "mem_inv s fs" "run_free s v n flags" "flags < 0x1000" "2 * n \<le> length fs" "alloc_pages_loop n s v flags = Inr t"
    "i < 1023" "\<forall>k < n. get_pd_index (page_no v k) \<noteq> i"
  shows "pde t i = pde s i"
  using assms
proof (induction n arbitrary: s fs v)
  case (Suc n)
  from Suc.prems(4) obtain f gs where fs: "fs = f # gs" "2 * n < length gs" by (cases fs) auto
  note inv = Suc.prems(1) [unfolded fs]
  note run = run_free_Suc [OF Suc.prems(2)]
  have n: "n < 2 ^ 20" using Suc.prems(2) by (simp add: run_free_def)
  have room: "entry_present (pde s (get_pd_index v)) \<or> gs \<noteq> []" using fs by auto
  obtain t1 where t1: "alloc_page s v flags = Inr t1" "mem_inv t1 (rest_frames s (get_pd_index v) gs)"
    "\<And>w. plain_page s w \<Longrightarrow>
       page_at t1 w = (if drop_bit 12 w = drop_bit 12 v then create_entry f flags else page_at s w)"
    "\<And>k. k < 1023 \<Longrightarrow> user_ok s k flags \<Longrightarrow> user_ok t1 k flags" "\<And>w. plain_page t1 w \<longleftrightarrow> plain_page s w"
    "\<And>k. k < 1023 \<Longrightarrow> k \<noteq> get_pd_index v \<Longrightarrow> pde t1 k = pde s k"
    by (rule alloc_page_steps [OF inv run(1-3) Suc.prems(3) room]) blast
  have "run_free t1 (v + PAGE_SIZE) n flags"
    using run(4) t1(3,4,5) run_page_other [OF _ n] plain_page_pdi [of s] unfolding run_free_def by simp
  moreover have "2 * n \<le> length (rest_frames s (get_pd_index v) gs)" using fs by (auto simp: rest_frames_def)
  moreover have "alloc_pages_loop n t1 (v + PAGE_SIZE) flags = Inr t"
    using Suc.prems(5) t1(1) by (simp only: alloc_pages_loop_Suc bind_res_simps)
  moreover have "\<forall>k < n. get_pd_index (page_no (v + PAGE_SIZE) k) \<noteq> i"
    using Suc.prems(7) by (simp add: page_no_Suc)
  ultimately have "pde t i = pde t1 i" using Suc.IH [OF t1(2) _ Suc.prems(3)] Suc.prems(6) by blast
  moreover have "get_pd_index v \<noteq> i" using Suc.prems(7) by (auto dest: spec [of _ 0])
  ultimately show ?case using t1(6) [OF Suc.prems(6)] by simp
qed simp

lemma page_index_clear: "usage_map h (i div 4) = 0 \<Longrightarrow> heap_get_usage h i = 0"
  by (simp add: heap_get_usage_def Let_def)

lemma heap_init_ok:
  assumes inv: "mem_inv s fs" and al: "is_page_aligned start" and fl: "flags < 0x1000"
    and pages: "unat pages \<le> 2 ^ 19" and run: "run_free s start (map_pages_of (unat pages)) flags"
    and room: "2 * map_pages_of (unat pages) \<le> length fs"
  obtains h t ps gs where "heap_init s start pages flags = Inr (h, t)"
    "heap_start h = page_no start (map_pages_of (unat pages))" "page_count h = pages"
    "\<And>k. k < unat pages \<Longrightarrow> page_use h k = 0" "unat pages mod 4 \<noteq> 0 \<Longrightarrow> page_use h (unat pages) = 0"
    "mem_inv t gs" "length ps = map_pages_of (unat pages)" "backed t start flags ps" "set ps \<subseteq> set fs" "set gs \<subseteq> set fs"
    "set ps \<inter> set gs = {}" "length fs \<le> length gs + 2 * map_pages_of (unat pages)" "mem_step s t (get_paddr ` set fs)"
    "\<And>w. plain_page s w \<Longrightarrow> (\<forall>k < map_pages_of (unat pages). drop_bit 12 w \<noteq> drop_bit 12 (page_no start k)) \<Longrightarrow>
       page_at t w = page_at s w"
    "\<And>i. i < 1023 \<Longrightarrow> (\<forall>k < map_pages_of (unat pages). get_pd_index (page_no start k) \<noteq> i) \<Longrightarrow> pde t i = pde s i"
    "\<And>i. i < 1023 \<Longrightarrow> user_ok s i flags \<Longrightarrow> user_ok t i flags"
proof -
  let ?n = "map_pages_of (unat pages)" and ?b = "(pages + 3) div 4"
  have b: "unat ?b = (unat pages + 3) div 4"
    using pages by (simp add: unat_div unat_add_u32)
  have n: "unat (size_in_pages ?b) = ?n"
    using pages b by (simp add: size_in_pages_def map_pages_of_def unat_div unat_add_u32 PAGE_SIZE_def
        add_diff_eq [symmetric])
  have bn: "unat ?b \<le> 4096 * ?n" by (simp add: b map_pages_of_def)
  obtain u ps gs where u: "alloc_pages_loop ?n s start flags = Inr u" "mem_inv u gs"
    "mem_step s u (get_paddr ` set fs)" "length ps = ?n" "backed u start flags ps"
    "set ps \<subseteq> set fs" "set gs \<subseteq> set fs" "set ps \<inter> set gs = {}"
    "\<And>w. plain_page s w \<Longrightarrow> (\<forall>k < ?n. drop_bit 12 w \<noteq> drop_bit 12 (page_no start k)) \<Longrightarrow> page_at u w = page_at s w"
    "length fs \<le> length gs + 2 * ?n" "\<And>k. k < 1023 \<Longrightarrow> user_ok s k flags \<Longrightarrow> user_ok u k flags"
    using alloc_pages_loop_ok [OF inv run fl room] by blast
  have n20: "length ps \<le> 2 ^ 20" using run u(4) by (simp add: run_free_def)
  have fa: "frame_aligned start" by (rule page_aligned_frame [OF al])
  note uo = mem_paging [OF u(2)]
  have w: "writable_range u start (unat ?b) (run_byte ps)"
    by (rule run_writable [OF uo fa u(5) fl _ n20]) (use bn u(4) in simp)
  obtain m where m: "pmemset_loop (unat ?b) u start HEAP_PAGE_FREE = Inr (u\<lparr>pmem := m\<rparr>)" "paging_eq u (u\<lparr>pmem := m\<rparr>)"
    "\<forall>k < unat ?b. m (run_byte ps k) = HEAP_PAGE_FREE" "\<forall>a. a \<notin> run_byte ps ` {..<unat ?b} \<longrightarrow> m a = pmem u a"
    using pmemset_loop_ok [OF uo w] by blast
  let ?t = "u\<lparr>pmem := m\<rparr>"
  let ?h = "\<lparr>usage_map = (\<lambda>i. case vread8 ?t (start + i) of Inl _ \<Rightarrow> 0 | Inr b \<Rightarrow> b),
      heap_start = start + size_in_pages ?b * PAGE_SIZE, page_count = pages\<rparr>"
  have init: "heap_init s start pages flags = Inr (?h, ?t)"
    using al u(1) m(1) by (simp add: heap_init_def alloc_pages_def pmemset_def n Let_def)
  have "(word_of_nat ?n :: u32) = size_in_pages ?b" by (simp add: word_unat_eq_iff unat_of_nat take_bit_eq_mod n [symmetric])
  then have hs: "heap_start ?h = page_no start ?n" by (simp add: page_no_def PAGE_SIZE_def mult.commute)
  have zero: "usage_map ?h (word_of_nat k) = 0" if "k < unat ?b" for k
  proof -
    have "translate ?t (start + word_of_nat k) = Inr (run_byte ps k)"
      using w that paging_eq_translate [OF uo m(2)] by (simp add: writable_range_def range_at_def)
    then show ?thesis using m(3) that by (simp add: vread8_def HEAP_PAGE_FREE_def)
  qed
  have use0: "page_use ?h k = 0" if "k div 4 < unat ?b" "k < 2 ^ 32" for k
  proof -
    have "(word_of_nat k :: u32) div 4 = word_of_nat (k div 4)"
      using that(2) by (simp add: word_unat_eq_iff unat_div unat_of_nat_u32)
    then show ?thesis using zero [OF that(1)] page_index_clear [of ?h "word_of_nat k"] by (simp add: page_use_def)
  qed
  have free: "m a = pmem u a" if af: "get_paddr a \<in> get_paddr ` set gs" for a
  proof -
    have "a \<notin> run_byte ps ` {..<unat ?b}"
    proof
      assume "a \<in> run_byte ps ` {..<unat ?b}"
      then obtain i where i: "i < unat ?b" "a = run_byte ps i" by blast
      have "i div 4096 < length ps" using i(1) bn u(4) by (simp add: less_mult_imp_div_less mult.commute)
      then have "ps ! (i div 4096) \<in> set ps" by simp
      moreover obtain g where "g \<in> set gs" "get_paddr g = get_paddr (ps ! (i div 4096))"
        using af i(2) by (auto simp: run_byte_frame)
      ultimately show False using mem_distinct [OF inv] u(6-8) by (auto simp: distinct_map dest: inj_onD)
    qed
    then show ?thesis using m(4) by blast
  qed
  have t: "mem_inv ?t gs" by (rule bytes_inv [OF u(2) m(2) free])
  have fr: "m a = pmem u a" if "get_paddr a \<notin> get_paddr ` set fs" for a
  proof -
    have "a \<notin> run_byte ps ` {..<unat ?b}"
    proof
      assume "a \<in> run_byte ps ` {..<unat ?b}"
      then obtain i where i: "i < unat ?b" "a = run_byte ps i" by blast
      have "i div 4096 < length ps" using i(1) bn u(4) by (simp add: less_mult_imp_div_less mult.commute)
      then have "ps ! (i div 4096) \<in> set fs" using u(6) by auto
      then show False using that i(2) by (simp add: run_byte_frame)
    qed
    then show ?thesis using m(4) by blast
  qed
  have "mem_step u ?t (get_paddr ` set fs)"
    unfolding mem_step_def using paging_eq_pde [OF m(2)] paging_eq_table [OF m(2)] fr by (simp add: same_config_def)
  then have st: "mem_step s ?t (get_paddr ` set fs)" by (rule mem_step_trans [OF u(3)])
  have at: "page_at ?t x = page_at u x" for x by (rule paging_eq_page_at [OF m(2)])
  have bk: "backed ?t start flags ps" using u(5) by (simp add: backed_def at paging_eq_table [OF m(2)])
  have pd: "pde ?t i = pde s i" if "i < 1023" "\<forall>k < ?n. get_pd_index (page_no start k) \<noteq> i" for i
    using alloc_pages_loop_pde [OF inv run fl room u(1) that] paging_eq_pde [OF m(2), of i] less_1024 [OF that(1)] by simp
  show ?thesis
  proof (rule that [OF init hs _ _ _ t u(4) bk u(6-8) u(10) st])
    show "page_use ?h k = 0" if "k < unat pages" for k
      by (rule use0) (use that b pages in simp_all)
    show "page_use ?h (unat pages) = 0" if "unat pages mod 4 \<noteq> 0"
      by (rule use0) (use that b pages in \<open>simp_all, presburger\<close>)
    show "pde ?t i = pde s i" if "i < 1023" "\<forall>k < ?n. get_pd_index (page_no start k) \<noteq> i" for i
      by (rule pd [OF that])
    show "user_ok ?t i flags" if "i < 1023" "user_ok s i flags" for i
      using u(11) [OF that] paging_eq_pde [OF m(2) less_1024 [OF that(1)]] by (simp add: user_ok_def)
  qed (use u(9) at in simp_all)
qed

subsection \<open>The two heaps\<close>

text \<open>The number of pages between the page of the free list and the page tables.\<close>

definition space_pages :: "kmem \<Rightarrow> nat" where
  "space_pages s = (0xFFC00000 - unat (free_list_head s)) div 4096 - 1"

text \<open>The address space behind the page of the free list is not mapped, and there is room for the
  pages of users and one page for the kernel.\<close>

definition space_ok :: "kmem \<Rightarrow> bool" where
  "space_ok s \<longleftrightarrow> 0xC0000000 \<le> free_list_head s \<and> free_list_head s < 0xFF7FF000 \<and>
     (\<forall>w. free_list_head s + PAGE_SIZE \<le> w \<longrightarrow> w < 0xFFC00000 \<longrightarrow> \<not> entry_present (page_at s w)) \<and> \<not> entry_present (pde s 1022)"

text \<open>The usage map of the kernel heap, of at most 16 pages.\<close>

lemma map_pages_bounds:
  assumes "0 < n" "n \<le> 2 ^ 18"
  shows "0 < map_pages_of n" "map_pages_of n \<le> n" "map_pages_of n \<le> 16"
proof -
  have m: "map_pages_of n = ((n + 3) div 4 + 4095) div 4096" by (simp add: map_pages_of_def)
  have "4096 \<le> (n + 3) div 4 + 4095" using assms(1) by simp
  then show "0 < map_pages_of n" unfolding m by simp
  have "(n + 3) div 4 \<le> 65536" using assms(2) by simp
  then have "(n + 3) div 4 + 4095 \<le> 69631" by simp
  then have "((n + 3) div 4 + 4095) div 4096 \<le> 69631 div 4096" by (rule div_le_mono)
  then show "map_pages_of n \<le> 16" unfolding m by simp
  have "(n + 3) div 4 \<le> n" using assms(1) by simp
  then have "(n + 3) div 4 + 4095 \<le> n * 4096" using assms(1) by (cases n) auto
  then have "((n + 3) div 4 + 4095) div 4096 \<le> n * 4096 div 4096" by (rule div_le_mono)
  then show "map_pages_of n \<le> n" unfolding m by simp
qed

lemma space_eval:
  assumes al: "frame_aligned (free_list_head s)" and sp: "space_ok s"
  shows "unat (free_list_head s) + 4096 * (space_pages s + 1) = 0xFFC00000" "1024 < space_pages s"
    "space_pages s \<le> 2 ^ 18"
    "ptr_diff_div page_table_entries (free_list_head s + PAGE_SIZE) 4096 = word_of_nat (space_pages s)"
proof -
  let ?v = "unat (free_list_head s)"
  obtain q where q: "?v = 4096 * q" using al unfolding frame_unat by (rule dvdE)
  have lo: "0xC0000000 \<le> ?v" "?v < 0xFF7FF000" using sp by (simp_all add: space_ok_def word_le_nat_alt word_less_nat_alt)
  have p: "space_pages s = 0xFFC00 - q - 1" unfolding space_pages_def q by simp
  have qb: "0xC0000 \<le> q" "q < 0xFF7FF" using lo by (simp_all add: q)
  show e: "?v + 4096 * (space_pages s + 1) = 0xFFC00000" using qb by (simp add: p q)
  show "1024 < space_pages s" "space_pages s \<le> 2 ^ 18" using qb by (simp_all add: p)
  have "unat (free_list_head s + PAGE_SIZE) = ?v + 4096" using lo by (simp add: unat_add_u32 PAGE_SIZE_def)
  moreover define n where "n = 4096 * space_pages s"
  have n: "?v + 4096 + n = 0xFFC00000" "n < 2 ^ 31" using e lo by (simp_all add: n_def)
  ultimately have d: "page_table_entries - (free_list_head s + PAGE_SIZE) = word_of_nat n"
    by (simp add: word_unat_eq_iff unat_sub_if' page_table_entries_def unat_of_nat_u32)
  have "sint (word_of_nat n :: u32) = int n"
    using n(2) by (simp add: signed_of_nat signed_take_bit_int_eq_self)
  then show "ptr_diff_div page_table_entries (free_list_head s + PAGE_SIZE) 4096 = word_of_nat (space_pages s)"
    by (simp add: ptr_diff_div_def d signed_divide_int_def sgn_if n_def)
qed

lemma frame_page_aligned: "frame_aligned p \<Longrightarrow> is_page_aligned p"
  unfolding frame_aligned_def is_page_aligned_def
proof (rule bit_word_eqI)
  fix n
  assume a: "take_bit 12 p = 0" and n: "n < LENGTH(32)"
  have "\<not> bit (take_bit 12 p) k" for k by (simp add: a)
  then have "\<not> bit p k" if "k < 12" for k using that by (metis bit_take_bit_iff)
  then show "bit (push_bit 20 p) n \<longleftrightarrow> bit 0 n" using n by (auto simp: bit_simps)
qed

lemma space_page:
  assumes al: "frame_aligned (free_list_head s)" and sp: "space_ok s" and k: "1 \<le> k" "k \<le> space_pages s"
  shows "unat (page_no (free_list_head s) k) = unat (free_list_head s) + 4096 * k"
    "plain_page s (page_no (free_list_head s) k)" "\<not> entry_present (page_at s (page_no (free_list_head s) k))"
    "get_pd_index (page_no (free_list_head s) k) = 1022 \<longleftrightarrow> space_pages s < k + 1024"
proof -
  let ?v = "free_list_head s"
  note ev = space_eval [OF al sp]
  have lo: "0xC0000000 \<le> unat ?v" using sp by (simp add: space_ok_def word_le_nat_alt)
  have b: "unat ?v + 4096 * k < 0xFFC00000" using ev(1) k(2) by simp
  show u: "unat (page_no ?v k) = unat ?v + 4096 * k" unfolding page_no_unat using b by simp
  have i: "unat (get_pd_index (page_no ?v k)) = (unat ?v + 4096 * k) div 0x400000" by (simp add: unat_pd_index u)
  have lt: "(unat ?v + 4096 * k) div 0x400000 < 1023" using b by (simp add: div_less_iff_less_mult)
  then have "get_pd_index (page_no ?v k) < 1023" using i by (simp add: word_less_nat_alt)
  moreover have "k < 2 ^ 20" using ev(3) k(2) by simp
  then have "drop_bit 12 (page_no ?v k) \<noteq> drop_bit 12 (page_no ?v 0)" using k(1) by (subst page_no_inj) simp_all
  ultimately show "plain_page s (page_no ?v k)" by (simp add: plain_page_def)
  have "unat (?v + PAGE_SIZE) = unat ?v + 4096" using b k(1) by (simp add: unat_add_u32 PAGE_SIZE_def)
  then have "?v + PAGE_SIZE \<le> page_no ?v k" "page_no ?v k < 0xFFC00000"
    using u b k(1) by (simp_all add: word_le_nat_alt word_less_nat_alt)
  then show "\<not> entry_present (page_at s (page_no ?v k))" using sp by (simp add: space_ok_def)
  have "1022 \<le> (unat ?v + 4096 * k) div 0x400000 \<longleftrightarrow> 0xFF800000 \<le> unat ?v + 4096 * k"
    by (subst less_eq_div_iff_mult_less_eq) simp_all
  with lt have "(unat ?v + 4096 * k) div 0x400000 = 1022 \<longleftrightarrow> 0xFF800000 \<le> unat ?v + 4096 * k" by linarith
  then show "get_pd_index (page_no ?v k) = 1022 \<longleftrightarrow> space_pages s < k + 1024"
    using i ev(1) by (simp add: word_unat_eq_iff) arith
qed

lemma user_ro_heap_fields [simp]:
  "mem_inv (s\<lparr>user_ro_heap := h\<rparr>) fs = mem_inv s fs" "page_at (s\<lparr>user_ro_heap := h\<rparr>) v = page_at s v"
  "plain_page (s\<lparr>user_ro_heap := h\<rparr>) v = plain_page s v" "heap_backed (s\<lparr>user_ro_heap := h\<rparr>) g flags = heap_backed s g flags"
proof -
  let ?t = "s\<lparr>user_ro_heap := h\<rparr>"
  have table: "table_frame ?t f = table_frame s f" "maps ?t i j f = maps s i j f" "view ?t i j = view s i j"
    "user_ok ?t i flags = user_ok s i flags" for f i j by (simp_all add: table_frame_def maps_def view_def user_ok_def)
  moreover have "unreferenced ?t f = unreferenced s f" for f by (simp add: unreferenced_def table)
  moreover have "window_ok ?t = window_ok s" by (simp add: window_ok_def)
  ultimately show "mem_inv ?t fs = mem_inv s fs" by (simp add: mem_inv_def)
  show at: "page_at ?t v = page_at s v" "plain_page ?t v = plain_page s v" for v
    by (simp_all add: page_at_def table plain_page_def)
  then show "heap_backed ?t g flags = heap_backed s g flags"
    by (simp add: heap_backed_def sole_frame_def table)
qed

lemma init_heap_ok:
  assumes inv: "mem_inv s fs" and sp: "space_ok s" and room: "34 \<le> length fs"
  obtains t gs where "init_heap s = Inr t" "mem_inv t gs" "set gs \<subseteq> set fs" "length fs \<le> length gs + 34"
    "heap_start (kernel_heap t) = page_no (free_list_head s) (1 + map_pages_of (space_pages s - 1024))"
    "page_count (kernel_heap t) = word_of_nat (space_pages s - 1024)"
    "\<And>k. k < space_pages s - 1024 \<Longrightarrow> page_use (kernel_heap t) k = 0"
    "(space_pages s - 1024) mod 4 \<noteq> 0 \<Longrightarrow> page_use (kernel_heap t) (space_pages s - 1024) = 0"
    "heap_start (user_ro_heap t) = page_no (free_list_head s) (space_pages s - 1024 + 2)" "page_count (user_ro_heap t) = 1024"
    "\<And>k. k < 1024 \<Longrightarrow> page_use (user_ro_heap t) k = 0"
    "mem_step (s\<lparr>kernel_heap := kernel_heap t, user_ro_heap := user_ro_heap t\<rparr>) t (get_paddr ` set fs)"
    "\<And>k. k < map_pages_of (space_pages s - 1024) \<Longrightarrow> entry_present (page_at t (page_no (free_list_head s) (1 + k)))"
    "entry_present (page_at t (page_no (free_list_head s) (space_pages s - 1024 + 1)))"
    "\<And>w. plain_page s w \<Longrightarrow> drop_bit 12 w \<noteq> drop_bit 12 (page_no (free_list_head s) (space_pages s - 1024 + 1)) \<Longrightarrow>
       (\<forall>k < map_pages_of (space_pages s - 1024). drop_bit 12 w \<noteq> drop_bit 12 (page_no (free_list_head s) (1 + k))) \<Longrightarrow>
       page_at t w = page_at s w"
    "user_ok t 1022 PAGE_USER_MODE"
proof -
  let ?v = "free_list_head s" and ?S = "space_pages s"
  define K where "K = ?S - 1024"
  define m where "m = map_pages_of K"
  have al: "frame_aligned ?v" using mem_window [OF inv] by (simp add: window_ok_def)
  note ev = space_eval [OF al sp] and page = space_page [OF al sp]
  have K: "0 < K" "K \<le> 2 ^ 18" "?S = K + 1024" using ev(2,3) by (simp_all add: K_def)
  note m = map_pages_bounds [OF K(1,2), folded m_def]
  have uK: "unat (word_of_nat K :: u32) = K" using K by (simp add: unat_of_nat_u32)
  have no: "page_no ?v (1 + k) = page_no (?v + PAGE_SIZE) k" for k by (simp add: page_no_Suc)
  have un: "page_no (?v + PAGE_SIZE) k = page_no ?v (Suc k)" for k by (simp add: page_no_Suc)
  have pal: "is_page_aligned (?v + PAGE_SIZE)" by (rule frame_page_aligned [OF frame_aligned_page_no [OF al]])
  let ?kf = "PAGE_WRITABLE OR PAGE_GLOBAL" and ?uf = "PAGE_WRITABLE OR PAGE_USER_MODE OR PAGE_GLOBAL"
  have fl: "?kf < 0x1000" "?uf < 0x1000" "?kf AND PAGE_USER_MODE = 0"
    by (simp_all add: PAGE_WRITABLE_def PAGE_GLOBAL_def PAGE_USER_MODE_def)
  have run1: "run_free s (?v + PAGE_SIZE) (map_pages_of (unat (word_of_nat K :: u32))) ?kf"
    unfolding run_free_def uK un m_def [symmetric] using page m K(2,3) by (auto simp: user_ok_def fl(3))
  have r1: "2 * map_pages_of (unat (word_of_nat K :: u32)) \<le> length fs" using room m(3) by (simp add: uK m_def [symmetric])
  have le: "unat (word_of_nat K :: u32) \<le> 2 ^ 19" using K by (simp add: uK)
  obtain h t ps gs where h: "heap_init s (?v + PAGE_SIZE) (word_of_nat K) ?kf = Inr (h, t)"
    "heap_start h = page_no (?v + PAGE_SIZE) m" "page_count h = word_of_nat K"
    "\<And>k. k < K \<Longrightarrow> page_use h k = 0" "K mod 4 \<noteq> 0 \<Longrightarrow> page_use h K = 0"
    "mem_inv t gs" "length ps = m" "backed t (?v + PAGE_SIZE) ?kf ps" "set gs \<subseteq> set fs"
    "length fs \<le> length gs + 2 * m" "mem_step s t (get_paddr ` set fs)"
    "\<And>w. plain_page s w \<Longrightarrow> (\<forall>k < m. drop_bit 12 w \<noteq> drop_bit 12 (page_no (?v + PAGE_SIZE) k)) \<Longrightarrow>
       page_at t w = page_at s w"
    "\<And>i. i < 1023 \<Longrightarrow> (\<forall>k < m. get_pd_index (page_no (?v + PAGE_SIZE) k) \<noteq> i) \<Longrightarrow> pde t i = pde s i"
    by (rule heap_init_ok [OF inv pal fl(1) le run1 r1, unfolded uK, folded m_def]) (rule that; assumption)
  note h11 = h(11) and h12 = h(12)
  let ?s1 = "t\<lparr>kernel_heap := h\<rparr>" and ?u = "page_no ?v (K + 1)"
  have inv1: "mem_inv ?s1 gs" using h(6) by simp
  have hd: "free_list_head t = ?v" using same_configD(4) [OF mem_step_config [OF h11]] .
  have one: "unat (1024 :: u32) = 1024" "map_pages_of 1024 = 1" by (simp_all add: map_pages_of_def)
  have ua: "?v + PAGE_SIZE + word_of_nat K * PAGE_SIZE = ?u" by (simp add: page_no_def PAGE_SIZE_def algebra_simps)
  have "frame_aligned (page_no ?v k)" for k using al by (simp add: frame_unat page_no_unat dvd_mod_iff)
  then have ual: "is_page_aligned ?u" by (rule frame_page_aligned)
  have up: "plain_page s ?u" "\<not> entry_present (page_at s ?u)" "get_pd_index ?u = 1022"
    using page [of "K + 1"] K(3) by simp_all
  have ne: "drop_bit 12 ?u \<noteq> drop_bit 12 (page_no ?v (Suc k))" if "k < m" for k
    using m(2) K(2) that by (subst page_no_inj) simp_all
  have ut: "page_at t ?u = page_at s ?u" by (rule h12 [OF up(1)]) (use ne in \<open>simp add: un\<close>)
  have "get_pd_index (page_no ?v (Suc k)) \<noteq> 1022" if "k < m" for k
    using page(4) [of "Suc k"] that m(2) K(3) by simp
  then have "pde t 1022 = pde s 1022" by (intro h(13)) (simp_all add: un)
  then have "\<not> entry_present (pde ?s1 1022)" using sp by (simp add: space_ok_def)
  then have run2: "run_free ?s1 ?u (map_pages_of (unat (1024 :: u32))) ?uf"
    using up ut mem_step_plain [OF h11] by (simp add: run_free_def one user_ok_def)
  have r2: "2 * map_pages_of (unat (1024 :: u32)) \<le> length gs" using room h(10) m(3) by (simp add: one)
  obtain h' t' ps' gs' where u: "heap_init ?s1 ?u 1024 ?uf = Inr (h', t')" "heap_start h' = page_no ?u 1" "page_count h' = 1024"
    "\<And>k. k < 1024 \<Longrightarrow> page_use h' k = 0" "mem_inv t' gs'" "length ps' = 1" "backed t' ?u ?uf ps'" "set gs' \<subseteq> set gs"
    "length gs \<le> length gs' + 2" "mem_step ?s1 t' (get_paddr ` set gs)"
    "\<And>w. plain_page ?s1 w \<Longrightarrow> drop_bit 12 w \<noteq> drop_bit 12 ?u \<Longrightarrow> page_at t' w = page_at ?s1 w"
    "\<And>i. i < 1023 \<Longrightarrow> user_ok ?s1 i ?uf \<Longrightarrow> user_ok t' i ?uf"
    by (rule heap_init_ok [OF inv1 ual fl(2) _ run2 r2, unfolded one]) (simp, rule that, (assumption | simp)+)
  note c1 = same_configD [OF mem_step_config [OF h11]] and c2 = same_configD [OF mem_step_config [OF u(10)]]
  let ?t = "t'\<lparr>user_ro_heap := h'\<rparr>"
  have kh: "kernel_heap ?t = h" using c2(8) by simp
  have wS: "(word_of_nat ?S :: u32) = word_of_nat K + 1024" unfolding K(3) by simp
  have "unat (word_of_nat K + 1024 :: u32) = K + 1024" using K(2) by (simp add: unat_add_u32 uK)
  then have big: "(1024 :: u32) < word_of_nat K + 1024" using K(1) by (simp add: word_less_nat_alt)
  have init: "init_heap s = Inr ?t"
    using h(1) u(1) big by (simp add: init_heap_def ev(4) wS USER_RO_PAGES_def ua Let_def)
  have "drop_bit 12 (page_no ?v (Suc k)) \<noteq> drop_bit 12 ?u" if "k < m" for k
    using ne [OF that] by simp
  moreover have "plain_page ?s1 (page_no ?v (Suc k))" if "k < m" for k
    using page(2) [of "Suc k"] that m(2) K(3) mem_step_plain [OF h11] by simp
  ultimately have "page_at t' (page_no ?v (Suc k)) = page_at t (page_no ?v (Suc k))" if "k < m" for k
    using u(11) that by simp
  then have pm: "entry_present (page_at ?t (page_no ?v (1 + k)))" if "k < m" for k
    using h(7,8) that by (simp add: backed_def un)
  have pu: "entry_present (page_at ?t ?u)" using u(6,7) by (simp add: backed_def)
  have other: "page_at ?t w = page_at s w" if "plain_page s w" "drop_bit 12 w \<noteq> drop_bit 12 ?u"
    "\<forall>k < m. drop_bit 12 w \<noteq> drop_bit 12 (page_no ?v (1 + k))" for w
    using u(11) [of w] h12 [of w] that mem_step_plain [OF h11] by (simp add: un)
  show ?thesis
  proof (rule that [of ?t gs', folded K_def, folded m_def])
    show "heap_start (kernel_heap ?t) = page_no ?v (1 + m)" unfolding kh h(2) by (simp add: un)
    show "heap_start (user_ro_heap ?t) = page_no ?v (K + 2)" using u(2) by (simp add: page_no_add)
    have cfg: "same_config (s\<lparr>kernel_heap := kernel_heap ?t, user_ro_heap := user_ro_heap ?t\<rparr>) ?t"
      using c1 c2 by (simp add: same_config_def)
    have tab: "table_frame (x\<lparr>kernel_heap := a\<rparr>) g = table_frame x g" "table_frame (x\<lparr>user_ro_heap := a\<rparr>) g = table_frame x g" for x a g
      by (simp_all add: table_frame_def)
    have sub: "get_paddr ` set gs \<subseteq> get_paddr ` set fs" using h(9) by auto
    note m1 = h11 [unfolded mem_step_def] and m2 = u(10) [unfolded mem_step_def]
    have "table_frame s g \<or> g \<in> get_paddr ` set fs" if g: "table_frame t' g" for g
    proof -
      have "table_frame t g \<or> g \<in> get_paddr ` set gs" using m2 g by (simp add: tab)
      then show ?thesis using m1 sub by blast
    qed
    moreover have "pmem t' a = pmem s a" if a: "\<not> table_frame s (get_paddr a)" "get_paddr a \<notin> get_paddr ` set fs" for a
    proof -
      have "\<not> table_frame t (get_paddr a)" "get_paddr a \<notin> get_paddr ` set gs" using m1 a sub by blast+
      then have "pmem t' a = pmem t a" using m2 by (simp add: tab)
      then show ?thesis using m1 a by simp
    qed
    moreover have "pde t' k = pde s k" if "k < 1024" "entry_present (pde s k)" for k
      using m1 m2 that by simp
    ultimately show "mem_step (s\<lparr>kernel_heap := kernel_heap ?t, user_ro_heap := user_ro_heap ?t\<rparr>) ?t (get_paddr ` set fs)"
      using cfg unfolding mem_step_def tab by simp
    have "user_ok t' 1022 ?uf" using \<open>\<not> entry_present (pde ?s1 1022)\<close> by (intro u(12)) (simp_all add: user_ok_def)
    then show "user_ok ?t 1022 PAGE_USER_MODE"
      by (simp add: user_ok_def PAGE_WRITABLE_def PAGE_GLOBAL_def PAGE_USER_MODE_def)
    show "length fs \<le> length gs' + 34" using h(10) u(9) m(3) by simp
  qed (use init u h(3-5,9) kh pm pu other in auto)
qed

text \<open>With the cell behind the usage map free, the kernel heap and the page tables fit together.\<close>

lemma init_heap_kernel_mem:
  assumes inv: "mem_inv s fs" and sp: "space_ok s"
    and t: "mem_inv t gs" "heap_start (kernel_heap t) = page_no (free_list_head s) (1 + map_pages_of (space_pages s - 1024))"
      "page_count (kernel_heap t) = word_of_nat (space_pages s - 1024)"
      "\<And>k. k < space_pages s - 1024 \<Longrightarrow> page_use (kernel_heap t) k = 0" "free_list_head t = free_list_head s"
    and cell: "page_use (kernel_heap t) (space_pages s - 1024) = 0"
  shows "kernel_mem t gs"
proof -
  have al: "frame_aligned (free_list_head s)" using mem_window [OF inv] by (simp add: window_ok_def)
  note ev = space_eval [OF al sp] and page = space_page [OF al sp]
  define K where "K = space_pages s - 1024"
  have K: "0 < K" "K \<le> 2 ^ 18" "space_pages s = K + 1024" using ev(2,3) by (simp_all add: K_def)
  note m = map_pages_bounds [OF K(1,2)]
  have pc: "unat (page_count (kernel_heap t)) = K"
    unfolding t(3) K_def [symmetric] by (rule unat_of_nat_u32) (use K in simp)
  have "frame_aligned (page_no (free_list_head s) k)" for k using al by (simp add: frame_unat page_no_unat dvd_mod_iff)
  then have "is_page_aligned (heap_start (kernel_heap t))" unfolding t(2) by (rule frame_page_aligned)
  then have wf: "heap_wf (kernel_heap t)"
    using cell K(2) by (simp add: heap_wf_def heap_ok_def pc K_def)
  have "plain_page t (page_addr (kernel_heap t) k)" if "k < K" for k
  proof -
    have "page_addr (kernel_heap t) k = page_no (free_list_head s) (1 + map_pages_of K + k)"
      by (simp add: page_addr_page_no t(2) K_def page_no_add)
    then show ?thesis using page(2) [of "1 + map_pages_of K + k"] that m(3) K(3) t(5) by (simp add: plain_page_def)
  qed
  then have "heap_backed t (kernel_heap t) PAGE_WRITABLE"
    using wf t(4) by (simp add: heap_backed_def pc user_ok_def PAGE_WRITABLE_def PAGE_USER_MODE_def K_def)
  then show ?thesis using t(1) by (simp add: kernel_mem_def)
qed

subsection \<open>Properties\<close>

text \<open>
  Making the heaps of the kernel. With 34 free frames and nothing mapped behind the page of
  the free list, \<open>init_heap\<close> returns; both heaps are empty, the kernel's starts behind its usage
  map and the other one behind the page of its own, every page that was mapped before translates
  as before, and the free list stays one. If moreover the two bits behind the usage map are 0,
  which \<open>heap_init\<close> clears only when the number of pages is not a multiple of 4, the invariant of
  the kernel's memory holds.
\<close>

theorem init_heap_correct:
  assumes inv: "mem_inv s fs" and sp: "space_ok s" and room: "34 \<le> length fs"
  shows "\<exists>t gs. init_heap s = Inr t \<and> mem_inv t gs \<and> set gs \<subseteq> set fs \<and> length fs \<le> length gs + 34 \<and>
    heap_start (kernel_heap t) = page_no (free_list_head s) (1 + map_pages_of (space_pages s - 1024)) \<and>
    page_count (kernel_heap t) = word_of_nat (space_pages s - 1024) \<and>
    heap_start (user_ro_heap t) = page_no (free_list_head s) (space_pages s - 1024 + 2) \<and> page_count (user_ro_heap t) = 1024 \<and>
    (\<forall>k < space_pages s - 1024. page_use (kernel_heap t) k = 0) \<and> (\<forall>k < 1024. page_use (user_ro_heap t) k = 0) \<and>
    (\<forall>w f. plain_page s w \<longrightarrow> translate s w = Inr f \<longrightarrow> translate t w = Inr f) \<and>
    (space_pages s mod 4 \<noteq> 0 \<longrightarrow> page_use (kernel_heap t) (space_pages s - 1024) = 0) \<and>
    (page_use (kernel_heap t) (space_pages s - 1024) = 0 \<longrightarrow> kernel_mem t gs)"
proof (rule init_heap_ok [OF inv sp room])
  fix t gs
  let ?v = "free_list_head s" and ?K = "space_pages s - 1024"
  assume t: "init_heap s = Inr t" "mem_inv t gs" "set gs \<subseteq> set fs" "length fs \<le> length gs + 34"
    "heap_start (kernel_heap t) = page_no ?v (1 + map_pages_of ?K)" "page_count (kernel_heap t) = word_of_nat ?K"
    "\<And>k. k < ?K \<Longrightarrow> page_use (kernel_heap t) k = 0" "?K mod 4 \<noteq> 0 \<Longrightarrow> page_use (kernel_heap t) ?K = 0"
    "heap_start (user_ro_heap t) = page_no ?v (?K + 2)" "page_count (user_ro_heap t) = 1024"
    "\<And>k. k < 1024 \<Longrightarrow> page_use (user_ro_heap t) k = 0"
    "mem_step (s\<lparr>kernel_heap := kernel_heap t, user_ro_heap := user_ro_heap t\<rparr>) t (get_paddr ` set fs)"
    "\<And>w. plain_page s w \<Longrightarrow> drop_bit 12 w \<noteq> drop_bit 12 (page_no ?v (?K + 1)) \<Longrightarrow>
       (\<forall>k < map_pages_of ?K. drop_bit 12 w \<noteq> drop_bit 12 (page_no ?v (1 + k))) \<Longrightarrow> page_at t w = page_at s w"
  have al: "frame_aligned ?v" using mem_window [OF inv] by (simp add: window_ok_def)
  note ev = space_eval [OF al sp] and page = space_page [OF al sp]
  have m: "map_pages_of ?K \<le> ?K" by (rule map_pages_bounds) (use ev(2,3) in simp_all)
  have "translate t w = Inr f" if w: "plain_page s w" "translate s w = Inr f" for w f
  proof -
    have pr: "entry_present (page_at s w)" using w(2) page_at_translate [OF mem_paging [OF inv], of w] by (auto split: if_splits)
    have "drop_bit 12 w \<noteq> drop_bit 12 (page_no ?v k)" if "1 \<le> k" "k \<le> ?K + 1" for k
      using page(3) [of k] page_at_same [of w "page_no ?v k"] pr that ev(2) by auto
    then have "page_at t w = page_at s w" using m by (intro t(13) [OF w(1)]) auto
    then show ?thesis
      using w(2) pr by (simp add: page_at_translate [OF mem_paging [OF t(2)]] page_at_translate [OF mem_paging [OF inv]])
  qed
  moreover have "free_list_head t = ?v" using same_configD(4) [OF mem_step_config [OF t(12)]] by simp
  then have "page_use (kernel_heap t) ?K = 0 \<longrightarrow> kernel_mem t gs"
    using init_heap_kernel_mem [OF inv sp t(2,5-7)] by blast
  moreover have "space_pages s mod 4 \<noteq> 0 \<longrightarrow> ?K mod 4 \<noteq> 0" using ev(2) by presburger
  ultimately show ?thesis using t(1-11) by blast
qed

text \<open>An example: the page of the free list is the fifth of the kernel's address space, nothing else
  is mapped, and 34 frames are free.\<close>

definition high_mem :: bytes where
  "high_mem = wr32 (wr32 (\<lambda>_. 0) 0x1FFC 0x1003) 0x1C00 0x2003"

definition high :: kmem where
  "high = demo\<lparr>pmem := high_mem, free_list_head := 0xC0005000, free_list_head_pte := 0xFFF00014, free_frame_paddr := 0\<rparr>"

lemma rd32_high:
  assumes "dword_aligned a"
  shows "rd32 high_mem a = (if a = 0x1C00 then 0x2003 else if a = 0x1FFC then 0x1003 else 0)"
proof -
  have wr: "rd32 (wr32 m b v) a = (if a = b then v else rd32 m a)" if "dword_aligned b" for m b v
    using that assms by auto
  have z: "rd32 (\<lambda>_. 0) a = 0" by (simp add: rd32_def)
  show ?thesis unfolding high_mem_def by (simp add: wr z dword_aligned_def)
qed

lemma high_pde: "k < 1024 \<Longrightarrow> pde high k = (if k = 0x300 then 0x2003 else if k = 1023 then 0x1003 else 0)"
proof -
  assume k: "k < 1024"
  have al: "frame_aligned 0x1000" by (simp add: frame_aligned_def)
  have "0x1000 + 4 * k = 0x1C00 \<longleftrightarrow> k = 0x300" "0x1000 + 4 * k = 0x1FFC \<longleftrightarrow> k = 1023"
    using frame_index_inj [of "0x1000" "0x1000" k "0x300"] frame_index_inj [of "0x1000" "0x1000" k 1023] al k by simp_all
  then show ?thesis
    using rd32_high [of "0x1000 + 4 * k"] frame_index_aligned [OF al k] by (simp add: pde_def high_def demo_def)
qed

lemma high_pte: "k < 1024 \<Longrightarrow> pte high 0x300 k = 0"
proof -
  assume k: "k < 1024"
  have al: "frame_aligned 0x2000" "frame_aligned 0x1000" by (simp_all add: frame_aligned_def)
  have "0x2000 + 4 * k \<noteq> 0x1C00" "0x2000 + 4 * k \<noteq> 0x1FFC"
    using frame_index_inj [of "0x2000" "0x1000" k "0x300"] frame_index_inj [of "0x2000" "0x1000" k 1023] al k by simp_all
  then show ?thesis
    using rd32_high [of "0x2000 + 4 * k"] frame_index_aligned [OF al(1) k] high_pde [of "0x300"]
    by (simp add: pte_def pt_def get_paddr_def high_def)
qed

lemma high_present: "k < 1024 \<Longrightarrow> entry_present (pde high k) \<longleftrightarrow> k = 0x300 \<or> k = 1023"
  using high_pde [of k] by (simp add: entry_present_def)

lemma high_pt: "pt high 0x300 = 0x2000" "pt high 1023 = 0x1000"
  by (simp_all add: pt_def high_pde get_paddr_def)

lemma high_tables: "table_frame high g \<Longrightarrow> g = 0x2000 \<or> g = 0x1000"
  using high_present high_pt unfolding table_frame_def by auto

lemma high_window: "free_list_head high = 0xC0005000" "get_pd_index 0xC0005000 = 0x300" "get_pt_index 0xC0005000 = 5"
  by (simp_all add: high_def get_pd_index_def get_pt_index_def)

lemma high_unmapped: "get_pd_index w < 1023 \<Longrightarrow> page_at high w = 0"
  using high_present [OF pd_index_less, of w] high_pte [OF pt_index_less, of w]
  by (auto simp: page_at_def view_def)

lemma high_unreferenced: "f \<noteq> 0x2000 \<Longrightarrow> f \<noteq> 0x1000 \<Longrightarrow> unreferenced high f"
  unfolding unreferenced_pages using high_tables high_unmapped by (auto simp: plain_page_def)

lemma high_inv: "mem_inv high []"
proof -
  have "paging_ok high"
    unfolding paging_ok_def using high_present high_pt by (auto simp: high_def demo_def frame_aligned_def)
  moreover have "window_ok high"
    unfolding window_ok_def high_window using high_present
    by (simp add: frame_aligned_def) (simp add: high_def pte_addr_def page_table_entries_def)
  ultimately show ?thesis by (simp add: mem_inv_def high_def)
qed

lemma high_frames:
  obtains s fs where "mem_inv s fs" "space_ok s" "34 \<le> length fs" "space_pages s mod 4 \<noteq> 0"
    "kernel_heap s = heap_empty" "free_list_head s = 0xC0005000"
proof -
  let ?gs = "map (\<lambda>k. 0x3000 + 4096 * word_of_nat k :: u32) [0..<34]"
  have u: "unat (0x3000 + 4096 * word_of_nat k :: u32) = 0x3000 + 4096 * k" if "k < 34" for k
    using that by (simp add: unat_word_ariths unat_of_nat)
  have "frame_aligned g \<and> g \<noteq> 0 \<and> unreferenced high g \<and> g \<notin> get_paddr ` set []" if gm: "g \<in> set ?gs" for g
  proof -
    obtain k where k: "k < 34" "g = 0x3000 + 4096 * word_of_nat k" using gm by auto
    have g: "unat g = 0x3000 + 4096 * k" using u [OF k(1)] by (simp add: k(2))
    have "4096 dvd unat g" unfolding g by (simp add: dvd_add)
    then have "frame_aligned g" by (simp add: frame_unat)
    moreover have "g \<noteq> 0" "g \<noteq> 0x2000" "g \<noteq> 0x1000" using g by auto
    ultimately show ?thesis using high_unreferenced by simp
  qed
  moreover have "inj_on (\<lambda>k. 0x3000 + 4096 * word_of_nat k :: u32) {0..<34}"
  proof (rule inj_onI)
    fix i j :: nat
    assume ij: "i \<in> {0..<34}" "j \<in> {0..<34}" "0x3000 + 4096 * word_of_nat i = (0x3000 + 4096 * word_of_nat j :: u32)"
    then have "i < 34" "j < 34" by simp_all
    from trans [OF u [OF this(1), symmetric, unfolded ij(3)] u [OF this(2)]] show "i = j" by simp
  qed
  then have "distinct ?gs" by (simp add: distinct_map)
  ultimately obtain t where t: "mem_inv t (rev ?gs @ [])" "\<And>k. k < 1024 \<Longrightarrow> pde t k = pde high k" "mem_step high t (set ?gs)"
    "\<And>w. drop_bit 12 w \<noteq> drop_bit 12 (free_list_head high) \<Longrightarrow> page_at t w = page_at high w"
    using give_frames [OF high_inv, of ?gs] by metis
  have hd: "free_list_head t = 0xC0005000" using same_configD(4) [OF mem_step_config [OF t(3)]] by (simp add: high_window)
  have "page_at t w = 0" if w: "0xC0006000 \<le> w" "w < 0xFFC00000" for w
  proof -
    have b: "0xC0006000 \<le> unat w" "unat w < 0xFFC00000" using w by (simp_all add: word_le_nat_alt word_less_nat_alt)
    have "unat w div 0x400000 < 1023" using b(2) by (simp add: div_less_iff_less_mult)
    then have "get_pd_index w < 1023" by (simp add: word_less_nat_alt unat_pd_index)
    moreover have "0xC0006 \<le> unat w div 4096" using b(1) by (subst less_eq_div_iff_mult_less_eq) simp_all
    then have "drop_bit 12 w \<noteq> drop_bit 12 (0xC0005000 :: u32)" unfolding drop_bit_12_eq by simp
    ultimately show ?thesis using t(4) [of w] high_unmapped by (simp add: high_window)
  qed
  then have "space_ok t" using t(2) [of 1022] high_pde [of 1022] by (simp add: space_ok_def hd PAGE_SIZE_def)
  moreover have "space_pages t mod 4 \<noteq> 0" by (simp add: space_pages_def hd)
  moreover have "kernel_heap t = heap_empty"
    using mem_step_config [OF t(3)] by (simp add: same_config_def high_def demo_def)
  ultimately show ?thesis using t(1) hd by (intro that [of t "rev ?gs @ []"]) simp_all
qed

theorem init_heap_correct_witness:
  "\<exists>s fs t gs. mem_inv s fs \<and> init_heap s = Inr t \<and> kernel_mem t gs"
proof (rule high_frames)
  fix s fs
  assume s: "mem_inv s fs" "space_ok s" "34 \<le> length fs" "space_pages s mod 4 \<noteq> 0"
  from init_heap_correct [OF s(1-3)] s show ?thesis by blast
qed

end
