(* ===== verification/HeapDebug.thy ===== *)
theory HeapDebug
  imports HeapInit Mailbox
begin

section \<open>Checks of the kernel heap\<close>

text \<open>
  The debugging aids of \<^verbatim>\<open>memory/heap.c\<close> and \<^verbatim>\<open>memory/mem.c\<close>: a picture of the usage map on
  the screen and the serial line, and the check that the kernel heap and the page tables agree.
  The check fails from the start, since the two heaps that \<^verbatim>\<open>init_heap\<close> makes overlap.
\<close>

unbundle bit_operations_syntax

subsection \<open>The picture of a heap\<close>

definition heap_colors :: "VgaColor list" where
  "heap_colors = [VGA_COLOR_WHITE, VGA_COLOR_RED, VGA_COLOR_GREEN, VGA_COLOR_BLUE]"

definition heap_chars :: "u8 list" where
  "heap_chars = map ch ''.RGB''"

primrec heap_debug_loop :: "nat \<Rightarrow> Heap \<Rightarrow> u32 \<Rightarrow> Terminal \<times> io \<Rightarrow> (Terminal \<times> io) res" where
  "heap_debug_loop 0 heap i x = Inr x"
| "heap_debug_loop (Suc n) heap i x =
     (let usage = unat (heap_get_usage heap i);
          x = apfst (\<lambda>t. t\<lparr>color := vga_color_create VGA_COLOR_BLACK (heap_colors ! usage)\<rparr>) x
      in bind_res (terminal_putchar (ch CHR '' '') x) (\<lambda>(t, s).
         bind_res (serial_write (heap_chars ! usage) s) (\<lambda>s.
         heap_debug_loop n heap (i + 1) (t, s))))"

definition heap_debug :: "Heap \<Rightarrow> u32 \<Rightarrow> Terminal \<times> io \<Rightarrow> (Terminal \<times> io) res" where
  "heap_debug heap pages x =
     (let pages = if pages > page_count heap then page_count heap else pages
      in bind_res (heap_debug_loop (unat pages) heap 0 x) (\<lambda>(t, s).
         terminal_putchar (ch CHR ''\<newline>'') (t\<lparr>color := vga_color_create VGA_COLOR_LIGHT_GREY VGA_COLOR_BLACK\<rparr>, s)))"

subsection \<open>The check of the kernel heap\<close>

text \<open>The address grows by a page in each round, so that it is behind the end after \<open>2 ^ 20\<close> rounds.\<close>

primrec debug_heap_loop :: "nat \<Rightarrow> kmem \<Rightarrow> u32 \<Rightarrow> unit res" where
  "debug_heap_loop 0 s addr = Inl Diverges"
| "debug_heap_loop (Suc n) s addr =
     (if addr < page_table_entries then
        bind_res (get_entry s addr) (\<lambda>e.
        kernel_assert (heap_is_used (kernel_heap s) addr = entry_present e)
          (debug_heap_loop n s (addr + PAGE_SIZE)))
      else Inr ())"

definition debug_heap :: "kmem \<Rightarrow> u32 \<Rightarrow> Terminal \<times> io \<Rightarrow> (Terminal \<times> io) res" where
  "debug_heap s pages x =
     bind_res (debug_heap_loop (2 ^ 20) s (heap_start (kernel_heap s))) (\<lambda>_.
       heap_debug (kernel_heap s) pages x)"

text \<open>The message of \<^verbatim>\<open>print_frame_usage\<close> and its arguments, as an entry of the log.\<close>

definition print_frame_usage :: "kmem \<Rightarrow> kernel_log \<Rightarrow> kernel_log" where
  "print_frame_usage s log = log @ [(INFO, ''Usage: %u/%u'' @ [CHR 10], [used_frames s, total_frames s])]"

subsection \<open>The characters sent\<close>

text \<open>The cursor stands on a cell of the screen, or behind the last cell of its row.\<close>

definition cursor_ok :: "Terminal \<Rightarrow> bool" where
  "cursor_ok t \<longleftrightarrow> term_ok t \<and> unat (row t) < unat (height t) \<and> unat (col t) \<le> unat (width t)"

lemma cursor_ok_color [simp]: "cursor_ok (t\<lparr>color := c\<rparr>) = cursor_ok t"
  by (simp add: cursor_ok_def term_ok_def)

lemma next_row_cursor:
  assumes "cursor_ok t"
  shows "\<exists>t' s'. next_row t s = Inr (t', s') \<and> quiet s s' \<and> cursor_ok t' \<and> col t' = 0 \<and> width t' = width t"
proof -
  let ?t = "t\<lparr>col := 0, row := row t + 1\<rparr>"
  have ok: "term_ok t" "unat (row t) < unat (height t)" using assms by (simp_all add: cursor_ok_def)
  have r: "unat (row t + 1) = unat (row t) + 1"
    using ok(2) unat_lt_u32 [of "height t"] by (simp add: unat_add_u32 del: unat_lt_u32)
  show ?thesis
  proof (cases "row ?t = height ?t")
    case True
    have t: "term_ok (?t\<lparr>row := row ?t - 1\<rparr>)" using ok(1) by (simp add: term_ok_def)
    let ?u = "?t\<lparr>row := row ?t - 1, buffer := drop (unat (width t)) (buffer t) @ replicate (unat (width t)) (blank t)\<rparr>"
    have "next_row t s = Inr (?u, update_cursor ?u s)"
      using True terminal_scroll_ok [OF t, of s] by (simp add: next_row_def Let_def)
    moreover have "unat (width t) \<le> length (buffer t)" using ok(1) by (auto simp: term_ok_def)
    then have "cursor_ok ?u" using ok by (simp add: cursor_ok_def term_ok_def)
    ultimately show ?thesis by (intro exI [of _ ?u] exI [of _ "update_cursor ?u s"]) simp
  next
    case False
    then have "next_row t s = Inr (?t, s)" by (simp add: next_row_def Let_def)
    moreover have "unat (row t + 1) \<noteq> unat (height t)" using False by (simp add: word_unat_eq_iff)
    then have "cursor_ok ?t" using ok r by (simp add: cursor_ok_def term_ok_def)
    ultimately show ?thesis by (intro exI [of _ ?t] exI [of _ s]) simp
  qed
qed

lemma put_cell_cursor:
  assumes "cursor_ok t" "unat (col t) < unat (width t)"
  shows "\<exists>t'. put_cell (row t * width t + col t) v t = Inr t' \<and> cursor_ok (t'\<lparr>col := col t' + 1\<rparr>)"
proof -
  have ok: "term_ok t" "unat (row t) < unat (height t)" using assms(1) by (simp_all add: cursor_ok_def)
  have "unat (row t * width t + col t) < length (buffer t)"
    using unat_cell [of "width t" "unat (height t)" "unat (row t)" "unat (col t)"] ok assms(2) by (simp add: term_ok_def)
  moreover have "unat (col t + 1) = unat (col t) + 1"
    using assms(2) unat_lt_u32 [of "width t"] by (simp add: unat_add_u32 del: unat_lt_u32)
  ultimately show ?thesis using ok assms(2) by (simp add: put_cell_def cursor_ok_def term_ok_def)
qed

lemma putchar_cursor:
  assumes ok: "cursor_ok t" and c: "c \<noteq> 9" "c \<noteq> 8"
  shows "\<exists>t' s'. terminal_putchar c (t, s) = Inr (t', s') \<and> quiet s s' \<and> cursor_ok t'"
proof -
  obtain u r where u: "next_row t s = Inr (u, r)" "quiet s r" "cursor_ok u" "col u = 0" "width u = width t"
    using next_row_cursor [OF ok] by blast
  have w: "0 < unat (width t)" using ok by (simp add: cursor_ok_def term_ok_def)
  let ?place = "if col t \<ge> width t then next_row t s else Inr (t, s)"
  obtain v q where v: "?place = Inr (v, q)" "quiet s q" "cursor_ok v" "unat (col v) < unat (width v)"
  proof (cases "col t \<ge> width t")
    case True
    then show ?thesis using u w by (intro that [of u r]) auto
  next
    case False
    then show ?thesis using ok by (intro that [of t s]) (auto simp: word_le_nat_alt)
  qed
  obtain v' where v': "put_cell (row v * width v + col v) (vga_entry_create c (color v)) v = Inr v'"
    "cursor_ok (v'\<lparr>col := col v' + 1\<rparr>)" using put_cell_cursor [OF v(3,4)] by blast
  show ?thesis
  proof (cases "c = ch CHR ''\<newline>''")
    case True
    then show ?thesis using u quiet_trans [OF u(2) quiet_cursor] by (simp add: terminal_putchar_def)
  next
    case False
    then show ?thesis
      using c v(1) v' quiet_trans [OF v(2) quiet_cursor] by (auto simp: terminal_putchar_def Let_def)
  qed
qed

lemma length_heap_chars [simp]: "length heap_chars = 4"
  by (simp add: heap_chars_def)

lemma heap_debug_loop_ok:
  assumes "cursor_ok t" "line_live (device s)"
  shows "\<exists>t' s'. heap_debug_loop n h i (t, s) = Inr (t', s') \<and> device s' = device s \<and> cursor_ok t' \<and>
    serial_data s' = serial_data s @ map (\<lambda>k. heap_chars ! unat (heap_get_usage h (i + word_of_nat k))) [0..<n]"
  using assms
proof (induction n arbitrary: i t s)
  case (Suc n)
  let ?u = "unat (heap_get_usage h i)"
  let ?t = "t\<lparr>color := vga_color_create VGA_COLOR_BLACK (heap_colors ! ?u)\<rparr>"
  obtain t1 s1 where 1: "terminal_putchar (ch CHR '' '') (?t, s) = Inr (t1, s1)" "quiet s s1" "cursor_ok t1"
    using putchar_cursor [of ?t "ch CHR '' ''" s] Suc.prems(1) by auto
  have "line_live (device s1)" using Suc.prems(2) 1(2) by (simp add: quiet_def)
  from serial_write_data [OF this] obtain s2 where 2: "serial_write (heap_chars ! ?u) s1 = Inr s2"
    "device s2 = device s1" "serial_data s2 = serial_data s1 @ [heap_chars ! ?u]" by blast
  have "line_live (device s2)" using \<open>line_live (device s1)\<close> 2(2) by simp
  from Suc.IH [OF 1(3) this, of "i + 1"] obtain t' s' where 3: "heap_debug_loop n h (i + 1) (t1, s2) = Inr (t', s')"
    "device s' = device s2" "cursor_ok t'" "serial_data s' = serial_data s2 @
      map (\<lambda>k. heap_chars ! unat (heap_get_usage h (i + 1 + word_of_nat k))) [0..<n]" by blast
  have run: "heap_debug_loop (Suc n) h i (t, s) = Inr (t', s')" using 1(1) 2(1) 3(1) by (simp add: Let_def)
  have "[0..<Suc n] = 0 # map Suc [0..<n]" by (simp add: map_Suc_upt upt_conv_Cons del: upt_Suc)
  then have "serial_data s' = serial_data s @
      map (\<lambda>k. heap_chars ! unat (heap_get_usage h (i + word_of_nat k))) [0..<Suc n]"
    using 1(2) 2(3) 3(4) by (simp add: quiet_def o_def add.assoc del: upt_Suc)
  then show ?case using run 1(2) 2(2) 3(2,3) by (simp add: quiet_def del: heap_debug_loop.simps)
qed simp

lemma heap_debug_ok:
  assumes "cursor_ok t" "line_live (device s)"
  shows "\<exists>t' s'. heap_debug h pages (t, s) = Inr (t', s') \<and> cursor_ok t' \<and>
    serial_data s' = serial_data s @ map (\<lambda>k. heap_chars ! unat (page_use h k)) [0..<min (unat pages) (unat (page_count h))]"
proof -
  let ?n = "if pages > page_count h then page_count h else pages"
  have n: "unat ?n = min (unat pages) (unat (page_count h))" by (auto simp: word_less_nat_alt)
  obtain t1 s1 where 1: "heap_debug_loop (unat ?n) h 0 (t, s) = Inr (t1, s1)" "cursor_ok t1"
    "serial_data s1 = serial_data s @ map (\<lambda>k. heap_chars ! unat (heap_get_usage h (0 + word_of_nat k))) [0..<unat ?n]"
    using heap_debug_loop_ok [OF assms] by blast
  let ?t = "t1\<lparr>color := vga_color_create VGA_COLOR_LIGHT_GREY VGA_COLOR_BLACK\<rparr>"
  obtain t2 s2 where 2: "terminal_putchar (ch CHR ''\<newline>'') (?t, s1) = Inr (t2, s2)" "quiet s1 s2" "cursor_ok t2"
    using putchar_cursor [of ?t "ch CHR ''\<newline>''" s1] 1(2) by auto
  then show ?thesis using 1 n by (auto simp: heap_debug_def Let_def quiet_def page_use_def)
qed

subsection \<open>The pages checked\<close>

text \<open>The number of pages from the start of a heap to the page tables.\<close>

definition pages_to_end :: "u32 \<Rightarrow> nat" where
  "pages_to_end v = (0xFFC00000 - unat v) div 4096"

definition heap_agrees :: "kmem \<Rightarrow> nat \<Rightarrow> bool" where
  "heap_agrees s k \<longleftrightarrow> heap_is_used (kernel_heap s) (page_addr (kernel_heap s) k) =
     entry_present (page_at s (page_addr (kernel_heap s) k))"

lemma debug_heap_loop_eval:
  assumes ok: "paging_ok s" and al: "frame_aligned a" and n: "pages_to_end a < n"
  shows "debug_heap_loop n s a = (if \<forall>k < pages_to_end a.
      heap_is_used (kernel_heap s) (page_no a k) = entry_present (page_at s (page_no a k)) then Inr () else Inl Panic)"
  using al n
proof (induction n arbitrary: a)
  case (Suc n)
  have e: "unat page_table_entries = 0xFFC00000" by (simp add: page_table_entries_def)
  have g: "get_entry s a = Inr (page_at s a)" using get_entry_view [OF ok] by (simp add: page_at_def)
  show ?case
  proof (cases "a < page_table_entries")
    case True
    then have lt: "unat a < 0xFFC00000" by (simp add: word_less_nat_alt e)
    obtain q where q: "unat a = 4096 * q" using Suc.prems(1) unfolding frame_unat by (rule dvdE)
    have u: "unat (a + PAGE_SIZE) = unat a + 4096" using lt by (simp add: PAGE_SIZE_def unat_add_u32)
    have "q < 0xFFC00" using lt by (simp add: q)
    then have c: "pages_to_end a = Suc (pages_to_end (a + PAGE_SIZE))"
      unfolding pages_to_end_def u q by (simp add: Suc_diff_le)
    have al: "frame_aligned (a + PAGE_SIZE)" by (rule frame_aligned_page_no [OF Suc.prems(1)])
    let ?P = "\<lambda>k. heap_is_used (kernel_heap s) (page_no a k) = entry_present (page_at s (page_no a k))"
    have "(\<forall>k < Suc j. ?P k) \<longleftrightarrow> ?P 0 \<and> (\<forall>k < j. ?P (Suc k))" for j by (rule All_less_Suc2)
    then show ?thesis
      using True Suc.IH [OF al] Suc.prems(2) by (simp add: c g page_no_Suc kernel_assert_def kernel_panic_def)
  next
    case False
    then have "pages_to_end a = 0" by (simp add: pages_to_end_def word_less_nat_alt e not_less)
    then show ?thesis using False by simp
  qed
qed simp

lemma debug_heap_eval:
  assumes ok: "paging_ok s" and al: "frame_aligned (heap_start (kernel_heap s))"
  shows "debug_heap s pages x = (if \<forall>k < pages_to_end (heap_start (kernel_heap s)). heap_agrees s k
    then heap_debug (kernel_heap s) pages x else Inl Panic)"
proof -
  have "pages_to_end v \<le> 0xFFC00000 div 4096" for v unfolding pages_to_end_def by (rule div_le_mono) simp
  then have "pages_to_end v < 2 ^ 20" for v by (rule le_less_trans) simp
  then have "pages_to_end (heap_start (kernel_heap s)) < 2 ^ 20" by simp
  define agree where "agree \<longleftrightarrow> (\<forall>k < pages_to_end (heap_start (kernel_heap s)). heap_agrees s k)"
  have "debug_heap_loop (2 ^ 20) s (heap_start (kernel_heap s)) = (if agree then Inr () else Inl Panic)"
    unfolding agree_def heap_agrees_def page_addr_page_no by (rule debug_heap_loop_eval [OF ok al]) fact
  then show ?thesis unfolding agree_def [symmetric] by (simp add: debug_heap_def)
qed

subsection \<open>Properties\<close>

text \<open>
  The check of the kernel heap. \<open>debug_heap\<close> returns if and only if, for every page from the
  start of the heap to the page tables, the heap says that it is used exactly when it is mapped;
  otherwise it panics. When it returns, it has sent to the serial line one character for each of
  the first pages of the heap, a point for a free page and a letter for each of the three colours
  of allocations.
\<close>

theorem debug_heap_correct:
  assumes ok: "paging_ok s" and al: "frame_aligned (heap_start (kernel_heap s))"
    and screen: "cursor_ok t" and line: "line_live (device io)"
  shows "case debug_heap s pages (t, io) of
      Inl e \<Rightarrow> e = Panic \<and> (\<exists>k < pages_to_end (heap_start (kernel_heap s)). \<not> heap_agrees s k)
    | Inr (t', io') \<Rightarrow> (\<forall>k < pages_to_end (heap_start (kernel_heap s)). heap_agrees s k) \<and> cursor_ok t' \<and>
        serial_data io' = serial_data io @
          map (\<lambda>k. heap_chars ! unat (page_use (kernel_heap s) k))
            [0..<min (unat pages) (unat (page_count (kernel_heap s)))]"
proof -
  obtain t' io' where "heap_debug (kernel_heap s) pages (t, io) = Inr (t', io')" "cursor_ok t'"
    "serial_data io' = serial_data io @ map (\<lambda>k. heap_chars ! unat (page_use (kernel_heap s) k))
      [0..<min (unat pages) (unat (page_count (kernel_heap s)))]"
    using heap_debug_ok [OF screen line] by blast
  then show ?thesis using debug_heap_eval [OF ok al, of pages "(t, io)"] by auto
qed

text \<open>An example: nothing is mapped behind the page of the free list, and the heap is empty.\<close>

definition high_debug :: kmem where
  "high_debug = high\<lparr>kernel_heap := heap_empty\<lparr>heap_start := 0xC0006000\<rparr>\<rparr>"

definition small_screen :: Terminal where
  "small_screen = \<lparr>row = 0, col = 0, width = 1, height = 1, color = 7, buffer = [0]\<rparr>"

lemma high_debug_use: "heap_get_usage (kernel_heap high_debug) i = 0"
  by (simp add: heap_get_usage_def high_debug_def heap_empty_def Let_def)

lemma high_debug_agrees: "k < pages_to_end (heap_start (kernel_heap high_debug)) \<Longrightarrow> heap_agrees high_debug k"
proof -
  assume k: "k < pages_to_end (heap_start (kernel_heap high_debug))"
  have "(0xFFC00000 - 0xC0006000) div 4096 = (0x3FBFA :: nat)" by simp
  then have "k < 0x3FBFA" using k by (simp add: pages_to_end_def high_debug_def)
  then have u: "unat (page_addr (kernel_heap high_debug) k) = 0xC0006000 + 4096 * k"
    by (simp add: page_addr_page_no page_no_unat high_debug_def)
  have "unat (page_addr (kernel_heap high_debug) k) div 0x400000 < 1023"
    unfolding u using \<open>k < 0x3FBFA\<close> by (simp add: div_less_iff_less_mult)
  then have "get_pd_index (page_addr (kernel_heap high_debug) k) < 1023" by (simp add: word_less_nat_alt unat_pd_index)
  then have "page_at high (page_addr (kernel_heap high_debug) k) = 0" by (rule high_unmapped)
  moreover have "page_at high_debug v = page_at high v" for v by (simp add: high_debug_def)
  moreover have "\<not> entry_present 0" by (simp add: entry_present_def)
  ultimately show ?thesis
    by (simp add: heap_agrees_def heap_is_used_def high_debug_use HEAP_PAGE_FREE_def)
qed

theorem debug_heap_correct_witness:
  "\<exists>t io. debug_heap high_debug 3 (small_screen, demo_port) = Inr (t, io) \<and> serial_data io = map ch ''...''"
proof -
  have ok: "paging_ok high_debug" by (rule mem_paging [of _ "[]"]) (simp add: high_debug_def high_inv)
  have al: "frame_aligned (heap_start (kernel_heap high_debug))" by (simp add: high_debug_def frame_aligned_def)
  have screen: "cursor_ok small_screen" by (simp add: cursor_ok_def term_ok_def small_screen_def)
  have line: "line_live (device demo_port)" by (simp add: line_live_def demo_port_def)
  note c = debug_heap_correct [OF ok al screen line, of 3]
  have u: "page_use (kernel_heap high_debug) k = 0" for k by (simp add: page_use_def high_debug_use)
  have m: "min (unat (3 :: u32)) (unat (page_count (kernel_heap high_debug))) = 3" by (simp add: high_debug_def heap_empty_def)
  have l: "map (\<lambda>k. heap_chars ! unat (page_use (kernel_heap high_debug) k)) [0..<3] = map ch ''...''"
    by (simp add: u heap_chars_def upt_rec)
  have o: "serial_data demo_port = []" by (simp add: serial_data_def demo_port_def)
  show ?thesis
  proof (cases "debug_heap high_debug 3 (small_screen, demo_port)")
    case (Inl e)
    show ?thesis using c high_debug_agrees unfolding Inl sum.case by blast
  next
    case (Inr r)
    then show ?thesis using c l o by (cases r) (simp only: sum.case prod.case m, simp)
  qed
qed

lemma first_fit_start: "unat n \<le> unat (page_count h) \<Longrightarrow> (\<And>k. k < unat (page_count h) \<Longrightarrow> page_use h k = 0) \<Longrightarrow> first_fit h (unat n) 0"
  by (simp add: first_fit_def free_run_def)

text \<open>An allocation from the start of an empty heap that reaches a mapped page panics.\<close>

lemma kernel_alloc_blocked:
  assumes km: "kernel_mem t gs" and empty: "\<And>k. k < unat (page_count (kernel_heap t)) \<Longrightarrow> page_use (kernel_heap t) k = 0"
    and i: "entry_present (page_at t (page_addr (kernel_heap t) i))" "i < unat pages" and room: "2 * unat pages \<le> length gs"
  shows "kernel_alloc t pages = Inl Panic"
proof -
  have pos: "0 < pages" using i(2) by (simp add: word_less_nat_alt)
  note ok = kernel_alloc_ok [OF km pos room]
  show ?thesis
  proof (cases "kernel_alloc t pages")
    case (Inl e)
    then show ?thesis using ok by simp
  next
    case (Inr r)
    obtain p u where r: "kernel_alloc t pages = Inr (p, u)" using Inr by (cases r) simp
    obtain st where st: "p = page_addr (kernel_heap t) st" "first_fit (kernel_heap t) (unat pages) st" using ok r by auto
    have "unat pages \<le> unat (page_count (kernel_heap t))" using st(2) by (simp add: first_fit_def)
    then have "first_fit (kernel_heap t) (unat pages) 0" by (rule first_fit_start) (rule empty)
    then have "st = 0" by (rule first_fit_unique [OF st(2)])
    moreover obtain h' where "\<forall>k < unat pages. \<not> entry_present (page_at t (page_no p k))"
      by (rule kernel_alloc_Inr [OF km pos room r])
    ultimately show ?thesis using i st(1) by (simp add: page_addr_add)
  qed
qed

text \<open>
  C8: The two heaps overlap. After \<open>init_heap\<close> the last pages of the kernel heap, as many as its
  usage map has, are not its own: the first of them is the mapped page that holds the usage map
  of the other heap, the ones behind it are the first pages of the other heap. So a kernel
  allocation that reaches them panics although the heap has room for it, and the check of the kernel heap
  panics from the start.
\<close>

theorem heaps_overlap:
  assumes inv: "mem_inv s fs" and sp: "space_ok s" and room: "34 \<le> length fs"
  shows "\<exists>t. init_heap s = Inr t \<and> (let h = kernel_heap t; n = unat (page_count h); m = map_pages_of n in
    0 < m \<and> m \<le> n \<and> (\<forall>k < n. page_use h k = 0) \<and>
    page_addr h (n - m) + PAGE_SIZE = heap_start (user_ro_heap t) \<and> entry_present (page_at t (page_addr h (n - m))) \<and>
    (\<forall>k. n - m + 1 + k < n \<longrightarrow> page_addr h (n - m + 1 + k) = page_addr (user_ro_heap t) k) \<and>
    (\<forall>gs pages. kernel_mem t gs \<longrightarrow> n - m < unat pages \<longrightarrow> 2 * unat pages \<le> length gs \<longrightarrow> kernel_alloc t pages = Inl Panic) \<and>
    (\<forall>pages x. debug_heap t pages x = Inl Panic))"
proof (rule init_heap_ok [OF inv sp room])
  fix t :: kmem and gs
  let ?v = "free_list_head s" and ?h = "kernel_heap t"
  define K where "K = space_pages s - 1024"
  define m where "m = map_pages_of K"
  assume t: "init_heap s = Inr t" "mem_inv t gs" "heap_start ?h = page_no ?v (1 + map_pages_of (space_pages s - 1024))"
    "page_count ?h = word_of_nat (space_pages s - 1024)" "\<And>k. k < space_pages s - 1024 \<Longrightarrow> page_use ?h k = 0"
    "heap_start (user_ro_heap t) = page_no ?v (space_pages s - 1024 + 2)"
    "entry_present (page_at t (page_no ?v (space_pages s - 1024 + 1)))"
  note t' = t(3-7) [folded K_def, folded m_def]
  have al: "frame_aligned ?v" using mem_window [OF inv] by (simp add: window_ok_def)
  note ev = space_eval [OF al sp] and page = space_page [OF al sp]
  have K: "0 < K" "K \<le> 2 ^ 18" "space_pages s = K + 1024" using ev(2,3) by (simp_all add: K_def)
  note m = map_pages_bounds [OF K(1,2), folded m_def]
  have pc: "unat (page_count ?h) = K" unfolding t'(2) by (rule unat_of_nat_u32) (use K in simp)
  have at: "page_addr ?h k = page_no ?v (1 + m + k)" for k by (simp add: page_addr_page_no t'(1) page_no_add)
  have idx: "1 + m + (K - m) = K + 1" using m(2) by simp
  have pr: "entry_present (page_at t (page_addr ?h (K - m)))" unfolding at idx by (rule t'(5))
  have us: "page_addr ?h (K - m) + PAGE_SIZE = heap_start (user_ro_heap t)"
    unfolding at idx t'(4) by (simp add: page_no_def PAGE_SIZE_def algebra_simps)
  have ov: "page_addr ?h (K - m + 1 + k) = page_addr (user_ro_heap t) k" for k
  proof -
    have "1 + m + (K - m + 1 + k) = K + 2 + k" using m(2) by simp
    then show ?thesis unfolding at unfolding page_addr_page_no t'(4) page_no_add by (rule arg_cong)
  qed
  have alloc: "kernel_alloc t pages = Inl Panic"
    if "kernel_mem t gs" "K - m < unat pages" "2 * unat pages \<le> length gs" for gs pages
    by (rule kernel_alloc_blocked [OF that(1) _ pr that(2,3)]) (use t'(3) pc in simp)
  have fa: "frame_aligned (heap_start ?h)" unfolding t'(1) using al by (simp add: frame_unat page_no_unat dvd_mod_iff)
  have su: "unat (heap_start ?h) + 4096 * (K + 1024 - m) = 0xFFC00000"
    using page(1) [of "1 + m"] ev(1) m K(3) by (simp add: t'(1))
  have pe: "pages_to_end (heap_start ?h) = K + 1024 - m" unfolding pages_to_end_def su [symmetric] by simp
  have "ptr_page_index ?h (page_addr ?h (K - m)) = word_of_nat (K - m)" by (rule ptr_page_index_addr) (use K(2) in simp)
  then have "\<not> heap_is_used ?h (page_addr ?h (K - m))"
    using t'(3) [of "K - m"] m(1) K(1) by (simp add: heap_is_used_def page_use_def HEAP_PAGE_FREE_def)
  then have "\<not> heap_agrees t (K - m)" using pr by (simp add: heap_agrees_def)
  moreover have "K - m < pages_to_end (heap_start ?h)" using pe m(2) by simp
  ultimately have "debug_heap t pages x = Inl Panic" for pages x
    unfolding debug_heap_eval [OF mem_paging [OF t(2)] fa] by auto
  then show ?thesis
    using t(1) m pr us ov alloc t'(3) unfolding Let_def by (intro exI [of _ t] conjI) (simp_all add: pc m_def [symmetric])
qed

theorem heaps_overlap_witness:
  "\<exists>s t pages. init_heap s = Inr t \<and> debug_heap t pages (small_screen, demo_port) = Inl Panic"
proof (rule high_frames)
  fix s fs
  assume s: "mem_inv s fs" "space_ok s" "34 \<le> length fs"
  from heaps_overlap [OF this] obtain t where "init_heap s = Inr t" "debug_heap t 0 (small_screen, demo_port) = Inl Panic"
    unfolding Let_def by blast
  then show ?thesis by blast
qed

end
