(* ===== verification/BootPaging.thy ===== *)
theory BootPaging
  imports HeapInit VirtMem MailboxProps
begin

section \<open>From the paging structures of the boot code to those of the kernel\<close>

text \<open>
  The boot code enters one page table twice into the page directory: at entry 0 for the identity
  map and at entry 0x300 for the kernel. So the invariant of the paging structures does not hold
  until \<^verbatim>\<open>reinit_paging\<close> has given each of the two a table of its own. What the kernel does
  before uses neither entry 0 nor its table; it runs as it would with entry 0 cleared, and the
  two runs differ in the four bytes of this entry only.
\<close>

unbundle bit_operations_syntax

subsection \<open>States that differ in the first directory entry\<close>

definition boot_eq :: "kmem \<Rightarrow> kmem \<Rightarrow> bool" where
  "boot_eq s t \<longleftrightarrow> t = s\<lparr>pmem := pmem t\<rparr> \<and>
     (\<forall>a. a \<notin> {cr3 s, cr3 s + 1, cr3 s + 2, cr3 s + 3} \<longrightarrow> pmem t a = pmem s a)"

definition dir_ok :: "kmem \<Rightarrow> bool" where
  "dir_ok s \<longleftrightarrow> frame_aligned (cr3 s) \<and> pt s 1023 = cr3 s \<and>
     (\<forall>i. 0 < i \<longrightarrow> i < 1023 \<longrightarrow> entry_present (pde s i) \<longrightarrow> pt s i \<noteq> cr3 s)"

lemma dir_ok_paging:
  assumes ok: "paging_ok s"
  shows "dir_ok s"
proof -
  have "pt s i \<noteq> cr3 s" if "i < 1023" "entry_present (pde s i)" for i
    using paging_inj [OF ok less_1024 [OF that(1)], of 1023] that by (auto simp: paging_self [OF ok] paging_self_pt [OF ok])
  then show ?thesis by (simp add: dir_ok_def paging_aligned [OF ok] paging_self_pt [OF ok])
qed

lemma boot_eq_fields:
  assumes "boot_eq s t"
  shows "t = s\<lparr>pmem := pmem t\<rparr>" "cr3 t = cr3 s" "stale t = stale s" "free_list_head t = free_list_head s" "free_list_head_pte t = free_list_head_pte s"
    "free_frame_paddr t = free_frame_paddr s" "used_frames t = used_frames s" "total_frames t = total_frames s"
    "user_physical_map t = user_physical_map s"
proof -
  show t: "t = s\<lparr>pmem := pmem t\<rparr>" using assms by (simp add: boot_eq_def)
  show "cr3 t = cr3 s" "stale t = stale s" "free_list_head t = free_list_head s" "free_list_head_pte t = free_list_head_pte s"
    "free_frame_paddr t = free_frame_paddr s" "used_frames t = used_frames s" "total_frames t = total_frames s"
    "user_physical_map t = user_physical_map s"
    by (subst t, simp)+
qed

lemma boot_eq_rd32:
  assumes e: "boot_eq s t" and al: "dword_aligned (cr3 s)" "dword_aligned a" and ne: "a \<noteq> cr3 s"
  shows "rd32 (pmem t) a = rd32 (pmem s) a"
proof -
  have m: "\<forall>a. a \<notin> {cr3 s, cr3 s + 1, cr3 s + 2, cr3 s + 3} \<longrightarrow> pmem t a = pmem s a"
    using e by (simp add: boot_eq_def)
  have "pmem t (a + word_of_nat j) = pmem s (a + word_of_nat j)" if j: "j < 4" for j
  proof -
    have "a + word_of_nat j \<noteq> cr3 s + word_of_nat i" if "i < 4" for i
      by (rule dword_offsets_apart [OF al(2,1) ne j that])
    from this [of 0] this [of 1] this [of 2] this [of 3] show ?thesis using m by simp
  qed
  from this [of 0] this [of 1] this [of 2] this [of 3] show ?thesis by (simp add: rd32_def)
qed

lemma boot_eq_pde:
  assumes "boot_eq s t" "dir_ok s" "0 < i" "i < 1024"
  shows "pde t i = pde s i"
proof -
  have "cr3 s + 4 * i \<noteq> cr3 s + 4 * 0" using assms(2-4) by (subst frame_index_inj) (auto simp: dir_ok_def)
  then show ?thesis
    using boot_eq_rd32 [OF assms(1), of "cr3 s + 4 * i"] assms(2,4) boot_eq_fields(2) [OF assms(1)]
    by (simp add: pde_def dir_ok_def)
qed

lemma boot_eq_pte:
  assumes "boot_eq s t" "dir_ok s" "0 < i" "i < 1024" "j < 1024" "i = 1023 \<Longrightarrow> 0 < j" "entry_present (pde s i)"
  shows "pte t i j = pte s i j"
proof -
  have "pt t i = pt s i" using boot_eq_pde [OF assms(1-4)] by (simp add: pt_def)
  moreover have al: "frame_aligned (cr3 s)" using assms(2) by (simp add: dir_ok_def)
  have "pt s i + 4 * j \<noteq> cr3 s + 4 * 0"
  proof (cases "i = 1023")
    case True
    then have "j \<noteq> 0" using assms(6) by auto
    then show ?thesis using al assms(5) by (subst frame_index_inj) simp_all
  next
    case False
    then have "unat i \<noteq> 1023" by (auto simp: word_unat_eq_iff)
    then have "i < 1023" using assms(4) by (simp add: word_less_nat_alt)
    then have "pt s i \<noteq> cr3 s" using assms(2,3,7) by (simp add: dir_ok_def)
    then show ?thesis using al assms(5) by (subst frame_index_inj) simp_all
  qed
  ultimately show ?thesis
    using boot_eq_rd32 [OF assms(1), of "pt s i + 4 * j"] al assms(5) by (simp add: pte_def)
qed

lemma translate_tables:
  "frame_aligned (cr3 s) \<Longrightarrow> translate s v =
     (if \<not> entry_present (pde s (get_pd_index v)) \<or> \<not> entry_present (pte s (get_pd_index v) (get_pt_index v)) then Inl PageFault
      else if stale s (drop_bit 12 v) then Inl StaleTlb
      else Inr (get_paddr (pte s (get_pd_index v) (get_pt_index v)) + (v AND 0xFFF)))"
  by (simp add: translate_def Let_def pde_def pte_def pt_def)

lemma boot_eq_translate:
  assumes "boot_eq s t" "dir_ok s" "0 < get_pd_index v" "get_pd_index v = 1023 \<Longrightarrow> 0 < get_pt_index v"
  shows "translate t v = translate s v"
proof -
  have al: "frame_aligned (cr3 s)" using assms(2) by (simp add: dir_ok_def)
  note f = boot_eq_fields [OF assms(1)]
  show ?thesis
    using boot_eq_pde [OF assms(1-3) pd_index_less] boot_eq_pte [OF assms(1-3) pd_index_less pt_index_less assms(4)] al
    by (simp add: translate_tables f(2,3))
qed

lemma boot_eq_update:
  assumes "boot_eq s t"
  shows "boot_eq (s\<lparr>stale := x1\<rparr>) (t\<lparr>stale := x1\<rparr>)" "boot_eq (s\<lparr>free_list_head := x2\<rparr>) (t\<lparr>free_list_head := x2\<rparr>)"
    "boot_eq (s\<lparr>free_list_head_pte := x3\<rparr>) (t\<lparr>free_list_head_pte := x3\<rparr>)"
    "boot_eq (s\<lparr>free_frame_paddr := x4\<rparr>) (t\<lparr>free_frame_paddr := x4\<rparr>)"
    "boot_eq (s\<lparr>used_frames := x5\<rparr>) (t\<lparr>used_frames := x5\<rparr>)"
    "boot_eq (s\<lparr>total_frames := x6\<rparr>) (t\<lparr>total_frames := x6\<rparr>)"
    "boot_eq (s\<lparr>user_physical_map := x7\<rparr>) (t\<lparr>user_physical_map := x7\<rparr>)"
    "boot_eq (s\<lparr>pmem := wr32 (pmem s) a v\<rparr>) (t\<lparr>pmem := wr32 (pmem t) a v\<rparr>)"
proof -
  obtain m where t: "t = s\<lparr>pmem := m\<rparr>" using boot_eq_fields(1) [OF assms] by blast
  have m: "\<forall>a. a \<notin> {cr3 s, cr3 s + 1, cr3 s + 2, cr3 s + 3} \<longrightarrow> m a = pmem s a"
    using assms by (simp add: boot_eq_def t)
  then show "boot_eq (s\<lparr>stale := x1\<rparr>) (t\<lparr>stale := x1\<rparr>)" "boot_eq (s\<lparr>free_list_head := x2\<rparr>) (t\<lparr>free_list_head := x2\<rparr>)"
    "boot_eq (s\<lparr>free_list_head_pte := x3\<rparr>) (t\<lparr>free_list_head_pte := x3\<rparr>)"
    "boot_eq (s\<lparr>free_frame_paddr := x4\<rparr>) (t\<lparr>free_frame_paddr := x4\<rparr>)"
    "boot_eq (s\<lparr>used_frames := x5\<rparr>) (t\<lparr>used_frames := x5\<rparr>)"
    "boot_eq (s\<lparr>total_frames := x6\<rparr>) (t\<lparr>total_frames := x6\<rparr>)"
    "boot_eq (s\<lparr>user_physical_map := x7\<rparr>) (t\<lparr>user_physical_map := x7\<rparr>)"
    "boot_eq (s\<lparr>pmem := wr32 (pmem s) a v\<rparr>) (t\<lparr>pmem := wr32 (pmem t) a v\<rparr>)"
    by (simp_all add: boot_eq_def t wr32_def)
qed

lemma dir_ok_update [simp]:
  "dir_ok (s\<lparr>stale := x1\<rparr>) = dir_ok s" "dir_ok (s\<lparr>free_frame_paddr := x4\<rparr>) = dir_ok s"
  "dir_ok (s\<lparr>used_frames := x5\<rparr>) = dir_ok s" "dir_ok (s\<lparr>total_frames := x6\<rparr>) = dir_ok s"
  by (simp_all add: dir_ok_def) (simp add: pt_def pde_def)

lemma dir_ok_write:
  assumes "dir_ok s" "dword_aligned a" "get_paddr a \<noteq> cr3 s"
  shows "dir_ok (s\<lparr>pmem := wr32 (pmem s) a v\<rparr>)"
proof -
  have al: "frame_aligned (cr3 s)" using assms(1) by (simp add: dir_ok_def)
  have "pde (s\<lparr>pmem := wr32 (pmem s) a v\<rparr>) i = pde s i" if "i < 1024" for i
  proof -
    have "get_paddr (cr3 s + 4 * i) = cr3 s" using al that by (simp add: index_scaled)
    then have "a \<noteq> cr3 s + 4 * i" using assms(3) by auto
    then show ?thesis using al that assms(2) by (simp add: pde_def)
  qed
  then show ?thesis using assms(1) less_1024 by (simp add: dir_ok_def pt_def)
qed

subsection \<open>Accesses\<close>

lemma boot_read:
  assumes e: "boot_eq s t" "dir_ok s" and v: "0 < get_pd_index v" "get_pd_index v = 1023 \<Longrightarrow> 0 < get_pt_index v"
    and r: "translate s v = Inr a" "dword_aligned a" "a \<noteq> cr3 s"
  shows "vread32 t v = vread32 s v"
proof -
  have al: "frame_aligned (cr3 s)" using e(2) by (simp add: dir_ok_def)
  then show ?thesis
    using boot_eq_translate [OF e v] boot_eq_rd32 [OF e(1) _ r(2,3)] r(1) by (simp add: vread32_def)
qed

lemma boot_write:
  assumes e: "boot_eq s t" "dir_ok s" and v: "0 < get_pd_index v" "get_pd_index v = 1023 \<Longrightarrow> 0 < get_pt_index v"
    and r: "translate s v = Inr a" "dword_aligned a" "get_paddr a \<noteq> cr3 s" and w: "vwrite32 s v x = Inr s'"
  obtains t' where "vwrite32 t v x = Inr t'" "boot_eq s' t'" "dir_ok s'"
proof (rule that)
  have s': "s' = s\<lparr>pmem := wr32 (pmem s) a x\<rparr>" using r(1) w by (simp add: vwrite32_def)
  show "vwrite32 t v x = Inr (t\<lparr>pmem := wr32 (pmem t) a x\<rparr>)"
    using boot_eq_translate [OF e v] r(1) by (simp add: vwrite32_def)
  show "boot_eq s' (t\<lparr>pmem := wr32 (pmem t) a x\<rparr>)" unfolding s' by (rule boot_eq_update(8) [OF e(1)])
  show "dir_ok s'" unfolding s' by (rule dir_ok_write [OF e(2) r(2,3)])
qed

lemma translate_entry:
  assumes "dir_ok s" "i < 1024" "j < 1024" "translate s (pte_addr i j) = Inr a"
  shows "a = pt s i + 4 * j" "entry_present (pde s i)"
proof -
  have al: "frame_aligned (cr3 s)" and "pt s 1023 = cr3 s" using assms(1) by (simp_all add: dir_ok_def)
  then have "pte s 1023 i = pde s i" by (simp add: pte_def pde_def)
  then show "a = pt s i + 4 * j" "entry_present (pde s i)"
    using assms(2-4) al by (simp_all add: translate_tables pt_def split: if_splits)
qed

lemma entry_apart:
  assumes "dir_ok s" "0 < i" "i < 1023" "j < 1024" "entry_present (pde s i)"
  shows "dword_aligned (pt s i + 4 * j)" "pt s i + 4 * j \<noteq> cr3 s" "get_paddr (pt s i + 4 * j) \<noteq> cr3 s"
proof -
  show "dword_aligned (pt s i + 4 * j)" and ne: "get_paddr (pt s i + 4 * j) \<noteq> cr3 s"
    using assms by (simp_all add: dir_ok_def index_scaled)
  have "get_paddr (cr3 s) = cr3 s" using assms(1) by (simp add: dir_ok_def)
  then show "pt s i + 4 * j \<noteq> cr3 s" using ne by auto
qed

lemma boot_PTE:
  assumes e: "boot_eq s t" "dir_ok s" and i: "0 < i" "i < 1023" and j: "j < 1024" and r: "PTE s i j = Inr x"
  shows "PTE t i j = Inr x"
proof -
  obtain a where a: "translate s (pte_addr i j) = Inr a" using r by (auto simp: PTE_def vread32_def)
  note tr = translate_entry [OF e(2) less_1024 [OF i(2)] j a]
  note ap = entry_apart [OF e(2) i j tr(2), folded tr(1)]
  have "get_pd_index (pte_addr i j) = 1023" "get_pt_index (pte_addr i j) = i" using i(2) j less_1024 by simp_all
  then have "vread32 t (pte_addr i j) = vread32 s (pte_addr i j)"
    using i(1) by (intro boot_read [OF e _ _ a ap(1,2)]) simp_all
  then show ?thesis using r by (simp add: PTE_def)
qed

lemma boot_store:
  assumes e: "boot_eq s t" "dir_ok s" and i: "0 < i" "i < 1023" and j: "j < 1024"
    and r: "store_entry s (pte_addr i j) v = Inr s'"
  obtains t' where "store_entry t (pte_addr i j) v = Inr t'" "boot_eq s' t'" "dir_ok s'"
proof -
  obtain a where a: "translate s (pte_addr i j) = Inr a" using r by (auto simp: store_entry_def vread32_def)
  note tr = translate_entry [OF e(2) less_1024 [OF i(2)] j a]
  note ap = entry_apart [OF e(2) i j tr(2), folded tr(1)]
  have ix: "0 < get_pd_index (pte_addr i j)" "0 < get_pt_index (pte_addr i j)" using i j less_1024 by simp_all
  have rd: "vread32 t (pte_addr i j) = vread32 s (pte_addr i j)"
    by (rule boot_read [OF e ix a ap(1,2)])
  obtain s1 where s1: "vwrite32 s (pte_addr i j) v = Inr s1" using a by (simp add: vwrite32_def)
  obtain t1 where t1: "vwrite32 t (pte_addr i j) v = Inr t1" "boot_eq s1 t1" "dir_ok s1"
    by (rule boot_write [OF e ix a ap(1,3) s1])
  obtain old where old: "vread32 s (pte_addr i j) = Inr old" using a by (simp add: vread32_def)
  show ?thesis
    using r boot_eq_update(1) [OF t1(2)] boot_eq_fields(3) [OF t1(2)] t1 s1 rd old
    by (auto simp: store_entry_def Let_def split: if_splits intro!: that)
qed

lemma boot_PDE_read:
  assumes e: "boot_eq s t" "dir_ok s" and i: "0 < i" "i < 1024" and r: "translate s (pde_addr i) = Inr a"
  shows "vread32 t (pde_addr i) = vread32 s (pde_addr i)" "translate t (pde_addr i) = Inr a" "a = cr3 s + 4 * i" "pt s 1023 = cr3 s"
proof -
  have al: "frame_aligned (cr3 s)" "pt s 1023 = cr3 s" using e(2) by (simp_all add: dir_ok_def)
  have ix: "get_pd_index (pde_addr i) = 1023" "get_pt_index (pde_addr i) = 1023" unfolding pde_addr_pte_addr using i(2) by simp_all
  show a: "a = cr3 s + 4 * i" using translate_entry(1) [OF e(2) _ i(2), of 1023] r al(2) by (simp add: pde_addr_pte_addr)
  have "a \<noteq> cr3 s + 4 * 0" unfolding a using al(1) i by (subst frame_index_inj) auto
  then show "vread32 t (pde_addr i) = vread32 s (pde_addr i)"
    using al(1) i(2) by (intro boot_read [OF e _ _ r]) (simp_all add: ix a)
  show "translate t (pde_addr i) = Inr a" using boot_eq_translate [OF e, of "pde_addr i"] ix r by simp
qed (use e(2) in \<open>simp add: dir_ok_def\<close>)

lemma boot_PDE:
  assumes e: "boot_eq s t" "dir_ok s" and i: "0 < i" "i < 1024" and r: "PDE s i = Inr x"
  shows "PDE t i = Inr x"
proof -
  obtain a where "translate s (pde_addr i) = Inr a" using r by (auto simp: PDE_def vread32_def)
  from boot_PDE_read(1) [OF e i this] r show ?thesis by (simp add: PDE_def)
qed

lemma boot_set_PDE:
  assumes e: "boot_eq s t" "dir_ok s" and i: "0 < i" "i < 1023" and v: "entry_present v \<longrightarrow> get_paddr v \<noteq> cr3 s"
    and r: "set_PDE s i v = Inr s'"
  obtains t' where "set_PDE t i v = Inr t'" "boot_eq s' t'" "dir_ok s'"
proof -
  obtain a where a: "translate s (pde_addr i) = Inr a" using r by (auto simp: set_PDE_def store_entry_def vread32_def)
  note rd = boot_PDE_read [OF e i(1) less_1024 [OF i(2)] a]
  let ?s = "s\<lparr>pmem := wr32 (pmem s) a v\<rparr>" and ?t = "t\<lparr>pmem := wr32 (pmem t) a v\<rparr>"
  have w: "vwrite32 s (pde_addr i) v = Inr ?s" "vwrite32 t (pde_addr i) v = Inr ?t" using a rd(2) by (simp_all add: vwrite32_def)
  have eq: "boot_eq ?s ?t" by (rule boot_eq_update(8) [OF e(1)])
  have al: "frame_aligned (cr3 s)" using e(2) by (simp add: dir_ok_def)
  have pde: "pde ?s k = (if k = i then v else pde s k)" if "k < 1024" for k
    using al that less_1024 [OF i(2)] by (simp add: pde_def rd(3))
  have "pde ?s 1023 = pde s 1023" using pde [of 1023] i(2) by auto
  moreover have "pt ?s k \<noteq> cr3 s" if "0 < k" "k < 1023" "entry_present (pde ?s k)" for k
    using that pde [OF less_1024 [OF that(2)]] v e(2) by (auto simp: pt_def dir_ok_def split: if_splits)
  ultimately have ok: "dir_ok ?s" using e(2) by (simp add: dir_ok_def pt_def)
  obtain old where old: "vread32 s (pde_addr i) = Inr old" using a by (simp add: vread32_def)
  show ?thesis
    using r w rd(1) old eq ok boot_eq_update(1) [OF eq] boot_eq_fields(3) [OF eq]
    by (auto simp: set_PDE_def store_entry_def Let_def split: if_splits intro!: that)
qed

lemma boot_init_table:
  assumes "boot_eq s t" "dir_ok s" "0 < i" "i < 1023" "unat j + n = 1024" "init_page_table_loop n s (get_page_table i) j = Inr s'"
  shows "\<exists>t'. init_page_table_loop n t (get_page_table i) j = Inr t' \<and> boot_eq s' t' \<and> dir_ok s'"
  using assms
proof (induction n arbitrary: s t j)
  case (Suc n)
  have j: "j < 1024" using Suc.prems(5) by (simp add: word_less_nat_alt)
  have j1: "unat (j + 1) + n = 1024" using Suc.prems(5) by (simp add: unat_Suc_u32)
  note e = Suc.prems(1,2) and i = Suc.prems(3,4)
  obtain s1 where s1: "vwrite32 s (pte_addr i j) 0 = Inr s1" "init_page_table_loop n s1 (get_page_table i) (j + 1) = Inr s'"
    using Suc.prems(6) by (auto simp: get_page_table_index)
  obtain a where a: "translate s (pte_addr i j) = Inr a" using s1(1) by (auto simp: vwrite32_def)
  note tr = translate_entry [OF e(2) less_1024 [OF i(2)] j a]
  note ap = entry_apart [OF e(2) i j tr(2), folded tr(1)]
  have ix: "0 < get_pd_index (pte_addr i j)" "0 < get_pt_index (pte_addr i j)" using i j less_1024 by simp_all
  obtain t1 where t1: "vwrite32 t (pte_addr i j) 0 = Inr t1" "boot_eq s1 t1" "dir_ok s1"
    by (rule boot_write [OF e ix a ap(1,3) s1(1)])
  from Suc.IH [OF t1(2,3) i j1 s1(2)] t1(1) show ?case by (simp add: get_page_table_index)
qed simp

subsection \<open>Frames and pages\<close>

lemma boot_free_frame:
  assumes e: "boot_eq s t" and ok: "paging_ok s" "window_ok s" and w: "0 < wdi s" and p: "\<not> table_frame s (get_paddr p)"
  obtains t' where "free_frame t p = Inr t'" "boot_eq (give_frame s p) t'"
proof -
  note f = boot_eq_fields [OF e] and wd = window_okD [OF ok(2)]
  let ?s = "s\<lparr>used_frames := used_frames s - 1\<rparr>" and ?t = "t\<lparr>used_frames := used_frames t - 1\<rparr>"
  have e1: "boot_eq ?s ?t" unfolding f(7) by (rule boot_eq_update(5) [OF e])
  have d1: "dir_ok ?s" using dir_ok_paging [OF ok(1)] by simp
  obtain s1 where s1: "store_entry ?s (pte_addr (wdi s) (wti s)) (create_entry p PAGE_WRITABLE) = Inr s1"
    "free_list_head s1 = free_list_head s" "free_frame_paddr s1 = free_frame_paddr s"
    "invalidate_page s1 (free_list_head s) = wr_pte ?s (wdi s) (wti s) (create_entry p PAGE_WRITABLE)"
    using window_store [of ?s] ok by (auto simp: wd(3))
  obtain t1 where t1: "store_entry ?t (pte_addr (wdi s) (wti s)) (create_entry p PAGE_WRITABLE) = Inr t1" "boot_eq s1 t1" "dir_ok s1"
    by (rule boot_store [OF e1 d1 w wd(2) pt_index_less s1(1)])
  let ?s2 = "invalidate_page s1 (free_list_head s)" and ?t2 = "invalidate_page t1 (free_list_head s)"
  have e2: "boot_eq ?s2 ?t2" unfolding invalidate_page_def boot_eq_fields(3) [OF t1(2)] by (rule boot_eq_update(1) [OF t1(2)])
  have d2: "dir_ok ?s2" using t1(3) by (simp add: invalidate_page_def)
  note wr = ok(1) wd(2) wd(4) pt_index_less [of "free_list_head s"]
  have "translate (wr_pte s (wdi s) (wti s) (create_entry p PAGE_WRITABLE)) (free_list_head s) = Inr (get_paddr p)"
    using wr_pte_low(1,3) [OF wr] wr_pte_low(4) [OF wr] wr(3) by (simp add: translate_ok wd(1))
  then have tr: "translate ?s2 (free_list_head s) = Inr (get_paddr p)" by (simp add: s1(4))
  have c: "cr3 ?s2 = cr3 s" by (simp add: s1(4))
  have ne: "get_paddr (get_paddr p) \<noteq> cr3 ?s2" using p cr3_table [OF ok(1)] by (auto simp: c)
  let ?s3 = "?s2\<lparr>pmem := wr32 (pmem ?s2) (get_paddr p) (free_frame_paddr s)\<rparr>"
  have w3: "vwrite32 ?s2 (free_list_head s) (free_frame_paddr s) = Inr ?s3" by (simp add: vwrite32_def tr)
  have ix: "get_pd_index (free_list_head s) = 1023 \<Longrightarrow> 0 < get_pt_index (free_list_head s)" using wd(2) by auto
  obtain t3 where t3: "vwrite32 ?t2 (free_list_head s) (free_frame_paddr s) = Inr t3" "boot_eq ?s3 t3" "dir_ok ?s3"
    by (rule boot_write [OF e2 d2 w ix tr _ ne w3]) simp_all
  have "free_frame t p = Inr (t3\<lparr>free_frame_paddr := p\<rparr>)"
    using t1(1) t3(1) boot_eq_fields(4,6) [OF t1(2)] s1(2,3) f by (simp add: free_frame_def Let_def wd(3) invalidate_page_def)
  moreover have "free_frame s p = Inr (?s3\<lparr>free_frame_paddr := p\<rparr>)"
    using s1(1-3) w3 by (simp add: free_frame_def Let_def wd(3) invalidate_page_def)
  then have "give_frame s p = ?s3\<lparr>free_frame_paddr := p\<rparr>" using free_frame_give [OF ok, of p] by simp
  then have "boot_eq (give_frame s p) (t3\<lparr>free_frame_paddr := p\<rparr>)" using boot_eq_update(4) [OF t3(2)] by simp
  ultimately show ?thesis by (rule that)
qed

lemma boot_alloc_frame:
  assumes e: "boot_eq s t" and inv: "mem_inv s (f # fs)" and w: "0 < wdi s"
  obtains t' where "alloc_frame t = Inr (f, t')" "boot_eq (take_frame s) t'"
proof -
  note ok = mem_paging [OF inv] and wd = window_okD [OF mem_window [OF inv]]
  note b = boot_eq_fields [OF e]
  have f: "free_frame_paddr s = f" "f \<noteq> 0" using mem_flist [OF inv] by auto
  have tr: "translate s (free_list_head s) = Inr (get_paddr f)" using window_translate [OF inv] by (simp add: f)
  have ne: "get_paddr f \<noteq> cr3 s" using mem_no_table [OF inv, of f] cr3_table [OF ok] by auto
  let ?s1 = "s\<lparr>used_frames := used_frames s + 1\<rparr>" and ?t1 = "t\<lparr>used_frames := used_frames t + 1\<rparr>"
  have e1: "boot_eq ?s1 ?t1" unfolding b(7) by (rule boot_eq_update(5) [OF e])
  have d1: "dir_ok ?s1" using dir_ok_paging [OF ok] by simp
  have ix: "get_pd_index (free_list_head s) = 1023 \<Longrightarrow> 0 < get_pt_index (free_list_head s)" using wd(2) by auto
  have "vread32 ?t1 (free_list_head s) = vread32 ?s1 (free_list_head s)"
    by (rule boot_read [OF e1 d1 w ix, of "get_paddr f"]) (use tr ne in simp_all)
  then obtain nf where nf: "vread32 ?t1 (free_list_head s) = Inr nf" "vread32 ?s1 (free_list_head s) = Inr nf"
    using tr by (auto simp: vread32_def)
  let ?s2 = "?s1\<lparr>free_frame_paddr := nf\<rparr>" and ?t2 = "?t1\<lparr>free_frame_paddr := nf\<rparr>"
  have e2: "boot_eq ?s2 ?t2" by (rule boot_eq_update(4) [OF e1])
  have d2: "dir_ok ?s2" using d1 by simp
  obtain s3 where s3: "store_entry ?s2 (pte_addr (wdi s) (wti s)) (create_entry nf PAGE_WRITABLE) = Inr s3"
    "free_list_head s3 = free_list_head s"
    using window_store [of ?s2 "create_entry nf PAGE_WRITABLE"] ok mem_window [OF inv] by (auto simp: wd(3))
  obtain t3 where t3: "store_entry ?t2 (pte_addr (wdi s) (wti s)) (create_entry nf PAGE_WRITABLE) = Inr t3" "boot_eq s3 t3" "dir_ok s3"
    by (rule boot_store [OF e2 d2 w wd(2) pt_index_less s3(1)])
  have "alloc_frame s = Inr (f, invalidate_page s3 (free_list_head s))"
    using f nf(2) s3 by (simp add: alloc_frame_def Let_def wd(3))
  then have ts: "take_frame s = invalidate_page s3 (free_list_head s)" using alloc_frame_take [OF inv] by simp
  have "alloc_frame t = Inr (f, invalidate_page t3 (free_list_head s))"
    using f nf(1) t3(1) boot_eq_fields(4) [OF t3(2)] s3(2) b by (simp add: alloc_frame_def Let_def wd(3))
  moreover have "boot_eq (take_frame s) (invalidate_page t3 (free_list_head s))"
    unfolding ts invalidate_page_def boot_eq_fields(3) [OF t3(2)] by (rule boot_eq_update(1) [OF t3(2)])
  ultimately show ?thesis by (rule that)
qed

lemma boot_map_page:
  assumes e: "boot_eq s t" and inv: "mem_inv s fs" and w: "0 < wdi s" and v: "0 < get_pd_index v" "get_pd_index v < 1023"
    and r: "map_page s v p flags = Inr (b, s')"
  obtains t' where "map_page t v p flags = Inr (b, t')" "boot_eq s' t'"
proof -
  let ?i = "get_pd_index v" and ?j = "get_pt_index v"
  note ok = mem_paging [OF inv]
  have d: "dir_ok s" by (rule dir_ok_paging [OF ok])
  have pde: "PDE s ?i = Inr (pde s ?i)" by (rule PDE_ok [OF ok pd_index_less])
  note pdet = boot_PDE [OF e d v(1) pd_index_less pde]
  define tab where "tab x = (if \<not> entry_present (pde s ?i) then
      bind_res (alloc_frame x) (\<lambda>(new_table, x).
      bind_res (set_PDE x ?i (create_entry new_table (PAGE_WRITABLE OR (flags AND PAGE_USER_MODE)))) (\<lambda>x.
      init_page_table x (get_page_table ?i))) else Inr x)" for x
  define rest where "rest x = bind_res (PDE x ?i) (\<lambda>pde.
      kernel_assert (\<not> flags AND PAGE_USER_MODE \<noteq> 0 \<or> get_flags pde AND PAGE_USER_MODE \<noteq> 0)
        (bind_res (PTE x ?i ?j) (\<lambda>pte. if entry_present pte then Inr (True, x)
          else bind_res (set_PTE x ?i ?j (create_entry p flags)) (\<lambda>x. Inr (False, x)))))" for x
  have split: "map_page x v p flags = bind_res (tab x) rest" if "PDE x ?i = Inr (pde s ?i)" for x
    unfolding map_page_def Let_def that bind_res_simps tab_def rest_def [abs_def] by (rule refl)
  obtain s1 where s1: "tab s = Inr s1" "rest s1 = Inr (b, s')" using r split [OF pde] by auto
  obtain t1 where t1: "tab t = Inr t1" "boot_eq s1 t1" "dir_ok s1"
  proof (cases "entry_present (pde s ?i)")
    case True
    then show ?thesis using s1(1) e d by (intro that [of t]) (simp_all add: tab_def)
  next
    case False
    obtain f gs where fs: "fs = f # gs"
      using s1(1) False alloc_frame_empty [of s] inv by (cases fs) (auto simp: tab_def)
    note inv' = inv [unfolded fs]
    let ?e = "create_entry f (PAGE_WRITABLE OR (flags AND PAGE_USER_MODE))"
    obtain s2 where s2: "set_PDE (take_frame s) ?i ?e = Inr s2" "init_page_table s2 (get_page_table ?i) = Inr s1"
      using s1(1) False alloc_frame_take [OF inv'] by (auto simp: tab_def)
    obtain u where u: "alloc_frame t = Inr (f, u)" "boot_eq (take_frame s) u" by (rule boot_alloc_frame [OF e inv' w])
    have du: "dir_ok (take_frame s)" by (rule dir_ok_paging [OF mem_paging [OF take_frame_inv [OF inv']]])
    have c: "cr3 (take_frame s) = cr3 s" by (simp add: take_frame_def Let_def)
    have "get_paddr f \<noteq> cr3 s" using mem_no_table [OF inv', of f] cr3_table [OF ok] by auto
    then have "entry_present ?e \<longrightarrow> get_paddr ?e \<noteq> cr3 (take_frame s)"
      using table_entry_facts(2) [of f flags] by (simp add: table_entry_def c)
    then obtain u2 where u2: "set_PDE u ?i ?e = Inr u2" "boot_eq s2 u2" "dir_ok s2"
      by (rule boot_set_PDE [OF u(2) du v _ s2(1)])
    have z: "unat (0 :: u32) + 1024 = 1024" by simp
    from boot_init_table [OF u2(2,3) v z s2(2) [unfolded init_page_table_def]]
    obtain u3 where "init_page_table u2 (get_page_table ?i) = Inr u3" "boot_eq s1 u3" "dir_ok s1"
      unfolding init_page_table_def by blast
    then show ?thesis using u(1) u2(1) False by (intro that [of u3]) (simp_all add: tab_def)
  qed
  obtain x y where xy: "PDE s1 ?i = Inr x" "PTE s1 ?i ?j = Inr y" using s1(2) by (auto simp: rest_def)
  note xyt = boot_PDE [OF t1(2,3) v(1) pd_index_less xy(1)] boot_PTE [OF t1(2,3) v pt_index_less xy(2)]
  show ?thesis
  proof (cases "entry_present y")
    case True
    then have "rest t1 = Inr (b, t1)" "s' = s1" using s1(2) xy xyt by (auto simp: rest_def)
    then show ?thesis using t1(1,2) split [OF pdet] by (intro that [of t1]) simp_all
  next
    case False
    have "set_PTE s1 ?i ?j (create_entry p flags) = Inr s'" using s1(2) xy False by (auto simp: rest_def)
    then obtain t2 where t2: "set_PTE t1 ?i ?j (create_entry p flags) = Inr t2" "boot_eq s' t2"
      unfolding set_PTE_def by (rule boot_store [OF t1(2,3) v pt_index_less])
    then have "rest t1 = Inr (b, t2)" using s1(2) xy xyt False by (auto simp: rest_def)
    then show ?thesis using t1(1) t2(2) split [OF pdet] by (intro that [of t2]) simp_all
  qed
qed

subsection \<open>Runs of pages in one table\<close>

abbreviation at_index :: "u32 \<Rightarrow> nat \<Rightarrow> u32" where
  "at_index i b \<equiv> 0x400000 * i + 4096 * word_of_nat b"

lemma at_index_unat:
  assumes "i < 1024" "b < 1024"
  shows "unat (at_index i b) = 0x400000 * unat i + 4096 * b"
proof -
  have i: "unat i < 1024" using assms(1) by (simp add: word_less_nat_alt)
  have b: "unat (4096 * word_of_nat b :: u32) = 4096 * b" using assms(2) by (simp add: unat_word_ariths unat_of_nat)
  have "unat (0x400000 * i) = 0x400000 * unat i" using i by (simp add: unat_word_ariths)
  then show ?thesis using b i assms(2) by (subst unat_add_u32) simp_all
qed

lemma at_index_parts:
  assumes "i < 1024" "b < 1024"
  shows "get_pd_index (at_index i b) = i" "get_pt_index (at_index i b) = word_of_nat b"
proof -
  have d: "(0x400000 * unat i + 4096 * b) div 0x400000 = unat i" "(0x400000 * unat i + 4096 * b) div 4096 = 0x400 * unat i + b"
    using assms(2) by (auto intro!: div_nat_eqI)
  have "(0x400 * unat i + b) mod 1024 = b" using assms(2) by simp
  then show "get_pd_index (at_index i b) = i" "get_pt_index (at_index i b) = word_of_nat b"
    using assms(2) by (simp_all add: word_unat_eq_iff unat_pd_index unat_pt_index at_index_unat [OF assms] d unat_of_nat_u32)
qed

lemma unat_index: "b < 1024 \<Longrightarrow> unat (word_of_nat b :: u32) = b"
  by (simp add: unat_of_nat_u32)

lemma boot_map_pages:
  assumes "boot_eq s u" "mem_inv s fs" "0 < wdi s" "0 < i" "i < 1023" "i \<noteq> wdi s" "b + n \<le> 1024"
    "\<forall>k < n. \<not> entry_present (view s i (word_of_nat (b + k)))" "flags AND PAGE_USER_MODE = 0" "flags < 0x1000"
    "\<forall>k < n. get_paddr (page_no p k) \<notin> get_paddr ` set fs" "entry_present (pde s i) \<or> fs \<noteq> []"
  shows "\<exists>t u' gs. map_pages_loop n s (at_index i b) p flags = Inr t \<and> map_pages_loop n u (at_index i b) p flags = Inr u' \<and>
    boot_eq t u' \<and> mem_inv t gs \<and> mem_step s t (get_paddr ` set fs) \<and> (gs = fs \<or> gs = tl fs) \<and>
    (0 < n \<longrightarrow> entry_present (pde t i)) \<and> (\<forall>k < 1023. k \<noteq> i \<longrightarrow> pde t k = pde s k) \<and>
    (entry_present (pde s i) \<longrightarrow> pde t i = pde s i \<and> gs = fs) \<and>
    (\<forall>k l. k < 1023 \<longrightarrow> l < 1024 \<longrightarrow> (k, word_of_nat l) \<noteq> (wdi s, wti s) \<longrightarrow> view t k (word_of_nat l) =
       (if k = i \<and> b \<le> l \<and> l < b + n then create_entry (page_no p (l - b)) flags else view s k (word_of_nat l)))"
  using assms
proof (induction n arbitrary: s u fs b p)
  case 0
  then show ?case by (auto simp: mem_step_refl)
next
  case (Suc n)
  let ?v = "at_index i b"
  have b: "b < 1024" using Suc.prems(7) by simp
  note ix = at_index_parts [OF less_1024 [OF Suc.prems(5)] b]
  have ix3: "get_pd_index ?v < 1023" "0 < get_pd_index ?v" using Suc.prems(4,5) by (simp_all only: ix)
  have free: "\<not> entry_present (page_at s ?v)" using Suc.prems(8) [rule_format, of 0] by (simp add: page_at_def ix)
  have win: "(get_pd_index ?v, get_pt_index ?v) \<noteq> (wdi s, wti s)" using Suc.prems(6) by (simp add: ix)
  have uo: "user_ok s (get_pd_index ?v) flags" using Suc.prems(9) by (simp add: user_ok_def)
  have pf: "get_paddr p \<notin> get_paddr ` set fs" using Suc.prems(11) [rule_format, of 0] by simp
  have room: "entry_present (pde s (get_pd_index ?v)) \<or> fs \<noteq> []" using Suc.prems(12) by (simp only: ix)
  let ?gs = "rest_frames s i fs"
  obtain t where t: "map_page s ?v p flags = Inr (False, t)" "mem_inv t ?gs" "mem_step s t (get_paddr ` set fs)"
    "\<And>k l. k < 1023 \<Longrightarrow> l < 1024 \<Longrightarrow> (k, l) \<noteq> (wdi s, wti s) \<Longrightarrow>
       view t k l = (if k = i \<and> l = word_of_nat b then create_entry p flags else view s k l)"
    "entry_present (pde t i)" "\<And>k. k < 1023 \<Longrightarrow> k \<noteq> i \<Longrightarrow> pde t k = pde s k"
    by (rule map_page_steps [OF Suc.prems(2) ix3(1) win free uo Suc.prems(10) pf room, unfolded ix]) (rule that; assumption)
  obtain u1 where u1: "map_page u ?v p flags = Inr (False, u1)" "boot_eq t u1"
    by (rule boot_map_page [OF Suc.prems(1-3) ix3(2,1) t(1)])
  have hd: "free_list_head t = free_list_head s" using same_configD(4) [OF mem_step_config [OF t(3)]] .
  have sub: "set ?gs \<subseteq> set fs" by (cases fs) (auto simp: rest_frames_def)
  have next_v: "?v + PAGE_SIZE = at_index i (b + 1)" by (simp add: PAGE_SIZE_def algebra_simps)
  have ne: "word_of_nat (b + 1 + k) \<noteq> (word_of_nat b :: u32)" if "k < n" for k
  proof -
    have "unat (word_of_nat (b + 1 + k) :: u32) = b + 1 + k" by (rule unat_index) (use that Suc.prems(7) in simp)
    then show ?thesis using unat_index [OF b] by (metis add.assoc less_add_same_cancel1 nat_less_le add_gr_0 zero_less_one)
  qed
  have un: "\<not> entry_present (view t i (word_of_nat (b + 1 + k)))" if k: "k < n" for k
  proof -
    have "unat (word_of_nat (b + 1 + k) :: u32) = b + 1 + k" by (rule unat_index) (use k Suc.prems(7) in simp)
    then have "(word_of_nat (b + 1 + k) :: u32) < 1024" using k Suc.prems(7) by (simp only: word_less_nat_alt) simp
    then have "view t i (word_of_nat (b + 1 + k)) = view s i (word_of_nat (b + 1 + k))"
      using t(4) [OF Suc.prems(5)] Suc.prems(6) ne [OF k] by simp
    moreover have "Suc k < Suc n" "b + 1 + k = b + Suc k" using k by simp_all
    ultimately show ?thesis using Suc.prems(8) by metis
  qed
  have pn: "get_paddr (page_no (p + PAGE_SIZE) k) \<notin> get_paddr ` set ?gs" if "k < n" for k
    using Suc.prems(11) [rule_format, of "Suc k"] that sub by (auto simp: page_no_Suc)
  obtain t' u' gs where r: "map_pages_loop n t (at_index i (b + 1)) (p + PAGE_SIZE) flags = Inr t'"
    "map_pages_loop n u1 (at_index i (b + 1)) (p + PAGE_SIZE) flags = Inr u'" "boot_eq t' u'" "mem_inv t' gs"
    "mem_step t t' (get_paddr ` set ?gs)" "gs = ?gs" "pde t' i = pde t i" "\<forall>k < 1023. k \<noteq> i \<longrightarrow> pde t' k = pde t k"
    "\<forall>k l. k < 1023 \<longrightarrow> l < 1024 \<longrightarrow> (k, word_of_nat l) \<noteq> (wdi t, wti t) \<longrightarrow> view t' k (word_of_nat l) =
       (if k = i \<and> b + 1 \<le> l \<and> l < b + 1 + n then create_entry (page_no (p + PAGE_SIZE) (l - (b + 1))) flags
        else view t k (word_of_nat l))"
    using Suc.IH [OF u1(2) t(2) _ Suc.prems(4,5), of "b + 1" "p + PAGE_SIZE"] un pn Suc.prems(3,6,7,9,10) t(5)
    unfolding hd by (elim exE conjE meta_impE) (auto intro!: that)
  have step: "mem_step s t' (get_paddr ` set fs)"
    by (rule mem_step_trans [OF t(3) mem_step_mono [OF r(5)]]) (use sub in blast)
  have vw: "view t' k (word_of_nat l) =
       (if k = i \<and> b \<le> l \<and> l < b + Suc n then create_entry (page_no p (l - b)) flags else view s k (word_of_nat l))"
    if k: "k < 1023" and l: "l < 1024" and w: "(k, word_of_nat l) \<noteq> (wdi s, wti s)" for k l
  proof -
    have l': "(word_of_nat l :: u32) < 1024" using l by (simp add: word_less_nat_alt unat_index)
    have e: "(word_of_nat l :: u32) = word_of_nat b \<longleftrightarrow> l = b" using l b by (simp add: word_unat_eq_iff unat_index)
    show ?thesis
    proof (cases "k = i \<and> b + 1 \<le> l \<and> l < b + 1 + n")
      case True
      then obtain d where "l = b + 1 + d" by (metis le_Suc_ex)
      then show ?thesis using r(9) [rule_format, OF k l] w True unfolding hd by (simp add: page_no_Suc)
    next
      case False
      note vw = r(9) [rule_format, OF k l, unfolded hd, OF w]
      have "view t' k (word_of_nat l) = view t k (word_of_nat l)" unfolding vw using False by (simp only: if_False)
      then show ?thesis using t(4) [OF k l' w] e False by auto
    qed
  qed
  have "map_pages_loop (Suc n) s ?v p flags = Inr t'" using t(1) r(1) by (simp add: next_v)
  moreover have "map_pages_loop (Suc n) u ?v p flags = Inr u'" using u1(1) r(2) by (simp add: next_v)
  moreover have "gs = fs \<or> gs = tl fs" by (simp add: r(6) rest_frames_def)
  moreover have "entry_present (pde s i) \<longrightarrow> pde t' i = pde s i \<and> gs = fs"
    using mem_step_pde [OF t(3) less_1024 [OF Suc.prems(5)]] r(6,7) by (simp add: rest_frames_def)
  moreover have "entry_present (pde t' i)" using t(5) r(7) by simp
  moreover have "\<forall>k < 1023. k \<noteq> i \<longrightarrow> pde t' k = pde s k" using t(6) r(8) by simp
  ultimately show ?case using r(3,4) step vw by blast
qed

end
