(* ===== verification/BootMemory.thy ===== *)
theory BootMemory
  imports BootPaging
begin

section \<open>Frames and page tables during the boot\<close>

text \<open>
  The first steps of \<^verbatim>\<open>mem_init\<close> from the state that the boot code leaves: the page of the free
  list, the free list of the frames that the boot loader reports, and the kernel's own page tables
  for the lower megabyte and the kernel image.
\<close>

unbundle bit_operations_syntax

subsection \<open>What stays while the free list grows\<close>

definition boot_keeps :: "kmem \<Rightarrow> kmem \<Rightarrow> bool" where
  "boot_keeps s u \<longleftrightarrow> cr3 u = cr3 s \<and> stale u = stale s \<and> free_list_head u = free_list_head s \<and>
     kernel_page_dir u = kernel_page_dir s \<and> current_page_dir u = current_page_dir s \<and>
     (\<forall>k < 1024. pde u k = pde s k) \<and>
     (\<forall>w. drop_bit 12 w \<noteq> drop_bit 12 (free_list_head s) \<longrightarrow> page_at u w = page_at s w) \<and>
     (\<forall>a. \<not> table_frame s (get_paddr a) \<longrightarrow> \<not> unreferenced s (get_paddr a) \<longrightarrow> pmem u a = pmem s a)"

lemma boot_keeps_refl: "boot_keeps s s"
  by (simp add: boot_keeps_def)

lemma keeps_unreferenced:
  assumes "boot_keeps s u"
  shows "table_frame u g \<longleftrightarrow> table_frame s g" "unreferenced u g \<longleftrightarrow> unreferenced s g"
proof -
  show "table_frame u g \<longleftrightarrow> table_frame s g" for g using assms by (simp add: boot_keeps_def table_frame_def pt_def cong: conj_cong)
  moreover have "plain_page u w \<longleftrightarrow> plain_page s w" for w using assms by (simp add: boot_keeps_def plain_page_def)
  ultimately show "unreferenced u g \<longleftrightarrow> unreferenced s g"
    using assms unfolding unreferenced_pages by (auto simp: boot_keeps_def plain_page_def)
qed

lemma boot_keeps_trans:
  assumes "boot_keeps s t" "boot_keeps t u"
  shows "boot_keeps s u"
  using assms keeps_unreferenced [OF assms(1)] unfolding boot_keeps_def by simp

lemma give_frame_keeps:
  assumes "mem_inv s fs" "unreferenced s (get_paddr f)"
  shows "boot_keeps s (give_frame s f)"
proof -
  have "pmem (give_frame s f) a = pmem s a" if "\<not> table_frame s (get_paddr a)" "\<not> unreferenced s (get_paddr a)" for a
    using give_frame_step(1) [OF assms] that assms(2) by (auto simp: mem_step_def)
  then show ?thesis
    using give_frame_step [OF assms] same_configD [OF mem_step_config [OF give_frame_step(1) [OF assms]]]
    by (simp add: boot_keeps_def)
qed

lemma map_fields [simp]:
  "mem_inv (s\<lparr>user_physical_map := x\<rparr>) fs = mem_inv s fs" "unreferenced (s\<lparr>user_physical_map := x\<rparr>) g = unreferenced s g"
  "boot_keeps s (u\<lparr>user_physical_map := x\<rparr>) = boot_keeps s u" "boot_keeps (s\<lparr>user_physical_map := x\<rparr>) u = boot_keeps s u"
  "boot_keeps s (u\<lparr>total_frames := y\<rparr>) = boot_keeps s u" "boot_keeps (s\<lparr>total_frames := y\<rparr>) u = boot_keeps s u"
  "boot_keeps (s\<lparr>used_frames := y\<rparr>) u = boot_keeps s u"
  by (simp_all add: mem_inv_def window_ok_def unreferenced_def table_frame_def maps_def boot_keeps_def page_at_def view_def)

lemma give_frame_map: "user_physical_map (give_frame s f) = user_physical_map s"
  by (simp add: give_frame_def Let_def wr_pte_def)

subsection \<open>A region of memory\<close>

lemma boot_region_loop:
  assumes "boot_eq s t" "mem_inv s fs" "0 < wdi s" "frame_aligned f" "unat e \<le> 0xFFFFF000" "0 < f"
    "length (region_frames f e) \<le> n"
    "\<And>g. g \<in> set (region_frames f e) \<Longrightarrow> unreferenced s g \<and> g \<notin> get_paddr ` set fs"
    "distinct (region_frames f e)" "init_frame_region_loop n s f e = Inr u"
  shows "\<exists>t'. init_frame_region_loop n t f e = Inr t' \<and> boot_eq u t' \<and> boot_keeps s u \<and> user_physical_map u = user_physical_map s"
  using assms
proof (induction n arbitrary: s t fs f)
  case 0
  then have "\<not> f < e" by (cases "f < e") simp_all
  then show ?case using 0 by (auto simp: boot_keeps_refl)
next
  case (Suc n)
  show ?case
  proof (cases "f < e")
    case False
    then show ?thesis using Suc.prems by (auto simp: boot_keeps_refl)
  next
    case True
    note step = region_frames_step [OF True Suc.prems(5)]
    let ?s = "s\<lparr>total_frames := total_frames s + 1, used_frames := used_frames s + 1\<rparr>"
    let ?t = "t\<lparr>total_frames := total_frames t + 1, used_frames := used_frames t + 1\<rparr>"
    let ?u = "give_frame ?s f"
    have pf: "get_paddr f = f" using Suc.prems(4) by simp
    have inv: "mem_inv ?s fs" using Suc.prems(2) by simp
    have f: "get_paddr f \<noteq> 0" "unreferenced ?s (get_paddr f)" "get_paddr f \<notin> get_paddr ` set fs"
      using Suc.prems(6) Suc.prems(8) [of f] by (simp_all add: pf step(1))
    have e1: "boot_eq ?s ?t"
      unfolding boot_eq_fields(7,8) [OF Suc.prems(1)] by (intro boot_eq_update(5,6) Suc.prems(1))
    have nt: "\<not> table_frame ?s (get_paddr f)" using f(2) by (simp add: unreferenced_def)
    obtain t1 where t1: "free_frame ?t f = Inr t1" "boot_eq ?u t1"
      by (rule boot_free_frame [OF e1 mem_paging [OF inv] mem_window [OF inv] _ nt]) (use Suc.prems(3) in simp_all)
    have call: "free_frame ?s f = Inr ?u" using free_frame_give mem_paging [OF inv] mem_window [OF inv] by blast
    have inv': "mem_inv ?u (f # fs)" by (rule give_frame_inv [OF inv f])
    have kp: "boot_keeps s ?u" using give_frame_keeps [OF inv f(2)] by simp
    have rest: "unreferenced ?u g \<and> g \<notin> get_paddr ` set (f # fs)"
      if "g \<in> set (region_frames (f + PAGE_SIZE) e)" for g
      using keeps_unreferenced [OF kp] Suc.prems(8,9) that by (auto simp: step(1) pf)
    have pos: "0 < f + PAGE_SIZE" using step(2) by (simp add: word_less_nat_alt)
    have w: "0 < wdi ?u" using Suc.prems(3) kp by (simp add: boot_keeps_def)
    have run: "init_frame_region_loop n ?u (f + PAGE_SIZE) e = Inr u" using Suc.prems(10) True call by simp
    have len: "length (region_frames (f + PAGE_SIZE) e) \<le> n" and ds: "distinct (region_frames (f + PAGE_SIZE) e)"
      using Suc.prems(7,9) by (simp_all add: step(1))
    from Suc.IH [OF t1(2) inv' w frame_aligned_page_no [OF Suc.prems(4)] Suc.prems(5) pos len rest ds run]
    obtain t' where "init_frame_region_loop n t1 (f + PAGE_SIZE) e = Inr t'" "boot_eq u t'" "boot_keeps ?u u"
      "user_physical_map u = user_physical_map ?u" by blast
    then show ?thesis using True t1(1) boot_keeps_trans [OF kp] by (auto simp: give_frame_map)
  qed
qed

lemma boot_region:
  assumes e: "boot_eq s t" and inv: "mem_inv s fs" and w: "0 < wdi s"
    and b: "0 < start" "start < end" "unat end \<le> 0xFFFFF000"
    and fresh: "\<And>g. frame_aligned g \<Longrightarrow> start \<le> g \<Longrightarrow> g < end \<Longrightarrow> unreferenced s g \<and> g \<notin> get_paddr ` set fs"
  shows "\<exists>u t' gs. init_frame_region s start end = Inr u \<and> init_frame_region t start end = Inr t' \<and> boot_eq u t' \<and>
    mem_inv u (gs @ fs) \<and> set gs = {g. frame_aligned g \<and> start \<le> g \<and> g < end} \<and> boot_keeps s u \<and>
    user_physical_map u = user_physical_map s"
proof -
  let ?f = "align_next_frame (start - 1)"
  have st: "unat start \<le> 0xFFFFF000" using b(2,3) by (simp add: word_less_nat_alt)
  note u = align_next_unat [OF b(1) st]
  have al: "frame_aligned ?f" by (simp add: frame_unat u)
  have "0 < unat start" using b(1) by (simp add: word_less_nat_alt)
  then have "1 \<le> (unat start + 4095) div 4096" by (simp add: less_eq_div_iff_mult_less_eq)
  then have pos: "0 < ?f" by (simp add: word_less_nat_alt u)
  have set: "set (region_frames ?f end) = {g. frame_aligned g \<and> start \<le> g \<and> g < end}"
    using region_frames_set [OF b(3) al] align_next_least [OF b(1) st] by auto
  have "length (region_frames ?f end) \<le> (0xFFFFF000 + 4095) div 4096"
    unfolding region_frames_def using b(3) by (simp add: div_le_mono)
  then have len: "length (region_frames ?f end) \<le> 2 ^ 20" by simp
  have fr: "unreferenced s g \<and> g \<notin> get_paddr ` set fs" if "g \<in> set (region_frames ?f end)" for g
    using that fresh unfolding set by blast
  note ds = region_frames_distinct [OF b(3)]
  obtain v where v: "init_frame_region_loop (2 ^ 20) s ?f end = Inr v" "mem_inv v (rev (region_frames ?f end) @ fs)"
    using init_frame_region_loop_ok [OF inv al b(3) pos len fr ds] by blast
  obtain t' where "init_frame_region_loop (2 ^ 20) t ?f end = Inr t'" "boot_eq v t'" "boot_keeps s v" "user_physical_map v = user_physical_map s"
    using boot_region_loop [OF e inv w al b(3) pos len fr ds v(1)] by blast
  then show ?thesis
    using b(2) set v by (intro exI [of _ v] exI [of _ t'] exI [of _ "rev (region_frames ?f end)"])
      (simp add: init_frame_region_def del: init_frame_region_loop.simps)
qed

subsection \<open>The regions that the boot loader reports\<close>

definition available :: "layout \<Rightarrow> MMapEntry \<Rightarrow> bool" where
  "available l e \<longleftrightarrow> type e = MMAP_AVAILABLE \<and> kernel_start_paddr l \<le> base_addr_lo e"

text \<open>The part of an available region that the kernel keeps for itself.\<close>

definition share_start :: "layout \<Rightarrow> MMapEntry \<Rightarrow> u32" where
  "share_start l e = (if base_addr_lo e = kernel_start_paddr l then kernel_end_paddr l else base_addr_lo e)"

definition share_end :: "MMapEntry \<Rightarrow> u32" where
  "share_end e = base_addr_lo e + length_lo e div KERNEL_MEM_SHARE_DIV"

definition in_share :: "layout \<Rightarrow> MMapEntry \<Rightarrow> u32 \<Rightarrow> bool" where
  "in_share l e g \<longleftrightarrow> available l e \<and> share_start l e \<le> g \<and> g < share_end e"

definition entry_ok :: "layout \<Rightarrow> MMapEntry \<Rightarrow> bool" where
  "entry_ok l e \<longleftrightarrow> base_addr_hi e = 0 \<and> length_hi e = 0 \<and> size e = SIZEOF_MMapEntry - 4 \<and>
     (available l e \<longrightarrow> kernel_end_paddr l \<le> share_start l e \<and> share_start l e < share_end e \<and>
        unat (share_end e) \<le> 0xFFFFF000)"

text \<open>The rest of the region, for user programs.\<close>

definition user_part :: "MMapEntry \<Rightarrow> PhysicalMap" where
  "user_part e = \<lparr>pm_addr = share_end e, pm_len = length_lo e - length_lo e div KERNEL_MEM_SHARE_DIV\<rparr>"

abbreviation mmap_entry :: "MultibootInfo \<Rightarrow> u32 \<Rightarrow> nat \<Rightarrow> MMapEntry" where
  "mmap_entry mb i k \<equiv> mmap_addr mb (i + word_of_nat k)"

text \<open>The user parts of the available regions, in their order.\<close>

definition user_parts :: "layout \<Rightarrow> MultibootInfo \<Rightarrow> u32 \<Rightarrow> nat \<Rightarrow> PhysicalMap list" where
  "user_parts l mb i n = map user_part (filter (available l) (map (mmap_entry mb i) [0..<n]))"

lemma user_parts_Suc:
  "user_parts l mb i (Suc n) =
     (if available l (mmap_addr mb i) then [user_part (mmap_addr mb i)] else []) @ user_parts l mb (i + 1) n"
proof -
  have "[0..<Suc n] = 0 # map Suc [0..<n]" by (simp add: upt_conv_Cons map_Suc_upt del: upt_Suc)
  then show ?thesis by (simp add: user_parts_def o_def algebra_simps del: upt_Suc)
qed

lemma user_parts_length: "length (user_parts l mb i n) \<le> n"
  using length_filter_le [of "available l" "map (mmap_entry mb i) [0..<n]"] by (simp add: user_parts_def)

lemma boot_frames_loop:
  assumes "boot_eq s t" "mem_inv s fs" "0 < wdi s" "0 < kernel_end_paddr l"
    "\<forall>k < n. entry_ok l (mmap_entry mb i k)"
    "\<forall>j k g. j < k \<longrightarrow> k < n \<longrightarrow> \<not> (in_share l (mmap_entry mb i j) g \<and> in_share l (mmap_entry mb i k) g)"
    "\<forall>f \<in> set fs. \<forall>k < n. \<not> in_share l (mmap_entry mb i k) (get_paddr f)"
    "\<forall>g. frame_aligned g \<longrightarrow> kernel_end_paddr l \<le> g \<longrightarrow> unreferenced s g"
    "length (user_physical_map s) + n \<le> USER_PHYSICAL_MAP_MAX"
  shows "\<exists>u t' gs. init_frames_loop n l mb s i = Inr u \<and> init_frames_loop n l mb t i = Inr t' \<and> boot_eq u t' \<and>
    mem_inv u (gs @ fs) \<and> set gs = {g. frame_aligned g \<and> (\<exists>k < n. in_share l (mmap_entry mb i k) g)} \<and> boot_keeps s u \<and>
    user_physical_map u = user_physical_map s @ user_parts l mb i n"
  using assms
proof (induction n arbitrary: s t fs i)
  case 0
  then show ?case by (intro exI [of _ s] exI [of _ t] exI [of _ "[]"]) (simp add: boot_keeps_refl user_parts_def)
next
  case (Suc n)
  let ?e = "mmap_addr mb i"
  have nth: "mmap_entry mb (i + 1) k = mmap_entry mb i (Suc k)" for k by (simp add: algebra_simps)
  have e0: "entry_ok l ?e" using Suc.prems(5) by (auto dest: spec [of _ 0])
  have rest5: "\<forall>k < n. entry_ok l (mmap_entry mb (i + 1) k)" using Suc.prems(5) unfolding nth by blast
  have rest6: "\<forall>j k g. j < k \<longrightarrow> k < n \<longrightarrow> \<not> (in_share l (mmap_entry mb (i + 1) j) g \<and> in_share l (mmap_entry mb (i + 1) k) g)"
    using Suc.prems(6) unfolding nth by (meson Suc_less_eq)
  have ex: "(\<exists>k < Suc n. in_share l (mmap_entry mb i k) g) \<longleftrightarrow>
      in_share l ?e g \<or> (\<exists>k < n. in_share l (mmap_entry mb (i + 1) k) g)" for g
    unfolding nth by (subst Ex_less_Suc2) simp
  let ?m = "\<lparr>pm_addr = base_addr_lo ?e + length_lo ?e div KERNEL_MEM_SHARE_DIV, pm_len = length_lo ?e - length_lo ?e div KERNEL_MEM_SHARE_DIV\<rparr>"
  have m: "?m = user_part ?e" by (simp add: user_part_def share_end_def)
  have if_region: "(if base_addr_lo ?e = kernel_start_paddr l
      then init_frame_region x (kernel_end_paddr l) (base_addr_lo ?e + length_lo ?e div KERNEL_MEM_SHARE_DIV)
      else init_frame_region x (base_addr_lo ?e) (base_addr_lo ?e + length_lo ?e div KERNEL_MEM_SHARE_DIV)) =
    init_frame_region x (share_start l ?e) (share_end ?e)" for x
    by (simp add: share_start_def share_end_def)
  have hdr: "base_addr_hi ?e = 0" "length_hi ?e = 0" "size ?e = SIZEOF_MMapEntry - 4" using e0 by (simp_all add: entry_ok_def)
  have run: "init_frames_loop (Suc n) l mb x i = (if available l ?e
    then kernel_assert (length (user_physical_map x) < USER_PHYSICAL_MAP_MAX)
      (bind_res (init_frame_region (x\<lparr>user_physical_map := user_physical_map x @ [?m]\<rparr>) (share_start l ?e) (share_end ?e))
        (\<lambda>y. init_frames_loop n l mb y (i + 1)))
    else init_frames_loop n l mb x (i + 1))" for x
    by (simp only: init_frames_loop.simps Let_def hdr available_def if_region kernel_assert_simps simp_thms)
  show ?case
  proof (cases "available l ?e")
    case False
    have ih: "\<exists>u t' gs. init_frames_loop n l mb s (i + 1) = Inr u \<and> init_frames_loop n l mb t (i + 1) = Inr t' \<and> boot_eq u t' \<and>
      mem_inv u (gs @ fs) \<and> set gs = {g. frame_aligned g \<and> (\<exists>k < n. in_share l (mmap_entry mb (i + 1) k) g)} \<and> boot_keeps s u \<and>
      user_physical_map u = user_physical_map s @ user_parts l mb (i + 1) n"
      by (rule Suc.IH [OF Suc.prems(1-4) rest5 rest6 _ Suc.prems(8)])
        (use Suc.prems(7,9) in \<open>simp_all add: nth del: of_nat_Suc\<close>)
    have "init_frames_loop (Suc n) l mb x i = init_frames_loop n l mb x (i + 1)" for x
      by (simp only: run False if_False)
    moreover have "in_share l ?e g = False" for g using False by (simp add: in_share_def)
    moreover have "user_parts l mb i (Suc n) = user_parts l mb (i + 1) n" using False by (simp add: user_parts_Suc)
    ultimately show ?thesis using ih unfolding ex by (fastforce simp del: init_frames_loop.simps)
  next
    case True
    let ?s = "s\<lparr>user_physical_map := user_physical_map s @ [?m]\<rparr>" and ?t = "t\<lparr>user_physical_map := user_physical_map t @ [?m]\<rparr>"
    have e1: "boot_eq ?s ?t" unfolding boot_eq_fields(9) [OF Suc.prems(1)] by (rule boot_eq_update(7) [OF Suc.prems(1)])
    have b: "share_start l ?e < share_end ?e" "unat (share_end ?e) \<le> 0xFFFFF000" "kernel_end_paddr l \<le> share_start l ?e"
      using e0 True by (simp_all add: entry_ok_def)
    have pos: "0 < share_start l ?e" using Suc.prems(4) b(3) by (rule less_le_trans)
    have nf: "g \<notin> get_paddr ` set fs" if "in_share l ?e g" for g
      using Suc.prems(7) that by (auto dest!: spec [of _ 0])
    have "\<exists>u t' gs. init_frame_region ?s (share_start l ?e) (share_end ?e) = Inr u \<and>
      init_frame_region ?t (share_start l ?e) (share_end ?e) = Inr t' \<and> boot_eq u t' \<and> mem_inv u (gs @ fs) \<and>
      set gs = {g. frame_aligned g \<and> share_start l ?e \<le> g \<and> g < share_end ?e} \<and> boot_keeps ?s u \<and>
      user_physical_map u = user_physical_map ?s"
    proof (rule boot_region [OF e1 _ _ pos b(1,2)])
      show "mem_inv ?s fs" "0 < wdi ?s" using Suc.prems(2,3) by simp_all
      fix g
      assume g: "frame_aligned g" "share_start l ?e \<le> g" "g < share_end ?e"
      then have "kernel_end_paddr l \<le> g" using b(3) by (meson order_trans)
      moreover have "in_share l ?e g" using True g by (simp add: in_share_def)
      ultimately show "unreferenced ?s g \<and> g \<notin> get_paddr ` set fs" using Suc.prems(8) g(1) nf by simp
    qed
    then obtain u t1 gs where u: "init_frame_region ?s (share_start l ?e) (share_end ?e) = Inr u"
      "init_frame_region ?t (share_start l ?e) (share_end ?e) = Inr t1" "boot_eq u t1" "mem_inv u (gs @ fs)"
      "set gs = {g. frame_aligned g \<and> in_share l ?e g}" "boot_keeps s u" "user_physical_map u = user_physical_map ?s"
      using True by (auto simp: in_share_def)
    have w: "0 < wdi u" using u(6) Suc.prems(3) by (simp add: boot_keeps_def)
    have un: "\<forall>g. frame_aligned g \<longrightarrow> kernel_end_paddr l \<le> g \<longrightarrow> unreferenced u g"
      using Suc.prems(8) keeps_unreferenced [OF u(6)] by simp
    have fr: "\<forall>f \<in> set (gs @ fs). \<forall>k < n. \<not> in_share l (mmap_entry mb (i + 1) k) (get_paddr f)"
    proof (intro ballI allI impI)
      fix f k
      assume f: "f \<in> set (gs @ fs)" "k < n"
      show "\<not> in_share l (mmap_entry mb (i + 1) k) (get_paddr f)"
      proof (cases "f \<in> set fs")
        case True
        moreover have "Suc k < Suc n" using f(2) by simp
        ultimately show ?thesis using Suc.prems(7) unfolding nth by blast
      next
        case False
        then have "get_paddr f = f" "in_share l ?e f" using f(1) u(5) by auto
        moreover have "mmap_entry mb i 0 = ?e" by simp
        moreover have "0 < Suc k" "Suc k < Suc n" using f(2) by simp_all
        ultimately show ?thesis using Suc.prems(6) unfolding nth by metis
      qed
    qed
    have ln: "length (user_physical_map u) + n \<le> USER_PHYSICAL_MAP_MAX" using Suc.prems(9) u(7) by simp
    from Suc.IH [OF u(3,4) w Suc.prems(4) rest5 rest6 fr un ln] obtain v t2 hs where
      v: "init_frames_loop n l mb u (i + 1) = Inr v" "init_frames_loop n l mb t1 (i + 1) = Inr t2" "boot_eq v t2"
      "mem_inv v (hs @ gs @ fs)" "set hs = {g. frame_aligned g \<and> (\<exists>k < n. in_share l (mmap_entry mb (i + 1) k) g)}"
      "boot_keeps u v" "user_physical_map v = user_physical_map u @ user_parts l mb (i + 1) n" by blast
    have lens: "length (user_physical_map s) < USER_PHYSICAL_MAP_MAX" "length (user_physical_map t) < USER_PHYSICAL_MAP_MAX"
      using Suc.prems(9) boot_eq_fields(9) [OF Suc.prems(1)] by simp_all
    have "init_frames_loop (Suc n) l mb s i = Inr v" "init_frames_loop (Suc n) l mb t i = Inr t2"
      unfolding run using True lens u(1,2) v(1,2) by simp_all
    moreover have "set (hs @ gs) = {g. frame_aligned g \<and> (\<exists>k < Suc n. in_share l (mmap_entry mb i k) g)}"
      unfolding ex using u(5) v(5) by auto
    moreover have "boot_keeps s v" by (rule boot_keeps_trans [OF u(6) v(6)])
    moreover have "mem_inv v ((hs @ gs) @ fs)" using v(4) by simp
    moreover have "user_physical_map v = user_physical_map s @ user_parts l mb i (Suc n)"
      using v(7) u(7) True m by (simp add: user_parts_Suc)
    ultimately show ?thesis using v(3) by blast
  qed
qed

subsection \<open>The state after the boot code (\<^verbatim>\<open>boot/boot.s\<close>)\<close>

text \<open>The linker script puts the kernel at 1 MB and maps it 3 GB higher.\<close>

definition layout_ok :: "layout \<Rightarrow> bool" where
  "layout_ok l \<longleftrightarrow> kernel_start_paddr l = 0x100000 \<and> kernel_start_vaddr l = 0xC0100000 \<and>
     0x100000 < kernel_end_paddr l \<and> kernel_end_paddr l \<le> 0x3FF000 \<and>
     kernel_end_vaddr l = kernel_end_paddr l + 0xC0000000"

definition image_pages :: "layout \<Rightarrow> nat" where
  "image_pages l = (unat (kernel_end_paddr l) - 0x100000 + 4095) div 4096"

text \<open>The number of entries that the boot code makes in its table.\<close>

definition window_index :: "layout \<Rightarrow> nat" where
  "window_index l = 256 + image_pages l"

text \<open>The page directory of the boot code: one table at the entries 0 and 0x300, itself at the
  last entry. The table maps the first pages of memory, up to the end of the kernel, in order.\<close>

definition boot_paging :: "layout \<Rightarrow> u32 \<Rightarrow> kmem \<Rightarrow> bool" where
  "boot_paging l T s \<longleftrightarrow> frame_aligned (cr3 s) \<and> (\<forall>n. \<not> stale s n) \<and>
     frame_aligned T \<and> T \<noteq> cr3 s \<and> {cr3 s, T} \<subseteq> {0x100000 ..< kernel_end_paddr l} \<and>
        pde s 0 = T + 1 \<and> pde s 0x300 = T + 1 \<and> pde s 1023 = cr3 s + 1 \<and>
        (\<forall>i < 1024. i \<notin> {0, 0x300, 1023} \<longrightarrow> pde s i = 0) \<and>
        (\<forall>j < 1024. rd32 (pmem s) (T + 4 * word_of_nat j) =
           (if j < window_index l then 4096 * word_of_nat j + 1 else 0))"

lemma image_pages_bounds:
  assumes "layout_ok l"
  shows "0 < image_pages l" "window_index l < 1024"
    "j < window_index l \<Longrightarrow> 4096 * j < unat (kernel_end_paddr l)"
    "unat (kernel_end_paddr l) \<le> 4096 * (window_index l)"
    "(unat (kernel_end_paddr l) + 4095) div 4096 = window_index l"
proof -
  have b: "0x100000 < unat (kernel_end_paddr l)" "unat (kernel_end_paddr l) \<le> 0x3FF000"
    using assms by (simp_all add: layout_ok_def word_less_nat_alt word_le_nat_alt)
  obtain d where d: "unat (kernel_end_paddr l) = 0x100000 + d" using b(1) by (metis less_imp_add_positive)
  have i: "image_pages l = (d + 4095) div 4096" by (simp add: image_pages_def d)
  note i = i window_index_def
  show "0 < image_pages l" "window_index l < 1024" using b by (simp_all add: i d div_less_iff_less_mult less_eq_div_iff_mult_less_eq)
  have lo: "4096 * ((d + 4095) div 4096) \<le> d + 4095" by simp
  have hi: "d \<le> 4096 * ((d + 4095) div 4096)"
  proof -
    have "d + 4095 = 4096 * ((d + 4095) div 4096) + (d + 4095) mod 4096" by simp
    moreover have "(d + 4095) mod 4096 < 4096" by simp
    ultimately show ?thesis by linarith
  qed
  show "4096 * j < unat (kernel_end_paddr l)" if "j < window_index l"
    using that lo by (simp add: i d)
  show "unat (kernel_end_paddr l) \<le> 4096 * (window_index l)" using hi by (simp add: i d)
  have "0x100000 + d + 4095 = d + 4095 + 256 * 4096" by simp
  then show "(unat (kernel_end_paddr l) + 4095) div 4096 = window_index l" unfolding d i by (simp only: div_mult_self1 add.commute)
qed

lemma entry_plus_1:
  assumes "frame_aligned f"
  shows "get_paddr (f + 1) = f" "entry_present (f + 1)"
proof -
  have o: "(1 :: u32) < 0x1000" by simp
  show p: "get_paddr (f + 1) = f" by (rule get_paddr_offset [OF assms o])
  have "(f + 1) AND 0xFFF = 1" using frame_decomp [OF assms o, of "f + 1"] by simp
  moreover have "(f + 1) AND 1 = ((f + 1) AND 0xFFF) AND 1" by (simp only: and.assoc) simp
  ultimately have "(f + 1) AND 1 = 1 AND 1" by (simp only:)
  then show "entry_present (f + 1)" by (simp add: entry_present_def)
qed

text \<open>The state with entry 0 cleared.\<close>

definition hide :: "kmem \<Rightarrow> kmem" where
  "hide s = s\<lparr>pmem := wr32 (pmem s) (cr3 s) 0\<rparr>"

lemma hide_eq: "boot_eq (hide s) s"
  by (simp add: boot_eq_def hide_def wr32_def)

lemma hide_paging:
  assumes lo: "layout_ok l" and bp: "boot_paging l T s"
  shows "paging_ok (hide s)" "pde (hide s) 0 = 0" "entry_present (pde (hide s) 0x300)"
    "\<And>i. i < 1023 \<Longrightarrow> i \<noteq> 0x300 \<Longrightarrow> pde (hide s) i = 0"
    "\<And>j. j < 1024 \<Longrightarrow> pte (hide s) 0x300 (word_of_nat j) = (if j < window_index l then 4096 * word_of_nat j + 1 else 0)"
    "\<And>g. table_frame (hide s) g \<Longrightarrow> g \<in> {cr3 s, T}" "{cr3 s, T} \<subseteq> {0x100000 ..< kernel_end_paddr l}"
proof -
  have al: "frame_aligned (cr3 s)" and fresh: "\<And>n. \<not> stale s n" using bp by (simp_all add: boot_paging_def)
  have T: "frame_aligned T" "T \<noteq> cr3 s" "{cr3 s, T} \<subseteq> {0x100000 ..< kernel_end_paddr l}"
    "pde s 0 = T + 1" "pde s 0x300 = T + 1" "pde s 1023 = cr3 s + 1" "\<And>i. i < 1024 \<Longrightarrow> i \<notin> {0, 0x300, 1023} \<Longrightarrow> pde s i = 0"
    "\<And>j. j < 1024 \<Longrightarrow> rd32 (pmem s) (T + 4 * word_of_nat j) = (if j < window_index l then 4096 * word_of_nat j + 1 else 0)"
    using bp by (auto simp: boot_paging_def)
  let ?h = "hide s"
  have pde: "pde ?h i = (if i = 0 then 0 else pde s i)" if i: "i < 1024" for i
  proof -
    have "cr3 s + 4 * 0 = cr3 s + 4 * i \<longleftrightarrow> i = 0" using al i by (subst frame_index_inj) auto
    then show ?thesis using al i by (simp add: pde_def hide_def)
  qed
  show p0: "pde ?h 0 = 0" using pde by simp
  have p300: "pde ?h 0x300 = T + 1" and p1023: "pde ?h 1023 = cr3 s + 1" using pde T(5,6) by simp_all
  show "entry_present (pde ?h 0x300)" using p300 entry_plus_1(2) [OF T(1)] by simp
  show other: "pde ?h i = 0" if "i < 1023" "i \<noteq> 0x300" for i
    using that pde [OF less_1024 [OF that(1)]] T(7) [OF less_1024 [OF that(1)]] by auto
  have pr: "i = 0x300 \<or> i = 1023" if "i < 1024" "entry_present (pde ?h i)" for i
  proof (rule ccontr)
    assume "\<not> (i = 0x300 \<or> i = 1023)"
    then have "pde ?h i = 0" using pde [OF that(1)] T(7) [OF that(1)] by auto
    then show False using that(2) by (simp add: entry_present_def)
  qed
  have pt: "pt ?h 0x300 = T" "pt ?h 1023 = cr3 s"
    using entry_plus_1(1) [OF T(1)] entry_plus_1(1) [OF al] by (simp_all add: pt_def p300 p1023)
  have "pt ?h i \<noteq> pt ?h j" if "i < 1024" "j < 1024" "i \<noteq> j" "entry_present (pde ?h i)" "entry_present (pde ?h j)" for i j
    using pr [OF that(1,4)] pr [OF that(2,5)] that(3) pt T(2) by auto
  moreover have "cr3 ?h = cr3 s" "stale ?h = stale s" by (simp_all add: hide_def)
  ultimately show "paging_ok ?h"
    unfolding paging_ok_def using pt(2) entry_plus_1(2) [OF al] al fresh p1023 by simp
  show "{cr3 s, T} \<subseteq> {0x100000 ..< kernel_end_paddr l}" by (rule T(3))
  show "g \<in> {cr3 s, T}" if "table_frame ?h g" for g
  proof -
    obtain i where "i < 1024" "entry_present (pde ?h i)" "g = pt ?h i" using \<open>table_frame ?h g\<close> unfolding table_frame_def by blast
    from pr [OF this(1,2)] this(3) pt show ?thesis by auto
  qed
  show "pte ?h 0x300 (word_of_nat j) = (if j < window_index l then 4096 * word_of_nat j + 1 else 0)" if j: "j < 1024" for j
  proof -
    have j': "(word_of_nat j :: u32) < 1024" using j by (simp add: word_less_nat_alt unat_index)
    have "cr3 s + 4 * 0 \<noteq> T + 4 * word_of_nat j" using T(2) al T(1) j' by (subst frame_index_inj) auto
    then have "rd32 (pmem ?h) (T + 4 * word_of_nat j) = rd32 (pmem s) (T + 4 * word_of_nat j)"
      using al T(1) j' by (simp add: hide_def)
    then show ?thesis using T(8) [OF j] by (simp add: pte_def pt)
  qed
qed

subsection \<open>The page of the free list\<close>

text \<open>It is the first page behind the kernel.\<close>

definition set_window :: "layout \<Rightarrow> kmem \<Rightarrow> kmem" where
  "set_window l s = s\<lparr>free_list_head_pte := pte_addr 0x300 (word_of_nat (window_index l)),
     free_list_head := at_index 0x300 (window_index l)\<rparr>"

lemma window_page:
  assumes "layout_ok l"
  shows "align_next_page (kernel_end_vaddr l - 1) = at_index 0x300 (window_index l)"
proof -
  note b = image_pages_bounds [OF assms]
  have k: "0x100000 < unat (kernel_end_paddr l)" "unat (kernel_end_paddr l) \<le> 0x3FF000"
    using assms by (simp_all add: layout_ok_def word_less_nat_alt word_le_nat_alt)
  have v: "kernel_end_vaddr l = kernel_end_paddr l + 0xC0000000" using assms by (simp add: layout_ok_def)
  have u: "unat (kernel_end_vaddr l) = 0xC0000000 + unat (kernel_end_paddr l)" using k(2) by (simp add: v unat_add_u32)
  have pos: "0 < kernel_end_vaddr l" using u by (simp add: word_less_nat_alt)
  have le: "unat (kernel_end_vaddr l) \<le> 0xFFFFF000" using u k(2) by simp
  have "0xC0000000 + unat (kernel_end_paddr l) + 4095 = unat (kernel_end_paddr l) + 4095 + 0xC0000 * 4096" by simp
  then have "(unat (kernel_end_vaddr l) + 4095) div 4096 = (unat (kernel_end_paddr l) + 4095) div 4096 + 0xC0000"
    unfolding u by (simp only: div_mult_self1)
  then have "unat (align_next_page (kernel_end_vaddr l - 1)) = (window_index l + 0xC0000) * 4096"
    unfolding align_next_page_def align_next_unat [OF pos le] b(5) by (simp only:)
  also have "\<dots> = unat (at_index 0x300 (window_index l))"
    using at_index_unat [of "0x300" "window_index l"] b(2) by simp
  finally show ?thesis by (simp only: word_unat_eq_iff)
qed

lemma boot_eq_window: "boot_eq s t \<Longrightarrow> boot_eq (set_window l s) (set_window l t)"
  unfolding set_window_def by (intro boot_eq_update(2,3))

lemma set_window_fields [simp]:
  "pde (set_window l s) i = pde s i" "pte (set_window l s) i j = pte s i j" "paging_ok (set_window l s) = paging_ok s"
  "cr3 (set_window l s) = cr3 s" "stale (set_window l s) = stale s" "table_frame (set_window l s) g = table_frame s g"
  "free_list_head (set_window l s) = at_index 0x300 (window_index l)" "free_frame_paddr (set_window l s) = free_frame_paddr s"
  "user_physical_map (set_window l s) = user_physical_map s" "view (set_window l s) i j = view s i j"
  by (simp_all add: set_window_def table_frame_def view_def)

lemma window_parts:
  assumes "layout_ok l"
  shows "get_pd_index (at_index 0x300 (window_index l)) = 0x300"
    "get_pt_index (at_index 0x300 (window_index l)) = word_of_nat (window_index l)"
    "frame_aligned (at_index 0x300 (window_index l))"
proof -
  note b = image_pages_bounds [OF assms]
  show "get_pd_index (at_index 0x300 (window_index l)) = 0x300"
    "get_pt_index (at_index 0x300 (window_index l)) = word_of_nat (window_index l)"
    by (rule at_index_parts [OF _ b(2)], simp)+
  have "unat (at_index 0x300 (window_index l)) = 0xC0000000 + 4096 * window_index l"
    using at_index_unat [of "0x300" "window_index l"] b(2) by simp
  then show "frame_aligned (at_index 0x300 (window_index l))" unfolding frame_unat by (simp add: dvd_add)
qed

lemma init_free_list_page_boot:
  assumes lo: "layout_ok l" and bp: "boot_paging l T s"
  shows "init_free_list_page l s = Inr (set_window l s)"
proof -
  note b = image_pages_bounds [OF lo] and h = hide_paging [OF lo bp] and w = window_parts [OF lo]
  have j: "(word_of_nat (window_index l) :: u32) < 1024" using b(2) by (simp only: word_less_nat_alt unat_index) simp
  let ?a = "pte_addr 0x300 (word_of_nat (window_index l))"
  let ?s = "s\<lparr>free_list_head_pte := ?a\<rparr>" and ?h = "(hide s)\<lparr>free_list_head_pte := ?a\<rparr>"
  have e: "boot_eq ?h ?s" by (rule boot_eq_update(3) [OF hide_eq])
  have ok: "paging_ok ?h" using h(1) by simp
  note d = dir_ok_paging [OF ok]
  have "PDE ?h 0x300 = Inr (pde (hide s) 0x300)" using PDE_ok [OF ok, of "0x300"] by simp
  from boot_PDE [OF e d _ _ this] have pd: "PDE ?s 0x300 = Inr (pde (hide s) 0x300)" by simp
  have "PTE ?h 0x300 (word_of_nat (window_index l)) = Inr 0"
    using PTE_ok [OF ok _ j, of "0x300"] h(3) h(5) [OF b(2)] by simp
  from boot_PTE [OF e d _ _ j this] have "PTE ?s 0x300 (word_of_nat (window_index l)) = Inr 0" by simp
  then have "vread32 ?s ?a = Inr 0" by (simp add: PTE_def)
  then show ?thesis
    unfolding init_free_list_page_def window_page [OF lo] w(1,2) Let_def
    using pd h(3) by (simp add: set_window_def entry_present_def)
qed

lemma hidden_inv:
  assumes lo: "layout_ok l" and bp: "boot_paging l T s" and z: "free_frame_paddr s = 0"
  shows "mem_inv (set_window l (hide s)) []" "0 < wdi (set_window l (hide s))"
    "frame_aligned g \<Longrightarrow> kernel_end_paddr l \<le> g \<Longrightarrow> unreferenced (set_window l (hide s)) g"
proof -
  note b = image_pages_bounds [OF lo] and h = hide_paging [OF lo bp] and w = window_parts [OF lo]
  let ?h = "set_window l (hide s)"
  have "window_ok ?h"
    unfolding window_ok_def using w h(3) by (simp add: set_window_def)
  moreover have "free_frame_paddr (hide s) = 0" using z by (simp add: hide_def)
  ultimately show "mem_inv ?h []" using h(1) by (simp add: mem_inv_def)
  show "0 < wdi ?h" using w(1) by simp
  show "unreferenced ?h g" if g: "frame_aligned g" "kernel_end_paddr l \<le> g"
    unfolding unreferenced_def
  proof (intro conjI allI impI)
    show "\<not> table_frame ?h g" using h(6) [of g] h(7) g(2) by auto
    fix i j :: u32
    assume i: "i < 1023" and j: "j < 1024"
    show "\<not> maps ?h i j g"
    proof (cases "i = 0x300")
      case True
      obtain k where k: "j = word_of_nat k" "k < 1024" using j by (intro that [of "unat j"]) (simp_all add: word_less_nat_alt)
      show ?thesis
      proof (cases "k < window_index l")
        case True
        have "frame_aligned (4096 * word_of_nat k :: u32)"
          using at_index_unat [of 0 k] k(2) by (simp add: frame_unat)
        from entry_plus_1(1) [OF this] have "get_paddr (pte ?h 0x300 j) = 4096 * word_of_nat k"
          using h(5) [OF k(2)] True k(1) by simp
        moreover have "unat (4096 * word_of_nat k :: u32) < unat (kernel_end_paddr l)"
          using at_index_unat [of 0 k] k(2) b(3) [OF True] by simp
        ultimately show ?thesis using g(2) \<open>i = 0x300\<close> by (auto simp: maps_def word_le_nat_alt)
      next
        case False
        then show ?thesis using h(5) [OF k(2)] k(1) \<open>i = 0x300\<close> by (simp add: maps_def entry_present_def)
      qed
    next
      case False
      then show ?thesis using h(4) [OF i] by (simp add: maps_def entry_present_def)
    qed
  qed
qed

lemma low_frame:
  assumes "j < 1024"
  shows "frame_aligned (page_no 0 j)" "unat (page_no 0 j) = 4096 * j"
proof -
  show u: "unat (page_no 0 j) = 4096 * j" using assms by (simp add: page_no_unat)
  show "frame_aligned (page_no 0 j)" by (simp add: frame_unat u)
qed

text \<open>The frames of the image are referred to.\<close>

lemma image_referenced:
  assumes lo: "layout_ok l" and bp: "boot_paging l T s" and a: "0x100000 \<le> a" "a < kernel_end_paddr l"
  shows "\<not> unreferenced (set_window l (hide s)) (get_paddr a)"
proof -
  note b = image_pages_bounds [OF lo] and h = hide_paging [OF lo bp]
  let ?h = "set_window l (hide s)" and ?j = "unat a div 4096"
  have w: "wdi ?h = 0x300" "wti ?h = word_of_nat (window_index l)" using window_parts [OF lo] by simp_all
  have "unat a < window_index l * 4096" using a(2) b(4) by (simp add: word_less_nat_alt)
  then have j: "?j < window_index l" by (subst div_less_iff_less_mult) simp_all
  then have j': "?j < 1024" using b(2) by simp
  have p: "get_paddr a = page_no 0 ?j"
    using unat_get_paddr [of a] low_frame(2) [OF j'] by (simp add: word_unat_eq_iff minus_mod_eq_mult_div [symmetric])
  have "pte ?h 0x300 (word_of_nat ?j) = page_no 0 ?j + 1" using h(5) [OF j'] j by (simp add: page_no_def)
  then have "maps ?h 0x300 (word_of_nat ?j) (get_paddr a)"
    using h(3) entry_plus_1 [OF low_frame(1) [OF j']] by (simp add: maps_def p)
  moreover have "(word_of_nat ?j :: u32) < 1024" using unat_index [OF j'] j' by (simp add: word_less_nat_alt)
  moreover have "(word_of_nat ?j :: u32) \<noteq> word_of_nat (window_index l)"
    using unat_index [OF j'] unat_index [OF b(2)] j by (auto simp: word_unat_eq_iff)
  moreover have "(0x300 :: u32) < 1023" by simp
  ultimately show ?thesis unfolding unreferenced_def w prod.inject by blast
qed

subsection \<open>Changing entries of the directory in use\<close>

text \<open>The page through which the directory is accessed stays valid while other entries change.\<close>

definition dir_live :: "kmem \<Rightarrow> bool" where
  "dir_live x \<longleftrightarrow> frame_aligned (cr3 x) \<and> entry_present (pde x 1023) \<and> pt x 1023 = cr3 x \<and> \<not> stale x (1023 * 1024 + 1023)"

definition set_dir :: "kmem \<Rightarrow> u32 \<Rightarrow> u32 \<Rightarrow> kmem" where
  "set_dir x i v = x\<lparr>pmem := wr32 (pmem x) (cr3 x + 4 * i) v\<rparr>"

lemma live_translate:
  assumes "dir_live x" "i < 1024"
  shows "translate x (pde_addr i) = Inr (cr3 x + 4 * i)"
proof -
  have d: "frame_aligned (cr3 x)" "entry_present (pde x 1023)" "pt x 1023 = cr3 x" "\<not> stale x (1023 * 1024 + 1023)"
    using assms(1) by (simp_all add: dir_live_def)
  have ix: "get_pd_index (pde_addr i) = 1023" "get_pt_index (pde_addr i) = 1023" "pde_addr i AND 0xFFF = 4 * i"
    unfolding pde_addr_pte_addr using assms(2) by simp_all
  have "pte x 1023 1023 = pde x 1023" by (simp add: pte_def d(3) pde_def)
  moreover have "drop_bit 12 (pde_addr i) = 1023 * 1024 + 1023" unfolding page_of_indices ix by (rule refl)
  ultimately show ?thesis using d by (simp add: translate_tables ix pt_def)
qed

lemma live_PDE: "dir_live x \<Longrightarrow> i < 1024 \<Longrightarrow> PDE x i = Inr (pde x i)"
  by (simp add: PDE_def vread32_def live_translate pde_def)

lemma set_dir_pde:
  assumes "frame_aligned (cr3 x)" "i < 1024" "k < 1024"
  shows "pde (set_dir x i v) k = (if k = i then v else pde x k)"
  using assms by (simp add: pde_def set_dir_def)

lemma live_set:
  assumes d: "dir_live x" and i: "i < 1023"
  obtains st where "set_PDE x i v = Inr ((set_dir x i v)\<lparr>stale := st\<rparr>)" "dir_live ((set_dir x i v)\<lparr>stale := st\<rparr>)"
proof -
  have al: "frame_aligned (cr3 x)" and nst: "\<not> stale x (1023 * 1024 + 1023)" using d by (simp_all add: dir_live_def)
  note i' = less_1024 [OF i]
  have tr: "translate x (pde_addr i) = Inr (cr3 x + 4 * i)" by (rule live_translate [OF d i'])
  let ?k = "1023 * 1024 + i"
  have k: "entry_page (pde_addr i) = ?k" unfolding pde_addr_pte_addr by (rule entry_page_pte_addr) (use i' in simp_all)
  define st where "st = (if entry_present (pde x i) \<and> pde x i \<noteq> v
    then (\<lambda>n. stale x n \<or> n = ?k \<or> (1023 * 1024 \<le> ?k \<and> n div 1024 = ?k - 1023 * 1024)) else stale x)"
  have "(1023 * 1024 + 1023) div 1024 = (1023 :: u32)" by simp
  then have "\<not> st (1023 * 1024 + 1023)" using nst i by (auto simp: st_def)
  moreover have "pde (set_dir x i v) 1023 = pde x 1023" using set_dir_pde [OF al i', of 1023] i by auto
  ultimately have "dir_live ((set_dir x i v)\<lparr>stale := st\<rparr>)"
    using d by (simp add: dir_live_def pt_def pde_def set_dir_def)
  moreover have "set_PDE x i v = Inr ((set_dir x i v)\<lparr>stale := st\<rparr>)"
    using tr by (simp add: set_PDE_def store_entry_def vread32_def vwrite32_def Let_def k st_def set_dir_def pde_def)
  ultimately show ?thesis by (intro that)
qed

text \<open>The last part of \<^verbatim>\<open>reinit_paging\<close>: the tables at the entries \<open>a\<close> and \<open>c\<close> move to 0 and 0x300.\<close>

definition moved :: "kmem \<Rightarrow> u32 \<Rightarrow> u32 \<Rightarrow> kmem" where
  "moved x a c = (set_dir (set_dir (set_dir (set_dir x 0 (create_entry (pt x a) PAGE_WRITABLE))
     0x300 (create_entry (pt x c) PAGE_WRITABLE)) a 0) c 0)\<lparr>stale := \<lambda>_. False\<rparr>"

lemma stale_simps [simp]:
  "pde (x\<lparr>stale := st\<rparr>) i = pde x i" "set_dir (x\<lparr>stale := st\<rparr>) i v = (set_dir x i v)\<lparr>stale := st\<rparr>"
  "cr3 (set_dir x i v) = cr3 x" "stale (set_dir x i v) = stale x"
  by (simp_all add: pde_def set_dir_def)

lemma moved_run:
  assumes d: "dir_live x" and i: "a < 1023" "c < 1023" "a \<noteq> 0" "c \<noteq> 0" "a \<noteq> 0x300" "c \<noteq> 0x300"
  shows "bind_res (PDE x a) (\<lambda>e.
     bind_res (set_PDE x 0 (create_entry (get_paddr e) PAGE_WRITABLE)) (\<lambda>s.
     bind_res (PDE s c) (\<lambda>e.
     bind_res (set_PDE s 0x300 (create_entry (get_paddr e) PAGE_WRITABLE)) (\<lambda>s.
     bind_res (set_PDE s a 0) (\<lambda>s.
     bind_res (set_PDE s c 0) (\<lambda>s. K (flush_tlb s))))))) = K (moved x a c)"
proof -
  let ?e1 = "create_entry (pt x a) PAGE_WRITABLE" and ?e2 = "create_entry (pt x c) PAGE_WRITABLE"
  have al: "frame_aligned (cr3 x)" using d by (simp add: dir_live_def)
  note i' = less_1024 [OF i(1)] less_1024 [OF i(2)]
  obtain st1 where 1: "set_PDE x 0 ?e1 = Inr ((set_dir x 0 ?e1)\<lparr>stale := st1\<rparr>)" "dir_live ((set_dir x 0 ?e1)\<lparr>stale := st1\<rparr>)"
    by (rule live_set [OF d, of 0 ?e1]) simp
  let ?x1 = "(set_dir x 0 ?e1)\<lparr>stale := st1\<rparr>"
  have p1: "PDE ?x1 c = Inr (pde x c)" using live_PDE [OF 1(2) i'(2)] set_dir_pde [OF al _ i'(2)] i(4) by simp
  obtain st2 where 2: "set_PDE ?x1 0x300 ?e2 = Inr ((set_dir ?x1 0x300 ?e2)\<lparr>stale := st2\<rparr>)"
    "dir_live ((set_dir ?x1 0x300 ?e2)\<lparr>stale := st2\<rparr>)"
    by (rule live_set [OF 1(2), of "0x300" ?e2]) simp
  obtain st3 where 3: "set_PDE ((set_dir ?x1 0x300 ?e2)\<lparr>stale := st2\<rparr>) a 0 =
      Inr ((set_dir ((set_dir ?x1 0x300 ?e2)\<lparr>stale := st2\<rparr>) a 0)\<lparr>stale := st3\<rparr>)"
    "dir_live ((set_dir ((set_dir ?x1 0x300 ?e2)\<lparr>stale := st2\<rparr>) a 0)\<lparr>stale := st3\<rparr>)"
    by (rule live_set [OF 2(2) i(1), of 0])
  obtain st4 where 4: "set_PDE ((set_dir ((set_dir ?x1 0x300 ?e2)\<lparr>stale := st2\<rparr>) a 0)\<lparr>stale := st3\<rparr>) c 0 =
      Inr ((set_dir ((set_dir ((set_dir ?x1 0x300 ?e2)\<lparr>stale := st2\<rparr>) a 0)\<lparr>stale := st3\<rparr>) c 0)\<lparr>stale := st4\<rparr>)"
    by (rule live_set [OF 3(2) i(2), of 0])
  show ?thesis
    using live_PDE [OF d i'(1)] 1(1) p1 2(1) 3(1) 4 by (simp add: pt_def flush_tlb_def moved_def)
qed

lemma moved_tables:
  assumes al: "frame_aligned (cr3 x)" and i: "a < 1023" "c < 1023" "a \<noteq> 0" "c \<noteq> 0" "a \<noteq> 0x300" "c \<noteq> 0x300" "a \<noteq> c"
  shows "k < 1024 \<Longrightarrow> pde (moved x a c) k = (if k = 0 then create_entry (pt x a) PAGE_WRITABLE
      else if k = 0x300 then create_entry (pt x c) PAGE_WRITABLE else if k = a \<or> k = c then 0 else pde x k)"
    and "get_paddr w \<noteq> cr3 x \<Longrightarrow> pmem (moved x a c) w = pmem x w"
    and "cr3 (moved x a c) = cr3 x" "stale (moved x a c) = (\<lambda>_. False)"
    "free_list_head (moved x a c) = free_list_head x" "free_list_head_pte (moved x a c) = free_list_head_pte x"
    "free_frame_paddr (moved x a c) = free_frame_paddr x" "user_physical_map (moved x a c) = user_physical_map x"
    "current_page_dir (moved x a c) = current_page_dir x" "kernel_page_dir (moved x a c) = kernel_page_dir x"
proof -
  note i' = less_1024 [OF i(1)] less_1024 [OF i(2)]
  show "pde (moved x a c) k = (if k = 0 then create_entry (pt x a) PAGE_WRITABLE
      else if k = 0x300 then create_entry (pt x c) PAGE_WRITABLE else if k = a \<or> k = c then 0 else pde x k)"
    if "k < 1024"
    using i al i' that by (simp add: moved_def set_dir_pde)
  show "pmem (moved x a c) w = pmem x w" if w: "get_paddr w \<noteq> cr3 x"
  proof -
    have f: "wr32 m (cr3 x + 4 * i) v w = m w" if "i < 1024" for m i v by (rule wr32_in_frame(1) [OF al that w])
    show ?thesis by (simp add: moved_def set_dir_def f i' f [of 0, simplified] f [of "0x300", simplified])
  qed
qed (simp_all add: moved_def set_dir_def)

lemma moved_paging:
  assumes e: "boot_eq u x" and ok: "paging_ok u"
    and pr: "entry_present (pde u 0x2FC)" "entry_present (pde u 0x2F8)"
    and ab: "\<forall>k < 1023. k \<notin> {0, 0x2F8, 0x2FC, 0x300} \<longrightarrow> pde u k = 0"
  defines "y \<equiv> moved x 0x2FC 0x2F8"
  shows "paging_ok y" "dir_live x" "pt y 0 = pt u 0x2FC" "pt y 0x300 = pt u 0x2F8" "entry_present (pde y 0)" "entry_present (pde y 0x300)"
    "\<And>k. k < 1023 \<Longrightarrow> k \<noteq> 0 \<Longrightarrow> k \<noteq> 0x300 \<Longrightarrow> pde y k = 0"
    "\<And>j. j < 1024 \<Longrightarrow> pte y 0 j = pte u 0x2FC j" "\<And>j. j < 1024 \<Longrightarrow> pte y 0x300 j = pte u 0x2F8 j"
    "\<And>g. table_frame y g \<Longrightarrow> table_frame u g" "\<And>a. get_paddr a \<noteq> cr3 u \<Longrightarrow> pmem y a = pmem u a"
proof -
  note f = boot_eq_fields [OF e] and d = dir_ok_paging [OF ok]
  have al: "frame_aligned (cr3 x)" and al': "frame_aligned (cr3 u)" using paging_aligned [OF ok] f(2) by simp_all
  have pd: "pde x i = pde u i" if "0 < i" "i < 1024" for i by (rule boot_eq_pde [OF e d that])
  have pts: "pt x i = pt u i" if "0 < i" "i < 1024" for i using pd [OF that] by (simp add: pt_def)
  show "dir_live x"
    using al pd [of 1023] pts [of 1023] f(2,3) paging_self [OF ok] paging_self_pt [OF ok] paging_fresh [OF ok] by (simp add: dir_live_def)
  note mv = moved_tables [OF al, of "0x2FC" "0x2F8", folded y_def]
  have pde_y: "pde y k = (if k = 0 then create_entry (pt u 0x2FC) PAGE_WRITABLE
      else if k = 0x300 then create_entry (pt u 0x2F8) PAGE_WRITABLE else if k = 1023 then pde u 1023 else 0)" if k: "k < 1024" for k
  proof -
    have "pde y k = (if k = 0 then create_entry (pt u 0x2FC) PAGE_WRITABLE
      else if k = 0x300 then create_entry (pt u 0x2F8) PAGE_WRITABLE else if k = 0x2FC \<or> k = 0x2F8 then 0 else pde x k)"
      using mv(1) [OF _ _ _ _ _ _ _ k] pts [of "0x2FC"] pts [of "0x2F8"] by simp
    moreover have "pde x k = (if k = 1023 then pde u 1023 else 0)" if ne: "k \<noteq> 0" "k \<noteq> 0x300" "k \<noteq> 0x2FC" "k \<noteq> 0x2F8"
    proof (cases "k = 1023")
      case True
      then show ?thesis using pd [of 1023] by simp
    next
      case False
      then have "unat k \<noteq> 1023" by (auto simp: word_unat_eq_iff)
      then have "k < 1023" using k by (simp add: word_less_nat_alt)
      moreover have "0 < k" using ne(1) by (simp add: word_neq_0_conv)
      ultimately show ?thesis using pd [OF _ k] ab ne False by simp
    qed
    ultimately show ?thesis by auto
  qed
  have al_pt: "get_paddr (create_entry (pt u i) PAGE_WRITABLE) = pt u i" for i by simp
  show p0: "pt y 0 = pt u 0x2FC" and p300: "pt y 0x300 = pt u 0x2F8" using pde_y [of 0] pde_y [of "0x300"] by (simp_all add: pt_def)
  have p1023: "pt y 1023 = cr3 u" using pde_y [of 1023] paging_self_pt [OF ok] by (simp add: pt_def)
  show e0: "entry_present (pde y 0)" and e300: "entry_present (pde y 0x300)"
    using pde_y [of 0] pde_y [of "0x300"] table_entry_facts(1) [of "pt u 0x2FC" 0] table_entry_facts(1) [of "pt u 0x2F8" 0]
    by (simp_all add: table_entry_def)
  show "pde y k = 0" if "k < 1023" "k \<noteq> 0" "k \<noteq> 0x300" for k
    using pde_y [OF less_1024 [OF that(1)]] that by auto
  have ne: "pt u 0x2FC \<noteq> pt u 0x2F8" "pt u 0x2FC \<noteq> cr3 u" "pt u 0x2F8 \<noteq> cr3 u"
    using paging_inj [OF ok, of "0x2FC" "0x2F8"] paging_inj [OF ok, of "0x2FC" 1023] paging_inj [OF ok, of "0x2F8" 1023] pr
      paging_self [OF ok] paging_self_pt [OF ok] by simp_all
  have cases: "k = 0 \<or> k = 0x300 \<or> k = 1023" if "k < 1024" "entry_present (pde y k)" for k
    using pde_y [OF that(1)] that(2) by (auto simp: entry_present_def split: if_splits)
  have "pt y i \<noteq> pt y j" if "i < 1024" "j < 1024" "i \<noteq> j" "entry_present (pde y i)" "entry_present (pde y j)" for i j
    using cases [OF that(1,4)] cases [OF that(2,5)] that(3) p0 p300 p1023 ne by auto
  moreover have "entry_present (pde y 1023)" using pde_y [of 1023] paging_self [OF ok] by simp
  moreover have c: "cr3 y = cr3 u" "stale y = (\<lambda>_. False)" using mv(3,4) f(2) by simp_all
  ultimately show "paging_ok y" unfolding paging_ok_def using p1023 al' by simp
  show data: "pmem y a = pmem u a" if a: "get_paddr a \<noteq> cr3 u" for a
  proof -
    have "pmem y a = pmem x a" using mv(2) [of a] a f(2) by simp
    moreover have "a \<notin> {cr3 u, cr3 u + 1, cr3 u + 2, cr3 u + 3}"
      using a al' get_paddr_offset [OF al', of 1] get_paddr_offset [OF al', of 2] get_paddr_offset [OF al', of 3] by auto
    ultimately show ?thesis using e by (simp add: boot_eq_def)
  qed
  have rd: "rd32 (pmem y) (pt u i + 4 * j) = rd32 (pmem u) (pt u i + 4 * j)" if "pt u i \<noteq> cr3 u" "j < 1024" for i j
    by (rule rd32_frame_cong) (use that data in \<open>simp_all add: index_scaled\<close>)
  show "pte y 0 j = pte u 0x2FC j" "pte y 0x300 j = pte u 0x2F8 j" if "j < 1024" for j
    using rd [OF ne(2) that] rd [OF ne(3) that] by (simp_all add: pte_def p0 p300)
  show "table_frame u g" if tg: "table_frame y g" for g
  proof -
    obtain k where k: "k < 1024" "entry_present (pde y k)" "g = pt y k" using tg unfolding table_frame_def by blast
    have "g \<in> {pt u 0x2FC, pt u 0x2F8, cr3 u}" using cases [OF k(1,2)] k(3) p0 p300 p1023 by auto
    moreover have "table_frame u (pt u 0x2FC)" "table_frame u (pt u 0x2F8)"
      unfolding table_frame_def using pr by (intro exI [of _ "0x2FC"] exI [of _ "0x2F8"]; simp)+
    ultimately show ?thesis using cr3_table [OF ok] by blast
  qed
qed

text \<open>With the entry of the free list page put into the new table of the kernel, the free list is
  what it was.\<close>

lemma moved_inv:
  assumes e: "boot_eq u x" and inv: "mem_inv u gs" and w: "wdi u = 0x300"
    and pr: "entry_present (pde u 0x2FC)" "entry_present (pde u 0x2F8)"
    and ab: "\<forall>k < 1023. k \<notin> {0, 0x2F8, 0x2FC, 0x300} \<longrightarrow> pde u k = 0"
    and free: "\<not> entry_present (pte u 0x2F8 (wti u))"
  defines "z \<equiv> wr_pte (moved x 0x2FC 0x2F8) 0x300 (wti u) (pte u 0x300 (wti u))"
  shows "store_entry (moved x 0x2FC 0x2F8) (free_list_head_pte x) (pte u 0x300 (wti u)) = Inr z" "mem_inv z gs"
    "\<And>k. k < 1023 \<Longrightarrow> k \<noteq> 0 \<Longrightarrow> k \<noteq> 0x300 \<Longrightarrow> pde z k = 0"
    "\<And>j. j < 1024 \<Longrightarrow> view z 0 j = pte u 0x2FC j" "\<And>j. j < 1024 \<Longrightarrow> j \<noteq> wti u \<Longrightarrow> view z 0x300 j = pte u 0x2F8 j"
    "cr3 z = cr3 u" "free_list_head z = free_list_head u" "user_physical_map z = user_physical_map x"
    "current_page_dir z = current_page_dir x" "kernel_page_dir z = kernel_page_dir x"
    "\<And>g. table_frame z g \<Longrightarrow> table_frame u g" "\<And>a. \<not> table_frame u (get_paddr a) \<Longrightarrow> pmem z a = pmem u a"
proof -
  let ?y = "moved x 0x2FC 0x2F8" and ?old = "pte u 0x300 (wti u)"
  note ok = mem_paging [OF inv] and win = mem_window [OF inv] and f = boot_eq_fields [OF e]
  note mv = moved_paging [OF e ok pr ab]
  have al: "frame_aligned (cr3 x)" using paging_aligned [OF ok] f(2) by simp
  note mt = moved_tables [OF al, of "0x2FC" "0x2F8"]
  have i: "(0x300 :: u32) < 1023" by simp
  note wr = mv(1) i mv(6) pt_index_less [of "free_list_head u"]
  have pte_head: "free_list_head_pte x = pte_addr 0x300 (wti u)" using window_pte [OF win] w f(5) by simp
  have "\<not> entry_present (pte ?y 0x300 (wti u))" using mv(9) [OF pt_index_less] free by simp
  then show "store_entry ?y (free_list_head_pte x) ?old = Inr z"
    unfolding pte_head z_def by (intro store_entry_ok [OF mv(1) _ _ mv(6)]) simp_all
  have z: "free_list_head z = free_list_head u" "free_list_head_pte z = pte_addr 0x300 (wti u)" "free_frame_paddr z = free_frame_paddr u"
    "cr3 z = cr3 u" using mt(3-7) f pte_head by (simp_all add: z_def)
  show "cr3 z = cr3 u" "free_list_head z = free_list_head u" by (rule z)+
  show "user_physical_map z = user_physical_map x" "current_page_dir z = current_page_dir x" "kernel_page_dir z = kernel_page_dir x"
    using mt(8-10) by (simp_all add: z_def wr_pte_def)
  have pd: "pde z k = pde ?y k" if "k < 1024" for k using wr_pte_low(1) [OF wr that] by (simp add: z_def)
  show other: "pde z k = 0" if "k < 1023" "k \<noteq> 0" "k \<noteq> 0x300" for k
    using pd [OF less_1024 [OF that(1)]] mv(7) [OF that] by simp
  have vw: "view z k l = (if k = 0x300 \<and> l = wti u then ?old else view ?y k l)" if "k < 1024" "l < 1024" for k l
    unfolding z_def by (rule wr_pte_view [OF wr that])
  show v0: "view z 0 j = pte u 0x2FC j" if "j < 1024" for j
    using vw [OF _ that, of 0] mv(5) mv(8) [OF that] by (simp add: view_def)
  show v300: "view z 0x300 j = pte u 0x2F8 j" if "j < 1024" "j \<noteq> wti u" for j
    using vw [OF _ that(1), of "0x300"] mv(6) mv(9) [OF that(1)] that(2) by (simp add: view_def)
  show tab: "table_frame z g \<Longrightarrow> table_frame u g" for g using wr_pte_table [OF wr] mv(10) by (simp add: z_def)
  have tu: "table_frame u (pt u 0x2F8)" unfolding table_frame_def using pr(2) by (intro exI [of _ "0x2F8"]) simp
  show data: "pmem z a = pmem u a" if "\<not> table_frame u (get_paddr a)" for a
  proof -
    have "get_paddr a \<noteq> cr3 u" "get_paddr a \<noteq> pt u 0x2F8" using that cr3_table [OF ok] tu by auto
    then show ?thesis using mv(11) wr_pte_def [of ?y] by (simp add: z_def mv(4) wr32_in_frame(1))
  qed
  have unref: "unreferenced z g" if g: "unreferenced u g" for g
    unfolding unreferenced_def
  proof (intro conjI allI impI)
    show "\<not> table_frame z g" using tab g by (auto simp: unreferenced_def)
    fix i j :: u32
    assume ij: "i < 1023" "j < 1024" "(i, j) \<noteq> (wdi z, wti z)"
    have um: "\<not> maps u i' j g" if "i' < 1023" "i' \<noteq> 0x300" for i'
      using g that ij(2) w unfolding unreferenced_def by blast
    consider "i = 0" | "i = 0x300" "j \<noteq> wti u" | "pde z i = 0" using other [OF ij(1)] ij(3) w z(1) by auto
    then show "\<not> maps z i j g"
    proof cases
      case 1
      then show ?thesis using um [of "0x2FC"] pr(1) v0 [OF ij(2)] by (simp add: maps_view view_def [of u])
    next
      case 2
      then show ?thesis using um [of "0x2F8"] pr(2) v300 [OF ij(2)] by (simp add: maps_view view_def [of u])
    next
      case 3
      then show ?thesis by (simp add: maps_def entry_present_def)
    qed
  qed
  have "flist (pmem z) (free_frame_paddr u) gs = flist (pmem u) (free_frame_paddr u) gs"
    by (rule flist_cong, rule rd32_frame_cong) (use mem_no_table [OF inv] data in simp_all)
  moreover have "window_ok z"
    unfolding window_ok_def z(1,2) w using window_aligned [OF win] pd [of "0x300"] mv(6) by simp
  moreover have "maps z 0x300 (wti u) g \<longleftrightarrow> maps u 0x300 (wti u) g" for g
    using vw [of "0x300" "wti u"] window_present [OF win] w by (simp add: maps_view view_def [of u])
  moreover have "paging_ok z" using wr_pte_low(4) [OF wr] by (simp add: z_def)
  ultimately show "mem_inv z gs"
    using mem_flist [OF inv] mem_distinct [OF inv] mem_head [OF inv] mem_unref [OF inv] unref w
    by (simp add: mem_inv_def z)
qed

subsection \<open>The new paging structures\<close>

lemma image_size:
  assumes "layout_ok l"
  shows "unat (size_in_pages (kernel_end_paddr l - kernel_start_paddr l)) = image_pages l"
proof -
  have s: "kernel_start_paddr l = 0x100000" "0x100000 < kernel_end_paddr l" "kernel_end_paddr l \<le> 0x3FF000"
    using assms by (simp_all add: layout_ok_def)
  have k: "0x100000 < unat (kernel_end_paddr l)" "unat (kernel_end_paddr l) \<le> 0x3FF000"
    using s by (simp_all add: word_less_nat_alt word_le_nat_alt)
  have "unat (kernel_end_paddr l - 0x100000) = unat (kernel_end_paddr l) - 0x100000"
    using s(2) by (subst unat_sub) (simp_all add: word_le_nat_alt word_less_nat_alt)
  then have "unat (kernel_end_paddr l - 0x100000 + 0xFFF) = unat (kernel_end_paddr l) - 0x100000 + 0xFFF"
    using k by (subst unat_add_u32) simp_all
  moreover have "kernel_end_paddr l - 0x100000 + PAGE_SIZE - 1 = kernel_end_paddr l - 0x100000 + 0xFFF"
    by (simp add: PAGE_SIZE_def)
  ultimately show ?thesis by (simp add: size_in_pages_def s(1) unat_div PAGE_SIZE_def image_pages_def)
qed

lemma kernel_frame: "256 \<le> j \<Longrightarrow> page_no 0x100000 (j - 256) = page_no 0 j"
proof -
  assume "256 \<le> j"
  then obtain d where "j = 256 + d" by (metis le_Suc_ex)
  then show ?thesis by (simp add: page_no_def algebra_simps)
qed

lemma reinit_paging_ok:
  assumes lo: "layout_ok l" and e: "boot_eq s t" and inv: "mem_inv s fs" and hd: "free_list_head s = at_index 0x300 (window_index l)"
    and ab: "\<forall>k < 1023. k \<noteq> 0x300 \<longrightarrow> pde s k = 0" and high: "\<forall>f \<in> set fs. kernel_end_paddr l \<le> get_paddr f" and room: "2 \<le> length fs"
  obtains z gs where "reinit_paging l t = Inr z" "mem_inv z gs" "set gs \<subseteq> set fs" "length fs \<le> length gs + 2"
    "\<And>k. k < 1023 \<Longrightarrow> k \<noteq> 0 \<Longrightarrow> k \<noteq> 0x300 \<Longrightarrow> pde z k = 0"
    "\<And>j. j < 1024 \<Longrightarrow> view z 0 (word_of_nat j) = (if j < 256 then create_entry (page_no 0 j) PAGE_WRITABLE else 0)"
    "\<And>j. j < 1024 \<Longrightarrow> j \<noteq> window_index l \<Longrightarrow>
       view z 0x300 (word_of_nat j) = (if 256 \<le> j \<and> j < window_index l then create_entry (page_no 0 j) PAGE_WRITABLE else 0)"
    "cr3 z = cr3 s" "free_list_head z = free_list_head s" "user_physical_map z = user_physical_map t"
    "current_page_dir z = current_page_dir t" "kernel_page_dir z = kernel_page_dir t"
    "\<And>g. table_frame z g \<Longrightarrow> table_frame s g \<or> g \<in> get_paddr ` set fs"
    "\<And>a. \<not> table_frame s (get_paddr a) \<Longrightarrow> get_paddr a \<notin> get_paddr ` set fs \<Longrightarrow> pmem z a = pmem s a"
proof -
  note b = image_pages_bounds [OF lo] and w = window_parts [OF lo]
  have wi: "wdi s = 0x300" "wti s = word_of_nat (window_index l)" using w(1,2) by (simp_all add: hd)
  have wu: "unat (word_of_nat (window_index l) :: u32) = window_index l" by (rule unat_index [OF b(2)])
  have nat_ne: "(word_of_nat j :: u32) \<noteq> word_of_nat (window_index l)" if "j < 1024" "j \<noteq> window_index l" for j
    using that unat_index [OF that(1)] wu by (auto simp: word_unat_eq_iff)
  have index_less: "(word_of_nat j :: u32) < 1024" if "j < 1024" for j using unat_index [OF that] that by (simp add: word_less_nat_alt)
  have fl: "PAGE_WRITABLE AND PAGE_USER_MODE = 0" "PAGE_WRITABLE < 0x1000" by (simp_all add: PAGE_WRITABLE_def PAGE_USER_MODE_def)
  have notfree: "get_paddr (page_no 0 j) \<notin> get_paddr ` set gs" if jw: "j < window_index l" and sub: "set gs \<subseteq> set fs" for j gs
  proof
    assume "get_paddr (page_no 0 j) \<in> get_paddr ` set gs"
    then obtain f where f: "f \<in> set fs" "get_paddr (page_no 0 j) = get_paddr f" using sub by auto
    have j: "j < 1024" using jw b(2) by simp
    have "get_paddr (page_no 0 j) = page_no 0 j" using low_frame(1) [OF j] by simp
    then have "kernel_end_paddr l \<le> page_no 0 j" using high f by metis
    then show False using low_frame(2) [OF j] b(3) [OF jw] by (simp add: word_le_nat_alt)
  qed
  have v0: "view s k j = 0" if "k < 1023" "k \<noteq> 0x300" for k j using ab that by (simp add: view_def entry_present_def)
  have one: "\<exists>u x gs1. map_pages_loop 256 s (at_index 0x2FC 0) 0 PAGE_WRITABLE = Inr u \<and>
    map_pages_loop 256 t (at_index 0x2FC 0) 0 PAGE_WRITABLE = Inr x \<and> boot_eq u x \<and> mem_inv u gs1 \<and>
    mem_step s u (get_paddr ` set fs) \<and> (gs1 = fs \<or> gs1 = tl fs) \<and> (0 < (256 :: nat) \<longrightarrow> entry_present (pde u 0x2FC)) \<and>
    (\<forall>k < 1023. k \<noteq> 0x2FC \<longrightarrow> pde u k = pde s k) \<and> (entry_present (pde s 0x2FC) \<longrightarrow> pde u 0x2FC = pde s 0x2FC \<and> gs1 = fs) \<and>
    (\<forall>k l. k < 1023 \<longrightarrow> l < 1024 \<longrightarrow> (k, word_of_nat l) \<noteq> (wdi s, wti s) \<longrightarrow> view u k (word_of_nat l) =
       (if k = 0x2FC \<and> 0 \<le> l \<and> l < 0 + 256 then create_entry (page_no 0 (l - 0)) PAGE_WRITABLE else view s k (word_of_nat l)))"
  proof (rule boot_map_pages [OF e inv])
    show "\<forall>k < 256. get_paddr (page_no 0 k) \<notin> get_paddr ` set fs" using notfree b(1) by (simp add: window_index_def)
    show "entry_present (pde s 0x2FC) \<or> fs \<noteq> []" using room by auto
    show "\<forall>k < 256. \<not> entry_present (view s 0x2FC (word_of_nat (0 + k)))" using v0 [of "0x2FC"] by (simp add: entry_present_def)
  qed (use wi fl in simp_all)
  then obtain u x gs1 where u: "map_pages_loop 256 t (at_index 0x2FC 0) 0 PAGE_WRITABLE = Inr x" "boot_eq u x" "mem_inv u gs1"
    "mem_step s u (get_paddr ` set fs)" "gs1 = fs \<or> gs1 = tl fs" "entry_present (pde u 0x2FC)" "\<forall>k < 1023. k \<noteq> 0x2FC \<longrightarrow> pde u k = pde s k"
    "\<And>k l. k < 1023 \<Longrightarrow> l < 1024 \<Longrightarrow> (k, word_of_nat l) \<noteq> (wdi s, wti s) \<Longrightarrow> view u k (word_of_nat l) =
       (if k = 0x2FC \<and> l < 256 then create_entry (page_no 0 l) PAGE_WRITABLE else view s k (word_of_nat l))" by auto
  have gs1: "set gs1 \<subseteq> set fs" "gs1 \<noteq> []" "length fs \<le> length gs1 + 1" using u(5) room by (cases fs; auto)+
  have hdu: "free_list_head u = free_list_head s" using same_configD(4) [OF mem_step_config [OF u(4)]] .
  have vu: "view u 0x2F8 (word_of_nat j) = 0" if "j < 1024" for j using u(8) [of "0x2F8" j] that wi(1) v0 [of "0x2F8"] by simp
  have two: "\<exists>u2 x2 gs. map_pages_loop (image_pages l) u (at_index 0x2F8 256) 0x100000 PAGE_WRITABLE = Inr u2 \<and>
    map_pages_loop (image_pages l) x (at_index 0x2F8 256) 0x100000 PAGE_WRITABLE = Inr x2 \<and> boot_eq u2 x2 \<and> mem_inv u2 gs \<and>
    mem_step u u2 (get_paddr ` set gs1) \<and> (gs = gs1 \<or> gs = tl gs1) \<and> (0 < image_pages l \<longrightarrow> entry_present (pde u2 0x2F8)) \<and>
    (\<forall>k < 1023. k \<noteq> 0x2F8 \<longrightarrow> pde u2 k = pde u k) \<and> (entry_present (pde u 0x2F8) \<longrightarrow> pde u2 0x2F8 = pde u 0x2F8 \<and> gs = gs1) \<and>
    (\<forall>k j. k < 1023 \<longrightarrow> j < 1024 \<longrightarrow> (k, word_of_nat j) \<noteq> (wdi u, wti u) \<longrightarrow> view u2 k (word_of_nat j) =
       (if k = 0x2F8 \<and> 256 \<le> j \<and> j < 256 + image_pages l then create_entry (page_no 0x100000 (j - 256)) PAGE_WRITABLE else view u k (word_of_nat j)))"
  proof (rule boot_map_pages [OF u(2,3)])
    show "\<forall>k < image_pages l. get_paddr (page_no 0x100000 k) \<notin> get_paddr ` set gs1"
    proof (intro allI impI)
      fix k assume "k < image_pages l"
      then show "get_paddr (page_no 0x100000 k) \<notin> get_paddr ` set gs1"
        using notfree [OF _ gs1(1), of "256 + k"] kernel_frame [of "256 + k"] by (simp add: window_index_def)
    qed
    show "\<forall>k < image_pages l. \<not> entry_present (view u 0x2F8 (word_of_nat (256 + k)))"
      using vu b(2) by (auto simp: window_index_def entry_present_def simp del: of_nat_add)
  qed (use wi fl hdu b(2) gs1(2) in \<open>simp_all add: window_index_def\<close>)
  then obtain u2 x2 gs where u2: "map_pages_loop (image_pages l) x (at_index 0x2F8 256) 0x100000 PAGE_WRITABLE = Inr x2" "boot_eq u2 x2"
    "mem_inv u2 gs" "mem_step u u2 (get_paddr ` set gs1)" "gs = gs1 \<or> gs = tl gs1" "entry_present (pde u2 0x2F8)"
    "\<forall>k < 1023. k \<noteq> 0x2F8 \<longrightarrow> pde u2 k = pde u k"
    "\<And>k j. k < 1023 \<Longrightarrow> j < 1024 \<Longrightarrow> (k, word_of_nat j) \<noteq> (wdi u, wti u) \<Longrightarrow> view u2 k (word_of_nat j) =
       (if k = 0x2F8 \<and> 256 \<le> j \<and> j < window_index l then create_entry (page_no 0x100000 (j - 256)) PAGE_WRITABLE else view u k (word_of_nat j))"
    using b(1) by (auto simp: window_index_def)
  have ok2: "paging_ok u2" by (rule mem_paging [OF u2(3)])
  have hd2: "free_list_head u2 = free_list_head s" using same_configD(4) [OF mem_step_config [OF u2(4)]] hdu by simp
  then have wi2: "wdi u2 = 0x300" "wti u2 = word_of_nat (window_index l)" using wi by simp_all
  have wiu: "wdi u = 0x300" "wti u = word_of_nat (window_index l)" using hdu wi by simp_all
  have pr: "entry_present (pde u2 0x2FC)" using u2(7) u(6) by simp
  note pr = pr u2(6)
  have ab2: "\<forall>k < 1023. k \<notin> {0, 0x2F8, 0x2FC, 0x300} \<longrightarrow> pde u2 k = 0" using u2(7) u(7) ab by auto
  have view2: "view u2 0x2FC (word_of_nat j) = (if j < 256 then create_entry (page_no 0 j) PAGE_WRITABLE else 0)"
    "view u2 0x2F8 (word_of_nat j) = (if 256 \<le> j \<and> j < window_index l then create_entry (page_no 0 j) PAGE_WRITABLE else 0)"
    if j: "j < 1024" for j
  proof -
    show "view u2 0x2FC (word_of_nat j) = (if j < 256 then create_entry (page_no 0 j) PAGE_WRITABLE else 0)"
      using u2(8) [of "0x2FC" j] u(8) [of "0x2FC" j] j wi(1) wiu(1) v0 [of "0x2FC"] by simp
    show "view u2 0x2F8 (word_of_nat j) = (if 256 \<le> j \<and> j < window_index l then create_entry (page_no 0 j) PAGE_WRITABLE else 0)"
      using u2(8) [of "0x2F8" j] vu [OF j] j wiu(1) by (simp add: kernel_frame)
  qed
  have free: "\<not> entry_present (pte u2 0x2F8 (wti u2))"
    using view2(2) [OF b(2)] pr(2) by (simp add: wi2 view_def entry_present_def)
  note mi = moved_inv [OF u2(2,3) wi2(1) pr ab2 free]
  let ?z = "wr_pte (moved x2 0x2FC 0x2F8) 0x300 (wti u2) (pte u2 0x300 (wti u2))"
  have win: "window_ok u2" by (rule mem_window [OF u2(3)])
  have "PTE u2 0x300 (wti u2) = Inr (pte u2 0x300 (wti u2))"
    using PTE_ok [OF ok2, of "0x300" "wti u2"] window_present [OF win] pt_index_less [of "free_list_head u2"] wi2(1) by simp
  from boot_PTE [OF u2(2) dir_ok_paging [OF ok2] _ _ pt_index_less this]
  have "PTE x2 0x300 (wti u2) = Inr (pte u2 0x300 (wti u2))" by simp
  then have old: "vread32 x2 (free_list_head_pte x2) = Inr (pte u2 0x300 (wti u2))"
    using window_pte [OF win] wi2(1) boot_eq_fields(5) [OF u2(2)] by (simp add: PTE_def)
  note mp = moved_paging [OF u2(2) ok2 pr ab2]
  have "frame_aligned (cr3 x2)" using mp(2) by (simp add: dir_live_def)
  from moved_tables(6) [OF this, of "0x2FC" "0x2F8"]
  have head: "free_list_head_pte (moved x2 0x2FC 0x2F8) = free_list_head_pte x2" by simp
  have cnt: "size_in_pages (kernel_end_paddr l - kernel_start_paddr l) \<le> MAX_KERNEL_PAGE_COUNT"
    using image_size [OF lo] b(2) by (simp add: word_le_nat_alt MAX_KERNEL_PAGE_COUNT_def window_index_def)
  have st: "kernel_start_paddr l = 0x100000" "kernel_start_vaddr l = 0xC0100000" using lo by (simp_all add: layout_ok_def)
  have ix: "at_index 0x2FC 0 = 0xBF000000" "at_index 0x2F8 256 = 0xBE100000" by simp_all
  have pd: "get_pd_index 0 = 0" "get_pd_index 0xBF000000 = 0x2FC" "get_pd_index 0xBE100000 = 0x2F8" "get_pd_index 0xC0100000 = 0x300"
    by (simp_all add: word_unat_eq_iff unat_pd_index)
  have "reinit_paging l t = store_entry (moved x2 0x2FC 0x2F8) (free_list_head_pte (moved x2 0x2FC 0x2F8)) (pte u2 0x300 (wti u2))"
    using cnt u(1) u2(1) old moved_run [OF mp(2), of "0x2FC" "0x2F8" "\<lambda>s. store_entry s (free_list_head_pte s) (pte u2 0x300 (wti u2))"]
      image_size [OF lo]
    by (simp add: reinit_paging_def Let_def st ix pd map_pages_def LOWER_MEM_PAGE_COUNT_def)
  then have run: "reinit_paging l t = Inr ?z" using mi(1) head by simp
  have "get_paddr ` set gs1 \<subseteq> get_paddr ` set fs" using gs1(1) by auto
  then have st: "mem_step s u2 (get_paddr ` set fs)" using mem_step_trans [OF u(4) mem_step_mono [OF u2(4)]] by blast
  have tab: "table_frame s g \<or> g \<in> get_paddr ` set fs" if "table_frame ?z g" for g
    using st mi(11) [OF that] by (simp add: mem_step_def)
  have data: "pmem ?z a = pmem s a" if "\<not> table_frame s (get_paddr a)" "get_paddr a \<notin> get_paddr ` set fs" for a
  proof -
    have "\<not> table_frame u2 (get_paddr a)" using st that by (auto simp: mem_step_def)
    then have "pmem ?z a = pmem u2 a" by (rule mi(12))
    then show ?thesis using st that by (simp add: mem_step_def)
  qed
  show thesis
  proof (rule that [OF run mi(2) _ _ _ _ _ _ _ _ _ _ tab data])
    show "set gs \<subseteq> set fs" "length fs \<le> length gs + 2" using gs1 u2(5) by (cases gs1; auto)+
    show "view ?z 0 (word_of_nat j) = (if j < 256 then create_entry (page_no 0 j) PAGE_WRITABLE else 0)" if "j < 1024" for j
      using mi(4) [of "word_of_nat j"] view2(1) [OF that] pr(1) that by (simp add: view_def [of u2] index_less)
    show "view ?z 0x300 (word_of_nat j) = (if 256 \<le> j \<and> j < window_index l then create_entry (page_no 0 j) PAGE_WRITABLE else 0)"
      if "j < 1024" "j \<noteq> window_index l" for j
      using mi(5) [of "word_of_nat j"] view2(2) [OF that(1)] nat_ne [OF that] pr(2) wi2 that(1) by (simp add: view_def [of u2] index_less)
    show "free_list_head ?z = free_list_head s" "cr3 ?z = cr3 s" using mi(6,7) hd2 hdu same_configD(1) [OF mem_step_config [OF u(4)]] same_configD(1) [OF mem_step_config [OF u2(4)]] by simp_all
    have eq: "current_page_dir t = current_page_dir s \<and> kernel_page_dir t = kernel_page_dir s" if "boot_eq s t" for s t
      by (intro conjI; subst boot_eq_fields(1) [OF that], simp)
    have conf: "user_physical_map u2 = user_physical_map s" "current_page_dir u2 = current_page_dir s" "kernel_page_dir u2 = kernel_page_dir s"
      using mem_step_config [OF u(4)] mem_step_config [OF u2(4)] by (simp_all add: same_config_def)
    have "user_physical_map x2 = user_physical_map t" "current_page_dir x2 = current_page_dir t" "kernel_page_dir x2 = kernel_page_dir t"
      using conf eq [OF e] eq [OF u2(2)] boot_eq_fields(9) [OF e] boot_eq_fields(9) [OF u2(2)] by simp_all
    then show "user_physical_map ?z = user_physical_map t" "current_page_dir ?z = current_page_dir t" "kernel_page_dir ?z = kernel_page_dir t"
      using mi(8-10) by simp_all
  qed (use mi in simp_all)
qed

end
