(* ===== verification/BootCode.thy ===== *)
theory BootCode
  imports BootMemory
begin

section \<open>The boot code (\<^verbatim>\<open>boot/boot.s\<close>)\<close>

text \<open>
  What \<^verbatim>\<open>_start\<close> writes before the C code runs: it clears the page directory and the page
  table that the image reserves at the physical addresses \<open>dir\<close> and \<open>table\<close>, enters the table twice
  and the directory in itself, maps low memory and the kernel, and turns paging on.
\<close>

unbundle bit_operations_syntax

subsection \<open>The instructions\<close>

definition KERNELOFFSET :: u32 where "KERNELOFFSET = 0xC0000000"
definition MAXKERNELPAGES :: u32 where "MAXKERNELPAGES = 0x300"

text \<open>The first loop; \<open>n\<close> is \<^verbatim>\<open>ecx\<close>.\<close>

primrec clear_tables :: "nat \<Rightarrow> bytes \<Rightarrow> u32 \<Rightarrow> u32 \<Rightarrow> bytes" where
  "clear_tables 0 m dir table = m"
| "clear_tables (Suc n) m dir table =
     clear_tables n (wr32 (wr32 m (dir + 4 * word_of_nat n) 0) (table + 4 * word_of_nat n) 0) dir table"

text \<open>The loops that fill the table, with \<open>n\<close> entries left: entry \<open>i\<close> becomes \<open>v\<close>.\<close>

primrec fill_table :: "nat \<Rightarrow> bytes \<Rightarrow> u32 \<Rightarrow> u32 \<Rightarrow> u32 \<Rightarrow> bytes" where
  "fill_table 0 m table i v = m"
| "fill_table (Suc n) m table i v = fill_table n (wr32 m (table + 4 * i) v) table (i + 1) (v + 4096)"

text \<open>The size check is signed, and the last loop runs before it tests its counter.\<close>

definition boot_start :: "layout \<Rightarrow> u32 \<Rightarrow> u32 \<Rightarrow> kmem \<Rightarrow> kmem res" where
  "boot_start l dir table s =
     (let m = clear_tables 1024 (pmem s) dir table;
          m = wr32 m (dir + 4 * 1023) (dir + 1);
          m = wr32 m (dir + 4 * drop_bit 22 KERNELOFFSET) (table + 1);
          m = wr32 m dir (table + 1);
          m = fill_table 256 m table 0 1;
          ecx = drop_bit 12 (kernel_end_vaddr l + 4095 - KERNELOFFSET - kernel_start_paddr l)
      in kernel_assert (\<not> MAXKERNELPAGES <s ecx)
         (let esi = kernel_start_paddr l OR 1;
              edi = drop_bit 12 (kernel_start_paddr l + KERNELOFFSET) AND 0x3FF;
              m = fill_table (if ecx = 0 then 2 ^ 32 else unat ecx) m table edi esi
          in Inr (s\<lparr>pmem := m, cr3 := dir, stale := \<lambda>_. False\<rparr>)))"

subsection \<open>What the loops write\<close>

lemma entry_less: "n < 1024 \<Longrightarrow> (word_of_nat n :: u32) < 1024"
  using unat_index [of n] by (simp add: word_less_nat_alt)

lemma rd32_wr32: "dword_aligned b \<Longrightarrow> dword_aligned a \<Longrightarrow> rd32 (wr32 m b v) a = (if a = b then v else rd32 m a)"
  by auto

lemma clear_tables_rd32:
  assumes "frame_aligned dir" "frame_aligned table" "frame_aligned f" "i < 1024" "n \<le> 1024"
  shows "rd32 (clear_tables n m dir table) (f + 4 * i) = (if f \<in> {dir, table} \<and> unat i < n then 0 else rd32 m (f + 4 * i))"
  using assms(5)
proof (induction n arbitrary: m)
  case (Suc n)
  have n: "(word_of_nat n :: u32) < 1024" "unat (word_of_nat n :: u32) = n"
    using Suc.prems entry_less [of n] unat_index [of n] by simp_all
  have eq: "i = word_of_nat n \<longleftrightarrow> unat i = n" using n(2) by (simp add: word_unat_eq_iff)
  show ?case using Suc assms(1-4) n(1) by (auto simp: rd32_wr32 eq less_Suc_eq)
qed simp

lemma fill_table_rd32:
  assumes "frame_aligned table" "frame_aligned f" "j < 1024" "b + n \<le> 1024"
  shows "rd32 (fill_table n m table (word_of_nat b) v) (f + 4 * j) =
    (if f = table \<and> b \<le> unat j \<and> unat j < b + n then v + 4096 * word_of_nat (unat j - b) else rd32 m (f + 4 * j))"
  using assms(4)
proof (induction n arbitrary: m b v)
  case (Suc n)
  have b: "(word_of_nat b :: u32) < 1024" "unat (word_of_nat b :: u32) = b"
    using Suc.prems entry_less [of b] unat_index [of b] by simp_all
  have eq: "j = word_of_nat b \<longleftrightarrow> unat j = b" using b(2) by (simp add: word_unat_eq_iff)
  have next_b: "(word_of_nat b :: u32) + 1 = word_of_nat (Suc b)" by simp
  have ih: "rd32 (fill_table n (wr32 m (table + 4 * word_of_nat b) v) table (word_of_nat (Suc b)) (v + 4096)) (f + 4 * j) =
    (if f = table \<and> Suc b \<le> unat j \<and> unat j < Suc b + n then v + 4096 + 4096 * word_of_nat (unat j - Suc b)
     else rd32 (wr32 m (table + 4 * word_of_nat b) v) (f + 4 * j))"
    by (rule Suc.IH) (use Suc.prems in simp)
  have sum: "v + 4096 + 4096 * word_of_nat (unat j - Suc b) = v + 4096 * word_of_nat (unat j - b)" if "Suc b \<le> unat j"
  proof -
    have "unat j - b = Suc (unat j - Suc b)" using that by simp
    then show ?thesis by (simp add: algebra_simps)
  qed
  show ?case
    unfolding fill_table.simps next_b ih using assms(1-3) b(1) sum by (auto simp: rd32_wr32 eq)
qed auto

text \<open>Other frames keep their contents.\<close>

lemma clear_tables_other:
  assumes "frame_aligned dir" "frame_aligned table" "get_paddr a \<notin> {dir, table}" "n \<le> 1024"
  shows "clear_tables n m dir table a = m a"
  using assms(4)
proof (induction n arbitrary: m)
  case (Suc n)
  have "(word_of_nat n :: u32) < 1024" using Suc.prems entry_less [of n] by simp
  then show ?case using Suc assms(1-3) by (simp add: wr32_in_frame(1))
qed simp

lemma fill_table_other:
  assumes "frame_aligned table" "get_paddr a \<noteq> table" "b + n \<le> 1024"
  shows "fill_table n m table (word_of_nat b) v a = m a"
  using assms(3)
proof (induction n arbitrary: m b v)
  case (Suc n)
  have "(word_of_nat b :: u32) < 1024" using Suc.prems entry_less [of b] by simp
  then have "wr32 m (table + 4 * word_of_nat b) v a = m a" using assms(1,2) by (simp add: wr32_in_frame(1))
  moreover have "fill_table n (wr32 m (table + 4 * word_of_nat b) v) table (word_of_nat (Suc b)) (v + 4096) a =
      wr32 m (table + 4 * word_of_nat b) v a"
    by (rule Suc.IH) (use Suc.prems in simp)
  moreover have "(word_of_nat b :: u32) + 1 = word_of_nat (Suc b)" by simp
  ultimately show ?case by (simp only: fill_table.simps)
qed simp

subsection \<open>The state it leaves\<close>

lemma start_pages:
  assumes lo: "layout_ok l"
  defines "n \<equiv> drop_bit 12 (kernel_end_vaddr l + 4095 - KERNELOFFSET - kernel_start_paddr l)"
  shows "unat n = image_pages l" "\<not> MAXKERNELPAGES <s n"
proof -
  have s: "kernel_start_paddr l = 0x100000" "kernel_end_vaddr l = kernel_end_paddr l + 0xC0000000"
    "0x100000 < kernel_end_paddr l" "kernel_end_paddr l \<le> 0x3FF000"
    using lo by (simp_all add: layout_ok_def)
  have k: "0x100000 < unat (kernel_end_paddr l)" "unat (kernel_end_paddr l) \<le> 0x3FF000"
    using s by (simp_all add: word_less_nat_alt word_le_nat_alt)
  define d where "d = kernel_end_paddr l - 0x100000 + 0xFFF"
  have n: "n = drop_bit 12 d" by (simp add: n_def d_def s KERNELOFFSET_def)
  have "unat (kernel_end_paddr l - 0x100000) = unat (kernel_end_paddr l) - 0x100000"
    using s(3) by (subst unat_sub) (simp_all add: word_le_nat_alt word_less_nat_alt)
  then have d: "unat d = unat (kernel_end_paddr l) - 0x100000 + 0xFFF"
    unfolding d_def using k by (subst unat_add_u32) simp_all
  show u: "unat n = image_pages l" by (simp add: n drop_bit_eq_div unat_div d image_pages_def)
  have b: "unat n < 0x300" using image_pages_bounds(2) [OF lo] u by (simp add: window_index_def)
  have "sint (word_of_nat k :: u32) = int k" if "k < 2 ^ 31" for k
    using that by (simp add: signed_of_nat signed_take_bit_int_eq_self)
  from this [of "unat n"] b have "sint n = int (unat n)" by simp
  then have "sint n < 0x300" using b by linarith
  then show "\<not> MAXKERNELPAGES <s n" by (simp add: word_sless_alt MAXKERNELPAGES_def)
qed

lemma start_paging:
  assumes lo: "layout_ok l" and al: "frame_aligned dir" "frame_aligned table" and ne: "dir \<noteq> table"
    and rng: "{dir, table} \<subseteq> {0x100000 ..< kernel_end_paddr l}"
  obtains m where "boot_start l dir table s = Inr (s\<lparr>pmem := m, cr3 := dir, stale := \<lambda>_. False\<rparr>)"
    "boot_paging l table (s\<lparr>pmem := m, cr3 := dir, stale := \<lambda>_. False\<rparr>)"
    "\<And>a. get_paddr a \<notin> {dir, table} \<Longrightarrow> m a = pmem s a"
proof -
  note b = image_pages_bounds [OF lo]
  define m1 where "m1 = wr32 (wr32 (wr32 (clear_tables 1024 (pmem s) dir table) (dir + 4 * 1023) (dir + 1)) (dir + 4 * 0x300) (table + 1))
    dir (table + 1)"
  define m where "m = fill_table (image_pages l) (fill_table 256 m1 table 0 1) table 256 0x100001"
  let ?t = "s\<lparr>pmem := m, cr3 := dir, stale := \<lambda>_. False\<rparr>"
  have st: "kernel_start_paddr l = 0x100000" using lo by (simp add: layout_ok_def)
  define n where "n = drop_bit 12 (kernel_end_vaddr l + 4095 - KERNELOFFSET - kernel_start_paddr l)"
  have n: "unat n = image_pages l" "\<not> MAXKERNELPAGES <s n" "n \<noteq> 0"
    using start_pages [OF lo] b(1) by (auto simp: n_def)
  have run: "boot_start l dir table s = Inr ?t"
    using n unfolding boot_start_def Let_def n_def [symmetric] by (simp add: st m_def m1_def KERNELOFFSET_def)
  have m1: "rd32 m1 (dir + 4 * i) = (if i = 0 \<or> i = 0x300 then table + 1 else if i = 1023 then dir + 1 else 0)"
    "rd32 m1 (table + 4 * i) = 0" if i: "i < 1024" for i
  proof -
    have lt: "unat i < 1024" using i by (simp add: word_less_nat_alt)
    have w: "rd32 (wr32 x (dir + 4 * k) v) (f + 4 * i) = (if f = dir \<and> i = k then v else rd32 x (f + 4 * i))"
      if "frame_aligned f" "k < 1024" for x f k v using al(1) i that by (simp add: rd32_wr32)
    show "rd32 m1 (dir + 4 * i) = (if i = 0 \<or> i = 0x300 then table + 1 else if i = 1023 then dir + 1 else 0)"
      unfolding m1_def using al i lt w [of dir 1023] w [of dir "0x300"] w [of dir 0] by (simp add: clear_tables_rd32)
    show "rd32 m1 (table + 4 * i) = 0"
      unfolding m1_def using al i lt ne w [of table 1023] w [of table "0x300"] w [of table 0] by (simp add: clear_tables_rd32)
  qed
  have fit: "0 + 256 \<le> (1024 :: nat)" "256 + image_pages l \<le> 1024" using b(2) by (simp_all add: window_index_def)
  have rd: "rd32 m (f + 4 * i) = (if f = table \<and> unat i < window_index l then 4096 * i + 1 else rd32 m1 (f + 4 * i))"
    if f: "frame_aligned f" and i: "i < 1024" for f i
  proof -
    have "(0x100001 :: u32) + 4096 * word_of_nat (unat i - 256) = 4096 * i + 1" if hi: "256 \<le> unat i"
    proof -
      obtain k where k: "unat i = 256 + k" using hi by (metis le_Suc_ex)
      have "i = word_of_nat (unat i)" by simp
      also have "\<dots> = 256 + word_of_nat k" unfolding k by simp
      finally have i': "i = 256 + word_of_nat k" .
      have "(0x100001 :: u32) + 4096 * word_of_nat k = 4096 * (256 + word_of_nat k) + 1" by (simp add: algebra_simps)
      then show ?thesis unfolding i' [symmetric] k by simp
    qed
    then show ?thesis
      using fill_table_rd32 [OF al(2) f i fit(1), of m1 1] fill_table_rd32 [OF al(2) f i fit(2), of "fill_table 256 m1 table 0 1" "0x100001"]
      by (auto simp: m_def window_index_def not_le)
  qed
  have pd: "pde ?t i = (if i = 0 \<or> i = 0x300 then table + 1 else if i = 1023 then dir + 1 else 0)" if "i < 1024" for i
    using rd [OF al(1) that] m1(1) [OF that] ne by (simp add: pde_def)
  have "rd32 m (table + 4 * word_of_nat j) = (if j < window_index l then 4096 * word_of_nat j + 1 else 0)" if "j < 1024" for j
    using rd [OF al(2) entry_less [OF that]] m1(2) [OF entry_less [OF that]] unat_index [OF that] by simp
  then have "boot_paging l table ?t"
    unfolding boot_paging_def using al ne rng pd by auto
  moreover have "m a = pmem s a" if a: "get_paddr a \<notin> {dir, table}" for a
  proof -
    have w: "wr32 x (dir + 4 * k) v a = x a" if "k < 1024" for x k v using al(1) a that by (simp add: wr32_in_frame(1))
    have "m1 a = pmem s a"
      unfolding m1_def using w [of 1023] w [of "0x300"] w [of 0] clear_tables_other [OF al a] by simp
    then show ?thesis
      using fill_table_other [OF al(2) _ fit(1), of a m1 1] fill_table_other [OF al(2) _ fit(2), of a "fill_table 256 m1 table 0 1" "0x100001"] a
      by (simp add: m_def)
  qed
  ultimately show ?thesis by (rule that [OF run])
qed

end
