(* ===== verification/BootInit.thy ===== *)
theory BootInit
  imports BootCode
begin

section \<open>Starting the memory manager\<close>

text \<open>
  \<^verbatim>\<open>mem_init\<close> from the state that \<^verbatim>\<open>boot/boot.s\<close> leaves: the page of
  the free list, the frames of the kernel's share of the memory, the tables of the kernel, the two
  heaps and the page on which users read the map of the other frames.
\<close>

unbundle bit_operations_syntax

subsection \<open>The frames of the kernel\<close>

definition mmap_count :: "MultibootInfo \<Rightarrow> nat" where
  "mmap_count mb = unat (mmap_length mb div SIZEOF_MMapEntry)"

text \<open>The map of the boot loader: regions below 4 GB that do not overlap, no more of them than the
  page for users can hold.\<close>

definition regions_ok :: "layout \<Rightarrow> MultibootInfo \<Rightarrow> bool" where
  "regions_ok l mb \<longleftrightarrow> mb_flags mb AND MB_FLAG_MMAP \<noteq> 0 \<and> mmap_count mb \<le> USER_PHYSICAL_MAP_MAX \<and>
     (\<forall>k < mmap_count mb. entry_ok l (mmap_entry mb 0 k)) \<and>
     (\<forall>j k g. j < k \<longrightarrow> k < mmap_count mb \<longrightarrow> \<not> (in_share l (mmap_entry mb 0 j) g \<and> in_share l (mmap_entry mb 0 k) g))"

definition kernel_frames :: "layout \<Rightarrow> MultibootInfo \<Rightarrow> u32 set" where
  "kernel_frames l mb = {g. frame_aligned g \<and> (\<exists>k < mmap_count mb. in_share l (mmap_entry mb 0 k) g)}"

lemma kernel_frames_high:
  assumes r: "regions_ok l mb" and f: "f \<in> kernel_frames l mb"
  shows "kernel_end_paddr l \<le> f" "get_paddr f = f"
proof -
  obtain k where k: "frame_aligned f" "k < mmap_count mb" "in_share l (mmap_entry mb 0 k) f"
    using f by (auto simp: kernel_frames_def)
  then have "entry_ok l (mmap_entry mb 0 k)" using r by (simp add: regions_ok_def)
  then show "kernel_end_paddr l \<le> f" using k(3) by (auto simp: entry_ok_def in_share_def)
  show "get_paddr f = f" using k(1) by simp
qed

lemma image_not_free:
  assumes "regions_ok l mb" "a < kernel_end_paddr l" "set fs \<subseteq> kernel_frames l mb"
  shows "get_paddr a \<notin> get_paddr ` set fs"
proof -
  have "unat (get_paddr a) \<le> unat a" using unat_get_paddr [of a] by simp
  then have "\<not> kernel_end_paddr l \<le> get_paddr a" using assms(2) by (simp add: word_less_nat_alt word_le_nat_alt)
  then show ?thesis using kernel_frames_high [OF assms(1)] assms(3) by auto
qed

lemma boot_frames:
  assumes lo: "layout_ok l" and bp: "boot_paging l T s" and z: "free_frame_paddr s = 0" "user_physical_map s = []"
    and r: "regions_ok l mb"
  obtains u t fs where "init_frames l mb (set_window l s) = Inr t" "boot_eq u t" "mem_inv u fs"
    "set fs = kernel_frames l mb" "length fs = card (kernel_frames l mb)" "boot_keeps (set_window l (hide s)) u"
    "user_physical_map u = user_parts l mb 0 (mmap_count mb)"
proof -
  let ?h = "set_window l (hide s)" and ?n = "mmap_count mb"
  note h = hidden_inv [OF lo bp z(1)]
  have "unat (0x100000 :: u32) < unat (kernel_end_paddr l)" using lo by (simp add: layout_ok_def word_less_nat_alt)
  then have pos: "0 < kernel_end_paddr l" by (simp add: word_less_nat_alt)
  have e: "boot_eq ?h (set_window l s)" by (rule boot_eq_window [OF hide_eq])
  have m: "user_physical_map (hide s) = []" using z(2) by (simp add: hide_def)
  have "\<exists>u t' gs. init_frames_loop ?n l mb ?h 0 = Inr u \<and> init_frames_loop ?n l mb (set_window l s) 0 = Inr t' \<and> boot_eq u t' \<and>
    mem_inv u (gs @ []) \<and> set gs = {g. frame_aligned g \<and> (\<exists>k < ?n. in_share l (mmap_entry mb 0 k) g)} \<and> boot_keeps ?h u \<and>
    user_physical_map u = user_physical_map ?h @ user_parts l mb 0 ?n"
    by (rule boot_frames_loop [OF e h(1,2) pos]) (use r h(3) m in \<open>simp_all add: regions_ok_def\<close>)
  then obtain u t gs where u: "init_frames_loop ?n l mb (set_window l s) 0 = Inr t" "boot_eq u t" "mem_inv u gs"
    "set gs = kernel_frames l mb" "boot_keeps ?h u" "user_physical_map u = user_parts l mb 0 ?n"
    by (auto simp: m kernel_frames_def)
  have "distinct gs" using mem_distinct [OF u(3)] by (simp add: distinct_map)
  then have "length gs = card (kernel_frames l mb)" using u(4) distinct_card [of gs] by simp
  moreover have "init_frames l mb (set_window l s) = Inr t" using u(1) r by (simp add: init_frames_def regions_ok_def mmap_count_def)
  ultimately show ?thesis using u by (intro that [of t u gs]) simp_all
qed

subsection \<open>The address space of the kernel\<close>

text \<open>Page \<open>n\<close> of the address space: the first megabyte maps to itself, the kernel 3 GB lower, and
  nothing else is mapped.\<close>

definition kernel_page :: "layout \<Rightarrow> nat \<Rightarrow> u32" where
  "kernel_page l n = (if n < 256 then create_entry (page_no 0 n) PAGE_WRITABLE
     else if 0xC0100 \<le> n \<and> n < 0xC0000 + window_index l then create_entry (page_no 0 (n - 0xC0000)) PAGE_WRITABLE else 0)"

lemma page_split: "get_pd_index w = word_of_nat (unat w div 4096 div 1024)" "get_pt_index w = word_of_nat (unat w div 4096 mod 1024)"
proof -
  have b: "unat w < 2 ^ 32" using unsigned_less [of w] by simp
  have "unat w div 4096 div 1024 < 2 ^ 32" "unat w div 4096 mod 1024 < 2 ^ 32"
    using less_trans [OF b, of "2 ^ 54"] by (simp_all add: div_less_iff_less_mult less_trans [OF mod_less_divisor])
  note unat_of_nat_u32 [OF this(1)] unat_of_nat_u32 [OF this(2)]
  then show "get_pd_index w = word_of_nat (unat w div 4096 div 1024)" "get_pt_index w = word_of_nat (unat w div 4096 mod 1024)"
    by (simp_all add: word_unat_eq_iff unat_pd_index unat_pt_index div_mult2_eq [symmetric])
qed

lemma kernel_page_at:
  assumes v: "\<And>k. k < 1023 \<Longrightarrow> k \<noteq> 0 \<Longrightarrow> k \<noteq> 0x300 \<Longrightarrow> pde z k = 0"
    "\<And>j. j < 1024 \<Longrightarrow> view z 0 (word_of_nat j) = (if j < 256 then create_entry (page_no 0 j) PAGE_WRITABLE else 0)"
    "\<And>j. j < 1024 \<Longrightarrow> j \<noteq> window_index l \<Longrightarrow>
       view z 0x300 (word_of_nat j) = (if 256 \<le> j \<and> j < window_index l then create_entry (page_no 0 j) PAGE_WRITABLE else 0)"
    and lo: "layout_ok l" and w: "w < 0xFFC00000" "unat w div 4096 \<noteq> 0xC0000 + window_index l"
  shows "page_at z w = kernel_page l (unat w div 4096)"
proof -
  let ?n = "unat w div 4096"
  have wi: "window_index l < 1024" by (rule image_pages_bounds(2) [OF lo])
  have n: "?n < 0xFFC00" using w(1) by (simp add: word_less_nat_alt div_less_iff_less_mult)
  have e: "?n = 1024 * (?n div 1024) + ?n mod 1024" by simp
  have j: "?n mod 1024 < 1024" by simp
  consider "?n div 1024 = 0" | "?n div 1024 = 0x300" | "?n div 1024 \<noteq> 0" "?n div 1024 \<noteq> 0x300" by blast
  then show ?thesis
  proof cases
    case 1
    then have "?n < 1024" using e j by linarith
    then show ?thesis using v(2) [of ?n] by (simp add: page_at_def page_split kernel_page_def)
  next
    case 2
    define m where "m = ?n mod 1024"
    have n': "?n = 0xC0000 + m" "m < 1024" using 2 e j by (simp_all add: m_def)
    have "page_at z w = view z 0x300 (word_of_nat m)" using 2 by (simp only: page_at_def page_split m_def) simp
    moreover have "m \<noteq> window_index l" using w(2) n'(1) by auto
    ultimately show ?thesis using v(3) [OF n'(2)] unfolding n'(1) by (simp add: kernel_page_def)
  next
    case 3
    have i: "?n div 1024 < 1023" using n by (simp add: div_less_iff_less_mult)
    then have u: "unat (word_of_nat (?n div 1024) :: u32) = ?n div 1024" by (intro unat_of_nat_u32) simp
    have "pde z (word_of_nat (?n div 1024)) = 0"
      by (rule v(1)) (use 3 i u in \<open>auto simp: word_less_nat_alt word_unat_eq_iff\<close>)
    then have "page_at z w = 0" by (simp add: page_at_def page_split view_def entry_present_def)
    moreover have "\<not> ?n < 256" "\<not> (0xC0100 \<le> ?n \<and> ?n < 0xC0000 + window_index l)" using 3 wi by (auto; presburger)+
    ultimately show ?thesis by (simp only: kernel_page_def if_False)
  qed
qed

lemma boot_tables:
  assumes lo: "layout_ok l" and bp: "boot_paging l T s" and z: "free_frame_paddr s = 0" "user_physical_map s = []"
    and r: "regions_ok l mb" and room: "2 \<le> card (kernel_frames l mb)"
  obtains t z gs where "init_frames l mb (set_window l s) = Inr t" "reinit_paging l t = Inr z" "mem_inv z gs" "set gs \<subseteq> kernel_frames l mb"
    "card (kernel_frames l mb) \<le> length gs + 2" "free_list_head z = at_index 0x300 (window_index l)" "\<not> entry_present (pde z 1022)"
    "\<And>w. w < 0xFFC00000 \<Longrightarrow> unat w div 4096 \<noteq> 0xC0000 + window_index l \<Longrightarrow> page_at z w = kernel_page l (unat w div 4096)"
    "cr3 z = cr3 s" "current_page_dir z = current_page_dir s" "kernel_page_dir z = kernel_page_dir s"
    "user_physical_map z = user_parts l mb 0 (mmap_count mb)"
    "\<And>a. 0x100000 \<le> a \<Longrightarrow> a < kernel_end_paddr l \<Longrightarrow> get_paddr a \<notin> {cr3 s, T} \<Longrightarrow>
       \<not> table_frame z (get_paddr a) \<and> pmem z a = pmem s a"
proof -
  let ?h = "set_window l (hide s)"
  obtain u t fs where u: "init_frames l mb (set_window l s) = Inr t" "boot_eq u t" "mem_inv u fs" "set fs = kernel_frames l mb"
    "length fs = card (kernel_frames l mb)" "boot_keeps ?h u" "user_physical_map u = user_parts l mb 0 (mmap_count mb)"
    by (rule boot_frames [OF lo bp z r])
  have kp: "cr3 u = cr3 s" "current_page_dir u = current_page_dir s" "kernel_page_dir u = kernel_page_dir s"
    "free_list_head u = at_index 0x300 (window_index l)"
    using u(6) by (simp_all add: boot_keeps_def hide_def) (simp_all add: set_window_def)
  have "pde u k = pde ?h k" if "k < 1024" for k using u(6) that by (simp add: boot_keeps_def)
  then have ab: "\<forall>k < 1023. k \<noteq> 0x300 \<longrightarrow> pde u k = 0"
    using hide_paging(4) [OF lo bp] less_1024 by (auto simp: hide_def)
  have high: "\<forall>f \<in> set fs. kernel_end_paddr l \<le> get_paddr f" using kernel_frames_high [OF r] u(4) by auto
  have fs: "2 \<le> length fs" using room u(5) by simp
  obtain z gs where v: "reinit_paging l t = Inr z" "mem_inv z gs" "set gs \<subseteq> set fs" "length fs \<le> length gs + 2"
    "\<And>k. k < 1023 \<Longrightarrow> k \<noteq> 0 \<Longrightarrow> k \<noteq> 0x300 \<Longrightarrow> pde z k = 0"
    "\<And>j. j < 1024 \<Longrightarrow> view z 0 (word_of_nat j) = (if j < 256 then create_entry (page_no 0 j) PAGE_WRITABLE else 0)"
    "\<And>j. j < 1024 \<Longrightarrow> j \<noteq> window_index l \<Longrightarrow>
       view z 0x300 (word_of_nat j) = (if 256 \<le> j \<and> j < window_index l then create_entry (page_no 0 j) PAGE_WRITABLE else 0)"
    "cr3 z = cr3 u" "free_list_head z = free_list_head u" "user_physical_map z = user_physical_map t"
    "current_page_dir z = current_page_dir t" "kernel_page_dir z = kernel_page_dir t"
    "\<And>g. table_frame z g \<Longrightarrow> table_frame u g \<or> g \<in> get_paddr ` set fs"
    "\<And>a. \<not> table_frame u (get_paddr a) \<Longrightarrow> get_paddr a \<notin> get_paddr ` set fs \<Longrightarrow> pmem z a = pmem u a"
    by (rule reinit_paging_ok [OF lo u(2,3) kp(4) ab high fs]) (rule that; assumption)
  have eq: "current_page_dir t = current_page_dir u" "kernel_page_dir t = kernel_page_dir u" "user_physical_map t = user_physical_map u"
    by (subst boot_eq_fields(1) [OF u(2)], simp)+
  have image: "\<not> table_frame z (get_paddr a) \<and> pmem z a = pmem s a"
    if a: "0x100000 \<le> a" "a < kernel_end_paddr l" "get_paddr a \<notin> {cr3 s, T}" for a
  proof -
    have nf: "get_paddr a \<notin> get_paddr ` set fs" by (rule image_not_free [OF r a(2)]) (simp add: u(4))
    have "\<not> table_frame ?h (get_paddr a)" using hide_paging(6) [OF lo bp] a(3) by auto
    then have nt: "\<not> table_frame u (get_paddr a)" using keeps_unreferenced(1) [OF u(6)] by simp
    have "pmem u a = pmem ?h a"
      using u(6) \<open>\<not> table_frame ?h (get_paddr a)\<close> image_referenced [OF lo bp a(1,2)] by (simp add: boot_keeps_def)
    moreover have "frame_aligned (cr3 s)" using bp by (simp add: boot_paging_def)
    then have "pmem ?h a = pmem s a"
      using wr32_in_frame(1) [of "cr3 s" 0 a] a(3) by (simp add: hide_def set_window_def)
    ultimately show ?thesis using v(13) [of "get_paddr a"] v(14) [OF nt nf] nt nf by auto
  qed
  show ?thesis
  proof (rule that [OF u(1) v(1,2)])
    show "page_at z w = kernel_page l (unat w div 4096)" if "w < 0xFFC00000" "unat w div 4096 \<noteq> 0xC0000 + window_index l" for w
      by (rule kernel_page_at [OF v(5-7) lo that])
    show "\<not> entry_present (pde z 1022)" using v(5) [of 1022] by (simp add: entry_present_def)
  qed (use v(3,4,8-12) u(4,5,7) kp eq image in simp_all)
qed

lemma below_window:
  assumes lo: "layout_ok l" and w: "w < at_index 0x300 (window_index l)"
  shows "unat w div 4096 < 0xC0000 + window_index l" "w < 0xFFC00000"
proof -
  have wi: "window_index l < 1024" by (rule image_pages_bounds(2) [OF lo])
  then have v: "unat (at_index 0x300 (window_index l)) = 0xC0000000 + 4096 * window_index l"
    using at_index_unat [of "0x300" "window_index l"] by simp
  then have "unat w < (0xC0000 + window_index l) * 4096" using w by (simp add: word_less_nat_alt)
  then show "unat w div 4096 < 0xC0000 + window_index l" by (subst div_less_iff_less_mult) simp_all
  show "w < 0xFFC00000" using w v wi by (simp add: word_less_nat_alt)
qed

lemma boot_space:
  assumes lo: "layout_ok l" and hd: "free_list_head z = at_index 0x300 (window_index l)" "\<not> entry_present (pde z 1022)"
    and at: "\<forall>w < 0xFFC00000. unat w div 4096 \<noteq> 0xC0000 + window_index l \<longrightarrow> page_at z w = kernel_page l (unat w div 4096)"
  shows "space_ok z" "space_pages z = 0x3FBFF - window_index l"
proof -
  have wi: "window_index l < 1024" by (rule image_pages_bounds(2) [OF lo])
  have u: "unat (free_list_head z) = 0xC0000000 + 4096 * window_index l"
    using at_index_unat [of "0x300" "window_index l"] wi by (simp add: hd(1))
  have "\<not> entry_present (page_at z w)" if w: "free_list_head z + PAGE_SIZE \<le> w" "w < 0xFFC00000" for w
  proof -
    have "unat (free_list_head z + PAGE_SIZE) = 0xC0000000 + 4096 * window_index l + 4096"
      using u wi by (simp add: unat_add_u32 PAGE_SIZE_def)
    then have "(0xC0000 + window_index l + 1) * 4096 \<le> unat w" using w(1) by (simp add: word_le_nat_alt)
    then have n: "0xC0000 + window_index l + 1 \<le> unat w div 4096" by (subst less_eq_div_iff_mult_less_eq) simp_all
    then have "page_at z w = 0" using at w(2) by (simp add: kernel_page_def)
    then show ?thesis by (simp add: entry_present_def)
  qed
  then show "space_ok z" using u wi hd(2) by (simp add: space_ok_def word_le_nat_alt word_less_nat_alt)
  show "space_pages z = 0x3FBFF - window_index l" using wi by (simp add: space_pages_def u)
qed

subsection \<open>The page for users\<close>

lemma heap_alloc_first:
  assumes "page_count h = 1024" "page_use h 0 = 0" "page_use h 1 = 0"
  shows "heap_alloc h 1 = Inr (heap_start h, heap_set_usage h 0 1)"
proof -
  have "heap_alloc_loop (Suc n) h 1 0 0 0 = Inr (heap_start h, heap_set_usage h 0 1)" for n
  proof -
    have "get_new_color 0 0 = Inr 1" by (simp add: get_new_color_def numeral_3_eq_3)
    then show ?thesis
      using assms by (simp add: page_use_def heap_mark_used_def HEAP_PAGE_FREE_def heap_set_usage_def Let_def)
  qed
  moreover have "unat (page_count h) = Suc 1023" using assms(1) by simp
  ultimately show ?thesis unfolding heap_alloc_def by (simp only:)
qed

text \<open>Backing one page and writing bytes to it.\<close>

lemma page_with_bytes:
  assumes inv: "mem_inv s fs" and v: "run_free s v 1 flags" "frame_aligned v" and fl: "flags < 0x1000" and room: "2 \<le> length fs"
    and bs: "length bs \<le> 4096"
  obtains t gs m where "alloc_pages s v flags 1 = Inr t" "copy_out t v bs = Inr (t\<lparr>pmem := m\<rparr>)" "mem_inv (t\<lparr>pmem := m\<rparr>) gs"
    "set gs \<subseteq> set fs" "length fs \<le> length gs + 2" "same_config s t"
    "\<And>w. plain_page s w \<Longrightarrow> drop_bit 12 w \<noteq> drop_bit 12 v \<Longrightarrow> page_at (t\<lparr>pmem := m\<rparr>) w = page_at s w"
    "\<And>k. k < length bs \<Longrightarrow> vread8 (t\<lparr>pmem := m\<rparr>) (v + word_of_nat k) = Inr (bs ! k)"
    "\<And>a. \<not> table_frame s (get_paddr a) \<Longrightarrow> get_paddr a \<notin> get_paddr ` set fs \<Longrightarrow> m a = pmem s a"
    "\<exists>f. page_at (t\<lparr>pmem := m\<rparr>) v = create_entry f flags" "\<And>k. k < 1023 \<Longrightarrow> user_ok s k flags \<Longrightarrow> user_ok (t\<lparr>pmem := m\<rparr>) k flags"
proof -
  have r: "2 * 1 \<le> length fs" using room by simp
  obtain t ps gs where t: "alloc_pages_loop 1 s v flags = Inr t" "mem_inv t gs" "mem_step s t (get_paddr ` set fs)" "length ps = 1"
    "backed t v flags ps" "set ps \<subseteq> set fs" "set gs \<subseteq> set fs" "set ps \<inter> set gs = {}"
    "\<And>w. plain_page s w \<Longrightarrow> (\<forall>k < 1. drop_bit 12 w \<noteq> drop_bit 12 (page_no v k)) \<Longrightarrow> page_at t w = page_at s w"
    "length fs \<le> length gs + 2 * 1" "\<And>k. k < 1023 \<Longrightarrow> user_ok s k flags \<Longrightarrow> user_ok t k flags"
    using alloc_pages_loop_ok [OF inv v(1) fl r] by blast
  note ok = mem_paging [OF t(2)]
  have w: "writable_range t v (length bs) (run_byte ps)" by (rule run_writable [OF ok v(2) t(5) fl]) (use bs t(4) in simp_all)
  obtain m where m: "copy_out t v bs = Inr (t\<lparr>pmem := m\<rparr>)" "paging_eq t (t\<lparr>pmem := m\<rparr>)" "\<And>k. k < length bs \<Longrightarrow> m (run_byte ps k) = bs ! k"
    "\<And>a. a \<notin> run_byte ps ` {..<length bs} \<Longrightarrow> m a = pmem t a"
    using copy_out_ok [OF ok w] by blast
  obtain p where p: "ps = [p]" using t(4) by (auto simp: length_Suc_conv)
  have page: "get_paddr a = get_paddr p" if ap: "a \<in> run_byte ps ` {..<length bs}" for a
  proof -
    obtain k where k: "k < length bs" "a = run_byte ps k" using ap by blast
    then have "k < 4096" using bs by simp
    then show ?thesis by (simp add: k(2) run_byte_frame p)
  qed
  have "m a = pmem t a" if a: "get_paddr a \<in> get_paddr ` set gs" for a
  proof (rule m(4), rule notI)
    assume "a \<in> run_byte ps ` {..<length bs}"
    then have "get_paddr a = get_paddr p" by (rule page)
    then show False using a t(6-8) mem_distinct [OF inv] p by (auto simp: distinct_map dest: inj_onD)
  qed
  then have inv': "mem_inv (t\<lparr>pmem := m\<rparr>) gs" by (rule bytes_inv [OF t(2) m(2)])
  have "vread8 (t\<lparr>pmem := m\<rparr>) (v + word_of_nat k) = Inr (bs ! k)" if "k < length bs" for k
    using w that m(3) [OF that] paging_eq_translate [OF ok m(2)] by (simp add: writable_range_def range_at_def vread8_def)
  moreover have "page_at (t\<lparr>pmem := m\<rparr>) w = page_at s w" if "plain_page s w" "drop_bit 12 w \<noteq> drop_bit 12 v" for w
    using t(9) [OF that(1)] that(2) paging_eq_page_at [OF m(2)] by simp
  moreover have "m a = pmem s a" if "\<not> table_frame s (get_paddr a)" "get_paddr a \<notin> get_paddr ` set fs" for a
  proof -
    have "a \<notin> run_byte ps ` {..<length bs}" using page [of a] that(2) t(6) p by auto
    then have "m a = pmem t a" by (rule m(4))
    then show ?thesis using t(3) that by (simp add: mem_step_def)
  qed
  moreover have "\<exists>f. page_at (t\<lparr>pmem := m\<rparr>) v = create_entry f flags"
    using t(4,5) p paging_eq_page_at [OF m(2)] by (intro exI [of _ p]) (auto simp: backed_def)
  moreover have "user_ok (t\<lparr>pmem := m\<rparr>) k flags" if "k < 1023" "user_ok s k flags" for k
    using t(11) [OF that] paging_eq_pde [OF m(2) less_1024 [OF that(1)]] by (simp add: user_ok_def)
  ultimately show ?thesis
    using t(1,7,10) m(1) inv' mem_step_config [OF t(3)] by (intro that [of t m gs]) (simp_all add: alloc_pages_def)
qed

text \<open>What the processor lets user programs do at an address: read and not write.\<close>

definition user_read_only :: "kmem \<Rightarrow> u32 \<Rightarrow> bool" where
  "user_read_only s w \<longleftrightarrow>
     entry_present (pde s (get_pd_index w)) \<and> get_flags (pde s (get_pd_index w)) AND PAGE_USER_MODE \<noteq> 0 \<and>
     entry_present (page_at s w) \<and> get_flags (page_at s w) AND PAGE_USER_MODE \<noteq> 0 \<and>
     get_flags (page_at s w) AND PAGE_WRITABLE = 0"

lemma user_read_only_same: "drop_bit 12 w = drop_bit 12 v \<Longrightarrow> user_read_only s w \<longleftrightarrow> user_read_only s v"
  by (simp add: user_read_only_def page_at_indices page_at_same [of w v s])

lemma user_page:
  assumes at: "page_at s v = create_entry f PAGE_USER_MODE" and u: "user_ok s (get_pd_index v) PAGE_USER_MODE"
  shows "user_read_only s v"
proof -
  have e: "entry_present (page_at s v)" "get_flags (page_at s v) = PAGE_USER_MODE OR 1"
    unfolding at by (simp_all add: get_flags_create_entry PAGE_USER_MODE_def)
  have "entry_present (pde s (get_pd_index v))"
  proof (rule ccontr)
    assume "\<not> entry_present (pde s (get_pd_index v))"
    then have "page_at s v = 0" by (simp add: page_at_def view_def)
    then show False using e(1) by (simp add: entry_present_def)
  qed
  then show ?thesis using u e by (simp add: user_read_only_def user_ok_def PAGE_USER_MODE_def PAGE_WRITABLE_def)
qed

lemma kernel_page_present:
  assumes n: "n < 0xC0000 + 1024"
  shows "entry_present (create_entry (page_no 0 n) PAGE_WRITABLE)" "get_paddr (create_entry (page_no 0 n) PAGE_WRITABLE) = page_no 0 n"
proof -
  have u: "unat (page_no 0 n) = 4096 * n" unfolding page_no_unat using n by simp
  then have "frame_aligned (page_no 0 n)" by (simp add: frame_unat)
  then show "entry_present (create_entry (page_no 0 n) PAGE_WRITABLE)" "get_paddr (create_entry (page_no 0 n) PAGE_WRITABLE) = page_no 0 n"
    by (simp_all add: get_paddr_create_entry PAGE_WRITABLE_def)
qed

lemma kernel_page_translate:
  assumes lo: "layout_ok l" and ok: "paging_ok t" and at: "\<forall>w < at_index 0x300 (window_index l). page_at t w = kernel_page l (unat w div 4096)"
  shows "w < 0x100000 \<Longrightarrow> translate t w = Inr w"
    "0xC0100000 \<le> w \<Longrightarrow> w < kernel_end_vaddr l \<Longrightarrow> translate t w = Inr (w - 0xC0000000)"
    "0x100000 \<le> w \<Longrightarrow> w < 0xC0100000 \<Longrightarrow> translate t w = Inl PageFault"
proof -
  note b = image_pages_bounds [OF lo]
  have hd: "unat (at_index 0x300 (window_index l)) = 0xC0000000 + 4096 * window_index l"
    using at_index_unat [of "0x300" "window_index l"] b(2) by simp
  have tr: "translate t w = Inr (page_no 0 n + (w AND 0xFFF))"
    if "kernel_page l (unat w div 4096) = create_entry (page_no 0 n) PAGE_WRITABLE" "w < at_index 0x300 (window_index l)" "n < 0xC0000" for w n
    using at that kernel_page_present [of n] by (simp add: page_at_translate [OF ok])
  have sum: "unat (page_no 0 n + (w AND 0xFFF)) = 4096 * n + unat w mod 4096" if "n < 0xC0000" for n w
  proof -
    have u: "unat (page_no 0 n) = 4096 * n" unfolding page_no_unat using that by simp
    have "unat w mod 4096 < 4096" by simp
    then show ?thesis using that by (subst unat_add_u32) (simp_all add: u unat_and_FFF)
  qed
  show "translate t w = Inr w" if w: "w < 0x100000"
  proof -
    have n: "unat w div 4096 < 256" using w by (simp add: word_less_nat_alt div_less_iff_less_mult)
    have "w < at_index 0x300 (window_index l)" using w hd by (simp add: word_less_nat_alt)
    from tr [OF _ this, of "unat w div 4096"] n sum [of "unat w div 4096" w] show ?thesis
      by (simp add: kernel_page_def word_unat_eq_iff)
  qed
  show "translate t w = Inr (w - 0xC0000000)" if w: "0xC0100000 \<le> w" "w < kernel_end_vaddr l"
  proof -
    have k: "unat (kernel_end_vaddr l) = 0xC0000000 + unat (kernel_end_paddr l)"
      using lo by (simp add: layout_ok_def unat_add_u32 word_le_nat_alt)
    have u: "0xC0100000 \<le> unat w" "unat w < 0xC0000000 + unat (kernel_end_paddr l)"
      using w k by (simp_all add: word_less_nat_alt word_le_nat_alt)
    define d where "d = unat w - 0xC0000000"
    have d: "unat w = d + 0xC0000 * 4096" "0x100000 \<le> d" "d < 4096 * window_index l" using u b(4) by (simp_all add: d_def)
    have n: "unat w div 4096 = 0xC0000 + d div 4096" unfolding d(1) div_mult_self1 [OF numeral_neq_zero] by (rule refl)
    have n': "256 \<le> d div 4096" "d div 4096 < window_index l" using d by (simp_all add: less_eq_div_iff_mult_less_eq div_less_iff_less_mult)
    have "w < at_index 0x300 (window_index l)" using d hd by (simp add: word_less_nat_alt)
    then have "translate t w = Inr (page_no 0 (d div 4096) + (w AND 0xFFF))"
      by (rule tr [rotated]) (use n n' b(2) in \<open>simp_all add: kernel_page_def\<close>)
    moreover have "unat (w - 0xC0000000) = d" using u(1) by (simp add: d_def unat_sub word_le_nat_alt)
    moreover have "unat w mod 4096 = d mod 4096" unfolding d(1) by (rule mod_mult_self1)
    ultimately show ?thesis using sum [of "d div 4096" w] n'(2) b(2) by (simp add: word_unat_eq_iff)
  qed
  show "translate t w = Inl PageFault" if w: "0x100000 \<le> w" "w < 0xC0100000"
  proof -
    have u: "0x100000 \<le> unat w" "unat w < 0xC0100000" using w by (simp_all add: word_less_nat_alt word_le_nat_alt)
    have "256 \<le> unat w div 4096" "unat w div 4096 < 0xC0100" using u by (simp_all add: less_eq_div_iff_mult_less_eq div_less_iff_less_mult)
    moreover have "w < at_index 0x300 (window_index l)" using u(2) hd by (simp add: word_less_nat_alt window_index_def)
    ultimately show ?thesis using at by (simp add: kernel_page_def page_at_translate [OF ok] entry_present_def)
  qed
qed

text \<open>What the last steps store beside the memory.\<close>

definition with_map :: "Heap \<Rightarrow> u32 \<Rightarrow> kmem \<Rightarrow> kmem" where
  "with_map h p s = s\<lparr>user_ro_heap := h, user_physical_map_ptr := p\<rparr>"

lemma with_map_fields [simp]:
  "paging_ok (with_map h p s) = paging_ok s" "translate (with_map h p s) v = translate s v" "page_at (with_map h p s) v = page_at s v"
  "mem_inv (with_map h p s) fs = mem_inv s fs" "kernel_heap (with_map h p s) = kernel_heap s" "free_list_head (with_map h p s) = free_list_head s"
  "user_physical_map (with_map h p s) = user_physical_map s" "pmem (with_map h p s) = pmem s" "cr3 (with_map h p s) = cr3 s"
  "kernel_page_dir (with_map h p s) = kernel_page_dir s" "current_page_dir (with_map h p s) = current_page_dir s"
  "user_ro_heap (with_map h p s) = h" "user_physical_map_ptr (with_map h p s) = p"
  "user_read_only (with_map h p s) v = user_read_only s v"
proof -
  have t: "table_frame (s\<lparr>user_physical_map_ptr := p\<rparr>) f = table_frame s f" "maps (s\<lparr>user_physical_map_ptr := p\<rparr>) i j f = maps s i j f"
    "view (s\<lparr>user_physical_map_ptr := p\<rparr>) i j = view s i j" for s f i j by (simp_all add: table_frame_def maps_def view_def)
  moreover have "unreferenced (s\<lparr>user_physical_map_ptr := p\<rparr>) f = unreferenced s f" for s f by (simp add: unreferenced_def t)
  ultimately have "mem_inv (s\<lparr>user_physical_map_ptr := p\<rparr>) fs = mem_inv s fs" for s by (simp add: mem_inv_def window_ok_def)
  from this [of "s\<lparr>user_ro_heap := h\<rparr>"] show "mem_inv (with_map h p s) fs = mem_inv s fs" by (simp add: with_map_def)
  show "page_at (with_map h p s) v = page_at s v" by (simp add: with_map_def page_at_def view_def)
  then show "user_read_only (with_map h p s) v = user_read_only s v" by (simp add: user_read_only_def) (simp add: with_map_def)
qed (simp_all add: with_map_def)

lemma with_map_copy: "copy_out s v bs = Inr u \<Longrightarrow> copy_out (with_map h p s) v bs = Inr (with_map h p u)"
proof (induction bs arbitrary: s v)
  case (Cons b bs)
  then obtain a where a: "translate s v = Inr a" "copy_out (s\<lparr>pmem := (pmem s)(a := b)\<rparr>) (v + 1) bs = Inr u"
    by (cases "translate s v") (auto simp: vwrite8_def)
  have "(with_map h p s)\<lparr>pmem := (pmem s)(a := b)\<rparr> = with_map h p (s\<lparr>pmem := (pmem s)(a := b)\<rparr>)" by (simp add: with_map_def)
  then show ?case using a Cons.IH by (simp add: vwrite8_def)
qed simp

lemma phys_map_bytes_length: "length (phys_map_bytes ms) = 8 * length ms"
  by (induction ms) (simp_all add: phys_map_bytes_def le32_def)

abbreviation share_map :: "kmem \<Rightarrow> kmem res" where
  "share_map s \<equiv> bind_res (mem_alloc s (user_ro_heap s) 1 PAGE_USER_MODE) (\<lambda>(p, h, s).
     copy_out (with_map h p s) p (phys_map_bytes (user_physical_map s)))"

lemma init_heap_share_map:
  assumes inv: "mem_inv z fs" and sp: "space_ok z" and room: "36 \<le> length fs"
    and ml: "length (user_physical_map z) \<le> USER_PHYSICAL_MAP_MAX"
  defines "v \<equiv> free_list_head z" and "K \<equiv> space_pages z - 1024"
  obtains s t gs where "init_heap z = Inr s" "share_map s = Inr t" "mem_inv t gs" "set gs \<subseteq> set fs" "length fs \<le> length gs + 36"
    "heap_start (kernel_heap t) = page_no v (1 + map_pages_of K)" "page_count (kernel_heap t) = word_of_nat K"
    "\<And>k. k < K \<Longrightarrow> page_use (kernel_heap t) k = 0" "K mod 4 \<noteq> 0 \<Longrightarrow> kernel_mem t gs"
    "user_physical_map_ptr t = page_no v (K + 2)" "user_physical_map t = user_physical_map z"
    "\<And>k. k < 8 * length (user_physical_map z) \<Longrightarrow> vread8 t (page_no v (K + 2) + word_of_nat k) = Inr (phys_map_bytes (user_physical_map z) ! k)"
    "\<And>k. k < 4096 \<Longrightarrow> user_read_only t (page_no v (K + 2) + word_of_nat k)"
    "cr3 t = cr3 z" "current_page_dir t = current_page_dir z" "kernel_page_dir t = kernel_page_dir z" "free_list_head t = v"
    "\<And>w. w < v \<Longrightarrow> page_at t w = page_at z w"
    "\<And>a. \<not> table_frame z (get_paddr a) \<Longrightarrow> get_paddr a \<notin> get_paddr ` set fs \<Longrightarrow> pmem t a = pmem z a"
proof -
  have al: "frame_aligned v" using mem_window [OF inv] by (simp add: window_ok_def v_def)
  note ev = space_eval [OF al [unfolded v_def] sp, folded v_def] and page = space_page [OF al [unfolded v_def] sp, folded v_def]
  have K: "0 < K" "K \<le> 2 ^ 18" "space_pages z = K + 1024" using ev(2,3) by (simp_all add: K_def)
  note m = map_pages_bounds [OF K(1,2)]
  have r34: "34 \<le> length fs" using room by simp
  obtain s gs where s: "init_heap z = Inr s" "mem_inv s gs" "set gs \<subseteq> set fs" "length fs \<le> length gs + 34"
    "heap_start (kernel_heap s) = page_no v (1 + map_pages_of K)" "page_count (kernel_heap s) = word_of_nat K"
    "\<And>k. k < K \<Longrightarrow> page_use (kernel_heap s) k = 0" "K mod 4 \<noteq> 0 \<Longrightarrow> page_use (kernel_heap s) K = 0"
    "heap_start (user_ro_heap s) = page_no v (K + 2)" "page_count (user_ro_heap s) = 1024" "\<And>k. k < 1024 \<Longrightarrow> page_use (user_ro_heap s) k = 0"
    "mem_step (z\<lparr>kernel_heap := kernel_heap s, user_ro_heap := user_ro_heap s\<rparr>) s (get_paddr ` set fs)"
    "\<And>w. plain_page z w \<Longrightarrow> drop_bit 12 w \<noteq> drop_bit 12 (page_no v (K + 1)) \<Longrightarrow>
       (\<forall>k < map_pages_of K. drop_bit 12 w \<noteq> drop_bit 12 (page_no v (1 + k))) \<Longrightarrow> page_at s w = page_at z w"
    "user_ok s 1022 PAGE_USER_MODE"
    by (rule init_heap_ok [OF inv sp r34, folded v_def, folded K_def]) (rule that; assumption)
  note c = same_configD [OF mem_step_config [OF s(12)], simplified]
  let ?p = "page_no v (K + 2)" and ?bs = "phys_map_bytes (user_physical_map z)"
  have plain: "plain_page s w = plain_page z w" for w using c(4) by (simp add: plain_page_def)
  have other: "page_at s w = page_at z w" if "plain_page z w" "\<And>k. 1 \<le> k \<Longrightarrow> k \<le> K + 1 \<Longrightarrow> drop_bit 12 w \<noteq> drop_bit 12 (page_no v k)" for w
    by (rule s(13)) (use that m(2) in auto)
  have p: "plain_page z ?p" "\<not> entry_present (page_at z ?p)" "get_pd_index ?p = 1022" using page [of "K + 2"] K(3) by simp_all
  have "drop_bit 12 ?p \<noteq> drop_bit 12 (page_no v k)" if "k \<le> K + 1" for k using K(2) that by (subst page_no_inj) simp_all
  then have "page_at s ?p = page_at z ?p" by (intro other [OF p(1)])
  then have run: "run_free s ?p 1 PAGE_USER_MODE" using p plain s(14) by (simp add: run_free_def)
  have alp: "frame_aligned ?p" using al by (simp add: frame_unat page_no_unat dvd_mod_iff)
  have fl: "PAGE_USER_MODE < 0x1000" by (simp add: PAGE_USER_MODE_def)
  have r2: "2 \<le> length gs" using room s(4) by simp
  have bl: "length ?bs \<le> 4096" using ml by (simp add: phys_map_bytes_length USER_PHYSICAL_MAP_MAX_def)
  obtain t hs n where t: "alloc_pages s ?p PAGE_USER_MODE 1 = Inr t" "copy_out t ?p ?bs = Inr (t\<lparr>pmem := n\<rparr>)" "mem_inv (t\<lparr>pmem := n\<rparr>) hs"
    "set hs \<subseteq> set gs" "length gs \<le> length hs + 2" "same_config s t"
    "\<And>w. plain_page s w \<Longrightarrow> drop_bit 12 w \<noteq> drop_bit 12 ?p \<Longrightarrow> page_at (t\<lparr>pmem := n\<rparr>) w = page_at s w"
    "\<And>k. k < length ?bs \<Longrightarrow> vread8 (t\<lparr>pmem := n\<rparr>) (?p + word_of_nat k) = Inr (?bs ! k)"
    "\<And>a. \<not> table_frame s (get_paddr a) \<Longrightarrow> get_paddr a \<notin> get_paddr ` set gs \<Longrightarrow> n a = pmem s a"
    "\<exists>f. page_at (t\<lparr>pmem := n\<rparr>) ?p = create_entry f PAGE_USER_MODE"
    "\<And>k. k < 1023 \<Longrightarrow> user_ok s k PAGE_USER_MODE \<Longrightarrow> user_ok (t\<lparr>pmem := n\<rparr>) k PAGE_USER_MODE"
    by (rule page_with_bytes [OF s(2) run alp fl r2 bl]) (rule that; assumption)
  note d = same_configD [OF t(6)]
  define h where "h = heap_set_usage (user_ro_heap s) 0 1"
  let ?t = "with_map h ?p (t\<lparr>pmem := n\<rparr>)"
  have "heap_alloc (user_ro_heap s) 1 = Inr (?p, h)" using heap_alloc_first [OF s(10)] s(9,11) by (simp add: h_def)
  then have alloc: "mem_alloc s (user_ro_heap s) 1 PAGE_USER_MODE = Inr (?p, h, t)" using t(1) by (simp add: mem_alloc_def)
  have um: "user_physical_map t = user_physical_map z" using c(10) d(10) by simp
  have share: "share_map s = Inr ?t" using alloc with_map_copy [OF t(2), of h ?p] by (simp add: um)
  have inv': "mem_inv ?t hs" using t(3) by simp
  have kh: "kernel_heap ?t = kernel_heap s" using d(8) by simp
  have hd: "free_list_head ?t = v" using c(4) d(4) by (simp add: v_def)
  have below: "page_at ?t w = page_at z w" if w: "w < v" for w
  proof -
    have lt: "unat w < unat v" "unat v < 0xFFC00000" using w ev(1) by (simp_all add: word_less_nat_alt)
    have ne: "drop_bit 12 w \<noteq> drop_bit 12 (page_no v k)" if k: "k \<le> space_pages z" for k
    proof -
      obtain q where q: "unat v = 4096 * q" using al unfolding frame_unat by (rule dvdE)
      have "unat (page_no v k) = 4096 * (q + k)" using ev(1) k unfolding page_no_unat by (simp add: q)
      then have "unat (page_no v k) div 4096 = q + k" by simp
      moreover have "unat w div 4096 < q" using lt(1) q by (simp add: div_less_iff_less_mult mult.commute)
      ultimately show ?thesis by (simp add: drop_bit_12_eq)
    qed
    have "unat w div 0x400000 < 1023" using lt by (simp add: div_less_iff_less_mult)
    then have pl: "plain_page z w" using ne [of 0] by (simp add: plain_page_def v_def word_less_nat_alt unat_pd_index page_no_def)
    then have "page_at s w = page_at z w" by (rule other) (use ne K(3) in simp)
    then show ?thesis using t(7) [of w] plain pl ne [of "K + 2"] K(3) by simp
  qed
  have ro: "user_read_only ?t (?p + word_of_nat k)" if k: "k < 4096" for k
  proof -
    obtain f where "page_at (t\<lparr>pmem := n\<rparr>) ?p = create_entry f PAGE_USER_MODE" using t(10) by blast
    moreover have "user_ok (t\<lparr>pmem := n\<rparr>) (get_pd_index ?p) PAGE_USER_MODE"
      unfolding p(3) by (rule t(11) [OF _ s(14)]) simp
    ultimately have "user_read_only (t\<lparr>pmem := n\<rparr>) ?p" by (rule user_page)
    moreover have "drop_bit 12 (?p + word_of_nat k) = drop_bit 12 ?p"
      using run_page(1) [OF alp, of k] k by (simp add: page_no_def del: of_nat_add)
    note user_read_only_same [OF this, of "t\<lparr>pmem := n\<rparr>"]
    ultimately show ?thesis by (simp only: with_map_fields)
  qed
  have data: "n a = pmem z a" if a: "\<not> table_frame z (get_paddr a)" "get_paddr a \<notin> get_paddr ` set fs" for a
  proof -
    have tab: "table_frame (z\<lparr>kernel_heap := x, user_ro_heap := y\<rparr>) g = table_frame z g" for x y g by (simp add: table_frame_def)
    have "\<not> table_frame s (get_paddr a)" "pmem s a = pmem z a" using s(12) a by (auto simp: mem_step_def tab)
    then show ?thesis using t(9) [of a] a(2) s(3) by auto
  qed
  show ?thesis
  proof (rule that [OF s(1) share inv'])
    show "kernel_mem ?t hs" if "K mod 4 \<noteq> 0"
      by (rule init_heap_kernel_mem [OF inv sp inv']) (use s(5-7) s(8) [OF that] kh hd in \<open>simp_all add: v_def K_def\<close>)
    show "page_at ?t w = page_at z w" if "w < v" for w by (rule below [OF that])
    show "vread8 ?t (?p + word_of_nat k) = Inr (?bs ! k)" if "k < 8 * length (user_physical_map z)" for k
      using t(8) [of k] that by (simp add: phys_map_bytes_length vread8_def)
    show "user_read_only ?t (?p + word_of_nat k)" if "k < 4096" for k by (rule ro [OF that])
  qed (use s(3-7) t(4,5) kh hd um c d data in simp_all)
qed

subsection \<open>The whole initialisation\<close>

text \<open>What holds then of the state \<open>t\<close>, with the free frames \<open>gs\<close>; \<open>s\<close> is the state before the boot code.\<close>

definition booted :: "layout \<Rightarrow> MultibootInfo \<Rightarrow> u32 \<Rightarrow> u32 \<Rightarrow> kmem \<Rightarrow> kmem \<Rightarrow> u32 list \<Rightarrow> bool" where
  "booted l mb dir table s t gs \<longleftrightarrow>
   (let v = at_index 0x300 (window_index l); K = 0x3F7FF - window_index l
    in mem_inv t gs \<and> set gs \<subseteq> kernel_frames l mb \<and> card (kernel_frames l mb) \<le> length gs + 38 \<and>
    cr3 t = dir \<and> current_page_dir t = dir \<and> kernel_page_dir t = dir \<and> free_list_head t = v \<and>
    (\<forall>w. w < 0x100000 \<longrightarrow> translate t w = Inr w) \<and>
    (\<forall>w. 0xC0100000 \<le> w \<longrightarrow> w < kernel_end_vaddr l \<longrightarrow> translate t w = Inr (w - 0xC0000000)) \<and>
    (\<forall>w. 0x100000 \<le> w \<longrightarrow> w < 0xC0100000 \<longrightarrow> translate t w = Inl PageFault) \<and>
    heap_start (kernel_heap t) = page_no v (1 + map_pages_of K) \<and> page_count (kernel_heap t) = word_of_nat K \<and>
    (\<forall>k < K. page_use (kernel_heap t) k = 0) \<and> user_physical_map_ptr t = page_no v (K + 2) \<and>
    user_physical_map t = user_parts l mb 0 (mmap_count mb) \<and>
    (\<forall>k < 8 * length (user_physical_map t). vread8 t (user_physical_map_ptr t + word_of_nat k) = Inr (phys_map_bytes (user_physical_map t) ! k)) \<and>
    (\<forall>k < 4096. user_read_only t (user_physical_map_ptr t + word_of_nat k)) \<and>
    (\<forall>a. 0x100000 \<le> a \<longrightarrow> a < kernel_end_paddr l \<longrightarrow> get_paddr a \<notin> {dir, table} \<longrightarrow> pmem t a = pmem s a) \<and>
    (image_pages l mod 4 \<noteq> 3 \<longrightarrow> kernel_mem t gs))"

lemma mem_init_ok:
  assumes lo: "layout_ok l" and al: "frame_aligned dir" "frame_aligned table" and ne: "dir \<noteq> table"
    and img: "{dir, table} \<subseteq> {0x100000 ..< kernel_end_paddr l}" and z: "free_frame_paddr s = 0" "user_physical_map s = []"
    and r: "regions_ok l mb" and room: "38 \<le> card (kernel_frames l mb)"
  shows "\<exists>u t gs. boot_start l dir table s = Inr u \<and> mem_init l mb u = Inr t \<and> booted l mb dir table s t gs"
proof -
  define v where "v = at_index 0x300 (window_index l)"
  define K where "K = 0x3F7FF - window_index l"
  obtain m where st: "boot_start l dir table s = Inr (s\<lparr>pmem := m, cr3 := dir, stale := \<lambda>_. False\<rparr>)"
    and bp: "boot_paging l table (s\<lparr>pmem := m, cr3 := dir, stale := \<lambda>_. False\<rparr>)"
    and sm: "\<And>a. get_paddr a \<notin> {dir, table} \<Longrightarrow> m a = pmem s a"
    by (rule start_paging [OF lo al ne img, of s]) (rule that; assumption)
  let ?u = "s\<lparr>pmem := m, cr3 := dir, stale := \<lambda>_. False\<rparr>"
  let ?s = "?u\<lparr>current_page_dir := dir, kernel_page_dir := dir\<rparr>"
  have bp': "boot_paging l table ?s" using bp by (simp add: boot_paging_def)
  have r2: "2 \<le> card (kernel_frames l mb)" using room by simp
  have z': "free_frame_paddr ?s = 0" "user_physical_map ?s = []" using z by simp_all
  obtain t x fs where x: "init_frames l mb (set_window l ?s) = Inr t" "reinit_paging l t = Inr x" "mem_inv x fs" "set fs \<subseteq> kernel_frames l mb"
    "card (kernel_frames l mb) \<le> length fs + 2" "free_list_head x = v" "\<not> entry_present (pde x 1022)"
    "\<And>w. w < 0xFFC00000 \<Longrightarrow> unat w div 4096 \<noteq> 0xC0000 + window_index l \<Longrightarrow> page_at x w = kernel_page l (unat w div 4096)"
    "cr3 x = cr3 ?s" "current_page_dir x = current_page_dir ?s" "kernel_page_dir x = kernel_page_dir ?s"
    "user_physical_map x = user_parts l mb 0 (mmap_count mb)"
    "\<And>a. 0x100000 \<le> a \<Longrightarrow> a < kernel_end_paddr l \<Longrightarrow> get_paddr a \<notin> {cr3 ?s, table} \<Longrightarrow>
       \<not> table_frame x (get_paddr a) \<and> pmem x a = pmem ?s a"
    by (rule boot_tables [OF lo bp' z' r r2, folded v_def]) (rule that; assumption)
  have wi: "window_index l < 1024" "window_index l = 256 + image_pages l"
    using image_pages_bounds(2) [OF lo] by (simp_all add: window_index_def)
  have sp: "space_ok x" "space_pages x = 0x3FBFF - window_index l" using x(7,8) by (simp_all add: boot_space [OF lo x(6) [unfolded v_def]])
  have K: "space_pages x - 1024 = K" using wi by (simp add: sp(2) K_def)
  have r36: "36 \<le> length fs" using room x(5) by simp
  have ml: "length (user_physical_map x) \<le> USER_PHYSICAL_MAP_MAX"
    using user_parts_length [of l mb 0 "mmap_count mb"] r x(12) by (simp add: regions_ok_def)
  obtain y u gs where u: "init_heap x = Inr y" "share_map y = Inr u" "mem_inv u gs" "set gs \<subseteq> set fs" "length fs \<le> length gs + 36"
    "heap_start (kernel_heap u) = page_no v (1 + map_pages_of K)" "page_count (kernel_heap u) = word_of_nat K"
    "\<And>k. k < K \<Longrightarrow> page_use (kernel_heap u) k = 0" "K mod 4 \<noteq> 0 \<Longrightarrow> kernel_mem u gs"
    "user_physical_map_ptr u = page_no v (K + 2)" "user_physical_map u = user_physical_map x"
    "\<And>k. k < 8 * length (user_physical_map x) \<Longrightarrow> vread8 u (page_no v (K + 2) + word_of_nat k) = Inr (phys_map_bytes (user_physical_map x) ! k)"
    "\<And>k. k < 4096 \<Longrightarrow> user_read_only u (page_no v (K + 2) + word_of_nat k)"
    "cr3 u = cr3 x" "current_page_dir u = current_page_dir x" "kernel_page_dir u = kernel_page_dir x" "free_list_head u = v"
    "\<And>w. w < v \<Longrightarrow> page_at u w = page_at x w"
    "\<And>a. \<not> table_frame x (get_paddr a) \<Longrightarrow> get_paddr a \<notin> get_paddr ` set fs \<Longrightarrow> pmem u a = pmem x a"
    by (rule init_heap_share_map [OF x(3) sp(1) r36 ml, unfolded K x(6)]) (rule that; assumption)
  have at: "\<forall>w < v. page_at u w = kernel_page l (unat w div 4096)"
  proof (intro allI impI)
    fix w assume w: "w < v"
    note below_window [OF lo w [unfolded v_def]]
    then show "page_at u w = kernel_page l (unat w div 4096)" using u(18) [OF w] x(8) by simp
  qed
  note tr = kernel_page_translate [OF lo mem_paging [OF u(3)] at [unfolded v_def]]
  have "mem_init l mb ?u = Inr u"
    using init_free_list_page_boot [OF lo bp'] x(1,2) u(1,2) by (simp add: mem_init_def get_page_dir_def with_map_def)
  have "K mod 4 \<noteq> 0" if "image_pages l mod 4 \<noteq> 3"
  proof -
    have "K + window_index l = 0x3F7FF" using wi by (simp add: K_def)
    then show ?thesis using that wi(2) by presburger
  qed
  moreover have "pmem u a = pmem s a" if a: "0x100000 \<le> a" "a < kernel_end_paddr l" "get_paddr a \<notin> {dir, table}" for a
  proof -
    note image_not_free [OF r a(2) x(4)]
    then show ?thesis using u(19) [of a] x(13) [OF a(1,2)] a(3) sm [of a] by simp
  qed
  ultimately have "booted l mb dir table s u gs"
    unfolding booted_def Let_def v_def [symmetric] K_def [symmetric] using x(4,5,9-12) u(3-17) tr by auto
  then show ?thesis using st \<open>mem_init l mb ?u = Inr u\<close> by blast
qed

subsection \<open>The split between the kernel and user programs\<close>









subsection \<open>Properties\<close>


text \<open>
  C6: Starting the machine. Whatever the memory holds, the boot code followed by \<open>mem_init\<close>
  returns if the kernel lies between 1 MB and 4 MB less a page, with the page directory and the
  table of the boot code, and the memory map holds 38 frames for the kernel. Then the directory maps
  the first megabyte to itself, the kernel 3 GB higher, and nothing else below the page of the free
  list; the frames of the kernel's shares form the free list, but for at most 38 in use, and the
  kernel's image is unchanged but for the two tables. The heap of the kernel is empty. The map of the memory for users lists the rest of each available region, what is left behind the fifth that the
  kernel keeps, in the order of the boot loader; it lies on a page that user programs may read and may not
  write (by the flags of the page and of its table), and reads back byte for byte. Unless the number of pages
  of the kernel is 3 modulo 4, the invariant of the kernel's memory holds.
\<close>

theorem mem_init_correct:
  fixes l s mb dir table
  defines "v \<equiv> at_index 0x300 (window_index l)" and "K \<equiv> 0x3F7FF - window_index l"
  assumes lo: "layout_ok l" and al: "frame_aligned dir" "frame_aligned table" and ne: "dir \<noteq> table"
    and img: "{dir, table} \<subseteq> {0x100000 ..< kernel_end_paddr l}" and z: "free_frame_paddr s = 0" "user_physical_map s = []"
    and r: "regions_ok l mb" and room: "38 \<le> card (kernel_frames l mb)"
  shows "\<exists>u t gs. boot_start l dir table s = Inr u \<and> mem_init l mb u = Inr t \<and> mem_inv t gs \<and> set gs \<subseteq> kernel_frames l mb \<and> card (kernel_frames l mb) \<le> length gs + 38 \<and>
    cr3 t = dir \<and> current_page_dir t = dir \<and> kernel_page_dir t = dir \<and> free_list_head t = v \<and>
    (\<forall>w. w < 0x100000 \<longrightarrow> translate t w = Inr w) \<and>
    (\<forall>w. 0xC0100000 \<le> w \<longrightarrow> w < kernel_end_vaddr l \<longrightarrow> translate t w = Inr (w - 0xC0000000)) \<and>
    (\<forall>w. 0x100000 \<le> w \<longrightarrow> w < 0xC0100000 \<longrightarrow> translate t w = Inl PageFault) \<and>
    heap_start (kernel_heap t) = page_no v (1 + map_pages_of K) \<and> page_count (kernel_heap t) = word_of_nat K \<and>
    (\<forall>k < K. page_use (kernel_heap t) k = 0) \<and> user_physical_map_ptr t = page_no v (K + 2) \<and>
    user_physical_map t = user_parts l mb 0 (mmap_count mb) \<and>
    (\<forall>k < 8 * length (user_physical_map t). vread8 t (user_physical_map_ptr t + word_of_nat k) = Inr (phys_map_bytes (user_physical_map t) ! k)) \<and>
    (\<forall>k < 4096. user_read_only t (user_physical_map_ptr t + word_of_nat k)) \<and>
    (\<forall>a. 0x100000 \<le> a \<longrightarrow> a < kernel_end_paddr l \<longrightarrow> get_paddr a \<notin> {dir, table} \<longrightarrow> pmem t a = pmem s a) \<and>
    (image_pages l mod 4 \<noteq> 3 \<longrightarrow> kernel_mem t gs)"
  using mem_init_ok [OF assms(3-11)] unfolding booted_def Let_def v_def K_def by blast

text \<open>An example: a kernel of 4 pages and a region of 5 MB.\<close>

definition small_layout :: layout where
  "small_layout = \<lparr>kernel_start_paddr = 0x100000, kernel_start_vaddr = 0xC0100000, kernel_end_paddr = 0x104000, kernel_end_vaddr = 0xC0104000\<rparr>"

definition small_map :: MultibootInfo where
  "small_map = \<lparr>mb_flags = 0x1040, mmap_length = 24, mmap_addr = \<lambda>_. \<lparr>size = 20, base_addr_lo = 0x100000, base_addr_hi = 0,
     length_lo = 0x500000, length_hi = 0, type = 1\<rparr>, framebuffer_addr_lo = 0, framebuffer_addr_hi = 0,
     framebuffer_width = 80, framebuffer_height = 25\<rparr>"

lemma small_map_count: "mmap_count small_map = 1"
  by (simp add: mmap_count_def small_map_def SIZEOF_MMapEntry_def)

lemma small_share: "in_share small_layout (mmap_addr small_map i) g \<longleftrightarrow> 0x104000 \<le> g \<and> g < 0x200000"
  by (simp add: in_share_def available_def share_start_def share_end_def small_layout_def small_map_def MMAP_AVAILABLE_def
      KERNEL_MEM_SHARE_DIV_def)

lemma small_regions: "regions_ok small_layout small_map"
  unfolding regions_ok_def small_map_count
  by (simp add: entry_ok_def available_def share_start_def share_end_def small_layout_def small_map_def MMAP_AVAILABLE_def
      KERNEL_MEM_SHARE_DIV_def SIZEOF_MMapEntry_def MB_FLAG_MMAP_def USER_PHYSICAL_MAP_MAX_def)

lemma small_room: "38 \<le> card (kernel_frames small_layout small_map)"
proof -
  let ?f = "\<lambda>k. page_no 0 (0x104 + k)"
  have u: "unat (?f k) = 4096 * (0x104 + k)" if "k < 38" for k unfolding page_no_unat using that by simp
  have "inj_on ?f {..<38}"
  proof (rule inj_onI)
    fix j k :: nat
    assume jk: "j \<in> {..<38}" "k \<in> {..<38}" and eq: "?f j = ?f k"
    have "j < 38" "k < 38" using jk by simp_all
    from trans [OF u [OF this(1), unfolded eq, symmetric] u [OF this(2)]] show "j = k" by simp
  qed
  then have "card (?f ` {..<38}) = 38" by (simp add: card_image)
  moreover have "?f ` {..<38} \<subseteq> kernel_frames small_layout small_map"
  proof
    fix g assume "g \<in> ?f ` {..<38}"
    then obtain k where k: "k < 38" "g = ?f k" by blast
    have g: "unat g = 4096 * (0x104 + k)" unfolding k(2) by (rule u [OF k(1)])
    then have "frame_aligned g" unfolding frame_unat by simp
    moreover have "0x104000 \<le> g" "g < 0x200000" using g k(1) by (simp_all add: word_le_nat_alt word_less_nat_alt)
    ultimately show "g \<in> kernel_frames small_layout small_map" by (simp add: kernel_frames_def small_map_count small_share)
  qed
  moreover have "finite (kernel_frames small_layout small_map)" by (rule finite_subset [OF subset_UNIV]) simp
  ultimately show ?thesis using card_mono by metis
qed

theorem mem_init_correct_witness:
  "\<exists>u t gs. boot_start small_layout 0x101000 0x102000 (demo\<lparr>free_frame_paddr := 0\<rparr>) = Inr u \<and>
     mem_init small_layout small_map u = Inr t \<and> kernel_mem t gs \<and> translate t 0xC0100123 = Inr 0x100123"
proof -
  let ?d = "demo\<lparr>free_frame_paddr := 0\<rparr>"
  have l: "layout_ok small_layout" "image_pages small_layout mod 4 \<noteq> 3" by (simp_all add: layout_ok_def small_layout_def image_pages_def)
  have a: "frame_aligned 0x101000" "frame_aligned 0x102000" "(0x101000 :: u32) \<noteq> 0x102000" by (simp_all add: frame_aligned_def)
  have s: "{0x101000, 0x102000} \<subseteq> {0x100000 ..< kernel_end_paddr small_layout}" by (simp add: small_layout_def)
  have d: "free_frame_paddr ?d = 0" "user_physical_map ?d = []" by (simp_all add: demo_def)
  obtain u t gs where t: "boot_start small_layout 0x101000 0x102000 ?d = Inr u" "mem_init small_layout small_map u = Inr t"
    "\<forall>w. 0xC0100000 \<le> w \<longrightarrow> w < kernel_end_vaddr small_layout \<longrightarrow> translate t w = Inr (w - 0xC0000000)"
    "image_pages small_layout mod 4 \<noteq> 3 \<longrightarrow> kernel_mem t gs"
    using mem_init_correct [OF l(1) a s d small_regions small_room] by (elim exE conjE) (rule that)
  have "(0xC0100123 :: u32) < kernel_end_vaddr small_layout" by (simp add: small_layout_def)
  with t(3) have "translate t 0xC0100123 = Inr (0xC0100123 - 0xC0000000)" by simp
  moreover have "kernel_mem t gs" using t(4) l(2) by (rule mp)
  ultimately show ?thesis using t(1,2) by (intro exI [of _ u] exI [of _ t] exI [of _ gs]) simp
qed





end
