(* ===== verification/FormatItems.thy ===== *)
theory FormatItems
  imports StringsProps
begin

section \<open>The formatter on every directive\<close>

text \<open>
  The pieces of \<open>StringsProps\<close> are what the kernel's own messages consist of. Here the formatter is
  followed through all branches of its \<^verbatim>\<open>switch\<close>: also characters, doubles with and without a precision and
  directives that it does not know.
\<close>

unbundle bit_operations_syntax

subsection \<open>All directives\<close>

text \<open>
  A format string is a list of items: a piece as above, a character, a double with six or with a given number of
  digits, and the two directives that print nothing, an unknown letter and a precision without an \<open>f\<close>. Every
  string that does not end in a lone percent sign is one (\<open>format_items\<close>).
\<close>

datatype item = Piece piece | Chr u32 | Float u64 | Fixed "u8 list" u64 | Unknown u8 | Dots "u8 list"

fun item_fmt :: "item \<Rightarrow> u8 list" where
  "item_fmt (Piece p) = fmt_of p"
| "item_fmt (Chr v) = [ch CHR ''%'', ch CHR ''c'']"
| "item_fmt (Float v) = [ch CHR ''%'', ch CHR ''f'']"
| "item_fmt (Fixed ds v) = [ch CHR ''%'', ch CHR ''.''] @ ds @ [ch CHR ''f'']"
| "item_fmt (Unknown c) = [ch CHR ''%'', c]"
| "item_fmt (Dots ds) = [ch CHR ''%'', ch CHR ''.''] @ ds"

definition double_args :: "u64 \<Rightarrow> u32 list" where
  "double_args v = [ucast v, ucast (drop_bit 32 v)]"

fun item_args :: "item \<Rightarrow> u32 list" where
  "item_args (Piece p) = args_of p"
| "item_args (Chr v) = [v]"
| "item_args (Float v) = double_args v"
| "item_args (Fixed ds v) = double_args v"
| "item_args (Unknown c) = []"
| "item_args (Dots ds) = []"

definition precision_of :: "u32 \<Rightarrow> u8 list \<Rightarrow> u32" where
  "precision_of = foldl (\<lambda>p d. p * 10 + (ucast d - ucast (ch CHR ''0'')))"

text \<open>The text of a double, over the operations of the processor.\<close>

definition float_text :: "senv \<Rightarrow> u32 \<Rightarrow> u64 \<Rightarrow> u8 list" where
  "float_text E precision v =
     (let sign = (if f_negative E v then [ch CHR ''-''] else []);
          w = (if f_negative E v then f_neg E v else v);
          frac = times10_loop (unat precision) E (f_minus E w (f_of_u32 E (f_to_u32 E w)))
      in if f_nan E v then map of_char ''nan''
         else if f_inf E v then sign @ map of_char ''inf''
         else sign @ dec_text (f_to_u32 E w) @
           (if precision > 0 then ch CHR ''.'' # dec_text (f_to_u32 E (f_plus_half E frac)) else []))"

fun item_text :: "senv \<Rightarrow> item \<Rightarrow> u8 list" where
  "item_text E (Piece p) = text_of p"
| "item_text E (Chr v) = [ucast v]"
| "item_text E (Float v) = float_text E 6 v"
| "item_text E (Fixed ds v) = float_text E (precision_of 0 ds) v"
| "item_text E (Unknown c) = []"
| "item_text E (Dots ds) = []"

definition item_formats :: "item list \<Rightarrow> u8 list" where
  "item_formats is = concat (map item_fmt is)"

definition item_texts :: "senv \<Rightarrow> item list \<Rightarrow> u8 list" where
  "item_texts E is = concat (map (item_text E) is)"

definition item_arguments :: "item list \<Rightarrow> u32 list" where
  "item_arguments is = concat (map item_args is)"

definition digit_char :: "u8 \<Rightarrow> bool" where
  "digit_char c \<longleftrightarrow> ch CHR ''0'' \<le> c \<and> c \<le> ch CHR ''9''"

fun item_ok :: "senv \<Rightarrow> bytes \<Rightarrow> u32 \<Rightarrow> u32 \<Rightarrow> item \<Rightarrow> bool" where
  "item_ok E m b n (Piece p) \<longleftrightarrow> piece_ok E m b n p"
| "item_ok E m b n (Fixed ds v) \<longleftrightarrow> (\<forall>d \<in> set ds. digit_char d)"
| "item_ok E m b n (Dots ds) \<longleftrightarrow> (\<forall>d \<in> set ds. digit_char d)"
| "item_ok E m b n (Unknown c) \<longleftrightarrow> c \<noteq> 0 \<and> c \<notin> ch ` set ''uifxpbsc%.''"
| "item_ok E m b n _ \<longleftrightarrow> True"

text \<open>
  What the items need where they stand: there is room for a character (without, its argument is not taken), and
  a precision ends before the next item.
\<close>

fun items_fit :: "senv \<Rightarrow> nat \<Rightarrow> nat \<Rightarrow> item list \<Rightarrow> bool" where
  "items_fit E room l [] \<longleftrightarrow> True"
| "items_fit E room l (i # is) \<longleftrightarrow>
     (case i of Chr v \<Rightarrow> l < room
      | Dots ds \<Rightarrow> (case item_formats is of [] \<Rightarrow> True | x # _ \<Rightarrow> \<not> digit_char x \<and> x \<noteq> ch CHR ''f'')
      | _ \<Rightarrow> True) \<and> items_fit E room (l + length (item_text E i)) is"

text \<open>
  A double is printed by way of a local buffer of 40 bytes, which has to lie outside of the output, the format
  string and the strings that are printed.
\<close>

fun is_float :: "item \<Rightarrow> bool" where
  "is_float (Float v) \<longleftrightarrow> True"
| "is_float (Fixed ds v) \<longleftrightarrow> True"
| "is_float _ \<longleftrightarrow> False"

fun item_strings :: "senv \<Rightarrow> item \<Rightarrow> (u32 \<times> nat) set" where
  "item_strings E (Piece (Str p xs)) = {(if p = 0 then null_str E else p, length xs)}"
| "item_strings E _ = {}"

definition scratch_ok :: "senv \<Rightarrow> bytes \<Rightarrow> u32 \<Rightarrow> u32 \<Rightarrow> u32 \<Rightarrow> item list \<Rightarrow> bool" where
  "scratch_ok E m b n fmt is \<longleftrightarrow> float_temp E \<noteq> 0 \<and> unat (float_temp E) + 40 \<le> 4294967296 \<and>
     (b = 0 \<or> outside b n (float_temp E) 39) \<and>
     outside (float_temp E) 40 fmt (length (item_formats is)) \<and>
     (\<forall>i \<in> set is. \<forall>(s, l) \<in> item_strings E i. outside (float_temp E) 40 s l) \<and>
     nan_str E \<noteq> 0 \<and> str_at m (nan_str E) (map of_char ''nan'') \<and> outside (float_temp E) 40 (nan_str E) 3 \<and>
     (b = 0 \<or> outside b n (nan_str E) 3)"

text \<open>The memory with the local buffer as the items leave it.\<close>

definition float_scratch :: "senv \<Rightarrow> u32 \<Rightarrow> u64 \<Rightarrow> bytes \<Rightarrow> bytes" where
  "float_scratch E precision v m =
     (if f_nan E v then m else write_bytes m (float_temp E) (float_text E precision v @ [0]))"

fun item_scratch :: "senv \<Rightarrow> item \<Rightarrow> bytes \<Rightarrow> bytes" where
  "item_scratch E (Float v) m = float_scratch E 6 v m"
| "item_scratch E (Fixed ds v) m = float_scratch E (precision_of 0 ds) v m"
| "item_scratch E _ m = m"

lemma float_text_length: "length (float_text E precision v) \<le> 22"
proof -
  have ten: "length (dec_text v) \<le> 10" for v by (rule text_lengths)
  have "length (dec_text v) \<le> 21" "length (dec_text v) \<le> 22"
    "length (dec_text v) + length (dec_text u) \<le> 20" "length (dec_text v) + length (dec_text u) \<le> 21" for u v
    using ten [of u] ten [of v] by linarith+
  then show ?thesis by (simp add: float_text_def Let_def)
qed

lemma float_text_nonzero: "0 \<notin> set (float_text E precision v)"
proof -
  have "word_of_nat d + 48 \<noteq> (0 :: u8)" if "d < 10" for d
  proof -
    have "unat (word_of_nat d + 48 :: u8) = d + 48" using that by (simp add: unat_word_ariths unat_of_nat)
    then show ?thesis by (metis add_is_0 unsigned_0 zero_neq_numeral)
  qed
  then have "0 \<notin> set (dec_text v)" for v using digits_less [of 10] by (force simp: dec_text_def)
  then show ?thesis by (auto simp: float_text_def Let_def)
qed

subsection \<open>Doubles\<close>

lemma write_bytes_commute:
  assumes "b = 0 \<or> outside b n t l" "length ys \<le> Suc l" "Suc l < 4294967296"
  shows "write_bytes (written m b n xs) t ys = written (write_bytes m t ys) b n xs"
proof (cases "b = 0")
  case False
  have out: "unat n \<le> unat (a - b)" if a: "unat (a - t) < length ys" for a
  proof -
    have "unat (a - t) \<le> l" using a assms(2) by simp
    then have "unat n \<le> unat (t + word_of_nat (unat (a - t)) - b)"
      using assms(1) False unfolding outside_def by blast
    then show ?thesis by simp
  qed
  show ?thesis
  proof
    fix a
    show "write_bytes (written m b n xs) t ys a = written (write_bytes m t ys) b n xs a"
    proof (cases "unat (a - t) < length ys")
      case True
      then show ?thesis using out [OF True] False by (simp add: written_def write_bytes_def)
    next
      case else: False
      then show ?thesis using False by (simp add: written_def write_bytes_def)
    qed
  qed
qed (simp add: written_def)

text \<open>Appending to the local buffer.\<close>

lemma scratch_int:
  assumes t: "t \<noteq> 0" "unat t + 40 \<le> 4294967296" and xs: "length xs \<le> 20"
  shows "snprint_int v False (40 - (t + word_of_nat (length xs) - t)) (t + word_of_nat (length xs)) (write_bytes m t xs) =
    Inr (word_of_nat (length (dec_text v)), write_bytes m t (xs @ dec_text v))"
proof -
  have l: "unat (word_of_nat (length xs) :: u32) = length xs" using xs by (simp add: unat_of_nat_u32)
  have "unat (t + word_of_nat (length xs)) = unat t + length xs"
    using t xs l by (subst unat_add_u32) simp_all
  then have "unat (t + word_of_nat (length xs)) \<noteq> 0" using t(1) by (simp add: unat_eq_0)
  then have ne: "t + word_of_nat (length xs) \<noteq> 0" by (metis unsigned_0)
  have "unat (40 - (word_of_nat (length xs) :: u32)) = 40 - length xs"
    using l xs by (subst unat_sub) (simp_all add: word_le_nat_alt)
  then have "take (unat (40 - (word_of_nat (length xs) :: u32))) (dec_text v) = dec_text v"
    using text_lengths(3) [of v] xs by simp
  moreover have "write_bytes (write_bytes m t xs) (t + word_of_nat (length xs)) (dec_text v) = write_bytes m t (xs @ dec_text v)"
    by (rule write_bytes_append) (use text_lengths(3) [of v] xs in simp)
  ultimately show ?thesis using ne by (simp add: snprint_int_emit emit_def)
qed

lemma scratch_char:
  "length xs < 4294967296 \<Longrightarrow>
     (write_bytes m t xs)(t + word_of_nat (length xs) := x) = write_bytes m t (xs @ [x])"
  by (rule write_bytes_snoc)

lemma float_scratch_steps:
  assumes t: "t = float_temp E" "t \<noteq> 0" "unat t + 40 \<le> 4294967296" and nan: "\<not> f_nan E v"
  shows "snprint_float E v precision n buffer m =
    snprint_string E t n buffer (write_bytes m t (float_text E precision v @ [0]))"
proof (cases "f_inf E v")
  case True
  show ?thesis
  proof (cases "f_negative E v")
    case True
    then show ?thesis
      using \<open>f_inf E v\<close> nan t(1)
        scratch_char [of "[]" m t 45] scratch_char [of "[45]" m t 105] scratch_char [of "[45, 105]" m t 110]
        scratch_char [of "[45, 105, 110]" m t 102] scratch_char [of "[45, 105, 110, 102]" m t 0]
      by (simp add: snprint_float_def float_text_def Let_def add.assoc)
  next
    case False
    then show ?thesis
      using \<open>f_inf E v\<close> nan t(1)
        scratch_char [of "[]" m t 105] scratch_char [of "[105]" m t 110]
        scratch_char [of "[105, 110]" m t 102] scratch_char [of "[105, 110, 102]" m t 0]
      by (simp add: snprint_float_def float_text_def Let_def add.assoc)
  qed
next
  case False
  define sign where "sign = (if f_negative E v then [ch CHR ''-''] else [])"
  define w where "w = (if f_negative E v then f_neg E v else v)"
  define ip where "ip = f_to_u32 E w"
  define fr where "fr = f_to_u32 E (f_plus_half E (times10_loop (unat precision) E (f_minus E w (f_of_u32 E ip))))"
  have len: "length sign \<le> 1" "length (dec_text ip) \<le> 10" "length (dec_text fr) \<le> 10"
    by (simp_all add: sign_def text_lengths)
  have start: "(if f_negative E v then (t + 1, m(t := ch CHR ''-''), f_neg E v) else (t, m, v)) =
      (t + word_of_nat (length sign), write_bytes m t sign, w)"
    by (simp add: sign_def w_def write_bytes_first)
  note int = scratch_int [OF t(2,3)]
  have one: "snprint_int ip False (40 - (t + word_of_nat (length sign) - t)) (t + word_of_nat (length sign)) (write_bytes m t sign) =
      Inr (word_of_nat (length (dec_text ip)), write_bytes m t (sign @ dec_text ip))"
    by (rule int) (use len in simp)
  let ?xs = "sign @ dec_text ip"
  have dot: "(write_bytes m t ?xs)(t + word_of_nat (length ?xs) := ch CHR ''.'') = write_bytes m t (?xs @ [ch CHR ''.''])"
    by (rule scratch_char) (use len in simp)
  have two: "snprint_int fr False (40 - (t + word_of_nat (length (?xs @ [ch CHR ''.''])) - t))
      (t + word_of_nat (length (?xs @ [ch CHR ''.'']))) (write_bytes m t (?xs @ [ch CHR ''.''])) =
      Inr (word_of_nat (length (dec_text fr)), write_bytes m t ((?xs @ [ch CHR ''.'']) @ dec_text fr))"
    by (rule int) (use len in simp)
  have e0: "(write_bytes m t ?xs)(t + word_of_nat (length ?xs) := 0) = write_bytes m t (?xs @ [0])"
    by (rule scratch_char) (use len in simp)
  have e1: "(write_bytes m t ((?xs @ [ch CHR ''.'']) @ dec_text fr))(t + word_of_nat (length ((?xs @ [ch CHR ''.'']) @ dec_text fr)) := 0) =
      write_bytes m t (((?xs @ [ch CHR ''.'']) @ dec_text fr) @ [0])"
    by (rule scratch_char) (use len in simp)
  have out: "float_text E precision v = ?xs @ (if precision > 0 then ch CHR ''.'' # dec_text fr else [])"
    using nan False by (simp add: float_text_def Let_def sign_def w_def ip_def fr_def)
  show ?thesis
    using nan False one dot two e0 e1 unfolding snprint_float_def Let_def t(1) [symmetric] out
    by (simp add: start [unfolded prod.case_distrib] ip_def [symmetric] fr_def [symmetric] add.assoc add.commute add.left_commute)
qed

text \<open>Printing a double at the place of the next segment.\<close>

lemma float_emit:
  assumes l: "length done < 4294967296" and b: "unat b + unat n < 4294967296" and sc: "scratch_ok E m b n fmt is"
  shows "snprint_float E v precision (rest_of n (length done)) (pos_of b n (length done)) (written m b n done) =
    Inr (word_of_nat (length (float_text E precision v)),
         written (float_scratch E precision v m) b n (done @ float_text E precision v))"
proof -
  let ?t = "float_temp E" and ?r = "rest_of n (length done)" and ?p = "pos_of b n (length done)"
  let ?txt = "float_text E precision v"
  have t: "?t \<noteq> 0" "unat ?t + 40 \<le> 4294967296" "b = 0 \<or> outside b n ?t 39"
    and nan: "nan_str E \<noteq> 0" "str_at m (nan_str E) (map of_char ''nan'')" "b = 0 \<or> outside b n (nan_str E) 3"
    using sc by (simp_all add: scratch_ok_def)
  have "snprint_float E v precision ?r ?p (written m b n done) = emit ?r ?p (written (float_scratch E precision v m) b n done) ?txt"
  proof (cases "f_nan E v")
    case True
    have "?txt = map of_char ''nan''" using True by (simp add: float_text_def)
    moreover have "snprint_string E (nan_str E) ?r ?p (written m b n done) =
        emit ?r ?p (written m b n done) (map of_char ''nan'')"
      by (rule snprint_string_emit)
        (use nan str_at_written [OF nan(2), of b n] outside_pos [OF nan(3) l b] in \<open>simp_all add: numeral_3_eq_3\<close>)
    ultimately show ?thesis using True by (simp add: snprint_float_def float_scratch_def)
  next
    case False
    let ?m = "written (float_scratch E precision v m) b n done"
    have len: "length (?txt @ [0]) \<le> 40" using float_text_length [of E precision v] by simp
    have m: "write_bytes (written m b n done) ?t (?txt @ [0]) = ?m"
      unfolding float_scratch_def using False write_bytes_commute [OF t(3), of "?txt @ [0]" m "done"] len by simp
    have "str_at (write_bytes (written m b n done) ?t (?txt @ [0])) ?t ?txt"
      by (rule str_at_write) (use float_text_nonzero [of E precision v] len in auto)
    then have at: "str_at ?m ?t ?txt" unfolding m .
    have "b = 0 \<or> outside b n ?t (length ?txt)"
      using t(3) len by (auto simp: outside_def)
    then have "snprint_string E ?t ?r ?p ?m = emit ?r ?p ?m ?txt"
      by (intro snprint_string_emit) (use t(1) at outside_pos [OF _ l b] in simp_all)
    then show ?thesis using float_scratch_steps [OF refl t(1,2) False] m by simp
  qed
  then show ?thesis using emit_resume [OF l b] by simp
qed

subsection \<open>The loop\<close>

lemma precision_loop_ok:
  assumes "\<forall>i < length ds. m (fmt + 1 + word_of_nat i) = ds ! i" "\<forall>d \<in> set ds. digit_char d"
    "\<not> digit_char (m (fmt + 1 + word_of_nat (length ds)))" "length ds < k"
  shows "precision_loop k m fmt p = Inr (fmt + word_of_nat (length ds), precision_of p ds)"
  using assms
proof (induction ds arbitrary: k fmt p)
  case Nil
  then show ?case by (cases k) (auto simp: digit_char_def precision_of_def)
next
  case (Cons d ds)
  obtain j where j: "k = Suc j" "length ds < j" using Cons.prems(4) by (cases k) auto
  have d: "m (fmt + 1) = d" using Cons.prems(1) by auto
  have rest: "\<forall>i < length ds. m (fmt + 1 + 1 + word_of_nat i) = ds ! i"
  proof (intro allI impI)
    fix i
    assume "i < length ds"
    then have "m (fmt + 1 + word_of_nat (Suc i)) = (d # ds) ! Suc i" using Cons.prems(1) by (metis Suc_less_eq length_Cons)
    then show "m (fmt + 1 + 1 + word_of_nat i) = ds ! i" by (simp add: add.assoc)
  qed
  have "precision_loop j m (fmt + 1) (p * 10 + (ucast d - ucast (ch CHR ''0''))) =
      Inr (fmt + 1 + word_of_nat (length ds), precision_of (p * 10 + (ucast d - ucast (ch CHR ''0''))) ds)"
    by (rule Cons.IH [OF rest _ _ j(2)]) (use Cons.prems(2,3) in \<open>simp_all add: add.assoc\<close>)
  then show ?case using d Cons.prems(2) j(1) by (simp add: digit_char_def precision_of_def add.assoc)
qed

lemma va_arg64_double: "va_arg64 (double_args v @ args) = Inr (v, args)"
proof -
  have "(ucast (ucast v :: u32) :: u64) OR push_bit 32 (ucast (ucast (drop_bit 32 v) :: u32)) = v"
    by (rule bit_word_eqI) (auto simp: bit_or_iff bit_push_bit_iff bit_ucast_iff bit_drop_bit_eq)
  then show ?thesis by (simp add: va_arg64_def double_args_def va_arg_def)
qed

lemma directive_dot:
  assumes "m fmt = ch CHR ''.''"
  shows "directive E m fmt args r p =
    bind_res (precision_loop (2 ^ 32) m fmt 0) (\<lambda>(fmt, precision).
      if m (fmt + 1) = ch CHR ''f'' then
        bind_res (va_arg64 args) (\<lambda>(v, args).
          bind_res (snprint_float E v precision r p m) (\<lambda>(len, m). Inr (len, m, fmt + 1, args)))
      else Inr (0, m, fmt, args))"
  using assms by (simp add: directive_def)

text \<open>One item of the format string.\<close>

lemma item_segment_ok:
  assumes l: "length done < 4294967296" and b: "unat b + unat n < 4294967296"
    and i: "item_ok E m b n i" and room: "items_fit E (if b = 0 then 0 else unat n) (length done) (i # is)"
    and sc: "is_float i \<Longrightarrow> scratch_ok E m b n start items"
    and fmt: "str_at (written m b n done) fmt (item_fmt i @ item_formats is)"
  shows "segment E (written m b n done) fmt (item_args i @ args) (rest_of n (length done)) (pos_of b n (length done)) =
    Inr (word_of_nat (length (item_text E i)), written (item_scratch E i m) b n (done @ item_text E i),
         fmt + word_of_nat (length (item_fmt i) - 1), args)"
proof -
  let ?m = "written m b n done" and ?r = "rest_of n (length done)" and ?p = "pos_of b n (length done)"
  let ?f = "item_fmt i @ item_formats is"
  have at: "?m (fmt + word_of_nat j) = ?f ! j" if "j < length ?f" for j
    using fmt that unfolding str_at_def by blast
  have after: "?m (fmt + word_of_nat (length (item_fmt i))) = (case item_formats is of [] \<Rightarrow> 0 | x # _ \<Rightarrow> x)"
    using str_at_shift [OF fmt] by (cases "item_formats is") (auto dest: str_at_head)
  have at01: "?m fmt = ch CHR ''%'' \<and> ?m (fmt + 1) = ?f ! 1" if "\<nexists>p. i = Piece p"
    using at [of 0] at [of 1] that by (cases i) auto
  show ?thesis
  proof (cases i)
    case (Piece p)
    then show ?thesis using segment_ok [OF l b _ fmt [unfolded Piece item_fmt.simps]] i by simp
  next
    case (Chr v)
    have p: "?p \<noteq> 0" using room pos_rest(2) [OF l b] Chr by (auto split: if_splits)
    have "Inr (1, ?m(?p := ucast v)) = emit ?r ?p ?m [ucast v]" using char_emit [OF l b, of ?m "ucast v"] p by simp
    then have "(1, ?m(?p := ucast v)) = (1, written m b n (done @ [ucast v]))" using emit_resume [OF l b, of m "[ucast v]"] by simp
    then show ?thesis using at01 Chr p by (simp add: segment_def directive_def va_arg_def)
  next
    case (Float v)
    then show ?thesis using at01 float_emit [OF l b sc, of v 6]
      by (simp add: segment_def directive_def va_arg64_double)
  next
    case (Unknown c)
    then show ?thesis using at01 i by (simp add: segment_def directive_def)
  next
    case (Fixed ds v)
    have dig: "?m (fmt + 1 + 1 + word_of_nat j) = ds ! j" if "j < length ds" for j
      using at [of "Suc (Suc j)"] that Fixed by (simp add: add.assoc nth_append)
    have f: "?m (fmt + 1 + 1 + word_of_nat (length ds)) = ch CHR ''f''"
      using at [of "Suc (Suc (length ds))"] Fixed by (simp add: add.assoc nth_append)
    have "length ds < 2 ^ 32" using fmt Fixed by (simp add: str_at_def)
    from precision_loop_ok [OF _ _ _ this, of ?m "fmt + 1" 0] dig f i Fixed
    have "precision_loop (2 ^ 32) ?m (fmt + 1) 0 = Inr (fmt + 1 + word_of_nat (length ds), precision_of 0 ds)"
      by (simp add: digit_char_def)
    moreover have "?m (fmt + 1 + word_of_nat (length ds) + 1) = ch CHR ''f''" using f by (simp add: add.assoc add.commute add.left_commute)
    ultimately show ?thesis using at01 Fixed float_emit [OF l b sc, of v "precision_of 0 ds"]
      by (simp add: segment_def directive_dot va_arg64_double)
  next
    case (Dots ds)
    have dig: "?m (fmt + 1 + 1 + word_of_nat j) = ds ! j" if "j < length ds" for j
      using at [of "Suc (Suc j)"] that Dots by (simp add: add.assoc nth_append)
    have f: "\<not> digit_char (?m (fmt + 1 + 1 + word_of_nat (length ds)))" "?m (fmt + 1 + 1 + word_of_nat (length ds)) \<noteq> ch CHR ''f''"
      using after room Dots by (auto simp: add.assoc digit_char_def split: list.splits)
    have "length ds < 2 ^ 32" using fmt Dots by (simp add: str_at_def)
    from precision_loop_ok [of ds ?m "fmt + 1" "2 ^ 32" 0, OF _ _ f(1) this] dig i Dots
    have "precision_loop (2 ^ 32) ?m (fmt + 1) 0 = Inr (fmt + 1 + word_of_nat (length ds), precision_of 0 ds)" by simp
    moreover have "?m (fmt + 1 + word_of_nat (length ds) + 1) \<noteq> ch CHR ''f''" using f(2) by (simp add: add.assoc add.commute add.left_commute)
    ultimately show ?thesis using at01 Dots
      by (simp add: segment_def directive_dot)
  qed
qed

text \<open>What the items rely on is not changed by the local buffer.\<close>

lemma scratch_cases:
  obtains "item_scratch E i m = m"
  | xs where "is_float i" "item_scratch E i m = write_bytes m (float_temp E) xs" "length xs \<le> 23"
proof (cases "item_scratch E i m = m")
  case False
  then show thesis
    using that(2) float_text_length by (cases i) (auto simp: float_scratch_def split: if_splits)
qed (use that in simp)

lemma item_scratch_outside: "40 \<le> unat (a - float_temp E) \<Longrightarrow> item_scratch E i m a = m a"
  by (rule scratch_cases [of E i m]) (simp_all add: write_bytes_outside)

lemma str_at_scratch:
  assumes "str_at m s xs" "is_float i \<Longrightarrow> outside (float_temp E) 40 s (length xs)"
  shows "str_at (item_scratch E i m) s xs"
proof (cases "is_float i")
  case True
  then have "item_scratch E i m (s + word_of_nat j) = m (s + word_of_nat j)" if "j \<le> length xs" for j
    by (intro item_scratch_outside) (use assms(2) that in \<open>simp add: outside_def\<close>)
  then show ?thesis using assms(1) by (simp add: str_at_def)
next
  case False
  then have "item_scratch E i m = m" by (cases i) simp_all
  then show ?thesis using assms(1) by simp
qed

lemma item_ok_scratch:
  assumes "item_ok E m b n j" "is_float i \<Longrightarrow> \<forall>(s, l) \<in> item_strings E j. outside (float_temp E) 40 s l"
  shows "item_ok E (item_scratch E i m) b n j"
proof (cases "\<exists>p xs. j = Piece (Str p xs)")
  case True
  then obtain p xs where "j = Piece (Str p xs)" by blast
  then show ?thesis using assms by (auto intro!: str_at_scratch)
next
  case False
  moreover have "piece_ok E (item_scratch E i m) b n p" if "piece_ok E m b n p" "\<nexists>q xs. p = Str q xs" for p
    using that by (cases p) auto
  ultimately show ?thesis using assms(1) by (cases j) auto
qed

lemma scratch_ok_Cons:
  assumes "scratch_ok E m b n fmt (i # is)"
  shows "scratch_ok E (item_scratch E i m) b n (fmt + word_of_nat (length (item_fmt i))) is"
  using assms str_at_scratch [of m "nan_str E" "map of_char ''nan''" i E]
  by (auto simp: scratch_ok_def item_formats_def numeral_3_eq_3 intro: outside_shift)

lemma item_fmt_Cons: "item_ok E m b n i \<Longrightarrow> \<exists>x xs. item_fmt i = x # xs \<and> x \<noteq> 0"
  using fmt_of_Cons by (cases i) auto

lemma item_loop_ok:
  assumes b: "unat b + unat n < 4294967296"
    and its: "\<forall>i \<in> set is. item_ok E m b n i" "items_fit E (if b = 0 then 0 else unat n) (length done) is"
    and sc: "\<exists>i \<in> set is. is_float i \<Longrightarrow> scratch_ok E m b n fmt is"
    and fmt: "str_at m fmt (item_formats is)" "b = 0 \<or> outside b n fmt (length (item_formats is))"
    and len: "length (done @ item_texts E is) < 4294967296" and k: "length is < k"
  shows "vsnprintf_loop k E b n (written m b n done) fmt (item_arguments is @ args) (word_of_nat (length done)) =
    Inr (word_of_nat (length (done @ item_texts E is)),
         written (fold (item_scratch E) is m) b n (done @ item_texts E is))"
  using its sc fmt len k
proof (induction "is" arbitrary: m "done" fmt k)
  case Nil
  have "str_at (written m b n done) fmt []"
    by (rule str_at_written) (use Nil in \<open>auto simp: item_formats_def\<close>)
  then show ?case using Nil
    by (cases k) (simp_all add: item_texts_def vsnprintf_loop_Suc str_at_def del: vsnprintf_loop.simps(2))
next
  case (Cons i "is")
  then obtain j where j: "k = Suc j" "length is < j" by (cases k) auto
  have split: "item_formats (i # is) = item_fmt i @ item_formats is" "item_texts E (i # is) = item_text E i @ item_texts E is"
    "item_arguments (i # is) = item_args i @ item_arguments is"
    by (simp_all add: item_formats_def item_texts_def item_arguments_def)
  have l: "length done < 4294967296" and i: "item_ok E m b n i" using Cons.prems by simp_all
  have at: "str_at (written m b n done) fmt (item_fmt i @ item_formats is)"
    by (rule str_at_written) (use Cons.prems split in auto)
  have seg: "segment E (written m b n done) fmt (item_args i @ item_arguments is @ args)
      (rest_of n (length done)) (pos_of b n (length done)) =
    Inr (word_of_nat (length (item_text E i)), written (item_scratch E i m) b n (done @ item_text E i),
         fmt + word_of_nat (length (item_fmt i) - 1), item_arguments is @ args)"
    by (rule item_segment_ok [OF l b i Cons.prems(2) Cons.prems(3) at]) simp
  obtain x xs where x: "item_fmt i = x # xs" "x \<noteq> 0" using item_fmt_Cons [OF i] by auto
  have nz: "written m b n done fmt \<noteq> 0" using at x by (auto simp: str_at_def)
  have nx: "fmt + word_of_nat (length (item_fmt i) - 1) + 1 = fmt + word_of_nat (length (item_fmt i))"
    using x by (simp add: add.assoc add.commute)
  have strings: "\<forall>(s, l) \<in> item_strings E y. outside (float_temp E) 40 s l" if "is_float i" "y \<in> set is" for y
    using Cons.prems(3) that by (simp add: scratch_ok_def)
  have rest: "is_float i \<Longrightarrow> outside (float_temp E) 40 (fmt + word_of_nat (length (item_fmt i))) (length (item_formats is))"
    using Cons.prems(3) split(1) by (auto simp: scratch_ok_def intro: outside_shift)
  have IH: "vsnprintf_loop j E b n (written (item_scratch E i m) b n (done @ item_text E i)) (fmt + word_of_nat (length (item_fmt i)))
      (item_arguments is @ args) (word_of_nat (length (done @ item_text E i))) =
    Inr (word_of_nat (length ((done @ item_text E i) @ item_texts E is)),
         written (fold (item_scratch E) is (item_scratch E i m)) b n ((done @ item_text E i) @ item_texts E is))"
  proof (rule Cons.IH)
    show "\<forall>y \<in> set is. item_ok E (item_scratch E i m) b n y"
      using item_ok_scratch Cons.prems(1) strings by simp
    show "items_fit E (if b = 0 then 0 else unat n) (length (done @ item_text E i)) is" using Cons.prems(2) by simp
    show "scratch_ok E (item_scratch E i m) b n (fmt + word_of_nat (length (item_fmt i))) is" if "\<exists>i \<in> set is. is_float i"
      by (rule scratch_ok_Cons) (use Cons.prems(3) that in simp)
    show "str_at (item_scratch E i m) (fmt + word_of_nat (length (item_fmt i))) (item_formats is)"
      by (rule str_at_scratch) (use Cons.prems(4) split(1) rest in \<open>auto intro: str_at_shift\<close>)
    show "b = 0 \<or> outside b n (fmt + word_of_nat (length (item_fmt i))) (length (item_formats is))"
      using Cons.prems(5) split(1) by (auto intro: outside_shift)
  qed (use Cons.prems(6) j split(2) in simp_all)
  show ?case
    using IH seg nz nx split(2,3) unfolding j(1) vsnprintf_loop_Suc
    by (simp add: add.assoc del: vsnprintf_loop.simps(2))
qed

subsection \<open>Every format string is a list of items\<close>

text \<open>A percent sign at the end is no item: the code steps over the terminating zero there and reads on.\<close>

fun lone_percent :: "u8 list \<Rightarrow> bool" where
  "lone_percent [] \<longleftrightarrow> False"
| "lone_percent [c] \<longleftrightarrow> c = ch CHR ''%''"
| "lone_percent (c # d # xs) \<longleftrightarrow> (if c = ch CHR ''%'' then lone_percent xs else lone_percent (d # xs))"

lemma lone_percent_Cons: "c \<noteq> ch CHR ''%'' \<Longrightarrow> lone_percent (c # xs) = lone_percent xs"
  by (cases xs) auto

lemma lone_percent_skip: "\<forall>d \<in> set ds. digit_char d \<Longrightarrow> lone_percent (ds @ xs) = lone_percent xs"
proof (induction ds)
  case (Cons d ds)
  then have "d \<noteq> ch CHR ''%''" by (auto simp: digit_char_def)
  then show ?case using Cons by (simp add: lone_percent_Cons)
qed simp

lemma layout_ok_more: "items_fit E r l is \<Longrightarrow> r \<le> k \<Longrightarrow> items_fit E k l is"
  by (induction "is" arbitrary: l) (auto split: item.splits)

definition item_shape :: "senv \<Rightarrow> bytes \<Rightarrow> item \<Rightarrow> bool" where
  "item_shape E m i \<longleftrightarrow> (\<exists>p xs. i = Piece (Str p xs)) \<or> item_ok E m 0 0 i"

lemma plain_directive:
  assumes "d \<noteq> 0" "d \<noteq> ch CHR ''.''"
  obtains i where "item_fmt i = [ch CHR ''%'', d]" "item_shape E m i" "\<nexists>ds. i = Dots ds"
proof -
  consider "d = ch CHR ''u''" | "d = ch CHR ''i''" | "d = ch CHR ''f''" | "d = ch CHR ''x''" | "d = ch CHR ''p''"
    | "d = ch CHR ''b''" | "d = ch CHR ''s''" | "d = ch CHR ''c''" | "d = ch CHR ''%''" | "d \<notin> ch ` set ''uifxpbsc%.''"
    using assms(2) by auto
  then show thesis
  proof cases
    case 1 show ?thesis by (rule that [of "Piece (Unsigned 0)"]) (simp_all add: 1 item_shape_def)
  next
    case 2 show ?thesis by (rule that [of "Piece (Signed 0)"]) (simp_all add: 2 item_shape_def)
  next
    case 3 show ?thesis by (rule that [of "Float 0"]) (simp_all add: 3 item_shape_def)
  next
    case 4 show ?thesis by (rule that [of "Piece (Hex 0)"]) (simp_all add: 4 item_shape_def)
  next
    case 5 show ?thesis by (rule that [of "Piece (Pointer 0)"]) (simp_all add: 5 item_shape_def)
  next
    case 6 show ?thesis by (rule that [of "Piece (Binary 0)"]) (simp_all add: 6 item_shape_def)
  next
    case 7 show ?thesis by (rule that [of "Piece (Str 0 [])"]) (simp_all add: 7 item_shape_def)
  next
    case 8 show ?thesis by (rule that [of "Chr 0"]) (simp_all add: 8 item_shape_def)
  next
    case 9 show ?thesis by (rule that [of "Piece Percent"]) (simp_all add: 9 item_shape_def)
  next
    case 10 show ?thesis by (rule that [of "Unknown d"]) (use 10 assms in \<open>simp_all add: item_shape_def\<close>)
  qed
qed

lemma format_items:
  "0 \<notin> set xs \<Longrightarrow> \<not> lone_percent xs \<Longrightarrow>
     \<exists>is room. item_formats is = xs \<and> (\<forall>i \<in> set is. item_shape E m i) \<and> items_fit E room l is"
proof (induction xs arbitrary: l rule: length_induct)
  case (1 xs)
  have more: "\<exists>is room. item_formats is = item_fmt i @ ys \<and> (\<forall>i \<in> set is. item_shape E m i) \<and> items_fit E room l is"
    if i: "item_shape E m i" "length ys < length xs" "0 \<notin> set ys" "\<not> lone_percent ys"
      "\<And>ds. i = Dots ds \<Longrightarrow> case ys of [] \<Rightarrow> True | x # _ \<Rightarrow> \<not> digit_char x \<and> x \<noteq> ch CHR ''f''" for i ys
  proof -
    obtain "is" room where "item_formats is = ys" "\<forall>i \<in> set is. item_shape E m i" "items_fit E room (l + length (item_text E i)) is"
      using 1(1) i(2,3,4) by blast
    moreover from this have "items_fit E (max room (Suc l)) l (i # is)"
      using i(5) by (auto split: item.splits intro: layout_ok_more)
    ultimately show ?thesis using i(1) by (intro exI [of _ "i # is"] exI [of _ "max room (Suc l)"]) (simp add: item_formats_def)
  qed
  show ?case
  proof (cases xs)
    case Nil
    then show ?thesis by (intro exI [of _ "[]"] exI [of _ 0]) (simp add: item_formats_def)
  next
    case (Cons c ys)
    show ?thesis
    proof (cases "c = ch CHR ''%''")
      case False
      then have "item_shape E m (Piece (Lit c))" using 1(2) Cons by (simp add: item_shape_def)
      from more [OF this, of ys] show ?thesis using 1(2,3) Cons False by (simp add: lone_percent_Cons)
    next
      case True
      then obtain d zs where ys: "ys = d # zs" using 1(3) Cons by (cases ys) auto
      have z: "length zs < length xs" "0 \<notin> set zs" "\<not> lone_percent zs" "d \<noteq> 0" using 1(2,3) Cons True ys by simp_all
      show ?thesis
      proof (cases "d = ch CHR ''.''")
        case False
        obtain i where i: "item_fmt i = [ch CHR ''%'', d]" "item_shape E m i" "\<nexists>ds. i = Dots ds"
          by (rule plain_directive [OF z(4) False])
        from more [OF i(2) z(1-3)] show ?thesis using i Cons True ys by simp
      next
        case dot: True
        let ?ds = "takeWhile digit_char zs" and ?r = "dropWhile digit_char zs"
        have split: "zs = ?ds @ ?r" by simp
        have dig: "\<forall>d \<in> set ?ds. digit_char d" by (auto dest: set_takeWhileD)
        have r: "length ?r < length xs" "0 \<notin> set ?r" "\<not> lone_percent ?r"
          using z(1) length_dropWhile_le [of digit_char zs] z(2,3) lone_percent_skip [OF dig, of ?r]
          by (auto dest: set_dropWhileD)
        have d: "item_shape E m (Dots ?ds)" "item_shape E m (Fixed ?ds 0)" using dig by (simp_all add: item_shape_def)
        have eq: "xs = [ch CHR ''%'', ch CHR ''.''] @ ?ds @ ?r" using Cons True ys dot by simp
        show ?thesis
        proof (cases "\<exists>r'. ?r = ch CHR ''f'' # r'")
          case True
          then obtain r' where r': "?r = ch CHR ''f'' # r'" by blast
          have "length r' < length xs" "0 \<notin> set r'" "\<not> lone_percent r'"
            using r unfolding r' by (simp_all add: lone_percent_Cons)
          from more [OF d(2) this] show ?thesis using eq r' by simp
        next
          case False
          have "case ?r of [] \<Rightarrow> True | x # _ \<Rightarrow> \<not> digit_char x \<and> x \<noteq> ch CHR ''f''"
          proof (cases ?r)
            case Nil
            show ?thesis unfolding Nil by simp
          next
            case (Cons x r')
            then have "\<not> digit_char x" using hd_dropWhile [of digit_char zs] by (metis list.distinct(1) list.sel(1))
            moreover have "x \<noteq> ch CHR ''f''" using False Cons by blast
            ultimately show ?thesis unfolding Cons by simp
          qed
          from more [OF d(1) r this] show ?thesis using eq by simp
        qed
      qed
    qed
  qed
qed

subsection \<open>Properties\<close>

lemma item_ok_less: "item_ok E m b n i \<Longrightarrow> unat k \<le> unat n \<Longrightarrow> item_ok E m b k i"
  by (cases i) (auto intro: piece_ok_less)

lemma length_item_formats: "length is \<le> length (item_formats is)"
proof (induction "is")
  case (Cons i "is")
  moreover have "1 \<le> length (fmt_of p)" for p by (cases p) auto
  then have "1 \<le> length (item_fmt i)" by (cases i) auto
  ultimately show ?case by (simp add: item_formats_def)
qed (simp add: item_formats_def)

text \<open>
  C35: \<^verbatim>\<open>vsnprintf\<close> on a format string of any directives, the ones it does not know included:
  it returns the length of the whole text, writes as much of it as fits into \<open>n - 1\<close> bytes and then a zero
  byte. Without a buffer, or with one of size 0, it writes nothing. Besides it only changes the local buffer
  of 40 bytes that doubles are printed through, and that only when there is a double. The conditions are that a
  \<^verbatim>\<open>%c\<close> stands where there is still room in the buffer (otherwise its argument is not taken), that
  the string does not end in a lone percent sign (every other string is a list of items), and that the strings and
  the local buffer are not overwritten by the output.
\<close>

theorem vsnprintf_correct:
  assumes buf: "unat b + unat n \<le> 4294967296"
    and items: "\<forall>i \<in> set is. item_ok E m b n i"
    and room: "items_fit E (if b = 0 then 0 else unat n - 1) 0 is"
    and sc: "(\<exists>i \<in> set is. is_float i) \<longrightarrow> scratch_ok E m b n fmt is"
    and fmt: "str_at m fmt (item_formats is)" "b = 0 \<or> outside b n fmt (length (item_formats is))"
    and len: "length (item_texts E is) < 4294967296"
  shows "\<exists>m'. vsnprintf E m b n fmt (item_arguments is @ args) =
      Inr (word_of_nat (length (item_texts E is)),
           if b = 0 \<or> n = 0 then m'
           else write_bytes m' b (take (unat n - 1) (item_texts E is) @ [0])) \<and>
    (\<forall>a. 40 \<le> unat (a - float_temp E) \<longrightarrow> m' a = m a) \<and> ((\<forall>i \<in> set is. \<not> is_float i) \<longrightarrow> m' = m)"
proof -
  define limit where "limit = (if n \<noteq> 0 then n - 1 else 0)"
  have limit: "unat limit = unat n - 1" "unat limit \<le> unat n"
    unfolding limit_def by (auto simp: unat_minus_one)
  have b: "unat b + unat limit < 4294967296"
    using buf limit unat_lt_u32 [of b] by linarith
  have "length is < 2 ^ 32" using fmt(1) length_item_formats [of "is"] by (simp add: str_at_def)
  then have "vsnprintf_loop (2 ^ 32) E b limit (written m b limit []) fmt (item_arguments is @ args)
      (word_of_nat (length ([] :: u8 list))) =
    Inr (word_of_nat (length ([] @ item_texts E is)), written (fold (item_scratch E) is m) b limit ([] @ item_texts E is))"
    by (intro item_loop_ok [OF b])
      (use items room sc fmt len limit in \<open>auto simp: scratch_ok_def intro: item_ok_less outside_less\<close>)
  then have "vsnprintf_loop (2 ^ 32) E b limit m fmt (item_arguments is @ args) 0 =
    Inr (word_of_nat (length (item_texts E is)), written (fold (item_scratch E) is m) b limit (item_texts E is))" by simp
  then have "vsnprintf E m b n fmt (item_arguments is @ args) = Inr (word_of_nat (length (item_texts E is)),
      if b = 0 \<or> n = 0 then fold (item_scratch E) is m
      else write_bytes (fold (item_scratch E) is m) b (take (unat n - 1) (item_texts E is) @ [0]))"
    using written_end [OF len, of "fold (item_scratch E) is m" b limit] limit
    by (auto simp: vsnprintf_def limit_def written_def Let_def word_neq_0_conv)
  moreover have "fold (item_scratch E) js u a = u a" if "40 \<le> unat (a - float_temp E)" for js u a
    using that by (induction js arbitrary: u) (simp_all add: item_scratch_outside)
  moreover have "fold (item_scratch E) js u = u" if "\<forall>i \<in> set js. \<not> is_float i" for js u
    using that
  proof (induction js arbitrary: u)
    case (Cons i js)
    then have "item_scratch E i u = u" by (cases i) auto
    then show ?case using Cons by simp
  qed simp
  ultimately show ?thesis by blast
qed

text \<open>The processor parameters of the examples: a double is its own whole part.\<close>

definition demo_fpu :: senv where
  "demo_fpu = \<lparr>null_str = 0x80, nan_str = 0x90, float_temp = 0x1000, f_nan = (\<lambda>_. False), f_inf = (\<lambda>_. False),
     f_negative = (\<lambda>_. False), f_neg = (\<lambda>v. v), f_to_u32 = ucast, f_of_u32 = ucast, f_minus = (-),
     f_times10 = (\<lambda>v. v * 10), f_plus_half = (\<lambda>v. v)\<rparr>"

definition demo_directives :: bytes where
  "demo_directives = write_bytes (write_bytes (\<lambda>_. 0) 0x90 (map of_char ''nan'' @ [0]))
     0x100 (map of_char ''%c%.0f%q%.2!'' @ [0])"

theorem vsnprintf_correct_witness:
  "\<exists>m'. vsnprintf demo_fpu demo_directives 0x200 4 0x100 [65, 12, 0] =
     Inr (4, write_bytes m' 0x200 (map of_char ''A12'' @ [0])) \<and>
     (\<forall>a. 40 \<le> unat (a - 0x1000) \<longrightarrow> m' a = demo_directives a)"
proof -
  let ?is = "[Chr 65, Fixed [48] 12, Unknown 113, Dots [50], Piece (Lit 33)]"
  have texts: "item_texts demo_fpu ?is = map of_char ''A12!''"
    by (simp add: item_texts_def float_text_def demo_fpu_def dec_text_def digits.simps precision_of_def)
  have fmt: "item_formats ?is = map of_char ''%c%.0f%q%.2!''" by (simp add: item_formats_def)
  have args: "item_arguments ?is = [65, 12, 0]" by (simp add: item_arguments_def double_args_def)
  have nz: "\<forall>x \<in> set (map (of_char :: char \<Rightarrow> u8) ''nan''). x \<noteq> 0"
    "\<forall>x \<in> set (map (of_char :: char \<Rightarrow> u8) ''%c%.0f%q%.2!''). x \<noteq> 0" by simp_all
  have at: "str_at demo_directives 0x90 (map of_char ''nan'')" "str_at demo_directives 0x100 (map of_char ''%c%.0f%q%.2!'')"
    unfolding demo_directives_def by (intro str_at_write_other str_at_write [OF nz(1)] str_at_write [OF nz(2)]; simp)+
  have out: "outside 0x1000 40 a l" "outside 0x200 4 a l" if "unat a + l < 512" for a l
    by (rule outside_below, use that in simp_all)+
  have far: "outside 0x200 4 0x1000 39"
  proof -
    have "unat (0x1000 + word_of_nat i - 0x200 :: u32) = 0xE00 + i" if "i \<le> 39" for i
      using that by (simp add: unat_add_u32 unat_of_nat_u32)
    then show ?thesis by (simp add: outside_def)
  qed
  have ok: "\<forall>i \<in> set ?is. item_ok demo_fpu demo_directives 0x200 4 i" by (simp add: digit_char_def)
  have room: "items_fit demo_fpu (if (0x200 :: u32) = 0 then 0 else unat (4 :: u32) - 1) 0 ?is"
    by (simp add: item_formats_def digit_char_def)
  have "scratch_ok demo_fpu demo_directives 0x200 4 0x100 ?is"
    using at(1) by (simp add: scratch_ok_def fmt out far) (simp add: demo_fpu_def out far)
  from vsnprintf_correct [OF _ ok room impI [OF this], of "[]"] at(2) out(2) show ?thesis
    by (simp add: texts fmt args) (simp add: demo_fpu_def)
qed

end
