(* ===== verification/KernelBoot.thy ===== *)
theory KernelBoot
  imports Kernel TerminalLog ProcCalls BootInit FormatItems
begin

section \<open>Starting the kernel\<close>

text \<open>
  The boot sequence as a whole: what the boot code and the initialisations before the scheduler
  make of a machine whose devices answer, and that the invariant of the process table holds then.
\<close>

unbundle bit_operations_syntax

subsection \<open>The machine before\<close>

text \<open>The boot loader set a text mode; the transmitter of the serial line becomes empty again and again, also before the line is set up, and
  in its loopback mode the line sends back what was written to it.\<close>

definition devices_ok :: "image \<Rightarrow> machine \<Rightarrow> bool" where
  "devices_ok I M \<longleftrightarrow> mb_flags (im_mb I) AND MB_FLAG_FRAMEBUFFER \<noteq> 0 \<and> framebuffer_addr_hi (im_mb I) = 0 \<and>
     0 < unat (framebuffer_width (im_mb I)) \<and> 0 < unat (framebuffer_height (im_mb I)) \<and>
     unat (framebuffer_width (im_mb I)) * unat (framebuffer_height (im_mb I)) < 4294967296 \<and>
     length (im_frame_buffer I (framebuffer_addr_lo (im_mb I))) = unat (framebuffer_width (im_mb I)) * unat (framebuffer_height (im_mb I)) \<and>
     line_live (device (ports M)) \<and>
     (\<forall>os n. device (ports M) (os @ [(PORT_COM1 + 4, 0x1E), (PORT_COM1 + 0, 0xAE)]) n (PORT_COM1 + 0) = 0xAE)"

text \<open>A byte of the image, outside of the tables that the boot code writes.\<close>

definition in_image :: "layout \<Rightarrow> u32 \<Rightarrow> u32 \<Rightarrow> u32 \<Rightarrow> bool" where
  "in_image l dir table w \<longleftrightarrow> 0xC0100000 \<le> w \<and> w < kernel_end_vaddr l \<and> get_paddr (w - 0xC0000000) \<notin> {dir, table}"

text \<open>The messages, and where their literals are: in the static data, outside of the buffer of \<open>printk\<close>.\<close>

definition boot_formats :: "string list" where
  "boot_formats = map (\<lambda>x. x @ [CHR 10]) [''Kernel Size: %u KB'', ''Initializing GDT...'', ''Initializing IDT...'',
     ''Initializing TSS...'', ''Initializing FPU...'', ''Initializing memory...'', ''Initializing timer'',
     ''Initializing keyboard'', ''Initializing serial io...'', ''Initializing the sun...'']"

definition console_ok :: "image \<Rightarrow> bytes \<Rightarrow> bool" where
  "console_ok I m \<longleftrightarrow> im_temp_buffer I \<noteq> 0 \<and> unat (im_temp_buffer I) + 8192 \<le> 4294967296 \<and>
     literals_ok m (im_temp_buffer I) (im_log_literals I) DEBUG \<and>
     (\<forall>x \<in> set boot_formats. str_at m (im_literal I x) (map of_char x) \<and>
        outside (im_temp_buffer I) TEMP_BUFFER_LENGTH (im_literal I x) (length x))"

text \<open>The image as it was loaded: static variables are zero, all messages are enabled, the literals are in place,
  the functions have addresses, and the embedded file starts with its magic number.\<close>

definition loaded :: "image \<Rightarrow> u32 \<Rightarrow> u32 \<Rightarrow> machine \<Rightarrow> bool" where
  "loaded I dir table M \<longleftrightarrow> syscall_table M = replicate 101 0 \<and> (\<forall>e. im_syscalls I e \<noteq> 0) \<and> length (irq_routines M) = 16 \<and>
     loglevel M = DEBUG \<and> console_ok I (statics M) \<and> free_frame_paddr (km (kst M)) = 0 \<and> user_physical_map (km (kst M)) = [] \<and>
     in_image (im_layout I) dir table (nil (process_tree (kst M)) - 8) \<and>
     (\<forall>k < 3. in_image (im_layout I) dir table (im_sun_file I + word_of_nat k) \<and> in_image (im_layout I) dir table (im_MAGIC I + word_of_nat k) \<and>
        pmem (km (kst M)) (im_sun_file I + word_of_nat k - 0xC0000000) = pmem (km (kst M)) (im_MAGIC I + word_of_nat k - 0xC0000000))"

subsection \<open>The components\<close>

lemma serial_init_ok:
  assumes "\<forall>os n. device s (os @ [(PORT_COM1 + 4, 0x1E), (PORT_COM1 + 0, 0xAE)]) n (PORT_COM1 + 0) = 0xAE"
  shows "\<exists>s'. serial_init s = Inr s' \<and> device s' = device s \<and> serial_data s' = serial_data s @ [3, 0xAE]"
  using assms [THEN spec, THEN spec, of "outs s @ [(PORT_COM1 + 1, 0), (PORT_COM1 + 3, 128), (PORT_COM1, 3), (PORT_COM1 + 1, 0),
      (PORT_COM1 + 3, 3), (PORT_COM1 + 2, 199), (PORT_COM1 + 4, 11)]" "reads s"]
  by (simp add: serial_init_def inb_def outb_def serial_data_def)

lemma in_image_bounds:
  assumes lo: "layout_ok l" and w: "in_image l dir table w"
  shows "0x100000 \<le> w - 0xC0000000" "w - 0xC0000000 < kernel_end_paddr l"
proof -
  have e: "unat (kernel_end_vaddr l) = 0xC0000000 + unat (kernel_end_paddr l)"
    using lo by (simp add: layout_ok_def unat_add_u32 word_le_nat_alt)
  have u: "0xC0100000 \<le> unat w" "unat w < unat (kernel_end_vaddr l)" using w by (simp_all add: in_image_def word_le_nat_alt word_less_nat_alt)
  then have "unat (w - 0xC0000000) = unat w - 0xC0000000" by (simp add: unat_sub word_le_nat_alt)
  then show "0x100000 \<le> w - 0xC0000000" "w - 0xC0000000 < kernel_end_paddr l"
    using u e by (simp_all add: word_le_nat_alt word_less_nat_alt)
qed

lemma sun_init_ok:
  assumes lo: "layout_ok l" and b: "booted l mb dir table s t gs"
    and m: "\<forall>k < 3. in_image l dir table (f + word_of_nat k) \<and> in_image l dir table (g + word_of_nat k) \<and>
      pmem s (f + word_of_nat k - 0xC0000000) = pmem s (g + word_of_nat k - 0xC0000000)"
  shows "sun_init t f g = Inr ()"
proof -
  have tr: "translate t w = Inr (w - 0xC0000000)" "pmem t (w - 0xC0000000) = pmem s (w - 0xC0000000)" if w: "in_image l dir table w" for w
    using b in_image_bounds [OF lo w] w by (simp_all add: booted_def in_image_def Let_def)
  have "range_at t f 3 (\<lambda>k. f + word_of_nat k - 0xC0000000)" "range_at t g 3 (\<lambda>k. g + word_of_nat k - 0xC0000000)"
    using m tr(1) by (simp_all add: range_at_def)
  from pmemeql_loop_ok [OF this] have "pmemeql_loop 3 t f g = Inr True" using m tr(2) by simp
  moreover have "unat MAGIC_LEN = 3" by (simp add: MAGIC_LEN_def)
  ultimately show ?thesis by (simp add: sun_init_def pmemeql_def)
qed

text \<open>No page of the kernel heap is that of a byte of the image, or the first one.\<close>

lemma booted_heap_pages:
  assumes lo: "layout_ok l" and b: "booted l mb dir table s t gs" and k: "k < unat (page_count (kernel_heap t))"
  shows "0xC0000 + window_index l < unat (page_addr (kernel_heap t) k) div 4096"
proof -
  define K where "K = 0x3F7FF - window_index l"
  note i = image_pages_bounds [OF lo]
  have h: "heap_start (kernel_heap t) = page_no (at_index 0x300 (window_index l)) (1 + map_pages_of K)" "page_count (kernel_heap t) = word_of_nat K"
    using b by (simp_all add: booted_def Let_def K_def)
  have K: "0 < K" "K \<le> 2 ^ 18" "K + window_index l = 0x3F7FF" using i(2) by (simp_all add: K_def)
  have m: "map_pages_of K \<le> 16" by (rule map_pages_bounds [OF K(1,2)])
  have k': "k < K" using k K(2) unfolding h(2) by (subst (asm) unat_of_nat_u32) simp_all
  have "unat (at_index 0x300 (window_index l)) = 0xC0000000 + 4096 * window_index l"
    using at_index_unat [of "0x300" "window_index l"] i(2) by simp
  then have "unat (page_addr (kernel_heap t) k) = 4096 * (0xC0000 + window_index l + 1 + map_pages_of K + k)"
    unfolding page_addr_page_no h(1) page_no_add page_no_unat using K(3) m k' by simp
  then show ?thesis by simp
qed

lemma booted_proc_inv:
  assumes lo: "layout_ok l" and b: "booted l mb dir table s t gs" and n4: "image_pages l mod 4 \<noteq> 3"
    and st: "km st = t" "free_list (process_pool st) = 0" "rbtree (rbnodes st) (process_tree st) Lf"
      "in_image l dir table (nil (process_tree st) - 8)"
  shows "proc_inv st gs {} Map.empty []"
proof -
  note i = image_pages_bounds [OF lo]
  let ?w = "nil (process_tree st) - 8"
  have bt: "kernel_mem t gs" "current_page_dir t = cr3 t" using b n4 by (simp_all add: booted_def Let_def)
  have "unat ?w < 0xC0000000 + unat (kernel_end_paddr l)"
  proof -
    have "unat (kernel_end_vaddr l) = 0xC0000000 + unat (kernel_end_paddr l)"
      using lo by (simp add: layout_ok_def unat_add_u32 word_le_nat_alt)
    then show ?thesis using st(4) by (simp add: in_image_def word_less_nat_alt)
  qed
  then have "unat ?w < (0xC0000 + window_index l) * 4096" using i(4) by simp
  then have w: "unat ?w div 4096 < 0xC0000 + window_index l" by (subst div_less_iff_less_mult) simp_all
  have "drop_bit 12 (page_addr (kernel_heap t) k) \<noteq> 0 \<and> drop_bit 12 ?w \<noteq> drop_bit 12 (page_addr (kernel_heap t) k)"
    if "k < unat (page_count (kernel_heap t))" for k
  proof -
    have p: "0xC0000 + window_index l < unat (page_addr (kernel_heap t) k) div 4096" by (rule booted_heap_pages [OF lo b that])
    then have "drop_bit 12 (page_addr (kernel_heap t) k) \<noteq> drop_bit 12 (0 :: u32)" unfolding drop_bit_12_eq by simp
    moreover have "drop_bit 12 ?w \<noteq> drop_bit 12 (page_addr (kernel_heap t) k)" using p w unfolding drop_bit_12_eq by simp
    ultimately show ?thesis by simp
  qed
  then show ?thesis
    using bt st by (auto simp: proc_inv_def pool_inv_def entries_def nodes_def intro!: exI [of _ Lf])
qed

subsection \<open>The messages\<close>

definition boot_message :: "string \<Rightarrow> u8 list" where
  "boot_message x = level_prefix DEBUG @ map of_char (x @ [CHR 10])"

definition size_message :: "layout \<Rightarrow> u8 list" where
  "size_message l = level_prefix DEBUG @ map of_char ''Kernel Size: '' @
     dec_text ((kernel_end_paddr l - kernel_start_paddr l) div 1024) @ map of_char ('' KB'' @ [CHR 10])"

text \<open>What is printed before the serial line is set up, and after it.\<close>

definition boot_text :: "layout \<Rightarrow> u8 list" where
  "boot_text l = size_message l @ concat (map boot_message [''Initializing GDT...'', ''Initializing IDT...'', ''Initializing TSS...'',
     ''Initializing FPU...'', ''Initializing memory...'', ''Initializing timer'', ''Initializing keyboard'', ''Initializing serial io...''])"

definition sun_message :: "u8 list" where
  "sun_message = boot_message ''Initializing the sun...''"

text \<open>The console after the text \<open>out\<close> was printed on an empty screen and the bytes \<open>ser\<close> were sent; \<open>t\<close> is the terminal
  at the start.\<close>

definition printed :: "image \<Rightarrow> Terminal \<Rightarrow> u8 list \<Rightarrow> u8 list \<Rightarrow> machine \<Rightarrow> bool" where
  "printed I t out ser M \<longleftrightarrow> console_ok I (statics M) \<and> loglevel M = DEBUG \<and> line_live (device (ports M)) \<and>
     same_screen t (screen M) \<and> displays (screen M) (log_print (unat (width t)) (Terminal.color t) out ([], [])) \<and>
     serial_data (ports M) = ser"

lemma printed_fields [simp]:
  "printed I t out ser (M\<lparr>gdt := x1\<rparr>) = printed I t out ser M" "printed I t out ser (M\<lparr>idt := x1\<rparr>) = printed I t out ser M"
  "printed I t out ser (M\<lparr>initial_tss := x2\<rparr>) = printed I t out ser M" "printed I t out ser (M\<lparr>kst := x3\<rparr>) = printed I t out ser M"
  "printed I t out ser (M\<lparr>syscall_table := x4\<rparr>) = printed I t out ser M" "printed I t out ser (M\<lparr>tmr := x5\<rparr>) = printed I t out ser M"
  "printed I t out ser (M\<lparr>keyboard := x6\<rparr>) = printed I t out ser M" "printed I t out ser (M\<lparr>irq_routines := x4\<rparr>) = printed I t out ser M"
  by (simp_all add: printed_def)

lemma printed_quiet: "printed I t out ser M \<Longrightarrow> quiet (ports M) s \<Longrightarrow> printed I t out ser (M\<lparr>ports := s\<rparr>)"
  by (simp add: printed_def quiet_def)

text \<open>All but the console is as it was.\<close>

definition same_rest :: "machine \<Rightarrow> machine \<Rightarrow> bool" where
  "same_rest M N \<longleftrightarrow> gdt N = gdt M \<and> idt N = idt M \<and> initial_tss N = initial_tss M \<and> irq_routines N = irq_routines M \<and>
     syscall_table N = syscall_table M \<and> tmr N = tmr M \<and> keyboard N = keyboard M \<and> kst N = kst M \<and>
     device (ports N) = device (ports M)"

lemma console_ok_kept:
  assumes "console_ok I m" "\<forall>a. 8192 \<le> unat (a - im_temp_buffer I) \<longrightarrow> m' a = m a"
  shows "console_ok I m'"
proof -
  have "str_at m' s xs" if "str_at m s xs" "outside (im_temp_buffer I) TEMP_BUFFER_LENGTH s (length xs)" for s xs
    using that assms(2) by (auto simp: str_at_def outside_def TEMP_BUFFER_LENGTH_def)
  moreover have "length (map of_char xs :: u8 list) = length xs" for xs by simp
  ultimately have k: "str_at m' s (map of_char xs)" if "str_at m s (map of_char xs)"
    "outside (im_temp_buffer I) TEMP_BUFFER_LENGTH s (length xs)" for s xs using that by metis
  have lit: "literals_ok m (im_temp_buffer I) (im_log_literals I) DEBUG" and
    fm: "\<forall>x \<in> set boot_formats. str_at m (im_literal I x) (map of_char x) \<and> outside (im_temp_buffer I) TEMP_BUFFER_LENGTH (im_literal I x) (length x)"
    using assms(1) by (simp_all add: console_ok_def)
  have "literals_ok m' (im_temp_buffer I) (im_log_literals I) DEBUG"
    using lit k [of "level_str (im_log_literals I) DEBUG" "LEVELS DEBUG"] k [of "prefix_fmt (im_log_literals I)" "''<%s>: ''"]
    unfolding literals_ok_def by blast
  moreover have "\<forall>x \<in> set boot_formats. str_at m' (im_literal I x) (map of_char x) \<and> outside (im_temp_buffer I) TEMP_BUFFER_LENGTH (im_literal I x) (length x)"
    using fm k by blast
  ultimately show ?thesis using assms(1) by (simp add: console_ok_def)
qed

lemma debug_print_ok:
  assumes M: "printed I t out ser M" and x: "x @ [CHR 10] \<in> set boot_formats"
    and ps: "\<forall>p \<in> set ps. \<forall>m b n. piece_ok (im_senv I) m b n p" "formats ps = map of_char (x @ [CHR 10])"
    and short: "length (texts ps) \<le> 100" "9 \<notin> set (texts ps)"
  obtains N where "debug_print I x (arguments ps) M = Inr N" "same_rest M N"
    "printed I t (out @ level_prefix DEBUG @ texts ps) (ser @ level_prefix DEBUG @ texts ps) N"
proof -
  let ?b = "im_temp_buffer I" and ?txt = "level_prefix DEBUG @ texts ps" and ?s = "screen M"
  have c: "console_ok I (statics M)" "loglevel M = DEBUG" "line_live (device (ports M))" "same_screen t ?s"
    "displays ?s (log_print (unat (width t)) (Terminal.color t) out ([], []))" "serial_data (ports M) = ser"
    using M by (simp_all add: printed_def)
  have b: "?b \<noteq> 0" "unat ?b + 8192 \<le> 4294967296" "literals_ok (statics M) ?b (im_log_literals I) DEBUG"
    using c(1) by (simp_all add: console_ok_def)
  have f: "str_at (statics M) (im_literal I (x @ [CHR 10])) (formats ps)"
    "outside ?b TEMP_BUFFER_LENGTH (im_literal I (x @ [CHR 10])) (length (formats ps))"
    using c(1) x unfolding console_ok_def ps(2) length_map by blast+
  have ok: "\<forall>p \<in> set ps. piece_ok (im_senv I) (statics M) ?b TEMP_BUFFER_LENGTH p" using ps(1) by blast
  have len: "length (texts ps) < 4294967296" using short(1) by simp
  have "take 8191 ?txt = ?txt" using short(1) level_prefix_length(1) [of DEBUG] by simp
  then obtain m' t' s' where r: "printk (im_senv I) (im_log_literals I) ?b DEBUG DEBUG (im_literal I (x @ [CHR 10])) (arguments ps)
      (statics M, ?s, ports M) = Inr (m', t', s')" "same_screen ?s t'" "device s' = device (ports M)" "serial_data s' = ser @ ?txt"
    "displays t' (log_print (unat (width ?s)) (Terminal.color ?s) ?txt (log_print (unat (width t)) (Terminal.color t) out ([], [])))"
    "\<forall>a. 8192 \<le> unat (a - ?b) \<longrightarrow> m' a = statics M a"
    using printk_prints [OF c(5,3) b ok f len short(2) order_refl] c(6) by auto
  let ?N = "M\<lparr>statics := m', screen := t', ports := s'\<rparr>"
  have d: "debug_print I x (arguments ps) M = Inr ?N" using r(1) c(2) by (simp add: debug_print_def)
  have w: "width ?s = width t" "Terminal.color ?s = Terminal.color t" using c(4) by (simp_all add: same_screen_def)
  have "printed I t (out @ ?txt) (ser @ ?txt) ?N"
    using r(2-5) c(2-4) console_ok_kept [OF c(1) r(6)] w by (simp add: printed_def same_screen_def log_print_def)
  then show ?thesis using d r(3) by (intro that [of ?N]) (simp_all add: same_rest_def)
qed

lemma literal_pieces:
  "formats (map Lit xs) = xs" "texts (map Lit xs) = xs" "arguments (map Lit xs) = []"
  by (induction xs) (simp_all add: formats_def texts_def arguments_def)

lemma plain_print:
  assumes M: "printed I t out ser M" and x: "x @ [CHR 10] \<in> set boot_formats"
    and c: "length x \<le> 99" "0 \<notin> set (map of_char x :: u8 list)" "9 \<notin> set (map of_char x :: u8 list)" "37 \<notin> set (map of_char x :: u8 list)"
  obtains N where "debug_print I x [] M = Inr N" "same_rest M N" "printed I t (out @ boot_message x) (ser @ boot_message x) N"
proof -
  let ?x = "map of_char (x @ [CHR 10]) :: u8 list"
  have "\<forall>y \<in> set ?x. y \<noteq> 0 \<and> y \<noteq> ch CHR ''%''" using c(2,4) by auto
  then have ok: "\<forall>p \<in> set (map Lit ?x). \<forall>m b n. piece_ok (im_senv I) m b n p" by auto
  have l: "length (texts (map Lit ?x)) \<le> 100" "9 \<notin> set (texts (map Lit ?x))" unfolding literal_pieces using c(1,3) by auto
  from debug_print_ok [OF M x ok literal_pieces(1) l] that show thesis
    unfolding literal_pieces boot_message_def by blast
qed

lemma size_print:
  assumes M: "printed I t out ser M"
  obtains N where "debug_print I ''Kernel Size: %u KB'' [(kernel_end_paddr (im_layout I) - kernel_start_paddr (im_layout I)) div 1024] M = Inr N"
    "same_rest M N" "printed I t (out @ size_message (im_layout I)) (ser @ size_message (im_layout I)) N"
proof -
  let ?v = "(kernel_end_paddr (im_layout I) - kernel_start_paddr (im_layout I)) div 1024"
  let ?ps = "map Lit (map of_char ''Kernel Size: '') @ [Unsigned ?v] @ map Lit (map of_char ('' KB'' @ [CHR 10]))"
  have x: "''Kernel Size: %u KB'' @ [CHR 10] \<in> set boot_formats" by (simp add: boot_formats_def)
  have app: "formats (as @ bs) = formats as @ formats bs" "texts (as @ bs) = texts as @ texts bs"
    "arguments (as @ bs) = arguments as @ arguments bs" for as bs
    by (simp_all add: formats_def texts_def arguments_def)
  have one: "formats [Unsigned ?v] = [37, 117]" "texts [Unsigned ?v] = dec_text ?v" "arguments [Unsigned ?v] = [?v]"
    by (simp_all add: formats_def texts_def arguments_def)
  note eqs = app one literal_pieces
  have ok: "\<forall>p \<in> set ?ps. \<forall>m b n. piece_ok (im_senv I) m b n p" by simp
  have f: "formats ?ps = map of_char (''Kernel Size: %u KB'' @ [CHR 10])" unfolding eqs by simp
  have a: "arguments ?ps = [?v]" unfolding eqs by simp
  have t: "texts ?ps = map of_char ''Kernel Size: '' @ dec_text ?v @ map of_char ('' KB'' @ [CHR 10])" unfolding eqs by simp
  have d: "9 \<notin> set (dec_text ?v)"
  proof
    assume "9 \<in> set (dec_text ?v)"
    then obtain k where "k \<in> set (digits 10 (unat ?v))" "(9 :: u8) = word_of_nat k + ch CHR ''0''"
      unfolding dec_text_def set_map by blast
    then have k: "k < 10" "(9 :: u8) = word_of_nat k + 48" using digits_less [of 10 k "unat ?v"] by simp_all
    have "unat (word_of_nat k + 48 :: u8) = k + 48" using k(1) by (simp add: unat_word_ariths unat_of_nat)
    then show False using arg_cong [OF k(2), of unat] by simp
  qed
  have l: "length (texts ?ps) \<le> 100" "9 \<notin> set (texts ?ps)" unfolding t using text_lengths(3) [of ?v] d by simp_all
  from debug_print_ok [OF M x ok f l] that show thesis unfolding a t size_message_def by blast
qed

subsection \<open>The sequence\<close>

lemma serial_data_outb: "serial_data (outb p x s) = serial_data s @ (if p = PORT_COM1 then [x] else [])"
  by (simp add: serial_data_def outb_def)

lemma quiet_outb: "p \<noteq> PORT_COM1 \<Longrightarrow> quiet s u \<Longrightarrow> quiet s (outb p x u)"
  by (simp add: quiet_def serial_data_outb) (simp add: outb_def)

lemma quiet_inb: "quiet s u \<Longrightarrow> quiet s (snd (inb p u))"
  by (simp add: quiet_def inb_def serial_data_def)

lemma other_ports:
  "PIC1_COMMAND \<noteq> PORT_COM1" "PIC2_COMMAND \<noteq> PORT_COM1" "PIC1_DATA \<noteq> PORT_COM1" "PIC2_DATA \<noteq> PORT_COM1"
  "(0x43 :: u16) \<noteq> PORT_COM1" "(0x40 :: u16) \<noteq> PORT_COM1"
  by (simp_all add: PIC1_COMMAND_def PIC2_COMMAND_def PIC1_DATA_def PIC2_DATA_def PORT_COM1_def)

lemma quiet_steps:
  "quiet s (pic_mask i e s)" "quiet s (snd (init_idt f w s))" "quiet s (snd (init_timer n s))"
  by (auto simp: pic_mask_def init_idt_def init_pic_def init_timer_def Let_def split_def
      intro!: quiet_outb quiet_inb other_ports)

text \<open>The machine when the boot code is done.\<close>

abbreviation after_boot :: "machine \<Rightarrow> kmem \<Rightarrow> machine" where
  "after_boot M u \<equiv> M\<lparr>kst := (kst M)\<lparr>km := u\<rparr>\<rparr>"

lemma boot_format_intro: "x \<in> set [''Initializing GDT...'', ''Initializing IDT...'', ''Initializing TSS...'', ''Initializing FPU...'',
    ''Initializing memory...'', ''Initializing timer'', ''Initializing keyboard'', ''Initializing serial io...'', ''Initializing the sun...''] \<Longrightarrow>
  x @ [CHR 10] \<in> set boot_formats \<and> length x \<le> 99 \<and> 0 \<notin> set (map of_char x :: u8 list) \<and>
    9 \<notin> set (map of_char x :: u8 list) \<and> 37 \<notin> set (map of_char x :: u8 list)"
  unfolding boot_formats_def by auto

lemma boot_print:
  assumes M: "printed I t out ser M"
    and x: "x \<in> set [''Initializing GDT...'', ''Initializing IDT...'', ''Initializing TSS...'', ''Initializing FPU...'', ''Initializing memory...'',
      ''Initializing timer'', ''Initializing keyboard'', ''Initializing serial io...'', ''Initializing the sun...'']"
  obtains N where "debug_print I x [] M = Inr N" "same_rest M N" "printed I t (out @ boot_message x) (ser @ boot_message x) N"
  using plain_print [OF M, of x] boot_format_intro [OF x] by blast

text \<open>The messages and descriptor tables before the memory manager.\<close>

lemma early_boot:
  assumes p0: "printed I scr [] pre M0"
  defines "o6 \<equiv> size_message (im_layout I) @ concat (map boot_message [''Initializing GDT...'', ''Initializing IDT...'',
     ''Initializing TSS...'', ''Initializing FPU...'', ''Initializing memory...''])"
  obtains A where "\<forall>k. bind_res (debug_print I ''Kernel Size: %u KB''
       [(kernel_end_paddr (im_layout I) - kernel_start_paddr (im_layout I)) div 1024] M0) (\<lambda>M.
     bind_res (debug_print I ''Initializing GDT...'' [] M) (\<lambda>M.
     let M = M\<lparr>gdt := init_gdt (im_tss I)\<rparr>
     in bind_res (debug_print I ''Initializing IDT...'' [] M) (\<lambda>M.
     let (table, s) = init_idt (im_interrupt_table I) (im_syscall_wrapper I) (ports M);
         M = M\<lparr>idt := table, ports := s\<rparr>
     in bind_res (debug_print I ''Initializing TSS...'' [] M) (\<lambda>M.
     let M = M\<lparr>initial_tss := init_tss (im_kernel_stack I)\<rparr>
     in bind_res (debug_print I ''Initializing FPU...'' [] M) (\<lambda>M.
     bind_res (debug_print I ''Initializing memory...'' [] M) k))))) = k A"
    "printed I scr o6 (pre @ o6) A" "syscall_table A = syscall_table M0" "kst A = kst M0" "irq_routines A = irq_routines M0"
    "device (ports A) = device (ports M0)"
proof -
  let ?l = "im_layout I" and ?pre = pre and ?msg = boot_message
  let ?o1 = "size_message ?l" let ?o2 = "?o1 @ ?msg ''Initializing GDT...''" let ?o3 = "?o2 @ ?msg ''Initializing IDT...''"
  let ?o4 = "?o3 @ ?msg ''Initializing TSS...''" let ?o5 = "?o4 @ ?msg ''Initializing FPU...''" let ?o6 = "?o5 @ ?msg ''Initializing memory...''"
  obtain A1 where A1: "debug_print I ''Kernel Size: %u KB'' [(kernel_end_paddr ?l - kernel_start_paddr ?l) div 1024] M0 = Inr A1" "same_rest M0 A1"
    and p1: "printed I scr ?o1 (?pre @ ?o1) A1" by (rule size_print [OF p0], rule that, assumption, assumption, simp)
  obtain A2 where A2: "debug_print I ''Initializing GDT...'' [] A1 = Inr A2" "same_rest A1 A2"
    and p2: "printed I scr ?o2 (?pre @ ?o2) A2"
    by (rule boot_print [OF p1, of "''Initializing GDT...''"], simp, rule that, assumption, assumption, simp)
  define B2 where "B2 = A2\<lparr>gdt := init_gdt (im_tss I)\<rparr>"
  have q2: "printed I scr ?o2 (?pre @ ?o2) B2" using p2 by (simp add: B2_def)
  obtain A3 where A3: "debug_print I ''Initializing IDT...'' [] B2 = Inr A3" "same_rest B2 A3"
    and p3: "printed I scr ?o3 (?pre @ ?o3) A3"
    by (rule boot_print [OF q2, of "''Initializing IDT...''"], simp, rule that, assumption, assumption, simp)
  obtain tab s3 where i3: "init_idt (im_interrupt_table I) (im_syscall_wrapper I) (ports A3) = (tab, s3)" by fastforce
  define B3 where "B3 = A3\<lparr>idt := tab, ports := s3\<rparr>"
  have z3: "quiet (ports A3) s3" using quiet_steps(2) [of "ports A3" "im_interrupt_table I" "im_syscall_wrapper I"] i3 by simp
  have q3: "printed I scr ?o3 (?pre @ ?o3) B3"
    using printed_quiet [of I scr ?o3 "?pre @ ?o3" "A3\<lparr>idt := tab\<rparr>" s3] p3 z3 by (simp add: B3_def)
  obtain A4 where A4: "debug_print I ''Initializing TSS...'' [] B3 = Inr A4" "same_rest B3 A4"
    and p4: "printed I scr ?o4 (?pre @ ?o4) A4"
    by (rule boot_print [OF q3, of "''Initializing TSS...''"], simp, rule that, assumption, assumption, simp)
  define B4 where "B4 = A4\<lparr>initial_tss := init_tss (im_kernel_stack I)\<rparr>"
  have q4: "printed I scr ?o4 (?pre @ ?o4) B4" using p4 by (simp add: B4_def)
  obtain A5 where A5: "debug_print I ''Initializing FPU...'' [] B4 = Inr A5" "same_rest B4 A5"
    and p5: "printed I scr ?o5 (?pre @ ?o5) A5"
    by (rule boot_print [OF q4, of "''Initializing FPU...''"], simp, rule that, assumption, assumption, simp)
  obtain A6 where A6: "debug_print I ''Initializing memory...'' [] A5 = Inr A6" "same_rest A5 A6"
    and p6: "printed I scr ?o6 (?pre @ ?o6) A6"
    by (rule boot_print [OF p5, of "''Initializing memory...''"], simp, rule that, assumption, assumption, simp)
  have o6: "?o6 = o6" by (simp add: o6_def)
  show thesis
  proof (rule that [OF _ p6 [unfolded o6]])
  qed (use A1 A2 A3 A4 A5 A6 i3 z3 in \<open>simp_all add: same_rest_def B2_def B3_def B4_def quiet_def Let_def\<close>)
qed

text \<open>Timer, keyboard and serial line, when the memory manager is there.\<close>

lemma late_boot:
  assumes q6: "printed I scr out ser B" and len: "1 < length (irq_routines B)"
    and tb: "timer_syscalls (im_syscalls I) (syscall_table B) = Inr t3"
    and loop: "\<forall>os n. device (ports B) (os @ [(PORT_COM1 + 4, 0x1E), (PORT_COM1 + 0, 0xAE)]) n (PORT_COM1 + 0) = 0xAE"
  defines "msg \<equiv> concat (map boot_message [''Initializing timer'', ''Initializing keyboard'', ''Initializing serial io...''])"
  obtains A where "\<forall>k. bind_res (debug_print I ''Initializing timer'' [] B) (\<lambda>M.
     bind_res (boot_timer I M) (\<lambda>M.
     bind_res (debug_print I ''Initializing keyboard'' [] M) (\<lambda>M.
     bind_res (boot_keyboard I M) (\<lambda>M.
     bind_res (debug_print I ''Initializing serial io...'' [] M) (\<lambda>M.
     bind_res (serial_init (ports M)) (\<lambda>s.
     bind_res (debug_print I ''Initializing the sun...'' [] (M\<lparr>ports := s\<rparr>)) k)))))) = k A"
    "printed I scr (out @ msg @ sun_message) (ser @ msg @ [3, 0xAE] @ sun_message) A" "syscall_table A = t3" "kst A = kst B"
    "irq_routines A = (irq_routines B)[0 := im_timer_handler I, 1 := im_keyboard_handler I]"
proof -
  let ?irqs = "irq_routines B" and ?pre = ser and ?msg = boot_message
  have lens: "0 < length ?irqs" "1 < length ?irqs" "Suc 0 < length ?irqs" "?irqs \<noteq> []" using len by auto
  let ?o7 = "?msg ''Initializing timer''" let ?o8 = "?o7 @ ?msg ''Initializing keyboard''"
  let ?o9 = "?o8 @ ?msg ''Initializing serial io...''"
  obtain A7 where A7: "debug_print I ''Initializing timer'' [] B = Inr A7" "same_rest B A7"
    and p7: "printed I scr (out @ ?o7) (?pre @ ?o7) A7"
    by (rule boot_print [OF q6, of "''Initializing timer''"], simp, rule that, assumption, assumption, simp)
  have r7: "syscall_table A7 = syscall_table B" "kst A7 = kst B" "irq_routines A7 = ?irqs" "device (ports A7) = device (ports B)"
    using A7(2) by (simp_all add: same_rest_def)
  let ?s7 = "pic_mask (ucast (0 :: u32)) False (ports A7)"
  obtain tm s8 where i7: "init_timer (im_timer_no_op I) ?s7 = (tm, s8)" by fastforce
  have z7: "quiet (ports A7) s8"
    using quiet_trans [OF quiet_steps(1) quiet_steps(3) [of ?s7 "im_timer_no_op I"]] i7 by simp
  define B7 where "B7 = A7\<lparr>tmr := tm, irq_routines := ?irqs[0 := im_timer_handler I], ports := s8, syscall_table := t3\<rparr>"
  have b7: "boot_timer I A7 = Inr B7"
    using tb lens i7 by (simp add: boot_timer_def irq_install_handler_def r7 B7_def)
  have q7: "printed I scr (out @ ?o7) (?pre @ ?o7) B7"
    using printed_quiet [of I scr "out @ ?o7" "?pre @ ?o7" "A7\<lparr>tmr := tm, irq_routines := ?irqs[0 := im_timer_handler I]\<rparr>" s8] p7 z7
    by (simp add: B7_def)
  obtain A8 where A8: "debug_print I ''Initializing keyboard'' [] B7 = Inr A8" "same_rest B7 A8"
    and p8: "printed I scr (out @ ?o8) (?pre @ ?o8) A8"
    by (rule boot_print [OF q7, of "''Initializing keyboard''"], simp, rule that, assumption, assumption, simp)
  have r8: "syscall_table A8 = t3" "kst A8 = kst B" "irq_routines A8 = ?irqs[0 := im_timer_handler I]"
    "device (ports A8) = device (ports B)"
    using A8(2) r7 z7 by (simp_all add: same_rest_def B7_def quiet_def)
  define s9 where "s9 = pic_mask (ucast (1 :: u32)) False (ports A8)"
  define B8 where "B8 = A8\<lparr>keyboard := init_keyboard, irq_routines := ?irqs[0 := im_timer_handler I, 1 := im_keyboard_handler I], ports := s9\<rparr>"
  have z8: "quiet (ports A8) s9" unfolding s9_def by (rule quiet_steps(1))
  have b8: "boot_keyboard I A8 = Inr B8"
    using lens by (simp add: boot_keyboard_def irq_install_handler_def r8 B8_def s9_def)
  have q8: "printed I scr (out @ ?o8) (?pre @ ?o8) B8"
    using printed_quiet [of I scr "out @ ?o8" "?pre @ ?o8" "A8\<lparr>keyboard := init_keyboard, irq_routines := ?irqs[0 := im_timer_handler I, 1 := im_keyboard_handler I]\<rparr>" s9]
      p8 z8 by (simp add: B8_def)
  obtain A9 where A9: "debug_print I ''Initializing serial io...'' [] B8 = Inr A9" "same_rest B8 A9"
    and p9: "printed I scr (out @ ?o9) (?pre @ ?o9) A9"
    by (rule boot_print [OF q8, of "''Initializing serial io...''"], simp, rule that, assumption, assumption, simp)
  have d9: "device (ports A9) = device (ports B)" using A9(2) r8(4) z8 by (simp add: same_rest_def B8_def quiet_def)
  obtain s10 where s10: "serial_init (ports A9) = Inr s10" "device s10 = device (ports A9)" "serial_data s10 = serial_data (ports A9) @ [3, 0xAE]"
    using serial_init_ok [of "ports A9"] loop unfolding d9 by blast
  define B9 where "B9 = A9\<lparr>ports := s10\<rparr>"
  have q9: "printed I scr (out @ ?o9) ((?pre @ ?o9) @ [3, 0xAE]) B9" using p9 s10(2,3) by (simp add: printed_def B9_def)
  obtain A10 where A10: "debug_print I ''Initializing the sun...'' [] B9 = Inr A10" "same_rest B9 A10"
    and p10: "printed I scr (out @ ?o9 @ sun_message) (((?pre @ ?o9) @ [3, 0xAE]) @ sun_message) A10"
    by (rule boot_print [OF q9, of "''Initializing the sun...''"], simp, rule that, assumption, assumption, simp add: sun_message_def)
  show thesis
  proof (rule that)
    show "printed I scr (out @ msg @ sun_message) (ser @ msg @ [3, 0xAE] @ sun_message) A10" using p10 by (simp add: msg_def)
    show "\<forall>k. bind_res (debug_print I ''Initializing timer'' [] B) (\<lambda>M. bind_res (boot_timer I M) (\<lambda>M.
     bind_res (debug_print I ''Initializing keyboard'' [] M) (\<lambda>M. bind_res (boot_keyboard I M) (\<lambda>M.
     bind_res (debug_print I ''Initializing serial io...'' [] M) (\<lambda>M. bind_res (serial_init (ports M)) (\<lambda>s.
     bind_res (debug_print I ''Initializing the sun...'' [] (M\<lparr>ports := s\<rparr>)) k)))))) = k A10"
      using A10(1) by (simp add: A7(1) b7 A8(1) b8 A9(1) s10(1) B9_def)
  qed (use A9(2) A10(2) r8 in \<open>simp_all add: same_rest_def B8_def B9_def\<close>)
qed

lemma kernel_init_ok:
  assumes dev: "devices_ok I M" and ld: "loaded I dir table M"
    and mem: "mem_init (im_layout I) (im_mb I) u = Inr t" and sun: "sun_init t (im_sun_file I) (im_MAGIC I) = Inr ()"
  obtains N where "kernel_init I (after_boot M u) = Inr N" "km (kst N) = t" "free_list (process_pool (kst N)) = 0"
    "rbtree (rbnodes (kst N)) (process_tree (kst N)) Lf" "nil (process_tree (kst N)) = nil (process_tree (kst M))"
    "width (screen N) = framebuffer_width (im_mb I)"
    "displays (screen N) (log_print (unat (width (screen N))) (Terminal.color (screen N)) (boot_text (im_layout I) @ sun_message) ([], []))"
    "serial_data (ports N) = serial_data (ports M) @ boot_text (im_layout I) @ [3, 0xAE] @ sun_message"
    "kernel_syscalls (im_syscalls I) (replicate 101 0) = Inr (syscall_table N)"
    "irq_routines N = (irq_routines M)[0 := im_timer_handler I, 1 := im_keyboard_handler I]"
    "sched_callback (tmr N) = im_preempt I" "sched_ticks (tmr N) = 20"
proof -
  let ?a = "im_syscalls I" and ?l = "im_layout I" and ?irqs = "irq_routines M"
  obtain scr where scr: "terminal_init (framebuffer_width (im_mb I)) (framebuffer_height (im_mb I))
      (im_frame_buffer I (framebuffer_addr_lo (im_mb I))) = Inr scr" "width scr = framebuffer_width (im_mb I)" "displays scr ([], [])"
    using terminal_init_displays dev unfolding devices_ok_def by blast
  obtain T where T: "kernel_syscalls ?a (replicate 101 0) = Inr T" using kernel_syscalls_run [of ?a] ld by (auto simp: loaded_def)
  then obtain t1 t2 t3 t4 where tb: "terminal_syscalls ?a (replicate 101 0) = Inr t1" "mem_syscalls ?a t1 = Inr t2"
    "timer_syscalls ?a t2 = Inr t3" "syscalls_init ?a t3 = Inr t4" "process_syscalls ?a t4 = Inr T"
    by (auto simp: kernel_syscalls_def)
  have loop: "\<forall>os n. device (ports M) (os @ [(PORT_COM1 + 4, 0x1E), (PORT_COM1 + 0, 0xAE)]) n (PORT_COM1 + 0) = 0xAE"
    and live: "line_live (device (ports M))" using dev unfolding devices_ok_def by blast+
  have fl: "mb_flags (im_mb I) AND MB_FLAG_FRAMEBUFFER \<noteq> 0" "framebuffer_addr_hi (im_mb I) = 0" using dev by (simp_all add: devices_ok_def)
  have len: "0 < length ?irqs" "1 < length ?irqs" "Suc 0 < length ?irqs" and tbl: "syscall_table M = replicate 101 0"
    using ld by (simp_all add: loaded_def)
  define M0 where "M0 = (after_boot M u)\<lparr>screen := scr, syscall_table := t1\<rparr>"
  have b0: "boot_terminal I (after_boot M u) = Inr M0" using fl by (simp add: boot_terminal_def M0_def scr(1) tbl tb(1))
  have p0: "printed I scr [] (serial_data (ports M)) M0"
    using ld live scr(3) by (simp add: printed_def M0_def loaded_def same_screen_def log_print_def)
  have r0: "syscall_table M0 = t1" "kst M0 = (kst M)\<lparr>km := u\<rparr>" "irq_routines M0 = ?irqs" "device (ports M0) = device (ports M)"
    by (simp_all add: M0_def)
  let ?pre = "serial_data (ports M)" and ?o9 = "boot_text ?l"
  let ?o6 = "size_message ?l @ concat (map boot_message [''Initializing GDT...'', ''Initializing IDT...'',
     ''Initializing TSS...'', ''Initializing FPU...'', ''Initializing memory...''])"
  let ?m = "concat (map boot_message [''Initializing timer'', ''Initializing keyboard'', ''Initializing serial io...''])"
  from early_boot [OF p0] obtain A6 where A6: "\<forall>k. bind_res (debug_print I ''Kernel Size: %u KB''
       [(kernel_end_paddr (im_layout I) - kernel_start_paddr (im_layout I)) div 1024] M0) (\<lambda>M.
     bind_res (debug_print I ''Initializing GDT...'' [] M) (\<lambda>M.
     let M = M\<lparr>gdt := init_gdt (im_tss I)\<rparr>
     in bind_res (debug_print I ''Initializing IDT...'' [] M) (\<lambda>M.
     let (table, s) = init_idt (im_interrupt_table I) (im_syscall_wrapper I) (ports M);
         M = M\<lparr>idt := table, ports := s\<rparr>
     in bind_res (debug_print I ''Initializing TSS...'' [] M) (\<lambda>M.
     let M = M\<lparr>initial_tss := init_tss (im_kernel_stack I)\<rparr>
     in bind_res (debug_print I ''Initializing FPU...'' [] M) (\<lambda>M.
     bind_res (debug_print I ''Initializing memory...'' [] M) k))))) = (k A6 :: machine res)"
    and p6: "printed I scr ?o6 (?pre @ ?o6) A6" and r6': "syscall_table A6 = syscall_table M0" "kst A6 = kst M0"
      "irq_routines A6 = irq_routines M0" "device (ports A6) = device (ports M0)" by blast
  note r6 = r6' [unfolded r0]
  define B6 where "B6 = A6\<lparr>kst := (kst A6)\<lparr>km := t\<rparr>, syscall_table := t2\<rparr>"
  have b6: "boot_memory I A6 = Inr B6" using mem tb(2) by (simp add: boot_memory_def r6 B6_def)
  have q6: "printed I scr ?o6 (?pre @ ?o6) B6" using p6 by (simp add: B6_def)
  have B6: "1 < length (irq_routines B6)" "timer_syscalls ?a (syscall_table B6) = Inr t3" "kst B6 = (kst M)\<lparr>km := t\<rparr>"
    "irq_routines B6 = ?irqs" "device (ports B6) = device (ports M)"
    using len tb(3) r6 by (simp_all add: B6_def)
  from late_boot [OF q6 B6(1,2) loop [folded B6(5)]] obtain A10 where A10:
    "\<forall>k. bind_res (debug_print I ''Initializing timer'' [] B6) (\<lambda>M. bind_res (boot_timer I M) (\<lambda>M.
     bind_res (debug_print I ''Initializing keyboard'' [] M) (\<lambda>M. bind_res (boot_keyboard I M) (\<lambda>M.
     bind_res (debug_print I ''Initializing serial io...'' [] M) (\<lambda>M. bind_res (serial_init (ports M)) (\<lambda>s.
     bind_res (debug_print I ''Initializing the sun...'' [] (M\<lparr>ports := s\<rparr>)) k)))))) = (k A10 :: machine res)"
    and p10: "printed I scr (?o6 @ ?m @ sun_message) ((?pre @ ?o6) @ ?m @ [3, 0xAE] @ sun_message) A10"
    and r10': "syscall_table A10 = t3" "kst A10 = kst B6"
      "irq_routines A10 = (irq_routines B6)[0 := im_timer_handler I, 1 := im_keyboard_handler I]" by blast
  note r10 = r10' [unfolded B6(3,4)]
  obtain rm rt where rb: "rb_init (rbnodes (kst M)) (process_tree (kst M)) = (rm, rt)" by fastforce
  have "\<exists>N. boot_processes I (A10\<lparr>syscall_table := t4\<rparr>) = Inr N \<and> km (kst N) = t \<and> free_list (process_pool (kst N)) = 0 \<and>
    rbnodes (kst N) = rm \<and> process_tree (kst N) = rt \<and> screen N = screen A10 \<and> ports N = ports A10 \<and> syscall_table N = T \<and>
    irq_routines N = irq_routines A10 \<and> sched_callback (tmr N) = im_preempt I \<and> sched_ticks (tmr N) = 20"
    by (simp add: boot_processes_def processes_init_def syscall_reg_tmr_cb_def pool_init_def Let_def split_def r10(1,2) tb(5) rb)
  then obtain N where N: "boot_processes I (A10\<lparr>syscall_table := t4\<rparr>) = Inr N" "km (kst N) = t" "free_list (process_pool (kst N)) = 0"
    "rbnodes (kst N) = rm" "process_tree (kst N) = rt" "screen N = screen A10" "ports N = ports A10" "syscall_table N = T"
    "irq_routines N = irq_routines A10" "sched_callback (tmr N) = im_preempt I" "sched_ticks (tmr N) = 20" by blast
  have run: "kernel_init I (after_boot M u) = Inr N"
    unfolding kernel_init_def b0 bind_res_simps A6 [rule_format] b6 A10 [rule_format] r10(1,2) by (simp add: sun tb(4) N(1))
  have out: "?o6 @ ?m = ?o9" by (simp add: boot_text_def)
  have fin: "same_screen scr (screen N)" "displays (screen N) (log_print (unat (width scr)) (Terminal.color scr) (boot_text ?l @ sun_message) ([], []))"
    "serial_data (ports N) = ?pre @ boot_text ?l @ [3, 0xAE] @ sun_message"
    using p10 unfolding out [symmetric] by (simp_all add: printed_def N(6,7))
  show ?thesis
    by (rule that [OF run N(2,3)]) (use N fin scr(2) T init_ok [OF rb] r10(3) in \<open>simp_all add: same_screen_def\<close>)
qed

text \<open>An example: the kernel of 4 pages with a text mode of 80 columns and 25 rows. Its embedded file
  is nothing but the magic number, and its literals lie 256 bytes apart.\<close>

definition small_literals :: "string list" where
  "small_literals = [[], ''<%s>: '', ''DEBUG''] @ boot_formats"

definition small_statics :: bytes where
  "small_statics a = (let s = small_literals ! (unat a div 256) in
     if unat a div 256 < length small_literals \<and> unat a mod 256 < length s then of_char (s ! (unat a mod 256)) else 0)"

definition small_image :: image where
  "small_image = \<lparr>im_layout = small_layout, im_mb = small_map, im_frame_buffer = \<lambda>_. replicate 2000 0, im_tss = 0xC0103200,
     im_kernel_stack = 0xC0104000, im_interrupt_table = \<lambda>_. 0xC0100100, im_syscall_wrapper = 0xC0100200, im_timer_handler = 0xC0100300,
     im_timer_no_op = 0xC0100400, im_keyboard_handler = 0xC0100500, im_preempt = 0xC0100600, im_syscalls = \<lambda>_. 0xC0100700,
     im_sun_file = 0xC0103000, im_MAGIC = 0xC0103000, im_senv = demo_fpu,
     im_log_literals = \<lparr>prefix_fmt = 256, level_str = \<lambda>_. 512\<rparr>, im_temp_buffer = 0x1000,
     im_literal = \<lambda>x. word_of_nat (256 * (3 + length (takeWhile (\<lambda>y. y \<noteq> x) boot_formats)))\<rparr>"

lemma small_literal_at:
  assumes "i < length small_literals"
  shows "str_at small_statics (word_of_nat (256 * i)) (map of_char (small_literals ! i))"
proof -
  have n: "length small_literals = 13" by (simp add: small_literals_def boot_formats_def)
  have "\<forall>s \<in> set small_literals. length s < 256 \<and> 0 \<notin> set (map of_char s :: u8 list)" by (simp add: small_literals_def boot_formats_def)
  then have s: "length (small_literals ! i) < 256" "0 \<notin> set (map of_char (small_literals ! i) :: u8 list)" using nth_mem [OF assms] by blast+
  define b :: u32 where "b = word_of_nat (256 * i)"
  have a: "unat (b + word_of_nat k) = 256 * i + k" if "k < 256" for k
    unfolding b_def of_nat_add [symmetric] by (rule unat_of_nat_u32) (use assms that n in simp)
  have "of_char (small_literals ! i ! k) \<noteq> (0 :: u8)" if "k < length (small_literals ! i)" for k
    using that s(2) by (metis length_map nth_map nth_mem)
  then show ?thesis unfolding b_def [symmetric] using s(1) assms by (simp add: str_at_def small_statics_def a)
qed

lemma small_console: "console_ok small_image small_statics"
proof -
  have n: "length small_literals = 13" by (simp add: small_literals_def boot_formats_def)
  have o: "outside 0x1000 TEMP_BUFFER_LENGTH a l" if "unat a + l < 4096" for a l
    by (rule outside_below) (use that in \<open>simp_all add: TEMP_BUFFER_LENGTH_def\<close>)
  have "literals_ok small_statics 0x1000 (im_log_literals small_image) DEBUG"
    using small_literal_at [of 1] small_literal_at [of 2] n by (simp add: literals_ok_def small_image_def o) (simp add: small_literals_def)
  moreover have "str_at small_statics (im_literal small_image x) (map of_char x) \<and>
      outside 0x1000 TEMP_BUFFER_LENGTH (im_literal small_image x) (length x)" if x: "x \<in> set boot_formats" for x
  proof -
    define i where "i = length (takeWhile (\<lambda>y. y \<noteq> x) boot_formats)"
    have i: "i < 10" "boot_formats ! i = x"
      using x nth_length_takeWhile [of "\<lambda>y. y \<noteq> x" boot_formats]
      by (auto simp: i_def boot_formats_def)
    have "length x < 256" using x by (auto simp: boot_formats_def)
    moreover have "unat (word_of_nat (256 * (3 + i)) :: u32) = 256 * (3 + i)" by (rule unat_of_nat_u32) (use i(1) in simp)
    moreover have "small_literals ! (3 + i) = x" using i(2) by (simp add: small_literals_def)
    ultimately show ?thesis using small_literal_at [of "3 + i"] o i(1) n by (simp add: small_image_def i_def [symmetric])
  qed
  ultimately show ?thesis by (simp add: console_ok_def) (simp add: small_image_def)
qed

lemma small_devices: "device (ports M) = (\<lambda>_ _ _. 0xAE) \<Longrightarrow> devices_ok small_image M"
  by (simp add: devices_ok_def small_image_def small_map_def MB_FLAG_FRAMEBUFFER_def line_live_def)

lemma small_in_image:
  assumes "0xC0103000 \<le> w" "w < 0xC0104000"
  shows "in_image small_layout 0x101000 0x102000 w"
proof -
  have u: "0xC0103000 \<le> unat w" "unat w < 0xC0104000" using assms by (simp_all add: word_le_nat_alt word_less_nat_alt)
  then have "unat (w - 0xC0000000) = unat w - 0xC0000000" by (simp add: unat_sub word_le_nat_alt)
  then have "0x102000 < unat (get_paddr (w - 0xC0000000))" using u unat_get_paddr [of "w - 0xC0000000"] mod_less_divisor [of 4096 "unat (w - 0xC0000000)"]
    by linarith
  then have "get_paddr (w - 0xC0000000) \<noteq> 0x101000" "get_paddr (w - 0xC0000000) \<noteq> 0x102000" by auto
  then show ?thesis using u by (simp add: in_image_def small_layout_def word_le_nat_alt word_less_nat_alt)
qed

lemma small_machine:
  obtains M where "devices_ok small_image M" "loaded small_image 0x101000 0x102000 M"
proof -
  let ?t = "undefined\<lparr>nil := 0xC0103108\<rparr> :: RbTree"
  let ?k = "undefined\<lparr>km := demo\<lparr>free_frame_paddr := 0\<rparr>, process_tree := ?t\<rparr> :: kstate"
  let ?M = "undefined\<lparr>statics := small_statics, loglevel := DEBUG, ports := \<lparr>device = \<lambda>_ _ _. 0xAE, reads = 0, outs = []\<rparr>, irq_routines := replicate 16 0,
    syscall_table := replicate 101 0, kst := ?k\<rparr> :: machine"
  have "in_image small_layout 0x101000 0x102000 (0xC0103000 + word_of_nat k)" if "k < 3" for k
    by (rule small_in_image) (use that in \<open>auto simp: less_Suc_eq numeral_3_eq_3\<close>)
  moreover have "in_image small_layout 0x101000 0x102000 0xC0103100" by (rule small_in_image) simp_all
  ultimately have "loaded small_image 0x101000 0x102000 ?M" using small_console by (simp add: loaded_def small_image_def demo_def)
  moreover have "devices_ok small_image ?M" by (rule small_devices) simp
  ultimately show ?thesis by (rule that [rotated])
qed

end
