(* ===== verification/KernelRealloc.thy ===== *)
theory KernelRealloc
  imports HeapInit
begin

section \<open>Changing the size of an allocation\<close>

text \<open>
  \<^verbatim>\<open>mem_realloc\<close> of \<^verbatim>\<open>mem.c\<close> over the heap, the page tables
  and the free list: an allocation is cut short, grown in place or moved. The lemmas follow its three
  ways out; each shows what is mapped afterwards and which bytes can still be read.
\<close>

unbundle bit_operations_syntax

subsection \<open>Pages that keep their contents\<close>

text \<open>The page is mapped as it was, and no byte of its frame changed.\<close>

definition page_kept :: "kmem \<Rightarrow> kmem \<Rightarrow> u32 \<Rightarrow> bool" where
  "page_kept s t w \<longleftrightarrow> page_at t w = page_at s w \<and>
     (\<forall>a. get_paddr a = get_paddr (page_at s w) \<longrightarrow> pmem t a = pmem s a)"

lemma page_kept_refl [simp]: "page_kept s s w"
  by (simp add: page_kept_def)

lemma page_kept_trans: "page_kept s t w \<Longrightarrow> page_kept t u w \<Longrightarrow> page_kept s u w"
  by (simp add: page_kept_def)

lemma page_kept_step:
  "mem_step s t F \<Longrightarrow> sole_frame s w \<Longrightarrow> get_paddr (page_at s w) \<notin> F \<Longrightarrow> page_at t w = page_at s w \<Longrightarrow> page_kept s t w"
  by (auto simp: page_kept_def sole_frame_def mem_step_data)

text \<open>Reading from a run whose pages are kept.\<close>

lemma run_read:
  assumes ok: "paging_ok s" "paging_ok t" and al: "frame_aligned v" and kept: "\<forall>k < n. page_kept s t (page_no v k)"
    and i: "i < 4096 * n"
  shows "vread8 t (v + word_of_nat i) = vread8 s (v + word_of_nat i)"
proof -
  have k: "i div 4096 < n" using i by (simp add: less_mult_imp_div_less mult.commute)
  have at: "page_at u (v + word_of_nat i) = page_at u (page_no v (i div 4096))" for u
    by (rule page_at_same) (rule run_page [OF al])
  let ?e = "page_at s (page_no v (i div 4096))"
  have "(word_of_nat (i mod 4096) :: u32) < 0x1000" by (simp add: word_less_nat_alt unat_of_nat_u32)
  from frame_decomp [OF get_paddr_aligned this] have "get_paddr (get_paddr ?e + word_of_nat (i mod 4096)) = get_paddr ?e"
    by blast
  then show ?thesis
    using kept k by (simp add: vread8_def page_at_translate [OF ok(1)] page_at_translate [OF ok(2)] at
        run_page(2) [OF al] page_kept_def)
qed

subsection \<open>The state of a heap\<close>

text \<open>The free list and the pages of the heap.\<close>

definition heap_mem :: "kmem \<Rightarrow> Heap \<Rightarrow> u32 list \<Rightarrow> bool" where
  "heap_mem s h fs \<longleftrightarrow> mem_inv s fs \<and> heap_backed s h PAGE_WRITABLE"

lemma user_ok_kernel: "flags AND PAGE_USER_MODE = 0 \<Longrightarrow> user_ok s i flags"
  by (simp add: user_ok_def)

lemma user_ok_writable [simp]: "user_ok s i PAGE_WRITABLE"
  by (rule user_ok_kernel) (simp add: PAGE_WRITABLE_def PAGE_USER_MODE_def)

lemma get_flags_less: "get_flags e < 0x1000"
proof -
  have "unat (get_flags e) \<le> unat (e AND 0xFFF)" by (simp add: get_flags_def unsigned_ucast_eq take_bit_eq_mod)
  also have "\<dots> < 4096" unfolding unat_and_FFF by simp
  finally show ?thesis by (simp add: word_less_nat_alt)
qed

lemma heap_memD:
  assumes "heap_mem s h fs"
  shows "mem_inv s fs" "heap_backed s h PAGE_WRITABLE" "heap_wf h" "paging_ok s"
  using assms mem_paging [of s fs] by (simp_all add: heap_mem_def heap_backed_def)

lemma heap_addr_aligned: "heap_wf h \<Longrightarrow> frame_aligned (page_addr h k)"
  by (rule page_aligned_frame, rule page_addr_aligned) (simp add: heap_wf_def)

text \<open>A page in use is mapped, alone, and to no free frame.\<close>

lemma heap_mem_used:
  assumes "heap_mem s h fs" "k < unat (page_count h)" "page_use h k \<noteq> 0"
  shows "plain_page s (page_addr h k)" "sole_frame s (page_addr h k)" "entry_present (page_at s (page_addr h k))"
    "get_paddr (page_at s (page_addr h k)) \<notin> get_paddr ` set fs"
proof -
  note m = heap_memD [OF assms(1)]
  show pages: "plain_page s (page_addr h k)" "sole_frame s (page_addr h k)"
    using m(2) assms(2,3) unfolding heap_backed_def by blast+
  then show present: "entry_present (page_at s (page_addr h k))" by (simp add: sole_frame_def)
  show "get_paddr (page_at s (page_addr h k)) \<notin> get_paddr ` set fs"
    by (rule sole_frame_not_free [OF m(1) pages(1) present])
qed

text \<open>Different used pages have different frames.\<close>

lemma heap_mem_frames:
  assumes "heap_mem s h fs" "j < unat (page_count h)" "k < unat (page_count h)" "page_use h j \<noteq> 0" "page_use h k \<noteq> 0"
    "get_paddr (page_at s (page_addr h j)) = get_paddr (page_at s (page_addr h k))"
  shows "j = k"
proof -
  note j = heap_mem_used [OF assms(1,2,4)] and k = heap_mem_used [OF assms(1,3,5)]
  have "drop_bit 12 (page_addr h j) = drop_bit 12 (page_addr h k)"
    using k(2) j(1,3) assms(6) unfolding sole_frame_def by blast
  then show ?thesis using page_addr_inj [OF heap_memD(3) [OF assms(1)] assms(2,3)] by simp
qed

lemma heap_mem_run:
  assumes "heap_mem s h fs" "st + n \<le> unat (page_count h)" "flags AND PAGE_USER_MODE = 0"
  shows "run_plain s (page_addr h st) n flags"
  using run_free_heap [OF heap_memD(2) [OF assms(1)] assms(2)] by (simp add: run_plain_def user_ok_kernel [OF assms(3)])

text \<open>The pages from \<open>a\<close> on can be mapped.\<close>

definition unmapped_run :: "kmem \<Rightarrow> Heap \<Rightarrow> nat \<Rightarrow> nat \<Rightarrow> bool" where
  "unmapped_run s h a c \<longleftrightarrow> (\<forall>k < c. \<not> entry_present (page_at s (page_addr h (a + k))))"

lemma heap_mem_map:
  assumes hm: "heap_mem s h fs" and range: "a + c \<le> unat (page_count h)" and fl: "flags AND PAGE_USER_MODE = 0" "flags < 0x1000"
    and room: "2 * c \<le> length fs"
  shows "\<not> unmapped_run s h a c \<Longrightarrow> alloc_pages_loop c s (page_addr h a) flags = Inl Panic"
    "unmapped_run s h a c \<Longrightarrow> \<exists>t ps gs. alloc_pages_loop c s (page_addr h a) flags = Inr t \<and> mem_inv t gs \<and>
       mem_step s t (get_paddr ` set fs) \<and> length ps = c \<and> backed t (page_addr h a) flags ps \<and> set ps \<subseteq> set fs \<and>
       (\<forall>w. plain_page s w \<longrightarrow> (\<forall>k < c. drop_bit 12 w \<noteq> drop_bit 12 (page_no (page_addr h a) k)) \<longrightarrow> page_at t w = page_at s w)"
proof -
  note D = heap_memD [OF hm] and run = heap_mem_run [OF hm range fl(1)]
  show "alloc_pages_loop c s (page_addr h a) flags = Inl Panic" if "\<not> unmapped_run s h a c"
    using that alloc_pages_loop_mapped [OF D(1) run fl(2) room] by (auto simp: unmapped_run_def page_addr_add)
  assume "unmapped_run s h a c"
  then have "run_free s (page_addr h a) c flags" using run by (simp add: run_plain_free unmapped_run_def page_addr_add)
  from alloc_pages_loop_ok [OF D(1) this fl(2) room]
  show "\<exists>t ps gs. alloc_pages_loop c s (page_addr h a) flags = Inr t \<and> mem_inv t gs \<and>
       mem_step s t (get_paddr ` set fs) \<and> length ps = c \<and> backed t (page_addr h a) flags ps \<and> set ps \<subseteq> set fs \<and>
       (\<forall>w. plain_page s w \<longrightarrow> (\<forall>k < c. drop_bit 12 w \<noteq> drop_bit 12 (page_no (page_addr h a) k)) \<longrightarrow> page_at t w = page_at s w)"
    by blast
qed

text \<open>Freeing the pages from \<open>a\<close> on unmaps these and keeps the other pages in use.\<close>

lemma freed_pages:
  assumes hm: "heap_mem s h fs" and range: "a + c \<le> unat (page_count h)" "\<forall>j < c. page_use h (a + j) \<noteq> 0"
    and t: "mem_step s t ((\<lambda>k. get_paddr (page_at s (page_addr h (a + k)))) ` {..<c})"
      "\<forall>w. plain_page s w \<longrightarrow> page_at t w =
         (if \<exists>k < c. drop_bit 12 w = drop_bit 12 (page_addr h (a + k)) then 0 else page_at s w)"
    and k: "k < unat (page_count h)"
  shows "page_at t (page_addr h k) = (if a \<le> k \<and> k < a + c then 0 else page_at s (page_addr h k))"
    "page_use h k \<noteq> 0 \<Longrightarrow> \<not> (a \<le> k \<and> k < a + c) \<Longrightarrow> page_kept s t (page_addr h k)"
proof -
  note D = heap_memD [OF hm]
  have "drop_bit 12 (page_addr h k) = drop_bit 12 (page_addr h (a + j)) \<longleftrightarrow> k = a + j" if "j < c" for j
    by (rule page_addr_inj [OF D(3) k]) (use that range in simp)
  then have "(\<exists>j < c. drop_bit 12 (page_addr h k) = drop_bit 12 (page_addr h (a + j))) \<longleftrightarrow> (\<exists>j < c. k = a + j)"
    by (simp cong: conj_cong)
  also have "\<dots> \<longleftrightarrow> a \<le> k \<and> k < a + c" by (auto intro!: exI [of _ "k - a"])
  finally have "(\<exists>j < c. drop_bit 12 (page_addr h k) = drop_bit 12 (page_addr h (a + j))) \<longleftrightarrow> a \<le> k \<and> k < a + c" .
  moreover have "plain_page s (page_addr h k)" using D(2) k unfolding heap_backed_def by blast
  ultimately show at: "page_at t (page_addr h k) = (if a \<le> k \<and> k < a + c then 0 else page_at s (page_addr h k))"
    using t(2) by presburger
  assume use: "page_use h k \<noteq> 0" and out: "\<not> (a \<le> k \<and> k < a + c)"
  show "page_kept s t (page_addr h k)"
  proof (rule page_kept_step [OF t(1)])
    show "get_paddr (page_at s (page_addr h k)) \<notin> (\<lambda>j. get_paddr (page_at s (page_addr h (a + j)))) ` {..<c}"
    proof
      assume "get_paddr (page_at s (page_addr h k)) \<in> (\<lambda>j. get_paddr (page_at s (page_addr h (a + j)))) ` {..<c}"
      then obtain j where j: "j < c" "get_paddr (page_at s (page_addr h k)) = get_paddr (page_at s (page_addr h (a + j)))"
        by auto
      have "a + j < unat (page_count h)" "page_use h (a + j) \<noteq> 0" using range j(1) by simp_all
      from heap_mem_frames [OF hm k this(1) use this(2) j(2)] show False using out j(1) by simp
    qed
  qed (use heap_mem_used [OF hm k use] at out in simp_all)
qed

text \<open>Mapping the pages from \<open>a\<close> on to free frames keeps the other pages.\<close>

lemma mapped_pages:
  assumes hm: "heap_mem s h fs" and range: "a + c \<le> unat (page_count h)"
    and t: "mem_step s t (get_paddr ` set fs)"
      "\<forall>w. plain_page s w \<longrightarrow> (\<forall>k < c. drop_bit 12 w \<noteq> drop_bit 12 (page_no (page_addr h a) k)) \<longrightarrow> page_at t w = page_at s w"
    and k: "k < unat (page_count h)" "\<not> (a \<le> k \<and> k < a + c)"
  shows "page_at t (page_addr h k) = page_at s (page_addr h k)" "page_use h k \<noteq> 0 \<Longrightarrow> page_kept s t (page_addr h k)"
proof -
  note D = heap_memD [OF hm]
  have "drop_bit 12 (page_addr h k) \<noteq> drop_bit 12 (page_no (page_addr h a) j)" if "j < c" for j
    using page_addr_inj [OF D(3) k(1), of "a + j"] that range k(2) by (auto simp: page_addr_add)
  moreover have "plain_page s (page_addr h k)" using D(2) k(1) unfolding heap_backed_def by blast
  ultimately show at: "page_at t (page_addr h k) = page_at s (page_addr h k)" using t(2) by blast
  show "page_kept s t (page_addr h k)" if "page_use h k \<noteq> 0"
    by (rule page_kept_step [OF t(1)]) (use heap_mem_used [OF hm k(1) that] at in simp_all)
qed

text \<open>The heap after the pages from \<open>a\<close> on became used and were mapped.\<close>

lemma mapped_heap:
  assumes hm: "heap_mem s h fs" and range: "a + c \<le> unat (page_count h)" and fl: "flags < 0x1000"
    and t: "mem_inv t gs" "mem_step s t (get_paddr ` set fs)" "length ps = c" "backed t (page_addr h a) flags ps" "set ps \<subseteq> set fs"
      "\<forall>w. plain_page s w \<longrightarrow> (\<forall>k < c. drop_bit 12 w \<noteq> drop_bit 12 (page_no (page_addr h a) k)) \<longrightarrow> page_at t w = page_at s w"
    and h': "heap_wf h'" "heap_start h' = heap_start h" "page_count h' = page_count h"
      "\<forall>k < unat (page_count h). page_use h' k = 0 \<longleftrightarrow> \<not> (a \<le> k \<and> k < a + c) \<and> page_use h k = 0"
  shows "heap_mem t h' gs" "free_unmapped s h \<Longrightarrow> free_unmapped t h'"
proof -
  note D = heap_memD [OF hm]
  have "heap_backed t h' PAGE_WRITABLE"
    by (rule heap_backed_map [OF D(1,2) range fl t(2-6) _ h'(1-3)]) (use h'(4) in auto)
  then show "heap_mem t h' gs" using t(1) by (simp add: heap_mem_def)
  show "free_unmapped t h'" if free: "free_unmapped s h"
    unfolding free_unmapped_def
  proof (intro allI impI)
    fix k
    assume "k < unat (page_count h')" "page_use h' k = 0"
    then have k: "k < unat (page_count h)" "\<not> (a \<le> k \<and> k < a + c)" "page_use h k = 0" using h'(3,4) by auto
    then have "\<not> entry_present (page_at s (page_addr h k))" using free by (simp add: free_unmapped_def)
    then show "\<not> entry_present (page_at t (page_addr h' k))"
      using mapped_pages(1) [OF hm range t(2,6) k(1,2)] by (simp add: page_addr_def h'(2))
  qed
qed

text \<open>
  The room that a longer allocation takes: the pages behind it when they are free, and otherwise the lowest
  run of free pages that is long enough. None of its pages may be mapped.
\<close>

definition unmapped_room :: "kmem \<Rightarrow> Heap \<Rightarrow> nat \<Rightarrow> nat \<Rightarrow> nat \<Rightarrow> bool" where
  "unmapped_room s h st n m \<longleftrightarrow>
     (if free_run h (st + n) (m - n) then \<forall>k < m - n. \<not> entry_present (page_at s (page_addr h (st + n + k)))
      else \<exists>st'. first_fit h m st' \<and> (\<forall>k < m. \<not> entry_present (page_at s (page_addr h (st' + k)))))"

lemma unmapped_room_here:
  "free_run h (st + n) (m - n) \<Longrightarrow> unmapped_room s h st n m \<longleftrightarrow> unmapped_run s h (st + n) (m - n)"
  by (simp add: unmapped_room_def unmapped_run_def)

lemma unmapped_room_fit:
  "\<not> free_run h (st + n) (m - n) \<Longrightarrow> first_fit h m st' \<Longrightarrow> unmapped_room s h st n m \<longleftrightarrow> unmapped_run s h st' m"
proof -
  assume no: "\<not> free_run h (st + n) (m - n)" and fit: "first_fit h m st'"
  have "first_fit h m x \<longleftrightarrow> x = st'" for x using first_fit_unique [OF fit, of x] fit by blast
  then show ?thesis using no by (simp add: unmapped_room_def unmapped_run_def)
qed

lemma unmapped_room_full:
  "\<not> free_run h (st + n) (m - n) \<Longrightarrow> \<forall>k. k + m \<le> unat (page_count h) \<longrightarrow> \<not> free_run h k m \<Longrightarrow> \<not> unmapped_room s h st n m"
  by (auto simp: unmapped_room_def first_fit_def)

subsection \<open>The three ways out\<close>

text \<open>
  What has to hold after the allocation \<open>(st, n)\<close> became \<open>(st', m)\<close>: the heap and its
  pages are well-formed, exactly this allocation was replaced, its contents can be read at the new place, and
  all other pages in use are kept.
\<close>

definition realloc_done :: "kmem \<Rightarrow> Heap \<Rightarrow> nat \<Rightarrow> nat \<Rightarrow> nat \<Rightarrow> nat \<Rightarrow> Heap \<Rightarrow> kmem \<Rightarrow> u32 list \<Rightarrow> bool" where
  "realloc_done s h st n m st' h' t gs \<longleftrightarrow> heap_mem t h' gs \<and> (free_unmapped s h \<longrightarrow> free_unmapped t h') \<and> heap_start h' = heap_start h \<and> page_count h' = page_count h \<and>
     allocs h' = insert (st', m) (allocs h - {(st, n)}) \<and>
     (\<forall>i < 4096 * min n m. vread8 t (page_addr h st' + word_of_nat i) = vread8 s (page_addr h st + word_of_nat i)) \<and>
     (\<forall>k < unat (page_count h). page_use h k \<noteq> 0 \<longrightarrow> \<not> (st \<le> k \<and> k < st + n) \<longrightarrow> page_kept s t (page_addr h k))"

lemma alloc_page:
  assumes "is_alloc h st n" "k < n"
  shows "st + k < unat (page_count h)" "page_use h (st + k) \<noteq> 0"
  using is_alloc_fits [OF assms(1)] is_alloc_use [OF assms(1), of "st + k"] is_alloc_used [OF assms(1)] assms(2) by simp_all

text \<open>The address and size of the pages that are given up or added.\<close>

lemma realloc_sizes:
  assumes "heap_wf h" "is_alloc h st n" "unat pages = m" "st + m \<le> unat (page_count h)"
  shows "unat (word_of_nat n :: u32) = n" "(word_of_nat n :: u32) > pages \<longleftrightarrow> m < n"
    "m \<le> n \<Longrightarrow> unat (word_of_nat n - pages) = n - m" "n \<le> m \<Longrightarrow> unat (pages - word_of_nat n) = m - n"
    "page_addr h st + pages * PAGE_SIZE = page_addr h (st + m)" "page_addr h st + word_of_nat n * PAGE_SIZE = page_addr h (st + n)"
    "unat (word_of_nat n * PAGE_SIZE :: u32) = 4096 * n"
proof -
  have le: "n \<le> 2 ^ 19" using is_alloc_index(5) [OF assms(1,2)] by simp
  then show n: "unat (word_of_nat n :: u32) = n" by (simp add: unat_of_nat_u32)
  show "(word_of_nat n :: u32) > pages \<longleftrightarrow> m < n" by (simp add: word_less_nat_alt n assms(3))
  show "unat (word_of_nat n - pages) = n - m" if "m \<le> n"
    using that by (simp add: unat_sub word_le_nat_alt n assms(3))
  show "unat (pages - word_of_nat n) = m - n" if "n \<le> m"
    using that by (simp add: unat_sub word_le_nat_alt n assms(3))
  have "pages = word_of_nat m" using assms(3) by auto
  then show "page_addr h st + pages * PAGE_SIZE = page_addr h (st + m)"
    "page_addr h st + word_of_nat n * PAGE_SIZE = page_addr h (st + n)"
    by (simp_all add: page_addr_def algebra_simps)
  show "unat (word_of_nat n * PAGE_SIZE :: u32) = 4096 * n"
    using le by (simp add: unat_word_ariths n PAGE_SIZE_def)
qed

text \<open>An allocation that stays where it is.\<close>

lemma realloc_result_here:
  assumes "heap_wf h" "is_alloc h st n" "0 < m" "realloc_result h st n m (c, page_addr h st, h')"
  shows "heap_wf h'" "heap_start h' = heap_start h" "page_count h' = page_count h"
    "allocs h' = insert (st, m) (allocs h - {(st, n)})"
proof -
  obtain s' where s': "page_addr h st = page_addr h s'" "allocs h' = insert (s', m) (allocs h - {(st, n)})"
    "s' = st \<or> first_fit h m s'"
    using assms(4) by (auto simp: realloc_result_def)
  have "st < unat (page_count h)" using is_alloc_fits [OF assms(2)] is_alloc_pos [OF assms(2)] by simp
  moreover have "s' < unat (page_count h)" using s'(3) assms(3) calculation by (auto simp: first_fit_def)
  ultimately have "s' = st" using page_addr_inj [OF assms(1), of st s'] s'(1) by simp
  then show "allocs h' = insert (st, m) (allocs h - {(st, n)})" using s'(2) by simp
qed (use assms(4) in \<open>auto simp: realloc_result_def\<close>)

text \<open>What a shrunk allocation gives up.\<close>

lemma shrink_use:
  assumes wf: "heap_wf h" and al: "is_alloc h st n" and m: "m \<le> n" and k: "k \<le> unat (page_count h)"
  shows "page_use (set_usage_loop h (word_of_nat (st + m)) (n - m) 0) k = (if st + m \<le> k \<and> k < st + n then 0 else page_use h k)"
proof -
  have i: "unat (word_of_nat (st + m) :: u32) = st + m"
    by (rule unat_of_nat_u32) (use is_alloc_index(5) [OF wf al] m in simp)
  have "unat (word_of_nat (st + m) :: u32) + (n - m) \<le> unat (page_count h)"
    unfolding i using is_alloc_fits [OF al] m by simp
  from page_use_set_loop_pc [OF _ _ this k, of 0] show ?thesis using wf m unfolding i by (simp add: heap_wf_def)
qed

lemma realloc_shrink_steps:
  assumes hm: "heap_mem s h fs" and al: "is_alloc h st n" and m: "0 < pages" "unat pages = m" "m \<le> n"
  shows "\<exists>h' t gs. mem_realloc s h (page_addr h st) pages = Inr (page_addr h st, h', t) \<and> realloc_done s h st n m st h' t gs"
proof -
  note D = heap_memD [OF hm]
  have fits: "st + n \<le> unat (page_count h)" by (rule is_alloc_fits [OF al])
  have m0: "0 < m" "pages \<noteq> 0" using m(1,2) by (auto simp: word_less_nat_alt)
  have small: "st + m < 2 ^ 31" using is_alloc_index(5) [OF D(3) al] m(3) by simp
  have sz: "n - m \<le> 2 ^ 20" using is_alloc_index(5) [OF D(3) al] by simp
  let ?h = "set_usage_loop h (word_of_nat (st + m)) (n - m) 0"
  let ?v = "page_addr h (st + m)"
  have h': "heap_wf ?h" "heap_start ?h = heap_start h" "page_count ?h = page_count h" "allocs ?h = insert (st, m) (allocs h - {(st, n)})"
    by (rule realloc_result_here [OF D(3) al m0(1) realloc_shrink [OF D(3) al m0(1) m(3)]])+
  have use: "page_use ?h k = (if st + m \<le> k \<and> k < st + m + (n - m) then 0 else page_use h k)" if "k \<le> unat (page_count h)" for k
    using shrink_use [OF D(3) al m(3) that] m(3) by simp
  have pages: "plain_page s (page_no ?v k) \<and> sole_frame s (page_no ?v k)" if "k < n - m" for k
    using heap_mem_used(1,2) [OF hm alloc_page [OF al, of "m + k"]] that by (simp add: page_addr_add add.assoc)
  obtain t where t: "free_pages_loop (n - m) s ?v = Inr t"
    "mem_inv t (rev (map (\<lambda>k. get_paddr (page_at s (page_addr h (st + m + k)))) [0..<n - m]) @ fs)"
    "mem_step s t ((\<lambda>k. get_paddr (page_at s (page_addr h (st + m + k)))) ` {..<n - m})"
    "\<And>w. plain_page s w \<Longrightarrow> page_at t w =
       (if \<exists>k < n - m. drop_bit 12 w = drop_bit 12 (page_addr h (st + m + k)) then 0 else page_at s w)"
    "\<And>k. k < 1024 \<Longrightarrow> pde t k = pde s k"
    using free_pages_loop_ok [OF D(1) sz pages] by (auto simp: page_addr_add)
  have rest: "st + m + (n - m) \<le> unat (page_count h)" "\<forall>j < n - m. page_use h (st + m + j) \<noteq> 0"
    using fits m(3) alloc_page [OF al] by (simp_all add: add.assoc)
  note freed = freed_pages [OF hm rest t(3) allI [OF impI [OF t(4)]]]
  have backed: "heap_backed t ?h PAGE_WRITABLE"
    by (rule heap_backed_unmap [OF D(2) rest h'(1-3) use t(3-5)])
  have un: "free_unmapped t ?h" if "free_unmapped s h"
    using that unfolding free_unmapped_def h'(3) using use freed(1) h'(2) by (auto simp: free_unmapped_def page_addr_def present_0)
  have hm': "heap_mem t ?h (rev (map (\<lambda>k. get_paddr (page_at s (page_addr h (st + m + k)))) [0..<n - m]) @ fs)"
    using t(2) backed by (simp add: heap_mem_def)
  have read: "vread8 t (page_addr h st + word_of_nat i) = vread8 s (page_addr h st + word_of_nat i)" if "i < 4096 * min n m" for i
    by (rule run_read [OF D(4) heap_memD(4) [OF hm'] heap_addr_aligned [OF D(3)] _ that])
      (use freed(2) alloc_page [OF al] in \<open>simp add: page_addr_add\<close>)
  have "heap_realloc h (page_addr h st) pages = Inr (word_of_nat n, page_addr h st, ?h)"
    using heap_realloc_unfold [OF D(3) al m(2) small] m(3) by simp
  moreover note realloc_sizes [OF D(3) al m(2)]
  ultimately have "mem_realloc s h (page_addr h st) pages = Inr (page_addr h st, ?h, t)"
    using m(3) fits t(1) m0(2) get_entry_view [OF D(4)]
    by (cases "m = n") (simp_all add: mem_realloc_def Let_def free_pages_def alloc_pages_def)
  then show ?thesis using hm' un h' read freed(2) m(3) by (auto simp: realloc_done_def)
qed

text \<open>Growing in place: the run behind the allocation is painted in its colour and backed.\<close>

lemma heap_grow:
  assumes wf: "heap_wf h" and al: "is_alloc h st n" and m: "unat pages = m" "n < m" "st + m \<le> unat (page_count h)"
    and free: "free_run h (st + n) (m - n)"
  shows "\<exists>h'. heap_realloc h (page_addr h st) pages = Inr (word_of_nat n, page_addr h st, h') \<and> fresh_paint h h' st m"
proof -
  have ok: "heap_ok h" using wf by (simp add: heap_wf_def)
  have small: "st + m < 2 ^ 31" using m(3) wf by (simp add: heap_wf_def)
  note unf = heap_realloc_unfold [OF wf al m(1) small]
  show ?thesis
  proof (cases "page_use h (st + m) = page_use h st")
    case True
    obtain h' where "heap_mark_used h (word_of_nat st) pages = Inr h'" "fresh_paint h h' st m"
      using heap_mark_used_fresh [OF ok _ _ m(1), of "word_of_nat st"] m(2,3) is_alloc_index(2) [OF wf al] by auto
    then show ?thesis using unf m(2) free True by simp
  next
    case False
    then show ?thesis using unf m(2) free grow_same_color_paint [OF wf al m(2,3) False] by simp
  qed
qed

lemma realloc_grow_steps:
  assumes hm: "heap_mem s h fs" and al: "is_alloc h st n" and m: "unat pages = m" "n < m" "st + m \<le> unat (page_count h)"
    and free: "free_run h (st + n) (m - n)" and fl: "get_flags (page_at s (page_addr h st)) AND PAGE_USER_MODE = 0"
    and room: "2 * (m - n) \<le> length fs"
  shows "\<not> unmapped_run s h (st + n) (m - n) \<Longrightarrow> mem_realloc s h (page_addr h st) pages = Inl Panic"
    "unmapped_run s h (st + n) (m - n) \<Longrightarrow> \<exists>h' t gs. mem_realloc s h (page_addr h st) pages = Inr (page_addr h st, h', t) \<and> realloc_done s h st n m st h' t gs"
proof -
  note D = heap_memD [OF hm]
  let ?f = "get_flags (page_at s (page_addr h st))"
  have range: "st + n + (m - n) \<le> unat (page_count h)" and m0: "0 < m" "pages \<noteq> 0" using m by auto
  obtain h' where h': "heap_realloc h (page_addr h st) pages = Inr (word_of_nat n, page_addr h st, h')" "fresh_paint h h' st m"
    using heap_grow [OF D(3) al m free] by blast
  note here = realloc_result_here [OF D(3) al m0(1) realloc_grow [OF D(3) al m(2,3) free h'(2)]]
  note sizes = realloc_sizes [OF D(3) al m(1,3)] and mapping = heap_mem_map [OF hm range fl get_flags_less room]
  have eval: "mem_realloc s h (page_addr h st) pages =
      bind_res (alloc_pages_loop (m - n) s (page_addr h (st + n)) ?f) (\<lambda>t. Inr (page_addr h st, h', t))"
    using m(2) h'(1) m0(2) get_entry_view [OF D(4)] sizes
    by (simp add: mem_realloc_def Let_def alloc_pages_def page_at_def)
  then show "mem_realloc s h (page_addr h st) pages = Inl Panic" if "\<not> unmapped_run s h (st + n) (m - n)"
    using mapping(1) [OF that] by simp
  assume unmapped: "unmapped_run s h (st + n) (m - n)"
  obtain t ps gs where t: "alloc_pages_loop (m - n) s (page_addr h (st + n)) ?f = Inr t" "mem_inv t gs"
    "mem_step s t (get_paddr ` set fs)" "length ps = m - n" "backed t (page_addr h (st + n)) ?f ps" "set ps \<subseteq> set fs"
    "\<forall>w. plain_page s w \<longrightarrow> (\<forall>k < m - n. drop_bit 12 w \<noteq> drop_bit 12 (page_no (page_addr h (st + n)) k)) \<longrightarrow> page_at t w = page_at s w"
    using mapping(2) [OF unmapped] by blast
  have use: "\<forall>k < unat (page_count h). page_use h' k = 0 \<longleftrightarrow> \<not> (st + n \<le> k \<and> k < st + n + (m - n)) \<and> page_use h k = 0"
  proof (intro allI impI)
    fix k
    assume k: "k < unat (page_count h)"
    obtain c where "c \<noteq> 0" "page_use h' k = (if st \<le> k \<and> k < st + m then c else page_use h k)"
      using fresh_paint_use [OF h'(2)] k less_imp_le_nat [OF k] by blast
    moreover have "page_use h k \<noteq> 0" if "st \<le> k" "k < st + n"
      using is_alloc_use [OF al that] is_alloc_used [OF al] by simp
    ultimately show "page_use h' k = 0 \<longleftrightarrow> \<not> (st + n \<le> k \<and> k < st + n + (m - n)) \<and> page_use h k = 0"
      using m(2) by (cases "st \<le> k"; cases "k < st + n"; cases "k < st + m") simp_all
  qed
  note after = mapped_heap [OF hm range get_flags_less t(2-7) here(1-3) use]
  note hm' = after(1)
  have kept: "page_kept s t (page_addr h k)" if "k < unat (page_count h)" "page_use h k \<noteq> 0" for k
  proof -
    have "\<not> (st + n \<le> k \<and> k < st + n + (m - n))"
      using free that(2) unfolding free_run_def by (metis atLeastLessThan_iff)
    then show ?thesis using mapped_pages(2) [OF hm range t(3,7) that(1) _ that(2)] by blast
  qed
  have read: "vread8 t (page_addr h st + word_of_nat i) = vread8 s (page_addr h st + word_of_nat i)" if "i < 4096 * min n m" for i
    by (rule run_read [OF D(4) heap_memD(4) [OF hm'] heap_addr_aligned [OF D(3)] _ that])
      (use kept alloc_page [OF al] in \<open>simp add: page_addr_add\<close>)
  have "mem_realloc s h (page_addr h st) pages = Inr (page_addr h st, h', t)" using eval t(1) by simp
  then show "\<exists>h' t gs. mem_realloc s h (page_addr h st) pages = Inr (page_addr h st, h', t) \<and> realloc_done s h st n m st h' t gs"
    using after here read kept by (auto simp: realloc_done_def)
qed

subsection \<open>Moving\<close>

text \<open>Copying one allocation to a disjoint one that is backed by the frames \<open>ps\<close>.\<close>

lemma copied_run:
  assumes hm: "heap_mem s h fs" and al: "is_alloc h st n" "is_alloc h st' m" and sz: "n \<le> m"
    and dj: "\<forall>j < m. \<forall>k < n. st' + j \<noteq> st + k"
    and bk: "backed s (page_addr h st') flags ps" "length ps = m" "flags < 0x1000"
  obtains t where "pmemcpy_loop (4096 * n) s (page_addr h st') (page_addr h st) = Inr t" "heap_mem t h fs" "free_unmapped t h = free_unmapped s h"
    "\<forall>i < 4096 * n. vread8 t (page_addr h st' + word_of_nat i) = vread8 s (page_addr h st + word_of_nat i)"
    "\<forall>k < unat (page_count h). page_use h k \<noteq> 0 \<longrightarrow> \<not> (st' \<le> k \<and> k < st' + m) \<longrightarrow> page_kept s t (page_addr h k)"
proof -
  note D = heap_memD [OF hm]
  have m20: "m \<le> 2 ^ 20" using is_alloc_index(5) [OF D(3) al(2)] by simp
  let ?d = "run_byte ps"
  define r where "r i = get_paddr (page_at s (page_addr h (st + i div 4096))) + word_of_nat (i mod 4096)" for i
  have div: "i div 4096 < c" if "i < 4096 * c" for i c :: nat using that by (simp add: less_mult_imp_div_less mult.commute)
  have d_frame: "get_paddr (?d i) = get_paddr (page_at s (page_addr h (st' + i div 4096)))" if "i < 4096 * m" for i
    using bk div [OF that] by (simp add: run_byte_frame backed_def page_addr_add create_entry_paddr)
  have r_frame: "get_paddr (r i) = get_paddr (page_at s (page_addr h (st + i div 4096)))" for i
  proof -
    have "(word_of_nat (i mod 4096) :: u32) < 0x1000" by (simp add: word_less_nat_alt unat_of_nat_u32)
    from frame_decomp [OF get_paddr_aligned this] show ?thesis unfolding r_def by blast
  qed
  have d_page: "?d i \<noteq> a" if "i < 4096 * n" "k < unat (page_count h)" "page_use h k \<noteq> 0" "\<not> (st' \<le> k \<and> k < st' + m)"
    "get_paddr a = get_paddr (page_at s (page_addr h k))" for i k a
  proof
    assume "?d i = a"
    have i: "i < 4096 * m" using that(1) sz by simp
    note page = alloc_page [OF al(2) div [OF i]]
    from heap_mem_frames [OF hm page(1) that(2) page(2) that(3)] d_frame [OF i] \<open>?d i = a\<close> that(5)
    have "st' + i div 4096 = k" by simp
    then show False using that(4) div [OF i] by auto
  qed
  have w: "writable_range s (page_addr h st') (4096 * n) ?d"
    by (rule run_writable [OF D(4) heap_addr_aligned [OF D(3)] bk(1,3)]) (use bk(2) sz m20 in simp_all)
  have rg: "range_at s (page_addr h st) (4096 * n) r"
    unfolding range_at_def
  proof (intro allI impI)
    fix i
    assume i: "i < 4096 * n"
    have "page_at s (page_addr h st + word_of_nat i) = page_at s (page_addr h (st + i div 4096))"
      unfolding page_addr_add [symmetric] by (rule page_at_same) (rule run_page [OF heap_addr_aligned [OF D(3)]])
    moreover have "entry_present (page_at s (page_addr h (st + i div 4096)))"
      by (rule heap_mem_used(3) [OF hm alloc_page [OF al(1) div [OF i]]])
    ultimately show "translate s (page_addr h st + word_of_nat i) = Inr (r i)"
      by (simp add: page_at_translate [OF D(4)] r_def run_page(2) [OF heap_addr_aligned [OF D(3)]])
  qed
  have ne: "?d k \<noteq> r l" if "k < 4096 * n" "l < 4096 * n" for k l
  proof (rule d_page [OF that(1) alloc_page [OF al(1) div [OF that(2)]] _ r_frame])
    show "\<not> (st' \<le> st + l div 4096 \<and> st + l div 4096 < st' + m)"
      using dj [rule_format, of "st + l div 4096 - st'" "l div 4096"] div [OF that(2)] by (auto simp: less_diff_conv2 add.commute)
  qed
  obtain b where b: "pmemcpy_loop (4096 * n) s (page_addr h st') (page_addr h st) = Inr (s\<lparr>pmem := b\<rparr>)"
    "paging_eq s (s\<lparr>pmem := b\<rparr>)" "\<forall>k < 4096 * n. b (?d k) = pmem s (r k)" "\<forall>a. a \<notin> ?d ` {..<4096 * n} \<longrightarrow> b a = pmem s a"
    using pmemcpy_loop_ok [OF D(4) w rg] ne by force
  let ?t = "s\<lparr>pmem := b\<rparr>"
  have at: "page_at ?t x = page_at s x" for x by (rule paging_eq_page_at [OF b(2)])
  have "b a = pmem s a" if af: "get_paddr a \<in> get_paddr ` set fs" for a
  proof -
    have "?d i \<noteq> a" if "i < 4096 * n" for i
    proof
      assume "?d i = a"
      moreover have i: "i < 4096 * m" using that sz by simp
      ultimately show False
        using af heap_mem_used(4) [OF hm alloc_page [OF al(2) div [OF i]]] d_frame [OF i] by simp
    qed
    then have "a \<notin> ?d ` {..<4096 * n}" by auto
    with b(4) show ?thesis by simp
  qed
  then have "mem_inv ?t fs" by (rule bytes_inv [OF D(1) b(2)])
  moreover have "heap_backed ?t h PAGE_WRITABLE" using paging_eq_backed [OF b(2)] D(2) by simp
  ultimately have hm': "heap_mem ?t h fs" by (simp add: heap_mem_def)
  have "vread8 ?t (page_addr h st' + word_of_nat i) = vread8 s (page_addr h st + word_of_nat i)" if "i < 4096 * n" for i
    using w rg that b(3) paging_eq_translate [OF D(4) b(2)] by (simp add: vread8_def writable_range_def range_at_def)
  moreover have "page_kept s ?t (page_addr h k)"
    if "k < unat (page_count h)" "page_use h k \<noteq> 0" "\<not> (st' \<le> k \<and> k < st' + m)" for k
  proof -
    have "a \<notin> ?d ` {..<4096 * n}" if "get_paddr a = get_paddr (page_at s (page_addr h k))" for a
      using d_page [OF _ \<open>k < _\<close> \<open>page_use h k \<noteq> 0\<close> _ that] \<open>\<not> (st' \<le> k \<and> _)\<close> by auto
    then show ?thesis using at b(4) by (simp add: page_kept_def)
  qed
  moreover have "free_unmapped ?t h = free_unmapped s h" by (simp add: free_unmapped_def at)
  ultimately show ?thesis by (intro that [OF b(1) hm']) simp_all
qed

text \<open>Releasing an allocation in the heap and in the page tables.\<close>

lemma released_run:
  assumes hm: "heap_mem s h fs" and al: "is_alloc h st n"
  obtains h' t gs where "heap_free h (page_addr h st) = Inr (word_of_nat n, h')"
    "free_pages s (page_addr h st) (word_of_nat n) = Inr t" "heap_mem t h' gs" "free_unmapped s h \<longrightarrow> free_unmapped t h'"
    "allocs h' = allocs h - {(st, n)}" "heap_start h' = heap_start h" "page_count h' = page_count h"
    "\<forall>k < unat (page_count h). page_use h k \<noteq> 0 \<longrightarrow> \<not> (st \<le> k \<and> k < st + n) \<longrightarrow> page_kept s t (page_addr h k)"
proof -
  note D = heap_memD [OF hm]
  obtain h' where h': "heap_free h (page_addr h st) = Inr (word_of_nat n, h')"
    "\<forall>k \<le> unat (page_count h). page_use h' k = (if st \<le> k \<and> k < st + n then 0 else page_use h k)"
    using heap_free_effect [OF D(3) al] by blast
  have al': "(st, n) \<in> allocs h" using al by simp
  obtain t where t: "free_pages s (page_addr h st) (word_of_nat n) = Inr t" "allocs h' = allocs h - {(st, n)}"
    "heap_start h' = heap_start h" "page_count h' = page_count h"
    "mem_inv t (rev (map (\<lambda>k. get_paddr (page_at s (page_addr h (st + k)))) [0..<n]) @ fs)" "heap_backed t h' PAGE_WRITABLE"
    "mem_step s t ((\<lambda>k. get_paddr (page_at s (page_addr h (st + k)))) ` {..<n})"
    "\<forall>w. plain_page s w \<longrightarrow> page_at t w =
       (if \<exists>k < n. drop_bit 12 w = drop_bit 12 (page_addr h (st + k)) then 0 else page_at s w)"
    using mem_free_steps [OF D(1,2) al'] h'(1) by (auto simp: mem_free_def)
  have used: "\<forall>j < n. page_use h (st + j) \<noteq> 0" using alloc_page [OF al] by blast
  note freed = freed_pages [OF hm is_alloc_fits [OF al] used t(7,8)]
  have un: "free_unmapped s h \<longrightarrow> free_unmapped t h'"
    unfolding free_unmapped_def t(4) using h'(2) freed(1) t(3) by (auto simp: page_addr_def present_0)
  have "heap_mem t h' (rev (map (\<lambda>k. get_paddr (page_at s (page_addr h (st + k)))) [0..<n]) @ fs)"
    using t(5,6) by (simp add: heap_mem_def)
  then show ?thesis using freed(2) by (intro that [OF h'(1) t(1) _ un t(2-4)]) simp_all
qed

text \<open>The heap while both allocations are live.\<close>

lemma alloc_beside:
  assumes wf: "heap_wf h" and al: "is_alloc h st n" and m: "0 < pages" "unat pages = m"
    and ret: "heap_alloc h pages = Inr (p, h1)" and ff: "first_fit h m st'"
  shows "p = page_addr h st'" "heap_wf h1" "allocs h1 = insert (st', m) (allocs h)" "heap_start h1 = heap_start h"
    "page_count h1 = page_count h" "page_addr h1 = page_addr h" "is_alloc h1 st' m" "is_alloc h1 st n"
    "\<forall>k < unat (page_count h). page_use h1 k = 0 \<longleftrightarrow> \<not> (st' \<le> k \<and> k < st' + m) \<and> page_use h k = 0"
    "page_use h k \<noteq> 0 \<Longrightarrow> \<not> (st' \<le> k \<and> k < st' + m)" "\<forall>j < m. \<forall>k < n. st' + j \<noteq> st + k"
proof -
  obtain st1 where st1: "p = page_addr h st1" "first_fit h m st1" "heap_wf h1" "allocs h1 = insert (st1, m) (allocs h)"
    "heap_start h1 = heap_start h" "page_count h1 = page_count h"
    "\<forall>k \<le> unat (page_count h). \<not> (st1 \<le> k \<and> k < st1 + m) \<longrightarrow> page_use h1 k = page_use h k"
    using heap_alloc_effect [OF wf m(1) ret] m(2) by blast
  note st' = st1 [unfolded first_fit_unique [OF st1(2) ff]]
  show "p = page_addr h st'" "heap_wf h1" "allocs h1 = insert (st', m) (allocs h)" "heap_start h1 = heap_start h"
    "page_count h1 = page_count h" by (rule st'(1) st'(3) st'(4) st'(5) st'(6))+
  show "page_addr h1 = page_addr h" by (simp add: fun_eq_iff page_addr_def st'(5))
  show al1: "is_alloc h1 st' m" "is_alloc h1 st n" using st'(4) al by (metis in_allocs insertI1, metis in_allocs insertI2)
  show "\<forall>k < unat (page_count h). page_use h1 k = 0 \<longleftrightarrow> \<not> (st' \<le> k \<and> k < st' + m) \<and> page_use h k = 0"
    using st'(7) alloc_page(2) [OF al1(1)] by (metis less_or_eq_imp_le le_add_diff_inverse nat_add_left_cancel_less)
  have run: "\<not> (st' \<le> k \<and> k < st' + m)" if "page_use h k \<noteq> 0" for k
    using ff that unfolding first_fit_def free_run_def by (metis atLeastLessThan_iff)
  then show "page_use h k \<noteq> 0 \<Longrightarrow> \<not> (st' \<le> k \<and> k < st' + m)" .
  show "\<forall>j < m. \<forall>k < n. st' + j \<noteq> st + k" using run alloc_page(2) [OF al] by (metis le_add1 nat_add_left_cancel_less)
qed

text \<open>Mapping the new run, copying into it and releasing the old one.\<close>

lemma realloc_moved:
  assumes hm: "heap_mem s h fs" and al: "is_alloc h st n" and m: "0 < pages" "unat pages = m" "n < m"
    and ret: "heap_alloc h pages = Inr (p, h1)" and ff: "first_fit h m st'"
    and fl: "flags AND PAGE_USER_MODE = 0" "flags < 0x1000" and room: "2 * m \<le> length fs" and unmapped: "unmapped_run s h st' m"
  obtains h' t u v gs where "heap_free h1 (page_addr h st) = Inr (word_of_nat n, h')"
    "alloc_pages_loop m s (page_addr h st') flags = Inr t"
    "pmemcpy_loop (4096 * n) t (page_addr h st') (page_addr h st) = Inr u"
    "free_pages u (page_addr h st) (word_of_nat n) = Inr v" "realloc_done s h st n m st' h' v gs"
proof -
  note D = heap_memD [OF hm] and st' = alloc_beside [OF heap_memD(3) [OF hm] al m(1,2) ret ff]
  have range: "st' + m \<le> unat (page_count h)" using ff by (simp add: first_fit_def)
  note run = st'(10) and dj = st'(11) and al1 = st'(7,8) and addr = st'(6) and use = st'(9)
  obtain t ps gs where t: "alloc_pages_loop m s (page_addr h st') flags = Inr t" "mem_inv t gs" "mem_step s t (get_paddr ` set fs)"
    "length ps = m" "backed t (page_addr h st') flags ps" "set ps \<subseteq> set fs"
    "\<forall>w. plain_page s w \<longrightarrow> (\<forall>k < m. drop_bit 12 w \<noteq> drop_bit 12 (page_no (page_addr h st') k)) \<longrightarrow> page_at t w = page_at s w"
    using heap_mem_map(2) [OF hm range fl room unmapped] by blast
  note after = mapped_heap [OF hm range fl(2) t(2-7) st'(2,4,5) use]
  note hm1 = after(1)
  note kept1 = mapped_pages(2) [OF hm range t(3,7)]
  obtain u where u: "pmemcpy_loop (4096 * n) t (page_addr h st') (page_addr h st) = Inr u" "heap_mem u h1 gs" "free_unmapped u h1 = free_unmapped t h1"
    "\<forall>i < 4096 * n. vread8 u (page_addr h st' + word_of_nat i) = vread8 t (page_addr h st + word_of_nat i)"
    "\<forall>k < unat (page_count h). page_use h1 k \<noteq> 0 \<longrightarrow> \<not> (st' \<le> k \<and> k < st' + m) \<longrightarrow> page_kept t u (page_addr h k)"
    by (rule copied_run [OF hm1 al1(2,1) less_imp_le [OF m(3)] dj, unfolded addr st'(5), OF t(5,4) fl(2)])
  obtain h' v gs' where v: "heap_free h1 (page_addr h st) = Inr (word_of_nat n, h')"
    "free_pages u (page_addr h st) (word_of_nat n) = Inr v" "heap_mem v h' gs'" "free_unmapped u h1 \<longrightarrow> free_unmapped v h'"
    "allocs h' = allocs h1 - {(st, n)}" "heap_start h' = heap_start h" "page_count h' = page_count h"
    "\<forall>k < unat (page_count h). page_use h1 k \<noteq> 0 \<longrightarrow> \<not> (st \<le> k \<and> k < st + n) \<longrightarrow> page_kept u v (page_addr h k)"
    by (rule released_run [OF u(2) al1(2), unfolded addr st'(4,5)])
  have kept: "page_kept s v (page_addr h k)"
    if k: "k < unat (page_count h)" "page_use h k \<noteq> 0" "\<not> (st \<le> k \<and> k < st + n)" for k
    using page_kept_trans [OF page_kept_trans [OF kept1 [OF k(1) run [OF k(2)] k(2)]]] u(5) v(8) use run [OF k(2)] k by blast
  have "\<forall>k < n. page_kept u v (page_no (page_addr h st') k)"
  proof (intro allI impI)
    fix k
    assume k: "k < n"
    have "\<not> (st \<le> st' + k \<and> st' + k < st + n)"
      using dj [rule_format, of k "st' + k - st"] k m(3) by (auto simp: less_diff_conv2 add.commute)
    then show "page_kept u v (page_no (page_addr h st') k)"
      using v(8) alloc_page [OF al1(1), of k] k m(3) st'(5) by (simp add: page_addr_add)
  qed
  note r2 = run_read [OF heap_memD(4) [OF u(2)] heap_memD(4) [OF v(3)] heap_addr_aligned [OF D(3)] this]
  have "\<forall>k < n. page_kept s t (page_no (page_addr h st) k)"
    using kept1 run alloc_page [OF al] by (simp add: page_addr_add)
  note r1 = run_read [OF D(4) heap_memD(4) [OF hm1] heap_addr_aligned [OF D(3)] this]
  have read: "\<forall>i < 4096 * min n m. vread8 v (page_addr h st' + word_of_nat i) = vread8 s (page_addr h st + word_of_nat i)"
    using u(4) r1 r2 m(3) by simp
  have "allocs h' = insert (st', m) (allocs h - {(st, n)})" using v(5) st'(3) m(3) by auto
  then have "realloc_done s h st n m st' h' v gs'" using v kept read after(2) u(3) by (simp add: realloc_done_def)
  from that [OF v(1) t(1) u(1) v(2) this] show ?thesis .
qed

lemma realloc_move_steps:
  assumes hm: "heap_mem s h fs" and al: "is_alloc h st n" and m: "unat pages = m" "n < m" "st + m \<le> unat (page_count h)"
    and no: "\<not> free_run h (st + n) (m - n)" and ret: "heap_alloc h pages = Inr (p, h1)"
    and fl: "get_flags (page_at s (page_addr h st)) AND PAGE_USER_MODE = 0" and room: "2 * m \<le> length fs"
  obtains st' where "first_fit h m st'"
    "\<not> unmapped_run s h st' m \<Longrightarrow> mem_realloc s h (page_addr h st) pages = Inl Panic"
    "unmapped_run s h st' m \<Longrightarrow> \<exists>h' t gs. mem_realloc s h (page_addr h st) pages = Inr (page_addr h st', h', t) \<and>
      realloc_done s h st n m st' h' t gs"
proof -
  note D = heap_memD [OF hm]
  let ?f = "get_flags (page_at s (page_addr h st))"
  have m0: "0 < pages" "pages \<noteq> 0" using m(1,2) by (auto simp: word_less_nat_alt)
  have small: "st + m < 2 ^ 31" using m(3) D(3) by (simp add: heap_wf_def)
  obtain st' where ff: "first_fit h m st'" using heap_alloc_effect [OF D(3) m0(1) ret] m(1) by blast
  note st' = alloc_beside [OF D(3) al m0(1) m(1) ret ff]
  have range: "st' + m \<le> unat (page_count h)" using ff by (simp add: first_fit_def)
  have ne: "page_addr h st' \<noteq> page_addr h st"
  proof -
    have "st < unat (page_count h)" "st' < unat (page_count h)" "st' \<noteq> st"
      using is_alloc_fits [OF al] is_alloc_pos [OF al] range m(2) st'(11) by auto
    then show ?thesis using page_addr_inj [OF D(3)] by metis
  qed
  obtain h' where h': "heap_free h1 (page_addr h st) = Inr (word_of_nat n, h')"
    using heap_free_effect [OF st'(2,8)] st'(6) by auto
  have eval: "mem_realloc s h (page_addr h st) pages =
      bind_res (alloc_pages_loop m s (page_addr h st') ?f) (\<lambda>t.
      bind_res (pmemcpy_loop (4096 * n) t (page_addr h st') (page_addr h st)) (\<lambda>u.
      bind_res (free_pages u (page_addr h st) (word_of_nat n)) (\<lambda>v. Inr (page_addr h st', h', v))))"
  proof -
    have "heap_realloc h (page_addr h st) pages = Inr (word_of_nat n, page_addr h st', h')"
      using heap_realloc_unfold [OF D(3) al m(1) small] m(2) no ret h' by (simp add: st'(1))
    then show ?thesis
      using ne m0(2) m(1) get_entry_view [OF D(4)] realloc_sizes(7) [OF D(3) al m(1,3)]
      by (simp add: mem_realloc_def Let_def alloc_pages_def pmemcpy_def page_at_def)
  qed
  show ?thesis
  proof (rule that [OF ff])
    show "mem_realloc s h (page_addr h st) pages = Inl Panic" if "\<not> unmapped_run s h st' m"
      using eval heap_mem_map(1) [OF hm range fl get_flags_less room that] by simp
    assume unmapped: "unmapped_run s h st' m"
    show "\<exists>h' t gs. mem_realloc s h (page_addr h st) pages = Inr (page_addr h st', h', t) \<and> realloc_done s h st n m st' h' t gs"
    proof (rule realloc_moved [OF hm al m0(1) m(1,2) ret ff fl get_flags_less room unmapped])
      fix h2 t u v gs
      assume v: "heap_free h1 (page_addr h st) = Inr (word_of_nat n, h2)" "alloc_pages_loop m s (page_addr h st') ?f = Inr t"
        "pmemcpy_loop (4096 * n) t (page_addr h st') (page_addr h st) = Inr u"
        "free_pages u (page_addr h st) (word_of_nat n) = Inr v" "realloc_done s h st n m st' h2 v gs"
      have "h2 = h'" using v(1) h' by simp
      then show ?thesis using eval v(2-5) by auto
    qed
  qed
qed

lemma mem_realloc_ok:
  assumes hm: "heap_mem s h fs" and al: "is_alloc h st n" and pos: "0 < pages" and fits: "st + unat pages \<le> unat (page_count h)"
    and fl: "get_flags (page_at s (page_addr h st)) AND PAGE_USER_MODE = 0" and room: "n < unat pages \<Longrightarrow> 2 * unat pages \<le> length fs"
  shows "case mem_realloc s h (page_addr h st) pages of
      Inl e \<Rightarrow> e = Panic \<and> n < unat pages \<and> \<not> unmapped_room s h st n (unat pages)
    | Inr (p, h', t) \<Rightarrow> \<exists>st' gs. p = page_addr h st' \<and> (n < unat pages \<longrightarrow> unmapped_room s h st n (unat pages)) \<and>
        (if unat pages \<le> n \<or> free_run h (st + n) (unat pages - n) then st' = st else first_fit h (unat pages) st') \<and>
        realloc_done s h st n (unat pages) st' h' t gs"
proof -
  let ?m = "unat pages"
  note D = heap_memD [OF hm]
  consider "?m \<le> n" | "n < ?m" "free_run h (st + n) (?m - n)" | "n < ?m" "\<not> free_run h (st + n) (?m - n)" by linarith
  then show ?thesis
  proof cases
    case 1
    then show ?thesis using realloc_shrink_steps [OF hm al pos refl] by fastforce
  next
    case 2
    have "2 * (?m - n) \<le> length fs" using room 2(1) by simp
    note grow = realloc_grow_steps [OF hm al refl 2(1) fits 2(2) fl this]
    show ?thesis
    proof (cases "unmapped_run s h (st + n) (?m - n)")
      case False
      moreover have "\<not> unmapped_room s h st n ?m" using False unmapped_room_here [OF 2(2)] by simp
      ultimately show ?thesis using grow(1) 2(1) by simp
    qed (use grow(2) unmapped_room_here [OF 2(2)] 2 in fastforce)
  next
    case 3
    show ?thesis
    proof (cases "heap_alloc h pages")
      case (Inl e)
      have small: "st + ?m < 2 ^ 31" using fits D(3) by (simp add: heap_wf_def)
      have "heap_ok h" using D(3) by (simp add: heap_wf_def)
      moreover have "heap_realloc h (page_addr h st) pages = Inl e"
        using heap_realloc_unfold [OF D(3) al refl small] 3 Inl by simp
      moreover have "pages \<noteq> 0" using pos by auto
      ultimately show ?thesis
        using heap_alloc_cases [of h pages] pos 3(1) Inl unmapped_room_full [OF 3(2)] by (auto simp: mem_realloc_def)
    next
      case (Inr r)
      obtain p h1 where r: "heap_alloc h pages = Inr (p, h1)" using Inr by (cases r) auto
      obtain st' where st': "first_fit h ?m st'"
        "\<not> unmapped_run s h st' ?m \<Longrightarrow> mem_realloc s h (page_addr h st) pages = Inl Panic"
        "unmapped_run s h st' ?m \<Longrightarrow> \<exists>h' t gs. mem_realloc s h (page_addr h st) pages = Inr (page_addr h st', h', t) \<and>
          realloc_done s h st n ?m st' h' t gs"
        using realloc_move_steps [OF hm al refl 3(1) fits 3(2) r fl room [OF 3(1)]] by blast
      show ?thesis
      proof (cases "unmapped_run s h st' ?m")
        case False
        moreover have "\<not> unmapped_room s h st n ?m" using False unmapped_room_fit [OF 3(2) st'(1)] by simp
        ultimately show ?thesis using st'(2) 3(1) by simp
      qed (use st'(1,3) unmapped_room_fit [OF 3(2) st'(1)] 3 in fastforce)
    qed
  qed
qed

subsection \<open>Properties\<close>

lemma heap_read:
  assumes hm: "heap_mem s h fs" and al: "is_alloc h st n" and i: "i < 4096 * n"
  shows "\<exists>b. vread8 s (page_addr h st + word_of_nat i) = Inr b"
proof -
  note D = heap_memD [OF hm]
  have "page_at s (page_addr h st + word_of_nat i) = page_at s (page_addr h (st + i div 4096))"
    unfolding page_addr_add [symmetric] by (rule page_at_same) (rule run_page [OF heap_addr_aligned [OF D(3)]])
  moreover have "i div 4096 < n" using i by (simp add: less_mult_imp_div_less mult.commute)
  ultimately show ?thesis
    using heap_mem_used(3) [OF hm alloc_page [OF al]] by (simp add: vread8_def page_at_translate [OF D(4)])
qed

lemma realloc_reads:
  assumes hm: "heap_mem s h fs" and al: "is_alloc h st n" and res: "realloc_done s h st n m st' h' t gs"
  shows "\<forall>i < 4096 * min n m. \<exists>b. vread8 s (page_addr h st + word_of_nat i) = Inr b \<and> vread8 t (page_addr h st' + word_of_nat i) = Inr b"
    "\<forall>(a, c) \<in> allocs h - {(st, n)}. \<forall>i < 4096 * c. \<exists>b.
       vread8 s (page_addr h a + word_of_nat i) = Inr b \<and> vread8 t (page_addr h a + word_of_nat i) = Inr b"
proof -
  note D = heap_memD [OF hm] and R = res [unfolded realloc_done_def]
  have hm': "heap_mem t h' gs" using R by blast
  show "\<forall>i < 4096 * min n m. \<exists>b. vread8 s (page_addr h st + word_of_nat i) = Inr b \<and> vread8 t (page_addr h st' + word_of_nat i) = Inr b"
    using heap_read [OF hm al] R by auto
  show "\<forall>(a, c) \<in> allocs h - {(st, n)}. \<forall>i < 4096 * c. \<exists>b.
      vread8 s (page_addr h a + word_of_nat i) = Inr b \<and> vread8 t (page_addr h a + word_of_nat i) = Inr b"
  proof
    fix x
    assume x: "x \<in> allocs h - {(st, n)}"
    obtain a c where ac: "x = (a, c)" by (cases x)
    have a: "is_alloc h a c" using x by (simp add: ac)
    have "a + c \<le> st \<or> st + n \<le> a" using kheap.live_disjoint [OF D(3), of a c st n] x ac al by simp
    then have kept: "page_kept s t (page_addr h (a + k))" if "k < c" for k
      using R alloc_page [OF a that] that by auto
    have "vread8 t (page_addr h a + word_of_nat i) = vread8 s (page_addr h a + word_of_nat i)" if "i < 4096 * c" for i
      by (rule run_read [OF D(4) heap_memD(4) [OF hm'] heap_addr_aligned [OF D(3)] _ that]) (simp add: page_addr_add kept)
    with heap_read [OF hm a] show "case x of (a, c) \<Rightarrow> \<forall>i < 4096 * c. \<exists>b.
        vread8 s (page_addr h a + word_of_nat i) = Inr b \<and> vread8 t (page_addr h a + word_of_nat i) = Inr b"
      unfolding ac prod.case by simp
  qed
qed

lemma kernel_mem_heap: "kernel_mem s fs \<longleftrightarrow> heap_mem s (kernel_heap s) fs"
  by (simp add: kernel_mem_def heap_mem_def)

text \<open>
  C3: Changing the size of an allocation of the kernel, by giving up its last pages, growing it in
  place or moving it, where the longer allocation would still end inside the heap if it stayed where it is (the code does
  not check this), there are two free frames for each page asked for, and the first page of the allocation, which carries
  the flags of the new ones, is no user page. The kernel panics exactly when more pages are asked for and the room
  they take is not there: the free pages behind the allocation when it can grow there, and otherwise the lowest run
  of free pages that is long enough, with no page of it mapped already. A run that is mapped behind the
  allocation is a panic even if other free pages would do. In all other cases
  the invariant of the kernel's memory is kept, exactly this allocation is replaced, by one of the new size at the
  same place or, when it cannot grow there, at the lowest run of free pages, and every byte that is in both sizes reads as before.
  So does every byte of every other allocation. When no page was mapped that the heap does not
  use this is so afterwards too: the pages that were given up are unmapped.
\<close>

theorem kernel_realloc_correct:
  assumes inv: "kernel_mem s fs" and al: "(st, n) \<in> allocs (kernel_heap s)"
    and pos: "0 < pages" and fits: "st + unat pages \<le> unat (page_count (kernel_heap s))"
    and fl: "get_flags (page_at s (page_addr (kernel_heap s) st)) AND PAGE_USER_MODE = 0"
    and room: "n < unat pages \<Longrightarrow> 2 * unat pages \<le> length fs"
  shows "case kernel_realloc s (page_addr (kernel_heap s) st) pages of
      Inl e \<Rightarrow> e = Panic \<and> n < unat pages \<and> \<not> unmapped_room s (kernel_heap s) st n (unat pages)
    | Inr (p, t) \<Rightarrow> \<exists>st' gs. kernel_mem t gs \<and> p = page_addr (kernel_heap s) st' \<and>
        (n < unat pages \<longrightarrow> unmapped_room s (kernel_heap s) st n (unat pages)) \<and>
        (if unat pages \<le> n \<or> free_run (kernel_heap s) (st + n) (unat pages - n) then st' = st
         else first_fit (kernel_heap s) (unat pages) st') \<and>
        allocs (kernel_heap t) = insert (st', unat pages) (allocs (kernel_heap s) - {(st, n)}) \<and>
        (free_unmapped s (kernel_heap s) \<longrightarrow> free_unmapped t (kernel_heap t)) \<and>
        (\<forall>i < 4096 * min n (unat pages). \<exists>b.
           vread8 s (page_addr (kernel_heap s) st + word_of_nat i) = Inr b \<and> vread8 t (p + word_of_nat i) = Inr b) \<and>
        (\<forall>(a, c) \<in> allocs (kernel_heap s) - {(st, n)}. \<forall>i < 4096 * c. \<exists>b.
           vread8 s (page_addr (kernel_heap s) a + word_of_nat i) = Inr b \<and>
           vread8 t (page_addr (kernel_heap s) a + word_of_nat i) = Inr b)"
proof -
  let ?h = "kernel_heap s"
  have hm: "heap_mem s ?h fs" and al': "is_alloc ?h st n" using inv al by (simp_all add: kernel_mem_heap)
  note D = heap_memD [OF hm] and ok = mem_realloc_ok [OF hm al' pos fits fl room]
  show ?thesis
  proof (cases "mem_realloc s ?h (page_addr ?h st) pages")
    case (Inl e)
    then show ?thesis using ok by (simp add: kernel_realloc_def)
  next
    case (Inr r)
    obtain p h' t where r: "r = (p, h', t)" by (cases r)
    obtain st' gs where p: "p = page_addr ?h st'" "n < unat pages \<longrightarrow> unmapped_room s ?h st n (unat pages)"
      "if unat pages \<le> n \<or> free_run ?h (st + n) (unat pages - n) then st' = st else first_fit ?h (unat pages) st'"
      and res: "realloc_done s ?h st n (unat pages) st' h' t gs"
      using ok Inr r by auto
    have "kernel_realloc s (page_addr ?h st) pages = Inr (p, t\<lparr>kernel_heap := h'\<rparr>)"
      using Inr by (simp add: kernel_realloc_def r)
    moreover have "kernel_mem (t\<lparr>kernel_heap := h'\<rparr>) gs" using res by (simp add: realloc_done_def kernel_mem_heap heap_mem_def)
    moreover have "vread8 (t\<lparr>kernel_heap := h'\<rparr>) v = vread8 t v" for v by (simp add: vread8_def)
    moreover note realloc_reads [OF hm al' res]
    ultimately show ?thesis
      using p res unfolding realloc_done_def by (simp only: sum.case prod.case) (intro exI [of _ st'] exI [of _ gs], simp add: free_unmapped_def)
  qed
qed

text \<open>A kernel with a heap of six pages, one of which is allocated.\<close>

lemma small_heap:
  assumes inv: "mem_inv s fs" and sp: "space_ok s" and v: "free_list_head s = 0xC0005000"
  shows "heap_mem s heap_empty fs" "free_unmapped s heap_empty"
proof -
  have pc: "unat (page_count heap_empty) = 6" by (simp add: heap_empty_def)
  have u: "unat (page_addr heap_empty k) = 0xC0400000 + 4096 * k" if "k < 6" for k
    using that by (simp add: page_addr_page_no page_no_unat heap_empty_def)
  have absent: "\<not> entry_present (page_at s (page_addr heap_empty k))" if "k < 6" for k
    using sp u [OF that] that by (simp add: space_ok_def v PAGE_SIZE_def word_le_nat_alt word_less_nat_alt)
  have "plain_page s (page_addr heap_empty k)" if "k < 6" for k
  proof -
    have "get_pd_index (page_addr heap_empty k) = 0x301"
      using u [OF that] that by (simp add: word_unat_eq_iff unat_pd_index)
    moreover have "drop_bit 12 (page_addr heap_empty k) \<noteq> drop_bit 12 (0xC0005000 :: u32)"
      unfolding drop_bit_12_eq using u [OF that] by simp
    ultimately show ?thesis by (simp add: plain_page_def v)
  qed
  moreover have "page_use heap_empty k = 0" for k
    by (simp add: page_use_def heap_get_usage_def heap_empty_def Let_def)
  ultimately show "heap_mem s heap_empty fs"
    using inv heap_empty_wf by (simp add: heap_mem_def heap_backed_def pc)
  show "free_unmapped s heap_empty" using absent by (simp add: free_unmapped_def pc)
qed

lemma small_alloc:
  obtains s p t gs where "kernel_alloc s 1 = Inr (p, t)" "kernel_mem t gs" "p = page_addr (kernel_heap t) 0"
    "(0, 1) \<in> allocs (kernel_heap t)" "6 \<le> length gs" "page_count (kernel_heap t) = 6"
    "free_unmapped t (kernel_heap t)" "free_run (kernel_heap t) 1 3" "get_flags (page_at t p) = 3"
proof (rule high_frames)
  fix s fs
  assume s: "mem_inv s fs" "space_ok s" "34 \<le> length fs" "kernel_heap s = heap_empty" "free_list_head s = 0xC0005000"
  note hm = small_heap [OF s(1,2,5)]
  note D = heap_memD [OF hm(1)]
  have n: "unat (1 :: u32) = 1" "(0 :: u32) < 1" "PAGE_WRITABLE < 0x1000" by (simp_all add: PAGE_WRITABLE_def)
  have "free_run heap_empty 0 1" by (simp add: free_run_def heap_eval)
  then obtain p h' where al: "heap_alloc heap_empty 1 = Inr (p, h')"
    using heap_alloc_succeeds [of heap_empty 1 0] heap_empty_wf by (auto simp: heap_wf_def heap_empty_def)
  obtain st where "p = page_addr heap_empty st" "first_fit heap_empty 1 st" "heap_wf h'" "heap_start h' = heap_start heap_empty"
    "page_count h' = page_count heap_empty"
    "\<forall>k \<le> unat (page_count heap_empty). \<not> (st \<le> k \<and> k < st + 1) \<longrightarrow> page_use h' k = page_use heap_empty k"
    using heap_alloc_effect [OF D(3) n(2) al] by (auto simp: n)
  note h' = this [unfolded first_fit_unique [OF this(2) demo_first_fit]]
  have un: "\<forall>k < unat (1 :: u32). \<not> entry_present (page_at s (page_no p k))"
    using first_fit_unmapped [OF hm(2) demo_first_fit, of 0] by (simp add: h'(1))
  have room: "2 * unat (1 :: u32) \<le> length fs" using s(3) by simp
  obtain t ps gs st1 where t: "mem_alloc s heap_empty 1 PAGE_WRITABLE = Inr (p, h', t)" "first_fit heap_empty 1 st1"
    "allocs h' = insert (st1, 1) (allocs heap_empty)" "mem_inv t gs" "heap_backed t h' PAGE_WRITABLE"
    "length ps = 1" "backed t p PAGE_WRITABLE ps"
    "\<forall>w. plain_page s w \<longrightarrow> drop_bit 12 w \<noteq> drop_bit 12 p \<longrightarrow> page_at t w = page_at s w" "length fs \<le> length gs + 2"
    using mem_alloc_steps [OF D(1,2) n(2,3) room al un] by (auto simp: n)
  have pc: "page_count h' = 6" using h'(5) by (simp add: heap_empty_def)
  have addr: "page_addr h' k = page_addr heap_empty k" for k by (simp add: page_addr_def h'(4))
  have use: "page_use h' k = 0" if "0 < k" "k < 6" for k
    using h'(6) that by (simp add: heap_empty_def page_use_def heap_get_usage_def Let_def)
  have "\<not> entry_present (page_at t (page_addr h' k))" if k: "k < 6" "page_use h' k = 0" for k
  proof (cases "k = 0")
    case True
    have "(st1, 1) \<in> allocs h'" using t(3) by simp
    then have "is_alloc h' 0 1" using first_fit_unique [OF t(2) demo_first_fit] by simp
    then show ?thesis using alloc_page(2) [of h' 0 1 0] k(2) True by simp
  next
    case False
    have k6: "k < unat (page_count heap_empty)" "0 < unat (page_count heap_empty)" using k(1) by (simp_all add: heap_empty_def)
    have "drop_bit 12 (page_addr heap_empty k) \<noteq> drop_bit 12 p"
      using page_addr_inj [OF D(3) k6] False by (simp add: h'(1))
    moreover have "plain_page s (page_addr heap_empty k)" using D(2) k6(1) unfolding heap_backed_def by blast
    moreover have "\<not> entry_present (page_at s (page_addr heap_empty k))"
      using hm(2) k6(1) by (simp add: free_unmapped_def heap_eval)
    ultimately show ?thesis using t(8) by (simp add: addr)
  qed
  then have "free_unmapped t h'" by (simp add: free_unmapped_def pc)
  moreover have "free_run h' 1 3" using use by (simp add: free_run_def)
  moreover have "get_flags (page_at t p) = 3"
    using t(6,7) get_flags_create_entry [OF n(3)] by (auto simp: backed_def PAGE_WRITABLE_def dest: spec [of _ 0])
  moreover have "(0, 1) \<in> allocs h'" using t(3) first_fit_unique [OF t(2) demo_first_fit] by auto
  ultimately show thesis
    using t(1,4,5,9) s(3,4) pc
    by (intro that [of s p "t\<lparr>kernel_heap := h'\<rparr>" gs]) (simp_all add: kernel_alloc_def kernel_mem_def h'(1) addr free_unmapped_def)
qed

theorem kernel_realloc_correct_witness:
  "\<exists>s p t q u. kernel_alloc s 1 = Inr (p, t) \<and> kernel_realloc t p 3 = Inr (q, u) \<and>
     (\<forall>i < 4096. \<exists>b. vread8 t (p + word_of_nat i) = Inr b \<and> vread8 u (q + word_of_nat i) = Inr b)"
proof (rule small_alloc)
  fix s p t gs
  assume t: "kernel_alloc s 1 = Inr (p, t)" "kernel_mem t gs" "p = page_addr (kernel_heap t) 0"
    "(0, 1) \<in> allocs (kernel_heap t)" "6 \<le> length gs" "page_count (kernel_heap t) = 6"
    "free_unmapped t (kernel_heap t)" "free_run (kernel_heap t) 1 3" "get_flags (page_at t p) = 3"
  have n: "(0 :: u32) < 3" "unat (3 :: u32) = 3" by simp_all
  have fl: "get_flags (page_at t (page_addr (kernel_heap t) 0)) AND PAGE_USER_MODE = 0"
    using t(9) by (simp add: t(3) PAGE_USER_MODE_def)
  note ok = kernel_realloc_correct [OF t(2,4) n(1) _ fl, unfolded n(2), folded t(3)]
  show ?thesis
  proof (cases "kernel_realloc t p 3")
    case (Inl e)
    have "\<not> entry_present (page_at t (page_addr (kernel_heap t) (1 + k)))" if "k < 2" for k
      using t(6,7,8) that by (simp add: free_unmapped_def free_run_def)
    moreover have "free_run (kernel_heap t) 1 2" using t(8) by (simp add: free_run_def)
    ultimately have "unmapped_room t (kernel_heap t) 0 1 3" by (simp add: unmapped_room_def)
    then show ?thesis using ok t(5,6) Inl by auto
  next
    case (Inr r)
    then show ?thesis
      using ok t(1,5,6) by (cases r) (intro exI [of _ s] exI [of _ p] exI [of _ t] exI [of _ "fst r"] exI [of _ "snd r"], auto)
  qed
qed

end
