(* ===== verification/Spec2Isabelle.thy ===== *)
theory Spec2Isabelle
  imports Kernel MailboxQueue VirtMemProps ProcCalls HeapDebug KernelBoot KernelRealloc FormatItems
begin

text \<open>
  A verification of the ParadiseOS kernel (the C code under \<^verbatim>\<open>src/src\<close>; all file names
  below are relative to it). The operations of the kernel are HOL functions on explicit states,
  translated one by one from the code; the properties are theorems about these functions.

  \<^bold>\<open>The program.\<close> \<^verbatim>\<open>kernel/kernel.c\<close> brings the machine up: terminal, memory,
  interrupts, timer, keyboard, system calls, processes. \<^verbatim>\<open>memory/mem.c\<close> owns the physical
  frames (a free list whose head is mapped in one window page) and the page tables (reached
  through a self map in the last directory entry), and backs runs of pages that
  \<^verbatim>\<open>memory/heap.c\<close> hands out. \<^verbatim>\<open>process/processes.c\<close> keeps processes in objects of
  \<^verbatim>\<open>process/pool.c\<close>, finds them by identifier in the red-black tree of
  \<^verbatim>\<open>process/rb_tree.c\<close> and schedules them by the queue of \<^verbatim>\<open>process/queue.c\<close>; they
  exchange messages through \<^verbatim>\<open>ipc/mailbox.c\<close>. Interrupts and system calls enter through
  \<^verbatim>\<open>interrupts/interrupt.c\<close> and \<^verbatim>\<open>syscall/syscall.c\<close>; output goes through
  \<^verbatim>\<open>lib/strings.c\<close>, \<^verbatim>\<open>lib/logging.c\<close>, the terminal and the serial line.

  \<^bold>\<open>Conventions.\<close> Integers are words of their C width (\<open>u8\<close>, \<open>u16\<close>, \<open>u32\<close>, \<open>u64\<close>), so that
  arithmetic wraps. A function that may stop the machine returns \<open>'a res\<close>, a sum of \<open>stop\<close>
  (\<open>Panic\<close> for \<^verbatim>\<open>kernel_panic\<close> and failed assertions, \<open>PageFault\<close>, \<open>OutOfBounds\<close>,
  \<open>Diverges\<close>) and the result; \<open>bind_res\<close> composes the steps. Null pointers are 0. A loop with a
  known number of rounds is structural recursion on that number; a loop over a pointer or a
  counter takes as fuel the number of rounds after which it must repeat (\<open>2 ^ 32\<close> for a 32-bit
  pointer, \<open>2 ^ 64\<close> for the loops of the mailbox with a 32-bit and two 16-bit variables,
  \<open>2 ^ 16\<close> for the identifiers, 256 for the entries of an executable); running out is
  \<open>Diverges\<close>, and the theorems on these loops show that it does not happen. The waits
  for a device are \<^theory_text>\<open>partial_function (option)\<close>s.

  \<^bold>\<open>Theories\<close>
  \<^item> \<open>Prelude\<close>: integer types, results, lists and words (\<^verbatim>\<open>lib/types.h\<close>,
    \<^verbatim>\<open>lib/error.c\<close>). \<open>Interfaces\<close>: the locales \<open>page_allocator\<close>, \<open>fifo\<close>,
    \<open>finite_table\<close>, \<open>object_pool\<close>, each interpreted on the definitions of its provider
    (\<open>PageHeap\<close>, \<open>ProcQueue\<close>, \<open>RbTable\<close>, \<open>Pool\<close>).
  \<^item> \<open>Memory\<close>: byte-addressed physical memory, double words, entries of page tables.
    \<open>Paging\<close>: the state \<open>kmem\<close> of \<^verbatim>\<open>memory/mem.c\<close>, address translation by the walk of the
    processor with the set of pages whose cached translation is stale, and \<open>map_page\<close>,
    \<open>unmap_page\<close>, \<open>alloc_frame\<close>, \<open>free_frame\<close>, \<open>swap_page_frames\<close>. \<open>Frames\<close>: the invariant
    \<open>mem_inv\<close> (self map, window, free list of distinct unreferenced frames) and what each of them
    does to the translations.
  \<^item> \<open>PageHeap\<close>: \<^verbatim>\<open>memory/heap.c\<close>, the usage map of two bits per page as an allocator of
    runs. \<open>MemManager\<close>: the runs of pages, the boot of the memory manager, the kernel heap,
    checks of user pointers. \<open>MemManagerProps\<close> and \<open>HeapPages\<close>: runs of pages backed by frames,
    and the invariant \<open>kernel_mem\<close> that joins heap and page tables. \<open>AddressSpaces\<close>: the page
    directory of a new process and the address space it gives. \<open>BootFrames\<close>: the loop that gives the frames
    of a memory region to the free list. \<open>HeapInit\<close>: what \<^verbatim>\<open>init_heap\<close> makes of the address space
    behind the free list; a free page of the kernel heap may be mapped, since the two heaps it makes
    overlap. \<open>KernelRealloc\<close>: the ways out of \<^verbatim>\<open>mem_realloc\<close>, with the bytes that can be
    read before and after and the condition (\<open>unmapped_room\<close>) on which it does not panic. \<open>HeapDebug\<close>: the picture of a heap and the check \<^verbatim>\<open>debug_heap\<close>.
  \<^item> \<open>BootCode\<close>: the paging structures that \<^verbatim>\<open>boot/boot.s\<close> builds. They enter one table twice, so
    \<open>paging_ok\<close> fails until \<^verbatim>\<open>reinit_paging\<close>; \<open>BootPaging\<close> compares the run of the kernel with one
    from a state in which the first of the two entries is cleared and the invariant holds,
    \<open>BootMemory\<close> follows \<^verbatim>\<open>init_free_list_page\<close>, \<^verbatim>\<open>init_frames\<close> and \<^verbatim>\<open>reinit_paging\<close> in this way,
    and \<open>BootInit\<close> puts the boot code and all of \<^verbatim>\<open>mem_init\<close> together: the address space, the free list, the
    map of the user memory and its page, and the split of the frames between kernel and user.
    \<open>KernelBoot\<close>: the components of the boot sequence on a machine whose devices answer, and the messages that it
    prints on the screen and the serial line; the theorem at
    the end of this theory joins them with the process calls.
  \<^item> \<open>Libp\<close>: \<^verbatim>\<open>lib/libp.c\<close>, copying, comparing, random numbers. \<open>Strings\<close> and
    \<open>StringsProps\<close>: the formatter \<^verbatim>\<open>lib/strings.c\<close>, against a specification as a list of
    pieces of text; \<open>FormatItems\<close> extends it to all directives, those for characters and doubles and
    the unknown ones included. \<open>Serial\<close>, \<open>Terminal\<close>, \<open>TerminalLog\<close>, \<open>Logging\<close>: \<^verbatim>\<open>drivers/serial\<close>,
    \<^verbatim>\<open>terminal\<close>, \<^verbatim>\<open>lib/logging.c\<close>; the terminal refines a log of lines.
  \<^item> \<open>Descriptors\<close>, \<open>Interrupts\<close>, \<open>Keyboard\<close>, \<open>Syscalls\<close>: \<^verbatim>\<open>kernel/init.c\<close>,
    \<^verbatim>\<open>interrupts/interrupt.c\<close>, \<^verbatim>\<open>drivers/timer\<close>, \<^verbatim>\<open>drivers/keyboard\<close>,
    \<^verbatim>\<open>syscall/syscall.c\<close>.
  \<^item> \<open>ProcQueue\<close>: \<^verbatim>\<open>process/queue.c\<close> refines a list. \<open>RbTree\<close>: \<^verbatim>\<open>process/rb_tree.c\<close>;
    \<open>RbShape\<close> relates the node memory to coloured trees and contexts, \<open>RbInsert\<close>, \<open>RbRepair\<close> and
    \<open>RbRemove\<close> follow the loops of insertion and removal, \<open>RbMap\<close> and \<open>RbTable\<close> state that the tree
    is a finite map. \<open>Pool\<close>: \<^verbatim>\<open>process/pool.c\<close>.
  \<^item> \<open>Mailbox\<close>: \<^verbatim>\<open>ipc/mailbox.c\<close>; \<open>MailboxProps\<close>: the ring of bytes in the doubly mapped
    page; \<open>MailboxFifo\<close>: the ring holds a sequence of messages, which the search, the crossing out
    and the clean-up follow; \<open>MailboxQueue\<close>: the contracts of sending and reading. \<open>Sun\<close>: \<^verbatim>\<open>sun/sun.c\<close>. \<open>ProcState\<close>, \<open>VirtMem\<close>, \<open>Processes\<close>:
    \<^verbatim>\<open>process/processes.c\<close> and the system calls of \<^verbatim>\<open>memory/mem.c\<close> over the common state
    \<open>kstate\<close>; \<open>ProcProps\<close>: saving and restoring contexts, preemption, free identifiers;
    \<open>VirtMemProps\<close>: mapping frames into the address space of another process; \<open>ProcTable\<close>: the
    invariant \<open>proc_inv\<close> of pool, table, page directories and kernel memory, which creating and
    deleting processes keep; \<open>ProcCalls\<close>: sequences of registrations, deletions and lookups refine a set of identifiers;
    \<open>Kernel\<close>: \<^verbatim>\<open>kernel/kernel.c\<close>.

  \<^bold>\<open>What is a parameter.\<close> The devices behind the ports are a function of the writes so far and
  the number of reads; the arithmetic of doubles, the contents of the FPU state, the information
  of the boot loader, the addresses of the linker script, and the functions behind the addresses
  in the tables of handlers and system calls are arguments of the definitions that use them.

  \<^bold>\<open>Not modelled.\<close> Assembly routines but for the page tables of the boot code and
  the effect their C callers rely on (loads of
  descriptor tables, port access, saving and loading registers); the accessed and dirty bits that
  the processor sets in page tables, and the write protection that the kernel switches off during
  boot; the self tests under \<^verbatim>\<open>tests\<close>. Fields of the
  objects of type \<^verbatim>\<open>Process\<close>, tree nodes and queue nodes are kept in maps indexed by address
  instead of bytes of memory; the process control block and the mailbox messages are bytes in
  virtual memory. The literals and the buffer of \<^verbatim>\<open>printk\<close> are a byte array of their own, apart
  from the memory that \<^verbatim>\<open>memory/mem.c\<close> manages; the messages that the mailbox and the dispatcher of system calls
  print are recorded in a list instead of being shown. A message buffer that a reader gives and that overlaps its own process control
  block is only covered by the definitions, not by the theorems.
\<close>

section \<open>The components together\<close>

text \<open>
  C7: Starting the kernel. Whatever the memory holds outside of the loaded image, if the devices answer (the boot
  loader set a text mode; the transmitter of the serial line becomes empty again and again, since every message waits for it, also
  before the line is set up; the line passes its loopback test) and the memory map
  holds 38 frames for the kernel, whose number of pages is not 3 modulo 4, the boot code and all initialisations of \<open>kernel_main\<close> return. The
  screen then shows exactly the ten messages of the boot sequence, wrapped and scrolled; the serial line got the same bytes, with the
  divisor and the test byte of its set-up between them; every system call is registered, timer and keyboard have their interrupts, the
  scheduler is the callback of the timer, and address space, free list and heap are those that the theory \<open>BootInit\<close> gives.
  Then there is no process. A sequence of registrations, deletions and lookups of processes that returns
  keeps the invariant of the process table and refines a set of identifiers that is empty first, on two conditions:
  there are four free frames for each registration, and no deletion is of an identifier with a thread part.
  \<open>kernel_main\<close> itself goes on to the scheduler and panics, since nothing is there to run.
\<close>

theorem kernel_boot_correct:
  fixes I M dir table
  defines "l \<equiv> im_layout I" and "mb \<equiv> im_mb I" and "s \<equiv> km (kst M)"
  assumes lo: "layout_ok l" and al: "frame_aligned dir" "frame_aligned table" and ne: "dir \<noteq> table"
    and img: "{dir, table} \<subseteq> {0x100000 ..< kernel_end_paddr l}" and n4: "image_pages l mod 4 \<noteq> 3"
    and r: "regions_ok l mb" and room: "38 \<le> card (kernel_frames l mb)"
    and dev: "devices_ok I M" and ld: "loaded I dir table M"
  shows "\<exists>u N gs. boot_start l dir table s = Inr u \<and> kernel_init I (after_boot M u) = Inr N \<and> kernel_main I (after_boot M u) = Inl Panic \<and>
    booted l mb dir table s (km (kst N)) gs \<and> width (screen N) = framebuffer_width mb \<and>
    displays (screen N) (log_print (unat (framebuffer_width mb)) (Terminal.color (screen N)) (boot_text l @ sun_message) ([], [])) \<and>
    serial_data (ports N) = serial_data (ports M) @ boot_text l @ [3, 0xAE] @ sun_message \<and>
    kernel_syscalls (im_syscalls I) (replicate 101 0) = Inr (syscall_table N) \<and>
    irq_routines N = (irq_routines M)[0 := im_timer_handler I, 1 := im_keyboard_handler I] \<and>
    sched_callback (tmr N) = im_preempt I \<and> proc_inv (kst N) gs {} Map.empty [] \<and>
    (\<forall>xs st'. proc_calls (kst N) xs st' \<longrightarrow> 4 * length (filter (\<lambda>c. fst c = Register) xs) \<le> length gs \<longrightarrow>
       (\<forall>pid e. (Delete pid, e) \<in> set xs \<longrightarrow> get_pid_tid pid = 0) \<longrightarrow>
       (\<exists>gs' objs P fs. proc_inv st' gs' objs P fs \<and> spec_calls {} xs (dom P)))"
proof -
  have z: "free_frame_paddr s = 0" "user_physical_map s = []" using ld by (simp_all add: loaded_def s_def)
  obtain u t gs where u: "boot_start l dir table s = Inr u" "mem_init l mb u = Inr t" "booted l mb dir table s t gs"
    using mem_init_ok [OF lo al ne img z r room] by blast
  have "sun_init t (im_sun_file I) (im_MAGIC I) = Inr ()"
    by (rule sun_init_ok [OF lo u(3)]) (use ld in \<open>simp add: loaded_def l_def s_def\<close>)
  from kernel_init_ok [OF dev ld u(2) [unfolded l_def mb_def] this] obtain N where
    N: "kernel_init I (after_boot M u) = Inr N" "km (kst N) = t" "free_list (process_pool (kst N)) = 0"
      "rbtree (rbnodes (kst N)) (process_tree (kst N)) Lf" "nil (process_tree (kst N)) = nil (process_tree (kst M))"
      "width (screen N) = framebuffer_width mb"
      "displays (screen N) (log_print (unat (width (screen N))) (Terminal.color (screen N)) (boot_text l @ sun_message) ([], []))"
      "serial_data (ports N) = serial_data (ports M) @ boot_text l @ [3, 0xAE] @ sun_message"
      "kernel_syscalls (im_syscalls I) (replicate 101 0) = Inr (syscall_table N)"
      "irq_routines N = (irq_routines M)[0 := im_timer_handler I, 1 := im_keyboard_handler I]" "sched_callback (tmr N) = im_preempt I"
    unfolding l_def mb_def by blast
  have inv: "proc_inv (kst N) gs {} Map.empty []"
    by (rule booted_proc_inv [OF lo u(3) n4 N(2-4)]) (use ld N(5) in \<open>simp add: loaded_def l_def\<close>)
  have "kernel_main I (after_boot M u) = Inl Panic" using N(1) kernel_init_queue [OF N(1)] by (simp add: kernel_main_def)
  moreover have "\<exists>gs' objs P fs. proc_inv st' gs' objs P fs \<and> spec_calls {} xs (dom P)"
    if c: "proc_calls (kst N) xs st'" "4 * length (filter (\<lambda>c. fst c = Register) xs) \<le> length gs"
      "\<forall>pid e. (Delete pid, e) \<in> set xs \<longrightarrow> get_pid_tid pid = 0" for xs st'
    using proc_calls_ok [OF c(1) inv c(2)] c(3) by (simp add: deletes_ok_def)
  ultimately show ?thesis using u N inv N(7) [unfolded N(6)] by blast
qed

theorem kernel_boot_correct_witness:
  "\<exists>M u N gs. boot_start small_layout 0x101000 0x102000 (km (kst M)) = Inr u \<and> kernel_init small_image (after_boot M u) = Inr N \<and>
     displays (screen N) (log_print 80 (Terminal.color (screen N)) (boot_text small_layout @ sun_message) ([], [])) \<and>
     serial_data (ports N) = serial_data (ports M) @ boot_text small_layout @ [3, 0xAE] @ sun_message \<and>
     proc_inv (kst N) gs {} Map.empty []"
proof (rule small_machine)
  fix M
  assume M: "devices_ok small_image M" "loaded small_image 0x101000 0x102000 M"
  have i: "im_layout small_image = small_layout" "im_mb small_image = small_map" by (simp_all add: small_image_def)
  have l: "layout_ok small_layout" "image_pages small_layout mod 4 \<noteq> 3" by (simp_all add: layout_ok_def small_layout_def image_pages_def)
  have a: "frame_aligned 0x101000" "frame_aligned 0x102000" "(0x101000 :: u32) \<noteq> 0x102000" by (simp_all add: frame_aligned_def)
  have s: "{0x101000, 0x102000} \<subseteq> {0x100000 ..< kernel_end_paddr small_layout}" by (simp add: small_layout_def)
  from kernel_boot_correct [of small_image "0x101000" "0x102000" M, unfolded i, OF l(1) a s l(2) small_regions small_room M] obtain u N gs where
    "boot_start small_layout 0x101000 0x102000 (km (kst M)) = Inr u" "kernel_init small_image (after_boot M u) = Inr N"
    "proc_inv (kst N) gs {} Map.empty []" "serial_data (ports N) = serial_data (ports M) @ boot_text small_layout @ [3, 0xAE] @ sun_message"
    and d: "displays (screen N) (log_print (unat (framebuffer_width small_map)) (Terminal.color (screen N)) (boot_text small_layout @ sun_message) ([], []))"
    by blast
  moreover have "unat (framebuffer_width small_map) = 80" by (simp add: small_map_def)
  ultimately show ?thesis using d by auto
qed

end
